(* ===== verification/Prelude.thy ===== *)
theory Prelude
  imports Main "HOL-Library.Word"
begin

text \<open>
  What every other theory of the development shares: the machine types of the Go program,
  the error values of package \<^verbatim>\<open>internal/tcpstream\<close>, Go's slice expression with its run-time
  check, big-endian integers (package \<^verbatim>\<open>encoding/binary\<close>), the sets of numbered bytes that
  specify a byte stream, and the collections of simplification rules.

  A Go \<^verbatim>\<open>uint64\<close> is a \<^typ>\<open>64 word\<close> and wraps as in Go; a Go \<^verbatim>\<open>int\<close> that holds a length is
  the \<^typ>\<open>nat\<close> length of a list, and a Go \<^verbatim>\<open>int\<close> that is updated by subtraction is an \<^typ>\<open>int\<close>.
  A slice is never longer than the largest \<^verbatim>\<open>int\<close>: that bound is \<open>is_slice\<close>.
\<close>

section \<open>Types\<close>

type_synonym byte = "8 word"
type_synonym u16 = "16 word"
type_synonym u32 = "32 word"
type_synonym u64 = "64 word"

text \<open>
  The error values of packages \<^verbatim>\<open>tcpstream\<close> and \<^verbatim>\<open>socks5\<close> and those of the Go packages they use.
  \<^verbatim>\<open>fmt.Errorf("%w: ...", Err...)\<close> wraps a sentinel and is modelled by the sentinel that
  \<^verbatim>\<open>errors.Is\<close> finds in it; \<open>IOErr n\<close> is any other error of a connection.
\<close>

datatype go_error =
    EOF | UnexpectedEOF | ErrShortWrite | ErrNetClosed | IOErr nat
  | ErrInvalidPreface | ErrInvalidFrame | ErrPayloadLength | ErrInvalidDestination
  | ErrReorderWindow | ErrOverlap | ErrFIN | ErrSegmentLimit
  | ErrNoCarriers | ErrMaxCarriers | ErrOpenTimeout
  | ErrInvalidPeerAuth | ErrPeerAuthenticationFailed
  | ErrPeerAuthenticationRequired | ErrPeerAuthenticationDowngrade
  | ErrSmux nat | OpenError byte
  | ErrInvalidRequest | ErrInvalidReply | ErrNoAcceptableMethod | ErrSocksAuthentication | ErrCommandNotSupported

section \<open>Collections of rules\<close>

named_theorems unat_simps "facts that turn word arithmetic into arithmetic on naturals"
named_theorems cells_simps "the numbered bytes of lists and slices"

section \<open>Lengths as words\<close>

definition is_slice :: "'a list \<Rightarrow> bool" where
  "is_slice xs \<longleftrightarrow> length xs < 2 ^ 63"

definition len64 :: "'a list \<Rightarrow> u64" where
  "len64 xs = word_of_nat (length xs)"

lemma is_slice_Nil [simp]: "is_slice []"
  by (simp add: is_slice_def)

lemma unat_word_of_nat: "unat (word_of_nat v :: 'a::len word) = v mod 2 ^ LENGTH('a)"
  by (simp add: unsigned_of_nat take_bit_eq_mod)

lemma unat_len64 [unat_simps]: "length xs < 2 ^ 64 \<Longrightarrow> unat (len64 xs) = length xs"
  by (simp add: len64_def unat_word_of_nat)

lemma unat_len64_slice [unat_simps]: "is_slice xs \<Longrightarrow> unat (len64 xs) = length xs"
  by (simp add: is_slice_def unat_len64)

lemma unat_lt_2_64 [simp]: "unat (x :: u64) < 2 ^ 64"
  using unsigned_less [where ?'a = nat, of x] by simp

lemma unat_max_u64 [unat_simps]: "unat (- 1 :: u64) = 2 ^ 64 - 1"
  by (simp add: unsigned_minus_1_eq_mask mask_eq_exp_minus_1)

lemma unat_add_len64 [unat_simps]:
  "unat off + length xs < 2 ^ 64 \<Longrightarrow> unat (off + len64 xs) = unat off + length xs"
  by (simp add: unat_plus_if' unat_len64)

lemma unat_minus_u64 [unat_simps]: "(b :: u64) \<le> a \<Longrightarrow> unat (a - b) = unat a - unat b"
  by (simp add: unat_sub_if' word_le_nat_alt)

lemma unat_of_int_u64: "0 \<le> n \<Longrightarrow> n < 2 ^ 64 \<Longrightarrow> unat (word_of_int n :: u64) = nat n"
  by (simp add: unsigned_of_int take_bit_int_eq_self)

text \<open>Go's \<^verbatim>\<open>offset > ^uint64(0)-uint64(len(payload))\<close>: the range ends beyond the counter.\<close>

lemma offset_fits:
  assumes "is_slice xs" and "\<not> off > - 1 - len64 xs"
  shows "unat off + length xs < 2 ^ 64"
proof -
  have "unat off \<le> unat (- 1 - len64 xs)"
    using assms(2) by (simp add: word_le_nat_alt not_less)
  also have "\<dots> = unat (- 1 :: u64) - unat (len64 xs)"
    by (rule unat_minus_u64) (rule word_order.extremum)
  also have "\<dots> = 2 ^ 64 - 1 - length xs"
    using assms(1) by (simp add: unat_len64_slice unat_max_u64)
  finally have "unat off \<le> 2 ^ 64 - 1 - length xs" .
  with assms(1) show ?thesis by (simp add: is_slice_def)
qed

lemma offset_overflows:
  assumes "is_slice xs" and "unat off + length xs < 2 ^ 64"
  shows "\<not> off > - 1 - len64 xs"
proof -
  have "unat (- 1 - len64 xs) = unat (- 1 :: u64) - unat (len64 xs)"
    by (rule unat_minus_u64) (rule word_order.extremum)
  also have "\<dots> = 2 ^ 64 - 1 - length xs"
    using assms(1) by (simp add: unat_len64_slice unat_max_u64)
  finally have "unat off \<le> unat (- 1 - len64 xs)"
    using assms(2) by simp
  then show ?thesis by (simp add: word_le_nat_alt not_less)
qed

section \<open>Slice expressions\<close>

text \<open>\<^verbatim>\<open>xs[lo:hi]\<close> panics unless \<^verbatim>\<open>lo <= hi <= len(xs)\<close>; a panic is \<open>None\<close>.\<close>

definition go_slice :: "'a list \<Rightarrow> nat \<Rightarrow> nat \<Rightarrow> 'a list option" where
  "go_slice xs lo hi =
     (if lo \<le> hi \<and> hi \<le> length xs then Some (take (hi - lo) (drop lo xs)) else None)"

lemma go_slice_Some:
  "lo \<le> hi \<Longrightarrow> hi \<le> length xs \<Longrightarrow> go_slice xs lo hi = Some (take (hi - lo) (drop lo xs))"
  by (simp add: go_slice_def)

lemma length_go_slice: "go_slice xs lo hi = Some ys \<Longrightarrow> length ys = hi - lo"
  by (auto simp: go_slice_def split: if_splits)

section \<open>Big-endian integers\<close>

fun be_bytes :: "nat \<Rightarrow> nat \<Rightarrow> byte list" where
  "be_bytes 0 v = []"
| "be_bytes (Suc n) v = be_bytes n (v div 256) @ [word_of_nat v]"

definition be_val :: "byte list \<Rightarrow> nat" where
  "be_val bs = foldl (\<lambda>acc b. acc * 256 + unat b) 0 bs"

lemma be_val_Nil [simp]: "be_val [] = 0"
  by (simp add: be_val_def)

lemma be_val_snoc [simp]: "be_val (bs @ [b]) = be_val bs * 256 + unat b"
  by (simp add: be_val_def)

lemma length_be_bytes [simp]: "length (be_bytes n v) = n"
  by (induction n arbitrary: v) auto

lemma unat_byte_of_nat: "unat (word_of_nat v :: byte) = v mod 256"
  by (simp add: unat_word_of_nat)

lemma unat_byte_lt [simp]: "unat (b :: byte) < 256"
  using unsigned_less [where ?'a = nat, of b] by simp

lemma be_val_be_bytes: "be_val (be_bytes n v) = v mod 256 ^ n"
proof (induction n arbitrary: v)
  case 0
  show ?case by simp
next
  case (Suc n)
  have "v mod 256 ^ Suc n = 256 * (v div 256 mod 256 ^ n) + v mod 256"
    using mod_mult2_eq [of v 256 "256 ^ n"] by simp
  with Suc.IH [of "v div 256"] show ?case by (simp add: unat_byte_of_nat)
qed

lemma be_bytes_be_val: "length bs = n \<Longrightarrow> be_bytes n (be_val bs) = bs"
proof (induction n arbitrary: bs)
  case 0
  then show ?case by simp
next
  case (Suc n)
  then obtain bs' b where bs: "bs = bs' @ [b]" and len: "length bs' = n"
    by (metis append_butlast_last_id length_butlast diff_Suc_1 list.size(3) nat.distinct(1))
  have "unat (word_of_nat (be_val bs' * 256 + unat b) :: byte) = unat b"
    unfolding unat_byte_of_nat by simp
  then have b: "(word_of_nat (be_val bs' * 256 + unat b) :: byte) = b"
    by (simp only: word_unat_eq_iff)
  have "(be_val bs' * 256 + unat b) div 256 = be_val bs'"
    using div_mult_self1 [of 256 "unat b" "be_val bs'"] by (simp add: add.commute)
  then have "be_bytes (Suc n) (be_val bs) = be_bytes n (be_val bs') @ [b]"
    using b by (simp add: bs)
  also have "\<dots> = bs"
    using Suc.IH [OF len] bs by simp
  finally show ?case .
qed

lemma be_val_bound: "be_val bs < 256 ^ length bs"
  by (metis be_bytes_be_val be_val_be_bytes mod_less_divisor zero_less_numeral zero_less_power)

text \<open>\<^verbatim>\<open>binary.BigEndian.PutUint16/32/64\<close> and \<^verbatim>\<open>Uint16/32/64\<close>.\<close>

definition put_u16 :: "u16 \<Rightarrow> byte list" where "put_u16 x = be_bytes 2 (unat x)"
definition put_u32 :: "u32 \<Rightarrow> byte list" where "put_u32 x = be_bytes 4 (unat x)"
definition put_u64 :: "u64 \<Rightarrow> byte list" where "put_u64 x = be_bytes 8 (unat x)"
definition get_u16 :: "byte list \<Rightarrow> u16" where "get_u16 bs = word_of_nat (be_val bs)"
definition get_u32 :: "byte list \<Rightarrow> u32" where "get_u32 bs = word_of_nat (be_val bs)"
definition get_u64 :: "byte list \<Rightarrow> u64" where "get_u64 bs = word_of_nat (be_val bs)"

lemma length_put [simp]:
  "length (put_u16 x) = 2" "length (put_u32 y) = 4" "length (put_u64 z) = 8"
  by (simp_all add: put_u16_def put_u32_def put_u64_def)

lemma get_put [simp]:
  "get_u16 (put_u16 x) = x" "get_u32 (put_u32 y) = y" "get_u64 (put_u64 z) = z"
  using unsigned_less [where ?'a = nat, of x] unsigned_less [where ?'a = nat, of y]
    unsigned_less [where ?'a = nat, of z]
  by (simp_all add: get_u16_def put_u16_def get_u32_def put_u32_def get_u64_def put_u64_def
      be_val_be_bytes)

lemma put_get:
  "length bs = 2 \<Longrightarrow> put_u16 (get_u16 bs) = bs"
  "length cs = 4 \<Longrightarrow> put_u32 (get_u32 cs) = cs"
  "length ds = 8 \<Longrightarrow> put_u64 (get_u64 ds) = ds"
  using be_val_bound [of bs] be_val_bound [of cs] be_val_bound [of ds]
  by (simp_all add: get_u16_def put_u16_def get_u32_def put_u32_def get_u64_def put_u64_def
      unat_word_of_nat be_bytes_be_val)

section \<open>Numbered bytes\<close>

text \<open>
  The specification of a piece of a byte stream: the set of its bytes with their absolute
  positions. A payload at an offset is such a set, and so is everything a reassembler holds;
  the set does not depend on how the bytes are cut into segments.
\<close>

definition cells :: "nat \<Rightarrow> 'a list \<Rightarrow> (nat \<times> 'a) set" where
  "cells off xs = {(off + k, xs ! k) |k. k < length xs}"

lemma cells_Nil [simp, cells_simps]: "cells off [] = {}"
  by (simp add: cells_def)

lemma in_cells: "(i, b) \<in> cells off xs \<longleftrightarrow> off \<le> i \<and> i < off + length xs \<and> xs ! (i - off) = b"
proof
  assume "off \<le> i \<and> i < off + length xs \<and> xs ! (i - off) = b"
  then have "(i, b) = (off + (i - off), xs ! (i - off)) \<and> i - off < length xs"
    by auto
  then show "(i, b) \<in> cells off xs" unfolding cells_def by blast
qed (auto simp: cells_def)

lemma cells_append [cells_simps]: "cells off (xs @ ys) = cells off xs \<union> cells (off + length xs) ys"
  by (auto simp: in_cells nth_append)

lemma cells_take: "cells off (take n xs) = {(i, b) \<in> cells off xs. i < off + n}"
  by (auto simp: in_cells)

lemma cells_drop: "n \<le> length xs \<Longrightarrow> cells (off + n) (drop n xs) = {(i, b) \<in> cells off xs. off + n \<le> i}"
  by (auto simp: in_cells algebra_simps)

lemma cells_slice:
  assumes "go_slice xs lo hi = Some ys"
  shows "cells (off + lo) ys = {(i, b) \<in> cells off xs. off + lo \<le> i \<and> i < off + hi}"
proof -
  have le: "lo \<le> hi" "hi \<le> length xs" and ys: "ys = take (hi - lo) (drop lo xs)"
    using assms by (auto simp: go_slice_def split: if_splits)
  have "cells (off + lo) ys = {(i, b) \<in> cells (off + lo) (drop lo xs). i < off + hi}"
    using le(1) by (simp add: ys cells_take)
  with le show ?thesis by (auto simp: cells_drop)
qed

lemma cells_unique: "(i, b) \<in> cells off xs \<Longrightarrow> (i, c) \<in> cells off xs \<Longrightarrow> b = c"
  by (simp add: in_cells)

text \<open>A list that agrees with a stream, cell by cell, is a piece of that stream.\<close>

lemma cells_subset_stream:
  assumes "cells off xs \<subseteq> cells 0 S" and "xs \<noteq> []"
  shows "off + length xs \<le> length S" and "xs = take (length xs) (drop off S)"
proof -
  have nth: "off + k < length S \<and> S ! (off + k) = xs ! k" if "k < length xs" for k
  proof -
    have "(off + k, xs ! k) \<in> cells off xs" using that by (simp add: in_cells)
    with assms(1) have "(off + k, xs ! k) \<in> cells 0 S" by blast
    then show ?thesis by (simp add: in_cells)
  qed
  show le: "off + length xs \<le> length S"
    using nth [of "length xs - 1"] assms(2) by (cases xs) auto
  show "xs = take (length xs) (drop off S)"
    using le nth by (intro nth_equalityI) auto
qed

lemma cells_piece:
  assumes "off + length xs \<le> length S" and "xs = take (length xs) (drop off S)"
  shows "cells off xs \<subseteq> cells 0 S"
proof
  fix c assume "c \<in> cells off xs"
  then obtain i b where c: "c = (i, b)" "off \<le> i" "i < off + length xs" "xs ! (i - off) = b"
    by (cases c) (auto simp: in_cells)
  have "xs ! (i - off) = S ! i"
    using c(2,3) assms(1) by (subst assms(2)) simp
  with c assms(1) show "c \<in> cells 0 S" by (simp add: in_cells)
qed

end
