(* ===== verification/IO.thy ===== *)
theory IO
  imports Prelude
begin

text \<open>
  The input and output interfaces the program is written against: \<^verbatim>\<open>io.Reader\<close> with
  \<^verbatim>\<open>io.ReadFull\<close>, \<^verbatim>\<open>io.Writer\<close> with \<open>writeFull\<close> (\<^verbatim>\<open>frame.go\<close>), and the writer half of a
  \<^verbatim>\<open>net.Conn\<close>. A connection is scripted: what each \<^verbatim>\<open>Write\<close> and \<^verbatim>\<open>SetWriteDeadline\<close> returns is
  read off lists, so every sequence of short writes and errors is one value of the model.
  The locale \<open>io_writer\<close> is the contract of \<^verbatim>\<open>io.Writer\<close>; the connection and the endpoint
  writer with a deadline (\<^verbatim>\<open>stream.go\<close>) are its interpretations.
\<close>

section \<open>Readers\<close>

text \<open>A reader delivers \<open>rd_bytes\<close> and then fails with \<open>rd_err\<close> for ever.\<close>

record reader =
  rd_bytes :: "byte list"
  rd_err :: go_error

definition read_full :: "nat \<Rightarrow> reader \<Rightarrow> go_error + byte list \<times> reader" where
  "read_full n r =
     (if n \<le> length (rd_bytes r)
      then Inr (take n (rd_bytes r), r\<lparr>rd_bytes := drop n (rd_bytes r)\<rparr>)
      else if rd_bytes r \<noteq> [] \<and> rd_err r = EOF then Inl UnexpectedEOF
      else Inl (rd_err r))"

lemma read_full_append [simp]:
  "read_full n \<lparr>rd_bytes = xs @ ys, rd_err = e\<rparr> = Inr (xs, \<lparr>rd_bytes = ys, rd_err = e\<rparr>)"
  if "length xs = n"
  using that by (simp add: read_full_def)

lemma read_full_Inr:
  "read_full n r = Inr (bs, r') \<Longrightarrow>
     length bs = n \<and> rd_bytes r = bs @ rd_bytes r' \<and> rd_err r' = rd_err r"
  by (auto simp: read_full_def split: if_splits)

lemma read_full_Inl: "read_full n r = Inl e \<Longrightarrow> length (rd_bytes r) < n"
  by (auto simp: read_full_def split: if_splits)

section \<open>Writers\<close>

text \<open>
  A \<^verbatim>\<open>Write\<close> returns how many bytes it took and an error or none. \<open>write_full\<close> is the loop of
  \<open>writeFull\<close>: it stops at an error and at a write that takes nothing.
\<close>

type_synonym 'w write_op = "'w \<Rightarrow> byte list \<Rightarrow> nat \<times> go_error option \<times> 'w"

function write_full :: "'w write_op \<Rightarrow> 'w \<Rightarrow> byte list \<Rightarrow> go_error option \<times> 'w" where
  "write_full wr w payload =
     (if payload = [] then (None, w)
      else case wr w payload of (written, err, w') \<Rightarrow>
        (case err of Some e \<Rightarrow> (Some e, w')
         | None \<Rightarrow>
            if written \<le> 0 then (Some ErrShortWrite, w')
            else write_full wr w' (drop written payload)))"
  by pat_completeness auto
termination
  by (relation "measure (\<lambda>(wr, w, payload). length payload)") auto

declare write_full.simps [simp del]

lemma write_full_Nil [simp]: "write_full wr w [] = (None, w)"
  by (simp add: write_full.simps)

section \<open>The contract of a writer\<close>

locale io_writer =
  fixes wr :: "'w write_op" and out :: "'w \<Rightarrow> byte list"
  assumes write_appends:
    "wr w p = (n, e, w') \<Longrightarrow> n \<le> length p \<and> out w' = out w @ take n p"
begin

lemma write_le: "wr w p = (n, e, w') \<Longrightarrow> n \<le> length p"
  using write_appends by blast

lemma out_write: "wr w p = (n, e, w') \<Longrightarrow> out w' = out w @ take n p"
  using write_appends by blast

text \<open>Without an error everything is written; with one, a beginning of it may be.\<close>

lemma write_full_prefix:
  "write_full wr w p = (e, w') \<Longrightarrow>
     \<exists>k \<le> length p. out w' = out w @ take k p \<and> (e = None \<longrightarrow> k = length p)"
proof (induction "length p" arbitrary: w p rule: less_induct)
  case less
  show ?case
  proof (cases "p = []")
    case True
    with less.prems show ?thesis by simp
  next
    case nonempty: False
    obtain n err v where w: "wr w p = (n, err, v)" by (cases "wr w p") auto
    note n = write_appends [OF w]
    show ?thesis
    proof (cases "err = None \<and> 0 < n")
      case True
      with less.prems w nonempty have rest: "write_full wr v (drop n p) = (e, w')"
        by (simp add: write_full.simps [of wr w p])
      have "length (drop n p) < length p" using True nonempty by auto
      from less.hyps [OF this rest] obtain k where
        k: "k \<le> length (drop n p)" "out w' = out v @ take k (drop n p)"
           "e = None \<longrightarrow> k = length (drop n p)"
        by blast
      then have "out w' = out w @ take (n + k) p" using n by (simp add: take_add)
      with k n show ?thesis by (intro exI [of _ "n + k"]) auto
    next
      case False
      with less.prems w nonempty have "e \<noteq> None \<and> w' = v"
        by (auto simp: write_full.simps [of wr w p] split: option.splits)
      with n show ?thesis by (intro exI [of _ n]) auto
    qed
  qed
qed

lemma write_full_ok: "write_full wr w p = (None, w') \<Longrightarrow> out w' = out w @ p"
  using write_full_prefix by fastforce

end

section \<open>Connections\<close>

text \<open>
  A connection whose future is scripted: \<open>c_writes\<close> are the results of the coming writes (a
  write takes at most what it is given; when the script is used up every write is complete),
  \<open>c_deadlines\<close> those of the coming \<^verbatim>\<open>SetWriteDeadline\<close> calls, and \<open>c_out\<close> is what the peer
  has been sent.
\<close>

record conn =
  c_writes :: "(nat \<times> go_error option) list"
  c_deadlines :: "go_error option list"
  c_out :: "byte list"

definition conn_write :: "conn write_op" where
  "conn_write c p =
     (case c_writes c of
        [] \<Rightarrow> (length p, None, c\<lparr>c_out := c_out c @ p\<rparr>)
      | (n, e) # ws \<Rightarrow>
          (min n (length p), e,
           c\<lparr>c_writes := ws, c_out := c_out c @ take (min n (length p)) p\<rparr>))"

definition conn_set_write_deadline :: "conn \<Rightarrow> go_error option \<times> conn" where
  "conn_set_write_deadline c =
     (case c_deadlines c of [] \<Rightarrow> (None, c) | e # es \<Rightarrow> (e, c\<lparr>c_deadlines := es\<rparr>))"

lemma c_out_set_write_deadline [simp]:
  "conn_set_write_deadline c = (e, c') \<Longrightarrow> c_out c' = c_out c"
  by (auto simp: conn_set_write_deadline_def split: list.splits)

interpretation net: io_writer conn_write c_out
  by unfold_locales (auto simp: conn_write_def split: list.splits)

section \<open>The endpoint writer with a deadline\<close>

text \<open>\<open>endpointDeadlineWriter\<close> of \<^verbatim>\<open>stream.go\<close>: every write first arms the deadline.\<close>

record deadline_writer =
  dw_conn :: conn
  dw_timeout :: int
  dw_deadline_set :: bool

definition deadline_write :: "deadline_writer write_op" where
  "deadline_write w payload =
     (if dw_timeout w > 0 then
        (case conn_set_write_deadline (dw_conn w) of
           (Some e, c) \<Rightarrow> (0, Some e, w\<lparr>dw_conn := c\<rparr>)
         | (None, c) \<Rightarrow>
             (case conn_write c payload of (n, e, c') \<Rightarrow>
                (n, e, w\<lparr>dw_conn := c', dw_deadline_set := True\<rparr>)))
      else case conn_write (dw_conn w) payload of (n, e, c') \<Rightarrow> (n, e, w\<lparr>dw_conn := c'\<rparr>))"

definition clear_deadline :: "deadline_writer \<Rightarrow> go_error option \<times> deadline_writer" where
  "clear_deadline w =
     (if \<not> dw_deadline_set w then (None, w)
      else case conn_set_write_deadline (dw_conn w) of (e, c) \<Rightarrow>
        (e, w\<lparr>dw_deadline_set := False, dw_conn := c\<rparr>))"

definition dw_out :: "deadline_writer \<Rightarrow> byte list" where
  "dw_out w = c_out (dw_conn w)"

lemma dw_out_clear_deadline [simp]: "clear_deadline w = (e, w') \<Longrightarrow> dw_out w' = dw_out w"
  by (auto simp: clear_deadline_def dw_out_def split: if_splits prod.splits)

interpretation endpoint: io_writer deadline_write dw_out
proof unfold_locales
  fix w p n e w'
  assume "deadline_write w p = (n, e, w')"
  then show "n \<le> length p \<and> dw_out w' = dw_out w @ take n p"
    by (auto simp: deadline_write_def dw_out_def dest: net.write_appends
        split: if_splits prod.splits option.splits)
qed

end
