(* ===== verification/Reassembler.thy ===== *)
theory Reassembler
  imports IO "HOL-Library.Multiset"
begin

text \<open>
  The reassembler (\<^verbatim>\<open>internal/tcpstream/reassembler.go\<close>): it takes payloads at stream offsets, in
  any order and any number of times, buffers what is ahead of the next expected offset inside a
  window, and hands the contiguous beginning to a writer.

  The model keeps the code's shape: one definition per method, the loops over
  \<^verbatim>\<open>reassembler.segments\<close> as recursion over that list, slice expressions with their run-time
  check and the \<^verbatim>\<open>panic\<close> of \<open>mergeSegments\<close> as \<open>None\<close>. The mutex makes every method atomic. The
  \<^verbatim>\<open>copyPayload\<close> flag only decides which memory a segment refers to; lists are values, so both
  entry points are the same function here.
\<close>

section \<open>State and operations\<close>

record segment =
  seg_offset :: u64
  seg_data :: "byte list"

record reassembler =
  next_offset :: u64
  buffered :: int
  window_bytes :: u64
  fin_offset :: "u64 option"
  segments :: "segment list"

definition MaxReorderSegments :: nat where
  "MaxReorderSegments = 4096"

definition new_reassembler :: "int \<Rightarrow> reassembler" where
  "new_reassembler window =
     \<lparr>next_offset = 0, buffered = 0, window_bytes = word_of_int window,
      fin_offset = None, segments = []\<rparr>"

definition add_segment :: "reassembler \<Rightarrow> u64 \<Rightarrow> byte list \<Rightarrow> reassembler" where
  "add_segment r offset payload =
     (if payload = [] then r
      else r\<lparr>segments := segments r @ [\<lparr>seg_offset = offset, seg_data = payload\<rparr>],
             buffered := buffered r + int (length payload)\<rparr>)"

text \<open>The body of the loop of \<open>mergeSegments\<close>, over the sorted segments.\<close>

fun merge_loop :: "segment list \<Rightarrow> segment list \<Rightarrow> segment list option" where
  "merge_loop merged [] = Some merged"
| "merge_loop merged (item # items) =
     (if merged = [] then merge_loop [item] items
      else let last_seg = last merged;
               last_end = seg_offset last_seg + len64 (seg_data last_seg)
           in if last_end = seg_offset item then
                merge_loop (butlast merged @ [last_seg\<lparr>seg_data := seg_data last_seg @ seg_data item\<rparr>]) items
              else if last_end > seg_offset item then None
              else merge_loop (merged @ [item]) items)"

definition merge_segments :: "reassembler \<Rightarrow> reassembler option" where
  "merge_segments r =
     (if length (segments r) < 2 then Some r
      else map_option (\<lambda>merged. r\<lparr>segments := merged\<rparr>)
             (merge_loop [] (sort_key seg_offset (segments r))))"

text \<open>
  The first loop of \<open>push\<close>: every overlap with a buffered segment must carry the same bytes.
  \<open>Some False\<close> is the \<^verbatim>\<open>ErrOverlap\<close> return, \<open>None\<close> a slice expression out of range.
\<close>

fun overlaps_agree :: "u64 \<Rightarrow> u64 \<Rightarrow> byte list \<Rightarrow> segment list \<Rightarrow> bool option" where
  "overlaps_agree offset stop payload [] = Some True"
| "overlaps_agree offset stop payload (existing # rest) =
     (let existing_end = seg_offset existing + len64 (seg_data existing);
          overlap_start = max offset (seg_offset existing);
          overlap_end = min stop existing_end
      in if overlap_start < overlap_end then
           (let incoming_start = overlap_start - offset;
                existing_start = overlap_start - seg_offset existing;
                len = overlap_end - overlap_start
            in case go_slice payload (unat incoming_start) (unat (incoming_start + len)) of
                 None \<Rightarrow> None
               | Some incoming \<Rightarrow>
                   (case go_slice (seg_data existing) (unat existing_start) (unat (existing_start + len)) of
                      None \<Rightarrow> None
                    | Some old \<Rightarrow>
                        if incoming = old then overlaps_agree offset stop payload rest
                        else Some False))
         else overlaps_agree offset stop payload rest)"

text \<open>
  The second loop: the parts of the payload that no segment holds yet are appended. The loop
  ranges over the segments as they were before it (\<^verbatim>\<open>range\<close> reads the slice once).
\<close>

fun fill_gaps :: "u64 \<Rightarrow> u64 \<Rightarrow> byte list \<Rightarrow> segment list \<Rightarrow> u64 \<Rightarrow> reassembler \<Rightarrow>
    (u64 \<times> reassembler) option" where
  "fill_gaps offset stop payload [] cursor r = Some (cursor, r)"
| "fill_gaps offset stop payload (existing # rest) cursor r =
     (let existing_end = seg_offset existing + len64 (seg_data existing)
      in if existing_end \<le> cursor \<or> seg_offset existing \<ge> stop then
           fill_gaps offset stop payload rest cursor r
         else
           let filled = (if cursor < seg_offset existing then
                 map_option (add_segment r cursor)
                   (go_slice payload (unat (cursor - offset)) (unat (seg_offset existing - offset)))
               else Some r)
           in case filled of
                None \<Rightarrow> None
              | Some r' \<Rightarrow>
                  fill_gaps offset stop payload rest
                    (if existing_end > cursor then existing_end else cursor) r')"

definition push_tail :: "reassembler \<Rightarrow> u64 \<Rightarrow> byte list \<Rightarrow> (go_error option \<times> reassembler) option" where
  "push_tail r offset payload =
     (let stop = offset + len64 payload
      in case fill_gaps offset stop payload (segments r) offset r of
           None \<Rightarrow> None
         | Some (cursor, r1) \<Rightarrow>
             (case (if cursor < stop then
                      map_option (add_segment r1 cursor)
                        (go_slice payload (unat (cursor - offset)) (length payload))
                    else Some r1) of
                None \<Rightarrow> None
              | Some r2 \<Rightarrow>
                  (case merge_segments r2 of
                     None \<Rightarrow> None
                   | Some r3 \<Rightarrow>
                       if length (segments r3) > MaxReorderSegments then Some (Some ErrSegmentLimit, r3)
                       else if word_of_int (buffered r3) > window_bytes r3 then
                         Some (Some ErrReorderWindow, r3)
                       else Some (None, r3))))"

definition push :: "reassembler \<Rightarrow> u64 \<Rightarrow> byte list \<Rightarrow> (go_error option \<times> reassembler) option" where
  "push r offset0 payload0 =
     (if payload0 = [] \<or> offset0 > - 1 - len64 payload0 then Some (Some ErrInvalidFrame, r)
      else let end0 = offset0 + len64 payload0
      in if end0 \<le> next_offset r then Some (None, r)
      else if (case fin_offset r of None \<Rightarrow> False | Some f \<Rightarrow> end0 > f) then Some (Some ErrFIN, r)
      else case (if offset0 < next_offset r
                 then map_option (Pair (next_offset r))
                        (go_slice payload0 (unat (next_offset r - offset0)) (length payload0))
                 else Some (offset0, payload0)) of
        None \<Rightarrow> None
      | Some (offset, payload) \<Rightarrow>
          let stop = offset + len64 payload
          in if window_bytes r = 0 \<or> stop - next_offset r > window_bytes r then
               Some (Some ErrReorderWindow, r)
             else case overlaps_agree offset stop payload (segments r) of
                 None \<Rightarrow> None
               | Some False \<Rightarrow> Some (Some ErrOverlap, r)
               | Some True \<Rightarrow> push_tail r offset payload)"

definition set_fin :: "reassembler \<Rightarrow> u64 \<Rightarrow> go_error option \<times> reassembler" where
  "set_fin r offset =
     (if offset < next_offset r then (Some ErrFIN, r)
      else if list_ex (\<lambda>item. seg_offset item + len64 (seg_data item) > offset) (segments r)
        then (Some ErrFIN, r)
      else if fin_offset r \<noteq> None \<and> fin_offset r \<noteq> Some offset then (Some ErrFIN, r)
      else (None, r\<lparr>fin_offset := Some offset\<rparr>))"

text \<open>
  \<open>DrainTo\<close>. The inner loop writes one segment and moves \<open>nextOffset\<close> and \<open>buffered\<close> with every
  write, also with one that reports an error. The outer loop stops at the first segment that does
  not start at \<open>nextOffset\<close>; the deferred function then drops the drained segments.
\<close>

function drain_item :: "'w write_op \<Rightarrow> segment \<Rightarrow> reassembler \<Rightarrow> 'w \<Rightarrow>
    go_error option \<times> segment \<times> reassembler \<times> 'w" where
  "drain_item wr item r w =
     (if seg_data item = [] then (None, item, r, w)
      else case wr w (seg_data item) of (written, err, w') \<Rightarrow>
        let item' = (if written > 0 then
                \<lparr>seg_offset = seg_offset item + word_of_nat written,
                 seg_data = drop written (seg_data item)\<rparr> else item);
            r' = (if written > 0 then
                r\<lparr>next_offset := next_offset r + word_of_nat written,
                  buffered := buffered r - int written\<rparr> else r)
        in case err of Some e \<Rightarrow> (Some e, item', r', w')
           | None \<Rightarrow>
               if written \<le> 0 then (Some ErrShortWrite, item', r', w')
               else drain_item wr item' r' w')"
  by pat_completeness auto
termination
  by (relation "measure (\<lambda>(wr, item, r, w). length (seg_data item))") (auto split: if_splits)

declare drain_item.simps [simp del]

fun drain_loop :: "'w write_op \<Rightarrow> segment list \<Rightarrow> reassembler \<Rightarrow> 'w \<Rightarrow>
    go_error option \<times> reassembler \<times> 'w" where
  "drain_loop wr [] r w = (None, r\<lparr>segments := []\<rparr>, w)"
| "drain_loop wr (item # rest) r w =
     (if seg_offset item = next_offset r then
        (case drain_item wr item r w of
           (Some e, item', r', w') \<Rightarrow> (Some e, r'\<lparr>segments := item' # rest\<rparr>, w')
         | (None, item', r', w') \<Rightarrow> drain_loop wr rest r' w')
      else (None, r\<lparr>segments := item # rest\<rparr>, w))"

definition drain_to :: "'w write_op \<Rightarrow> reassembler \<Rightarrow> 'w \<Rightarrow>
    (go_error + bool) \<times> reassembler \<times> 'w" where
  "drain_to wr r w =
     (case drain_loop wr (segments r) r w of
        (Some e, r', w') \<Rightarrow> (Inl e, r', w')
      | (None, r', w') \<Rightarrow>
          (Inr (fin_offset r' = Some (next_offset r')), r', w'))"

definition BufferedBytes :: "reassembler \<Rightarrow> int" where
  "BufferedBytes r = buffered r"

definition NextOffset :: "reassembler \<Rightarrow> u64" where
  "NextOffset r = next_offset r"

section \<open>Specification\<close>

text \<open>
  Positions are naturals: a segment covers \<open>slo s ..< shi s\<close>, and \<open>held segs\<close> is the set of
  numbered bytes the segments hold.
\<close>

definition slo :: "segment \<Rightarrow> nat" where
  "slo s = unat (seg_offset s)"

definition shi :: "segment \<Rightarrow> nat" where
  "shi s = slo s + length (seg_data s)"

definition in_range :: "nat \<Rightarrow> nat \<Rightarrow> segment \<Rightarrow> bool" where
  "in_range lo hi s \<longleftrightarrow> seg_data s \<noteq> [] \<and> lo \<le> slo s \<and> shi s \<le> hi \<and> shi s < 2 ^ 64"

definition seg_cells :: "segment \<Rightarrow> (nat \<times> byte) set" where
  "seg_cells s = cells (slo s) (seg_data s)"

definition held :: "segment list \<Rightarrow> (nat \<times> byte) set" where
  "held segs = (\<Union>s \<in> set segs. seg_cells s)"

definition seg_bytes :: "segment list \<Rightarrow> nat" where
  "seg_bytes segs = sum_list (map (\<lambda>s. length (seg_data s)) segs)"

definition chain :: "segment list \<Rightarrow> bool" where
  "chain = sorted_wrt (\<lambda>a b. shi a \<le> slo b)"

definition gapped :: "segment list \<Rightarrow> bool" where
  "gapped = sorted_wrt (\<lambda>a b. shi a < slo b)"

definition apart :: "segment \<Rightarrow> segment \<Rightarrow> bool" where
  "apart a b \<longleftrightarrow> shi a \<le> slo b \<or> shi b \<le> slo a"

text \<open>
  The invariant of the methods: the segments are non-empty, in order, separated by real gaps,
  inside the window and not beyond the FIN; \<open>buffered\<close> counts their bytes.
\<close>

definition reasm_inv :: "reassembler \<Rightarrow> bool" where
  "reasm_inv r \<longleftrightarrow>
     (\<forall>s \<in> set (segments r).
        in_range (unat (next_offset r)) (unat (next_offset r) + unat (window_bytes r)) s) \<and>
     gapped (segments r) \<and>
     buffered r = int (seg_bytes (segments r)) \<and>
     (case fin_offset r of None \<Rightarrow> True
      | Some f \<Rightarrow> next_offset r \<le> f \<and> (\<forall>s \<in> set (segments r). shi s \<le> unat f))"

lemma reasm_inv_new: "reasm_inv (new_reassembler window)"
  by (simp add: reasm_inv_def new_reassembler_def gapped_def seg_bytes_def)

section \<open>Lemmas on segments\<close>

lemma in_range_widen: "in_range lo hi s \<Longrightarrow> lo' \<le> lo \<Longrightarrow> hi \<le> hi' \<Longrightarrow> in_range lo' hi' s"
  by (auto simp: in_range_def)

lemma seg_end [unat_simps]:
  "in_range lo hi s \<Longrightarrow> unat (seg_offset s + len64 (seg_data s)) = shi s"
  by (simp add: in_range_def shi_def slo_def unat_add_len64)

lemma slo_less_shi: "in_range lo hi s \<Longrightarrow> slo s < shi s"
  by (simp add: in_range_def shi_def)

lemma held_simps [simp, cells_simps]:
  "held [] = {}" "held (s # ss) = seg_cells s \<union> held ss" "held (xs @ ys) = held xs \<union> held ys"
  by (auto simp: held_def)

lemma seg_bytes_simps [simp]:
  "seg_bytes [] = 0" "seg_bytes (s # ss) = length (seg_data s) + seg_bytes ss"
  "seg_bytes (xs @ ys) = seg_bytes xs + seg_bytes ys"
  by (auto simp: seg_bytes_def)

lemma chain_simps [simp]:
  "chain []" "chain (s # ss) \<longleftrightarrow> (\<forall>t \<in> set ss. shi s \<le> slo t) \<and> chain ss"
  "chain (xs @ ys) \<longleftrightarrow> chain xs \<and> chain ys \<and> (\<forall>x \<in> set xs. \<forall>y \<in> set ys. shi x \<le> slo y)"
  by (auto simp: chain_def sorted_wrt_append)

lemma gapped_simps [simp]:
  "gapped []" "gapped (s # ss) \<longleftrightarrow> (\<forall>t \<in> set ss. shi s < slo t) \<and> gapped ss"
  "gapped (xs @ ys) \<longleftrightarrow> gapped xs \<and> gapped ys \<and> (\<forall>x \<in> set xs. \<forall>y \<in> set ys. shi x < slo y)"
  by (auto simp: gapped_def sorted_wrt_append)

lemma gapped_chain: "gapped segs \<Longrightarrow> chain segs"
  by (induction segs) (auto intro: less_imp_le)

lemma in_seg_cells: "(i, b) \<in> seg_cells s \<longleftrightarrow> slo s \<le> i \<and> i < shi s \<and> seg_data s ! (i - slo s) = b"
  by (simp add: seg_cells_def in_cells shi_def)

lemma seg_bytes_bound:
  "chain segs \<Longrightarrow> \<forall>s \<in> set segs. in_range lo hi s \<Longrightarrow> segs \<noteq> [] \<Longrightarrow> lo + seg_bytes segs \<le> hi"
proof (induction segs arbitrary: lo)
  case Nil
  then show ?case by simp
next
  case (Cons s ss)
  have s: "lo \<le> slo s" "shi s = slo s + length (seg_data s)" "shi s \<le> hi"
    using Cons.prems by (auto simp: in_range_def shi_def)
  show ?case
  proof (cases "ss = []")
    case True
    with s show ?thesis by simp
  next
    case False
    have "\<forall>t \<in> set ss. in_range (shi s) hi t" using Cons.prems by (auto simp: in_range_def)
    with Cons.IH [of "shi s"] Cons.prems False have "shi s + seg_bytes ss \<le> hi" by simp
    with s show ?thesis by simp
  qed
qed

text \<open>Distance from everything else survives sorting, and sorting turns it into order.\<close>

lemma apart_sym: "apart a b \<Longrightarrow> apart b a"
  by (auto simp: apart_def)

lemma sorted_wrt_apart_iff:
  "\<forall>s \<in> set segs. in_range lo hi s \<Longrightarrow>
     sorted_wrt apart segs \<longleftrightarrow>
     distinct segs \<and> (\<forall>a \<in> set segs. \<forall>b \<in> set segs. a \<noteq> b \<longrightarrow> apart a b)"
proof (induction segs)
  case Nil
  then show ?case by simp
next
  case (Cons s ss)
  have "\<not> apart s s" using slo_less_shi [of lo hi s] Cons.prems by (simp add: apart_def)
  with Cons show ?case by (auto intro: apart_sym)
qed

lemma chain_sort:
  assumes "\<forall>s \<in> set segs. in_range lo hi s" and "sorted_wrt apart segs"
  shows "chain (sort_key seg_offset segs)"
proof -
  let ?l = "sort_key seg_offset segs"
  have "sorted_wrt apart ?l"
    using assms sorted_wrt_apart_iff [of segs lo hi] sorted_wrt_apart_iff [of ?l lo hi]
    by (simp add: distinct_sort)
  moreover have "sorted_wrt (\<lambda>a b. seg_offset a \<le> seg_offset b) ?l"
    using sorted_sort_key [of seg_offset segs] by (simp add: sorted_wrt_map)
  ultimately have "sorted_wrt (\<lambda>a b. apart a b \<and> seg_offset a \<le> seg_offset b) ?l"
    by (induction ?l rule: rev_induct) (auto simp: sorted_wrt_iff_nth_less)
  then show ?thesis
    unfolding chain_def
  proof (rule sorted_wrt_mono_rel [rotated])
    fix a b assume "a \<in> set ?l" "b \<in> set ?l" "apart a b \<and> seg_offset a \<le> seg_offset b"
    with assms(1) slo_less_shi [of lo hi b] show "shi a \<le> slo b"
      by (auto simp: apart_def slo_def word_le_nat_alt)
  qed
qed

lemma held_sort [simp]: "held (sort_key seg_offset segs) = held segs"
  by (simp add: held_def)

lemma seg_bytes_mset: "seg_bytes segs = (\<Sum>s \<in># mset segs. length (seg_data s))"
  by (induction segs) simp_all

lemma seg_bytes_sort [simp]: "seg_bytes (sort_key seg_offset segs) = seg_bytes segs"
  by (simp add: seg_bytes_mset)

section \<open>Merging\<close>

lemma merge_loop_spec:
  assumes "gapped merged" and "chain items"
    and "\<forall>m \<in> set merged. \<forall>i \<in> set items. shi m \<le> slo i"
    and "\<forall>s \<in> set merged \<union> set items. in_range lo hi s"
  shows "\<exists>l. merge_loop merged items = Some l \<and> gapped l \<and> held l = held merged \<union> held items \<and>
           seg_bytes l = seg_bytes merged + seg_bytes items \<and> (\<forall>s \<in> set l. in_range lo hi s)"
  using assms
proof (induction items arbitrary: merged)
  case Nil
  then show ?case by simp
next
  case (Cons item items)
  show ?case
  proof (cases merged rule: rev_cases)
    case Nil
    with Cons.IH [of "[item]"] Cons.prems show ?thesis by simp
  next
    case (snoc ms l)
    have l: "in_range lo hi l" and item: "in_range lo hi item" and le: "shi l \<le> slo item"
      using Cons.prems snoc by auto
    have stop: "unat (seg_offset l + len64 (seg_data l)) = shi l" using l by (rule seg_end)
    show ?thesis
    proof (cases "shi l = slo item")
      case True
      let ?l = "l\<lparr>seg_data := seg_data l @ seg_data item\<rparr>"
      have eq: "seg_offset l + len64 (seg_data l) = seg_offset item"
        using True stop by (simp add: slo_def word_unat_eq_iff)
      have sl: "slo ?l = slo l" "shi ?l = shi item"
        using True by (simp_all add: slo_def shi_def)
      have cells: "seg_cells ?l = seg_cells l \<union> seg_cells item"
        using True by (simp add: seg_cells_def slo_def cells_append shi_def)
      have "in_range lo hi ?l" using l item sl by (auto simp: in_range_def)
      then have "\<exists>k. merge_loop (ms @ [?l]) items = Some k \<and> gapped k \<and>
          held k = held (ms @ [?l]) \<union> held items \<and>
          seg_bytes k = seg_bytes (ms @ [?l]) + seg_bytes items \<and> (\<forall>s \<in> set k. in_range lo hi s)"
        using Cons.prems snoc sl slo_less_shi [OF item] by (intro Cons.IH) auto
      then show ?thesis using snoc eq cells by (auto simp: Un_assoc Un_left_commute)
    next
      case False
      then have lt: "shi l < slo item" using le by simp
      then have "seg_offset l + len64 (seg_data l) < seg_offset item"
        using stop by (simp add: word_less_nat_alt slo_def)
      moreover have "\<exists>k. merge_loop (merged @ [item]) items = Some k \<and> gapped k \<and>
          held k = held (merged @ [item]) \<union> held items \<and>
          seg_bytes k = seg_bytes (merged @ [item]) + seg_bytes items \<and>
          (\<forall>s \<in> set k. in_range lo hi s)"
        using Cons.prems snoc lt slo_less_shi [OF l] slo_less_shi [OF item]
        by (intro Cons.IH) fastforce+
      ultimately show ?thesis using snoc by (auto simp: Un_assoc Let_def not_less_iff_gr_or_eq)
    qed
  qed
qed

text \<open>Merging never panics on segments that are apart, and keeps exactly their bytes.\<close>

lemma merge_segments_spec:
  assumes "\<forall>s \<in> set (segments r). in_range lo hi s" and "sorted_wrt apart (segments r)"
  shows "\<exists>l. merge_segments r = Some (r\<lparr>segments := l\<rparr>) \<and> gapped l \<and> held l = held (segments r) \<and>
           seg_bytes l = seg_bytes (segments r) \<and> (\<forall>s \<in> set l. in_range lo hi s)"
proof (cases "length (segments r) < 2")
  case True
  then have "gapped (segments r)" by (cases "segments r" rule: remdups_adj.cases) auto
  with True assms show ?thesis
    by (intro exI [of _ "segments r"]) (auto simp: merge_segments_def)
next
  case False
  have "chain (sort_key seg_offset (segments r))" using assms by (rule chain_sort)
  with merge_loop_spec [of "[]" "sort_key seg_offset (segments r)" lo hi] assms False
  show ?thesis by (auto simp: merge_segments_def)
qed

section \<open>The loops of push\<close>

definition agree :: "(nat \<times> 'a) set \<Rightarrow> (nat \<times> 'a) set \<Rightarrow> bool" where
  "agree A B \<longleftrightarrow> (\<forall>i b c. (i, b) \<in> A \<longrightarrow> (i, c) \<in> B \<longrightarrow> b = c)"

lemma agree_nth:
  "agree (cells off xs) (seg_cells e) \<longleftrightarrow>
     (\<forall>i. off \<le> i \<and> i < off + length xs \<and> slo e \<le> i \<and> i < shi e \<longrightarrow>
        xs ! (i - off) = seg_data e ! (i - slo e))"
  by (auto simp: agree_def in_cells in_seg_cells)

text \<open>Two slices of the overlap are equal exactly when the cells of payload and segment agree.\<close>

lemma slices_eq_iff:
  assumes "lo \<le> hi" and "off \<le> lo" "hi \<le> off + length xs" and "off' \<le> lo" "hi \<le> off' + length ys"
  shows "take (hi - lo) (drop (lo - off) xs) = take (hi - lo) (drop (lo - off') ys) \<longleftrightarrow>
           (\<forall>i. lo \<le> i \<and> i < hi \<longrightarrow> xs ! (i - off) = ys ! (i - off'))"
    (is "?x = ?y \<longleftrightarrow> ?R")
proof -
  have len: "length ?x = hi - lo" "length ?y = hi - lo" using assms by auto
  have nth: "?x ! k = xs ! (lo + k - off)" "?y ! k = ys ! (lo + k - off')" if "k < hi - lo" for k
    using that assms by auto
  have "?x = ?y \<longleftrightarrow> (\<forall>k < hi - lo. xs ! (lo + k - off) = ys ! (lo + k - off'))"
    using len nth by (simp add: list_eq_iff_nth_eq)
  also have "\<dots> \<longleftrightarrow> ?R"
  proof
    assume *: "\<forall>k < hi - lo. xs ! (lo + k - off) = ys ! (lo + k - off')"
    show ?R
    proof (intro allI impI)
      fix i assume i: "lo \<le> i \<and> i < hi"
      then have "i - lo < hi - lo" by arith
      with * have "xs ! (lo + (i - lo) - off) = ys ! (lo + (i - lo) - off')" by blast
      with i show "xs ! (i - off) = ys ! (i - off')" by simp
    qed
  qed auto
  finally show ?thesis .
qed

lemma overlaps_agree_spec:
  assumes "\<forall>e \<in> set es. in_range lo hi e"
    and "unat off + length p < 2 ^ 64" and "stop = off + len64 p"
  shows "overlaps_agree off stop p es =
           Some (\<forall>e \<in> set es. agree (cells (unat off) p) (seg_cells e))"
  using assms(1)
proof (induction es)
  case Nil
  then show ?case by simp
next
  case (Cons e es)
  let ?os = "max off (seg_offset e)"
  let ?oe = "min stop (seg_offset e + len64 (seg_data e))"
  have e: "in_range lo hi e" using Cons.prems by simp
  have stop: "unat stop = unat off + length p" using assms by (simp add: unat_add_len64)
  have os: "unat ?os = max (unat off) (slo e)" by (auto simp: max_def slo_def word_le_nat_alt)
  have oe: "unat ?oe = min (unat off + length p) (shi e)"
    using seg_end [OF e] stop by (auto simp: min_def word_le_nat_alt)
  show ?case
  proof (cases "?os < ?oe")
    case False
    then have "\<not> unat ?os < unat ?oe" by (simp only: word_less_nat_alt simp_thms)
    then have "max (unat off) (slo e) \<ge> min (unat off + length p) (shi e)"
      by (simp only: os oe not_less)
    then have "agree (cells (unat off) p) (seg_cells e)" by (auto simp: agree_nth)
    moreover have "overlaps_agree off stop p (e # es) = overlaps_agree off stop p es"
      using False by (simp only: overlaps_agree.simps Let_def if_False)
    ultimately show ?thesis using Cons by simp
  next
    case True
    let ?lo = "max (unat off) (slo e)" and ?hi = "min (unat off + length p) (shi e)"
    have lt: "?lo < ?hi" using True os oe by (simp add: word_less_nat_alt)
    have le: "off \<le> ?os" "seg_offset e \<le> ?os" "?os \<le> ?oe"
      by (rule max.cobounded1, rule max.cobounded2, rule less_imp_le [OF True])
    have i1: "unat (?os - off) = ?lo - unat off" using os le by (simp add: unat_minus_u64)
    have i2: "unat (?os - off + (?oe - ?os)) = ?hi - unat off"
      using oe le by (simp add: unat_minus_u64 order_trans [OF le(1) le(3)])
    have j1: "unat (?os - seg_offset e) = ?lo - slo e"
      using os le by (simp add: unat_minus_u64 slo_def)
    have j2: "unat (?os - seg_offset e + (?oe - ?os)) = ?hi - slo e"
      using oe le by (simp add: unat_minus_u64 slo_def order_trans [OF le(2) le(3)])
    have s1: "go_slice p (?lo - unat off) (?hi - unat off) =
        Some (take (?hi - ?lo) (drop (?lo - unat off) p))"
      using lt by (subst go_slice_Some) auto
    have s2: "go_slice (seg_data e) (?lo - slo e) (?hi - slo e) =
        Some (take (?hi - ?lo) (drop (?lo - slo e) (seg_data e)))"
      using lt by (subst go_slice_Some) (auto simp: shi_def)
    have eq: "take (?hi - ?lo) (drop (?lo - unat off) p) = take (?hi - ?lo) (drop (?lo - slo e) (seg_data e))
        \<longleftrightarrow> agree (cells (unat off) p) (seg_cells e)"
      using lt by (subst slices_eq_iff) (auto simp: agree_nth shi_def)
    have "overlaps_agree off stop p (e # es) =
        (if agree (cells (unat off) p) (seg_cells e) then overlaps_agree off stop p es else Some False)"
      by (simp only: overlaps_agree.simps Let_def True if_True i1 i2 j1 j2 s1 s2 option.case eq)
    with Cons show ?thesis by simp
  qed
qed

text \<open>
  What the second loop appends: non-empty pieces of the payload, in order, apart from every
  segment, that together with the segments cover the payload up to the returned cursor.
\<close>

lemma fill_gaps_spec:
  assumes "\<forall>e \<in> set es. in_range lo hi e" and "chain es"
    and "unat off + length p < 2 ^ 64" and "stop = off + len64 p" and "off \<le> cursor"
  shows "\<exists>c added. fill_gaps off stop p es cursor r =
           Some (c, r\<lparr>segments := segments r @ added, buffered := buffered r + int (seg_bytes added)\<rparr>) \<and>
         cursor \<le> c \<and> chain added \<and>
         (\<forall>a \<in> set added. in_range (unat cursor) (min (unat stop) (unat c)) a) \<and>
         (\<forall>a \<in> set added. \<forall>e \<in> set es. apart a e) \<and>
         (\<forall>e \<in> set es. shi e \<le> unat c \<or> unat stop \<le> slo e) \<and>
         held added \<subseteq> cells (unat off) p \<and>
         (\<forall>i b. (i, b) \<in> cells (unat off) p \<longrightarrow> unat cursor \<le> i \<longrightarrow> i < unat c \<longrightarrow>
            (i, b) \<in> held added \<or> (\<exists>e \<in> set es. slo e \<le> i \<and> i < shi e))"
  using assms(1,2,5)
proof (induction es arbitrary: cursor r)
  case Nil
  show ?case by (rule exI [of _ cursor], rule exI [of _ "[]"]) simp
next
  case (Cons e es)
  let ?ee = "seg_offset e + len64 (seg_data e)"
  have e: "in_range lo hi e" and rest: "\<forall>f \<in> set es. shi e \<le> slo f" "chain es"
    "\<forall>e \<in> set es. in_range lo hi e" using Cons.prems by auto
  have ee: "unat ?ee = shi e" using e by (rule seg_end)
  have stop: "unat stop = unat off + length p" using assms by (simp add: unat_add_len64)
  show ?case
  proof (cases "?ee \<le> cursor \<or> seg_offset e \<ge> stop")
    case True
    then have skip: "shi e \<le> unat cursor \<or> unat stop \<le> slo e"
      using ee by (auto simp: word_le_nat_alt slo_def)
    from Cons.IH [OF rest(3,2) Cons.prems(3), of r] obtain c added where IH:
      "fill_gaps off stop p es cursor r =
        Some (c, r\<lparr>segments := segments r @ added, buffered := buffered r + int (seg_bytes added)\<rparr>)"
      "cursor \<le> c" "chain added" "\<forall>a \<in> set added. in_range (unat cursor) (min (unat stop) (unat c)) a"
      "\<forall>a \<in> set added. \<forall>e \<in> set es. apart a e"
      "\<forall>e \<in> set es. shi e \<le> unat c \<or> unat stop \<le> slo e" "held added \<subseteq> cells (unat off) p"
      "\<forall>i b. (i, b) \<in> cells (unat off) p \<longrightarrow> unat cursor \<le> i \<longrightarrow> i < unat c \<longrightarrow>
            (i, b) \<in> held added \<or> (\<exists>e \<in> set es. slo e \<le> i \<and> i < shi e)"
      by blast
    have "unat cursor \<le> unat c" using IH(2) by (simp add: word_le_nat_alt)
    moreover have "\<forall>a \<in> set added. apart a e" using IH(4) skip by (fastforce simp: in_range_def apart_def)
    ultimately show ?thesis
      using IH True skip by (intro exI [of _ c] exI [of _ added]) (auto simp: Let_def)
  next
    case False
    then have in_e: "unat cursor < shi e" "slo e < unat stop"
      using ee by (auto simp: word_le_nat_alt slo_def)
    have off: "unat off \<le> unat cursor" using Cons.prems(3) by (simp add: word_le_nat_alt)
    define piece where "piece = (if cursor < seg_offset e
        then [\<lparr>seg_offset = cursor, seg_data = take (slo e - unat cursor) (drop (unat cursor - unat off) p)\<rparr>]
        else [])"
    have filled: "(if cursor < seg_offset e then
                 map_option (add_segment r cursor)
                   (go_slice p (unat (cursor - off)) (unat (seg_offset e - off)))
               else Some r) =
        Some (r\<lparr>segments := segments r @ piece, buffered := buffered r + int (seg_bytes piece)\<rparr>)"
    proof (cases "cursor < seg_offset e")
      case True
      then have lt: "unat cursor < slo e" by (simp add: word_less_nat_alt slo_def)
      have "off \<le> seg_offset e" using True Cons.prems(3) by simp
      then have i: "unat (cursor - off) = unat cursor - unat off" "unat (seg_offset e - off) = slo e - unat off"
        using Cons.prems(3) by (simp_all add: unat_minus_u64 slo_def)
      have "go_slice p (unat cursor - unat off) (slo e - unat off) =
          Some (take (slo e - unat cursor) (drop (unat cursor - unat off) p))"
        using lt off in_e stop by (subst go_slice_Some) auto
      moreover have "take (slo e - unat cursor) (drop (unat cursor - unat off) p) \<noteq> []"
        using lt off in_e stop by auto
      ultimately show ?thesis using True i by (simp add: add_segment_def piece_def)
    qed (simp add: piece_def)
    have piece: "in_range (unat cursor) (slo e) s \<and> slo s = unat cursor \<and> shi s = slo e \<and>
        seg_cells s \<subseteq> cells (unat off) p \<and>
        (\<forall>i b. (i, b) \<in> cells (unat off) p \<longrightarrow> unat cursor \<le> i \<longrightarrow> i < slo e \<longrightarrow> (i, b) \<in> seg_cells s)"
      if "s \<in> set piece" for s
      using that off in_e stop slo_less_shi [OF e] e unat_lt_2_64 [of "seg_offset e"]
      by (auto simp: piece_def in_range_def slo_def shi_def word_less_nat_alt in_seg_cells in_cells
          split: if_splits)
    have no_piece: "piece = [] \<Longrightarrow> slo e \<le> unat cursor"
      by (simp add: piece_def slo_def word_le_nat_alt not_less split: if_splits)
    have "off \<le> ?ee" using off in_e ee by (simp add: word_le_nat_alt)
    from Cons.IH [OF rest(3,2) this, of "r\<lparr>segments := segments r @ piece, buffered := buffered r + int (seg_bytes piece)\<rparr>"]
    obtain c added where IH:
      "fill_gaps off stop p es ?ee (r\<lparr>segments := segments r @ piece, buffered := buffered r + int (seg_bytes piece)\<rparr>) =
        Some (c, r\<lparr>segments := segments r @ piece @ added, buffered := buffered r + int (seg_bytes (piece @ added))\<rparr>)"
      "?ee \<le> c" "chain added" "\<forall>a \<in> set added. in_range (unat ?ee) (min (unat stop) (unat c)) a"
      "\<forall>a \<in> set added. \<forall>e \<in> set es. apart a e"
      "\<forall>e \<in> set es. shi e \<le> unat c \<or> unat stop \<le> slo e" "held added \<subseteq> cells (unat off) p"
      "\<forall>i b. (i, b) \<in> cells (unat off) p \<longrightarrow> unat ?ee \<le> i \<longrightarrow> i < unat c \<longrightarrow>
            (i, b) \<in> held added \<or> (\<exists>e \<in> set es. slo e \<le> i \<and> i < shi e)"
      by (auto simp: algebra_simps)
    have c: "shi e \<le> unat c" using IH(2) ee by (simp add: word_le_nat_alt)
    show ?thesis
    proof (rule exI [of _ c], rule exI [of _ "piece @ added"], intro conjI)
      show "fill_gaps off stop p (e # es) cursor r =
        Some (c, r\<lparr>segments := segments r @ piece @ added, buffered := buffered r + int (seg_bytes (piece @ added))\<rparr>)"
        using False filled IH(1) in_e ee by (simp add: Let_def word_less_nat_alt)
      show "cursor \<le> c" using c in_e by (simp add: word_le_nat_alt)
      have "chain piece" by (simp add: piece_def)
      moreover have "shi x \<le> slo y" if "x \<in> set piece" "y \<in> set added" for x y
      proof -
        have "shi x = slo e" using piece [OF that(1)] by blast
        moreover have "shi e \<le> slo y" using IH(4) that(2) ee by (auto simp: in_range_def)
        ultimately show ?thesis using slo_less_shi [OF e] by simp
      qed
      ultimately show "chain (piece @ added)" using IH(3) by (simp only: chain_simps) blast
      show "\<forall>a \<in> set (piece @ added). in_range (unat cursor) (min (unat stop) (unat c)) a"
        using piece IH(4) in_e c ee slo_less_shi [OF e] by (fastforce simp: in_range_def)
      show "\<forall>a \<in> set (piece @ added). \<forall>f \<in> set (e # es). apart a f"
        using piece IH(4,5) rest(1) ee slo_less_shi [OF e] by (fastforce simp: in_range_def apart_def)
      show "\<forall>f \<in> set (e # es). shi f \<le> unat c \<or> unat stop \<le> slo f" using IH(6) c by simp
      show "held (piece @ added) \<subseteq> cells (unat off) p" using piece IH(7) by (auto simp: held_def)
      show "\<forall>i b. (i, b) \<in> cells (unat off) p \<longrightarrow> unat cursor \<le> i \<longrightarrow> i < unat c \<longrightarrow>
            (i, b) \<in> held (piece @ added) \<or> (\<exists>f \<in> set (e # es). slo f \<le> i \<and> i < shi f)"
      proof (intro allI impI)
        fix i b
        assume b: "(i, b) \<in> cells (unat off) p" "unat cursor \<le> i" "i < unat c"
        consider "i < slo e" | "slo e \<le> i" "i < shi e" | "shi e \<le> i" by linarith
        then show "(i, b) \<in> held (piece @ added) \<or> (\<exists>f \<in> set (e # es). slo f \<le> i \<and> i < shi f)"
        proof cases
          case 1
          with b no_piece have "piece \<noteq> []" by auto
          with piece b 1 show ?thesis by (cases piece) auto
        next
          case 2
          then show ?thesis by auto
        next
          case 3
          with IH(8) b ee show ?thesis by auto
        qed
      qed
    qed
  qed
qed

section \<open>What push does\<close>

lemma agree_held: "agree A (held segs) \<longleftrightarrow> (\<forall>e \<in> set segs. agree A (seg_cells e))"
  by (auto simp: agree_def held_def)

text \<open>
  The tail of \<open>push\<close>, after the checks: it never panics, the segments then hold exactly the old
  bytes and the payload, and of the two final checks only the segment limit can fail.
\<close>

lemma push_tail_spec:
  assumes inv: "\<forall>s \<in> set (segments r). in_range lo hi s" "gapped (segments r)"
      "buffered r = int (seg_bytes (segments r))"
    and p: "p \<noteq> []" "lo \<le> unat off" "unat off + length p \<le> hi" "unat off + length p < 2 ^ 64"
    and agr: "agree (cells (unat off) p) (held (segments r))"
    and win: "hi \<le> lo + unat (window_bytes r)"
  shows "\<exists>l. push_tail r off p =
           Some (if length l > MaxReorderSegments then Some ErrSegmentLimit else None,
                 r\<lparr>segments := l, buffered := int (seg_bytes l)\<rparr>) \<and>
         gapped l \<and> (\<forall>s \<in> set l. in_range lo hi s) \<and>
         held l = held (segments r) \<union> cells (unat off) p"
proof -
  let ?stop = "off + len64 p"
  have stop: "unat ?stop = unat off + length p" using p(4) by (rule unat_add_len64)
  obtain c added where fill: "fill_gaps off ?stop p (segments r) off r =
        Some (c, r\<lparr>segments := segments r @ added, buffered := buffered r + int (seg_bytes added)\<rparr>)"
    and c: "off \<le> c" and added: "chain added"
      "\<forall>a \<in> set added. in_range (unat off) (min (unat ?stop) (unat c)) a"
      "\<forall>a \<in> set added. \<forall>e \<in> set (segments r). apart a e"
    and beyond: "\<forall>e \<in> set (segments r). shi e \<le> unat c \<or> unat ?stop \<le> slo e"
    and sub: "held added \<subseteq> cells (unat off) p"
    and cover: "\<forall>i b. (i, b) \<in> cells (unat off) p \<longrightarrow> unat off \<le> i \<longrightarrow> i < unat c \<longrightarrow>
            (i, b) \<in> held added \<or> (\<exists>e \<in> set (segments r). slo e \<le> i \<and> i < shi e)"
    using fill_gaps_spec [OF inv(1) gapped_chain [OF inv(2)] p(4) refl order_refl] by blast
  define rest where "rest = (if c < ?stop then [\<lparr>seg_offset = c, seg_data = drop (unat c - unat off) p\<rparr>] else [])"
  define r2 where "r2 = r\<lparr>segments := segments r @ added @ rest,
      buffered := int (seg_bytes (segments r @ added @ rest))\<rparr>"
  have c': "unat off \<le> unat c" using c by (simp add: word_le_nat_alt)
  have last: "(if c < ?stop then map_option (add_segment (r\<lparr>segments := segments r @ added,
        buffered := buffered r + int (seg_bytes added)\<rparr>) c)
          (go_slice p (unat (c - off)) (length p))
      else Some (r\<lparr>segments := segments r @ added, buffered := buffered r + int (seg_bytes added)\<rparr>)) = Some r2"
    using stop c c' inv(3)
    by (auto simp: rest_def r2_def add_segment_def go_slice_def unat_minus_u64 word_less_nat_alt)
  have in_rest: "slo s = unat c \<and> shi s = unat ?stop \<and> unat c < unat ?stop \<and>
      in_range (unat c) (unat ?stop) s \<and>
      seg_cells s = {(i, b) \<in> cells (unat off) p. unat c \<le> i}" if "s \<in> set rest" for s
    using that c' stop p(4) cells_drop [of "unat c - unat off" p "unat off"]
    by (auto simp: rest_def slo_def shi_def in_range_def word_less_nat_alt seg_cells_def split: if_splits)
  have no_rest: "rest = [] \<Longrightarrow> unat ?stop \<le> unat c"
    by (simp add: rest_def word_le_nat_alt not_less split: if_splits)
  have "\<forall>s \<in> set (segments r2). in_range lo hi s"
    using inv(1) added(2) in_rest p(2,3) stop c' by (fastforce simp: r2_def in_range_def)
  moreover have "sorted_wrt apart (segments r2)"
  proof -
    have "sorted_wrt apart (segments r)"
      using gapped_chain [OF inv(2)] unfolding chain_def
      by (rule sorted_wrt_mono_rel [rotated]) (simp add: apart_def)
    moreover have "sorted_wrt apart added"
      using added(1) unfolding chain_def
      by (rule sorted_wrt_mono_rel [rotated]) (simp add: apart_def)
    moreover have "apart e s" if "e \<in> set (segments r)" "s \<in> set rest" for e s
      using in_rest [OF that(2)] beyond that(1) by (auto simp: apart_def)
    moreover have "apart a s" if "a \<in> set added" "s \<in> set rest" for a s
      using in_rest [OF that(2)] added(2) that(1) by (auto simp: apart_def in_range_def)
    moreover have "sorted_wrt apart rest" by (simp add: rest_def)
    ultimately show ?thesis
      using added(3) by (auto simp: r2_def sorted_wrt_append intro: apart_sym)
  qed
  ultimately obtain l where merge: "merge_segments r2 = Some (r2\<lparr>segments := l\<rparr>)"
    and l: "gapped l" "held l = held (segments r2)" "seg_bytes l = seg_bytes (segments r2)"
      "\<forall>s \<in> set l. in_range lo hi s"
    using merge_segments_spec by blast
  have rest_cells: "held rest = {(i, b) \<in> cells (unat off) p. unat c \<le> i}"
  proof (cases rest)
    case Nil
    with no_rest stop show ?thesis by (auto simp: in_cells)
  next
    case (Cons s ss)
    then have "rest = [s]" by (auto simp: rest_def split: if_splits)
    with in_rest show ?thesis by simp
  qed
  have "held l = held (segments r) \<union> cells (unat off) p"
  proof
    show "held l \<subseteq> held (segments r) \<union> cells (unat off) p"
      using sub rest_cells by (auto simp: l(2) r2_def)
    have "(i, b) \<in> held (segments r) \<union> held added \<union> held rest" if b: "(i, b) \<in> cells (unat off) p" for i b
    proof (cases "i < unat c")
      case True
      with b cover consider "(i, b) \<in> held added" | e where "e \<in> set (segments r)" "slo e \<le> i" "i < shi e"
        by (auto simp: in_cells)
      then show ?thesis
      proof cases
        case 1
        then show ?thesis by simp
      next
        case 2
        then have e: "(i, seg_data e ! (i - slo e)) \<in> held (segments r)"
          unfolding held_def by (auto simp: in_seg_cells)
        with agr b have "b = seg_data e ! (i - slo e)" unfolding agree_def by blast
        with e show ?thesis by simp
      qed
    next
      case False
      with b rest_cells show ?thesis by simp
    qed
    then show "held (segments r) \<union> cells (unat off) p \<subseteq> held l"
      by (auto simp: l(2) r2_def)
  qed
  moreover have "seg_bytes l \<le> unat (window_bytes r)"
    using seg_bytes_bound [OF gapped_chain [OF l(1)] l(4)] win by (cases "l = []") auto
  then have "\<not> (word_of_int (int (seg_bytes l)) > window_bytes r)"
    using unat_lt_2_64 [of "window_bytes r"]
    by (simp add: word_less_nat_alt unat_word_of_nat)
  moreover have "buffered (r2\<lparr>segments := l\<rparr>) = int (seg_bytes l)"
    by (simp add: l(3) r2_def)
  ultimately show ?thesis
    using l(1,4) fill last merge
    by (intro exI [of _ l]) (simp add: push_tail_def Let_def r2_def)
qed

text \<open>The part of a payload that is not behind the reassembler.\<close>

definition ahead :: "reassembler \<Rightarrow> u64 \<Rightarrow> byte list \<Rightarrow> (nat \<times> byte) set" where
  "ahead r off p = {(i, b) \<in> cells (unat off) p. unat (next_offset r) \<le> i}"

text \<open>
  The checks of \<open>push\<close> on naturals, in the code's order; in particular a payload that is
  entirely old is accepted before the FIN is looked at.
\<close>

definition push_verdict :: "reassembler \<Rightarrow> u64 \<Rightarrow> byte list \<Rightarrow> go_error option" where
  "push_verdict r off p =
     (let stop = unat off + length p
      in if p = [] \<or> 2 ^ 64 \<le> stop then Some ErrInvalidFrame
         else if stop \<le> unat (next_offset r) then None
         else if (case fin_offset r of None \<Rightarrow> False | Some f \<Rightarrow> unat f < stop) then Some ErrFIN
         else if unat (next_offset r) + unat (window_bytes r) < stop then Some ErrReorderWindow
         else if \<not> agree (ahead r off p) (held (segments r)) then Some ErrOverlap
         else None)"

text \<open>The trimmed payload: the same end, and exactly the cells ahead.\<close>

lemma push_trim:
  assumes "p \<noteq> []" and "unat off + length p < 2 ^ 64"
    and "unat (next_offset r) < unat off + length p"
  obtains off' p' where
    "(if off < next_offset r
      then map_option (Pair (next_offset r)) (go_slice p (unat (next_offset r - off)) (length p))
      else Some (off, p)) = Some (off', p')"
    "p' \<noteq> []" "unat (next_offset r) \<le> unat off'" "unat off' + length p' = unat off + length p"
    "cells (unat off') p' = ahead r off p"
proof (cases "off < next_offset r")
  case True
  let ?n = "unat (next_offset r) - unat off"
  have lt: "unat off < unat (next_offset r)" using True by (simp add: word_less_nat_alt)
  have trim: "unat (next_offset r - off) = ?n"
    using True by (simp add: unat_minus_u64)
  have "cells (unat off + ?n) (drop ?n p) = {(i, b) \<in> cells (unat off) p. unat off + ?n \<le> i}"
    using assms(3) lt by (intro cells_drop) simp
  with True trim assms(3) lt show ?thesis
    by (intro that [of "next_offset r" "drop ?n p"]) (auto simp: go_slice_def ahead_def)
next
  case False
  then have "unat (next_offset r) \<le> unat off" by (simp add: word_le_nat_alt not_less)
  with False assms show ?thesis
    by (intro that [of off p]) (auto simp: ahead_def in_cells)
qed

lemma overlaps_inv:
  assumes inv: "reasm_inv r" and small: "unat off + length p < 2 ^ 64"
  shows "overlaps_agree off (off + len64 p) p (segments r) =
           Some (agree (cells (unat off) p) (held (segments r)))"
  using overlaps_agree_spec [OF _ small refl, of "segments r" "unat (next_offset r)"
      "unat (next_offset r) + unat (window_bytes r)"] inv
  by (simp add: reasm_inv_def agree_held)

lemma push_refused:
  assumes inv: "reasm_inv r" and p: "is_slice p" and e: "push_verdict r off p = Some e"
  shows "push r off p = Some (Some e, r)"
proof (cases "p = [] \<or> 2 ^ 64 \<le> unat off + length p")
  case True
  then have "p = [] \<or> off > - 1 - len64 p" using offset_fits [OF p, of off] by fastforce
  with True e show ?thesis by (auto simp: push_def push_verdict_def Let_def)
next
  case False
  then have small: "unat off + length p < 2 ^ 64" and ok: "\<not> off > - 1 - len64 p"
    and ne: "p \<noteq> []"
    using offset_overflows [OF p] by auto
  have stop: "unat (off + len64 p) = unat off + length p" using small by (rule unat_add_len64)
  have new: "unat (next_offset r) < unat off + length p"
    using e False by (auto simp: push_verdict_def Let_def split: if_splits)
  have not_old: "\<not> off + len64 p \<le> next_offset r" using new stop by (simp add: word_le_nat_alt)
  show ?thesis
  proof (cases "case fin_offset r of None \<Rightarrow> False | Some f \<Rightarrow> unat f < unat off + length p")
    case True
    with e False new have "e = ErrFIN" by (simp add: push_verdict_def Let_def)
    moreover have "case fin_offset r of None \<Rightarrow> False | Some f \<Rightarrow> off + len64 p > f"
      using True stop by (auto simp: word_less_nat_alt split: option.splits)
    ultimately show ?thesis using ok ne not_old by (simp add: push_def Let_def)
  next
    case nofin: False
    then have fin: "\<not> (case fin_offset r of None \<Rightarrow> False | Some f \<Rightarrow> off + len64 p > f)"
      using stop by (auto simp: word_less_nat_alt split: option.splits)
    from push_trim [OF ne small new] obtain off' p' where
      trim: "(if off < next_offset r
        then map_option (Pair (next_offset r)) (go_slice p (unat (next_offset r - off)) (length p))
        else Some (off, p)) = Some (off', p')"
      and p': "p' \<noteq> []" "unat (next_offset r) \<le> unat off'"
        "unat off' + length p' = unat off + length p" "cells (unat off') p' = ahead r off p"
      by blast
    have small': "unat off' + length p' < 2 ^ 64" using small p' by simp
    have stop': "unat (off' + len64 p') = unat off + length p"
      using unat_add_len64 [OF small'] p' by simp
    have win: "window_bytes r = 0 \<or> off' + len64 p' - next_offset r > window_bytes r \<longleftrightarrow>
        unat (next_offset r) + unat (window_bytes r) < unat off + length p"
      using stop' new by (auto simp: word_less_nat_alt word_le_nat_alt unat_minus_u64 word_unat_eq_iff)
    have ov: "overlaps_agree off' (off' + len64 p') p' (segments r) =
        Some (agree (ahead r off p) (held (segments r)))"
      using overlaps_inv [OF inv small'] p'(4) by simp
    show ?thesis
      using e False new nofin ok ne not_old fin trim win ov
      by (auto simp: push_def push_verdict_def Let_def split: if_splits)
  qed
qed

lemma held_below_fin:
  "reasm_inv r \<Longrightarrow> fin_offset r = Some f \<Longrightarrow> (i, b) \<in> held (segments r) \<Longrightarrow> i < unat f"
  by (fastforce simp: reasm_inv_def held_def in_seg_cells)

lemma held_from_next:
  "reasm_inv r \<Longrightarrow> (i, b) \<in> held (segments r) \<Longrightarrow> unat (next_offset r) \<le> i"
  by (fastforce simp: reasm_inv_def held_def in_seg_cells in_range_def)

lemma push_accepted:
  assumes inv: "reasm_inv r" and p: "is_slice p" and e: "push_verdict r off p = None"
  shows "\<exists>e l. push r off p = Some (e, r\<lparr>segments := l, buffered := int (seg_bytes l)\<rparr>) \<and>
     reasm_inv (r\<lparr>segments := l, buffered := int (seg_bytes l)\<rparr>) \<and>
     held l = held (segments r) \<union> ahead r off p \<and>
     (e = None \<longrightarrow> unat off + length p \<le> unat (next_offset r) \<or> length l \<le> MaxReorderSegments) \<and>
     (e \<noteq> None \<longrightarrow> e = Some ErrSegmentLimit \<and> length l > MaxReorderSegments \<and> unat (next_offset r) < unat off + length p)"
proof -
  have small: "unat off + length p < 2 ^ 64" and ne: "p \<noteq> []"
    using e by (auto simp: push_verdict_def Let_def split: if_splits)
  have ok: "\<not> off > - 1 - len64 p" using offset_overflows [OF p small] .
  have stop: "unat (off + len64 p) = unat off + length p" using small by (rule unat_add_len64)
  show ?thesis
  proof (cases "unat off + length p \<le> unat (next_offset r)")
    case True
    then have "push r off p = Some (None, r)"
      using ok ne stop by (simp add: push_def Let_def word_le_nat_alt)
    moreover have "ahead r off p = {}" using True by (auto simp: ahead_def in_cells)
    moreover have "r\<lparr>segments := segments r, buffered := int (seg_bytes (segments r))\<rparr> = r"
      using inv by (simp add: reasm_inv_def)
    ultimately show ?thesis using True inv by (intro exI [of _ None] exI [of _ "segments r"]) simp
  next
    case False
    then have new: "unat (next_offset r) < unat off + length p" by simp
    have not_old: "\<not> off + len64 p \<le> next_offset r" using new stop by (simp add: word_le_nat_alt)
    have nofin: "\<not> (case fin_offset r of None \<Rightarrow> False | Some f \<Rightarrow> unat f < unat off + length p)"
      and inwin: "unat off + length p \<le> unat (next_offset r) + unat (window_bytes r)"
      and agr: "agree (ahead r off p) (held (segments r))"
      using e ne small new by (auto simp: push_verdict_def Let_def split: if_splits)
    then have fin: "\<not> (case fin_offset r of None \<Rightarrow> False | Some f \<Rightarrow> off + len64 p > f)"
      using stop by (auto simp: word_less_nat_alt split: option.splits)
    from push_trim [OF ne small new] obtain off' p' where
      trim: "(if off < next_offset r
        then map_option (Pair (next_offset r)) (go_slice p (unat (next_offset r - off)) (length p))
        else Some (off, p)) = Some (off', p')"
      and p': "p' \<noteq> []" "unat (next_offset r) \<le> unat off'"
        "unat off' + length p' = unat off + length p" "cells (unat off') p' = ahead r off p"
      by blast
    have small': "unat off' + length p' < 2 ^ 64" using small p' by simp
    have stop': "unat (off' + len64 p') = unat off + length p"
      using unat_add_len64 [OF small'] p' by simp
    have win: "\<not> (window_bytes r = 0 \<or> off' + len64 p' - next_offset r > window_bytes r)"
      using stop' new inwin by (auto simp: word_less_nat_alt word_le_nat_alt unat_minus_u64 word_unat_eq_iff)
    have ov: "overlaps_agree off' (off' + len64 p') p' (segments r) = Some True"
      using overlaps_inv [OF inv small'] agr p'(4) by simp
    have "push r off p = push_tail r off' p'"
      using ok ne not_old fin trim win ov by (simp add: push_def Let_def)
    moreover obtain l where l: "push_tail r off' p' =
           Some (if length l > MaxReorderSegments then Some ErrSegmentLimit else None,
                 r\<lparr>segments := l, buffered := int (seg_bytes l)\<rparr>)"
      "gapped l" "\<forall>s \<in> set l. in_range (unat (next_offset r)) (unat (next_offset r) + unat (window_bytes r)) s"
      "held l = held (segments r) \<union> ahead r off p"
      using push_tail_spec [of r "unat (next_offset r)" "unat (next_offset r) + unat (window_bytes r)" p' off']
        inv p' small' inwin agr unfolding reasm_inv_def by auto
    moreover have "reasm_inv (r\<lparr>segments := l, buffered := int (seg_bytes l)\<rparr>)"
    proof -
      have "shi s \<le> unat f" if f: "fin_offset r = Some f" and s: "s \<in> set l" for s f
      proof -
        have ne': "slo s < shi s" using slo_less_shi l(3) s by blast
        let ?x = "seg_data s ! (shi s - 1 - slo s)"
        have "(shi s - 1, ?x) \<in> held l"
          using s ne' unfolding held_def by (auto simp: in_seg_cells intro!: bexI [of _ s])
        then consider "(shi s - 1, ?x) \<in> held (segments r)" | "(shi s - 1, ?x) \<in> ahead r off p"
          using l(4) by blast
        then have "shi s - 1 < unat f"
          using held_below_fin [OF inv f] f nofin by cases (auto simp: ahead_def in_cells)
        with ne' show ?thesis by simp
      qed
      with l inv show ?thesis by (auto simp: reasm_inv_def split: option.splits)
    qed
    ultimately show ?thesis using False
      by (intro exI [of _ "if length l > MaxReorderSegments then Some ErrSegmentLimit else None"]
          exI [of _ l]) auto
  qed
qed

section \<open>What SetFIN does\<close>

lemma set_fin_spec:
  assumes "reasm_inv r"
  shows "set_fin r off =
     (if unat off < unat (next_offset r) \<or> (\<exists>i b. (i, b) \<in> held (segments r) \<and> unat off \<le> i) \<or>
         (\<exists>f. fin_offset r = Some f \<and> f \<noteq> off)
      then (Some ErrFIN, r) else (None, r\<lparr>fin_offset := Some off\<rparr>))"
proof -
  have rng: "in_range (unat (next_offset r)) (unat (next_offset r) + unat (window_bytes r)) s"
    if "s \<in> set (segments r)" for s using that assms by (simp add: reasm_inv_def)
  have "list_ex (\<lambda>item. seg_offset item + len64 (seg_data item) > off) (segments r) \<longleftrightarrow>
      (\<exists>s \<in> set (segments r). unat off < shi s)"
    using seg_end [OF rng] by (auto simp: list_ex_iff word_less_nat_alt)
  also have "\<dots> \<longleftrightarrow> (\<exists>i b. (i, b) \<in> held (segments r) \<and> unat off \<le> i)"
  proof
    assume "\<exists>s \<in> set (segments r). unat off < shi s"
    then obtain s where s: "s \<in> set (segments r)" "unat off < shi s" by blast
    with slo_less_shi [OF rng [OF s(1)]]
    have "(shi s - 1, seg_data s ! (shi s - 1 - slo s)) \<in> held (segments r)" "unat off \<le> shi s - 1"
      unfolding held_def by (auto simp: in_seg_cells intro!: bexI [of _ s])
    then show "\<exists>i b. (i, b) \<in> held (segments r) \<and> unat off \<le> i" by blast
  next
    assume "\<exists>i b. (i, b) \<in> held (segments r) \<and> unat off \<le> i"
    then obtain i b s where "s \<in> set (segments r)" "(i, b) \<in> seg_cells s" "unat off \<le> i"
      unfolding held_def by blast
    then show "\<exists>s \<in> set (segments r). unat off < shi s"
      by (auto simp: in_seg_cells intro!: bexI [of _ s])
  qed
  finally show ?thesis
    by (cases "fin_offset r") (auto simp: set_fin_def word_less_nat_alt)
qed

lemma set_fin_inv:
  assumes "reasm_inv r" and "set_fin r off = (None, r')"
  shows "reasm_inv r'"
proof -
  have ok: "\<not> off < next_offset r" "r' = r\<lparr>fin_offset := Some off\<rparr>"
    "\<forall>s \<in> set (segments r). \<not> seg_offset s + len64 (seg_data s) > off"
    using assms(2) by (auto simp: set_fin_def list_ex_iff split: if_splits)
  have "shi s \<le> unat off" if "s \<in> set (segments r)" for s
    using that assms(1) ok(3) seg_end [of _ _ s]
    by (fastforce simp: reasm_inv_def word_less_nat_alt not_less)
  with ok assms(1) show ?thesis by (auto simp: reasm_inv_def not_less split: option.splits)
qed

section \<open>What DrainTo does\<close>

lemma held_unique:
  "gapped segs \<Longrightarrow> (i, b) \<in> held segs \<Longrightarrow> (i, c) \<in> held segs \<Longrightarrow> b = c"
proof (induction segs)
  case Nil
  then show ?case by simp
next
  case (Cons s ss)
  have "i < shi s \<Longrightarrow> (i, x) \<notin> held ss" for x
    using Cons.prems(1) by (fastforce simp: held_def in_seg_cells)
  with Cons show ?case by (auto simp: in_seg_cells)
qed

context io_writer
begin

lemma drain_item_spec:
  assumes "drain_item wr item r w = (e, item', r', w')"
    and "seg_offset item = next_offset r" and "unat (next_offset r) + length (seg_data item) < 2 ^ 64"
  shows "\<exists>k \<le> length (seg_data item).
     r' = r\<lparr>next_offset := next_offset r + word_of_nat k, buffered := buffered r - int k\<rparr> \<and>
     unat (next_offset r') = unat (next_offset r) + k \<and>
     seg_offset item' = next_offset r' \<and> seg_data item' = drop k (seg_data item) \<and>
     out w' = out w @ take k (seg_data item) \<and> (e = None \<longrightarrow> k = length (seg_data item))"
  using assms
proof (induction "length (seg_data item)" arbitrary: item r w rule: less_induct)
  case less
  show ?case
  proof (cases "seg_data item = []")
    case True
    with less.prems show ?thesis by (auto simp: drain_item.simps [of wr item r w])
  next
    case nonempty: False
    obtain n err v where w: "wr w (seg_data item) = (n, err, v)"
      by (cases "wr w (seg_data item)") auto
    note n = write_appends [OF w]
    define item1 where "item1 = \<lparr>seg_offset = seg_offset item + word_of_nat n, seg_data = drop n (seg_data item)\<rparr>"
    define r1 where "r1 = r\<lparr>next_offset := next_offset r + word_of_nat n, buffered := buffered r - int n\<rparr>"
    have n1: "unat (next_offset r1) = unat (next_offset r) + n"
      using n less.prems(3) unat_lt_2_64 [of "next_offset r"]
      by (simp add: r1_def unat_plus_if' unat_word_of_nat)
    show ?thesis
    proof (cases "err = None \<and> 0 < n")
      case True
      with less.prems(1) w nonempty have rest: "drain_item wr item1 r1 v = (e, item', r', w')"
        by (simp add: drain_item.simps [of wr item r w] item1_def r1_def)
      have "\<exists>k \<le> length (seg_data item1).
         r' = r1\<lparr>next_offset := next_offset r1 + word_of_nat k, buffered := buffered r1 - int k\<rparr> \<and>
         unat (next_offset r') = unat (next_offset r1) + k \<and>
         seg_offset item' = next_offset r' \<and> seg_data item' = drop k (seg_data item1) \<and>
         out w' = out v @ take k (seg_data item1) \<and> (e = None \<longrightarrow> k = length (seg_data item1))"
        using True nonempty n n1 less.prems(2,3)
        by (intro less.hyps [OF _ rest]) (auto simp: item1_def r1_def)
      then obtain k where k: "k \<le> length (seg_data item1)"
         "r' = r1\<lparr>next_offset := next_offset r1 + word_of_nat k, buffered := buffered r1 - int k\<rparr>"
         "unat (next_offset r') = unat (next_offset r1) + k"
         "seg_offset item' = next_offset r'" "seg_data item' = drop k (seg_data item1)"
         "out w' = out v @ take k (seg_data item1)" "e = None \<longrightarrow> k = length (seg_data item1)"
        by blast
      have "take (n + k) (seg_data item) = take n (seg_data item) @ take k (drop n (seg_data item))"
        by (rule take_add)
      with k n n1 show ?thesis
        by (intro exI [of _ "n + k"]) (auto simp: item1_def r1_def add.commute add.left_commute)
    next
      case False
      with less.prems(1) w nonempty have "e \<noteq> None \<and> w' = v \<and>
          (item' = (if 0 < n then item1 else item)) \<and> r' = (if 0 < n then r1 else r)"
        by (auto simp: drain_item.simps [of wr item r w] item1_def r1_def split: option.splits)
      with n n1 less.prems(2) show ?thesis
        by (intro exI [of _ n]) (auto simp: item1_def r1_def)
    qed
  qed
qed

lemma drain_loop_spec:
  assumes "drain_loop wr segs r w = (e, r', w')"
    and "\<forall>s \<in> set segs. in_range (unat (next_offset r)) hi s" and "gapped segs"
    and "buffered r = int (seg_bytes segs)"
  shows "\<exists>d. out w' = out w @ d \<and> unat (next_offset r') = unat (next_offset r) + length d \<and>
     cells (unat (next_offset r)) d \<subseteq> held segs \<and>
     held (segments r') = {(i, b) \<in> held segs. unat (next_offset r') \<le> i} \<and>
     buffered r' = int (seg_bytes (segments r')) \<and>
     fin_offset r' = fin_offset r \<and> window_bytes r' = window_bytes r \<and>
     (e = None \<longrightarrow> gapped (segments r') \<and>
        (\<forall>s \<in> set (segments r'). in_range (Suc (unat (next_offset r'))) hi s))"
  using assms
proof (induction segs arbitrary: r w)
  case Nil
  then show ?case by (auto intro!: exI [of _ "[]"])
next
  case (Cons item rest)
  let ?n = "unat (next_offset r)"
  have item: "in_range ?n hi item" and gap: "\<forall>s \<in> set rest. shi item < slo s" "gapped rest"
    and rest: "\<forall>s \<in> set rest. in_range ?n hi s" using Cons.prems by auto
  have above: "(i, b) \<in> held rest \<Longrightarrow> shi item < i" for i b
    using gap by (fastforce simp: held_def in_seg_cells)
  show ?case
  proof (cases "seg_offset item = next_offset r")
    case False
    then have lt: "?n < slo item"
      using item by (simp add: in_range_def slo_def word_unat_eq_iff)
    have r': "e = None" "r' = r\<lparr>segments := item # rest\<rparr>" "w' = w"
      using Cons.prems(1) False by auto
    have "\<forall>s \<in> set (item # rest). in_range (Suc ?n) hi s"
      using lt item rest gap slo_less_shi [OF item] by (fastforce simp: in_range_def)
    moreover have "held (item # rest) = {(i, b) \<in> held (item # rest). ?n \<le> i}"
      using lt above slo_less_shi [OF item] by (fastforce simp: in_seg_cells)
    ultimately show ?thesis using r' Cons.prems(3,4) by (intro exI [of _ "[]"]) simp
  next
    case True
    then have slo: "slo item = ?n" by (simp add: slo_def)
    obtain e1 item1 r1 w1 where di: "drain_item wr item r w = (e1, item1, r1, w1)"
      by (cases "drain_item wr item r w") auto
    have "?n + length (seg_data item) < 2 ^ 64" using item slo by (simp add: in_range_def shi_def)
    from drain_item_spec [OF di True this] obtain k where k: "k \<le> length (seg_data item)"
      "r1 = r\<lparr>next_offset := next_offset r + word_of_nat k, buffered := buffered r - int k\<rparr>"
      "unat (next_offset r1) = ?n + k" "seg_offset item1 = next_offset r1"
      "seg_data item1 = drop k (seg_data item)" "out w1 = out w @ take k (seg_data item)"
      "e1 = None \<longrightarrow> k = length (seg_data item)"
      by blast
    have taken: "cells ?n (take k (seg_data item)) = {(i, b) \<in> seg_cells item. i < ?n + k}"
      using slo by (auto simp: cells_take seg_cells_def)
    have item1: "seg_cells item1 = {(i, b) \<in> seg_cells item. ?n + k \<le> i}"
      using k slo cells_drop [OF k(1), of ?n] by (simp add: seg_cells_def slo_def)
    have kle: "?n + k \<le> shi item" using k(1) slo by (simp add: shi_def)
    show ?thesis
    proof (cases e1)
      case (Some e')
      then have r': "e = Some e'" "r' = r1\<lparr>segments := item1 # rest\<rparr>" "w' = w1"
        using Cons.prems(1) True di by auto
      have "held (segments r') = {(i, b) \<in> held (item # rest). ?n + k \<le> i}"
        using r' item1 above kle by fastforce
      with r' k taken Cons.prems(4) show ?thesis
        by (intro exI [of _ "take k (seg_data item)"]) auto
    next
      case None
      then have k': "k = length (seg_data item)" "?n + k = shi item"
        using k(7) slo by (simp_all add: shi_def)
      have "drain_loop wr rest r1 w1 = (e, r', w')" using Cons.prems(1) True di None by simp
      moreover have "\<forall>s \<in> set rest. in_range (unat (next_offset r1)) hi s"
        using rest gap k(3) k' by (fastforce simp: in_range_def)
      moreover have "buffered r1 = int (seg_bytes rest)" using k(2) k'(1) Cons.prems(4) by simp
      ultimately obtain d where d: "out w' = out w1 @ d"
        "unat (next_offset r') = unat (next_offset r1) + length d"
        "cells (unat (next_offset r1)) d \<subseteq> held rest"
        "held (segments r') = {(i, b) \<in> held rest. unat (next_offset r') \<le> i}"
        "buffered r' = int (seg_bytes (segments r'))"
        "fin_offset r' = fin_offset r1" "window_bytes r' = window_bytes r1"
        "e = None \<longrightarrow> gapped (segments r') \<and>
           (\<forall>s \<in> set (segments r'). in_range (Suc (unat (next_offset r'))) hi s)"
        using Cons.IH [of r1 w1] gap(2) by blast
      have "cells ?n (seg_data item @ d) \<subseteq> held (item # rest)"
        using d(3) k(3) k' taken by (auto simp: cells_append)
      moreover have "held (segments r') = {(i, b) \<in> held (item # rest). unat (next_offset r') \<le> i}"
        using d(2,4) k(3) k' by (auto simp: in_seg_cells)
      ultimately show ?thesis
        using d k k' by (intro exI [of _ "seg_data item @ d"]) auto
    qed
  qed
qed

text \<open>
  \<open>DrainTo\<close>: whatever the writer does, what it has been given extends the earlier output by
  buffered bytes that start at \<open>nextOffset\<close>, and \<open>nextOffset\<close> moves by their number. Without an
  error the next byte is missing afterwards and the invariant holds.
\<close>

lemma drain_to_spec:
  assumes "drain_to wr r w = (res, r', w')" and inv: "reasm_inv r"
  shows "\<exists>d. out w' = out w @ d \<and> unat (next_offset r') = unat (next_offset r) + length d \<and>
     cells (unat (next_offset r)) d \<subseteq> held (segments r) \<and>
     held (segments r') = {(i, b) \<in> held (segments r). unat (next_offset r') \<le> i} \<and>
     fin_offset r' = fin_offset r \<and> window_bytes r' = window_bytes r \<and>
     (\<forall>fin. res = Inr fin \<longrightarrow> reasm_inv r' \<and> (fin \<longleftrightarrow> fin_offset r = Some (next_offset r')) \<and>
        (\<forall>b. (unat (next_offset r'), b) \<notin> held (segments r')))"
proof -
  let ?n = "unat (next_offset r)"
  obtain e where loop: "drain_loop wr (segments r) r w = (e, r', w')"
    and res: "res = (case e of Some e \<Rightarrow> Inl e | None \<Rightarrow> Inr (fin_offset r' = Some (next_offset r')))"
    using assms(1) by (auto simp: drain_to_def split: prod.splits option.splits)
  from drain_loop_spec [OF loop, of "?n + unat (window_bytes r)"] inv obtain d where
    d: "out w' = out w @ d" "unat (next_offset r') = ?n + length d" "cells ?n d \<subseteq> held (segments r)"
       "held (segments r') = {(i, b) \<in> held (segments r). unat (next_offset r') \<le> i}"
       "buffered r' = int (seg_bytes (segments r'))"
       "fin_offset r' = fin_offset r" "window_bytes r' = window_bytes r"
       "e = None \<longrightarrow> gapped (segments r') \<and> (\<forall>s \<in> set (segments r').
            in_range (Suc (unat (next_offset r'))) (?n + unat (window_bytes r)) s)"
    unfolding reasm_inv_def by blast
  have "reasm_inv r' \<and> (\<forall>b. (unat (next_offset r'), b) \<notin> held (segments r'))" if "e = None"
  proof
    have rng: "\<forall>s \<in> set (segments r'). in_range (Suc (unat (next_offset r'))) (?n + unat (window_bytes r)) s"
      using that d(8) by blast
    show "\<forall>b. (unat (next_offset r'), b) \<notin> held (segments r')"
      using rng by (fastforce simp: held_def in_seg_cells in_range_def)
    have "next_offset r' \<le> f \<and> (\<forall>s \<in> set (segments r'). shi s \<le> unat f)" if f: "fin_offset r = Some f" for f
    proof
      have "?n + length d \<le> unat f"
      proof (cases "d = []")
        case True
        with inv f show ?thesis by (simp add: reasm_inv_def word_le_nat_alt)
      next
        case False
        then have "(?n + length d - 1, d ! (length d - 1)) \<in> cells ?n d"
          by (cases d) (auto simp: in_cells)
        then have "(?n + length d - 1, d ! (length d - 1)) \<in> held (segments r)"
          using d(3) by blast
        from held_below_fin [OF inv f this] show ?thesis using False by (cases d) auto
      qed
      with d(2) show "next_offset r' \<le> f" by (simp add: word_le_nat_alt)
      show "\<forall>s \<in> set (segments r'). shi s \<le> unat f"
      proof
        fix s assume s: "s \<in> set (segments r')"
        with rng have ne: "slo s < shi s" using slo_less_shi by blast
        then have "(shi s - 1, seg_data s ! (shi s - 1 - slo s)) \<in> held (segments r')"
          using s unfolding held_def by (auto simp: in_seg_cells intro!: bexI [of _ s])
        then have "(shi s - 1, seg_data s ! (shi s - 1 - slo s)) \<in> held (segments r)"
          using d(4) by blast
        from held_below_fin [OF inv f this] ne show "shi s \<le> unat f" by simp
      qed
    qed
    moreover have "\<forall>s \<in> set (segments r').
        in_range (unat (next_offset r')) (unat (next_offset r') + unat (window_bytes r')) s"
      using rng d(2,7) by (fastforce simp: in_range_def)
    ultimately show "reasm_inv r'"
      using that d(5,6,8) by (auto simp: reasm_inv_def split: option.splits)
  qed
  with d res show ?thesis by (intro exI [of _ d]) (auto split: option.splits)
qed

end

section \<open>Reachable states\<close>

text \<open>
  The states of a reassembler that is pushed into, told the end and drained to an endpoint in any
  order. A failing \<open>DrainTo\<close> ends the flow, so only a drain without an error is followed by
  another step.
\<close>

inductive reasm_reachable :: "int \<Rightarrow> reassembler \<Rightarrow> bool" for window :: int where
  reach_new: "reasm_reachable window (new_reassembler window)"
| reach_push: "reasm_reachable window r \<Longrightarrow> is_slice p \<Longrightarrow> push r off p = Some (e, r') \<Longrightarrow>
     reasm_reachable window r'"
| reach_fin: "reasm_reachable window r \<Longrightarrow> set_fin r off = (e, r') \<Longrightarrow> reasm_reachable window r'"
| reach_drain: "reasm_reachable window r \<Longrightarrow> drain_to deadline_write r w = (Inr fin, r', w') \<Longrightarrow>
     reasm_reachable window r'"

lemma push_window: "reasm_inv r \<Longrightarrow> is_slice p \<Longrightarrow> push r off p = Some (e, r') \<Longrightarrow>
    reasm_inv r' \<and> window_bytes r' = window_bytes r"
  using push_refused [of r p off] push_accepted [of r p off]
  by (cases "push_verdict r off p") fastforce+

lemma set_fin_window: "set_fin r off = (e, r') \<Longrightarrow> window_bytes r' = window_bytes r"
  by (auto simp: set_fin_def split: if_splits)

lemma set_fin_keeps_inv: "reasm_inv r \<Longrightarrow> set_fin r off = (e, r') \<Longrightarrow> reasm_inv r'"
  using set_fin_inv [of r off r'] by (cases e) (auto simp: set_fin_def split: if_splits)

lemma reachable_inv:
  "reasm_reachable window r \<Longrightarrow> reasm_inv r \<and> window_bytes r = word_of_int window"
proof (induction rule: reasm_reachable.induct)
  case reach_new
  show ?case by (simp add: reasm_inv_new) (simp add: new_reassembler_def)
next
  case (reach_push r p off e r')
  then show ?case using push_window [of r p off e r'] by simp
next
  case (reach_fin r off e r')
  then show ?case using set_fin_window [of r off e r'] set_fin_keeps_inv [of r off e r'] by simp
next
  case (reach_drain r w fin r' w')
  then show ?case using endpoint.drain_to_spec [of r w "Inr fin" r' w'] by auto
qed

lemma buffered_bound:
  assumes "reasm_inv r"
  shows "buffered r = int (seg_bytes (segments r)) \<and> seg_bytes (segments r) \<le> unat (window_bytes r)"
proof (cases "segments r = []")
  case True
  with assms show ?thesis by (simp add: reasm_inv_def)
next
  case False
  with seg_bytes_bound [OF gapped_chain, of "segments r" "unat (next_offset r)"
      "unat (next_offset r) + unat (window_bytes r)"] assms
  show ?thesis by (simp add: reasm_inv_def)
qed

section \<open>Properties\<close>

text \<open>
  C14. What \<open>push\<close> does in every state that satisfies the invariant, on every branch: it never
  panics and keeps the invariant and the position; it returns the error that the checks of
  \<open>push_verdict\<close> give, with the state unchanged; otherwise it then holds exactly the bytes it held
  and those of the payload that are ahead of the position, and the only error left is the segment
  limit.
\<close>

theorem push_behaviour:
  assumes "reasm_inv r" and "is_slice p"
  shows "\<exists>e r'. push r off p = Some (e, r') \<and> reasm_inv r' \<and> next_offset r' = next_offset r \<and>
     fin_offset r' = fin_offset r \<and> window_bytes r' = window_bytes r \<and>
     (case push_verdict r off p of
        Some v \<Rightarrow> e = Some v \<and> r' = r
      | None \<Rightarrow> held (segments r') = held (segments r) \<union> ahead r off p \<and>
          (e = (if unat (next_offset r) < unat off + length p \<and> MaxReorderSegments < length (segments r')
                then Some ErrSegmentLimit else None)))"
proof (cases "push_verdict r off p")
  case (Some v)
  with push_refused [OF assms Some] assms(1) show ?thesis by simp
next
  case None
  from push_accepted [OF assms None] obtain e l where
    "push r off p = Some (e, r\<lparr>segments := l, buffered := int (seg_bytes l)\<rparr>)"
    "reasm_inv (r\<lparr>segments := l, buffered := int (seg_bytes l)\<rparr>)"
    "held l = held (segments r) \<union> ahead r off p"
    "e = None \<longrightarrow> unat off + length p \<le> unat (next_offset r) \<or> length l \<le> MaxReorderSegments"
    "e \<noteq> None \<longrightarrow> e = Some ErrSegmentLimit \<and> length l > MaxReorderSegments \<and>
       unat (next_offset r) < unat off + length p" by auto
  then show ?thesis using None
    by (intro exI [of _ e] exI [of _ "r\<lparr>segments := l, buffered := int (seg_bytes l)\<rparr>"]) auto
qed

text \<open>A reassembler at position 2 that holds the bytes 4 to 6.\<close>

definition sample_reassembler :: reassembler where
  "sample_reassembler = \<lparr>next_offset = 2, buffered = 3, window_bytes = 16, fin_offset = Some 9,
     segments = [\<lparr>seg_offset = 4, seg_data = [40, 50, 60]\<rparr>]\<rparr>"

lemma sample_inv: "reasm_inv sample_reassembler"
  by (simp add: reasm_inv_def sample_reassembler_def in_range_def slo_def shi_def)

lemma push_behaviour_witness:
  "\<exists>e r'. push sample_reassembler 1 [10, 20, 30, 40] = Some (e, r') \<and> reasm_inv r' \<and> next_offset r' = 2"
  using push_behaviour [OF sample_inv, of "[10, 20, 30, 40]" 1]
  by (auto simp: is_slice_def) (auto simp: sample_reassembler_def)

text \<open>
  \<open>SetFIN\<close> accepts an end of the stream exactly when no byte at or beyond it has been
  delivered or is held and no other end was accepted before, and otherwise changes nothing.
\<close>

theorem set_fin_behaviour:
  assumes "reasm_inv r"
  shows "set_fin r off =
      (if unat off < unat (next_offset r) \<or> (\<exists>i b. (i, b) \<in> held (segments r) \<and> unat off \<le> i) \<or>
          (\<exists>f. fin_offset r = Some f \<and> f \<noteq> off)
       then (Some ErrFIN, r) else (None, r\<lparr>fin_offset := Some off\<rparr>)) \<and>
    reasm_inv (snd (set_fin r off))"
  using set_fin_spec [OF assms, of off] set_fin_keeps_inv [OF assms, of off "fst (set_fin r off)" "snd (set_fin r off)"]
  by (simp only: prod.collapse simp_thms)

lemma set_fin_behaviour_witness:
  "reasm_inv (snd (set_fin sample_reassembler 9)) \<and> set_fin sample_reassembler 5 = (Some ErrFIN, sample_reassembler)"
proof
  show "reasm_inv (snd (set_fin sample_reassembler 9))"
    using set_fin_behaviour [OF sample_inv, of 9] by (rule conjunct2)
  have "(5, 50) \<in> held (segments sample_reassembler)"
    by (simp add: sample_reassembler_def in_seg_cells slo_def shi_def)
  then show "set_fin sample_reassembler 5 = (Some ErrFIN, sample_reassembler)"
    using set_fin_spec [OF sample_inv, of 5] by auto
qed

text \<open>
  \<open>DrainTo\<close> on a connection that may write short or fail: what reaches the connection are held
  bytes, in order, starting at the position; the position advances by exactly their number, also
  on an error, and exactly the bytes behind it are dropped. Without an error the next byte is not
  held, the invariant holds again, and \<^verbatim>\<open>true\<close> is returned exactly at the end of the stream.
\<close>

theorem drain_behaviour:
  assumes "drain_to deadline_write r w = (res, r', w')" and "reasm_inv r"
  shows "\<exists>d. dw_out w' = dw_out w @ d \<and> unat (next_offset r') = unat (next_offset r) + length d \<and>
     cells (unat (next_offset r)) d \<subseteq> held (segments r) \<and>
     held (segments r') = {(i, b) \<in> held (segments r). unat (next_offset r') \<le> i} \<and>
     (\<forall>fin. res = Inr fin \<longrightarrow> reasm_inv r' \<and> (fin \<longleftrightarrow> fin_offset r = Some (next_offset r')) \<and>
        (\<forall>b. (unat (next_offset r'), b) \<notin> held (segments r')))"
  using endpoint.drain_to_spec [OF assms] by blast

definition sample_writer :: deadline_writer where
  "sample_writer = \<lparr>dw_conn = \<lparr>c_writes = [(1, None), (1, Some (IOErr 7))], c_deadlines = [], c_out = []\<rparr>,
     dw_timeout = 5, dw_deadline_set = False\<rparr>"

lemma drain_behaviour_witness:
  "\<exists>d. dw_out (snd (snd (drain_to deadline_write (sample_reassembler\<lparr>next_offset := 4\<rparr>) sample_writer))) =
      dw_out sample_writer @ d"
proof -
  have "reasm_inv (sample_reassembler\<lparr>next_offset := 4\<rparr>)"
    by (simp add: reasm_inv_def sample_reassembler_def in_range_def slo_def shi_def)
  moreover obtain res r' w' where d: "drain_to deadline_write (sample_reassembler\<lparr>next_offset := 4\<rparr>) sample_writer =
      (res, r', w')" by (rule prod_cases3)
  ultimately show ?thesis using drain_behaviour [OF d] by auto
qed

text \<open>
  In every reachable state the buffered bytes are counted exactly and fit the configured
  window, whatever the peer sent: a flow's memory for out-of-order data is bounded.
\<close>

theorem reassembler_memory_bound:
  assumes "reasm_reachable window r" and "0 \<le> window" and "window < 2 ^ 63"
  shows "buffered r = int (seg_bytes (segments r)) \<and> 0 \<le> buffered r \<and> buffered r \<le> window"
proof -
  have "unat (word_of_int window :: u64) = nat window"
    using assms(2,3) by (simp add: unat_of_int_u64)
  with reachable_inv [OF assms(1)] buffered_bound [of r] assms(2) show ?thesis by (simp add: le_nat_iff)
qed

lemma reassembler_memory_bound_witness: "buffered (new_reassembler 65536) \<le> 65536"
  using reassembler_memory_bound [OF reach_new, of 65536] by simp

end
