(* ===== verification/Delivery.thy ===== *)
theory Delivery
  imports Reassembler
begin

text \<open>
  What \<^verbatim>\<open>deliverInbound\<close> (\<^verbatim>\<open>stream.go\<close>) relies on in the reassembler, stated as the locale
  \<open>ordered_delivery\<close>, and what follows from it for every history of arrivals: however the pieces
  of a stream are cut, repeated, reordered or overlapped, the endpoint gets a beginning of the
  stream, and all of it once every byte and the FIN have arrived. The reassembler with the endpoint
  writer is the interpretation.
\<close>

section \<open>Arrivals\<close>

datatype arrival = ArriveData u64 "byte list" | ArriveFIN u64

fun arrival_cells :: "arrival \<Rightarrow> (nat \<times> byte) set" where
  "arrival_cells (ArriveData off p) = cells (unat off) p"
| "arrival_cells (ArriveFIN off) = {}"

text \<open>An arrival that tells the truth about the stream \<open>S\<close>.\<close>

fun truthful :: "byte list \<Rightarrow> arrival \<Rightarrow> bool" where
  "truthful S (ArriveData off p) \<longleftrightarrow> p \<noteq> [] \<and> is_slice p \<and> cells (unat off) p \<subseteq> cells 0 S"
| "truthful S (ArriveFIN off) \<longleftrightarrow> unat off = length S"

section \<open>The contract of the reassembler\<close>

locale ordered_delivery =
  fixes inv :: "'r \<Rightarrow> bool" and pos :: "'r \<Rightarrow> nat" and store :: "'r \<Rightarrow> (nat \<times> byte) set"
    and fin :: "'r \<Rightarrow> nat option"
    and accept :: "'r \<Rightarrow> u64 \<Rightarrow> byte list \<Rightarrow> (go_error option \<times> 'r) option"
    and finish :: "'r \<Rightarrow> u64 \<Rightarrow> go_error option \<times> 'r"
    and emit :: "'r \<Rightarrow> 'w \<Rightarrow> (go_error + bool) \<times> 'r \<times> 'w"
    and out :: "'w \<Rightarrow> byte list"
  assumes accept_total: "inv r \<Longrightarrow> is_slice p \<Longrightarrow> accept r off p \<noteq> None"
    and accept_frame:
      "inv r \<Longrightarrow> is_slice p \<Longrightarrow> accept r off p = Some (eo, r') \<Longrightarrow>
         inv r' \<and> pos r' = pos r \<and> fin r' = fin r \<and> store r \<subseteq> store r' \<and>
         store r' \<subseteq> store r \<union> cells (unat off) p"
    and accept_stores:
      "inv r \<Longrightarrow> is_slice p \<Longrightarrow> accept r off p = Some (None, r') \<Longrightarrow>
         (i, b) \<in> cells (unat off) p \<Longrightarrow> pos r \<le> i \<Longrightarrow> (i, b) \<in> store r'"
    and accept_honest:
      "length S < 2 ^ 64 \<Longrightarrow> inv r \<Longrightarrow> p \<noteq> [] \<Longrightarrow> is_slice p \<Longrightarrow> store r \<union> cells (unat off) p \<subseteq> cells 0 S \<Longrightarrow>
         fin r = None \<or> fin r = Some (length S) \<Longrightarrow> accept r off p = Some (Some e, r') \<Longrightarrow>
         e = ErrReorderWindow \<or> e = ErrSegmentLimit"
    and finish_frame:
      "inv r \<Longrightarrow> finish r off = (eo, r') \<Longrightarrow>
         inv r' \<and> pos r' = pos r \<and> store r' = store r \<and>
         fin r' = (if eo = None then Some (unat off) else fin r)"
    and finish_honest:
      "inv r \<Longrightarrow> store r \<subseteq> cells 0 S \<Longrightarrow> pos r \<le> length S \<Longrightarrow>
         fin r = None \<or> fin r = Some (length S) \<Longrightarrow> unat off = length S \<Longrightarrow> fst (finish r off) = None"
    and emit_frame:
      "inv r \<Longrightarrow> emit r w = (res, r', w') \<Longrightarrow>
         \<exists>d. out w' = out w @ d \<and> pos r' = pos r + length d \<and> cells (pos r) d \<subseteq> store r \<and>
             store r' = {(i, b) \<in> store r. pos r' \<le> i} \<and> fin r' = fin r"
    and emit_complete:
      "inv r \<Longrightarrow> emit r w = (Inr f, r', w') \<Longrightarrow>
         inv r' \<and> (f \<longleftrightarrow> fin r = Some (pos r')) \<and> (pos r', b) \<notin> store r'"
begin

fun deliver :: "'r \<Rightarrow> 'w \<Rightarrow> arrival \<Rightarrow> ((go_error + bool) \<times> 'r \<times> 'w) option" where
  "deliver r w (ArriveData off p) =
     (case accept r off p of None \<Rightarrow> None
      | Some (Some e, r') \<Rightarrow> Some (Inl e, r', w)
      | Some (None, r') \<Rightarrow> Some (emit r' w))"
| "deliver r w (ArriveFIN off) =
     (case finish r off of
        (Some e, r') \<Rightarrow> Some (Inl e, r', w)
      | (None, r') \<Rightarrow> Some (emit r' w))"

fun deliver_all :: "'r \<Rightarrow> 'w \<Rightarrow> arrival list \<Rightarrow> (go_error option \<times> 'r \<times> 'w) option" where
  "deliver_all r w [] = Some (None, r, w)"
| "deliver_all r w (a # as) =
     (case deliver r w a of None \<Rightarrow> None
      | Some (Inl e, r', w') \<Rightarrow> Some (Some e, r', w')
      | Some (Inr f, r', w') \<Rightarrow> deliver_all r' w' as)"

text \<open>What holds between two deliveries: \<open>base\<close> was written before, \<open>seen\<close> has arrived.\<close>

definition delivering :: "byte list \<Rightarrow> byte list \<Rightarrow> (nat \<times> byte) set \<Rightarrow> 'r \<Rightarrow> 'w \<Rightarrow> bool" where
  "delivering S base seen r w \<longleftrightarrow>
     length S < 2 ^ 64 \<and> inv r \<and> pos r \<le> length S \<and> out w = base @ take (pos r) S \<and> store r \<subseteq> cells 0 S \<and>
     (fin r = None \<or> fin r = Some (length S)) \<and> (\<forall>b. (pos r, b) \<notin> store r) \<and>
     (\<forall>(i, b) \<in> seen. pos r \<le> i \<longrightarrow> (i, b) \<in> store r)"

lemma emit_prefix:
  assumes "inv r" and "store r \<subseteq> cells 0 S" and "pos r \<le> length S" and "out w = base @ take (pos r) S"
    and "emit r w = (res, r', w')"
  shows "pos r \<le> pos r' \<and> pos r' \<le> length S \<and> out w' = base @ take (pos r') S"
proof -
  from emit_frame [OF assms(1,5)] obtain d where
    d: "out w' = out w @ d" "pos r' = pos r + length d" "cells (pos r) d \<subseteq> store r" by blast
  with assms(2) have sub: "cells (pos r) d \<subseteq> cells 0 S" by blast
  show ?thesis
  proof (cases "d = []")
    case True
    with d assms(3,4) show ?thesis by simp
  next
    case False
    from cells_subset_stream [OF sub False] d assms(4) show ?thesis
      by (simp add: take_add)
  qed
qed

lemma emit_delivering:
  assumes "length S < 2 ^ 64"
    and "inv r" and "store r \<subseteq> cells 0 S" and "pos r \<le> length S" and "out w = base @ take (pos r) S"
    and "fin r = None \<or> fin r = Some (length S)"
    and "\<forall>(i, b) \<in> seen. pos r \<le> i \<longrightarrow> (i, b) \<in> store r"
    and "emit r w = (Inr f, r', w')"
  shows "delivering S base seen r' w' \<and> (f \<longleftrightarrow> fin r' = Some (pos r')) \<and> fin r' = fin r"
proof -
  from emit_frame [OF assms(2,8)] have
    st: "store r' = {(i, b) \<in> store r. pos r' \<le> i}" "fin r' = fin r" by blast+
  have "inv r'" "f \<longleftrightarrow> fin r = Some (pos r')" "\<forall>b. (pos r', b) \<notin> store r'"
    using emit_complete [OF assms(2,8)] by blast+
  moreover have "pos r \<le> pos r' \<and> pos r' \<le> length S \<and> out w' = base @ take (pos r') S"
    using emit_prefix [OF assms(2-5,8)] .
  ultimately show ?thesis
    using assms(1,3,6,7) st unfolding delivering_def by auto
qed

lemma deliver_delivering:
  assumes "truthful S a" and "delivering S base seen r w"
  obtains res r' w' where "deliver r w a = Some (res, r', w')"
    and "pos r \<le> pos r'" "pos r' \<le> length S" "out w' = base @ take (pos r') S"
    and "\<And>f. res = Inr f \<Longrightarrow> delivering S base (seen \<union> arrival_cells a) r' w' \<and> (f \<longleftrightarrow> fin r' = Some (pos r')) \<and>
            fin r' = (case a of ArriveData _ _ \<Rightarrow> fin r | ArriveFIN _ \<Rightarrow> Some (length S))"
proof -
  note g = assms(2) [unfolded delivering_def]
  have S: "length S < 2 ^ 64" and inv: "inv r" and le: "pos r \<le> length S" and w: "out w = base @ take (pos r) S"
    and st: "store r \<subseteq> cells 0 S" and fin: "fin r = None \<or> fin r = Some (length S)" using g by blast+
  show thesis
  proof (cases a)
    case (ArriveData off p)
    with assms(1) have p: "is_slice p" "cells (unat off) p \<subseteq> cells 0 S" by simp_all
    obtain e r1 where acc: "accept r off p = Some (e, r1)"
      using accept_total [OF inv p(1), of off] by auto
    note fr = accept_frame [OF inv p(1) acc]
    show thesis
    proof (cases e)
      case (Some x)
      with ArriveData acc fr le w show thesis by (intro that [of "Inl x" r1 w]) auto
    next
      case None
      obtain res r' w' where em: "emit r1 w = (res, r', w')" by (cases "emit r1 w") auto
      have st1: "store r1 \<subseteq> cells 0 S" using fr st p(2) by blast
      have seen1: "\<forall>(i, b) \<in> seen \<union> arrival_cells a. pos r1 \<le> i \<longrightarrow> (i, b) \<in> store r1"
        using g fr accept_stores [OF inv p(1) acc [unfolded None]] ArriveData by fastforce
      show thesis
      proof (rule that [of res r' w'])
        show "deliver r w a = Some (res, r', w')" using ArriveData acc None em by simp
        show "pos r \<le> pos r'" "pos r' \<le> length S" "out w' = base @ take (pos r') S"
          using emit_prefix [of r1 S w base res r' w'] fr st1 le w em by simp_all
        fix f assume "res = Inr f"
        with emit_delivering [of S r1 w base "seen \<union> arrival_cells a" f r' w'] S fr st1 le w fin seen1 em ArriveData
        show "delivering S base (seen \<union> arrival_cells a) r' w' \<and> (f \<longleftrightarrow> fin r' = Some (pos r')) \<and>
            fin r' = (case a of ArriveData _ _ \<Rightarrow> fin r | ArriveFIN _ \<Rightarrow> Some (length S))" by simp
      qed
    qed
  next
    case (ArriveFIN off)
    with assms(1) have off: "unat off = length S" by simp
    have "fst (finish r off) = None" using finish_honest [OF inv st le fin off] .
    then obtain r1 where fi: "finish r off = (None, r1)" by (cases "finish r off") auto
    note fr = finish_frame [OF inv fi]
    obtain res r' w' where em: "emit r1 w = (res, r', w')" by (cases "emit r1 w") auto
    show thesis
    proof (rule that [of res r' w'])
      show "deliver r w a = Some (res, r', w')" using ArriveFIN fi em by simp
      show "pos r \<le> pos r'" "pos r' \<le> length S" "out w' = base @ take (pos r') S"
        using emit_prefix [of r1 S w base res r' w'] fr st le w em by simp_all
      fix f assume "res = Inr f"
      with emit_delivering [of S r1 w base "seen \<union> arrival_cells a" f r' w'] S fr st le w g em ArriveFIN off
      show "delivering S base (seen \<union> arrival_cells a) r' w' \<and> (f \<longleftrightarrow> fin r' = Some (pos r')) \<and>
          fin r' = (case a of ArriveData _ _ \<Rightarrow> fin r | ArriveFIN _ \<Rightarrow> Some (length S))" by simp
    qed
  qed
qed

lemma deliver_step:
  assumes "truthful S a" and "delivering S base seen r w"
  shows "\<exists>res r' w'. deliver r w a = Some (res, r', w') \<and>
    (pos r \<le> pos r' \<and> pos r' \<le> length S \<and> out w' = base @ take (pos r') S) \<and>
    (\<forall>f. res = Inr f \<longrightarrow> delivering S base (seen \<union> arrival_cells a) r' w' \<and>
       (f \<longleftrightarrow> fin r' = Some (pos r')) \<and>
       fin r' = (case a of ArriveData _ _ \<Rightarrow> fin r | ArriveFIN _ \<Rightarrow> Some (length S)))"
  using assms by (rule deliver_delivering) (intro exI conjI allI impI; assumption | blast)

text \<open>Any list of truthful arrivals: the output is a beginning of the stream, also on an error.\<close>

lemma deliver_all_prefix:
  assumes "list_all (truthful S) as" and "delivering S base seen r w"
  shows "\<exists>e r' w'. deliver_all r w as = Some (e, r', w') \<and> pos r \<le> pos r' \<and> pos r' \<le> length S \<and>
    out w' = base @ take (pos r') S"
  using assms
proof (induction as arbitrary: r w seen)
  case Nil
  then show ?case by (auto simp: delivering_def)
next
  case (Cons a as)
  then have a: "truthful S a" and rest: "list_all (truthful S) as" by simp_all
  from deliver_step [OF a Cons.prems(2)] obtain res r1 w1 where
    d: "deliver r w a = Some (res, r1, w1)" "pos r \<le> pos r1" "pos r1 \<le> length S"
      "out w1 = base @ take (pos r1) S"
    and ok: "res = Inr f \<Longrightarrow> delivering S base (seen \<union> arrival_cells a) r1 w1" for f by blast
  show ?case
  proof (cases res)
    case (Inl e)
    with d show ?thesis by auto
  next
    case (Inr f)
    from Cons.IH [OF rest ok [OF Inr]] obtain e r' w' where
      "deliver_all r1 w1 as = Some (e, r', w')" "pos r1 \<le> pos r'" "pos r' \<le> length S"
      "out w' = base @ take (pos r') S" by blast
    with d(1,2) Inr show ?thesis by (intro exI [of _ e] exI [of _ r'] exI [of _ w']) simp
  qed
qed

lemma deliver_all_delivering:
  assumes "list_all (truthful S) as" and "delivering S base seen r w"
    and "deliver_all r w as = Some (None, r', w')"
  shows "delivering S base (seen \<union> (\<Union>a \<in> set as. arrival_cells a)) r' w' \<and>
    (fin r = Some (length S) \<or> (\<exists>off. ArriveFIN off \<in> set as) \<longrightarrow> fin r' = Some (length S))"
  using assms
proof (induction as arbitrary: r w seen)
  case Nil
  then show ?case by auto
next
  case (Cons a as)
  then have a: "truthful S a" and rest: "list_all (truthful S) as" by simp_all
  from deliver_step [OF a Cons.prems(2)] obtain res r1 w1 where
    d: "deliver r w a = Some (res, r1, w1)"
    and ok: "res = Inr f \<Longrightarrow> delivering S base (seen \<union> arrival_cells a) r1 w1 \<and>
      fin r1 = (case a of ArriveData _ _ \<Rightarrow> fin r | ArriveFIN _ \<Rightarrow> Some (length S))" for f by blast
  obtain f where f: "res = Inr f" using Cons.prems(3) d by (cases res) auto
  have "deliver_all r1 w1 as = Some (None, r', w')" using Cons.prems(3) d f by simp
  from Cons.IH [OF rest ok [OF f, THEN conjunct1] this] ok [OF f]
  show ?case by (auto simp: Un_assoc split: arrival.splits)
qed

text \<open>Once every byte and the FIN have arrived without an error, everything has been written.\<close>

lemma deliver_all_complete:
  assumes "list_all (truthful S) as" and "delivering S base seen r w"
    and run: "deliver_all r w as = Some (None, r', w')"
    and all: "cells 0 S \<subseteq> seen \<union> (\<Union>a \<in> set as. arrival_cells a)"
  shows "pos r' = length S \<and> out w' = base @ S \<and>
    ((\<exists>off. ArriveFIN off \<in> set as) \<longrightarrow> fin r' = Some (pos r'))"
proof -
  from deliver_all_delivering [OF assms(1,2) run]
  have g: "delivering S base (seen \<union> (\<Union>a \<in> set as. arrival_cells a)) r' w'"
    and f: "(\<exists>off. ArriveFIN off \<in> set as) \<longrightarrow> fin r' = Some (length S)" by blast+
  have "\<not> pos r' < length S"
  proof
    assume "pos r' < length S"
    then have "(pos r', S ! pos r') \<in> cells 0 S" by (simp add: in_cells)
    with all have "(pos r', S ! pos r') \<in> seen \<union> (\<Union>a \<in> set as. arrival_cells a)" by blast
    moreover from g have "\<forall>(i, b) \<in> seen \<union> (\<Union>a \<in> set as. arrival_cells a). pos r' \<le> i \<longrightarrow> (i, b) \<in> store r'"
      unfolding delivering_def by blast
    ultimately have "(pos r', S ! pos r') \<in> store r'" by blast
    with g show False by (simp add: delivering_def)
  qed
  with g f show ?thesis by (simp add: delivering_def)
qed

text \<open>The error of a delivery of a truthful piece never blames the peer's bytes or its FIN.\<close>

lemma deliver_honest:
  assumes "truthful S a" and "delivering S base seen r w" and "deliver r w a = Some (Inl e, r', w')"
  shows "e = ErrReorderWindow \<or> e = ErrSegmentLimit \<or> (\<exists>r1. emit r1 w = (Inl e, r', w'))"
proof (cases a)
  case (ArriveData off p)
  from assms ArriveData have "length S < 2 ^ 64" "inv r" "p \<noteq> []" "is_slice p" "store r \<union> cells (unat off) p \<subseteq> cells 0 S"
    "fin r = None \<or> fin r = Some (length S)" by (auto simp: delivering_def)
  from accept_honest [OF this] assms(3) ArriveData show ?thesis
    by (auto split: option.splits prod.splits)
next
  case (ArriveFIN off)
  from assms(1,2) ArriveFIN have "fst (finish r off) = None"
    by (intro finish_honest [of _ S]) (auto simp: delivering_def)
  with assms(3) ArriveFIN show ?thesis by (auto split: option.splits prod.splits)
qed

end

section \<open>The reassembler keeps the contract\<close>

definition reasm_pos :: "reassembler \<Rightarrow> nat" where
  "reasm_pos r = unat (next_offset r)"

definition reasm_store :: "reassembler \<Rightarrow> (nat \<times> byte) set" where
  "reasm_store r = held (segments r)"

definition reasm_fin :: "reassembler \<Rightarrow> nat option" where
  "reasm_fin r = map_option unat (fin_offset r)"

lemma push_outcome:
  assumes "reasm_inv r" and "is_slice p"
  obtains (refused) e where "push_verdict r off p = Some e" "push r off p = Some (Some e, r)"
    | (stored) e l where "push_verdict r off p = None"
      "push r off p = Some (e, r\<lparr>segments := l, buffered := int (seg_bytes l)\<rparr>)"
      "reasm_inv (r\<lparr>segments := l, buffered := int (seg_bytes l)\<rparr>)"
      "held l = held (segments r) \<union> ahead r off p" "e = None \<or> e = Some ErrSegmentLimit"
proof (cases "push_verdict r off p")
  case None
  from push_accepted [OF assms None] obtain e l where
    "push r off p = Some (e, r\<lparr>segments := l, buffered := int (seg_bytes l)\<rparr>)"
    "reasm_inv (r\<lparr>segments := l, buffered := int (seg_bytes l)\<rparr>)"
    "held l = held (segments r) \<union> ahead r off p" "e = None \<or> e = Some ErrSegmentLimit" by auto
  with None show thesis by (rule stored)
next
  case (Some e)
  from Some push_refused [OF assms Some] show thesis by (rule refused)
qed

lemma verdict_honest:
  assumes "push_verdict r off p = Some e" and "p \<noteq> []" and "unat off + length p \<le> length S"
    and "held (segments r) \<union> cells (unat off) p \<subseteq> cells 0 S" and "unat off + length p < 2 ^ 64"
    and "reasm_fin r = None \<or> reasm_fin r = Some (length S)"
  shows "e = ErrReorderWindow"
proof -
  have "agree (ahead r off p) (held (segments r))"
    unfolding agree_def ahead_def using assms(4) cells_unique [of _ _ 0 S] by blast
  then show ?thesis using assms
    by (auto simp: push_verdict_def Let_def reasm_fin_def split: if_splits option.splits)
qed


lemma reasm_accept_frame:
  assumes "reasm_inv r" and "is_slice p" and "push r off p = Some (e, r')"
  shows "reasm_inv r' \<and> reasm_pos r' = reasm_pos r \<and> reasm_fin r' = reasm_fin r \<and>
    reasm_store r \<subseteq> reasm_store r' \<and> reasm_store r' \<subseteq> reasm_store r \<union> cells (unat off) p"
proof (cases rule: push_outcome [OF assms(1,2), of off, case_names refused stored])
  case (refused x)
  with assms show ?thesis by simp
next
  case (stored x l)
  then have r': "r' = r\<lparr>segments := l, buffered := int (seg_bytes l)\<rparr>" using assms(3) by simp
  then have "reasm_store r' = reasm_store r \<union> ahead r off p" by (simp add: reasm_store_def stored(4))
  moreover have "ahead r off p \<subseteq> cells (unat off) p" by (auto simp: ahead_def)
  moreover have "reasm_inv r'" using stored(3) r' by simp
  ultimately show ?thesis using r' by (auto simp: reasm_pos_def reasm_fin_def)
qed

lemma reasm_accept_stores:
  assumes "reasm_inv r" and "is_slice p" and "push r off p = Some (None, r')"
    and "(i, b) \<in> cells (unat off) p" and "reasm_pos r \<le> i"
  shows "(i, b) \<in> reasm_store r'"
proof (cases rule: push_outcome [OF assms(1,2), of off, case_names refused stored])
  case (refused x)
  with assms(3) show ?thesis by simp
next
  case (stored x l)
  then have "reasm_store r' = reasm_store r \<union> ahead r off p"
    using assms(3) by (simp add: reasm_store_def)
  with assms(4,5) show ?thesis by (auto simp: reasm_pos_def ahead_def)
qed

lemma reasm_accept_honest:
  assumes "length S < 2 ^ 64" and "reasm_inv r" and "p \<noteq> []" and "is_slice p"
    and "reasm_store r \<union> cells (unat off) p \<subseteq> cells 0 S"
    and "reasm_fin r = None \<or> reasm_fin r = Some (length S)"
    and "push r off p = Some (Some e, r')"
  shows "e = ErrReorderWindow \<or> e = ErrSegmentLimit"
proof (cases rule: push_outcome [OF assms(2,4), of off, case_names refused stored])
  case (refused x)
  from assms(5) have "cells (unat off) p \<subseteq> cells 0 S" by simp
  from cells_subset_stream(1) [OF this assms(3)] have "unat off + length p \<le> length S" .
  with refused assms verdict_honest [of r off p x S] show ?thesis by (auto simp: reasm_store_def)
next
  case (stored x l)
  with assms(7) show ?thesis by auto
qed

lemma reasm_finish_frame:
  assumes "reasm_inv r" and "set_fin r off = (e, r')"
  shows "reasm_inv r' \<and> reasm_pos r' = reasm_pos r \<and> reasm_store r' = reasm_store r \<and>
    reasm_fin r' = (if e = None then Some (unat off) else reasm_fin r)"
proof (cases e)
  case None
  with assms set_fin_inv [OF assms(1), of off r'] show ?thesis
    by (auto simp: set_fin_def reasm_pos_def reasm_store_def reasm_fin_def split: if_splits)
next
  case (Some x)
  with assms show ?thesis by (auto simp: set_fin_def split: if_splits)
qed

lemma reasm_finish_honest:
  assumes "reasm_inv r" and "reasm_store r \<subseteq> cells 0 S" and "reasm_pos r \<le> length S"
    and "reasm_fin r = None \<or> reasm_fin r = Some (length S)" and "unat off = length S"
  shows "fst (set_fin r off) = None"
proof -
  have "\<not> (\<exists>i b. (i, b) \<in> held (segments r) \<and> unat off \<le> i)"
    using assms(2,5) by (auto simp: reasm_store_def in_cells)
  with assms set_fin_spec [OF assms(1), of off] show ?thesis
    by (auto simp: reasm_pos_def reasm_fin_def word_unat_eq_iff)
qed

context io_writer
begin

lemma reasm_emit_frame:
  assumes "reasm_inv r" and "drain_to wr r w = (res, r', w')"
  shows "\<exists>d. out w' = out w @ d \<and> reasm_pos r' = reasm_pos r + length d \<and>
    cells (reasm_pos r) d \<subseteq> reasm_store r \<and>
    reasm_store r' = {(i, b) \<in> reasm_store r. reasm_pos r' \<le> i} \<and> reasm_fin r' = reasm_fin r"
  using drain_to_spec [OF assms(2,1)] unfolding reasm_pos_def reasm_store_def reasm_fin_def by auto

lemma reasm_emit_complete:
  assumes "reasm_inv r" and "drain_to wr r w = (Inr f, r', w')"
  shows "reasm_inv r' \<and> (f \<longleftrightarrow> reasm_fin r = Some (reasm_pos r')) \<and> (reasm_pos r', b) \<notin> reasm_store r'"
proof -
  have "unat z = unat (next_offset r') \<longleftrightarrow> z = next_offset r'" for z
    by (simp add: word_unat_eq_iff)
  with drain_to_spec [OF assms(2,1)] show ?thesis
    by (auto simp: reasm_pos_def reasm_store_def reasm_fin_def)
qed

end

interpretation rx: ordered_delivery reasm_inv reasm_pos reasm_store reasm_fin push set_fin
  "drain_to deadline_write" dw_out
proof unfold_locales
  show "push r off p \<noteq> None" if "reasm_inv r" "is_slice p" for r off p
    using push_outcome [OF that, of off "push r off p \<noteq> None"] by simp
qed (fact reasm_accept_frame reasm_accept_stores reasm_accept_honest reasm_finish_frame
  reasm_finish_honest endpoint.reasm_emit_frame endpoint.reasm_emit_complete)+

section \<open>A fresh reassembler\<close>

lemma delivering_new:
  "length S < 2 ^ 64 \<Longrightarrow> rx.delivering S (dw_out w) {} (new_reassembler window) w"
  by (simp add: rx.delivering_def reasm_inv_new reasm_pos_def reasm_store_def reasm_fin_def)
    (simp add: new_reassembler_def)

end
