(* ===== verification/Netip.thy ===== *)
theory Netip
  imports Prelude
begin

text \<open>
  The part of Go's package \<^verbatim>\<open>net/netip\<close> the program uses: textual IPv4 and IPv6 addresses
  (\<^verbatim>\<open>ParseAddr\<close>, \<^verbatim>\<open>String\<close>, \<^verbatim>\<open>AddrFromSlice\<close>, \<^verbatim>\<open>Unmap\<close>, \<^verbatim>\<open>Is4In6\<close>), written after its
  documented behaviour, with the theorem the destination codec needs: parsing the text of an
  address gives the address back. A Go string is a list of characters, one per byte.
\<close>

section \<open>Strings and bytes\<close>

definition byte_of_char :: "char \<Rightarrow> byte" where
  "byte_of_char c = word_of_nat (of_char c)"

definition char_of_byte :: "byte \<Rightarrow> char" where
  "char_of_byte b = char_of (unat b)"

definition bytes_of_string :: "string \<Rightarrow> byte list" where
  "bytes_of_string s = map byte_of_char s"

definition string_of_bytes :: "byte list \<Rightarrow> string" where
  "string_of_bytes bs = map char_of_byte bs"

lemma char_of_byte_of_char [simp]: "char_of_byte (byte_of_char c) = c"
  by (simp add: char_of_byte_def byte_of_char_def unat_word_of_nat)

lemma byte_of_char_of_byte [simp]: "byte_of_char (char_of_byte b) = b"
  by (simp add: char_of_byte_def byte_of_char_def)

lemma string_of_bytes_of_string [simp]: "string_of_bytes (bytes_of_string s) = s"
  by (simp add: string_of_bytes_def bytes_of_string_def comp_def)

lemma bytes_of_string_of_bytes [simp]: "bytes_of_string (string_of_bytes bs) = bs"
  by (simp add: string_of_bytes_def bytes_of_string_def comp_def)

lemma length_bytes_of_string [simp]: "length (bytes_of_string s) = length s"
  by (simp add: bytes_of_string_def)

lemma length_string_of_bytes [simp]: "length (string_of_bytes bs) = length bs"
  by (simp add: string_of_bytes_def)

definition code :: "char \<Rightarrow> nat" where
  "code c = of_char c"

definition digit :: "nat \<Rightarrow> char" where
  "digit n = (if n < 10 then char_of (48 + n) else char_of (87 + n))"

definition is_dec :: "char \<Rightarrow> bool" where
  "is_dec c \<longleftrightarrow> 48 \<le> code c \<and> code c \<le> 57"

text \<open>The value of a hexadecimal digit of either case.\<close>

definition hex_val :: "char \<Rightarrow> nat option" where
  "hex_val c =
     (if 48 \<le> code c \<and> code c \<le> 57 then Some (code c - 48)
      else if 97 \<le> code c \<and> code c \<le> 102 then Some (code c - 87)
      else if 65 \<le> code c \<and> code c \<le> 70 then Some (code c - 55)
      else None)"

lemma code_digit: "n < 16 \<Longrightarrow> code (digit n) = (if n < 10 then 48 + n else 87 + n)"
  by (simp add: code_def digit_def)

lemma hex_val_digit [simp]: "n < 16 \<Longrightarrow> hex_val (digit n) = Some n"
  by (auto simp: hex_val_def code_digit)

lemma is_dec_digit [simp]: "n < 10 \<Longrightarrow> is_dec (digit n)"
  by (simp add: is_dec_def code_digit)

lemma code_simps [simp]: "code CHR ''.'' = 46" "code CHR '':'' = 58" "code CHR ''%'' = 37"
  by (simp_all add: code_def)

lemma digit_neq [simp]:
  "n < 16 \<Longrightarrow> digit n \<noteq> CHR ''.''" "n < 16 \<Longrightarrow> digit n \<noteq> CHR '':''" "n < 16 \<Longrightarrow> digit n \<noteq> CHR ''%''"
  using code_digit [of n] by (auto split: if_splits)

section \<open>Addresses\<close>

text \<open>An IPv6 address has a zone; the empty one is \<^verbatim>\<open>z6noz\<close>.\<close>

datatype addr = Addr4 "byte list" | Addr6 "byte list" string

definition addr_ok :: "addr \<Rightarrow> bool" where
  "addr_ok a = (case a of Addr4 bs \<Rightarrow> length bs = 4 | Addr6 bs z \<Rightarrow> length bs = 16)"

definition addr_from_slice :: "byte list \<Rightarrow> addr option" where
  "addr_from_slice bs =
     (if length bs = 4 then Some (Addr4 bs)
      else if length bs = 16 then Some (Addr6 bs '''')
      else None)"

definition mapped_prefix :: "byte list" where
  "mapped_prefix = replicate 10 0 @ [255, 255]"

fun is_4in6 :: "addr \<Rightarrow> bool" where
  "is_4in6 (Addr4 bs) = False"
| "is_4in6 (Addr6 bs z) = (take 12 bs = mapped_prefix)"

fun unmap :: "addr \<Rightarrow> addr" where
  "unmap (Addr4 bs) = Addr4 bs"
| "unmap (Addr6 bs z) = (if is_4in6 (Addr6 bs z) then Addr4 (drop 12 bs) else Addr6 bs z)"

section \<open>Text of an address\<close>

definition dec_byte :: "nat \<Rightarrow> string" where
  "dec_byte n =
     (if n \<ge> 100 then [digit (n div 100)] else []) @
     (if n \<ge> 10 then [digit (n div 10 mod 10)] else []) @ [digit (n mod 10)]"

fun join :: "char \<Rightarrow> string list \<Rightarrow> string" where
  "join sep [] = ''''"
| "join sep [s] = s"
| "join sep (s # t # ss) = s @ sep # join sep (t # ss)"

definition string4 :: "byte list \<Rightarrow> string" where
  "string4 bs = join CHR ''.'' (map (\<lambda>b. dec_byte (unat b)) bs)"

fun hex_digits :: "nat \<Rightarrow> string" where
  "hex_digits n = (if n < 16 then [digit n] else hex_digits (n div 16) @ [digit (n mod 16)])"

declare hex_digits.simps [simp del]

text \<open>The eight 16-bit groups of an address.\<close>

fun groups :: "byte list \<Rightarrow> nat list" where
  "groups (a # b # bs) = (unat a * 256 + unat b) # groups bs"
| "groups _ = []"

text \<open>The first of the longest runs of at least two zero groups, as a half-open interval.\<close>

definition zero_run :: "nat list \<Rightarrow> nat \<times> nat" where
  "zero_run gs = foldl (\<lambda>(zs, ze) i.
       let l = length (takeWhile (\<lambda>g. g = 0) (drop i gs))
       in if l \<ge> 2 \<and> l > ze - zs then (i, i + l) else (zs, ze)) (255, 255) [0..<length gs]"

definition string6 :: "byte list \<Rightarrow> string" where
  "string6 bs =
     (let gs = groups bs; (zs, ze) = zero_run gs
      in if zs \<ge> 8 then join CHR '':'' (map hex_digits gs)
         else join CHR '':'' (map hex_digits (take zs gs)) @ ''::'' @
              join CHR '':'' (map hex_digits (drop ze gs)))"

fun addr_string :: "addr \<Rightarrow> string" where
  "addr_string (Addr4 bs) = string4 bs"
| "addr_string (Addr6 bs z) =
     (if is_4in6 (Addr6 bs z) then ''::ffff:'' @ string4 (drop 12 bs) else string6 bs) @
     (if z = '''' then '''' else CHR ''%'' # z)"

section \<open>Parsing\<close>

fun ipv4_loop :: "char option \<Rightarrow> nat \<Rightarrow> nat \<Rightarrow> byte list \<Rightarrow> string \<Rightarrow> byte list option" where
  "ipv4_loop prev v digs fs [] = (if length fs < 3 then None else Some (fs @ [word_of_nat v]))"
| "ipv4_loop prev v digs fs (c # cs) =
     (if is_dec c then
        if digs = 1 \<and> v = 0 then None
        else let v' = v * 10 + (code c - 48)
             in if v' > 255 then None else ipv4_loop (Some c) v' (digs + 1) fs cs
      else if c = CHR ''.'' then
        if prev = None \<or> cs = [] \<or> prev = Some CHR ''.'' then None
        else if length fs = 3 then None
        else ipv4_loop (Some c) 0 0 (fs @ [word_of_nat v]) cs
      else None)"

definition parse_ipv4_fields :: "string \<Rightarrow> byte list option" where
  "parse_ipv4_fields s = ipv4_loop None 0 0 [] s"

fun hex_run :: "string \<Rightarrow> nat \<Rightarrow> nat \<Rightarrow> (nat \<times> nat \<times> string) option" where
  "hex_run [] acc off = Some (acc, off, [])"
| "hex_run (c # cs) acc off =
     (case hex_val c of None \<Rightarrow> Some (acc, off, c # cs)
      | Some d \<Rightarrow>
          let acc' = acc * 16 + d
          in if off > 3 then None else if acc' > 65535 then None else hex_run cs acc' (off + 1))"

function v6_loop :: "byte list \<Rightarrow> nat option \<Rightarrow> string \<Rightarrow> (byte list \<times> nat option \<times> string) option" where
  "v6_loop ip ell s =
     (if length ip \<ge> 16 then Some (ip, ell, s)
      else case hex_run s 0 0 of
        None \<Rightarrow> None
      | Some (acc, off, rest) \<Rightarrow>
          if off = 0 then None
          else if rest \<noteq> [] \<and> hd rest = CHR ''.'' then
            (if ell = None \<and> length ip \<noteq> 12 then None
             else if length ip + 4 > 16 then None
             else map_option (\<lambda>fs. (ip @ fs, ell, [])) (parse_ipv4_fields s))
          else let ip' = ip @ be_bytes 2 acc
          in case rest of
               [] \<Rightarrow> Some (ip', ell, [])
             | c # cs \<Rightarrow>
                 if c \<noteq> CHR '':'' then None
                 else if cs = [] then None
                 else if hd cs = CHR '':'' then
                   (if ell \<noteq> None then None
                    else if tl cs = [] then Some (ip', Some (length ip'), [])
                    else v6_loop ip' (Some (length ip')) (tl cs))
                 else v6_loop ip' ell cs)"
  by pat_completeness auto
termination
  by (relation "measure (\<lambda>(ip, ell, s). 16 - length ip)") auto

declare v6_loop.simps [simp del]

definition v6_finish :: "byte list \<times> nat option \<times> string \<Rightarrow> byte list option" where
  "v6_finish = (\<lambda>(ip, ell, s).
     if s \<noteq> [] then None
     else if length ip < 16 then
       (case ell of None \<Rightarrow> None
        | Some e \<Rightarrow> Some (take e ip @ replicate (16 - length ip) 0 @ drop e ip))
     else if ell \<noteq> None then None
     else Some ip)"

definition parse_ipv6_body :: "string \<Rightarrow> byte list option" where
  "parse_ipv6_body s =
     (if take 2 s = ''::'' then
        (if drop 2 s = [] then Some (replicate 16 0)
         else Option.bind (v6_loop [] (Some 0) (drop 2 s)) v6_finish)
      else Option.bind (v6_loop [] None s) v6_finish)"

definition parse_ipv6 :: "string \<Rightarrow> addr option" where
  "parse_ipv6 s =
     (if CHR ''%'' \<in> set s then
        let body = takeWhile (\<lambda>c. c \<noteq> CHR ''%'') s; zone = tl (dropWhile (\<lambda>c. c \<noteq> CHR ''%'') s)
        in if zone = '''' then None else map_option (\<lambda>bs. Addr6 bs zone) (parse_ipv6_body body)
      else map_option (\<lambda>bs. Addr6 bs '''') (parse_ipv6_body s))"

definition parse_addr :: "string \<Rightarrow> addr option" where
  "parse_addr s =
     (case dropWhile (\<lambda>c. c \<notin> {CHR ''.'', CHR '':'', CHR ''%''}) s of
        [] \<Rightarrow> None
      | c # _ \<Rightarrow>
          if c = CHR ''.'' then map_option Addr4 (parse_ipv4_fields s)
          else if c = CHR '':'' then parse_ipv6 s
          else None)"

section \<open>Parsing the text of an IPv4 address\<close>

lemma ipv4_loop_dec:
  assumes "n < 256"
  shows "\<exists>d \<noteq> CHR ''.''. \<exists>k. ipv4_loop prev 0 0 fs (dec_byte n @ rest) =
           ipv4_loop (Some d) n k fs rest \<and> (rest = [] \<or> hd rest = CHR ''.'' \<longrightarrow> 0 < k)"
proof -
  consider "n < 10" | "10 \<le> n" "n < 100" | "100 \<le> n" by linarith
  then have "\<exists>k > 0. ipv4_loop prev 0 0 fs (dec_byte n @ rest) =
      ipv4_loop (Some (digit (n mod 10))) n k fs rest"
  proof cases
    case 1
    then show ?thesis by (intro exI [of _ "1::nat"]) (simp add: dec_byte_def code_digit)
  next
    case 2
    define t u where "t = n div 10" and "u = n mod 10"
    have t: "t < 10" "t \<noteq> 0" and u: "u < 10" and n: "t * 10 + u = n"
      using 2 by (auto simp: t_def u_def)
    have "dec_byte n = [digit t, digit u]"
      using 2 t(1) by (simp add: dec_byte_def flip: t_def u_def)
    with t u n assms show ?thesis
      by (intro exI [of _ "2::nat"]) (simp add: code_digit numeral_2_eq_2 flip: u_def)
  next
    case 3
    define s t u where "s = n div 100" and "t = n div 10 mod 10" and "u = n mod 10"
    have s: "s < 10" "s \<noteq> 0" and t: "t < 10" and u: "u < 10"
      using 3 assms by (auto simp: s_def t_def u_def)
    have n: "(s * 10 + t) * 10 + u = n" 
      using div_mult2_eq [of n 10 10] div_mult_mod_eq [of "n div 10" 10] div_mult_mod_eq [of n 10]
      by (simp add: s_def t_def u_def)
    have "dec_byte n = [digit s, digit t, digit u]"
      using 3 by (simp add: dec_byte_def flip: s_def t_def u_def)
    with s t u n assms show ?thesis
      by (intro exI [of _ "3::nat"]) (simp add: code_digit numeral_3_eq_3 flip: u_def)
  qed
  moreover have "digit (n mod 10) \<noteq> CHR ''.''" by simp
  ultimately show ?thesis by blast
qed

lemma parse_string4:
  assumes "length bs = 4"
  shows "parse_ipv4_fields (string4 bs) = Some bs"
proof -
  obtain a b c d where bs: "bs = [a, b, c, d]"
    using assms by (auto simp: length_Suc_conv numeral_eq_Suc)
  have lt: "unat x < 256" for x :: byte by simp
  have step: "ipv4_loop prev 0 0 fs (dec_byte (unat x) @ CHR ''.'' # rest) =
      ipv4_loop (Some CHR ''.'') 0 0 (fs @ [x]) rest"
    if "length fs < 3" "rest \<noteq> []" for prev fs x rest
    using ipv4_loop_dec [OF lt, of prev fs x "CHR ''.'' # rest"] that
    by (auto simp: is_dec_def)
  have ne: "dec_byte n \<noteq> []" for n by (simp add: dec_byte_def)
  have final: "ipv4_loop prev 0 0 fs (dec_byte (unat x)) = Some (fs @ [x])"
    if "length fs = 3" for prev fs x
    using ipv4_loop_dec [OF lt, of prev fs x "[]"] that by auto
  show ?thesis
    by (simp add: parse_ipv4_fields_def string4_def bs step final ne)
qed

section \<open>Parsing the text of an IPv6 address\<close>

lemma hex_run_digits:
  assumes "\<forall>c \<in> set ds. hex_val c \<noteq> None" and "off + length ds \<le> 4" and "acc < 16 ^ off"
  shows "hex_run (ds @ rest) acc off =
           hex_run rest (foldl (\<lambda>a c. a * 16 + the (hex_val c)) acc ds) (off + length ds)"
  using assms
proof (induction ds arbitrary: acc off)
  case Nil
  then show ?case by simp
next
  case (Cons c cs)
  then obtain d where d: "hex_val c = Some d" by auto
  have "d < 16" using d by (auto simp: hex_val_def split: if_splits)
  then have lt: "acc * 16 + d < 16 ^ Suc off" using Cons.prems(3) by simp
  have "(16 :: nat) ^ Suc off \<le> 16 ^ 4" using Cons.prems(2) by (intro power_increasing) simp_all
  with lt have "acc * 16 + d \<le> 65535" by simp
  with Cons.IH [of "Suc off" "acc * 16 + d"] Cons.prems d lt show ?case by simp
qed

lemma hex_digits_props:
  "(\<forall>c \<in> set (hex_digits n). hex_val c \<noteq> None \<and> c \<noteq> CHR ''.'' \<and> c \<noteq> CHR '':'' \<and> c \<noteq> CHR ''%'') \<and>
   hex_digits n \<noteq> [] \<and>
   foldl (\<lambda>a c. a * 16 + the (hex_val c)) 0 (hex_digits n) = n"
proof (induction n rule: hex_digits.induct)
  case (1 n)
  show ?case
  proof (cases "n < 16")
    case True
    then show ?thesis by (simp add: hex_digits.simps [of n])
  next
    case False
    have "n mod 16 < 16" by simp
    with False 1 show ?thesis by (auto simp: hex_digits.simps [of n])
  qed
qed

lemma length_hex_digits: "n < 16 ^ Suc k \<Longrightarrow> length (hex_digits n) \<le> Suc k"
proof (induction k arbitrary: n)
  case 0
  then show ?case by (simp add: hex_digits.simps [of n])
next
  case (Suc k)
  then have "n div 16 < 16 ^ Suc k" by (simp add: less_mult_imp_div_less)
  with Suc.IH [of "n div 16"] show ?case by (simp add: hex_digits.simps [of n])
qed

lemma hex_run_group:
  assumes "g < 65536" and "rest = [] \<or> hex_val (hd rest) = None"
  shows "\<exists>k > 0. hex_run (hex_digits g @ rest) 0 0 = Some (g, k, rest)"
proof -
  have "length (hex_digits g) \<le> 4" using length_hex_digits [of g 3] assms(1) by simp
  moreover have "hex_run rest a k = Some (a, k, rest)" for a k
    using assms(2) by (cases rest) auto
  ultimately show ?thesis
    using hex_run_digits [of "hex_digits g" 0 0 rest] hex_digits_props [of g]
    by (intro exI [of _ "length (hex_digits g)"]) auto
qed

lemma hex_val_sep [simp]: "hex_val CHR '':'' = None" "hex_val CHR ''.'' = None"
  by (simp_all add: hex_val_def)

definition bytes_of_groups :: "nat list \<Rightarrow> byte list" where
  "bytes_of_groups gs = concat (map (be_bytes 2) gs)"

lemma length_bytes_of_groups [simp]: "length (bytes_of_groups gs) = 2 * length gs"
  by (induction gs) (simp_all add: bytes_of_groups_def)

lemma bytes_of_groups_simps [simp]:
  "bytes_of_groups [] = []" "bytes_of_groups (g # gs) = be_bytes 2 g @ bytes_of_groups gs"
  "bytes_of_groups (gs @ hs) = bytes_of_groups gs @ bytes_of_groups hs"
  by (simp_all add: bytes_of_groups_def)

lemma bytes_of_groups_zeros: "\<forall>g \<in> set gs. g = 0 \<Longrightarrow> bytes_of_groups gs = replicate (2 * length gs) 0"
proof (induction gs)
  case Nil
  then show ?case by simp
next
  case (Cons g gs)
  have "replicate (2 * length (g # gs)) (0 :: byte) = 0 # 0 # replicate (2 * length gs) 0"
    by (simp add: numeral_2_eq_2)
  with Cons show ?case by (simp add: numeral_2_eq_2)
qed

lemma groups_props:
  "even (length bs) \<Longrightarrow> bytes_of_groups (groups bs) = bs \<and> 2 * length (groups bs) = length bs \<and>
     (\<forall>g \<in> set (groups bs). g < 65536)"
proof (induction bs rule: groups.induct)
  case (1 a b bs)
  have "be_bytes 2 (unat a * 256 + unat b) = [a, b]"
    using be_bytes_be_val [of "[a, b]" 2] by (simp add: be_val_def)
  moreover have "unat a * 256 + unat b < 65536"
    using unat_byte_lt [of a] unat_byte_lt [of b] by linarith
  ultimately show ?case using 1 by simp
qed auto

lemma join_Cons: "join sep (s # ss) = s @ (if ss = [] then '''' else sep # join sep ss)"
  by (cases ss) simp_all

text \<open>One group of the loop: at the end, before a colon and a further group, before \<^verbatim>\<open>::\<close>.\<close>

lemma v6_loop_group:
  assumes "g < 65536" and "length ip < 16"
  shows "v6_loop ip ell (hex_digits g) = Some (ip @ be_bytes 2 g, ell, [])"
    and "rest \<noteq> [] \<Longrightarrow> hd rest \<noteq> CHR '':'' \<Longrightarrow>
      v6_loop ip ell (hex_digits g @ CHR '':'' # rest) = v6_loop (ip @ be_bytes 2 g) ell rest"
  using hex_run_group [OF assms(1), of "[]"] hex_run_group [OF assms(1), of "CHR '':'' # rest"] assms(2)
  by (auto simp: v6_loop.simps [of ip])

lemma v6_loop_ellipsis:
  assumes "g < 65536" and "length ip < 16"
  shows "v6_loop ip None (hex_digits g @ CHR '':'' # CHR '':'' # rest) =
     (if rest = [] then Some (ip @ be_bytes 2 g, Some (length ip + 2), [])
      else v6_loop (ip @ be_bytes 2 g) (Some (length ip + 2)) rest)"
  using hex_run_group [OF assms(1), of "CHR '':'' # CHR '':'' # rest"] assms(2)
  by (auto simp: v6_loop.simps [of ip])

lemma join_hex_props:
  "gs \<noteq> [] \<Longrightarrow> join CHR '':'' (map hex_digits gs) \<noteq> [] \<and>
     hd (join CHR '':'' (map hex_digits gs)) \<noteq> CHR '':''"
  using hex_digits_props [of "hd gs"] hd_in_set [of "hex_digits (hd gs)"]
  by (cases gs) (auto simp: join_Cons hd_append)

lemma v6_loop_groups:
  assumes "gs \<noteq> []" and "length ip + 2 * length gs \<le> 16" and "\<forall>g \<in> set gs. g < 65536"
  shows "v6_loop ip ell (join CHR '':'' (map hex_digits gs)) = Some (ip @ bytes_of_groups gs, ell, [])"
  using assms
proof (induction gs arbitrary: ip)
  case Nil
  then show ?case by simp
next
  case (Cons g gs)
  show ?case
  proof (cases "gs = []")
    case True
    with Cons.prems show ?thesis by (simp add: v6_loop_group)
  next
    case False
    with Cons.IH [of "ip @ be_bytes 2 g"] Cons.prems join_hex_props [OF False] show ?thesis
      by (simp add: join_Cons v6_loop_group)
  qed
qed

lemma v6_loop_groups_ellipsis:
  assumes "gs \<noteq> []" and "length ip + 2 * length gs \<le> 16" and "\<forall>g \<in> set gs. g < 65536"
  shows "v6_loop ip None (join CHR '':'' (map hex_digits gs) @ CHR '':'' # CHR '':'' # rest) =
     (let ip' = ip @ bytes_of_groups gs
      in if rest = [] then Some (ip', Some (length ip'), []) else v6_loop ip' (Some (length ip')) rest)"
  using assms
proof (induction gs arbitrary: ip)
  case Nil
  then show ?case by simp
next
  case (Cons g gs)
  show ?case
  proof (cases "gs = []")
    case True
    with Cons.prems show ?thesis by (simp add: v6_loop_ellipsis)
  next
    case False
    with Cons.IH [of "ip @ be_bytes 2 g"] Cons.prems join_hex_props [OF False] show ?thesis
      by (simp add: join_Cons v6_loop_group hd_append)
  qed
qed

lemma zero_run_props:
  assumes "zero_run gs = (zs, ze)"
  shows "255 \<le> zs \<or> zs + 2 \<le> ze \<and> ze \<le> length gs \<and> (\<forall>k. zs \<le> k \<and> k < ze \<longrightarrow> gs ! k = 0)"
proof -
  define P :: "nat \<times> nat \<Rightarrow> bool" where "P = (\<lambda>(zs, ze). 255 \<le> zs \<or>
      zs + 2 \<le> ze \<and> ze \<le> length gs \<and> (\<forall>k. zs \<le> k \<and> k < ze \<longrightarrow> gs ! k = 0))"
  define f where "f = (\<lambda>(zs, ze) i. let l = length (takeWhile (\<lambda>g. g = 0) (drop i gs))
       in if l \<ge> 2 \<and> l > ze - zs then (i, i + l) else (zs, ze :: nat))"
  have step: "P (f s i)" if "P s" "i \<in> set [0..<length gs]" for s i
  proof -
    let ?t = "takeWhile (\<lambda>g. g = 0) (drop i gs)"
    have len: "i + length ?t \<le> length gs"
      using that(2) length_takeWhile_le [of "\<lambda>g. g = 0" "drop i gs"] by simp
    have "gs ! k = 0" if k: "i \<le> k" "k < i + length ?t" for k
    proof -
      have "?t ! (k - i) = drop i gs ! (k - i)" using k by (intro takeWhile_nth) simp
      moreover have "?t ! (k - i) \<in> set ?t" using k by (intro nth_mem) simp
      ultimately show ?thesis using k len by (auto dest: set_takeWhileD)
    qed
    with that(1) len show ?thesis by (auto simp: P_def f_def Let_def split: prod.splits)
  qed
  have "P (foldl f s is)" if "P s" "set is \<subseteq> set [0..<length gs]" for s "is"
    using that step by (induction "is" arbitrary: s) auto
  moreover have "P (255, 255)" by (simp add: P_def)
  ultimately have "P (zero_run gs)" unfolding zero_run_def f_def by blast
  with assms show ?thesis by (simp add: P_def)
qed

lemma parse_string6:
  assumes "length bs = 16"
  shows "parse_ipv6_body (string6 bs) = Some bs"
proof -
  let ?gs = "groups bs"
  let ?j = "\<lambda>hs. join CHR '':'' (map hex_digits hs)"
  have gs: "bytes_of_groups ?gs = bs" "length ?gs = 8" "\<forall>g \<in> set ?gs. g < 65536"
    using groups_props [of bs] assms by auto
  obtain zs ze where run: "zero_run ?gs = (zs, ze)" by (cases "zero_run ?gs")
  show ?thesis
  proof (cases "zs \<ge> 8")
    case True
    have ne: "?gs \<noteq> []" using gs(2) by auto
    have "take 2 (?j ?gs) \<noteq> ''::''" using join_hex_props [OF ne] by (cases "?j ?gs") auto
    then show ?thesis
      using True run v6_loop_groups [OF ne, of "[]" None] gs assms
      by (simp add: string6_def parse_ipv6_body_def v6_finish_def)
  next
    case False
    with zero_run_props [OF run] gs(2)
    have z: "zs + 2 \<le> ze" "ze \<le> 8" "\<And>k. zs \<le> k \<Longrightarrow> k < ze \<Longrightarrow> ?gs ! k = 0" by auto
    have "take (ze - zs) (drop zs ?gs) = replicate (ze - zs) 0"
      using z gs(2) by (intro nth_equalityI) auto
    then have split: "?gs = take zs ?gs @ replicate (ze - zs) 0 @ drop ze ?gs"
      using z by (metis append_take_drop_id drop_drop le_add_diff_inverse2 add_leD1)
    define hs where "hs = take zs ?gs"
    define ts where "ts = drop ze ?gs"
    have len: "length hs = zs" "length ts = 8 - ze" using gs(2) z by (auto simp: hs_def ts_def)
    have lt: "\<forall>g \<in> set hs. g < 65536" "\<forall>g \<in> set ts. g < 65536"
      using gs(3) by (auto simp: hs_def ts_def dest: in_set_takeD in_set_dropD)
    have bs: "bs = bytes_of_groups hs @ replicate (2 * (ze - zs)) 0 @ bytes_of_groups ts"
      using gs(1) split bytes_of_groups_zeros [of "replicate (ze - zs) 0"]
      by (metis bytes_of_groups_simps(3) hs_def ts_def in_set_replicate length_replicate)
    have str: "string6 bs = ?j hs @ ''::'' @ ?j ts"
      using False run by (simp add: string6_def hs_def ts_def Let_def)
    have ts_loop: "v6_loop ip ell (?j ts) = Some (ip @ bytes_of_groups ts, ell, [])"
      if "ts \<noteq> []" "length ip = 2 * zs" for ip ell
      using that lt len z by (intro v6_loop_groups) auto
    have fin: "v6_finish (bytes_of_groups hs @ bytes_of_groups ts, Some (2 * zs), []) = Some bs"
    proof -
      have "16 - (2 * zs + 2 * (8 - ze)) = 2 * (ze - zs)" "2 * zs + 2 * (8 - ze) < 16"
        using z by auto
      with len show ?thesis by (simp add: v6_finish_def bs)
    qed
    have tse: "?j ts = [] \<longleftrightarrow> ts = []" using join_hex_props [of ts] by auto
    show ?thesis
    proof (cases "hs = []")
      case True
      with len have "zs = 0" by simp
      with True str ts_loop [of "[]" "Some 0"] fin tse bs len z show ?thesis
        by (auto simp: parse_ipv6_body_def)
    next
      case ne: False
      have "take 2 (string6 bs) \<noteq> ''::''"
        using join_hex_props [OF ne] by (cases "?j hs") (auto simp: str)
      moreover have "v6_loop [] None (string6 bs) =
          Some (bytes_of_groups hs @ bytes_of_groups ts, Some (2 * zs), [])"
        using v6_loop_groups_ellipsis [OF ne, of "[]" "?j ts"] lt len z tse
          ts_loop [of "bytes_of_groups hs" "Some (2 * zs)"]
        by (auto simp: str Let_def)
      ultimately show ?thesis using fin by (simp add: parse_ipv6_body_def)
    qed
  qed
qed

text \<open>The IPv4-mapped form, \<^verbatim>\<open>::ffff:a.b.c.d\<close>.\<close>

lemma dec_byte_props:
  "n < 256 \<Longrightarrow> dec_byte n \<noteq> [] \<and> length (dec_byte n) \<le> 3 \<and>
     (\<forall>c \<in> set (dec_byte n). hex_val c \<noteq> None \<and> c \<noteq> CHR ''.'' \<and> c \<noteq> CHR '':'' \<and> c \<noteq> CHR ''%'')"
proof -
  assume "n < 256"
  define s t u where "s = n div 100" and "t = n div 10 mod 10" and "u = n mod 10"
  have "s < 16" "t < 16" "u < 16" using \<open>n < 256\<close> by (auto simp: s_def t_def u_def)
  moreover have "dec_byte n = (if n \<ge> 100 then [digit s] else []) @
      (if n \<ge> 10 then [digit t] else []) @ [digit u]"
    by (simp only: dec_byte_def s_def t_def u_def)
  ultimately show ?thesis by simp
qed

lemma string4_shape:
  assumes "length bs = 4"
  obtains r where "string4 bs = dec_byte (unat (hd bs)) @ CHR ''.'' # r"
    and "CHR ''%'' \<notin> set (string4 bs)" and "CHR '':'' \<notin> set (string4 bs)"
proof -
  obtain a b c d where bs: "bs = [a, b, c, d]"
    using assms by (auto simp: length_Suc_conv numeral_eq_Suc)
  have "CHR ''%'' \<notin> set (dec_byte (unat x))" "CHR '':'' \<notin> set (dec_byte (unat x))" for x :: byte
    using dec_byte_props [OF unat_byte_lt, of x] by blast+
  then show ?thesis by (intro that) (simp_all add: bs string4_def)
qed

lemma parse_mapped:
  assumes "length q = 4"
  shows "parse_ipv6_body (''::ffff:'' @ string4 q) = Some (mapped_prefix @ q)"
proof -
  obtain r where r: "string4 q = dec_byte (unat (hd q)) @ CHR ''.'' # r"
    using string4_shape [OF assms] by blast
  have ne: "string4 q \<noteq> []" "hd (string4 q) \<noteq> CHR '':''"
    using dec_byte_props [of "unat (hd q)"] hd_in_set [of "dec_byte (unat (hd q))"]
    by (auto simp: r hd_append)
  have "hex_digits 65535 = [digit 15, digit 15, digit 15, digit 15]"
    by (simp add: hex_digits.simps)
  moreover have "digit 15 = CHR ''f''" by (simp add: digit_def char_of_def bit_0)
  ultimately have ffff: "hex_digits 65535 = ''ffff''" by simp
  have "v6_loop [] (Some 0) (''ffff:'' @ string4 q) =
      v6_loop (be_bytes 2 65535) (Some 0) (string4 q)"
    using v6_loop_group(2) [of 65535 "[]" "string4 q" "Some 0"] ne by (simp add: ffff)
  also have "\<dots> = Some (be_bytes 2 65535 @ q, Some 0, [])"
  proof -
    have "\<exists>acc k. 0 < k \<and> hex_run (string4 q) 0 0 = Some (acc, k, CHR ''.'' # r)"
      using hex_run_digits [of "dec_byte (unat (hd q))" 0 0 "CHR ''.'' # r"]
        dec_byte_props [of "unat (hd q)"] by (auto simp: r)
    then show ?thesis
      using parse_string4 [OF assms] by (auto simp: v6_loop.simps [of "be_bytes 2 65535"])
  qed
  finally have "v6_loop [] (Some 0) (''ffff:'' @ string4 q) = Some ([255, 255] @ q, Some 0, [])"
    using be_bytes_be_val [of "[255, 255]" 2] by (simp add: be_val_def)
  then show ?thesis
    using assms by (simp add: parse_ipv6_body_def v6_finish_def mapped_prefix_def)
qed

section \<open>Parsing the text of an address\<close>

lemma string6_shape:
  assumes "length bs = 16"
  obtains ds r where "string6 bs = ds @ CHR '':'' # r"
    and "\<forall>c \<in> set ds. c \<notin> {CHR ''.'', CHR '':'', CHR ''%''}" and "CHR ''%'' \<notin> set (string6 bs)"
proof -
  let ?j = "\<lambda>hs. join CHR '':'' (map hex_digits hs)"
  have gs: "length (groups bs) = 8" using groups_props [of bs] assms by auto
  obtain zs ze where run: "zero_run (groups bs) = (zs, ze)" by (cases "zero_run (groups bs)")
  have nopct: "CHR ''%'' \<notin> set (?j hs)" for hs
    using hex_digits_props by (induction hs) (auto simp: join_Cons)
  have head: "\<exists>r. ?j (h # hs) @ t = hex_digits h @ CHR '':'' # r"
    if "hs \<noteq> [] \<or> (\<exists>u. t = CHR '':'' # u)" for h hs t
    using that by (cases "hs = []") (auto simp: join_Cons)
  have hex: "\<forall>c \<in> set (hex_digits h). c \<notin> {CHR ''.'', CHR '':'', CHR ''%''}" for h
    using hex_digits_props [of h] by simp
  show ?thesis
  proof (cases "zs \<ge> 8")
    case True
    then have str: "string6 bs = ?j (groups bs)" using run by (simp add: string6_def Let_def)
    obtain h hs where hs: "groups bs = h # hs" "length hs = 7"
      using gs by (auto simp: length_Suc_conv numeral_eq_Suc)
    then have "hs \<noteq> []" by auto
    with hs(1) head [of hs "[]" h] obtain r where "string6 bs = hex_digits h @ CHR '':'' # r"
      by (auto simp: str)
    moreover have "CHR ''%'' \<notin> set (string6 bs)" using nopct by (simp add: str)
    ultimately show ?thesis using that hex by blast
  next
    case False
    then have str: "string6 bs = ?j (take zs (groups bs)) @ ''::'' @ ?j (drop ze (groups bs))"
      using run by (simp add: string6_def Let_def)
    show ?thesis
    proof (cases "take zs (groups bs)")
      case Nil
      with str nopct show ?thesis by (intro that [of "[]"]) simp_all
    next
      case (Cons h hs)
      with head [of hs "''::'' @ ?j (drop ze (groups bs))" h] str
      obtain r where "string6 bs = hex_digits h @ CHR '':'' # r" by auto
      moreover have "CHR ''%'' \<notin> set (string6 bs)" using nopct by (simp add: str)
      ultimately show ?thesis using that hex by blast
    qed
  qed
qed

lemma dropWhile_to_sep:
  "\<forall>c \<in> set ds. c \<notin> S \<Longrightarrow> x \<in> S \<Longrightarrow> dropWhile (\<lambda>c. c \<notin> S) (ds @ x # r) = x # r"
  by (induction ds) auto

text \<open>Parsing inverts printing for every address without a zone.\<close>

lemma parse_addr_string:
  assumes "addr_ok a" and "\<And>bs z. a = Addr6 bs z \<Longrightarrow> z = ''''"
  shows "parse_addr (addr_string a) = Some a"
proof (cases a)
  case (Addr4 bs)
  then have len: "length bs = 4" using assms(1) by (simp add: addr_ok_def)
  then obtain r where r: "string4 bs = dec_byte (unat (hd bs)) @ CHR ''.'' # r"
    using string4_shape by blast
  have "dropWhile (\<lambda>c. c \<notin> {CHR ''.'', CHR '':'', CHR ''%''}) (string4 bs) = CHR ''.'' # r"
    unfolding r using dec_byte_props [of "unat (hd bs)"] by (intro dropWhile_to_sep) auto
  then show ?thesis using Addr4 parse_string4 [OF len] by (simp add: parse_addr_def)
next
  case (Addr6 bs z)
  then have len: "length bs = 16" and z: "z = ''''" using assms by (auto simp: addr_ok_def)
  define s where "s = addr_string a"
  have "parse_ipv6_body s = Some bs \<and> CHR ''%'' \<notin> set s \<and>
      (\<exists>ds r. s = ds @ CHR '':'' # r \<and> (\<forall>c \<in> set ds. c \<notin> {CHR ''.'', CHR '':'', CHR ''%''}))"
  proof (cases "take 12 bs = mapped_prefix")
    case True
    then have s: "s = ''::ffff:'' @ string4 (drop 12 bs)" using Addr6 z by (simp add: s_def)
    have len4: "length (drop 12 bs) = 4" using len by simp
    have "mapped_prefix @ drop 12 bs = bs" unfolding True [symmetric] by (rule append_take_drop_id)
    with parse_mapped [OF len4] have "parse_ipv6_body s = Some bs" by (simp only: s)
    moreover obtain r where "CHR ''%'' \<notin> set (string4 (drop 12 bs))"
      using string4_shape [OF len4] by blast
    then have "CHR ''%'' \<notin> set s" by (simp add: s)
    ultimately show ?thesis
      by (intro conjI exI [of _ "[]"] exI [of _ "'':ffff:'' @ string4 (drop 12 bs)"]) (simp_all add: s)
  next
    case False
    then have s: "s = string6 bs" using Addr6 z by (simp add: s_def)
    obtain ds r where "string6 bs = ds @ CHR '':'' # r"
      "\<forall>c \<in> set ds. c \<notin> {CHR ''.'', CHR '':'', CHR ''%''}" "CHR ''%'' \<notin> set (string6 bs)"
      using string6_shape [OF len] by blast
    with parse_string6 [OF len] show ?thesis unfolding s by blast
  qed
  then obtain ds r where s: "parse_ipv6_body s = Some bs" "CHR ''%'' \<notin> set s" "s = ds @ CHR '':'' # r"
    "\<forall>c \<in> set ds. c \<notin> {CHR ''.'', CHR '':'', CHR ''%''}" by blast
  have "dropWhile (\<lambda>c. c \<notin> {CHR ''.'', CHR '':'', CHR ''%''}) s = CHR '':'' # r"
    unfolding s(3) using s(4) by (intro dropWhile_to_sep) auto
  with s(1,2) have "parse_addr s = Some (Addr6 bs '''')"
    by (simp add: parse_addr_def parse_ipv6_def)
  then show ?thesis using Addr6 z by (simp add: s_def)
qed

end
