(* ===== verification/Destination.thy ===== *)
theory Destination
  imports Netip
begin

text \<open>
  TCP destinations (\<^verbatim>\<open>internal/tcpstream/destination.go\<close>): the constructor that classifies and
  normalises a host, the wire form carried by an OPEN frame, and its decoder.

  Host names are byte strings. \<^verbatim>\<open>strings.ToLower\<close> works on runes; besides the ASCII letters only
  U+0130 and U+212A have an ASCII lower case (\<^verbatim>\<open>i\<close> and \<^verbatim>\<open>k\<close>), and any other non-ASCII rune is
  still there for \<open>validDomain\<close> to reject, so those two are the only ones that are mapped.
  \<^verbatim>\<open>strings.TrimSpace\<close> removes the white space of Unicode, whose UTF-8 encodings are listed.
\<close>

section \<open>Strings\<close>

fun split_on :: "char \<Rightarrow> string \<Rightarrow> string list" where
  "split_on c [] = ['''']"
| "split_on c (x # xs) =
     (if x = c then '''' # split_on c xs
      else case split_on c xs of [] \<Rightarrow> [[x]] | l # ls \<Rightarrow> (x # l) # ls)"

definition white_space :: "nat list list" where
  "white_space = [[9], [10], [11], [12], [13], [32], [0xC2, 0x85], [0xC2, 0xA0], [0xE1, 0x9A, 0x80],
     [0xE2, 0x80, 0x80], [0xE2, 0x80, 0x81], [0xE2, 0x80, 0x82], [0xE2, 0x80, 0x83], [0xE2, 0x80, 0x84], [0xE2, 0x80, 0x85],
     [0xE2, 0x80, 0x86], [0xE2, 0x80, 0x87], [0xE2, 0x80, 0x88], [0xE2, 0x80, 0x89], [0xE2, 0x80, 0x8A], [0xE2, 0x80, 0xA8],
     [0xE2, 0x80, 0xA9], [0xE2, 0x80, 0xAF], [0xE2, 0x81, 0x9F], [0xE3, 0x80, 0x80]]"

definition rune_width :: "nat list list \<Rightarrow> string \<Rightarrow> nat" where
  "rune_width runes s = (case find (\<lambda>r. map code (take (length r) s) = r) runes of None \<Rightarrow> 0 | Some r \<Rightarrow> length r)"

function trim_runes :: "nat list list \<Rightarrow> string \<Rightarrow> string" where
  "trim_runes runes s = (if s = [] \<or> rune_width runes s = 0 then s else trim_runes runes (drop (rune_width runes s) s))"
  by pat_completeness auto

termination
  by (relation "measure (\<lambda>(runes, s). length s)") auto

definition trim_space :: "string \<Rightarrow> string" where
  "trim_space s = rev (trim_runes (map rev white_space) (rev (trim_runes white_space s)))"

definition trim_suffix :: "string \<Rightarrow> string \<Rightarrow> string" where
  "trim_suffix suffix s =
     (if length suffix \<le> length s \<and> drop (length s - length suffix) s = suffix
      then take (length s - length suffix) s else s)"

definition lower_char :: "char \<Rightarrow> char" where
  "lower_char c = (if 65 \<le> code c \<and> code c \<le> 90 then char_of (code c + 32) else c)"

fun to_lower :: "string \<Rightarrow> string" where
  "to_lower [] = []"
| "to_lower (c # cs) =
     (if code c = 196 \<and> map code (take 1 cs) = [176] then CHR ''i'' # to_lower (drop 1 cs)
      else if code c = 226 \<and> map code (take 2 cs) = [132, 170] then CHR ''k'' # to_lower (drop 2 cs)
      else lower_char c # to_lower cs)"

section \<open>Destinations\<close>

definition DestinationIPv4 :: byte where "DestinationIPv4 = 0x01"
definition DestinationDomain :: byte where "DestinationDomain = 0x03"
definition DestinationIPv6 :: byte where "DestinationIPv6 = 0x04"

record destination =
  type_code :: byte
  d_host :: string
  d_port :: u16

definition domain_char :: "char \<Rightarrow> bool" where
  "domain_char c \<longleftrightarrow> \<not> ((code c < 97 \<or> code c > 122) \<and> (code c < 48 \<or> code c > 57) \<and> c \<noteq> CHR ''-'')"

definition valid_label :: "string \<Rightarrow> bool" where
  "valid_label label \<longleftrightarrow>
     \<not> (length label = 0 \<or> length label > 63 \<or> hd label = CHR ''-'' \<or> last label = CHR ''-'') \<and>
     list_all domain_char label"

definition valid_domain :: "string \<Rightarrow> bool" where
  "valid_domain host \<longleftrightarrow>
     \<not> (host = '''' \<or> length host > 253) \<and> list_all valid_label (split_on CHR ''.'' host)"

definition new_destination :: "string \<Rightarrow> u16 \<Rightarrow> go_error + destination" where
  "new_destination host port =
     (if host = '''' \<or> host \<noteq> trim_space host \<or> port = 0 \<or> CHR ''%'' \<in> set host
      then Inl ErrInvalidDestination
      else case parse_addr host of
        Some address \<Rightarrow>
          (case unmap address of
             Addr4 bs \<Rightarrow>
               Inr \<lparr>type_code = DestinationIPv4, d_host = addr_string (Addr4 bs), d_port = port\<rparr>
           | Addr6 bs z \<Rightarrow>
               Inr \<lparr>type_code = DestinationIPv6, d_host = addr_string (Addr6 bs z), d_port = port\<rparr>)
      | None \<Rightarrow>
          let host' = to_lower (trim_suffix ''.'' host)
          in if \<not> valid_domain host' then Inl ErrInvalidDestination
             else Inr \<lparr>type_code = DestinationDomain, d_host = host', d_port = port\<rparr>)"

definition is_zero :: "destination \<Rightarrow> bool" where
  "is_zero d \<longleftrightarrow> type_code d = 0 \<or> d_host d = '''' \<or> d_port d = 0"

definition decode_destination :: "byte list \<Rightarrow> go_error + destination" where
  "decode_destination payload =
     (if length payload < 1 + 2 then Inl ErrInvalidDestination
      else if payload ! 0 = DestinationIPv4 then
        (if length payload \<noteq> 1 + 4 + 2 then Inl ErrInvalidDestination
         else case addr_from_slice (take 4 (drop 1 payload)) of
           None \<Rightarrow> Inl ErrInvalidDestination
         | Some address \<Rightarrow> new_destination (addr_string address) (get_u16 (drop 5 payload)))
      else if payload ! 0 = DestinationIPv6 then
        (if length payload \<noteq> 1 + 16 + 2 then Inl ErrInvalidDestination
         else case addr_from_slice (take 16 (drop 1 payload)) of
           None \<Rightarrow> Inl ErrInvalidDestination
         | Some address \<Rightarrow> new_destination (addr_string address) (get_u16 (drop 17 payload)))
      else if payload ! 0 = DestinationDomain then
        (if length payload < 1 + 1 + 1 + 2 then Inl ErrInvalidDestination
         else let len = unat (payload ! 1)
         in if len = 0 \<or> length payload \<noteq> 1 + 1 + len + 2 then Inl ErrInvalidDestination
            else new_destination (string_of_bytes (take len (drop 2 payload)))
                   (get_u16 (drop (2 + len) payload)))
      else Inl ErrInvalidDestination)"

definition encode_destination :: "destination \<Rightarrow> go_error + byte list" where
  "encode_destination d =
     (if is_zero d then Inl ErrInvalidDestination
      else if type_code d = DestinationIPv4 then
        (case parse_addr (d_host d) of
           Some (Addr4 value) \<Rightarrow> Inr ([DestinationIPv4] @ value @ put_u16 (d_port d))
         | _ \<Rightarrow> Inl ErrInvalidDestination)
      else if type_code d = DestinationIPv6 then
        (case parse_addr (d_host d) of
           Some (Addr6 value z) \<Rightarrow>
             if is_4in6 (Addr6 value z) then Inl ErrInvalidDestination
             else Inr ([DestinationIPv6] @ value @ put_u16 (d_port d))
         | _ \<Rightarrow> Inl ErrInvalidDestination)
      else if type_code d = DestinationDomain then
        (if \<not> valid_domain (d_host d) \<or> length (d_host d) > 255 then Inl ErrInvalidDestination
         else Inr ([DestinationDomain, word_of_nat (length (d_host d))] @
                   bytes_of_string (d_host d) @ put_u16 (d_port d)))
      else Inl ErrInvalidDestination)"

section \<open>Well-formed destinations\<close>

definition dest_ok :: "destination \<Rightarrow> bool" where
  "dest_ok d \<longleftrightarrow> d_port d \<noteq> 0 \<and>
     ((type_code d = DestinationIPv4 \<and> (\<exists>bs. length bs = 4 \<and> d_host d = addr_string (Addr4 bs))) \<or>
      (type_code d = DestinationIPv6 \<and>
         (\<exists>bs. length bs = 16 \<and> \<not> is_4in6 (Addr6 bs '''') \<and> d_host d = addr_string (Addr6 bs ''''))) \<or>
      (type_code d = DestinationDomain \<and> valid_domain (d_host d)))"

lemma type_codes [simp]:
  "DestinationIPv4 \<noteq> 0" "DestinationIPv6 \<noteq> 0" "DestinationDomain \<noteq> 0"
  "DestinationIPv4 \<noteq> DestinationIPv6" "DestinationIPv4 \<noteq> DestinationDomain"
  "DestinationIPv6 \<noteq> DestinationDomain" "DestinationIPv6 \<noteq> DestinationIPv4"
  "DestinationDomain \<noteq> DestinationIPv4" "DestinationDomain \<noteq> DestinationIPv6"
  by (simp_all add: DestinationIPv4_def DestinationIPv6_def DestinationDomain_def)

section \<open>Hosts are neither padded nor zoned\<close>

definition may_trim :: "char \<Rightarrow> bool" where
  "may_trim c \<longleftrightarrow> code c \<in> {9, 10, 11, 12, 13, 32} \<or> 128 \<le> code c"

lemma trim_runes_id:
  assumes "\<forall>r \<in> set runes. \<exists>b rest. r = b # rest \<and> (b \<in> {9, 10, 11, 12, 13, 32} \<or> 128 \<le> b)"
    and "\<forall>c \<in> set s. \<not> may_trim c"
  shows "trim_runes runes s = s"
proof (cases s)
  case (Cons c t)
  have "map code (take (length r) s) \<noteq> r" if "r \<in> set runes" for r
    using assms that by (auto simp: Cons may_trim_def)
  then have "rune_width runes s = 0"
    by (auto simp: rune_width_def find_Some_iff split: option.split)
  then show ?thesis by simp
qed simp

lemma trim_space_id:
  assumes "\<forall>c \<in> set s. \<not> may_trim c"
  shows "trim_space s = s"
proof -
  have "trim_runes white_space s = s" by (rule trim_runes_id [OF _ assms]) (simp add: white_space_def)
  moreover have "trim_runes (map rev white_space) (rev s) = rev s"
    by (rule trim_runes_id) (use assms in \<open>simp_all add: white_space_def\<close>)
  ultimately show ?thesis by (simp add: trim_space_def)
qed

definition host_char :: "char \<Rightarrow> bool" where
  "host_char c \<longleftrightarrow> hex_val c \<noteq> None \<or> c = CHR ''.'' \<or> c = CHR '':''"

lemma host_char_plain: "host_char c \<Longrightarrow> \<not> may_trim c \<and> c \<noteq> CHR ''%''"
  by (auto simp: host_char_def hex_val_def may_trim_def split: if_splits)

lemma set_join: "set (join sep ss) \<subseteq> insert sep (\<Union> (set ` set ss))"
  by (induction sep ss rule: join.induct) auto

lemma string4_chars: "\<forall>c \<in> set (string4 bs). host_char c"
proof
  fix c assume "c \<in> set (string4 bs)"
  then have "c = CHR ''.'' \<or> (\<exists>b. c \<in> set (dec_byte (unat (b :: byte))))"
    using set_join [of "CHR ''.''" "map (\<lambda>b. dec_byte (unat b)) bs"] by (auto simp: string4_def)
  then show "host_char c" using dec_byte_props [OF unat_byte_lt] by (auto simp: host_char_def)
qed

lemma string6_chars: "\<forall>c \<in> set (string6 bs). host_char c"
proof -
  have "host_char c" if "c \<in> set (join CHR '':'' (map hex_digits gs))" for c gs
  proof -
    have "c = CHR '':'' \<or> (\<exists>g. c \<in> set (hex_digits g))"
      using that set_join [of "CHR '':''" "map hex_digits gs"] by auto
    then show ?thesis using hex_digits_props by (auto simp: host_char_def)
  qed
  moreover have "host_char CHR '':''" by (simp add: host_char_def)
  ultimately show ?thesis by (auto simp: string6_def Let_def split: prod.splits)
qed

lemma addr_string_chars: "\<forall>c \<in> set (addr_string (Addr4 bs)). host_char c"
  "\<forall>c \<in> set (addr_string (Addr6 bs '''')). host_char c"
  using string4_chars string6_chars by (auto simp: host_char_def hex_val_def code_def)

lemma addr_string_trimmed [simp]:
  "trim_space (addr_string (Addr4 bs)) = addr_string (Addr4 bs)"
  "trim_space (addr_string (Addr6 bs '''')) = addr_string (Addr6 bs '''')"
  "CHR ''%'' \<notin> set (addr_string (Addr4 bs))" "CHR ''%'' \<notin> set (addr_string (Addr6 bs ''''))"
  using addr_string_chars [of bs] host_char_plain by (blast intro: trim_space_id)+

lemma parse_string:
  "length bs = 4 \<Longrightarrow> parse_addr (addr_string (Addr4 bs)) = Some (Addr4 bs)"
  "length cs = 16 \<Longrightarrow> parse_addr (addr_string (Addr6 cs '''')) = Some (Addr6 cs '''')"
  by (rule parse_addr_string; simp add: addr_ok_def)+

lemma parse_addr_Nil [simp]: "parse_addr '''' = None"
  by (simp add: parse_addr_def)

lemma addr_string_nonempty:
  "length bs = 4 \<Longrightarrow> addr_string (Addr4 bs) \<noteq> ''''"
  "length cs = 16 \<Longrightarrow> addr_string (Addr6 cs '''') \<noteq> ''''"
  using parse_string [of bs] parse_string(2) [of cs] parse_addr_Nil by (metis option.distinct(1))+

section \<open>Parsed addresses have their length\<close>

lemma ipv4_loop_length:
  "ipv4_loop prev v digs fs s = Some r \<Longrightarrow> length fs \<le> 3 \<Longrightarrow> length r = 4"
  by (induction prev v digs fs s rule: ipv4_loop.induct) (auto simp: Let_def split: if_splits)

lemma v6_loop_length:
  "v6_loop ip ell s = Some (ip', ell', s') \<Longrightarrow> even (length ip) \<Longrightarrow> length ip \<le> 16 \<Longrightarrow> length ip' \<le> 16"
proof (induction "16 - length ip" arbitrary: ip ell s rule: less_induct)
  case less
  show ?case
  proof (cases "length ip \<ge> 16")
    case True
    with less.prems show ?thesis by (simp add: v6_loop.simps [of ip])
  next
    case False
    with less.prems(2) have le: "length ip + 2 \<le> 16" by presburger
    have IH: "length ip' \<le> 16" if "v6_loop (ip @ be_bytes 2 acc) ell2 s2 = Some (ip', ell', s')" for acc ell2 s2
      using less.hyps [OF _ that] le less.prems(2) by simp
    obtain acc off rest where run: "hex_run s 0 0 = Some (acc, off, rest)"
      using False less.prems(1) by (auto simp: v6_loop.simps [of ip] split: option.splits)
    show ?thesis
    proof (cases rest)
      case Nil
      with False le run less.prems(1) show ?thesis
        by (auto simp: v6_loop.simps [of ip] Let_def split: if_splits)
    next
      case (Cons c cs)
      with False le run less.prems(1) IH show ?thesis
        by (auto simp: v6_loop.simps [of ip] parse_ipv4_fields_def Let_def
            dest: ipv4_loop_length split: if_splits)
    qed
  qed
qed

lemma parse_ipv6_body_length:
  assumes "parse_ipv6_body s = Some bs"
  shows "length bs = 16"
proof -
  have "length bs = 16" if "v6_finish (ip, ell, t) = Some bs" "length ip \<le> 16" for ip ell t
    using that by (auto simp: v6_finish_def split: if_splits option.splits)
  then show ?thesis using assms v6_loop_length [of "[]"]
    by (fastforce simp: parse_ipv6_body_def Option.bind_eq_Some_conv split: if_splits)
qed

lemma parse_addr_ok:
  assumes "parse_addr s = Some a"
  shows "addr_ok a" and "CHR ''%'' \<notin> set s \<Longrightarrow> a = Addr6 bs z \<Longrightarrow> z = ''''"
  using assms
  by (auto simp: parse_addr_def addr_ok_def parse_ipv6_def Let_def parse_ipv4_fields_def
      dest!: ipv4_loop_length parse_ipv6_body_length split: list.splits if_splits)

section \<open>Domains\<close>

lemma domain_char_plain:
  "domain_char c \<Longrightarrow> \<not> may_trim c \<and> c \<noteq> CHR ''%'' \<and> c \<noteq> CHR ''.'' \<and> lower_char c = c \<and> code c < 128"
  by (auto simp: domain_char_def may_trim_def lower_char_def code_def)

lemma set_split_on: "set s \<subseteq> insert c (\<Union> (set ` set (split_on c s)))"
proof (induction s)
  case (Cons x s)
  then show ?case by (cases "split_on c s") auto
qed simp

lemma domain_chars: "valid_domain s \<Longrightarrow> x \<in> set s \<Longrightarrow> domain_char x \<or> x = CHR ''.''"
  using set_split_on [of s "CHR ''.''"] by (fastforce simp: valid_domain_def list_all_iff valid_label_def)

lemma split_on_nonempty [simp]: "split_on c s \<noteq> []"
  by (induction s) (auto split: list.splits)

lemma split_on_snoc_sep: "split_on c (s @ [c]) = split_on c s @ ['''']"
proof (induction s)
  case (Cons x s)
  then show ?case by (cases "split_on c s") auto
qed simp

lemma domain_no_final_dot:
  assumes "valid_domain s"
  shows "trim_suffix ''.'' s = s"
proof (cases s rule: rev_cases)
  case (snoc t x)
  have "x \<noteq> CHR ''.''"
    using assms by (auto simp: snoc split_on_snoc_sep valid_domain_def valid_label_def)
  then show ?thesis by (simp add: snoc trim_suffix_def)
qed (simp add: trim_suffix_def)

lemma to_lower_id: "\<forall>c \<in> set s. lower_char c = c \<and> code c < 128 \<Longrightarrow> to_lower s = s"
  by (induction s rule: to_lower.induct) auto

lemma domain_props:
  assumes "valid_domain s"
  shows "trim_space s = s" "CHR ''%'' \<notin> set s" "to_lower s = s" "s \<noteq> ''''" "length s \<le> 253"
proof -
  have ch: "\<not> may_trim c \<and> c \<noteq> CHR ''%'' \<and> lower_char c = c \<and> code c < 128" if "c \<in> set s" for c
    using domain_chars [OF assms that] domain_char_plain [of c]
    by (auto simp: may_trim_def lower_char_def)
  show "trim_space s = s" "CHR ''%'' \<notin> set s" "to_lower s = s"
    using ch by (auto intro: trim_space_id to_lower_id)
  show "s \<noteq> ''''" "length s \<le> 253" using assms by (auto simp: valid_domain_def)
qed

section \<open>Constructor, encoder and decoder\<close>

lemma new_destination_addr4:
  "length bs = 4 \<Longrightarrow> p \<noteq> 0 \<Longrightarrow> new_destination (addr_string (Addr4 bs)) p =
     Inr \<lparr>type_code = DestinationIPv4, d_host = addr_string (Addr4 bs), d_port = p\<rparr>"
  using addr_string_nonempty(1) [of bs] parse_string(1) [of bs] addr_string_trimmed [of bs]
  by (simp add: new_destination_def del: addr_string.simps)

lemma new_destination_addr6:
  "length bs = 16 \<Longrightarrow> p \<noteq> 0 \<Longrightarrow> new_destination (addr_string (Addr6 bs '''')) p =
     (if is_4in6 (Addr6 bs '''')
      then Inr \<lparr>type_code = DestinationIPv4, d_host = addr_string (Addr4 (drop 12 bs)), d_port = p\<rparr>
      else Inr \<lparr>type_code = DestinationIPv6, d_host = addr_string (Addr6 bs ''''), d_port = p\<rparr>)"
  using addr_string_nonempty(2) [of bs] parse_string(2) [of bs] addr_string_trimmed [of bs]
  by (simp add: new_destination_def del: addr_string.simps is_4in6.simps)

lemma new_destination_domain:
  "valid_domain s \<Longrightarrow> p \<noteq> 0 \<Longrightarrow> parse_addr s = None \<Longrightarrow>
     new_destination s p = Inr \<lparr>type_code = DestinationDomain, d_host = s, d_port = p\<rparr>"
  using domain_props [of s] domain_no_final_dot [of s] by (simp add: new_destination_def Let_def)

lemma new_destination_err: "new_destination h p = Inl e \<Longrightarrow> e = ErrInvalidDestination"
  by (auto simp: new_destination_def Let_def split: if_splits option.splits addr.splits)

lemma decode_destination_err: "decode_destination bs = Inl e \<Longrightarrow> e = ErrInvalidDestination"
  by (auto simp: decode_destination_def Let_def split: if_splits option.splits dest: new_destination_err)

lemma dest_ok_intros [intro]:
  "length bs = 4 \<Longrightarrow> p \<noteq> 0 \<Longrightarrow>
     dest_ok \<lparr>type_code = DestinationIPv4, d_host = addr_string (Addr4 bs), d_port = p\<rparr>"
  "length cs = 16 \<Longrightarrow> p \<noteq> 0 \<Longrightarrow> \<not> is_4in6 (Addr6 cs '''') \<Longrightarrow>
     dest_ok \<lparr>type_code = DestinationIPv6, d_host = addr_string (Addr6 cs ''''), d_port = p\<rparr>"
  "valid_domain s \<Longrightarrow> p \<noteq> 0 \<Longrightarrow>
     dest_ok \<lparr>type_code = DestinationDomain, d_host = s, d_port = p\<rparr>"
  unfolding dest_ok_def by (simp_all del: addr_string.simps is_4in6.simps) blast+

lemma new_destination_dest_ok:
  assumes "new_destination h p = Inr d"
  shows "dest_ok d \<and> d_port d = p"
proof -
  have h: "p \<noteq> 0" "CHR ''%'' \<notin> set h" using assms by (auto simp: new_destination_def split: if_splits)
  consider (none) "parse_addr h = None" | (v4) bs where "parse_addr h = Some (Addr4 bs)" "length bs = 4"
    | (v6) bs where "parse_addr h = Some (Addr6 bs '''')" "length bs = 16"
    using parse_addr_ok [of h] h(2) by (cases "parse_addr h"; cases "the (parse_addr h)")
      (auto simp: addr_ok_def)
  then show ?thesis
  proof cases
    case none
    with assms h show ?thesis by (auto simp: new_destination_def Let_def split: if_splits)
  next
    case v4
    with assms h show ?thesis
      by (auto simp: new_destination_def simp del: addr_string.simps split: if_splits)
  next
    case v6
    with assms h show ?thesis
      by (auto simp: new_destination_def simp del: addr_string.simps is_4in6.simps split: if_splits)
  qed
qed

text \<open>A host that a literal address would claim: only a domain such as \<^verbatim>\<open>1.2.3.4\<close> is one.\<close>

definition claimed :: "destination \<Rightarrow> bool" where
  "claimed d \<longleftrightarrow> type_code d = DestinationDomain \<and> parse_addr (d_host d) \<noteq> None"

lemma dest_ok_reconstruct:
  assumes "dest_ok d" and "\<not> claimed d"
  shows "new_destination (d_host d) (d_port d) = Inr d"
  using assms unfolding dest_ok_def claimed_def
  by (auto simp: new_destination_addr4 new_destination_addr6 new_destination_domain
      simp del: addr_string.simps is_4in6.simps)

lemma dest_ok_nonzero: "dest_ok d \<Longrightarrow> \<not> is_zero d"
  using addr_string_nonempty [THEN not_sym] domain_props(4)
  by (auto simp: dest_ok_def is_zero_def simp del: addr_string.simps)

lemma encode_forms:
  assumes "dest_ok d"
  shows "(\<exists>bs. length bs = 4 \<and> d_host d = addr_string (Addr4 bs) \<and> type_code d = DestinationIPv4 \<and>
            encode_destination d = Inr ([DestinationIPv4] @ bs @ put_u16 (d_port d))) \<or>
         (\<exists>bs. length bs = 16 \<and> d_host d = addr_string (Addr6 bs '''') \<and> \<not> is_4in6 (Addr6 bs '''') \<and>
            encode_destination d = Inr ([DestinationIPv6] @ bs @ put_u16 (d_port d))) \<or>
         (valid_domain (d_host d) \<and> type_code d = DestinationDomain \<and>
            encode_destination d = Inr ([DestinationDomain, word_of_nat (length (d_host d))] @
                bytes_of_string (d_host d) @ put_u16 (d_port d)))"
proof -
  note nz = dest_ok_nonzero [OF assms]
  consider (v4) bs where "type_code d = DestinationIPv4" "length bs = 4" "d_host d = addr_string (Addr4 bs)"
    | (v6) bs where "type_code d = DestinationIPv6" "length bs = 16" "\<not> is_4in6 (Addr6 bs '''')"
        "d_host d = addr_string (Addr6 bs '''')"
    | (dom) "type_code d = DestinationDomain" "valid_domain (d_host d)"
    using assms by (auto simp: dest_ok_def)
  then show ?thesis
  proof cases
    case v4
    then have "encode_destination d = Inr ([DestinationIPv4] @ bs @ put_u16 (d_port d))"
      using nz by (simp add: encode_destination_def parse_string del: addr_string.simps)
    with v4 show ?thesis by blast
  next
    case v6
    then have "encode_destination d = Inr ([DestinationIPv6] @ bs @ put_u16 (d_port d))"
      using nz by (simp add: encode_destination_def parse_string del: addr_string.simps is_4in6.simps)
    with v6 show ?thesis by blast
  next
    case dom
    with domain_props(5) [of "d_host d"] nz show ?thesis by (simp add: encode_destination_def)
  qed
qed

text \<open>The decoder rebuilds a destination from the host and the port that were encoded.\<close>

lemma decode_encode_host:
  assumes "dest_ok d" and "encode_destination d = Inr bs"
  shows "decode_destination bs = new_destination (d_host d) (d_port d)"
  using encode_forms [OF assms(1)]
proof (elim disjE exE conjE)
  fix q assume "length q = 4" "d_host d = addr_string (Addr4 q)"
    "encode_destination d = Inr ([DestinationIPv4] @ q @ put_u16 (d_port d))"
  with assms(2) show ?thesis
    by (auto simp: decode_destination_def addr_from_slice_def simp del: addr_string.simps)
next
  fix q assume "length q = 16" "d_host d = addr_string (Addr6 q '''')"
    "encode_destination d = Inr ([DestinationIPv6] @ q @ put_u16 (d_port d))"
  with assms(2) show ?thesis
    by (auto simp: decode_destination_def addr_from_slice_def simp del: addr_string.simps)
next
  assume dom: "valid_domain (d_host d)"
    and "encode_destination d = Inr ([DestinationDomain, word_of_nat (length (d_host d))] @
        bytes_of_string (d_host d) @ put_u16 (d_port d))"
  with assms(2) domain_props(4,5) [OF dom] show ?thesis
    by (auto simp: decode_destination_def Let_def unat_byte_of_nat)
qed

lemma encode_destination_length:
  "dest_ok d \<Longrightarrow> encode_destination d = Inr bs \<Longrightarrow> length bs \<le> 257"
  using encode_forms [of d] domain_props(4,5) [of "d_host d"]
  by (cases "d_host d") auto

section \<open>Properties\<close>

text \<open>
  A destination that the constructor or the decoder returns is well formed and can be encoded,
  and its encoding decodes to the same destination, unless it is a domain that reads as an address
  literal (which only a trailing dot lets through).
\<close>

theorem destination_roundtrip:
  assumes "new_destination h p = Inr d"
  shows "dest_ok d \<and> (\<exists>bs. encode_destination d = Inr bs \<and> length bs \<le> 257 \<and>
    (\<not> claimed d \<longrightarrow> decode_destination bs = Inr d))"
proof -
  have ok: "dest_ok d" using new_destination_dest_ok [OF assms] by simp
  then obtain bs where bs: "encode_destination d = Inr bs" using encode_forms by blast
  have "length bs \<le> 257" using encode_destination_length [OF ok bs] .
  with ok bs decode_encode_host [OF ok bs] dest_ok_reconstruct [OF ok] show ?thesis by simp
qed

lemma sample_destination:
  "new_destination ''Ab.c'' 80 = Inr \<lparr>type_code = DestinationDomain, d_host = ''ab.c'', d_port = 80\<rparr>"
  by code_simp

lemma destination_roundtrip_witness:
  "\<exists>bs. encode_destination \<lparr>type_code = DestinationDomain, d_host = ''ab.c'', d_port = 80\<rparr> = Inr bs \<and>
    decode_destination bs = Inr \<lparr>type_code = DestinationDomain, d_host = ''ab.c'', d_port = 80\<rparr>"
proof -
  have "parse_addr ''ab.c'' = None" by code_simp
  then have "\<not> claimed \<lparr>type_code = DestinationDomain, d_host = ''ab.c'', d_port = 80\<rparr>"
    by (simp add: claimed_def)
  with destination_roundtrip [OF sample_destination] show ?thesis by blast
qed

text \<open>
  The exception is real: the host \<^verbatim>\<open>1.2.3.4.\<close> is accepted as a domain named \<^verbatim>\<open>1.2.3.4\<close>, and the
  peer decodes the bytes that are sent for it to a destination of another type, the IPv4 address.
\<close>

theorem destination_trailing_dot:
  "\<exists>d bs. new_destination ''1.2.3.4.'' 80 = Inr d \<and> type_code d = DestinationDomain \<and>
     encode_destination d = Inr bs \<and>
     (\<exists>d'. decode_destination bs = Inr d' \<and> type_code d' = DestinationIPv4 \<and> d' \<noteq> d)"
proof -
  let ?d = "\<lparr>type_code = DestinationDomain, d_host = ''1.2.3.4'', d_port = 80\<rparr>"
  have d: "new_destination ''1.2.3.4.'' 80 = Inr ?d" by code_simp
  then have ok: "dest_ok ?d" using new_destination_dest_ok by blast
  then obtain bs where bs: "encode_destination ?d = Inr bs" using encode_forms by blast
  have "decode_destination bs = new_destination ''1.2.3.4'' 80"
    using decode_encode_host [OF ok bs] by simp
  moreover have "new_destination ''1.2.3.4'' 80 =
      Inr \<lparr>type_code = DestinationIPv4, d_host = ''1.2.3.4'', d_port = 80\<rparr>" by code_simp
  ultimately show ?thesis using d bs
    by (intro exI [of _ ?d] exI [of _ bs]) simp
qed

text \<open>
  Every IPv4-mapped IPv6 address, as text or on the wire, becomes the IPv4 destination of its
  last four bytes: the two spellings of an address are one destination.
\<close>

theorem mapped_address_canonical:
  assumes "length q = 4" and "p \<noteq> 0"
  shows "new_destination (''::ffff:'' @ addr_string (Addr4 q)) p = new_destination (addr_string (Addr4 q)) p \<and>
    decode_destination ([DestinationIPv6] @ (mapped_prefix @ q) @ put_u16 p) =
      decode_destination ([DestinationIPv4] @ q @ put_u16 p) \<and>
    (\<exists>d. new_destination (addr_string (Addr4 q)) p = Inr d \<and> type_code d = DestinationIPv4)"
proof -
  have len: "length (mapped_prefix @ q) = 16" using assms by (simp add: mapped_prefix_def)
  have m: "is_4in6 (Addr6 (mapped_prefix @ q) '''')" "drop 12 (mapped_prefix @ q) = q"
    by (simp_all add: mapped_prefix_def)
  have s: "addr_string (Addr6 (mapped_prefix @ q) '''') = ''::ffff:'' @ addr_string (Addr4 q)"
    using m by simp
  note new = new_destination_addr6 [OF len assms(2), unfolded if_P [OF m(1)] m(2)]
    new_destination_addr4 [OF assms]
  have "decode_destination ([DestinationIPv6] @ (mapped_prefix @ q) @ put_u16 p) =
      new_destination (addr_string (Addr6 (mapped_prefix @ q) '''')) p"
    using len by (simp add: decode_destination_def addr_from_slice_def del: addr_string.simps)
  moreover have "decode_destination ([DestinationIPv4] @ q @ put_u16 p) = new_destination (addr_string (Addr4 q)) p"
    using assms by (simp add: decode_destination_def addr_from_slice_def del: addr_string.simps)
  ultimately show ?thesis using new s by simp
qed

lemma mapped_address_canonical_witness:
  "new_destination ''::ffff:1.2.3.4'' 80 = new_destination ''1.2.3.4'' 80"
proof -
  have "addr_string (Addr4 [1, 2, 3, 4]) = ''1.2.3.4''" by code_simp
  with mapped_address_canonical [of "[1, 2, 3, 4]" 80] show ?thesis by simp
qed

end
