(* ===== verification/Frame.thy ===== *)
theory Frame
  imports IO Destination
begin

unbundle bit_operations_syntax

text \<open>
  The wire format (\<^verbatim>\<open>internal/tcpstream/frame.go\<close>): the preface of a carrier, the frames that
  follow it, their validation, the writer with its pooled buffers and the reader. A pooled buffer
  is modelled with the stale bytes it still holds, so that a field the writer forgot would show.
  The locale \<open>wire_codec\<close> is the contract of a self-delimiting format; prefaces and frames are
  its interpretations, and a sequence of frames read back is a lemma of the locale.
\<close>

section \<open>The contract of a wire format\<close>

locale wire_codec =
  fixes good :: "'a \<Rightarrow> bool" and marshal :: "'a \<Rightarrow> byte list"
    and parse :: "reader \<Rightarrow> go_error + 'a \<times> reader"
  assumes parse_marshal:
      "good x \<Longrightarrow> parse \<lparr>rd_bytes = marshal x @ rest, rd_err = e\<rparr> = Inr (x, \<lparr>rd_bytes = rest, rd_err = e\<rparr>)"
    and parse_sound:
      "parse r = Inr (x, r') \<Longrightarrow> good x \<and> rd_bytes r = marshal x @ rd_bytes r' \<and> rd_err r' = rd_err r"
begin

fun parse_many :: "nat \<Rightarrow> reader \<Rightarrow> go_error + 'a list \<times> reader" where
  "parse_many 0 r = Inr ([], r)"
| "parse_many (Suc n) r =
     (case parse r of Inl e \<Rightarrow> Inl e
      | Inr (x, r') \<Rightarrow>
          (case parse_many n r' of Inl e \<Rightarrow> Inl e | Inr (xs, r'') \<Rightarrow> Inr (x # xs, r'')))"

lemma parse_many_marshal:
  "list_all good xs \<Longrightarrow>
     parse_many (length xs) \<lparr>rd_bytes = concat (map marshal xs) @ rest, rd_err = e\<rparr> =
       Inr (xs, \<lparr>rd_bytes = rest, rd_err = e\<rparr>)"
  by (induction xs) (simp_all add: parse_marshal)

lemma parse_many_sound:
  "parse_many n r = Inr (xs, r') \<Longrightarrow>
     list_all good xs \<and> length xs = n \<and> rd_bytes r = concat (map marshal xs) @ rd_bytes r'"
proof (induction n arbitrary: r xs r')
  case (Suc n)
  then obtain x r1 ys where "parse r = Inr (x, r1)" "parse_many n r1 = Inr (ys, r')" "xs = x # ys"
    by (auto split: sum.splits)
  with Suc.IH [of r1 ys r'] parse_sound [of r x r1] show ?case by simp
qed simp

text \<open>No message is the beginning of another, so a stream has one reading.\<close>

lemma marshal_prefix:
  assumes "good x" and "good y" and "marshal x @ xs = marshal y @ ys"
  shows "x = y \<and> xs = ys"
proof -
  have "(Inr (x, \<lparr>rd_bytes = xs, rd_err = EOF\<rparr>) :: go_error + 'a \<times> reader) =
      Inr (y, \<lparr>rd_bytes = ys, rd_err = EOF\<rparr>)"
    unfolding parse_marshal [OF assms(1), symmetric] parse_marshal [OF assms(2), symmetric] assms(3)
    by (rule refl)
  then show ?thesis by simp
qed

lemma marshal_truncated:
  assumes "good x" and "n < length (marshal x)"
  shows "\<exists>e. parse \<lparr>rd_bytes = take n (marshal x), rd_err = err\<rparr> = Inl e"
proof (cases "parse \<lparr>rd_bytes = take n (marshal x), rd_err = err\<rparr>")
  case (Inr yr)
  obtain y r where "yr = (y, r)" by (cases yr)
  with Inr parse_sound have y: "good y" "take n (marshal x) = marshal y @ rd_bytes r" by fastforce+
  then have "marshal x @ [] = marshal y @ (rd_bytes r @ drop n (marshal x))"
    by (metis append.assoc append_Nil2 append_take_drop_id)
  from marshal_prefix [OF assms(1) y(1) this] assms(2) have False by simp
  then show ?thesis ..
qed simp

end

section \<open>Prefaces\<close>

definition Magic :: u32 where "Magic = 0x45475443"
definition Version :: byte where "Version = 4"
definition PrefaceSize :: nat where "PrefaceSize = 16"
definition HeaderSize :: nat where "HeaderSize = 32"
definition MaxPayloadSize :: nat where "MaxPayloadSize = 64 * 1024"
definition PrefaceFlagAuthRequired :: byte where "PrefaceFlagAuthRequired = 1"
definition prefaceKnownFlags :: byte where "prefaceKnownFlags = PrefaceFlagAuthRequired"

definition MaxPayload32 :: u32 where "MaxPayload32 = word_of_nat MaxPayloadSize"

record preface =
  pf_version :: byte
  pf_flags :: byte
  pf_max_payload :: u32

definition marshal_preface :: "preface \<Rightarrow> go_error + byte list \<times> preface" where
  "marshal_preface p =
     (let version = (if pf_version p = 0 then Version else pf_version p)
      in if version \<noteq> Version then Inl ErrInvalidPreface
      else if pf_flags p AND NOT prefaceKnownFlags \<noteq> 0 then Inl ErrInvalidPreface
      else let max_payload = (if pf_max_payload p = 0 then MaxPayload32 else pf_max_payload p)
      in if max_payload > MaxPayload32 then Inl ErrInvalidPreface
      else Inr (put_u32 Magic @ [version, pf_flags p] @ put_u16 (word_of_nat PrefaceSize) @
                  put_u32 max_payload @ replicate 4 0,
                \<lparr>pf_version = version, pf_flags = pf_flags p, pf_max_payload = max_payload\<rparr>))"

definition write_preface :: "'w write_op \<Rightarrow> 'w \<Rightarrow> preface \<Rightarrow> go_error option \<times> 'w" where
  "write_preface wr w p =
     (case marshal_preface p of Inl e \<Rightarrow> (Some e, w) | Inr (buffer, _) \<Rightarrow> write_full wr w buffer)"

definition read_preface :: "reader \<Rightarrow> go_error + preface \<times> reader" where
  "read_preface r =
     (case read_full PrefaceSize r of
        Inl e \<Rightarrow> Inl e
      | Inr (buffer, r') \<Rightarrow>
          let version = buffer ! 4; flags = buffer ! 5;
              max_payload = get_u32 (take 4 (drop 8 buffer))
          in if get_u32 (take 4 buffer) \<noteq> Magic \<or> version \<noteq> Version \<or>
                flags AND NOT prefaceKnownFlags \<noteq> 0 \<or>
                get_u16 (take 2 (drop 6 buffer)) \<noteq> word_of_nat PrefaceSize \<or>
                max_payload = 0 \<or> max_payload > MaxPayload32 \<or>
                get_u32 (take 4 (drop 12 buffer)) \<noteq> 0
             then Inl ErrInvalidPreface
             else Inr (\<lparr>pf_version = version, pf_flags = flags, pf_max_payload = max_payload\<rparr>, r'))"

section \<open>Frames\<close>

definition FrameOpen :: byte where "FrameOpen = 1"
definition FrameData :: byte where "FrameData = 2"
definition FrameFIN :: byte where "FrameFIN = 3"
definition FrameRST :: byte where "FrameRST = 4"
definition FrameAck :: byte where "FrameAck = 5"
definition FrameOpenResult :: byte where "FrameOpenResult = 6"
definition OpenResultSuccess :: byte where "OpenResultSuccess = 0"
definition OpenResultPolicyDenied :: byte where "OpenResultPolicyDenied = 6"
definition DirectionClientToServer :: byte where "DirectionClientToServer = 0"
definition DirectionServerToClient :: byte where "DirectionServerToClient = 1"

lemmas frame_types =
  FrameOpen_def FrameData_def FrameFIN_def FrameRST_def FrameAck_def FrameOpenResult_def

record frame =
  f_type :: byte
  f_direction :: byte
  f_stream :: "byte list"
  f_offset :: u64
  f_payload :: "byte list"

text \<open>A \<^verbatim>\<open>StreamID\<close> is an array of 16 bytes.\<close>

definition zero_stream :: "byte list" where "zero_stream = replicate 16 0"

definition frame_typed :: "frame \<Rightarrow> bool" where
  "frame_typed f \<longleftrightarrow> length (f_stream f) = 16"

definition validate_frame :: "frame \<Rightarrow> go_error option" where
  "validate_frame f =
     (if f_direction f \<noteq> DirectionClientToServer \<and> f_direction f \<noteq> DirectionServerToClient
        then Some ErrInvalidFrame
      else if length (f_payload f) > MaxPayloadSize then Some ErrPayloadLength
      else if f_type f = FrameOpen then
        (if f_direction f \<noteq> DirectionClientToServer \<or> f_offset f \<noteq> 0 then Some ErrInvalidFrame
         else if f_stream f = zero_stream then Some ErrInvalidFrame
         else case decode_destination (f_payload f) of
           Inl _ \<Rightarrow> Some ErrInvalidFrame | Inr _ \<Rightarrow> None)
      else if f_type f = FrameData then
        (if length (f_payload f) = 0 \<or> f_offset f > - 1 - len64 (f_payload f)
         then Some ErrInvalidFrame else None)
      else if f_type f = FrameFIN then
        (if length (f_payload f) \<noteq> 0 then Some ErrInvalidFrame else None)
      else if f_type f = FrameRST then
        (if length (f_payload f) \<noteq> 2 then Some ErrInvalidFrame else None)
      else if f_type f = FrameAck then
        (if length (f_payload f) \<noteq> 1 \<or> f_payload f ! 0 > 1 then Some ErrInvalidFrame else None)
      else if f_type f = FrameOpenResult then
        (if f_direction f \<noteq> DirectionServerToClient \<or> f_offset f \<noteq> 0 \<or>
            f_stream f = zero_stream \<or> length (f_payload f) \<noteq> 1 \<or>
            f_payload f ! 0 > OpenResultPolicyDenied then Some ErrInvalidFrame else None)
      else Some ErrInvalidFrame)"

section \<open>Writing\<close>

text \<open>The class of buffer that \<open>acquireFrameWriteBuffer\<close> takes for a payload, by its size.\<close>

definition frame_buffer_class :: "nat \<Rightarrow> nat" where
  "frame_buffer_class payload_size =
     (if payload_size \<le> 1024 then HeaderSize + 1024
      else if payload_size \<le> 4096 then HeaderSize + 4096
      else if payload_size \<le> 16384 then HeaderSize + 16384
      else if payload_size \<le> 32768 then HeaderSize + 32768
      else HeaderSize + 65536)"

text \<open>\<open>overwrite at bs buf\<close>: what \<^verbatim>\<open>copy(buf[at:], bs)\<close> and the \<^verbatim>\<open>Put\<close> functions leave.\<close>

definition overwrite :: "nat \<Rightarrow> byte list \<Rightarrow> byte list \<Rightarrow> byte list" where
  "overwrite at bs buf = take at buf @ bs @ drop (at + length bs) buf"

text \<open>
  \<open>pool n\<close> is the content of the buffer of size \<open>n\<close> that the pool hands out. \<open>None\<close> is the
  panic of the slice expression when the buffer were too short.
\<close>

definition write_frame ::
    "(nat \<Rightarrow> byte list) \<Rightarrow> 'w write_op \<Rightarrow> 'w \<Rightarrow> frame \<Rightarrow> (go_error option \<times> 'w) option" where
  "write_frame pool wr w f =
     (case validate_frame f of Some e \<Rightarrow> Some (Some e, w)
      | None \<Rightarrow>
          (case go_slice (pool (frame_buffer_class (length (f_payload f)))) 0
                  (HeaderSize + length (f_payload f)) of
             None \<Rightarrow> None
           | Some b0 \<Rightarrow>
               let b1 = b0[0 := f_type f];
                   b2 = b1[1 := f_direction f];
                   b3 = overwrite 2 (put_u16 (word_of_nat HeaderSize)) b2;
                   b4 = overwrite 4 (put_u32 (word_of_nat (length (f_payload f)))) b3;
                   b5 = overwrite 8 (f_stream f) b4;
                   b6 = overwrite 24 (put_u64 (f_offset f)) b5;
                   b7 = overwrite HeaderSize (f_payload f) b6
               in Some (write_full wr w b7)))"

section \<open>Reading\<close>

definition clamp_payload :: "u32 \<Rightarrow> u32" where
  "clamp_payload m = (if m = 0 \<or> m > MaxPayload32 then MaxPayload32 else m)"

definition read_frame :: "u32 \<Rightarrow> reader \<Rightarrow> go_error + frame \<times> reader" where
  "read_frame max_payload0 r =
     (let max_payload = clamp_payload max_payload0
      in case read_full HeaderSize r of
           Inl e \<Rightarrow> Inl e
         | Inr (header, r1) \<Rightarrow>
             if get_u16 (take 2 (drop 2 header)) \<noteq> word_of_nat HeaderSize then Inl ErrInvalidFrame
             else let payload_length = get_u32 (take 4 (drop 4 header))
             in if payload_length > max_payload then Inl ErrPayloadLength
             else case (if payload_length > 0 then read_full (unat payload_length) r1 else Inr ([], r1)) of
                Inl e \<Rightarrow> Inl e
              | Inr (payload, r2) \<Rightarrow>
                  let f = \<lparr>f_type = header ! 0, f_direction = header ! 1,
                           f_stream = take 16 (drop 8 header),
                           f_offset = get_u64 (take 8 (drop 24 header)), f_payload = payload\<rparr>
                  in case validate_frame f of Some e \<Rightarrow> Inl e | None \<Rightarrow> Inr (f, r2))"

section \<open>The codecs\<close>

lemma chunk: "drop n xs = take k (drop n xs) @ drop (n + k) xs"
  by (metis append_take_drop_id drop_drop add.commute)

lemma magnitudes [simp]:
  "unat MaxPayload32 = MaxPayloadSize" "unat (word_of_nat HeaderSize :: u16) = HeaderSize"
  "MaxPayload32 \<noteq> 0" "unat (clamp_payload m) \<le> MaxPayloadSize"
  by (auto simp: MaxPayload32_def MaxPayloadSize_def HeaderSize_def clamp_payload_def
      word_le_nat_alt not_less)

lemma unat_payload_length:
  "n \<le> MaxPayloadSize \<Longrightarrow> unat (word_of_nat n :: u32) = n"
  by (simp add: unat_word_of_nat MaxPayloadSize_def)

text \<open>The bytes of a preface and of a frame.\<close>

definition preface_bytes :: "preface \<Rightarrow> byte list" where
  "preface_bytes p = put_u32 Magic @ [pf_version p, pf_flags p] @ put_u16 (word_of_nat PrefaceSize) @
     put_u32 (pf_max_payload p) @ replicate 4 0"

definition preface_ok :: "preface \<Rightarrow> bool" where
  "preface_ok p \<longleftrightarrow> pf_version p = Version \<and> pf_flags p AND NOT prefaceKnownFlags = 0 \<and>
     pf_max_payload p \<noteq> 0 \<and> pf_max_payload p \<le> MaxPayload32"

definition header_bytes :: "frame \<Rightarrow> byte list" where
  "header_bytes f = [f_type f, f_direction f] @ put_u16 (word_of_nat HeaderSize) @
     put_u32 (word_of_nat (length (f_payload f))) @ f_stream f @ put_u64 (f_offset f)"

definition marshal_frame :: "frame \<Rightarrow> byte list" where
  "marshal_frame f = header_bytes f @ f_payload f"

definition frame_ok :: "u32 \<Rightarrow> frame \<Rightarrow> bool" where
  "frame_ok m f \<longleftrightarrow> frame_typed f \<and> validate_frame f = None \<and>
     length (f_payload f) \<le> unat (clamp_payload m)"

lemma validate_payload: "validate_frame f = None \<Longrightarrow> length (f_payload f) \<le> MaxPayloadSize"
  by (auto simp: validate_frame_def split: if_splits)

lemma put_u32_zero: "put_u32 0 = replicate 4 0"
proof -
  have "be_bytes n 0 = replicate n 0" for n
    by (induction n) (simp_all add: replicate_append_same)
  then show ?thesis by (simp add: put_u32_def)
qed

lemma get_u32_zeros: "get_u32 bs = 0 \<Longrightarrow> length bs = 4 \<Longrightarrow> bs = replicate 4 0"
proof -
  have "put_u32 0 = replicate 4 0" by (rule put_u32_zero)
  then show "get_u32 bs = 0 \<Longrightarrow> length bs = 4 \<Longrightarrow> bs = replicate 4 0" by (metis put_get(2))
qed

lemma split_header:
  assumes "length h = 32"
  shows "h = [h ! 0, h ! 1] @ take 2 (drop 2 h) @ take 4 (drop 4 h) @ take 16 (drop 8 h) @ take 8 (drop 24 h)"
proof -
  have "h = [h ! 0, h ! 1] @ drop 2 h"
    using assms by (cases h; cases "tl h") auto
  also have "drop 2 h = take 2 (drop 2 h) @ drop 4 h" using chunk [of 2 h 2] by simp
  also have "drop 4 h = take 4 (drop 4 h) @ drop 8 h" using chunk [of 4 h 4] by simp
  also have "drop 8 h = take 16 (drop 8 h) @ drop 24 h" using chunk [of 8 h 16] by simp
  also have "drop 24 h = take 8 (drop 24 h)" using assms by simp
  finally show ?thesis .
qed

lemma split_preface:
  assumes "length h = 16"
  shows "h = take 4 h @ [h ! 4, h ! 5] @ take 2 (drop 6 h) @ take 4 (drop 8 h) @ take 4 (drop 12 h)"
proof -
  have "h = take 4 h @ drop 4 h" by simp
  also have "drop 4 h = [h ! 4, h ! 5] @ drop 6 h"
    using Cons_nth_drop_Suc [of 4 h] Cons_nth_drop_Suc [of 5 h] assms by simp
  also have "drop 6 h = take 2 (drop 6 h) @ drop 8 h" using chunk [of 6 h 2] by simp
  also have "drop 8 h = take 4 (drop 8 h) @ drop 12 h" using chunk [of 8 h 4] by simp
  also have "drop 12 h = take 4 (drop 12 h)" using assms by simp
  finally show ?thesis .
qed

text \<open>Prefaces.\<close>

lemma read_preface_bytes:
  assumes "preface_ok p"
  shows "read_preface \<lparr>rd_bytes = preface_bytes p @ rest, rd_err = e\<rparr> = Inr (p, \<lparr>rd_bytes = rest, rd_err = e\<rparr>)"
proof -
  have "length (preface_bytes p) = PrefaceSize"
    by (simp add: preface_bytes_def PrefaceSize_def)
  then have full: "read_full PrefaceSize \<lparr>rd_bytes = preface_bytes p @ rest, rd_err = e\<rparr> =
      Inr (preface_bytes p, \<lparr>rd_bytes = rest, rd_err = e\<rparr>)"
    by (rule read_full_append)
  have parts: "take 4 (preface_bytes p) = put_u32 Magic" "preface_bytes p ! 4 = pf_version p"
      "preface_bytes p ! 5 = pf_flags p" "take 2 (drop 6 (preface_bytes p)) = put_u16 (word_of_nat PrefaceSize)"
      "take 4 (drop 8 (preface_bytes p)) = put_u32 (pf_max_payload p)"
      "take 4 (drop 12 (preface_bytes p)) = replicate 4 0"
    by (simp_all add: preface_bytes_def nth_append)
  have "get_u32 (replicate 4 0) = 0" using get_put(2) [of 0] by (simp only: put_u32_zero)
  then show ?thesis
    using assms unfolding read_preface_def full preface_ok_def by (auto simp: parts Let_def)
qed

lemma read_preface_sound:
  assumes "read_preface r = Inr (p, r')"
  shows "preface_ok p \<and> rd_bytes r = preface_bytes p @ rd_bytes r' \<and> rd_err r' = rd_err r"
proof -
  obtain b where full: "read_full PrefaceSize r = Inr (b, r')"
    and ok: "get_u32 (take 4 b) = Magic" "b ! 4 = Version" "b ! 5 AND NOT prefaceKnownFlags = 0"
      "get_u16 (take 2 (drop 6 b)) = word_of_nat PrefaceSize" "get_u32 (take 4 (drop 8 b)) \<noteq> 0"
      "get_u32 (take 4 (drop 8 b)) \<le> MaxPayload32" "get_u32 (take 4 (drop 12 b)) = 0"
    and p: "p = \<lparr>pf_version = b ! 4, pf_flags = b ! 5, pf_max_payload = get_u32 (take 4 (drop 8 b))\<rparr>"
    using assms by (auto simp: read_preface_def Let_def not_less split: sum.splits if_splits)
  from read_full_Inr [OF full] have b: "length b = 16" "rd_bytes r = b @ rd_bytes r'" "rd_err r' = rd_err r"
    by (simp_all add: PrefaceSize_def)
  have "take 4 b = put_u32 Magic" using put_get(2) [of "take 4 b"] ok(1) b(1) by simp
  moreover have "take 2 (drop 6 b) = put_u16 (word_of_nat PrefaceSize)"
    using put_get(1) [of "take 2 (drop 6 b)"] ok(4) b(1) by simp
  moreover have "take 4 (drop 12 b) = replicate 4 0" using get_u32_zeros [OF ok(7)] b(1) by simp
  moreover have "take 4 (drop 8 b) = put_u32 (pf_max_payload p)"
    using put_get(2) [of "take 4 (drop 8 b)"] b(1) p by simp
  ultimately have "take 4 b @ [b ! 4, b ! 5] @ take 2 (drop 6 b) @ take 4 (drop 8 b) @ take 4 (drop 12 b) =
      preface_bytes p"
    using p by (simp only: preface_bytes_def preface.select_convs)
  with split_preface [OF b(1)] have "b = preface_bytes p" by (rule trans)
  moreover have "preface_ok p" using ok p by (simp add: preface_ok_def)
  ultimately show ?thesis using b(2,3) by simp
qed

interpretation prefaces: wire_codec preface_ok preface_bytes read_preface
  by (unfold_locales; (fact read_preface_bytes | fact read_preface_sound))

lemma marshal_preface_ok:
  assumes "marshal_preface p = Inr (bs, q)"
  shows "preface_ok q \<and> bs = preface_bytes q \<and> pf_flags q = pf_flags p \<and>
    (pf_version p = 0 \<or> pf_version q = pf_version p) \<and>
    (pf_max_payload p = 0 \<or> pf_max_payload q = pf_max_payload p)"
  using assms
  by (auto simp: marshal_preface_def preface_ok_def preface_bytes_def Let_def not_less split: if_splits)

text \<open>Frames.\<close>

lemma header_parts:
  assumes "frame_typed f"
  shows "length (header_bytes f) = HeaderSize" "header_bytes f ! 0 = f_type f"
    "header_bytes f ! 1 = f_direction f"
    "take 2 (drop 2 (header_bytes f)) = put_u16 (word_of_nat HeaderSize)"
    "take 4 (drop 4 (header_bytes f)) = put_u32 (word_of_nat (length (f_payload f)))"
    "take 16 (drop 8 (header_bytes f)) = f_stream f"
    "take 8 (drop 24 (header_bytes f)) = put_u64 (f_offset f)"
  using assms by (simp_all add: header_bytes_def frame_typed_def HeaderSize_def)

lemma read_frame_bytes:
  assumes "frame_ok m f"
  shows "read_frame m \<lparr>rd_bytes = marshal_frame f @ rest, rd_err = e\<rparr> =
    Inr (f, \<lparr>rd_bytes = rest, rd_err = e\<rparr>)"
proof -
  note f = assms [unfolded frame_ok_def]
  note parts = header_parts [OF f [THEN conjunct1]]
  let ?len = "word_of_nat (length (f_payload f)) :: u32"
  have len: "unat ?len = length (f_payload f)"
    using validate_payload [of f] f by (simp add: unat_payload_length)
  then have le: "\<not> ?len > clamp_payload m" using f by (simp add: word_less_nat_alt not_less)
  have full: "read_full HeaderSize \<lparr>rd_bytes = header_bytes f @ f_payload f @ rest, rd_err = e\<rparr> =
      Inr (header_bytes f, \<lparr>rd_bytes = f_payload f @ rest, rd_err = e\<rparr>)"
    by (rule read_full_append [OF parts(1)])
  have pay: "(if ?len > 0 then read_full (unat ?len) \<lparr>rd_bytes = f_payload f @ rest, rd_err = e\<rparr>
      else Inr ([], \<lparr>rd_bytes = f_payload f @ rest, rd_err = e\<rparr>)) =
      Inr (f_payload f, \<lparr>rd_bytes = rest, rd_err = e\<rparr>)"
    using len by (auto simp: word_less_nat_alt)
  have f_eq: "\<lparr>f_type = f_type f, f_direction = f_direction f, f_stream = f_stream f,
      f_offset = f_offset f, f_payload = f_payload f\<rparr> = f" by simp
  show ?thesis
    using f le pay unfolding read_frame_def marshal_frame_def append_assoc full
    by (simp add: parts f_eq Let_def del: of_nat_eq_0_iff One_nat_def)
qed

lemma read_frame_sound:
  assumes "read_frame m r = Inr (f, r')"
  shows "frame_ok m f \<and> rd_bytes r = marshal_frame f @ rd_bytes r' \<and> rd_err r' = rd_err r"
proof -
  let ?len = "\<lambda>h. get_u32 (take 4 (drop 4 h))"
  obtain h r1 payload where full: "read_full HeaderSize r = Inr (h, r1)"
    and hs: "get_u16 (take 2 (drop 2 h)) = word_of_nat HeaderSize"
    and le: "?len h \<le> clamp_payload m"
    and pay: "(if ?len h > 0 then read_full (unat (?len h)) r1 else Inr ([], r1)) = Inr (payload, r')"
    and f: "f = \<lparr>f_type = h ! 0, f_direction = h ! 1, f_stream = take 16 (drop 8 h),
        f_offset = get_u64 (take 8 (drop 24 h)), f_payload = payload\<rparr>"
    and ok: "validate_frame f = None"
    using assms by (auto simp: read_frame_def Let_def not_less split: sum.splits if_splits option.splits)
  from read_full_Inr [OF full] have h: "length h = 32" "rd_bytes r = h @ rd_bytes r1" "rd_err r1 = rd_err r"
    by (simp_all add: HeaderSize_def)
  from pay read_full_Inr [of "unat (?len h)" r1 payload r']
  have p: "length payload = unat (?len h)" "rd_bytes r1 = payload @ rd_bytes r'" "rd_err r' = rd_err r1"
    by (auto simp: word_less_nat_alt split: if_splits)
  have "take 2 (drop 2 h) = put_u16 (word_of_nat HeaderSize)"
    using put_get(1) [of "take 2 (drop 2 h)"] hs h(1) by simp
  moreover have "take 4 (drop 4 h) = put_u32 (word_of_nat (length payload))"
    using put_get(2) [of "take 4 (drop 4 h)"] h(1) p(1) by simp
  moreover have "take 8 (drop 24 h) = put_u64 (f_offset f)"
    using put_get(3) [of "take 8 (drop 24 h)"] h(1) f by simp
  ultimately have "[h ! 0, h ! 1] @ take 2 (drop 2 h) @ take 4 (drop 4 h) @ take 16 (drop 8 h) @
      take 8 (drop 24 h) = header_bytes f"
    using f by (simp only: header_bytes_def frame.select_convs)
  with split_header [OF h(1)] have "h = header_bytes f" by (rule trans)
  moreover have "frame_ok m f"
    using ok le p(1) f h(1) by (simp add: frame_ok_def frame_typed_def word_le_nat_alt)
  moreover have "f_payload f = payload" using f by simp
  ultimately show ?thesis using h(2,3) p(2,3) by (simp add: marshal_frame_def)
qed

interpretation frames: wire_codec "frame_ok m" marshal_frame "read_frame m" for m
  by (unfold_locales; (fact read_frame_bytes | fact read_frame_sound))

section \<open>The pooled writer\<close>

definition pool_ok :: "(nat \<Rightarrow> byte list) \<Rightarrow> bool" where
  "pool_ok pool \<longleftrightarrow> (\<forall>n. length (pool n) = n)"

lemma frame_buffer_fits: "n \<le> MaxPayloadSize \<Longrightarrow> HeaderSize + n \<le> frame_buffer_class n"
  by (auto simp: frame_buffer_class_def MaxPayloadSize_def)

lemma overwrite_append:
  "length xs = at \<Longrightarrow> length bs = length ys \<Longrightarrow> overwrite at bs (xs @ ys @ zs) = xs @ bs @ zs"
  by (simp add: overwrite_def)

text \<open>Whatever the buffer held, after the writes it is the frame.\<close>

lemma fill_buffer:
  assumes "length b = HeaderSize + length (f_payload f)" and "frame_typed f"
  shows "overwrite HeaderSize (f_payload f) (overwrite 24 (put_u64 (f_offset f))
      (overwrite 8 (f_stream f) (overwrite 4 (put_u32 (word_of_nat (length (f_payload f))))
        (overwrite 2 (put_u16 (word_of_nat HeaderSize)) (b[0 := f_type f, 1 := f_direction f]))))) =
    marshal_frame f"
proof -
  have id: "length (f_stream f) = 16" using assms(2) by (simp add: frame_typed_def)
  have b32: "length (take 32 b) = 32" using assms(1) by (simp add: HeaderSize_def)
  from split_header [OF b32] have "take 32 b @ drop 32 b =
      ([b ! 0, b ! 1] @ take 2 (drop 2 (take 32 b)) @ take 4 (drop 4 (take 32 b)) @
       take 16 (drop 8 (take 32 b)) @ take 8 (drop 24 (take 32 b))) @ drop 32 b"
    by simp
  then obtain h2 h4 h16 h8 p where b: "b = [b ! 0, b ! 1] @ h2 @ h4 @ h16 @ h8 @ p"
    and len: "length h2 = 2" "length h4 = 4" "length h16 = 16" "length h8 = 8"
      "length p = length (f_payload f)"
    using assms(1) by (simp add: HeaderSize_def)
  let ?s = "[f_type f, f_direction f]"
  have "b[0 := f_type f, 1 := f_direction f] = ?s @ h2 @ h4 @ h16 @ h8 @ p"
    by (subst b) simp
  also have "overwrite 2 (put_u16 (word_of_nat HeaderSize)) \<dots> =
      (?s @ put_u16 (word_of_nat HeaderSize)) @ h4 @ h16 @ h8 @ p"
    using len by (subst overwrite_append) simp_all
  also have "overwrite 4 (put_u32 (word_of_nat (length (f_payload f)))) \<dots> =
      (?s @ put_u16 (word_of_nat HeaderSize) @ put_u32 (word_of_nat (length (f_payload f)))) @ h16 @ h8 @ p"
    using len by (subst overwrite_append) simp_all
  also have "overwrite 8 (f_stream f) \<dots> =
      (?s @ put_u16 (word_of_nat HeaderSize) @ put_u32 (word_of_nat (length (f_payload f))) @ f_stream f) @ h8 @ p"
    using len id by (subst overwrite_append) simp_all
  also have "overwrite 24 (put_u64 (f_offset f)) \<dots> = header_bytes f @ p @ []"
    using len id by (subst overwrite_append) (simp_all add: header_bytes_def)
  also have "overwrite HeaderSize (f_payload f) \<dots> = marshal_frame f"
    using len id by (subst overwrite_append) (simp_all add: marshal_frame_def header_parts assms(2))
  finally show ?thesis .
qed

lemma write_frame_spec:
  assumes "frame_typed f" and "pool_ok pool"
  shows "write_frame pool wr w f =
    Some (case validate_frame f of Some e \<Rightarrow> (Some e, w) | None \<Rightarrow> write_full wr w (marshal_frame f))"
proof (cases "validate_frame f")
  case (Some e)
  then show ?thesis by (simp add: write_frame_def)
next
  case None
  let ?n = "HeaderSize + length (f_payload f)"
  let ?b = "pool (frame_buffer_class (length (f_payload f)))"
  have "?n \<le> length ?b"
    using frame_buffer_fits [OF validate_payload [OF None]] assms(2) by (simp add: pool_ok_def)
  then have sl: "go_slice ?b 0 ?n = Some (take ?n ?b)" and len: "length (take ?n ?b) = ?n"
    by (simp_all add: go_slice_def)
  show ?thesis
    by (simp only: write_frame_def None option.case sl Let_def fill_buffer [OF len assms(1)])
qed

section \<open>Properties\<close>

text \<open>
  C15. Writing a frame and reading it back: through any writer that meets the contract of
  \<^verbatim>\<open>io.Writer\<close> without an error the connection carries exactly the 32-byte header and the payload,
  whatever stale bytes the pooled buffer held, and the peer's reader returns the same frame and
  leaves what follows it.
\<close>

theorem frame_roundtrip:
  assumes "frame_typed f" and "validate_frame f = None" and "pool_ok pool"
    and "length (f_payload f) \<le> unat (clamp_payload m)"
    and "write_frame pool conn_write c f = Some (None, c')"
  shows "c_out c' = c_out c @ marshal_frame f \<and>
    read_frame m \<lparr>rd_bytes = marshal_frame f @ rest, rd_err = e\<rparr> =
      Inr (f, \<lparr>rd_bytes = rest, rd_err = e\<rparr>)"
proof
  show "c_out c' = c_out c @ marshal_frame f"
    using assms(5) net.write_full_ok by (simp add: write_frame_spec [OF assms(1,3)] assms(2))
  show "read_frame m \<lparr>rd_bytes = marshal_frame f @ rest, rd_err = e\<rparr> =
      Inr (f, \<lparr>rd_bytes = rest, rd_err = e\<rparr>)"
    using assms(1,2,4) by (intro read_frame_bytes) (simp add: frame_ok_def)
qed

definition sample_frame :: frame where
  "sample_frame = \<lparr>f_type = FrameData, f_direction = DirectionServerToClient,
     f_stream = replicate 16 7, f_offset = 10, f_payload = [1, 2, 3]\<rparr>"

definition sample_pool :: "nat \<Rightarrow> byte list" where
  "sample_pool n = replicate n 255"

definition sample_conn :: conn where
  "sample_conn = \<lparr>c_writes = [(3, None)], c_deadlines = [], c_out = [9]\<rparr>"

lemma sample_frame_ok: "frame_typed sample_frame" "validate_frame sample_frame = None" "pool_ok sample_pool"
  using offset_overflows [of "f_payload sample_frame" 10]
  by (simp_all add: sample_frame_def frame_typed_def validate_frame_def frame_types pool_ok_def
      sample_pool_def MaxPayloadSize_def is_slice_def)

lemma sample_write:
  "\<exists>c'. write_frame sample_pool conn_write sample_conn sample_frame = Some (None, c')"
  using write_frame_spec [OF sample_frame_ok(1,3), of conn_write sample_conn]
  by (simp add: sample_frame_ok(2) write_full.simps [of conn_write sample_conn] conn_write_def
      sample_conn_def marshal_frame_def header_bytes_def) (simp add: write_full.simps conn_write_def)

lemma frame_roundtrip_witness:
  "read_frame 0 \<lparr>rd_bytes = marshal_frame sample_frame @ [5], rd_err = EOF\<rparr> =
    Inr (sample_frame, \<lparr>rd_bytes = [5], rd_err = EOF\<rparr>)"
proof -
  obtain c' where "write_frame sample_pool conn_write sample_conn sample_frame = Some (None, c')"
    using sample_write by blast
  moreover have "length (f_payload sample_frame) \<le> unat (clamp_payload 0)"
    by (simp add: sample_frame_def clamp_payload_def MaxPayloadSize_def)
  ultimately show ?thesis using frame_roundtrip [OF sample_frame_ok, of 0 sample_conn c' "[5]" EOF] by blast
qed

text \<open>
  Whatever bytes arrive, a frame that the reader returns is valid, its payload is within the
  negotiated bound, and exactly its bytes were consumed: the reader accepts no second encoding of
  a frame and never loses its place in the stream.
\<close>

theorem read_frame_only_valid:
  assumes "read_frame m r = Inr (f, r')"
  shows "validate_frame f = None \<and> length (f_stream f) = 16 \<and>
    length (f_payload f) \<le> unat (clamp_payload m) \<and> rd_bytes r = marshal_frame f @ rd_bytes r'"
  using read_frame_sound [OF assms] by (simp add: frame_ok_def frame_typed_def)

lemma read_frame_only_valid_witness: "validate_frame sample_frame = None"
proof -
  have "frame_ok 0 sample_frame"
    using sample_frame_ok by (simp add: frame_ok_def) (simp add: sample_frame_def clamp_payload_def MaxPayloadSize_def)
  from read_frame_bytes [OF this, of "[]" EOF] read_frame_only_valid show ?thesis by blast
qed

text \<open>
  A carrier's byte stream has one reading: the frames written one after the other come back as
  the same list, and a stream that is cut inside a frame is an error, never a shorter frame.
\<close>

theorem frame_stream:
  assumes "list_all (frame_ok m) fs" and "frame_ok m f" and "n < length (marshal_frame f)"
  shows "frames.parse_many m (length fs) \<lparr>rd_bytes = concat (map marshal_frame fs) @ take n (marshal_frame f), rd_err = e\<rparr> =
      Inr (fs, \<lparr>rd_bytes = take n (marshal_frame f), rd_err = e\<rparr>) \<and>
    (\<exists>x. read_frame m \<lparr>rd_bytes = take n (marshal_frame f), rd_err = e\<rparr> = Inl x)"
  using frames.parse_many_marshal [OF assms(1)] frames.marshal_truncated [OF assms(2,3)] by blast

lemma frame_stream_witness:
  "\<exists>x. read_frame 0 \<lparr>rd_bytes = take 34 (marshal_frame sample_frame), rd_err = EOF\<rparr> = Inl x"
proof -
  have ok: "frame_ok 0 sample_frame"
    using sample_frame_ok by (simp add: frame_ok_def) (simp add: sample_frame_def clamp_payload_def MaxPayloadSize_def)
  have "34 < length (marshal_frame sample_frame)"
    by (simp add: marshal_frame_def header_bytes_def sample_frame_def)
  with ok frame_stream [of 0 "[sample_frame]" sample_frame 34 EOF] show ?thesis by simp
qed

end
