(* ===== verification/Carrier.thy ===== *)
theory Carrier
  imports Frame "HOL-Library.Multiset" "HOL-Library.Signed_Division"
begin

text \<open>
  One carrier (\<^verbatim>\<open>internal/tcpstream/carrier.go\<close>): its bounded queue of frames with a completion for
  every blocked sender, the single slot in which acknowledgements are coalesced, the write loop
  that alternates between the two, and the shutdown. The operations under a mutex are functions;
  the goroutines (senders, acknowledgers, the write loop, \<^verbatim>\<open>stop\<close>) are the steps of an inductive
  relation, and each \<^verbatim>\<open>select\<close> with several ready arms may take any of them.
\<close>

section \<open>Coalescing acknowledgements\<close>

text \<open>A merge that keeps one of its arguments, the one of the higher rank.\<close>

locale coalescing =
  fixes merge :: "'a \<Rightarrow> 'a \<Rightarrow> 'a" and rank :: "'a \<Rightarrow> nat"
  assumes merge_selects: "merge a b = a \<or> merge a b = b"
    and merge_rank: "rank (merge a b) = max (rank a) (rank b)"
begin

lemma fold_merge_mem: "foldl merge a xs \<in> insert a (set xs)"
proof (induction xs arbitrary: a)
  case (Cons x xs)
  from Cons.IH [of "merge a x"] merge_selects [of a x] show ?case by auto
qed simp

lemma fold_merge_ge: "rank a \<le> rank (foldl merge a xs) \<and> (\<forall>x \<in> set xs. rank x \<le> rank (foldl merge a xs))"
proof (induction xs arbitrary: a)
  case (Cons x xs)
  from Cons.IH [of "merge a x"] merge_rank [of a x] show ?case by auto
qed simp

text \<open>The rank that survives does not depend on the order of the arrivals.\<close>

lemma fold_merge_rank: "rank (foldl merge a xs) = Max (rank ` insert a (set xs))"
  using fold_merge_ge [of a xs] fold_merge_mem [of a xs]
  by (intro Max_eqI [symmetric]) auto

lemma fold_merge_order:
  "insert a (set xs) = insert b (set ys) \<Longrightarrow> rank (foldl merge a xs) = rank (foldl merge b ys)"
  by (simp only: fold_merge_rank)

end

definition ack_has_fin :: "frame \<Rightarrow> bool" where
  "ack_has_fin f \<longleftrightarrow> length (f_payload f) = 1 \<and> f_payload f ! 0 \<noteq> 0"

definition later_ack :: "frame \<Rightarrow> frame \<Rightarrow> frame" where
  "later_ack current next_ack =
     (if f_offset current > f_offset next_ack \<or>
         (f_offset current = f_offset next_ack \<and> ack_has_fin current)
      then current else next_ack)"

text \<open>The order of acknowledgements: by offset, and at one offset the FIN is the later one.\<close>

definition ack_rank :: "frame \<Rightarrow> nat" where
  "ack_rank f = 2 * unat (f_offset f) + (if ack_has_fin f then 1 else 0)"

interpretation acks: coalescing later_ack ack_rank
  by unfold_locales
    (auto simp: later_ack_def ack_rank_def word_less_nat_alt word_unat_eq_iff max_def)

section \<open>State\<close>

text \<open>
  \<open>qf_completion\<close> names the channel a blocked sender waits on; an acknowledgement has none.
  \<open>cr_closing\<close> is the flag, set in the critical section that closes \<^verbatim>\<open>done\<close>; \<open>cr_ack_ready\<close> is
  the token in the channel of capacity 1.
\<close>

record queued_frame =
  qf_frame :: frame
  qf_completion :: "nat option"

record carrier =
  cr_closing :: bool
  cr_preserve_read :: bool
  cr_pending_ack :: "frame option"
  cr_ack_ready :: bool
  cr_queue :: "queued_frame list"
  cr_queue_cap :: nat

text \<open>The capacity of the queue; a division by zero panics.\<close>

definition queue_frames :: "int \<Rightarrow> int \<Rightarrow> nat option" where
  "queue_frames queue_bytes chunk_size =
     (if chunk_size + int HeaderSize = 0 then None
      else let n = queue_bytes sdiv (chunk_size + int HeaderSize)
           in Some (if n < 1 then 1 else nat n))"

definition new_carrier :: "int \<Rightarrow> int \<Rightarrow> carrier option" where
  "new_carrier queue_bytes chunk_size =
     map_option (\<lambda>n. \<lparr>cr_closing = False, cr_preserve_read = False, cr_pending_ack = None,
        cr_ack_ready = False, cr_queue = [], cr_queue_cap = n\<rparr>) (queue_frames queue_bytes chunk_size)"

definition preserves_inbound :: "carrier \<Rightarrow> bool" where
  "preserves_inbound c \<longleftrightarrow> cr_closing c \<and> cr_preserve_read c"

text \<open>\<open>beginEnqueue\<close>: a carrier that is closing takes nothing new.\<close>

definition begin_enqueue :: "carrier \<Rightarrow> bool" where
  "begin_enqueue c \<longleftrightarrow> \<not> cr_closing c"

definition put_ack :: "frame \<Rightarrow> carrier \<Rightarrow> carrier" where
  "put_ack f c =
     c\<lparr>cr_pending_ack := Some (case cr_pending_ack c of None \<Rightarrow> f | Some p \<Rightarrow> later_ack p f),
       cr_ack_ready := True\<rparr>"

definition enqueue_ack :: "frame \<Rightarrow> carrier \<Rightarrow> bool \<times> carrier" where
  "enqueue_ack f c = (if \<not> begin_enqueue c then (False, c) else (True, put_ack f c))"

definition take_pending_ack :: "carrier \<Rightarrow> queued_frame option \<times> carrier" where
  "take_pending_ack c =
     (case cr_pending_ack c of
        None \<Rightarrow> (None, c)
      | Some f \<Rightarrow> (Some \<lparr>qf_frame = f, qf_completion = None\<rparr>, c\<lparr>cr_pending_ack := None\<rparr>))"

text \<open>\<open>completeQueuedFrame\<close>: what the sender of an item, if one waits, is told.\<close>

definition completion :: "queued_frame \<Rightarrow> bool \<Rightarrow> (nat \<times> bool) list" where
  "completion item success = (case qf_completion item of None \<Rightarrow> [] | Some k \<Rightarrow> [(k, success)])"

text \<open>\<open>failPending\<close>: every queued sender is told that its frame was not written.\<close>

definition fail_pending :: "carrier \<Rightarrow> (nat \<times> bool) list \<times> carrier" where
  "fail_pending c =
     (concat (map (\<lambda>item. completion item False) (cr_queue c)),
      c\<lparr>cr_queue := [], cr_pending_ack := None\<rparr>)"

section \<open>The write loop\<close>

text \<open>
  Where \<open>writeLoop\<close> and \<open>nextQueuedFrame\<close> stand: at the top of the loop with the preference, after
  receiving the token of an acknowledgement, at the last \<^verbatim>\<open>select\<close>, with a frame to write, or
  returned. The two \<^verbatim>\<open>select\<close> statements are separate steps because senders run between them.
\<close>

datatype writer_pc = AtTop bool | GotToken bool | AtSelect bool | Writing queued_frame bool | Returned

inductive next_frame_step :: "carrier \<times> writer_pc \<Rightarrow> carrier \<times> writer_pc \<Rightarrow> bool" where
  nf_done: "cr_closing c \<Longrightarrow> next_frame_step (c, AtTop prefer_ack) (c, Returned)"
| nf_prefer_ack: "cr_ack_ready c \<Longrightarrow>
     next_frame_step (c, AtTop True) (c\<lparr>cr_ack_ready := False\<rparr>, GotToken True)"
| nf_prefer_queue: "cr_queue c = item # rest \<Longrightarrow>
     next_frame_step (c, AtTop False) (c\<lparr>cr_queue := rest\<rparr>, Writing item False)"
| nf_default: "(if prefer_ack then \<not> cr_ack_ready c else cr_queue c = []) \<Longrightarrow>
     next_frame_step (c, AtTop prefer_ack) (c, AtSelect prefer_ack)"
| nf_select_done: "cr_closing c \<Longrightarrow> next_frame_step (c, AtSelect prefer_ack) (c, Returned)"
| nf_select_ack: "cr_ack_ready c \<Longrightarrow>
     next_frame_step (c, AtSelect prefer_ack) (c\<lparr>cr_ack_ready := False\<rparr>, GotToken prefer_ack)"
| nf_select_queue: "cr_queue c = item # rest \<Longrightarrow>
     next_frame_step (c, AtSelect prefer_ack) (c\<lparr>cr_queue := rest\<rparr>, Writing item False)"
| nf_take: "take_pending_ack c = (Some item, c') \<Longrightarrow>
     next_frame_step (c, GotToken prefer_ack) (c', Writing item True)"
| nf_take_none: "take_pending_ack c = (None, c') \<Longrightarrow>
     next_frame_step (c, GotToken prefer_ack) (c', AtTop prefer_ack)"

inductive_cases at_top_cases: "next_frame_step (c, AtTop prefer_ack) (c', pc')"
inductive_cases got_token_cases: "next_frame_step (c, GotToken prefer_ack) (c', pc')"
inductive_cases at_select_cases: "next_frame_step (c, AtSelect prefer_ack) (c', pc')"
inductive_simps writing_waits: "next_frame_step (c, Writing item is_ack) (c', pc')"

text \<open>One round of \<open>writeLoop\<close> after a frame was chosen: arm the deadline, write the frame.\<close>

definition write_one ::
    "(nat \<Rightarrow> byte list) \<Rightarrow> int \<Rightarrow> conn \<Rightarrow> queued_frame \<Rightarrow> (bool \<times> conn) option" where
  "write_one pool write_timeout cn item =
     (case (if write_timeout > 0 then conn_set_write_deadline cn else (None, cn)) of
        (Some e, cn') \<Rightarrow> Some (False, cn')
      | (None, cn') \<Rightarrow>
          map_option (\<lambda>(err, cn''). (err = None, cn'')) (write_frame pool conn_write cn' (qf_frame item)))"

section \<open>All goroutines\<close>

text \<open>
  The carrier with everyone who uses it. \<open>cs_begun\<close> are the senders between \<open>beginEnqueue\<close> and
  the channel send, \<open>cs_acking\<close> counts those of \<open>enqueueAck\<close>; together they are \<open>enqueueWG\<close>.
  \<open>cs_results\<close> lists what each blocked sender was told, \<open>cs_sent\<close> what entered the queue and
  \<open>cs_written\<close> what was written completely; \<open>cs_issued\<close> are the senders that began.
\<close>

record carrier_sys =
  cs_carrier :: carrier
  cs_pc :: writer_pc
  cs_conn :: conn
  cs_begun :: "nat list"
  cs_acking :: nat
  cs_failed :: bool
  cs_issued :: "nat list"
  cs_sent :: "queued_frame list"
  cs_written :: "(queued_frame \<times> bool) list"
  cs_results :: "(nat \<times> bool) list"

definition carrier_start :: "conn \<Rightarrow> carrier \<Rightarrow> carrier_sys" where
  "carrier_start cn c =
     \<lparr>cs_carrier = c, cs_pc = AtTop True, cs_conn = cn, cs_begun = [], cs_acking = 0,
      cs_failed = False, cs_issued = [], cs_sent = [], cs_written = [], cs_results = []\<rparr>"

text \<open>\<open>stop\<close> up to the wait: the flags and \<^verbatim>\<open>close(done)\<close> in one critical section, once.\<close>

definition stop_carrier :: "bool \<Rightarrow> carrier \<Rightarrow> carrier" where
  "stop_carrier preserve c =
     (if cr_closing c then c else c\<lparr>cr_closing := True, cr_preserve_read := preserve\<rparr>)"

inductive carrier_step :: "(nat \<Rightarrow> byte list) \<Rightarrow> int \<Rightarrow> carrier_sys \<Rightarrow> carrier_sys \<Rightarrow> bool"
  for pool :: "nat \<Rightarrow> byte list" and write_timeout :: int where
  cs_begin: "begin_enqueue (cs_carrier s) \<Longrightarrow> k \<notin> set (cs_issued s) \<Longrightarrow>
     carrier_step pool write_timeout s
       (s\<lparr>cs_begun := k # cs_begun s, cs_issued := k # cs_issued s\<rparr>)"
| cs_send: "k \<in> set (cs_begun s) \<Longrightarrow> item = \<lparr>qf_frame = f, qf_completion = Some k\<rparr> \<Longrightarrow>
     frame_typed f \<Longrightarrow> length (cr_queue (cs_carrier s)) < cr_queue_cap (cs_carrier s) \<Longrightarrow>
     carrier_step pool write_timeout s
       (s\<lparr>cs_begun := remove1 k (cs_begun s), cs_sent := cs_sent s @ [item],
          cs_carrier := (cs_carrier s)\<lparr>cr_queue := cr_queue (cs_carrier s) @ [item]\<rparr>\<rparr>)"
| cs_give_up: "k \<in> set (cs_begun s) \<Longrightarrow> cr_closing (cs_carrier s) \<Longrightarrow>
     carrier_step pool write_timeout s
       (s\<lparr>cs_begun := remove1 k (cs_begun s), cs_results := cs_results s @ [(k, False)]\<rparr>)"
| cs_ack_begin: "begin_enqueue (cs_carrier s) \<Longrightarrow>
     carrier_step pool write_timeout s (s\<lparr>cs_acking := cs_acking s + 1\<rparr>)"
| cs_ack_put: "cs_acking s > 0 \<Longrightarrow> frame_typed f \<Longrightarrow>
     carrier_step pool write_timeout s
       (s\<lparr>cs_acking := cs_acking s - 1, cs_carrier := put_ack f (cs_carrier s)\<rparr>)"
| cs_ack_give_up: "cs_acking s > 0 \<Longrightarrow> cr_closing (cs_carrier s) \<Longrightarrow>
     carrier_step pool write_timeout s (s\<lparr>cs_acking := cs_acking s - 1\<rparr>)"
| cs_next: "next_frame_step (cs_carrier s, cs_pc s) (c', pc') \<Longrightarrow>
     carrier_step pool write_timeout s (s\<lparr>cs_carrier := c', cs_pc := pc'\<rparr>)"
| cs_write: "cs_pc s = Writing item is_ack \<Longrightarrow>
     write_one pool write_timeout (cs_conn s) item = Some (True, cn') \<Longrightarrow>
     carrier_step pool write_timeout s
       (s\<lparr>cs_conn := cn', cs_written := cs_written s @ [(item, is_ack)],
          cs_results := cs_results s @ completion item True, cs_pc := AtTop (\<not> is_ack)\<rparr>)"
| cs_write_fails: "cs_pc s = Writing item is_ack \<Longrightarrow>
     write_one pool write_timeout (cs_conn s) item = Some (False, cn') \<Longrightarrow>
     carrier_step pool write_timeout s
       (s\<lparr>cs_conn := cn', cs_failed := True, cs_results := cs_results s @ completion item False,
          cs_pc := Returned, cs_carrier := stop_carrier True (cs_carrier s)\<rparr>)"
| cs_stop: "carrier_step pool write_timeout s (s\<lparr>cs_carrier := stop_carrier preserve (cs_carrier s)\<rparr>)"
| cs_drain: "cr_closing (cs_carrier s) \<Longrightarrow> cs_begun s = [] \<Longrightarrow> cs_acking s = 0 \<Longrightarrow>
     fail_pending (cs_carrier s) = (results, c') \<Longrightarrow>
     carrier_step pool write_timeout s
       (s\<lparr>cs_failed := True, cs_results := cs_results s @ results, cs_carrier := c'\<rparr>)"

section \<open>Invariants\<close>

definition waiter :: "queued_frame \<Rightarrow> nat list" where
  "waiter item = map fst (completion item True)"

lemma map_fst_completion [simp]: "map fst (completion item b) = waiter item"
  by (simp add: waiter_def completion_def split: option.splits)

lemma waiter_simps [simp]:
  "waiter \<lparr>qf_frame = f, qf_completion = Some k\<rparr> = [k]"
  "waiter \<lparr>qf_frame = f, qf_completion = None\<rparr> = []"
  by (simp_all add: waiter_def completion_def)

fun writing :: "writer_pc \<Rightarrow> (queued_frame \<times> bool) list" where
  "writing (Writing item is_ack) = [(item, is_ack)]"
| "writing _ = []"

text \<open>The frames of the queue, as opposed to acknowledgements.\<close>

definition queued_only :: "(queued_frame \<times> bool) list \<Rightarrow> queued_frame list" where
  "queued_only xs = map fst (filter (\<lambda>x. \<not> snd x) xs)"

lemma queued_only_simps [simp]:
  "queued_only [] = []" "queued_only (xs @ ys) = queued_only xs @ queued_only ys"
  "queued_only (x # ys) = (if snd x then [] else [fst x]) @ queued_only ys"
  by (simp_all add: queued_only_def)

text \<open>Every sender that began is in exactly one place: before the queue, in it, being written, or answered.\<close>

definition senders_inv :: "carrier_sys \<Rightarrow> bool" where
  "senders_inv s \<longleftrightarrow> distinct (cs_issued s) \<and>
     mset (cs_issued s) =
       mset (cs_begun s) + mset (concat (map waiter (cr_queue (cs_carrier s)))) +
       mset (concat (map (waiter \<circ> fst) (writing (cs_pc s)))) + mset (map fst (cs_results s))"

text \<open>The queue is bounded and first in, first out.\<close>

definition fifo_inv :: "carrier_sys \<Rightarrow> bool" where
  "fifo_inv s \<longleftrightarrow> length (cr_queue (cs_carrier s)) \<le> cr_queue_cap (cs_carrier s) \<and>
     (if cs_failed s
      then (\<exists>rest. cs_sent s = queued_only (cs_written s) @ queued_only (writing (cs_pc s)) @ rest) \<and>
        (cs_pc s = Returned \<or>
         cr_queue (cs_carrier s) = [] \<and> cs_begun s = [] \<and> cr_closing (cs_carrier s))
      else cs_sent s = queued_only (cs_written s) @ queued_only (writing (cs_pc s)) @ cr_queue (cs_carrier s))"

text \<open>A pending acknowledgement has its token, or the write loop holds it.\<close>

definition wakeup_inv :: "carrier_sys \<Rightarrow> bool" where
  "wakeup_inv s \<longleftrightarrow> cr_pending_ack (cs_carrier s) = None \<or> cr_ack_ready (cs_carrier s) \<or>
     (\<exists>p. cs_pc s = GotToken p)"

text \<open>A sender is told success exactly when its frame was written.\<close>

definition told_inv :: "carrier_sys \<Rightarrow> bool" where
  "told_inv s \<longleftrightarrow> map fst (filter snd (cs_results s)) = concat (map (waiter \<circ> fst) (cs_written s))"

lemma filter_completion [simp]:
  "filter snd (completion item True) = completion item True" "filter snd (completion item False) = []"
  by (simp_all add: completion_def split: option.splits)

lemma filter_fail_pending: "filter snd (fst (fail_pending c)) = []"
  by (auto simp: fail_pending_def filter_concat o_def intro: concat_eq_Nil_conv [THEN iffD2])

lemma map_fst_fail_pending: "map fst (fst (fail_pending c)) = concat (map waiter (cr_queue c))"
  by (simp add: fail_pending_def map_concat o_def)

lemma stop_carrier_simps [simp]:
  "cr_queue (stop_carrier p c) = cr_queue c" "cr_queue_cap (stop_carrier p c) = cr_queue_cap c"
  "cr_pending_ack (stop_carrier p c) = cr_pending_ack c" "cr_ack_ready (stop_carrier p c) = cr_ack_ready c"
  "cr_closing (stop_carrier p c)"
  by (simp_all add: stop_carrier_def)

lemma put_ack_simps [simp]:
  "cr_queue (put_ack f c) = cr_queue c" "cr_queue_cap (put_ack f c) = cr_queue_cap c"
  "cr_ack_ready (put_ack f c)" "cr_closing (put_ack f c) = cr_closing c"
  by (simp_all add: put_ack_def)

text \<open>What a step of \<open>nextQueuedFrame\<close> leaves alone.\<close>

lemma next_frame_places:
  assumes "next_frame_step (c, pc) (c', pc')"
  shows "queued_only (writing pc') @ cr_queue c' = queued_only (writing pc) @ cr_queue c \<and>
    mset (concat (map waiter (cr_queue c'))) + mset (concat (map (waiter \<circ> fst) (writing pc'))) =
      mset (concat (map waiter (cr_queue c))) + mset (concat (map (waiter \<circ> fst) (writing pc))) \<and>
    length (cr_queue c') \<le> length (cr_queue c) \<and> cr_queue_cap c' = cr_queue_cap c \<and>
    cr_closing c' = cr_closing c"
  using assms
  by (cases rule: next_frame_step.cases)
     (auto simp: take_pending_ack_def split: option.splits)

lemma next_frame_wakeup:
  assumes "next_frame_step (c, pc) (c', pc')"
    and "cr_pending_ack c = None \<or> cr_ack_ready c \<or> (\<exists>p. pc = GotToken p)"
  shows "cr_pending_ack c' = None \<or> cr_ack_ready c' \<or> (\<exists>p. pc' = GotToken p)"
  using assms
  by (cases rule: next_frame_step.cases)
     (auto simp: take_pending_ack_def split: option.splits)

lemma senders_step:
  assumes "carrier_step pool T s s'" and "senders_inv s"
  shows "senders_inv s'"
  using assms
proof (cases rule: carrier_step.cases)
  case (cs_next c' pc')
  from next_frame_places [OF cs_next(2)] assms(2) cs_next(1) show ?thesis
    by (simp add: senders_inv_def ac_simps)
next
  case (cs_drain results c')
  have "cr_queue c' = []" using cs_drain by (auto simp: fail_pending_def)
  with cs_drain map_fst_fail_pending [of "cs_carrier s"] assms(2) show ?thesis
    by (simp add: senders_inv_def ac_simps)
qed (auto simp: senders_inv_def)

lemma fifo_step:
  assumes "carrier_step pool T s s'" and "fifo_inv s"
  shows "fifo_inv s'"
  using assms
proof (cases rule: carrier_step.cases)
  case (cs_next c' pc')
  have "\<not> next_frame_step (cs_carrier s, Returned) (c', pc')" by (auto elim: next_frame_step.cases)
  with next_frame_places [OF cs_next(2)] assms(2) cs_next show ?thesis
    by (auto simp: fifo_inv_def split: if_splits)
next
  case (cs_drain results c')
  with assms(2) show ?thesis by (auto simp: fifo_inv_def fail_pending_def split: if_splits)
qed (auto simp: fifo_inv_def begin_enqueue_def split: if_splits)

lemma wakeup_step:
  assumes "carrier_step pool T s s'" and "wakeup_inv s"
  shows "wakeup_inv s'"
  using assms
proof (cases rule: carrier_step.cases)
  case (cs_next c' pc')
  from next_frame_wakeup [OF cs_next(2)] assms(2) cs_next(1) show ?thesis
    by (simp add: wakeup_inv_def)
qed (auto simp: wakeup_inv_def fail_pending_def)

lemma told_step:
  assumes "carrier_step pool T s s'" and "told_inv s"
  shows "told_inv s'"
  using assms
proof (cases rule: carrier_step.cases)
  case (cs_drain results c')
  with filter_fail_pending [of "cs_carrier s"] assms(2) show ?thesis by (simp add: told_inv_def)
qed (auto simp: told_inv_def)

section \<open>What reaches the connection\<close>

lemma write_one_spec:
  assumes "pool_ok pool" and "frame_typed (qf_frame item)"
  shows "\<exists>ok cn' k. write_one pool T cn item = Some (ok, cn') \<and>
    c_out cn' = c_out cn @ take k (marshal_frame (qf_frame item)) \<and>
    (ok \<longrightarrow> k = length (marshal_frame (qf_frame item)) \<and> validate_frame (qf_frame item) = None) \<and>
    (validate_frame (qf_frame item) \<noteq> None \<longrightarrow> k = 0)"
proof -
  let ?f = "qf_frame item"
  obtain e cn1 where d: "(if T > 0 then conn_set_write_deadline cn else (None, cn)) = (e, cn1)"
    by (cases "if T > 0 then conn_set_write_deadline cn else (None, cn)")
  then have out1: "c_out cn1 = c_out cn" by (auto split: if_splits)
  show ?thesis
  proof (cases e)
    case (Some x)
    with d out1 show ?thesis
      by (intro exI [of _ False] exI [of _ cn1] exI [of _ 0]) (simp add: write_one_def)
  next
    case None
    show ?thesis
    proof (cases "validate_frame ?f")
      case (Some x)
      with d None out1 show ?thesis
        by (intro exI [of _ False] exI [of _ cn1] exI [of _ 0])
          (simp add: write_one_def write_frame_spec [OF assms(2,1)])
    next
      case v: None
      obtain err cn2 where w: "write_full conn_write cn1 (marshal_frame ?f) = (err, cn2)"
        by (cases "write_full conn_write cn1 (marshal_frame ?f)")
      from net.write_full_prefix [OF w] obtain k where
        k: "c_out cn2 = c_out cn1 @ take k (marshal_frame ?f)" "err = None \<longrightarrow> k = length (marshal_frame ?f)" by blast
      with d None out1 v w show ?thesis
        by (intro exI [of _ "err = None"] exI [of _ cn2] exI [of _ k])
          (simp add: write_one_def write_frame_spec [OF assms(2,1)])
    qed
  qed
qed

definition typed_inv :: "carrier_sys \<Rightarrow> bool" where
  "typed_inv s \<longleftrightarrow> (\<forall>i \<in> set (cr_queue (cs_carrier s)). frame_typed (qf_frame i)) \<and>
     (\<forall>f. cr_pending_ack (cs_carrier s) = Some f \<longrightarrow> frame_typed f) \<and>
     (\<forall>(i, a) \<in> set (writing (cs_pc s)). frame_typed (qf_frame i))"

lemma typed_step:
  assumes "carrier_step pool T s s'" and "typed_inv s"
  shows "typed_inv s'"
  using assms
proof (cases rule: carrier_step.cases)
  case (cs_next c' pc')
  from cs_next(2) have "(\<forall>i \<in> set (cr_queue c'). frame_typed (qf_frame i)) \<and>
     (\<forall>f. cr_pending_ack c' = Some f \<longrightarrow> frame_typed f) \<and> (\<forall>(i, a) \<in> set (writing pc'). frame_typed (qf_frame i))"
    using assms(2)
    by (cases rule: next_frame_step.cases)
      (auto simp: typed_inv_def take_pending_ack_def split: option.splits)
  with cs_next(1) show ?thesis by (simp add: typed_inv_def)
next
  case (cs_ack_put f)
  with assms(2) acks.merge_selects show ?thesis
    by (auto simp: typed_inv_def put_ack_def split: option.splits) metis
qed (auto simp: typed_inv_def fail_pending_def)

definition written_frames :: "carrier_sys \<Rightarrow> frame list" where
  "written_frames s = map (qf_frame \<circ> fst) (cs_written s)"

definition output_inv :: "byte list \<Rightarrow> carrier_sys \<Rightarrow> bool" where
  "output_inv base s \<longleftrightarrow>
     list_all (\<lambda>f. frame_typed f \<and> validate_frame f = None) (written_frames s) \<and>
     (\<exists>part. c_out (cs_conn s) = base @ concat (map marshal_frame (written_frames s)) @ part \<and>
        (part \<noteq> [] \<longrightarrow> cs_pc s = Returned \<and>
           (\<exists>f k. frame_typed f \<and> validate_frame f = None \<and> part = take k (marshal_frame f))))"

lemma output_step:
  assumes "carrier_step pool T s s'" and "pool_ok pool" and "typed_inv s" and "output_inv base s"
  shows "output_inv base s'"
  using assms(1)
proof (cases rule: carrier_step.cases)
  case (cs_next c' pc')
  then have "cs_pc s \<noteq> Returned" by (auto elim: next_frame_step.cases)
  with cs_next(1) assms(4) show ?thesis by (auto simp: output_inv_def written_frames_def)
next
  case (cs_write item is_ack cn')
  then have t: "frame_typed (qf_frame item)" using assms(3) by (simp add: typed_inv_def)
  from write_one_spec [OF assms(2) t, of T "cs_conn s"] cs_write(3) have
    "c_out cn' = c_out (cs_conn s) @ marshal_frame (qf_frame item)" "validate_frame (qf_frame item) = None"
    by auto
  with t cs_write(1,2) assms(4) show ?thesis by (auto simp: output_inv_def written_frames_def)
next
  case (cs_write_fails item is_ack cn')
  then have t: "frame_typed (qf_frame item)" using assms(3) by (simp add: typed_inv_def)
  from write_one_spec [OF assms(2) t, of T "cs_conn s"] cs_write_fails(3) obtain k where
    k: "c_out cn' = c_out (cs_conn s) @ take k (marshal_frame (qf_frame item))"
      "validate_frame (qf_frame item) \<noteq> None \<longrightarrow> k = 0" by auto
  have "c_out (cs_conn s) = base @ concat (map marshal_frame (written_frames s))"
    using assms(4) cs_write_fails(2) by (auto simp: output_inv_def)
  with k t cs_write_fails(1) assms(4) show ?thesis
    by (auto simp: output_inv_def written_frames_def)
qed (use assms(4) in \<open>auto simp: output_inv_def written_frames_def\<close>)

section \<open>Reachable states\<close>

definition carrier_reachable :: "(nat \<Rightarrow> byte list) \<Rightarrow> int \<Rightarrow> conn \<Rightarrow> carrier \<Rightarrow> carrier_sys \<Rightarrow> bool" where
  "carrier_reachable pool T cn c s \<longleftrightarrow> (carrier_step pool T)\<^sup>*\<^sup>* (carrier_start cn c) s"

lemma carrier_invariant:
  assumes "carrier_reachable pool T cn c s" and "I (carrier_start cn c)"
    and "\<And>s s'. carrier_step pool T s s' \<Longrightarrow> I s \<Longrightarrow> I s'"
  shows "I s"
  using assms(1) unfolding carrier_reachable_def
  by (induction rule: rtranclp_induct) (use assms(2,3) in auto)

lemma new_carrier_start:
  assumes "new_carrier queue_bytes chunk_size = Some c"
  shows "senders_inv (carrier_start cn c)" "fifo_inv (carrier_start cn c)" "wakeup_inv (carrier_start cn c)"
    "told_inv (carrier_start cn c)" "typed_inv (carrier_start cn c)" "output_inv (c_out cn) (carrier_start cn c)"
  using assms
  by (auto simp: new_carrier_def carrier_start_def senders_inv_def fifo_inv_def wakeup_inv_def told_inv_def
      typed_inv_def output_inv_def written_frames_def)

lemma carrier_reachable_invs:
  assumes "new_carrier queue_bytes chunk_size = Some c" and "carrier_reachable pool T cn c s"
  shows "senders_inv s" "fifo_inv s" "wakeup_inv s" "told_inv s" "typed_inv s"
proof -
  note start = new_carrier_start [OF assms(1), of cn]
  show "senders_inv s"
    using carrier_invariant [where I = senders_inv, OF assms(2) start(1)] senders_step by blast
  show "fifo_inv s"
    using carrier_invariant [where I = fifo_inv, OF assms(2) start(2)] fifo_step by blast
  show "wakeup_inv s"
    using carrier_invariant [where I = wakeup_inv, OF assms(2) start(3)] wakeup_step by blast
  show "told_inv s"
    using carrier_invariant [where I = told_inv, OF assms(2) start(4)] told_step by blast
  show "typed_inv s"
    using carrier_invariant [where I = typed_inv, OF assms(2) start(5)] typed_step by blast
qed

lemma carrier_reachable_output:
  assumes "new_carrier queue_bytes chunk_size = Some c" and "carrier_reachable pool T cn c s" and "pool_ok pool"
  shows "output_inv (c_out cn) s"
proof -
  have "typed_inv s \<and> output_inv (c_out cn) s"
    by (rule carrier_invariant [where I = "\<lambda>s. typed_inv s \<and> output_inv (c_out cn) s", OF assms(2)])
      (use new_carrier_start [OF assms(1), of cn] typed_step output_step assms(3) in blast)+
  then show ?thesis ..
qed

section \<open>Sample runs\<close>

definition sample_carrier :: carrier where
  "sample_carrier = \<lparr>cr_closing = False, cr_preserve_read = False, cr_pending_ack = None,
     cr_ack_ready = False, cr_queue = [], cr_queue_cap = 1\<rparr>"

lemma sample_new_carrier: "new_carrier 100 68 = Some sample_carrier"
  by (simp add: new_carrier_def queue_frames_def sample_carrier_def HeaderSize_def signed_divide_int_def)

text \<open>One sender begins, the carrier is stopped, the sender gives up and the write loop returns.\<close>

definition sample_stopped :: carrier_sys where
  "sample_stopped = (carrier_start sample_conn sample_carrier)
     \<lparr>cs_carrier := stop_carrier True sample_carrier, cs_pc := Returned,
      cs_issued := [7], cs_results := [(7, False)]\<rparr>"

lemma sample_stopped_reachable: "carrier_reachable pool T sample_conn sample_carrier sample_stopped"
proof -
  let ?s0 = "carrier_start sample_conn sample_carrier"
  let ?s1 = "?s0\<lparr>cs_begun := [7], cs_issued := [7]\<rparr>"
  let ?s2 = "?s1\<lparr>cs_carrier := stop_carrier True sample_carrier\<rparr>"
  let ?s3 = "?s2\<lparr>cs_begun := [], cs_results := [(7, False)]\<rparr>"
  have "carrier_step pool T ?s0 ?s1"
    using cs_begin [of ?s0 7 pool T] by (simp add: carrier_start_def begin_enqueue_def sample_carrier_def)
  moreover have "carrier_step pool T ?s1 ?s2"
    using cs_stop [of pool T ?s1 True] by (simp add: carrier_start_def)
  moreover have "carrier_step pool T ?s2 ?s3"
    using cs_give_up [of 7 ?s2 pool T] by (simp add: carrier_start_def)
  moreover have "carrier_step pool T ?s3 sample_stopped"
    using cs_next [of ?s3 "cs_carrier ?s3" Returned pool T]
      nf_done [of "stop_carrier True sample_carrier" True]
    by (simp add: carrier_start_def sample_stopped_def)
  ultimately show ?thesis
    unfolding carrier_reachable_def by (meson converse_rtranclp_into_rtranclp rtranclp.rtrancl_refl)
qed

section \<open>Properties\<close>

text \<open>
  C13. No sender is lost and none is answered twice, in every interleaving of senders,
  acknowledgers, the write loop and any number of calls of \<open>stop\<close>: the answers go to distinct
  senders, success is reported exactly for the frames that were written completely, and once the
  carrier is closing, the write loop has returned and the queue was failed, every sender that ever
  began has its one answer.
\<close>

theorem carrier_answers_every_sender:
  assumes "new_carrier queue_bytes chunk_size = Some c" and "carrier_reachable pool T cn c s"
  shows "distinct (map fst (cs_results s)) \<and> set (map fst (cs_results s)) \<subseteq> set (cs_issued s) \<and>
    map fst (filter snd (cs_results s)) = concat (map (waiter \<circ> fst) (cs_written s)) \<and>
    (cr_closing (cs_carrier s) \<and> cs_pc s = Returned \<and> cs_begun s = [] \<and> cr_queue (cs_carrier s) = [] \<longrightarrow>
       set (map fst (cs_results s)) = set (cs_issued s))"
proof -
  note inv = carrier_reachable_invs [OF assms]
  from inv(1) have d: "distinct (cs_issued s)" and m: "mset (cs_issued s) =
       mset (cs_begun s) + mset (concat (map waiter (cr_queue (cs_carrier s)))) +
       mset (concat (map (waiter \<circ> fst) (writing (cs_pc s)))) + mset (map fst (cs_results s))"
    by (simp_all add: senders_inv_def)
  from m have sub: "mset (map fst (cs_results s)) \<subseteq># mset (cs_issued s)" by simp
  then obtain zs where "mset (cs_issued s) = mset (map fst (cs_results s) @ zs)"
    by (metis mset_subset_eq_exists_conv ex_mset mset_append)
  then have "distinct (map fst (cs_results s))"
    using d mset_eq_imp_distinct_iff distinct_append by metis
  moreover have "set (map fst (cs_results s)) \<subseteq> set (cs_issued s)"
    using set_mset_mono [OF sub] by (simp only: set_mset_mset)
  moreover have "set (map fst (cs_results s)) = set (cs_issued s)"
    if "cs_pc s = Returned" "cs_begun s = []" "cr_queue (cs_carrier s) = []"
    using arg_cong [OF m, of set_mset] that by simp
  ultimately show ?thesis using inv(4) by (simp add: told_inv_def)
qed

lemma carrier_answers_every_sender_witness:
  "set (map fst (cs_results sample_stopped)) = set (cs_issued sample_stopped)"
  using carrier_answers_every_sender [OF sample_new_carrier, of "\<lambda>n. replicate n 0" 0 sample_conn sample_stopped]
    sample_stopped_reachable
  by (simp add: sample_stopped_def carrier_start_def sample_carrier_def)

text \<open>
  The queue is first in, first out and bounded: as long as nothing failed, what entered it is
  what was written, what is being written and what still waits, in this order; after a failure the
  frames that were written are still a beginning of what entered.
\<close>

theorem carrier_fifo:
  assumes "new_carrier queue_bytes chunk_size = Some c" and "carrier_reachable pool T cn c s"
  shows "length (cr_queue (cs_carrier s)) \<le> cr_queue_cap (cs_carrier s) \<and>
    (\<not> cs_failed s \<longrightarrow> cs_sent s =
       queued_only (cs_written s) @ queued_only (writing (cs_pc s)) @ cr_queue (cs_carrier s)) \<and>
    (\<exists>rest. cs_sent s = queued_only (cs_written s) @ rest)"
  using carrier_reachable_invs(2) [OF assms] by (auto simp: fifo_inv_def split: if_splits)

lemma carrier_fifo_witness: "queued_only (cs_written sample_stopped) = []"
  using carrier_fifo [OF sample_new_carrier, of "\<lambda>n. replicate n 0" 0 sample_conn sample_stopped]
    sample_stopped_reachable
  by (simp add: sample_stopped_def carrier_start_def)

text \<open>
  Whatever the connection does to the writes, the peer's reader gets exactly the frames that
  were written completely, in order, and then, if the carrier failed inside a frame, an error: it
  never sees a frame that was not written, and never part of one as a frame.
\<close>

theorem carrier_peer_reads_written_frames:
  assumes "new_carrier queue_bytes chunk_size = Some c" and "carrier_reachable pool T cn c s"
    and "pool_ok pool" and "c_out cn = []"
    and "\<forall>f \<in> set (written_frames s). length (f_payload f) \<le> unat (clamp_payload m)"
  shows "\<exists>part. frames.parse_many m (length (written_frames s)) \<lparr>rd_bytes = c_out (cs_conn s), rd_err = EOF\<rparr> =
      Inr (written_frames s, \<lparr>rd_bytes = part, rd_err = EOF\<rparr>) \<and>
    (part \<noteq> [] \<longrightarrow> cs_pc s = Returned \<and> (\<exists>f k. validate_frame f = None \<and> part = take k (marshal_frame f)))"
proof -
  from carrier_reachable_output [OF assms(1-3)] obtain part where
    ok: "list_all (\<lambda>f. frame_typed f \<and> validate_frame f = None) (written_frames s)"
    and out: "c_out (cs_conn s) = concat (map marshal_frame (written_frames s)) @ part"
    and part: "part \<noteq> [] \<longrightarrow> cs_pc s = Returned \<and>
           (\<exists>f k. frame_typed f \<and> validate_frame f = None \<and> part = take k (marshal_frame f))"
    using assms(4) by (auto simp: output_inv_def)
  have "list_all (frame_ok m) (written_frames s)"
    using ok assms(5) by (auto simp: list_all_iff frame_ok_def)
  from frames.parse_many_marshal [OF this, of part EOF] out part show ?thesis by auto
qed

text \<open>One sender's frame goes through the queue and is written.\<close>

definition sample_item :: queued_frame where
  "sample_item = \<lparr>qf_frame = sample_frame, qf_completion = Some 1\<rparr>"

lemma sample_written_reachable:
  "\<exists>s. carrier_reachable sample_pool 0 (sample_conn\<lparr>c_out := []\<rparr>) sample_carrier s \<and>
    written_frames s = [sample_frame]"
proof -
  let ?cn = "sample_conn\<lparr>c_out := []\<rparr>"
  let ?s0 = "carrier_start ?cn sample_carrier"
  let ?s1 = "?s0\<lparr>cs_begun := [1], cs_issued := [1]\<rparr>"
  let ?s2 = "?s1\<lparr>cs_begun := [], cs_sent := [sample_item], cs_carrier := sample_carrier\<lparr>cr_queue := [sample_item]\<rparr>\<rparr>"
  let ?s3 = "?s2\<lparr>cs_pc := AtSelect True\<rparr>"
  let ?s4 = "?s3\<lparr>cs_carrier := sample_carrier, cs_pc := Writing sample_item False\<rparr>"
  let ?R = "carrier_step sample_pool 0"
  have "?R ?s0 ?s1"
    using cs_begin [of ?s0 1 sample_pool 0] by (simp add: carrier_start_def begin_enqueue_def sample_carrier_def)
  moreover have "?R ?s1 ?s2"
    using cs_send [of 1 ?s1 sample_item sample_frame sample_pool 0] sample_frame_ok(1)
    by (simp add: carrier_start_def sample_item_def sample_carrier_def)
  moreover have "?R ?s2 ?s3"
    using cs_next [of ?s2 "cs_carrier ?s2" "AtSelect True" sample_pool 0]
      nf_default [of True "sample_carrier\<lparr>cr_queue := [sample_item]\<rparr>"]
    by (simp add: carrier_start_def sample_carrier_def)
  moreover have "?R ?s3 ?s4"
    using cs_next [of ?s3 sample_carrier "Writing sample_item False" sample_pool 0]
      nf_select_queue [of "sample_carrier\<lparr>cr_queue := [sample_item]\<rparr>" sample_item "[]" True]
    by (simp add: carrier_start_def sample_carrier_def)
  ultimately have r: "carrier_reachable sample_pool 0 ?cn sample_carrier ?s4"
    unfolding carrier_reachable_def by (meson converse_rtranclp_into_rtranclp rtranclp.rtrancl_refl)
  obtain cn' where "write_full conn_write ?cn (marshal_frame sample_frame) = (None, cn')"
    by (simp add: write_full.simps conn_write_def sample_conn_def marshal_frame_def header_bytes_def)
  then have w: "write_one sample_pool 0 ?cn sample_item = Some (True, cn')"
    using write_frame_spec [OF sample_frame_ok(1,3), of conn_write ?cn] sample_frame_ok(2)
    by (simp add: write_one_def sample_item_def)
  let ?s5 = "?s4\<lparr>cs_conn := cn', cs_written := [(sample_item, False)], cs_results := [(1, True)], cs_pc := AtTop True\<rparr>"
  have "?R ?s4 ?s5"
    using cs_write [of ?s4 sample_item False sample_pool 0 cn'] w
    by (simp add: carrier_start_def completion_def sample_item_def)
  with r have "carrier_reachable sample_pool 0 ?cn sample_carrier ?s5"
    unfolding carrier_reachable_def by (rule rtranclp.rtrancl_into_rtrancl)
  moreover have "written_frames ?s5 = [sample_frame]"
    by (simp add: written_frames_def sample_item_def)
  ultimately show ?thesis by blast
qed

lemma carrier_peer_reads_written_frames_witness:
  "\<exists>bytes part. frames.parse_many 0 1 \<lparr>rd_bytes = bytes, rd_err = EOF\<rparr> =
     Inr ([sample_frame], \<lparr>rd_bytes = part, rd_err = EOF\<rparr>)"
proof -
  obtain s where s: "carrier_reachable sample_pool 0 (sample_conn\<lparr>c_out := []\<rparr>) sample_carrier s"
    "written_frames s = [sample_frame]" using sample_written_reachable by blast
  have "length (f_payload sample_frame) \<le> unat (clamp_payload 0)"
    by (simp add: sample_frame_def clamp_payload_def MaxPayloadSize_def)
  with carrier_peer_reads_written_frames [OF sample_new_carrier s(1) sample_frame_ok(3), of 0] s(2)
  show ?thesis by auto
qed

text \<open>
  No acknowledgement is forgotten and neither kind of frame starves the other: a pending
  acknowledgement always has a token in the channel or is already held by the write loop; with a
  token waiting, the frame after a data frame is that acknowledgement, and with a frame queued, the
  frame after an acknowledgement is the head of the queue, unless the loop returns.
\<close>

theorem carrier_write_loop_fair:
  assumes "new_carrier queue_bytes chunk_size = Some c" and "carrier_reachable pool T cn c s"
  shows "(cr_pending_ack (cs_carrier s) = None \<or> cr_ack_ready (cs_carrier s) \<or> (\<exists>p. cs_pc s = GotToken p)) \<and>
    (\<forall>item cn' s1 c' pc'. cs_pc s = Writing item False \<longrightarrow>
       s1 = s\<lparr>cs_pc := AtTop (\<not> False)\<rparr> \<longrightarrow> cr_ack_ready (cs_carrier s) \<longrightarrow>
       next_frame_step (cs_carrier s1, cs_pc s1) (c', pc') \<longrightarrow> pc' = GotToken True \<or> pc' = Returned) \<and>
    (\<forall>item s1 c' pc' q qs. cs_pc s = Writing item True \<longrightarrow>
       s1 = s\<lparr>cs_pc := AtTop (\<not> True)\<rparr> \<longrightarrow> cr_queue (cs_carrier s) = q # qs \<longrightarrow>
       next_frame_step (cs_carrier s1, cs_pc s1) (c', pc') \<longrightarrow> pc' = Writing q False \<or> pc' = Returned)"
  using carrier_reachable_invs(3) [OF assms]
  by (auto simp: wakeup_inv_def elim: at_top_cases)

lemma carrier_write_loop_fair_witness: "cr_pending_ack (cs_carrier sample_stopped) = None"
  using carrier_write_loop_fair [OF sample_new_carrier sample_stopped_reachable]
  by (simp add: sample_stopped_def carrier_start_def sample_carrier_def stop_carrier_def)

text \<open>
  Coalescing is monotone: whatever acknowledgements were merged into the slot and in whatever
  order, the one in it is one of them and none of them acknowledges more; a FIN at the same offset
  is never dropped for an acknowledgement without it.
\<close>

theorem coalesced_ack_is_latest:
  shows "foldl later_ack a fs \<in> insert a (set fs) \<and>
    ack_rank (foldl later_ack a fs) = Max (ack_rank ` insert a (set fs)) \<and>
    cr_pending_ack (foldl (\<lambda>c f. snd (enqueue_ack f c)) (c\<lparr>cr_closing := False, cr_pending_ack := Some a\<rparr>) fs) =
      Some (foldl later_ack a fs)"
proof (intro conjI)
  show "foldl later_ack a fs \<in> insert a (set fs)" by (rule acks.fold_merge_mem)
  show "ack_rank (foldl later_ack a fs) = Max (ack_rank ` insert a (set fs))" by (rule acks.fold_merge_rank)
  show "cr_pending_ack (foldl (\<lambda>c f. snd (enqueue_ack f c)) (c\<lparr>cr_closing := False, cr_pending_ack := Some a\<rparr>) fs) =
      Some (foldl later_ack a fs)"
  proof -
    have "cr_pending_ack (foldl (\<lambda>c f. snd (enqueue_ack f c)) c fs) = Some (foldl later_ack a fs)"
      if "\<not> cr_closing c" "cr_pending_ack c = Some a" for c a
      using that
      by (induction fs arbitrary: a c) (simp_all add: enqueue_ack_def begin_enqueue_def put_ack_def)
    then show ?thesis by simp
  qed
qed

text \<open>
  The queue of a carrier always has room for at least one frame, and holds no more than the
  configured number of bytes when that is at least one frame.
\<close>

theorem queue_capacity_bounds:
  assumes "0 \<le> chunk_size"
  shows "\<exists>n. queue_frames queue_bytes chunk_size = Some n \<and> 1 \<le> n \<and>
    (chunk_size + int HeaderSize \<le> queue_bytes \<longrightarrow> int n * (chunk_size + int HeaderSize) \<le> queue_bytes)"
proof -
  let ?d = "chunk_size + int HeaderSize"
  have pos: "0 < ?d" using assms by (simp add: HeaderSize_def)
  have "int (nat (queue_bytes sdiv ?d)) * ?d \<le> queue_bytes \<and> \<not> queue_bytes sdiv ?d < 1" if "?d \<le> queue_bytes"
  proof -
    have q: "queue_bytes sdiv ?d = queue_bytes div ?d"
      using that pos by (simp add: signed_divide_int_def)
    have "1 \<le> queue_bytes div ?d" using that pos by (simp add: pos_imp_zdiv_pos_iff int_one_le_iff_zero_less)
    moreover have "queue_bytes div ?d * ?d \<le> queue_bytes" 
      using div_mult_mod_eq [of queue_bytes ?d] pos_mod_sign [OF pos, of queue_bytes] by linarith
    ultimately show ?thesis unfolding q by simp
  qed
  then show ?thesis using pos by (auto simp: queue_frames_def Let_def)
qed

lemma queue_capacity_bounds_witness: "\<exists>n. queue_frames 1000 68 = Some n \<and> int n * 100 \<le> 1000"
  using queue_capacity_bounds [of 68 1000] by (auto simp: HeaderSize_def)

end
