(* ===== verification/Flow.thy ===== *)
theory Flow
  imports Delivery Carrier "HOL-Library.AList"
begin

text \<open>
  The flow (\<^verbatim>\<open>internal/tcpstream/stream.go\<close>): one TCP connection of the application, sent redundantly
  over every attached carrier. The sender keeps each frame in a history until the peer has
  acknowledged it, so that a carrier attached later or slower than the others still sends what is
  missing; the receiver delivers in order, acknowledges what it has delivered, and both end in a
  state machine that is reset once.

  Every function below is one critical section of \<^verbatim>\<open>flow.mu\<close> (or the code between two of them); a
  carrier is named by a number, \<open>carrierStates\<close> is an association list in the order in which the
  map is iterated, and a pair of a value with a \<^verbatim>\<open>has...\<close> flag is an option. What a function does to
  other objects after it unlocked (notifications, resets) is part of its result.
\<close>

section \<open>State\<close>

type_synonym cid = nat

record flow_config =
  cfg_chunk_size :: int
  cfg_carrier_queue_bytes :: int
  cfg_reorder_window_bytes :: int
  cfg_write_timeout :: int

record replay_frame =
  rp_sequence :: u64
  rp_frame :: frame

record carrier_state =
  st_next_sequence :: u64
  st_in_flight :: "u64 option"
  st_written :: "u64 option"
  st_written_offset :: u64
  st_written_fin :: bool

record flow =
  fl_id :: "byte list"
  fl_send_direction :: byte
  fl_reassembler :: reassembler
  fl_config :: flow_config
  fl_inbound_capacity :: int
  fl_carriers :: "cid list"
  fl_started :: bool
  fl_local_fin :: bool
  fl_local_fin_ack :: bool
  fl_remote_fin :: bool
  fl_remote_fin_ack_sent :: bool
  fl_closed :: bool
  fl_pending_inbound :: int
  fl_terminal_err :: "go_error option"
  fl_terminal_notify :: bool
  fl_history :: "replay_frame list"
  fl_history_bytes :: int
  fl_next_sequence :: u64
  fl_global_ack_offset :: u64
  fl_global_ack_fin :: bool
  fl_written_offset :: u64
  fl_written_fin :: bool
  fl_written_fin_offset :: u64
  fl_latest_ack :: "frame option"
  fl_deferred_ack :: "(u64 \<times> bool) option"
  fl_carrier_states :: "(cid \<times> carrier_state) list"

type_synonym skip_notification = "cid \<times> frame"

definition inbound_queue_capacity :: "int \<Rightarrow> int" where
  "inbound_queue_capacity window =
     (let capacity = window sdiv int MaxPayloadSize;
          capacity = (if capacity < 1 then 1 else capacity)
      in if capacity > int MaxReorderSegments then int MaxReorderSegments else capacity)"

definition new_flow :: "byte list \<Rightarrow> byte \<Rightarrow> flow_config \<Rightarrow> flow" where
  "new_flow stream dir config =
     \<lparr>fl_id = stream, fl_send_direction = dir,
      fl_reassembler = new_reassembler (cfg_reorder_window_bytes config), fl_config = config,
      fl_inbound_capacity = inbound_queue_capacity (cfg_reorder_window_bytes config),
      fl_carriers = [], fl_started = False, fl_local_fin = False, fl_local_fin_ack = False,
      fl_remote_fin = False, fl_remote_fin_ack_sent = False, fl_closed = False,
      fl_pending_inbound = 0, fl_terminal_err = None, fl_terminal_notify = False,
      fl_history = [], fl_history_bytes = 0, fl_next_sequence = 0, fl_global_ack_offset = 0,
      fl_global_ack_fin = False, fl_written_offset = 0, fl_written_fin = False,
      fl_written_fin_offset = 0, fl_latest_ack = None, fl_deferred_ack = None,
      fl_carrier_states = []\<rparr>"

section \<open>Acknowledgements of what was sent\<close>

definition global_acknowledged :: "flow \<Rightarrow> frame \<Rightarrow> bool" where
  "global_acknowledged fl f =
     (if f_type f = FrameFIN then fl_global_ack_fin fl \<and> fl_global_ack_offset fl \<ge> f_offset f
      else fl_global_ack_offset fl \<ge> f_offset f + len64 (f_payload f))"

definition frame_skips :: "flow \<Rightarrow> replay_frame \<Rightarrow> skip_notification list" where
  "frame_skips fl item =
     map (\<lambda>(c, st). (c, rp_frame item))
       (filter (\<lambda>(c, st). \<not> (rp_sequence item < st_next_sequence st \<or> st_in_flight st = Some (rp_sequence item)))
         (fl_carrier_states fl))"

definition prune_history :: "flow \<Rightarrow> skip_notification list \<times> flow" where
  "prune_history fl =
     (let gone = filter (\<lambda>item. global_acknowledged fl (rp_frame item)) (fl_history fl)
      in (concat (map (frame_skips fl) gone),
          fl\<lparr>fl_history := filter (\<lambda>item. \<not> global_acknowledged fl (rp_frame item)) (fl_history fl),
             fl_history_bytes := fl_history_bytes fl -
               int (sum_list (map (\<lambda>item. length (f_payload (rp_frame item))) gone))\<rparr>))"

definition acknowledgement_regresses :: "flow \<Rightarrow> u64 \<Rightarrow> bool \<Rightarrow> bool" where
  "acknowledgement_regresses fl offset fin \<longleftrightarrow>
     offset < fl_global_ack_offset fl \<or> (fl_global_ack_fin fl \<and> \<not> fin)"

definition acknowledgement_written :: "flow \<Rightarrow> u64 \<Rightarrow> bool \<Rightarrow> bool" where
  "acknowledgement_written fl offset fin \<longleftrightarrow>
     offset \<le> fl_written_offset fl \<and> (\<not> fin \<or> (fl_written_fin fl \<and> offset = fl_written_fin_offset fl))"

definition acknowledgement_remembered :: "flow \<Rightarrow> u64 \<Rightarrow> bool \<Rightarrow> bool" where
  "acknowledgement_remembered fl offset fin \<longleftrightarrow>
     list_ex (\<lambda>item. let f = rp_frame item in
       if fin then f_type f = FrameFIN \<and> offset = f_offset f
       else offset \<le> (if f_type f = FrameData then f_offset f + len64 (f_payload f) else f_offset f))
     (fl_history fl)"

definition defer_acknowledgement :: "flow \<Rightarrow> u64 \<Rightarrow> bool \<Rightarrow> flow" where
  "defer_acknowledgement fl offset fin =
     (case fl_deferred_ack fl of
        Some (doff, dfin) \<Rightarrow>
          if doff > offset \<or> (doff = offset \<and> dfin) then fl
          else fl\<lparr>fl_deferred_ack := Some (offset, fin)\<rparr>
      | None \<Rightarrow> fl\<lparr>fl_deferred_ack := Some (offset, fin)\<rparr>)"

definition local_fin_acknowledged :: "flow \<Rightarrow> bool" where
  "local_fin_acknowledged fl \<longleftrightarrow> fl_local_fin_ack fl \<or>
     (case fl_deferred_ack fl of None \<Rightarrow> False
      | Some (doff, dfin) \<Rightarrow> dfin \<and> acknowledgement_remembered fl doff True)"

definition exchange_complete :: "flow \<Rightarrow> bool" where
  "exchange_complete fl \<longleftrightarrow> fl_local_fin fl \<and> fl_remote_fin fl \<and> local_fin_acknowledged fl"

definition complete :: "flow \<Rightarrow> bool" where
  "complete fl \<longleftrightarrow> exchange_complete fl \<and> fl_remote_fin_ack_sent fl"

definition apply_acknowledgement :: "flow \<Rightarrow> u64 \<Rightarrow> bool \<Rightarrow> skip_notification list \<times> bool \<times> flow" where
  "apply_acknowledgement fl offset fin =
     (let fl1 = fl\<lparr>fl_global_ack_offset := offset, fl_global_ack_fin := fl_global_ack_fin fl \<or> fin\<rparr>;
          fl2 = (if fin then fl1\<lparr>fl_local_fin_ack := True\<rparr> else fl1);
          fl3 = (case fl_deferred_ack fl2 of
              None \<Rightarrow> fl2
            | Some (doff, dfin) \<Rightarrow>
                if offset > doff \<or> (offset = doff \<and> (fin \<or> \<not> dfin)) then fl2\<lparr>fl_deferred_ack := None\<rparr>
                else fl2);
          (skipped, fl4) = prune_history fl3
      in (skipped, complete fl4, fl4))"

definition apply_deferred_acknowledgement :: "flow \<Rightarrow> skip_notification list \<times> bool \<times> flow" where
  "apply_deferred_acknowledgement fl =
     (case fl_deferred_ack fl of
        None \<Rightarrow> ([], False, fl)
      | Some (offset, fin) \<Rightarrow>
          if acknowledgement_regresses fl offset fin then ([], False, fl\<lparr>fl_deferred_ack := None\<rparr>)
          else if \<not> acknowledgement_written fl offset fin then ([], False, fl)
          else apply_acknowledgement (fl\<lparr>fl_deferred_ack := None\<rparr>) offset fin)"

definition acknowledge :: "flow \<Rightarrow> cid \<Rightarrow> u64 \<Rightarrow> bool \<Rightarrow> skip_notification list \<times> bool \<times> flow" where
  "acknowledge fl carrier offset fin =
     (if map_of (fl_carrier_states fl) carrier = None \<or> acknowledgement_regresses fl offset fin
      then ([], False, fl)
      else if \<not> acknowledgement_written fl offset fin then
        (if acknowledgement_remembered fl offset fin
         then ([], False, defer_acknowledgement fl offset fin) else ([], False, fl))
      else apply_acknowledgement fl offset fin)"

section \<open>Remembering and sending\<close>

text \<open>
  \<open>remember\<close> and the loops of \<open>broadcast\<close> and \<open>sendCarrier\<close> wait on \<^verbatim>\<open>flow.cond\<close>: one call of the
  function is one pass of the loop, and the result \<open>Wait\<close> is the call of \<^verbatim>\<open>cond.Wait\<close>, after which
  the pass is repeated on the state of that time.
\<close>

datatype 'a pass = Return 'a | Fail go_error | Wait

definition remember_append :: "flow \<Rightarrow> frame \<Rightarrow> u64 pass \<times> flow" where
  "remember_append fl f =
     (if fl_closed fl \<or> fl_carriers fl = [] then (Fail ErrNoCarriers, fl)
      else (Return (fl_next_sequence fl),
            fl\<lparr>fl_next_sequence := fl_next_sequence fl + 1,
               fl_history := fl_history fl @ [\<lparr>rp_sequence = fl_next_sequence fl, rp_frame = f\<rparr>],
               fl_history_bytes := fl_history_bytes fl + int (length (f_payload f))\<rparr>))"

definition remember :: "flow \<Rightarrow> frame \<Rightarrow> u64 pass \<times> skip_notification list \<times> flow" where
  "remember fl f =
     (let window = cfg_reorder_window_bytes (fl_config fl); size = int (length (f_payload f))
      in if window > 0 \<and> fl_history_bytes fl + size > window then
           (case prune_history fl of (skipped, fl1) \<Rightarrow>
              if fl_history_bytes fl1 + size \<le> window then
                (case remember_append fl1 f of (res, fl2) \<Rightarrow> (res, skipped, fl2))
              else if fl_closed fl1 \<or> fl_carriers fl1 = [] then (Fail ErrNoCarriers, skipped, fl1)
              else (Wait, skipped, fl1))
         else (case remember_append fl f of (res, fl2) \<Rightarrow> (res, [], fl2)))"

definition broadcast_pass :: "flow \<Rightarrow> frame \<Rightarrow> u64 \<Rightarrow> unit pass" where
  "broadcast_pass fl f sequence =
     (if global_acknowledged fl f then Return ()
      else if fl_closed fl \<or> fl_carriers fl = [] then Fail ErrNoCarriers
      else if list_ex (\<lambda>(c, st). case st_written st of None \<Rightarrow> False | Some w \<Rightarrow> w \<ge> sequence)
             (fl_carrier_states fl) then Return ()
      else Wait)"

definition set_state :: "flow \<Rightarrow> cid \<Rightarrow> carrier_state \<Rightarrow> flow" where
  "set_state fl carrier st =
     fl\<lparr>fl_carrier_states := AList.update carrier st (fl_carrier_states fl)\<rparr>"

text \<open>
  \<open>sendCarrier\<close> up to the call of \<^verbatim>\<open>carrier.enqueue\<close>: \<open>Fail\<close> is the return of the goroutine.
\<close>

definition send_pick :: "flow \<Rightarrow> cid \<Rightarrow> replay_frame pass \<times> flow" where
  "send_pick fl carrier =
     (case map_of (fl_carrier_states fl) carrier of
        None \<Rightarrow> (Fail ErrNetClosed, fl)
      | Some st \<Rightarrow>
          if fl_closed fl then (Fail ErrNetClosed, fl)
          else (case find (\<lambda>candidate. rp_sequence candidate \<ge> st_next_sequence st) (fl_history fl) of
              None \<Rightarrow> (Wait, fl)
            | Some item \<Rightarrow>
                (Return item, set_state fl carrier (st\<lparr>st_in_flight := Some (rp_sequence item)\<rparr>))))"

text \<open>\<open>sendCarrier\<close> after the frame was written.\<close>

definition send_done :: "flow \<Rightarrow> cid \<Rightarrow> replay_frame \<Rightarrow> skip_notification list \<times> bool \<times> flow" where
  "send_done fl carrier item =
     (case map_of (fl_carrier_states fl) carrier of
        None \<Rightarrow> ([], False, fl)
      | Some st0 \<Rightarrow>
          let f = rp_frame item;
              st = st0\<lparr>st_in_flight := None, st_next_sequence := rp_sequence item + 1,
                       st_written := Some (rp_sequence item)\<rparr>;
              fl1 = (if f_type f = FrameData then
                  let st' = st\<lparr>st_written_offset := f_offset f + len64 (f_payload f)\<rparr>
                  in (set_state fl carrier st')
                       \<lparr>fl_written_offset := max (fl_written_offset fl) (st_written_offset st')\<rparr>
                else if f_type f = FrameFIN then
                  (set_state fl carrier (st\<lparr>st_written_offset := f_offset f, st_written_fin := True\<rparr>))
                    \<lparr>fl_written_offset := max (fl_written_offset fl) (f_offset f),
                     fl_written_fin := True, fl_written_fin_offset := f_offset f\<rparr>
                else set_state fl carrier st)
          in apply_deferred_acknowledgement fl1)"

section \<open>Attaching, detaching and the end of a flow\<close>

definition claim_reset :: "flow \<Rightarrow> go_error option \<Rightarrow> bool \<Rightarrow> bool \<times> flow" where
  "claim_reset fl err notify =
     (if fl_closed fl then (False, fl)
      else (True, fl\<lparr>fl_closed := True, fl_terminal_err := err, fl_terminal_notify := notify\<rparr>))"

text \<open>
  The locked part of \<open>finishReset\<close>: the carriers to close and whether the peer is told. \<^verbatim>\<open>closeOnce\<close>
  makes it run once; \<open>claim_reset\<close> succeeds once, so it is called once.
\<close>

definition finish_reset :: "flow \<Rightarrow> (cid list \<times> bool) \<times> flow" where
  "finish_reset fl =
     ((fl_carriers fl, fl_terminal_notify fl), fl\<lparr>fl_carriers := [], fl_carrier_states := []\<rparr>)"

definition rst_frame :: "flow \<Rightarrow> frame" where
  "rst_frame fl = \<lparr>f_type = FrameRST, f_direction = fl_send_direction fl, f_stream = fl_id fl,
     f_offset = 0, f_payload = [0, 1]\<rparr>"

definition start_flow :: "flow \<Rightarrow> bool \<times> flow" where
  "start_flow fl =
     (if fl_started fl \<or> fl_closed fl then (False, fl)
      else (fl_carriers fl = [], fl\<lparr>fl_started := True\<rparr>))"

text \<open>The result \<open>Inr\<close> carries the payload bound of the new carrier and the acknowledgement it repeats.\<close>

definition attach_limited ::
    "flow \<Rightarrow> cid \<Rightarrow> u32 \<Rightarrow> int \<Rightarrow> go_error + (u32 \<times> frame option \<times> flow)" where
  "attach_limited fl carrier max_payload0 max_carriers =
     (let max_payload = (if max_payload0 = 0 \<or> max_payload0 > MaxPayload32 then MaxPayload32 else max_payload0)
      in if fl_closed fl then Inl ErrNetClosed
         else if max_carriers > 0 \<and> int (length (fl_carriers fl)) \<ge> max_carriers then Inl ErrMaxCarriers
         else let next_sequence = (case fl_history fl of [] \<Rightarrow> fl_next_sequence fl | item # _ \<Rightarrow> rp_sequence item)
              in Inr (max_payload, fl_latest_ack fl,
                   (set_state fl carrier
                      \<lparr>st_next_sequence = next_sequence, st_in_flight = None, st_written = None,
                       st_written_offset = 0, st_written_fin = False\<rparr>)
                     \<lparr>fl_carriers := fl_carriers fl @ [carrier]\<rparr>))"

text \<open>The reset that the end of the last carrier claims: no error when both directions were complete.\<close>

definition claim_after_carriers :: "flow \<Rightarrow> bool \<times> flow" where
  "claim_after_carriers fl =
     (if exchange_complete fl then claim_reset fl None False
      else claim_reset fl (Some ErrNoCarriers) True)"

definition detach :: "flow \<Rightarrow> cid \<Rightarrow> bool \<Rightarrow> skip_notification list \<times> bool \<times> frame option \<times> flow" where
  "detach fl carrier preserve_inbound =
     (let (skipped, fl1) =
            (if carrier \<in> set (fl_carriers fl) then
               prune_history (fl\<lparr>fl_carriers := remove1 carrier (fl_carriers fl),
                 fl_carrier_states := AList.delete carrier (fl_carrier_states fl)\<rparr>)
             else ([], fl));
          should_reset = (fl_started fl1 \<and> \<not> fl_closed fl1 \<and> fl_carriers fl1 = [] \<and>
            (\<not> preserve_inbound \<or> fl_pending_inbound fl1 = 0));
          (finish, fl2) = (if should_reset then claim_after_carriers fl1 else (False, fl1));
          resend = (if \<not> fl_closed fl2 \<and> fl_carriers fl2 \<noteq> [] then fl_latest_ack fl2 else None)
      in (skipped, finish, resend, fl2))"

definition reset_after_last_carrier :: "flow \<Rightarrow> bool \<times> flow" where
  "reset_after_last_carrier fl =
     (if fl_closed fl \<or> fl_carriers fl \<noteq> [] then (False, fl) else claim_after_carriers fl)"

definition reset_after_carrier_failure :: "flow \<Rightarrow> bool \<times> flow" where
  "reset_after_carrier_failure fl = (if fl_closed fl then (False, fl) else claim_after_carriers fl)"

section \<open>Receiving\<close>

definition opposite_direction :: "byte \<Rightarrow> byte" where
  "opposite_direction d =
     (if d = DirectionClientToServer then DirectionServerToClient else DirectionClientToServer)"

definition ack_frame :: "flow \<Rightarrow> u64 \<Rightarrow> bool \<Rightarrow> frame" where
  "ack_frame fl offset fin =
     \<lparr>f_type = FrameAck, f_direction = opposite_direction (fl_send_direction fl), f_stream = fl_id fl,
      f_offset = offset, f_payload = [if fin then 1 else 0]\<rparr>"

text \<open>
  \<open>handleFrame\<close>: the dispatch of a frame that a carrier read. \<open>None\<close> is the index expression
  \<^verbatim>\<open>frame.Payload[0]\<close> out of range.
\<close>

datatype dispatch = Reject | Acknowledge u64 bool | Inbound

definition handle_frame :: "flow \<Rightarrow> frame \<Rightarrow> dispatch option" where
  "handle_frame fl f =
     (if f_stream f \<noteq> fl_id fl \<or> f_type f = FrameOpen then Some Reject
      else if f_type f = FrameAck then
        (if f_direction f \<noteq> fl_send_direction fl then Some Reject
         else case f_payload f of [] \<Rightarrow> None | b # _ \<Rightarrow> Some (Acknowledge (f_offset f) (b = 1)))
      else if f_direction f = fl_send_direction fl then Some Reject
      else if f_type f = FrameData then Some Inbound
      else if f_type f = FrameFIN then Some Inbound
      else Some Reject)"

text \<open>The first critical section of \<open>enqueueInbound\<close>, and \<open>releaseInbound\<close>.\<close>

definition begin_inbound :: "flow \<Rightarrow> go_error option \<times> flow" where
  "begin_inbound fl =
     (if fl_closed fl then (Some ErrNetClosed, fl)
      else (None, fl\<lparr>fl_pending_inbound := fl_pending_inbound fl + 1\<rparr>))"

definition release_inbound :: "flow \<Rightarrow> bool \<times> flow" where
  "release_inbound fl =
     (let fl1 = (if fl_pending_inbound fl > 0
                 then fl\<lparr>fl_pending_inbound := fl_pending_inbound fl - 1\<rparr> else fl)
      in (fl_started fl1 \<and> \<not> fl_closed fl1 \<and> fl_pending_inbound fl1 = 0 \<and> fl_carriers fl1 = [], fl1))"

text \<open>\<open>deliverInbound\<close> up to the acknowledgement it builds.\<close>

definition deliver_inbound ::
    "flow \<Rightarrow> deadline_writer \<Rightarrow> frame \<Rightarrow> ((go_error + frame \<times> bool) \<times> flow \<times> deadline_writer) option" where
  "deliver_inbound fl w f =
     (case (if f_type f = FrameData then
              (case push (fl_reassembler fl) (f_offset f) (f_payload f) of
                 None \<Rightarrow> None
               | Some (Some e, r) \<Rightarrow> Some (Inl e, r, w)
               | Some (None, r) \<Rightarrow> Some (drain_to deadline_write r w))
            else if f_type f = FrameFIN then
              (case set_fin (fl_reassembler fl) (f_offset f) of
                 (Some e, r) \<Rightarrow> Some (Inl e, r, w)
               | (None, r) \<Rightarrow> Some (drain_to deadline_write r w))
            else Some (Inl ErrInvalidFrame, fl_reassembler fl, w)) of
        None \<Rightarrow> None
      | Some (Inl e, r, w1) \<Rightarrow> Some (Inl e, fl\<lparr>fl_reassembler := r\<rparr>, w1)
      | Some (Inr finished, r, w1) \<Rightarrow>
          (case clear_deadline w1 of
             (Some e, w2) \<Rightarrow> Some (Inl e, fl\<lparr>fl_reassembler := r\<rparr>, w2)
           | (None, w2) \<Rightarrow>
               Some (Inr (ack_frame fl (NextOffset r) finished, finished), fl\<lparr>fl_reassembler := r\<rparr>, w2)))"

text \<open>The loop of \<open>writeEndpoint\<close> over the queued frames: it ends at the first error.\<close>

fun write_endpoint ::
    "flow \<Rightarrow> deadline_writer \<Rightarrow> frame list \<Rightarrow> ((go_error option \<times> frame list) \<times> flow \<times> deadline_writer) option" where
  "write_endpoint fl w [] = Some ((None, []), fl, w)"
| "write_endpoint fl w (f # fs) =
     (if fl_closed fl then Some ((None, []), fl, w)
      else case deliver_inbound fl w f of
        None \<Rightarrow> None
      | Some (Inl e, fl1, w1) \<Rightarrow> Some ((Some e, []), fl1, w1)
      | Some (Inr (ack, finished), fl1, w1) \<Rightarrow>
          (case write_endpoint fl1 w1 fs of
             None \<Rightarrow> None
           | Some ((err, acks), fl2, w2) \<Rightarrow> Some ((err, ack # acks), fl2, w2)))"

text \<open>\<open>enqueueAck\<close>: the flow keeps the latest acknowledgement, then offers it to the source or else to all others.\<close>

definition record_ack :: "flow \<Rightarrow> frame \<Rightarrow> frame \<times> flow" where
  "record_ack fl f =
     (let f' = (case fl_latest_ack fl of None \<Rightarrow> f | Some a \<Rightarrow> later_ack a f)
      in (f', fl\<lparr>fl_latest_ack := Some f'\<rparr>))"

definition enqueue_ack_on_carriers ::
    "(cid \<Rightarrow> carrier) \<Rightarrow> cid list \<Rightarrow> cid option \<Rightarrow> frame \<Rightarrow> cid \<Rightarrow> carrier" where
  "enqueue_ack_on_carriers cs carriers excluded f =
     foldl (\<lambda>cs c. if Some c = excluded then cs else cs(c := snd (enqueue_ack f (cs c)))) cs carriers"

definition flow_enqueue_ack ::
    "flow \<Rightarrow> (cid \<Rightarrow> carrier) \<Rightarrow> cid option \<Rightarrow> frame \<Rightarrow> flow \<times> (cid \<Rightarrow> carrier)" where
  "flow_enqueue_ack fl cs source f0 =
     (case record_ack fl f0 of (f, fl1) \<Rightarrow>
        (case source of
           Some c \<Rightarrow>
             (case enqueue_ack f (cs c) of
                (True, c') \<Rightarrow> (fl1, cs(c := c'))
              | (False, c') \<Rightarrow> (fl1, enqueue_ack_on_carriers cs (fl_carriers fl1) source f))
         | None \<Rightarrow> (fl1, enqueue_ack_on_carriers cs (fl_carriers fl1) None f)))"

text \<open>\<open>carrierStopping\<close>: a carrier that stops may hold the only copy of the latest acknowledgement.\<close>

definition carrier_stopping :: "flow \<Rightarrow> (cid \<Rightarrow> carrier) \<Rightarrow> cid \<Rightarrow> cid \<Rightarrow> carrier" where
  "carrier_stopping fl cs stopping =
     (case fl_latest_ack fl of
        None \<Rightarrow> cs
      | Some a \<Rightarrow>
          if fl_closed fl then cs else enqueue_ack_on_carriers cs (fl_carriers fl) (Some stopping) a)"

definition carrier_frame_written :: "flow \<Rightarrow> frame \<Rightarrow> bool \<times> flow" where
  "carrier_frame_written fl f =
     (if f_type f \<noteq> FrameAck \<or> \<not> ack_has_fin f then (False, fl)
      else let fl1 = fl\<lparr>fl_remote_fin_ack_sent := True\<rparr> in (complete fl1, fl1))"

definition finish_remote :: "flow \<Rightarrow> bool \<times> flow" where
  "finish_remote fl =
     (if fl_remote_fin fl then (False, fl)
      else let fl1 = fl\<lparr>fl_remote_fin := True\<rparr> in (complete fl1, fl1))"

section \<open>Reading the endpoint\<close>

definition read_chunk_size :: "flow_config \<Rightarrow> int" where
  "read_chunk_size cfg =
     (if cfg_chunk_size cfg \<le> 0 \<or> cfg_chunk_size cfg > int MaxPayloadSize then 16 * 1024
      else cfg_chunk_size cfg)"

definition data_frame :: "flow \<Rightarrow> u64 \<Rightarrow> byte list \<Rightarrow> frame" where
  "data_frame fl offset payload = \<lparr>f_type = FrameData, f_direction = fl_send_direction fl,
     f_stream = fl_id fl, f_offset = offset, f_payload = payload\<rparr>"

definition fin_frame :: "flow \<Rightarrow> u64 \<Rightarrow> frame" where
  "fin_frame fl offset = \<lparr>f_type = FrameFIN, f_direction = fl_send_direction fl,
     f_stream = fl_id fl, f_offset = offset, f_payload = []\<rparr>"

text \<open>
  What \<open>readEndpoint\<close> broadcasts for a sequence of results of \<^verbatim>\<open>Read\<close> (the bytes and the error),
  until an error ends it; the second result is that error.
\<close>

fun read_endpoint :: "flow \<Rightarrow> u64 \<Rightarrow> (byte list \<times> go_error option) list \<Rightarrow> frame list \<times> go_error option" where
  "read_endpoint fl offset [] = ([], None)"
| "read_endpoint fl offset ((bytes, err) # reads) =
     (let data = (if bytes = [] then [] else [data_frame fl offset bytes]);
          offset' = (if bytes = [] then offset else offset + len64 bytes)
      in case err of
           None \<Rightarrow> (case read_endpoint fl offset' reads of (fs, e) \<Rightarrow> (data @ fs, e))
         | Some e \<Rightarrow> (data @ (if e = EOF then [fin_frame fl offset'] else []), Some e))"

end
