(* ===== verification/Sender.thy ===== *)
theory Sender
  imports Flow
begin

text \<open>
  The sending half of a flow as a state machine: \<open>readEndpoint\<close> reads from the endpoint, counts its offset and
  broadcasts what it has read, one frame at a time; one goroutine per carrier picks and writes them,
  acknowledgements of any content arrive, carriers come and go, and the flow is reset. Every interleaving of the critical sections of \<open>Flow\<close> is a run. The invariant
  says which frames the history keeps, what each carrier has been sent, what an acknowledgement can
  reach, and when a flow ends without an error.
\<close>

section \<open>The machine\<close>

text \<open>
  Where \<open>readEndpoint\<close> stands: not started, before \<^verbatim>\<open>Read\<close>, in \<open>remember\<close> with the bytes of a read and its
  error, in the loop of \<open>broadcast\<close> until the frame is written, after \<^verbatim>\<open>io.EOF\<close>, in the same two places with the FIN,
  before \<open>resetAfterCarrierFailure\<close> or the look at \<open>completeLocked\<close>, before \<open>Reset\<close>, returned.
\<close>

datatype source_pc = ReaderIdle | AtRead | HoldsData "byte list" "go_error option" | AwaitsData "byte list" u64 "go_error option"
  | SeesEOF | HoldsFIN | AwaitsFIN u64 | FINFails go_error | ChecksComplete | ReaderResets go_error | ReaderGone

text \<open>
  \<open>sd_reader\<close> and \<open>sd_offset\<close> are the program counter and the variable \<^verbatim>\<open>offset\<close> of \<open>readEndpoint\<close>; \<open>sd_sending\<close> is
  the frame that the goroutine of a carrier holds between its two critical sections, \<open>sd_calls\<close> the
  calls of \<open>reset\<close> that are due after a critical section ended. The rest is history for the
  specification: the results of \<^verbatim>\<open>Read\<close>, the payload and the end that were remembered, every remembered frame,
  what each carrier wrote, the acknowledgements that arrived, the carriers ever attached, and
  whether the application called \<open>Close\<close>.
\<close>

record sender =
  sd_flow :: flow
  sd_reader :: source_pc
  sd_offset :: u64
  sd_sending :: "cid \<Rightarrow> replay_frame option"
  sd_calls :: "(go_error option \<times> bool) list"
  sd_reads :: "(byte list \<times> go_error option) list"
  sd_stream :: "byte list"
  sd_eof :: bool
  sd_sent :: "replay_frame list"
  sd_log :: "cid \<Rightarrow> replay_frame list"
  sd_acks :: "(u64 \<times> bool) set"
  sd_used :: "cid set"
  sd_user_closed :: bool

definition sender_start :: "flow \<Rightarrow> sender" where
  "sender_start fl =
     \<lparr>sd_flow = fl, sd_reader = ReaderIdle, sd_offset = 0, sd_sending = (\<lambda>_. None), sd_calls = [], sd_reads = [],
      sd_stream = [], sd_eof = False, sd_sent = [], sd_log = (\<lambda>_. []), sd_acks = {}, sd_used = {}, sd_user_closed = False\<rparr>"

definition due :: "bool \<Rightarrow> (go_error option \<times> bool) list" where
  "due is_complete = (if is_complete then [(None, False)] else [])"

definition remembered :: "u64 pass \<Rightarrow> frame \<Rightarrow> replay_frame list" where
  "remembered res f = (case res of Return seq \<Rightarrow> [\<lparr>rp_sequence = seq, rp_frame = f\<rparr>] | _ \<Rightarrow> [])"

text \<open>
  The operations of the receiving half and of the life cycle, which leave the sender's data alone,
  those of \<open>readEndpoint\<close> and of \<open>Start\<close> marked; the list is the reset that becomes due.
\<close>

inductive other_op :: "bool \<Rightarrow> flow \<Rightarrow> flow \<Rightarrow> (go_error option \<times> bool) list \<Rightarrow> bool" where
  op_start: "start_flow fl = (fails, fl') \<Longrightarrow>
     other_op True fl fl' (if fails then [(Some ErrNoCarriers, True)] else [])"
| op_look: "other_op True fl fl []"
| op_local_fin: "other_op True fl (fl\<lparr>fl_local_fin := True\<rparr>) []"
| op_read_complete: "other_op True fl fl (due (complete fl))"
| op_carrier_failure: "reset_after_carrier_failure fl = (r, fl') \<Longrightarrow> other_op True fl fl' []"
| op_finish_remote: "finish_remote fl = (c, fl') \<Longrightarrow> other_op False fl fl' (due c)"
| op_frame_written: "carrier_frame_written fl f = (c, fl') \<Longrightarrow> other_op False fl fl' (due c)"
| op_begin_inbound: "begin_inbound fl = (e, fl') \<Longrightarrow> other_op False fl fl' []"
| op_release_inbound: "release_inbound fl = (r, fl') \<Longrightarrow> other_op False fl fl' []"
| op_deliver: "deliver_inbound fl w f = Some (res, fl', w') \<Longrightarrow>
     other_op False fl fl' (case res of Inl e \<Rightarrow> [(Some e, True)] | Inr _ \<Rightarrow> [])"
| op_record_ack: "record_ack fl f = (f', fl') \<Longrightarrow> other_op False fl fl' []"
| op_last_carrier: "reset_after_last_carrier fl = (r, fl') \<Longrightarrow> other_op False fl fl' []"
| op_error: "other_op reader fl fl [(Some e, True)]"

text \<open>What follows a read: the next one, the end, or a reset with the error.\<close>

definition after_read :: "go_error option \<Rightarrow> source_pc" where
  "after_read err = (case err of None \<Rightarrow> AtRead | Some e \<Rightarrow> if e = EOF then SeesEOF else ReaderResets e)"

definition bytes_read :: "(byte list \<times> go_error option) list \<Rightarrow> byte list" where
  "bytes_read reads = concat (map fst reads)"

text \<open>
  The steps of \<open>readEndpoint\<close>, which \<open>Start\<close> begins. \<^verbatim>\<open>Read\<close> returns at most a chunk, with or without an error; that
  it returns fewer than $2^{64} - 1$ bytes in all is assumed.
\<close>

inductive source_step :: "sender \<Rightarrow> sender \<Rightarrow> bool" where
  rd_start: "start_flow (sd_flow s) = (fails, fl') \<Longrightarrow>
     source_step s (s\<lparr>sd_flow := fl', sd_calls := sd_calls s @ (if fails then [(Some ErrNoCarriers, True)] else []),
       sd_reader := (if \<not> fl_started (sd_flow s) \<and> fl_started fl' \<and> \<not> fails \<and> sd_reader s = ReaderIdle then AtRead else sd_reader s)\<rparr>)"
| rd_read: "sd_reader s = AtRead \<Longrightarrow> int (length p) \<le> read_chunk_size (fl_config (sd_flow s)) \<Longrightarrow>
     length (bytes_read (sd_reads s)) + length p + 1 < 2 ^ 64 \<Longrightarrow>
     source_step s (s\<lparr>sd_reads := sd_reads s @ [(p, err)], sd_reader := (if p = [] then after_read err else HoldsData p err)\<rparr>)"
| rd_data: "sd_reader s = HoldsData p err \<Longrightarrow> f = data_frame (sd_flow s) (sd_offset s) p \<Longrightarrow>
     remember (sd_flow s) f = (res, skipped, fl') \<Longrightarrow>
     source_step s (s\<lparr>sd_flow := fl', sd_sent := sd_sent s @ remembered res f,
       sd_stream := sd_stream s @ concat (map (\<lambda>_. p) (remembered res f)),
       sd_reader := (case res of Return seq \<Rightarrow> AwaitsData p seq err | Wait \<Rightarrow> HoldsData p err | Fail e \<Rightarrow> ReaderResets e)\<rparr>)"
| rd_broadcast: "sd_reader s = AwaitsData p seq err \<Longrightarrow>
     broadcast_pass (sd_flow s) (data_frame (sd_flow s) (sd_offset s) p) seq = res \<Longrightarrow>
     source_step s (s\<lparr>sd_offset := (case res of Return _ \<Rightarrow> sd_offset s + len64 p | _ \<Rightarrow> sd_offset s),
       sd_reader := (case res of Return _ \<Rightarrow> after_read err | Wait \<Rightarrow> AwaitsData p seq err | Fail e \<Rightarrow> ReaderResets e)\<rparr>)"
| rd_eof: "sd_reader s = SeesEOF \<Longrightarrow> source_step s (s\<lparr>sd_flow := (sd_flow s)\<lparr>fl_local_fin := True\<rparr>, sd_reader := HoldsFIN\<rparr>)"
| rd_fin: "sd_reader s = HoldsFIN \<Longrightarrow> f = fin_frame (sd_flow s) (sd_offset s) \<Longrightarrow>
     remember (sd_flow s) f = (res, skipped, fl') \<Longrightarrow>
     source_step s (s\<lparr>sd_flow := fl', sd_sent := sd_sent s @ remembered res f, sd_eof := (remembered res f \<noteq> []),
       sd_reader := (case res of Return seq \<Rightarrow> AwaitsFIN seq | Wait \<Rightarrow> HoldsFIN | Fail e \<Rightarrow> FINFails e)\<rparr>)"
| rd_fin_broadcast: "sd_reader s = AwaitsFIN seq \<Longrightarrow>
     broadcast_pass (sd_flow s) (fin_frame (sd_flow s) (sd_offset s)) seq = res \<Longrightarrow>
     source_step s (s\<lparr>sd_reader := (case res of Return _ \<Rightarrow> ChecksComplete | Wait \<Rightarrow> AwaitsFIN seq | Fail e \<Rightarrow> FINFails e)\<rparr>)"
| rd_fin_lost: "sd_reader s = FINFails ErrNoCarriers \<Longrightarrow> reset_after_carrier_failure (sd_flow s) = (r, fl') \<Longrightarrow>
     source_step s (s\<lparr>sd_flow := fl', sd_reader := ReaderGone\<rparr>)"
| rd_fin_fails: "sd_reader s = FINFails e \<Longrightarrow> e \<noteq> ErrNoCarriers \<Longrightarrow> source_step s (s\<lparr>sd_reader := ReaderResets e\<rparr>)"
| rd_complete: "sd_reader s = ChecksComplete \<Longrightarrow>
     source_step s (s\<lparr>sd_calls := sd_calls s @ due (complete (sd_flow s)), sd_reader := ReaderGone\<rparr>)"
| rd_resets: "sd_reader s = ReaderResets e \<Longrightarrow> source_step s (s\<lparr>sd_calls := sd_calls s @ [(Some e, True)], sd_reader := ReaderGone\<rparr>)"

inductive sender_step :: "sender \<Rightarrow> sender \<Rightarrow> bool" where
  sn_attach: "c \<notin> sd_used s \<Longrightarrow> attach_limited (sd_flow s) c max_payload max_carriers = Inr (m, ack, fl') \<Longrightarrow>
     sender_step s (s\<lparr>sd_flow := fl', sd_used := insert c (sd_used s)\<rparr>)"
| sn_reader: "source_step s s' \<Longrightarrow> sender_step s s'"
| sn_pick: "sd_sending s c = None \<Longrightarrow> send_pick (sd_flow s) c = (Return item, fl') \<Longrightarrow>
     sender_step s (s\<lparr>sd_flow := fl', sd_sending := (sd_sending s)(c := Some item)\<rparr>)"
| sn_written: "sd_sending s c = Some item \<Longrightarrow> send_done (sd_flow s) c item = (skipped, is_complete, fl') \<Longrightarrow>
     sender_step s (s\<lparr>sd_flow := fl', sd_sending := (sd_sending s)(c := None),
       sd_log := (sd_log s)(c := sd_log s c @ [item]), sd_calls := sd_calls s @ due is_complete\<rparr>)"
| sn_ack: "acknowledge (sd_flow s) c offset fin = (skipped, is_complete, fl') \<Longrightarrow>
     sender_step s (s\<lparr>sd_flow := fl', sd_acks := insert (offset, fin) (sd_acks s),
       sd_calls := sd_calls s @ due is_complete\<rparr>)"
| sn_detach: "detach (sd_flow s) c preserve = (skipped, finish, resend, fl') \<Longrightarrow>
     sender_step s (s\<lparr>sd_flow := fl'\<rparr>)"
| sn_other: "other_op False (sd_flow s) fl' calls \<Longrightarrow>
     sender_step s (s\<lparr>sd_flow := fl', sd_calls := sd_calls s @ calls\<rparr>)"
| sn_close: "sender_step s (s\<lparr>sd_user_closed := True, sd_calls := sd_calls s @ [(None, False)]\<rparr>)"
| sn_reset: "(err, notify) \<in> set (sd_calls s) \<Longrightarrow> claim_reset (sd_flow s) err notify = (first, fl') \<Longrightarrow>
     sender_step s (s\<lparr>sd_flow := fl', sd_calls := remove1 (err, notify) (sd_calls s)\<rparr>)"
| sn_finish: "fl_closed (sd_flow s) \<Longrightarrow> finish_reset (sd_flow s) = (carriers_notify, fl') \<Longrightarrow>
     sender_step s (s\<lparr>sd_flow := fl'\<rparr>)"

section \<open>The invariant\<close>

definition frame_stop :: "frame \<Rightarrow> nat" where
  "frame_stop f = unat (f_offset f) + length (f_payload f)"

text \<open>A frame that was cut out of the stream.\<close>

definition cut_from :: "byte list \<Rightarrow> bool \<Rightarrow> frame \<Rightarrow> bool" where
  "cut_from stream eof f \<longleftrightarrow>
     (f_type f = FrameData \<and> f_payload f \<noteq> [] \<and> length (f_payload f) \<le> MaxPayloadSize \<and>
        frame_stop f \<le> length stream \<and> f_payload f = take (length (f_payload f)) (drop (unat (f_offset f)) stream)) \<or>
     (f_type f = FrameFIN \<and> f_payload f = [] \<and> eof \<and> unat (f_offset f) = length stream)"

definition stream_inv :: "sender \<Rightarrow> bool" where
  "stream_inv s \<longleftrightarrow> length (sd_stream s) < 2 ^ 64 \<and> length (sd_sent s) < 2 ^ 64 \<and>
     (\<forall>item \<in> set (sd_sent s). cut_from (sd_stream s) (sd_eof s) (rp_frame item)) \<and>
     cells 0 (sd_stream s) \<subseteq> (\<Union>item \<in> set (sd_sent s). cells (unat (f_offset (rp_frame item))) (f_payload (rp_frame item))) \<and>
     (sd_eof s \<longrightarrow> (\<exists>item \<in> set (sd_sent s). f_type (rp_frame item) = FrameFIN)) \<and>
     map (unat \<circ> rp_sequence) (sd_sent s) = [0..<length (sd_sent s)] \<and>
     unat (fl_next_sequence (sd_flow s)) = length (sd_sent s)"

text \<open>The history is what was sent less what is acknowledged, and it is counted and bounded.\<close>

definition unacknowledged :: "flow \<Rightarrow> replay_frame list \<Rightarrow> replay_frame list" where
  "unacknowledged fl = filter (\<lambda>item. \<not> global_acknowledged fl (rp_frame item))"

definition history_size :: "replay_frame list \<Rightarrow> int" where
  "history_size items = int (sum_list (map (\<lambda>item. length (f_payload (rp_frame item))) items))"

definition history_inv :: "sender \<Rightarrow> bool" where
  "history_inv s \<longleftrightarrow> fl_history (sd_flow s) = unacknowledged (sd_flow s) (sd_sent s) \<and>
     fl_history_bytes (sd_flow s) = history_size (fl_history (sd_flow s)) \<and>
     (let window = cfg_reorder_window_bytes (fl_config (sd_flow s))
      in window > 0 \<longrightarrow> fl_history_bytes (sd_flow s) \<le> window)"

text \<open>No acknowledgement gets ahead of what was written, and what was written is on some carrier.\<close>

definition ack_inv :: "sender \<Rightarrow> bool" where
  "ack_inv s \<longleftrightarrow>
     (let fl = sd_flow s; stop = length (sd_stream s) in
      unat (fl_written_offset fl) \<le> stop \<and>
      (fl_written_offset fl \<noteq> 0 \<longrightarrow> (\<exists>c. \<exists>item \<in> set (sd_log s c). frame_stop (rp_frame item) = unat (fl_written_offset fl))) \<and>
      (fl_written_fin fl \<longrightarrow> sd_eof s \<and> unat (fl_written_fin_offset fl) = stop \<and>
         (\<exists>c. \<exists>item \<in> set (sd_log s c). f_type (rp_frame item) = FrameFIN)) \<and>
      fl_global_ack_offset fl \<le> fl_written_offset fl \<and>
      (fl_global_ack_fin fl \<longrightarrow> fl_written_fin fl \<and> unat (fl_global_ack_offset fl) = stop \<and>
         (fl_global_ack_offset fl, True) \<in> sd_acks s) \<and>
      (fl_local_fin_ack fl \<longleftrightarrow> fl_global_ack_fin fl) \<and>
      (\<forall>doff dfin. fl_deferred_ack fl = Some (doff, dfin) \<longrightarrow> unat doff \<le> stop \<and> (doff, dfin) \<in> sd_acks s \<and>
         (dfin \<longrightarrow> sd_eof s \<and> unat doff = stop)))"

text \<open>
  Each carrier has been sent every unacknowledged frame below its next sequence number; the frame
  its goroutine holds comes next, and between the two nothing is unacknowledged.
\<close>

definition carriers_inv :: "sender \<Rightarrow> bool" where
  "carriers_inv s \<longleftrightarrow>
     (let fl = sd_flow s in
      map fst (fl_carrier_states fl) = fl_carriers fl \<and> distinct (fl_carriers fl) \<and>
      set (fl_carriers fl) \<subseteq> sd_used s \<and>
      (\<forall>c item. sd_sending s c = Some item \<longrightarrow> c \<in> sd_used s \<and> item \<in> set (sd_sent s)) \<and>
      (\<forall>c. set (sd_log s c) \<subseteq> set (sd_sent s)) \<and>
      (\<forall>c st. map_of (fl_carrier_states fl) c = Some st \<longrightarrow>
         unat (st_next_sequence st) \<le> length (sd_sent s) \<and>
         (\<forall>item \<in> set (unacknowledged fl (sd_sent s)).
            rp_sequence item < st_next_sequence st \<longrightarrow> item \<in> set (sd_log s c)) \<and>
         (\<forall>held \<in> set_option (sd_sending s c).
            \<forall>item \<in> set (unacknowledged fl (sd_sent s)).
              st_next_sequence st \<le> rp_sequence item \<longrightarrow> rp_sequence held \<le> rp_sequence item)))"

text \<open>A reset without an error is due or done only when both directions are complete, or on \<open>Close\<close>.\<close>

definition finish_inv :: "sender \<Rightarrow> bool" where
  "finish_inv s \<longleftrightarrow>
     (None \<in> fst ` set (sd_calls s) \<or> (fl_closed (sd_flow s) \<and> fl_terminal_err (sd_flow s) = None) \<longrightarrow>
        sd_user_closed s \<or> exchange_complete (sd_flow s))"

section \<open>What each operation changes\<close>

text \<open>The part of a flow that the sender's invariant talks about.\<close>

definition sender_view where
  "sender_view fl =
     (fl_carriers fl, fl_history fl, fl_history_bytes fl, fl_next_sequence fl, fl_global_ack_offset fl,
      fl_global_ack_fin fl, fl_written_offset fl, fl_written_fin fl, fl_written_fin_offset fl,
      fl_deferred_ack fl, fl_carrier_states fl, fl_local_fin_ack fl, fl_config fl)"

lemmas sender_view_eq = sender_view_def prod.inject

lemma claim_reset_view: "claim_reset fl err notify = (r, fl') \<Longrightarrow> sender_view fl' = sender_view fl"
  by (auto simp: claim_reset_def sender_view_def split: if_splits)

lemma claim_after_carriers_view: "claim_after_carriers fl = (r, fl') \<Longrightarrow> sender_view fl' = sender_view fl"
  by (auto simp: claim_after_carriers_def dest: claim_reset_view split: if_splits)

lemma deliver_inbound_view:
  "deliver_inbound fl w f = Some (res, fl', w') \<Longrightarrow>
     sender_view fl' = sender_view fl \<and> fl_local_fin fl' = fl_local_fin fl \<and>
     fl_remote_fin fl' = fl_remote_fin fl \<and> fl_closed fl' = fl_closed fl \<and>
     fl_terminal_err fl' = fl_terminal_err fl"
  by (auto simp: deliver_inbound_def sender_view_def split: option.splits sum.splits prod.splits if_splits)

lemma other_op_view: "other_op reader fl fl' calls \<Longrightarrow> sender_view fl' = sender_view fl"
proof (induction rule: other_op.induct)
  case (op_deliver fl w f res fl' w')
  then show ?case using deliver_inbound_view by blast
next
  case (op_last_carrier fl r fl')
  then show ?case by (auto simp: reset_after_last_carrier_def dest: claim_after_carriers_view split: if_splits)
next
  case (op_carrier_failure fl r fl')
  then show ?case by (auto simp: reset_after_carrier_failure_def dest: claim_after_carriers_view split: if_splits)
qed (auto simp: sender_view_def start_flow_def finish_remote_def carrier_frame_written_def begin_inbound_def
    release_inbound_def record_ack_def Let_def split: if_splits)

lemma unacknowledged_view:
  "fl_global_ack_offset fl' = fl_global_ack_offset fl \<Longrightarrow> fl_global_ack_fin fl' = fl_global_ack_fin fl \<Longrightarrow>
     unacknowledged fl' = unacknowledged fl"
  by (simp add: unacknowledged_def global_acknowledged_def)

lemma unacknowledged_idem [simp]: "unacknowledged fl (unacknowledged fl items) = unacknowledged fl items"
  by (simp add: unacknowledged_def)

lemma history_size_split:
  "history_size (filter P items) + history_size (filter (\<lambda>x. \<not> P x) items) = history_size items"
  by (induction items) (auto simp: history_size_def)

lemma prune_history_spec:
  assumes "fl_history_bytes fl = history_size (fl_history fl)"
  shows "\<exists>skipped. prune_history fl =
    (skipped, fl\<lparr>fl_history := unacknowledged fl (fl_history fl),
                 fl_history_bytes := history_size (unacknowledged fl (fl_history fl))\<rparr>)"
  using assms history_size_split [of "\<lambda>item. global_acknowledged fl (rp_frame item)" "fl_history fl"]
  by (simp add: prune_history_def Let_def unacknowledged_def history_size_def)

text \<open>With an exact history there is nothing to prune.\<close>

lemma prune_history_none:
  assumes "fl_history fl = unacknowledged fl sent" and "fl_history_bytes fl = history_size (fl_history fl)"
  shows "\<exists>skipped. prune_history fl = (skipped, fl)"
proof -
  have u: "unacknowledged fl (fl_history fl) = fl_history fl" by (simp add: assms(1))
  from prune_history_spec [OF assms(2)] show ?thesis unfolding u assms(2) [symmetric] by simp
qed

text \<open>A new acknowledgement: \<open>ack_applied\<close> is the state it leaves.\<close>

definition ack_applied :: "flow \<Rightarrow> u64 \<Rightarrow> bool \<Rightarrow> (u64 \<times> bool) option \<Rightarrow> replay_frame list \<Rightarrow> flow" where
  "ack_applied fl offset fin d sent =
     (let fl1 = fl\<lparr>fl_global_ack_offset := offset, fl_global_ack_fin := fl_global_ack_fin fl \<or> fin\<rparr>
      in fl1\<lparr>fl_local_fin_ack := fl_local_fin_ack fl \<or> fin, fl_deferred_ack := d,
             fl_history := unacknowledged fl1 sent, fl_history_bytes := history_size (unacknowledged fl1 sent)\<rparr>)"

lemma ack_applied_simps [simp]:
  "fl_global_ack_offset (ack_applied fl off fin d sent) = off"
  "fl_global_ack_fin (ack_applied fl off fin d sent) = (fl_global_ack_fin fl \<or> fin)"
  "fl_local_fin_ack (ack_applied fl off fin d sent) = (fl_local_fin_ack fl \<or> fin)"
  "fl_deferred_ack (ack_applied fl off fin d sent) = d"
  "fl_written_offset (ack_applied fl off fin d sent) = fl_written_offset fl"
  "fl_written_fin (ack_applied fl off fin d sent) = fl_written_fin fl"
  "fl_written_fin_offset (ack_applied fl off fin d sent) = fl_written_fin_offset fl"
  "fl_carriers (ack_applied fl off fin d sent) = fl_carriers fl"
  "fl_carrier_states (ack_applied fl off fin d sent) = fl_carrier_states fl"
  "fl_next_sequence (ack_applied fl off fin d sent) = fl_next_sequence fl"
  "fl_config (ack_applied fl off fin d sent) = fl_config fl"
  "fl_local_fin (ack_applied fl off fin d sent) = fl_local_fin fl"
  "fl_remote_fin (ack_applied fl off fin d sent) = fl_remote_fin fl"
  "fl_closed (ack_applied fl off fin d sent) = fl_closed fl"
  "fl_terminal_err (ack_applied fl off fin d sent) = fl_terminal_err fl"
  "fl_remote_fin_ack_sent (ack_applied fl off fin d sent) = fl_remote_fin_ack_sent fl"
  by (simp_all add: ack_applied_def Let_def)

lemma ack_applied_history [simp]:
  "fl_history (ack_applied fl off fin d sent) = unacknowledged (ack_applied fl off fin d sent) sent"
  "fl_history_bytes (ack_applied fl off fin d sent) = history_size (unacknowledged (ack_applied fl off fin d sent) sent)"
proof -
  have "unacknowledged (ack_applied fl off fin d sent) = unacknowledged (fl\<lparr>fl_global_ack_offset := off,
      fl_global_ack_fin := fl_global_ack_fin fl \<or> fin\<rparr>)"
    by (rule unacknowledged_view) simp_all
  then show "fl_history (ack_applied fl off fin d sent) = unacknowledged (ack_applied fl off fin d sent) sent"
    "fl_history_bytes (ack_applied fl off fin d sent) = history_size (unacknowledged (ack_applied fl off fin d sent) sent)"
    by (simp_all add: ack_applied_def Let_def)
qed

definition deferred_after :: "(u64 \<times> bool) option \<Rightarrow> u64 \<Rightarrow> bool \<Rightarrow> (u64 \<times> bool) option" where
  "deferred_after d offset fin =
     (case d of None \<Rightarrow> None
      | Some (doff, dfin) \<Rightarrow>
          if offset > doff \<or> (offset = doff \<and> (fin \<or> \<not> dfin)) then None else d)"

lemma acknowledged_mono:
  "fl_global_ack_offset fl \<le> fl_global_ack_offset fl' \<Longrightarrow> (fl_global_ack_fin fl \<longrightarrow> fl_global_ack_fin fl') \<Longrightarrow>
     global_acknowledged fl f \<Longrightarrow> global_acknowledged fl' f"
  by (auto simp: global_acknowledged_def split: if_splits)

lemma unacknowledged_mono:
  assumes "fl_global_ack_offset fl \<le> fl_global_ack_offset fl'" and "fl_global_ack_fin fl \<longrightarrow> fl_global_ack_fin fl'"
  shows "unacknowledged fl' (unacknowledged fl items) = unacknowledged fl' items"
  using acknowledged_mono [OF assms] by (auto simp: unacknowledged_def intro: filter_cong)

lemma apply_acknowledgement_spec:
  assumes "\<not> acknowledgement_regresses fl offset fin" and "fl_history fl = unacknowledged fl sent"
    and "fl_history_bytes fl = history_size (fl_history fl)"
  shows "\<exists>skipped. apply_acknowledgement fl offset fin =
    (skipped, complete (ack_applied fl offset fin (deferred_after (fl_deferred_ack fl) offset fin) sent),
     ack_applied fl offset fin (deferred_after (fl_deferred_ack fl) offset fin) sent)"
proof -
  let ?fl1 = "fl\<lparr>fl_global_ack_offset := offset, fl_global_ack_fin := fl_global_ack_fin fl \<or> fin\<rparr>"
  let ?fl3 = "?fl1\<lparr>fl_local_fin_ack := fl_local_fin_ack fl \<or> fin,
      fl_deferred_ack := deferred_after (fl_deferred_ack fl) offset fin\<rparr>"
  have step: "(let fl2 = (if fin then ?fl1\<lparr>fl_local_fin_ack := True\<rparr> else ?fl1)
      in case fl_deferred_ack fl2 of None \<Rightarrow> fl2
         | Some (doff, dfin) \<Rightarrow>
             if offset > doff \<or> (offset = doff \<and> (fin \<or> \<not> dfin)) then fl2\<lparr>fl_deferred_ack := None\<rparr> else fl2) = ?fl3"
    by (cases "fl_deferred_ack fl") (auto simp: deferred_after_def Let_def)
  have "fl_history_bytes ?fl3 = history_size (fl_history ?fl3)" using assms(3) by simp
  from prune_history_spec [OF this] obtain skipped where
    pr: "prune_history ?fl3 = (skipped, ?fl3\<lparr>fl_history := unacknowledged ?fl3 (fl_history ?fl3),
      fl_history_bytes := history_size (unacknowledged ?fl3 (fl_history ?fl3))\<rparr>)" by blast
  have u: "unacknowledged ?fl3 = unacknowledged ?fl1" by (rule unacknowledged_view) simp_all
  have "unacknowledged ?fl1 (fl_history ?fl3) = unacknowledged ?fl1 sent"
    using assms(1) by (simp add: assms(2) acknowledgement_regresses_def not_less unacknowledged_mono)
  with pr u have "prune_history ?fl3 = (skipped, ack_applied fl offset fin (deferred_after (fl_deferred_ack fl) offset fin) sent)"
    by (simp add: ack_applied_def Let_def)
  with step show ?thesis unfolding apply_acknowledgement_def Let_def by simp
qed

section \<open>Frames of the stream and their numbers\<close>

definition sender_inv :: "sender \<Rightarrow> bool" where
  "sender_inv s \<longleftrightarrow> stream_inv s \<and> history_inv s \<and> ack_inv s \<and> carriers_inv s"

lemma sender_inv_parts:
  assumes "sender_inv s"
  shows "stream_inv s" "history_inv s" "ack_inv s" "carriers_inv s"
  using assms by (simp_all add: sender_inv_def)

lemma sent_cut: "stream_inv s \<Longrightarrow> item \<in> set (sd_sent s) \<Longrightarrow> cut_from (sd_stream s) (sd_eof s) (rp_frame item)"
  by (simp add: stream_inv_def)

lemma cut_stop:
  assumes "cut_from S eof f" and "length S < 2 ^ 64"
  shows "frame_stop f \<le> length S" and "unat (f_offset f + len64 (f_payload f)) = frame_stop f"
proof -
  show le: "frame_stop f \<le> length S" using assms(1) by (auto simp: cut_from_def frame_stop_def)
  then show "unat (f_offset f + len64 (f_payload f)) = frame_stop f"
    using assms(2) by (simp add: frame_stop_def unat_add_len64)
qed

lemma acknowledged_cut:
  assumes "cut_from S eof f" and "length S < 2 ^ 64"
  shows "global_acknowledged fl f \<longleftrightarrow> frame_stop f \<le> unat (fl_global_ack_offset fl) \<and>
    (f_type f = FrameFIN \<longrightarrow> fl_global_ack_fin fl)"
proof -
  have "f_type f = FrameFIN \<Longrightarrow> frame_stop f = unat (f_offset f)"
    using assms(1) by (auto simp: cut_from_def frame_stop_def frame_types)
  then show ?thesis
    using cut_stop(2) [OF assms] by (auto simp: global_acknowledged_def word_le_nat_alt)
qed

lemma sequences:
  assumes "stream_inv s"
  shows "sorted (map (unat \<circ> rp_sequence) (sd_sent s))"
    and "item \<in> set (sd_sent s) \<Longrightarrow> unat (rp_sequence item) < length (sd_sent s)"
    and "item \<in> set (sd_sent s) \<Longrightarrow> item' \<in> set (sd_sent s) \<Longrightarrow> rp_sequence item = rp_sequence item' \<Longrightarrow> item = item'"
proof -
  have m: "map (unat \<circ> rp_sequence) (sd_sent s) = [0..<length (sd_sent s)]"
    using assms by (simp add: stream_inv_def)
  show "sorted (map (unat \<circ> rp_sequence) (sd_sent s))" by (simp only: m sorted_upt)
  show "item \<in> set (sd_sent s) \<Longrightarrow> unat (rp_sequence item) < length (sd_sent s)"
    using arg_cong [OF m, of set] by fastforce
  have "inj_on (unat \<circ> rp_sequence) (set (sd_sent s))"
    using arg_cong [OF m, of distinct] by (simp add: distinct_map)
  then show "item \<in> set (sd_sent s) \<Longrightarrow> item' \<in> set (sd_sent s) \<Longrightarrow> rp_sequence item = rp_sequence item' \<Longrightarrow> item = item'"
    by (auto simp: inj_on_def)
qed

lemma sorted_unacknowledged:
  "sorted (map (unat \<circ> rp_sequence) items) \<Longrightarrow> sorted (map (unat \<circ> rp_sequence) (unacknowledged fl items))"
  by (auto simp: unacknowledged_def intro: sorted_filter)

lemma find_first:
  "sorted (map (unat \<circ> rp_sequence) items) \<Longrightarrow> find (\<lambda>x. rp_sequence x \<ge> n) items = Some y \<Longrightarrow>
     y \<in> set items \<and> n \<le> rp_sequence y \<and> (\<forall>x \<in> set items. n \<le> rp_sequence x \<longrightarrow> rp_sequence y \<le> rp_sequence x)"
  by (induction items) (auto simp: word_le_nat_alt split: if_splits)

lemma set_unacknowledged:
  "item \<in> set (unacknowledged fl items) \<longleftrightarrow> item \<in> set items \<and> \<not> global_acknowledged fl (rp_frame item)"
  by (simp add: unacknowledged_def)

section \<open>Steps that do not touch the sender\<close>

lemma sender_inv_view:
  assumes "sender_inv s" and "sender_view fl' = sender_view (sd_flow s)"
  shows "sender_inv (s\<lparr>sd_flow := fl'\<rparr>)"
proof -
  note v = assms(2) [unfolded sender_view_eq]
  have u: "unacknowledged fl' = unacknowledged (sd_flow s)" by (rule unacknowledged_view) (use v in simp_all)
  have "sender_inv (s\<lparr>sd_flow := fl'\<rparr>) = sender_inv s" using v
    by (simp add: sender_inv_def stream_inv_def history_inv_def ack_inv_def carriers_inv_def u Let_def)
  with assms(1) show ?thesis by simp
qed

lemma sender_inv_closed: "sender_inv (s\<lparr>sd_user_closed := u\<rparr>) = sender_inv s"
  by (simp add: sender_inv_def stream_inv_def history_inv_def ack_inv_def carriers_inv_def Let_def)

lemma sender_inv_calls: "sender_inv (s\<lparr>sd_calls := calls\<rparr>) = sender_inv s"
  by (simp add: sender_inv_def stream_inv_def history_inv_def ack_inv_def carriers_inv_def Let_def)

lemma sender_inv_acks:
  assumes "sender_inv s"
  shows "sender_inv (s\<lparr>sd_acks := insert a (sd_acks s)\<rparr>)"
proof -
  let ?s = "s\<lparr>sd_acks := insert a (sd_acks s)\<rparr>"
  have "ack_inv ?s" using sender_inv_parts(3) [OF assms] by (simp add: ack_inv_def Let_def)
  moreover have "stream_inv ?s = stream_inv s" "history_inv ?s = history_inv s" "carriers_inv ?s = carriers_inv s"
    by (simp_all add: stream_inv_def history_inv_def carriers_inv_def Let_def)
  ultimately show ?thesis using assms by (simp add: sender_inv_def)
qed

section \<open>Acknowledgements\<close>

lemma ack_applied_inv:
  assumes "sender_inv s" and "(offset, fin) \<in> sd_acks s"
    and "\<not> acknowledgement_regresses (sd_flow s) offset fin"
    and "acknowledgement_written (sd_flow s) offset fin"
    and "d = None \<or> d = fl_deferred_ack (sd_flow s)"
  shows "sender_inv (s\<lparr>sd_flow := ack_applied (sd_flow s) offset fin d (sd_sent s)\<rparr>)"
proof -
  let ?fl = "sd_flow s" and ?fl' = "ack_applied (sd_flow s) offset fin d (sd_sent s)"
  note inv = sender_inv_parts [OF assms(1)]
  have le: "fl_global_ack_offset ?fl \<le> offset" and gf: "fl_global_ack_fin ?fl \<longrightarrow> fin"
    using assms(3) by (auto simp: acknowledgement_regresses_def)
  have mono: "global_acknowledged ?fl f \<Longrightarrow> global_acknowledged ?fl' f" for f
    using acknowledged_mono [of ?fl ?fl' f] le by simp
  then have sub: "set (unacknowledged ?fl' (sd_sent s)) \<subseteq> set (unacknowledged ?fl (sd_sent s))"
    by (auto simp: set_unacknowledged)
  have "unacknowledged ?fl' (unacknowledged ?fl (sd_sent s)) = unacknowledged ?fl' (sd_sent s)"
    using le by (intro unacknowledged_mono) simp_all
  then have size: "history_size (unacknowledged ?fl' (sd_sent s)) \<le> history_size (unacknowledged ?fl (sd_sent s))"
    using history_size_split [of "\<lambda>item. global_acknowledged ?fl' (rp_frame item)" "unacknowledged ?fl (sd_sent s)"]
    by (simp add: unacknowledged_def [of ?fl'] history_size_def)
  have "history_inv (s\<lparr>sd_flow := ?fl'\<rparr>)"
    using inv(2) size by (auto simp: history_inv_def Let_def)
  moreover have "ack_inv (s\<lparr>sd_flow := ?fl'\<rparr>)"
    using inv(3) assms(2,4,5) gf
    by (auto simp: ack_inv_def Let_def acknowledgement_written_def)
  moreover have "carriers_inv (s\<lparr>sd_flow := ?fl'\<rparr>)"
    using inv(4) sub unfolding carriers_inv_def Let_def by (simp add: subset_iff)
  moreover have "stream_inv (s\<lparr>sd_flow := ?fl'\<rparr>)"
    using inv(1) by (simp add: stream_inv_def)
  ultimately show ?thesis by (simp add: sender_inv_def)
qed

lemma deferred_after_cases: "deferred_after d offset fin = None \<or> deferred_after d offset fin = d"
  by (auto simp: deferred_after_def split: option.splits)

lemma apply_ack_inv:
  assumes "sender_inv s" and "(offset, fin) \<in> sd_acks s"
    and "\<not> acknowledgement_regresses (sd_flow s) offset fin"
    and "acknowledgement_written (sd_flow s) offset fin"
    and "apply_acknowledgement (sd_flow s) offset fin = (skipped, c, fl')"
  shows "sender_inv (s\<lparr>sd_flow := fl'\<rparr>)"
proof -
  have "fl_history (sd_flow s) = unacknowledged (sd_flow s) (sd_sent s)"
    "fl_history_bytes (sd_flow s) = history_size (fl_history (sd_flow s))"
    using sender_inv_parts(2) [OF assms(1)] by (simp_all add: history_inv_def)
  from apply_acknowledgement_spec [OF assms(3) this] assms(5)
  have "fl' = ack_applied (sd_flow s) offset fin (deferred_after (fl_deferred_ack (sd_flow s)) offset fin) (sd_sent s)"
    by auto
  with ack_applied_inv [OF assms(1-4) deferred_after_cases] show ?thesis by simp
qed

section \<open>Deferred acknowledgements\<close>

lemma remembered_bound:
  assumes "sender_inv s" and "acknowledgement_remembered (sd_flow s) offset fin"
  shows "unat offset \<le> length (sd_stream s) \<and> (fin \<longrightarrow> sd_eof s \<and> unat offset = length (sd_stream s))"
proof -
  note inv = sender_inv_parts [OF assms(1)]
  have S: "length (sd_stream s) < 2 ^ 64" using inv(1) by (simp add: stream_inv_def)
  obtain item where item: "item \<in> set (sd_sent s)"
    and r: "if fin then f_type (rp_frame item) = FrameFIN \<and> offset = f_offset (rp_frame item)
      else offset \<le> (if f_type (rp_frame item) = FrameData
        then f_offset (rp_frame item) + len64 (f_payload (rp_frame item)) else f_offset (rp_frame item))"
    using assms(2) inv(2) by (auto simp: acknowledgement_remembered_def list_ex_iff history_inv_def set_unacknowledged Let_def)
  note cut = sent_cut [OF inv(1) item]
  show ?thesis
    using r cut cut_stop [OF cut S]
    by (auto simp: cut_from_def frame_types word_le_nat_alt frame_stop_def split: if_splits)
qed

lemma deferred_irrelevant:
  fixes s x
  defines "s' \<equiv> s\<lparr>sd_flow := (sd_flow s)\<lparr>fl_deferred_ack := x\<rparr>\<rparr>"
  shows "stream_inv s' = stream_inv s" "history_inv s' = history_inv s" "carriers_inv s' = carriers_inv s"
proof -
  have u: "unacknowledged (sd_flow s\<lparr>fl_deferred_ack := x\<rparr>) = unacknowledged (sd_flow s)"
    by (rule unacknowledged_view) simp_all
  show "stream_inv s' = stream_inv s" "history_inv s' = history_inv s" "carriers_inv s' = carriers_inv s"
    by (simp_all add: s'_def stream_inv_def history_inv_def carriers_inv_def Let_def u)
qed

lemma defer_inv:
  assumes "sender_inv s" and "(offset, fin) \<in> sd_acks s" and "acknowledgement_remembered (sd_flow s) offset fin"
  shows "sender_inv (s\<lparr>sd_flow := defer_acknowledgement (sd_flow s) offset fin\<rparr>)"
proof -
  let ?fl' = "defer_acknowledgement (sd_flow s) offset fin"
  note inv = sender_inv_parts [OF assms(1)]
  have d: "?fl' = (sd_flow s)\<lparr>fl_deferred_ack := Some (offset, fin)\<rparr> \<or> ?fl' = sd_flow s"
    by (auto simp: defer_acknowledgement_def split: option.splits)
  show ?thesis
  proof (cases "?fl' = sd_flow s")
    case True
    have "s\<lparr>sd_flow := sd_flow s\<rparr> = s" by simp
    with True assms(1) show ?thesis by simp
  next
    case False
    with d have fl': "?fl' = (sd_flow s)\<lparr>fl_deferred_ack := Some (offset, fin)\<rparr>" by blast
    have "ack_inv (s\<lparr>sd_flow := (sd_flow s)\<lparr>fl_deferred_ack := Some (offset, fin)\<rparr>\<rparr>)"
      using inv(3) remembered_bound [OF assms(1,3)] assms(2) by (simp add: ack_inv_def Let_def)
    with inv show ?thesis unfolding fl' sender_inv_def by (simp add: deferred_irrelevant)
  qed
qed

lemma undefer_inv:
  assumes "sender_inv s"
  shows "sender_inv (s\<lparr>sd_flow := (sd_flow s)\<lparr>fl_deferred_ack := None\<rparr>\<rparr>)"
proof -
  note inv = sender_inv_parts [OF assms]
  have "ack_inv (s\<lparr>sd_flow := (sd_flow s)\<lparr>fl_deferred_ack := None\<rparr>\<rparr>)"
    using inv(3) by (simp add: ack_inv_def Let_def)
  with inv show ?thesis unfolding sender_inv_def by (simp add: deferred_irrelevant)
qed

lemma apply_deferred_inv:
  assumes "sender_inv s" and "apply_deferred_acknowledgement (sd_flow s) = (skipped, c, fl')"
  shows "sender_inv (s\<lparr>sd_flow := fl'\<rparr>)"
proof (cases "fl_deferred_ack (sd_flow s)")
  case None
  then have "fl' = sd_flow s" using assms(2) by (simp add: apply_deferred_acknowledgement_def)
  moreover have "s\<lparr>sd_flow := sd_flow s\<rparr> = s" by simp
  ultimately show ?thesis using assms(1) by simp
next
  case (Some d)
  obtain offset fin where d: "d = (offset, fin)" by (cases d)
  let ?s0 = "s\<lparr>sd_flow := (sd_flow s)\<lparr>fl_deferred_ack := None\<rparr>\<rparr>"
  have same: "s\<lparr>sd_flow := sd_flow s\<rparr> = s" by simp
  have regr: "acknowledgement_regresses (sd_flow ?s0) offset fin = acknowledgement_regresses (sd_flow s) offset fin"
    "acknowledgement_written (sd_flow ?s0) offset fin = acknowledgement_written (sd_flow s) offset fin"
    by (simp_all add: acknowledgement_regresses_def acknowledgement_written_def)
  have acked: "(offset, fin) \<in> sd_acks ?s0"
    using sender_inv_parts(3) [OF assms(1)] Some d by (simp add: ack_inv_def Let_def)
  have "fl' = (sd_flow s)\<lparr>fl_deferred_ack := None\<rparr> \<or> fl' = sd_flow s \<or>
      (\<not> acknowledgement_regresses (sd_flow s) offset fin \<and> acknowledgement_written (sd_flow s) offset fin \<and>
        apply_acknowledgement (sd_flow ?s0) offset fin = (skipped, c, fl'))"
    using assms(2) Some d unfolding apply_deferred_acknowledgement_def by (simp split: if_splits)
  then consider (drop) "fl' = (sd_flow s)\<lparr>fl_deferred_ack := None\<rparr>" | (keep) "fl' = sd_flow s"
    | (applied) "\<not> acknowledgement_regresses (sd_flow s) offset fin" "acknowledgement_written (sd_flow s) offset fin"
        "apply_acknowledgement (sd_flow ?s0) offset fin = (skipped, c, fl')"
    by blast
  then show ?thesis
  proof cases
    case drop
    with undefer_inv [OF assms(1)] show ?thesis by simp
  next
    case keep
    with assms(1) same show ?thesis by (simp only:)
  next
    case applied
    from apply_ack_inv [OF undefer_inv [OF assms(1)] acked _ _ applied(3)] regr applied(1,2)
    show ?thesis by simp
  qed
qed

lemma acknowledge_inv:
  assumes "sender_inv s" and "(offset, fin) \<in> sd_acks s"
    and "acknowledge (sd_flow s) c offset fin = (skipped, cmp, fl')"
  shows "sender_inv (s\<lparr>sd_flow := fl'\<rparr>)"
proof -
  have same: "s\<lparr>sd_flow := sd_flow s\<rparr> = s" by simp
  have "fl' = sd_flow s \<or>
      (acknowledgement_remembered (sd_flow s) offset fin \<and> fl' = defer_acknowledgement (sd_flow s) offset fin) \<or>
      (\<not> acknowledgement_regresses (sd_flow s) offset fin \<and> acknowledgement_written (sd_flow s) offset fin \<and>
        apply_acknowledgement (sd_flow s) offset fin = (skipped, cmp, fl'))"
    using assms(3) unfolding acknowledge_def by (simp split: if_splits)
  then consider (keep) "fl' = sd_flow s"
    | (later) "acknowledgement_remembered (sd_flow s) offset fin" "fl' = defer_acknowledgement (sd_flow s) offset fin"
    | (now) "\<not> acknowledgement_regresses (sd_flow s) offset fin" "acknowledgement_written (sd_flow s) offset fin"
        "apply_acknowledgement (sd_flow s) offset fin = (skipped, cmp, fl')"
    by blast
  then show ?thesis
  proof cases
    case keep
    with assms(1) same show ?thesis by (simp only:)
  next
    case later
    with defer_inv [OF assms(1,2)] show ?thesis by simp
  next
    case now
    with apply_ack_inv [OF assms(1,2) now] show ?thesis by simp
  qed
qed

section \<open>Picking and writing\<close>

lemma set_state_simps [simp]:
  "map_of (fl_carrier_states (set_state fl c st)) = (map_of (fl_carrier_states fl))(c \<mapsto> st)"
  "fl_history (set_state fl c st) = fl_history fl"
  "fl_history_bytes (set_state fl c st) = fl_history_bytes fl"
  "fl_next_sequence (set_state fl c st) = fl_next_sequence fl"
  "fl_global_ack_offset (set_state fl c st) = fl_global_ack_offset fl"
  "fl_global_ack_fin (set_state fl c st) = fl_global_ack_fin fl"
  "fl_written_offset (set_state fl c st) = fl_written_offset fl"
  "fl_written_fin (set_state fl c st) = fl_written_fin fl"
  "fl_written_fin_offset (set_state fl c st) = fl_written_fin_offset fl"
  "fl_deferred_ack (set_state fl c st) = fl_deferred_ack fl"
  "fl_local_fin_ack (set_state fl c st) = fl_local_fin_ack fl"
  "fl_config (set_state fl c st) = fl_config fl"
  "fl_carriers (set_state fl c st) = fl_carriers fl"
  "fl_local_fin (set_state fl c st) = fl_local_fin fl"
  "fl_remote_fin (set_state fl c st) = fl_remote_fin fl"
  "fl_remote_fin_ack_sent (set_state fl c st) = fl_remote_fin_ack_sent fl"
  "fl_closed (set_state fl c st) = fl_closed fl"
  "fl_terminal_err (set_state fl c st) = fl_terminal_err fl"
  by (simp_all add: set_state_def update_conv')

lemma set_state_keys:
  "map_of (fl_carrier_states fl) c \<noteq> None \<Longrightarrow>
     map fst (fl_carrier_states (set_state fl c st)) = map fst (fl_carrier_states fl)"
  by (auto simp: set_state_def update_keys map_of_eq_None_iff)

lemma unacknowledged_set_state [simp]: "unacknowledged (set_state fl c st) = unacknowledged fl"
  by (rule unacknowledged_view) simp_all

lemma pick_inv:
  assumes "sender_inv s" and "sd_sending s c = None" and "send_pick (sd_flow s) c = (Return item, fl')"
  shows "sender_inv (s\<lparr>sd_flow := fl', sd_sending := (sd_sending s)(c := Some item)\<rparr>)"
proof -
  let ?fl = "sd_flow s"
  note inv = sender_inv_parts [OF assms(1)]
  obtain st where st: "map_of (fl_carrier_states ?fl) c = Some st"
    and f: "find (\<lambda>x. rp_sequence x \<ge> st_next_sequence st) (fl_history ?fl) = Some item"
    and fl': "fl' = set_state ?fl c (st\<lparr>st_in_flight := Some (rp_sequence item)\<rparr>)"
    using assms(3) by (auto simp: send_pick_def split: option.splits if_splits)
  have h: "fl_history ?fl = unacknowledged ?fl (sd_sent s)" using inv(2) by (simp add: history_inv_def)
  note first = find_first [OF sorted_unacknowledged [OF sequences(1) [OF inv(1)]] f [unfolded h]]
  have "map fst (fl_carrier_states ?fl) = fl_carriers ?fl" "set (fl_carriers ?fl) \<subseteq> sd_used s"
    using inv(4) by (simp_all add: carriers_inv_def Let_def)
  moreover have "c \<in> set (map fst (fl_carrier_states ?fl))" using map_of_SomeD [OF st] by force
  ultimately have used: "c \<in> sd_used s" by auto
  have "carriers_inv (s\<lparr>sd_flow := fl', sd_sending := (sd_sending s)(c := Some item)\<rparr>)"
    using inv(4) st used first unfolding carriers_inv_def Let_def fl'
    by (auto simp: set_state_keys set_unacknowledged)
  moreover have "stream_inv (s\<lparr>sd_flow := fl', sd_sending := x\<rparr>) = stream_inv s"
    "history_inv (s\<lparr>sd_flow := fl', sd_sending := x\<rparr>) = history_inv s"
    "ack_inv (s\<lparr>sd_flow := fl', sd_sending := x\<rparr>) = ack_inv s" for x
    by (simp_all add: stream_inv_def history_inv_def ack_inv_def fl' Let_def)
  ultimately show ?thesis using inv by (simp add: sender_inv_def)
qed

text \<open>The state after the write, before the deferred acknowledgement is looked at.\<close>

definition after_write :: "flow \<Rightarrow> cid \<Rightarrow> carrier_state \<Rightarrow> replay_frame \<Rightarrow> flow" where
  "after_write fl c st item =
     (let f = rp_frame item; fl1 = set_state fl c st
      in if f_type f = FrameData then fl1\<lparr>fl_written_offset := max (fl_written_offset fl) (f_offset f + len64 (f_payload f))\<rparr>
         else if f_type f = FrameFIN then
           fl1\<lparr>fl_written_offset := max (fl_written_offset fl) (f_offset f), fl_written_fin := True,
               fl_written_fin_offset := f_offset f\<rparr>
         else fl1)"

lemma send_done_after_write:
  assumes "map_of (fl_carrier_states fl) c = Some st0"
  shows "\<exists>st. st_next_sequence st = rp_sequence item + 1 \<and>
    send_done fl c item = apply_deferred_acknowledgement (after_write fl c st item)"
proof -
  let ?st = "st0\<lparr>st_in_flight := None, st_next_sequence := rp_sequence item + 1, st_written := Some (rp_sequence item)\<rparr>"
  let ?f = "rp_frame item"
  consider "f_type ?f = FrameData" | "f_type ?f = FrameFIN" | "f_type ?f \<noteq> FrameData" "f_type ?f \<noteq> FrameFIN" by blast
  then show ?thesis
  proof cases
    case 1
    with assms show ?thesis
      by (intro exI [of _ "?st\<lparr>st_written_offset := f_offset ?f + len64 (f_payload ?f)\<rparr>"])
        (simp add: send_done_def after_write_def Let_def)
  next
    case 2
    with assms show ?thesis
      by (intro exI [of _ "?st\<lparr>st_written_offset := f_offset ?f, st_written_fin := True\<rparr>"])
        (simp add: send_done_def after_write_def Let_def frame_types)
  next
    case 3
    with assms show ?thesis
      by (intro exI [of _ ?st]) (simp add: send_done_def after_write_def Let_def)
  qed
qed

lemma after_write_simps [simp]:
  "map_of (fl_carrier_states (after_write fl c st item)) = (map_of (fl_carrier_states fl))(c \<mapsto> st)"
  "fl_history (after_write fl c st item) = fl_history fl"
  "fl_history_bytes (after_write fl c st item) = fl_history_bytes fl"
  "fl_next_sequence (after_write fl c st item) = fl_next_sequence fl"
  "fl_global_ack_offset (after_write fl c st item) = fl_global_ack_offset fl"
  "fl_global_ack_fin (after_write fl c st item) = fl_global_ack_fin fl"
  "fl_deferred_ack (after_write fl c st item) = fl_deferred_ack fl"
  "fl_local_fin_ack (after_write fl c st item) = fl_local_fin_ack fl"
  "fl_config (after_write fl c st item) = fl_config fl"
  "fl_carriers (after_write fl c st item) = fl_carriers fl"
  "fl_carrier_states (after_write fl c st item) = fl_carrier_states (set_state fl c st)"
  "fl_local_fin (after_write fl c st item) = fl_local_fin fl"
  "fl_remote_fin (after_write fl c st item) = fl_remote_fin fl"
  "fl_remote_fin_ack_sent (after_write fl c st item) = fl_remote_fin_ack_sent fl"
  "fl_closed (after_write fl c st item) = fl_closed fl"
  "fl_terminal_err (after_write fl c st item) = fl_terminal_err fl"
  by (simp_all add: after_write_def Let_def)

lemma unat_max: "unat (max a b :: 'a::len word) = max (unat a) (unat b)"
  by (auto simp: max_def word_le_nat_alt)

lemma written_inv:
  assumes "sender_inv s" and "sd_sending s c = Some item"
    and "map_of (fl_carrier_states (sd_flow s)) c = Some st0" and "st_next_sequence st = rp_sequence item + 1"
  shows "sender_inv (s\<lparr>sd_flow := after_write (sd_flow s) c st item, sd_sending := (sd_sending s)(c := None),
    sd_log := (sd_log s)(c := sd_log s c @ [item])\<rparr>)" (is "sender_inv ?s'")
proof -
  let ?fl = "sd_flow s" and ?f = "rp_frame item"
  note inv = sender_inv_parts [OF assms(1)]
  have S: "length (sd_stream s) < 2 ^ 64" "length (sd_sent s) < 2 ^ 64" using inv(1) by (simp_all add: stream_inv_def)
  have item: "item \<in> set (sd_sent s)" using inv(4) assms(2) by (simp add: carriers_inv_def Let_def)
  note cut = sent_cut [OF inv(1) item]
  note stop = cut_stop [OF cut S(1)]
  have seq: "unat (rp_sequence item) < length (sd_sent s)" by (rule sequences(2) [OF inv(1) item])
  then have next_seq: "unat (rp_sequence item + 1) = Suc (unat (rp_sequence item))"
    using S(2) by (simp add: unat_plus_if')
  have u: "unacknowledged (after_write ?fl c st item) = unacknowledged ?fl" by (rule unacknowledged_view) simp_all
  have "stream_inv ?s'" using inv(1) by (simp add: stream_inv_def)
  moreover have "history_inv ?s'" using inv(2) by (auto simp: history_inv_def u Let_def)
  moreover have "carriers_inv ?s'"
  proof -
    have cov: "x \<in> set (sd_log s c) \<or> x = item"
      if x: "x \<in> set (unacknowledged ?fl (sd_sent s))" "rp_sequence x < rp_sequence item + 1" for x
    proof (cases "rp_sequence x < st_next_sequence st0")
      case True
      with x inv(4) assms(3) show ?thesis by (auto simp: carriers_inv_def Let_def)
    next
      case False
      with x(1) inv(4) assms(2,3) have "rp_sequence item \<le> rp_sequence x"
        by (auto simp: carriers_inv_def Let_def not_less)
      with x(2) next_seq have "rp_sequence x = rp_sequence item"
        by (simp add: word_le_nat_alt word_less_nat_alt word_unat_eq_iff)
      with x(1) item show ?thesis using sequences(3) [OF inv(1)] by (auto simp: set_unacknowledged)
    qed
    have "map fst (fl_carrier_states (set_state ?fl c st)) = map fst (fl_carrier_states ?fl)"
      using assms(3) by (simp add: set_state_keys)
    then show ?thesis using inv(4) cov item seq next_seq assms(4)
      unfolding carriers_inv_def Let_def by (auto simp: u)
  qed
  moreover have "ack_inv ?s'"
  proof -
    let ?fl' = "after_write ?fl c st item"
    have logs: "set (sd_log s c') \<subseteq> set (sd_log ?s' c')" "item \<in> set (sd_log ?s' c)" for c' by auto
    have fin_stop: "f_type ?f = FrameFIN \<Longrightarrow> frame_stop ?f = unat (f_offset ?f) \<and> sd_eof s \<and> unat (f_offset ?f) = length (sd_stream s)"
      using cut by (auto simp: cut_from_def frame_stop_def frame_types)
    have wo: "fl_written_offset ?fl' = fl_written_offset ?fl \<or> unat (fl_written_offset ?fl') = frame_stop ?f"
      "fl_written_offset ?fl \<le> fl_written_offset ?fl'"
      using stop fin_stop by (auto simp: after_write_def Let_def max_def)
    have wf: "fl_written_fin ?fl' \<longrightarrow> (fl_written_fin ?fl \<and> fl_written_fin_offset ?fl' = fl_written_fin_offset ?fl) \<or>
        (f_type ?f = FrameFIN \<and> fl_written_fin_offset ?fl' = f_offset ?f)"
      "fl_written_fin ?fl \<longrightarrow> fl_written_fin ?fl'"
      by (auto simp: after_write_def Let_def)
    have old: "unat (fl_written_offset ?fl) \<le> length (sd_stream s)"
      "fl_written_offset ?fl \<noteq> 0 \<longrightarrow> (\<exists>c. \<exists>x \<in> set (sd_log s c). frame_stop (rp_frame x) = unat (fl_written_offset ?fl))"
      "fl_written_fin ?fl \<longrightarrow> sd_eof s \<and> unat (fl_written_fin_offset ?fl) = length (sd_stream s) \<and>
         (\<exists>c. \<exists>x \<in> set (sd_log s c). f_type (rp_frame x) = FrameFIN)"
      "fl_global_ack_offset ?fl \<le> fl_written_offset ?fl"
      using inv(3) by (simp_all add: ack_inv_def Let_def)
    have "unat (fl_written_offset ?fl') \<le> length (sd_stream s)" using wo(1) old(1) stop(1) by auto
    moreover have "\<exists>c. \<exists>x \<in> set (sd_log ?s' c). frame_stop (rp_frame x) = unat (fl_written_offset ?fl')"
      if "fl_written_offset ?fl' \<noteq> 0"
    proof (cases "fl_written_offset ?fl' = fl_written_offset ?fl")
      case True
      with that old(2) obtain c' x where "x \<in> set (sd_log s c')"
        "frame_stop (rp_frame x) = unat (fl_written_offset ?fl')" by auto
      with logs(1) [of c'] show ?thesis by blast
    next
      case False
      with wo(1) have "frame_stop ?f = unat (fl_written_offset ?fl')" by simp
      with logs(2) show ?thesis by blast
    qed
    moreover have "sd_eof s \<and> unat (fl_written_fin_offset ?fl') = length (sd_stream s) \<and>
        (\<exists>c. \<exists>x \<in> set (sd_log ?s' c). f_type (rp_frame x) = FrameFIN)" if "fl_written_fin ?fl'"
    proof (cases "f_type ?f = FrameFIN \<and> fl_written_fin_offset ?fl' = f_offset ?f")
      case True
      with fin_stop have "sd_eof s \<and> unat (fl_written_fin_offset ?fl') = length (sd_stream s)" by simp
      with True logs(2) show ?thesis by blast
    next
      case False
      with wf(1) that have "fl_written_fin ?fl" "fl_written_fin_offset ?fl' = fl_written_fin_offset ?fl" by blast+
      with old(3) obtain c' x where "x \<in> set (sd_log s c')" "f_type (rp_frame x) = FrameFIN"
        "sd_eof s \<and> unat (fl_written_fin_offset ?fl') = length (sd_stream s)" by auto
      with logs(1) [of c'] show ?thesis by blast
    qed
    moreover have "fl_global_ack_offset ?fl' \<le> fl_written_offset ?fl'" using wo(2) old(4) by simp
    ultimately show ?thesis using inv(3) wf(2) unfolding ack_inv_def Let_def by simp
  qed
  ultimately show ?thesis by (simp add: sender_inv_def)
qed

text \<open>A write on a carrier that was detached meanwhile only counts in the log.\<close>

lemma written_gone_inv:
  assumes "sender_inv s" and "sd_sending s c = Some item"
  shows "sender_inv (s\<lparr>sd_sending := (sd_sending s)(c := None), sd_log := (sd_log s)(c := sd_log s c @ [item])\<rparr>)"
    (is "sender_inv ?s'")
proof -
  note inv = sender_inv_parts [OF assms(1)]
  have item: "item \<in> set (sd_sent s)" using inv(4) assms(2) by (simp add: carriers_inv_def Let_def)
  have logs: "set (sd_log s c') \<subseteq> set (sd_log ?s' c')" for c' by auto
  have "ack_inv ?s'"
  proof -
    have "\<exists>c. \<exists>x \<in> set (sd_log ?s' c). P x" if "\<exists>c. \<exists>x \<in> set (sd_log s c). P x" for P
      using that logs by (meson subsetD)
    then show ?thesis using inv(3) unfolding ack_inv_def Let_def by simp
  qed
  moreover have "carriers_inv ?s'" using inv(4) item unfolding carriers_inv_def Let_def by auto
  moreover have "stream_inv ?s' = stream_inv s" "history_inv ?s' = history_inv s"
    by (simp_all add: stream_inv_def history_inv_def)
  ultimately show ?thesis using inv by (simp add: sender_inv_def)
qed

section \<open>Remembering\<close>

definition appended :: "flow \<Rightarrow> frame \<Rightarrow> flow" where
  "appended fl f = fl\<lparr>fl_next_sequence := fl_next_sequence fl + 1,
     fl_history := fl_history fl @ [\<lparr>rp_sequence = fl_next_sequence fl, rp_frame = f\<rparr>],
     fl_history_bytes := fl_history_bytes fl + int (length (f_payload f))\<rparr>"

lemma remember_cases:
  assumes "history_inv s" and "remember (sd_flow s) f = (res, skipped, fl')"
  shows "(fl' = sd_flow s \<and> remembered res f = []) \<or>
    (fl' = appended (sd_flow s) f \<and>
     remembered res f = [\<lparr>rp_sequence = fl_next_sequence (sd_flow s), rp_frame = f\<rparr>] \<and>
     (let window = cfg_reorder_window_bytes (fl_config (sd_flow s))
      in window > 0 \<longrightarrow> fl_history_bytes (sd_flow s) + int (length (f_payload f)) \<le> window))"
proof -
  let ?fl = "sd_flow s"
  obtain sk where p: "prune_history ?fl = (sk, ?fl)"
    using prune_history_none [of ?fl "sd_sent s"] assms(1) unfolding history_inv_def by blast
  have ap: "remember_append ?fl f = (Fail ErrNoCarriers, ?fl) \<or>
      remember_append ?fl f = (Return (fl_next_sequence ?fl), appended ?fl f)"
    by (simp add: remember_append_def appended_def)
  show ?thesis
  proof (cases "cfg_reorder_window_bytes (fl_config ?fl) > 0 \<and>
      fl_history_bytes ?fl + int (length (f_payload f)) > cfg_reorder_window_bytes (fl_config ?fl)")
    case True
    with assms(2) p show ?thesis by (auto simp: remember_def Let_def remembered_def split: if_splits)
  next
    case False
    with assms(2) ap show ?thesis by (auto simp: remember_def Let_def remembered_def)
  qed
qed

lemma append_inv:
  assumes "sender_inv s" and "length (sd_sent s) + 1 < 2 ^ 64"
    and x: "x = \<lparr>rp_sequence = fl_next_sequence (sd_flow s), rp_frame = f\<rparr>"
    and win: "cfg_reorder_window_bytes (fl_config (sd_flow s)) > 0 \<Longrightarrow>
       fl_history_bytes (sd_flow s) + int (length (f_payload f)) \<le> cfg_reorder_window_bytes (fl_config (sd_flow s))"
    and old: "\<And>g. cut_from (sd_stream s) (sd_eof s) g \<Longrightarrow> cut_from stream eof g"
    and new: "cut_from stream eof f" "\<not> global_acknowledged (sd_flow s) f"
      "cells 0 stream \<subseteq> cells 0 (sd_stream s) \<union> cells (unat (f_offset f)) (f_payload f)"
    and eof: "eof \<Longrightarrow> f_type f = FrameFIN" "\<not> sd_eof s"
    and len: "length (sd_stream s) \<le> length stream" "length stream < 2 ^ 64"
  shows "sender_inv (s\<lparr>sd_flow := appended (sd_flow s) f, sd_sent := sd_sent s @ [x],
    sd_stream := stream, sd_eof := eof\<rparr>)" (is "sender_inv ?s'")
proof -
  let ?fl = "sd_flow s" and ?fl' = "appended (sd_flow s) f"
  note inv = sender_inv_parts [OF assms(1)]
  have next_seq: "unat (fl_next_sequence ?fl) = length (sd_sent s)" using inv(1) by (simp add: stream_inv_def)
  then have next': "unat (fl_next_sequence ?fl + 1) = Suc (length (sd_sent s))"
    using assms(2) by (simp add: unat_plus_if')
  have u: "unacknowledged ?fl' = unacknowledged ?fl"
    by (rule unacknowledged_view) (simp_all add: appended_def)
  have ux: "unacknowledged ?fl (sd_sent s @ [x]) = unacknowledged ?fl (sd_sent s) @ [x]"
    using new(2) by (simp add: unacknowledged_def x)
  have nofin: "\<not> fl_written_fin ?fl" "\<not> fl_global_ack_fin ?fl"
    using inv(3) eof(2) by (auto simp: ack_inv_def Let_def)
  have "stream_inv ?s'"
    using inv(1) old new(1,3) eof len assms(2) next_seq next'
    by (auto simp: stream_inv_def appended_def x Un_assoc)
  moreover have "history_inv ?s'"
    using inv(2) win by (simp add: history_inv_def u ux Let_def) (auto simp: appended_def x history_size_def)
  moreover have "ack_inv ?s'"
    using inv(3) len(1) nofin eof(2) unfolding ack_inv_def Let_def by (auto simp: appended_def)
  moreover have "carriers_inv ?s'"
  proof -
    have "\<not> rp_sequence x < st_next_sequence st" if "unat (st_next_sequence st) \<le> length (sd_sent s)" for st
      using that next_seq by (simp add: x word_less_nat_alt)
    moreover have "rp_sequence held \<le> rp_sequence x" if "held \<in> set (sd_sent s)" for held
      using sequences(2) [OF inv(1) that] next_seq by (simp add: x word_le_nat_alt)
    ultimately show ?thesis using inv(4) unfolding carriers_inv_def Let_def
      by (simp add: u ux) (fastforce simp: appended_def)
  qed
  ultimately show ?thesis by (simp add: sender_inv_def)
qed

lemma cut_from_append:
  assumes "cut_from S False g"
  shows "cut_from (S @ p) False g"
  using assms by (auto simp: cut_from_def frame_stop_def take_append drop_append)

lemma read_chunk_size_bounds: "0 < read_chunk_size cfg \<and> read_chunk_size cfg \<le> int MaxPayloadSize"
  by (simp add: read_chunk_size_def MaxPayloadSize_def)

lemma data_inv:
  assumes "sender_inv s" and "p \<noteq> []" "\<not> sd_eof s" "length (sd_stream s) + length p < 2 ^ 64"
    and "length (sd_sent s) + 1 < 2 ^ 64"
    and f: "f = data_frame (sd_flow s) (word_of_nat (length (sd_stream s))) p"
    and "remember (sd_flow s) f = (res, skipped, fl')"
    and "length p \<le> MaxPayloadSize"
  shows "sender_inv (s\<lparr>sd_flow := fl', sd_sent := sd_sent s @ remembered res f,
    sd_stream := sd_stream s @ concat (map (\<lambda>_. p) (remembered res f))\<rparr>)"
proof -
  let ?x = "\<lparr>rp_sequence = fl_next_sequence (sd_flow s), rp_frame = f\<rparr>"
  note inv = sender_inv_parts [OF assms(1)]
  have off: "unat (word_of_nat (length (sd_stream s)) :: u64) = length (sd_stream s)"
    using assms(4) by (simp add: unat_word_of_nat)
  from remember_cases [OF inv(2) assms(7)] show ?thesis
  proof
    assume "fl' = sd_flow s \<and> remembered res f = []"
    moreover have "s\<lparr>sd_flow := sd_flow s, sd_sent := sd_sent s, sd_stream := sd_stream s\<rparr> = s" by simp
    ultimately show ?thesis using assms(1) by simp
  next
    assume r: "fl' = appended (sd_flow s) f \<and> remembered res f = [?x] \<and>
      (let window = cfg_reorder_window_bytes (fl_config (sd_flow s))
       in window > 0 \<longrightarrow> fl_history_bytes (sd_flow s) + int (length (f_payload f)) \<le> window)"
    have cut: "cut_from (sd_stream s @ p) False f"
      using assms(2) off assms(8)
      by (auto simp: cut_from_def f data_frame_def frame_stop_def)
    have "unat (fl_global_ack_offset (sd_flow s)) \<le> length (sd_stream s)"
      using inv(3) by (auto simp: ack_inv_def Let_def word_le_nat_alt)
    moreover have "frame_stop f = length (sd_stream s) + length p" using off by (simp add: frame_stop_def f data_frame_def)
    ultimately have "\<not> global_acknowledged (sd_flow s) f"
      using acknowledged_cut [OF cut] assms(2,4) by (cases p) auto
    moreover have "cells 0 (sd_stream s @ p) \<subseteq> cells 0 (sd_stream s) \<union> cells (unat (f_offset f)) (f_payload f)"
      using off by (simp add: cells_append f data_frame_def)
    ultimately have "sender_inv (s\<lparr>sd_flow := appended (sd_flow s) f, sd_sent := sd_sent s @ [?x],
        sd_stream := sd_stream s @ p, sd_eof := False\<rparr>)"
      using r assms(3,4) cut cut_from_append
      by (intro append_inv [OF assms(1,5)]) (auto simp: Let_def)
    moreover have "s\<lparr>sd_flow := a, sd_sent := b, sd_stream := c, sd_eof := False\<rparr> =
        s\<lparr>sd_flow := a, sd_sent := b, sd_stream := c\<rparr>" for a b c using assms(3) by simp
    ultimately show ?thesis using r by simp
  qed
qed

lemma fin_inv:
  assumes "sender_inv s" and "\<not> sd_eof s" and "length (sd_sent s) + 1 < 2 ^ 64"
    and f: "f = fin_frame (sd_flow s) (word_of_nat (length (sd_stream s)))"
    and "remember (sd_flow s) f = (res, skipped, fl')"
  shows "sender_inv (s\<lparr>sd_flow := fl', sd_sent := sd_sent s @ remembered res f, sd_eof := (remembered res f \<noteq> [])\<rparr>)"
proof -
  let ?x = "\<lparr>rp_sequence = fl_next_sequence (sd_flow s), rp_frame = f\<rparr>"
  note inv = sender_inv_parts [OF assms(1)]
  have S: "length (sd_stream s) < 2 ^ 64" using inv(1) by (simp add: stream_inv_def)
  then have off: "unat (word_of_nat (length (sd_stream s)) :: u64) = length (sd_stream s)"
    by (simp add: unat_word_of_nat)
  from remember_cases [OF inv(2) assms(5)] show ?thesis
  proof
    assume r: "fl' = sd_flow s \<and> remembered res f = []"
    moreover have "s\<lparr>sd_flow := sd_flow s, sd_sent := sd_sent s, sd_eof := False\<rparr> = s" using assms(2) by simp
    ultimately show ?thesis using assms(1) by simp
  next
    assume r: "fl' = appended (sd_flow s) f \<and> remembered res f = [?x] \<and>
      (let window = cfg_reorder_window_bytes (fl_config (sd_flow s))
       in window > 0 \<longrightarrow> fl_history_bytes (sd_flow s) + int (length (f_payload f)) \<le> window)"
    have cut: "cut_from (sd_stream s) True f"
      using off by (auto simp: cut_from_def f fin_frame_def frame_types)
    have "\<not> fl_global_ack_fin (sd_flow s)" using inv(3) assms(2) by (auto simp: ack_inv_def Let_def)
    then have "\<not> global_acknowledged (sd_flow s) f" by (simp add: global_acknowledged_def f fin_frame_def)
    then have "sender_inv (s\<lparr>sd_flow := appended (sd_flow s) f, sd_sent := sd_sent s @ [?x],
        sd_stream := sd_stream s, sd_eof := True\<rparr>)"
      using r assms(2) cut S
      by (intro append_inv [OF assms(1,3)]) (auto simp: Let_def cut_from_def f fin_frame_def)
    then show ?thesis using r by simp
  qed
qed

section \<open>Carriers come and go\<close>

lemma attach_inv:
  assumes "sender_inv s" and "c \<notin> sd_used s"
    and "attach_limited (sd_flow s) c max_payload max_carriers = Inr (m, ack, fl')"
  shows "sender_inv (s\<lparr>sd_flow := fl', sd_used := insert c (sd_used s)\<rparr>)" (is "sender_inv ?s'")
proof -
  let ?fl = "sd_flow s"
  note inv = sender_inv_parts [OF assms(1)]
  have h: "fl_history ?fl = unacknowledged ?fl (sd_sent s)" using inv(2) by (simp add: history_inv_def)
  define n where "n = (case fl_history ?fl of [] \<Rightarrow> fl_next_sequence ?fl | item # _ \<Rightarrow> rp_sequence item)"
  define st where "st = \<lparr>st_next_sequence = n, st_in_flight = None, st_written = None,
      st_written_offset = 0, st_written_fin = False\<rparr>"
  have fl': "fl' = (set_state ?fl c st)\<lparr>fl_carriers := fl_carriers ?fl @ [c]\<rparr>"
    using assms(3) by (auto simp: attach_limited_def Let_def n_def st_def split: if_splits)
  have u: "unacknowledged fl' = unacknowledged ?fl" unfolding fl' by (rule unacknowledged_view) simp_all
  have fresh: "c \<notin> set (fl_carriers ?fl)" "sd_sending s c = None"
    "map fst (fl_carrier_states ?fl) = fl_carriers ?fl"
    using inv(4) assms(2) by (auto simp: carriers_inv_def Let_def) (metis option.exhaust)
  then have keys: "map fst (fl_carrier_states (set_state ?fl c st)) = fl_carriers ?fl @ [c]"
    by (simp add: set_state_def update_keys)
  have none_below: "\<not> rp_sequence item < n" if "item \<in> set (unacknowledged ?fl (sd_sent s))" for item
  proof (cases "fl_history ?fl")
    case Nil
    with that h show ?thesis by simp
  next
    case (Cons x xs)
    have "sorted (map (unat \<circ> rp_sequence) (fl_history ?fl))"
      unfolding h by (rule sorted_unacknowledged [OF sequences(1) [OF inv(1)]])
    with Cons that h show ?thesis by (auto simp: n_def word_less_nat_alt not_less)
  qed
  have "unat n \<le> length (sd_sent s)"
  proof (cases "fl_history ?fl")
    case Nil
    with inv(1) show ?thesis by (simp add: n_def stream_inv_def)
  next
    case (Cons x xs)
    then have "x \<in> set (sd_sent s)" using h by (metis list.set_intros(1) set_unacknowledged)
    with Cons sequences(2) [OF inv(1)] show ?thesis by (simp add: n_def less_imp_le)
  qed
  moreover have "map_of (fl_carrier_states fl') = (map_of (fl_carrier_states ?fl))(c \<mapsto> st)" by (simp add: fl')
  moreover have "map fst (fl_carrier_states fl') = fl_carriers fl'" "fl_carriers fl' = fl_carriers ?fl @ [c]"
    using keys by (simp_all add: fl')
  ultimately have "carriers_inv ?s'"
    using inv(4) fresh none_below unfolding carriers_inv_def Let_def by (auto simp: u st_def)
  moreover have "stream_inv ?s'" "ack_inv ?s'" using inv(1,3) by (simp_all add: stream_inv_def ack_inv_def Let_def fl')
  moreover have "history_inv ?s'" using inv(2) by (simp add: history_inv_def Let_def u) (auto simp: fl')
  ultimately show ?thesis by (simp add: sender_inv_def)
qed

lemma fewer_carriers_inv:
  assumes "sender_inv s" and "map fst states = carriers" and "distinct carriers"
    and "set carriers \<subseteq> set (fl_carriers (sd_flow s))"
    and "\<And>c st. map_of states c = Some st \<Longrightarrow> map_of (fl_carrier_states (sd_flow s)) c = Some st"
  shows "sender_inv (s\<lparr>sd_flow := (sd_flow s)\<lparr>fl_carriers := carriers, fl_carrier_states := states\<rparr>\<rparr>)"
    (is "sender_inv (s\<lparr>sd_flow := ?fl'\<rparr>)")
proof -
  note inv = sender_inv_parts [OF assms(1)]
  have u: "unacknowledged ?fl' = unacknowledged (sd_flow s)" by (rule unacknowledged_view) simp_all
  have "carriers_inv (s\<lparr>sd_flow := ?fl'\<rparr>)"
    using inv(4) assms(2-4) assms(5) unfolding carriers_inv_def Let_def
    by (simp add: u del: map_of_eq_Some_iff) blast
  moreover have "stream_inv (s\<lparr>sd_flow := ?fl'\<rparr>) = stream_inv s" "history_inv (s\<lparr>sd_flow := ?fl'\<rparr>) = history_inv s"
    "ack_inv (s\<lparr>sd_flow := ?fl'\<rparr>) = ack_inv s"
    by (simp_all add: stream_inv_def history_inv_def ack_inv_def Let_def u)
  ultimately show ?thesis using inv by (simp add: sender_inv_def)
qed

definition without_carrier :: "flow \<Rightarrow> cid \<Rightarrow> flow" where
  "without_carrier fl c = fl\<lparr>fl_carriers := remove1 c (fl_carriers fl),
     fl_carrier_states := AList.delete c (fl_carrier_states fl)\<rparr>"

lemma without_carrier_inv:
  assumes "sender_inv s"
  shows "sender_inv (s\<lparr>sd_flow := without_carrier (sd_flow s) c\<rparr>)"
  unfolding without_carrier_def
proof (rule fewer_carriers_inv [OF assms])
  have k: "map fst (fl_carrier_states (sd_flow s)) = fl_carriers (sd_flow s)" "distinct (fl_carriers (sd_flow s))"
    using sender_inv_parts(4) [OF assms] by (simp_all add: carriers_inv_def Let_def)
  then show "map fst (AList.delete c (fl_carrier_states (sd_flow s))) = remove1 c (fl_carriers (sd_flow s))"
    by (simp add: delete_keys distinct_remove1_removeAll)
  show "distinct (remove1 c (fl_carriers (sd_flow s)))" using k by simp
  show "set (remove1 c (fl_carriers (sd_flow s))) \<subseteq> set (fl_carriers (sd_flow s))" by (rule set_remove1_subset)
qed (auto simp: delete_conv' split: if_splits)

text \<open>What \<open>detach\<close> leaves: the flow without the carrier, possibly with a claimed reset.\<close>

lemma detach_cases:
  assumes "history_inv s" and "detach (sd_flow s) c preserve = (skipped, finish, resend, fl')"
  shows "\<exists>fl1. (fl1 = sd_flow s \<or> fl1 = without_carrier (sd_flow s) c) \<and>
    (fl' = fl1 \<or> (\<exists>r. claim_after_carriers fl1 = (r, fl')))"
proof -
  let ?w = "without_carrier (sd_flow s) c"
  have "fl_history ?w = unacknowledged ?w (sd_sent s)" "fl_history_bytes ?w = history_size (fl_history ?w)"
    using assms(1) unacknowledged_view [of ?w "sd_flow s"]
    unfolding history_inv_def by (simp_all add: without_carrier_def)
  then obtain sk where p: "prune_history ?w = (sk, ?w)" using prune_history_none by blast
  show ?thesis
  proof (cases "c \<in> set (fl_carriers (sd_flow s))")
    case True
    with assms(2) p show ?thesis
      by (intro exI [of _ ?w]) (auto simp: detach_def Let_def without_carrier_def [symmetric] split: if_splits prod.splits)
  next
    case False
    with assms(2) show ?thesis
      by (intro exI [of _ "sd_flow s"]) (auto simp: detach_def Let_def split: if_splits prod.splits)
  qed
qed

lemma detach_inv:
  assumes "sender_inv s" and "detach (sd_flow s) c preserve = (skipped, finish, resend, fl')"
  shows "sender_inv (s\<lparr>sd_flow := fl'\<rparr>)"
proof -
  from detach_cases [OF sender_inv_parts(2) [OF assms(1)] assms(2)] obtain fl1 where
    fl1: "fl1 = sd_flow s \<or> fl1 = without_carrier (sd_flow s) c"
    and r: "fl' = fl1 \<or> (\<exists>r. claim_after_carriers fl1 = (r, fl'))" by blast
  have same: "s\<lparr>sd_flow := sd_flow s\<rparr> = s" by simp
  have i1: "sender_inv (s\<lparr>sd_flow := fl1\<rparr>)"
    using fl1 without_carrier_inv [OF assms(1), of c] assms(1) same by metis
  have "sender_view fl' = sender_view fl1" using r claim_after_carriers_view by auto
  with sender_inv_view [OF i1, of fl'] show ?thesis by simp
qed

section \<open>The reader\<close>

fun held_bytes :: "source_pc \<Rightarrow> byte list" where
  "held_bytes (HoldsData p err) = p"
| "held_bytes _ = []"

text \<open>Where the reader stands its offset is the number of bytes that were remembered, less those it still broadcasts.\<close>

fun reader_at :: "source_pc \<Rightarrow> nat \<Rightarrow> nat \<Rightarrow> bool \<Rightarrow> bool" where
  "reader_at (HoldsData p err) offset n eof \<longleftrightarrow> offset = n \<and> \<not> eof \<and> p \<noteq> [] \<and> length p \<le> MaxPayloadSize"
| "reader_at (AwaitsData p seq err) offset n eof \<longleftrightarrow> offset + length p = n \<and> \<not> eof"
| "reader_at ReaderIdle offset n eof \<longleftrightarrow> offset = n \<and> \<not> eof"
| "reader_at AtRead offset n eof \<longleftrightarrow> offset = n \<and> \<not> eof"
| "reader_at SeesEOF offset n eof \<longleftrightarrow> offset = n \<and> \<not> eof"
| "reader_at HoldsFIN offset n eof \<longleftrightarrow> offset = n \<and> \<not> eof"
| "reader_at _ offset n eof \<longleftrightarrow> True"

definition reader_inv :: "sender \<Rightarrow> bool" where
  "reader_inv s \<longleftrightarrow> length (bytes_read (sd_reads s)) + 1 < 2 ^ 64 \<and> length (sd_sent s) \<le> length (sd_stream s) + of_bool (sd_eof s) \<and>
     length (sd_stream s) + length (held_bytes (sd_reader s)) \<le> length (bytes_read (sd_reads s)) \<and>
     reader_at (sd_reader s) (unat (sd_offset s)) (length (sd_stream s)) (sd_eof s)"

lemma reader_inv_same:
  assumes "reader_inv s" "sd_reader s' = sd_reader s" "sd_offset s' = sd_offset s" "sd_reads s' = sd_reads s" "sd_stream s' = sd_stream s"
    "sd_sent s' = sd_sent s" "sd_eof s' = sd_eof s"
  shows "reader_inv s'"
  using assms by (simp add: reader_inv_def)

lemma bytes_read_append [simp]: "bytes_read (reads @ [r]) = bytes_read reads @ fst r"
  by (simp add: bytes_read_def)

lemma reader_at_after:
  assumes "offset = n" "\<not> eof"
  shows "reader_at (after_read err) offset n eof \<and> held_bytes (after_read err) = []"
  using assms by (auto simp: after_read_def split: option.split)

lemma source_step_inv:
  assumes "source_step s s'" "reader_inv s"
  shows "reader_inv s'"
  using assms(1)
proof cases
  case (rd_start fails fl')
  show ?thesis
  proof (cases "sd_reader s = ReaderIdle")
    case True
    with assms(2) show ?thesis by (auto simp: rd_start(1) reader_inv_def)
  qed (use assms(2) in \<open>simp add: rd_start(1) reader_inv_def\<close>)
next
  case (rd_read p err)
  have "length p \<le> MaxPayloadSize" using rd_read(3) read_chunk_size_bounds [of "fl_config (sd_flow s)"] by simp
  then show ?thesis using assms(2) rd_read(2,4) reader_at_after [of "unat (sd_offset s)" "length (sd_stream s)" "sd_eof s" err]
    by (cases "p = []") (auto simp: rd_read(1) reader_inv_def)
next
  case (rd_data p err f res skipped fl')
  then have "p \<noteq> []" using assms(2) by (simp add: reader_inv_def)
  then have "Suc n \<le> m + length p" if "n \<le> m" for n m using that by (cases p) auto
  with rd_data assms(2) show ?thesis by (cases res) (auto simp: reader_inv_def remembered_def)
next
  case (rd_broadcast p seq err res)
  then have at: "unat (sd_offset s) + length p = length (sd_stream s)" "\<not> sd_eof s" "length (sd_stream s) < 2 ^ 64"
    using assms(2) by (auto simp: reader_inv_def)
  then have "unat (sd_offset s + len64 p) = length (sd_stream s)" by (simp add: unat_add_len64)
  with reader_at_after [OF this at(2), of err] assms(2) rd_broadcast(2) at(1) show ?thesis
    by (cases res) (auto simp: rd_broadcast(1) reader_inv_def)
next
  case (rd_fin f res skipped fl')
  then show ?thesis using assms(2) by (cases res) (auto simp: reader_inv_def remembered_def)
next
  case (rd_fin_broadcast seq res)
  then show ?thesis using assms(2) by (cases res) (auto simp: reader_inv_def)
qed (use assms(2) in \<open>auto simp: reader_inv_def\<close>)

lemma sender_step_reader:
  assumes "sender_step s s'" "reader_inv s"
  shows "reader_inv s'"
  using assms(1)
proof cases
  case sn_reader
  then show ?thesis using assms(2) by (rule source_step_inv)
qed (use assms(2) in \<open>auto intro: reader_inv_same [OF assms(2)]\<close>)

text \<open>What a step of the reader is for the rest: an operation of the flow, or a frame that is remembered.\<close>

lemma source_step_cases:
  assumes "source_step s s'" "reader_inv s"
  obtains (op) fl' calls r offset reads where "other_op True (sd_flow s) fl' calls"
      "s' = s\<lparr>sd_flow := fl', sd_calls := sd_calls s @ calls, sd_reader := r, sd_offset := offset, sd_reads := reads\<rparr>"
  | (data) p f res skipped fl' r where "p \<noteq> []" "length p \<le> MaxPayloadSize" "\<not> sd_eof s" "length (sd_stream s) + length p < 2 ^ 64"
      "length (sd_sent s) + 1 < 2 ^ 64" "f = data_frame (sd_flow s) (word_of_nat (length (sd_stream s))) p"
      "remember (sd_flow s) f = (res, skipped, fl')"
      "s' = s\<lparr>sd_flow := fl', sd_sent := sd_sent s @ remembered res f,
         sd_stream := sd_stream s @ concat (map (\<lambda>_. p) (remembered res f))\<rparr>\<lparr>sd_reader := r\<rparr>"
  | (fin) f res skipped fl' r where "\<not> sd_eof s" "length (sd_sent s) + 1 < 2 ^ 64"
      "f = fin_frame (sd_flow s) (word_of_nat (length (sd_stream s)))" "remember (sd_flow s) f = (res, skipped, fl')"
      "s' = s\<lparr>sd_flow := fl', sd_sent := sd_sent s @ remembered res f, sd_eof := (remembered res f \<noteq> [])\<rparr>\<lparr>sd_reader := r\<rparr>"
proof -
  have offset: "sd_offset s = word_of_nat (length (sd_stream s))" if "unat (sd_offset s) = length (sd_stream s)"
    unfolding that [symmetric] by simp
  from assms(1) show ?thesis
  proof cases
    case (rd_data p err f res skipped fl')
    with assms(2) have at: "unat (sd_offset s) = length (sd_stream s)" "\<not> sd_eof s" "p \<noteq> []" "length p \<le> MaxPayloadSize"
      "length (sd_stream s) + length p + 1 < 2 ^ 64" "length (sd_sent s) \<le> length (sd_stream s)"
      by (auto simp: reader_inv_def)
    show ?thesis by (rule data [of p f res skipped fl']) (use at rd_data offset [OF at(1)] in \<open>auto\<close>)
  next
    case (rd_fin f res skipped fl')
    with assms(2) have at: "unat (sd_offset s) = length (sd_stream s)" "\<not> sd_eof s" "length (sd_sent s) + 1 < 2 ^ 64"
      by (auto simp: reader_inv_def)
    show ?thesis by (rule fin [of f res skipped fl']) (use at rd_fin offset [OF at(1)] in \<open>auto\<close>)
  next
    case (rd_start fails fl')
    show ?thesis by (rule op [OF op_start [OF rd_start(2)], where r = "sd_reader s'" and offset = "sd_offset s" and reads = "sd_reads s"]) (simp add: rd_start(1))
  next
    case (rd_read p err)
    show ?thesis by (rule op [OF op_look, where r = "sd_reader s'" and offset = "sd_offset s" and reads = "sd_reads s'"]) (simp add: rd_read(1))
  next
    case (rd_broadcast p seq err res)
    show ?thesis by (rule op [OF op_look, where r = "sd_reader s'" and offset = "sd_offset s'" and reads = "sd_reads s"]) (simp add: rd_broadcast(1))
  next
    case rd_eof
    show ?thesis by (rule op [OF op_local_fin, where reads = "sd_reads s" and offset = "sd_offset s"]) (simp add: rd_eof(1))
  next
    case (rd_fin_broadcast seq res)
    show ?thesis by (rule op [OF op_look, where reads = "sd_reads s" and offset = "sd_offset s"]) (simp add: rd_fin_broadcast(1))
  next
    case (rd_fin_lost r fl')
    show ?thesis by (rule op [OF op_carrier_failure [OF rd_fin_lost(3)], where reads = "sd_reads s" and offset = "sd_offset s"]) (simp add: rd_fin_lost(1))
  next
    case (rd_fin_fails e)
    show ?thesis by (rule op [OF op_look, where reads = "sd_reads s" and offset = "sd_offset s"]) (simp add: rd_fin_fails(1))
  next
    case rd_complete
    show ?thesis by (rule op [OF op_read_complete, where reads = "sd_reads s" and offset = "sd_offset s"]) (simp add: rd_complete(1))
  next
    case (rd_resets e)
    show ?thesis by (rule op [OF op_error, where reads = "sd_reads s" and offset = "sd_offset s"]) (simp add: rd_resets(1))
  qed
qed

section \<open>Every step keeps the invariant\<close>

lemma sender_inv_reader [simp]:
  "sender_inv (s\<lparr>sd_reader := r\<rparr>) = sender_inv s" "sender_inv (s\<lparr>sd_offset := offset\<rparr>) = sender_inv s" "sender_inv (s\<lparr>sd_reads := reads\<rparr>) = sender_inv s"
  by (simp_all add: sender_inv_def stream_inv_def history_inv_def ack_inv_def carriers_inv_def Let_def)

lemma sender_step_inv:
  assumes "sender_step s s'" and "sender_inv s" and "reader_inv s"
  shows "sender_inv s'"
  using assms(1)
proof (cases rule: sender_step.cases)
  case (sn_attach c max_payload max_carriers m ack fl')
  with attach_inv [OF assms(2)] show ?thesis by simp
next
  case sn_reader
  from this assms(3) show ?thesis
  proof (cases rule: source_step_cases)
    case (op fl' calls r offset reads)
    have "sender_inv (s\<lparr>sd_flow := fl'\<rparr>\<lparr>sd_calls := sd_calls s @ calls\<rparr>)"
      by (simp only: sender_inv_calls) (rule sender_inv_view [OF assms(2) other_op_view [OF op(1)]])
    moreover have "s' = s\<lparr>sd_flow := fl'\<rparr>\<lparr>sd_calls := sd_calls s @ calls\<rparr>\<lparr>sd_reader := r\<rparr>\<lparr>sd_offset := offset\<rparr>\<lparr>sd_reads := reads\<rparr>" using op(2) by simp
    ultimately show ?thesis by (simp only: sender_inv_reader)
  next
    case (data p f res skipped fl' r)
    from data_inv [OF assms(2) data(1,3,4,5,6,7,2)] show ?thesis unfolding data(8) by (simp only: sender_inv_reader)
  next
    case (fin f res skipped fl' r)
    from fin_inv [OF assms(2) fin(1-4)] show ?thesis unfolding fin(5) by (simp only: sender_inv_reader)
  qed
next
  case (sn_pick c item fl')
  with pick_inv [OF assms(2)] show ?thesis by simp
next
  case (sn_written c item skipped cmp fl')
  let ?m = "s\<lparr>sd_sending := (sd_sending s)(c := None), sd_log := (sd_log s)(c := sd_log s c @ [item])\<rparr>"
  have "sender_inv (?m\<lparr>sd_flow := fl'\<rparr>)"
  proof (cases "map_of (fl_carrier_states (sd_flow s)) c")
    case None
    then have "fl' = sd_flow s" using sn_written(3) by (simp add: send_done_def)
    with written_gone_inv [OF assms(2) sn_written(2)] show ?thesis by simp
  next
    case (Some st0)
    from send_done_after_write [OF Some, of item] obtain st where st: "st_next_sequence st = rp_sequence item + 1"
      and d: "send_done (sd_flow s) c item = apply_deferred_acknowledgement (after_write (sd_flow s) c st item)" by blast
    have eq: "?m\<lparr>sd_flow := x\<rparr> = s\<lparr>sd_flow := x, sd_sending := (sd_sending s)(c := None),
        sd_log := (sd_log s)(c := sd_log s c @ [item])\<rparr>" for x by simp
    have i: "sender_inv (?m\<lparr>sd_flow := after_write (sd_flow s) c st item\<rparr>)"
      unfolding eq by (rule written_inv [OF assms(2) sn_written(2) Some st])
    from apply_deferred_inv [OF i, of skipped cmp fl'] d sn_written(3) show ?thesis by simp
  qed
  then have "sender_inv (?m\<lparr>sd_flow := fl'\<rparr>\<lparr>sd_calls := sd_calls s @ due cmp\<rparr>)" by (simp only: sender_inv_calls)
  moreover have "s' = ?m\<lparr>sd_flow := fl'\<rparr>\<lparr>sd_calls := sd_calls s @ due cmp\<rparr>" using sn_written(1) by simp
  ultimately show ?thesis by (simp only:)
next
  case (sn_ack c offset fin skipped cmp fl')
  have "sender_inv (s\<lparr>sd_acks := insert (offset, fin) (sd_acks s)\<rparr>\<lparr>sd_flow := fl'\<rparr>)"
    by (rule acknowledge_inv [OF sender_inv_acks [OF assms(2)]]) (use sn_ack in auto)
  then have "sender_inv (s\<lparr>sd_acks := insert (offset, fin) (sd_acks s)\<rparr>\<lparr>sd_flow := fl'\<rparr>\<lparr>sd_calls := sd_calls s @ due cmp\<rparr>)"
    by (simp only: sender_inv_calls)
  moreover have "s' = s\<lparr>sd_acks := insert (offset, fin) (sd_acks s)\<rparr>\<lparr>sd_flow := fl'\<rparr>\<lparr>sd_calls := sd_calls s @ due cmp\<rparr>" using sn_ack(1) by simp
  ultimately show ?thesis by (simp only:)
next
  case (sn_detach c preserve skipped finish resend fl')
  with detach_inv [OF assms(2)] show ?thesis by simp
next
  case (sn_other fl' calls)
  have "sender_inv (s\<lparr>sd_flow := fl'\<rparr>\<lparr>sd_calls := sd_calls s @ calls\<rparr>)"
    by (simp only: sender_inv_calls) (rule sender_inv_view [OF assms(2) other_op_view [OF sn_other(2)]])
  moreover have "s' = s\<lparr>sd_flow := fl'\<rparr>\<lparr>sd_calls := sd_calls s @ calls\<rparr>" using sn_other(1) by simp
  ultimately show ?thesis by (simp only:)
next
  case sn_close
  have "sender_inv (s\<lparr>sd_user_closed := True\<rparr>\<lparr>sd_calls := sd_calls s @ [(None, False)]\<rparr>)"
    using assms(2) by (simp only: sender_inv_calls sender_inv_closed)
  moreover have "s' = s\<lparr>sd_user_closed := True\<rparr>\<lparr>sd_calls := sd_calls s @ [(None, False)]\<rparr>" using sn_close by simp
  ultimately show ?thesis by (simp only:)
next
  case (sn_reset err notify first fl')
  have "sender_inv (s\<lparr>sd_flow := fl'\<rparr>\<lparr>sd_calls := remove1 (err, notify) (sd_calls s)\<rparr>)"
    by (simp only: sender_inv_calls) (rule sender_inv_view [OF assms(2) claim_reset_view [OF sn_reset(3)]])
  moreover have "s' = s\<lparr>sd_flow := fl'\<rparr>\<lparr>sd_calls := remove1 (err, notify) (sd_calls s)\<rparr>" using sn_reset(1) by simp
  ultimately show ?thesis by (simp only:)
next
  case (sn_finish cn fl')
  with fewer_carriers_inv [OF assms(2), of "[]" "[]"] show ?thesis by (simp add: finish_reset_def)
qed

lemma sender_start_inv: "sender_inv (sender_start (new_flow stream dir cfg))"
  by (simp add: sender_inv_def stream_inv_def history_inv_def ack_inv_def carriers_inv_def sender_start_def
      new_flow_def unacknowledged_def history_size_def)

section \<open>When a flow may end without an error\<close>

text \<open>
  \<open>progress fl fl'\<close>: an operation does not undo the completion of the exchange, and it leaves the
  flow ended without an error only if it was so or the exchange is complete.
\<close>

definition clean_end :: "flow \<Rightarrow> bool" where
  "clean_end fl \<longleftrightarrow> fl_closed fl \<and> fl_terminal_err fl = None"

definition progress :: "flow \<Rightarrow> flow \<Rightarrow> bool" where
  "progress fl fl' \<longleftrightarrow> (exchange_complete fl \<longrightarrow> exchange_complete fl') \<and>
     (clean_end fl' \<longrightarrow> clean_end fl \<or> exchange_complete fl')"

lemma progress_refl [simp]: "progress fl fl"
  by (simp add: progress_def)

lemma progressI:
  assumes "local_fin_acknowledged fl \<Longrightarrow> local_fin_acknowledged fl'"
    and "fl_local_fin fl \<longrightarrow> fl_local_fin fl'" "fl_remote_fin fl \<longrightarrow> fl_remote_fin fl'"
    and "fl_closed fl' = fl_closed fl" "fl_terminal_err fl' = fl_terminal_err fl"
  shows "progress fl fl'"
  using assms by (auto simp: progress_def exchange_complete_def clean_end_def)

lemma local_fin_acknowledged_cong:
  "fl_local_fin_ack fl' = fl_local_fin_ack fl \<Longrightarrow> fl_deferred_ack fl' = fl_deferred_ack fl \<Longrightarrow>
     fl_history fl' = fl_history fl \<Longrightarrow> local_fin_acknowledged fl' = local_fin_acknowledged fl"
  by (simp add: local_fin_acknowledged_def acknowledgement_remembered_def split: option.splits)

lemma claim_after_carriers_progress:
  assumes "claim_after_carriers fl = (r, fl')"
  shows "progress fl fl'"
proof -
  have "local_fin_acknowledged fl' = local_fin_acknowledged fl"
    by (rule local_fin_acknowledged_cong)
      (use claim_after_carriers_view [OF assms] in \<open>simp_all add: sender_view_eq\<close>)
  then show ?thesis using assms
    by (auto simp: progress_def exchange_complete_def clean_end_def claim_after_carriers_def claim_reset_def
        split: if_splits)
qed

lemma other_op_progress:
  assumes "other_op reader fl fl' calls"
  shows "progress fl fl' \<and> (None \<in> fst ` set calls \<longrightarrow> exchange_complete fl')"
proof -
  have l: "local_fin_acknowledged fl' = local_fin_acknowledged fl"
    by (rule local_fin_acknowledged_cong)
      (use other_op_view [OF assms] in \<open>simp_all add: sender_view_eq\<close>)
  from assms show ?thesis
  proof (induction rule: other_op.induct)
    case (op_deliver fl w f res fl' w')
    note v = deliver_inbound_view [OF op_deliver]
    have "local_fin_acknowledged fl' = local_fin_acknowledged fl"
      by (rule local_fin_acknowledged_cong) (use v in \<open>simp_all add: sender_view_eq\<close>)
    with v show ?case by (auto intro!: progressI split: sum.splits)
  next
    case (op_last_carrier fl r fl')
    then show ?case
      by (auto simp: reset_after_last_carrier_def dest: claim_after_carriers_progress split: if_splits)
  next
    case (op_carrier_failure fl r fl')
    then show ?case
      by (auto simp: reset_after_carrier_failure_def dest: claim_after_carriers_progress split: if_splits)
  qed (auto intro!: progressI simp: start_flow_def finish_remote_def carrier_frame_written_def begin_inbound_def
      release_inbound_def record_ack_def Let_def due_def complete_def local_fin_acknowledged_def
      acknowledgement_remembered_def split: if_splits option.splits)
qed

lemma ack_applied_progress:
  assumes "sender_inv s" and "\<not> acknowledgement_regresses (sd_flow s) offset fin"
    and "acknowledgement_written (sd_flow s) offset fin"
  shows "progress (sd_flow s)
    (ack_applied (sd_flow s) offset fin (deferred_after (fl_deferred_ack (sd_flow s)) offset fin) (sd_sent s))"
    (is "progress ?fl ?fl'")
proof (rule progressI)
  assume l: "local_fin_acknowledged ?fl"
  note inv = sender_inv_parts [OF assms(1)]
  show "local_fin_acknowledged ?fl'"
  proof (cases "fl_local_fin_ack ?fl \<or> fin")
    case True
    then show ?thesis by (auto simp: local_fin_acknowledged_def)
  next
    case False
    then obtain doff where d: "fl_deferred_ack ?fl = Some (doff, True)" "acknowledgement_remembered ?fl doff True"
      using l by (auto simp: local_fin_acknowledged_def split: option.splits)
    have "unat doff = length (sd_stream s)" "unat (fl_written_offset ?fl) \<le> length (sd_stream s)"
      "fl_local_fin_ack ?fl = fl_global_ack_fin ?fl"
      using inv(3) d(1) by (auto simp: ack_inv_def Let_def)
    moreover have "offset \<le> fl_written_offset ?fl" using assms(3) by (simp add: acknowledgement_written_def)
    ultimately have "\<not> offset > doff" and gaf: "\<not> fl_global_ack_fin ?fl"
      using False by (auto simp: word_less_nat_alt word_le_nat_alt)
    then have "deferred_after (fl_deferred_ack ?fl) offset fin = Some (doff, True)"
      using d(1) False by (simp add: deferred_after_def)
    moreover have "acknowledgement_remembered ?fl' doff True"
    proof -
      obtain item where "item \<in> set (sd_sent s)" "f_type (rp_frame item) = FrameFIN" "doff = f_offset (rp_frame item)"
        using d(2) inv(2) by (auto simp: acknowledgement_remembered_def list_ex_iff history_inv_def set_unacknowledged Let_def)
      then show ?thesis using gaf False
        by (auto simp: acknowledgement_remembered_def list_ex_iff set_unacknowledged global_acknowledged_def Let_def)
    qed
    ultimately show ?thesis by (simp add: local_fin_acknowledged_def)
  qed
qed simp_all

lemma apply_acknowledgement_progress:
  assumes "sender_inv s" and "\<not> acknowledgement_regresses (sd_flow s) offset fin"
    and "acknowledgement_written (sd_flow s) offset fin"
    and "apply_acknowledgement (sd_flow s) offset fin = (skipped, c, fl')"
  shows "progress (sd_flow s) fl' \<and> (c \<longrightarrow> exchange_complete fl')"
proof -
  have "fl_history (sd_flow s) = unacknowledged (sd_flow s) (sd_sent s)"
    "fl_history_bytes (sd_flow s) = history_size (fl_history (sd_flow s))"
    using sender_inv_parts(2) [OF assms(1)] by (simp_all add: history_inv_def)
  from apply_acknowledgement_spec [OF assms(2) this] assms(4) ack_applied_progress [OF assms(1-3)]
  show ?thesis by (auto simp: complete_def)
qed

lemma defer_progress:
  assumes "sender_inv s" and "acknowledgement_remembered (sd_flow s) offset fin"
  shows "progress (sd_flow s) (defer_acknowledgement (sd_flow s) offset fin)"
proof (rule progressI)
  let ?fl = "sd_flow s"
  assume l: "local_fin_acknowledged ?fl"
  have inv: "ack_inv s" using sender_inv_parts(3) [OF assms(1)] .
  show "local_fin_acknowledged (defer_acknowledgement ?fl offset fin)"
  proof (cases "fl_local_fin_ack ?fl")
    case True
    then show ?thesis by (auto simp: local_fin_acknowledged_def defer_acknowledgement_def split: option.splits)
  next
    case False
    then obtain doff where d: "fl_deferred_ack ?fl = Some (doff, True)"
      using l by (auto simp: local_fin_acknowledged_def split: option.splits)
    then have "unat doff = length (sd_stream s)" using inv by (auto simp: ack_inv_def Let_def)
    then have "doff > offset \<or> doff = offset"
      using remembered_bound [OF assms] by (auto simp: word_less_nat_alt word_unat_eq_iff)
    then show ?thesis using l d by (auto simp: defer_acknowledgement_def)
  qed
qed (simp_all add: defer_acknowledgement_def split: option.splits)

lemma acknowledge_progress:
  assumes "sender_inv s" and "acknowledge (sd_flow s) c offset fin = (skipped, cmp, fl')"
  shows "progress (sd_flow s) fl' \<and> (cmp \<longrightarrow> exchange_complete fl')"
proof -
  have "(fl' = sd_flow s \<and> \<not> cmp) \<or>
      (acknowledgement_remembered (sd_flow s) offset fin \<and> fl' = defer_acknowledgement (sd_flow s) offset fin \<and> \<not> cmp) \<or>
      (\<not> acknowledgement_regresses (sd_flow s) offset fin \<and> acknowledgement_written (sd_flow s) offset fin \<and>
        apply_acknowledgement (sd_flow s) offset fin = (skipped, cmp, fl'))"
    using assms(2) unfolding acknowledge_def by (simp split: if_splits)
  then show ?thesis
    using defer_progress [OF assms(1), of offset fin] apply_acknowledgement_progress [OF assms(1), of offset fin skipped cmp fl']
      progress_refl by blast
qed

lemma apply_deferred_progress:
  assumes "sender_inv s" and "apply_deferred_acknowledgement (sd_flow s) = (skipped, c, fl')"
  shows "progress (sd_flow s) fl' \<and> (c \<longrightarrow> exchange_complete fl')"
proof (cases "fl_deferred_ack (sd_flow s)")
  case None
  then show ?thesis using assms(2) by (auto simp: apply_deferred_acknowledgement_def)
next
  case (Some d)
  obtain offset fin where d: "d = (offset, fin)" by (cases d)
  let ?fl = "sd_flow s" and ?s0 = "s\<lparr>sd_flow := (sd_flow s)\<lparr>fl_deferred_ack := None\<rparr>\<rparr>"
  have inv: "ack_inv s" using sender_inv_parts(3) [OF assms(1)] .
  have "(acknowledgement_regresses ?fl offset fin \<and> fl' = ?fl\<lparr>fl_deferred_ack := None\<rparr> \<and> \<not> c) \<or> (fl' = ?fl \<and> \<not> c) \<or>
      (\<not> acknowledgement_regresses ?fl offset fin \<and> acknowledgement_written ?fl offset fin \<and>
        apply_acknowledgement (sd_flow ?s0) offset fin = (skipped, c, fl'))"
    using assms(2) Some d unfolding apply_deferred_acknowledgement_def by (simp split: if_splits)
  then consider (drop) "acknowledgement_regresses ?fl offset fin" "fl' = ?fl\<lparr>fl_deferred_ack := None\<rparr>" "\<not> c"
    | (keep) "fl' = ?fl" "\<not> c"
    | (applied) "\<not> acknowledgement_regresses ?fl offset fin" "acknowledgement_written ?fl offset fin"
        "apply_acknowledgement (sd_flow ?s0) offset fin = (skipped, c, fl')"
    by blast
  then show ?thesis
  proof cases
    case drop
    have "\<not> fin \<or> fl_local_fin_ack ?fl"
      using inv drop(1) Some d
      by (auto simp: ack_inv_def Let_def acknowledgement_regresses_def word_less_nat_alt word_le_nat_alt)
    with drop Some d show ?thesis by (auto intro!: progressI simp: local_fin_acknowledged_def)
  next
    case keep
    then show ?thesis by simp
  next
    case applied
    have regr: "\<not> acknowledgement_regresses (sd_flow ?s0) offset fin" "acknowledgement_written (sd_flow ?s0) offset fin"
      using applied(1,2) by (simp_all add: acknowledgement_regresses_def acknowledgement_written_def)
    from apply_acknowledgement_progress [OF undefer_inv [OF assms(1)] regr applied(3)]
    have p: "progress (sd_flow ?s0) fl'" "c \<longrightarrow> exchange_complete fl'" by blast+
    show ?thesis
    proof (cases "fin")
      case False
      then have "exchange_complete ?fl = exchange_complete (sd_flow ?s0)"
        using Some d by (simp add: exchange_complete_def local_fin_acknowledged_def)
      with p show ?thesis by (simp add: progress_def clean_end_def)
    next
      case True
      have h: "fl_history (sd_flow ?s0) = unacknowledged (sd_flow ?s0) (sd_sent s)"
        "fl_history_bytes (sd_flow ?s0) = history_size (fl_history (sd_flow ?s0))"
        using sender_inv_parts(2) [OF undefer_inv [OF assms(1)]] by (simp_all add: history_inv_def)
      from apply_acknowledgement_spec [OF regr(1) h] applied(3) True
      have "fl_local_fin_ack fl'" "fl_local_fin fl' = fl_local_fin ?fl" "fl_remote_fin fl' = fl_remote_fin ?fl" by auto
      with p show ?thesis by (auto simp: progress_def exchange_complete_def local_fin_acknowledged_def clean_end_def)
    qed
  qed
qed

lemma finish_step:
  assumes "finish_inv s" and "progress (sd_flow s) (sd_flow s')" and "set (sd_calls s') \<subseteq> set (sd_calls s) \<union> set new"
    and "None \<in> fst ` set new \<longrightarrow> sd_user_closed s' \<or> exchange_complete (sd_flow s')"
    and "sd_user_closed s \<longrightarrow> sd_user_closed s'"
  shows "finish_inv s'"
proof -
  have "None \<in> fst ` set (sd_calls s') \<longrightarrow> None \<in> fst ` set (sd_calls s) \<or> None \<in> fst ` set new"
    using assms(3) by blast
  then show ?thesis
    using assms(1,2,4,5) unfolding finish_inv_def progress_def clean_end_def by blast
qed

lemma due_new: "None \<in> fst ` set (due c) \<longleftrightarrow> c"
  by (auto simp: due_def)

lemma local_fin_acknowledged_appended:
  "fl_local_fin_ack fl' = fl_local_fin_ack fl \<Longrightarrow> fl_deferred_ack fl' = fl_deferred_ack fl \<Longrightarrow>
     set (fl_history fl) \<subseteq> set (fl_history fl') \<Longrightarrow> local_fin_acknowledged fl \<Longrightarrow> local_fin_acknowledged fl'"
  by (auto simp: local_fin_acknowledged_def acknowledgement_remembered_def list_ex_iff Let_def split: option.splits)

lemma send_done_progress:
  assumes "sender_inv s" and "sd_sending s c = Some item" and "send_done (sd_flow s) c item = (skipped, cmp, fl')"
  shows "progress (sd_flow s) fl' \<and> (cmp \<longrightarrow> exchange_complete fl')"
proof (cases "map_of (fl_carrier_states (sd_flow s)) c")
  case None
  then show ?thesis using assms(3) by (simp add: send_done_def)
next
  case (Some st0)
  from send_done_after_write [OF Some, of item] obtain st where st: "st_next_sequence st = rp_sequence item + 1"
    and d: "send_done (sd_flow s) c item = apply_deferred_acknowledgement (after_write (sd_flow s) c st item)" by blast
  let ?s1 = "s\<lparr>sd_flow := after_write (sd_flow s) c st item, sd_sending := (sd_sending s)(c := None),
    sd_log := (sd_log s)(c := sd_log s c @ [item])\<rparr>"
  have "progress (sd_flow ?s1) fl' \<and> (cmp \<longrightarrow> exchange_complete fl')"
    by (rule apply_deferred_progress [OF written_inv [OF assms(1,2) Some st], of skipped]) (use d assms(3) in simp)
  moreover have "progress (sd_flow s) (sd_flow ?s1)"
    by (intro progressI) (auto elim: local_fin_acknowledged_appended [rotated 3])
  ultimately show ?thesis by (auto simp: progress_def)
qed

lemma remember_progress:
  assumes "sender_inv s" and "remember (sd_flow s) f = (res, skipped, fl')"
  shows "progress (sd_flow s) fl'"
  using remember_cases [OF sender_inv_parts(2) [OF assms(1)] assms(2)]
proof (elim disjE conjE)
  assume "fl' = appended (sd_flow s) f"
  then show ?thesis
    by (intro progressI) (auto simp: appended_def elim: local_fin_acknowledged_appended [rotated 3])
qed simp

lemma attach_progress:
  "attach_limited fl c max_payload max_carriers = Inr (m, ack, fl') \<Longrightarrow> progress fl fl'"
  by (intro progressI) (auto simp: attach_limited_def Let_def set_state_def elim: local_fin_acknowledged_appended [rotated 3] split: if_splits)

lemma pick_progress:
  "send_pick fl c = (Return item, fl') \<Longrightarrow> progress fl fl'"
  by (intro progressI) (auto simp: send_pick_def elim: local_fin_acknowledged_appended [rotated 3] split: if_splits option.splits)

lemma detach_progress:
  assumes "sender_inv s" and "detach (sd_flow s) c preserve = (skipped, finish, resend, fl')"
  shows "progress (sd_flow s) fl'"
proof -
  from detach_cases [OF sender_inv_parts(2) [OF assms(1)] assms(2)] obtain fl1 where
    fl1: "fl1 = sd_flow s \<or> fl1 = without_carrier (sd_flow s) c"
    and r: "fl' = fl1 \<or> (\<exists>r. claim_after_carriers fl1 = (r, fl'))" by blast
  have "progress (sd_flow s) (without_carrier (sd_flow s) c)"
    by (rule progressI) (auto simp: without_carrier_def elim: local_fin_acknowledged_appended [rotated 3])
  then have "progress (sd_flow s) fl1" using fl1 by auto
  moreover have "progress fl1 fl'" using r claim_after_carriers_progress by auto
  ultimately show ?thesis by (auto simp: progress_def)
qed

lemma sender_step_finish:
  assumes "sender_step s s'" and "sender_inv s" and "finish_inv s" and "reader_inv s"
  shows "finish_inv s'"
  using assms(1)
proof (cases rule: sender_step.cases)
  case (sn_attach c max_payload max_carriers m ack fl')
  with attach_progress show ?thesis by (intro finish_step [OF assms(3), of _ "[]"]) auto
next
  case sn_reader
  from this assms(4) show ?thesis
  proof (cases rule: source_step_cases)
    case (op fl' calls r offset reads)
    with other_op_progress [OF op(1)] show ?thesis by (intro finish_step [OF assms(3), of _ calls]) auto
  next
    case (data p f res skipped fl' r)
    with remember_progress [OF assms(2) data(7)] show ?thesis by (intro finish_step [OF assms(3), of _ "[]"]) auto
  next
    case (fin f res skipped fl' r)
    with remember_progress [OF assms(2) fin(4)] show ?thesis by (intro finish_step [OF assms(3), of _ "[]"]) auto
  qed
next
  case (sn_pick c item fl')
  with pick_progress show ?thesis by (intro finish_step [OF assms(3), of _ "[]"]) auto
next
  case (sn_written c item skipped cmp fl')
  with send_done_progress [OF assms(2)] show ?thesis
    by (intro finish_step [OF assms(3), of _ "due cmp"]) (auto simp: due_new)
next
  case (sn_ack c offset fin skipped cmp fl')
  with acknowledge_progress [OF assms(2)] show ?thesis
    by (intro finish_step [OF assms(3), of _ "due cmp"]) (auto simp: due_new)
next
  case (sn_detach c preserve skipped finish resend fl')
  with detach_progress [OF assms(2)] show ?thesis by (intro finish_step [OF assms(3), of _ "[]"]) auto
next
  case (sn_other fl' calls)
  with other_op_progress [OF sn_other(2)] show ?thesis by (intro finish_step [OF assms(3), of _ calls]) auto
next
  case sn_close
  then show ?thesis by (intro finish_step [OF assms(3), of _ "[(None, False)]"]) auto
next
  case (sn_reset err notify first fl')
  have e: "exchange_complete fl' = exchange_complete (sd_flow s)"
    using sn_reset(3) by (auto simp: claim_reset_def exchange_complete_def local_fin_acknowledged_def
        acknowledgement_remembered_def split: if_splits option.splits)
  have "clean_end fl' \<longrightarrow> clean_end (sd_flow s) \<or> None \<in> fst ` set (sd_calls s)"
    using sn_reset(2,3) by (force simp: claim_reset_def clean_end_def split: if_splits)
  moreover have "None \<in> fst ` set (sd_calls s') \<longrightarrow> None \<in> fst ` set (sd_calls s)"
    using sn_reset(1) by (auto dest: notin_set_remove1 simp: image_iff) (metis fst_conv notin_set_remove1)
  ultimately show ?thesis
    using assms(3) sn_reset(1) e unfolding finish_inv_def clean_end_def by auto
next
  case (sn_finish cn fl')
  then show ?thesis
    by (intro finish_step [OF assms(3), of _ "[]"])
      (auto intro!: progressI simp: finish_reset_def elim: local_fin_acknowledged_appended [rotated 3])
qed

section \<open>Runs\<close>

definition sender_run :: "flow_config \<Rightarrow> byte list \<Rightarrow> byte \<Rightarrow> sender \<Rightarrow> bool" where
  "sender_run cfg stream_id dir s \<longleftrightarrow> sender_step\<^sup>*\<^sup>* (sender_start (new_flow stream_id dir cfg)) s"

lemma sender_run_invs:
  assumes "sender_run cfg stream_id dir s"
  shows "sender_inv s \<and> finish_inv s \<and> reader_inv s"
  using assms unfolding sender_run_def
proof (induction rule: rtranclp_induct)
  case base
  then show ?case
    by (simp add: sender_start_inv) (simp add: finish_inv_def reader_inv_def bytes_read_def sender_start_def new_flow_def)
next
  case (step s1 s2)
  then show ?case using sender_step_inv sender_step_finish sender_step_reader by blast
qed

end
