(* ===== verification/Receiver.thy ===== *)
theory Receiver
  imports Flow
begin

text \<open>
  The receiving half of a flow: what the endpoint is given and what the peer is told, for every
  list of frames that the carriers bring in, on the contract of \<open>Delivery\<close>.
\<close>

section \<open>deliverInbound on the contract\<close>

definition arrival_of :: "frame \<Rightarrow> arrival" where
  "arrival_of f =
     (if f_type f = FrameData then ArriveData (f_offset f) (f_payload f) else ArriveFIN (f_offset f))"

definition stream_frame :: "frame \<Rightarrow> bool" where
  "stream_frame f \<longleftrightarrow> f_type f = FrameData \<or> f_type f = FrameFIN"

text \<open>A frame that tells the truth about the stream \<open>S\<close>.\<close>

definition honest :: "byte list \<Rightarrow> frame \<Rightarrow> bool" where
  "honest S f \<longleftrightarrow> stream_frame f \<and> truthful S (arrival_of f)"

lemma deliver_inbound_eq:
  assumes "stream_frame f"
  shows "deliver_inbound fl w f =
    (case rx.deliver (fl_reassembler fl) w (arrival_of f) of
       None \<Rightarrow> None
     | Some (Inl e, r, w1) \<Rightarrow> Some (Inl e, fl\<lparr>fl_reassembler := r\<rparr>, w1)
     | Some (Inr finished, r, w1) \<Rightarrow>
         (case clear_deadline w1 of
            (Some e, w2) \<Rightarrow> Some (Inl e, fl\<lparr>fl_reassembler := r\<rparr>, w2)
          | (None, w2) \<Rightarrow>
              Some (Inr (ack_frame fl (NextOffset r) finished, finished), fl\<lparr>fl_reassembler := r\<rparr>, w2)))"
  using assms
  by (auto simp: deliver_inbound_def arrival_of_def stream_frame_def frame_types
      split: option.splits prod.splits sum.splits)

lemma delivering_cong:
  "dw_out w = dw_out w' \<Longrightarrow> rx.delivering S base seen r w \<longleftrightarrow> rx.delivering S base seen r w'"
  by (simp add: rx.delivering_def)

lemma ack_frame_simps [simp]:
  "f_offset (ack_frame fl off fin) = off" "ack_has_fin (ack_frame fl off fin) = fin"
  "f_type (ack_frame fl off fin) = FrameAck" "f_stream (ack_frame fl off fin) = fl_id fl"
  by (simp_all add: ack_frame_def ack_has_fin_def)

text \<open>One honest frame.\<close>

lemma deliver_inbound_honest:
  assumes "honest S f" and "rx.delivering S base seen (fl_reassembler fl) w"
  shows "\<exists>res r' w'. deliver_inbound fl w f = Some (res, fl\<lparr>fl_reassembler := r'\<rparr>, w') \<and>
    reasm_pos (fl_reassembler fl) \<le> reasm_pos r' \<and> reasm_pos r' \<le> length S \<and>
    dw_out w' = base @ take (reasm_pos r') S \<and>
    (\<forall>ack fin. res = Inr (ack, fin) \<longrightarrow>
       rx.delivering S base (seen \<union> arrival_cells (arrival_of f)) r' w' \<and>
       ack = ack_frame fl (next_offset r') fin \<and> (fin \<longleftrightarrow> reasm_fin r' = Some (reasm_pos r')) \<and>
       reasm_fin r' = (if f_type f = FrameData then reasm_fin (fl_reassembler fl) else Some (length S)))"
proof -
  have f: "stream_frame f" "truthful S (arrival_of f)" using assms(1) by (simp_all add: honest_def)
  from rx.deliver_step [OF f(2) assms(2)] obtain res r' w1 where
    d: "rx.deliver (fl_reassembler fl) w (arrival_of f) = Some (res, r', w1)"
      "reasm_pos (fl_reassembler fl) \<le> reasm_pos r'" "reasm_pos r' \<le> length S"
      "dw_out w1 = base @ take (reasm_pos r') S"
    and ok: "\<forall>fin. res = Inr fin \<longrightarrow> rx.delivering S base (seen \<union> arrival_cells (arrival_of f)) r' w1 \<and>
       (fin \<longleftrightarrow> reasm_fin r' = Some (reasm_pos r')) \<and>
       reasm_fin r' = (case arrival_of f of ArriveData _ _ \<Rightarrow> reasm_fin (fl_reassembler fl) | ArriveFIN _ \<Rightarrow> Some (length S))"
    by blast
  show ?thesis
  proof (cases res)
    case (Inl e)
    with d show ?thesis by (intro exI [of _ "Inl e"] exI [of _ r'] exI [of _ w1])
      (simp add: deliver_inbound_eq [OF f(1)])
  next
    case (Inr fin)
    obtain ce w2 where c: "clear_deadline w1 = (ce, w2)" by (cases "clear_deadline w1")
    then have out: "dw_out w2 = dw_out w1" by (rule dw_out_clear_deadline)
    have "rx.delivering S base (seen \<union> arrival_cells (arrival_of f)) r' w1" using ok Inr by blast
    then have fin: "rx.delivering S base (seen \<union> arrival_cells (arrival_of f)) r' w2"
      by (simp only: delivering_cong [OF out])
    have kind: "(case arrival_of f of ArriveData _ _ \<Rightarrow> x | ArriveFIN _ \<Rightarrow> y) =
        (if f_type f = FrameData then x else y)" for x y :: "nat option"
      by (simp add: arrival_of_def)
    show ?thesis
    proof (cases ce)
      case (Some e)
      with d Inr c out show ?thesis
        by (intro exI [of _ "Inl e"] exI [of _ r'] exI [of _ w2]) (simp add: deliver_inbound_eq [OF f(1)])
    next
      case None
      with d Inr c out fin ok show ?thesis
        by (intro exI [of _ "Inr (ack_frame fl (NextOffset r') fin, fin)"] exI [of _ r'] exI [of _ w2])
          (simp add: deliver_inbound_eq [OF f(1)] NextOffset_def kind)
    qed
  qed
qed

text \<open>Any list of honest frames.\<close>

definition frames_cells :: "frame list \<Rightarrow> (nat \<times> byte) set" where
  "frames_cells fs = (\<Union>f \<in> set fs. arrival_cells (arrival_of f))"

definition acks_within :: "nat \<Rightarrow> byte list \<Rightarrow> frame list \<Rightarrow> bool" where
  "acks_within k S acks \<longleftrightarrow>
     (\<forall>a \<in> set acks. unat (f_offset a) \<le> k \<and> (ack_has_fin a \<longrightarrow> unat (f_offset a) = length S))"

lemma write_endpoint_honest:
  assumes "\<forall>f \<in> set fs. honest S f" and "rx.delivering S base seen (fl_reassembler fl) w"
  shows "\<exists>err acks r' w'. write_endpoint fl w fs = Some ((err, acks), fl\<lparr>fl_reassembler := r'\<rparr>, w') \<and>
    reasm_pos (fl_reassembler fl) \<le> reasm_pos r' \<and> reasm_pos r' \<le> length S \<and>
    dw_out w' = base @ take (reasm_pos r') S \<and> acks_within (reasm_pos r') S acks \<and>
    (err = None \<and> \<not> fl_closed fl \<longrightarrow> rx.delivering S base (seen \<union> frames_cells fs) r' w' \<and>
       length acks = length fs \<and>
       (fs \<noteq> [] \<longrightarrow> last acks = ack_frame fl (next_offset r') (reasm_fin r' = Some (reasm_pos r'))) \<and>
       ((\<exists>f \<in> set fs. f_type f = FrameFIN) \<or> reasm_fin (fl_reassembler fl) = Some (length S) \<longrightarrow>
          reasm_fin r' = Some (length S)))"
  using assms
proof (induction fs arbitrary: fl w seen)
  case Nil
  have "fl\<lparr>fl_reassembler := fl_reassembler fl\<rparr> = fl" by simp
  with Nil show ?case
    by (intro exI [of _ None] exI [of _ "[]"] exI [of _ "fl_reassembler fl"] exI [of _ w])
      (auto simp: rx.delivering_def acks_within_def frames_cells_def)
next
  case (Cons f fs)
  show ?case
  proof (cases "fl_closed fl")
    case True
    have "fl\<lparr>fl_reassembler := fl_reassembler fl\<rparr> = fl" by simp
    with Cons.prems(2) True show ?thesis
      by (intro exI [of _ None] exI [of _ "[]"] exI [of _ "fl_reassembler fl"] exI [of _ w])
        (auto simp: rx.delivering_def acks_within_def)
  next
    case False
    have f: "honest S f" and fs: "\<forall>f \<in> set fs. honest S f" using Cons.prems(1) by auto
    from deliver_inbound_honest [OF f Cons.prems(2)] obtain res r1 w1 where
      d: "deliver_inbound fl w f = Some (res, fl\<lparr>fl_reassembler := r1\<rparr>, w1)"
        "reasm_pos (fl_reassembler fl) \<le> reasm_pos r1" "reasm_pos r1 \<le> length S"
        "dw_out w1 = base @ take (reasm_pos r1) S"
      and ok: "\<forall>ack fin. res = Inr (ack, fin) \<longrightarrow>
         rx.delivering S base (seen \<union> arrival_cells (arrival_of f)) r1 w1 \<and>
         ack = ack_frame fl (next_offset r1) fin \<and> (fin \<longleftrightarrow> reasm_fin r1 = Some (reasm_pos r1)) \<and>
         reasm_fin r1 = (if f_type f = FrameData then reasm_fin (fl_reassembler fl) else Some (length S))"
      by blast
    show ?thesis
    proof (cases res)
      case (Inl e)
      with d False show ?thesis
        by (intro exI [of _ "Some e"] exI [of _ "[]"] exI [of _ r1] exI [of _ w1]) (simp add: acks_within_def)
    next
      case (Inr ackfin)
      obtain ack fin where af: "ackfin = (ack, fin)" by (cases ackfin)
      let ?fl1 = "fl\<lparr>fl_reassembler := r1\<rparr>"
      have g: "rx.delivering S base (seen \<union> arrival_cells (arrival_of f)) r1 w1"
        and ack: "ack = ack_frame fl (next_offset r1) fin" "fin \<longleftrightarrow> reasm_fin r1 = Some (reasm_pos r1)"
        and fin1: "reasm_fin r1 = (if f_type f = FrameData then reasm_fin (fl_reassembler fl) else Some (length S))"
        using ok Inr af by blast+
      have nfin: "f_type f = FrameFIN \<longleftrightarrow> f_type f \<noteq> FrameData"
        using f by (auto simp: honest_def stream_frame_def frame_types)
      from g have g1: "rx.delivering S base (seen \<union> arrival_cells (arrival_of f)) (fl_reassembler ?fl1) w1" by simp
      from Cons.IH [OF fs g1] obtain err acks r' w' where
        rest: "write_endpoint ?fl1 w1 fs = Some ((err, acks), ?fl1\<lparr>fl_reassembler := r'\<rparr>, w')"
          "reasm_pos r1 \<le> reasm_pos r'" "reasm_pos r' \<le> length S" "dw_out w' = base @ take (reasm_pos r') S"
          "acks_within (reasm_pos r') S acks"
        and rest_ok: "err = None \<and> \<not> fl_closed fl \<longrightarrow>
            rx.delivering S base (seen \<union> arrival_cells (arrival_of f) \<union> frames_cells fs) r' w' \<and>
            length acks = length fs \<and>
            (fs \<noteq> [] \<longrightarrow> last acks = ack_frame ?fl1 (next_offset r') (reasm_fin r' = Some (reasm_pos r'))) \<and>
            ((\<exists>f \<in> set fs. f_type f = FrameFIN) \<or> reasm_fin r1 = Some (length S) \<longrightarrow>
               reasm_fin r' = Some (length S))"
        by auto
      have fr: "reasm_fin r1 = None \<or> reasm_fin r1 = Some (length S)" using g by (simp add: rx.delivering_def)
      then have "acks_within (reasm_pos r') S (ack # acks)"
        using rest(2,5) ack by (auto simp: acks_within_def reasm_pos_def)
      moreover have "write_endpoint fl w (f # fs) = Some ((err, ack # acks), fl\<lparr>fl_reassembler := r'\<rparr>, w')"
        using d(1) Inr af rest(1) False by simp
      moreover have "ack_frame ?fl1 = ack_frame fl" by (intro ext) (simp add: ack_frame_def)
      moreover have "seen \<union> frames_cells (f # fs) = seen \<union> arrival_cells (arrival_of f) \<union> frames_cells fs"
        by (auto simp: frames_cells_def)
      moreover have "r' = r1 \<and> acks = []" if "fs = []"
        using rest(1) that by (auto dest: arg_cong [where f = fl_reassembler])
      moreover have "last (ack # acks) = ack_frame fl (next_offset r') (reasm_fin r' = Some (reasm_pos r'))"
        if "err = None" "\<not> fl_closed fl"
      proof (cases "fs = []")
        case True
        with calculation ack show ?thesis by simp
      next
        case False
        with rest_ok that have "acks \<noteq> []" by auto
        with rest_ok that False calculation show ?thesis by simp
      qed
      moreover have "reasm_fin r' = Some (length S)"
        if "err = None" "\<not> fl_closed fl"
          "(\<exists>f \<in> set (f # fs). f_type f = FrameFIN) \<or> reasm_fin (fl_reassembler fl) = Some (length S)"
        using that rest_ok fin1 nfin by (auto split: if_splits)
      moreover have "rx.delivering S base (seen \<union> frames_cells (f # fs)) r' w' \<and> length (ack # acks) = length (f # fs)"
        if "err = None" "\<not> fl_closed fl"
        using that rest_ok calculation(4) by simp
      moreover have "reasm_pos (fl_reassembler fl) \<le> reasm_pos r'" using d(2) rest(2) by simp
      ultimately show ?thesis using rest(3,4)
        by (intro exI [of _ err] exI [of _ "ack # acks"] exI [of _ r'] exI [of _ w'] conjI impI; blast)
    qed
  qed
qed

section \<open>Any frames\<close>

text \<open>Whatever the frame says: nothing panics, and the position counts the bytes written.\<close>

lemma deliver_inbound_any:
  assumes "reasm_inv (fl_reassembler fl)" and "is_slice (f_payload f)"
  shows "\<exists>res r' w' d. deliver_inbound fl w f = Some (res, fl\<lparr>fl_reassembler := r'\<rparr>, w') \<and>
    dw_out w' = dw_out w @ d \<and> reasm_pos r' = reasm_pos (fl_reassembler fl) + length d \<and>
    (\<forall>ack fin. res = Inr (ack, fin) \<longrightarrow> reasm_inv r' \<and> ack = ack_frame fl (next_offset r') fin \<and>
       (fin \<longleftrightarrow> reasm_fin r' = Some (reasm_pos r')))"
proof (cases "stream_frame f")
  case False
  then have "deliver_inbound fl w f = Some (Inl ErrInvalidFrame, fl\<lparr>fl_reassembler := fl_reassembler fl\<rparr>, w)"
    by (simp add: deliver_inbound_def stream_frame_def)
  then show ?thesis
    by (intro exI [of _ "Inl ErrInvalidFrame"] exI [of _ "fl_reassembler fl"] exI [of _ w] exI [of _ "[]"]) simp
next
  case True
  have emit: "\<exists>res r' w1 d. drain_to deadline_write r w = (res, r', w1) \<and> dw_out w1 = dw_out w @ d \<and>
      reasm_pos r' = reasm_pos r + length d \<and> (\<forall>fin. res = Inr fin \<longrightarrow> reasm_inv r' \<and>
        (fin \<longleftrightarrow> reasm_fin r' = Some (reasm_pos r')))" if r: "reasm_inv r" for r
  proof -
    obtain res r' w1 where dr: "drain_to deadline_write r w = (res, r', w1)" by (rule prod_cases3)
    from endpoint.reasm_emit_frame [OF r dr] endpoint.reasm_emit_complete [OF r, of w _ r' w1] dr
    show ?thesis by (intro exI [of _ res] exI [of _ r'] exI [of _ w1]) auto
  qed
  have "\<exists>res r' w1 d. rx.deliver (fl_reassembler fl) w (arrival_of f) = Some (res, r', w1) \<and>
      dw_out w1 = dw_out w @ d \<and> reasm_pos r' = reasm_pos (fl_reassembler fl) + length d \<and>
      (\<forall>fin. res = Inr fin \<longrightarrow> reasm_inv r' \<and> (fin \<longleftrightarrow> reasm_fin r' = Some (reasm_pos r')))"
  proof (cases "f_type f = FrameData")
    case data: True
    obtain e r1 where p: "push (fl_reassembler fl) (f_offset f) (f_payload f) = Some (e, r1)"
      using rx.accept_total [OF assms, of "f_offset f"] by auto
    note fr = reasm_accept_frame [OF assms p]
    show ?thesis
    proof (cases e)
      case None
      with p data emit [of r1] fr show ?thesis by (auto simp: arrival_of_def)
    next
      case (Some x)
      with p data fr show ?thesis by (auto simp: arrival_of_def)
    qed
  next
    case fin: False
    obtain e r1 where s: "set_fin (fl_reassembler fl) (f_offset f) = (e, r1)"
      by (cases "set_fin (fl_reassembler fl) (f_offset f)")
    note fr = reasm_finish_frame [OF assms(1) s]
    show ?thesis
    proof (cases e)
      case None
      with s fin emit [of r1] fr show ?thesis by (auto simp: arrival_of_def)
    next
      case (Some x)
      with s fin fr show ?thesis by (auto simp: arrival_of_def)
    qed
  qed
  then obtain res r' w1 d where dl: "rx.deliver (fl_reassembler fl) w (arrival_of f) = Some (res, r', w1)"
    "dw_out w1 = dw_out w @ d" "reasm_pos r' = reasm_pos (fl_reassembler fl) + length d"
    and ok: "\<forall>fin. res = Inr fin \<longrightarrow> reasm_inv r' \<and> (fin \<longleftrightarrow> reasm_fin r' = Some (reasm_pos r'))" by blast
  show ?thesis
  proof (cases res)
    case (Inl e)
    with dl show ?thesis
      by (intro exI [of _ "Inl e"] exI [of _ r'] exI [of _ w1] exI [of _ d]) (simp add: deliver_inbound_eq [OF True])
  next
    case (Inr fin)
    obtain ce w2 where c: "clear_deadline w1 = (ce, w2)" by (cases "clear_deadline w1")
    then have "dw_out w2 = dw_out w1" by (rule dw_out_clear_deadline)
    with dl ok Inr c show ?thesis
      by (intro exI [of _ "case ce of Some e \<Rightarrow> Inl e | None \<Rightarrow> Inr (ack_frame fl (NextOffset r') fin, fin)"]
          exI [of _ r'] exI [of _ w2] exI [of _ d])
        (auto simp: deliver_inbound_eq [OF True] NextOffset_def split: option.splits)
  qed
qed

lemma write_endpoint_any:
  assumes "reasm_inv (fl_reassembler fl)" and "\<forall>f \<in> set fs. is_slice (f_payload f)"
  shows "\<exists>err acks r' w' d. write_endpoint fl w fs = Some ((err, acks), fl\<lparr>fl_reassembler := r'\<rparr>, w') \<and>
    dw_out w' = dw_out w @ d \<and> reasm_pos r' = reasm_pos (fl_reassembler fl) + length d \<and>
    sorted (map (\<lambda>a. unat (f_offset a)) acks) \<and>
    (\<forall>a \<in> set acks. reasm_pos (fl_reassembler fl) \<le> unat (f_offset a) \<and> unat (f_offset a) \<le> reasm_pos r')"
  using assms
proof (induction fs arbitrary: fl w)
  case Nil
  have "fl\<lparr>fl_reassembler := fl_reassembler fl\<rparr> = fl" by simp
  with Nil show ?case
    by (intro exI [of _ None] exI [of _ "[]"] exI [of _ "fl_reassembler fl"] exI [of _ w] exI [of _ "[]"]) simp
next
  case (Cons f fs)
  show ?case
  proof (cases "fl_closed fl")
    case True
    have "fl\<lparr>fl_reassembler := fl_reassembler fl\<rparr> = fl" by simp
    with True show ?thesis
      by (intro exI [of _ None] exI [of _ "[]"] exI [of _ "fl_reassembler fl"] exI [of _ w] exI [of _ "[]"]) simp
  next
    case False
    from deliver_inbound_any [OF Cons.prems(1), of f w] Cons.prems(2) obtain res r1 w1 d where
      d: "deliver_inbound fl w f = Some (res, fl\<lparr>fl_reassembler := r1\<rparr>, w1)"
        "dw_out w1 = dw_out w @ d" "reasm_pos r1 = reasm_pos (fl_reassembler fl) + length d"
      and ok: "\<forall>ack fin. res = Inr (ack, fin) \<longrightarrow> reasm_inv r1 \<and> ack = ack_frame fl (next_offset r1) fin"
      by auto
    show ?thesis
    proof (cases res)
      case (Inl e)
      with d False show ?thesis
        by (intro exI [of _ "Some e"] exI [of _ "[]"] exI [of _ r1] exI [of _ w1] exI [of _ d]) simp
    next
      case (Inr ackfin)
      obtain ack fin where af: "ackfin = (ack, fin)" by (cases ackfin)
      with ok Inr have "reasm_inv (fl_reassembler (fl\<lparr>fl_reassembler := r1\<rparr>))"
        and ack: "unat (f_offset ack) = reasm_pos r1" by (auto simp: reasm_pos_def)
      from Cons.IH [OF this(1), of w1] Cons.prems(2) obtain err acks r' w' d' where
        "write_endpoint (fl\<lparr>fl_reassembler := r1\<rparr>) w1 fs = Some ((err, acks), fl\<lparr>fl_reassembler := r'\<rparr>, w')"
        "dw_out w' = dw_out w1 @ d'" "reasm_pos r' = reasm_pos r1 + length d'"
        "sorted (map (\<lambda>a. unat (f_offset a)) acks)"
        "\<forall>a \<in> set acks. reasm_pos r1 \<le> unat (f_offset a) \<and> unat (f_offset a) \<le> reasm_pos r'" by auto
      with d Inr af ack False show ?thesis
        by (intro exI [of _ err] exI [of _ "ack # acks"] exI [of _ r'] exI [of _ w'] exI [of _ "d @ d'"]) auto
    qed
  qed
qed

section \<open>A healthy endpoint\<close>

definition healthy :: "deadline_writer \<Rightarrow> bool" where
  "healthy w \<longleftrightarrow> c_writes (dw_conn w) = [] \<and> c_deadlines (dw_conn w) = []"

lemma healthy_write: "healthy w \<Longrightarrow> \<exists>w'. deadline_write w p = (length p, None, w') \<and> healthy w'"
  by (auto simp: healthy_def deadline_write_def conn_write_def conn_set_write_deadline_def)

lemma healthy_clear: "healthy w \<Longrightarrow> \<exists>w'. clear_deadline w = (None, w') \<and> healthy w'"
  by (auto simp: healthy_def clear_deadline_def conn_set_write_deadline_def)

lemma healthy_drain_item:
  assumes "healthy w"
  shows "\<exists>item' r' w'. drain_item deadline_write item r w = (None, item', r', w') \<and> healthy w'"
proof (cases "seg_data item = []")
  case True
  with assms show ?thesis by (simp add: drain_item.simps)
next
  case False
  from healthy_write [OF assms, of "seg_data item"] obtain w' where
    "deadline_write w (seg_data item) = (length (seg_data item), None, w')" "healthy w'" by blast
  with False show ?thesis
    by (simp add: drain_item.simps [of deadline_write item r w] drain_item.simps Let_def)
qed

lemma healthy_drain_loop:
  "healthy w \<Longrightarrow> \<exists>r' w'. drain_loop deadline_write segs r w = (None, r', w') \<and> healthy w'"
proof (induction segs arbitrary: r w)
  case (Cons item rest)
  from healthy_drain_item [OF Cons.prems, of item r] obtain item' r1 w1 where
    "drain_item deadline_write item r w = (None, item', r1, w1)" "healthy w1" by blast
  with Cons.IH [of w1 r1] Cons.prems show ?case by auto
qed simp

lemma healthy_drain:
  assumes "healthy w"
  shows "\<exists>fin r' w'. drain_to deadline_write r w = (Inr fin, r', w') \<and> healthy w'"
  using healthy_drain_loop [OF assms, of "segments r" r] by (auto simp: drain_to_def)

lemma healthy_drainD:
  "drain_to deadline_write r w = (res, r', w') \<Longrightarrow> healthy w \<Longrightarrow> healthy w' \<and> (\<exists>fin. res = Inr fin)"
  using healthy_drain [of w r] by auto

lemma deliver_inbound_healthy:
  assumes "honest S f" and "rx.delivering S base seen (fl_reassembler fl) w" and "healthy w"
    and "deliver_inbound fl w f = Some (res, fl', w')"
  shows "healthy w' \<and> (\<forall>e. res = Inl e \<longrightarrow> e = ErrReorderWindow \<or> e = ErrSegmentLimit)"
proof -
  have f: "stream_frame f" "truthful S (arrival_of f)" using assms(1) by (simp_all add: honest_def)
  obtain res1 r1 w1 where d: "rx.deliver (fl_reassembler fl) w (arrival_of f) = Some (res1, r1, w1)"
    using rx.deliver_step [OF f(2) assms(2)] by blast
  have h1: "healthy w1"
    using d assms(3) by (cases "arrival_of f") (auto dest: healthy_drainD split: option.splits prod.splits)
  have e1: "e = ErrReorderWindow \<or> e = ErrSegmentLimit" if "res1 = Inl e" for e
    using rx.deliver_honest [OF f(2) assms(2), of e r1 w1] d that healthy_drainD [OF _ assms(3)]
    by blast
  show ?thesis
  proof (cases res1)
    case (Inl e)
    with assms(4) d e1 h1 show ?thesis by (auto simp: deliver_inbound_eq [OF f(1)])
  next
    case (Inr fin)
    obtain w2 where "clear_deadline w1 = (None, w2)" "healthy w2" using healthy_clear [OF h1] by blast
    with Inr assms(4) d show ?thesis by (auto simp: deliver_inbound_eq [OF f(1)])
  qed
qed

lemma write_endpoint_healthy:
  assumes "\<forall>f \<in> set fs. honest S f" and "rx.delivering S base seen (fl_reassembler fl) w" and "healthy w"
    and "write_endpoint fl w fs = Some ((Some e, acks), fl', w')"
  shows "e = ErrReorderWindow \<or> e = ErrSegmentLimit"
  using assms
proof (induction fs arbitrary: fl w seen acks)
  case (Cons f fs)
  have f: "honest S f" using Cons.prems(1) by simp
  have live: "\<not> fl_closed fl" using Cons.prems(4) by auto
  from deliver_inbound_honest [OF f Cons.prems(2)] obtain res r1 w1 where
    d: "deliver_inbound fl w f = Some (res, fl\<lparr>fl_reassembler := r1\<rparr>, w1)"
    and ok: "\<forall>ack fin. res = Inr (ack, fin) \<longrightarrow>
         rx.delivering S base (seen \<union> arrival_cells (arrival_of f)) r1 w1" by blast
  note h = deliver_inbound_healthy [OF f Cons.prems(2,3) d]
  show ?case
  proof (cases res)
    case (Inl x)
    with Cons.prems(4) d h live show ?thesis by auto
  next
    case (Inr ackfin)
    obtain ack fin where af: "ackfin = (ack, fin)" by (cases ackfin)
    let ?fl1 = "fl\<lparr>fl_reassembler := r1\<rparr>"
    obtain acks1 where rest: "write_endpoint ?fl1 w1 fs = Some ((Some e, acks1), fl', w')"
      using Cons.prems(4) d Inr af live by (auto split: option.splits prod.splits)
    have "rx.delivering S base (seen \<union> arrival_cells (arrival_of f)) (fl_reassembler ?fl1) w1"
      using ok Inr af by simp
    from Cons.IH [OF _ this _ rest] h Cons.prems(1) show ?thesis by simp
  qed
qed simp

section \<open>A sample\<close>

text \<open>A flow whose receiver is as \<open>NewFlow\<close> leaves it.\<close>

definition fresh_receiver :: "flow \<Rightarrow> bool" where
  "fresh_receiver fl \<longleftrightarrow> fl_reassembler fl = new_reassembler (cfg_reorder_window_bytes (fl_config fl))"

definition sample_config :: flow_config where
  "sample_config = \<lparr>cfg_chunk_size = 4, cfg_carrier_queue_bytes = 100, cfg_reorder_window_bytes = 3,
     cfg_write_timeout = 0\<rparr>"

definition sample_flow :: flow where
  "sample_flow = new_flow (replicate 16 7) DirectionServerToClient sample_config"

definition sample_stream_frame :: "byte \<Rightarrow> u64 \<Rightarrow> byte list \<Rightarrow> frame" where
  "sample_stream_frame t off p = \<lparr>f_type = t, f_direction = DirectionClientToServer,
     f_stream = replicate 16 7, f_offset = off, f_payload = p\<rparr>"

text \<open>The stream 1, 2, 3: its end, its tail, a duplicate, and its beginning last.\<close>

definition sample_frames :: "frame list" where
  "sample_frames = [sample_stream_frame FrameFIN 3 [], sample_stream_frame FrameData 1 [2, 3],
     sample_stream_frame FrameData 2 [3], sample_stream_frame FrameData 0 [1, 2]]"

definition sample_endpoint :: deadline_writer where
  "sample_endpoint = \<lparr>dw_conn = \<lparr>c_writes = [], c_deadlines = [], c_out = []\<rparr>,
     dw_timeout = 0, dw_deadline_set = False\<rparr>"

lemma sample_honest: "\<forall>f \<in> set sample_frames. honest [1, 2, 3] f"
proof -
  have "cells 1 [2, 3] \<subseteq> cells 0 [1, 2, 3 :: byte]" "cells 2 [3] \<subseteq> cells 0 [1, 2, 3 :: byte]"
    "cells 0 [1, 2] \<subseteq> cells 0 [1, 2, 3 :: byte]" by (rule cells_piece; simp)+
  then show ?thesis
    by (simp add: sample_frames_def sample_stream_frame_def honest_def stream_frame_def arrival_of_def
        frame_types is_slice_def)
qed

lemma sample_fresh: "fresh_receiver sample_flow" "\<not> fl_closed sample_flow" "healthy sample_endpoint"
  "fresh_receiver (sample_flow\<lparr>fl_reassembler := new_reassembler 1, fl_config := sample_config\<lparr>cfg_reorder_window_bytes := 1\<rparr>\<rparr>)"
  by (simp_all add: fresh_receiver_def sample_flow_def new_flow_def sample_config_def healthy_def sample_endpoint_def)

lemmas evaluate = push_def push_tail_def set_fin_def drain_to_def drain_item.simps merge_segments_def
  MaxReorderSegments_def new_reassembler_def add_segment_def len64_def go_slice_def Let_def
  deadline_write_def conn_write_def clear_deadline_def deliver_inbound_def NextOffset_def frame_types
  sample_flow_def new_flow_def sample_config_def sample_endpoint_def sample_frames_def
  sample_stream_frame_def word_le_nat_alt

abbreviation narrow_flow :: flow where
  "narrow_flow \<equiv> sample_flow\<lparr>fl_reassembler := new_reassembler 1,
     fl_config := sample_config\<lparr>cfg_reorder_window_bytes := 1\<rparr>\<rparr>"

lemma sample_run: "\<exists>acks fl w. write_endpoint sample_flow sample_endpoint sample_frames = Some ((None, acks), fl, w)"
  by (simp add: evaluate)

lemma narrow_run: "\<exists>acks fl w. write_endpoint narrow_flow sample_endpoint sample_frames =
    Some ((Some ErrReorderWindow, acks), fl, w)"
  by (simp add: evaluate)

section \<open>Properties\<close>

text \<open>
  The endpoint gets a beginning of the peer's stream: for every list of frames that are true of
  the stream, in any order, with any repetition, overlap and loss, from any carriers, and for every
  behaviour of the endpoint's writes, what is written to the endpoint is a beginning of the stream,
  no acknowledgement is ahead of it, and one with the FIN flag is at the end of the stream.
\<close>

theorem endpoint_gets_prefix:
  assumes "\<forall>f \<in> set fs. honest S f" and "length S < 2 ^ 64" and "fresh_receiver fl"
  shows "\<exists>err acks fl' w' k. write_endpoint fl w fs = Some ((err, acks), fl', w') \<and> k \<le> length S \<and>
    dw_out w' = dw_out w @ take k S \<and> acks_within k S acks"
proof -
  have "rx.delivering S (dw_out w) {} (fl_reassembler fl) w"
    using delivering_new [OF assms(2)] assms(3) by (simp add: fresh_receiver_def)
  from write_endpoint_honest [OF assms(1) this] show ?thesis by blast
qed

lemma endpoint_gets_prefix_witness:
  "\<exists>err acks fl' w' k. write_endpoint sample_flow sample_endpoint sample_frames = Some ((err, acks), fl', w') \<and>
     dw_out w' = take k [1, 2, 3]"
  using endpoint_gets_prefix [OF sample_honest _ sample_fresh(1), of sample_endpoint]
  by (auto simp: sample_endpoint_def dw_out_def)

lemma everything_delivered:
  assumes "\<forall>f \<in> set fs. honest S f" and "length S < 2 ^ 64" and "fresh_receiver fl" and "\<not> fl_closed fl"
    and "cells 0 S \<subseteq> frames_cells fs" and "\<exists>f \<in> set fs. f_type f = FrameFIN"
    and "write_endpoint fl w fs = Some ((None, acks), fl', w')"
  shows "dw_out w' = dw_out w @ S \<and> last acks = ack_frame fl (word_of_nat (length S)) True"
proof -
  have "rx.delivering S (dw_out w) {} (fl_reassembler fl) w"
    using delivering_new [OF assms(2)] assms(3) by (simp add: fresh_receiver_def)
  from write_endpoint_honest [OF assms(1) this] assms(4,6,7) obtain r' where
    g: "rx.delivering S (dw_out w) (frames_cells fs) r' w'"
    and l: "fs \<noteq> [] \<longrightarrow> last acks = ack_frame fl (next_offset r') (reasm_fin r' = Some (reasm_pos r'))"
    and fin: "reasm_fin r' = Some (length S)" by auto
  have "fs \<noteq> []" using assms(6) by auto
  have "\<not> reasm_pos r' < length S"
  proof
    assume "reasm_pos r' < length S"
    then have "(reasm_pos r', S ! reasm_pos r') \<in> frames_cells fs" using assms(5) by (auto simp: in_cells)
    with g show False by (fastforce simp: rx.delivering_def)
  qed
  with g have p: "reasm_pos r' = length S" by (simp add: rx.delivering_def)
  have "next_offset r' = word_of_nat (length S)"
    using arg_cong [OF p, of "word_of_nat :: nat \<Rightarrow> u64"] by (simp add: reasm_pos_def)
  with g p l fin \<open>fs \<noteq> []\<close> show ?thesis by (simp add: rx.delivering_def)
qed

text \<open>
  Delivery is complete: if every byte of the stream and its FIN arrived, in whatever order and
  pieces, and nothing failed, then the endpoint has exactly the stream, and the last
  acknowledgement tells the peer so, with its FIN flag.
\<close>

theorem endpoint_gets_everything:
  assumes "\<forall>f \<in> set fs. honest S f" and "length S < 2 ^ 64" and "fresh_receiver fl" and "\<not> fl_closed fl"
    and "cells 0 S \<subseteq> frames_cells fs" and "\<exists>f \<in> set fs. f_type f = FrameFIN"
    and "write_endpoint fl w fs = Some ((None, acks), fl', w')"
  shows "dw_out w' = dw_out w @ S \<and> last acks = ack_frame fl (word_of_nat (length S)) True"
  using everything_delivered [OF assms] .

lemma endpoint_gets_everything_witness:
  "\<exists>acks fl' w'. write_endpoint sample_flow sample_endpoint sample_frames = Some ((None, acks), fl', w') \<and>
     dw_out w' = [1, 2, 3]"
proof -
  obtain acks fl' w' where run:
    "write_endpoint sample_flow sample_endpoint sample_frames = Some ((None, acks), fl', w')"
    using sample_run by blast
  have "cells 0 [1, 2, 3] \<subseteq> frames_cells sample_frames"
    using cells_append [of 0 "[1]" "[2, 3 :: byte]"] cells_append [of 0 "[1]" "[2 :: byte]"]
    by (auto simp: frames_cells_def sample_frames_def sample_stream_frame_def arrival_of_def frame_types)
  moreover have "\<exists>f \<in> set sample_frames. f_type f = FrameFIN"
    by (simp add: sample_frames_def sample_stream_frame_def)
  ultimately have "dw_out w' = dw_out sample_endpoint @ [1, 2, 3]"
    using endpoint_gets_everything [OF sample_honest _ sample_fresh(1,2) _ _ run] by simp
  with run show ?thesis by (simp add: sample_endpoint_def dw_out_def)
qed

text \<open>
  C8. Acknowledgements are true whatever the peer sends: for any frames, also contradictory ones,
  nothing panics, the endpoint's output only grows, the acknowledged offsets never decrease, and
  none exceeds the number of bytes already written to the endpoint.
\<close>

theorem acknowledged_is_delivered:
  assumes "fresh_receiver fl" and "\<forall>f \<in> set fs. is_slice (f_payload f)"
  shows "\<exists>err acks fl' w' d. write_endpoint fl w fs = Some ((err, acks), fl', w') \<and>
    dw_out w' = dw_out w @ d \<and> sorted (map (\<lambda>a. unat (f_offset a)) acks) \<and>
    (\<forall>a \<in> set acks. unat (f_offset a) \<le> length d)"
proof -
  have z: "reasm_pos (fl_reassembler fl) = 0"
    using assms(1) by (simp add: fresh_receiver_def reasm_pos_def new_reassembler_def)
  have "reasm_inv (fl_reassembler fl)" using assms(1) by (simp add: fresh_receiver_def reasm_inv_new)
  from write_endpoint_any [OF this assms(2), of w] show ?thesis unfolding z by fastforce
qed

lemma acknowledged_is_delivered_witness:
  "\<exists>res. write_endpoint sample_flow sample_endpoint (sample_stream_frame 9 4 [1] # sample_frames) = Some res"
proof -
  have "\<forall>f \<in> set (sample_stream_frame 9 4 [1] # sample_frames). is_slice (f_payload f)"
    by (simp add: sample_frames_def sample_stream_frame_def is_slice_def)
  from acknowledged_is_delivered [OF sample_fresh(1) this, of sample_endpoint] show ?thesis by blast
qed

text \<open>
  An honest peer is never accused: with a healthy endpoint the only errors that true frames can
  cause are the two resource limits, never an overlap mismatch, an invalid FIN or an invalid frame.
\<close>

theorem honest_peer_not_accused:
  assumes "\<forall>f \<in> set fs. honest S f" and "length S < 2 ^ 64" and "fresh_receiver fl" and "healthy w"
    and "write_endpoint fl w fs = Some ((Some e, acks), fl', w')"
  shows "e = ErrReorderWindow \<or> e = ErrSegmentLimit"
proof (rule write_endpoint_healthy [OF assms(1) _ assms(4,5)])
  show "rx.delivering S (dw_out w) {} (fl_reassembler fl) w"
    using delivering_new [OF assms(2)] assms(3) by (simp add: fresh_receiver_def)
qed

lemma honest_peer_not_accused_witness:
  "\<exists>e acks fl' w'. write_endpoint narrow_flow sample_endpoint sample_frames = Some ((Some e, acks), fl', w') \<and>
     (e = ErrReorderWindow \<or> e = ErrSegmentLimit)"
proof -
  obtain e acks fl' w' where run:
    "write_endpoint narrow_flow sample_endpoint sample_frames = Some ((Some e, acks), fl', w')"
    using narrow_run by blast
  have "e = ErrReorderWindow \<or> e = ErrSegmentLimit"
    by (rule honest_peer_not_accused [OF sample_honest _ sample_fresh(4,3) run]) simp
  with run show ?thesis by blast
qed

end
