(* ===== verification/Sender_Runs.thy ===== *)
theory Sender_Runs
  imports Sender Receiver
begin

text \<open>
  What holds in every run of the sender: each carrier writes in order, what a flow is called never
  changes, the frames cut the bytes that were read from the endpoint into pieces, and every
  acknowledgement that was applied came from the peer. The properties of the sending half close the theory.
\<close>

section \<open>Each carrier writes in order\<close>

definition log_inv :: "sender \<Rightarrow> bool" where
  "log_inv s \<longleftrightarrow>
     (\<forall>c. sorted_wrt (<) (map (unat \<circ> rp_sequence) (sd_log s c)) \<and> (c \<notin> sd_used s \<longrightarrow> sd_log s c = []) \<and>
        (\<forall>held \<in> set_option (sd_sending s c). \<forall>x \<in> set (sd_log s c). rp_sequence x < rp_sequence held) \<and>
        (\<forall>st \<in> set_option (map_of (fl_carrier_states (sd_flow s)) c).
           (\<forall>x \<in> set (sd_log s c). rp_sequence x < st_next_sequence st)))"

lemma log_inv_flow:
  assumes "log_inv s" and "sd_log s' = sd_log s" "sd_sending s' = sd_sending s" "sd_used s \<subseteq> sd_used s'"
    and "\<And>c st. map_of (fl_carrier_states (sd_flow s')) c = Some st \<Longrightarrow>
      sd_log s c = [] \<or> map_of (fl_carrier_states (sd_flow s)) c = Some st"
  shows "log_inv s'"
  unfolding log_inv_def
proof (intro allI conjI ballI impI)
  fix c
  show "sorted_wrt (<) (map (unat \<circ> rp_sequence) (sd_log s' c))" "c \<notin> sd_used s' \<Longrightarrow> sd_log s' c = []"
    using assms(1,2,4) by (auto simp: log_inv_def)
  show "rp_sequence x < rp_sequence held" if "held \<in> set_option (sd_sending s' c)" "x \<in> set (sd_log s' c)" for held x
    using assms(1-3) that by (auto simp: log_inv_def)
  show "rp_sequence x < st_next_sequence st"
    if "st \<in> set_option (map_of (fl_carrier_states (sd_flow s')) c)" "x \<in> set (sd_log s' c)" for st x
    using assms(1,2) assms(5) [of c st] that by (auto simp: log_inv_def)
qed

lemma log_inv_view:
  assumes "log_inv s" and "sender_view (sd_flow s') = sender_view (sd_flow s)"
    and "sd_log s' = sd_log s" "sd_sending s' = sd_sending s" "sd_used s \<subseteq> sd_used s'"
  shows "log_inv s'"
  by (rule log_inv_flow [OF assms(1,3-5)]) (use assms(2) in \<open>simp add: sender_view_eq\<close>)

lemma ack_states:
  "acknowledge fl c offset fin = (skipped, cmp, fl') \<Longrightarrow> fl_carrier_states fl' = fl_carrier_states fl"
  "apply_deferred_acknowledgement fl = (skipped, cmp, fl') \<Longrightarrow> fl_carrier_states fl' = fl_carrier_states fl"
  "apply_acknowledgement fl offset fin = (skipped, cmp, fl') \<Longrightarrow> fl_carrier_states fl' = fl_carrier_states fl"
proof -
  have a: "apply_acknowledgement fl offset fin = (skipped, cmp, fl') \<Longrightarrow> fl_carrier_states fl' = fl_carrier_states fl"
    for fl offset fin skipped cmp fl'
    by (auto simp: apply_acknowledgement_def prune_history_def Let_def split: option.splits if_splits)
  then show "apply_acknowledgement fl offset fin = (skipped, cmp, fl') \<Longrightarrow> fl_carrier_states fl' = fl_carrier_states fl" .
  show "apply_deferred_acknowledgement fl = (skipped, cmp, fl') \<Longrightarrow> fl_carrier_states fl' = fl_carrier_states fl"
    by (auto simp: apply_deferred_acknowledgement_def dest!: a split: option.splits if_splits)
  show "acknowledge fl c offset fin = (skipped, cmp, fl') \<Longrightarrow> fl_carrier_states fl' = fl_carrier_states fl"
    by (auto simp: acknowledge_def defer_acknowledgement_def dest!: a split: option.splits if_splits)
qed

lemma send_done_states:
  assumes "send_done fl c item = (skipped, cmp, fl')"
  shows "(map_of (fl_carrier_states fl) c = None \<and> fl' = fl) \<or>
    (\<exists>st. st_next_sequence st = rp_sequence item + 1 \<and> map_of (fl_carrier_states fl') = (map_of (fl_carrier_states fl))(c \<mapsto> st))"
proof (cases "map_of (fl_carrier_states fl) c")
  case None
  with assms show ?thesis by (simp add: send_done_def)
next
  case (Some st0)
  from send_done_after_write [OF this, of item] obtain st where st: "st_next_sequence st = rp_sequence item + 1"
    and d: "send_done fl c item = apply_deferred_acknowledgement (after_write fl c st item)" by blast
  from d assms ack_states(2) have "fl_carrier_states fl' = fl_carrier_states (after_write fl c st item)" by metis
  then show ?thesis using st by (metis after_write_simps(1))
qed

lemma attach_states:
  "attach_limited fl c max_payload max_carriers = Inr (m, ack, fl') \<Longrightarrow>
     \<exists>st. map_of (fl_carrier_states fl') = (map_of (fl_carrier_states fl))(c \<mapsto> st)"
  by (auto simp: attach_limited_def Let_def split: if_splits)

lemma detach_states:
  assumes "history_inv s" and "detach (sd_flow s) c preserve = (skipped, finish, resend, fl')"
    and "map_of (fl_carrier_states fl') c' = Some st"
  shows "map_of (fl_carrier_states (sd_flow s)) c' = Some st"
proof -
  from detach_cases [OF assms(1,2)] obtain fl1 where
    fl1: "fl1 = sd_flow s \<or> fl1 = without_carrier (sd_flow s) c"
    and r: "fl' = fl1 \<or> (\<exists>r. claim_after_carriers fl1 = (r, fl'))" by blast
  have "fl_carrier_states fl' = fl_carrier_states fl1"
    using r claim_after_carriers_view by (auto simp: sender_view_eq)
  with fl1 assms(3) show ?thesis by (auto simp: without_carrier_def delete_conv' split: if_splits)
qed

lemma pick_spec:
  assumes "sender_inv s" and "send_pick (sd_flow s) c = (Return item, fl')"
  shows "\<exists>st. map_of (fl_carrier_states (sd_flow s)) c = Some st \<and> st_next_sequence st \<le> rp_sequence item \<and>
    item \<in> set (unacknowledged (sd_flow s) (sd_sent s)) \<and>
    (\<forall>x \<in> set (unacknowledged (sd_flow s) (sd_sent s)). st_next_sequence st \<le> rp_sequence x \<longrightarrow> rp_sequence item \<le> rp_sequence x) \<and>
    fl' = set_state (sd_flow s) c (st\<lparr>st_in_flight := Some (rp_sequence item)\<rparr>)"
proof -
  note inv = sender_inv_parts [OF assms(1)]
  obtain st where st: "map_of (fl_carrier_states (sd_flow s)) c = Some st"
    and f: "find (\<lambda>x. rp_sequence x \<ge> st_next_sequence st) (fl_history (sd_flow s)) = Some item"
    and fl': "fl' = set_state (sd_flow s) c (st\<lparr>st_in_flight := Some (rp_sequence item)\<rparr>)"
    using assms(2) by (auto simp: send_pick_def split: option.splits if_splits)
  have h: "fl_history (sd_flow s) = unacknowledged (sd_flow s) (sd_sent s)" using inv(2) by (simp add: history_inv_def)
  from find_first [OF sorted_unacknowledged [OF sequences(1) [OF inv(1)]] f [unfolded h]] st fl'
  show ?thesis by blast
qed

lemma sender_step_log:
  assumes "sender_step s s'" and "sender_inv s" and "log_inv s" and "reader_inv s"
  shows "log_inv s'"
  using assms(1)
proof (cases rule: sender_step.cases)
  case (sn_attach c max_payload max_carriers m ack fl')
  have "sd_log s c = []" using assms(3) sn_attach(2) by (auto simp: log_inv_def)
  with attach_states [OF sn_attach(3)] sn_attach(1) show ?thesis
    by (intro log_inv_flow [OF assms(3)]) (auto split: if_splits)
next
  case sn_reader
  from this assms(4) show ?thesis
  proof (cases rule: source_step_cases)
    case (op fl' calls r offset reads)
    with other_op_view show ?thesis by (intro log_inv_view [OF assms(3)]) auto
  next
    case (data p f res skipped fl' r)
    with remember_cases [OF sender_inv_parts(2) [OF assms(2)] data(7)] show ?thesis
      by (intro log_inv_flow [OF assms(3)]) (auto simp: appended_def)
  next
    case (fin f res skipped fl' r)
    with remember_cases [OF sender_inv_parts(2) [OF assms(2)] fin(4)] show ?thesis
      by (intro log_inv_flow [OF assms(3)]) (auto simp: appended_def)
  qed
next
  case (sn_pick c item fl')
  from pick_spec [OF assms(2) sn_pick(3)] sn_pick(1) assms(3) show ?thesis
    by (fastforce simp: log_inv_def elim: less_le_trans)
next
  case (sn_written c item skipped cmp fl')
  have held: "\<forall>x \<in> set (sd_log s c). rp_sequence x < rp_sequence item" using assms(3) sn_written(2) by (simp add: log_inv_def)
  have bound: "c \<in> sd_used s" "item \<in> set (sd_sent s)"
    using sender_inv_parts(4) [OF assms(2)] sn_written(2) by (auto simp: carriers_inv_def Let_def)
  have "unat (rp_sequence item) + 1 < 2 ^ 64"
    using sequences(2) [OF sender_inv_parts(1) [OF assms(2)] bound(2)] sender_inv_parts(1) [OF assms(2)]
    by (simp add: stream_inv_def)
  then have next_seq: "unat (rp_sequence item + 1) = Suc (unat (rp_sequence item))"
    by (simp add: unat_word_ariths)
  have "log_inv s'" if "\<And>c' st. map_of (fl_carrier_states fl') c' = Some st \<Longrightarrow>
      (if c' = c then st_next_sequence st = rp_sequence item + 1 else map_of (fl_carrier_states (sd_flow s)) c' = Some st)"
    using assms(3) held bound(1) next_seq that unfolding sn_written(1) log_inv_def
    by (fastforce simp: sorted_wrt_append word_less_nat_alt split: if_splits)
  moreover have "(if c' = c then st_next_sequence st = rp_sequence item + 1 else map_of (fl_carrier_states (sd_flow s)) c' = Some st)"
    if "map_of (fl_carrier_states fl') c' = Some st" for c' st
    using send_done_states [OF sn_written(3)] that by (auto split: if_splits)
  ultimately show ?thesis by blast
next
  case (sn_ack c offset fin skipped cmp fl')
  with ack_states(1) show ?thesis by (intro log_inv_flow [OF assms(3)]) auto
next
  case (sn_detach c preserve skipped finish resend fl')
  with detach_states [OF sender_inv_parts(2) [OF assms(2)] sn_detach(2)] show ?thesis
    by (intro log_inv_flow [OF assms(3)]) auto
next
  case (sn_other fl' calls)
  with other_op_view show ?thesis by (intro log_inv_view [OF assms(3)]) auto
next
  case (sn_reset err notify first fl')
  with claim_reset_view show ?thesis by (intro log_inv_view [OF assms(3)]) auto
next
  case (sn_finish cn fl')
  then show ?thesis by (intro log_inv_flow [OF assms(3)]) (auto simp: finish_reset_def)
qed (intro log_inv_flow [OF assms(3)]; auto)

lemma sender_run_log: "sender_run cfg stream_id dir s \<Longrightarrow> log_inv s"
  unfolding sender_run_def
proof (induction rule: rtranclp_induct)
  case base
  then show ?case by (simp add: log_inv_def sender_start_def)
next
  case (step s1 s2)
  then show ?case using sender_step_log sender_run_invs unfolding sender_run_def by blast
qed

section \<open>What never changes\<close>

definition flow_name :: "flow \<Rightarrow> byte list \<times> byte \<times> flow_config" where
  "flow_name fl = (fl_id fl, fl_send_direction fl, fl_config fl)"

lemma ack_name:
  "acknowledge fl c offset fin = (skipped, cmp, fl') \<Longrightarrow> flow_name fl' = flow_name fl"
  "apply_deferred_acknowledgement fl = (skipped, cmp, fl') \<Longrightarrow> flow_name fl' = flow_name fl"
proof -
  have a: "apply_acknowledgement fl offset fin = (skipped, cmp, fl') \<Longrightarrow> flow_name fl' = flow_name fl"
    for fl offset fin skipped cmp fl'
    by (auto simp: apply_acknowledgement_def prune_history_def flow_name_def Let_def split: option.splits if_splits)
  show "apply_deferred_acknowledgement fl = (skipped, cmp, fl') \<Longrightarrow> flow_name fl' = flow_name fl"
    by (auto simp: apply_deferred_acknowledgement_def flow_name_def dest!: a split: option.splits if_splits)
  show "acknowledge fl c offset fin = (skipped, cmp, fl') \<Longrightarrow> flow_name fl' = flow_name fl"
    by (auto simp: acknowledge_def defer_acknowledgement_def flow_name_def dest!: a [unfolded flow_name_def]
        split: option.splits if_splits)
qed

lemma set_state_name: "flow_name (set_state fl c st) = flow_name fl"
  by (simp add: flow_name_def set_state_def)

lemma send_done_name:
  assumes "send_done fl c item = (skipped, cmp, fl')"
  shows "flow_name fl' = flow_name fl"
proof (cases "map_of (fl_carrier_states fl) c")
  case None
  with assms show ?thesis by (simp add: send_done_def)
next
  case (Some st0)
  from send_done_after_write [OF this, of item] obtain st where
    d: "send_done fl c item = apply_deferred_acknowledgement (after_write fl c st item)" by blast
  have "flow_name (after_write fl c st item) = flow_name fl"
    by (simp add: after_write_def flow_name_def set_state_def Let_def)
  with d assms ack_name(2) show ?thesis by metis
qed

lemma claim_after_carriers_name: "claim_after_carriers fl = (r, fl') \<Longrightarrow> flow_name fl' = flow_name fl"
  by (auto simp: claim_after_carriers_def claim_reset_def flow_name_def split: if_splits)

lemma other_op_name: "other_op reader fl fl' calls \<Longrightarrow> flow_name fl' = flow_name fl"
proof (induction rule: other_op.induct)
  case (op_deliver fl w f res fl' w')
  then show ?case
    by (auto simp: deliver_inbound_def flow_name_def split: option.splits sum.splits prod.splits if_splits)
next
  case (op_last_carrier fl r fl')
  then show ?case by (auto simp: reset_after_last_carrier_def dest: claim_after_carriers_name split: if_splits)
next
  case (op_carrier_failure fl r fl')
  then show ?case by (auto simp: reset_after_carrier_failure_def dest: claim_after_carriers_name split: if_splits)
qed (auto simp: flow_name_def start_flow_def finish_remote_def carrier_frame_written_def begin_inbound_def
    release_inbound_def record_ack_def Let_def split: if_splits)

lemma remember_name:
  assumes "sender_inv s" and "remember (sd_flow s) f = (res, skipped, fl')"
  shows "flow_name fl' = flow_name (sd_flow s)"
  using remember_cases [OF sender_inv_parts(2) [OF assms(1)] assms(2)] by (auto simp: appended_def flow_name_def)

lemma detach_name:
  assumes "sender_inv s" and "detach (sd_flow s) c preserve = (skipped, finish, resend, fl')"
  shows "flow_name fl' = flow_name (sd_flow s)"
proof -
  from detach_cases [OF sender_inv_parts(2) [OF assms(1)] assms(2)] obtain fl1 where
    "fl1 = sd_flow s \<or> fl1 = without_carrier (sd_flow s) c"
    and "fl' = fl1 \<or> (\<exists>r. claim_after_carriers fl1 = (r, fl'))" by blast
  then show ?thesis by (auto simp: without_carrier_def flow_name_def dest!: claim_after_carriers_name [unfolded flow_name_def])
qed

lemma sender_step_name:
  assumes "sender_step s s'" and "sender_inv s" and "reader_inv s"
  shows "flow_name (sd_flow s') = flow_name (sd_flow s)"
  using assms(1)
proof (cases rule: sender_step.cases)
  case (sn_attach c max_payload max_carriers m ack fl')
  then show ?thesis by (auto simp: attach_limited_def set_state_def flow_name_def Let_def split: if_splits)
next
  case sn_reader
  from this assms(3) show ?thesis
    by (cases rule: source_step_cases) (use remember_name [OF assms(2)] other_op_name in auto)
next
  case (sn_pick c item fl')
  with pick_spec [OF assms(2)] set_state_name show ?thesis by fastforce
next
  case (sn_reset err notify first fl')
  then show ?thesis by (auto simp: claim_reset_def flow_name_def split: if_splits)
next
  case (sn_finish cn fl')
  then show ?thesis by (auto simp: finish_reset_def flow_name_def)
qed (use remember_name [OF assms(2)] detach_name [OF assms(2)] send_done_name ack_name(1) other_op_name in auto)

section \<open>What was read and what was acknowledged\<close>

text \<open>
  The frames are the bytes that were read, in order and without a gap, and they carry the name of the
  flow; an applied acknowledgement arrived from the peer.
\<close>

definition source_inv :: "sender \<Rightarrow> bool" where
  "source_inv s \<longleftrightarrow> concat (map (f_payload \<circ> rp_frame) (sd_sent s)) = sd_stream s \<and>
     (\<forall>item \<in> set (sd_sent s). f_stream (rp_frame item) = fl_id (sd_flow s) \<and>
        f_direction (rp_frame item) = fl_send_direction (sd_flow s)) \<and>
     (fl_global_ack_offset (sd_flow s) \<noteq> 0 \<longrightarrow> fl_global_ack_offset (sd_flow s) \<in> fst ` sd_acks s)"

lemma apply_ack_offset:
  assumes "apply_acknowledgement fl offset fin = (skipped, cmp, fl')"
  shows "fl_global_ack_offset fl' = offset"
  using assms by (auto simp: apply_acknowledgement_def prune_history_def Let_def split: option.splits if_splits)

lemma ack_offset:
  "acknowledge fl c offset fin = (skipped, cmp, fl') \<Longrightarrow>
     fl_global_ack_offset fl' = fl_global_ack_offset fl \<or> fl_global_ack_offset fl' = offset"
  "apply_deferred_acknowledgement fl = (skipped, cmp, fl') \<Longrightarrow> fl_global_ack_offset fl' = fl_global_ack_offset fl \<or>
     (\<exists>fin. fl_deferred_ack fl = Some (fl_global_ack_offset fl', fin))"
  by (auto simp: acknowledge_def defer_acknowledgement_def dest!: apply_ack_offset split: option.splits if_splits)
    (auto simp: apply_deferred_acknowledgement_def dest!: apply_ack_offset split: option.splits if_splits)

lemma source_inv_view:
  assumes "source_inv s" and "flow_name (sd_flow s') = flow_name (sd_flow s)"
    and "sd_sent s' = sd_sent s" "sd_stream s' = sd_stream s" "sd_acks s \<subseteq> sd_acks s'"
    and "fl_global_ack_offset (sd_flow s') = fl_global_ack_offset (sd_flow s) \<or>
      fl_global_ack_offset (sd_flow s') \<in> fst ` sd_acks s'"
  shows "source_inv s'"
proof -
  have "fst ` sd_acks s \<subseteq> fst ` sd_acks s'" using assms(5) by (rule image_mono)
  with assms(1-4,6) show ?thesis unfolding source_inv_def flow_name_def
    by (simp del: image_subset_iff) (metis subsetD)
qed

lemma source_inv_append:
  assumes "source_inv s" and "sender_inv s" and "remember (sd_flow s) f = (res, skipped, fl')"
    and "f_stream f = fl_id (sd_flow s)" "f_direction f = fl_send_direction (sd_flow s)"
    and s': "sd_flow s' = fl'" "sd_sent s' = sd_sent s @ remembered res f" "sd_acks s' = sd_acks s"
      "sd_stream s' = sd_stream s @ concat (map (\<lambda>_. f_payload f) (remembered res f))"
  shows "source_inv s'"
proof -
  have "fl_global_ack_offset fl' = fl_global_ack_offset (sd_flow s) \<and>
      (remembered res f = [] \<or> (\<exists>x. remembered res f = [x] \<and> rp_frame x = f))"
    using remember_cases [OF sender_inv_parts(2) [OF assms(2)] assms(3)] by (auto simp: appended_def)
  with assms(1,4,5) s' remember_name [OF assms(2,3)] show ?thesis
    by (auto simp: source_inv_def flow_name_def)
qed

lemma sender_step_source:
  assumes "sender_step s s'" and "sender_inv s" and "source_inv s" and "reader_inv s"
  shows "source_inv s'"
  using assms(1)
proof (cases rule: sender_step.cases)
  case (sn_attach c max_payload max_carriers m ack fl')
  have "fl_global_ack_offset fl' = fl_global_ack_offset (sd_flow s)"
    using sn_attach(3) by (auto simp: attach_limited_def Let_def split: if_splits)
  with sender_step_name [OF assms(1,2,4)] sn_attach show ?thesis by (intro source_inv_view [OF assms(3)]) auto
next
  case sn_reader
  from this assms(4) show ?thesis
  proof (cases rule: source_step_cases)
    case (op fl' calls r offset reads)
    have "fl_global_ack_offset fl' = fl_global_ack_offset (sd_flow s)"
      using other_op_view [OF op(1)] by (simp add: sender_view_eq)
    with sender_step_name [OF assms(1,2,4)] op show ?thesis by (intro source_inv_view [OF assms(3)]) auto
  next
    case (data p f res skipped fl' r)
    then show ?thesis by (intro source_inv_append [OF assms(3,2) data(7)]) (simp_all add: data_frame_def)
  next
    case (fin f res skipped fl' r)
    then show ?thesis by (intro source_inv_append [OF assms(3,2) fin(4)]) (simp_all add: fin_frame_def)
  qed
next
  case (sn_pick c item fl')
  have "fl_global_ack_offset fl' = fl_global_ack_offset (sd_flow s)" using pick_spec [OF assms(2) sn_pick(3)] by auto
  with sender_step_name [OF assms(1,2,4)] sn_pick show ?thesis by (intro source_inv_view [OF assms(3)]) auto
next
  case (sn_written c item skipped cmp fl')
  have "fl_global_ack_offset fl' = fl_global_ack_offset (sd_flow s) \<or> fl_global_ack_offset fl' \<in> fst ` sd_acks s"
  proof (cases "map_of (fl_carrier_states (sd_flow s)) c")
    case None
    then show ?thesis using sn_written(3) by (simp add: send_done_def)
  next
    case (Some st0)
    from send_done_after_write [OF this, of item] obtain st where
      "send_done (sd_flow s) c item = apply_deferred_acknowledgement (after_write (sd_flow s) c st item)" by blast
    with sn_written(3) ack_offset(2) have "fl_global_ack_offset fl' = fl_global_ack_offset (sd_flow s) \<or>
        (\<exists>fin. fl_deferred_ack (sd_flow s) = Some (fl_global_ack_offset fl', fin))" by (metis after_write_simps(5,7))
    then show ?thesis using sender_inv_parts(3) [OF assms(2)] by (force simp: ack_inv_def Let_def)
  qed
  with sender_step_name [OF assms(1,2,4)] sn_written show ?thesis by (intro source_inv_view [OF assms(3)]) auto
next
  case (sn_ack c offset fin skipped cmp fl')
  have "fl_global_ack_offset fl' = fl_global_ack_offset (sd_flow s) \<or> fl_global_ack_offset fl' = offset"
    using sn_ack(2) by (rule ack_offset(1))
  with sender_step_name [OF assms(1,2,4)] sn_ack show ?thesis by (intro source_inv_view [OF assms(3)]) force+
next
  case (sn_detach c preserve skipped finish resend fl')
  from detach_cases [OF sender_inv_parts(2) [OF assms(2)] sn_detach(2)]
  have "fl_global_ack_offset fl' = fl_global_ack_offset (sd_flow s)"
    by (auto simp: without_carrier_def sender_view_eq dest!: claim_after_carriers_view)
  with sender_step_name [OF assms(1,2,4)] sn_detach show ?thesis by (intro source_inv_view [OF assms(3)]) auto
next
  case (sn_other fl' calls)
  have "fl_global_ack_offset fl' = fl_global_ack_offset (sd_flow s)"
    using other_op_view [OF sn_other(2)] by (simp add: sender_view_eq)
  with sender_step_name [OF assms(1,2,4)] sn_other show ?thesis by (intro source_inv_view [OF assms(3)]) auto
next
  case (sn_reset err notify first fl')
  have "fl_global_ack_offset fl' = fl_global_ack_offset (sd_flow s)"
    using claim_reset_view [OF sn_reset(3)] by (simp add: sender_view_eq)
  with sender_step_name [OF assms(1,2,4)] sn_reset show ?thesis by (intro source_inv_view [OF assms(3)]) auto
next
  case (sn_finish cn fl')
  with sender_step_name [OF assms(1,2,4)] show ?thesis by (intro source_inv_view [OF assms(3)]) (auto simp: finish_reset_def)
qed (intro source_inv_view [OF assms(3)]; auto)

lemma sender_run_source:
  "sender_run cfg stream_id dir s \<Longrightarrow> source_inv s \<and> flow_name (sd_flow s) = (stream_id, dir, cfg)"
  unfolding sender_run_def
proof (induction rule: rtranclp_induct)
  case base
  then show ?case by (simp add: source_inv_def flow_name_def sender_start_def new_flow_def)
next
  case (step s1 s2)
  then show ?case using sender_step_source sender_step_name sender_run_invs unfolding sender_run_def by metis
qed

section \<open>A sample run\<close>

text \<open>
  The operations as functions, to run samples: the application sends the bytes 1 and 2 and the end
  over one carrier, the peer acknowledges both, its own end arrives, and the acknowledgement of that
  end is written.
\<close>

definition do_attach :: "cid \<Rightarrow> sender \<Rightarrow> sender" where
  "do_attach c s = (case attach_limited (sd_flow s) c 0 0 of Inl _ \<Rightarrow> s
     | Inr (m, ack, fl') \<Rightarrow> s\<lparr>sd_flow := fl', sd_used := insert c (sd_used s)\<rparr>)"

definition do_start :: "sender \<Rightarrow> sender" where
  "do_start s = (case start_flow (sd_flow s) of (fails, fl') \<Rightarrow>
     s\<lparr>sd_flow := fl', sd_calls := sd_calls s @ (if fails then [(Some ErrNoCarriers, True)] else []),
       sd_reader := (if \<not> fl_started (sd_flow s) \<and> fl_started fl' \<and> \<not> fails \<and> sd_reader s = ReaderIdle then AtRead else sd_reader s)\<rparr>)"

definition do_read :: "byte list \<Rightarrow> go_error option \<Rightarrow> sender \<Rightarrow> sender" where
  "do_read p err s = s\<lparr>sd_reads := sd_reads s @ [(p, err)], sd_reader := (if p = [] then after_read err else HoldsData p err)\<rparr>"

text \<open>The next step of the reader after a read, whatever it is.\<close>

definition do_reader :: "sender \<Rightarrow> sender" where
  "do_reader s = (case sd_reader s of
     HoldsData p err \<Rightarrow> (case remember (sd_flow s) (data_frame (sd_flow s) (sd_offset s) p) of (res, skipped, fl') \<Rightarrow>
       s\<lparr>sd_flow := fl', sd_sent := sd_sent s @ remembered res (data_frame (sd_flow s) (sd_offset s) p),
         sd_stream := sd_stream s @ concat (map (\<lambda>_. p) (remembered res (data_frame (sd_flow s) (sd_offset s) p))),
         sd_reader := (case res of Return seq \<Rightarrow> AwaitsData p seq err | Wait \<Rightarrow> HoldsData p err | Fail e \<Rightarrow> ReaderResets e)\<rparr>)
   | AwaitsData p seq err \<Rightarrow> (let res = broadcast_pass (sd_flow s) (data_frame (sd_flow s) (sd_offset s) p) seq in
       s\<lparr>sd_offset := (case res of Return _ \<Rightarrow> sd_offset s + len64 p | _ \<Rightarrow> sd_offset s),
         sd_reader := (case res of Return _ \<Rightarrow> after_read err | Wait \<Rightarrow> AwaitsData p seq err | Fail e \<Rightarrow> ReaderResets e)\<rparr>)
   | SeesEOF \<Rightarrow> s\<lparr>sd_flow := (sd_flow s)\<lparr>fl_local_fin := True\<rparr>, sd_reader := HoldsFIN\<rparr>
   | HoldsFIN \<Rightarrow> (case remember (sd_flow s) (fin_frame (sd_flow s) (sd_offset s)) of (res, skipped, fl') \<Rightarrow>
       s\<lparr>sd_flow := fl', sd_sent := sd_sent s @ remembered res (fin_frame (sd_flow s) (sd_offset s)),
         sd_eof := (remembered res (fin_frame (sd_flow s) (sd_offset s)) \<noteq> []),
         sd_reader := (case res of Return seq \<Rightarrow> AwaitsFIN seq | Wait \<Rightarrow> HoldsFIN | Fail e \<Rightarrow> FINFails e)\<rparr>)
   | AwaitsFIN seq \<Rightarrow> (let res = broadcast_pass (sd_flow s) (fin_frame (sd_flow s) (sd_offset s)) seq in
       s\<lparr>sd_reader := (case res of Return _ \<Rightarrow> ChecksComplete | Wait \<Rightarrow> AwaitsFIN seq | Fail e \<Rightarrow> FINFails e)\<rparr>)
   | ChecksComplete \<Rightarrow> s\<lparr>sd_calls := sd_calls s @ due (complete (sd_flow s)), sd_reader := ReaderGone\<rparr>
   | ReaderResets e \<Rightarrow> s\<lparr>sd_calls := sd_calls s @ [(Some e, True)], sd_reader := ReaderGone\<rparr>
   | _ \<Rightarrow> s)"

definition do_pick :: "cid \<Rightarrow> sender \<Rightarrow> sender" where
  "do_pick c s = (case send_pick (sd_flow s) c of
       (Return item, fl') \<Rightarrow> s\<lparr>sd_flow := fl', sd_sending := (sd_sending s)(c := Some item)\<rparr> | _ \<Rightarrow> s)"

definition do_written :: "cid \<Rightarrow> sender \<Rightarrow> sender" where
  "do_written c s = (case sd_sending s c of None \<Rightarrow> s | Some item \<Rightarrow>
     (case send_done (sd_flow s) c item of (skipped, is_complete, fl') \<Rightarrow>
        s\<lparr>sd_flow := fl', sd_sending := (sd_sending s)(c := None),
          sd_log := (sd_log s)(c := sd_log s c @ [item]), sd_calls := sd_calls s @ due is_complete\<rparr>))"

definition do_ack :: "cid \<Rightarrow> u64 \<Rightarrow> bool \<Rightarrow> sender \<Rightarrow> sender" where
  "do_ack c offset fin s = (case acknowledge (sd_flow s) c offset fin of (skipped, is_complete, fl') \<Rightarrow>
     s\<lparr>sd_flow := fl', sd_acks := insert (offset, fin) (sd_acks s), sd_calls := sd_calls s @ due is_complete\<rparr>)"

definition do_other :: "flow \<times> (go_error option \<times> bool) list \<Rightarrow> sender \<Rightarrow> sender" where
  "do_other r s = s\<lparr>sd_flow := fst r, sd_calls := sd_calls s @ snd r\<rparr>"

definition do_reset :: "sender \<Rightarrow> sender" where
  "do_reset s = (case sd_calls s of [] \<Rightarrow> s | (err, notify) # _ \<Rightarrow>
     (case claim_reset (sd_flow s) err notify of (first, fl') \<Rightarrow>
        s\<lparr>sd_flow := fl', sd_calls := remove1 (err, notify) (sd_calls s)\<rparr>))"

lemma do_step:
  "c \<notin> sd_used s \<Longrightarrow> sender_step\<^sup>*\<^sup>* s (do_attach c s)"
  "sender_step\<^sup>*\<^sup>* s (do_start s)"
  "sd_reader s = AtRead \<Longrightarrow> int (length p) \<le> read_chunk_size (fl_config (sd_flow s)) \<Longrightarrow>
     length (bytes_read (sd_reads s)) + length p + 1 < 2 ^ 64 \<Longrightarrow> sender_step\<^sup>*\<^sup>* s (do_read p err s)"
  "sd_sending s c = None \<Longrightarrow> sender_step\<^sup>*\<^sup>* s (do_pick c s)"
  "sender_step\<^sup>*\<^sup>* s (do_written c s)"
  "sender_step\<^sup>*\<^sup>* s (do_ack c offset fin s)"
  "other_op False (sd_flow s) (fst r) (snd r) \<Longrightarrow> sender_step\<^sup>*\<^sup>* s (do_other r s)"
proof -
  obtain fails fl' where "start_flow (sd_flow s) = (fails, fl')" by (cases "start_flow (sd_flow s)")
  from rd_start [OF this] this have "source_step s (do_start s)" unfolding do_start_def by (simp only: prod.case)
  then show "sender_step\<^sup>*\<^sup>* s (do_start s)" by (auto intro: sn_reader)
  show "sender_step\<^sup>*\<^sup>* s (do_read p err s)" if "sd_reader s = AtRead" "int (length p) \<le> read_chunk_size (fl_config (sd_flow s))"
    "length (bytes_read (sd_reads s)) + length p + 1 < 2 ^ 64"
    using sn_reader [OF rd_read [OF that, of err]] unfolding do_read_def by (rule r_into_rtranclp)
qed (auto simp: do_attach_def do_pick_def do_written_def do_ack_def do_other_def
    intro!: r_into_rtranclp sender_step.intros(1,3-) split: sum.splits pass.splits prod.splits option.splits list.splits)

lemma do_reader_step: "sender_step\<^sup>*\<^sup>* s (do_reader s)"
proof -
  have "do_reader s = s \<or> source_step s (do_reader s)"
    by (cases "sd_reader s") (auto simp: do_reader_def Let_def split: prod.split intro: source_step.intros)
  then show ?thesis by (auto intro: sn_reader)
qed

lemma do_reset_step: "sender_step\<^sup>*\<^sup>* s (do_reset s)"
proof (cases "sd_calls s")
  case (Cons call rest)
  obtain err notify first fl' where c: "call = (err, notify)" "claim_reset (sd_flow s) err notify = (first, fl')"
    by (metis surj_pair)
  have "sender_step s (s\<lparr>sd_flow := fl', sd_calls := remove1 (err, notify) (sd_calls s)\<rparr>)"
    by (rule sn_reset) (use Cons c in auto)
  with Cons c show ?thesis by (auto simp: do_reset_def)
qed (simp add: do_reset_def)

definition sample_sender :: sender where
  "sample_sender = do_reader (do_read [1, 2] (Some EOF) (do_start (do_attach 0 (sender_start sample_flow))))"

definition sample_halfway :: sender where
  "sample_halfway = do_reader (do_reader (do_reader (do_written 0 (do_pick 0 sample_sender))))"

definition sample_written :: sender where
  "sample_written = do_reader (do_reader (do_written 0 (do_pick 0 sample_halfway)))"

definition sample_acked :: sender where
  "sample_acked = do_ack 0 2 True sample_written"

definition sample_remote :: sender where
  "sample_remote = do_other (case finish_remote (sd_flow sample_acked) of (c, fl') \<Rightarrow> (fl', due c)) sample_acked"

definition sample_over :: sender where
  "sample_over = do_reset (do_other (case carrier_frame_written (sd_flow sample_remote) (ack_frame sample_flow 0 True) of
     (c, fl') \<Rightarrow> (fl', due c)) sample_remote)"

lemmas run_defs = do_attach_def do_start_def do_read_def do_reader_def start_flow_def broadcast_pass_def after_read_def do_pick_def do_written_def do_ack_def do_other_def do_reset_def
  sender_start_def sample_flow_def new_flow_def sample_config_def attach_limited_def set_state_def remember_def
  remember_append_def remembered_def data_frame_def fin_frame_def send_pick_def send_done_def acknowledge_def
  acknowledgement_regresses_def acknowledgement_written_def apply_acknowledgement_def prune_history_def
  global_acknowledged_def frame_skips_def apply_deferred_acknowledgement_def complete_def exchange_complete_def
  local_fin_acknowledged_def due_def claim_reset_def finish_remote_def carrier_frame_written_def ack_has_fin_def
  ack_frame_def Let_def frame_types len64_def read_chunk_size_def

lemma sample_sender_run: "sender_run sample_config (replicate 16 7) DirectionServerToClient sample_sender"
proof -
  let ?s = "do_start (do_attach 0 (sender_start sample_flow))"
  have "sender_step\<^sup>*\<^sup>* ?s (do_read [1, 2] (Some EOF) ?s)"
    by (rule do_step) (simp_all add: run_defs MaxPayloadSize_def bytes_read_def)
  moreover have "sender_step\<^sup>*\<^sup>* (sender_start sample_flow) (do_attach 0 (sender_start sample_flow))"
    by (rule do_step) (simp add: run_defs)
  ultimately show ?thesis unfolding sender_run_def sample_flow_def [symmetric] sample_sender_def
    by (meson do_step(2) do_reader_step rtranclp_trans)
qed

lemma sample_written_run: "sender_run sample_config (replicate 16 7) DirectionServerToClient sample_written"
proof -
  have "sd_sending sample_sender 0 = None" "sd_sending sample_halfway 0 = None"
    by (simp_all add: sample_halfway_def sample_sender_def run_defs)
  then have "sender_step\<^sup>*\<^sup>* sample_sender sample_halfway" "sender_step\<^sup>*\<^sup>* sample_halfway sample_written"
    unfolding sample_halfway_def sample_written_def by (meson do_step(4,5) do_reader_step rtranclp_trans)+
  with sample_sender_run show ?thesis unfolding sender_run_def by (meson rtranclp_trans)
qed

lemma sample_over_run: "sender_run sample_config (replicate 16 7) DirectionServerToClient sample_over"
proof -
  have "sender_step\<^sup>*\<^sup>* sample_written sample_acked" unfolding sample_acked_def by (rule do_step(6))
  moreover have "sender_step\<^sup>*\<^sup>* sample_acked sample_remote"
    unfolding sample_remote_def by (rule do_step(7)) (auto intro: op_finish_remote split: prod.splits)
  moreover have "sender_step\<^sup>*\<^sup>* sample_remote sample_over"
    unfolding sample_over_def
    by (rule rtranclp_trans [OF do_step(7) do_reset_step]) (auto intro: op_frame_written split: prod.splits)
  ultimately show ?thesis using sample_written_run unfolding sender_run_def by (meson rtranclp_trans)
qed

lemma sample_over_closed: "fl_closed (sd_flow sample_over)" "fl_terminal_err (sd_flow sample_over) = None"
  "\<not> sd_user_closed sample_over" "sd_stream sample_over = [1, 2]"
  unfolding sample_over_def sample_remote_def sample_acked_def sample_written_def sample_halfway_def sample_sender_def
  by (simp_all add: run_defs)

section \<open>Properties\<close>

text \<open>
  C4. No unacknowledged frame is lost: in every run, whatever carriers fail, the history holds exactly
  the remembered frames that the peer has not acknowledged, in the order in which they were read; its
  byte count is exact and, with a window, never above it.
\<close>

theorem history_is_unacknowledged:
  assumes "sender_run cfg stream_id dir s"
  shows "fl_history (sd_flow s) = filter (\<lambda>item. \<not> global_acknowledged (sd_flow s) (rp_frame item)) (sd_sent s) \<and>
    fl_history_bytes (sd_flow s) = int (sum_list (map (length \<circ> f_payload \<circ> rp_frame) (fl_history (sd_flow s)))) \<and>
    (cfg_reorder_window_bytes cfg > 0 \<longrightarrow> fl_history_bytes (sd_flow s) \<le> cfg_reorder_window_bytes cfg)"
  using sender_inv_parts(2) [OF conjunct1 [OF sender_run_invs [OF assms]]] sender_run_source [OF assms]
  by (auto simp: history_inv_def unacknowledged_def history_size_def flow_name_def Let_def comp_def)

lemma history_is_unacknowledged_witness:
  "fl_history_bytes (sd_flow sample_sender) = 2 \<and>
     fl_history_bytes (sd_flow sample_sender) \<le> cfg_reorder_window_bytes sample_config"
proof -
  have "fl_history_bytes (sd_flow sample_sender) = 2" by (simp add: sample_sender_def run_defs)
  with history_is_unacknowledged [OF sample_sender_run] show ?thesis by (simp add: sample_config_def)
qed

text \<open>
  C5. Failover leaves no gap: at any time, the frame that the goroutine of a carrier picks next is
  unacknowledged and every unacknowledged frame before it is already written on that carrier; when
  the goroutine waits, everything unacknowledged is written on it. So a carrier that was attached
  late, after others failed, sends all that the peer may still miss.
\<close>

theorem carrier_covers_history:
  assumes "sender_run cfg stream_id dir s" and "sd_sending s c = None"
  shows "case fst (send_pick (sd_flow s) c) of
      Return item \<Rightarrow> item \<in> set (fl_history (sd_flow s)) \<and>
        (\<forall>x \<in> set (fl_history (sd_flow s)). rp_sequence x < rp_sequence item \<longrightarrow> x \<in> set (sd_log s c))
    | Wait \<Rightarrow> set (fl_history (sd_flow s)) \<subseteq> set (sd_log s c)
    | Fail _ \<Rightarrow> fl_closed (sd_flow s) \<or> c \<notin> set (fl_carriers (sd_flow s))"
proof -
  have inv: "sender_inv s" using sender_run_invs [OF assms(1)] by simp
  note parts = sender_inv_parts [OF inv]
  have h: "fl_history (sd_flow s) = unacknowledged (sd_flow s) (sd_sent s)" using parts(2) by (simp add: history_inv_def)
  have below: "x \<in> set (sd_log s c)" if "map_of (fl_carrier_states (sd_flow s)) c = Some st"
      "x \<in> set (fl_history (sd_flow s))" "rp_sequence x < st_next_sequence st" for st x
    using parts(4) that h by (auto simp: carriers_inv_def Let_def)
  show ?thesis
  proof (cases "fst (send_pick (sd_flow s) c)")
    case (Return item)
    then obtain fl' where "send_pick (sd_flow s) c = (Return item, fl')" by (metis fst_conv surj_pair)
    from pick_spec [OF inv this] obtain st where st: "map_of (fl_carrier_states (sd_flow s)) c = Some st"
      "item \<in> set (fl_history (sd_flow s))"
      "\<forall>x \<in> set (fl_history (sd_flow s)). st_next_sequence st \<le> rp_sequence x \<longrightarrow> rp_sequence item \<le> rp_sequence x"
      using h by auto
    have "x \<in> set (sd_log s c)" if "x \<in> set (fl_history (sd_flow s))" "rp_sequence x < rp_sequence item" for x
      using st(3) that below [OF st(1) that(1)] by (metis linorder_not_le)
    with st(2) Return show ?thesis by simp
  next
    case (Fail e)
    then have "fl_closed (sd_flow s) \<or> map_of (fl_carrier_states (sd_flow s)) c = None"
      by (auto simp: send_pick_def split: option.splits if_splits)
    moreover have "map fst (fl_carrier_states (sd_flow s)) = fl_carriers (sd_flow s)"
      using parts(4) by (simp add: carriers_inv_def Let_def)
    ultimately show ?thesis using Fail by (auto simp: map_of_eq_None_iff simp flip: set_map)
  next
    case Wait
    then obtain st where st: "map_of (fl_carrier_states (sd_flow s)) c = Some st"
      "find (\<lambda>x. rp_sequence x \<ge> st_next_sequence st) (fl_history (sd_flow s)) = None"
      by (auto simp: send_pick_def split: option.splits if_splits)
    then have "set (fl_history (sd_flow s)) \<subseteq> set (sd_log s c)"
      using below by (auto simp: find_None_iff not_le)
    with Wait show ?thesis by simp
  qed
qed

lemma carrier_covers_history_witness:
  "\<exists>item. fst (send_pick (sd_flow sample_sender) 0) = Return item \<and> item \<in> set (fl_history (sd_flow sample_sender))"
proof -
  have s: "sd_sending sample_sender 0 = None" "\<exists>item. fst (send_pick (sd_flow sample_sender) 0) = Return item"
    by (simp_all add: sample_sender_def run_defs)
  then obtain item where "fst (send_pick (sd_flow sample_sender) 0) = Return item" by blast
  with carrier_covers_history [OF sample_sender_run s(1)] show ?thesis by auto
qed

text \<open>
  Each carrier writes remembered frames only, in the order of their sequence numbers and none
  twice; so the offsets on one connection never go back.
\<close>

theorem carrier_writes_in_order:
  assumes "sender_run cfg stream_id dir s"
  shows "set (sd_log s c) \<subseteq> set (sd_sent s) \<and> sorted_wrt (<) (map rp_sequence (sd_log s c)) \<and> distinct (sd_log s c)"
proof -
  have "sorted_wrt (<) (map (unat \<circ> rp_sequence) (sd_log s c))"
    using sender_run_log [OF assms] by (simp add: log_inv_def)
  then have sorted: "sorted_wrt (<) (map rp_sequence (sd_log s c))"
    by (simp add: sorted_wrt_map word_less_nat_alt)
  then have "distinct (map rp_sequence (sd_log s c))"
    by (simp add: strict_sorted_iff)
  moreover have "carriers_inv s" using sender_run_invs [OF assms] sender_inv_parts(4) by blast
  ultimately show ?thesis using sorted by (auto simp: carriers_inv_def Let_def distinct_map)
qed

lemma carrier_writes_in_order_witness:
  "length (sd_log sample_written 0) = 2 \<and> sorted_wrt (<) (map rp_sequence (sd_log sample_written 0))"
proof -
  have "length (sd_log sample_written 0) = 2" by (simp add: sample_written_def sample_halfway_def sample_sender_def run_defs)
  with carrier_writes_in_order [OF sample_written_run, of 0] show ?thesis by simp
qed

lemma local_fin_stop:
  assumes "ack_inv s" and "local_fin_acknowledged (sd_flow s)"
  shows "sd_eof s \<and> (word_of_nat (length (sd_stream s)), True) \<in> sd_acks s"
proof -
  have w: "(a::u64) = word_of_nat (unat a)" for a by simp
  from assms(2) consider "fl_local_fin_ack (sd_flow s)" | doff where "fl_deferred_ack (sd_flow s) = Some (doff, True)"
    by (auto simp: local_fin_acknowledged_def split: option.splits)
  then show ?thesis
  proof cases
    case 1
    then have "sd_eof s" "unat (fl_global_ack_offset (sd_flow s)) = length (sd_stream s)"
      "(fl_global_ack_offset (sd_flow s), True) \<in> sd_acks s" using assms(1) by (auto simp: ack_inv_def Let_def)
    then show ?thesis using w [of "fl_global_ack_offset (sd_flow s)"] by simp
  next
    case (2 doff)
    then have "sd_eof s" "unat doff = length (sd_stream s)" "(doff, True) \<in> sd_acks s"
      using assms(1) by (auto simp: ack_inv_def Let_def)
    then show ?thesis using w [of doff] by simp
  qed
qed

text \<open>
  C6. A flow that ends by itself without an error is complete: unless the application closed it, its
  own end and the peer's end were both seen, and the peer has sent the acknowledgement of exactly
  all bytes that were read, with the FIN flag.
\<close>

theorem clean_end_is_complete:
  assumes "sender_run cfg stream_id dir s" and "fl_closed (sd_flow s)" and "fl_terminal_err (sd_flow s) = None"
    and "\<not> sd_user_closed s"
  shows "fl_local_fin (sd_flow s) \<and> fl_remote_fin (sd_flow s) \<and> sd_eof s \<and>
    (word_of_nat (length (sd_stream s)), True) \<in> sd_acks s"
proof -
  have inv: "ack_inv s" "finish_inv s" using sender_run_invs [OF assms(1)] sender_inv_parts(3) by blast+
  then have "exchange_complete (sd_flow s)" using assms(2-4) by (auto simp: finish_inv_def)
  with local_fin_stop [OF inv(1)] show ?thesis by (simp add: exchange_complete_def)
qed

lemma clean_end_is_complete_witness: "sd_stream sample_over = [1, 2] \<and> (2, True) \<in> sd_acks sample_over"
  using clean_end_is_complete [OF sample_over_run sample_over_closed(1-3)] sample_over_closed(4) by simp

text \<open>
  C7. An acknowledgement that counts is one that the peer sent, it never exceeds what some carrier
  has completely written, which is a beginning of what was read, and one with the FIN flag is at the
  end; an acknowledgement ahead of that is ignored or deferred, never applied.
\<close>

theorem acknowledged_was_written:
  assumes "sender_run cfg stream_id dir s"
  shows "unat (fl_global_ack_offset (sd_flow s)) \<le> unat (fl_written_offset (sd_flow s)) \<and>
    unat (fl_written_offset (sd_flow s)) \<le> length (sd_stream s) \<and>
    (fl_written_offset (sd_flow s) \<noteq> 0 \<longrightarrow>
       (\<exists>c. \<exists>item \<in> set (sd_log s c). frame_stop (rp_frame item) = unat (fl_written_offset (sd_flow s)))) \<and>
    (fl_global_ack_offset (sd_flow s) \<noteq> 0 \<longrightarrow> fl_global_ack_offset (sd_flow s) \<in> fst ` sd_acks s) \<and>
    (fl_global_ack_fin (sd_flow s) \<longrightarrow> sd_eof s \<and> unat (fl_global_ack_offset (sd_flow s)) = length (sd_stream s))"
proof -
  have "ack_inv s" using sender_run_invs [OF assms] sender_inv_parts(3) by blast
  moreover have "source_inv s" using sender_run_source [OF assms] by simp
  ultimately show ?thesis by (auto simp: ack_inv_def source_inv_def Let_def word_le_nat_alt)
qed

lemma acknowledged_was_written_witness:
  "fl_global_ack_offset (sd_flow sample_over) = 2 \<and> unat (fl_written_offset (sd_flow sample_over)) = 2"
proof -
  have g: "fl_global_ack_offset (sd_flow sample_over) = 2"
    unfolding sample_over_def sample_remote_def sample_acked_def sample_written_def sample_halfway_def sample_sender_def by (simp add: run_defs)
  with acknowledged_was_written [OF sample_over_run] sample_over_closed(4) show ?thesis by auto
qed

lemma ack_mono:
  "acknowledge fl c offset fin = (skipped, cmp, fl') \<Longrightarrow> fl_global_ack_offset fl \<le> fl_global_ack_offset fl' \<and>
     (fl_global_ack_fin fl \<longrightarrow> fl_global_ack_fin fl')"
  "apply_deferred_acknowledgement fl = (skipped, cmp, fl') \<Longrightarrow> fl_global_ack_offset fl \<le> fl_global_ack_offset fl' \<and>
     (fl_global_ack_fin fl \<longrightarrow> fl_global_ack_fin fl')"
proof -
  have a: "fl_global_ack_offset fl' = offset \<and> (fl_global_ack_fin fl \<longrightarrow> fl_global_ack_fin fl')"
    if "apply_acknowledgement fl offset fin = (skipped, cmp, fl')" for fl offset fin skipped cmp fl'
    using that by (auto simp: apply_acknowledgement_def prune_history_def Let_def split: option.splits if_splits)
  show "acknowledge fl c offset fin = (skipped, cmp, fl') \<Longrightarrow> fl_global_ack_offset fl \<le> fl_global_ack_offset fl' \<and>
     (fl_global_ack_fin fl \<longrightarrow> fl_global_ack_fin fl')"
    by (auto simp: acknowledge_def defer_acknowledgement_def acknowledgement_regresses_def dest!: a split: option.splits if_splits)
  show "apply_deferred_acknowledgement fl = (skipped, cmp, fl') \<Longrightarrow> fl_global_ack_offset fl \<le> fl_global_ack_offset fl' \<and>
     (fl_global_ack_fin fl \<longrightarrow> fl_global_ack_fin fl')"
    by (auto simp: apply_deferred_acknowledgement_def acknowledgement_regresses_def dest!: a split: option.splits if_splits)
qed

lemma sender_step_ack_mono:
  assumes "sender_step s s'" and "sender_inv s" and "reader_inv s"
  shows "fl_global_ack_offset (sd_flow s) \<le> fl_global_ack_offset (sd_flow s') \<and>
    (fl_global_ack_fin (sd_flow s) \<longrightarrow> fl_global_ack_fin (sd_flow s')) \<and>
    (\<exists>more. sd_stream s' = sd_stream s @ more) \<and> (\<exists>more. sd_sent s' = sd_sent s @ more)"
  using assms(1)
proof (cases rule: sender_step.cases)
  case (sn_attach c max_payload max_carriers m ack fl')
  then show ?thesis by (auto simp: attach_limited_def Let_def split: if_splits)
next
  case sn_reader
  from this assms(3) show ?thesis
  proof (cases rule: source_step_cases)
    case (op fl' calls r offset reads)
    then show ?thesis using other_op_view [OF op(1)] by (simp add: sender_view_eq)
  next
    case (data p f res skipped fl' r)
    then show ?thesis using remember_cases [OF sender_inv_parts(2) [OF assms(2)] data(7)] by (auto simp: appended_def)
  next
    case (fin f res skipped fl' r)
    then show ?thesis using remember_cases [OF sender_inv_parts(2) [OF assms(2)] fin(4)] by (auto simp: appended_def)
  qed
next
  case (sn_pick c item fl')
  then show ?thesis using pick_spec [OF assms(2) sn_pick(3)] by auto
next
  case (sn_written c item skipped cmp fl')
  then show ?thesis
  proof (cases "map_of (fl_carrier_states (sd_flow s)) c")
    case None
    then show ?thesis using sn_written by (simp add: send_done_def)
  next
    case (Some st0)
    from send_done_after_write [OF this, of item] obtain st where
      "send_done (sd_flow s) c item = apply_deferred_acknowledgement (after_write (sd_flow s) c st item)" by blast
    with sn_written(3) ack_mono(2) have "fl_global_ack_offset (sd_flow s) \<le> fl_global_ack_offset fl' \<and>
        (fl_global_ack_fin (sd_flow s) \<longrightarrow> fl_global_ack_fin fl')" by (metis after_write_simps(5,6))
    with sn_written(1) show ?thesis by simp
  qed
next
  case (sn_detach c preserve skipped finish resend fl')
  from detach_cases [OF sender_inv_parts(2) [OF assms(2)] sn_detach(2)] show ?thesis unfolding sn_detach(1)
    by (auto simp: without_carrier_def sender_view_eq dest!: claim_after_carriers_view)
next
  case (sn_reset err notify first fl')
  then show ?thesis using claim_reset_view [OF sn_reset(3)] by (simp add: sender_view_eq)
next
  case (sn_finish cn fl')
  then show ?thesis by (auto simp: finish_reset_def)
qed (use ack_mono(1) other_op_view in \<open>auto simp: sender_view_eq\<close>)

text \<open>
  What the peer has acknowledged stays acknowledged and only that leaves the history: no step
  lowers the acknowledged offset or takes back the acknowledged end, the bytes that were read and the
  remembered frames only grow, and a frame that leaves the history is acknowledged.
\<close>

theorem acknowledgements_never_regress:
  assumes "sender_run cfg stream_id dir s" and "sender_step s s'"
  shows "fl_global_ack_offset (sd_flow s) \<le> fl_global_ack_offset (sd_flow s') \<and>
    (fl_global_ack_fin (sd_flow s) \<longrightarrow> fl_global_ack_fin (sd_flow s')) \<and>
    (\<exists>more. sd_stream s' = sd_stream s @ more) \<and> (\<exists>more. sd_sent s' = sd_sent s @ more) \<and>
    (\<forall>x \<in> set (fl_history (sd_flow s)) - set (fl_history (sd_flow s')). global_acknowledged (sd_flow s') (rp_frame x))"
proof -
  have inv: "sender_inv s" "sender_inv s'" "reader_inv s" using sender_run_invs [OF assms(1)] sender_step_inv [OF assms(2)] by auto
  then have "fl_history (sd_flow s) = unacknowledged (sd_flow s) (sd_sent s)"
    "fl_history (sd_flow s') = unacknowledged (sd_flow s') (sd_sent s')"
    using sender_inv_parts(2) by (auto simp: history_inv_def)
  with sender_step_ack_mono [OF assms(2) inv(1,3)] show ?thesis by (auto simp: set_unacknowledged)
qed

lemma acknowledgements_never_regress_witness:
  "\<exists>s'. sender_step sample_written s' \<and> fl_global_ack_offset (sd_flow sample_written) \<le> fl_global_ack_offset (sd_flow s')"
proof -
  have s: "sender_step sample_written (sample_written\<lparr>sd_user_closed := True, sd_calls := sd_calls sample_written @ [(None, False)]\<rparr>)"
    by (rule sn_close)
  with acknowledgements_never_regress [OF sample_written_run s] show ?thesis by blast
qed

section \<open>The end is final\<close>

definition flow_end :: "flow \<Rightarrow> bool \<times> go_error option \<times> bool" where
  "flow_end fl = (fl_closed fl, fl_terminal_err fl, fl_terminal_notify fl)"

lemma ack_end:
  "acknowledge fl c offset fin = (skipped, cmp, fl') \<Longrightarrow> flow_end fl' = flow_end fl"
  "apply_deferred_acknowledgement fl = (skipped, cmp, fl') \<Longrightarrow> flow_end fl' = flow_end fl"
proof -
  have a: "flow_end fl' = flow_end fl" if "apply_acknowledgement fl offset fin = (skipped, cmp, fl')"
    for fl offset fin skipped cmp fl'
    using that by (auto simp: apply_acknowledgement_def prune_history_def flow_end_def Let_def split: option.splits if_splits)
  show "apply_deferred_acknowledgement fl = (skipped, cmp, fl') \<Longrightarrow> flow_end fl' = flow_end fl"
    by (auto simp: apply_deferred_acknowledgement_def flow_end_def dest!: a [unfolded flow_end_def] split: option.splits if_splits)
  show "acknowledge fl c offset fin = (skipped, cmp, fl') \<Longrightarrow> flow_end fl' = flow_end fl"
    by (auto simp: acknowledge_def defer_acknowledgement_def flow_end_def dest!: a [unfolded flow_end_def]
        split: option.splits if_splits)
qed

lemma send_done_end:
  assumes "send_done fl c item = (skipped, cmp, fl')"
  shows "flow_end fl' = flow_end fl"
proof (cases "map_of (fl_carrier_states fl) c")
  case None
  with assms show ?thesis by (simp add: send_done_def)
next
  case (Some st0)
  from send_done_after_write [OF this, of item] obtain st where
    d: "send_done fl c item = apply_deferred_acknowledgement (after_write fl c st item)" by blast
  have "flow_end (after_write fl c st item) = flow_end fl"
    by (simp add: after_write_def flow_end_def set_state_def Let_def)
  with d assms ack_end(2) show ?thesis by metis
qed

lemma claim_end: "fl_closed fl \<Longrightarrow> claim_reset fl err notify = (r, fl') \<Longrightarrow> flow_end fl' = flow_end fl"
  "fl_closed fl \<Longrightarrow> claim_after_carriers fl = (r, fl') \<Longrightarrow> flow_end fl' = flow_end fl"
  by (auto simp: claim_after_carriers_def claim_reset_def split: if_splits)

lemma other_op_end: "other_op reader fl fl' calls \<Longrightarrow> fl_closed fl \<Longrightarrow> flow_end fl' = flow_end fl"
proof (induction rule: other_op.induct)
  case (op_deliver fl w f res fl' w')
  then show ?case
    by (auto simp: deliver_inbound_def flow_end_def split: option.splits sum.splits prod.splits if_splits)
qed (auto simp: flow_end_def start_flow_def finish_remote_def carrier_frame_written_def begin_inbound_def
    release_inbound_def record_ack_def reset_after_last_carrier_def reset_after_carrier_failure_def Let_def split: if_splits)

text \<open>
  A flow ends once: after the first reset no step, whatever it is, changes that it is closed, the
  error it reports, or whether the peer is told.
\<close>

theorem terminal_state_is_final:
  assumes "sender_run cfg stream_id dir s" and "fl_closed (sd_flow s)" and "sender_step s s'"
  shows "fl_closed (sd_flow s') \<and> fl_terminal_err (sd_flow s') = fl_terminal_err (sd_flow s) \<and>
    fl_terminal_notify (sd_flow s') = fl_terminal_notify (sd_flow s)"
proof -
  have inv: "sender_inv s" and reader: "reader_inv s" using sender_run_invs [OF assms(1)] by simp_all
  from assms(3) have "flow_end (sd_flow s') = flow_end (sd_flow s)"
  proof (cases rule: sender_step.cases)
    case (sn_attach c max_payload max_carriers m ack fl')
    with assms(2) show ?thesis by (auto simp: attach_limited_def flow_end_def Let_def split: if_splits)
  next
    case sn_reader
    from this reader show ?thesis
    proof (cases rule: source_step_cases)
      case (op fl' calls r offset reads)
      with other_op_end [OF op(1) assms(2)] show ?thesis by simp
    next
      case (data p f res skipped fl' r)
      with remember_cases [OF sender_inv_parts(2) [OF inv] data(7)] show ?thesis by (auto simp: appended_def flow_end_def)
    next
      case (fin f res skipped fl' r)
      with remember_cases [OF sender_inv_parts(2) [OF inv] fin(4)] show ?thesis by (auto simp: appended_def flow_end_def)
    qed
  next
    case (sn_pick c item fl')
    with assms(2) show ?thesis by (auto simp: send_pick_def split: option.splits)
  next
    case (sn_detach c preserve skipped finish resend fl')
    from detach_cases [OF sender_inv_parts(2) [OF inv] sn_detach(2)] obtain fl1 where
      "fl1 = sd_flow s \<or> fl1 = without_carrier (sd_flow s) c" "fl' = fl1 \<or> (\<exists>r. claim_after_carriers fl1 = (r, fl'))" by blast
    moreover from this(1) have e: "flow_end fl1 = flow_end (sd_flow s)" by (auto simp: without_carrier_def flow_end_def)
    moreover from e assms(2) have "fl_closed fl1" by (simp add: flow_end_def)
    ultimately have "flow_end fl' = flow_end (sd_flow s)" using claim_end(2) by metis
    with sn_detach(1) show ?thesis by simp
  next
    case (sn_reset err notify first fl')
    with claim_end(1) [OF assms(2)] show ?thesis by auto
  next
    case (sn_finish cn fl')
    then show ?thesis by (auto simp: finish_reset_def flow_end_def)
  qed (use assms(2) ack_end(1) send_done_end other_op_end in auto)
  then show ?thesis using assms(2) by (simp add: flow_end_def)
qed

lemma terminal_state_is_final_witness:
  "fl_terminal_err (sd_flow (sample_over\<lparr>sd_user_closed := True, sd_calls := sd_calls sample_over @ [(None, False)]\<rparr>)) = None"
  using terminal_state_is_final [OF sample_over_run sample_over_closed(1) sn_close] sample_over_closed(2) by simp

section \<open>The frames and the stream\<close>

lemma cut_from_honest:
  assumes "cut_from S eof f"
  shows "honest S f"
proof (cases "f_type f = FrameData")
  case True
  with assms have p: "f_payload f \<noteq> []" "length (f_payload f) \<le> MaxPayloadSize" "frame_stop f \<le> length S"
    "f_payload f = take (length (f_payload f)) (drop (unat (f_offset f)) S)"
    by (auto simp: cut_from_def frame_types)
  then have "cells (unat (f_offset f)) (f_payload f) \<subseteq> cells 0 S"
    by (intro cells_piece) (auto simp: frame_stop_def)
  with p True show ?thesis
    by (simp add: honest_def stream_frame_def arrival_of_def is_slice_def MaxPayloadSize_def)
next
  case False
  with assms show ?thesis by (auto simp: cut_from_def honest_def stream_frame_def arrival_of_def)
qed

lemma cut_valid:
  assumes "cut_from S eof f" "length S < 2 ^ 64" "f_direction f = DirectionClientToServer \<or> f_direction f = DirectionServerToClient"
  shows "validate_frame f = None"
proof (cases "f_type f = FrameData")
  case True
  with assms(1) have p: "f_payload f \<noteq> []" "length (f_payload f) \<le> MaxPayloadSize" "frame_stop f \<le> length S"
    by (auto simp: cut_from_def frame_types)
  have "unat (f_offset f) + length (f_payload f) < 2 ^ 64" using p(3) assms(2) by (simp add: frame_stop_def)
  then have "\<not> f_offset f > - 1 - len64 (f_payload f)"
    using offset_overflows [of "f_payload f" "f_offset f"] p(2) by (simp add: is_slice_def MaxPayloadSize_def)
  with True p assms(3) show ?thesis by (auto simp: validate_frame_def frame_types)
next
  case False
  with assms(1,3) show ?thesis by (auto simp: validate_frame_def frame_types cut_from_def)
qed

text \<open>The offsets of frames in a row: each begins where the one before it ends, and nothing follows a FIN.\<close>

fun laid_out :: "nat \<Rightarrow> frame list \<Rightarrow> bool" where
  "laid_out n [] \<longleftrightarrow> True"
| "laid_out n (f # fs) \<longleftrightarrow> unat (f_offset f) = n \<and> (f_type f = FrameFIN \<longrightarrow> fs = []) \<and> laid_out (n + length (f_payload f)) fs"

lemma laid_out_append:
  "laid_out n (fs @ gs) \<longleftrightarrow> laid_out n fs \<and> (gs \<noteq> [] \<longrightarrow> (\<forall>f \<in> set fs. f_type f \<noteq> FrameFIN)) \<and> laid_out (n + length (concat (map f_payload fs))) gs"
  by (induction fs arbitrary: n) (auto simp: add.assoc)

definition open_reads :: "(byte list \<times> go_error option) list \<Rightarrow> bool" where
  "open_reads reads \<longleftrightarrow> (\<forall>r \<in> set reads. snd r = None)"

definition cut_reads :: "flow \<Rightarrow> (byte list \<times> go_error option) list \<Rightarrow> frame list" where
  "cut_reads fl reads = fst (read_endpoint fl 0 reads)"

lemma len64_append [simp]: "len64 (xs @ ys) = len64 xs + len64 ys"
  by (simp add: len64_def)

lemma len64_Nil [simp]: "len64 [] = 0"
  by (simp add: len64_def)

lemma read_endpoint_snoc:
  assumes "open_reads reads"
  shows "fst (read_endpoint fl offset (reads @ [(p, err)])) = fst (read_endpoint fl offset reads) @
    (if p = [] then [] else [data_frame fl (offset + len64 (bytes_read reads)) p]) @
    (if err = Some EOF then [fin_frame fl (offset + len64 (bytes_read (reads @ [(p, err)])))] else [])"
  using assms
proof (induction reads arbitrary: offset)
  case Nil
  show ?case by (auto simp: bytes_read_def len64_def split: option.split)
next
  case (Cons r reads)
  obtain q where r: "r = (q, None)" using Cons.prems by (cases r) (auto simp: open_reads_def)
  have "open_reads reads" using Cons.prems by (simp add: open_reads_def)
  from Cons.IH [OF this, of "if q = [] then offset else offset + len64 q"] show ?case
    by (simp add: r bytes_read_def Let_def case_prod_unfold len64_def add.assoc)
qed

lemma cut_reads_snoc:
  "open_reads reads \<Longrightarrow> cut_reads fl (reads @ [(p, err)]) = cut_reads fl reads @
    (if p = [] then [] else [data_frame fl (len64 (bytes_read reads)) p]) @
    (if err = Some EOF then [fin_frame fl (len64 (bytes_read reads) + len64 p)] else [])"
  by (simp add: cut_reads_def read_endpoint_snoc)

lemma open_reads_snoc: "open_reads (reads @ [r]) \<longleftrightarrow> open_reads reads \<and> snd r = None"
  by (auto simp: open_reads_def)

lemma open_reads_cut:
  assumes "open_reads reads" "length (bytes_read reads) < 2 ^ 64"
  shows "laid_out 0 (cut_reads fl reads) \<and> concat (map f_payload (cut_reads fl reads)) = bytes_read reads \<and>
    (\<forall>f \<in> set (cut_reads fl reads). f_type f \<noteq> FrameFIN)"
  using assms
proof (induction reads rule: rev_induct)
  case Nil
  show ?case by (simp add: cut_reads_def bytes_read_def)
next
  case (snoc r reads)
  obtain p where r: "r = (p, None)" using snoc.prems by (cases r) (auto simp: open_reads_snoc)
  then show ?case using snoc
    by (auto simp: open_reads_snoc cut_reads_snoc laid_out_append data_frame_def frame_types unat_len64)
qed

text \<open>The frames of any reads of which only the last may have an error.\<close>

lemma reads_cut:
  assumes "open_reads (butlast reads)" "length (bytes_read reads) < 2 ^ 64"
  shows "laid_out 0 (cut_reads fl reads) \<and> concat (map f_payload (cut_reads fl reads)) = bytes_read reads"
proof (cases reads rule: rev_cases)
  case Nil
  then show ?thesis by (simp add: cut_reads_def bytes_read_def)
next
  case (snoc rs r)
  obtain p err where r: "r = (p, err)" by (cases r)
  have rs: "open_reads rs" "length (bytes_read rs) + length p < 2 ^ 64" using assms by (simp_all add: snoc r)
  with open_reads_cut [OF rs(1), of fl] show ?thesis
    by (simp add: snoc r cut_reads_snoc laid_out_append data_frame_def fin_frame_def frame_types unat_len64 flip: len64_append)
qed

lemma cut_reads_name: "flow_name fl = flow_name fl' \<Longrightarrow> cut_reads fl reads = cut_reads fl' reads"
proof -
  assume "flow_name fl = flow_name fl'"
  then have "read_endpoint fl offset reads = read_endpoint fl' offset reads" for offset
    by (induction reads arbitrary: offset) (auto simp: flow_name_def data_frame_def fin_frame_def Let_def split: option.split)
  then show ?thesis by (simp add: cut_reads_def)
qed

lemma frame_name: "flow_name fl = flow_name fl' \<Longrightarrow> data_frame fl = data_frame fl' \<and> fin_frame fl = fin_frame fl'"
  by (auto simp: flow_name_def data_frame_def fin_frame_def fun_eq_iff)

text \<open>Where the reader stands, the remembered frames are those of its reads, less what it has not come to.\<close>

fun sent_at :: "source_pc \<Rightarrow> flow \<Rightarrow> u64 \<Rightarrow> (byte list \<times> go_error option) list \<Rightarrow> frame list \<Rightarrow> bool" where
  "sent_at ReaderIdle fl offset reads sent \<longleftrightarrow> reads = [] \<and> sent = [] \<and> offset = 0"
| "sent_at AtRead fl offset reads sent \<longleftrightarrow> open_reads reads \<and> sent = cut_reads fl reads \<and> offset = len64 (bytes_read reads)"
| "sent_at (HoldsData p err) fl offset reads sent \<longleftrightarrow>
     (\<exists>rs. reads = rs @ [(p, err)] \<and> open_reads rs \<and> p \<noteq> [] \<and> sent = cut_reads fl rs \<and> offset = len64 (bytes_read rs))"
| "sent_at (AwaitsData p seq err) fl offset reads sent \<longleftrightarrow>
     (\<exists>rs. reads = rs @ [(p, err)] \<and> open_reads rs \<and> p \<noteq> [] \<and> sent = cut_reads fl rs @ [data_frame fl offset p] \<and> offset = len64 (bytes_read rs))"
| "sent_at SeesEOF fl offset reads sent \<longleftrightarrow> cut_reads fl reads = sent @ [fin_frame fl offset]"
| "sent_at HoldsFIN fl offset reads sent \<longleftrightarrow> cut_reads fl reads = sent @ [fin_frame fl offset]"
| "sent_at (AwaitsFIN seq) fl offset reads sent \<longleftrightarrow> cut_reads fl reads = sent"
| "sent_at ChecksComplete fl offset reads sent \<longleftrightarrow> cut_reads fl reads = sent"
| "sent_at _ fl offset reads sent \<longleftrightarrow> (\<exists>missing. cut_reads fl reads = sent @ missing \<and> length missing \<le> 2)"

definition reads_inv :: "sender \<Rightarrow> bool" where
  "reads_inv s \<longleftrightarrow> open_reads (butlast (sd_reads s)) \<and> sent_at (sd_reader s) (sd_flow s) (sd_offset s) (sd_reads s) (map rp_frame (sd_sent s))"

lemma sent_at_name: "flow_name fl = flow_name fl' \<Longrightarrow> sent_at r fl offset reads sent = sent_at r fl' offset reads sent"
  using cut_reads_name [of fl fl'] frame_name [of fl fl'] by (cases r) simp_all

lemma sent_at_after:
  assumes "open_reads rs" "sent = cut_reads fl rs @ (if p = [] then [] else [data_frame fl (len64 (bytes_read rs)) p])"
    "offset = len64 (bytes_read rs) + len64 p"
  shows "sent_at (after_read err) fl offset (rs @ [(p, err)]) sent"
  using assms by (auto simp: after_read_def cut_reads_snoc open_reads_snoc split: option.split)

lemma source_step_reads:
  assumes "source_step s s'" "flow_name (sd_flow s') = flow_name (sd_flow s)" "reads_inv s"
  shows "reads_inv s'"
proof -
  note inv = assms(3) [unfolded reads_inv_def] and name = sent_at_name [OF assms(2)]
  from assms(1) show ?thesis
  proof cases
    case (rd_start fails fl')
    have "sent_at (if \<not> fl_started (sd_flow s) \<and> fl_started fl' \<and> \<not> fails \<and> sd_reader s = ReaderIdle then AtRead else sd_reader s)
        (sd_flow s) (sd_offset s) (sd_reads s) (map rp_frame (sd_sent s))"
      using inv by (auto simp: open_reads_def cut_reads_def bytes_read_def len64_def)
    with inv name show ?thesis unfolding reads_inv_def by (simp add: rd_start(1))
  next
    case (rd_read p err)
    then have "sent_at (if p = [] then after_read err else HoldsData p err) (sd_flow s) (sd_offset s) (sd_reads s @ [(p, err)]) (map rp_frame (sd_sent s))"
      using inv sent_at_after [of "sd_reads s" _ "sd_flow s" p] by (auto simp: len64_def)
    with inv rd_read(2) show ?thesis by (simp add: reads_inv_def rd_read(1))
  next
    case (rd_data p err f res skipped fl')
    then obtain rs where "sd_reads s = rs @ [(p, err)]" "open_reads rs" "p \<noteq> []" "map rp_frame (sd_sent s) = cut_reads (sd_flow s) rs"
      "sd_offset s = len64 (bytes_read rs)" using inv by auto
    then have "sent_at (case res of Return seq \<Rightarrow> AwaitsData p seq err | Wait \<Rightarrow> HoldsData p err | Fail e \<Rightarrow> ReaderResets e)
        (sd_flow s) (sd_offset s) (sd_reads s) (map rp_frame (sd_sent s @ remembered res f))"
      by (cases res) (auto simp: remembered_def cut_reads_snoc rd_data(3))
    with inv name show ?thesis unfolding reads_inv_def by (simp add: rd_data(1))
  next
    case (rd_broadcast p seq err res)
    then obtain rs where rs: "sd_reads s = rs @ [(p, err)]" "open_reads rs" "p \<noteq> []"
      "map rp_frame (sd_sent s) = cut_reads (sd_flow s) rs @ [data_frame (sd_flow s) (sd_offset s) p]" "sd_offset s = len64 (bytes_read rs)" using inv by auto
    then show ?thesis using inv sent_at_after [OF rs(2), of "map rp_frame (sd_sent s)" "sd_flow s" p "sd_offset s + len64 p" err]
      by (cases res) (auto simp: rd_broadcast(1,2) reads_inv_def cut_reads_snoc)
  next
    case (rd_fin f res skipped fl')
    then have "cut_reads (sd_flow s) (sd_reads s) = map rp_frame (sd_sent s) @ [f]" using inv by auto
    then have "sent_at (case res of Return seq \<Rightarrow> AwaitsFIN seq | Wait \<Rightarrow> HoldsFIN | Fail e \<Rightarrow> FINFails e)
        (sd_flow s) (sd_offset s) (sd_reads s) (map rp_frame (sd_sent s @ remembered res f))"
      by (cases res) (auto simp: remembered_def rd_fin(3))
    with inv name show ?thesis unfolding reads_inv_def by (simp add: rd_fin(1))
  next
    case (rd_fin_broadcast seq res)
    with inv show ?thesis by (cases res) (auto simp: reads_inv_def)
  next
    case (rd_fin_lost r fl')
    with inv name show ?thesis by (auto simp: reads_inv_def)
  qed (use inv name in \<open>auto simp: reads_inv_def\<close>)
qed

lemma reads_inv_same:
  assumes "reads_inv s" "flow_name (sd_flow s') = flow_name (sd_flow s)" "sd_reader s' = sd_reader s" "sd_offset s' = sd_offset s"
    "sd_reads s' = sd_reads s" "sd_sent s' = sd_sent s"
  shows "reads_inv s'"
  using assms sent_at_name [OF assms(2)] by (simp add: reads_inv_def)

lemma sender_step_reads:
  assumes "sender_step s s'" "sender_inv s" "reader_inv s" "reads_inv s"
  shows "reads_inv s'"
proof -
  note name = sender_step_name [OF assms(1-3)]
  from assms(1) show ?thesis
  proof cases
    case sn_reader
    then show ?thesis using name assms(4) by (rule source_step_reads)
  qed (use name in \<open>auto intro: reads_inv_same [OF assms(4)]\<close>)
qed

lemma sender_run_reads: "sender_run cfg stream_id dir s \<Longrightarrow> reads_inv s"
  unfolding sender_run_def
proof (induction rule: rtranclp_induct)
  case base
  then show ?case by (simp add: reads_inv_def sender_start_def open_reads_def)
next
  case (step s1 s2)
  then show ?case using sender_step_reads sender_run_invs unfolding sender_run_def by blast
qed

lemma sent_at_missing: "sent_at r fl offset reads sent \<Longrightarrow> \<exists>missing. cut_reads fl reads = sent @ missing \<and> length missing \<le> 2"
proof (cases r)
  case ReaderIdle
  then show "sent_at r fl offset reads sent \<Longrightarrow> ?thesis" by (simp add: cut_reads_def)
qed (auto simp: cut_reads_snoc)



lemma read_endpoint_cut:
  assumes "\<forall>r \<in> set reads. snd r = None" and "unat offset = length before"
    and "length before + length (concat (map fst reads) @ b) < 2 ^ 64"
    and "\<forall>r \<in> set (reads @ [(b, Some e)]). length (fst r) \<le> MaxPayloadSize"
    and "read_endpoint fl offset (reads @ [(b, Some e)]) = (fs, err)"
  shows "err = Some e \<and> concat (map f_payload fs) = concat (map fst reads) @ b \<and>
    (\<forall>f \<in> set fs. cut_from (before @ concat (map fst reads) @ b) (e = EOF) f) \<and>
    ((\<exists>f \<in> set fs. f_type f = FrameFIN) \<longleftrightarrow> e = EOF)"
  using assms
proof (induction reads arbitrary: offset before fs)
  case Nil
  then have "unat (offset + len64 b) = length before + length b" by (simp add: unat_add_len64)
  with Nil show ?case
    by (auto simp: Let_def data_frame_def fin_frame_def cut_from_def frame_stop_def frame_types split: if_splits)
next
  case (Cons r reads)
  obtain bytes where r: "r = (bytes, None)" using Cons.prems(1) by (cases r) auto
  define offset' where "offset' = (if bytes = [] then offset else offset + len64 bytes)"
  have off: "unat offset' = length (before @ bytes)"
    using Cons.prems(2,3) r by (simp add: offset'_def unat_add_len64)
  obtain fs' where fs': "read_endpoint fl offset' (reads @ [(b, Some e)]) = (fs', err)"
    and fs: "fs = (if bytes = [] then [] else [data_frame fl offset bytes]) @ fs'"
    using Cons.prems(5) r by (auto simp: Let_def offset'_def split: prod.splits if_splits)
  have ih: "err = Some e \<and> concat (map f_payload fs') = concat (map fst reads) @ b \<and>
    (\<forall>f \<in> set fs'. cut_from ((before @ bytes) @ concat (map fst reads) @ b) (e = EOF) f) \<and>
    ((\<exists>f \<in> set fs'. f_type f = FrameFIN) \<longleftrightarrow> e = EOF)"
    by (rule Cons.IH [OF _ off _ _ fs']) (use Cons.prems(1,3,4) r in auto)
  with fs r Cons.prems(2,3,4) show ?case
    by (auto simp: data_frame_def cut_from_def frame_stop_def frame_types)
qed

text \<open>
  \<open>readEndpoint\<close> cuts what the application writes without loss: for any sequence of reads that
  ends with an error, the data frames together carry exactly the bytes that were read, each at its
  place, and a FIN frame follows, at the end, exactly when that error is \<^verbatim>\<open>io.EOF\<close>.
\<close>

theorem read_endpoint_cuts:
  assumes "\<forall>r \<in> set reads. snd r = None" and "length (concat (map fst reads) @ b) < 2 ^ 64"
    and "\<forall>r \<in> set (reads @ [(b, Some e)]). length (fst r) \<le> MaxPayloadSize"
  shows "snd (read_endpoint fl 0 (reads @ [(b, Some e)])) = Some e \<and>
    concat (map f_payload (fst (read_endpoint fl 0 (reads @ [(b, Some e)])))) = concat (map fst reads) @ b \<and>
    (\<forall>f \<in> set (fst (read_endpoint fl 0 (reads @ [(b, Some e)]))). cut_from (concat (map fst reads) @ b) (e = EOF) f) \<and>
    ((\<exists>f \<in> set (fst (read_endpoint fl 0 (reads @ [(b, Some e)]))). f_type f = FrameFIN) \<longleftrightarrow> e = EOF)"
  using read_endpoint_cut [OF assms(1), of 0 "[]" b e fl] assms(2,3) by (cases "read_endpoint fl 0 (reads @ [(b, Some e)])") auto

lemma read_endpoint_cuts_witness:
  "concat (map f_payload (fst (read_endpoint sample_flow 0 ([([1, 2], None), ([], None)] @ [([3], Some EOF)])))) = [1, 2, 3]"
  using read_endpoint_cuts [of "[([1, 2], None), ([], None)]" "[3]" EOF sample_flow] by (simp add: MaxPayloadSize_def)

end
