(* ===== verification/End_To_End.thy ===== *)
theory End_To_End
  imports Sender_Runs
begin

text \<open>
  The two halves of a flow together: the frames that the carriers of one side wrote, delivered to the
  receiver of the other side, and the acknowledgements back. Nothing is assumed of the network but
  that a frame that arrives is one that some carrier wrote.
\<close>

section \<open>From application to application\<close>

text \<open>A frame that some carrier has written.\<close>

definition on_some_carrier :: "sender \<Rightarrow> frame \<Rightarrow> bool" where
  "on_some_carrier s f \<longleftrightarrow> (\<exists>c. f \<in> rp_frame ` set (sd_log s c))"

lemma carrier_frames_honest:
  assumes "sender_run cfg stream_id dir s" and "on_some_carrier s f"
  shows "honest (sd_stream s) f"
proof -
  obtain c item where "item \<in> set (sd_log s c)" "f = rp_frame item"
    using assms(2) by (auto simp: on_some_carrier_def)
  moreover have "sender_inv s" using sender_run_invs [OF assms(1)] by simp
  ultimately have "cut_from (sd_stream s) (sd_eof s) f"
    using sender_inv_parts(1,4) sent_cut by (auto simp: carriers_inv_def Let_def subset_iff)
  then show ?thesis by (rule cut_from_honest)
qed

lemma write_endpoint_acks:
  "write_endpoint fl w fs = Some ((err, acks), fl', w') \<Longrightarrow> a \<in> set acks \<Longrightarrow> \<exists>offset fin. a = ack_frame fl offset fin"
proof (induction fs arbitrary: fl w acks)
  case (Cons f fs)
  have step: "fl_id fl1 = fl_id fl \<and> fl_send_direction fl1 = fl_send_direction fl \<and>
      (\<forall>ack finished. res = Inr (ack, finished) \<longrightarrow> (\<exists>offset fin. ack = ack_frame fl offset fin))"
    if "deliver_inbound fl w f = Some (res, fl1, w1)" for res fl1 w1
    using that by (auto simp: deliver_inbound_def split: option.splits sum.splits prod.splits if_splits)
  show ?case
  proof (cases "deliver_inbound fl w f")
    case None
    with Cons.prems show ?thesis by (auto split: if_splits)
  next
    case (Some r)
    obtain res fl1 w1 where r: "r = (res, fl1, w1)" by (cases r)
    show ?thesis
    proof (cases res)
      case (Inl e)
      with Cons.prems Some r show ?thesis by (auto split: if_splits)
    next
      case (Inr x)
      obtain ack finished where x: "x = (ack, finished)" by (cases x)
      note st = step [OF Some [unfolded r]]
      have same: "ack_frame fl1 = ack_frame fl" using st by (auto simp: ack_frame_def fun_eq_iff)
      from Cons.prems Some r Inr x st show ?thesis
        by (auto split: if_splits option.splits prod.splits dest!: Cons.IH simp: same) blast+
    qed
  qed
qed simp

lemma prefix_delivered:
  assumes "sender_run cfg stream_id dir s" and "\<forall>f \<in> set fs. on_some_carrier s f" and "fresh_receiver fl"
  shows "\<exists>err acks fl' w' k. write_endpoint fl w fs = Some ((err, acks), fl', w') \<and> k \<le> length (sd_stream s) \<and>
    dw_out w' = dw_out w @ take k (sd_stream s) \<and> acks_within k (sd_stream s) acks"
proof -
  have "length (sd_stream s) < 2 ^ 64"
    using sender_run_invs [OF assms(1)] sender_inv_parts(1) by (auto simp: stream_inv_def)
  moreover have "rx.delivering (sd_stream s) (dw_out w) {} (fl_reassembler fl) w"
    using delivering_new [OF calculation] assms(3) by (simp add: fresh_receiver_def)
  ultimately show ?thesis
    using write_endpoint_honest [of fs "sd_stream s" "dw_out w" "{}" fl w] carrier_frames_honest [OF assms(1)] assms(2) by blast
qed

text \<open>
  C1. End to end, safety: whatever the carriers of one side have written, delivered to the other side
  in any order, from any carriers, with any loss and repetition, what the application there receives
  is a beginning of what the application here sent, and no acknowledgement is ahead of it.
\<close>

theorem end_to_end_prefix:
  assumes "sender_run cfg stream_id dir s" and "\<forall>f \<in> set fs. on_some_carrier s f" and "fresh_receiver fl"
  shows "\<exists>err acks fl' w' k. write_endpoint fl w fs = Some ((err, acks), fl', w') \<and> k \<le> length (sd_stream s) \<and>
    dw_out w' = dw_out w @ take k (sd_stream s) \<and> acks_within k (sd_stream s) acks"
  using prefix_delivered [OF assms] .

definition sample_peer :: flow where
  "sample_peer = new_flow (replicate 16 7) DirectionClientToServer sample_config"

definition sample_wire :: "frame list" where
  "sample_wire = rev (map rp_frame (sd_log sample_written 0))"

lemma sample_wire_ok: "\<forall>f \<in> set sample_wire. on_some_carrier sample_written f" "fresh_receiver sample_peer"
  by (auto simp: sample_wire_def on_some_carrier_def fresh_receiver_def sample_peer_def new_flow_def)

lemma end_to_end_prefix_witness:
  "\<exists>err acks fl' w' k. write_endpoint sample_peer sample_endpoint sample_wire = Some ((err, acks), fl', w') \<and>
     dw_out w' = take k [1, 2]"
proof -
  have "sd_stream sample_written = [1, 2]" by (simp add: sample_written_def sample_halfway_def sample_sender_def run_defs)
  with end_to_end_prefix [OF sample_written_run sample_wire_ok, of sample_endpoint] show ?thesis
    by (auto simp: sample_endpoint_def dw_out_def)
qed

text \<open>
  C2. End to end, completeness: when the application here has sent everything and its end, every
  remembered frame has reached the other side at least once and nothing failed there, the application
  there has received exactly what was sent, and the last acknowledgement says so.
\<close>

theorem end_to_end_complete:
  assumes "sender_run cfg stream_id dir s" and "\<forall>f \<in> set fs. on_some_carrier s f" and "fresh_receiver fl" and "\<not> fl_closed fl"
    and "sd_eof s" and "rp_frame ` set (sd_sent s) \<subseteq> set fs"
    and "write_endpoint fl w fs = Some ((None, acks), fl', w')"
  shows "dw_out w' = dw_out w @ sd_stream s \<and> last acks = ack_frame fl (word_of_nat (length (sd_stream s))) True"
proof -
  have inv: "stream_inv s" using sender_run_invs [OF assms(1)] sender_inv_parts(1) by blast
  have h: "\<forall>f \<in> set fs. honest (sd_stream s) f" using carrier_frames_honest [OF assms(1)] assms(2) by blast
  have "cells 0 (sd_stream s) \<subseteq> frames_cells fs"
  proof
    fix x assume "x \<in> cells 0 (sd_stream s)"
    with inv obtain item where i: "item \<in> set (sd_sent s)"
      "x \<in> cells (unat (f_offset (rp_frame item))) (f_payload (rp_frame item))"
      by (auto simp: stream_inv_def)
    then have "f_type (rp_frame item) = FrameData"
      using sent_cut [OF inv i(1)] by (auto simp: cut_from_def)
    with i(1,2) assms(6) show "x \<in> frames_cells fs"
      by (fastforce simp: frames_cells_def arrival_of_def)
  qed
  moreover obtain item where "item \<in> set (sd_sent s)" "f_type (rp_frame item) = FrameFIN"
    using inv assms(5) by (auto simp: stream_inv_def)
  then have "\<exists>f \<in> set fs. f_type f = FrameFIN" using assms(6) by blast
  ultimately show ?thesis
    using everything_delivered [OF h _ assms(3,4) _ _ assms(7)] inv by (simp add: stream_inv_def)
qed

lemma sample_wire_eq: "sample_wire = [sample_stream_frame FrameFIN 2 []\<lparr>f_direction := DirectionServerToClient\<rparr>,
    sample_stream_frame FrameData 0 [1, 2]\<lparr>f_direction := DirectionServerToClient\<rparr>]"
  by (simp add: sample_wire_def sample_written_def sample_halfway_def sample_sender_def run_defs sample_stream_frame_def)

lemma sample_wire_run:
  "\<exists>acks fl' w'. write_endpoint sample_peer sample_endpoint sample_wire = Some ((None, acks), fl', w') \<and>
     (\<exists>a \<in> set acks. handle_frame (sd_flow sample_over) a = Some (Acknowledge 2 True))"
proof -
  have "flow_name (sd_flow sample_over) = (replicate 16 7, DirectionServerToClient, sample_config)"
    using sender_run_source [OF sample_over_run] by simp
  then show ?thesis
    by (simp add: sample_wire_eq sample_peer_def evaluate handle_frame_def flow_name_def ack_frame_def
        opposite_direction_def DirectionClientToServer_def DirectionServerToClient_def)
qed

lemma end_to_end_complete_witness:
  "\<exists>acks fl' w'. write_endpoint sample_peer sample_endpoint sample_wire = Some ((None, acks), fl', w') \<and> dw_out w' = [1, 2]"
proof -
  obtain acks fl' w' where r: "write_endpoint sample_peer sample_endpoint sample_wire = Some ((None, acks), fl', w')"
    using sample_wire_run by blast
  have "\<not> fl_closed sample_peer" "sd_eof sample_written" "sd_stream sample_written = [1, 2]"
    "rp_frame ` set (sd_sent sample_written) \<subseteq> set sample_wire"
    by (simp_all add: sample_peer_def new_flow_def sample_wire_def sample_written_def sample_halfway_def sample_sender_def run_defs)
  with end_to_end_complete [OF sample_written_run sample_wire_ok _ _ _ r] r show ?thesis
    by (auto simp: sample_endpoint_def dw_out_def)
qed

text \<open>
  What the sender forgets is delivered: when the acknowledgements that arrived are those that the
  other side made for the frames it got, then every frame that is no longer in the history is
  completely written to the application there; and a flow that ended by itself without an error has
  delivered the whole stream.
\<close>

theorem forgotten_is_delivered:
  assumes "sender_run cfg stream_id dir s" and "\<forall>f \<in> set fs. on_some_carrier s f" and "fresh_receiver fl"
    and "write_endpoint fl w fs = Some ((err, acks), fl', w')"
    and "\<forall>(offset, fin) \<in> sd_acks s. \<exists>a \<in> set acks. handle_frame (sd_flow s) a = Some (Acknowledge offset fin)"
  shows "\<exists>k. dw_out w' = dw_out w @ take k (sd_stream s) \<and>
    (\<forall>item \<in> set (sd_sent s) - set (fl_history (sd_flow s)). frame_stop (rp_frame item) \<le> k) \<and>
    (fl_closed (sd_flow s) \<and> fl_terminal_err (sd_flow s) = None \<and> \<not> sd_user_closed s \<longrightarrow> k = length (sd_stream s))"
proof -
  have inv: "stream_inv s" "history_inv s" "ack_inv s" "finish_inv s" "source_inv s"
    using sender_run_invs [OF assms(1)] sender_inv_parts sender_run_source [OF assms(1)] by blast+
  have S: "length (sd_stream s) < 2 ^ 64" using inv(1) by (simp add: stream_inv_def)
  obtain k where k: "k \<le> length (sd_stream s)" "dw_out w' = dw_out w @ take k (sd_stream s)"
    "acks_within k (sd_stream s) acks"
    using prefix_delivered [OF assms(1-3), of w] assms(4) by auto
  have acked: "unat offset \<le> k" if "(offset, fin) \<in> sd_acks s" for offset fin
  proof -
    from assms(5) that obtain a where "a \<in> set acks" "handle_frame (sd_flow s) a = Some (Acknowledge offset fin)" by blast
    then have "a \<in> set acks" "offset = f_offset a" by (auto simp: handle_frame_def split: if_splits list.splits)
    with k(3) show ?thesis by (simp add: acks_within_def)
  qed
  have g: "unat (fl_global_ack_offset (sd_flow s)) \<le> k"
    using inv(5) acked by (cases "fl_global_ack_offset (sd_flow s) = 0") (auto simp: source_inv_def)
  have "frame_stop (rp_frame item) \<le> k" if "item \<in> set (sd_sent s) - set (fl_history (sd_flow s))" for item
  proof -
    have "global_acknowledged (sd_flow s) (rp_frame item)"
      using that inv(2) by (auto simp: history_inv_def set_unacknowledged)
    with acknowledged_cut [OF sent_cut [OF inv(1)] S] that g show ?thesis by fastforce
  qed
  moreover have "k = length (sd_stream s)"
    if "fl_closed (sd_flow s)" "fl_terminal_err (sd_flow s) = None" "\<not> sd_user_closed s"
  proof -
    have "exchange_complete (sd_flow s)" using inv(4) that by (auto simp: finish_inv_def)
    with local_fin_stop [OF inv(3)] have "(word_of_nat (length (sd_stream s)), True) \<in> sd_acks s"
      by (simp add: exchange_complete_def)
    from acked [OF this] k(1) S show ?thesis by (simp add: unat_word_of_nat)
  qed
  ultimately show ?thesis using k(2) by (intro exI [of _ k] conjI ballI impI) auto
qed

lemma sample_over_acks: "sd_acks sample_over = {(2, True)}" "rp_frame ` set (sd_log sample_over 0) = rp_frame ` set (sd_log sample_written 0)"
  unfolding sample_over_def sample_remote_def sample_acked_def sample_written_def sample_halfway_def sample_sender_def
  by (simp_all add: run_defs)

lemma forgotten_is_delivered_witness:
  "\<exists>acks fl' w'. write_endpoint sample_peer sample_endpoint sample_wire = Some ((None, acks), fl', w') \<and> dw_out w' = [1, 2]"
proof -
  obtain acks fl' w' where r: "write_endpoint sample_peer sample_endpoint sample_wire = Some ((None, acks), fl', w')"
    "\<exists>a \<in> set acks. handle_frame (sd_flow sample_over) a = Some (Acknowledge 2 True)"
    using sample_wire_run by blast
  have "\<forall>f \<in> set sample_wire. on_some_carrier sample_over f"
    using sample_over_acks(2) by (auto simp: sample_wire_def on_some_carrier_def intro!: exI [of _ 0])
  from forgotten_is_delivered [OF sample_over_run this sample_wire_ok(2) r(1)] r(2) sample_over_acks(1) sample_over_closed
  have "dw_out w' = dw_out sample_endpoint @ [1, 2]" by auto
  with r(1) show ?thesis by (simp add: sample_endpoint_def dw_out_def)
qed

end
