(* ===== verification/Carrier_Reads.thy ===== *)
theory Carrier_Reads
  imports Carrier "HOL-Library.Sublist"
begin

text \<open>
  The reading half of a carrier (\<open>readLoop\<close>, \<open>forwardInbound\<close>, \<open>processLoop\<close>, \<open>Close\<close>, \<open>stop\<close> and
  \<open>finishClose\<close> in \<^verbatim>\<open>internal/tcpstream/carrier.go\<close>). One goroutine decodes frames and hands them over
  an unbuffered channel to another one that gives them to the flow; either half, the write loop and any
  caller of \<open>Close\<close> may end the carrier, and whoever is first decides whether what was read is still
  processed.
\<close>

section \<open>State\<close>

text \<open>Where a goroutine in \<open>finishClose\<close> stands: before \<^verbatim>\<open>finishOnce\<close>, or calling \<open>onClose\<close> with the flag.\<close>

datatype finish_pc = Claiming | Calling bool

text \<open>
  \<open>readLoop\<close>: decoding; in \<open>forwardInbound\<close> with a frame, still watching \<^verbatim>\<open>done\<close> or not; after an error,
  before \<open>stop(true)\<close>, waiting for its \<^verbatim>\<open>closeOnce\<close>, closing the channel, waiting for the other goroutine;
  closing the channel after a frame was not taken; the deferred calls.
\<close>

datatype reader_pc = Decoding | Forwarding frame bool | ReadStop | ReadStopWait | CloseInbound | AwaitProcess | DropClose
  | ReadFinish finish_pc | ReadGone

text \<open>\<open>processLoop\<close>: at the select, in the inner loop, in \<open>onFrame\<close> called from the inner loop or not, in \<open>stop(false)\<close>.\<close>

datatype process_pc = Selecting | DrainingInbound | Handling frame bool | ProcessStop | ProcessStopWait | ProcessGone

datatype closer_pc = CloseStop | CloseStopWait | CloseCheck | CloseFinish finish_pc

text \<open>The body of \<^verbatim>\<open>closeOnce\<close>: not run, after \<^verbatim>\<open>close(done)\<close>, after \<^verbatim>\<open>conn.Close\<close>, and finished.\<close>

datatype stop_stage = NotStopped | DoneClosed | ConnClosed | Stopped

text \<open>
  \<open>rs_input\<close> is what is left of the bytes that arrive. \<open>rs_read\<close>, \<open>rs_handled\<close>, \<open>rs_lost\<close>, \<open>rs_failed\<close> (\<open>onFrame\<close>
  returned an error), \<open>rs_ended\<close> (the decoder failed on an open connection) and \<open>rs_calls\<close> (the calls of
  \<open>onClose\<close>) are history; \<^verbatim>\<open>detached\<close> is closed when the call returns.
\<close>

record read_sys =
  rs_carrier :: carrier
  rs_input :: reader
  rs_reader :: reader_pc
  rs_process :: process_pc
  rs_closers :: "closer_pc list"
  rs_stage :: stop_stage
  rs_inbound_closed :: bool
  rs_claimed :: bool
  rs_read :: "frame list"
  rs_handled :: "frame list"
  rs_lost :: "frame list"
  rs_failed :: bool
  rs_ended :: bool
  rs_calls :: "bool list"

definition read_start :: "carrier \<Rightarrow> reader \<Rightarrow> read_sys" where
  "read_start c input =
     \<lparr>rs_carrier = c, rs_input = input, rs_reader = Decoding, rs_process = Selecting, rs_closers = [], rs_stage = NotStopped,
      rs_inbound_closed = False, rs_claimed = False, rs_read = [], rs_handled = [], rs_lost = [], rs_failed = False, rs_ended = False,
      rs_calls = []\<rparr>"

section \<open>Steps\<close>

text \<open>\<open>stop\<close> up to the wait for \<^verbatim>\<open>closeOnce\<close>.\<close>

definition enter_stop :: "bool \<Rightarrow> read_sys \<Rightarrow> read_sys" where
  "enter_stop preserve s =
     s\<lparr>rs_carrier := stop_carrier preserve (rs_carrier s), rs_stage := (if rs_stage s = NotStopped then DoneClosed else rs_stage s)\<rparr>"

text \<open>\<^verbatim>\<open>conn.Close\<close>, then the wait for the senders and \<open>failPending\<close>.\<close>

fun next_stage :: "stop_stage \<Rightarrow> stop_stage" where
  "next_stage NotStopped = NotStopped"
| "next_stage DoneClosed = ConnClosed"
| "next_stage ConnClosed = Stopped"
| "next_stage Stopped = Stopped"

text \<open>One step of \<open>finishClose\<close>: where the goroutine goes on, none when it returns.\<close>

inductive finish_step :: "finish_pc \<Rightarrow> read_sys \<Rightarrow> finish_pc option \<Rightarrow> read_sys \<Rightarrow> bool" where
  Claim: "\<not> rs_claimed s \<Longrightarrow> finish_step Claiming s (Some (Calling (cr_preserve_read (rs_carrier s)))) (s\<lparr>rs_claimed := True\<rparr>)"
| Claimed: "rs_claimed s \<Longrightarrow> rs_calls s \<noteq> [] \<Longrightarrow> finish_step Claiming s None s"
| Call: "finish_step (Calling preserve) s None (s\<lparr>rs_calls := rs_calls s @ [preserve]\<rparr>)"

text \<open>The read loop. A frame is handed over when the other goroutine is ready to take it.\<close>

inductive reader_step :: "u32 \<Rightarrow> read_sys \<Rightarrow> read_sys \<Rightarrow> bool" for m where
  Decode: "rs_reader s = Decoding \<Longrightarrow> rs_stage s \<in> {NotStopped, DoneClosed} \<Longrightarrow> read_frame m (rs_input s) = Inr (f, input) \<Longrightarrow>
    reader_step m s (s\<lparr>rs_input := input, rs_read := rs_read s @ [f], rs_reader := Forwarding f True\<rparr>)"
| DecodeFails: "rs_reader s = Decoding \<Longrightarrow> rs_stage s \<in> {NotStopped, DoneClosed} \<Longrightarrow> read_frame m (rs_input s) = Inl e \<Longrightarrow>
    reader_step m s (s\<lparr>rs_reader := ReadStop, rs_ended := True\<rparr>)"
| DecodeClosed: "rs_reader s = Decoding \<Longrightarrow> rs_stage s \<in> {ConnClosed, Stopped} \<Longrightarrow> reader_step m s (s\<lparr>rs_reader := ReadStop\<rparr>)"
| Hand: "rs_reader s = Forwarding f watch \<Longrightarrow> rs_process s = Selecting \<Longrightarrow>
    reader_step m s (s\<lparr>rs_reader := Decoding, rs_process := Handling f False\<rparr>)"
| HandDraining: "rs_reader s = Forwarding f watch \<Longrightarrow> rs_process s = DrainingInbound \<Longrightarrow>
    reader_step m s (s\<lparr>rs_reader := Decoding, rs_process := Handling f True\<rparr>)"
| HandGone: "rs_reader s = Forwarding f watch \<Longrightarrow> rs_process s = ProcessGone \<Longrightarrow>
    reader_step m s (s\<lparr>rs_reader := DropClose, rs_lost := [f]\<rparr>)"
| HandDone: "rs_reader s = Forwarding f True \<Longrightarrow> rs_stage s \<noteq> NotStopped \<Longrightarrow>
    reader_step m s (if preserves_inbound (rs_carrier s) then s\<lparr>rs_reader := Forwarding f False\<rparr>
      else s\<lparr>rs_reader := DropClose, rs_lost := [f]\<rparr>)"
| Stop: "rs_reader s = ReadStop \<Longrightarrow> reader_step m s ((enter_stop True s)\<lparr>rs_reader := ReadStopWait\<rparr>)"
| StopDone: "rs_reader s = ReadStopWait \<Longrightarrow> rs_stage s = Stopped \<Longrightarrow> reader_step m s (s\<lparr>rs_reader := CloseInbound\<rparr>)"
| Inbound: "rs_reader s = CloseInbound \<Longrightarrow>
    reader_step m s (s\<lparr>rs_inbound_closed := True,
      rs_reader := (if preserves_inbound (rs_carrier s) then AwaitProcess else ReadFinish Claiming)\<rparr>)"
| Await: "rs_reader s = AwaitProcess \<Longrightarrow> rs_process s = ProcessGone \<Longrightarrow> reader_step m s (s\<lparr>rs_reader := ReadFinish Claiming\<rparr>)"
| Dropped: "rs_reader s = DropClose \<Longrightarrow> reader_step m s (s\<lparr>rs_inbound_closed := True, rs_reader := ReadFinish Claiming\<rparr>)"
| ReaderFinishes: "rs_reader s = ReadFinish pc \<Longrightarrow> finish_step pc s pc' s' \<Longrightarrow>
    reader_step m s (s'\<lparr>rs_reader := (case pc' of None \<Rightarrow> ReadGone | Some pc \<Rightarrow> ReadFinish pc)\<rparr>)"

inductive process_step :: "read_sys \<Rightarrow> read_sys \<Rightarrow> bool" where
  InboundClosed: "rs_process s \<in> {Selecting, DrainingInbound} \<Longrightarrow> rs_inbound_closed s \<Longrightarrow> process_step s (s\<lparr>rs_process := ProcessGone\<rparr>)"
| SeesDone: "rs_process s = Selecting \<Longrightarrow> rs_stage s \<noteq> NotStopped \<Longrightarrow>
    process_step s (s\<lparr>rs_process := (if preserves_inbound (rs_carrier s) then DrainingInbound else ProcessGone)\<rparr>)"
| Handled: "rs_process s = Handling f draining \<Longrightarrow>
    process_step s (s\<lparr>rs_handled := rs_handled s @ [f], rs_process := (if draining then DrainingInbound else Selecting)\<rparr>)"
| HandleFails: "rs_process s = Handling f draining \<Longrightarrow>
    process_step s (s\<lparr>rs_handled := rs_handled s @ [f], rs_failed := True, rs_process := ProcessStop\<rparr>)"
| ProcessStops: "rs_process s = ProcessStop \<Longrightarrow> process_step s ((enter_stop False s)\<lparr>rs_process := ProcessStopWait\<rparr>)"
| ProcessStopped: "rs_process s = ProcessStopWait \<Longrightarrow> rs_stage s = Stopped \<Longrightarrow> process_step s (s\<lparr>rs_process := ProcessGone\<rparr>)"

text \<open>\<open>Close\<close>; the index picks the caller.\<close>

definition closer_to :: "nat \<Rightarrow> closer_pc option \<Rightarrow> read_sys \<Rightarrow> read_sys" where
  "closer_to i pc s =
     s\<lparr>rs_closers := (case pc of None \<Rightarrow> take i (rs_closers s) @ drop (Suc i) (rs_closers s) | Some pc \<Rightarrow> (rs_closers s)[i := pc])\<rparr>"

inductive closer_step :: "read_sys \<Rightarrow> read_sys \<Rightarrow> bool" where
  CloserStops: "i < length (rs_closers s) \<Longrightarrow> rs_closers s ! i = CloseStop \<Longrightarrow> closer_step s (closer_to i (Some CloseStopWait) (enter_stop False s))"
| CloserStopped: "i < length (rs_closers s) \<Longrightarrow> rs_closers s ! i = CloseStopWait \<Longrightarrow> rs_stage s = Stopped \<Longrightarrow>
    closer_step s (closer_to i (Some CloseCheck) s)"
| CloserChecks: "i < length (rs_closers s) \<Longrightarrow> rs_closers s ! i = CloseCheck \<Longrightarrow>
    closer_step s (closer_to i (if preserves_inbound (rs_carrier s) then None else Some (CloseFinish Claiming)) s)"
| CloserFinishes: "i < length (rs_closers s) \<Longrightarrow> rs_closers s ! i = CloseFinish pc \<Longrightarrow> finish_step pc s pc' s' \<Longrightarrow>
    closer_step s (closer_to i (map_option CloseFinish pc') s')"

text \<open>
  The goroutines' own steps, and those from outside: a call of \<open>Close\<close>, and the write loop's \<open>stop(true)\<close>
  after a write failed.
\<close>

inductive work_step :: "u32 \<Rightarrow> read_sys \<Rightarrow> read_sys \<Rightarrow> bool" for m where
  Read: "reader_step m s s' \<Longrightarrow> work_step m s s'"
| Process: "process_step s s' \<Longrightarrow> work_step m s s'"
| Closer: "closer_step s s' \<Longrightarrow> work_step m s s'"
| Stage: "next_stage (rs_stage s) \<noteq> rs_stage s \<Longrightarrow> work_step m s (s\<lparr>rs_stage := next_stage (rs_stage s)\<rparr>)"

inductive read_step :: "u32 \<Rightarrow> read_sys \<Rightarrow> read_sys \<Rightarrow> bool" for m where
  Work: "work_step m s s' \<Longrightarrow> read_step m s s'"
| CloseCalled: "read_step m s (s\<lparr>rs_closers := CloseStop # rs_closers s\<rparr>)"
| WriterStops: "read_step m s (enter_stop True s)"

inductive reads_reachable :: "u32 \<Rightarrow> carrier \<Rightarrow> reader \<Rightarrow> read_sys \<Rightarrow> bool" for m c input where
  Start: "reads_reachable m c input (read_start c input)"
| Next: "reads_reachable m c input s \<Longrightarrow> read_step m s s' \<Longrightarrow> reads_reachable m c input s'"

inductive_cases reader_stepE: "reader_step m s s'"
inductive_cases process_stepE: "process_step s s'"
inductive_cases closer_stepE: "closer_step s s'"
inductive_cases finish_stepE: "finish_step pc s pc' s'"
inductive_cases read_stepE: "read_step m s s'"
inductive_cases work_stepE: "work_step m s s'"
inductive_simps finish_claiming: "finish_step Claiming s pc' s'"
inductive_simps finish_calling: "finish_step (Calling preserve) s pc' s'"

section \<open>What is read and what is handled\<close>

fun forwarded :: "reader_pc \<Rightarrow> frame list" where
  "forwarded (Forwarding f watch) = [f]"
| "forwarded _ = []"

fun in_hand :: "process_pc \<Rightarrow> frame list" where
  "in_hand (Handling f draining) = [f]"
| "in_hand _ = []"

text \<open>The reader has left its loop.\<close>

fun left_loop :: "reader_pc \<Rightarrow> bool" where
  "left_loop Decoding = False"
| "left_loop (Forwarding f watch) = False"
| "left_loop _ = True"

fun past_stop :: "reader_pc \<Rightarrow> bool" where
  "past_stop (ReadFinish pc) = True"
| "past_stop ReadGone = True"
| "past_stop _ = False"

definition decodes :: "u32 \<Rightarrow> reader \<Rightarrow> frame list \<Rightarrow> reader \<Rightarrow> bool" where
  "decodes m input fs rest \<longleftrightarrow> frames.parse_many m (length fs) input = Inr (fs, rest)"

definition frames_inv :: "u32 \<Rightarrow> reader \<Rightarrow> read_sys \<Rightarrow> bool" where
  "frames_inv m input s \<longleftrightarrow> decodes m input (rs_read s) (rs_input s) \<and>
     rs_read s = rs_handled s @ in_hand (rs_process s) @ forwarded (rs_reader s) @ rs_lost s \<and>
     (rs_lost s \<noteq> [] \<longrightarrow> left_loop (rs_reader s)) \<and> length (rs_lost s) \<le> 1 \<and> (rs_ended s \<longrightarrow> left_loop (rs_reader s) \<and> (\<exists>e. read_frame m (rs_input s) = Inl e))"

lemma finish_step_same:
  assumes "finish_step pc s pc' s'"
  shows "rs_carrier s' = rs_carrier s" "rs_input s' = rs_input s" "rs_reader s' = rs_reader s" "rs_process s' = rs_process s"
    "rs_closers s' = rs_closers s" "rs_stage s' = rs_stage s" "rs_inbound_closed s' = rs_inbound_closed s" "rs_read s' = rs_read s"
    "rs_handled s' = rs_handled s" "rs_lost s' = rs_lost s" "rs_failed s' = rs_failed s" "rs_ended s' = rs_ended s"
  using assms by (auto elim!: finish_stepE)

lemma enter_stop_same [simp]:
  "rs_input (enter_stop p s) = rs_input s" "rs_reader (enter_stop p s) = rs_reader s" "rs_process (enter_stop p s) = rs_process s"
  "rs_closers (enter_stop p s) = rs_closers s" "rs_inbound_closed (enter_stop p s) = rs_inbound_closed s" "rs_read (enter_stop p s) = rs_read s"
  "rs_handled (enter_stop p s) = rs_handled s" "rs_lost (enter_stop p s) = rs_lost s" "rs_failed (enter_stop p s) = rs_failed s"
  "rs_ended (enter_stop p s) = rs_ended s" "rs_claimed (enter_stop p s) = rs_claimed s" "rs_calls (enter_stop p s) = rs_calls s"
  by (simp_all add: enter_stop_def)

lemma closer_to_same [simp]:
  "rs_carrier (closer_to i pc s) = rs_carrier s" "rs_input (closer_to i pc s) = rs_input s" "rs_reader (closer_to i pc s) = rs_reader s"
  "rs_process (closer_to i pc s) = rs_process s" "rs_stage (closer_to i pc s) = rs_stage s" "rs_claimed (closer_to i pc s) = rs_claimed s"
  "rs_inbound_closed (closer_to i pc s) = rs_inbound_closed s" "rs_read (closer_to i pc s) = rs_read s" "rs_calls (closer_to i pc s) = rs_calls s"
  "rs_handled (closer_to i pc s) = rs_handled s" "rs_lost (closer_to i pc s) = rs_lost s" "rs_failed (closer_to i pc s) = rs_failed s"
  "rs_ended (closer_to i pc s) = rs_ended s"
  by (simp_all add: closer_to_def)

lemma parse_one_more:
  "frames.parse_many m n input = Inr (fs, r) \<Longrightarrow> read_frame m r = Inr (f, r') \<Longrightarrow> frames.parse_many m (Suc n) input = Inr (fs @ [f], r')"
proof (induction n arbitrary: input fs)
  case (Suc n)
  then obtain x r1 xs where x: "read_frame m input = Inr (x, r1)" "frames.parse_many m n r1 = Inr (xs, r)" "fs = x # xs"
    by (auto split: sum.splits)
  from Suc.IH [OF x(2) Suc.prems(2)] x(1,3) show ?case by (simp only: frames.parse_many.simps(2) [of m "Suc n"]) simp
qed simp

lemma decodes_more: "decodes m input fs r \<Longrightarrow> read_frame m r = Inr (f, r') \<Longrightarrow> decodes m input (fs @ [f]) r'"
  using parse_one_more [of m "length fs" input fs r f r'] by (simp add: decodes_def)

lemma frames_reader: "reader_step m s s' \<Longrightarrow> frames_inv m input s \<Longrightarrow> frames_inv m input s'"
proof (induction rule: reader_step.induct)
  case (Decode s f input')
  then show ?case using decodes_more [of m input "rs_read s" "rs_input s" f input'] by (auto simp: frames_inv_def)
qed (auto simp: frames_inv_def finish_step_same split: option.splits)

lemma frames_process: "process_step s s' \<Longrightarrow> frames_inv m input s \<Longrightarrow> frames_inv m input s'"
  by (induction rule: process_step.induct) (auto simp: frames_inv_def)

lemma frames_closer: "closer_step s s' \<Longrightarrow> frames_inv m input s \<Longrightarrow> frames_inv m input s'"
  by (induction rule: closer_step.induct) (auto simp: frames_inv_def finish_step_same)

lemma frames_step: "read_step m s s' \<Longrightarrow> frames_inv m input s \<Longrightarrow> frames_inv m input s'"
  by (elim read_stepE work_stepE) (auto dest: frames_reader frames_process frames_closer, auto simp: frames_inv_def)

section \<open>Who ends the carrier\<close>

definition stopping :: "read_sys \<Rightarrow> bool" where
  "stopping s \<longleftrightarrow> rs_stage s \<noteq> NotStopped"

definition keeps :: "read_sys \<Rightarrow> bool" where
  "keeps s \<longleftrightarrow> preserves_inbound (rs_carrier s)"

definition process_gone :: "read_sys \<Rightarrow> bool" where
  "process_gone s \<longleftrightarrow> rs_process s = ProcessGone"

fun finish_ok :: "read_sys \<Rightarrow> finish_pc \<Rightarrow> bool" where
  "finish_ok s Claiming = True"
| "finish_ok s (Calling p) = (p = cr_preserve_read (rs_carrier s) \<and> rs_claimed s)"

fun reader_ok :: "read_sys \<Rightarrow> reader_pc \<Rightarrow> bool" where
  "reader_ok s (Forwarding f watch) = (watch \<or> keeps s)"
| "reader_ok s ReadStopWait = stopping s"
| "reader_ok s CloseInbound = stopping s"
| "reader_ok s AwaitProcess = (keeps s \<and> rs_inbound_closed s \<and> stopping s)"
| "reader_ok s DropClose = (stopping s \<and> (keeps s \<longrightarrow> process_gone s))"
| "reader_ok s (ReadFinish pc) = (stopping s \<and> (keeps s \<longrightarrow> process_gone s) \<and> rs_inbound_closed s \<and> finish_ok s pc)"
| "reader_ok s ReadGone = (stopping s \<and> (keeps s \<longrightarrow> process_gone s) \<and> rs_inbound_closed s \<and> rs_calls s \<noteq> [])"
| "reader_ok s _ = True"

fun process_ok :: "read_sys \<Rightarrow> process_pc \<Rightarrow> bool" where
  "process_ok s DrainingInbound = keeps s"
| "process_ok s (Handling f draining) = (draining \<longrightarrow> keeps s)"
| "process_ok s ProcessStop = rs_failed s"
| "process_ok s ProcessStopWait = (rs_failed s \<and> stopping s)"
| "process_ok s ProcessGone = (stopping s \<and> (rs_failed s \<or> rs_inbound_closed s \<or> \<not> keeps s))"
| "process_ok s _ = True"

fun closer_ok :: "read_sys \<Rightarrow> closer_pc \<Rightarrow> bool" where
  "closer_ok s CloseStop = True"
| "closer_ok s (CloseFinish pc) = (stopping s \<and> \<not> keeps s \<and> finish_ok s pc)"
| "closer_ok s _ = stopping s"

definition stop_inv :: "read_sys \<Rightarrow> bool" where
  "stop_inv s \<longleftrightarrow> (stopping s \<longleftrightarrow> cr_closing (rs_carrier s)) \<and> reader_ok s (rs_reader s) \<and> process_ok s (rs_process s) \<and>
     (\<forall>pc \<in> set (rs_closers s). closer_ok s pc) \<and> (rs_inbound_closed s \<longrightarrow> stopping s \<and> left_loop (rs_reader s)) \<and>
     (rs_lost s \<noteq> [] \<longrightarrow> stopping s \<and> (rs_failed s \<or> \<not> keeps s)) \<and>
     (rs_claimed s \<or> rs_calls s \<noteq> [] \<longrightarrow> stopping s \<and> (keeps s \<longrightarrow> past_stop (rs_reader s) \<and> process_gone s)) \<and>
     (\<forall>p \<in> set (rs_calls s). p = cr_preserve_read (rs_carrier s))"

lemma closers_update:
  "set (rs_closers (closer_to i pc s)) \<subseteq> set_option pc \<union> set (rs_closers s)"
  by (cases pc) (auto simp: closer_to_def dest: in_set_takeD in_set_dropD set_update_subset_insert [THEN subsetD])

lemma nth_closer_ok: "stop_inv s \<Longrightarrow> i < length (rs_closers s) \<Longrightarrow> rs_closers s ! i = pc \<Longrightarrow> closer_ok s pc"
  by (auto simp: stop_inv_def)

text \<open>What the predicates look at.\<close>

lemma ok_cong:
  assumes "stopping s' = stopping s" "rs_carrier s' = rs_carrier s" "process_gone s \<longrightarrow> process_gone s'" "rs_failed s \<longrightarrow> rs_failed s'"
    "rs_inbound_closed s \<longrightarrow> rs_inbound_closed s'" "rs_claimed s \<longrightarrow> rs_claimed s'" "rs_calls s \<noteq> [] \<longrightarrow> rs_calls s' \<noteq> []"
  shows "finish_ok s fpc \<Longrightarrow> finish_ok s' fpc" "reader_ok s rpc \<Longrightarrow> reader_ok s' rpc" "process_ok s ppc \<Longrightarrow> process_ok s' ppc"
    "closer_ok s cpc \<Longrightarrow> closer_ok s' cpc"
proof -
  have keeps: "keeps s' = keeps s" by (simp add: keeps_def assms(2))
  show fin: "finish_ok s fpc \<Longrightarrow> finish_ok s' fpc" for fpc using assms by (cases fpc) simp_all
  show "reader_ok s rpc \<Longrightarrow> reader_ok s' rpc" using assms keeps fin by (cases rpc) auto
  show "process_ok s ppc \<Longrightarrow> process_ok s' ppc" using assms keeps by (cases ppc) auto
  show "closer_ok s cpc \<Longrightarrow> closer_ok s' cpc" using assms keeps fin by (cases cpc) auto
qed

lemma stop_step_inv:
  assumes "stop_inv s" "stopping s' = stopping s" "rs_carrier s' = rs_carrier s"
    "process_gone s \<longrightarrow> process_gone s'" "rs_failed s \<longrightarrow> rs_failed s'" "rs_inbound_closed s \<longrightarrow> rs_inbound_closed s'"
    "rs_claimed s \<longrightarrow> rs_claimed s'" "rs_calls s \<noteq> [] \<longrightarrow> rs_calls s' \<noteq> []"
    and "rs_reader s' = rs_reader s \<or> reader_ok s' (rs_reader s')" "rs_process s' = rs_process s \<or> process_ok s' (rs_process s')"
    and "\<And>pc. pc \<in> set (rs_closers s') \<Longrightarrow> pc \<in> set (rs_closers s) \<or> closer_ok s' pc"
    and "rs_inbound_closed s' \<longrightarrow> stopping s' \<and> left_loop (rs_reader s')" "rs_lost s' \<noteq> [] \<longrightarrow> stopping s' \<and> (rs_failed s' \<or> \<not> keeps s')"
    and "rs_claimed s' \<or> rs_calls s' \<noteq> [] \<longrightarrow> stopping s' \<and> (keeps s' \<longrightarrow> past_stop (rs_reader s') \<and> process_gone s')"
    and "\<And>p. p \<in> set (rs_calls s') \<Longrightarrow> p = cr_preserve_read (rs_carrier s')"
  shows "stop_inv s'"
proof -
  note ok = ok_cong [OF assms(2-8)]
  have "reader_ok s' (rs_reader s')" using assms(1,9) ok(2) by (auto simp: stop_inv_def)
  moreover have "process_ok s' (rs_process s')" using assms(1,10) ok(3) by (auto simp: stop_inv_def)
  moreover have "closer_ok s' pc" if "pc \<in> set (rs_closers s')" for pc using assms(1) assms(11) [OF that] ok(4) by (auto simp: stop_inv_def)
  ultimately show ?thesis using assms by (simp add: stop_inv_def)
qed

lemma enter_stop_again: "stop_inv s \<Longrightarrow> stopping s \<Longrightarrow> enter_stop preserve s = s"
  by (auto simp: enter_stop_def stop_carrier_def stop_inv_def stopping_def)

lemma stopping_enter_stop [simp]: "stopping (enter_stop preserve s)"
  by (simp add: enter_stop_def stopping_def)

lemma enter_stop_inv:
  assumes "stop_inv s"
  shows "stop_inv (enter_stop preserve s)"
proof (cases "stopping s")
  case True
  with enter_stop_again [OF assms] assms show ?thesis by simp
next
  case False
  then have still: "\<not> cr_closing (rs_carrier s)" using assms by (simp add: stop_inv_def)
  then have none: "\<not> keeps s" by (simp add: keeps_def preserves_inbound_def)
  have "cr_closing (rs_carrier (enter_stop preserve s))" by (simp add: enter_stop_def)
  moreover have "reader_ok (enter_stop preserve s) (rs_reader s)" using assms False none
    by (cases "rs_reader s") (auto simp: stop_inv_def)
  moreover have "process_ok (enter_stop preserve s) (rs_process s)" using assms False none
    by (cases "rs_process s") (auto simp: stop_inv_def)
  moreover have "closer_ok (enter_stop preserve s) pc" if "pc \<in> set (rs_closers s)" for pc using assms False that
    by (cases pc) (auto simp: stop_inv_def)
  ultimately show ?thesis using assms False by (auto simp: stop_inv_def)
qed

lemma keeps_same: "rs_carrier s' = rs_carrier s \<Longrightarrow> keeps s' = keeps s"
  by (simp add: keeps_def)

lemma stopping_same: "rs_stage s' = rs_stage s \<Longrightarrow> stopping s' = stopping s"
  by (simp add: stopping_def)

lemmas views = stopping_def keeps_def process_gone_def

lemma stop_finish:
  assumes "finish_step pc s pc' s'" "stop_inv s" "finish_ok s pc" "stopping s" "keeps s \<longrightarrow> past_stop (rs_reader s) \<and> process_gone s"
  shows "stop_inv s' \<and> (case pc' of None \<Rightarrow> rs_calls s' \<noteq> [] | Some pc' \<Rightarrow> finish_ok s' pc') \<and> stopping s' \<and> keeps s' = keeps s \<and>
    process_gone s' = process_gone s"
proof -
  note same = finish_step_same [OF assms(1)]
  note facts = assms(2) [unfolded stop_inv_def]
  have "stop_inv s'" using assms(1)
  proof cases
    case Claim
    show ?thesis by (rule stop_step_inv [OF assms(2)]) (use facts assms(4,5) Claim in \<open>auto simp: views\<close>)
  next
    case Claimed
    then show ?thesis using assms(2) by simp
  next
    case (Call p)
    show ?thesis by (rule stop_step_inv [OF assms(2)]) (use facts assms(3-5) Call in \<open>auto simp: views\<close>)
  qed
  moreover have "case pc' of None \<Rightarrow> rs_calls s' \<noteq> [] | Some pc' \<Rightarrow> finish_ok s' pc'" using assms(1) by (cases rule: finish_step.cases) auto
  ultimately show ?thesis using same assms(4) by (simp add: views)
qed

lemma stop_reader_to:
  assumes "stop_inv s" "reader_ok s pc" "rs_inbound_closed s \<longrightarrow> left_loop pc"
    "rs_claimed s \<or> rs_calls s \<noteq> [] \<longrightarrow> keeps s \<longrightarrow> past_stop pc"
  shows "stop_inv (s\<lparr>rs_reader := pc\<rparr>)"
proof (rule stop_step_inv [OF assms(1)])
  show "rs_reader (s\<lparr>rs_reader := pc\<rparr>) = rs_reader s \<or> reader_ok (s\<lparr>rs_reader := pc\<rparr>) (rs_reader (s\<lparr>rs_reader := pc\<rparr>))"
    using assms(2) by (auto intro: ok_cong(2) [rotated 7] simp: views)
qed (use assms in \<open>auto simp: stop_inv_def views\<close>)

lemma stop_process_to:
  assumes "stop_inv s" "process_ok s pc" "\<not> process_gone s"
  shows "stop_inv (s\<lparr>rs_process := pc\<rparr>)"
proof (rule stop_step_inv [OF assms(1)])
  show "rs_process (s\<lparr>rs_process := pc\<rparr>) = rs_process s \<or> process_ok (s\<lparr>rs_process := pc\<rparr>) (rs_process (s\<lparr>rs_process := pc\<rparr>))"
    using assms(2,3) by (auto intro: ok_cong(3) [rotated 7] simp: views)
qed (use assms in \<open>auto simp: stop_inv_def views\<close>)

lemma stop_history:
  assumes "stop_inv s"
  shows "stop_inv (s\<lparr>rs_input := input, rs_read := fs\<rparr>)" "stop_inv (s\<lparr>rs_handled := fs\<rparr>)" "stop_inv (s\<lparr>rs_ended := True\<rparr>)"
    "stop_inv (s\<lparr>rs_handled := fs, rs_failed := True\<rparr>)"
    "stopping s \<Longrightarrow> left_loop (rs_reader s) \<Longrightarrow> stop_inv (s\<lparr>rs_inbound_closed := True\<rparr>)"
    "stopping s \<Longrightarrow> rs_failed s \<or> \<not> keeps s \<Longrightarrow> stop_inv (s\<lparr>rs_lost := fs\<rparr>)"
    "next_stage (rs_stage s) \<noteq> rs_stage s \<Longrightarrow> stop_inv (s\<lparr>rs_stage := next_stage (rs_stage s)\<rparr>)"
  by (rule stop_step_inv [OF assms]; use assms in \<open>cases "rs_stage s"; auto simp: stop_inv_def views\<close>)+

lemma stop_closer_to:
  assumes "stop_inv s" "\<And>pc'. pc = Some pc' \<Longrightarrow> closer_ok s pc'"
  shows "stop_inv (closer_to i pc s)"
proof (rule stop_step_inv [OF assms(1)])
  fix pc'
  assume "pc' \<in> set (rs_closers (closer_to i pc s))"
  with closers_update have "pc' \<in> set_option pc \<union> set (rs_closers s)" by blast
  then show "pc' \<in> set (rs_closers s) \<or> closer_ok (closer_to i pc s) pc'"
    using assms(2) by (auto intro: ok_cong(4) [rotated 7] simp: views)
qed (use assms in \<open>auto simp: stop_inv_def views\<close>)

lemma stop_invD:
  assumes "stop_inv s"
  shows "reader_ok s (rs_reader s)" "process_ok s (rs_process s)" "rs_inbound_closed s \<Longrightarrow> stopping s \<and> left_loop (rs_reader s)"
    "rs_claimed s \<or> rs_calls s \<noteq> [] \<Longrightarrow> keeps s \<Longrightarrow> past_stop (rs_reader s) \<and> process_gone s"
    "rs_claimed s \<or> rs_calls s \<noteq> [] \<Longrightarrow> stopping s" "rs_lost s \<noteq> [] \<Longrightarrow> stopping s \<and> (rs_failed s \<or> \<not> keeps s)"
    "p \<in> set (rs_calls s) \<Longrightarrow> p = cr_preserve_read (rs_carrier s)"
  using assms by (auto simp: stop_inv_def)

lemma stop_reader:
  assumes "reader_step m s s'" "stop_inv s"
  shows "stop_inv s'"
  using assms(1)
proof cases
  case (Decode f input)
  then show ?thesis
    using stop_reader_to [OF stop_history(1) [OF assms(2), of "rs_read s @ [f]" input], of "Forwarding f True"] stop_invD [OF assms(2)]
    by (auto simp: keeps_same [of "s\<lparr>rs_input := input, rs_read := rs_read s @ [f]\<rparr>" s])
next
  case (DecodeFails e)
  then show ?thesis
    using stop_history(3) [OF stop_reader_to [OF assms(2), of ReadStop]] stop_invD [OF assms(2)] by auto
next
  case DecodeClosed
  then show ?thesis using stop_reader_to [OF assms(2), of ReadStop] stop_invD [OF assms(2)] by auto
next
  case (Hand f watch)
  then show ?thesis
    using stop_process_to [OF stop_reader_to [OF assms(2), of Decoding], of "Handling f False"] stop_invD [OF assms(2)]
    by (auto simp: process_gone_def)
next
  case (HandDraining f watch)
  then show ?thesis
    using stop_process_to [OF stop_reader_to [OF assms(2), of Decoding], of "Handling f True"] stop_invD [OF assms(2)]
    by (auto simp: process_gone_def keeps_def)
next
  case (HandGone f watch)
  then show ?thesis
    using stop_history(6) [OF stop_reader_to [OF assms(2), of DropClose], of "[f]"] stop_invD [OF assms(2)]
    by (auto simp: process_gone_def keeps_def stopping_def)
next
  case (HandDone f)
  then show ?thesis
    using stop_history(6) [OF stop_reader_to [OF assms(2), of DropClose], of "[f]"] stop_reader_to [OF assms(2), of "Forwarding f False"] stop_invD [OF assms(2)]
    by (auto simp: keeps_def stopping_def)
next
  case Stop
  then show ?thesis using stop_reader_to [OF enter_stop_inv [OF assms(2), of True], of ReadStopWait] stop_invD [OF enter_stop_inv [OF assms(2), of True]] by auto
next
  case StopDone
  then show ?thesis using stop_reader_to [OF assms(2), of CloseInbound] stop_invD [OF assms(2)] by (auto simp: stopping_def)
next
  case Inbound
  then have inv: "stop_inv (s\<lparr>rs_inbound_closed := True\<rparr>)" and "stopping s" using stop_history(5) [OF assms(2)] stop_invD(1) [OF assms(2)] by auto
  with Inbound show ?thesis
    using stop_reader_to [OF inv, of AwaitProcess] stop_reader_to [OF inv, of "ReadFinish Claiming"] stop_invD [OF assms(2)]
    by (auto simp: keeps_def stopping_def process_gone_def)
next
  case Await
  then show ?thesis using stop_reader_to [OF assms(2), of "ReadFinish Claiming"] stop_invD [OF assms(2)] by (auto simp: process_gone_def)
next
  case Dropped
  then have inv: "stop_inv (s\<lparr>rs_inbound_closed := True\<rparr>)" and "stopping s" using stop_history(5) [OF assms(2)] stop_invD(1) [OF assms(2)] by auto
  with Dropped show ?thesis
    using stop_reader_to [OF inv, of "ReadFinish Claiming"] stop_invD [OF assms(2)] by (auto simp: keeps_def stopping_def process_gone_def)
next
  case (ReaderFinishes pc pc' t)
  with stop_invD(1) [OF assms(2)] have pc: "finish_ok s pc" "stopping s" "keeps s \<longrightarrow> process_gone s" "rs_inbound_closed s" by auto
  have t: "stop_inv t \<and> (case pc' of None \<Rightarrow> rs_calls t \<noteq> [] | Some pc' \<Rightarrow> finish_ok t pc') \<and> stopping t \<and> keeps t = keeps s \<and> process_gone t = process_gone s"
    using stop_finish [OF ReaderFinishes(3) assms(2) pc(1,2)] pc(3) ReaderFinishes(2) by simp
  moreover have "rs_inbound_closed t" using finish_step_same(7) [OF ReaderFinishes(3)] pc(4) by simp
  ultimately show ?thesis using pc(3) stop_reader_to [of t "case pc' of None \<Rightarrow> ReadGone | Some pc \<Rightarrow> ReadFinish pc"] ReaderFinishes(1)
    by (cases pc') auto
qed

lemma stop_process:
  assumes "process_step s s'" "stop_inv s"
  shows "stop_inv s'"
  using assms(1)
proof cases
  case InboundClosed
  then show ?thesis using stop_process_to [OF assms(2), of ProcessGone] stop_invD [OF assms(2)] by (auto simp: process_gone_def)
next
  case SeesDone
  then show ?thesis using stop_process_to [OF assms(2), of ProcessGone] stop_process_to [OF assms(2), of DrainingInbound]
    by (auto simp: process_gone_def keeps_def stopping_def)
next
  case (Handled f draining)
  then show ?thesis
    using stop_process_to [OF stop_history(2) [OF assms(2), of "rs_handled s @ [f]"], of "if draining then DrainingInbound else Selecting"] stop_invD(2) [OF assms(2)]
    by (auto simp: process_gone_def keeps_def split: if_splits)
next
  case (HandleFails f draining)
  then show ?thesis
    using stop_process_to [OF stop_history(4) [OF assms(2), of "rs_handled s @ [f]"], of ProcessStop] by (auto simp: process_gone_def)
next
  case ProcessStops
  then show ?thesis using stop_process_to [OF enter_stop_inv [OF assms(2), of False], of ProcessStopWait] stop_invD(2) [OF assms(2)] by (auto simp: process_gone_def)
next
  case ProcessStopped
  then show ?thesis using stop_process_to [OF assms(2), of ProcessGone] stop_invD(2) [OF assms(2)] by (auto simp: process_gone_def)
qed

lemma stop_closer:
  assumes "closer_step s s'" "stop_inv s"
  shows "stop_inv s'"
  using assms(1)
proof cases
  case (CloserStops i)
  then show ?thesis using stop_closer_to [OF enter_stop_inv [OF assms(2), of False], of "Some CloseStopWait" i] by simp
next
  case (CloserStopped i)
  then show ?thesis using stop_closer_to [OF assms(2), of "Some CloseCheck" i] by (simp add: stopping_def)
next
  case (CloserChecks i)
  with nth_closer_ok [OF assms(2)] have "stopping s" by fastforce
  with CloserChecks show ?thesis
    using stop_closer_to [OF assms(2), of "if preserves_inbound (rs_carrier s) then None else Some (CloseFinish Claiming)" i] by (simp add: keeps_def split: if_splits)
next
  case (CloserFinishes i pc pc' t)
  with nth_closer_ok [OF assms(2)] have pc: "finish_ok s pc" "stopping s" "\<not> keeps s" by fastforce+
  have "stop_inv t \<and> (case pc' of None \<Rightarrow> rs_calls t \<noteq> [] | Some pc' \<Rightarrow> finish_ok t pc') \<and> stopping t \<and> keeps t = keeps s \<and> process_gone t = process_gone s"
    using stop_finish [OF CloserFinishes(4) assms(2) pc(1,2)] pc(3) by simp
  then show ?thesis using CloserFinishes(1) pc(3) stop_closer_to [of t "map_option CloseFinish pc'" i] by (cases pc') auto
qed

lemma stop_step: "read_step m s s' \<Longrightarrow> stop_inv s \<Longrightarrow> stop_inv s'"
proof (induction rule: read_step.induct)
  case (Work s s')
  then show ?case by (cases rule: work_step.cases) (auto intro: stop_reader stop_process stop_closer stop_history(7))
next
  case (CloseCalled s)
  show ?case by (rule stop_step_inv [OF CloseCalled]) (use CloseCalled in \<open>auto simp: stop_inv_def views\<close>)
qed (rule enter_stop_inv)

section \<open>Once\<close>

text \<open>A weight summed over the callers of \<open>Close\<close>.\<close>

lemma weight_closer_to:
  fixes weight :: "closer_pc \<Rightarrow> nat"
  assumes "i < length (rs_closers s)"
  shows "sum_list (map weight (rs_closers (closer_to i pc s))) + weight (rs_closers s ! i) =
    sum_list (map weight (rs_closers s)) + (case pc of None \<Rightarrow> 0 | Some pc \<Rightarrow> weight pc)"
proof -
  have "sum_list (map weight (rs_closers s)) =
      sum_list (map weight (take i (rs_closers s))) + weight (rs_closers s ! i) + sum_list (map weight (drop (Suc i) (rs_closers s)))"
    by (subst id_take_nth_drop [OF assms]) simp
  then show ?thesis using assms by (cases pc) (simp_all add: closer_to_def upd_conv_take_nth_drop)
qed

fun calling :: "finish_pc \<Rightarrow> nat" where
  "calling Claiming = 0"
| "calling (Calling p) = 1"

fun reader_calling :: "reader_pc \<Rightarrow> nat" where
  "reader_calling (ReadFinish pc) = calling pc"
| "reader_calling _ = 0"

fun closer_calling :: "closer_pc \<Rightarrow> nat" where
  "closer_calling (CloseFinish pc) = calling pc"
| "closer_calling _ = 0"

definition once_inv :: "read_sys \<Rightarrow> bool" where
  "once_inv s \<longleftrightarrow>
     reader_calling (rs_reader s) + sum_list (map closer_calling (rs_closers s)) + length (rs_calls s) = (if rs_claimed s then 1 else 0)"

lemma once_finish:
  "finish_step pc s pc' s' \<Longrightarrow>
    (case pc' of None \<Rightarrow> 0 | Some pc' \<Rightarrow> calling pc') + length (rs_calls s') + (if rs_claimed s then 1 else 0) =
      calling pc + length (rs_calls s) + (if rs_claimed s' then 1 else 0)"
  by (cases rule: finish_step.cases) auto

lemma once_reader: "reader_step m s s' \<Longrightarrow> once_inv s \<Longrightarrow> once_inv s'"
proof (induction rule: reader_step.induct)
  case (ReaderFinishes s pc pc' s')
  then show ?case using once_finish [OF ReaderFinishes(2)] finish_step_same(3,5) [OF ReaderFinishes(2)]
    by (cases pc') (auto simp: once_inv_def)
qed (auto simp: once_inv_def)

lemma once_closer: "closer_step s s' \<Longrightarrow> once_inv s \<Longrightarrow> once_inv s'"
proof (induction rule: closer_step.induct)
  case (CloserStops i s)
  then show ?case using weight_closer_to [of i "enter_stop False s" closer_calling "Some CloseStopWait"] by (simp add: once_inv_def)
next
  case (CloserStopped i s)
  then show ?case using weight_closer_to [of i s closer_calling "Some CloseCheck"] by (simp add: once_inv_def)
next
  case (CloserChecks i s)
  then show ?case
    using weight_closer_to [of i s closer_calling "if preserves_inbound (rs_carrier s) then None else Some (CloseFinish Claiming)"]
    by (simp add: once_inv_def split: if_splits)
next
  case (CloserFinishes i s pc pc' s')
  note same = finish_step_same(3,5) [OF CloserFinishes(3)]
  have "(case map_option CloseFinish pc' of None \<Rightarrow> 0 | Some c \<Rightarrow> closer_calling c) = (case pc' of None \<Rightarrow> 0 | Some pc \<Rightarrow> calling pc)"
    by (cases pc') simp_all
  with CloserFinishes same once_finish [OF CloserFinishes(3)] weight_closer_to [of i s' closer_calling "map_option CloseFinish pc'"]
  show ?case by (simp add: once_inv_def split: if_splits)
qed

lemma once_step: "read_step m s s' \<Longrightarrow> once_inv s \<Longrightarrow> once_inv s'"
proof (induction rule: read_step.induct)
  case (Work s s')
  then show ?case
    by (cases rule: work_step.cases) (auto intro: once_reader once_closer, auto simp: once_inv_def elim!: process_stepE)
qed (simp_all add: once_inv_def)

lemma reads_inv:
  assumes "reads_reachable m c input s" "\<not> cr_closing c"
  shows "frames_inv m input s" "stop_inv s" "once_inv s"
proof -
  have start: "frames_inv m input (read_start c input)" "stop_inv (read_start c input)" "once_inv (read_start c input)"
    using assms(2) by (simp_all add: frames_inv_def decodes_def stop_inv_def once_inv_def read_start_def views)
  from assms(1) have "frames_inv m input s \<and> stop_inv s \<and> once_inv s"
    by induction (auto simp only: start intro: frames_step stop_step once_step)
  then show "frames_inv m input s" "stop_inv s" "once_inv s" by simp_all
qed

lemma new_carrier_open: "new_carrier queue_bytes chunk_size = Some c \<Longrightarrow> \<not> cr_closing c"
  by (auto simp: new_carrier_def)

section \<open>What the carrier promises\<close>

lemma one_call:
  assumes "stop_inv s" "once_inv s"
  shows "length (rs_calls s) \<le> 1" "rs_calls s \<noteq> [] \<Longrightarrow> rs_calls s = [cr_preserve_read (rs_carrier s)] \<and> cr_closing (rs_carrier s)"
proof -
  show one: "length (rs_calls s) \<le> 1" using assms(2) by (auto simp: once_inv_def split: if_splits)
  show "rs_calls s = [cr_preserve_read (rs_carrier s)] \<and> cr_closing (rs_carrier s)" if "rs_calls s \<noteq> []"
    using that one stop_invD(7) [OF assms(1)] assms(1) by (cases "rs_calls s") (auto simp: stop_inv_def)
qed

lemma handled_all:
  assumes "new_carrier queue_bytes chunk_size = Some c" "reads_reachable m c input s" "rs_calls s = [True]" "\<not> rs_failed s"
  shows "rs_handled s = rs_read s"
proof -
  note inv = reads_inv [OF assms(2) new_carrier_open [OF assms(1)]]
  have called: "rs_calls s \<noteq> []" and "keeps s" using one_call(2) [OF inv(2,3)] assms(3) by (auto simp: keeps_def preserves_inbound_def)
  then have "past_stop (rs_reader s)" "rs_process s = ProcessGone" using stop_invD(4) [OF inv(2)] by (auto simp: process_gone_def)
  moreover have "rs_lost s = []" using stop_invD(6) [OF inv(2)] \<open>keeps s\<close> assms(4) by auto
  ultimately show ?thesis using inv(1) by (cases "rs_reader s") (simp_all add: frames_inv_def)
qed

text \<open>
  C11. A carrier hands on what it reads. The frames that were read are those the bytes of the connection
  decode to; they are given to the flow in this order, each once, and at most
  the last one is dropped; \<open>onClose\<close> is called at most once, with the flag of whoever ended the carrier; and when the
  peer or a failed write ended it and the flow took every frame, then all that was read was given to
  the flow before \<open>onClose\<close> is called.
\<close>

theorem carrier_hands_on_frames:
  assumes "new_carrier queue_bytes chunk_size = Some c" "reads_reachable m c input s"
  shows "frames.parse_many m (length (rs_read s)) input = Inr (rs_read s, rs_input s) \<and>
    (\<exists>rest. rs_read s = rs_handled s @ rest \<and> length rest \<le> 2 \<and> (rs_process s = ProcessGone \<longrightarrow> length rest \<le> 1)) \<and> length (rs_calls s) \<le> 1 \<and>
    (rs_calls s \<noteq> [] \<longrightarrow> rs_calls s = [cr_preserve_read (rs_carrier s)] \<and> cr_closing (rs_carrier s)) \<and>
    (rs_calls s = [True] \<and> \<not> rs_failed s \<longrightarrow> rs_handled s = rs_read s)"
proof -
  note inv = reads_inv [OF assms(2) new_carrier_open [OF assms(1)]]
  have read: "rs_read s = rs_handled s @ in_hand (rs_process s) @ forwarded (rs_reader s) @ rs_lost s"
    and lost: "rs_lost s \<noteq> [] \<Longrightarrow> left_loop (rs_reader s)" "length (rs_lost s) \<le> 1"
    using inv(1) by (simp_all add: frames_inv_def)
  have "length (forwarded (rs_reader s) @ rs_lost s) \<le> 1" using lost by (cases "rs_reader s") auto
  then have "length (in_hand (rs_process s) @ forwarded (rs_reader s) @ rs_lost s) \<le> 2 \<and>
      (rs_process s = ProcessGone \<longrightarrow> length (in_hand (rs_process s) @ forwarded (rs_reader s) @ rs_lost s) \<le> 1)"
    by (cases "rs_process s") auto
  with read one_call [OF inv(2,3)] handled_all [OF assms] inv(1) show ?thesis by (auto simp: frames_inv_def decodes_def)
qed

context wire_codec
begin

text \<open>Two readings of one stream of bytes: one is the beginning of the other.\<close>

lemma streams_agree:
  "list_all good xs \<Longrightarrow> list_all good ys \<Longrightarrow> concat (map marshal xs) @ as = concat (map marshal ys) @ bs \<Longrightarrow> prefix xs ys \<or> prefix ys xs"
proof (induction xs arbitrary: ys)
  case (Cons x xs)
  show ?case
  proof (cases ys)
    case (Cons y ys')
    with Cons.prems marshal_prefix [of x y "concat (map marshal xs) @ as" "concat (map marshal ys') @ bs"] Cons.IH [of ys']
    show ?thesis by auto
  qed simp
qed simp

end

lemma decodes_bytes: "decodes m input fs rest \<Longrightarrow> list_all (frame_ok m) fs \<and> rd_bytes input = concat (map marshal_frame fs) @ rd_bytes rest"
  using frames.parse_many_sound [of m "length fs" input fs rest] by (simp add: decodes_def)

text \<open>What the decoder made of a stream that was written by a carrier.\<close>

lemma decoded_from_stream:
  assumes "decodes m input fs rest" "rd_bytes input = take n (concat (map marshal_frame ys) @ part)" "list_all (frame_ok m) ys"
    "part \<noteq> [] \<longrightarrow> (\<exists>f k. frame_ok m f \<and> part = take k (marshal_frame f))"
  shows "prefix fs ys \<or> part \<noteq> [] \<and> (\<exists>f. fs = ys @ [f])"
proof -
  have fs: "list_all (frame_ok m) fs" "rd_bytes input = concat (map marshal_frame fs) @ rd_bytes rest"
    using decodes_bytes [OF assms(1)] by simp_all
  obtain more tail where more: "list_all (frame_ok m) more" "part @ tail = concat (map marshal_frame more)" "length more \<le> 1" "part = [] \<longrightarrow> more = []"
  proof (cases "part = []")
    case False
    then obtain f k where "frame_ok m f" "part = take k (marshal_frame f)" using assms(4) by auto
    with False that [of "[f]" "drop k (marshal_frame f)"] show thesis by simp
  qed (use that [of "[]" "[]"] in simp)
  let ?left = "rd_bytes rest @ drop n (concat (map marshal_frame ys) @ part) @ tail"
  have whole: "concat (map marshal_frame fs) @ ?left = concat (map marshal_frame (ys @ more)) @ []"
  proof -
    let ?out = "concat (map marshal_frame ys) @ part"
    have "concat (map marshal_frame fs) @ ?left = (concat (map marshal_frame fs) @ rd_bytes rest) @ drop n ?out @ tail" by (simp only: append_assoc)
    also have "\<dots> = take n ?out @ drop n ?out @ tail" by (simp only: fs(2) [symmetric] assms(2))
    also have "\<dots> = ?out @ tail" by (simp only: append_assoc [symmetric] append_take_drop_id)
    finally show ?thesis using more(2) by simp
  qed
  have "list_all (frame_ok m) (ys @ more)" using assms(3) more(1) by simp
  from frames.streams_agree [OF fs(1) this whole] have "prefix fs (ys @ more)"
  proof
    assume "prefix (ys @ more) fs"
    then obtain zs where zs: "fs = (ys @ more) @ zs" by (auto simp: prefix_def)
    with whole have "concat (map marshal_frame zs) = []" by simp
    then have "zs = []" by (cases zs) (auto simp: marshal_frame_def header_bytes_def)
    with zs show ?thesis by simp
  qed
  then show ?thesis using more(3,4) by (cases more) auto
qed

text \<open>
  C3. A carrier and its peer: whatever part of the bytes one end has written arrives, the other end gives
  its flow only frames that were written, in their order, each once (one more may arrive when the write
  of it was reported as failed); and when all bytes arrive and then the stream ends, every frame that was
  written has been given to the flow before the carrier is removed, unless the flow rejected one or
  this end had closed the carrier itself.
\<close>

theorem carrier_delivers:
  assumes "new_carrier queue_bytes chunk_size = Some cw" "carrier_reachable pool T cn cw w" "pool_ok pool" "c_out cn = []"
    and "new_carrier queue_bytes' chunk_size' = Some c" "reads_reachable m c \<lparr>rd_bytes = take n (c_out (cs_conn w)), rd_err = e\<rparr> s"
    and "unat (clamp_payload m) = MaxPayloadSize"
  shows "(prefix (rs_handled s) (written_frames w) \<or> cs_pc w = Returned \<and> (\<exists>f. rs_handled s = written_frames w @ [f])) \<and>
    (length (c_out (cs_conn w)) \<le> n \<and> rs_ended s \<and> rs_calls s = [True] \<and> \<not> rs_failed s \<longrightarrow> prefix (written_frames w) (rs_handled s))"
proof -
  let ?input = "\<lparr>rd_bytes = take n (c_out (cs_conn w)), rd_err = e\<rparr>"
  have inv: "decodes m ?input (rs_read s) (rs_input s)" "prefix (rs_handled s) (rs_read s)" "rs_ended s \<Longrightarrow> \<exists>e. read_frame m (rs_input s) = Inl e"
    using reads_inv(1) [OF assms(6) new_carrier_open [OF assms(5)]] by (auto simp: frames_inv_def prefix_def)
  have fits: "frame_typed f \<Longrightarrow> validate_frame f = None \<Longrightarrow> frame_ok m f" for f
    using validate_payload [of f] assms(7) by (simp add: frame_ok_def)
  from carrier_reachable_output [OF assms(1-3)] obtain part where
    ys: "list_all (frame_ok m) (written_frames w)" and out: "c_out (cs_conn w) = concat (map marshal_frame (written_frames w)) @ part"
    and part: "part \<noteq> [] \<longrightarrow> cs_pc w = Returned \<and> (\<exists>f k. frame_ok m f \<and> part = take k (marshal_frame f))"
    using assms(4) fits by (auto simp: output_inv_def list_all_iff)
  have "rd_bytes ?input = take n (concat (map marshal_frame (written_frames w)) @ part)" using out by simp
  note read = decoded_from_stream [OF inv(1) this ys]
  have "prefix (rs_read s) (written_frames w) \<or> cs_pc w = Returned \<and> (\<exists>f. rs_read s = written_frames w @ [f])"
    using read part by blast
  with inv(2) have some: "prefix (rs_handled s) (written_frames w) \<or> cs_pc w = Returned \<and> (\<exists>f. rs_handled s = written_frames w @ [f])"
    by (metis prefix_order.trans prefix_snoc)
  have "prefix (written_frames w) (rs_read s)" if "length (c_out (cs_conn w)) \<le> n" "rs_ended s"
  proof (rule ccontr)
    assume short: "\<not> ?thesis"
    with read part have "prefix (rs_read s) (written_frames w)" by (auto simp: prefix_def)
    with short obtain g gs where g: "written_frames w = rs_read s @ g # gs" by (metis prefix_def append_Nil2 list.exhaust prefix_order.refl)
    from decodes_bytes [OF inv(1)] have "rd_bytes ?input = concat (map marshal_frame (rs_read s)) @ rd_bytes (rs_input s)" ..
    with out g that(1) have "rd_bytes (rs_input s) = marshal_frame g @ concat (map marshal_frame gs) @ part" by simp
    then have "rs_input s = \<lparr>rd_bytes = marshal_frame g @ concat (map marshal_frame gs) @ part, rd_err = rd_err (rs_input s)\<rparr>" by simp
    moreover have "frame_ok m g" using ys g by simp
    ultimately show False using inv(3) [OF that(2)] frames.parse_marshal [of m g] by (metis sum.distinct(1))
  qed
  then show ?thesis using some handled_all [OF assms(5,6)] by auto
qed

section \<open>A carrier that stops comes to its end\<close>

fun stage_rank :: "stop_stage \<Rightarrow> nat" where
  "stage_rank NotStopped = 3"
| "stage_rank DoneClosed = 2"
| "stage_rank ConnClosed = 1"
| "stage_rank Stopped = 0"

fun finish_rank :: "finish_pc \<Rightarrow> nat" where
  "finish_rank Claiming = 2"
| "finish_rank (Calling p) = 1"

fun reader_rank :: "reader_pc \<Rightarrow> nat" where
  "reader_rank Decoding = 10"
| "reader_rank (Forwarding f watch) = (if watch then 17 else 16)"
| "reader_rank ReadStop = 9"
| "reader_rank ReadStopWait = 8"
| "reader_rank CloseInbound = 7"
| "reader_rank DropClose = 7"
| "reader_rank AwaitProcess = 6"
| "reader_rank (ReadFinish pc) = 3 + finish_rank pc"
| "reader_rank ReadGone = 0"

fun process_rank :: "process_pc \<Rightarrow> nat" where
  "process_rank (Handling f draining) = 6"
| "process_rank ProcessStop = 5"
| "process_rank ProcessStopWait = 4"
| "process_rank Selecting = 3"
| "process_rank DrainingInbound = 2"
| "process_rank ProcessGone = 0"

fun closer_rank :: "closer_pc \<Rightarrow> nat" where
  "closer_rank CloseStop = 6"
| "closer_rank CloseStopWait = 5"
| "closer_rank CloseCheck = 4"
| "closer_rank (CloseFinish pc) = finish_rank pc"

definition read_rank :: "read_sys \<Rightarrow> nat" where
  "read_rank s = stage_rank (rs_stage s) + reader_rank (rs_reader s) + process_rank (rs_process s) + sum_list (map closer_rank (rs_closers s))"

text \<open>The goroutines have returned, and so have the calls of \<open>Close\<close>.\<close>

definition read_over :: "read_sys \<Rightarrow> bool" where
  "read_over s \<longleftrightarrow> rs_reader s = ReadGone \<and> rs_process s = ProcessGone \<and> rs_closers s = []"

definition advances :: "u32 \<Rightarrow> read_sys \<Rightarrow> bool" where
  "advances m s \<longleftrightarrow> (\<exists>s'. work_step m s s' \<and> read_rank s' < read_rank s \<and> stopping s')"

lemma advancesI: "work_step m s s' \<Longrightarrow> read_rank s' < read_rank s \<Longrightarrow> stopping s' \<Longrightarrow> advances m s"
  by (auto simp: advances_def)

lemma finish_advances:
  assumes "\<not> (pc = Claiming \<and> rs_claimed s \<and> rs_calls s = [])"
  obtains pc' s' where "finish_step pc s pc' s'" "case pc' of None \<Rightarrow> True | Some pc' \<Rightarrow> finish_rank pc' < finish_rank pc"
proof (cases "pc = Claiming \<and> rs_claimed s")
  case True
  with assms have "finish_step pc s None s" by (auto intro: finish_step.Claimed)
  then show thesis by (rule that) simp
next
  case False
  show thesis
  proof (cases pc)
    case Claiming
    with False have "finish_step pc s (Some (Calling (cr_preserve_read (rs_carrier s)))) (s\<lparr>rs_claimed := True\<rparr>)" by (auto intro: finish_step.Claim)
    then show thesis by (rule that) (simp add: Claiming)
  next
    case (Calling p)
    then have "finish_step pc s None (s\<lparr>rs_calls := rs_calls s @ [p]\<rparr>)" by (auto intro: finish_step.Call)
    then show thesis by (rule that) simp
  qed
qed

lemma closer_advances:
  assumes "stop_inv s" "rs_stage s = Stopped" "i < length (rs_closers s)"
    "\<not> (rs_closers s ! i = CloseFinish Claiming \<and> rs_claimed s \<and> rs_calls s = [])"
  shows "advances m s"
proof -
  have stop: "stopping s" using assms(2) by (simp add: stopping_def)
  note w = weight_closer_to [OF assms(3), of closer_rank]
  show ?thesis
  proof (cases "rs_closers s ! i")
    case CloseStop
    have "closer_step s (closer_to i (Some CloseStopWait) s)"
      using closer_step.CloserStops [OF assms(3) CloseStop] by (simp add: enter_stop_again [OF assms(1) stop])
    then show ?thesis by (rule advancesI [OF work_step.Closer]) (use w [of "Some CloseStopWait"] CloseStop stop in \<open>simp_all add: read_rank_def stopping_def\<close>)
  next
    case CloseStopWait
    show ?thesis by (rule advancesI [OF work_step.Closer [OF closer_step.CloserStopped [OF assms(3) CloseStopWait assms(2)]]])
      (use w [of "Some CloseCheck"] CloseStopWait stop in \<open>simp_all add: read_rank_def stopping_def\<close>)
  next
    case CloseCheck
    let ?pc = "if preserves_inbound (rs_carrier s) then None else Some (CloseFinish Claiming)"
    show ?thesis by (rule advancesI [OF work_step.Closer [OF closer_step.CloserChecks [OF assms(3) CloseCheck]]])
      (use w [of ?pc] CloseCheck stop in \<open>auto simp: read_rank_def stopping_def split: if_splits\<close>)
  next
    case (CloseFinish pc)
    with assms(4) finish_advances [of pc s] obtain pc' s' where f: "finish_step pc s pc' s'"
      "case pc' of None \<Rightarrow> True | Some pc' \<Rightarrow> finish_rank pc' < finish_rank pc" by blast
    note same = finish_step_same [OF f(1)]
    have "finish_rank pc > 0" by (cases pc) simp_all
    then show ?thesis using weight_closer_to [of i s' closer_rank "map_option CloseFinish pc'"] f(2) CloseFinish stop assms(3) same
      by (intro advancesI [OF work_step.Closer [OF closer_step.CloserFinishes [OF assms(3) CloseFinish f(1)]]])
        (auto simp: read_rank_def stopping_def split: option.splits)
  qed
qed

text \<open>Someone who waits for the other call of \<open>finishClose\<close> is waiting for someone who can go on.\<close>

lemma caller_advances:
  assumes "stop_inv s" "once_inv s" "rs_stage s = Stopped" "rs_claimed s" "rs_calls s = []" "reader_calling (rs_reader s) = 0"
  shows "advances m s"
proof -
  have "sum_list (map closer_calling (rs_closers s)) = 1" using assms by (simp add: once_inv_def)
  then have "sum_list (map closer_calling (rs_closers s)) \<noteq> 0" by simp
  then obtain pc where "pc \<in> set (rs_closers s)" "closer_calling pc \<noteq> 0" by (auto simp: sum_list_eq_0_iff)
  then obtain i p where "i < length (rs_closers s)" "rs_closers s ! i = CloseFinish (Calling p)"
    by (metis closer_calling.elims calling.elims in_set_conv_nth)
  then show ?thesis using closer_advances [OF assms(1,3)] by simp
qed

lemma reader_advances:
  assumes "stop_inv s" "once_inv s" "rs_stage s = Stopped" "rs_reader s \<noteq> ReadGone"
    and "rs_process s = ProcessGone \<or> rs_process s = DrainingInbound \<and> \<not> rs_inbound_closed s"
  shows "advances m s"
proof -
  have stop: "stopping s" using assms(3) by (simp add: stopping_def)
  have go: "advances m s" if "reader_step m s s'" "read_rank s' < read_rank s" "rs_stage s' = rs_stage s" for s'
    by (rule advancesI [OF work_step.Read [OF that(1)] that(2)]) (use that(3) stop in \<open>simp add: stopping_def\<close>)
  show ?thesis
  proof (cases "rs_reader s")
    case Decoding
    then show ?thesis using assms(3) by (intro go [OF reader_step.DecodeClosed]) (simp_all add: read_rank_def)
  next
    case (Forwarding f watch)
    from assms(5) show ?thesis
    proof
      assume "rs_process s = ProcessGone"
      then show ?thesis using Forwarding by (intro go [OF reader_step.HandGone]) (simp_all add: read_rank_def)
    next
      assume "rs_process s = DrainingInbound \<and> \<not> rs_inbound_closed s"
      then show ?thesis using Forwarding by (intro go [OF reader_step.HandDraining]) (simp_all add: read_rank_def)
    qed
  next
    case ReadStop
    then show ?thesis using enter_stop_again [OF assms(1) stop, of True] reader_step.Stop [OF ReadStop, of m]
      by (intro go [of "s\<lparr>rs_reader := ReadStopWait\<rparr>"]) (simp_all add: read_rank_def)
  next
    case ReadStopWait
    then show ?thesis using assms(3) by (intro go [OF reader_step.StopDone]) (simp_all add: read_rank_def)
  next
    case CloseInbound
    then show ?thesis by (intro go [OF reader_step.Inbound]) (simp_all add: read_rank_def)
  next
    case AwaitProcess
    then show ?thesis using assms(5) stop_invD(1) [OF assms(1)] by (intro go [OF reader_step.Await]) (auto simp: read_rank_def)
  next
    case DropClose
    then show ?thesis by (intro go [OF reader_step.Dropped]) (simp_all add: read_rank_def)
  next
    case (ReadFinish pc)
    show ?thesis
    proof (cases "pc = Claiming \<and> rs_claimed s \<and> rs_calls s = []")
      case True
      then show ?thesis using caller_advances [OF assms(1-3)] ReadFinish by simp
    next
      case False
      then obtain pc' s' where f: "finish_step pc s pc' s'" "case pc' of None \<Rightarrow> True | Some pc' \<Rightarrow> finish_rank pc' < finish_rank pc"
        using finish_advances by blast
      then show ?thesis using finish_step_same [OF f(1)] ReadFinish
        by (intro go [OF reader_step.ReaderFinishes [OF ReadFinish f(1)]]) (auto simp: read_rank_def split: option.splits)
    qed
  qed (use assms(4) in simp)
qed

lemma stopping_advances:
  assumes "stop_inv s" "once_inv s" "stopping s" "\<not> read_over s"
  shows "advances m s"
proof (cases "rs_stage s = Stopped")
  case False
  then show ?thesis using assms(3)
    by (intro advancesI [OF work_step.Stage]) (cases "rs_stage s"; simp add: read_rank_def stopping_def)+
next
  case True
  have go: "advances m s" if "process_step s s'" "read_rank s' < read_rank s" "rs_stage s' = rs_stage s" for s'
    by (rule advancesI [OF work_step.Process [OF that(1)] that(2)]) (use that(3) assms(3) in \<open>simp add: stopping_def\<close>)
  show ?thesis
  proof (cases "rs_process s")
    case Selecting
    then show ?thesis using True by (intro go [OF process_step.SeesDone]) (simp_all add: read_rank_def)
  next
    case DrainingInbound
    show ?thesis
    proof (cases "rs_inbound_closed s")
      case True
      then show ?thesis using DrainingInbound by (intro go [OF process_step.InboundClosed]) (simp_all add: read_rank_def)
    next
      case False
      then have "rs_reader s \<noteq> ReadGone" using stop_invD(1) [OF assms(1)] by auto
      then show ?thesis using reader_advances [OF assms(1,2) True] DrainingInbound False by simp
    qed
  next
    case (Handling f draining)
    then show ?thesis by (intro go [OF process_step.Handled]) (simp_all add: read_rank_def)
  next
    case ProcessStop
    then show ?thesis using enter_stop_again [OF assms(1,3), of False] process_step.ProcessStops [OF ProcessStop]
      by (intro go [of "s\<lparr>rs_process := ProcessStopWait\<rparr>"]) (simp_all add: read_rank_def)
  next
    case ProcessStopWait
    then show ?thesis using True by (intro go [OF process_step.ProcessStopped]) (simp_all add: read_rank_def)
  next
    case ProcessGone
    show ?thesis
    proof (cases "rs_reader s = ReadGone")
      case False
      then show ?thesis using reader_advances [OF assms(1,2) True] ProcessGone by simp
    next
      case gone: True
      with assms(4) ProcessGone have "0 < length (rs_closers s)" by (simp add: read_over_def)
      moreover have "rs_calls s \<noteq> []" using stop_invD(1) [OF assms(1)] gone by simp
      ultimately show ?thesis using closer_advances [OF assms(1) True, of 0] by simp
    qed
  qed
qed

text \<open>
  C12. A carrier that is stopped, by a failed read or write, by the flow or by its owner, comes to its end: from
  every state that can be reached, its goroutines and those that call \<open>Close\<close> can go on by themselves,
  never waiting for each other in a circle, until all have returned, and then \<open>onClose\<close> has been called
  exactly once.
\<close>

theorem stopped_carrier_ends:
  assumes "new_carrier queue_bytes chunk_size = Some c" "reads_reachable m c input s" "cr_closing (rs_carrier s)"
  shows "\<exists>s'. (work_step m)\<^sup>*\<^sup>* s s' \<and> read_over s' \<and> rs_calls s' = [cr_preserve_read (rs_carrier s')]"
proof -
  note inv = reads_inv [OF assms(2) new_carrier_open [OF assms(1)]]
  have "stopping s" using inv(2) assms(3) by (simp add: stop_inv_def)
  with inv(2,3) show ?thesis
  proof (induction "read_rank s" arbitrary: s rule: less_induct)
    case less
    show ?case
    proof (cases "read_over s")
      case True
      then have "rs_calls s \<noteq> []" using stop_invD(1) [OF less(2)] by (simp add: read_over_def)
      then show ?thesis using True one_call(2) [OF less(2,3)] by blast
    next
      case False
      with stopping_advances [OF less(2-4)] obtain t where t: "work_step m s t" "read_rank t < read_rank s" "stopping t"
        by (auto simp: advances_def)
      then have "stop_inv t" "once_inv t" using stop_step once_step read_step.Work less(2,3) by blast+
      from less(1) [OF t(2) this t(3)] t(1) show ?thesis by (meson converse_rtranclp_into_rtranclp)
    qed
  qed
qed

section \<open>A run\<close>

text \<open>The peer sends one frame and closes.\<close>

definition sample_input :: "byte list \<Rightarrow> reader" where
  "sample_input bytes = \<lparr>rd_bytes = bytes, rd_err = EOF\<rparr>"

definition sample_reads :: "reader_pc \<Rightarrow> process_pc \<Rightarrow> stop_stage \<Rightarrow> frame list \<Rightarrow> bool \<Rightarrow> bool \<Rightarrow> bool list \<Rightarrow> read_sys" where
  "sample_reads rpc ppc stage handled inb once calls =
     \<lparr>rs_carrier = (if stage = NotStopped then sample_carrier else stop_carrier True sample_carrier), rs_input = sample_input [], rs_reader = rpc,
      rs_process = ppc, rs_closers = [], rs_stage = stage, rs_inbound_closed = inb, rs_claimed = once, rs_read = [sample_frame],
      rs_handled = handled, rs_lost = [], rs_failed = False, rs_ended = rpc \<notin> {Decoding, Forwarding sample_frame True}, rs_calls = calls\<rparr>"

abbreviation sample_reading :: "read_sys \<Rightarrow> bool" where
  "sample_reading \<equiv> reads_reachable 0 sample_carrier (sample_input (marshal_frame sample_frame))"

lemma read_sample: "read_frame 0 (sample_input (marshal_frame sample_frame)) = Inr (sample_frame, sample_input [])"
proof -
  have "frame_ok 0 sample_frame"
    using sample_frame_ok by (simp add: frame_ok_def) (simp add: sample_frame_def clamp_payload_def MaxPayloadSize_def)
  from frames.parse_marshal [OF this, of "[]" EOF] show ?thesis by (simp add: sample_input_def)
qed

lemma read_nothing: "read_frame 0 (sample_input []) = Inl EOF"
  by (simp add: read_frame_def sample_input_def read_full_def HeaderSize_def)

lemmas by_reader = reads_reachable.Next [OF _ read_step.Work [OF work_step.Read]]
lemmas by_process = reads_reachable.Next [OF _ read_step.Work [OF work_step.Process]]
lemmas by_stage = reads_reachable.Next [OF _ read_step.Work [OF work_step.Stage]]

lemma sample_reads_end: "sample_reading (sample_reads ReadGone ProcessGone Stopped [sample_frame] True True [True])"
proof -
  have "sample_reading (sample_reads (Forwarding sample_frame True) Selecting NotStopped [] False False [])"
    using by_reader [OF reads_reachable.Start reader_step.Decode [of "read_start sample_carrier (sample_input (marshal_frame sample_frame))"]] read_sample
    by (simp add: read_start_def sample_reads_def)
  from by_reader [OF this reader_step.Hand [of _ sample_frame True]]
  have "sample_reading (sample_reads Decoding (Handling sample_frame False) NotStopped [] False False [])" by (simp add: sample_reads_def)
  from by_process [OF this process_step.Handled [of _ sample_frame False]]
  have "sample_reading (sample_reads Decoding Selecting NotStopped [sample_frame] False False [])" by (simp add: sample_reads_def)
  from by_reader [OF this reader_step.DecodeFails] read_nothing
  have "sample_reading (sample_reads ReadStop Selecting NotStopped [sample_frame] False False [])" by (simp add: sample_reads_def)
  from by_reader [OF this reader_step.Stop]
  have "sample_reading (sample_reads ReadStopWait Selecting DoneClosed [sample_frame] False False [])" by (simp add: sample_reads_def enter_stop_def)
  from by_stage [OF this]
  have "sample_reading (sample_reads ReadStopWait Selecting ConnClosed [sample_frame] False False [])" by (simp add: sample_reads_def)
  from by_stage [OF this]
  have "sample_reading (sample_reads ReadStopWait Selecting Stopped [sample_frame] False False [])" by (simp add: sample_reads_def)
  from by_reader [OF this reader_step.StopDone]
  have "sample_reading (sample_reads CloseInbound Selecting Stopped [sample_frame] False False [])" by (simp add: sample_reads_def)
  from by_reader [OF this reader_step.Inbound]
  have "sample_reading (sample_reads AwaitProcess Selecting Stopped [sample_frame] True False [])"
    by (simp add: sample_reads_def preserves_inbound_def stop_carrier_def sample_carrier_def)
  from by_process [OF this process_step.InboundClosed]
  have "sample_reading (sample_reads AwaitProcess ProcessGone Stopped [sample_frame] True False [])" by (simp add: sample_reads_def)
  from by_reader [OF this reader_step.Await]
  have "sample_reading (sample_reads (ReadFinish Claiming) ProcessGone Stopped [sample_frame] True False [])" by (simp add: sample_reads_def)
  from by_reader [OF this reader_step.ReaderFinishes [OF _ finish_step.Claim]]
  have "sample_reading (sample_reads (ReadFinish (Calling True)) ProcessGone Stopped [sample_frame] True True [])"
    by (simp add: sample_reads_def stop_carrier_def sample_carrier_def)
  from by_reader [OF this reader_step.ReaderFinishes [OF _ finish_step.Call]]
  show ?thesis by (simp add: sample_reads_def)
qed

lemma carrier_hands_on_frames_witness: "rs_handled (sample_reads ReadGone ProcessGone Stopped [sample_frame] True True [True]) = [sample_frame]"
  using carrier_hands_on_frames [OF sample_new_carrier sample_reads_end] by (simp add: sample_reads_def)

lemma carrier_delivers_witness:
  "\<exists>w. written_frames w = [sample_frame] \<and> (prefix [sample_frame] (written_frames w) \<or> cs_pc w = Returned \<and> (\<exists>f. [sample_frame] = written_frames w @ [f]))"
proof -
  obtain w where w: "carrier_reachable sample_pool 0 (sample_conn\<lparr>c_out := []\<rparr>) sample_carrier w" "written_frames w = [sample_frame]"
    using sample_written_reachable by blast
  with carrier_reachable_output [OF sample_new_carrier w(1) sample_frame_ok(3)]
  obtain part where "c_out (cs_conn w) = marshal_frame sample_frame @ part" by (auto simp: output_inv_def)
  then have "sample_input (marshal_frame sample_frame) = \<lparr>rd_bytes = take (length (marshal_frame sample_frame)) (c_out (cs_conn w)), rd_err = EOF\<rparr>"
    by (simp add: sample_input_def)
  with sample_reads_end have r: "reads_reachable 0 sample_carrier \<lparr>rd_bytes = take (length (marshal_frame sample_frame)) (c_out (cs_conn w)), rd_err = EOF\<rparr>
      (sample_reads ReadGone ProcessGone Stopped [sample_frame] True True [True])" by simp
  have "unat (clamp_payload 0) = MaxPayloadSize" by (simp add: clamp_payload_def MaxPayloadSize_def)
  from carrier_delivers [OF sample_new_carrier w(1) sample_frame_ok(3) _ sample_new_carrier r this] w(2) show ?thesis
    by (auto simp: sample_reads_def)
qed

lemma stopped_carrier_ends_witness:
  "\<exists>s'. (work_step 0)\<^sup>*\<^sup>* (enter_stop True (read_start sample_carrier (sample_input []))) s' \<and> read_over s' \<and> rs_calls s' = [cr_preserve_read (rs_carrier s')]"
proof -
  have "reads_reachable 0 sample_carrier (sample_input []) (enter_stop True (read_start sample_carrier (sample_input [])))"
    by (rule reads_reachable.Next [OF reads_reachable.Start read_step.WriterStops])
  from stopped_carrier_ends [OF sample_new_carrier this] show ?thesis by (simp add: enter_stop_def)
qed

end
