(* ===== verification/Inbound.thy ===== *)
theory Inbound
  imports Receiver "HOL-Library.Sublist"
begin

text \<open>
  What the carriers of a flow bring in (\<open>enqueueInbound\<close>, \<open>writeEndpoint\<close>, \<open>releaseInbound\<close>,
  \<open>discardInbound\<close>, \<open>detach\<close> and \<open>finishReset\<close> in \<^verbatim>\<open>internal/tcpstream/stream.go\<close>): the process loops of the
  carriers send frames into one bounded channel, a single goroutine takes them out and writes them to the
  endpoint, and the flow ends when its last carrier has gone and nothing is pending. The critical
  sections are the functions of \<open>Flow\<close>; everything between two of them is a step of its own.
\<close>

section \<open>State\<close>

text \<open>
  A process loop in \<open>enqueueInbound\<close>: before the first critical section, at the select (still watching
  whether its carrier is done, or not), after the send, and on the way out without having sent.
\<close>

datatype inbound_pc = EnterInbound cid frame | SendInbound cid frame bool | SentInbound | GiveUpInbound | DropInbound

text \<open>\<open>writeEndpoint\<close>, with \<open>deliverInbound\<close> cut at its critical sections.\<close>

datatype endpoint_pc = WaitInbound | CheckInbound "cid \<times> frame" | DeliverInbound "cid \<times> frame" | AckInbound frame bool | FinishInbound
  | ReleaseInbound "go_error option" | ResetInbound go_error | ResetLast | EndpointGone

text \<open>\<open>finishReset\<close>, run by whoever closed the flow.\<close>

datatype finish_stage = NotFinishing | FinishTake | FinishWait "cid list" bool | FinishDiscard "cid list" bool | FinishRST "cid list"
  | FinishClose "cid list" | FlowDone

text \<open>
  \<open>iq_enqueuing\<close> is \<^verbatim>\<open>inboundEnqueueWG\<close>; \<open>iq_done\<close> are the carriers that stopped, with their flag; \<open>iq_start_fails\<close>
  says that \<open>Start\<close> is about to reset. \<open>iq_accepted\<close> is what was sent into the channel, \<open>iq_delivered\<close> what
  \<open>deliverInbound\<close> was called with, \<open>iq_gave_up\<close> that a carrier's own end made a process loop give up, \<open>iq_rst\<close>
  the carriers that took the reset frame; these are history.
\<close>

record inbound_sys =
  iq_flow :: flow
  iq_out :: deadline_writer
  iq_queue :: "(cid \<times> frame) list"
  iq_enqueuing :: nat
  iq_senders :: "inbound_pc list"
  iq_endpoint :: endpoint_pc
  iq_done :: "cid \<Rightarrow> bool option"
  iq_finish :: finish_stage
  iq_start_fails :: bool
  iq_accepted :: "(cid \<times> frame) list"
  iq_delivered :: "(cid \<times> frame) list"
  iq_gave_up :: bool
  iq_rst :: "cid list"

definition inbound_start :: "flow \<Rightarrow> deadline_writer \<Rightarrow> inbound_sys" where
  "inbound_start fl out =
     \<lparr>iq_flow = fl, iq_out = out, iq_queue = [], iq_enqueuing = 0, iq_senders = [], iq_endpoint = WaitInbound, iq_done = (\<lambda>_. None),
      iq_finish = NotFinishing, iq_start_fails = False, iq_accepted = [], iq_delivered = [], iq_gave_up = False, iq_rst = []\<rparr>"

section \<open>Steps\<close>

definition sender_to :: "inbound_pc \<Rightarrow> inbound_pc list \<Rightarrow> inbound_sys \<Rightarrow> inbound_sys" where
  "sender_to pc pcs s = s\<lparr>iq_senders := pcs @ remove1 pc (iq_senders s)\<rparr>"

inductive enqueue_step :: "inbound_sys \<Rightarrow> inbound_sys \<Rightarrow> bool" where
  Arrive: "enqueue_step s (s\<lparr>iq_senders := EnterInbound c f # iq_senders s\<rparr>)"
| EnterRefused: "EnterInbound c f \<in> set (iq_senders s) \<Longrightarrow> begin_inbound (iq_flow s) = (Some e, fl) \<Longrightarrow>
    enqueue_step s (sender_to (EnterInbound c f) [] s)"
| Enter: "EnterInbound c f \<in> set (iq_senders s) \<Longrightarrow> begin_inbound (iq_flow s) = (None, fl) \<Longrightarrow>
    enqueue_step s (sender_to (EnterInbound c f) [SendInbound c f True] (s\<lparr>iq_flow := fl, iq_enqueuing := iq_enqueuing s + 1\<rparr>))"
| Send: "SendInbound c f watch \<in> set (iq_senders s) \<Longrightarrow> int (length (iq_queue s)) < fl_inbound_capacity (iq_flow s) \<Longrightarrow>
    enqueue_step s (sender_to (SendInbound c f watch) [SentInbound] (s\<lparr>iq_queue := iq_queue s @ [(c, f)], iq_accepted := iq_accepted s @ [(c, f)]\<rparr>))"
| SourceKept: "SendInbound c f True \<in> set (iq_senders s) \<Longrightarrow> iq_done s c = Some True \<Longrightarrow>
    enqueue_step s (sender_to (SendInbound c f True) [SendInbound c f False] s)"
| SourceGone: "SendInbound c f True \<in> set (iq_senders s) \<Longrightarrow> iq_done s c = Some False \<Longrightarrow>
    enqueue_step s (sender_to (SendInbound c f True) [GiveUpInbound] (s\<lparr>iq_gave_up := True\<rparr>))"
| SendStops: "SendInbound c f watch \<in> set (iq_senders s) \<Longrightarrow> fl_closed (iq_flow s) \<Longrightarrow>
    enqueue_step s (sender_to (SendInbound c f watch) [GiveUpInbound] s)"
| Sent: "SentInbound \<in> set (iq_senders s) \<Longrightarrow> enqueue_step s (sender_to SentInbound [] (s\<lparr>iq_enqueuing := iq_enqueuing s - 1\<rparr>))"
| GiveUp: "GiveUpInbound \<in> set (iq_senders s) \<Longrightarrow> enqueue_step s (sender_to GiveUpInbound [DropInbound] (s\<lparr>iq_enqueuing := iq_enqueuing s - 1\<rparr>))"
| Drop: "DropInbound \<in> set (iq_senders s) \<Longrightarrow> release_inbound (iq_flow s) = (ignored, fl) \<Longrightarrow>
    enqueue_step s (sender_to DropInbound [] (s\<lparr>iq_flow := fl\<rparr>))"

text \<open>A call that closes the flow goes on with \<open>finishReset\<close>.\<close>

definition after_claim :: "bool \<times> flow \<Rightarrow> inbound_sys \<Rightarrow> inbound_sys" where
  "after_claim r s = s\<lparr>iq_flow := snd r, iq_finish := (if fst r then FinishTake else iq_finish s)\<rparr>"

inductive endpoint_step :: "inbound_sys \<Rightarrow> inbound_sys \<Rightarrow> bool" where
  Take: "iq_endpoint s = WaitInbound \<Longrightarrow> iq_queue s = item # rest \<Longrightarrow>
    endpoint_step s (s\<lparr>iq_queue := rest, iq_endpoint := CheckInbound item\<rparr>)"
| SeesDone: "iq_endpoint s = WaitInbound \<Longrightarrow> iq_finish s = FlowDone \<Longrightarrow> endpoint_step s (s\<lparr>iq_endpoint := EndpointGone\<rparr>)"
| CheckClosed: "iq_endpoint s = CheckInbound item \<Longrightarrow> fl_closed (iq_flow s) \<Longrightarrow> release_inbound (iq_flow s) = (ignored, fl) \<Longrightarrow>
    endpoint_step s (s\<lparr>iq_flow := fl, iq_endpoint := EndpointGone\<rparr>)"
| CheckOpen: "iq_endpoint s = CheckInbound item \<Longrightarrow> \<not> fl_closed (iq_flow s) \<Longrightarrow> endpoint_step s (s\<lparr>iq_endpoint := DeliverInbound item\<rparr>)"
| Deliver: "iq_endpoint s = DeliverInbound item \<Longrightarrow> deliver_inbound (iq_flow s) (iq_out s) (snd item) = Some (r, fl, out) \<Longrightarrow>
    endpoint_step s (s\<lparr>iq_flow := fl, iq_out := out, iq_delivered := iq_delivered s @ [item],
      iq_endpoint := (case r of Inl e \<Rightarrow> ReleaseInbound (Some e) | Inr (ack, finished) \<Rightarrow> AckInbound ack finished)\<rparr>)"
| Ack: "iq_endpoint s = AckInbound ack finished \<Longrightarrow> record_ack (iq_flow s) ack = (ack', fl) \<Longrightarrow>
    endpoint_step s (s\<lparr>iq_flow := fl, iq_endpoint := (if finished then FinishInbound else ReleaseInbound None)\<rparr>)"
| Finish: "iq_endpoint s = FinishInbound \<Longrightarrow> finish_remote (iq_flow s) = (completed, fl) \<Longrightarrow>
    endpoint_step s ((if completed then after_claim (claim_reset fl None False) s else s\<lparr>iq_flow := fl\<rparr>)\<lparr>iq_endpoint := ReleaseInbound None\<rparr>)"
| Release: "iq_endpoint s = ReleaseInbound err \<Longrightarrow> release_inbound (iq_flow s) = (should_reset, fl) \<Longrightarrow>
    endpoint_step s (s\<lparr>iq_flow := fl, iq_endpoint :=
      (case err of Some e \<Rightarrow> ResetInbound e | None \<Rightarrow> if should_reset then ResetLast else WaitInbound)\<rparr>)"
| Fail: "iq_endpoint s = ResetInbound e \<Longrightarrow>
    endpoint_step s ((after_claim (claim_reset (iq_flow s) (Some e) True) s)\<lparr>iq_endpoint := EndpointGone\<rparr>)"
| Last: "iq_endpoint s = ResetLast \<Longrightarrow>
    endpoint_step s ((after_claim (reset_after_last_carrier (iq_flow s)) s)\<lparr>iq_endpoint := EndpointGone\<rparr>)"

inductive finish_flow_step :: "inbound_sys \<Rightarrow> inbound_sys \<Rightarrow> bool" where
  TakeCarriers: "iq_finish s = FinishTake \<Longrightarrow> finish_reset (iq_flow s) = ((cs, notify), fl) \<Longrightarrow>
    finish_flow_step s (s\<lparr>iq_flow := fl, iq_finish := FinishWait cs notify\<rparr>)"
| Waited: "iq_finish s = FinishWait cs notify \<Longrightarrow> iq_enqueuing s = 0 \<Longrightarrow> finish_flow_step s (s\<lparr>iq_finish := FinishDiscard cs notify\<rparr>)"
| Discard: "iq_finish s = FinishDiscard cs notify \<Longrightarrow> iq_queue s = item # rest \<Longrightarrow> release_inbound (iq_flow s) = (ignored, fl) \<Longrightarrow>
    finish_flow_step s (s\<lparr>iq_flow := fl, iq_queue := rest\<rparr>)"
| Discarded: "iq_finish s = FinishDiscard cs notify \<Longrightarrow> iq_queue s = [] \<Longrightarrow>
    finish_flow_step s (s\<lparr>iq_finish := (if notify \<and> cs \<noteq> [] then FinishRST cs else FinishClose cs)\<rparr>)"
| Tell: "iq_finish s = FinishRST cs \<Longrightarrow> c \<in> set cs \<Longrightarrow> iq_done s c = None \<Longrightarrow>
    finish_flow_step s (s\<lparr>iq_rst := iq_rst s @ [c], iq_finish := FinishClose cs\<rparr>)"
| TellNobody: "iq_finish s = FinishRST cs \<Longrightarrow> finish_flow_step s (s\<lparr>iq_finish := FinishClose cs\<rparr>)"
| CloseAll: "iq_finish s = FinishClose cs \<Longrightarrow>
    finish_flow_step s (s\<lparr>iq_done := (\<lambda>c. if c \<in> set cs \<and> iq_done s c = None then Some False else iq_done s c), iq_finish := FlowDone\<rparr>)"

text \<open>
  The carriers and the other operations of the flow. Those that send, acknowledge or close the local
  side change none of the fields that matter here; a reset is \<open>Reset\<close>.
\<close>

definition inbound_view :: "flow \<Rightarrow> bool \<times> int \<times> bool \<times> cid list \<times> int" where
  "inbound_view fl = (fl_closed fl, fl_pending_inbound fl, fl_started fl, fl_carriers fl, fl_inbound_capacity fl)"

inductive outer_step :: "inbound_sys \<Rightarrow> inbound_sys \<Rightarrow> bool" where
  Attach: "attach_limited (iq_flow s) c max_payload max_carriers = Inr (m, ack, fl) \<Longrightarrow> iq_done s c = None \<Longrightarrow>
    outer_step s (s\<lparr>iq_flow := fl\<rparr>)"
| Start: "start_flow (iq_flow s) = (fails, fl) \<Longrightarrow> outer_step s (s\<lparr>iq_flow := fl, iq_start_fails := fails \<or> iq_start_fails s\<rparr>)"
| StartFails: "iq_start_fails s \<Longrightarrow>
    outer_step s ((after_claim (claim_reset (iq_flow s) (Some ErrNoCarriers) True) s)\<lparr>iq_start_fails := False\<rparr>)"
| CarrierStops: "iq_done s c = None \<Longrightarrow> outer_step s (s\<lparr>iq_done := (iq_done s)(c \<mapsto> preserve)\<rparr>)"
| Detach: "iq_done s c = Some preserve \<Longrightarrow> detach (iq_flow s) c preserve = (skipped, finish, resend, fl) \<Longrightarrow>
    outer_step s (after_claim (finish, fl) s)"
| Reset: "outer_step s (after_claim (claim_reset (iq_flow s) err notify) s)"
| Other: "inbound_view fl = inbound_view (iq_flow s) \<Longrightarrow> outer_step s (s\<lparr>iq_flow := fl\<rparr>)"

inductive inbound_step :: "inbound_sys \<Rightarrow> inbound_sys \<Rightarrow> bool" where
  Enqueue: "enqueue_step s s' \<Longrightarrow> inbound_step s s'"
| Endpoint: "endpoint_step s s' \<Longrightarrow> inbound_step s s'"
| FinishFlow: "finish_flow_step s s' \<Longrightarrow> inbound_step s s'"
| Outer: "outer_step s s' \<Longrightarrow> inbound_step s s'"

inductive inbound_reachable :: "byte list \<Rightarrow> byte \<Rightarrow> flow_config \<Rightarrow> deadline_writer \<Rightarrow> inbound_sys \<Rightarrow> bool" for stream dir cfg out where
  "inbound_reachable stream dir cfg out (inbound_start (new_flow stream dir cfg) out)"
| "inbound_reachable stream dir cfg out s \<Longrightarrow> inbound_step s s' \<Longrightarrow> inbound_reachable stream dir cfg out s'"

section \<open>What the operations do to the flow\<close>

lemma view_of:
  "inbound_view fl' = inbound_view fl \<Longrightarrow> fl_closed fl' = fl_closed fl \<and> fl_pending_inbound fl' = fl_pending_inbound fl \<and>
    fl_started fl' = fl_started fl \<and> fl_carriers fl' = fl_carriers fl \<and> fl_inbound_capacity fl' = fl_inbound_capacity fl"
  by (simp add: inbound_view_def)

lemma deliver_view: "deliver_inbound fl w f = Some (r, fl', w') \<Longrightarrow> inbound_view fl' = inbound_view fl"
  by (auto simp: deliver_inbound_def inbound_view_def split: option.splits sum.splits prod.splits if_splits)

lemma record_ack_view: "record_ack fl f = (f', fl') \<Longrightarrow> inbound_view fl' = inbound_view fl"
  by (auto simp: record_ack_def inbound_view_def Let_def)

lemma finish_remote_view: "finish_remote fl = (c, fl') \<Longrightarrow> inbound_view fl' = inbound_view fl"
  by (auto simp: finish_remote_def inbound_view_def Let_def split: if_splits)

lemma attach_view:
  "attach_limited fl c m n = Inr (m', ack, fl') \<Longrightarrow>
    \<not> fl_closed fl \<and> inbound_view fl' = (False, fl_pending_inbound fl, fl_started fl, fl_carriers fl @ [c], fl_inbound_capacity fl)"
  by (auto simp: attach_limited_def inbound_view_def set_state_def Let_def split: if_splits)

lemma claim_view:
  "inbound_view (snd (claim_reset fl err notify)) = (True, fl_pending_inbound fl, fl_started fl, fl_carriers fl, fl_inbound_capacity fl)"
  "fst (claim_reset fl err notify) = (\<not> fl_closed fl)"
  by (auto simp: claim_reset_def inbound_view_def)

lemma last_view:
  "inbound_view (snd (reset_after_last_carrier fl)) =
    (fl_closed fl \<or> fl_carriers fl = [], fl_pending_inbound fl, fl_started fl, fl_carriers fl, fl_inbound_capacity fl)"
  "fst (reset_after_last_carrier fl) = (\<not> fl_closed fl \<and> fl_carriers fl = [])"
  by (auto simp: reset_after_last_carrier_def claim_after_carriers_def claim_reset_def inbound_view_def)

lemma prune_view: "inbound_view (snd (prune_history fl)) = inbound_view fl"
  by (simp add: prune_history_def inbound_view_def Let_def)

lemma detach_view:
  assumes "detach fl c preserve = (skipped, finish, resend, fl')"
  shows "finish = (fl_started fl \<and> \<not> fl_closed fl \<and> fl_carriers fl' = [] \<and> (\<not> preserve \<or> fl_pending_inbound fl = 0))"
    "inbound_view fl' = (fl_closed fl \<or> finish, fl_pending_inbound fl, fl_started fl, remove1 c (fl_carriers fl), fl_inbound_capacity fl)"
proof -
  let ?gone = "fl\<lparr>fl_carriers := remove1 c (fl_carriers fl), fl_carrier_states := AList.delete c (fl_carrier_states fl)\<rparr>"
  let ?fl = "if c \<in> set (fl_carriers fl) then snd (prune_history ?gone) else fl"
  have view: "inbound_view ?fl = (fl_closed fl, fl_pending_inbound fl, fl_started fl, remove1 c (fl_carriers fl), fl_inbound_capacity fl)"
    using prune_view [of ?gone] by (auto simp: inbound_view_def remove1_idem)
  then show "finish = (fl_started fl \<and> \<not> fl_closed fl \<and> fl_carriers fl' = [] \<and> (\<not> preserve \<or> fl_pending_inbound fl = 0))"
    "inbound_view fl' = (fl_closed fl \<or> finish, fl_pending_inbound fl, fl_started fl, remove1 c (fl_carriers fl), fl_inbound_capacity fl)"
    using assms by (auto simp: detach_def inbound_view_def claim_after_carriers_def claim_reset_def Let_def case_prod_unfold split: if_splits)
qed

lemma release_view:
  "release_inbound fl = (r, fl') \<Longrightarrow> fl_pending_inbound fl > 0 \<Longrightarrow>
    inbound_view fl' = (fl_closed fl, fl_pending_inbound fl - 1, fl_started fl, fl_carriers fl, fl_inbound_capacity fl) \<and>
    r = (fl_started fl \<and> \<not> fl_closed fl \<and> fl_pending_inbound fl = 1 \<and> fl_carriers fl = [])"
  by (auto simp: release_inbound_def inbound_view_def Let_def)

lemma begin_view:
  "begin_inbound fl = (None, fl') \<Longrightarrow>
    \<not> fl_closed fl \<and> inbound_view fl' = (False, fl_pending_inbound fl + 1, fl_started fl, fl_carriers fl, fl_inbound_capacity fl)"
  by (auto simp: begin_inbound_def inbound_view_def split: if_splits)

lemma start_view:
  "start_flow fl = (fails, fl') \<Longrightarrow>
    inbound_view fl' = (fl_closed fl, fl_pending_inbound fl, fl_started fl \<or> \<not> fl_closed fl, fl_carriers fl, fl_inbound_capacity fl) \<and>
    fails = (\<not> fl_started fl \<and> \<not> fl_closed fl \<and> fl_carriers fl = [])"
  by (auto simp: start_flow_def inbound_view_def split: if_splits)

lemma finish_view:
  "finish_reset fl = ((cs, notify), fl') \<Longrightarrow>
    inbound_view fl' = (fl_closed fl, fl_pending_inbound fl, fl_started fl, [], fl_inbound_capacity fl)"
  by (auto simp: finish_reset_def inbound_view_def)

section \<open>Invariants\<close>

fun holds_pending :: "inbound_pc \<Rightarrow> nat" where
  "holds_pending (SendInbound c f watch) = 1"
| "holds_pending GiveUpInbound = 1"
| "holds_pending DropInbound = 1"
| "holds_pending _ = 0"

fun holds_wait :: "inbound_pc \<Rightarrow> nat" where
  "holds_wait (SendInbound c f watch) = 1"
| "holds_wait SentInbound = 1"
| "holds_wait GiveUpInbound = 1"
| "holds_wait _ = 0"

fun leaves :: "inbound_pc \<Rightarrow> bool" where
  "leaves GiveUpInbound = True"
| "leaves DropInbound = True"
| "leaves _ = False"

fun endpoint_holds :: "endpoint_pc \<Rightarrow> nat" where
  "endpoint_holds (CheckInbound item) = 1"
| "endpoint_holds (DeliverInbound item) = 1"
| "endpoint_holds (AckInbound ack finished) = 1"
| "endpoint_holds FinishInbound = 1"
| "endpoint_holds (ReleaseInbound err) = 1"
| "endpoint_holds _ = 0"

text \<open>What the endpoint goroutine has taken out and not yet delivered, and what it is bound to deliver.\<close>

fun undelivered :: "endpoint_pc \<Rightarrow> (cid \<times> frame) list" where
  "undelivered (CheckInbound item) = [item]"
| "undelivered (DeliverInbound item) = [item]"
| "undelivered _ = []"

fun delivering :: "endpoint_pc \<Rightarrow> (cid \<times> frame) list" where
  "delivering (DeliverInbound item) = [item]"
| "delivering _ = []"

fun sealed :: "finish_stage \<Rightarrow> bool" where
  "sealed NotFinishing = False"
| "sealed FinishTake = False"
| "sealed (FinishWait cs notify) = False"
| "sealed _ = True"

fun emptied :: "finish_stage \<Rightarrow> bool" where
  "emptied (FinishDiscard cs notify) = False"
| "emptied stage = sealed stage"

fun will_end :: "endpoint_pc \<Rightarrow> bool" where
  "will_end (ResetInbound e) = True"
| "will_end ResetLast = True"
| "will_end _ = False"

definition pending_inv :: "inbound_sys \<Rightarrow> bool" where
  "pending_inv s \<longleftrightarrow>
     fl_pending_inbound (iq_flow s) = int (sum_list (map holds_pending (iq_senders s)) + length (iq_queue s) + endpoint_holds (iq_endpoint s)) \<and>
     iq_enqueuing s = sum_list (map holds_wait (iq_senders s)) \<and>
     int (length (iq_queue s)) \<le> fl_inbound_capacity (iq_flow s)"

definition fifo_inv :: "inbound_sys \<Rightarrow> bool" where
  "fifo_inv s \<longleftrightarrow> prefix (iq_delivered s @ delivering (iq_endpoint s)) (iq_accepted s) \<and>
     (\<not> fl_closed (iq_flow s) \<longrightarrow> iq_accepted s = iq_delivered s @ undelivered (iq_endpoint s) @ iq_queue s)"

definition closing_inv :: "inbound_sys \<Rightarrow> bool" where
  "closing_inv s \<longleftrightarrow> (fl_closed (iq_flow s) \<longleftrightarrow> iq_finish s \<noteq> NotFinishing) \<and> (sealed (iq_finish s) \<longrightarrow> iq_enqueuing s = 0) \<and>
     (emptied (iq_finish s) \<longrightarrow> iq_queue s = [])"

definition ending_inv :: "inbound_sys \<Rightarrow> bool" where
  "ending_inv s \<longleftrightarrow>
     (iq_gave_up s \<or> fl_closed (iq_flow s) \<or> (\<forall>pc \<in> set (iq_senders s). \<not> leaves pc)) \<and>
     (fl_started (iq_flow s) \<and> \<not> fl_closed (iq_flow s) \<and> fl_carriers (iq_flow s) = [] \<longrightarrow>
       iq_start_fails s \<or> fl_pending_inbound (iq_flow s) > 0 \<or> will_end (iq_endpoint s) \<or> iq_endpoint s = EndpointGone \<or> iq_gave_up s)"

definition inbound_inv :: "inbound_sys \<Rightarrow> bool" where
  "inbound_inv s \<longleftrightarrow> pending_inv s \<and> fifo_inv s \<and> closing_inv s \<and> ending_inv s"

lemmas inbound_inv_defs = inbound_inv_def pending_inv_def fifo_inv_def closing_inv_def ending_inv_def

lemma weight_sender_to:
  fixes w :: "inbound_pc \<Rightarrow> nat"
  assumes "pc \<in> set (iq_senders s)"
  shows "sum_list (map w (iq_senders (sender_to pc pcs s))) + w pc = sum_list (map w pcs) + sum_list (map w (iq_senders s))"
  using sum_list_map_remove1 [OF assms, of w] by (simp add: sender_to_def)

lemma sender_to_same [simp]:
  "iq_flow (sender_to pc pcs s) = iq_flow s" "iq_queue (sender_to pc pcs s) = iq_queue s" "iq_enqueuing (sender_to pc pcs s) = iq_enqueuing s"
  "iq_endpoint (sender_to pc pcs s) = iq_endpoint s" "iq_finish (sender_to pc pcs s) = iq_finish s" "iq_accepted (sender_to pc pcs s) = iq_accepted s"
  "iq_delivered (sender_to pc pcs s) = iq_delivered s" "iq_gave_up (sender_to pc pcs s) = iq_gave_up s" "iq_start_fails (sender_to pc pcs s) = iq_start_fails s"
  by (simp_all add: sender_to_def)

lemma senders_of: "pc' \<in> set (iq_senders (sender_to pc pcs s)) \<Longrightarrow> pc' \<in> set pcs \<or> pc' \<in> set (iq_senders s)"
  by (auto simp: sender_to_def dest: set_remove1_subset [THEN subsetD])

text \<open>A sender that moves on: the counters follow.\<close>

lemma moved_sender:
  assumes "inbound_inv s" "pc \<in> set (iq_senders s)"
    and "iq_senders s' = iq_senders s" "iq_endpoint s' = iq_endpoint s" "iq_finish s' = iq_finish s" "iq_delivered s' = iq_delivered s"
    "iq_start_fails s' = iq_start_fails s" "iq_gave_up s \<longrightarrow> iq_gave_up s'"
    and "inbound_view (iq_flow s') = (fl_closed (iq_flow s), fl_pending_inbound (iq_flow s'), fl_started (iq_flow s), fl_carriers (iq_flow s), fl_inbound_capacity (iq_flow s))"
    and "fl_pending_inbound (iq_flow s') + int (holds_pending pc) + int (length (iq_queue s)) =
      fl_pending_inbound (iq_flow s) + int (sum_list (map holds_pending pcs)) + int (length (iq_queue s'))"
    and "iq_enqueuing s' + holds_wait pc = iq_enqueuing s + sum_list (map holds_wait pcs)"
    and "(\<exists>item. iq_queue s' = iq_queue s @ [item] \<and> iq_accepted s' = iq_accepted s @ [item] \<and> int (length (iq_queue s)) < fl_inbound_capacity (iq_flow s) \<and>
        holds_wait pc = 1) \<or> iq_queue s' = iq_queue s \<and> iq_accepted s' = iq_accepted s"
    and "sum_list (map holds_wait pcs) > holds_wait pc \<longrightarrow> \<not> fl_closed (iq_flow s)"
    and "iq_gave_up s' \<or> fl_closed (iq_flow s) \<or> (\<forall>pc \<in> set pcs. \<not> leaves pc)"
    and "fl_pending_inbound (iq_flow s') \<ge> fl_pending_inbound (iq_flow s) \<or> iq_gave_up s' \<or> fl_closed (iq_flow s)"
  shows "inbound_inv (sender_to pc pcs s')"
proof -
  have pc: "pc \<in> set (iq_senders s')" using assms(2,3) by simp
  note w = weight_sender_to [OF pc, of holds_pending pcs] weight_sender_to [OF pc, of holds_wait pcs]
  have view: "fl_closed (iq_flow s') = fl_closed (iq_flow s)" "fl_started (iq_flow s') = fl_started (iq_flow s)"
    "fl_carriers (iq_flow s') = fl_carriers (iq_flow s)" "fl_inbound_capacity (iq_flow s') = fl_inbound_capacity (iq_flow s)"
    using assms(9) by (simp_all add: inbound_view_def)
  have wait: "holds_wait pc \<le> iq_enqueuing s"
    using assms(1,2) member_le_sum_list [of "holds_wait pc" "map holds_wait (iq_senders s)"] by (simp add: inbound_inv_defs)
  have counted: "fl_pending_inbound (iq_flow s) = int (sum_list (map holds_pending (iq_senders s))) + int (length (iq_queue s)) + int (endpoint_holds (iq_endpoint s))"
    "iq_enqueuing s = sum_list (map holds_wait (iq_senders s))" "int (length (iq_queue s)) \<le> fl_inbound_capacity (iq_flow s)"
    using assms(1) by (simp_all add: inbound_inv_def pending_inv_def)
  have "fl_pending_inbound (iq_flow s') = int (sum_list (map holds_pending (iq_senders (sender_to pc pcs s')))) + int (length (iq_queue s')) + int (endpoint_holds (iq_endpoint s))"
    using counted(1) w(1) assms(10) unfolding assms(3) by linarith
  moreover have "iq_enqueuing s' = sum_list (map holds_wait (iq_senders (sender_to pc pcs s')))"
    using counted(2) w(2) assms(11) unfolding assms(3) by linarith
  moreover have "int (length (iq_queue s')) \<le> fl_inbound_capacity (iq_flow s)" using counted(3) assms(12) by auto
  ultimately have "pending_inv (sender_to pc pcs s')" by (simp add: pending_inv_def view assms(4))
  moreover have "fifo_inv (sender_to pc pcs s')"
  proof -
    have "fifo_inv s" using assms(1) by (simp add: inbound_inv_def)
    with assms(12) show ?thesis
      by (elim disjE exE conjE) (simp_all add: fifo_inv_def view(1) assms(4,6))
  qed
  moreover have "closing_inv (sender_to pc pcs s')"
  proof -
    have c: "closing_inv s" using assms(1) by (simp add: inbound_inv_def)
    then have "sealed (iq_finish s) \<Longrightarrow> fl_closed (iq_flow s) \<and> iq_enqueuing s = 0" by (auto simp: closing_inv_def)
    then have "sealed (iq_finish s) \<Longrightarrow> iq_enqueuing s' = 0 \<and> iq_queue s' = iq_queue s" using assms(11-13) wait by auto
    moreover have "emptied (iq_finish s) \<Longrightarrow> sealed (iq_finish s)" by (cases "iq_finish s") simp_all
    ultimately show ?thesis using c view(1) assms(5) by (auto simp: closing_inv_def)
  qed
  moreover have "ending_inv (sender_to pc pcs s')"
  proof -
    have e: "ending_inv s" using assms(1) by (simp add: inbound_inv_def)
    have "iq_gave_up s' \<or> fl_closed (iq_flow s) \<or> (\<forall>pc \<in> set (iq_senders (sender_to pc pcs s')). \<not> leaves pc)"
      using e assms(3,8,14) by (auto simp: ending_inv_def dest!: senders_of)
    with e show ?thesis using assms(4,7,8,15) view by (auto simp: ending_inv_def)
  qed
  ultimately show ?thesis by (simp add: inbound_inv_def)
qed

lemma enqueue_inv:
  assumes "enqueue_step s s'" "inbound_inv s"
  shows "inbound_inv s'"
  using assms(1)
proof cases
  case (Arrive c f)
  have "pending_inv s" "fifo_inv s" "closing_inv s" "ending_inv s" using assms(2) by (simp_all add: inbound_inv_def)
  then have "pending_inv s'" "fifo_inv s'" "closing_inv s'" "ending_inv s'" unfolding Arrive
    by (simp add: pending_inv_def, simp add: fifo_inv_def, simp add: closing_inv_def, auto simp: ending_inv_def)
  then show ?thesis by (simp add: inbound_inv_def)
next
  case (EnterRefused c f e fl)
  show ?thesis unfolding EnterRefused(1)
    by (rule moved_sender [OF assms(2) EnterRefused(2)]) (simp_all add: inbound_view_def)
next
  case (Enter c f fl)
  note v = begin_view [OF Enter(3)]
  show ?thesis unfolding Enter(1)
    by (rule moved_sender [OF assms(2) Enter(2)]) (use v in \<open>simp_all add: inbound_view_def\<close>)
next
  case (Send c f watch)
  show ?thesis unfolding Send(1)
    by (rule moved_sender [OF assms(2) Send(2)]) (use Send(3) in \<open>simp_all add: inbound_view_def\<close>)
next
  case (SourceKept c f)
  show ?thesis unfolding SourceKept(1)
    by (rule moved_sender [OF assms(2) SourceKept(2)]) (simp_all add: inbound_view_def)
next
  case (SourceGone c f)
  show ?thesis unfolding SourceGone(1)
    by (rule moved_sender [OF assms(2) SourceGone(2)]) (simp_all add: inbound_view_def)
next
  case (SendStops c f watch)
  show ?thesis unfolding SendStops(1)
    by (rule moved_sender [OF assms(2) SendStops(2)]) (use SendStops(3) in \<open>simp_all add: inbound_view_def\<close>)
next
  case Sent
  have "iq_enqueuing s > 0"
    using assms(2) Sent(2) member_le_sum_list [of 1 "map holds_wait (iq_senders s)"] by (force simp: inbound_inv_def pending_inv_def intro: rev_image_eqI)
  then show ?thesis unfolding Sent(1)
    by (intro moved_sender [OF assms(2) Sent(2)]) (simp_all add: inbound_view_def)
next
  case GiveUp
  have "iq_enqueuing s > 0"
    using assms(2) GiveUp(2) member_le_sum_list [of 1 "map holds_wait (iq_senders s)"] by (force simp: inbound_inv_def pending_inv_def intro: rev_image_eqI)
  moreover have "iq_gave_up s \<or> fl_closed (iq_flow s)" using assms(2) GiveUp(2) by (force simp: inbound_inv_def ending_inv_def)
  ultimately show ?thesis unfolding GiveUp(1)
    by (intro moved_sender [OF assms(2) GiveUp(2)]) (auto simp: inbound_view_def)
next
  case (Drop ignored fl)
  have "fl_pending_inbound (iq_flow s) > 0"
    using assms(2) Drop(2) member_le_sum_list [of 1 "map holds_pending (iq_senders s)"] by (force simp: inbound_inv_def pending_inv_def intro: rev_image_eqI)
  note v = release_view [OF Drop(3) this]
  moreover have "iq_gave_up s \<or> fl_closed (iq_flow s)" using assms(2) Drop(2) by (force simp: inbound_inv_def ending_inv_def)
  ultimately show ?thesis unfolding Drop(1)
    by (intro moved_sender [OF assms(2) Drop(2)]) (auto simp: inbound_view_def)
qed

text \<open>A step of anyone else.\<close>

lemma moved_rest:
  assumes "inbound_inv s" "iq_senders s' = iq_senders s" "iq_enqueuing s' = iq_enqueuing s" "iq_gave_up s' = iq_gave_up s"
    "fl_inbound_capacity (iq_flow s') = fl_inbound_capacity (iq_flow s)" "fl_closed (iq_flow s) \<longrightarrow> fl_closed (iq_flow s')"
    and "fl_pending_inbound (iq_flow s') + int (length (iq_queue s)) + int (endpoint_holds (iq_endpoint s)) =
      fl_pending_inbound (iq_flow s) + int (length (iq_queue s')) + int (endpoint_holds (iq_endpoint s'))"
    and "length (iq_queue s') \<le> length (iq_queue s)" "fifo_inv s'" "closing_inv s'"
    and "fl_started (iq_flow s') \<and> \<not> fl_closed (iq_flow s') \<and> fl_carriers (iq_flow s') = [] \<Longrightarrow>
      iq_start_fails s' \<or> fl_pending_inbound (iq_flow s') > 0 \<or> will_end (iq_endpoint s') \<or> iq_endpoint s' = EndpointGone \<or> iq_gave_up s'"
  shows "inbound_inv s'"
proof -
  have inv: "pending_inv s" "ending_inv s" using assms(1) by (simp_all add: inbound_inv_def)
  have "pending_inv s'" using inv(1) assms(7,8) by (simp add: pending_inv_def assms(2,3,5))
  moreover have "ending_inv s'" using inv(2) assms(6,11) unfolding ending_inv_def assms(2,4) by blast
  ultimately show ?thesis using assms(9,10) by (simp add: inbound_inv_def)
qed

lemma emptied_sealed: "emptied stage \<Longrightarrow> sealed stage"
  by (cases stage) simp_all

lemma inbound_invD:
  assumes "inbound_inv s"
  shows "fl_pending_inbound (iq_flow s) = int (sum_list (map holds_pending (iq_senders s)) + length (iq_queue s) + endpoint_holds (iq_endpoint s))"
    "prefix (iq_delivered s @ delivering (iq_endpoint s)) (iq_accepted s)"
    "\<not> fl_closed (iq_flow s) \<Longrightarrow> iq_accepted s = iq_delivered s @ undelivered (iq_endpoint s) @ iq_queue s"
    "fl_closed (iq_flow s) \<longleftrightarrow> iq_finish s \<noteq> NotFinishing" "sealed (iq_finish s) \<Longrightarrow> iq_enqueuing s = 0" "emptied (iq_finish s) \<Longrightarrow> iq_queue s = []"
    "fl_started (iq_flow s) \<Longrightarrow> \<not> fl_closed (iq_flow s) \<Longrightarrow> fl_carriers (iq_flow s) = [] \<Longrightarrow>
       iq_start_fails s \<or> fl_pending_inbound (iq_flow s) > 0 \<or> will_end (iq_endpoint s) \<or> iq_endpoint s = EndpointGone \<or> iq_gave_up s"
    "endpoint_holds (iq_endpoint s) = 1 \<or> iq_queue s \<noteq> [] \<Longrightarrow> fl_pending_inbound (iq_flow s) > 0"
proof -
  note inv = assms [unfolded inbound_inv_def]
  show p: "fl_pending_inbound (iq_flow s) = int (sum_list (map holds_pending (iq_senders s)) + length (iq_queue s) + endpoint_holds (iq_endpoint s))"
    using inv by (simp add: pending_inv_def)
  show "endpoint_holds (iq_endpoint s) = 1 \<or> iq_queue s \<noteq> [] \<Longrightarrow> fl_pending_inbound (iq_flow s) > 0" unfolding p by (cases "iq_queue s") auto
  show "prefix (iq_delivered s @ delivering (iq_endpoint s)) (iq_accepted s)"
    "\<not> fl_closed (iq_flow s) \<Longrightarrow> iq_accepted s = iq_delivered s @ undelivered (iq_endpoint s) @ iq_queue s"
    using inv by (simp_all add: fifo_inv_def)
  show "fl_closed (iq_flow s) \<longleftrightarrow> iq_finish s \<noteq> NotFinishing" "sealed (iq_finish s) \<Longrightarrow> iq_enqueuing s = 0" "emptied (iq_finish s) \<Longrightarrow> iq_queue s = []"
    using inv by (simp_all add: closing_inv_def)
  show "fl_started (iq_flow s) \<Longrightarrow> \<not> fl_closed (iq_flow s) \<Longrightarrow> fl_carriers (iq_flow s) = [] \<Longrightarrow>
       iq_start_fails s \<or> fl_pending_inbound (iq_flow s) > 0 \<or> will_end (iq_endpoint s) \<or> iq_endpoint s = EndpointGone \<or> iq_gave_up s"
    using inv unfolding ending_inv_def by blast
qed

text \<open>A call that may close the flow.\<close>

lemma closing_claim:
  assumes "closing_inv s" "fst r = (\<not> fl_closed (iq_flow s) \<and> fl_closed (snd r))" "fl_closed (iq_flow s) \<longrightarrow> fl_closed (snd r)"
  shows "closing_inv (after_claim r s)"
  using assms by (auto simp: closing_inv_def after_claim_def)

lemma after_claim_same [simp]:
  "iq_flow (after_claim r s) = snd r" "iq_senders (after_claim r s) = iq_senders s" "iq_enqueuing (after_claim r s) = iq_enqueuing s"
  "iq_gave_up (after_claim r s) = iq_gave_up s" "iq_queue (after_claim r s) = iq_queue s" "iq_endpoint (after_claim r s) = iq_endpoint s"
  "iq_accepted (after_claim r s) = iq_accepted s" "iq_delivered (after_claim r s) = iq_delivered s" "iq_start_fails (after_claim r s) = iq_start_fails s"
  by (simp_all add: after_claim_def)

lemma endpoint_inv:
  assumes "endpoint_step s s'" "inbound_inv s"
  shows "inbound_inv s'"
proof -
  note inv = inbound_invD [OF assms(2)]
  have closing: "closing_inv s" using assms(2) by (simp add: inbound_inv_def)
  show ?thesis using assms(1)
  proof cases
    case (Take item rest)
    show ?thesis unfolding Take(1)
      by (rule moved_rest [OF assms(2)]) (use Take(2,3) inv closing in \<open>auto simp: fifo_inv_def closing_inv_def\<close>)
  next
    case SeesDone
    then show ?thesis using inv closing
      by (intro moved_rest [OF assms(2)]) (auto simp: fifo_inv_def closing_inv_def)
  next
    case (CheckClosed item ignored fl)
    have "fl_pending_inbound (iq_flow s) > 0" using inv(8) CheckClosed(2) by simp
    note v = release_view [OF CheckClosed(4) this]
    show ?thesis unfolding CheckClosed(1)
      by (rule moved_rest [OF assms(2)])
        (use v CheckClosed(2,3) inv closing in \<open>auto simp: fifo_inv_def closing_inv_def inbound_view_def dest: append_prefixD\<close>)
  next
    case (CheckOpen item)
    have "prefix (iq_delivered s @ [item]) (iq_accepted s)" using inv(3) CheckOpen(2,3) by simp
    then show ?thesis unfolding CheckOpen(1)
      by (intro moved_rest [OF assms(2)]) (use CheckOpen(2,3) inv closing in \<open>auto simp: fifo_inv_def closing_inv_def\<close>)
  next
    case (Deliver item r fl out)
    note v = view_of [OF deliver_view [OF Deliver(3)]]
    show ?thesis unfolding Deliver(1)
      by (rule moved_rest [OF assms(2)])
        (use v Deliver(2) inv closing in \<open>auto simp: fifo_inv_def closing_inv_def split: sum.split prod.split\<close>)
  next
    case (Ack ack finished ack' fl)
    note v = view_of [OF record_ack_view [OF Ack(3)]]
    show ?thesis unfolding Ack(1)
      by (rule moved_rest [OF assms(2)]) (use v Ack(2) inv closing in \<open>auto simp: fifo_inv_def closing_inv_def\<close>)
  next
    case (Finish completed fl)
    note v = view_of [OF finish_remote_view [OF Finish(3)]]
    note c = claim_view [of fl None False, unfolded inbound_view_def]
    show ?thesis
    proof (cases completed)
      case True
      have "closing_inv (after_claim (claim_reset fl None False) s)" using closing c v by (intro closing_claim) auto
      then show ?thesis unfolding Finish(1)
        by (intro moved_rest [OF assms(2)]) (use True v c Finish(2) inv in \<open>auto simp: fifo_inv_def closing_inv_def\<close>)
    next
      case False
      then show ?thesis unfolding Finish(1)
        by (intro moved_rest [OF assms(2)]) (use False v Finish(2) inv closing in \<open>auto simp: fifo_inv_def closing_inv_def\<close>)
    qed
  next
    case (Release err should_reset fl)
    have "fl_pending_inbound (iq_flow s) > 0" using inv(8) Release(2) by simp
    note v = release_view [OF Release(3) this]
    show ?thesis unfolding Release(1)
      by (rule moved_rest [OF assms(2)])
        (use v Release(2) inv closing in \<open>auto simp: fifo_inv_def closing_inv_def inbound_view_def split: option.split\<close>)
  next
    case (Fail e)
    note c = claim_view [of "iq_flow s" "Some e" True, unfolded inbound_view_def]
    have "closing_inv (after_claim (claim_reset (iq_flow s) (Some e) True) s)" using closing c by (intro closing_claim) auto
    then show ?thesis unfolding Fail(1)
      by (intro moved_rest [OF assms(2)]) (use c Fail(2) inv in \<open>auto simp: fifo_inv_def closing_inv_def\<close>)
  next
    case Last
    note c = last_view [of "iq_flow s", unfolded inbound_view_def]
    have "closing_inv (after_claim (reset_after_last_carrier (iq_flow s)) s)" using closing c by (intro closing_claim) auto
    then show ?thesis unfolding Last(1)
      by (intro moved_rest [OF assms(2)]) (use c Last(2) inv in \<open>auto simp: fifo_inv_def closing_inv_def\<close>)
  qed
qed

lemma finish_flow_inv:
  assumes "finish_flow_step s s'" "inbound_inv s"
  shows "inbound_inv s'"
proof -
  note inv = inbound_invD [OF assms(2)]
  have closing: "closing_inv s" using assms(2) by (simp add: inbound_inv_def)
  show ?thesis using assms(1)
  proof cases
    case (TakeCarriers cs notify fl)
    note v = finish_view [OF TakeCarriers(3)]
    show ?thesis unfolding TakeCarriers(1)
      by (rule moved_rest [OF assms(2)]) (use v TakeCarriers(2) inv closing in \<open>auto simp: fifo_inv_def closing_inv_def inbound_view_def\<close>)
  next
    case (Discard cs notify item rest ignored fl)
    have "fl_pending_inbound (iq_flow s) > 0" using inv(8) Discard(3) by simp
    note v = release_view [OF Discard(4) this]
    show ?thesis unfolding Discard(1)
      by (rule moved_rest [OF assms(2)]) (use v Discard(2,3) inv closing in \<open>auto simp: fifo_inv_def closing_inv_def inbound_view_def\<close>)
  qed (use assms(2) inv closing in \<open>auto intro!: moved_rest [OF assms(2)] simp: fifo_inv_def closing_inv_def\<close>)
qed

lemma outer_inv:
  assumes "outer_step s s'" "inbound_inv s"
  shows "inbound_inv s'"
proof -
  note inv = inbound_invD [OF assms(2)]
  have closing: "closing_inv s" using assms(2) by (simp add: inbound_inv_def)
  show ?thesis using assms(1)
  proof cases
    case (Attach c m n m' ack fl)
    note v = attach_view [OF Attach(2)]
    show ?thesis unfolding Attach(1)
      by (rule moved_rest [OF assms(2)]) (use v inv closing in \<open>auto simp: fifo_inv_def closing_inv_def inbound_view_def\<close>)
  next
    case (Start fails fl)
    note v = start_view [OF Start(2)]
    show ?thesis unfolding Start(1)
      by (rule moved_rest [OF assms(2)]) (use v inv closing in \<open>auto simp: fifo_inv_def closing_inv_def inbound_view_def\<close>)
  next
    case StartFails
    note c = claim_view [of "iq_flow s" "Some ErrNoCarriers" True, unfolded inbound_view_def]
    have "closing_inv (after_claim (claim_reset (iq_flow s) (Some ErrNoCarriers) True) s)" using closing c by (intro closing_claim) auto
    then show ?thesis unfolding StartFails(1)
      by (intro moved_rest [OF assms(2)]) (use c inv in \<open>auto simp: fifo_inv_def closing_inv_def\<close>)
  next
    case (CarrierStops c preserve)
    show ?thesis unfolding CarrierStops(1)
      by (rule moved_rest [OF assms(2)]) (use inv closing in \<open>auto simp: fifo_inv_def closing_inv_def\<close>)
  next
    case (Detach c preserve skipped finish resend fl)
    note v = detach_view [OF Detach(3)]
    have "closing_inv (after_claim (finish, fl) s)" using closing v by (intro closing_claim) (auto simp: inbound_view_def)
    then show ?thesis unfolding Detach(1)
      by (intro moved_rest [OF assms(2)]) (use v inv in \<open>auto simp: fifo_inv_def inbound_view_def\<close>)
  next
    case (Reset err notify)
    note c = claim_view [of "iq_flow s" err notify, unfolded inbound_view_def]
    have "closing_inv (after_claim (claim_reset (iq_flow s) err notify) s)" using closing c by (intro closing_claim) auto
    then show ?thesis unfolding Reset(1)
      by (intro moved_rest [OF assms(2)]) (use c inv in \<open>auto simp: fifo_inv_def closing_inv_def\<close>)
  next
    case (Other fl)
    note v = view_of [OF Other(2)]
    show ?thesis unfolding Other(1)
      by (rule moved_rest [OF assms(2)]) (use v inv closing in \<open>auto simp: fifo_inv_def closing_inv_def\<close>)
  qed
qed

lemma reachable_inbound_inv:
  assumes "inbound_reachable stream dir cfg out s"
  shows "inbound_inv s"
  using assms
proof induction
  case 1
  have "0 \<le> inbound_queue_capacity window" for window by (simp add: inbound_queue_capacity_def Let_def MaxReorderSegments_def)
  then show ?case by (simp add: inbound_inv_defs inbound_start_def new_flow_def)
next
  case (2 s s')
  from 2(2) show ?case by cases (use 2(3) in \<open>auto intro: enqueue_inv endpoint_inv finish_flow_inv outer_inv\<close>)
qed

section \<open>What the inbound queue promises\<close>

text \<open>
  C10. No inbound frame is miscounted or overtaken, in every interleaving of the carriers, the endpoint
  goroutine and the end of the flow: the number of pending frames is exactly those that are being sent,
  wait in the channel or are being written; the channel keeps its bound; the frames are delivered to the
  endpoint in the order in which they were taken in, each once, and as long as the flow is open all that
  was taken in is delivered, in hand or waiting; and when the flow is done nobody is left in the channel.
\<close>

theorem inbound_accounted:
  assumes "inbound_reachable stream dir cfg out s"
  shows "fl_pending_inbound (iq_flow s) =
      int (sum_list (map holds_pending (iq_senders s)) + length (iq_queue s) + endpoint_holds (iq_endpoint s)) \<and>
    int (length (iq_queue s)) \<le> fl_inbound_capacity (iq_flow s) \<and> prefix (iq_delivered s) (iq_accepted s) \<and>
    (\<not> fl_closed (iq_flow s) \<longrightarrow> iq_accepted s = iq_delivered s @ undelivered (iq_endpoint s) @ iq_queue s) \<and>
    (iq_finish s = FlowDone \<longrightarrow> iq_queue s = [] \<and> (\<forall>pc \<in> set (iq_senders s). holds_wait pc = 0))"
proof -
  have inv: "inbound_inv s" by (rule reachable_inbound_inv [OF assms])
  note d = inbound_invD [OF inv]
  have wait: "iq_enqueuing s = sum_list (map holds_wait (iq_senders s))" and "int (length (iq_queue s)) \<le> fl_inbound_capacity (iq_flow s)"
    using inv by (simp_all add: inbound_inv_def pending_inv_def)
  moreover have "iq_finish s = FlowDone \<longrightarrow> iq_queue s = [] \<and> (\<forall>pc \<in> set (iq_senders s). holds_wait pc = 0)"
    using d(5,6) wait by auto
  ultimately show ?thesis using d(1-3) by (auto dest: append_prefixD)
qed


section \<open>Two ways to get stuck\<close>

definition idle_state :: carrier_state where
  "idle_state = \<lparr>st_next_sequence = 0, st_in_flight = None, st_written = None, st_written_offset = 0, st_written_fin = False\<rparr>"

text \<open>A flow with idle carriers.\<close>

definition sample_carriers :: "cid list \<Rightarrow> bool \<Rightarrow> int \<Rightarrow> flow" where
  "sample_carriers cs started pending =
     sample_flow\<lparr>fl_carriers := cs, fl_carrier_states := map (\<lambda>c. (c, idle_state)) cs, fl_started := started, fl_pending_inbound := pending\<rparr>"

lemmas sample_flow_defs = sample_carriers_def sample_flow_def new_flow_def sample_config_def

lemma sample_none: "sample_flow = sample_carriers [] False 0"
  by (simp add: sample_flow_defs)

lemma sample_inbound_attach: "c \<notin> set cs \<Longrightarrow> attach_limited (sample_carriers cs b n) c 0 0 = Inr (MaxPayload32, None, sample_carriers (cs @ [c]) b n)"
  by (induction cs) (simp_all add: attach_limited_def set_state_def sample_flow_defs idle_state_def Let_def)

lemma sample_begin: "begin_inbound (sample_carriers cs b n) = (None, sample_carriers cs b (n + 1))"
  by (simp add: begin_inbound_def sample_flow_defs)

lemma sample_start: "cs \<noteq> [] \<Longrightarrow> start_flow (sample_carriers cs False n) = (False, sample_carriers cs True n)"
  by (simp add: start_flow_def sample_flow_defs)

lemma sample_detach:
  "detach (sample_carriers [1] True 1) 1 True = ([], False, None, sample_carriers [] True 1)"
  "detach (sample_carriers [1, 2] True 1) 1 False = ([], False, None, sample_carriers [2] True 1)"
  "detach (sample_carriers [2] True 1) 2 True = ([], False, None, sample_carriers [] True 1)"
  by (simp_all add: detach_def prune_history_def claim_after_carriers_def claim_reset_def sample_flow_defs Let_def)

lemma sample_view: "inbound_view (sample_carriers cs b n) = (False, n, b, cs, 1)"
  by (simp add: inbound_view_def sample_flow_defs inbound_queue_capacity_def MaxPayloadSize_def MaxReorderSegments_def)

definition sample_arrival :: "cid \<times> frame" where
  "sample_arrival = (1, sample_stream_frame FrameData 0 [1])"

lemma sample_deliver:
  "\<exists>ack fl out. deliver_inbound (sample_carriers [] True 1) sample_endpoint (snd sample_arrival) = Some (Inr (ack, False), fl, out)"
  by (simp add: evaluate sample_carriers_def sample_arrival_def)

definition sample_inbound :: "flow \<Rightarrow> inbound_pc list \<Rightarrow> (cid \<times> frame) list \<Rightarrow> endpoint_pc \<Rightarrow> (cid \<Rightarrow> bool option) \<Rightarrow> inbound_sys" where
  "sample_inbound fl senders queue endpoint done =
     (inbound_start fl sample_endpoint)\<lparr>iq_queue := queue, iq_enqueuing := sum_list (map holds_wait senders), iq_senders := senders,
       iq_endpoint := endpoint, iq_done := done, iq_accepted := queue @ undelivered endpoint\<rparr>"

abbreviation sample_inbound_reaches :: "inbound_sys \<Rightarrow> bool" where
  "sample_inbound_reaches \<equiv> inbound_reachable (replicate 16 7) DirectionServerToClient sample_config sample_endpoint"

lemmas by_enqueue = inbound_reachable.intros(2) [OF _ inbound_step.Enqueue]
lemmas by_endpoint = inbound_reachable.intros(2) [OF _ inbound_step.Endpoint]
lemmas by_outer = inbound_reachable.intros(2) [OF _ inbound_step.Outer]
lemmas sample_inbound_defs = sample_inbound_def inbound_start_def sender_to_def after_claim_def

lemma sample_inbound_attached: "sample_inbound_reaches (sample_inbound (sample_carriers [1] False 0) [] [] WaitInbound (\<lambda>_. None))"
proof -
  have "sample_inbound_reaches (sample_inbound (sample_carriers [] False 0) [] [] WaitInbound (\<lambda>_. None))"
    using inbound_reachable.intros(1) [of "replicate 16 7" DirectionServerToClient sample_config sample_endpoint]
    by (simp add: sample_inbound_defs flip: sample_none sample_flow_def)
  from by_outer [OF this outer_step.Attach [OF _ , of _ 1 0 0]] show ?thesis
    by (simp add: sample_inbound_defs sample_inbound_attach)
qed


lemma sample_sent: "sample_inbound_reaches (sample_inbound (sample_carriers [1] True 1) [] [] (DeliverInbound sample_arrival) (\<lambda>_. None))"
proof -
  let ?f = "sample_stream_frame FrameData 0 [1]"
  from by_outer [OF sample_inbound_attached outer_step.Start [of _ False]] have "sample_inbound_reaches (sample_inbound (sample_carriers [1] True 0) [] [] WaitInbound (\<lambda>_. None))"
    by (simp add: sample_inbound_defs sample_start)
  from by_enqueue [OF this enqueue_step.Arrive [of _ 1 ?f]]
  have "sample_inbound_reaches (sample_inbound (sample_carriers [1] True 0) [EnterInbound 1 ?f] [] WaitInbound (\<lambda>_. None))"
    by (simp add: sample_inbound_defs)
  from by_enqueue [OF this enqueue_step.Enter [of 1 ?f]]
  have "sample_inbound_reaches (sample_inbound (sample_carriers [1] True 1) [SendInbound 1 ?f True] [] WaitInbound (\<lambda>_. None))"
    by (simp add: sample_inbound_defs sample_begin)
  from by_enqueue [OF this enqueue_step.Send [of 1 ?f True]] sample_view [of "[1]" True 1]
  have "sample_inbound_reaches (sample_inbound (sample_carriers [1] True 1) [SentInbound] [sample_arrival] WaitInbound (\<lambda>_. None))"
    by (simp add: sample_inbound_defs sample_arrival_def inbound_view_def)
  from by_enqueue [OF this enqueue_step.Sent]
  have "sample_inbound_reaches (sample_inbound (sample_carriers [1] True 1) [] [sample_arrival] WaitInbound (\<lambda>_. None))"
    by (simp add: sample_inbound_defs)
  from by_endpoint [OF this endpoint_step.Take [of _ sample_arrival "[]"]]
  have "sample_inbound_reaches (sample_inbound (sample_carriers [1] True 1) [] [] (CheckInbound sample_arrival) (\<lambda>_. None))"
    by (simp add: sample_inbound_defs)
  from by_endpoint [OF this endpoint_step.CheckOpen [of _ sample_arrival]] sample_view [of "[1]" True 1]
  show ?thesis by (simp add: sample_inbound_defs inbound_view_def)
qed

text \<open>The carrier ends, the frame is delivered, a new carrier comes and only then the endpoint goroutine looks.\<close>

lemma sample_quit:
  "\<exists>s. sample_inbound_reaches s \<and> inbound_view (iq_flow s) = (False, 0, True, [2], 1) \<and> iq_endpoint s = EndpointGone"
proof -
  let ?done = "(\<lambda>_. None)(1 \<mapsto> True) :: cid \<Rightarrow> bool option"
  from by_outer [OF sample_sent outer_step.CarrierStops [of _ 1 True]]
  have "sample_inbound_reaches (sample_inbound (sample_carriers [1] True 1) [] [] (DeliverInbound sample_arrival) ?done)"
    by (simp add: sample_inbound_defs)
  from by_outer [OF this outer_step.Detach [of _ 1 True "[]" False None]] sample_detach(1)
  have r: "sample_inbound_reaches (sample_inbound (sample_carriers [] True 1) [] [] (DeliverInbound sample_arrival) ?done)"
    by (simp add: sample_inbound_defs)
  obtain ack fl out where d: "deliver_inbound (sample_carriers [] True 1) sample_endpoint (snd sample_arrival) = Some (Inr (ack, False), fl, out)"
    using sample_deliver by blast
  have v: "inbound_view fl = (False, 1, True, [], 1)" using deliver_view [OF d] by (simp add: sample_view)
  have "\<exists>s. sample_inbound_reaches s \<and> iq_flow s = fl \<and> iq_endpoint s = AckInbound ack False \<and> iq_done s = ?done"
    using by_endpoint [OF r endpoint_step.Deliver [of _ sample_arrival]] d by (intro exI conjI) (auto simp: sample_inbound_defs)
  then obtain s1 where s1: "sample_inbound_reaches s1" "iq_flow s1 = fl" "iq_endpoint s1 = AckInbound ack False" "iq_done s1 = ?done" by blast
  obtain ack' fl2 where a: "record_ack fl ack = (ack', fl2)" by fastforce
  have v2: "inbound_view fl2 = (False, 1, True, [], 1)" using record_ack_view [OF a] v by simp
  let ?s2 = "s1\<lparr>iq_flow := fl2, iq_endpoint := ReleaseInbound None\<rparr>"
  have s2: "sample_inbound_reaches ?s2" using by_endpoint [OF s1(1) endpoint_step.Ack [OF s1(3)]] a s1(2) by simp
  obtain last fl3 where l: "release_inbound fl2 = (last, fl3)" by fastforce
  then have v3: "inbound_view fl3 = (False, 0, True, [], 1)" and last using release_view [OF l] v2 by (auto simp: inbound_view_def)
  let ?s3 = "?s2\<lparr>iq_flow := fl3, iq_endpoint := ResetLast\<rparr>"
  have s3: "sample_inbound_reaches ?s3" using by_endpoint [OF s2 endpoint_step.Release [of _ None last fl3]] l \<open>last\<close> by simp
  obtain m ack4 fl4 where at: "attach_limited fl3 2 0 0 = Inr (m, ack4, fl4)"
    using v3 by (auto simp: attach_limited_def inbound_view_def Let_def)
  then have v4: "inbound_view fl4 = (False, 0, True, [2], 1)" using attach_view [OF at] v3 by (simp add: inbound_view_def)
  let ?s4 = "?s3\<lparr>iq_flow := fl4\<rparr>"
  have s4: "sample_inbound_reaches ?s4" using by_outer [OF s3 outer_step.Attach [of _ 2 0 0 m ack4 fl4]] at s1(4) by simp
  let ?s5 = "(after_claim (reset_after_last_carrier fl4) ?s4)\<lparr>iq_endpoint := EndpointGone\<rparr>"
  have "sample_inbound_reaches ?s5" using by_endpoint [OF s4 endpoint_step.Last] by simp
  moreover have "inbound_view (iq_flow ?s5) = (False, 0, True, [2], 1)" using last_view(1) [of fl4] v4 by (simp add: inbound_view_def)
  ultimately show ?thesis by (intro exI [of _ ?s5]) simp
qed

lemma gone_stays:
  assumes "inbound_step s s'" "iq_endpoint s = EndpointGone"
  shows "iq_endpoint s' = EndpointGone \<and> iq_delivered s' = iq_delivered s"
  using assms(1)
proof cases
  case Enqueue
  then show ?thesis by (cases rule: enqueue_step.cases) (use assms(2) in simp_all)
next
  case Endpoint
  then show ?thesis by (cases rule: endpoint_step.cases) (use assms(2) in simp_all)
next
  case FinishFlow
  then show ?thesis by (cases rule: finish_flow_step.cases) (use assms(2) in simp_all)
next
  case Outer
  then show ?thesis by (cases rule: outer_step.cases) (use assms(2) in simp_all)
qed

text \<open>
  C40. A carrier that replaces the last one just in time is never listened to. When the endpoint
  goroutine has delivered the last pending frame of a flow without carriers, it decides to end the flow,
  and then leaves for good, even when \<open>resetAfterLastCarrier\<close> finds that a new carrier has been attached in
  between and ends nothing: there is a run after which the flow is open, started and has a carrier, and
  nothing that this or any other carrier brings will ever be delivered.
\<close>

theorem replaced_carrier_unheard:
  "\<exists>s. inbound_reachable (replicate 16 7) DirectionServerToClient sample_config sample_endpoint s \<and>
     fl_started (iq_flow s) \<and> \<not> fl_closed (iq_flow s) \<and> fl_carriers (iq_flow s) = [2] \<and>
     {iq_delivered s' |s'. inbound_step\<^sup>*\<^sup>* s s'} = {iq_delivered s}"
proof -
  obtain s where s: "sample_inbound_reaches s" "inbound_view (iq_flow s) = (False, 0, True, [2], 1)" "iq_endpoint s = EndpointGone"
    using sample_quit by blast
  have "iq_endpoint s' = EndpointGone \<and> iq_delivered s' = iq_delivered s" if "inbound_step\<^sup>*\<^sup>* s s'" for s'
    using that
  proof induction
    case (step t u)
    then show ?case using gone_stays [of t u] by simp
  qed (simp add: s(3))
  hence "{iq_delivered s' |s'. inbound_step\<^sup>*\<^sup>* s s'} = {iq_delivered s}" by blast
  moreover have "fl_started (iq_flow s)" "\<not> fl_closed (iq_flow s)" "fl_carriers (iq_flow s) = [2]" using s(2) by (simp_all add: inbound_view_def)
  ultimately show ?thesis using s(1) by blast
qed

text \<open>
  A flow can outlive its last carrier with nobody left to end it. A process loop that gives up because
  its own carrier was closed ignores the result of \<open>releaseInbound\<close>; when it held the last pending frame
  and the other carrier had ended before, neither \<open>detach\<close> nor anyone else ends the flow: there is a run
  after which the flow is started and open, has no carrier and nothing pending, no goroutine is on its
  way to end it, and only a call from outside can.
\<close>

theorem last_release_ignored:
  "\<exists>s. inbound_reachable (replicate 16 7) DirectionServerToClient sample_config sample_endpoint s \<and>
     fl_started (iq_flow s) \<and> \<not> fl_closed (iq_flow s) \<and> fl_carriers (iq_flow s) = [] \<and> fl_pending_inbound (iq_flow s) = 0 \<and>
     iq_senders s = [] \<and> iq_queue s = [] \<and> iq_endpoint s = WaitInbound \<and> \<not> iq_start_fails s \<and> iq_finish s = NotFinishing"
proof -
  let ?f = "sample_stream_frame FrameData 0 [1]"
  let ?done = "(\<lambda>_. None)(1 \<mapsto> False) :: cid \<Rightarrow> bool option"
  let ?both = "?done(2 \<mapsto> True)"
  let ?s = "\<lambda>fl senders done. (sample_inbound fl senders [] WaitInbound done)\<lparr>iq_gave_up := True\<rparr>"
  from by_outer [OF sample_inbound_attached outer_step.Attach [OF _, of _ 2 0 0]]
  have "sample_inbound_reaches (sample_inbound (sample_carriers [1, 2] False 0) [] [] WaitInbound (\<lambda>_. None))"
    by (simp add: sample_inbound_defs sample_inbound_attach)
  from by_outer [OF this outer_step.Start [of _ False]]
  have "sample_inbound_reaches (sample_inbound (sample_carriers [1, 2] True 0) [] [] WaitInbound (\<lambda>_. None))"
    by (simp add: sample_inbound_defs sample_start)
  from by_enqueue [OF this enqueue_step.Arrive [of _ 1 ?f]]
  have "sample_inbound_reaches (sample_inbound (sample_carriers [1, 2] True 0) [EnterInbound 1 ?f] [] WaitInbound (\<lambda>_. None))"
    by (simp add: sample_inbound_defs)
  from by_enqueue [OF this enqueue_step.Enter [of 1 ?f]]
  have "sample_inbound_reaches (sample_inbound (sample_carriers [1, 2] True 1) [SendInbound 1 ?f True] [] WaitInbound (\<lambda>_. None))"
    by (simp add: sample_inbound_defs sample_begin)
  from by_outer [OF this outer_step.CarrierStops [of _ 1 False]]
  have "sample_inbound_reaches (sample_inbound (sample_carriers [1, 2] True 1) [SendInbound 1 ?f True] [] WaitInbound ?done)"
    by (simp add: sample_inbound_defs)
  from by_enqueue [OF this enqueue_step.SourceGone [of 1 ?f]]
  have "sample_inbound_reaches (?s (sample_carriers [1, 2] True 1) [GiveUpInbound] ?done)" by (simp add: sample_inbound_defs)
  from by_enqueue [OF this enqueue_step.GiveUp]
  have "sample_inbound_reaches (?s (sample_carriers [1, 2] True 1) [DropInbound] ?done)" by (simp add: sample_inbound_defs)
  from by_outer [OF this outer_step.Detach [of _ 1 False "[]" False None]] sample_detach(2)
  have "sample_inbound_reaches (?s (sample_carriers [2] True 1) [DropInbound] ?done)" by (simp add: sample_inbound_defs)
  from by_outer [OF this outer_step.CarrierStops [of _ 2 True]]
  have "sample_inbound_reaches (?s (sample_carriers [2] True 1) [DropInbound] ?both)" by (simp add: sample_inbound_defs)
  from by_outer [OF this outer_step.Detach [of _ 2 True "[]" False None]] sample_detach(3)
  have r: "sample_inbound_reaches (?s (sample_carriers [] True 1) [DropInbound] ?both)" by (simp add: sample_inbound_defs)
  obtain ignored fl where l: "release_inbound (sample_carriers [] True 1) = (ignored, fl)" by fastforce
  then have v: "inbound_view fl = (False, 0, True, [], 1)"
    using release_view [OF l] sample_view [of "[]" True 1] by (simp add: inbound_view_def)
  from by_enqueue [OF r enqueue_step.Drop [of _ ignored fl]] l
  have "sample_inbound_reaches (?s fl [] ?both)" by (simp add: sample_inbound_defs)
  then show ?thesis using v by (intro exI [of _ "?s fl [] ?both"]) (simp add: sample_inbound_defs inbound_view_def)
qed

lemma inbound_accounted_witness:
  "int (length (iq_queue (sample_inbound (sample_carriers [1] True 1) [] [] (DeliverInbound sample_arrival) (\<lambda>_. None)))) \<le>
     fl_inbound_capacity (iq_flow (sample_inbound (sample_carriers [1] True 1) [] [] (DeliverInbound sample_arrival) (\<lambda>_. None)))"
  using inbound_accounted [OF sample_sent] by blast


end
