(* ===== verification/Sha256.thy ===== *)
theory Sha256
  imports Prelude
begin

unbundle bit_operations_syntax

text \<open>
  SHA-256 and HMAC (\<^verbatim>\<open>crypto/sha256\<close>, \<^verbatim>\<open>crypto/hmac\<close> of Go's standard library), as FIPS 180-4 and
  RFC 2104 define them, on 32-bit words. The proofs about the handshake use one fact only: a sum has 32 bytes.
\<close>

text \<open>Two words of 32 bits out of one of 64, the higher half first.\<close>

definition halves :: "u64 \<Rightarrow> u32 list" where
  "halves x = [ucast (drop_bit 32 x), ucast x]"

definition sha256_constants :: "u32 list" where
  "sha256_constants = concat (map halves [
     0x428a2f9871374491, 0xb5c0fbcfe9b5dba5, 0x3956c25b59f111f1, 0x923f82a4ab1c5ed5,
     0xd807aa9812835b01, 0x243185be550c7dc3, 0x72be5d7480deb1fe, 0x9bdc06a7c19bf174,
     0xe49b69c1efbe4786, 0x0fc19dc6240ca1cc, 0x2de92c6f4a7484aa, 0x5cb0a9dc76f988da,
     0x983e5152a831c66d, 0xb00327c8bf597fc7, 0xc6e00bf3d5a79147, 0x06ca635114292967,
     0x27b70a852e1b2138, 0x4d2c6dfc53380d13, 0x650a7354766a0abb, 0x81c2c92e92722c85,
     0xa2bfe8a1a81a664b, 0xc24b8b70c76c51a3, 0xd192e819d6990624, 0xf40e3585106aa070,
     0x19a4c1161e376c08, 0x2748774c34b0bcb5, 0x391c0cb34ed8aa4a, 0x5b9cca4f682e6ff3,
     0x748f82ee78a5636f, 0x84c878148cc70208, 0x90befffaa4506ceb, 0xbef9a3f7c67178f2])"

definition sha256_start :: "u32 list" where
  "sha256_start = concat (map halves [0x6a09e667bb67ae85, 0x3c6ef372a54ff53a,
     0x510e527f9b05688c, 0x1f83d9ab5be0cd19])"

definition rotr :: "nat \<Rightarrow> u32 \<Rightarrow> u32" where
  "rotr n x = drop_bit n x OR push_bit (32 - n) x"

text \<open>The padding: a one bit, zeros, and the length in bits, up to a multiple of 64 bytes.\<close>

definition sha256_pad :: "byte list \<Rightarrow> byte list" where
  "sha256_pad msg = msg @ [0x80] @ replicate ((119 - length msg mod 64) mod 64) 0 @
     put_u64 (word_of_nat (8 * length msg))"

text \<open>The message schedule, the latest word first.\<close>

fun sha256_extend :: "nat \<Rightarrow> u32 list \<Rightarrow> u32 list" where
  "sha256_extend 0 ws = ws"
| "sha256_extend (Suc n) ws =
     (let w2 = ws ! 1; w7 = ws ! 6; w15 = ws ! 14; w16 = ws ! 15;
          s0 = rotr 7 w15 XOR rotr 18 w15 XOR drop_bit 3 w15;
          s1 = rotr 17 w2 XOR rotr 19 w2 XOR drop_bit 10 w2
      in sha256_extend n ((w16 + s0 + w7 + s1) # ws))"

fun sha256_words :: "byte list \<Rightarrow> u32 list" where
  "sha256_words (a # b # c # d # rest) = get_u32 [a, b, c, d] # sha256_words rest"
| "sha256_words _ = []"

fun sha256_round :: "u32 list \<Rightarrow> u32 \<times> u32 \<Rightarrow> u32 list" where
  "sha256_round [a, b, c, d, e, f, g, h] (k, w) =
     (let s1 = rotr 6 e XOR rotr 11 e XOR rotr 25 e;
          ch = (e AND f) XOR (NOT e AND g);
          t1 = h + s1 + ch + k + w;
          s0 = rotr 2 a XOR rotr 13 a XOR rotr 22 a;
          maj = (a AND b) XOR (a AND c) XOR (b AND c)
      in [t1 + s0 + maj, a, b, c, d + t1, e, f, g])"
| "sha256_round st _ = st"

definition sha256_block :: "u32 list \<Rightarrow> byte list \<Rightarrow> u32 list" where
  "sha256_block st block =
     map2 (+) st (foldl sha256_round st
       (zip sha256_constants (rev (sha256_extend 48 (rev (sha256_words block))))))"

fun sha256_blocks :: "u32 list \<Rightarrow> nat \<Rightarrow> byte list \<Rightarrow> u32 list" where
  "sha256_blocks st 0 msg = st"
| "sha256_blocks st (Suc n) msg = sha256_blocks (sha256_block st (take 64 msg)) n (drop 64 msg)"

definition sha256 :: "byte list \<Rightarrow> byte list" where
  "sha256 msg = (let m = sha256_pad msg in concat (map put_u32 (sha256_blocks sha256_start (length m div 64) m)))"

definition hmac_key :: "byte list \<Rightarrow> byte list" where
  "hmac_key key = (let k = (if length key > 64 then sha256 key else key) in k @ replicate (64 - length k) 0)"

definition hmac_sha256 :: "byte list \<Rightarrow> byte list \<Rightarrow> byte list" where
  "hmac_sha256 key msg =
     sha256 (map (\<lambda>b. b XOR 0x5c) (hmac_key key) @ sha256 (map (\<lambda>b. b XOR 0x36) (hmac_key key) @ msg))"

section \<open>Every sum has 32 bytes\<close>

lemma length_round: "length st = 8 \<Longrightarrow> length (sha256_round st kw) = 8"
  by (induction st kw rule: sha256_round.induct) (simp_all add: Let_def)

lemma length_rounds: "length st = 8 \<Longrightarrow> length (foldl sha256_round st kws) = 8"
  by (induction kws arbitrary: st) (simp_all add: length_round)

lemma length_blocks: "length st = 8 \<Longrightarrow> length (sha256_blocks st n msg) = 8"
  by (induction st n msg rule: sha256_blocks.induct) (simp_all add: sha256_block_def length_rounds)

lemma length_sha256 [simp]: "length (sha256 msg) = 32"
proof -
  have "length (concat (map put_u32 ws)) = 4 * length ws" for ws
    by (induction ws) simp_all
  then show ?thesis by (simp add: sha256_def Let_def length_blocks sha256_start_def halves_def)
qed

lemma length_hmac [simp]: "length (hmac_sha256 key msg) = 32"
  by (simp add: hmac_sha256_def)

end
