(* ===== verification/Auth.thy ===== *)
theory Auth
  imports Frame Sha256
begin

text \<open>
  The mutual authentication of two peers (\<^verbatim>\<open>internal/tcpstream/auth.go\<close>) by a challenge and two keyed
  sums: the client proves that it knows the password of a user, the server that it knows it too.
  Usernames and passwords are byte strings, \<open>users\<close> is the map of the server's configuration.
\<close>

section \<open>A connection in both directions\<close>

text \<open>
  What the handshake uses of its world: what the peer sends, what is sent to the peer, the random
  bytes of the system, and whether the connection was closed. An operation returns an error or a
  value with the state it leaves; \<open>io_bind\<close> is the check of an error after a call.
\<close>

record duplex =
  dx_in :: reader
  dx_out :: conn
  dx_rand :: reader
  dx_closed :: bool

type_synonym 'a io = "duplex \<Rightarrow> (go_error + 'a) \<times> duplex"

definition io_return :: "'a \<Rightarrow> 'a io" where "io_return x d = (Inr x, d)"

definition io_bind :: "'a io \<Rightarrow> ('a \<Rightarrow> 'b io) \<Rightarrow> 'b io" where
  "io_bind m k d = (case m d of (Inl e, d') \<Rightarrow> (Inl e, d') | (Inr x, d') \<Rightarrow> k x d')"

definition io_lift :: "go_error + 'a \<Rightarrow> 'a io" where "io_lift r d = (r, d)"

definition io_guard :: "bool \<Rightarrow> go_error \<Rightarrow> unit io" where
  "io_guard b e d = (if b then Inr () else Inl e, d)"

definition receive :: "nat \<Rightarrow> byte list io" where
  "receive n d =
     (case read_full n (dx_in d) of
        Inl e \<Rightarrow> (Inl e, d\<lparr>dx_in := (dx_in d)\<lparr>rd_bytes := []\<rparr>\<rparr>)
      | Inr (bs, r) \<Rightarrow> (Inr bs, d\<lparr>dx_in := r\<rparr>))"

definition entropy :: "nat \<Rightarrow> byte list io" where
  "entropy n d =
     (case read_full n (dx_rand d) of
        Inl e \<Rightarrow> (Inl e, d\<lparr>dx_rand := (dx_rand d)\<lparr>rd_bytes := []\<rparr>\<rparr>)
      | Inr (bs, r) \<Rightarrow> (Inr bs, d\<lparr>dx_rand := r\<rparr>))"

definition send :: "byte list \<Rightarrow> unit io" where
  "send bs d =
     (case write_full conn_write (dx_out d) bs of
        (Some e, c) \<Rightarrow> (Inl e, d\<lparr>dx_out := c\<rparr>)
      | (None, c) \<Rightarrow> (Inr (), d\<lparr>dx_out := c\<rparr>))"

section \<open>Records\<close>

definition peerAuthMagic :: u32 where "peerAuthMagic = 0x45474155"
definition peerAuthVersion :: byte where "peerAuthVersion = 1"
definition peerAuthChallengeType :: byte where "peerAuthChallengeType = 1"
definition peerAuthResponseType :: byte where "peerAuthResponseType = 2"
definition peerAuthResultType :: byte where "peerAuthResultType = 3"
definition peerAuthSuccess :: byte where "peerAuthSuccess = 0"
definition peerAuthFailure :: byte where "peerAuthFailure = 1"
definition peerAuthChallengeSize :: nat where "peerAuthChallengeSize = 40"
definition peerAuthResponseHeaderSize :: nat where "peerAuthResponseHeaderSize = 8"
definition peerAuthResultHeaderSize :: nat where "peerAuthResultHeaderSize = 8"
definition peerAuthNonceSize :: nat where "peerAuthNonceSize = 32"
definition peerAuthMACSize :: nat where "peerAuthMACSize = 32"
definition peerAuthResultSize :: nat where "peerAuthResultSize = peerAuthResultHeaderSize + 32"

lemmas auth_constants = peerAuthMagic_def peerAuthVersion_def peerAuthChallengeType_def peerAuthResponseType_def
  peerAuthResultType_def peerAuthSuccess_def peerAuthFailure_def peerAuthChallengeSize_def
  peerAuthResponseHeaderSize_def peerAuthResultHeaderSize_def peerAuthNonceSize_def peerAuthMACSize_def
  peerAuthResultSize_def

text \<open>The eight bytes every record begins with.\<close>

definition record_header :: "byte \<Rightarrow> byte \<Rightarrow> byte list" where
  "record_header record_type value = put_u32 peerAuthMagic @ [peerAuthVersion, record_type, value, 0]"

definition valid_peer_auth_record :: "byte list \<Rightarrow> byte \<Rightarrow> bool" where
  "valid_peer_auth_record rec record_type =
     (if length rec < peerAuthResponseHeaderSize \<or> get_u32 (take 4 rec) \<noteq> peerAuthMagic \<or>
         rec ! 4 \<noteq> peerAuthVersion \<or> rec ! 5 \<noteq> record_type \<or> rec ! 7 \<noteq> 0
      then False
      else if record_type = peerAuthChallengeType then length rec = peerAuthChallengeSize \<and> rec ! 6 = 0
      else if record_type = peerAuthResponseType then length rec = peerAuthResponseHeaderSize \<and> rec ! 6 \<noteq> 0
      else if record_type = peerAuthResultType then length rec = peerAuthResultSize \<and> rec ! 6 \<le> peerAuthFailure
      else False)"

section \<open>The keyed sums\<close>

text \<open>A sum covers both prefaces, the server's challenge, the client's nonce and the user.\<close>

definition mac_label :: "byte list" where
  "mac_label = bytes_of_string ''engarde-peer-auth-v1'' @ [0]"

definition proof_label :: "byte list" where
  "proof_label = bytes_of_string ''engarde-peer-auth-server-v1'' @ [0]"

definition mac_message :: "byte list \<Rightarrow> byte list \<Rightarrow> byte list \<Rightarrow> byte list \<Rightarrow> byte list \<Rightarrow> byte list" where
  "mac_message client_bytes server_bytes challenge nonce username =
     mac_label @ client_bytes @ server_bytes @ challenge @ nonce @ [word_of_nat (length username)] @ username"

definition proof_message ::
    "byte list \<Rightarrow> byte list \<Rightarrow> byte list \<Rightarrow> byte list \<Rightarrow> byte list \<Rightarrow> byte list \<Rightarrow> byte \<Rightarrow> byte list" where
  "proof_message client_bytes server_bytes challenge nonce username client_mac status =
     proof_label @ client_bytes @ server_bytes @ challenge @ nonce @ [word_of_nat (length username)] @ username @
     client_mac @ [status]"

definition peer_auth_mac ::
    "preface \<Rightarrow> preface \<Rightarrow> byte list \<Rightarrow> byte list \<Rightarrow> byte list \<Rightarrow> byte list \<Rightarrow> go_error + byte list" where
  "peer_auth_mac client_preface server_preface challenge nonce username key =
     (case marshal_preface client_preface of Inl e \<Rightarrow> Inl e
      | Inr (client_bytes, _) \<Rightarrow>
          (case marshal_preface server_preface of Inl e \<Rightarrow> Inl e
           | Inr (server_bytes, _) \<Rightarrow>
               Inr (hmac_sha256 key (mac_message client_bytes server_bytes challenge nonce username))))"

definition peer_auth_server_proof ::
    "preface \<Rightarrow> preface \<Rightarrow> byte list \<Rightarrow> byte list \<Rightarrow> byte list \<Rightarrow> byte list \<Rightarrow> byte \<Rightarrow> byte list \<Rightarrow> go_error + byte list" where
  "peer_auth_server_proof client_preface server_preface challenge nonce username client_mac status key =
     (case marshal_preface client_preface of Inl e \<Rightarrow> Inl e
      | Inr (client_bytes, _) \<Rightarrow>
          (case marshal_preface server_preface of Inl e \<Rightarrow> Inl e
           | Inr (server_bytes, _) \<Rightarrow>
               Inr (hmac_sha256 key (proof_message client_bytes server_bytes challenge nonce username client_mac status))))"

section \<open>The two sides\<close>

record peer_credentials =
  pc_username :: "byte list"
  pc_password :: "byte list"

definition write_peer_auth_result :: "byte \<Rightarrow> byte list \<Rightarrow> unit io" where
  "write_peer_auth_result status proof = send (record_header peerAuthResultType status @ proof)"

definition authenticate_peer_client :: "preface \<Rightarrow> preface \<Rightarrow> peer_credentials \<Rightarrow> unit io" where
  "authenticate_peer_client client_preface server_preface credentials =
     (let username = pc_username credentials; password = pc_password credentials in
      io_bind (io_guard (\<not> (username = [] \<or> length username > 255 \<or> password = [])) ErrInvalidPeerAuth) (\<lambda>_.
      io_bind (receive peerAuthChallengeSize) (\<lambda>challenge.
      io_bind (io_guard (valid_peer_auth_record challenge peerAuthChallengeType) ErrInvalidPeerAuth) (\<lambda>_.
      io_bind (entropy peerAuthNonceSize) (\<lambda>nonce.
      io_bind (io_lift (peer_auth_mac client_preface server_preface challenge nonce username password)) (\<lambda>mac.
      io_bind (send (record_header peerAuthResponseType (word_of_nat (length username)) @ username @ nonce @ mac)) (\<lambda>_.
      io_bind (receive peerAuthResultSize) (\<lambda>reply.
      io_bind (io_guard (valid_peer_auth_record reply peerAuthResultType) ErrInvalidPeerAuth) (\<lambda>_.
      io_bind (io_guard (reply ! 6 = peerAuthSuccess) ErrPeerAuthenticationFailed) (\<lambda>_.
      io_bind (io_lift (peer_auth_server_proof client_preface server_preface challenge nonce username mac (reply ! 6) password)) (\<lambda>expected.
      io_guard (drop peerAuthResultHeaderSize reply = expected) ErrPeerAuthenticationFailed)))))))))))"

definition unknown_user_key :: "byte list \<Rightarrow> byte list" where
  "unknown_user_key username = sha256 (bytes_of_string ''engarde-peer-auth-unknown-user:'' @ username)"

definition authenticate_peer_server ::
    "preface \<Rightarrow> preface \<Rightarrow> (byte list \<rightharpoonup> byte list) \<Rightarrow> byte list io" where
  "authenticate_peer_server client_preface server_preface users =
     io_bind (entropy peerAuthNonceSize) (\<lambda>fresh.
     let challenge = record_header peerAuthChallengeType 0 @ fresh in
     io_bind (send challenge) (\<lambda>_.
     io_bind (receive peerAuthResponseHeaderSize) (\<lambda>header.
     io_bind (io_guard (valid_peer_auth_record header peerAuthResponseType) ErrInvalidPeerAuth) (\<lambda>_.
     io_bind (receive (unat (header ! 6))) (\<lambda>username.
     io_bind (receive peerAuthNonceSize) (\<lambda>nonce.
     io_bind (receive peerAuthMACSize) (\<lambda>actual_mac.
     let key = (case users username of None \<Rightarrow> unknown_user_key username | Some password \<Rightarrow> password) in
     io_bind (io_lift (peer_auth_mac client_preface server_preface challenge nonce username key)) (\<lambda>expected_mac.
     let authenticated = (users username \<noteq> None \<and> actual_mac = expected_mac);
         status = (if authenticated then peerAuthSuccess else peerAuthFailure) in
     io_bind (if authenticated
              then io_lift (peer_auth_server_proof client_preface server_preface challenge nonce username actual_mac status key)
              else entropy peerAuthMACSize) (\<lambda>proof.
     io_bind (write_peer_auth_result status proof) (\<lambda>_.
     if authenticated then io_return username else io_lift (Inl ErrPeerAuthenticationFailed)))))))))))"

section \<open>Operations on a healthy connection\<close>

lemma io_bind_simps [simp]:
  "m d = (Inr x, d') \<Longrightarrow> io_bind m k d = k x d'"
  "m d = (Inl e, d') \<Longrightarrow> io_bind m k d = (Inl e, d')"
  "io_return y d = (Inr y, d)" "io_lift r d = (r, d)" "io_guard True e d = (Inr (), d)" "io_guard False e d = (Inl e, d)"
  by (simp_all add: io_bind_def io_return_def io_lift_def io_guard_def)

definition duplex_of :: "byte list \<Rightarrow> byte list \<Rightarrow> byte list \<Rightarrow> duplex" where
  "duplex_of incoming random outgoing =
     \<lparr>dx_in = \<lparr>rd_bytes = incoming, rd_err = EOF\<rparr>, dx_out = \<lparr>c_writes = [], c_deadlines = [], c_out = outgoing\<rparr>,
      dx_rand = \<lparr>rd_bytes = random, rd_err = EOF\<rparr>, dx_closed = False\<rparr>"

lemma receive_of: "length xs = n \<Longrightarrow> receive n (duplex_of (xs @ ys) rnd out) = (Inr xs, duplex_of ys rnd out)"
  by (simp add: receive_def duplex_of_def)

lemma entropy_of: "length xs = n \<Longrightarrow> entropy n (duplex_of inc (xs @ ys) out) = (Inr xs, duplex_of inc ys out)"
  by (simp add: entropy_def duplex_of_def)

lemma send_of: "send bs (duplex_of inc rnd out) = (Inr (), duplex_of inc rnd (out @ bs))"
  by (simp add: send_def duplex_of_def conn_write_def write_full.simps [of conn_write _ bs])

lemma length_record_header [simp]: "length (record_header t v) = 8"
  by (simp add: record_header_def)

lemma record_header_nth: "(record_header t v @ xs) ! 6 = v"
  by (simp add: record_header_def nth_append)

lemma valid_record:
  "length proof = 32 \<Longrightarrow> valid_peer_auth_record (record_header peerAuthChallengeType v @ proof) peerAuthChallengeType \<longleftrightarrow> v = 0"
  "valid_peer_auth_record (record_header peerAuthResponseType v) peerAuthResponseType \<longleftrightarrow> v \<noteq> 0"
  "length proof = 32 \<Longrightarrow> valid_peer_auth_record (record_header peerAuthResultType v @ proof) peerAuthResultType \<longleftrightarrow> v \<le> 1"
  by (auto simp: valid_peer_auth_record_def record_header_def auth_constants nth_append)

section \<open>What each side does with a well-formed peer\<close>

lemma client_run:
  assumes user: "username \<noteq> []" "length username \<le> 255" "password \<noteq> []"
    and "marshal_preface cp = Inr (cb, cp')" "marshal_preface sp = Inr (sb, sp')"
    and "length fresh = 32" "length nonce = 32" "length proof = 32" "status \<le> 1"
    and C: "C = record_header peerAuthChallengeType 0 @ fresh"
    and mac: "mac = hmac_sha256 password (mac_message cb sb C nonce username)"
  shows "authenticate_peer_client cp sp \<lparr>pc_username = username, pc_password = password\<rparr>
      (duplex_of (C @ record_header peerAuthResultType status @ proof @ rest) (nonce @ spare) out) =
    (if status = 0 \<and> proof = hmac_sha256 password (proof_message cb sb C nonce username mac 0) then Inr ()
     else Inl ErrPeerAuthenticationFailed,
     duplex_of rest spare (out @ record_header peerAuthResponseType (word_of_nat (length username)) @ username @ nonce @ mac))"
proof -
  have "receive peerAuthChallengeSize (duplex_of (C @ ys) rnd out) = (Inr C, duplex_of ys rnd out)" for ys rnd
    using assms(6) by (intro receive_of) (simp add: C auth_constants)
  moreover have "valid_peer_auth_record C peerAuthChallengeType" using assms(6) by (simp add: C valid_record)
  moreover have "entropy peerAuthNonceSize (duplex_of inc (nonce @ spare) out) = (Inr nonce, duplex_of inc spare out)" for inc
    using assms(7) by (intro entropy_of) (simp add: auth_constants)
  moreover have "receive peerAuthResultSize (duplex_of (record_header peerAuthResultType status @ proof @ rest) rnd out') =
      (Inr (record_header peerAuthResultType status @ proof), duplex_of rest rnd out')" for rnd out'
    using receive_of [of "record_header peerAuthResultType status @ proof" peerAuthResultSize rest rnd out'] assms(8)
    by (simp add: auth_constants)
  moreover have "valid_peer_auth_record (record_header peerAuthResultType status @ proof) peerAuthResultType"
    using assms(8,9) by (simp add: valid_record)
  moreover have "peer_auth_mac cp sp C nonce username password = Inr mac"
    "peer_auth_server_proof cp sp C nonce username mac s password = Inr (hmac_sha256 password (proof_message cb sb C nonce username mac s))" for s
    using assms(4,5) by (simp_all add: peer_auth_mac_def peer_auth_server_proof_def mac)
  ultimately show ?thesis using user
    by (cases "status = 0"; cases "proof = hmac_sha256 password (proof_message cb sb C nonce username mac 0)")
      (simp_all add: authenticate_peer_client_def Let_def send_of record_header_nth auth_constants)
qed

lemma server_run:
  assumes user: "username \<noteq> []" "length username \<le> 255"
    and "marshal_preface cp = Inr (cb, cp')" "marshal_preface sp = Inr (sb, sp')"
    and "length fresh = 32" "length nonce = 32" "length mac = 32" "length filler = 32"
    and C: "C = record_header peerAuthChallengeType 0 @ fresh"
  shows "authenticate_peer_server cp sp users
      (duplex_of (record_header peerAuthResponseType (word_of_nat (length username)) @ username @ nonce @ mac @ rest)
        (fresh @ filler @ spare) out) =
    (case users username of
       Some password \<Rightarrow>
         if mac = hmac_sha256 password (mac_message cb sb C nonce username)
         then (Inr username, duplex_of rest (filler @ spare) (out @ C @ record_header peerAuthResultType 0 @
                 hmac_sha256 password (proof_message cb sb C nonce username mac 0)))
         else (Inl ErrPeerAuthenticationFailed, duplex_of rest spare (out @ C @ record_header peerAuthResultType 1 @ filler))
     | None \<Rightarrow> (Inl ErrPeerAuthenticationFailed, duplex_of rest spare (out @ C @ record_header peerAuthResultType 1 @ filler)))"
proof -
  have len: "unat (word_of_nat (length username) :: byte) = length username" "(word_of_nat (length username) :: byte) \<noteq> 0"
    using user by (auto simp: unat_byte_of_nat word_of_nat_eq_0_iff dest: dvd_imp_le)
  have "\<exists>expected. \<forall>key. expected key = hmac_sha256 key (mac_message cb sb C nonce username)"
    by (rule exI [of _ "\<lambda>key. hmac_sha256 key (mac_message cb sb C nonce username)"]) simp
  then obtain expected where expected_def: "\<And>key. expected key = hmac_sha256 key (mac_message cb sb C nonce username)" by blast
  have sums: "peer_auth_mac cp sp C nonce username key = Inr (expected key)"
    "peer_auth_server_proof cp sp C nonce username m s key = Inr (hmac_sha256 key (proof_message cb sb C nonce username m s))" for m s key
    using assms(3,4) by (simp_all add: peer_auth_mac_def peer_auth_server_proof_def expected_def)
  have "entropy peerAuthNonceSize (duplex_of inc (fresh @ filler @ spare) out) = (Inr fresh, duplex_of inc (filler @ spare) out)" for inc
    using assms(5) by (intro entropy_of) (simp add: auth_constants)
  moreover have "receive peerAuthResponseHeaderSize (duplex_of (record_header peerAuthResponseType v @ ys) rnd out') =
      (Inr (record_header peerAuthResponseType v), duplex_of ys rnd out')" for v ys rnd out'
    by (rule receive_of) (simp add: auth_constants)
  moreover have "receive (length username) (duplex_of (username @ ys) rnd out') = (Inr username, duplex_of ys rnd out')" for ys rnd out'
    by (rule receive_of) simp
  moreover have "receive peerAuthNonceSize (duplex_of (nonce @ ys) rnd out') = (Inr nonce, duplex_of ys rnd out')"
    "receive peerAuthMACSize (duplex_of (mac @ ys) rnd out') = (Inr mac, duplex_of ys rnd out')" for ys rnd out'
    using assms(6,7) by (auto intro!: receive_of simp: auth_constants)
  moreover have "entropy peerAuthMACSize (duplex_of inc (filler @ spare) out') = (Inr filler, duplex_of inc spare out')" for inc out'
    using assms(8) by (intro entropy_of) (simp add: auth_constants)
  moreover have "valid_peer_auth_record (record_header peerAuthResponseType (word_of_nat (length username))) peerAuthResponseType"
    using len by (simp add: valid_record)
  moreover have "record_header peerAuthResponseType v ! 6 = v" for v using record_header_nth [of _ _ "[]"] by simp
  moreover note sums
  ultimately have step: "authenticate_peer_server cp sp users
      (duplex_of (record_header peerAuthResponseType (word_of_nat (length username)) @ username @ nonce @ mac @ rest)
        (fresh @ filler @ spare) out) =
    (let ok = (\<exists>key. users username = Some key \<and> mac = expected key) in
     io_bind (if ok then io_lift (Inr (hmac_sha256 (the (users username)) (proof_message cb sb C nonce username mac 0)))
              else entropy peerAuthMACSize) (\<lambda>proof.
     io_bind (write_peer_auth_result (if ok then 0 else 1) proof) (\<lambda>_.
     if ok then io_return username else io_lift (Inl ErrPeerAuthenticationFailed)))
       (duplex_of rest (filler @ spare) (out @ C)))" using len
    by (simp add: authenticate_peer_server_def Let_def send_of C [symmetric] auth_constants(6,7) split: option.splits)
  have fill: "entropy peerAuthMACSize (duplex_of inc (filler @ spare) out') = (Inr filler, duplex_of inc spare out')" for inc out'
    using assms(8) by (intro entropy_of) (simp add: auth_constants)
  show ?thesis
    by (simp add: step Let_def fill write_peer_auth_result_def send_of split: option.splits) (simp add: expected_def)
qed

section \<open>Properties\<close>

text \<open>
  The handshake completes for the right password and only for it: between a client and a server
  that see the same prefaces there are a challenge, a response and a reply such that each side reads
  exactly what the other writes; with the password of the user both sides succeed and the server
  learns the name, and with another password or an unknown user both fail with
  \<^verbatim>\<open>ErrPeerAuthenticationFailed\<close>, unless the two keyed sums collide.
\<close>

theorem peer_auth_agrees:
  assumes "username \<noteq> []" "length username \<le> 255" "password \<noteq> []"
    and "marshal_preface cp = Inr (cb, cp')" "marshal_preface sp = Inr (sb, sp')"
    and "length fresh = 32" "length nonce = 32" "length filler = 32"
  shows "\<exists>challenge response reply client_ok server_ok.
    authenticate_peer_client cp sp \<lparr>pc_username = username, pc_password = password\<rparr>
      (duplex_of (challenge @ reply) nonce []) =
      (if client_ok then Inr () else Inl ErrPeerAuthenticationFailed, duplex_of [] [] response) \<and>
    authenticate_peer_server cp sp users (duplex_of response (fresh @ filler) []) =
      (if server_ok then Inr username else Inl ErrPeerAuthenticationFailed,
       duplex_of [] (if server_ok then filler else []) (challenge @ reply)) \<and>
    (users username = Some password \<longrightarrow> client_ok) \<and> (client_ok \<longrightarrow> server_ok) \<and>
    (server_ok \<longrightarrow> (\<exists>key. users username = Some key \<and>
       peer_auth_mac cp sp challenge nonce username key = peer_auth_mac cp sp challenge nonce username password))"
proof -
  define C where "C = record_header peerAuthChallengeType 0 @ fresh"
  define mac where "mac = hmac_sha256 password (mac_message cb sb C nonce username)"
  define response where "response = record_header peerAuthResponseType (word_of_nat (length username)) @ username @ nonce @ mac"
  define server_ok where "server_ok \<longleftrightarrow> (\<exists>key. users username = Some key \<and> mac = hmac_sha256 key (mac_message cb sb C nonce username))"
  define rproof where "rproof = (if server_ok then hmac_sha256 (the (users username)) (proof_message cb sb C nonce username mac 0) else filler)"
  define status where "status = (if server_ok then 0 else 1 :: byte)"
  define client_ok where "client_ok \<longleftrightarrow> status = 0 \<and> rproof = hmac_sha256 password (proof_message cb sb C nonce username mac 0)"
  have lengths: "length mac = 32" "length rproof = 32" "status \<le> 1" using assms(8) by (simp_all add: mac_def rproof_def status_def)
  note server = server_run [OF assms(1,2,4-7) lengths(1) assms(8) C_def, of users "[]" "[]" "[]"]
  note client = client_run [OF assms(1-7) lengths(2,3) C_def mac_def, of "[]" "[]" "[]"]
  have "authenticate_peer_client cp sp \<lparr>pc_username = username, pc_password = password\<rparr>
      (duplex_of (C @ record_header peerAuthResultType status @ rproof) nonce []) =
      (if client_ok then Inr () else Inl ErrPeerAuthenticationFailed, duplex_of [] [] response)"
    using client by (simp add: client_ok_def response_def)
  moreover have "authenticate_peer_server cp sp users (duplex_of response (fresh @ filler) []) =
      (if server_ok then Inr username else Inl ErrPeerAuthenticationFailed,
       duplex_of [] (if server_ok then filler else []) (C @ record_header peerAuthResultType status @ rproof))"
    using server by (auto simp: response_def server_ok_def rproof_def status_def split: option.splits)
  moreover have "users username = Some password \<longrightarrow> client_ok"
    by (auto simp: client_ok_def status_def server_ok_def rproof_def mac_def)
  moreover have "server_ok \<longrightarrow> (\<exists>key. users username = Some key \<and>
       peer_auth_mac cp sp C nonce username key = peer_auth_mac cp sp C nonce username password)"
    using assms(4,5) by (auto simp: server_ok_def peer_auth_mac_def mac_def)
  moreover have "client_ok \<longrightarrow> server_ok" by (simp add: client_ok_def status_def)
  ultimately show ?thesis by blast
qed

lemma peer_auth_agrees_witness:
  "\<exists>challenge response reply.
    authenticate_peer_server \<lparr>pf_version = 0, pf_flags = 0, pf_max_payload = 0\<rparr> \<lparr>pf_version = 0, pf_flags = 1, pf_max_payload = 0\<rparr>
      [[97] \<mapsto> [98]] (duplex_of response (replicate 32 1 @ replicate 32 2) []) =
      (Inr [97], duplex_of [] (replicate 32 2) (challenge @ reply))"
proof -
  have m: "\<exists>b p. marshal_preface \<lparr>pf_version = 0, pf_flags = 0, pf_max_payload = 0\<rparr> = Inr (b, p)"
    "\<exists>b p. marshal_preface \<lparr>pf_version = 0, pf_flags = 1, pf_max_payload = 0\<rparr> = Inr (b, p)"
    by (simp_all add: marshal_preface_def Let_def prefaceKnownFlags_def PrefaceFlagAuthRequired_def)
  then obtain cb cp' sb sp' where
    "marshal_preface \<lparr>pf_version = 0, pf_flags = 0, pf_max_payload = 0\<rparr> = Inr (cb, cp')"
    "marshal_preface \<lparr>pf_version = 0, pf_flags = 1, pf_max_payload = 0\<rparr> = Inr (sb, sp')" by blast
  from peer_auth_agrees [OF _ _ _ this, of "[97]" "[98]" "replicate 32 1" "replicate 32 3" "replicate 32 2" "[[97] \<mapsto> [98]]"]
  show ?thesis by auto blast
qed

lemma io_bind_ok:
  assumes "io_bind m k d = (Inr y, d')"
  shows "\<exists>x d1. m d = (Inr x, d1) \<and> k x d1 = (Inr y, d')"
  using assms by (auto simp: io_bind_def split: prod.splits sum.splits)

lemma io_ok:
  "io_guard b e d = (Inr u, d') \<Longrightarrow> b \<and> d' = d"
  "io_lift r d = (Inr x, d') \<Longrightarrow> r = Inr x \<and> d' = d"
  "io_return x d = (Inr y, d') \<Longrightarrow> y = x \<and> d' = d"
  by (auto simp: io_guard_def io_lift_def io_return_def split: if_splits)

lemma receive_ok:
  "receive n d = (Inr bs, d') \<Longrightarrow> length bs = n \<and> rd_bytes (dx_in d) = bs @ rd_bytes (dx_in d') \<and>
     dx_out d' = dx_out d \<and> dx_rand d' = dx_rand d"
  by (auto simp: receive_def dest: read_full_Inr split: sum.splits)

lemma entropy_ok:
  "entropy n d = (Inr bs, d') \<Longrightarrow> length bs = n \<and> rd_bytes (dx_rand d) = bs @ rd_bytes (dx_rand d') \<and>
     dx_out d' = dx_out d \<and> dx_in d' = dx_in d"
  by (auto simp: entropy_def dest: read_full_Inr split: sum.splits)

lemma send_ok:
  "send bs d = (Inr u, d') \<Longrightarrow> c_out (dx_out d') = c_out (dx_out d) @ bs \<and> dx_in d' = dx_in d \<and> dx_rand d' = dx_rand d"
  by (auto simp: send_def dest: net.write_full_ok split: option.splits prod.splits)

lemma io_bindE:
  assumes "io_bind m k d = (Inr y, d')"
  obtains x d1 where "m d = (Inr x, d1)" "k x d1 = (Inr y, d')"
  using io_bind_ok [OF assms] by blast

lemma server_ok_inv:
  assumes "authenticate_peer_server cp sp users d = (Inr name, d')"
  shows "\<exists>fresh header nonce mac password sum.
    users name = Some password \<and> length fresh = 32 \<and> (\<exists>spare. rd_bytes (dx_rand d) = fresh @ spare) \<and>
    length header = 8 \<and> length nonce = 32 \<and> rd_bytes (dx_in d) = header @ name @ nonce @ mac @ rd_bytes (dx_in d') \<and>
    peer_auth_mac cp sp (record_header peerAuthChallengeType 0 @ fresh) nonce name password = Inr mac \<and>
    peer_auth_server_proof cp sp (record_header peerAuthChallengeType 0 @ fresh) nonce name mac 0 password = Inr sum \<and>
    c_out (dx_out d') = c_out (dx_out d) @ (record_header peerAuthChallengeType 0 @ fresh) @ record_header peerAuthResultType 0 @ sum"
proof -
  from assms obtain fresh d1 u2 d2 header d3 u4 d4 username d5 nonce d6 mac d7 expected d8 sum d9 u10 d10 where
    "entropy peerAuthNonceSize d = (Inr fresh, d1)"
    "send (record_header peerAuthChallengeType 0 @ fresh) d1 = (Inr u2, d2)"
    "receive peerAuthResponseHeaderSize d2 = (Inr header, d3)"
    "io_guard (valid_peer_auth_record header peerAuthResponseType) ErrInvalidPeerAuth d3 = (Inr u4, d4)"
    "receive (unat (header ! 6)) d4 = (Inr username, d5)"
    "receive peerAuthNonceSize d5 = (Inr nonce, d6)"
    "receive peerAuthMACSize d6 = (Inr mac, d7)"
    "io_lift (peer_auth_mac cp sp (record_header peerAuthChallengeType 0 @ fresh) nonce username
       (case users username of None \<Rightarrow> unknown_user_key username | Some password \<Rightarrow> password)) d7 = (Inr expected, d8)"
    "(if users username \<noteq> None \<and> mac = expected
      then io_lift (peer_auth_server_proof cp sp (record_header peerAuthChallengeType 0 @ fresh) nonce username mac
        (if users username \<noteq> None \<and> mac = expected then peerAuthSuccess else peerAuthFailure)
        (case users username of None \<Rightarrow> unknown_user_key username | Some password \<Rightarrow> password))
      else entropy peerAuthMACSize) d8 = (Inr sum, d9)"
    "send (record_header peerAuthResultType (if users username \<noteq> None \<and> mac = expected then peerAuthSuccess else peerAuthFailure) @ sum) d9
      = (Inr u10, d10)"
    "(if users username \<noteq> None \<and> mac = expected then io_return username else io_lift (Inl ErrPeerAuthenticationFailed)) d10 = (Inr name, d')"
    unfolding authenticate_peer_server_def Let_def write_peer_auth_result_def by (elim io_bindE) blast
  note steps = this
  from steps(11) have ok: "users username \<noteq> None" "mac = expected" "name = username" "d' = d10"
    by (auto simp: io_return_def io_lift_def split: if_splits)
  then obtain password where "users username = Some password" by blast
  note facts = entropy_ok [OF steps(1)] send_ok [OF steps(2)] receive_ok [OF steps(3)] io_ok(1) [OF steps(4)]
    receive_ok [OF steps(5)] receive_ok [OF steps(6)] receive_ok [OF steps(7)] io_ok(2) [OF steps(8)] send_ok [OF steps(10)]
  have sum: "peer_auth_server_proof cp sp (record_header peerAuthChallengeType 0 @ fresh) nonce username mac 0 password = Inr sum \<and> d9 = d8"
    using io_ok(2) [of _ d8 sum d9] steps(9) ok(1,2) \<open>users username = Some password\<close> by (simp add: auth_constants)
  show ?thesis
    by (rule exI [of _ fresh], rule exI [of _ header], rule exI [of _ nonce], rule exI [of _ mac], rule exI [of _ password], rule exI [of _ sum])
      (use facts sum ok \<open>users username = Some password\<close> in \<open>simp add: auth_constants\<close>)
qed

lemma client_ok_inv:
  assumes "authenticate_peer_client cp sp \<lparr>pc_username = username, pc_password = password\<rparr> d = (Inr u, d')"
  shows "\<exists>challenge nonce mac header sum.
    valid_peer_auth_record challenge peerAuthChallengeType \<and> length nonce = 32 \<and> (\<exists>spare. rd_bytes (dx_rand d) = nonce @ spare) \<and>
    length header = 8 \<and> rd_bytes (dx_in d) = challenge @ header @ sum @ rd_bytes (dx_in d') \<and>
    peer_auth_mac cp sp challenge nonce username password = Inr mac \<and>
    peer_auth_server_proof cp sp challenge nonce username mac 0 password = Inr sum \<and>
    c_out (dx_out d') = c_out (dx_out d) @ record_header peerAuthResponseType (word_of_nat (length username)) @ username @ nonce @ mac"
proof -
  from assms obtain u1 d1 challenge d2 u3 d3 nonce d4 mac d5 u6 d6 reply d7 u8 d8 u9 d9 expected d10 where
    "io_guard (\<not> (username = [] \<or> length username > 255 \<or> password = [])) ErrInvalidPeerAuth d = (Inr u1, d1)"
    "receive peerAuthChallengeSize d1 = (Inr challenge, d2)"
    "io_guard (valid_peer_auth_record challenge peerAuthChallengeType) ErrInvalidPeerAuth d2 = (Inr u3, d3)"
    "entropy peerAuthNonceSize d3 = (Inr nonce, d4)"
    "io_lift (peer_auth_mac cp sp challenge nonce username password) d4 = (Inr mac, d5)"
    "send (record_header peerAuthResponseType (word_of_nat (length username)) @ username @ nonce @ mac) d5 = (Inr u6, d6)"
    "receive peerAuthResultSize d6 = (Inr reply, d7)"
    "io_guard (valid_peer_auth_record reply peerAuthResultType) ErrInvalidPeerAuth d7 = (Inr u8, d8)"
    "io_guard (reply ! 6 = peerAuthSuccess) ErrPeerAuthenticationFailed d8 = (Inr u9, d9)"
    "io_lift (peer_auth_server_proof cp sp challenge nonce username mac (reply ! 6) password) d9 = (Inr expected, d10)"
    "io_guard (drop peerAuthResultHeaderSize reply = expected) ErrPeerAuthenticationFailed d10 = (Inr u, d')"
    unfolding authenticate_peer_client_def Let_def peer_credentials.simps by (elim io_bindE) blast
  note steps = this
  have reply: "reply = take 8 reply @ expected" using io_ok(1) [OF steps(11)] by (simp add: auth_constants) (metis append_take_drop_id)
  have "length (take 8 reply) = 8" using receive_ok [OF steps(7)] by (simp add: auth_constants)
  then obtain header where header: "reply = header @ expected" "length header = 8" using reply by blast
  note facts = io_ok(1) [OF steps(1)] receive_ok [OF steps(2)] io_ok(1) [OF steps(3)] entropy_ok [OF steps(4)]
    io_ok(2) [OF steps(5)] send_ok [OF steps(6)] receive_ok [OF steps(7)] io_ok(1) [OF steps(8)] io_ok(1) [OF steps(9)]
    io_ok(2) [OF steps(10)] io_ok(1) [OF steps(11)]
  show ?thesis
    by (rule exI [of _ challenge], rule exI [of _ nonce], rule exI [of _ mac], rule exI [of _ header], rule exI [of _ expected])
      (use facts header in \<open>simp add: auth_constants\<close>)
qed

text \<open>
  C22. A success is a proof of knowledge: the server returns a name only after it has read, for its own
  fresh challenge, the sum of that name under the password that the configuration gives the name; the
  client succeeds only after it has read, for its own fresh nonce and its own sum, the server's sum
  under the client's password. Both sums cover both prefaces.
\<close>

theorem peer_auth_sound:
  shows "(authenticate_peer_server cp sp users d = (Inr name, d') \<longrightarrow> (\<exists>fresh header nonce mac password spare.
      users name = Some password \<and> length fresh = 32 \<and> rd_bytes (dx_rand d) = fresh @ spare \<and>
      rd_bytes (dx_in d) = header @ name @ nonce @ mac @ rd_bytes (dx_in d') \<and>
      peer_auth_mac cp sp (record_header peerAuthChallengeType 0 @ fresh) nonce name password = Inr mac)) \<and>
    (authenticate_peer_client cp sp \<lparr>pc_username = name, pc_password = password\<rparr> d = (Inr (), d') \<longrightarrow>
      (\<exists>challenge nonce mac header sum spare. length nonce = 32 \<and> rd_bytes (dx_rand d) = nonce @ spare \<and>
      rd_bytes (dx_in d) = challenge @ header @ sum @ rd_bytes (dx_in d') \<and>
      peer_auth_mac cp sp challenge nonce name password = Inr mac \<and>
      peer_auth_server_proof cp sp challenge nonce name mac 0 password = Inr sum))"
  using server_ok_inv [of cp sp users d name d'] client_ok_inv [of cp sp name password d "()" d'] by blast

lemma sample_marshal:
  "marshal_preface \<lparr>pf_version = 0, pf_flags = 0, pf_max_payload = 0\<rparr> =
     Inr (preface_bytes \<lparr>pf_version = Version, pf_flags = 0, pf_max_payload = MaxPayload32\<rparr>, \<lparr>pf_version = Version, pf_flags = 0, pf_max_payload = MaxPayload32\<rparr>)"
  by (simp add: marshal_preface_def Let_def preface_bytes_def)

lemma peer_auth_sound_witness:
  "\<exists>d header nonce mac. rd_bytes (dx_in d) = header @ [97] @ nonce @ mac \<and>
     fst (authenticate_peer_server \<lparr>pf_version = 0, pf_flags = 0, pf_max_payload = 0\<rparr>
       \<lparr>pf_version = 0, pf_flags = 0, pf_max_payload = 0\<rparr> [[97] \<mapsto> [98]] d) = Inr [97]"
proof -
  let ?C = "record_header peerAuthChallengeType 0 @ replicate 32 1"
  let ?b = "preface_bytes \<lparr>pf_version = Version, pf_flags = 0, pf_max_payload = MaxPayload32\<rparr>"
  let ?m = "hmac_sha256 [98] (mac_message ?b ?b ?C (replicate 32 3) [97])"
  let ?D = "duplex_of (record_header peerAuthResponseType (word_of_nat (length [97::byte])) @ [97] @ replicate 32 3 @ ?m @ []) (replicate 32 1 @ replicate 32 2 @ []) []"
  have run: "authenticate_peer_server \<lparr>pf_version = 0, pf_flags = 0, pf_max_payload = 0\<rparr>
       \<lparr>pf_version = 0, pf_flags = 0, pf_max_payload = 0\<rparr> [[97] \<mapsto> [98]] ?D =
     (Inr [97], duplex_of [] (replicate 32 2) ([] @ ?C @ record_header peerAuthResultType 0 @
        hmac_sha256 [98] (proof_message ?b ?b ?C (replicate 32 3) [97] ?m 0)))" (is "?run = (_, ?d')")
    by (subst server_run [OF _ _ sample_marshal sample_marshal _ _ _ _ refl]) simp_all
  from peer_auth_sound [of _ _ _ ?D "[97]" ?d', THEN conjunct1, THEN mp, OF run]
  obtain header nonce mac where "rd_bytes (dx_in ?D) = header @ [97] @ nonce @ mac @ rd_bytes (dx_in ?d')" by blast
  moreover have "rd_bytes (dx_in ?d') = []" by (simp add: duplex_of_def)
  ultimately have "rd_bytes (dx_in ?D) = header @ [97] @ nonce @ mac" by simp
  with run show ?thesis by (intro exI [of _ ?D] exI [of _ header] exI [of _ nonce] exI [of _ mac]) simp
qed

text \<open>
  The signed messages are unambiguous: with prefaces of 16 bytes, a challenge of 40 and a nonce
  of 32 bytes, two equal messages have equal parts, and a message that the client signs is never
  one that the server signs, so neither sum can be replayed for the other.
\<close>

theorem transcripts_separate:
  assumes "length cb = 16" "length cb' = 16" "length sb = 16" "length sb' = 16" "length C = 40" "length C' = 40"
    and "length n = 32" "length n' = 32" "length mac = 32" "length mac' = 32"
  shows "(mac_message cb sb C n u = mac_message cb' sb' C' n' u' \<longrightarrow>
      cb = cb' \<and> sb = sb' \<and> C = C' \<and> n = n' \<and> u = u') \<and>
    (proof_message cb sb C n u mac status = proof_message cb' sb' C' n' u' mac' status' \<longrightarrow>
      cb = cb' \<and> sb = sb' \<and> C = C' \<and> n = n' \<and> u = u' \<and> mac = mac' \<and> status = status') \<and>
    mac_message cb sb C n u \<noteq> proof_message cb' sb' C' n' u' mac' status'"
proof (intro conjI)
  show "mac_message cb sb C n u = mac_message cb' sb' C' n' u' \<longrightarrow> cb = cb' \<and> sb = sb' \<and> C = C' \<and> n = n' \<and> u = u'"
    using assms by (simp add: mac_message_def)
  show "proof_message cb sb C n u mac status = proof_message cb' sb' C' n' u' mac' status' \<longrightarrow>
      cb = cb' \<and> sb = sb' \<and> C = C' \<and> n = n' \<and> u = u' \<and> mac = mac' \<and> status = status'"
  proof
    assume "proof_message cb sb C n u mac status = proof_message cb' sb' C' n' u' mac' status'"
    then have "cb = cb' \<and> sb = sb' \<and> C = C' \<and> n = n' \<and> u @ (mac @ [status]) = u' @ (mac' @ [status'])"
      using assms by (simp add: proof_message_def)
    moreover from this have "u = u' \<and> mac @ [status] = mac' @ [status']"
      using append_eq_append_conv [of u u' "mac @ [status]" "mac' @ [status']"] assms(9,10) by simp
    ultimately show "cb = cb' \<and> sb = sb' \<and> C = C' \<and> n = n' \<and> u = u' \<and> mac = mac' \<and> status = status'"
      by simp
  qed
  have "mac_message cb sb C n u ! 18 = byte_of_char (CHR ''v'')"
    "proof_message cb' sb' C' n' u' mac' status' ! 18 = byte_of_char (CHR ''s'')"
    by (simp_all add: mac_message_def proof_message_def mac_label_def proof_label_def bytes_of_string_def nth_append numeral_eq_Suc)
  moreover have "byte_of_char (CHR ''v'') \<noteq> byte_of_char (CHR ''s'')" by (simp add: byte_of_char_def)
  ultimately show "mac_message cb sb C n u \<noteq> proof_message cb' sb' C' n' u' mac' status'" by metis
qed

lemma transcripts_separate_witness:
  "mac_message (replicate 16 0) (replicate 16 1) (replicate 40 2) (replicate 32 3) [97] \<noteq>
   proof_message (replicate 16 0) (replicate 16 1) (replicate 40 2) (replicate 32 3) [97] (replicate 32 4) 0"
  using transcripts_separate [of "replicate 16 0" "replicate 16 0" "replicate 16 1" "replicate 16 1" "replicate 40 2" "replicate 40 2"
      "replicate 32 3" "replicate 32 3" "replicate 32 4" "replicate 32 4"] by simp

text \<open>
  The server does not tell which users exist: when it refuses the same response under two
  configurations, one that knows the name and one that does not, everything it sends, reads and
  leaves is the same.
\<close>

theorem server_hides_users:
  assumes "username \<noteq> []" "length username \<le> 255"
    and "marshal_preface cp = Inr (cb, cp')" "marshal_preface sp = Inr (sb, sp')"
    and "length fresh = 32" "length nonce = 32" "length mac = 32" "length filler = 32"
    and "incoming = record_header peerAuthResponseType (word_of_nat (length username)) @ username @ nonce @ mac @ rest"
    and "authenticate_peer_server cp sp users1 (duplex_of incoming (fresh @ filler @ spare) out) = (Inl e1, d1)"
    and "authenticate_peer_server cp sp users2 (duplex_of incoming (fresh @ filler @ spare) out) = (Inl e2, d2)"
  shows "e1 = ErrPeerAuthenticationFailed \<and> e2 = ErrPeerAuthenticationFailed \<and> d1 = d2"
  using assms(10,11) server_run [OF assms(1-8) refl, of _ rest spare out] unfolding assms(9)
  by (auto split: option.splits if_splits)

lemma server_hides_users_witness:
  "snd (authenticate_peer_server \<lparr>pf_version = 0, pf_flags = 0, pf_max_payload = 0\<rparr> \<lparr>pf_version = 0, pf_flags = 0, pf_max_payload = 0\<rparr>
      Map.empty (duplex_of (record_header peerAuthResponseType 1 @ [97] @ replicate 32 3 @ replicate 32 4) (replicate 32 1 @ replicate 32 2) [])) =
   snd (authenticate_peer_server \<lparr>pf_version = 0, pf_flags = 0, pf_max_payload = 0\<rparr> \<lparr>pf_version = 0, pf_flags = 0, pf_max_payload = 0\<rparr>
      [[98] \<mapsto> [99]] (duplex_of (record_header peerAuthResponseType 1 @ [97] @ replicate 32 3 @ replicate 32 4) (replicate 32 1 @ replicate 32 2) []))"
proof -
  let ?p = "\<lparr>pf_version = 0, pf_flags = 0, pf_max_payload = 0\<rparr>"
  have fails: "\<exists>e d. authenticate_peer_server ?p ?p users (duplex_of (record_header peerAuthResponseType (word_of_nat (length [97::byte])) @ [97] @
      replicate 32 3 @ replicate 32 4 @ []) (replicate 32 1 @ replicate 32 2 @ []) []) = (Inl e, d)" if "users [97] = None" for users
    using that server_run [OF _ _ sample_marshal sample_marshal _ _ _ _ refl, of "[97]" "replicate 32 1" "replicate 32 3" "replicate 32 4" "replicate 32 2" users "[]" "[]" "[]"]
    by simp
  obtain e1 d1 e2 d2 where "authenticate_peer_server ?p ?p Map.empty (duplex_of (record_header peerAuthResponseType (word_of_nat (length [97::byte])) @ [97] @
      replicate 32 3 @ replicate 32 4 @ []) (replicate 32 1 @ replicate 32 2 @ []) []) = (Inl e1, d1)"
    "authenticate_peer_server ?p ?p [[98] \<mapsto> [99]] (duplex_of (record_header peerAuthResponseType (word_of_nat (length [97::byte])) @ [97] @
      replicate 32 3 @ replicate 32 4 @ []) (replicate 32 1 @ replicate 32 2 @ []) []) = (Inl e2, d2)"
    using fails [of Map.empty] fails [of "[[98] \<mapsto> [99]]"] by auto
  note runs = this
  from server_hides_users [OF _ _ sample_marshal sample_marshal _ _ _ _ refl runs] have "d1 = d2" by simp
  with runs show ?thesis by simp
qed

end
