(* ===== verification/Session.thy ===== *)
theory Session
  imports Auth
begin

text \<open>
  Establishing a session over one physical connection (\<^verbatim>\<open>internal/tcpstream/session.go\<close>): both sides
  exchange prefaces, authenticate when the server's preface asks for it, and hand the connection to
  the multiplexer \<^verbatim>\<open>smux\<close>, which is a parameter. Then a client opens a destination on a virtual
  stream. The connection is closed on every error.
\<close>

section \<open>The configuration of the multiplexer\<close>

record session_config =
  sc_keepalive_interval :: int
  sc_keepalive_timeout :: int
  sc_receive_buffer :: int
  sc_stream_buffer :: int

text \<open>\<^verbatim>\<open>smux.Config\<close>; \<open>defaults\<close> stands for \<^verbatim>\<open>smux.DefaultConfig()\<close>.\<close>

record smux_config =
  sx_version :: int
  sx_keepalive_interval :: int
  sx_keepalive_timeout :: int
  sx_max_frame_size :: int
  sx_max_receive_buffer :: int
  sx_max_stream_buffer :: int

definition smuxProtocolVersion :: int where "smuxProtocolVersion = 2"

definition smux_session_config :: "smux_config \<Rightarrow> session_config \<Rightarrow> smux_config" where
  "smux_session_config defaults config =
     (let keepalive_interval = (if sc_keepalive_interval config \<le> 0 then sx_keepalive_interval defaults else sc_keepalive_interval config);
          keepalive_timeout = (if sc_keepalive_timeout config \<le> 0 then sx_keepalive_timeout defaults else sc_keepalive_timeout config);
          receive_buffer = (if sc_receive_buffer config \<le> 0 then 4 * 1024 * 1024 else sc_receive_buffer config);
          stream_buffer = (if sc_stream_buffer config \<le> 0 then 1024 * 1024 else sc_stream_buffer config);
          receive_buffer = (if stream_buffer > receive_buffer then stream_buffer else receive_buffer)
      in \<lparr>sx_version = smuxProtocolVersion, sx_keepalive_interval = keepalive_interval,
          sx_keepalive_timeout = keepalive_timeout, sx_max_frame_size = 32 * 1024,
          sx_max_receive_buffer = receive_buffer, sx_max_stream_buffer = stream_buffer\<rparr>)"

section \<open>The handshake\<close>

record 'm session =
  ss_mux :: 'm
  ss_max_payload :: u32

definition set_deadline :: "unit io" where
  "set_deadline d =
     (case conn_set_write_deadline (dx_out d) of
        (Some e, c) \<Rightarrow> (Inl e, d\<lparr>dx_out := c\<rparr>) | (None, c) \<Rightarrow> (Inr (), d\<lparr>dx_out := c\<rparr>))"

definition receive_preface :: "preface io" where
  "receive_preface d =
     (case read_preface (dx_in d) of
        Inl e \<Rightarrow> (Inl e, d\<lparr>dx_in := (dx_in d)\<lparr>rd_bytes := drop PrefaceSize (rd_bytes (dx_in d))\<rparr>\<rparr>)
      | Inr (p, r) \<Rightarrow> (Inr p, d\<lparr>dx_in := r\<rparr>))"

text \<open>Every error of the handshake closes the connection.\<close>

definition close_on_error :: "'a io \<Rightarrow> 'a io" where
  "close_on_error m d = (case m d of (Inl e, d') \<Rightarrow> (Inl e, d'\<lparr>dx_closed := True\<rparr>) | ok \<Rightarrow> ok)"

definition dial_session ::
    "(smux_config \<Rightarrow> 'm io) \<Rightarrow> smux_config \<Rightarrow> u32 \<Rightarrow> int \<Rightarrow> session_config \<Rightarrow> peer_credentials option \<Rightarrow> 'm session io" where
  "dial_session smux_client defaults max_payload handshake_timeout config credentials =
     close_on_error (
     io_bind (if handshake_timeout > 0 then set_deadline else io_return ()) (\<lambda>_.
     io_bind (io_lift (marshal_preface \<lparr>pf_version = 0, pf_flags = 0, pf_max_payload = max_payload\<rparr>)) (\<lambda>(client_bytes, client_preface).
     io_bind (send client_bytes) (\<lambda>_.
     io_bind receive_preface (\<lambda>server_preface.
     io_bind (if pf_flags server_preface AND PrefaceFlagAuthRequired \<noteq> 0 then
                (case credentials of
                   None \<Rightarrow> io_lift (Inl ErrPeerAuthenticationRequired)
                 | Some c \<Rightarrow> authenticate_peer_client client_preface server_preface c)
              else if credentials \<noteq> None then io_lift (Inl ErrPeerAuthenticationDowngrade)
              else io_return ()) (\<lambda>_.
     io_bind set_deadline (\<lambda>_.
     io_bind (smux_client (smux_session_config defaults config)) (\<lambda>mux.
     io_return \<lparr>ss_mux = mux, ss_max_payload = pf_max_payload server_preface\<rparr>))))))))"

text \<open>\<open>users\<close> is \<open>None\<close> when the server's configuration has no user list.\<close>

definition accept_session ::
    "(smux_config \<Rightarrow> 'm io) \<Rightarrow> smux_config \<Rightarrow> u32 \<Rightarrow> int \<Rightarrow> session_config \<Rightarrow>
     (byte list \<rightharpoonup> byte list) option \<Rightarrow> ('m session \<times> byte list) io" where
  "accept_session smux_server defaults max_payload handshake_timeout config users =
     close_on_error (
     io_bind (if handshake_timeout > 0 then set_deadline else io_return ()) (\<lambda>_.
     io_bind receive_preface (\<lambda>client_preface.
     io_bind (io_guard (pf_flags client_preface = 0) ErrInvalidPreface) (\<lambda>_.
     let server_preface = \<lparr>pf_version = 0, pf_flags = (if users \<noteq> None then PrefaceFlagAuthRequired else 0),
           pf_max_payload = max_payload\<rparr> in
     io_bind (io_lift (marshal_preface server_preface)) (\<lambda>(server_bytes, _).
     io_bind (send server_bytes) (\<lambda>_.
     io_bind (case users of None \<Rightarrow> io_return [] | Some us \<Rightarrow> authenticate_peer_server client_preface server_preface us) (\<lambda>principal.
     io_bind set_deadline (\<lambda>_.
     io_bind (smux_server (smux_session_config defaults config)) (\<lambda>mux.
     io_return (\<lparr>ss_mux = mux, ss_max_payload = pf_max_payload client_preface\<rparr>, principal))))))))))"

section \<open>Opening a destination\<close>

text \<open>
  What \<^verbatim>\<open>OpenDestination\<close> leaves of the session and the stream: \<open>Untouched\<close> before a stream exists,
  \<open>Keep\<close> both on success, only the stream closed when the server answered with a refusal, both
  closed otherwise. \<open>openStream\<close> gets the result of \<^verbatim>\<open>smux.OpenStream\<close> (\<open>opened\<close>) or, with a timeout
  and when the timer ticks first, gives up with \<^verbatim>\<open>smux.ErrTimeout\<close>; its caller then closes the session.
\<close>

datatype cleanup = Untouched | Keep | CloseStream | CloseSession | CloseBoth

record open_event =
  opened :: "go_error + duplex"
  ticks_first :: bool

definition ErrTimeout :: go_error where "ErrTimeout = ErrSmux 0"

definition open_stream :: "int \<Rightarrow> open_event \<Rightarrow> go_error + duplex" where
  "open_stream timeout event =
     (if timeout \<le> 0 then opened event else if ticks_first event then Inl ErrTimeout else opened event)"

definition send_frame :: "(nat \<Rightarrow> byte list) \<Rightarrow> frame \<Rightarrow> duplex \<Rightarrow> ((go_error + unit) \<times> duplex) option" where
  "send_frame pool f d =
     (case write_frame pool conn_write (dx_out d) f of
        None \<Rightarrow> None
      | Some (Some e, c) \<Rightarrow> Some (Inl e, d\<lparr>dx_out := c\<rparr>)
      | Some (None, c) \<Rightarrow> Some (Inr (), d\<lparr>dx_out := c\<rparr>))"

text \<open>\<open>None\<close> is a panic: the buffer of \<open>WriteFrame\<close> or the index \<^verbatim>\<open>frame.Payload[0]\<close>.\<close>

definition open_destination ::
    "(nat \<Rightarrow> byte list) \<Rightarrow> 'm session \<Rightarrow> byte list \<Rightarrow> destination \<Rightarrow> int \<Rightarrow> open_event \<Rightarrow>
     ((go_error + duplex \<times> u32) \<times> cleanup) option" where
  "open_destination pool session stream_id dest timeout event =
     (case encode_destination dest of
        Inl e \<Rightarrow> Some (Inl e, Untouched)
      | Inr payload \<Rightarrow>
          (case open_stream timeout event of
             Inl e \<Rightarrow> Some (Inl e, CloseSession)
           | Inr d0 \<Rightarrow>
               (case (if timeout > 0 then set_deadline d0 else (Inr (), d0)) of
                  (Inl e, d1) \<Rightarrow> Some (Inl e, CloseBoth)
                | (Inr _, d1) \<Rightarrow>
                    (case send_frame pool \<lparr>f_type = FrameOpen, f_direction = DirectionClientToServer,
                            f_stream = stream_id, f_offset = 0, f_payload = payload\<rparr> d1 of
                       None \<Rightarrow> None
                     | Some (Inl e, d2) \<Rightarrow> Some (Inl e, CloseBoth)
                     | Some (Inr _, d2) \<Rightarrow>
                         (case read_frame (ss_max_payload session) (dx_in d2) of
                            Inl e \<Rightarrow> Some (Inl e, CloseBoth)
                          | Inr (f, r) \<Rightarrow>
                              if f_type f \<noteq> FrameOpenResult \<or> f_stream f \<noteq> stream_id then Some (Inl ErrInvalidFrame, CloseBoth)
                              else (case f_payload f of
                                 [] \<Rightarrow> None
                               | b # _ \<Rightarrow>
                                   if b \<noteq> OpenResultSuccess then Some (Inl (OpenError b), CloseStream)
                                   else (case set_deadline (d2\<lparr>dx_in := r\<rparr>) of
                                      (Inl e, d3) \<Rightarrow> Some (Inl e, CloseBoth)
                                    | (Inr _, d3) \<Rightarrow> Some (Inr (d3, ss_max_payload session), Keep))))))))"

text \<open>\<open>IsSessionClosed\<close>; \<open>go_away\<close> is the value of \<^verbatim>\<open>smux.ErrGoAway\<close>, \<open>closed_pipe\<close> that of \<^verbatim>\<open>io.ErrClosedPipe\<close>.\<close>

definition is_session_closed :: "go_error \<Rightarrow> go_error \<Rightarrow> go_error \<Rightarrow> bool" where
  "is_session_closed closed_pipe go_away e \<longleftrightarrow> e = ErrNetClosed \<or> e = EOF \<or> e = closed_pipe \<or> e = go_away"

section \<open>Lemmas\<close>

lemma close_on_error_ok: "close_on_error m d = (Inr x, d') \<longleftrightarrow> m d = (Inr x, d')"
  by (auto simp: close_on_error_def split: prod.splits sum.splits)

lemma close_on_error_fails: "close_on_error m d = (Inl e, d') \<Longrightarrow> dx_closed d'"
  by (auto simp: close_on_error_def split: prod.splits sum.splits)

lemma set_deadline_of [simp]: "set_deadline (duplex_of inc rnd out) = (Inr (), duplex_of inc rnd out)"
  by (simp add: set_deadline_def duplex_of_def conn_set_write_deadline_def)

lemma receive_preface_of:
  "preface_ok p \<Longrightarrow> receive_preface (duplex_of (preface_bytes p @ rest) rnd out) = (Inr p, duplex_of rest rnd out)"
  by (simp add: receive_preface_def duplex_of_def read_preface_bytes)

definition effective_payload :: "u32 \<Rightarrow> u32" where
  "effective_payload m = (if m = 0 then MaxPayload32 else m)"

lemma marshal_plain:
  assumes "m \<le> MaxPayload32" and "flags = 0 \<or> flags = PrefaceFlagAuthRequired"
  defines "p \<equiv> \<lparr>pf_version = Version, pf_flags = flags, pf_max_payload = effective_payload m\<rparr>"
  shows "marshal_preface \<lparr>pf_version = 0, pf_flags = flags, pf_max_payload = m\<rparr> = Inr (preface_bytes p, p)"
    and "marshal_preface p = Inr (preface_bytes p, p)" and "preface_ok p"
proof -
  have v: "Version \<noteq> 0" by (simp add: Version_def)
  show "marshal_preface \<lparr>pf_version = 0, pf_flags = flags, pf_max_payload = m\<rparr> = Inr (preface_bytes p, p)"
    "marshal_preface p = Inr (preface_bytes p, p)"
    using assms(1,2) v by (auto simp: marshal_preface_def Let_def preface_bytes_def p_def effective_payload_def prefaceKnownFlags_def
        PrefaceFlagAuthRequired_def not_less)
  then show "preface_ok p" using marshal_preface_ok by blast
qed

section \<open>Properties\<close>

text \<open>
  C23. No downgrade: a client that is configured with credentials gets a session only when the server's
  preface demanded authentication and the server then proved that it knows the password; a client
  without credentials gets one only when the server did not demand it. Every error has closed the
  connection.
\<close>

theorem session_no_downgrade:
  shows "(dial_session smux_client defaults m timeout config credentials d = (Inr session, d') \<longrightarrow>
      (\<exists>server_preface. ss_max_payload session = pf_max_payload server_preface \<and>
        (case credentials of
           None \<Rightarrow> pf_flags server_preface AND PrefaceFlagAuthRequired = 0
         | Some c \<Rightarrow> pf_flags server_preface AND PrefaceFlagAuthRequired \<noteq> 0 \<and>
             (\<exists>client_bytes client_preface d1 d2.
                marshal_preface \<lparr>pf_version = 0, pf_flags = 0, pf_max_payload = m\<rparr> = Inr (client_bytes, client_preface) \<and>
                rd_bytes (dx_in d) = preface_bytes server_preface @ rd_bytes (dx_in d1) \<and> dx_rand d1 = dx_rand d \<and>
                authenticate_peer_client client_preface server_preface c d1 = (Inr (), d2))))) \<and>
    (dial_session smux_client defaults m timeout config credentials d = (Inl e, d') \<longrightarrow> dx_closed d')"
proof (intro conjI impI)
  assume "dial_session smux_client defaults m timeout config credentials d = (Inr session, d')"
  then obtain u1 d1 cps d2 where first: "(if timeout > 0 then set_deadline else io_return ()) d = (Inr u1, d1)"
    "io_lift (marshal_preface \<lparr>pf_version = 0, pf_flags = 0, pf_max_payload = m\<rparr>) d1 = (Inr cps, d2)" and steps:
    "(case cps of (client_bytes, client_preface) \<Rightarrow>
        io_bind (send client_bytes) (\<lambda>_. io_bind receive_preface (\<lambda>server_preface.
        io_bind (if pf_flags server_preface AND PrefaceFlagAuthRequired \<noteq> 0 then
                (case credentials of
                   None \<Rightarrow> io_lift (Inl ErrPeerAuthenticationRequired)
                 | Some c \<Rightarrow> authenticate_peer_client client_preface server_preface c)
              else if credentials \<noteq> None then io_lift (Inl ErrPeerAuthenticationDowngrade)
              else io_return ()) (\<lambda>_.
        io_bind set_deadline (\<lambda>_. io_bind (smux_client (smux_session_config defaults config)) (\<lambda>mux.
        io_return \<lparr>ss_mux = mux, ss_max_payload = pf_max_payload server_preface\<rparr>)))))) d2 = (Inr session, d')"
    unfolding dial_session_def close_on_error_ok by (elim io_bindE) blast
  obtain cb cp where cps: "cps = (cb, cp)" by (cases cps)
  from steps obtain u3 d3 sp d4 d5 mux d6 d7 u where
    sent: "send cb d2 = (Inr u3, d3)" and sp: "receive_preface d3 = (Inr sp, d4)" and
    auth: "(if pf_flags sp AND PrefaceFlagAuthRequired \<noteq> 0 then
                (case credentials of
                   None \<Rightarrow> io_lift (Inl ErrPeerAuthenticationRequired)
                 | Some c \<Rightarrow> authenticate_peer_client cp sp c)
              else if credentials \<noteq> None then io_lift (Inl ErrPeerAuthenticationDowngrade)
              else io_return ()) d4 = (Inr u, d5)"
    and session: "io_return \<lparr>ss_mux = mux, ss_max_payload = pf_max_payload sp\<rparr> d7 = (Inr session, d')"
    unfolding cps prod.case by (elim io_bindE) blast
  have "dx_in d1 = dx_in d \<and> dx_rand d1 = dx_rand d"
    using first(1) by (auto simp: set_deadline_def io_return_def split: if_splits prod.splits option.splits)
  moreover have "marshal_preface \<lparr>pf_version = 0, pf_flags = 0, pf_max_payload = m\<rparr> = Inr (cb, cp)" "d2 = d1"
    using io_ok(2) [OF first(2)] cps by simp_all
  moreover have "rd_bytes (dx_in d3) = preface_bytes sp @ rd_bytes (dx_in d4) \<and> dx_rand d4 = dx_rand d3"
    using sp read_preface_sound by (auto simp: receive_preface_def split: sum.splits)
  ultimately have conv: "marshal_preface \<lparr>pf_version = 0, pf_flags = 0, pf_max_payload = m\<rparr> = Inr (cb, cp)"
    "rd_bytes (dx_in d) = preface_bytes sp @ rd_bytes (dx_in d4)" "dx_rand d4 = dx_rand d"
    using send_ok [OF sent] by simp_all
  have "ss_max_payload session = pf_max_payload sp" using session by (auto simp: io_return_def)
  moreover have "case credentials of
           None \<Rightarrow> pf_flags sp AND PrefaceFlagAuthRequired = 0
         | Some c \<Rightarrow> pf_flags sp AND PrefaceFlagAuthRequired \<noteq> 0 \<and> authenticate_peer_client cp sp c d4 = (Inr (), d5)"
    using auth by (auto simp: io_lift_def split: if_splits option.splits)
  ultimately show "\<exists>server_preface. ss_max_payload session = pf_max_payload server_preface \<and>
        (case credentials of
           None \<Rightarrow> pf_flags server_preface AND PrefaceFlagAuthRequired = 0
         | Some c \<Rightarrow> pf_flags server_preface AND PrefaceFlagAuthRequired \<noteq> 0 \<and>
             (\<exists>client_bytes client_preface d1 d2.
                marshal_preface \<lparr>pf_version = 0, pf_flags = 0, pf_max_payload = m\<rparr> = Inr (client_bytes, client_preface) \<and>
                rd_bytes (dx_in d) = preface_bytes server_preface @ rd_bytes (dx_in d1) \<and> dx_rand d1 = dx_rand d \<and>
                authenticate_peer_client client_preface server_preface c d1 = (Inr (), d2)))"
    using conv by (intro exI [of _ sp]) (auto split: option.splits)
next
  assume "dial_session smux_client defaults m timeout config credentials d = (Inl e, d')"
  then show "dx_closed d'" unfolding dial_session_def by (rule close_on_error_fails)
qed

text \<open>
  The two ends agree: a client and a server over one connection, with limits that a preface can
  carry and, when the server has users, the credentials of one of them, read exactly what the other
  writes, and end with a session each; each knows the other's limit, and the server the user's name.
\<close>

theorem sessions_agree:
  assumes "mc \<le> MaxPayload32" "ms \<le> MaxPayload32" and "length fresh = 32" "length nonce = 32" "length filler = 32"
    and "\<forall>cfg d. smux_client cfg d = (Inr client_mux, d)" "\<forall>cfg d. smux_server cfg d = (Inr server_mux, d)"
    and "case (users, credentials) of (None, None) \<Rightarrow> True
      | (Some us, Some c) \<Rightarrow> us (pc_username c) = Some (pc_password c) \<and> pc_username c \<noteq> [] \<and>
          length (pc_username c) \<le> 255 \<and> pc_password c \<noteq> []
      | _ \<Rightarrow> False"
  shows "\<exists>to_server to_client random1 random2.
    dial_session smux_client defaults mc timeout config credentials (duplex_of to_client nonce []) =
      (Inr \<lparr>ss_mux = client_mux, ss_max_payload = effective_payload ms\<rparr>, duplex_of [] random1 to_server) \<and>
    accept_session smux_server defaults ms timeout' config' users (duplex_of to_server (fresh @ filler) []) =
      (Inr (\<lparr>ss_mux = server_mux, ss_max_payload = effective_payload mc\<rparr>,
            case credentials of None \<Rightarrow> [] | Some c \<Rightarrow> pc_username c), duplex_of [] random2 to_client)"
proof -
  define flags where "flags = (if users \<noteq> None then PrefaceFlagAuthRequired else 0)"
  define cp where "cp = \<lparr>pf_version = Version, pf_flags = 0, pf_max_payload = effective_payload mc\<rparr>"
  define sp where "sp = \<lparr>pf_version = Version, pf_flags = flags, pf_max_payload = effective_payload ms\<rparr>"
  have cpf: "marshal_preface \<lparr>pf_version = 0, pf_flags = 0, pf_max_payload = mc\<rparr> = Inr (preface_bytes cp, cp)"
    "marshal_preface cp = Inr (preface_bytes cp, cp)" "preface_ok cp"
    using marshal_plain [OF assms(1), of 0] by (simp_all add: cp_def)
  have spf: "marshal_preface \<lparr>pf_version = 0, pf_flags = flags, pf_max_payload = ms\<rparr> = Inr (preface_bytes sp, sp)"
    "marshal_preface sp = Inr (preface_bytes sp, sp)" "preface_ok sp"
    using marshal_plain [OF assms(2), of flags] by (simp_all add: sp_def flags_def)
  have deadline: "(if t > 0 then set_deadline else io_return ()) (duplex_of inc rnd out) = (Inr (), duplex_of inc rnd out)"
    for t :: int and inc rnd out by simp
  have flag: "pf_flags sp AND PrefaceFlagAuthRequired \<noteq> 0 \<longleftrightarrow> users \<noteq> None" "pf_flags cp = 0"
    by (simp_all add: sp_def cp_def flags_def PrefaceFlagAuthRequired_def)
  have fields: "pf_max_payload sp = effective_payload ms" "pf_max_payload cp = effective_payload mc"
    by (simp_all add: sp_def cp_def)
  show ?thesis
  proof (cases users)
    case None
    then have none: "credentials = None" using assms(8) by (auto split: option.splits)
    have "dial_session smux_client defaults mc timeout config credentials (duplex_of (preface_bytes sp) nonce []) =
        (Inr \<lparr>ss_mux = client_mux, ss_max_payload = effective_payload ms\<rparr>, duplex_of [] nonce (preface_bytes cp))"
      using none None flag assms(6) receive_preface_of [OF spf(3), of "[]"]
      by (simp add: dial_session_def close_on_error_def deadline cpf(1) send_of fields)
    moreover have "accept_session smux_server defaults ms timeout' config' users (duplex_of (preface_bytes cp) (fresh @ filler) []) =
        (Inr (\<lparr>ss_mux = server_mux, ss_max_payload = effective_payload mc\<rparr>, []), duplex_of [] (fresh @ filler) (preface_bytes sp))"
      using None flag assms(7) receive_preface_of [OF cpf(3), of "[]"] spf(1)
      by (simp add: accept_session_def close_on_error_def deadline send_of fields flags_def)
    ultimately show ?thesis using none by auto
  next
    case (Some us)
    then obtain name password where c: "credentials = Some \<lparr>pc_username = name, pc_password = password\<rparr>"
      and user: "us name = Some password" "name \<noteq> []" "length name \<le> 255" "password \<noteq> []"
      using assms(8) by (auto split: option.splits) (metis peer_credentials.cases peer_credentials.simps(1,2))
    define C where "C = record_header peerAuthChallengeType 0 @ fresh"
    define mac where "mac = hmac_sha256 password (mac_message (preface_bytes cp) (preface_bytes sp) C nonce name)"
    define sum where "sum = hmac_sha256 password (proof_message (preface_bytes cp) (preface_bytes sp) C nonce name mac 0)"
    define response where "response = record_header peerAuthResponseType (word_of_nat (length name)) @ name @ nonce @ mac"
    have l: "length mac = 32" "length sum = 32" by (simp_all add: mac_def sum_def)
    have client: "authenticate_peer_client cp sp \<lparr>pc_username = name, pc_password = password\<rparr>
        (duplex_of (C @ record_header peerAuthResultType 0 @ sum) nonce (preface_bytes cp)) =
        (Inr (), duplex_of [] [] (preface_bytes cp @ response))"
      using client_run [OF user(2-4) cpf(2) spf(2) assms(3,4) l(2) _ C_def mac_def, of 0 "[]" "[]" "preface_bytes cp"]
      by (simp add: sum_def response_def)
    have server: "authenticate_peer_server cp \<lparr>pf_version = 0, pf_flags = flags, pf_max_payload = ms\<rparr> us
        (duplex_of response (fresh @ filler) (preface_bytes sp)) =
        (Inr name, duplex_of [] filler (preface_bytes sp @ C @ record_header peerAuthResultType 0 @ sum))"
      using server_run [OF user(2,3) cpf(2) spf(1) assms(3,4) l(1) assms(5) C_def, of us "[]" "[]" "preface_bytes sp"] user(1)
      by (simp add: response_def mac_def sum_def)
    have "dial_session smux_client defaults mc timeout config credentials
        (duplex_of (preface_bytes sp @ C @ record_header peerAuthResultType 0 @ sum) nonce []) =
        (Inr \<lparr>ss_mux = client_mux, ss_max_payload = effective_payload ms\<rparr>, duplex_of [] [] (preface_bytes cp @ response))"
      using c Some flag assms(6) client receive_preface_of [OF spf(3)]
      by (simp add: dial_session_def close_on_error_def deadline cpf(1) send_of fields)
    moreover have "accept_session smux_server defaults ms timeout' config' users (duplex_of (preface_bytes cp @ response) (fresh @ filler) []) =
        (Inr (\<lparr>ss_mux = server_mux, ss_max_payload = effective_payload mc\<rparr>, name),
         duplex_of [] filler (preface_bytes sp @ C @ record_header peerAuthResultType 0 @ sum))"
      using Some flag assms(7) receive_preface_of [OF cpf(3)] spf(1) server
      by (simp add: accept_session_def close_on_error_def deadline send_of fields flags_def)
    ultimately show ?thesis using c by auto
  qed
qed

lemma plain_server:
  "\<exists>d'. dial_session (\<lambda>_ d. (Inr (), d)) defaults 0 0 config None (duplex_of (preface_bytes
      \<lparr>pf_version = Version, pf_flags = 0, pf_max_payload = MaxPayload32\<rparr>) [] []) = (Inr \<lparr>ss_mux = (), ss_max_payload = MaxPayload32\<rparr>, d')"
proof -
  have "preface_ok \<lparr>pf_version = Version, pf_flags = 0, pf_max_payload = MaxPayload32\<rparr>" by (simp add: preface_ok_def)
  from receive_preface_of [OF this, of "[]"] show ?thesis
    by (simp add: dial_session_def close_on_error_def marshal_plain(1) send_of effective_payload_def)
qed

lemma session_no_downgrade_witness:
  "\<exists>p :: preface. ss_max_payload \<lparr>ss_mux = (), ss_max_payload = MaxPayload32\<rparr> = pf_max_payload p \<and>
     pf_flags p AND PrefaceFlagAuthRequired = 0"
proof -
  obtain d' where "dial_session (\<lambda>_ d. (Inr (), d)) undefined 0 0 undefined None (duplex_of (preface_bytes
      \<lparr>pf_version = Version, pf_flags = 0, pf_max_payload = MaxPayload32\<rparr>) [] []) = (Inr \<lparr>ss_mux = (), ss_max_payload = MaxPayload32\<rparr>, d')"
    using plain_server by blast
  from session_no_downgrade [THEN conjunct1, THEN mp, OF this] show ?thesis by simp
qed

lemma sessions_agree_witness:
  "\<exists>to_client random to_server.
    accept_session (\<lambda>_ d. (Inr (), d)) undefined 1000 0 undefined (Some [[97] \<mapsto> [98]])
      (duplex_of to_server (replicate 32 1 @ replicate 32 2) []) =
      (Inr (\<lparr>ss_mux = (), ss_max_payload = 500\<rparr>, [97]), duplex_of [] random to_client)"
proof -
  have m: "(500::u32) \<le> MaxPayload32" "(1000::u32) \<le> MaxPayload32" "effective_payload 500 = 500"
    by (simp_all add: MaxPayload32_def MaxPayloadSize_def effective_payload_def)
  from sessions_agree [OF m(1,2), of "replicate 32 1" "replicate 32 3" "replicate 32 2" "\<lambda>_ d. (Inr (), d)" "()" "\<lambda>_ d. (Inr (), d)" "()"
      "Some [[97] \<mapsto> [98]]" "Some \<lparr>pc_username = [97], pc_password = [98]\<rparr>" undefined 0 undefined 0 undefined] m(3)
  show ?thesis by auto
qed

text \<open>
  The multiplexer gets a configuration it accepts, whatever the program's configuration holds:
  when its own defaults are positive, all intervals and buffers are positive, the frame size fits in
  16 bits, and no stream buffer is larger than the receive buffer; positive settings are kept, the
  receive buffer only raised to the stream buffer.
\<close>

theorem smux_config_acceptable:
  assumes "0 < sx_keepalive_interval defaults" and "0 < sx_keepalive_timeout defaults"
  shows "let c = smux_session_config defaults config in
    0 < sx_keepalive_interval c \<and> 0 < sx_keepalive_timeout c \<and> 0 < sx_max_frame_size c \<and> sx_max_frame_size c \<le> 65535 \<and>
    0 < sx_max_stream_buffer c \<and> sx_max_stream_buffer c \<le> sx_max_receive_buffer c \<and>
    (0 < sc_stream_buffer config \<longrightarrow> sx_max_stream_buffer c = sc_stream_buffer config) \<and>
    (0 < sc_receive_buffer config \<longrightarrow> sx_max_receive_buffer c = max (sc_receive_buffer config) (sx_max_stream_buffer c))"
  using assms by (simp add: smux_session_config_def Let_def)

lemma smux_config_acceptable_witness:
  "sx_max_receive_buffer (smux_session_config
     \<lparr>sx_version = 1, sx_keepalive_interval = 10, sx_keepalive_timeout = 30, sx_max_frame_size = 1, sx_max_receive_buffer = 1,
      sx_max_stream_buffer = 1\<rparr>
     \<lparr>sc_keepalive_interval = 0, sc_keepalive_timeout = 0, sc_receive_buffer = 7, sc_stream_buffer = 9\<rparr>) = 9"
  using smux_config_acceptable [of "\<lparr>sx_version = 1, sx_keepalive_interval = 10, sx_keepalive_timeout = 30, sx_max_frame_size = 1, sx_max_receive_buffer = 1,
      sx_max_stream_buffer = 1\<rparr>" "\<lparr>sc_keepalive_interval = 0, sc_keepalive_timeout = 0, sc_receive_buffer = 7, sc_stream_buffer = 9\<rparr>"]
  by (simp add: Let_def)

lemma open_result_frame:
  assumes "read_frame m r = Inr (f, r')" and "f_type f = FrameOpenResult"
  shows "\<exists>b. f_payload f = [b] \<and> b \<le> OpenResultPolicyDenied \<and> rd_bytes r = marshal_frame f @ rd_bytes r'"
proof -
  have "validate_frame f = None" "rd_bytes r = marshal_frame f @ rd_bytes r'"
    using read_frame_sound [OF assms(1)] by (auto simp: frame_ok_def)
  with assms(2) show ?thesis
    by (cases "f_payload f") (auto simp: validate_frame_def frame_types not_less split: if_splits)
qed

lemma send_frame_total:
  assumes "pool_ok pool" and "length stream_id = 16"
  shows "\<exists>r d'. send_frame pool \<lparr>f_type = t, f_direction = dir, f_stream = stream_id, f_offset = off, f_payload = p\<rparr> d = Some (r, d') \<and>
    dx_in d' = dx_in d"
proof -
  have "frame_typed \<lparr>f_type = t, f_direction = dir, f_stream = stream_id, f_offset = off, f_payload = p\<rparr>"
    using assms(2) by (simp add: frame_typed_def)
  then show ?thesis
    using write_frame_spec [OF _ assms(1), of "\<lparr>f_type = t, f_direction = dir, f_stream = stream_id, f_offset = off, f_payload = p\<rparr>" conn_write "dx_out d"]
    by (auto simp: send_frame_def frame_typed_def assms(2) split: option.splits prod.splits)
qed

lemma open_destination_returns:
  assumes "pool_ok pool" and "length stream_id = 16"
  shows "\<exists>res left. open_destination pool session stream_id dest timeout event = Some (res, left) \<and>
    (left = Keep \<longleftrightarrow> (\<exists>x. res = Inr x)) \<and> (left = Untouched \<longleftrightarrow> (\<exists>e. encode_destination dest = Inl e)) \<and>
    (left = Keep \<longrightarrow> (\<exists>d0 d' f. opened event = Inr d0 \<and> res = Inr (d', ss_max_payload session) \<and>
       rd_bytes (dx_in d0) = marshal_frame f @ rd_bytes (dx_in d') \<and>
       f_type f = FrameOpenResult \<and> f_stream f = stream_id \<and> f_payload f = [OpenResultSuccess]))"
proof (cases "encode_destination dest")
  case (Inl e)
  then show ?thesis by (simp add: open_destination_def)
next
  case enc: (Inr payload)
  show ?thesis
  proof (cases "open_stream timeout event")
    case (Inl e)
    with enc show ?thesis by (simp add: open_destination_def)
  next
    case d0: (Inr d0)
    then have event: "opened event = Inr d0" by (auto simp: open_stream_def split: if_splits)
    have dl: "dx_in d' = dx_in d" if "set_deadline d = (r, d')" for r d d'
      using that by (auto simp: set_deadline_def split: prod.splits option.splits)
    obtain r1 d1 where s1: "(if timeout > 0 then set_deadline d0 else (Inr (), d0)) = (r1, d1)" by (cases "if timeout > 0 then set_deadline d0 else (Inr (), d0)")
    then have in1: "dx_in d1 = dx_in d0" using dl by (auto split: if_splits)
    obtain r2 d2 where s2: "send_frame pool \<lparr>f_type = FrameOpen, f_direction = DirectionClientToServer,
        f_stream = stream_id, f_offset = 0, f_payload = payload\<rparr> d1 = Some (r2, d2)" and in2: "dx_in d2 = dx_in d1"
      using send_frame_total [OF assms, of FrameOpen DirectionClientToServer 0 payload d1] by blast
    note steps = enc d0 s1 s2
    show ?thesis
    proof (cases r1; cases r2)
      fix u1 u2 assume r: "r1 = Inr u1" "r2 = Inr u2"
      show ?thesis
      proof (cases "read_frame (ss_max_payload session) (dx_in d2)")
        case (Inl e)
        with steps r show ?thesis by (simp add: open_destination_def)
      next
        case read: (Inr fr)
        obtain f rest where fr: "fr = (f, rest)" by (cases fr)
        show ?thesis
        proof (cases "f_type f \<noteq> FrameOpenResult \<or> f_stream f \<noteq> stream_id")
          case True
          with steps r read fr show ?thesis by (simp add: open_destination_def)
        next
          case False
          with open_result_frame [OF read [unfolded fr]] obtain b where
            b: "f_payload f = [b]" "b \<le> OpenResultPolicyDenied" "rd_bytes (dx_in d2) = marshal_frame f @ rd_bytes rest" by blast
          obtain r3 d3 where s3: "set_deadline (d2\<lparr>dx_in := rest\<rparr>) = (r3, d3)" by (cases "set_deadline (d2\<lparr>dx_in := rest\<rparr>)")
          have in3: "dx_in d3 = rest" using dl [OF s3] by simp
          show ?thesis
          proof (cases "b = OpenResultSuccess")
            case True
            with steps r read fr False b s3 in1 in2 in3 event show ?thesis
              by (cases r3) (auto simp: open_destination_def)
          next
            case nb: False
            with steps r read fr False b show ?thesis by (simp add: open_destination_def)
          qed
        qed
      qed
    qed (use steps in \<open>simp_all add: open_destination_def\<close>)
  qed
qed

text \<open>
  The stream was opened in time, the deadline was set, the OPEN was sent, and \<open>f\<close> is the frame that was
  read as its answer.
\<close>

definition answer_read :: "(nat \<Rightarrow> byte list) \<Rightarrow> u32 \<Rightarrow> byte list \<Rightarrow> destination \<Rightarrow> int \<Rightarrow> open_event \<Rightarrow> frame \<Rightarrow> bool" where
  "answer_read pool max_payload stream_id dest timeout event f \<longleftrightarrow>
     (\<exists>payload d0 u d1 v d2 rest. encode_destination dest = Inr payload \<and> open_stream timeout event = Inr d0 \<and>
        (if timeout > 0 then set_deadline d0 else (Inr (), d0)) = (Inr u, d1) \<and>
        send_frame pool \<lparr>f_type = FrameOpen, f_direction = DirectionClientToServer, f_stream = stream_id, f_offset = 0, f_payload = payload\<rparr> d1 =
          Some (Inr v, d2) \<and>
        read_frame max_payload (dx_in d2) = Inr (f, rest))"

definition refuses :: "byte list \<Rightarrow> frame \<Rightarrow> byte \<Rightarrow> bool" where
  "refuses stream_id f b \<longleftrightarrow> f_type f = FrameOpenResult \<and> f_stream f = stream_id \<and> f_payload f = [b] \<and> b \<noteq> OpenResultSuccess"

lemma open_refused:
  "answer_read pool (ss_max_payload session) stream_id dest timeout event f \<Longrightarrow> refuses stream_id f b \<Longrightarrow>
    open_destination pool session stream_id dest timeout event = Some (Inl (OpenError b), CloseStream)"
  by (auto simp: answer_read_def refuses_def open_destination_def)

lemma only_refusals_close_the_stream:
  assumes "open_destination pool session stream_id dest timeout event = Some (res, CloseStream)"
  shows "\<exists>f b. answer_read pool (ss_max_payload session) stream_id dest timeout event f \<and> refuses stream_id f b \<and> b \<le> OpenResultPolicyDenied"
proof -
  from assms obtain payload d0 u d1 v d2 f rest b bs where
    "encode_destination dest = Inr payload" "open_stream timeout event = Inr d0"
    "(if timeout > 0 then set_deadline d0 else (Inr (), d0)) = (Inr u, d1)"
    "send_frame pool \<lparr>f_type = FrameOpen, f_direction = DirectionClientToServer, f_stream = stream_id, f_offset = 0, f_payload = payload\<rparr> d1 =
      Some (Inr v, d2)"
    and read: "read_frame (ss_max_payload session) (dx_in d2) = Inr (f, rest)"
    and f: "f_type f = FrameOpenResult" "f_stream f = stream_id" "f_payload f = b # bs" "b \<noteq> OpenResultSuccess"
    unfolding open_destination_def by (fastforce split: sum.splits option.splits prod.splits list.splits if_split_asm)
  then have "answer_read pool (ss_max_payload session) stream_id dest timeout event f" unfolding answer_read_def by blast
  moreover have "refuses stream_id f b \<and> b \<le> OpenResultPolicyDenied"
    using open_result_frame [OF read f(1)] f by (auto simp: refuses_def)
  ultimately show ?thesis by blast
qed

lemma session_given_up_unopened:
  "open_destination pool session stream_id dest timeout event = Some (res, CloseSession) \<Longrightarrow> \<exists>e. open_stream timeout event = Inl e"
  unfolding open_destination_def by (fastforce split: sum.splits option.splits prod.splits list.splits if_split_asm)


lemma send_frame_of:
  assumes "pool_ok pool" and "frame_typed f" and "validate_frame f = None"
  shows "send_frame pool f (duplex_of inc rnd out) = Some (Inr (), duplex_of inc rnd (out @ marshal_frame f))"
  using write_frame_spec [OF assms(2,1), of conn_write] assms(3)
  by (simp add: send_frame_def duplex_of_def conn_write_def write_full.simps [of conn_write _ "marshal_frame f"])

definition sample_reply :: "byte \<Rightarrow> frame" where
  "sample_reply b = \<lparr>f_type = FrameOpenResult, f_direction = DirectionServerToClient, f_stream = replicate 16 7,
     f_offset = 0, f_payload = [b]\<rparr>"

abbreviation sample_dest :: destination where
  "sample_dest \<equiv> \<lparr>type_code = DestinationDomain, d_host = ''ab.c'', d_port = 80\<rparr>"

definition sample_answer :: "byte \<Rightarrow> open_event" where
  "sample_answer b = \<lparr>opened = Inr (duplex_of (marshal_frame (sample_reply b)) [] []), ticks_first = False\<rparr>"

lemma sample_answer_read:
  assumes "b \<le> OpenResultPolicyDenied"
  shows "answer_read sample_pool 0 (replicate 16 7) sample_dest 5 (sample_answer b) (sample_reply b)"
proof -
  obtain payload where enc: "encode_destination sample_dest = Inr payload" "decode_destination payload = Inr sample_dest" "length payload \<le> 257"
  proof -
    have "parse_addr ''ab.c'' = None" by code_simp
    then have c: "\<not> claimed sample_dest" by (simp add: claimed_def)
    have ok: "dest_ok sample_dest" using new_destination_dest_ok [OF sample_destination] by simp
    from encode_forms [OF ok] obtain payload where "encode_destination sample_dest = Inr payload" by blast
    with that decode_encode_host [OF ok this] dest_ok_reconstruct [OF ok c] encode_destination_length [OF ok] show thesis by simp
  qed
  let ?f = "\<lparr>f_type = FrameOpen, f_direction = DirectionClientToServer, f_stream = replicate 16 7, f_offset = 0, f_payload = payload\<rparr>"
  have "validate_frame ?f = None" using enc(2,3)
    by (simp add: validate_frame_def MaxPayloadSize_def zero_stream_def frame_types)
  then have send: "send_frame sample_pool ?f (duplex_of inc rnd out) = Some (Inr (), duplex_of inc rnd (out @ marshal_frame ?f))" for inc rnd out
    by (intro send_frame_of sample_frame_ok(3)) (simp add: frame_typed_def)
  have "frame_ok 0 (sample_reply b)" using assms
    by (simp add: frame_ok_def frame_typed_def sample_reply_def validate_frame_def frame_types MaxPayloadSize_def zero_stream_def
        OpenResultSuccess_def DirectionServerToClient_def DirectionClientToServer_def OpenResultPolicyDenied_def clamp_payload_def)
  from read_frame_bytes [OF this, of "[]" EOF] have "read_frame 0 (dx_in (duplex_of (marshal_frame (sample_reply b)) rnd out)) =
      Inr (sample_reply b, \<lparr>rd_bytes = [], rd_err = EOF\<rparr>)" for rnd out by (simp add: duplex_of_def)
  then show ?thesis using enc(1) send [of "marshal_frame (sample_reply b)" "[]" "[]"]
    by (simp add: answer_read_def sample_answer_def open_stream_def)
qed


end
