(* ===== verification/Session_Close.thy ===== *)
theory Session_Close
  imports Session
begin

text \<open>
  The end of a session (\<open>Close\<close>, \<open>monitorClientAccept\<close> and \<open>Done\<close> in \<^verbatim>\<open>internal/tcpstream/session.go\<close>): a client's
  session has a goroutine that waits in smux's \<open>AcceptStream\<close> for something that must not come and then
  closes the session; \<open>Close\<close> waits for it. Of smux only what it documents is used: closing makes
  \<open>AcceptStream\<close> return, and closing again only returns an error.
\<close>

section \<open>State\<close>

text \<open>\<open>monitorClientAccept\<close>, which a server's session does not have, and one call of \<open>Close\<close> with the result of \<open>mux.Close\<close>.\<close>

datatype monitor_pc = NoMonitor | AcceptingStream | ClosingMux | MonitorReturned

datatype closing_pc = CallingMuxClose | AwaitMonitor "go_error option" | CloseReturned "go_error option"

text \<open>\<open>sx_calls\<close> are the calls of \<open>Close\<close>, in the order in which they began.\<close>

record session_end =
  sx_mux_closed :: bool
  sx_monitor :: monitor_pc
  sx_calls :: "closing_pc list"

definition dialed_session :: session_end where
  "dialed_session = \<lparr>sx_mux_closed = False, sx_monitor = AcceptingStream, sx_calls = []\<rparr>"

definition accepted_session :: session_end where
  "accepted_session = \<lparr>sx_mux_closed = False, sx_monitor = NoMonitor, sx_calls = []\<rparr>"

section \<open>Steps\<close>

definition closing_to :: "nat \<Rightarrow> closing_pc \<Rightarrow> session_end \<Rightarrow> session_end" where
  "closing_to i pc s = s\<lparr>sx_calls := (sx_calls s)[i := pc]\<rparr>"

inductive monitor_step :: "session_end \<Rightarrow> session_end \<Rightarrow> bool" where
  Wakes: "sx_monitor s = AcceptingStream \<Longrightarrow> sx_mux_closed s \<Longrightarrow> monitor_step s (s\<lparr>sx_monitor := ClosingMux\<rparr>)"
| Closes: "sx_monitor s = ClosingMux \<Longrightarrow> monitor_step s (s\<lparr>sx_mux_closed := True, sx_monitor := MonitorReturned\<rparr>)"

inductive close_step :: "session_end \<Rightarrow> session_end \<Rightarrow> bool" where
  ClosesMux: "i < length (sx_calls s) \<Longrightarrow> sx_calls s ! i = CallingMuxClose \<Longrightarrow>
    close_step s (closing_to i (if sx_monitor s = NoMonitor then CloseReturned e else AwaitMonitor e) (s\<lparr>sx_mux_closed := True\<rparr>))"
| Awaited: "i < length (sx_calls s) \<Longrightarrow> sx_calls s ! i = AwaitMonitor e \<Longrightarrow> sx_monitor s = MonitorReturned \<Longrightarrow>
    close_step s (closing_to i (CloseReturned e) s)"

text \<open>What comes from outside: a call of \<open>Close\<close>, a stream of the server or an error of smux, the loss of the connection.\<close>

inductive session_env :: "session_end \<Rightarrow> session_end \<Rightarrow> bool" where
  CallClose: "session_env s (s\<lparr>sx_calls := sx_calls s @ [CallingMuxClose]\<rparr>)"
| StreamArrives: "sx_monitor s = AcceptingStream \<Longrightarrow> session_env s (s\<lparr>sx_monitor := ClosingMux\<rparr>)"
| ConnectionLost: "session_env s (s\<lparr>sx_mux_closed := True\<rparr>)"

definition session_work :: "session_end \<Rightarrow> session_end \<Rightarrow> bool" where
  "session_work s s' \<longleftrightarrow> monitor_step s s' \<or> close_step s s'"

inductive session_end_reachable :: "session_end \<Rightarrow> bool" where
  "session_end_reachable dialed_session"
| "session_end_reachable accepted_session"
| "session_end_reachable s \<Longrightarrow> session_work s s' \<or> session_env s s' \<Longrightarrow> session_end_reachable s'"

section \<open>Invariant\<close>

definition call_ok :: "session_end \<Rightarrow> closing_pc \<Rightarrow> bool" where
  "call_ok s pc \<longleftrightarrow>
     (case pc of
        CallingMuxClose \<Rightarrow> True
      | AwaitMonitor e \<Rightarrow> sx_mux_closed s \<and> sx_monitor s \<noteq> NoMonitor
      | CloseReturned e \<Rightarrow> sx_mux_closed s \<and> (sx_monitor s = NoMonitor \<or> sx_monitor s = MonitorReturned))"

definition session_end_inv :: "session_end \<Rightarrow> bool" where
  "session_end_inv s \<longleftrightarrow> (\<forall>pc \<in> set (sx_calls s). call_ok s pc) \<and> (sx_monitor s = MonitorReturned \<longrightarrow> sx_mux_closed s)"

lemma call_ok_keeps:
  assumes "call_ok s pc" "sx_mux_closed s \<longrightarrow> sx_mux_closed s'" "sx_monitor s' = NoMonitor \<longleftrightarrow> sx_monitor s = NoMonitor"
    "sx_monitor s = MonitorReturned \<longrightarrow> sx_monitor s' = MonitorReturned"
  shows "call_ok s' pc"
  using assms by (auto simp: call_ok_def split: closing_pc.splits)

lemma session_step_inv:
  assumes "session_work s s' \<or> session_env s s'" "session_end_inv s"
  shows "session_end_inv s'"
proof -
  have moved: "session_end_inv (closing_to i pc t)"
    if "session_end_inv s" "sx_calls t = sx_calls s" "sx_mux_closed s \<longrightarrow> sx_mux_closed t" "sx_monitor t = sx_monitor s" "call_ok t pc" for i pc t
  proof -
    have "call_ok (closing_to i pc t) x" if "x \<in> set (sx_calls (closing_to i pc t))" for x
    proof -
      have "x \<in> insert pc (set (sx_calls s))" using that \<open>sx_calls t = sx_calls s\<close> set_update_subset_insert [of "sx_calls s" i pc] by (auto simp: closing_to_def)
      then have "call_ok t x" using \<open>session_end_inv s\<close> \<open>call_ok t pc\<close> call_ok_keeps [of s x t] \<open>sx_mux_closed s \<longrightarrow> sx_mux_closed t\<close> \<open>sx_monitor t = sx_monitor s\<close>
        by (auto simp: session_end_inv_def)
      then show ?thesis by (rule call_ok_keeps) (simp_all add: closing_to_def)
    qed
    then show ?thesis using \<open>session_end_inv s\<close> \<open>sx_mux_closed s \<longrightarrow> sx_mux_closed t\<close> \<open>sx_monitor t = sx_monitor s\<close>
      by (auto simp: session_end_inv_def closing_to_def)
  qed
  consider "monitor_step s s'" | "close_step s s'" | "session_env s s'" using assms(1) by (auto simp: session_work_def)
  then show ?thesis
  proof cases
    case 1
    then show ?thesis using assms(2) by cases (auto simp: session_end_inv_def intro: call_ok_keeps)
  next
    case 2
    then show ?thesis
    proof cases
      case (ClosesMux i e)
      show ?thesis unfolding ClosesMux(1) by (rule moved [OF assms(2)]) (simp_all add: call_ok_def)
    next
      case (Awaited i e)
      have "sx_mux_closed s" using assms(2) Awaited(4) by (simp add: session_end_inv_def)
      with Awaited(4) show ?thesis unfolding Awaited(1) by (intro moved [OF assms(2)]) (simp_all add: call_ok_def)
    qed
  next
    case 3
    then show ?thesis
    proof cases
      case CallClose
      with assms(2) show ?thesis by (auto simp: session_end_inv_def call_ok_def split: closing_pc.splits)
    next
      case StreamArrives
      with assms(2) show ?thesis by (auto simp: session_end_inv_def call_ok_def split: closing_pc.splits)
    next
      case ConnectionLost
      with assms(2) show ?thesis by (auto simp: session_end_inv_def intro: call_ok_keeps)
    qed
  qed
qed

lemma session_reachable_inv: "session_end_reachable s \<Longrightarrow> session_end_inv s"
proof (induction rule: session_end_reachable.induct)
  case (3 s s')
  show ?case using 3(2,3) by (rule session_step_inv)
qed (simp_all add: session_end_inv_def dialed_session_def accepted_session_def)

section \<open>Close returns\<close>

fun monitor_rank :: "monitor_pc \<Rightarrow> nat" where
  "monitor_rank AcceptingStream = 2"
| "monitor_rank ClosingMux = 1"
| "monitor_rank _ = 0"

fun closing_rank :: "closing_pc \<Rightarrow> nat" where
  "closing_rank CallingMuxClose = 2"
| "closing_rank (AwaitMonitor e) = 1"
| "closing_rank (CloseReturned e) = 0"

definition session_rank :: "session_end \<Rightarrow> nat" where
  "session_rank s = monitor_rank (sx_monitor s) + (\<Sum>pc\<leftarrow>sx_calls s. closing_rank pc)"

lemma closing_sum: "i < length cs \<Longrightarrow> closing_rank pc < closing_rank (cs ! i) \<Longrightarrow>
    (\<Sum>c\<leftarrow>cs[i := pc]. closing_rank c) < (\<Sum>c\<leftarrow>cs. closing_rank c)"
proof (induction cs arbitrary: i)
  case (Cons c cs)
  then show ?case by (cases i) simp_all
qed simp

lemma session_work_rank: "session_work s s' \<Longrightarrow> session_rank s' < session_rank s"
  unfolding session_work_def
proof (elim disjE)
  assume "close_step s s'"
  then show ?thesis
  proof cases
    case (ClosesMux i e)
    with closing_sum [OF ClosesMux(2), of "if sx_monitor s = NoMonitor then CloseReturned e else AwaitMonitor e"]
    show ?thesis by (simp add: session_rank_def closing_to_def split: if_splits)
  next
    case (Awaited i e)
    with closing_sum [OF Awaited(2), of "CloseReturned e"] show ?thesis by (simp add: session_rank_def closing_to_def)
  qed
qed (auto elim!: monitor_step.cases simp: session_rank_def)

text \<open>
  \<open>Close\<close> returns. Every step of a session brings its end nearer, and as long as a call of \<open>Close\<close> has
  not returned there is one: no call waits for ever for the monitor, whoever closed the session first.
  When a call has returned the session is closed and no goroutine of it is left; and a stream that the
  server should not have opened closes the session.
\<close>

theorem session_close_returns:
  assumes "session_end_reachable s"
  shows "(\<forall>s'. session_work s s' \<longrightarrow> session_rank s' < session_rank s) \<and>
    ((\<exists>s'. session_work s s') \<or> sx_monitor s \<noteq> ClosingMux \<and> (\<forall>pc \<in> set (sx_calls s). \<exists>e. pc = CloseReturned e)) \<and>
    (\<forall>e. CloseReturned e \<in> set (sx_calls s) \<longrightarrow> sx_mux_closed s \<and> (sx_monitor s = NoMonitor \<or> sx_monitor s = MonitorReturned))"
proof -
  note inv = session_reachable_inv [OF assms, unfolded session_end_inv_def]
  have "\<exists>s'. session_work s s'" if pc: "pc \<in> set (sx_calls s)" "\<forall>e. pc \<noteq> CloseReturned e" for pc
  proof -
    obtain i where i: "i < length (sx_calls s)" "sx_calls s ! i = pc" using pc(1) by (auto simp: in_set_conv_nth)
    show ?thesis
    proof (cases pc)
      case CallingMuxClose
      with i show ?thesis by (auto simp: session_work_def intro: close_step.ClosesMux)
    next
      case (AwaitMonitor e)
      with inv pc(1) have "sx_mux_closed s" "sx_monitor s \<noteq> NoMonitor" by (auto simp: call_ok_def)
      with AwaitMonitor i show ?thesis
        by (cases "sx_monitor s") (auto simp: session_work_def intro: close_step.Awaited monitor_step.intros)
    qed (use pc(2) in simp)
  qed
  moreover have "sx_monitor s = ClosingMux \<Longrightarrow> \<exists>s'. session_work s s'" by (auto simp: session_work_def intro: monitor_step.Closes)
  moreover have "CloseReturned e \<in> set (sx_calls s) \<Longrightarrow> sx_mux_closed s \<and> (sx_monitor s = NoMonitor \<or> sx_monitor s = MonitorReturned)" for e
    using inv by (auto simp: call_ok_def)
  ultimately show ?thesis using session_work_rank by blast
qed

lemma session_close_returns_witness:
  "\<exists>s. session_end_reachable s \<and> sx_calls s = [CallingMuxClose] \<and> (\<exists>s'. session_work s s')"
proof -
  let ?s = "dialed_session\<lparr>sx_calls := [CallingMuxClose]\<rparr>"
  have "session_env dialed_session ?s" using session_env.CallClose [of dialed_session] by (simp add: dialed_session_def)
  then have reach: "session_end_reachable ?s" using session_end_reachable.intros by blast
  from session_close_returns [OF this] have "\<exists>s'. session_work ?s s'" by simp
  with reach show ?thesis by (intro exI [of _ ?s]) simp
qed

end
