(* ===== verification/Netaddr.thy ===== *)
theory Netaddr
  imports Destination
begin

unbundle bit_operations_syntax

text \<open>
  The part of Go's package \<^verbatim>\<open>net\<close> the program uses on texts and addresses (\<^verbatim>\<open>SplitHostPort\<close>,
  \<^verbatim>\<open>JoinHostPort\<close>, \<^verbatim>\<open>ParseIP\<close>, \<^verbatim>\<open>ParseCIDR\<close>, \<^verbatim>\<open>IPNet.Contains\<close>), with \<^verbatim>\<open>strconv\<close> on ports, written after
  the documented behaviour, and the two operations of \<^verbatim>\<open>internal/tcpstream/destination.go\<close> that rest on
  it: \<^verbatim>\<open>ParseDestination\<close> and \<^verbatim>\<open>String\<close>. A \<^verbatim>\<open>net.IP\<close> is its list of 4 or 16 bytes.
\<close>

section \<open>Numbers as text\<close>

fun dec_string :: "nat \<Rightarrow> string" where
  "dec_string n = (if n < 10 then [digit n] else dec_string (n div 10) @ [digit (n mod 10)])"

declare dec_string.simps [simp del]

definition dec_value :: "string \<Rightarrow> nat" where
  "dec_value s = foldl (\<lambda>a c. a * 10 + (code c - 48)) 0 s"

text \<open>\<^verbatim>\<open>strconv.ParseUint(s, 10, 16)\<close>.\<close>

definition parse_uint16 :: "string \<Rightarrow> nat option" where
  "parse_uint16 s =
     (if s = '''' \<or> \<not> list_all is_dec s \<or> dec_value s > 65535 then None else Some (dec_value s))"

lemma dec_string_digits: "list_all is_dec (dec_string n) \<and> dec_string n \<noteq> [] \<and> dec_value (dec_string n) = n"
proof (induction n rule: dec_string.induct)
  case (1 n)
  show ?case
  proof (cases "n < 10")
    case True
    then show ?thesis by (simp add: dec_string.simps [of n] dec_value_def code_digit)
  next
    case False
    have "n mod 10 < 10" by simp
    with False 1 show ?thesis by (auto simp: dec_string.simps [of n] dec_value_def code_digit)
  qed
qed

lemma parse_uint16_dec_string [simp]: "n \<le> 65535 \<Longrightarrow> parse_uint16 (dec_string n) = Some n"
  using dec_string_digits [of n] by (simp add: parse_uint16_def)

section \<open>Host and port\<close>

definition split_host_port :: "string \<Rightarrow> (string \<times> string) option" where
  "split_host_port hostport =
     (if CHR '':'' \<notin> set hostport then None
      else
        let port = rev (takeWhile (\<lambda>c. c \<noteq> CHR '':'') (rev hostport));
            i = length hostport - length port - 1
        in if hd hostport = CHR ''['' then
             (let end = length (takeWhile (\<lambda>c. c \<noteq> CHR '']'') hostport)
              in if end + 1 \<noteq> i \<or> CHR ''['' \<in> set (drop 1 hostport) \<or> CHR '']'' \<in> set (drop (end + 1) hostport)
                 then None else Some (take (end - 1) (drop 1 hostport), port))
           else if CHR '':'' \<in> set (take i hostport) \<or> CHR ''['' \<in> set hostport \<or> CHR '']'' \<in> set hostport
           then None else Some (take i hostport, port))"

definition join_host_port :: "string \<Rightarrow> string \<Rightarrow> string" where
  "join_host_port host port =
     (if CHR '':'' \<in> set host then ''['' @ host @ '']:'' @ port else host @ '':'' @ port)"

lemma split_join_host_port:
  assumes "\<forall>c \<in> set host. c \<noteq> CHR ''['' \<and> c \<noteq> CHR '']''" and "list_all is_dec port"
  shows "split_host_port (join_host_port host port) = Some (host, port)"
proof -
  have p: "CHR '':'' \<notin> set port" "CHR ''['' \<notin> set port" "CHR '']'' \<notin> set port"
    using assms(2) by (auto simp: list_all_iff is_dec_def code_def)
  have h: "CHR ''['' \<notin> set host" "CHR '']'' \<notin> set host" using assms(1) by auto
  have tw: "takeWhile (\<lambda>c. c \<noteq> x) (as @ x # bs) = as" if "x \<notin> set as" for x :: char and as bs
    using that by (induction as) auto
  show ?thesis
  proof (cases "CHR '':'' \<in> set host")
    case True
    have "takeWhile (\<lambda>c. c \<noteq> CHR '':'') (rev (join_host_port host port)) = rev port"
      using True p tw [of "CHR '':''" "rev port"] by (simp add: join_host_port_def)
    moreover have "takeWhile (\<lambda>c. c \<noteq> CHR '']'') (join_host_port host port) = ''['' @ host"
      using True h tw [of "CHR '']''" "''['' @ host"] by (simp add: join_host_port_def)
    ultimately show ?thesis using True h p by (simp add: split_host_port_def Let_def) (simp add: join_host_port_def)
  next
    case False
    have "takeWhile (\<lambda>c. c \<noteq> CHR '':'') (rev (join_host_port host port)) = rev port"
      using False p tw [of "CHR '':''" "rev port"] by (simp add: join_host_port_def)
    moreover have "hd (join_host_port host port) \<noteq> CHR ''[''"
      using False h by (cases host) (auto simp: join_host_port_def)
    ultimately show ?thesis using False h p by (simp add: split_host_port_def Let_def) (simp add: join_host_port_def)
  qed
qed

section \<open>Destinations as text\<close>

definition parse_destination :: "string \<Rightarrow> go_error + destination" where
  "parse_destination address =
     (case split_host_port address of None \<Rightarrow> Inl ErrInvalidDestination
      | Some (host, port_text) \<Rightarrow>
          (case parse_uint16 port_text of None \<Rightarrow> Inl ErrInvalidDestination
           | Some port \<Rightarrow> if port = 0 then Inl ErrInvalidDestination else new_destination host (word_of_nat port)))"

definition destination_string :: "destination \<Rightarrow> string" where
  "destination_string d =
     (if is_zero d then '''' else join_host_port (d_host d) (dec_string (unat (d_port d))))"

lemma dest_ok_brackets:
  assumes "dest_ok d"
  shows "\<forall>c \<in> set (d_host d). c \<noteq> CHR ''['' \<and> c \<noteq> CHR '']''"
proof -
  have "host_char c \<or> domain_char c \<or> c = CHR ''.''" if "c \<in> set (d_host d)" for c
    using assms that unfolding dest_ok_def
    by (elim conjE disjE exE) (use addr_string_chars domain_chars in \<open>metis+\<close>)
  moreover have "c \<noteq> CHR ''['' \<and> c \<noteq> CHR '']''" if "host_char c \<or> domain_char c \<or> c = CHR ''.''" for c
    using that by (auto simp: host_char_def domain_char_def hex_val_def code_def)
  ultimately show ?thesis by blast
qed

text \<open>
  The text of a destination denotes it: what the constructor accepts prints to an address that
  \<open>ParseDestination\<close> reads back as the same destination, for IPv4, for IPv6 (whose colons need the
  brackets) and for domains that are not themselves address literals.
\<close>

theorem destination_text_roundtrip:
  assumes "new_destination host port = Inr d" and "\<not> claimed d"
  shows "parse_destination (destination_string d) = Inr d"
proof -
  have ok: "dest_ok d" "d_port d = port" using new_destination_dest_ok [OF assms(1)] by auto
  then have "d_port d \<noteq> 0" by (simp add: dest_ok_def)
  then have port: "unat (d_port d) \<noteq> 0" by (simp add: unat_eq_0)
  have "unat (d_port d) \<le> 65535" using unsigned_less [where ?'a = nat, of "d_port d"] by simp
  then have number: "parse_uint16 (dec_string (unat (d_port d))) = Some (unat (d_port d))" by simp
  have split: "split_host_port (destination_string d) = Some (d_host d, dec_string (unat (d_port d)))"
    using split_join_host_port [OF dest_ok_brackets [OF ok(1)]] dec_string_digits dest_ok_nonzero [OF ok(1)]
    by (simp add: destination_string_def)
  have num: "word_of_nat (unat (d_port d)) = d_port d" by simp
  show ?thesis
    unfolding parse_destination_def split option.case prod.case number if_not_P [OF port] num
    by (simp add: dest_ok_reconstruct [OF ok(1) assms(2)])
qed

lemma destination_text_roundtrip_witness:
  "parse_destination ''ab.c:80'' = Inr \<lparr>type_code = DestinationDomain, d_host = ''ab.c'', d_port = 80\<rparr>"
proof -
  let ?d = "\<lparr>type_code = DestinationDomain, d_host = ''ab.c'', d_port = 80\<rparr>"
  have "parse_addr ''ab.c'' = None" "destination_string ?d = ''ab.c:80''" by code_simp+
  with destination_text_roundtrip [OF sample_destination] show ?thesis by (simp add: claimed_def)
qed

section \<open>Addresses and networks\<close>

definition parse_ip :: "string \<Rightarrow> byte list option" where
  "parse_ip s =
     (case parse_addr s of None \<Rightarrow> None
      | Some a \<Rightarrow>
          (case a of Addr4 bs \<Rightarrow> Some (mapped_prefix @ bs)
           | Addr6 bs z \<Rightarrow> if z = '''' then Some bs else None))"

definition to4 :: "byte list \<Rightarrow> byte list option" where
  "to4 ip = (if length ip = 4 then Some ip
             else if length ip = 16 \<and> take 12 ip = mapped_prefix then Some (drop 12 ip) else None)"

definition ip_equal :: "byte list \<Rightarrow> byte list \<Rightarrow> bool" where
  "ip_equal a b =
     (if length a = length b then a = b
      else if length a = 4 \<and> length b = 16 then take 12 b = mapped_prefix \<and> a = drop 12 b
      else if length a = 16 \<and> length b = 4 then take 12 a = mapped_prefix \<and> drop 12 a = b
      else False)"

definition is_loopback :: "byte list \<Rightarrow> bool" where
  "is_loopback ip =
     (case to4 ip of Some ip4 \<Rightarrow> ip4 ! 0 = 127 | None \<Rightarrow> ip_equal ip (replicate 15 0 @ [1]))"

text \<open>\<^verbatim>\<open>net.CIDRMask\<close>: as many leading ones as the prefix has.\<close>

fun cidr_mask :: "nat \<Rightarrow> nat \<Rightarrow> byte list" where
  "cidr_mask n 0 = []"
| "cidr_mask n (Suc len) =
     (if n \<ge> 8 then 255 # cidr_mask (n - 8) len else NOT (drop_bit n 255) # cidr_mask 0 len)"

record ip_net =
  net_ip :: "byte list"
  net_mask :: "byte list"

definition and_bytes :: "byte list \<Rightarrow> byte list \<Rightarrow> byte list" where
  "and_bytes a b = map2 (\<lambda>x y. x AND y) a b"

text \<open>\<^verbatim>\<open>IP.Mask\<close>; the two special cases take an IPv4 address and a mask of different lengths.\<close>

definition mask_ip :: "byte list \<Rightarrow> byte list \<Rightarrow> byte list" where
  "mask_ip ip m =
     (let m = (if length m = 16 \<and> length ip = 4 \<and> take 12 m = replicate 12 255 then drop 12 m else m);
          ip = (if length m = 4 \<and> length ip = 16 \<and> take 12 ip = mapped_prefix then drop 12 ip else ip)
      in if length ip \<noteq> length m then [] else and_bytes ip m)"

definition addr_bits :: "addr \<Rightarrow> nat" where
  "addr_bits a = (case a of Addr4 _ \<Rightarrow> 32 | Addr6 _ _ \<Rightarrow> 128)"

definition parse_cidr :: "string \<Rightarrow> ip_net option" where
  "parse_cidr s =
     (if CHR ''/'' \<notin> set s then None
      else
        let addr = takeWhile (\<lambda>c. c \<noteq> CHR ''/'') s;
            digits = tl (dropWhile (\<lambda>c. c \<noteq> CHR ''/'') s)
        in case parse_addr addr of None \<Rightarrow> None
           | Some a \<Rightarrow>
               (case parse_ip addr of None \<Rightarrow> None
                | Some ip \<Rightarrow>
                    if digits = '''' \<or> \<not> list_all is_dec digits \<or> dec_value digits > addr_bits a then None
                    else let m = cidr_mask (dec_value digits) (addr_bits a div 8)
                         in Some \<lparr>net_ip = mask_ip ip m, net_mask = m\<rparr>))"

definition network_number_and_mask :: "ip_net \<Rightarrow> byte list \<times> byte list" where
  "network_number_and_mask n =
     (let ip = (case to4 (net_ip n) of Some ip4 \<Rightarrow> ip4 | None \<Rightarrow> net_ip n); m = net_mask n
      in if to4 (net_ip n) = None \<and> length ip \<noteq> 16 then ([], [])
         else if length m = 4 then (if length ip = 4 then (ip, m) else ([], []))
         else if length m = 16 then (ip, if length ip = 4 then drop 12 m else m)
         else ([], []))"

definition net_contains :: "ip_net \<Rightarrow> byte list \<Rightarrow> bool" where
  "net_contains n ip =
     (let (nn, m) = network_number_and_mask n;
          ip = (case to4 ip of Some x \<Rightarrow> x | None \<Rightarrow> ip)
      in length ip = length nn \<and> and_bytes nn m = and_bytes ip m)"

end
