(* ===== verification/Socks5.thy ===== *)
theory Socks5
  imports Session
begin

text \<open>
  The SOCKS5 front end of the client (\<^verbatim>\<open>internal/socks5/socks5.go\<close>): the greeting, the optional
  password exchange, the CONNECT request and the reply. An \<open>io\<close> operation is as in \<open>Auth\<close>; the
  error of a reply that is written on the way out is ignored, as the code does.
\<close>

section \<open>Constants\<close>

definition version5 :: byte where "version5 = 5"
definition methodNoAuth :: byte where "methodNoAuth = 0"
definition methodUsernamePassword :: byte where "methodUsernamePassword = 2"
definition methodUnavailable :: byte where "methodUnavailable = 255"
definition authVersion :: byte where "authVersion = 1"
definition authSucceeded :: byte where "authSucceeded = 0"
definition authFailed :: byte where "authFailed = 1"
definition commandConnect :: byte where "commandConnect = 1"
definition addressIPv4 :: byte where "addressIPv4 = 1"
definition addressDomain :: byte where "addressDomain = 3"
definition addressIPv6 :: byte where "addressIPv6 = 4"

definition ReplySucceeded :: byte where "ReplySucceeded = 0"
definition ReplyGeneralFailure :: byte where "ReplyGeneralFailure = 1"
definition ReplyNotAllowed :: byte where "ReplyNotAllowed = 2"
definition ReplyNetworkUnreachable :: byte where "ReplyNetworkUnreachable = 3"
definition ReplyHostUnreachable :: byte where "ReplyHostUnreachable = 4"
definition ReplyConnectionRefused :: byte where "ReplyConnectionRefused = 5"
definition ReplyTTLExpired :: byte where "ReplyTTLExpired = 6"
definition ReplyCommandNotSupported :: byte where "ReplyCommandNotSupported = 7"
definition ReplyAddressNotSupported :: byte where "ReplyAddressNotSupported = 8"

lemmas socks_constants = version5_def methodNoAuth_def methodUsernamePassword_def methodUnavailable_def
  authVersion_def authSucceeded_def authFailed_def commandConnect_def addressIPv4_def addressDomain_def addressIPv6_def
  ReplySucceeded_def ReplyGeneralFailure_def ReplyNotAllowed_def ReplyNetworkUnreachable_def ReplyHostUnreachable_def
  ReplyConnectionRefused_def ReplyTTLExpired_def ReplyCommandNotSupported_def ReplyAddressNotSupported_def

section \<open>Replies\<close>

text \<open>\<open>_ = f(...)\<close> and a return of \<open>e\<close>.\<close>

definition io_fail_after :: "unit io \<Rightarrow> go_error \<Rightarrow> 'a io" where
  "io_fail_after m e d = (Inl e, snd (m d))"

text \<open>The deferred call clears the write deadline; its error counts when there was no other.\<close>

definition write_reply :: "byte \<Rightarrow> int \<Rightarrow> unit io" where
  "write_reply reply timeout d =
     (if reply > ReplyAddressNotSupported then (Inl ErrInvalidReply, d)
      else let write = send [version5, reply, 0, addressIPv4, 0, 0, 0, 0, 0, 0]
      in if timeout > 0 then
           (case set_deadline d of
              (Inl e, d1) \<Rightarrow> (Inl e, d1)
            | (Inr _, d1) \<Rightarrow>
                (case write d1 of
                   (Inl e, d2) \<Rightarrow> (Inl e, snd (set_deadline d2))
                 | (Inr _, d2) \<Rightarrow> set_deadline d2))
         else write d)"

text \<open>The result numbers of \<^verbatim>\<open>tcpstream.OpenResult\<close>.\<close>

definition OpenResultGeneralFailure :: byte where "OpenResultGeneralFailure = 1"
definition OpenResultConnectionRefused :: byte where "OpenResultConnectionRefused = 2"
definition OpenResultNetworkUnreachable :: byte where "OpenResultNetworkUnreachable = 3"
definition OpenResultHostUnreachable :: byte where "OpenResultHostUnreachable = 4"
definition OpenResultTimeout :: byte where "OpenResultTimeout = 5"

lemmas open_results = OpenResultSuccess_def OpenResultGeneralFailure_def OpenResultConnectionRefused_def
  OpenResultNetworkUnreachable_def OpenResultHostUnreachable_def OpenResultTimeout_def OpenResultPolicyDenied_def

definition reply_for_error :: "go_error \<Rightarrow> byte" where
  "reply_for_error e =
     (case e of
        OpenError result \<Rightarrow>
          if result = OpenResultConnectionRefused then ReplyConnectionRefused
          else if result = OpenResultNetworkUnreachable then ReplyNetworkUnreachable
          else if result = OpenResultHostUnreachable then ReplyHostUnreachable
          else if result = OpenResultTimeout then ReplyTTLExpired
          else if result = OpenResultPolicyDenied then ReplyNotAllowed
          else ReplyGeneralFailure
      | _ \<Rightarrow> ReplyGeneralFailure)"

section \<open>The password exchange\<close>

type_synonym credentials = peer_credentials

definition valid_credentials :: "credentials \<Rightarrow> bool" where
  "valid_credentials c \<longleftrightarrow> length (pc_username c) > 0 \<and> length (pc_username c) \<le> 255 \<and>
     length (pc_password c) > 0 \<and> length (pc_password c) \<le> 255"

definition constant_time_equal :: "byte list \<Rightarrow> byte list \<Rightarrow> bool" where
  "constant_time_equal actual expected \<longleftrightarrow> sha256 actual = sha256 expected"

definition authenticate :: "credentials \<Rightarrow> unit io" where
  "authenticate c =
     io_bind (receive 2) (\<lambda>header.
     if header ! 0 \<noteq> authVersion \<or> header ! 1 = 0 then io_fail_after (send [authVersion, authFailed]) ErrSocksAuthentication
     else
     io_bind (receive (unat (header ! 1))) (\<lambda>username.
     io_bind (receive 1) (\<lambda>password_length.
     if password_length ! 0 = 0 then io_fail_after (send [authVersion, authFailed]) ErrSocksAuthentication
     else
     io_bind (receive (unat (password_length ! 0))) (\<lambda>password.
     if \<not> (constant_time_equal username (pc_username c) \<and> constant_time_equal password (pc_password c))
     then io_fail_after (send [authVersion, authFailed]) ErrSocksAuthentication
     else send [authVersion, authSucceeded]))))"

section \<open>The request\<close>

text \<open>\<^verbatim>\<open>net.IP(value).String()\<close>: an IPv4 address in IPv6 form is printed as the IPv4 address.\<close>

definition ip_string :: "byte list \<Rightarrow> string" where
  "ip_string value =
     addr_string (unmap (if length value = 4 then Addr4 value else Addr6 value ''''))"

definition read_host :: "byte \<Rightarrow> string io" where
  "read_host address_type =
     (if address_type = addressIPv4 then io_bind (receive 4) (\<lambda>value. io_return (ip_string value))
      else if address_type = addressIPv6 then io_bind (receive 16) (\<lambda>value. io_return (ip_string value))
      else if address_type = addressDomain then
        io_bind (receive 1) (\<lambda>len.
        if len ! 0 = 0 then io_lift (Inl ErrInvalidRequest)
        else io_bind (receive (unat (len ! 0))) (\<lambda>value. io_return (string_of_bytes value)))
      else io_lift (Inl ErrInvalidRequest))"

definition read_request :: "destination io" where
  "read_request =
     io_bind (receive 4) (\<lambda>header.
     if header ! 0 \<noteq> version5 \<or> header ! 2 \<noteq> 0 then io_fail_after (write_reply ReplyGeneralFailure 0) ErrInvalidRequest
     else if header ! 1 \<noteq> commandConnect then io_fail_after (write_reply ReplyCommandNotSupported 0) ErrCommandNotSupported
     else if header ! 3 \<noteq> addressIPv4 \<and> header ! 3 \<noteq> addressIPv6 \<and> header ! 3 \<noteq> addressDomain
     then io_fail_after (write_reply ReplyAddressNotSupported 0) ErrInvalidRequest
     else
     io_bind (\<lambda>d. case read_host (header ! 3) d of
          (Inl e, d1) \<Rightarrow> if e = ErrInvalidRequest then io_fail_after (write_reply ReplyGeneralFailure 0) e d1 else (Inl e, d1)
        | ok \<Rightarrow> ok) (\<lambda>host.
     io_bind (receive 2) (\<lambda>port_bytes.
     case new_destination host (get_u16 port_bytes) of
       Inl _ \<Rightarrow> io_fail_after (write_reply ReplyGeneralFailure 0) ErrInvalidRequest
     | Inr dest \<Rightarrow> io_return dest)))"

definition read_connect_with_auth :: "int \<Rightarrow> credentials option \<Rightarrow> destination io" where
  "read_connect_with_auth timeout creds =
     io_bind (if timeout > 0 then set_deadline else io_return ()) (\<lambda>_.
     io_bind (receive 2) (\<lambda>greeting.
     if greeting ! 0 \<noteq> version5 \<or> greeting ! 1 = 0 then io_lift (Inl ErrInvalidRequest)
     else
     io_bind (receive (unat (greeting ! 1))) (\<lambda>methods.
     io_bind (io_guard (case creds of None \<Rightarrow> True | Some c \<Rightarrow> valid_credentials c) ErrSocksAuthentication) (\<lambda>_.
     let required_method = (if creds = None then methodNoAuth else methodUsernamePassword) in
     if required_method \<notin> set methods then io_fail_after (send [version5, methodUnavailable]) ErrNoAcceptableMethod
     else
     io_bind (send [version5, required_method]) (\<lambda>_.
     io_bind (case creds of None \<Rightarrow> io_return () | Some c \<Rightarrow> authenticate c) (\<lambda>_.
     io_bind read_request (\<lambda>dest.
     io_bind (if timeout > 0 then set_deadline else io_return ()) (\<lambda>_.
     io_return dest))))))))"

section \<open>The request is the wire form of a destination\<close>

lemma ip_string_same:
  "length v = 4 \<Longrightarrow> ip_string v = addr_string (Addr4 v)"
  "length v = 16 \<Longrightarrow> new_destination (ip_string v) p = new_destination (addr_string (Addr6 v '''')) p"
proof -
  show "length v = 4 \<Longrightarrow> ip_string v = addr_string (Addr4 v)" by (simp add: ip_string_def)
  assume len: "length v = 16"
  show "new_destination (ip_string v) p = new_destination (addr_string (Addr6 v '''')) p"
  proof (cases "p = 0")
    case True
    then show ?thesis by (simp add: new_destination_def)
  next
    case False
    have "length (drop 12 v) = 4" using len by simp
    from new_destination_addr4 [OF this False] new_destination_addr6 [OF len False] len show ?thesis
      by (simp add: ip_string_def del: addr_string.simps is_4in6.simps)
  qed
qed

lemma decode_forms:
  assumes "decode_destination payload = Inr dest"
  shows "\<exists>port. length port = 2 \<and>
    ((\<exists>v. length v = 4 \<and> payload = [DestinationIPv4] @ v @ port \<and> new_destination (ip_string v) (get_u16 port) = Inr dest) \<or>
     (\<exists>v. length v = 16 \<and> payload = [DestinationIPv6] @ v @ port \<and> new_destination (ip_string v) (get_u16 port) = Inr dest) \<or>
     (\<exists>n v. n \<noteq> 0 \<and> length v = unat n \<and> payload = [DestinationDomain, n] @ v @ port \<and>
        new_destination (string_of_bytes v) (get_u16 port) = Inr dest))"
proof -
  have len: "3 \<le> length payload" using assms by (auto simp: decode_destination_def split: if_splits)
  then obtain t q where p: "payload = t # q" by (cases payload) auto
  consider "t = DestinationIPv4" | "t = DestinationIPv6" | "t = DestinationDomain"
    using assms p by (auto simp: decode_destination_def split: if_splits)
  then show ?thesis
  proof cases
    case 1
    with assms p have "length q = 6" "new_destination (addr_string (Addr4 (take 4 q))) (get_u16 (drop 4 q)) = Inr dest"
      by (auto simp: decode_destination_def addr_from_slice_def simp del: addr_string.simps split: if_splits)
    with 1 p show ?thesis
      by (intro exI [of _ "drop 4 q"] conjI disjI1 exI [of _ "take 4 q"]) (simp_all add: ip_string_same del: addr_string.simps)
  next
    case 2
    with assms p have "length q = 18" "new_destination (addr_string (Addr6 (take 16 q) '''')) (get_u16 (drop 16 q)) = Inr dest"
      by (auto simp: decode_destination_def addr_from_slice_def simp del: addr_string.simps split: if_splits)
    with 2 p show ?thesis
      by (intro exI [of _ "drop 16 q"] conjI disjI2 disjI1 exI [of _ "take 16 q"]) (simp_all add: ip_string_same del: addr_string.simps)
  next
    case 3
    then obtain n r where q: "q = n # r" using assms p by (cases q) (auto simp: decode_destination_def)
    with 3 assms p have "n \<noteq> 0" "length r = unat n + 2"
        "new_destination (string_of_bytes (take (unat n) r)) (get_u16 (drop (unat n) r)) = Inr dest"
      by (auto simp: decode_destination_def Let_def unat_eq_0 split: if_splits)
    with 3 p q show ?thesis
      by (intro exI [of _ "drop (unat n) r"] conjI disjI2 exI [of _ n] exI [of _ "take (unat n) r"]) simp_all
  qed
qed

lemma form_decodes:
  "length v = 4 \<Longrightarrow> length port = 2 \<Longrightarrow>
     decode_destination ([DestinationIPv4] @ v @ port) = new_destination (ip_string v) (get_u16 port)"
  "length v = 16 \<Longrightarrow> length port = 2 \<Longrightarrow>
     decode_destination ([DestinationIPv6] @ v @ port) = new_destination (ip_string v) (get_u16 port)"
  "n \<noteq> 0 \<Longrightarrow> length v = unat n \<Longrightarrow> length port = 2 \<Longrightarrow>
     decode_destination ([DestinationDomain, n] @ v @ port) = new_destination (string_of_bytes v) (get_u16 port)"
  by (auto simp: decode_destination_def addr_from_slice_def ip_string_same Let_def unat_eq_0 simp del: addr_string.simps)

lemma socks_types: "DestinationIPv4 = addressIPv4" "DestinationIPv6 = addressIPv6" "DestinationDomain = addressDomain"
  by (simp_all add: DestinationIPv4_def DestinationIPv6_def DestinationDomain_def socks_constants)

lemma receive_at [simp]:
  "length xs = n \<Longrightarrow> receive n (duplex_of (xs @ ys) rnd out) = (Inr xs, duplex_of ys rnd out)"
  "receive (Suc 0) (duplex_of (x # ys) rnd out) = (Inr [x], duplex_of ys rnd out)"
  "receive 2 (duplex_of (x # y # ys) rnd out) = (Inr [x, y], duplex_of ys rnd out)"
  "receive 4 (duplex_of (x # y # z # w # ys) rnd out) = (Inr [x, y, z, w], duplex_of ys rnd out)"
  using receive_of [of xs n] receive_of [of "[x]" "Suc 0"] receive_of [of "[x, y]" 2] receive_of [of "[x, y, z, w]" 4] by simp_all

lemma read_request_of:
  assumes "decode_destination payload = Inr dest"
  shows "read_request (duplex_of ([version5, commandConnect, 0] @ payload @ rest) rnd out) = (Inr dest, duplex_of rest rnd out)"
proof -
  obtain port where port: "length port = 2" and forms:
    "(\<exists>v. length v = 4 \<and> payload = [DestinationIPv4] @ v @ port \<and> new_destination (ip_string v) (get_u16 port) = Inr dest) \<or>
     (\<exists>v. length v = 16 \<and> payload = [DestinationIPv6] @ v @ port \<and> new_destination (ip_string v) (get_u16 port) = Inr dest) \<or>
     (\<exists>n v. n \<noteq> 0 \<and> length v = unat n \<and> payload = [DestinationDomain, n] @ v @ port \<and>
        new_destination (string_of_bytes v) (get_u16 port) = Inr dest)"
    using decode_forms [OF assms] by blast
  from forms show ?thesis
  proof (elim disjE exE conjE)
    fix v assume "length v = 4" "payload = [DestinationIPv4] @ v @ port" "new_destination (ip_string v) (get_u16 port) = Inr dest"
    then show ?thesis using port by (simp add: read_request_def read_host_def socks_types socks_constants)
  next
    fix v assume "length v = 16" "payload = [DestinationIPv6] @ v @ port" "new_destination (ip_string v) (get_u16 port) = Inr dest"
    then show ?thesis using port by (simp add: read_request_def read_host_def socks_types socks_constants)
  next
    fix n v assume "n \<noteq> 0" "length v = unat n" "payload = [DestinationDomain, n] @ v @ port"
      "new_destination (string_of_bytes v) (get_u16 port) = Inr dest"
    then show ?thesis using port by (simp add: read_request_def read_host_def socks_types socks_constants)
  qed
qed

lemma authenticate_of:
  assumes "valid_credentials c"
  shows "authenticate c (duplex_of ([authVersion, word_of_nat (length (pc_username c))] @ pc_username c @
      [word_of_nat (length (pc_password c))] @ pc_password c @ rest) rnd out) =
    (Inr (), duplex_of rest rnd (out @ [authVersion, authSucceeded]))"
proof -
  have len: "unat (word_of_nat (length x) :: byte) = length x" "(word_of_nat (length x) :: byte) \<noteq> 0"
    if "0 < length x" "length x \<le> 255" for x :: "byte list"
    using that by (auto simp: unat_byte_of_nat word_of_nat_eq_0_iff dest: dvd_imp_le)
  from assms len [of "pc_username c"] len [of "pc_password c"] show ?thesis
    by (simp add: valid_credentials_def authenticate_def constant_time_equal_def send_of)
qed

section \<open>Properties\<close>

text \<open>What a client sends to authenticate.\<close>

definition password_message :: "byte list \<Rightarrow> byte list \<Rightarrow> byte list" where
  "password_message username password =
     [authVersion, word_of_nat (length username)] @ username @ [word_of_nat (length password)] @ password"

text \<open>
  C32. A SOCKS client that speaks the protocol is served: when it offers the required method, sends the
  configured credentials if there are any, and then a CONNECT request for the wire form of a
  destination, the handshake returns exactly the destination that \<open>DecodeDestination\<close> reads from these
  bytes, has answered with the selected method (and the status of the password), and leaves the bytes
  that follow unread.
\<close>

theorem socks_serves:
  assumes "decode_destination payload = Inr dest"
    and "methods \<noteq> []" "length methods \<le> 255"
    and "(if creds = None then methodNoAuth else methodUsernamePassword) \<in> set methods"
    and "\<forall>c. creds = Some c \<longrightarrow> valid_credentials c"
  shows "read_connect_with_auth timeout creds
      (duplex_of ([version5, word_of_nat (length methods)] @ methods @
         (case creds of None \<Rightarrow> [] | Some c \<Rightarrow> password_message (pc_username c) (pc_password c)) @
         [version5, commandConnect, 0] @ payload @ rest) rnd out) =
    (Inr dest, duplex_of rest rnd (out @
       (if creds = None then [version5, methodNoAuth] else [version5, methodUsernamePassword, authVersion, authSucceeded])))"
proof -
  have len: "unat (word_of_nat (length methods) :: byte) = length methods" "(word_of_nat (length methods) :: byte) \<noteq> 0"
    using assms(2,3) by (auto simp: unat_byte_of_nat word_of_nat_eq_0_iff dest: dvd_imp_le)
  note req = read_request_of [OF assms(1), simplified]
  show ?thesis
  proof (cases creds)
    case None
    with assms(4) len req show ?thesis by (simp add: read_connect_with_auth_def send_of)
  next
    case (Some c)
    with assms(5) have c: "valid_credentials c" by simp
    from Some assms(4) len req c authenticate_of [OF c, simplified] show ?thesis
      by (simp add: read_connect_with_auth_def send_of password_message_def)
  qed
qed

lemma sample_payload:
  "decode_destination [3, 4, 97, 98, 46, 99, 0, 80] = Inr \<lparr>type_code = DestinationDomain, d_host = ''ab.c'', d_port = 80\<rparr>"
  by code_simp

abbreviation sample_credentials :: credentials where
  "sample_credentials \<equiv> \<lparr>pc_username = [117], pc_password = [112, 113]\<rparr>"

lemma socks_serves_witness:
  "read_connect_with_auth 5 (Some sample_credentials)
     (duplex_of [5, 2, 0, 2, 1, 1, 117, 2, 112, 113, 5, 1, 0, 3, 4, 97, 98, 46, 99, 0, 80, 42] [] []) =
   (Inr \<lparr>type_code = DestinationDomain, d_host = ''ab.c'', d_port = 80\<rparr>, duplex_of [42] [] [5, 2, 1, 0])"
  using socks_serves [OF sample_payload, of "[0, 2]" "Some sample_credentials" 5 "[42]" "[]" "[]"]
  by (simp add: valid_credentials_def password_message_def socks_constants)

section \<open>What a success means\<close>

lemma fail_after_fails [simp]: "io_fail_after m e d \<noteq> (Inr x, d')"
  by (simp add: io_fail_after_def)

lemma set_deadline_ok:
  "set_deadline d = (Inr u, d') \<Longrightarrow> dx_in d' = dx_in d \<and> c_out (dx_out d') = c_out (dx_out d)"
  using c_out_set_write_deadline [of "dx_out d"]
  by (cases "conn_set_write_deadline (dx_out d)"; cases "fst (conn_set_write_deadline (dx_out d))") (auto simp: set_deadline_def)

lemma authenticate_ok:
  assumes "authenticate c d = (Inr u, d')"
  shows "\<exists>username password. rd_bytes (dx_in d) = password_message username password @ rd_bytes (dx_in d') \<and>
    sha256 username = sha256 (pc_username c) \<and> sha256 password = sha256 (pc_password c) \<and>
    c_out (dx_out d') = c_out (dx_out d) @ [authVersion, authSucceeded]"
proof -
  from assms obtain header d1 where h: "receive 2 d = (Inr header, d1)" and "header ! 0 = authVersion" "header ! 1 \<noteq> 0"
      and rest: "io_bind (receive (unat (header ! 1))) (\<lambda>username.
     io_bind (receive 1) (\<lambda>password_length.
     if password_length ! 0 = 0 then io_fail_after (send [authVersion, authFailed]) ErrSocksAuthentication
     else
     io_bind (receive (unat (password_length ! 0))) (\<lambda>password.
     if \<not> (constant_time_equal username (pc_username c) \<and> constant_time_equal password (pc_password c))
     then io_fail_after (send [authVersion, authFailed]) ErrSocksAuthentication
     else send [authVersion, authSucceeded]))) d1 = (Inr u, d')"
    unfolding authenticate_def by (elim io_bindE) (simp split: if_splits)
  from rest obtain username d2 len d3 where un: "receive (unat (header ! 1)) d1 = (Inr username, d2)"
      and ln: "receive 1 d2 = (Inr len, d3)" and rest2: "io_bind (receive (unat (len ! 0))) (\<lambda>password.
     if \<not> (constant_time_equal username (pc_username c) \<and> constant_time_equal password (pc_password c))
     then io_fail_after (send [authVersion, authFailed]) ErrSocksAuthentication
     else send [authVersion, authSucceeded]) d3 = (Inr u, d')"
    by (elim io_bindE) (simp split: if_splits)
  from rest2 obtain password d4 where pw: "receive (unat (len ! 0)) d3 = (Inr password, d4)"
      and eq: "constant_time_equal username (pc_username c)" "constant_time_equal password (pc_password c)"
      and s: "send [authVersion, authSucceeded] d4 = (Inr u, d')"
    by (elim io_bindE) (simp split: if_splits)
  note facts = receive_ok [OF h] receive_ok [OF un] receive_ok [OF ln] receive_ok [OF pw]
  have header: "header = [authVersion, word_of_nat (length username)]"
  proof -
    have "length header = 2" "length username = unat (header ! 1)" using facts by simp_all
    moreover from this(1) obtain x y where "header = [x, y]" by (auto simp: length_Suc_conv numeral_2_eq_2)
    ultimately show ?thesis using \<open>header ! 0 = authVersion\<close> by simp
  qed
  have len: "len = [word_of_nat (length password)]"
  proof -
    have "length len = 1" "length password = unat (len ! 0)" using facts by simp_all
    moreover from this(1) obtain x where "len = [x]" by (auto simp: length_Suc_conv)
    ultimately show ?thesis by simp
  qed
  have bytes: "rd_bytes (dx_in d) = header @ username @ len @ password @ rd_bytes (dx_in d')"
    "c_out (dx_out d') = c_out (dx_out d) @ [authVersion, authSucceeded]"
    using facts [THEN conjunct2] send_ok [OF s] by simp_all
  show ?thesis
    by (rule exI [of _ username], rule exI [of _ password])
      (use bytes header len eq in \<open>simp add: password_message_def constant_time_equal_def\<close>)
qed

lemma read_host_ok:
  assumes "read_host t d = (Inr host, d')"
  shows "\<exists>v. c_out (dx_out d') = c_out (dx_out d) \<and>
    ((t = addressIPv4 \<and> length v = 4 \<and> rd_bytes (dx_in d) = v @ rd_bytes (dx_in d') \<and> host = ip_string v) \<or>
     (t = addressIPv6 \<and> length v = 16 \<and> rd_bytes (dx_in d) = v @ rd_bytes (dx_in d') \<and> host = ip_string v) \<or>
     (t = addressDomain \<and> (\<exists>n. n \<noteq> 0 \<and> length v = unat n \<and> rd_bytes (dx_in d) = [n] @ v @ rd_bytes (dx_in d') \<and> host = string_of_bytes v)))"
proof -
  consider "t = addressIPv4" | "t = addressIPv6" | "t = addressDomain"
    using assms by (auto simp: read_host_def split: if_splits)
  then show ?thesis
  proof cases
    case 1
    with assms show ?thesis by (auto simp: read_host_def socks_constants elim!: io_bindE dest!: receive_ok io_ok)
  next
    case 2
    with assms show ?thesis by (auto simp: read_host_def socks_constants elim!: io_bindE dest!: receive_ok io_ok)
  next
    case 3
    with assms obtain len d1 where l: "receive 1 d = (Inr len, d1)" "len ! 0 \<noteq> 0"
        and "io_bind (receive (unat (len ! 0))) (\<lambda>value. io_return (string_of_bytes value)) d1 = (Inr host, d')"
      by (auto simp: read_host_def socks_constants elim!: io_bindE split: if_splits)
    then obtain v where v: "receive (unat (len ! 0)) d1 = (Inr v, d')" "host = string_of_bytes v"
      by (auto elim!: io_bindE dest!: io_ok)
    note facts = receive_ok [OF l(1)] receive_ok [OF v(1)]
    then obtain n where "len = [n]" by (auto simp: length_Suc_conv)
    with 3 facts l v show ?thesis by (intro exI [of _ v]) auto
  qed
qed

lemma read_request_ok:
  assumes "read_request d = (Inr dest, d')"
  shows "\<exists>payload. rd_bytes (dx_in d) = [version5, commandConnect, 0] @ payload @ rd_bytes (dx_in d') \<and>
    decode_destination payload = Inr dest \<and> c_out (dx_out d') = c_out (dx_out d)"
proof -
  let ?host = "\<lambda>t d. case read_host t d of
          (Inl e, d1) \<Rightarrow> if e = ErrInvalidRequest then io_fail_after (write_reply ReplyGeneralFailure 0) e d1 else (Inl e, d1)
        | ok \<Rightarrow> ok"
  from assms obtain header d1 where h: "receive 4 d = (Inr header, d1)" and hd: "header ! 0 = version5" "header ! 2 = 0" "header ! 1 = commandConnect"
      and rest: "io_bind (?host (header ! 3)) (\<lambda>host. io_bind (receive 2) (\<lambda>port_bytes.
     case new_destination host (get_u16 port_bytes) of
       Inl _ \<Rightarrow> io_fail_after (write_reply ReplyGeneralFailure 0) ErrInvalidRequest
     | Inr dest \<Rightarrow> io_return dest)) d1 = (Inr dest, d')"
    unfolding read_request_def by (elim io_bindE) (simp split: if_splits)
  from rest obtain host d2 port d3 where "?host (header ! 3) d1 = (Inr host, d2)" and p: "receive 2 d2 = (Inr port, d3)"
      and "(case new_destination host (get_u16 port) of
       Inl _ \<Rightarrow> io_fail_after (write_reply ReplyGeneralFailure 0) ErrInvalidRequest
     | Inr dest \<Rightarrow> io_return dest) d3 = (Inr dest, d')"
    by (elim io_bindE) blast
  then have host: "read_host (header ! 3) d1 = (Inr host, d2)" and new: "new_destination host (get_u16 port) = Inr dest" "d' = d3"
    by (auto split: prod.splits sum.splits if_splits dest!: io_ok)
  obtain v where v: "c_out (dx_out d2) = c_out (dx_out d1)" and forms:
    "(header ! 3 = addressIPv4 \<and> length v = 4 \<and> rd_bytes (dx_in d1) = v @ rd_bytes (dx_in d2) \<and> host = ip_string v) \<or>
     (header ! 3 = addressIPv6 \<and> length v = 16 \<and> rd_bytes (dx_in d1) = v @ rd_bytes (dx_in d2) \<and> host = ip_string v) \<or>
     (header ! 3 = addressDomain \<and> (\<exists>n. n \<noteq> 0 \<and> length v = unat n \<and> rd_bytes (dx_in d1) = [n] @ v @ rd_bytes (dx_in d2) \<and> host = string_of_bytes v))"
    using read_host_ok [OF host] by blast
  obtain t where header: "header = [version5, commandConnect, 0, t]"
    using receive_ok [OF h] hd by (auto simp: length_Suc_conv eval_nat_numeral)
  have len: "length port = 2" using receive_ok [OF p] by simp
  have bytes: "rd_bytes (dx_in d) = [version5, commandConnect, 0, t] @ rd_bytes (dx_in d1)" "rd_bytes (dx_in d2) = port @ rd_bytes (dx_in d')"
    "c_out (dx_out d') = c_out (dx_out d)" using receive_ok [OF h] receive_ok [OF p] v header new by simp_all
  from forms header have "\<exists>payload. t # rd_bytes (dx_in d1) = payload @ rd_bytes (dx_in d') \<and> decode_destination payload = Inr dest"
  proof (elim disjE conjE exE)
    assume "header ! 3 = addressIPv4" "length v = 4" "rd_bytes (dx_in d1) = v @ rd_bytes (dx_in d2)" "host = ip_string v"
    with header len new bytes(2) form_decodes(1) [of v port] show ?thesis
      by (intro exI [of _ "[DestinationIPv4] @ v @ port"]) (simp add: socks_types)
  next
    assume "header ! 3 = addressIPv6" "length v = 16" "rd_bytes (dx_in d1) = v @ rd_bytes (dx_in d2)" "host = ip_string v"
    with header len new bytes(2) form_decodes(2) [of v port] show ?thesis
      by (intro exI [of _ "[DestinationIPv6] @ v @ port"]) (simp add: socks_types)
  next
    fix n assume "header ! 3 = addressDomain" "n \<noteq> 0" "length v = unat n" "rd_bytes (dx_in d1) = [n] @ v @ rd_bytes (dx_in d2)"
      "host = string_of_bytes v"
    with header len new bytes(2) form_decodes(3) [of n v port] show ?thesis
      by (intro exI [of _ "[DestinationDomain, n] @ v @ port"]) (simp add: socks_types)
  qed
  with bytes show ?thesis by auto
qed

text \<open>
  A success is earned: when the SOCKS handshake returns a destination, the bytes it has read are a
  greeting that offers the required method, then (exactly when credentials are configured, which are
  then usable ones) a password message whose name and password have the digests of the configured ones,
  then a CONNECT request whose address and port \<open>DecodeDestination\<close> reads as the returned destination;
  and what it has written is the selected method and the status of the password.
\<close>

theorem socks_success:
  assumes "read_connect_with_auth timeout creds d = (Inr dest, d')"
  shows "\<exists>methods auth payload.
    rd_bytes (dx_in d) = [version5, word_of_nat (length methods)] @ methods @ auth @
       [version5, commandConnect, 0] @ payload @ rd_bytes (dx_in d') \<and>
    decode_destination payload = Inr dest \<and>
    (case creds of
       None \<Rightarrow> methodNoAuth \<in> set methods \<and> auth = [] \<and> c_out (dx_out d') = c_out (dx_out d) @ [version5, methodNoAuth]
     | Some c \<Rightarrow> methodUsernamePassword \<in> set methods \<and> valid_credentials c \<and>
         (\<exists>username password. auth = password_message username password \<and>
            sha256 username = sha256 (pc_username c) \<and> sha256 password = sha256 (pc_password c)) \<and>
         c_out (dx_out d') = c_out (dx_out d) @ [version5, methodUsernamePassword, authVersion, authSucceeded])"
proof -
  define required where "required = (if creds = None then methodNoAuth else methodUsernamePassword)"
  let ?dl = "if timeout > 0 then set_deadline else io_return ()"
  let ?guard = "io_guard (case creds of None \<Rightarrow> True | Some c \<Rightarrow> valid_credentials c) ErrSocksAuthentication"
  let ?serve = "io_bind (send [version5, required]) (\<lambda>_.
       io_bind (case creds of None \<Rightarrow> io_return () | Some c \<Rightarrow> authenticate c) (\<lambda>_.
       io_bind read_request (\<lambda>dest. io_bind ?dl (\<lambda>_. io_return dest))))"
  let ?choose = "\<lambda>methods. io_bind ?guard (\<lambda>_.
     if required \<notin> set methods then io_fail_after (send [version5, methodUnavailable]) ErrNoAcceptableMethod else ?serve)"
  have unfold: "read_connect_with_auth timeout creds = io_bind ?dl (\<lambda>_. io_bind (receive 2) (\<lambda>greeting.
     if greeting ! 0 \<noteq> version5 \<or> greeting ! 1 = 0 then io_lift (Inl ErrInvalidRequest)
     else io_bind (receive (unat (greeting ! 1))) ?choose))"
    by (simp only: read_connect_with_auth_def required_def Let_def)
  from assms obtain u0 d0 greeting d1 where
      s0: "?dl d = (Inr u0, d0)" and s1: "receive 2 d0 = (Inr greeting, d1)" and
      "(if greeting ! 0 \<noteq> version5 \<or> greeting ! 1 = 0 then io_lift (Inl ErrInvalidRequest)
       else io_bind (receive (unat (greeting ! 1))) ?choose) d1 = (Inr dest, d')"
    unfolding unfold by (elim io_bindE) blast
  then have g: "greeting ! 0 = version5" and "io_bind (receive (unat (greeting ! 1))) ?choose d1 = (Inr dest, d')"
    by (auto simp: io_lift_def split: if_splits)
  then obtain methods d2 u3 d3 where
      s2: "receive (unat (greeting ! 1)) d1 = (Inr methods, d2)" and s3: "?guard d2 = (Inr u3, d3)" and
      "(if required \<notin> set methods then io_fail_after (send [version5, methodUnavailable]) ErrNoAcceptableMethod else ?serve) d3 = (Inr dest, d')"
    by (elim io_bindE) blast
  then have m: "required \<in> set methods" and rest: "?serve d3 = (Inr dest, d')" by (auto split: if_splits)
  from rest obtain u4 d4 u5 d5 d6 u7 d7 where
      s4: "send [version5, required] d3 = (Inr u4, d4)"
      and s5: "(case creds of None \<Rightarrow> io_return () | Some c \<Rightarrow> authenticate c) d4 = (Inr u5, d5)"
      and s6: "read_request d5 = (Inr dest, d6)" and s7: "?dl d6 = (Inr u7, d7)" and "d' = d7"
    by (elim io_bindE) (auto dest!: io_ok)
  have dl: "dx_in b = dx_in a \<and> c_out (dx_out b) = c_out (dx_out a)" if "?dl a = (Inr u, b)" for a b u
    using that set_deadline_ok [of a u b] by (auto split: if_splits dest!: io_ok)
  obtain payload where payload: "rd_bytes (dx_in d5) = [version5, commandConnect, 0] @ payload @ rd_bytes (dx_in d6)"
      "decode_destination payload = Inr dest" "c_out (dx_out d6) = c_out (dx_out d5)"
    using read_request_ok [OF s6] by blast
  have greeting: "greeting = [version5, word_of_nat (length methods)]"
  proof -
    have "length greeting = 2" "length methods = unat (greeting ! 1)" using receive_ok [OF s1] receive_ok [OF s2] by simp_all
    moreover from this(1) obtain x y where "greeting = [x, y]" by (auto simp: length_Suc_conv numeral_2_eq_2)
    ultimately show ?thesis using g by simp
  qed
  have keep: "dx_in d0 = dx_in d" "c_out (dx_out d0) = c_out (dx_out d)" "d3 = d2"
    "dx_in d' = dx_in d6" "c_out (dx_out d') = c_out (dx_out d6)"
    using dl [OF s0] dl [OF s7] io_ok(1) [OF s3] \<open>d' = d7\<close> by simp_all
  have head: "rd_bytes (dx_in d) = greeting @ methods @ rd_bytes (dx_in d4)"
    "c_out (dx_out d4) = c_out (dx_out d) @ [version5, required]"
    using receive_ok [OF s1, THEN conjunct2] receive_ok [OF s2, THEN conjunct2] send_ok [OF s4] keep by simp_all
  show ?thesis
  proof (cases creds)
    case None
    with s5 have "d5 = d4" by (auto dest: io_ok)
    with None head payload greeting keep m show ?thesis
      by (intro exI [of _ methods] exI [of _ "[]"] exI [of _ payload]) (simp add: required_def)
  next
    case (Some c)
    with s5 obtain username password where
        auth: "rd_bytes (dx_in d4) = password_message username password @ rd_bytes (dx_in d5)"
          "sha256 username = sha256 (pc_username c)" "sha256 password = sha256 (pc_password c)"
          "c_out (dx_out d5) = c_out (dx_out d4) @ [authVersion, authSucceeded]"
      using authenticate_ok [of c d4 u5 d5] by auto
    have "valid_credentials c" using io_ok(1) [OF s3] Some by simp
    with Some auth head payload greeting keep m show ?thesis
      by (intro exI [of _ methods] exI [of _ "password_message username password"] exI [of _ payload]) (auto simp: required_def)
  qed
qed

lemma sample_unauthenticated:
  "read_connect_with_auth 0 None (duplex_of [5, 1, 0, 5, 1, 0, 3, 4, 97, 98, 46, 99, 0, 80] [] []) =
   (Inr \<lparr>type_code = DestinationDomain, d_host = ''ab.c'', d_port = 80\<rparr>, duplex_of [] [] [5, 0])"
  using read_request_of [OF sample_payload, of "[]" "[]" "[5, 0]"] receive_at(1) [of "[0]" "Suc 0"]
  by (simp add: read_connect_with_auth_def socks_constants send_of)

lemma socks_success_witness:
  "\<exists>payload. [5, 1, 0, 5, 1, 0, 3, 4, 97, 98, 46, 99, 0, 80] = [5, 1, 0, 5, 1, 0] @ payload \<and>
     decode_destination payload = Inr \<lparr>type_code = DestinationDomain, d_host = ''ab.c'', d_port = 80\<rparr>"
proof -
  obtain methods payload where *: "[5, 1, 0, 5, 1, 0, 3, 4, 97, 98, 46, 99, 0, 80] =
      [version5, word_of_nat (length methods)] @ methods @ [version5, commandConnect, 0] @ payload"
    and "decode_destination payload = Inr \<lparr>type_code = DestinationDomain, d_host = ''ab.c'', d_port = 80\<rparr>"
    "methodNoAuth \<in> set methods"
    using socks_success [OF sample_unauthenticated] by (auto simp: duplex_of_def)
  moreover have "methods = [0]" "payload = [3, 4, 97, 98, 46, 99, 0, 80]"
  proof -
    from * obtain m ms where "methods = m # ms" using \<open>methodNoAuth \<in> set methods\<close> by (cases methods) auto
    with * show "methods = [0]" "payload = [3, 4, 97, 98, 46, 99, 0, 80]"
      by (auto simp: socks_constants Cons_eq_append_conv)
  qed
  ultimately show ?thesis by simp
qed

text \<open>
  Every reply is well formed: whatever the error of an open attempt, \<open>ReplyForError\<close> gives a
  code that \<open>WriteReply\<close> accepts, never success; the six refusals of a server keep their meaning, and on a
  healthy connection the reply is ten bytes that carry the code.
\<close>

theorem replies_well_formed:
  "write_reply (reply_for_error e) timeout (duplex_of inc rnd out) =
     (Inr (), duplex_of inc rnd (out @ [version5, reply_for_error e, 0, addressIPv4, 0, 0, 0, 0, 0, 0])) \<and>
   reply_for_error e \<noteq> ReplySucceeded \<and>
   map (\<lambda>r. reply_for_error (OpenError r)) [OpenResultGeneralFailure, OpenResultConnectionRefused, OpenResultNetworkUnreachable,
       OpenResultHostUnreachable, OpenResultTimeout, OpenResultPolicyDenied] =
     [ReplyGeneralFailure, ReplyConnectionRefused, ReplyNetworkUnreachable, ReplyHostUnreachable, ReplyTTLExpired, ReplyNotAllowed]"
proof (intro conjI)
  have range: "reply_for_error e \<in> {ReplyGeneralFailure, ReplyNotAllowed, ReplyNetworkUnreachable, ReplyHostUnreachable,
      ReplyConnectionRefused, ReplyTTLExpired}"
    by (simp add: reply_for_error_def split: go_error.split)
  then show "reply_for_error e \<noteq> ReplySucceeded" by (auto simp: socks_constants)
  have "\<not> reply_for_error e > ReplyAddressNotSupported" using range by (auto simp: socks_constants)
  then show "write_reply (reply_for_error e) timeout (duplex_of inc rnd out) =
     (Inr (), duplex_of inc rnd (out @ [version5, reply_for_error e, 0, addressIPv4, 0, 0, 0, 0, 0, 0]))"
    by (simp add: write_reply_def send_of Let_def)
qed (simp add: reply_for_error_def open_results socks_constants)

end
