(* ===== verification/Config.thy ===== *)
theory Config
  imports Netaddr Socks5
begin

text \<open>
  The configuration (\<^verbatim>\<open>internal/config/config.go\<close>): its data, the defaults, the validation of both
  roles and the choice of the role. Reading the file and decoding YAML are library calls and a
  parameter (\<open>load\<close>); \<open>pattern_ok\<close> stands for \<^verbatim>\<open>path.Match\<close> accepting a pattern. Numbers of type
  \<^verbatim>\<open>int\<close> and \<^verbatim>\<open>int64\<close> are only compared, never computed with. A map of the file is an association
  list with its keys in the order in which the loop visits them. An error is the
  constructor of its message, with the fields that are printed into it.
\<close>

section \<open>Data\<close>

datatype role = RoleClient | RoleServer

definition DefaultTransferKeepaliveIntervalMillis :: int where "DefaultTransferKeepaliveIntervalMillis = 1000"
definition DefaultTransferKeepaliveTimeoutMillis :: int where "DefaultTransferKeepaliveTimeoutMillis = 5000"
definition DefaultTCPChunkSize :: int where "DefaultTCPChunkSize = 16 * 1024"
definition DefaultTCPCarrierQueueBytes :: int where "DefaultTCPCarrierQueueBytes = 1024 * 1024"
definition DefaultTCPReorderWindowBytes :: int where "DefaultTCPReorderWindowBytes = 4 * 1024 * 1024"
definition DefaultTCPDialTimeoutMillis :: int where "DefaultTCPDialTimeoutMillis = 5000"
definition DefaultTCPOpenTimeoutMillis :: int where "DefaultTCPOpenTimeoutMillis = 5000"
definition DefaultTCPWriteTimeoutMillis :: int where "DefaultTCPWriteTimeoutMillis = 10000"
definition MaxTCPSessionBufferBytes :: int where "MaxTCPSessionBufferBytes = 2 ^ 31 - 1"

lemmas config_constants = DefaultTransferKeepaliveIntervalMillis_def DefaultTransferKeepaliveTimeoutMillis_def
  DefaultTCPChunkSize_def DefaultTCPCarrierQueueBytes_def DefaultTCPReorderWindowBytes_def DefaultTCPDialTimeoutMillis_def
  DefaultTCPOpenTimeoutMillis_def DefaultTCPWriteTimeoutMillis_def MaxTCPSessionBufferBytes_def

record web_manager =
  wm_listen_addr :: string
  wm_username :: string
  wm_password :: string

record tcp_transfer =
  tt_chunk_size :: int
  tt_carrier_queue_bytes :: int
  tt_reorder_window_bytes :: int
  tt_dial_timeout_millis :: int
  tt_open_timeout_millis :: int
  tt_write_timeout_millis :: int
  tt_max_streams :: int
  tt_max_carriers_per_stream :: int
  tt_max_pending_connections :: int
  tt_max_pending_streams :: int
  tt_max_sessions :: int

record transfer =
  tr_keepalive_interval_millis :: int
  tr_keepalive_timeout_millis :: int
  tr_tcp :: tcp_transfer

record cfg_credentials =
  cc_username :: string
  cc_password :: string

record dst_override =
  do_if_name :: string
  do_dst_addr :: string

record client_config =
  cl_description :: string
  cl_listen_addr :: string
  cl_dst_addr :: string
  cl_socks5_auth :: "cfg_credentials option"
  cl_peer_auth :: "cfg_credentials option"
  cl_allow_unsafe_frontend :: bool
  cl_include_interfaces :: "string list"
  cl_excluded_interfaces :: "string list"
  cl_interface_labels :: "(string \<times> string) list"
  cl_dst_overrides :: "dst_override list"
  cl_transfer :: transfer
  cl_web_manager :: web_manager

record server_config =
  sv_description :: string
  sv_listen_addr :: string
  sv_allow_unsafe_dynamic_destination :: bool
  sv_allowed_clients :: "string list"
  sv_peer_auth :: "(string \<times> string) list option"
  sv_transfer :: transfer
  sv_web_manager :: web_manager

record config =
  cf_client :: client_config
  cf_server :: server_config
  cf_client_section_present :: bool
  cf_server_section_present :: bool

section \<open>Defaults\<close>

definition tcp_apply_defaults :: "tcp_transfer \<Rightarrow> tcp_transfer" where
  "tcp_apply_defaults tcp = tcp\<lparr>
     tt_chunk_size := (if tt_chunk_size tcp = 0 then DefaultTCPChunkSize else tt_chunk_size tcp),
     tt_carrier_queue_bytes := (if tt_carrier_queue_bytes tcp = 0 then DefaultTCPCarrierQueueBytes else tt_carrier_queue_bytes tcp),
     tt_reorder_window_bytes := (if tt_reorder_window_bytes tcp = 0 then DefaultTCPReorderWindowBytes else tt_reorder_window_bytes tcp),
     tt_dial_timeout_millis := (if tt_dial_timeout_millis tcp = 0 then DefaultTCPDialTimeoutMillis else tt_dial_timeout_millis tcp),
     tt_open_timeout_millis := (if tt_open_timeout_millis tcp = 0 then DefaultTCPOpenTimeoutMillis else tt_open_timeout_millis tcp),
     tt_write_timeout_millis := (if tt_write_timeout_millis tcp = 0 then DefaultTCPWriteTimeoutMillis else tt_write_timeout_millis tcp)\<rparr>"

definition transfer_apply_defaults :: "transfer \<Rightarrow> transfer" where
  "transfer_apply_defaults tr = tr\<lparr>
     tr_keepalive_interval_millis := (if tr_keepalive_interval_millis tr = 0 then DefaultTransferKeepaliveIntervalMillis
        else tr_keepalive_interval_millis tr),
     tr_keepalive_timeout_millis := (if tr_keepalive_timeout_millis tr = 0 then DefaultTransferKeepaliveTimeoutMillis
        else tr_keepalive_timeout_millis tr),
     tr_tcp := tcp_apply_defaults (tr_tcp tr)\<rparr>"

definition apply_defaults :: "role \<Rightarrow> config \<Rightarrow> config" where
  "apply_defaults r cfg =
     (case r of
        RoleClient \<Rightarrow> cfg\<lparr>cf_client := (cf_client cfg)\<lparr>cl_transfer := transfer_apply_defaults (cl_transfer (cf_client cfg))\<rparr>\<rparr>
      | RoleServer \<Rightarrow> cfg\<lparr>cf_server := (cf_server cfg)\<lparr>sv_transfer := transfer_apply_defaults (sv_transfer (cf_server cfg))\<rparr>\<rparr>)"

section \<open>Validation\<close>

datatype config_error =
    ReadFailed | ParseFailed
  | BadKeepalive string | ChunkSizeRange string | CarrierQueueRange string | ReorderWindowRange string
  | DialTimeoutPositive string | OpenTimeoutPositive string | WriteTimeoutPositive string
  | MaxStreamsNegative string | MaxCarriersNegative string | MaxPendingConnectionsNegative string
  | MaxPendingStreamsNegative string | MaxSessionsNegative string
  | WebListenAddrRequired string | WebCredentialsTogether string
  | UsernameLength string | PasswordLength string int | NoPeerUsers
  | EmptyAllowedClient | InvalidAllowedClient string | EmptyPattern string | BadPattern string string
  | UnsafeFrontend | NoAccessControl
  | BothComplete | ServerAlsoPresent | ClientAlsoPresent | NothingComplete "string list"

text \<open>An error or none; the first check that fails decides.\<close>

type_synonym check = "config_error option"

definition first_error :: "check list \<Rightarrow> check" where
  "first_error cs = (case dropWhile (\<lambda>c. c = None) cs of [] \<Rightarrow> None | c # _ \<Rightarrow> c)"

definition unless :: "bool \<Rightarrow> config_error \<Rightarrow> check" where
  "unless ok e = (if ok then None else Some e)"

definition tcp_validate :: "string \<Rightarrow> tcp_transfer \<Rightarrow> check" where
  "tcp_validate prefix tcp = first_error
     [unless (\<not> (tt_chunk_size tcp \<le> 0 \<or> tt_chunk_size tcp > 64 * 1024)) (ChunkSizeRange prefix),
      unless (\<not> (tt_carrier_queue_bytes tcp \<le> 0 \<or> tt_carrier_queue_bytes tcp > MaxTCPSessionBufferBytes)) (CarrierQueueRange prefix),
      unless (\<not> (tt_reorder_window_bytes tcp \<le> 0 \<or> tt_reorder_window_bytes tcp > MaxTCPSessionBufferBytes)) (ReorderWindowRange prefix),
      unless (\<not> tt_dial_timeout_millis tcp \<le> 0) (DialTimeoutPositive prefix),
      unless (\<not> tt_open_timeout_millis tcp \<le> 0) (OpenTimeoutPositive prefix),
      unless (\<not> tt_write_timeout_millis tcp \<le> 0) (WriteTimeoutPositive prefix),
      unless (\<not> tt_max_streams tcp < 0) (MaxStreamsNegative prefix),
      unless (\<not> tt_max_carriers_per_stream tcp < 0) (MaxCarriersNegative prefix),
      unless (\<not> tt_max_pending_connections tcp < 0) (MaxPendingConnectionsNegative prefix),
      unless (\<not> tt_max_pending_streams tcp < 0) (MaxPendingStreamsNegative prefix),
      unless (\<not> tt_max_sessions tcp < 0) (MaxSessionsNegative prefix)]"

definition transfer_validate :: "string \<Rightarrow> transfer \<Rightarrow> check" where
  "transfer_validate prefix tr =
     (if tr_keepalive_interval_millis tr \<le> 0 \<or> tr_keepalive_timeout_millis tr \<le> tr_keepalive_interval_millis tr
      then Some (BadKeepalive prefix) else tcp_validate prefix (tr_tcp tr))"

definition validate_web_manager :: "string \<Rightarrow> web_manager \<Rightarrow> check" where
  "validate_web_manager prefix web =
     (if wm_listen_addr web = '''' \<and> (wm_username web \<noteq> '''' \<or> wm_password web \<noteq> '''') then Some (WebListenAddrRequired prefix)
      else if (wm_username web = '''') \<noteq> (wm_password web = '''') then Some (WebCredentialsTogether prefix)
      else None)"

definition validate_credentials :: "string \<Rightarrow> cfg_credentials \<Rightarrow> int \<Rightarrow> check" where
  "validate_credentials prefix creds max_password_bytes =
     (let username_bytes = int (length (cc_username creds)); password_bytes = int (length (cc_password creds)) in
      if username_bytes = 0 \<or> username_bytes > 255 then Some (UsernameLength prefix)
      else if password_bytes = 0 \<or> password_bytes > max_password_bytes then Some (PasswordLength prefix max_password_bytes)
      else None)"

definition validate_server_peer_auth :: "(string \<times> string) list \<Rightarrow> check" where
  "validate_server_peer_auth users =
     (if users = [] then Some NoPeerUsers
      else first_error (map (\<lambda>(username, password).
        validate_credentials ''server.peerAuth.users'' \<lparr>cc_username = username, cc_password = password\<rparr> 1024) users))"

fun validate_allowed_clients :: "string list \<Rightarrow> check" where
  "validate_allowed_clients [] = None"
| "validate_allowed_clients (value # values) =
     (let value = trim_space value in
      if value = '''' then Some EmptyAllowedClient
      else if parse_ip value \<noteq> None then validate_allowed_clients values
      else if parse_cidr value \<noteq> None then validate_allowed_clients values
      else Some (InvalidAllowedClient value))"

fun validate_interface_patterns :: "(string \<Rightarrow> bool) \<Rightarrow> string \<Rightarrow> string list \<Rightarrow> check" where
  "validate_interface_patterns pattern_ok field [] = None"
| "validate_interface_patterns pattern_ok field (pattern # patterns) =
     (if pattern = '''' then Some (EmptyPattern field)
      else if \<not> pattern_ok pattern then Some (BadPattern field pattern)
      else validate_interface_patterns pattern_ok field patterns)"

text \<open>
  \<^verbatim>\<open>strings.EqualFold\<close> with \<^verbatim>\<open>"localhost"\<close>: besides the ASCII letters, \<^verbatim>\<open>s\<close> also folds to U+017F (bytes
  197, 191), which \<open>fold_long_s\<close> accounts for.
\<close>

fun fold_long_s :: "string \<Rightarrow> string" where
  "fold_long_s (a # b # cs) =
     (if code a = 197 \<and> code b = 191 then CHR ''s'' # fold_long_s cs else lower_char a # fold_long_s (b # cs))"
| "fold_long_s cs = map lower_char cs"

definition is_loopback_listen_address :: "string \<Rightarrow> bool" where
  "is_loopback_listen_address address =
     (case split_host_port address of
        None \<Rightarrow> False
      | Some (host, _) \<Rightarrow>
          if fold_long_s host = ''localhost'' then True
          else (case parse_ip host of None \<Rightarrow> False | Some ip \<Rightarrow> is_loopback ip))"

definition validate_client :: "(string \<Rightarrow> bool) \<Rightarrow> client_config \<Rightarrow> check" where
  "validate_client pattern_ok cl = first_error
     [transfer_validate ''client'' (cl_transfer cl),
      validate_web_manager ''client.webManager'' (cl_web_manager cl),
      (case cl_socks5_auth cl of None \<Rightarrow> None | Some c \<Rightarrow> validate_credentials ''client.socks5Auth'' c 255),
      (case cl_peer_auth cl of None \<Rightarrow> None | Some c \<Rightarrow> validate_credentials ''client.peerAuth'' c 1024),
      validate_interface_patterns pattern_ok ''client.includeInterfaces'' (cl_include_interfaces cl),
      validate_interface_patterns pattern_ok ''client.excludedInterfaces'' (cl_excluded_interfaces cl),
      unless (\<not> (\<not> cl_allow_unsafe_frontend cl \<and> \<not> is_loopback_listen_address (cl_listen_addr cl))) UnsafeFrontend]"

definition validate_server :: "server_config \<Rightarrow> check" where
  "validate_server sv = first_error
     [transfer_validate ''server'' (sv_transfer sv),
      validate_web_manager ''server.webManager'' (sv_web_manager sv),
      validate_allowed_clients (sv_allowed_clients sv),
      (case sv_peer_auth sv of None \<Rightarrow> None | Some users \<Rightarrow> validate_server_peer_auth users),
      unless (\<not> (sv_allowed_clients sv = [] \<and> sv_peer_auth sv = None \<and> \<not> sv_allow_unsafe_dynamic_destination sv)) NoAccessControl]"

definition validate :: "(string \<Rightarrow> bool) \<Rightarrow> role \<Rightarrow> config \<Rightarrow> check" where
  "validate pattern_ok r cfg =
     (case r of RoleClient \<Rightarrow> validate_client pattern_ok (cf_client cfg) | RoleServer \<Rightarrow> validate_server (cf_server cfg))"

section \<open>The role\<close>

definition tcp_present :: "tcp_transfer \<Rightarrow> bool" where
  "tcp_present tcp \<longleftrightarrow> tt_chunk_size tcp \<noteq> 0 \<or> tt_carrier_queue_bytes tcp \<noteq> 0 \<or> tt_reorder_window_bytes tcp \<noteq> 0 \<or>
     tt_dial_timeout_millis tcp \<noteq> 0 \<or> tt_open_timeout_millis tcp \<noteq> 0 \<or> tt_write_timeout_millis tcp \<noteq> 0 \<or>
     tt_max_streams tcp \<noteq> 0 \<or> tt_max_carriers_per_stream tcp \<noteq> 0 \<or> tt_max_pending_connections tcp \<noteq> 0 \<or>
     tt_max_pending_streams tcp \<noteq> 0 \<or> tt_max_sessions tcp \<noteq> 0"

definition transfer_present :: "transfer \<Rightarrow> bool" where
  "transfer_present tr \<longleftrightarrow> tr_keepalive_interval_millis tr \<noteq> 0 \<or> tr_keepalive_timeout_millis tr \<noteq> 0 \<or> tcp_present (tr_tcp tr)"

definition web_present :: "web_manager \<Rightarrow> bool" where
  "web_present web \<longleftrightarrow> wm_listen_addr web \<noteq> '''' \<or> wm_username web \<noteq> '''' \<or> wm_password web \<noteq> ''''"

definition client_present :: "config \<Rightarrow> bool" where
  "client_present cfg \<longleftrightarrow> (let cl = cf_client cfg in
     cf_client_section_present cfg \<or> cl_description cl \<noteq> '''' \<or> cl_listen_addr cl \<noteq> '''' \<or> cl_dst_addr cl \<noteq> '''' \<or>
     cl_socks5_auth cl \<noteq> None \<or> cl_peer_auth cl \<noteq> None \<or> cl_allow_unsafe_frontend cl \<or>
     cl_include_interfaces cl \<noteq> [] \<or> cl_excluded_interfaces cl \<noteq> [] \<or> cl_interface_labels cl \<noteq> [] \<or>
     cl_dst_overrides cl \<noteq> [] \<or> transfer_present (cl_transfer cl) \<or> web_present (cl_web_manager cl))"

definition server_present :: "config \<Rightarrow> bool" where
  "server_present cfg \<longleftrightarrow> (let sv = cf_server cfg in
     cf_server_section_present cfg \<or> sv_description sv \<noteq> '''' \<or> sv_listen_addr sv \<noteq> '''' \<or>
     sv_allow_unsafe_dynamic_destination sv \<or> sv_allowed_clients sv \<noteq> [] \<or> sv_peer_auth sv \<noteq> None \<or>
     transfer_present (sv_transfer sv) \<or> web_present (sv_web_manager sv))"

definition missing_client_fields :: "client_config \<Rightarrow> string list" where
  "missing_client_fields cl =
     (if cl_listen_addr cl = '''' then [''client.listenAddr''] else []) @
     (if cl_dst_addr cl = '''' then [''client.dstAddr''] else [])"

definition missing_server_fields :: "server_config \<Rightarrow> string list" where
  "missing_server_fields sv = (if sv_listen_addr sv = '''' then [''server.listenAddr''] else [])"

definition resolve_role :: "config \<Rightarrow> config_error + role" where
  "resolve_role cfg =
     (let client_complete = (cl_listen_addr (cf_client cfg) \<noteq> '''' \<and> cl_dst_addr (cf_client cfg) \<noteq> '''');
          server_complete = (sv_listen_addr (cf_server cfg) \<noteq> '''')
      in if client_complete \<and> server_complete then Inl BothComplete
         else if client_complete \<and> server_present cfg then Inl ServerAlsoPresent
         else if server_complete \<and> client_present cfg then Inl ClientAlsoPresent
         else if client_complete then Inr RoleClient
         else if server_complete then Inr RoleServer
         else Inl (NothingComplete
           ((if client_present cfg then missing_client_fields (cf_client cfg) else []) @
            (if server_present cfg then missing_server_fields (cf_server cfg) else []))))"

text \<open>
  \<open>read_file\<close> is \<^verbatim>\<open>os.ReadFile\<close>; \<open>unmarshal\<close> stands for the two YAML calls: the strictly decoded
  configuration and how many keys each section has.
\<close>

definition load ::
    "(string \<Rightarrow> bool) \<Rightarrow> (string \<Rightarrow> byte list option) \<Rightarrow> (byte list \<Rightarrow> (config \<times> nat \<times> nat) option) \<Rightarrow> string \<Rightarrow>
     config_error + config \<times> role" where
  "load pattern_ok read_file unmarshal filename =
     (case read_file filename of
        None \<Rightarrow> Inl ReadFailed
      | Some content \<Rightarrow>
          (case unmarshal content of
             None \<Rightarrow> Inl ParseFailed
           | Some (cfg, client_keys, server_keys) \<Rightarrow>
               let cfg = cfg\<lparr>cf_client_section_present := client_keys > 0, cf_server_section_present := server_keys > 0\<rparr> in
               (case resolve_role cfg of
                  Inl e \<Rightarrow> Inl e
                | Inr r \<Rightarrow>
                    let cfg = apply_defaults r cfg in
                    (case validate pattern_ok r cfg of Some e \<Rightarrow> Inl e | None \<Rightarrow> Inr (cfg, r)))))"

section \<open>Lemmas\<close>

lemma first_error_None [simp]: "first_error cs = None \<longleftrightarrow> list_all (\<lambda>c. c = None) cs"
proof (induction cs)
  case (Cons c cs)
  then show ?case by (cases c) (simp_all add: first_error_def)
qed (simp add: first_error_def)

lemma unless_None [simp]: "unless ok e = None \<longleftrightarrow> ok"
  by (simp add: unless_def)

text \<open>What a valid transfer section promises.\<close>

definition transfer_ok :: "transfer \<Rightarrow> bool" where
  "transfer_ok tr \<longleftrightarrow> (let tcp = tr_tcp tr in
     0 < tr_keepalive_interval_millis tr \<and> tr_keepalive_interval_millis tr < tr_keepalive_timeout_millis tr \<and>
     tt_chunk_size tcp \<in> {1..65536} \<and> tt_carrier_queue_bytes tcp \<in> {1..2 ^ 31 - 1} \<and>
     tt_reorder_window_bytes tcp \<in> {1..2 ^ 31 - 1} \<and>
     0 < tt_dial_timeout_millis tcp \<and> 0 < tt_open_timeout_millis tcp \<and> 0 < tt_write_timeout_millis tcp \<and>
     0 \<le> tt_max_streams tcp \<and> 0 \<le> tt_max_carriers_per_stream tcp \<and> 0 \<le> tt_max_pending_connections tcp \<and>
     0 \<le> tt_max_pending_streams tcp \<and> 0 \<le> tt_max_sessions tcp)"

lemma transfer_validate_None: "transfer_validate prefix tr = None \<longleftrightarrow> transfer_ok tr"
  by (auto simp: transfer_validate_def tcp_validate_def transfer_ok_def Let_def config_constants)

lemma validate_credentials_None:
  "validate_credentials prefix c m = None \<longleftrightarrow>
     cc_username c \<noteq> '''' \<and> length (cc_username c) \<le> 255 \<and> cc_password c \<noteq> '''' \<and> int (length (cc_password c)) \<le> m"
  by (auto simp: validate_credentials_def Let_def)

text \<open>The credentials of the file as the handshakes take them.\<close>

definition credentials_of :: "cfg_credentials \<Rightarrow> credentials" where
  "credentials_of c = \<lparr>pc_username = bytes_of_string (cc_username c), pc_password = bytes_of_string (cc_password c)\<rparr>"

lemma bytes_of_string_Nil [simp]: "bytes_of_string s = [] \<longleftrightarrow> s = ''''"
  by (simp add: bytes_of_string_def)

definition client_entry :: "string \<Rightarrow> bool" where
  "client_entry value \<longleftrightarrow> parse_ip (trim_space value) \<noteq> None \<or> parse_cidr (trim_space value) \<noteq> None"

lemma validate_allowed_clients_None:
  "validate_allowed_clients values = None \<Longrightarrow> list_all client_entry values"
  by (induction "values") (auto simp: client_entry_def Let_def split: if_splits)

lemma validate_server_peer_auth_None:
  "validate_server_peer_auth users = None \<Longrightarrow> users \<noteq> [] \<and>
     (\<forall>(username, password) \<in> set users. username \<noteq> [] \<and> length username \<le> 255 \<and> password \<noteq> [])"
  by (auto simp: validate_server_peer_auth_def list_all_iff case_prod_beta validate_credentials_None split: if_splits)

lemma load_parts:
  assumes "load pattern_ok read_file unmarshal filename = Inr (cfg, r)"
  shows "\<exists>cfg0. cfg = apply_defaults r cfg0 \<and> resolve_role cfg0 = Inr r \<and> validate pattern_ok r cfg = None"
  using assms by (auto simp: load_def Let_def split: option.splits prod.splits sum.splits)

section \<open>Properties\<close>

text \<open>
  C33. What is loaded can be run: when \<open>Load\<close> succeeds the role has its addresses, every number of its
  transfer section is in range (unset ones have their defaults), SOCKS and peer credentials are such
  that both handshakes accept them, a frontend that is not explicitly unsafe listens on loopback only,
  and a server that is not explicitly unsafe restricts its clients: by addresses, every one of which
  parses, or by users, every one of which can authenticate.
\<close>

theorem load_sound:
  assumes "load pattern_ok read_file unmarshal filename = Inr (cfg, r)"
  shows "case r of
    RoleClient \<Rightarrow> (let cl = cf_client cfg in
      cl_listen_addr cl \<noteq> '''' \<and> cl_dst_addr cl \<noteq> '''' \<and> transfer_ok (cl_transfer cl) \<and>
      (\<forall>c. cl_socks5_auth cl = Some c \<longrightarrow> valid_credentials (credentials_of c)) \<and>
      (\<forall>c. cl_peer_auth cl = Some c \<longrightarrow> pc_username (credentials_of c) \<noteq> [] \<and>
         length (pc_username (credentials_of c)) \<le> 255 \<and> pc_password (credentials_of c) \<noteq> []) \<and>
      (cl_allow_unsafe_frontend cl \<or> is_loopback_listen_address (cl_listen_addr cl)))
  | RoleServer \<Rightarrow> (let sv = cf_server cfg in
      sv_listen_addr sv \<noteq> '''' \<and> transfer_ok (sv_transfer sv) \<and> list_all client_entry (sv_allowed_clients sv) \<and>
      (\<forall>users. sv_peer_auth sv = Some users \<longrightarrow> users \<noteq> [] \<and>
         (\<forall>(username, password) \<in> set users. username \<noteq> '''' \<and> length username \<le> 255 \<and> password \<noteq> '''')) \<and>
      (sv_allow_unsafe_dynamic_destination sv \<or> sv_allowed_clients sv \<noteq> [] \<or> sv_peer_auth sv \<noteq> None))"
proof -
  obtain cfg0 where cfg: "cfg = apply_defaults r cfg0" and role: "resolve_role cfg0 = Inr r"
    and valid: "validate pattern_ok r cfg = None" using load_parts [OF assms] by blast
  show ?thesis
  proof (cases r)
    case RoleClient
    then have "cl_listen_addr (cf_client cfg) \<noteq> ''''" "cl_dst_addr (cf_client cfg) \<noteq> ''''"
      using role cfg by (auto simp: resolve_role_def apply_defaults_def Let_def split: if_splits)
    with RoleClient valid show ?thesis
      by (auto simp: validate_def validate_client_def Let_def transfer_validate_None validate_credentials_None
          valid_credentials_def credentials_of_def)
  next
    case RoleServer
    then have "sv_listen_addr (cf_server cfg) \<noteq> ''''"
      using role cfg by (auto simp: resolve_role_def apply_defaults_def Let_def split: if_splits)
    moreover from RoleServer valid have v: "transfer_ok (sv_transfer (cf_server cfg))"
        "validate_allowed_clients (sv_allowed_clients (cf_server cfg)) = None"
        "\<forall>users. sv_peer_auth (cf_server cfg) = Some users \<longrightarrow> validate_server_peer_auth users = None"
        "\<not> (sv_allowed_clients (cf_server cfg) = [] \<and> sv_peer_auth (cf_server cfg) = None \<and>
          \<not> sv_allow_unsafe_dynamic_destination (cf_server cfg))"
      by (auto simp: validate_def validate_server_def transfer_validate_None)
    ultimately show ?thesis
      using RoleServer validate_allowed_clients_None [OF v(2)] validate_server_peer_auth_None by (simp add: Let_def) blast
  qed
qed

text \<open>A configuration of a server with nothing but an address and a client network.\<close>

definition empty_transfer :: transfer where
  "empty_transfer = \<lparr>tr_keepalive_interval_millis = 0, tr_keepalive_timeout_millis = 0, tr_tcp = \<lparr>tt_chunk_size = 0,
     tt_carrier_queue_bytes = 0, tt_reorder_window_bytes = 0, tt_dial_timeout_millis = 0, tt_open_timeout_millis = 0,
     tt_write_timeout_millis = 0, tt_max_streams = 0, tt_max_carriers_per_stream = 0, tt_max_pending_connections = 0,
     tt_max_pending_streams = 0, tt_max_sessions = 0\<rparr>\<rparr>"

abbreviation empty_web :: web_manager where
  "empty_web \<equiv> \<lparr>wm_listen_addr = '''', wm_username = '''', wm_password = ''''\<rparr>"

definition empty_config :: config where
  "empty_config = \<lparr>cf_client = \<lparr>cl_description = '''', cl_listen_addr = '''', cl_dst_addr = '''', cl_socks5_auth = None,
       cl_peer_auth = None, cl_allow_unsafe_frontend = False, cl_include_interfaces = [], cl_excluded_interfaces = [],
       cl_interface_labels = [], cl_dst_overrides = [], cl_transfer = empty_transfer, cl_web_manager = empty_web\<rparr>,
     cf_server = \<lparr>sv_description = '''', sv_listen_addr = '''', sv_allow_unsafe_dynamic_destination = False,
       sv_allowed_clients = [], sv_peer_auth = None, sv_transfer = empty_transfer, sv_web_manager = empty_web\<rparr>,
     cf_client_section_present = False, cf_server_section_present = False\<rparr>"

definition sample_server_config :: config where
  "sample_server_config = empty_config\<lparr>cf_server := (cf_server empty_config)\<lparr>sv_listen_addr := ''0.0.0.0:9'',
     sv_allowed_clients := [''10.0.0.0/8'']\<rparr>\<rparr>"

definition sample_loaded :: config where
  "sample_loaded = apply_defaults RoleServer (sample_server_config\<lparr>cf_client_section_present := False, cf_server_section_present := True\<rparr>)"

lemma sample_load:
  "load (\<lambda>_. True) (\<lambda>_. Some []) (\<lambda>_. Some (sample_server_config, 0, 2)) ''engarde.yml'' = Inr (sample_loaded, RoleServer)"
  by code_simp

lemma load_sound_witness:
  "transfer_ok (sv_transfer (cf_server sample_loaded)) \<and> list_all client_entry (sv_allowed_clients (cf_server sample_loaded))"
  using load_sound [OF sample_load] by (simp add: Let_def)

text \<open>
  The role is never guessed: a configuration is a client's exactly when both client addresses are
  set and nothing of a server is present, a server's exactly when its address is set and nothing of a
  client is present; in every other case there is an error, and the one that reports missing fields is
  empty only when neither section is present.
\<close>

theorem resolve_role_exact:
  "(resolve_role cfg = Inr RoleClient \<longleftrightarrow>
      cl_listen_addr (cf_client cfg) \<noteq> '''' \<and> cl_dst_addr (cf_client cfg) \<noteq> '''' \<and> \<not> server_present cfg) \<and>
   (resolve_role cfg = Inr RoleServer \<longleftrightarrow> sv_listen_addr (cf_server cfg) \<noteq> '''' \<and> \<not> client_present cfg) \<and>
   (resolve_role cfg = Inl (NothingComplete []) \<longleftrightarrow> \<not> client_present cfg \<and> \<not> server_present cfg)"
proof -
  have "cl_listen_addr (cf_client cfg) \<noteq> '''' \<Longrightarrow> client_present cfg" "sv_listen_addr (cf_server cfg) \<noteq> '''' \<Longrightarrow> server_present cfg"
    by (simp_all add: client_present_def server_present_def Let_def)
  then show ?thesis
    by (auto simp: resolve_role_def Let_def missing_client_fields_def missing_server_fields_def)
qed

text \<open>
  Defaults are applied as often as one likes: the constructors of both roles apply them again to a
  loaded configuration, which changes nothing; they never touch a valid section, and they make the
  empty one valid.
\<close>

theorem defaults_stable:
  "transfer_apply_defaults (transfer_apply_defaults tr) = transfer_apply_defaults tr \<and>
   (transfer_validate prefix tr = None \<longrightarrow> transfer_apply_defaults tr = tr) \<and>
   transfer_validate prefix (transfer_apply_defaults empty_transfer) = None"
  by (auto simp: transfer_apply_defaults_def tcp_apply_defaults_def transfer_validate_None transfer_ok_def Let_def
      config_constants empty_transfer_def)

lemma defaults_stable_witness: "transfer_apply_defaults (sv_transfer (cf_server sample_loaded)) = sv_transfer (cf_server sample_loaded)"
proof -
  have "transfer_validate ''server'' (sv_transfer (cf_server sample_loaded)) = None" by code_simp
  then show ?thesis using defaults_stable by blast
qed

end
