(* ===== verification/Limits.thy ===== *)
theory Limits
  imports Config Sender_Runs
begin

text \<open>
  From the configuration to the limits of the flows and sessions: \<open>flowConfig\<close> and \<open>sessionConfig\<close> of
  both roles (\<^verbatim>\<open>internal/clientrole/tcp.go\<close>, \<^verbatim>\<open>internal/clientrole/tcp_group.go\<close>,
  \<^verbatim>\<open>internal/serverrole/tcp.go\<close>), which are the same code, and what the accepted values
  mean for a flow.
\<close>

text \<open>\<^verbatim>\<open>time.Duration(millis) * time.Millisecond\<close>: nanoseconds in a signed word of 64 bits, which wraps.\<close>

definition duration_of_millis :: "int \<Rightarrow> int" where
  "duration_of_millis millis = sint ((word_of_int millis :: 64 word) * 1000000)"

definition flow_config_of :: "tcp_transfer \<Rightarrow> flow_config" where
  "flow_config_of tcp =
     \<lparr>cfg_chunk_size = tt_chunk_size tcp, cfg_carrier_queue_bytes = tt_carrier_queue_bytes tcp,
      cfg_reorder_window_bytes = tt_reorder_window_bytes tcp,
      cfg_write_timeout = duration_of_millis (tt_write_timeout_millis tcp)\<rparr>"

definition session_config_of :: "transfer \<Rightarrow> session_config" where
  "session_config_of tr =
     \<lparr>sc_keepalive_interval = duration_of_millis (tr_keepalive_interval_millis tr),
      sc_keepalive_timeout = duration_of_millis (tr_keepalive_timeout_millis tr),
      sc_receive_buffer = tt_reorder_window_bytes (tr_tcp tr),
      sc_stream_buffer = tt_carrier_queue_bytes (tr_tcp tr)\<rparr>"

text \<open>The largest number of milliseconds whose nanoseconds still fit.\<close>

definition max_millis :: int where "max_millis = (2 ^ 63 - 1) div 1000000"

lemma duration_exact:
  assumes "0 \<le> ms" "ms \<le> max_millis"
  shows "duration_of_millis ms = ms * 1000000"
proof -
  have "(word_of_int ms :: 64 word) * 1000000 = word_of_int (ms * 1000000)" by simp
  then have "duration_of_millis ms = (ms * 1000000 + 2 ^ 63) mod 2 ^ 64 - 2 ^ 63"
    unfolding duration_of_millis_def by (simp only: int_word_sint) simp
  with assms show ?thesis by (simp add: max_millis_def)
qed

section \<open>Properties\<close>

text \<open>
  The limits of a flow are the configured ones: for a valid transfer section whose timeouts are at
  most 292 years, chunks are read with exactly the configured size, the window, the queue and the
  inbound channel are positive, writes have a positive deadline, and the keepalive of a session keeps its
  order; none of the fallbacks of the flow or of the session is taken.
\<close>

theorem limits_exact:
  assumes "transfer_ok tr"
    and "tt_write_timeout_millis (tr_tcp tr) \<le> max_millis" "tr_keepalive_timeout_millis tr \<le> max_millis"
  shows "read_chunk_size (flow_config_of (tr_tcp tr)) = tt_chunk_size (tr_tcp tr) \<and>
    cfg_write_timeout (flow_config_of (tr_tcp tr)) = tt_write_timeout_millis (tr_tcp tr) * 1000000 \<and>
    1 \<le> inbound_queue_capacity (cfg_reorder_window_bytes (flow_config_of (tr_tcp tr))) \<and>
    (let sx = smux_session_config defaults (session_config_of tr) in
       sx_keepalive_interval sx = tr_keepalive_interval_millis tr * 1000000 \<and>
       sx_keepalive_timeout sx = tr_keepalive_timeout_millis tr * 1000000 \<and>
       sx_keepalive_interval sx < sx_keepalive_timeout sx \<and>
       sx_max_stream_buffer sx = tt_carrier_queue_bytes (tr_tcp tr) \<and>
       sx_max_receive_buffer sx = max (tt_reorder_window_bytes (tr_tcp tr)) (tt_carrier_queue_bytes (tr_tcp tr)))"
proof -
  have d: "duration_of_millis (tt_write_timeout_millis (tr_tcp tr)) = tt_write_timeout_millis (tr_tcp tr) * 1000000"
    "duration_of_millis (tr_keepalive_timeout_millis tr) = tr_keepalive_timeout_millis tr * 1000000"
    "duration_of_millis (tr_keepalive_interval_millis tr) = tr_keepalive_interval_millis tr * 1000000"
    using assms by (auto simp: transfer_ok_def Let_def intro!: duration_exact)
  show ?thesis using assms
    by (auto simp: transfer_ok_def Let_def flow_config_of_def session_config_of_def smux_session_config_def
        read_chunk_size_def MaxPayloadSize_def inbound_queue_capacity_def MaxReorderSegments_def d)
qed

definition default_transfer :: transfer where
  "default_transfer = transfer_apply_defaults empty_transfer"

lemma limits_exact_witness: "read_chunk_size (flow_config_of (tr_tcp default_transfer)) = 16384"
proof -
  have "transfer_ok default_transfer" "tt_write_timeout_millis (tr_tcp default_transfer) \<le> max_millis"
    "tr_keepalive_timeout_millis default_transfer \<le> max_millis" "tt_chunk_size (tr_tcp default_transfer) = 16384"
    by (simp_all add: default_transfer_def transfer_ok_def transfer_apply_defaults_def tcp_apply_defaults_def
        empty_transfer_def config_constants max_millis_def)
  with limits_exact show ?thesis by simp
qed

text \<open>
  The bound on the timeouts is not checked: the validation accepts a write timeout whose conversion
  to nanoseconds wraps to a negative duration, which the endpoint writer takes for no deadline at all.
\<close>

theorem write_timeout_wraps:
  "\<exists>tr. transfer_validate prefix tr = None \<and> cfg_write_timeout (flow_config_of (tr_tcp tr)) < 0"
proof -
  let ?tr = "default_transfer\<lparr>tr_tcp := (tr_tcp default_transfer)\<lparr>tt_write_timeout_millis := 10000000000000\<rparr>\<rparr>"
  have "transfer_ok ?tr"
    by (simp add: default_transfer_def transfer_ok_def transfer_apply_defaults_def tcp_apply_defaults_def
        empty_transfer_def config_constants)
  moreover have "cfg_write_timeout (flow_config_of (tr_tcp ?tr)) < 0"
    by (simp add: flow_config_of_def) code_simp
  ultimately show ?thesis using transfer_validate_None by blast
qed

text \<open>
  A window below the chunk size is accepted and can stop a flow for ever: there are accepted
  transfer sections under which, in every run of the sending half, a frame with a full chunk is never
  remembered, even when everything before it is acknowledged: the call waits, whatever arrives, until
  the flow is closed or has lost its carriers.
\<close>

theorem small_window_stalls:
  "\<exists>tr. transfer_validate prefix tr = None \<and>
    (\<forall>stream_id dir s f. sender_run (flow_config_of (tr_tcp tr)) stream_id dir s \<longrightarrow>
       int (length (f_payload f)) = read_chunk_size (flow_config_of (tr_tcp tr)) \<longrightarrow>
       fst (remember (sd_flow s) f) =
         (if fl_closed (sd_flow s) \<or> fl_carriers (sd_flow s) = [] then Fail ErrNoCarriers else Wait))"
proof -
  let ?tr = "default_transfer\<lparr>tr_tcp := (tr_tcp default_transfer)\<lparr>tt_reorder_window_bytes := 1\<rparr>\<rparr>"
  have ok: "transfer_ok ?tr"
    by (simp add: default_transfer_def transfer_ok_def transfer_apply_defaults_def tcp_apply_defaults_def
        empty_transfer_def config_constants)
  have size: "read_chunk_size (flow_config_of (tr_tcp ?tr)) = 16384" "cfg_reorder_window_bytes (flow_config_of (tr_tcp ?tr)) = 1"
    by (simp_all add: default_transfer_def flow_config_of_def read_chunk_size_def transfer_apply_defaults_def
        tcp_apply_defaults_def empty_transfer_def config_constants MaxPayloadSize_def)
  have "fst (remember (sd_flow s) f) =
      (if fl_closed (sd_flow s) \<or> fl_carriers (sd_flow s) = [] then Fail ErrNoCarriers else Wait)"
    if run: "sender_run (flow_config_of (tr_tcp ?tr)) stream_id dir s" and f: "int (length (f_payload f)) = 16384" for stream_id dir s f
  proof -
    have inv: "history_inv s" using sender_inv_parts(2) sender_run_invs [OF run] by blast
    then obtain sk where p: "prune_history (sd_flow s) = (sk, sd_flow s)"
      using prune_history_none [of "sd_flow s" "sd_sent s"] unfolding history_inv_def by blast
    have "0 \<le> fl_history_bytes (sd_flow s)" using inv by (simp add: history_inv_def history_size_def)
    moreover have "cfg_reorder_window_bytes (fl_config (sd_flow s)) = 1"
      using sender_run_source [OF run] size by (simp add: flow_name_def)
    ultimately show ?thesis using f p by (simp add: remember_def Let_def)
  qed
  with ok size transfer_validate_None show ?thesis by metis
qed

lemma small_window_stalls_witness:
  "\<exists>tr s f. transfer_validate ''client'' tr = None \<and> fl_carriers (sd_flow s) = [0] \<and>
     sender_run (flow_config_of (tr_tcp tr)) (replicate 16 7) DirectionClientToServer s \<and> fst (remember (sd_flow s) f) = Wait"
proof -
  obtain tr where tr: "transfer_validate ''client'' tr = None"
    and stall: "\<And>stream_id dir s f. sender_run (flow_config_of (tr_tcp tr)) stream_id dir s \<Longrightarrow>
       int (length (f_payload f)) = read_chunk_size (flow_config_of (tr_tcp tr)) \<Longrightarrow>
       fst (remember (sd_flow s) f) =
         (if fl_closed (sd_flow s) \<or> fl_carriers (sd_flow s) = [] then Fail ErrNoCarriers else Wait)"
    using small_window_stalls [of "''client''"] by blast
  let ?start = "sender_start (new_flow (replicate 16 7) DirectionClientToServer (flow_config_of (tr_tcp tr)))"
  let ?f = "\<lparr>f_type = FrameData, f_direction = DirectionClientToServer, f_stream = replicate 16 7, f_offset = 0,
      f_payload = replicate (nat (read_chunk_size (flow_config_of (tr_tcp tr)))) 0\<rparr>"
  have run: "sender_run (flow_config_of (tr_tcp tr)) (replicate 16 7) DirectionClientToServer (do_attach 0 ?start)"
    unfolding sender_run_def by (rule do_step) (simp add: sender_start_def)
  have "fl_carriers (sd_flow (do_attach 0 ?start)) = [0]" "\<not> fl_closed (sd_flow (do_attach 0 ?start))" by (simp_all add: run_defs)
  moreover have "int (length (f_payload ?f)) = read_chunk_size (flow_config_of (tr_tcp tr))"
    using read_chunk_size_bounds [of "flow_config_of (tr_tcp tr)"] by simp
  ultimately show ?thesis using tr run stall [OF run, of ?f] by auto
qed

end
