(* ===== verification/Path.thy ===== *)
theory Path
  imports Config
begin

unbundle bit_operations_syntax

text \<open>
  The choice of the network interfaces (\<^verbatim>\<open>internal/path/path.go\<close>): configured patterns, the exclusions
  that the management page swaps at run time, labels and destinations, and the addresses that may be
  used. \<open>path_match\<close> is \<^verbatim>\<open>path.Match\<close>, \<open>None\<close> for a bad pattern; the lists of interfaces and
  of their addresses come from the system. Every method of the manager runs under its mutex.
\<close>

section \<open>The manager\<close>

record manager =
  mg_included :: "string list"
  mg_excluded :: "string list"
  mg_labels :: "string \<rightharpoonup> string"
  mg_override :: "string \<rightharpoonup> string"
  mg_dst_addr :: string
  mg_swaps :: "string \<rightharpoonup> bool"

definition new_manager :: "client_config \<Rightarrow> manager" where
  "new_manager cl =
     \<lparr>mg_included = cl_include_interfaces cl, mg_excluded = cl_excluded_interfaces cl,
      mg_labels = foldl (\<lambda>m (name, l). m(name \<mapsto> l)) Map.empty (cl_interface_labels cl),
      mg_override = foldl (\<lambda>m o'. m(do_if_name o' \<mapsto> do_dst_addr o')) Map.empty (cl_dst_overrides cl),
      mg_dst_addr = cl_dst_addr cl, mg_swaps = Map.empty\<rparr>"

fun matches_interface :: "(string \<Rightarrow> string \<Rightarrow> bool option) \<Rightarrow> string list \<Rightarrow> string \<Rightarrow> bool" where
  "matches_interface path_match [] name = False"
| "matches_interface path_match (pattern # patterns) name =
     (if path_match pattern name = Some True then True else matches_interface path_match patterns name)"

text \<open>Reading a key of a Go map of booleans.\<close>

definition swapped :: "manager \<Rightarrow> string \<Rightarrow> bool" where
  "swapped m name = (case mg_swaps m name of None \<Rightarrow> False | Some b \<Rightarrow> b)"

definition is_excluded :: "(string \<Rightarrow> string \<Rightarrow> bool option) \<Rightarrow> manager \<Rightarrow> string \<Rightarrow> bool" where
  "is_excluded path_match m name =
     (let excluded = (mg_included m \<noteq> [] \<and> \<not> matches_interface path_match (mg_included m) name);
          excluded = (excluded \<or> matches_interface path_match (mg_excluded m) name)
      in if swapped m name then \<not> excluded else excluded)"

definition toggle :: "manager \<Rightarrow> string \<Rightarrow> manager" where
  "toggle m name =
     (if swapped m name then m\<lparr>mg_swaps := (mg_swaps m)(name := None)\<rparr> else m\<lparr>mg_swaps := (mg_swaps m)(name \<mapsto> True)\<rparr>)"

definition toggle_exclusion :: "manager \<Rightarrow> string \<Rightarrow> string \<times> manager" where
  "toggle_exclusion m name = (''ok'', toggle m name)"

definition include_interface :: "(string \<Rightarrow> string \<Rightarrow> bool option) \<Rightarrow> manager \<Rightarrow> string \<Rightarrow> string \<times> manager" where
  "include_interface path_match m name =
     (if \<not> is_excluded path_match m name then (''already-included'', m) else (''ok'', toggle m name))"

definition exclude_interface :: "(string \<Rightarrow> string \<Rightarrow> bool option) \<Rightarrow> manager \<Rightarrow> string \<Rightarrow> string \<times> manager" where
  "exclude_interface path_match m name =
     (if is_excluded path_match m name then (''already-excluded'', m) else (''ok'', toggle m name))"

definition reset_exclusions :: "manager \<Rightarrow> string \<times> manager" where
  "reset_exclusions m = (''ok'', m\<lparr>mg_swaps := Map.empty\<rparr>)"

definition label :: "manager \<Rightarrow> string \<Rightarrow> string" where
  "label m name = (case mg_labels m name of None \<Rightarrow> '''' | Some l \<Rightarrow> l)"

definition interface_destination :: "manager \<Rightarrow> string \<Rightarrow> string" where
  "interface_destination m name = (case mg_override m name of Some a \<Rightarrow> a | None \<Rightarrow> mg_dst_addr m)"

section \<open>Addresses\<close>

fun in_some_network :: "byte list \<Rightarrow> string list \<Rightarrow> bool" where
  "in_some_network ip [] = False"
| "in_some_network ip (network # networks) =
     (case parse_cidr network of
        None \<Rightarrow> in_some_network ip networks
      | Some subnet \<Rightarrow> if net_contains subnet ip then True else in_some_network ip networks)"

definition is_address_allowed :: "string \<Rightarrow> bool" where
  "is_address_allowed address =
     (if CHR '':'' \<in> set address then False
      else case parse_ip address of None \<Rightarrow> False
      | Some ip \<Rightarrow> \<not> in_some_network ip [''169.254.0.0/16'', ''127.0.0.0/8''])"

fun first_allowed :: "string list \<Rightarrow> string" where
  "first_allowed [] = ''''"
| "first_allowed (a # as) =
     (let address = takeWhile (\<lambda>c. c \<noteq> CHR ''/'') a in if is_address_allowed address then address else first_allowed as)"

definition address_by_interface :: "string list option \<Rightarrow> string" where
  "address_by_interface addrs = (case addrs of None \<Rightarrow> '''' | Some as \<Rightarrow> first_allowed as)"

definition crlf :: string where "crlf = [CHR 0x0D, CHR 0x0A]"

text \<open>An interface of the system: its name and its addresses or none when they cannot be listed.\<close>

fun write_interfaces :: "(string \<times> string list option) list \<Rightarrow> conn \<Rightarrow> go_error option \<times> conn" where
  "write_interfaces [] w = (None, w)"
| "write_interfaces ((name, addrs) # rest) w =
     (case conn_write w (bytes_of_string (crlf @ name @ crlf @ ''  Address: '' @ address_by_interface addrs @ crlf)) of
        (_, Some e, w') \<Rightarrow> (Some e, w') | (_, None, w') \<Rightarrow> write_interfaces rest w')"

definition list_interfaces :: "go_error + (string \<times> string list option) list \<Rightarrow> conn \<Rightarrow> go_error option \<times> conn" where
  "list_interfaces interfaces w =
     (case interfaces of Inl e \<Rightarrow> (Some e, w) | Inr ifs \<Rightarrow> write_interfaces ifs w)"

section \<open>Lemmas\<close>

lemma swapped_toggle: "swapped (toggle m name) other = (if other = name then \<not> swapped m name else swapped m other)"
  by (auto simp: swapped_def toggle_def)

lemma toggle_fields [simp]:
  "mg_included (toggle m name) = mg_included m" "mg_excluded (toggle m name) = mg_excluded m"
  "mg_labels (toggle m name) = mg_labels m" "mg_override (toggle m name) = mg_override m" "mg_dst_addr (toggle m name) = mg_dst_addr m"
  by (simp_all add: toggle_def)

lemma is_excluded_toggle:
  "is_excluded path_match (toggle m name) other =
     (if other = name then \<not> is_excluded path_match m name else is_excluded path_match m other)"
  by (simp add: is_excluded_def swapped_toggle Let_def)

section \<open>The manager as a set of excluded interfaces\<close>

text \<open>The operations of the management page, and what they mean for the set of excluded names.\<close>

datatype path_op = Toggle string | IncludeOp string | ExcludeOp string | ResetOp

definition path_step :: "(string \<Rightarrow> string \<Rightarrow> bool option) \<Rightarrow> path_op \<Rightarrow> manager \<Rightarrow> string \<times> manager" where
  "path_step path_match op m =
     (case op of
        Toggle name \<Rightarrow> toggle_exclusion m name
      | IncludeOp name \<Rightarrow> include_interface path_match m name
      | ExcludeOp name \<Rightarrow> exclude_interface path_match m name
      | ResetOp \<Rightarrow> reset_exclusions m)"

definition excluded_set :: "(string \<Rightarrow> string \<Rightarrow> bool option) \<Rightarrow> manager \<Rightarrow> string set" where
  "excluded_set path_match m = {name. is_excluded path_match m name}"

text \<open>What the configuration alone excludes.\<close>

definition configured_set :: "(string \<Rightarrow> string \<Rightarrow> bool option) \<Rightarrow> client_config \<Rightarrow> string set" where
  "configured_set path_match cl =
     {name. (cl_include_interfaces cl \<noteq> [] \<and> (\<forall>p \<in> set (cl_include_interfaces cl). path_match p name \<noteq> Some True)) \<or>
            (\<exists>p \<in> set (cl_excluded_interfaces cl). path_match p name = Some True)}"

definition abstract_step :: "string set \<Rightarrow> path_op \<Rightarrow> string set \<Rightarrow> string \<times> string set" where
  "abstract_step configured op E =
     (case op of
        Toggle name \<Rightarrow> (''ok'', if name \<in> E then E - {name} else insert name E)
      | IncludeOp name \<Rightarrow> (if name \<in> E then ''ok'' else ''already-included'', E - {name})
      | ExcludeOp name \<Rightarrow> (if name \<in> E then ''already-excluded'' else ''ok'', insert name E)
      | ResetOp \<Rightarrow> (''ok'', configured))"

definition run_ops :: "(path_op \<Rightarrow> 's \<Rightarrow> string \<times> 's) \<Rightarrow> path_op list \<Rightarrow> 's \<Rightarrow> string list \<times> 's" where
  "run_ops step ops s = foldl (\<lambda>(replies, s) op. case step op s of (r, s') \<Rightarrow> (replies @ [r], s')) ([], s) ops"

lemma matches_interface_iff: "matches_interface path_match patterns name \<longleftrightarrow> (\<exists>p \<in> set patterns. path_match p name = Some True)"
  by (induction patterns) auto

lemma excluded_unswapped:
  "mg_included m = cl_include_interfaces cl \<Longrightarrow> mg_excluded m = cl_excluded_interfaces cl \<Longrightarrow> mg_swaps m = Map.empty \<Longrightarrow>
     excluded_set path_match m = configured_set path_match cl"
  by (auto simp: excluded_set_def configured_set_def is_excluded_def swapped_def matches_interface_iff Let_def)

definition manager_of :: "client_config \<Rightarrow> manager \<Rightarrow> bool" where
  "manager_of cl m \<longleftrightarrow> mg_included m = cl_include_interfaces cl \<and> mg_excluded m = cl_excluded_interfaces cl \<and>
     mg_labels m = mg_labels (new_manager cl) \<and> mg_override m = mg_override (new_manager cl) \<and> mg_dst_addr m = cl_dst_addr cl"

lemma path_step_refines:
  assumes "manager_of cl m" and "path_step path_match op m = (r, m')"
  shows "abstract_step (configured_set path_match cl) op (excluded_set path_match m) = (r, excluded_set path_match m') \<and> manager_of cl m'"
proof (cases op)
  case ResetOp
  with assms have "m' = m\<lparr>mg_swaps := Map.empty\<rparr>" "r = ''ok''" by (auto simp: path_step_def reset_exclusions_def)
  with ResetOp assms excluded_unswapped [of m' cl path_match] show ?thesis by (simp add: abstract_step_def manager_of_def)
next
  case (Toggle name)
  with assms show ?thesis
    by (auto simp: path_step_def toggle_exclusion_def abstract_step_def excluded_set_def is_excluded_toggle manager_of_def split: if_splits)
next
  case (IncludeOp name)
  with assms show ?thesis
    by (auto simp: path_step_def include_interface_def abstract_step_def excluded_set_def is_excluded_toggle manager_of_def split: if_splits)
next
  case (ExcludeOp name)
  with assms show ?thesis
    by (auto simp: path_step_def exclude_interface_def abstract_step_def excluded_set_def is_excluded_toggle manager_of_def split: if_splits)
qed

lemma run_ops_snoc:
  "run_ops step (ops @ [op]) s = (case run_ops step ops s of (replies, s1) \<Rightarrow> case step op s1 of (r, s') \<Rightarrow> (replies @ [r], s'))"
  by (simp add: run_ops_def case_prod_beta)

section \<open>Properties\<close>

text \<open>
  C37. The manager is a set of excluded interfaces: whatever operations the management page performs, in
  any order, the replies and the excluded interfaces are those of an abstract set that starts as what
  the patterns exclude, where including removes a name, excluding adds it, toggling flips it and a
  reset restores the start; an operation on one interface touches no other, and labels and
  destinations never change.
\<close>

theorem manager_refines_set:
  "(case run_ops (path_step path_match) ops (new_manager cl) of (replies, m) \<Rightarrow>
      run_ops (abstract_step (configured_set path_match cl)) ops (configured_set path_match cl) =
        (replies, excluded_set path_match m) \<and>
      label m = label (new_manager cl) \<and> interface_destination m = interface_destination (new_manager cl))"
proof -
  have "\<exists>replies m. run_ops (path_step path_match) ops (new_manager cl) = (replies, m) \<and> manager_of cl m \<and>
      run_ops (abstract_step (configured_set path_match cl)) ops (configured_set path_match cl) = (replies, excluded_set path_match m)"
  proof (induction ops rule: rev_induct)
    case Nil
    have "manager_of cl (new_manager cl)" "excluded_set path_match (new_manager cl) = configured_set path_match cl"
      by (simp add: manager_of_def new_manager_def) (rule excluded_unswapped, simp_all add: new_manager_def)
    then show ?case by (simp add: run_ops_def)
  next
    case (snoc op ops)
    then obtain replies m where m: "run_ops (path_step path_match) ops (new_manager cl) = (replies, m)" "manager_of cl m"
      "run_ops (abstract_step (configured_set path_match cl)) ops (configured_set path_match cl) = (replies, excluded_set path_match m)"
      by blast
    obtain r m' where s: "path_step path_match op m = (r, m')" by (cases "path_step path_match op m")
    from path_step_refines [OF m(2) s] m s show ?case by (auto simp: run_ops_snoc)
  qed
  moreover have "mg_dst_addr (new_manager cl) = cl_dst_addr cl" by (simp add: new_manager_def)
  ultimately show ?thesis by (auto simp: manager_of_def label_def interface_destination_def fun_eq_iff split: option.splits)
qed

lemma v_full: "(255 :: byte) AND x = x" "x AND 255 = x" for x :: byte
proof -
  have "(255 :: byte) = - 1" by simp
  then show "(255 :: byte) AND x = x" "x AND 255 = x" by (simp_all only: and.left_neutral and.right_neutral)
qed

lemma v4_network: "length v = 4 \<Longrightarrow> to4 (mapped_prefix @ v) = Some v"
  by (simp add: to4_def mapped_prefix_def)

lemma parse_addr_no_colon:
  assumes "CHR '':'' \<notin> set s" and "parse_addr s = Some a"
  shows "\<exists>v. a = Addr4 v \<and> length v = 4"
proof (cases "dropWhile (\<lambda>c. c \<notin> {CHR ''.'', CHR '':'', CHR ''%''}) s")
  case (Cons c cs)
  then have "c \<in> set s" by (metis list.set_intros(1) set_dropWhileD)
  with assms Cons parse_addr_ok(1) [OF assms(2)] show ?thesis
    by (auto simp: parse_addr_def addr_ok_def split: if_splits)
next
  case Nil
  have "parse_addr s = None" unfolding parse_addr_def Nil by simp
  with assms(2) show ?thesis by simp
qed

lemma link_local_networks:
  "parse_cidr ''169.254.0.0/16'' = Some \<lparr>net_ip = [169, 254, 0, 0], net_mask = [255, 255, 0, 0]\<rparr>"
  "parse_cidr ''127.0.0.0/8'' = Some \<lparr>net_ip = [127, 0, 0, 0], net_mask = [255, 0, 0, 0]\<rparr>"
  by code_simp+

text \<open>
  Only usable addresses are dialled from: an address of an interface is allowed exactly when it is a
  textual IPv4 address outside 127.0.0.0/8 and 169.254.0.0/16.
\<close>

theorem allowed_addresses:
  "is_address_allowed address \<longleftrightarrow>
     CHR '':'' \<notin> set address \<and>
     (\<exists>a b c d. parse_addr address = Some (Addr4 [a, b, c, d]) \<and> a \<noteq> 127 \<and> \<not> (a = 169 \<and> b = 254))"
proof (cases "CHR '':'' \<in> set address \<or> parse_addr address = None")
  case True
  then show ?thesis by (auto simp: is_address_allowed_def parse_ip_def)
next
  case False
  then obtain v where v: "parse_addr address = Some (Addr4 v)" "length v = 4" using parse_addr_no_colon [of address] by auto
  then obtain a b c d where quad: "v = [a, b, c, d]" by (auto simp: length_Suc_conv eval_nat_numeral)
  have "net_contains \<lparr>net_ip = [x, y, 0, 0], net_mask = [255, m, 0, 0]\<rparr> (mapped_prefix @ v) \<longleftrightarrow> x = a \<and> y AND m = b AND m" for x y m
    using v_full [of a] v_full [of x] v4_network [OF v(2)]
    by (simp add: net_contains_def network_number_and_mask_def to4_def and_bytes_def quad Let_def)
  with False v quad show ?thesis
    by (auto simp: is_address_allowed_def parse_ip_def link_local_networks v_full)
qed

lemma path_sample:
  "address_by_interface (Some [''fe80::1/64'', ''169.254.3.4/16'', ''192.0.2.7/24'']) = ''192.0.2.7''"
  by code_simp

end
