(* ===== verification/Control.thy ===== *)
theory Control
  imports Path
begin

text \<open>
  The management server (\<^verbatim>\<open>internal/control/control.go\<close>, \<^verbatim>\<open>nocache.go\<close>): the routes, the password in
  front of each of them, and what they do to the roles. \<^verbatim>\<open>net/http\<close>, \<^verbatim>\<open>encoding/json\<close> and the embedded
  file system are parameters; a handler turns a response under construction and the state of the
  program into the next ones. Starting and stopping the listener (\<open>Run\<close>) is in \<open>Control_Run\<close>.
\<close>

section \<open>Requests and responses\<close>

text \<open>\<open>rq_body\<close> is \<open>None\<close> when reading it fails, \<open>rq_auth\<close> what \<^verbatim>\<open>Request.BasicAuth\<close> returns.\<close>

record request =
  rq_path :: string
  rq_headers :: "string \<rightharpoonup> string"
  rq_auth :: "(string \<times> string) option"
  rq_body :: "byte list option"

record response =
  rs_status :: "nat option"
  rs_headers :: "string \<rightharpoonup> string"
  rs_body :: "byte list"

type_synonym 's handler = "request \<Rightarrow> response \<Rightarrow> 's \<Rightarrow> response \<times> 's"

text \<open>The first \<^verbatim>\<open>WriteHeader\<close> counts, and a \<^verbatim>\<open>Write\<close> without one is a 200.\<close>

definition write_header :: "nat \<Rightarrow> response \<Rightarrow> response" where
  "write_header status w = (if rs_status w = None then w\<lparr>rs_status := Some status\<rparr> else w)"

definition write_body :: "byte list \<Rightarrow> response \<Rightarrow> response" where
  "write_body bs w = (let w = write_header 200 w in w\<lparr>rs_body := rs_body w @ bs\<rparr>)"

definition set_header :: "string \<Rightarrow> string \<Rightarrow> response \<Rightarrow> response" where
  "set_header name v w = w\<lparr>rs_headers := (rs_headers w)(name \<mapsto> v)\<rparr>"

definition write_error :: "nat \<Rightarrow> response \<Rightarrow> response" where
  "write_error status w = write_body (bytes_of_string ''Internal server error'') (write_header status w)"

definition write_json :: "byte list option \<Rightarrow> response \<Rightarrow> response" where
  "write_json content w =
     (case content of
        None \<Rightarrow> write_error 500 w
      | Some bs \<Rightarrow> write_body bs (write_header 200 (set_header ''Content-Type'' ''application/json'' w)))"

section \<open>Wrappers\<close>

definition basic_auth :: "'s handler \<Rightarrow> string \<Rightarrow> string \<Rightarrow> string \<Rightarrow> 's handler" where
  "basic_auth handler username password realm r w s =
     (if username \<noteq> '''' \<and> password \<noteq> '''' \<and>
         (case rq_auth r of None \<Rightarrow> True | Some (user, pass) \<Rightarrow> user \<noteq> username \<or> pass \<noteq> password)
      then (write_body (bytes_of_string (''Unauthorized.'' @ [CHR 0x0A]))
              (write_header 401 (set_header ''WWW-Authenticate'' (''Basic realm='' @ [CHR 0x22] @ realm @ [CHR 0x22]) w)), s)
      else handler r w s)"

definition etag_headers :: "string list" where
  "etag_headers = [''ETag'', ''If-Modified-Since'', ''If-Match'', ''If-None-Match'', ''If-Range'', ''If-Unmodified-Since'']"

text \<open>\<open>epoch\<close> is the text of the Unix epoch in the local time zone.\<close>

definition no_cache_headers :: "string \<Rightarrow> (string \<times> string) list" where
  "no_cache_headers epoch = [(''Expires'', epoch), (''Cache-Control'', ''no-cache, private, max-age=0''),
     (''Pragma'', ''no-cache''), (''X-Accel-Expires'', ''0'')]"

definition no_cache :: "string \<Rightarrow> 's handler \<Rightarrow> 's handler" where
  "no_cache epoch handler r w s =
     handler (foldl (\<lambda>r name. if rq_headers r name \<noteq> None \<and> rq_headers r name \<noteq> Some ''''
                              then r\<lparr>rq_headers := (rq_headers r)(name := None)\<rparr> else r) r etag_headers)
       (foldl (\<lambda>w (name, v). set_header name v w) w (no_cache_headers epoch)) s"

section \<open>Handlers\<close>

record ('s, 'v) interfaces =
  if_status :: "'s \<Rightarrow> 'v option"
  if_toggle :: "string \<Rightarrow> 's \<Rightarrow> string \<times> 's"
  if_include :: "string \<Rightarrow> 's \<Rightarrow> string \<times> 's"
  if_exclude :: "string \<Rightarrow> 's \<Rightarrow> string \<times> 's"
  if_reset :: "'s \<Rightarrow> string \<times> 's"

text \<open>The library: encoding of a status and of a reply, decoding of a request, the file server and the index page.\<close>

record 'v library =
  lb_encode_status :: "'v \<Rightarrow> byte list option"
  lb_encode_reply :: "string \<Rightarrow> byte list option"
  lb_decode_interface :: "byte list \<Rightarrow> string option"
  lb_index :: "byte list option"
  lb_serve_file :: "request \<Rightarrow> response \<Rightarrow> response"
  lb_not_found :: "response \<Rightarrow> response"

definition get_list :: "'v library \<Rightarrow> ('s, 'v) interfaces \<Rightarrow> 's handler" where
  "get_list lib ifs r w s =
     (case if_status ifs s of None \<Rightarrow> (write_error 500 w, s) | Some v \<Rightarrow> (write_json (lb_encode_status lib v) w, s))"

definition interface_action :: "'v library \<Rightarrow> (string \<Rightarrow> 's \<Rightarrow> string \<times> 's) \<Rightarrow> 's handler" where
  "interface_action lib action r w s =
     (case rq_body r of
        None \<Rightarrow> (write_error 500 w, s)
      | Some body \<Rightarrow>
          (case lb_decode_interface lib body of
             None \<Rightarrow> (write_error 500 w, s)
           | Some iface \<Rightarrow> (case action iface s of (reply, s') \<Rightarrow> (write_json (lb_encode_reply lib reply) w, s'))))"

definition reset_action :: "'v library \<Rightarrow> ('s, 'v) interfaces \<Rightarrow> 's handler" where
  "reset_action lib ifs r w s =
     (case if_reset ifs s of (reply, s') \<Rightarrow> (write_json (lb_encode_reply lib reply) w, s'))"

definition file_server :: "'v library \<Rightarrow> 's handler" where
  "file_server lib r w s =
     (if rq_path r = ''/''
      then (case lb_index lib of None \<Rightarrow> (lb_not_found lib w, s) | Some content \<Rightarrow> (write_body content (write_header 200 w), s))
      else (lb_serve_file lib r w, s))"

text \<open>
  The handler that \<^verbatim>\<open>NewMux\<close> registers for a path: a registered path is matched exactly and everything else is the file
  server's. Before it comes to this, \<^verbatim>\<open>http.ServeMux\<close> answers a request whose path is not clean (with \<^verbatim>\<open>//\<close>
  or \<^verbatim>\<open>..\<close>) with a redirection to the clean one and calls no handler; the requests here are the others.
  \<open>actions\<close> says whether the role has client actions.
\<close>

definition new_mux ::
    "'v library \<Rightarrow> string \<Rightarrow> ('s, 'v) interfaces \<Rightarrow> bool \<Rightarrow> string \<Rightarrow> string \<Rightarrow> 's handler" where
  "new_mux lib epoch ifs actions username password r =
     (let auth = (\<lambda>h. basic_auth h username password ''engarde'');
          api = (\<lambda>h. no_cache epoch (auth h))
      in if rq_path r = ''/api/v1/get-list'' then api (get_list lib ifs) r
         else if actions \<and> rq_path r = ''/api/v1/include'' then api (interface_action lib (if_include ifs)) r
         else if actions \<and> rq_path r = ''/api/v1/exclude'' then api (interface_action lib (if_exclude ifs)) r
         else if actions \<and> rq_path r = ''/api/v1/swap-exclusion'' then api (interface_action lib (if_toggle ifs)) r
         else if actions \<and> rq_path r = ''/api/v1/reset-exclusions'' then api (reset_action lib ifs) r
         else auth (file_server lib) r)"

text \<open>The client as the provider of the interfaces; \<open>status\<close> is its \<open>Status\<close>.\<close>

definition client_interfaces :: "(string \<Rightarrow> string \<Rightarrow> bool option) \<Rightarrow> (manager \<Rightarrow> 'v option) \<Rightarrow> (manager, 'v) interfaces" where
  "client_interfaces path_match status =
     \<lparr>if_status = status, if_toggle = (\<lambda>name m. toggle_exclusion m name),
      if_include = (\<lambda>name m. include_interface path_match m name),
      if_exclude = (\<lambda>name m. exclude_interface path_match m name), if_reset = reset_exclusions\<rparr>"

section \<open>Properties\<close>

definition authorised :: "string \<Rightarrow> string \<Rightarrow> request \<Rightarrow> bool" where
  "authorised username password r \<longleftrightarrow> username = '''' \<or> password = '''' \<or> rq_auth r = Some (username, password)"

lemma basic_auth_cases:
  "basic_auth handler username password realm r w s =
     (if authorised username password r then handler r w s
      else (write_body (bytes_of_string (''Unauthorized.'' @ [CHR 0x0A]))
              (write_header 401 (set_header ''WWW-Authenticate'' (''Basic realm='' @ [CHR 0x22] @ realm @ [CHR 0x22]) w)), s))"
  by (auto simp: basic_auth_def authorised_def split: option.splits)

lemma no_cache_request:
  "\<exists>r' w'. no_cache epoch handler r w s = handler r' w' s \<and> rq_path r' = rq_path r \<and> rq_auth r' = rq_auth r \<and>
     rq_body r' = rq_body r \<and> rs_status w' = rs_status w \<and> rs_body w' = rs_body w"
proof -
  have "rq_path (foldl (\<lambda>r name. if rq_headers r name \<noteq> None \<and> rq_headers r name \<noteq> Some ''''
        then r\<lparr>rq_headers := (rq_headers r)(name := None)\<rparr> else r) r names) = rq_path r \<and>
      rq_auth (foldl (\<lambda>r name. if rq_headers r name \<noteq> None \<and> rq_headers r name \<noteq> Some ''''
        then r\<lparr>rq_headers := (rq_headers r)(name := None)\<rparr> else r) r names) = rq_auth r \<and>
      rq_body (foldl (\<lambda>r name. if rq_headers r name \<noteq> None \<and> rq_headers r name \<noteq> Some ''''
        then r\<lparr>rq_headers := (rq_headers r)(name := None)\<rparr> else r) r names) = rq_body r" for names
    by (induction names arbitrary: r) auto
  moreover have "rs_status (foldl (\<lambda>w (name, v). set_header name v w) w hs) = rs_status w \<and>
      rs_body (foldl (\<lambda>w (name, v). set_header name v w) w hs) = rs_body w" for hs
    by (induction hs arbitrary: w) (auto simp: set_header_def)
  ultimately show ?thesis unfolding no_cache_def by blast
qed

text \<open>The operation of the manager that a request asks for.\<close>

definition requested :: "'v library \<Rightarrow> request \<Rightarrow> path_op option" where
  "requested lib r =
     (let iface = Option.bind (rq_body r) (lb_decode_interface lib)
      in if rq_path r = ''/api/v1/include'' then map_option IncludeOp iface
         else if rq_path r = ''/api/v1/exclude'' then map_option ExcludeOp iface
         else if rq_path r = ''/api/v1/swap-exclusion'' then map_option Toggle iface
         else if rq_path r = ''/api/v1/reset-exclusions'' then Some ResetOp
         else None)"

text \<open>
  C34. The management page changes nothing without its password: with a configured user and password,
  a request that \<^verbatim>\<open>ServeMux\<close> hands to a handler, on any (clean) path and of either role, that does not carry exactly
  them is answered with 401 and leaves the manager as it is; an authorised one performs exactly the operation it names on a client, once,
  and none at all when its body cannot be read or the role is a server.
\<close>

theorem management_guarded:
  assumes "rs_status w = None"
  shows "case new_mux lib epoch (client_interfaces path_match status) actions username password r w m of (w', m') \<Rightarrow>
    m' = (if authorised username password r \<and> actions
          then (case requested lib r of None \<Rightarrow> m | Some op \<Rightarrow> snd (path_step path_match op m)) else m) \<and>
    (\<not> authorised username password r \<longrightarrow> rs_status w' = Some 401)"
proof -
  note defs = basic_auth_cases client_interfaces_def get_list_def interface_action_def reset_action_def file_server_def
    requested_def path_step_def authorised_def write_body_def write_header_def set_header_def Let_def
  let ?ifs = "client_interfaces path_match status"
  show ?thesis
  proof (cases "rq_path r = ''/api/v1/get-list'' \<or> (actions \<and> rq_path r \<in> {''/api/v1/include'', ''/api/v1/exclude'',
      ''/api/v1/swap-exclusion'', ''/api/v1/reset-exclusions''})")
    case False
    with assms show ?thesis by (auto simp: new_mux_def defs split: option.splits)
  next
    case True
    define h where "h = (if rq_path r = ''/api/v1/get-list'' then get_list lib ?ifs
      else if rq_path r = ''/api/v1/include'' then interface_action lib (if_include ?ifs)
      else if rq_path r = ''/api/v1/exclude'' then interface_action lib (if_exclude ?ifs)
      else if rq_path r = ''/api/v1/swap-exclusion'' then interface_action lib (if_toggle ?ifs) else reset_action lib ?ifs)"
    have mux: "new_mux lib epoch ?ifs actions username password r w m = no_cache epoch (basic_auth h username password ''engarde'') r w m"
      using True by (auto simp: new_mux_def h_def)
    obtain r' w' where rw: "no_cache epoch (basic_auth h username password ''engarde'') r w m = basic_auth h username password ''engarde'' r' w' m"
      "rq_path r' = rq_path r" "rq_auth r' = rq_auth r" "rq_body r' = rq_body r" "rs_status w' = rs_status w"
      using no_cache_request [of epoch "basic_auth h username password ''engarde''" r w m] by blast
    have same: "authorised username password r' = authorised username password r" using rw by (simp add: authorised_def)
    show ?thesis
    proof (cases "authorised username password r")
      case no: False
      with rw same assms mux show ?thesis by (simp add: basic_auth_cases write_body_def write_header_def set_header_def Let_def)
    next
      case yes: True
      have "snd (h r' w' m) = (if actions then (case requested lib r of None \<Rightarrow> m | Some op \<Rightarrow> snd (path_step path_match op m)) else m)"
        using True rw(2-4)
        by (auto simp: h_def client_interfaces_def get_list_def interface_action_def reset_action_def requested_def path_step_def Let_def
            split: option.splits prod.splits)
      with yes same mux rw(1) show ?thesis by (auto simp: basic_auth_cases split: prod.splits)
    qed
  qed
qed

text \<open>A library that understands one request and encodes replies as their bytes.\<close>

definition sample_library :: "unit library" where
  "sample_library = \<lparr>lb_encode_status = (\<lambda>_. Some []), lb_encode_reply = (\<lambda>s. Some (bytes_of_string s)),
     lb_decode_interface = (\<lambda>bs. Some (string_of_bytes bs)), lb_index = None, lb_serve_file = (\<lambda>_ w. w),
     lb_not_found = write_header 404\<rparr>"

definition sample_request :: request where
  "sample_request = \<lparr>rq_path = ''/api/v1/exclude'', rq_headers = Map.empty, rq_auth = Some (''u'', ''p''),
     rq_body = Some (bytes_of_string ''eth0'')\<rparr>"

definition fresh_response :: response where
  "fresh_response = \<lparr>rs_status = None, rs_headers = Map.empty, rs_body = []\<rparr>"

lemma management_guarded_witness:
  "(case new_mux sample_library ''epoch'' (client_interfaces (\<lambda>_ _. Some False) (\<lambda>_. Some ())) True ''u'' ''p'' sample_request
      fresh_response (new_manager (cf_client empty_config)) of (w', m') \<Rightarrow> is_excluded (\<lambda>_ _. Some False) m' ''eth0'') \<and>
   (case new_mux sample_library ''epoch'' (client_interfaces (\<lambda>_ _. Some False) (\<lambda>_. Some ())) True ''u'' ''other'' sample_request
      fresh_response (new_manager (cf_client empty_config)) of (w', m') \<Rightarrow>
        rs_status w' = Some 401 \<and> m' = new_manager (cf_client empty_config))"
proof -
  have fresh: "rs_status fresh_response = None" by (simp add: fresh_response_def)
  have auth: "authorised ''u'' ''p'' sample_request" "\<not> authorised ''u'' ''other'' sample_request"
    by (simp_all add: authorised_def sample_request_def)
  have req: "requested sample_library sample_request = Some (ExcludeOp ''eth0'')"
    by (simp add: requested_def sample_request_def sample_library_def)
  have "is_excluded (\<lambda>_ _. Some False) (snd (path_step (\<lambda>_ _. Some False) (ExcludeOp ''eth0'') (new_manager (cf_client empty_config)))) ''eth0''"
    by (simp add: path_step_def exclude_interface_def is_excluded_toggle)
  with management_guarded [OF fresh, where lib = sample_library and epoch = "''epoch''" and path_match = "\<lambda>_ _. Some False" and status = "\<lambda>_. Some ()"
      and actions = True and username = "''u''" and password = "''p''" and r = sample_request and m = "new_manager (cf_client empty_config)"]
    management_guarded [OF fresh, where lib = sample_library and epoch = "''epoch''" and path_match = "\<lambda>_ _. Some False" and status = "\<lambda>_. Some ()"
      and actions = True and username = "''u''" and password = "''other''" and r = sample_request and m = "new_manager (cf_client empty_config)"] auth req
  show ?thesis by (auto split: prod.splits)
qed

end
