(* ===== verification/Control_Run.thy ===== *)
theory Control_Run
  imports Control
begin

text \<open>
  Running the management server (\<open>Run\<close> in \<^verbatim>\<open>internal/control/control.go\<close>): one goroutine serves, another waits for
  the context or for the end of the first and shuts the server down. Of \<^verbatim>\<open>net/http\<close> only what it
  documents is used: once \<open>Shutdown\<close> was called, \<open>ListenAndServe\<close> returns \<open>ErrServerClosed\<close>, and \<open>Shutdown\<close> ends with its deadline.
\<close>

section \<open>State\<close>

text \<open>What \<open>ListenAndServe\<close> returned; the loop of \<open>Run\<close> and its watcher.\<close>

datatype serve_result = ServedNil | ServerClosed | ServeFailed go_error

datatype run_pc = ServingPage | StoppingWatcher serve_result | AwaitWatcher serve_result | RunReturned "go_error option"

datatype watcher_pc = Watching | CallingShutdown | InShutdown | WatcherDone

record page_run =
  pr_cancelled :: bool
  pr_stop :: bool
  pr_shut :: bool
  pr_watcher :: watcher_pc
  pr_run :: run_pc

definition page_start :: "bool \<Rightarrow> page_run" where
  "page_start cancelled = \<lparr>pr_cancelled = cancelled, pr_stop = False, pr_shut = False, pr_watcher = Watching, pr_run = ServingPage\<rparr>"

section \<open>Steps\<close>

definition run_error :: "serve_result \<Rightarrow> go_error option" where
  "run_error r = (case r of ServeFailed e \<Rightarrow> Some e | _ \<Rightarrow> None)"

inductive watcher_step :: "page_run \<Rightarrow> page_run \<Rightarrow> bool" where
  SeesCancel: "pr_watcher s = Watching \<Longrightarrow> pr_cancelled s \<Longrightarrow> watcher_step s (s\<lparr>pr_watcher := CallingShutdown\<rparr>)"
| SeesStop: "pr_watcher s = Watching \<Longrightarrow> pr_stop s \<Longrightarrow>
    watcher_step s (s\<lparr>pr_watcher := (if pr_cancelled s then CallingShutdown else WatcherDone)\<rparr>)"
| CallsShutdown: "pr_watcher s = CallingShutdown \<Longrightarrow> watcher_step s (s\<lparr>pr_shut := True, pr_watcher := InShutdown\<rparr>)"
| ShutdownReturns: "pr_watcher s = InShutdown \<Longrightarrow> watcher_step s (s\<lparr>pr_watcher := WatcherDone\<rparr>)"

inductive run_step :: "page_run \<Rightarrow> page_run \<Rightarrow> bool" where
  ServeEnds: "pr_run s = ServingPage \<Longrightarrow> pr_shut s \<Longrightarrow> run_step s (s\<lparr>pr_run := StoppingWatcher ServerClosed\<rparr>)"
| StopsWatcher: "pr_run s = StoppingWatcher r \<Longrightarrow> run_step s (s\<lparr>pr_stop := True, pr_run := AwaitWatcher r\<rparr>)"
| Returns: "pr_run s = AwaitWatcher r \<Longrightarrow> pr_watcher s = WatcherDone \<Longrightarrow> run_step s (s\<lparr>pr_run := RunReturned (run_error r)\<rparr>)"

text \<open>What comes from outside: the context is cancelled, the listener cannot be opened or fails.\<close>

inductive page_env :: "page_run \<Rightarrow> page_run \<Rightarrow> bool" where
  Cancelled: "page_env s (s\<lparr>pr_cancelled := True\<rparr>)"
| ServeFails: "pr_run s = ServingPage \<Longrightarrow> page_env s (s\<lparr>pr_run := StoppingWatcher (ServeFailed e)\<rparr>)"

definition page_work :: "page_run \<Rightarrow> page_run \<Rightarrow> bool" where
  "page_work s s' \<longleftrightarrow> watcher_step s s' \<or> run_step s s'"

inductive page_reachable :: "page_run \<Rightarrow> bool" where
  "page_reachable (page_start cancelled)"
| "page_reachable s \<Longrightarrow> page_work s s' \<or> page_env s s' \<Longrightarrow> page_reachable s'"

section \<open>Run returns\<close>

definition page_inv :: "page_run \<Rightarrow> bool" where
  "page_inv s \<longleftrightarrow> (pr_watcher s = InShutdown \<longrightarrow> pr_shut s) \<and> (pr_shut s \<longrightarrow> pr_cancelled s) \<and>
     (pr_watcher s = CallingShutdown \<longrightarrow> pr_cancelled s) \<and>
     (pr_watcher s = WatcherDone \<longrightarrow> pr_shut s \<or> pr_stop s) \<and>
     (case pr_run s of
        ServingPage \<Rightarrow> \<not> pr_stop s
      | StoppingWatcher r \<Rightarrow> \<not> pr_stop s \<and> r \<noteq> ServedNil \<and> (r = ServerClosed \<longrightarrow> pr_shut s)
      | AwaitWatcher r \<Rightarrow> pr_stop s \<and> r \<noteq> ServedNil \<and> (r = ServerClosed \<longrightarrow> pr_shut s)
      | RunReturned e \<Rightarrow> pr_watcher s = WatcherDone \<and> (e = None \<longrightarrow> pr_shut s))"

lemma page_step_inv: "page_work s s' \<or> page_env s s' \<Longrightarrow> page_inv s \<Longrightarrow> page_inv s'"
  unfolding page_work_def
  by (elim disjE watcher_step.cases run_step.cases page_env.cases)
    (auto simp: page_inv_def run_error_def split: run_pc.splits serve_result.splits if_splits)

lemma page_reachable_inv: "page_reachable s \<Longrightarrow> page_inv s"
proof (induction rule: page_reachable.induct)
  case (2 s s')
  show ?case using 2(2,3) by (rule page_step_inv)
qed (simp add: page_start_def page_inv_def)

fun watcher_rank :: "watcher_pc \<Rightarrow> nat" where
  "watcher_rank Watching = 3"
| "watcher_rank CallingShutdown = 2"
| "watcher_rank InShutdown = 1"
| "watcher_rank WatcherDone = 0"

fun run_rank :: "run_pc \<Rightarrow> nat" where
  "run_rank ServingPage = 3"
| "run_rank (StoppingWatcher r) = 2"
| "run_rank (AwaitWatcher r) = 1"
| "run_rank (RunReturned e) = 0"

definition page_rank :: "page_run \<Rightarrow> nat" where
  "page_rank s = watcher_rank (pr_watcher s) + run_rank (pr_run s)"

lemma page_work_rank: "page_work s s' \<Longrightarrow> page_rank s' < page_rank s"
  unfolding page_work_def by (elim disjE watcher_step.cases run_step.cases) (auto simp: page_rank_def)

text \<open>
  \<open>Run\<close> returns. After the context is cancelled or the listener has failed it ends in at most six steps
  of its own, never before its watcher, so no goroutine is left behind; and it returns no error only when
  the server was shut down, which happens only when the context was cancelled.
\<close>

theorem control_run_ends:
  assumes "page_reachable s"
  shows "(\<forall>s'. page_work s s' \<longrightarrow> page_rank s' < page_rank s) \<and> page_rank s \<le> 6 \<and>
    (pr_cancelled s \<or> pr_run s \<noteq> ServingPage \<longrightarrow> (\<exists>s'. page_work s s') \<or> (\<exists>e. pr_run s = RunReturned e)) \<and>
    (\<forall>e. pr_run s = RunReturned e \<longrightarrow> pr_watcher s = WatcherDone \<and> (e = None \<longrightarrow> pr_shut s \<and> pr_cancelled s))"
proof -
  note inv = page_reachable_inv [OF assms]
  have "\<exists>s'. page_work s s'" if run: "pr_run s \<noteq> ServingPage" "\<forall>e. pr_run s \<noteq> RunReturned e"
  proof (cases "pr_run s")
    case (StoppingWatcher r)
    then show ?thesis by (auto simp: page_work_def intro: run_step.StopsWatcher)
  next
    case (AwaitWatcher r)
    then have "pr_stop s" using inv by (simp add: page_inv_def)
    with AwaitWatcher show ?thesis
      by (cases "pr_watcher s") (auto simp: page_work_def intro: watcher_step.intros run_step.Returns)
  qed (use run in simp_all)
  moreover have "\<exists>s'. page_work s s'" if "pr_run s = ServingPage" "pr_cancelled s"
    using that inv
    by (cases "pr_watcher s") (auto simp: page_inv_def page_work_def intro: watcher_step.intros run_step.ServeEnds)
  moreover have "page_rank s \<le> 6" by (cases "pr_watcher s"; cases "pr_run s") (simp_all add: page_rank_def)
  ultimately show ?thesis using page_work_rank inv by (auto simp: page_inv_def)
qed

lemma control_run_ends_witness: "\<exists>s. page_reachable s \<and> pr_run s = ServingPage \<and> (\<exists>s'. page_work s s')"
  using control_run_ends [OF page_reachable.intros(1) [of True]] page_reachable.intros(1) [of True] by (auto simp: page_start_def)

end
