(* ===== verification/Stats.thy ===== *)
theory Stats
  imports Frame
begin

text \<open>
  Traffic counters (\<^verbatim>\<open>internal/stats/traffic.go\<close>) and the observer of a carrier that feeds them
  (\<open>tcpCarrierObserver\<close>, the same code in both roles). A counter is an \<^verbatim>\<open>atomic.Uint64\<close>: it
  wraps, and each \<^verbatim>\<open>Add\<close> is one step. The counters that the management page shows are a snapshot.
\<close>

section \<open>Counters\<close>

record counters =
  rx_packets :: u64
  rx_bytes :: u64
  tx_packets :: u64
  tx_bytes :: u64
  drop_packets :: u64
  drop_bytes :: u64
  skipped_packets :: u64
  skipped_bytes :: u64

text \<open>\<^verbatim>\<open>uint64(bytes)\<close> after the clamp of a negative count.\<close>

definition clamped :: "int \<Rightarrow> u64" where
  "clamped bytes = (if bytes < 0 then 0 else word_of_int bytes)"

definition record_rx :: "int \<Rightarrow> counters \<Rightarrow> counters" where
  "record_rx bytes c = c\<lparr>rx_packets := rx_packets c + 1, rx_bytes := rx_bytes c + clamped bytes\<rparr>"

definition record_tx :: "int \<Rightarrow> counters \<Rightarrow> counters" where
  "record_tx bytes c = c\<lparr>tx_packets := tx_packets c + 1, tx_bytes := tx_bytes c + clamped bytes\<rparr>"

definition record_drop :: "int \<Rightarrow> counters \<Rightarrow> counters" where
  "record_drop bytes c = c\<lparr>drop_packets := drop_packets c + 1, drop_bytes := drop_bytes c + clamped bytes\<rparr>"

definition record_skip :: "int \<Rightarrow> counters \<Rightarrow> counters" where
  "record_skip bytes c = c\<lparr>skipped_packets := skipped_packets c + 1, skipped_bytes := skipped_bytes c + clamped bytes\<rparr>"

definition zero_counters :: counters where
  "zero_counters = \<lparr>rx_packets = 0, rx_bytes = 0, tx_packets = 0, tx_bytes = 0, drop_packets = 0, drop_bytes = 0,
     skipped_packets = 0, skipped_bytes = 0\<rparr>"

text \<open>\<^verbatim>\<open>control.TrafficCounters\<close> and \<^verbatim>\<open>control.TrafficStats\<close>.\<close>

record traffic_counters =
  tc_rx_packets :: u64
  tc_rx_bytes :: u64
  tc_tx_packets :: u64
  tc_tx_bytes :: u64
  tc_drop_packets :: u64
  tc_drop_bytes :: u64
  tc_skipped_packets :: u64
  tc_skipped_bytes :: u64

record traffic_stats =
  ts_data :: traffic_counters
  ts_control :: traffic_counters

definition counters_snapshot :: "counters \<Rightarrow> traffic_counters" where
  "counters_snapshot c = \<lparr>tc_rx_packets = rx_packets c, tc_rx_bytes = rx_bytes c, tc_tx_packets = tx_packets c,
     tc_tx_bytes = tx_bytes c, tc_drop_packets = drop_packets c, tc_drop_bytes = drop_bytes c,
     tc_skipped_packets = skipped_packets c, tc_skipped_bytes = skipped_bytes c\<rparr>"

record traffic =
  tf_data :: counters
  tf_control :: counters

definition zero_traffic :: traffic where "zero_traffic = \<lparr>tf_data = zero_counters, tf_control = zero_counters\<rparr>"

text \<open>\<open>None\<close> is the nil pointer, whose snapshot is the zero value.\<close>

definition traffic_snapshot :: "traffic option \<Rightarrow> traffic_stats" where
  "traffic_snapshot t =
     (case t of
        None \<Rightarrow> \<lparr>ts_data = counters_snapshot zero_counters, ts_control = counters_snapshot zero_counters\<rparr>
      | Some tr \<Rightarrow> \<lparr>ts_data = counters_snapshot (tf_data tr), ts_control = counters_snapshot (tf_control tr)\<rparr>)"

section \<open>The observer of a carrier\<close>

definition record_frame :: "(int \<Rightarrow> counters \<Rightarrow> counters) \<Rightarrow> frame \<Rightarrow> traffic \<Rightarrow> traffic" where
  "record_frame rec f t =
     (if f_type f = FrameData then t\<lparr>tf_data := rec (int (length (f_payload f))) (tf_data t)\<rparr>
      else t\<lparr>tf_control := rec (int (HeaderSize + length (f_payload f))) (tf_control t)\<rparr>)"

definition record_frame_rx :: "frame \<Rightarrow> traffic \<Rightarrow> traffic" where "record_frame_rx = record_frame record_rx"
definition record_frame_tx :: "frame \<Rightarrow> traffic \<Rightarrow> traffic" where "record_frame_tx = record_frame record_tx"

datatype observed = ObsRead frame | ObsWrite frame | ObsDrop frame | ObsSkip frame

definition carrier_observer :: "observed \<Rightarrow> traffic \<Rightarrow> traffic" where
  "carrier_observer e =
     (case e of
        ObsRead f \<Rightarrow> record_frame_rx f
      | ObsWrite f \<Rightarrow> record_frame_tx f
      | ObsDrop f \<Rightarrow> record_frame record_drop f
      | ObsSkip f \<Rightarrow> record_frame record_skip f)"

section \<open>Exact totals\<close>

text \<open>How many bytes a frame counts for, and the frames of a kind among what was observed.\<close>

definition frame_size :: "frame \<Rightarrow> nat" where
  "frame_size f = (if f_type f = FrameData then length (f_payload f) else HeaderSize + length (f_payload f))"

fun reads :: "observed \<Rightarrow> frame list" where "reads (ObsRead f) = [f]" | "reads _ = []"
fun writes :: "observed \<Rightarrow> frame list" where "writes (ObsWrite f) = [f]" | "writes _ = []"
fun drops :: "observed \<Rightarrow> frame list" where "drops (ObsDrop f) = [f]" | "drops _ = []"
fun skips :: "observed \<Rightarrow> frame list" where "skips (ObsSkip f) = [f]" | "skips _ = []"

definition of_kind :: "bool \<Rightarrow> (observed \<Rightarrow> frame list) \<Rightarrow> observed list \<Rightarrow> frame list" where
  "of_kind data pick es = filter (\<lambda>f. (f_type f = FrameData) = data) (concat (map pick es))"

definition packets_of :: "frame list \<Rightarrow> u64" where "packets_of fs = word_of_nat (length fs)"
definition bytes_of :: "frame list \<Rightarrow> u64" where "bytes_of fs = word_of_nat (sum_list (map frame_size fs))"

definition totals :: "bool \<Rightarrow> observed list \<Rightarrow> traffic_counters" where
  "totals data es =
     \<lparr>tc_rx_packets = packets_of (of_kind data reads es), tc_rx_bytes = bytes_of (of_kind data reads es),
      tc_tx_packets = packets_of (of_kind data writes es), tc_tx_bytes = bytes_of (of_kind data writes es),
      tc_drop_packets = packets_of (of_kind data drops es), tc_drop_bytes = bytes_of (of_kind data drops es),
      tc_skipped_packets = packets_of (of_kind data skips es), tc_skipped_bytes = bytes_of (of_kind data skips es)\<rparr>"

lemma totals_of_append [simp]:
  "packets_of (fs @ gs) = packets_of fs + packets_of gs" "bytes_of (fs @ gs) = bytes_of fs + bytes_of gs"
  "packets_of [] = 0" "bytes_of [] = 0" "packets_of [f] = 1" "bytes_of [f] = word_of_nat (frame_size f)"
  by (simp_all add: packets_of_def bytes_of_def)

lemma of_kind_snoc [simp]:
  "of_kind data pick [] = []" "of_kind data pick (es @ [e]) = of_kind data pick es @ filter (\<lambda>f. (f_type f = FrameData) = data) (pick e)"
  by (simp_all add: of_kind_def)

lemma clamped_length [simp]: "clamped (int n) = word_of_nat n"
  by (simp add: clamped_def)

section \<open>Properties\<close>

text \<open>
  The counters are the traffic: after any sequence of frames that a carrier has read, written,
  dropped or skipped, the snapshot shows for data and for control frames exactly how many of each there
  were and their bytes (with the header for a control frame), modulo two to the 64.
\<close>

theorem counters_are_totals:
  "traffic_snapshot (Some (foldl (\<lambda>t e. carrier_observer e t) zero_traffic es)) =
     \<lparr>ts_data = totals True es, ts_control = totals False es\<rparr>"
proof (induction es rule: rev_induct)
  case Nil
  show ?case by (simp add: traffic_snapshot_def zero_traffic_def counters_snapshot_def zero_counters_def totals_def)
next
  case (snoc e es)
  then show ?case
    by (cases e) (auto simp: traffic_snapshot_def counters_snapshot_def totals_def carrier_observer_def record_frame_rx_def
        record_frame_tx_def record_frame_def record_rx_def record_tx_def record_drop_def record_skip_def frame_size_def algebra_simps
        simp flip: of_nat_add)
qed

end
