(* ===== verification/Access.thy ===== *)
theory Access
  imports Config
begin

text \<open>
  Which client addresses a server admits (\<^verbatim>\<open>internal/serverrole/server.go\<close>): \<open>parseAllowedClients\<close> keeps
  the entries of the configuration that parse, \<open>clientIPAllowed\<close> decides for an address.
\<close>

record role_server =
  rs_cfg :: server_config
  rs_allowed_ips :: "byte list list"
  rs_allowed_nets :: "ip_net list"

fun parse_allowed_clients :: "string list \<Rightarrow> byte list list \<times> ip_net list" where
  "parse_allowed_clients [] = ([], [])"
| "parse_allowed_clients (value # values) =
     (let value = trim_space value; (ips, nets) = parse_allowed_clients values in
      if value = '''' then (ips, nets)
      else case parse_ip value of
          Some ip \<Rightarrow> (ip # ips, nets)
        | None \<Rightarrow> (case parse_cidr value of Some n \<Rightarrow> (ips, n # nets) | None \<Rightarrow> (ips, nets)))"

definition new_server :: "server_config \<Rightarrow> role_server" where
  "new_server cfg =
     (let cfg = cfg\<lparr>sv_transfer := transfer_apply_defaults (sv_transfer cfg)\<rparr>;
          (ips, nets) = parse_allowed_clients (sv_allowed_clients cfg)
      in \<lparr>rs_cfg = cfg, rs_allowed_ips = ips, rs_allowed_nets = nets\<rparr>)"

definition client_ip_allowed :: "role_server \<Rightarrow> byte list \<Rightarrow> bool" where
  "client_ip_allowed server ip =
     (if rs_allowed_ips server = [] \<and> rs_allowed_nets server = [] then True
      else if list_ex (\<lambda>allowed. ip_equal allowed ip) (rs_allowed_ips server) then True
      else list_ex (\<lambda>n. net_contains n ip) (rs_allowed_nets server))"

text \<open>What an entry of the configuration admits, and whether it admits anything.\<close>

definition entry_admits :: "string \<Rightarrow> byte list \<Rightarrow> bool" where
  "entry_admits value ip \<longleftrightarrow>
     (case parse_ip (trim_space value) of
        Some allowed \<Rightarrow> ip_equal allowed ip
      | None \<Rightarrow> (case parse_cidr (trim_space value) of Some n \<Rightarrow> net_contains n ip | None \<Rightarrow> False))"

lemma empty_address [simp]: "parse_ip '''' = None" "parse_cidr '''' = None"
  by code_simp+

lemma parse_allowed_clients_admits:
  assumes "parse_allowed_clients values = (ips, nets)"
  shows "(\<exists>allowed \<in> set ips. ip_equal allowed ip) \<or> (\<exists>n \<in> set nets. net_contains n ip) \<longleftrightarrow> (\<exists>v \<in> set values. entry_admits v ip)"
    and "ips = [] \<and> nets = [] \<longleftrightarrow> \<not> list_ex client_entry values"
proof -
  have "((\<exists>allowed \<in> set ips. ip_equal allowed ip) \<or> (\<exists>n \<in> set nets. net_contains n ip) \<longleftrightarrow> (\<exists>v \<in> set values. entry_admits v ip)) \<and>
    (ips = [] \<and> nets = [] \<longleftrightarrow> \<not> list_ex client_entry values)"
    using assms
  proof (induction "values" arbitrary: ips nets)
    case (Cons v vs)
    obtain js ns where rest: "parse_allowed_clients vs = (js, ns)" by (cases "parse_allowed_clients vs")
    show ?case
    proof (cases "trim_space v = ''''")
      case True
      with Cons.IH [OF rest] Cons.prems rest show ?thesis by (simp add: entry_admits_def client_entry_def Let_def)
    next
      case False
      show ?thesis
      proof (cases "parse_ip (trim_space v)")
        case None
        then show ?thesis
          using False Cons.IH [OF rest] Cons.prems rest
          by (cases "parse_cidr (trim_space v)") (auto simp: entry_admits_def client_entry_def Let_def)
      next
        case (Some allowed)
        then show ?thesis
          using False Cons.IH [OF rest] Cons.prems rest by (auto simp: entry_admits_def client_entry_def Let_def)
      qed
    qed
  qed simp
  then show "(\<exists>allowed \<in> set ips. ip_equal allowed ip) \<or> (\<exists>n \<in> set nets. net_contains n ip) \<longleftrightarrow> (\<exists>v \<in> set values. entry_admits v ip)"
    and "ips = [] \<and> nets = [] \<longleftrightarrow> \<not> list_ex client_entry values" by blast+
qed

lemma client_ip_allowed_parsed:
  "client_ip_allowed (new_server cfg) ip \<longleftrightarrow>
     (if list_ex client_entry (sv_allowed_clients cfg) then \<exists>v \<in> set (sv_allowed_clients cfg). entry_admits v ip else True)"
proof -
  obtain ips nets where p: "parse_allowed_clients (sv_allowed_clients cfg) = (ips, nets)"
    by (cases "parse_allowed_clients (sv_allowed_clients cfg)")
  have "client_ip_allowed (new_server cfg) ip \<longleftrightarrow>
      ips = [] \<and> nets = [] \<or> (\<exists>allowed \<in> set ips. ip_equal allowed ip) \<or> (\<exists>n \<in> set nets. net_contains n ip)"
    by (auto simp: client_ip_allowed_def new_server_def p list_ex_iff)
  then show ?thesis unfolding parse_allowed_clients_admits [OF p] by simp
qed

text \<open>
  C35. A server whose configuration \<open>Load\<close> accepted admits exactly the addresses its list names: with a
  list, an address is admitted if and only if some entry is that address or a network that contains it,
  so that no list of entries is ever read as the empty list that admits everybody.
\<close>

theorem allowlist_exact:
  assumes "load pattern_ok read_file unmarshal filename = Inr (cfg, RoleServer)"
  shows "client_ip_allowed (new_server (cf_server cfg)) ip \<longleftrightarrow>
    sv_allowed_clients (cf_server cfg) = [] \<or> (\<exists>v \<in> set (sv_allowed_clients (cf_server cfg)). entry_admits v ip)"
proof -
  have "validate pattern_ok RoleServer cfg = None" using load_parts [OF assms] by blast
  then have "validate_allowed_clients (sv_allowed_clients (cf_server cfg)) = None"
    by (auto simp: validate_def validate_server_def)
  from validate_allowed_clients_None [OF this]
  have "list_ex client_entry (sv_allowed_clients (cf_server cfg)) \<longleftrightarrow> sv_allowed_clients (cf_server cfg) \<noteq> []"
    by (cases "sv_allowed_clients (cf_server cfg)") simp_all
  then show ?thesis by (auto simp: client_ip_allowed_parsed)
qed

lemma allowlist_exact_witness:
  "\<not> client_ip_allowed (new_server (cf_server sample_loaded)) [11, 0, 0, 1] \<and>
   client_ip_allowed (new_server (cf_server sample_loaded)) [10, 1, 2, 3]"
proof -
  have "sv_allowed_clients (cf_server sample_loaded) = [''10.0.0.0/8'']" by code_simp
  moreover have "\<not> entry_admits ''10.0.0.0/8'' [11, 0, 0, 1]" "entry_admits ''10.0.0.0/8'' [10, 1, 2, 3]" by code_simp+
  ultimately show ?thesis using allowlist_exact [OF sample_load] by simp
qed

end
