(* ===== verification/Closed_Streams.thy ===== *)
theory Closed_Streams
  imports Prelude "HOL-Library.AList"
begin

text \<open>
  The server's memory of closed streams (\<^verbatim>\<open>internal/serverrole/tcp.go\<close>): a stream identifier that was
  closed is refused for a while, so that a late OPEN of another carrier does not dial again. The memory
  is a map from identifiers to their expiry, a list that orders them by the time they were remembered,
  and a map from identifiers to elements of that list. A Go map is an association list in the order in
  which a \<^verbatim>\<open>range\<close> visits it; the element of an identifier is its place in the list.
  Times are nanoseconds.
\<close>

type_synonym stream_id = "byte list"

record closed_cache =
  cc_closed :: "(stream_id \<times> int) list"
  cc_order :: "stream_id list option"
  cc_items :: "stream_id list option"

definition tcpServerClosedTTL :: int where "tcpServerClosedTTL = 60 * 1000000000"
definition tcpServerClosedCacheSafetyLimit :: int where "tcpServerClosedCacheSafetyLimit = 64 * 1024"

definition empty_closed :: closed_cache where
  "empty_closed = \<lparr>cc_closed = [], cc_order = Some [], cc_items = Some []\<rparr>"

section \<open>Operations\<close>

text \<open>The two optional fields are nil only before the first use; \<open>the_order\<close> and \<open>the_items\<close> read them.\<close>

definition the_order :: "closed_cache \<Rightarrow> stream_id list" where
  "the_order c = (case cc_order c of None \<Rightarrow> [] | Some o' \<Rightarrow> o')"

definition the_items :: "closed_cache \<Rightarrow> stream_id list" where
  "the_items c = (case cc_items c of None \<Rightarrow> [] | Some i \<Rightarrow> i)"

definition ensure_closed_tracking :: "closed_cache \<Rightarrow> closed_cache" where
  "ensure_closed_tracking c =
     (if cc_order c \<noteq> None \<and> cc_items c \<noteq> None \<and> length (the_items c) = length (cc_closed c) then c
      else let entries = map fst (sort_key snd (cc_closed c))
           in c\<lparr>cc_order := Some entries, cc_items := Some entries\<rparr>)"

definition remove_closed :: "stream_id \<Rightarrow> closed_cache \<Rightarrow> closed_cache" where
  "remove_closed sid c =
     (let c = c\<lparr>cc_closed := AList.delete sid (cc_closed c)\<rparr>
      in if sid \<in> set (the_items c)
         then c\<lparr>cc_order := Some (remove1 sid (the_order c)), cc_items := Some (remove1 sid (the_items c))\<rparr> else c)"

lemma alist_delete_shrinks: "map_of xs k \<noteq> None \<Longrightarrow> length (AList.delete k xs) < length xs"
  by (induction xs) (auto simp: AList.delete_eq less_Suc_eq_le split: if_splits)

text \<open>The loop of \<open>pruneClosedLocked\<close>: the oldest entries leave until one has not expired.\<close>

function prune_closed_loop :: "int \<Rightarrow> closed_cache \<Rightarrow> closed_cache" where
  "prune_closed_loop now c =
     (case the_order c of
        [] \<Rightarrow> c
      | sid # rest \<Rightarrow>
          (case map_of (cc_closed c) sid of
             None \<Rightarrow> prune_closed_loop now (c\<lparr>cc_order := Some rest, cc_items := Some (remove1 sid (the_items c))\<rparr>)
           | Some expires \<Rightarrow> if expires > now then c else prune_closed_loop now (remove_closed sid c)))"
  by pat_completeness auto
termination
proof (relation "measure (\<lambda>(now, c). length (the_order c) + length (cc_closed c))")
  fix now c sid rest
  assume o': "the_order c = sid # rest"
  show "((now, c\<lparr>cc_order := Some rest, cc_items := Some (remove1 sid (the_items c))\<rparr>), now, c)
      \<in> measure (\<lambda>(now, c). length (the_order c) + length (cc_closed c))"
    using o' by (simp add: the_order_def)
  fix expires assume m: "map_of (cc_closed c) sid = Some expires"
  have "length (the_order (remove_closed sid c)) \<le> length (the_order c)"
    by (auto simp: remove_closed_def the_order_def Let_def length_remove1 split: option.splits)
  moreover have "length (cc_closed (remove_closed sid c)) < length (cc_closed c)"
    using alist_delete_shrinks [of "cc_closed c" sid] m by (auto simp: remove_closed_def Let_def)
  ultimately show "((now, remove_closed sid c), now, c) \<in> measure (\<lambda>(now, c). length (the_order c) + length (cc_closed c))"
    by simp
qed simp

declare prune_closed_loop.simps [simp del]

definition prune_closed :: "int \<Rightarrow> closed_cache \<Rightarrow> closed_cache" where
  "prune_closed now c = prune_closed_loop now (ensure_closed_tracking c)"

text \<open>
  The loop that makes room: it removes the oldest entry while there are too many. Nothing in its text
  makes it end when the list names an identifier that the map does not have, so it may return nothing.
\<close>

partial_function (option) evict :: "int \<Rightarrow> closed_cache \<Rightarrow> closed_cache option" where
  "evict limit c =
     (if int (length (cc_closed c)) \<ge> limit
      then (case the_order c of [] \<Rightarrow> Some c | sid # _ \<Rightarrow> evict limit (remove_closed sid c))
      else Some c)"

definition closed_limit :: "int \<Rightarrow> int" where
  "closed_limit max_streams = (if max_streams = 0 then tcpServerClosedCacheSafetyLimit else max_streams)"

definition remember_closed :: "int \<Rightarrow> stream_id \<Rightarrow> int \<Rightarrow> closed_cache \<Rightarrow> closed_cache option" where
  "remember_closed max_streams sid now c =
     (let c = ensure_closed_tracking c
      in map_option (\<lambda>c. c\<lparr>cc_closed := AList.update sid (now + tcpServerClosedTTL) (cc_closed c)\<rparr>)
          (if sid \<in> set (the_items c) then Some (c\<lparr>cc_order := Some (remove1 sid (the_order c) @ [sid])\<rparr>)
           else map_option (\<lambda>c. c\<lparr>cc_order := Some (the_order c @ [sid]), cc_items := Some (sid # the_items c)\<rparr>)
             (evict (closed_limit max_streams) c)))"

section \<open>The invariant\<close>

text \<open>
  The list holds exactly the remembered identifiers, each once, in the order of their expiry; \<open>now\<close> is
  a time that no clock reading has passed.
\<close>

definition closed_inv :: "int \<Rightarrow> closed_cache \<Rightarrow> bool" where
  "closed_inv now c \<longleftrightarrow>
     cc_order c \<noteq> None \<and> cc_items c \<noteq> None \<and> distinct (map fst (cc_closed c)) \<and> distinct (the_order c) \<and>
     set (the_order c) = fst ` set (cc_closed c) \<and> distinct (the_items c) \<and> set (the_items c) = set (the_order c) \<and>
     sorted (map (\<lambda>sid. the (map_of (cc_closed c) sid)) (the_order c)) \<and>
     (\<forall>(sid, expires) \<in> set (cc_closed c). expires \<le> now + tcpServerClosedTTL)"

lemma empty_closed_inv: "closed_inv now empty_closed"
  by (simp add: closed_inv_def empty_closed_def the_order_def the_items_def)

lemma closed_inv_later: "closed_inv now c \<Longrightarrow> now \<le> later \<Longrightarrow> closed_inv later c"
  by (fastforce simp: closed_inv_def)

lemma closed_inv_length:
  assumes "closed_inv now c"
  shows "length (the_order c) = length (cc_closed c)" "length (the_items c) = length (cc_closed c)"
proof -
  have card: "length (cc_closed c) = card (fst ` set (cc_closed c))"
    using assms distinct_card [of "map fst (cc_closed c)"] by (simp add: closed_inv_def)
  have "distinct (the_order c)" "distinct (the_items c)" using assms by (simp_all add: closed_inv_def)
  then have "length (the_order c) = card (set (the_order c))" "length (the_items c) = card (set (the_items c))"
    by (simp_all add: distinct_card)
  with card assms show "length (the_order c) = length (cc_closed c)" "length (the_items c) = length (cc_closed c)"
    by (simp_all add: closed_inv_def)
qed

lemma ensure_closed_inv: "closed_inv now c \<Longrightarrow> ensure_closed_tracking c = c"
  using closed_inv_length [of now c] by (simp add: ensure_closed_tracking_def closed_inv_def)

lemma in_order_map: "closed_inv now c \<Longrightarrow> sid \<in> set (the_order c) \<longleftrightarrow> map_of (cc_closed c) sid \<noteq> None"
  by (simp add: closed_inv_def map_of_eq_None_iff)

lemma remove_closed_simps:
  assumes "closed_inv now c"
  shows "cc_closed (remove_closed sid c) = AList.delete sid (cc_closed c)"
    and "the_order (remove_closed sid c) = remove1 sid (the_order c)"
    and "the_items (remove_closed sid c) = remove1 sid (the_items c)"
    and "cc_order (remove_closed sid c) \<noteq> None" and "cc_items (remove_closed sid c) \<noteq> None"
proof -
  have "sid \<notin> set (the_items c) \<Longrightarrow> remove1 sid (the_order c) = the_order c \<and> remove1 sid (the_items c) = the_items c"
    using assms by (simp add: closed_inv_def remove1_idem)
  then show "cc_closed (remove_closed sid c) = AList.delete sid (cc_closed c)"
    "the_order (remove_closed sid c) = remove1 sid (the_order c)" "the_items (remove_closed sid c) = remove1 sid (the_items c)"
    "cc_order (remove_closed sid c) \<noteq> None" "cc_items (remove_closed sid c) \<noteq> None"
    using assms by (simp_all add: remove_closed_def the_order_def the_items_def closed_inv_def Let_def)
qed

lemma expiry_after_delete:
  "sid \<notin> set xs \<Longrightarrow> map (\<lambda>s. the (map_of (AList.delete sid m) s)) xs = map (\<lambda>s. the (map_of m s)) xs"
  by (auto simp: delete_conv')

lemma remove_closed_inv:
  assumes "closed_inv now c"
  shows "closed_inv now (remove_closed sid c)"
proof -
  note r = remove_closed_simps [OF assms] and inv = assms [unfolded closed_inv_def]
  have "sid \<notin> set (remove1 sid (the_order c))" using inv by simp
  moreover have "sorted (map (\<lambda>s. the (map_of (cc_closed c) s)) (remove1 sid (the_order c)))"
    using inv by (intro sorted_map_remove1) simp
  moreover have "fst ` set (AList.delete sid (cc_closed c)) = fst ` set (cc_closed c) - {sid}"
    using arg_cong [OF delete_keys [of sid "cc_closed c"], of set] by simp
  moreover have "set (AList.delete sid (cc_closed c)) \<subseteq> set (cc_closed c)" by (auto simp: AList.delete_eq)
  ultimately show ?thesis using inv
    unfolding closed_inv_def r(1-3) by (simp add: r(4,5) distinct_delete set_remove1_eq expiry_after_delete) blast
qed

text \<open>With the invariant there is always an oldest entry to remove, so the loop ends.\<close>

lemma evict_spec:
  assumes "closed_inv now c" and "0 < limit"
  shows "\<exists>k c'. evict limit c = Some c' \<and> closed_inv now c' \<and> int (length (cc_closed c')) < limit \<and>
    the_order c' = drop k (the_order c) \<and> (0 < k \<longrightarrow> int (length (cc_closed c')) = limit - 1) \<and>
    map_of (cc_closed c') = (map_of (cc_closed c)) |` set (drop k (the_order c))"
  using assms(1)
proof (induction "length (cc_closed c)" arbitrary: c rule: less_induct)
  case less
  have keep: "map_of (cc_closed c) = (map_of (cc_closed c)) |` set (the_order c)"
    using less.prems in_order_map [OF less.prems] by (auto simp: restrict_map_def fun_eq_iff)
  show ?case
  proof (cases "int (length (cc_closed c)) \<ge> limit")
    case False
    with less.prems keep show ?thesis by (intro exI [of _ 0] exI [of _ c]) (simp add: evict.simps [of limit c])
  next
    case True
    with assms(2) have "the_order c \<noteq> []" using closed_inv_length(1) [OF less.prems] by auto
    then obtain sid rest where o': "the_order c = sid # rest" by (cases "the_order c") auto
    note r = remove_closed_simps [OF less.prems, of sid] and inv = remove_closed_inv [OF less.prems, of sid]
    have ord: "the_order (remove_closed sid c) = rest" using r(2) o' by simp
    have len: "length (cc_closed (remove_closed sid c)) = length (cc_closed c) - 1"
      using closed_inv_length(1) [OF inv] closed_inv_length(1) [OF less.prems] ord o' by simp
    have "length (cc_closed (remove_closed sid c)) < length (cc_closed c)"
      using len o' closed_inv_length(1) [OF less.prems] by simp
    from less.hyps [OF this inv] obtain k c' where c': "evict limit (remove_closed sid c) = Some c'" "closed_inv now c'"
      "int (length (cc_closed c')) < limit" "the_order c' = drop k rest" "0 < k \<longrightarrow> int (length (cc_closed c')) = limit - 1"
      "map_of (cc_closed c') = (map_of (cc_closed (remove_closed sid c))) |` set (drop k rest)"
      using ord by auto
    have "k = 0 \<Longrightarrow> int (length (cc_closed c')) = limit - 1"
      using c'(2,3,4) len True closed_inv_length(1) [OF c'(2)] closed_inv_length(1) [OF inv] ord by simp
    moreover have "sid \<notin> set (drop k rest)" using less.prems o' by (auto simp: closed_inv_def dest: in_set_dropD)
    ultimately show ?thesis using c' o' True r(1)
      by (intro exI [of _ "Suc k"] exI [of _ c']) (auto simp: evict.simps [of limit c] delete_conv' restrict_map_def fun_eq_iff)
  qed
qed

lemma update_expiry:
  "sid \<notin> set xs \<Longrightarrow> map (\<lambda>s. the (map_of (AList.update sid t m) s)) xs = map (\<lambda>s. the (map_of m s)) xs"
  by (auto simp: update_conv')

text \<open>Adding an identifier at the end, whatever was before.\<close>

lemma remembered_inv:
  assumes "closed_inv now c" "now \<le> later" and "t = later + tcpServerClosedTTL"
    and "cc_closed c' = AList.update sid t (cc_closed c)" and "the_order c' = remove1 sid (the_order c) @ [sid]"
    and "distinct (the_items c')" "set (the_items c') = insert sid (set (the_items c))"
    and "cc_order c' \<noteq> None" "cc_items c' \<noteq> None"
  shows "closed_inv later c'"
proof -
  note inv = assms(1) [unfolded closed_inv_def]
  have late: "\<forall>(s, e) \<in> set (AList.update sid t (cc_closed c)). e \<le> t"
  proof
    fix x assume "x \<in> set (AList.update sid t (cc_closed c))"
    moreover have "\<forall>(s, e) \<in> set m. e \<le> t \<Longrightarrow> x \<in> set (AList.update sid t m) \<Longrightarrow> case x of (s, e) \<Rightarrow> e \<le> t" for m :: "(stream_id \<times> int) list"
      by (induction m) (auto split: if_splits)
    moreover have "\<forall>(s, e) \<in> set (cc_closed c). e \<le> t" using inv assms(2,3) by fastforce
    ultimately show "case x of (s, e) \<Rightarrow> e \<le> t" by blast
  qed
  have sorted: "sorted (map (\<lambda>s. the (map_of (cc_closed c) s)) (remove1 sid (the_order c)))"
    using inv by (intro sorted_map_remove1) simp
  have le: "the (map_of (cc_closed c) s) \<le> t" if "s \<in> set (remove1 sid (the_order c))" for s
  proof -
    have "s \<in> set (the_order c)" using that notin_set_remove1 by fastforce
    then obtain e where "map_of (cc_closed c) s = Some e" using in_order_map [OF assms(1)] by auto
    moreover then have "e \<le> t" using inv assms(2,3) by (fastforce dest: map_of_SomeD)
    ultimately show ?thesis by simp
  qed
  have fresh: "sid \<notin> set (remove1 sid (the_order c))" using inv by simp
  have exp: "map (\<lambda>s. the (map_of (cc_closed c') s)) (remove1 sid (the_order c)) = map (\<lambda>s. the (map_of (cc_closed c) s)) (remove1 sid (the_order c))"
    unfolding assms(4) by (rule update_expiry [OF fresh])
  have "sorted (map (\<lambda>s. the (map_of (cc_closed c') s)) (the_order c'))"
    using sorted le unfolding assms(5) map_append exp by (auto simp: sorted_append assms(4) update_conv')
  moreover have "fst ` set (cc_closed c') = insert sid (fst ` set (cc_closed c))" using dom_update [of sid t] by (simp add: assms(4))
  moreover have "set (the_order c') = insert sid (set (the_order c))" using inv by (auto simp: assms(5) set_remove1_eq)
  ultimately show ?thesis using inv late assms(3,6-9)
    unfolding closed_inv_def by (auto simp: assms(4,5) distinct_update set_remove1_eq)
qed

lemma remember_closed_spec:
  assumes "closed_inv now c" "now \<le> later" "0 \<le> max_streams" and "int (length (cc_closed c)) \<le> closed_limit max_streams"
  shows "\<exists>k c'. remember_closed max_streams sid later c = Some c' \<and> closed_inv later c' \<and>
    int (length (cc_closed c')) \<le> closed_limit max_streams \<and> the_order c' = remove1 sid (drop k (the_order c)) @ [sid] \<and>
    map_of (cc_closed c') = ((map_of (cc_closed c)) |` set (drop k (the_order c)))(sid \<mapsto> later + tcpServerClosedTTL) \<and>
    (0 < k \<longrightarrow> sid \<notin> set (the_order c) \<and> int (length (cc_closed c')) = closed_limit max_streams)"
proof -
  let ?L = "closed_limit max_streams" and ?t = "later + tcpServerClosedTTL"
  note inv = assms(1) [unfolded closed_inv_def]
  have pos: "0 < ?L" using assms(3) by (simp add: closed_limit_def tcpServerClosedCacheSafetyLimit_def)
  have keep: "map_of (cc_closed c) = (map_of (cc_closed c)) |` set (the_order c)"
    using in_order_map [OF assms(1)] by (auto simp: restrict_map_def fun_eq_iff)
  show ?thesis
  proof (cases "sid \<in> set (the_items c)")
    case True
    let ?c' = "c\<lparr>cc_order := Some (remove1 sid (the_order c) @ [sid]), cc_closed := AList.update sid ?t (cc_closed c)\<rparr>"
    have res: "remember_closed max_streams sid later c = Some ?c'"
      using True by (simp add: remember_closed_def ensure_closed_inv [OF assms(1)] Let_def)
    have ord: "the_order ?c' = remove1 sid (the_order c) @ [sid]" "the_items ?c' = the_items c" by (simp_all add: the_order_def the_items_def)
    have "closed_inv later ?c'"
      by (rule remembered_inv [OF assms(1,2) refl, of ?c' sid]) (use inv True ord in \<open>auto simp: insert_absorb\<close>)
    moreover have "length (cc_closed ?c') = length (cc_closed c)"
      using closed_inv_length(2) [OF assms(1)] closed_inv_length(2) [OF calculation] ord by simp
    ultimately show ?thesis using res ord keep assms(4)
      by (intro exI [of _ 0] exI [of _ ?c']) (simp add: update_conv')
  next
    case False
    obtain k c1 where c1: "evict ?L c = Some c1" "closed_inv now c1" "int (length (cc_closed c1)) < ?L"
      "the_order c1 = drop k (the_order c)" "0 < k \<longrightarrow> int (length (cc_closed c1)) = ?L - 1"
      "map_of (cc_closed c1) = (map_of (cc_closed c)) |` set (drop k (the_order c))"
      using evict_spec [OF assms(1) pos] by blast
    let ?c' = "c1\<lparr>cc_order := Some (the_order c1 @ [sid]), cc_items := Some (sid # the_items c1), cc_closed := AList.update sid ?t (cc_closed c1)\<rparr>"
    have res: "remember_closed max_streams sid later c = Some ?c'"
      using False c1(1) by (simp add: remember_closed_def ensure_closed_inv [OF assms(1)] Let_def)
    have out: "sid \<notin> set (the_order c)" "sid \<notin> set (the_order c1)" "sid \<notin> set (the_items c1)"
      using False inv c1(2,4) by (auto simp: closed_inv_def dest: in_set_dropD)
    have ord: "the_order ?c' = the_order c1 @ [sid]" "the_items ?c' = sid # the_items c1" by (simp_all add: the_order_def the_items_def)
    have "closed_inv later ?c'"
      by (rule remembered_inv [OF c1(2) assms(2) refl, of ?c' sid]) (use c1(2) out ord in \<open>auto simp: remove1_idem closed_inv_def\<close>)
    moreover have "length (cc_closed ?c') = Suc (length (cc_closed c1))"
      using closed_inv_length(2) [OF c1(2)] closed_inv_length(2) [OF calculation] ord by simp
    moreover have "remove1 sid (drop k (the_order c)) = drop k (the_order c)" using out c1(4) by (simp add: remove1_idem)
    ultimately show ?thesis using res ord c1(3-6) out
      by (intro exI [of _ k] exI [of _ ?c']) (auto simp: update_conv')
  qed
qed

lemma prune_closed_loop_spec:
  assumes "closed_inv now0 c"
  shows "closed_inv now0 (prune_closed_loop now c) \<and>
    map_of (cc_closed (prune_closed_loop now c)) = (\<lambda>sid. case map_of (cc_closed c) sid of None \<Rightarrow> None
       | Some e \<Rightarrow> if e > now then Some e else None) \<and>
    the_order (prune_closed_loop now c) = filter (\<lambda>sid. the (map_of (cc_closed c) sid) > now) (the_order c)"
  using assms
proof (induction now c rule: prune_closed_loop.induct)
  case (1 now c)
  note inv = "1.prems" [unfolded closed_inv_def]
  have dom: "map_of (cc_closed c) s \<noteq> None \<longleftrightarrow> s \<in> set (the_order c)" for s using in_order_map [OF "1.prems"] by blast
  show ?case
  proof (cases "the_order c")
    case Nil
    with dom have "map_of (cc_closed c) = (\<lambda>_. None)" by (auto simp: fun_eq_iff)
    with Nil "1.prems" show ?thesis by (simp add: prune_closed_loop.simps [of now c])
  next
    case (Cons sid rest)
    then obtain e where e: "map_of (cc_closed c) sid = Some e" using dom [of sid] by auto
    have later: "e \<le> the (map_of (cc_closed c) s)" if "s \<in> set rest" for s using inv Cons e that by auto
    show ?thesis
    proof (cases "e > now")
      case True
      have "the (map_of (cc_closed c) s) > now" if "s \<in> set (the_order c)" for s using that later [of s] True e Cons by force
      then have "filter (\<lambda>sid. the (map_of (cc_closed c) sid) > now) (the_order c) = the_order c"
        "(\<lambda>sid. case map_of (cc_closed c) sid of None \<Rightarrow> None | Some e \<Rightarrow> if e > now then Some e else None) = map_of (cc_closed c)"
        using dom by (auto simp: filter_id_conv fun_eq_iff split: option.splits) (metis option.sel option.simps(3))
      with True Cons e "1.prems" show ?thesis by (simp add: prune_closed_loop.simps [of now c])
    next
      case False
      note r = remove_closed_simps [OF "1.prems", of sid]
      have fresh: "sid \<notin> set rest" and ord: "the_order (remove_closed sid c) = rest" using inv Cons r(2) by simp_all
      have "filter (\<lambda>s. the (map_of (AList.delete sid (cc_closed c)) s) > now) rest = filter (\<lambda>s. the (map_of (cc_closed c) s) > now) rest"
        using fresh by (intro filter_cong) (auto simp: delete_conv')
      with "1.IH"(2) [OF Cons e False remove_closed_inv [OF "1.prems"]] r(1) ord Cons e False show ?thesis
        by (auto simp: prune_closed_loop.simps [of now c] delete_conv' fun_eq_iff)
    qed
  qed
qed
section \<open>Sequences of operations\<close>

text \<open>
  What happens to the memory: a stream ends (\<open>Remember\<close>), the maintenance ticks (\<open>Prune\<close>), and an OPEN
  for an identifier arrives, which drops an entry that has expired (\<open>Look\<close>).
\<close>

datatype closed_op = Remember stream_id int | Prune int | Look stream_id int

fun event_time :: "closed_op \<Rightarrow> int" where
  "event_time (Remember _ t) = t" | "event_time (Prune t) = t" | "event_time (Look _ t) = t"

text \<open>The check of \<open>getOrCreate\<close>: whether the identifier is refused, and the memory after it.\<close>

definition refuse_closed :: "stream_id \<Rightarrow> int \<Rightarrow> closed_cache \<Rightarrow> bool \<times> closed_cache" where
  "refuse_closed sid now c =
     (case map_of (cc_closed c) sid of
        None \<Rightarrow> (False, c)
      | Some expires \<Rightarrow> if expires > now then (True, c) else (False, remove_closed sid c))"

fun closed_event :: "int \<Rightarrow> closed_op \<Rightarrow> closed_cache \<Rightarrow> closed_cache option" where
  "closed_event max_streams (Remember sid now) c = remember_closed max_streams sid now c"
| "closed_event max_streams (Prune now) c = Some (prune_closed now c)"
| "closed_event max_streams (Look sid now) c = Some (snd (refuse_closed sid now c))"

fun closed_run :: "int \<Rightarrow> closed_op list \<Rightarrow> closed_cache \<Rightarrow> closed_cache option" where
  "closed_run max_streams [] c = Some c"
| "closed_run max_streams (e # es) c = Option.bind (closed_event max_streams e c) (closed_run max_streams es)"

definition bounded_inv :: "int \<Rightarrow> int \<Rightarrow> closed_cache \<Rightarrow> bool" where
  "bounded_inv max_streams now c \<longleftrightarrow> closed_inv now c \<and> int (length (cc_closed c)) \<le> closed_limit max_streams"

lemma prune_closed_spec:
  assumes "closed_inv now0 c"
  shows "closed_inv now0 (prune_closed now c)" and "the_order (prune_closed now c) = filter (\<lambda>sid. the (map_of (cc_closed c) sid) > now) (the_order c)"
    and "map_of (cc_closed (prune_closed now c)) = (\<lambda>sid. case map_of (cc_closed c) sid of None \<Rightarrow> None | Some e \<Rightarrow> if e > now then Some e else None)"
  using prune_closed_loop_spec [OF assms, of now] by (simp_all add: prune_closed_def ensure_closed_inv [OF assms])

lemma closed_event_inv:
  assumes "bounded_inv max_streams now c" "now \<le> event_time e" "0 \<le> max_streams"
  shows "\<exists>c'. closed_event max_streams e c = Some c' \<and> bounded_inv max_streams (event_time e) c'"
proof (cases e)
  case (Remember sid t)
  with assms remember_closed_spec [of now c t max_streams sid] show ?thesis by (auto simp: bounded_inv_def)
next
  case (Prune t)
  note inv = assms(1) [unfolded bounded_inv_def, THEN conjunct1]
  note p = prune_closed_spec [OF inv, of t]
  have "length (cc_closed (prune_closed t c)) \<le> length (cc_closed c)"
    using closed_inv_length(1) [OF inv] closed_inv_length(1) [OF p(1)] p(2) by (metis length_filter_le)
  with assms Prune p(1) show ?thesis by (auto simp: bounded_inv_def dest: closed_inv_later)
next
  case (Look sid t)
  have "length (cc_closed (remove_closed sid c)) \<le> length (cc_closed c)"
    using assms(1) remove_closed_simps(1) [of now c sid] length_delete_le [of sid "cc_closed c"] by (simp add: bounded_inv_def)
  with assms Look show ?thesis
    by (auto simp: bounded_inv_def refuse_closed_def remove_closed_inv dest: closed_inv_later intro: closed_inv_later [OF remove_closed_inv] split: option.splits)
qed

lemma closed_run_inv:
  assumes "bounded_inv max_streams now c" "sorted (now # map event_time es)" "0 \<le> max_streams"
  shows "\<exists>c'. closed_run max_streams es c = Some c' \<and> bounded_inv max_streams (last (now # map event_time es)) c'"
  using assms
proof (induction es arbitrary: now c)
  case (Cons e es)
  then obtain c1 where "closed_event max_streams e c = Some c1" "bounded_inv max_streams (event_time e) c1"
    using closed_event_inv [of max_streams now c e] by auto
  with Cons.IH [of "event_time e" c1] Cons.prems show ?case by auto
qed simp

lemma closed_run_append:
  "closed_run max_streams (es @ fs) c = Option.bind (closed_run max_streams es c) (closed_run max_streams fs)"
proof (induction es arbitrary: c)
  case (Cons e es)
  then show ?case by (cases "closed_event max_streams e c") simp_all
qed simp

lemma empty_bounded: "bounded_inv max_streams now empty_closed" if "0 \<le> max_streams"
  using that empty_closed_inv by (simp add: bounded_inv_def empty_closed_def closed_limit_def tcpServerClosedCacheSafetyLimit_def)

text \<open>An identifier that is remembered, and what was remembered after it.\<close>

definition still_known :: "stream_id \<Rightarrow> int \<Rightarrow> stream_id set \<Rightarrow> closed_cache \<Rightarrow> bool" where
  "still_known sid expiry later c \<longleftrightarrow>
     (\<exists>before after. the_order c = before @ sid # after \<and> set after \<subseteq> later) \<and> (\<exists>e. map_of (cc_closed c) sid = Some e \<and> expiry \<le> e)"

fun remembered_ids :: "closed_op \<Rightarrow> stream_id set" where
  "remembered_ids (Remember sid _) = {sid}" | "remembered_ids _ = {}"

lemma remove1_around:
  "x \<noteq> sid \<Longrightarrow> \<exists>before' after'. remove1 x (before @ sid # after) = before' @ sid # after' \<and> set after' \<subseteq> set after"
proof (cases "x \<in> set before")
  case True
  then show ?thesis by (intro exI [of _ "remove1 x before"] exI [of _ after]) (simp add: remove1_append)
next
  case False
  assume "x \<noteq> sid"
  with False show ?thesis
    by (intro exI [of _ before] exI [of _ "remove1 x after"]) (simp add: remove1_append set_remove1_subset)
qed

lemma still_known_event:
  assumes inv: "bounded_inv max_streams now c" "now \<le> event_time e" "0 \<le> max_streams"
    and known: "still_known sid expiry later c" and c': "closed_event max_streams e c = Some c'"
    and time: "event_time e < expiry" "expiry \<le> event_time e + tcpServerClosedTTL"
    and room: "finite later" "int (card ((later \<union> remembered_ids e) - {sid})) < closed_limit max_streams"
  shows "still_known sid expiry (later \<union> remembered_ids e) c'"
proof -
  note cinv = inv(1) [unfolded bounded_inv_def, THEN conjunct1]
  obtain before after e0 where o': "the_order c = before @ sid # after" "set after \<subseteq> later"
    and e0: "map_of (cc_closed c) sid = Some e0" "expiry \<le> e0" using known by (auto simp: still_known_def)
  have sid_notin: "sid \<notin> set before" "sid \<notin> set after" using cinv o'(1) by (auto simp: closed_inv_def)
  show ?thesis
  proof (cases e)
    case (Prune t)
    let ?live = "\<lambda>s. the (map_of (cc_closed c) s) > t"
    have "the_order c' = filter ?live before @ sid # filter ?live after" "map_of (cc_closed c') sid = Some e0"
      using Prune c' o'(1) e0 time prune_closed_spec(2,3) [OF cinv, of t] by auto
    with Prune o'(2) e0(2) show ?thesis unfolding still_known_def by (metis Un_empty_right filter_is_subset order_trans remembered_ids.simps(2))
  next
    case (Look y t)
    show ?thesis
    proof (cases "snd (refuse_closed y t c) = c")
      case True
      with Look c' known show ?thesis by simp
    next
      case False
      with Look time e0 have y: "y \<noteq> sid" "snd (refuse_closed y t c) = remove_closed y c"
        by (auto simp: refuse_closed_def split: option.splits if_splits)
      obtain b' a' where "remove1 y (the_order c) = b' @ sid # a'" "set a' \<subseteq> set after"
        using remove1_around [OF y(1)] o'(1) by metis
      moreover have "set a' \<subseteq> later" using calculation(2) o'(2) by blast
      moreover have "c' = remove_closed y c" using Look c' y(2) by simp
      then have "the_order c' = remove1 y (the_order c)" "map_of (cc_closed c') sid = Some e0"
        using remove_closed_simps(1,2) [OF cinv, of y] y(1) e0(1) by simp_all
      ultimately show ?thesis using Look e0(2) unfolding still_known_def by auto
    qed
  next
    case (Remember x t)
    obtain k where k: "closed_inv t c'" "the_order c' = remove1 x (drop k (the_order c)) @ [x]"
      "map_of (cc_closed c') = ((map_of (cc_closed c)) |` set (drop k (the_order c)))(x \<mapsto> t + tcpServerClosedTTL)"
      "0 < k \<longrightarrow> x \<notin> set (the_order c) \<and> int (length (cc_closed c')) = closed_limit max_streams"
      using remember_closed_spec [OF cinv _ inv(3), of t x] inv c' Remember by (auto simp: bounded_inv_def)
    show ?thesis
    proof (cases "x = sid")
      case True
      with o'(1) k(4) have "k = 0" by auto
      with True k(2,3) Remember time show ?thesis unfolding still_known_def
        by (intro conjI exI [of _ "remove1 sid (the_order c)"] exI [of _ "[]"] exI [of _ "t + tcpServerClosedTTL"]) simp_all
    next
      case False
      have "k \<le> length before"
      proof (rule ccontr)
        assume "\<not> k \<le> length before"
        then have "0 < k" "set (drop k (the_order c)) \<subseteq> set after"
          using o'(1) set_drop_subset [of "k - Suc (length before)" after] by (auto simp: drop_append drop_Cons')
        then have "set (the_order c') \<subseteq> (later \<union> remembered_ids e) - {sid}"
          using k(2) o'(2) sid_notin(2) False Remember set_remove1_subset by fastforce
        then have "card (set (the_order c')) \<le> card ((later \<union> remembered_ids e) - {sid})"
          using room(1) Remember by (intro card_mono) auto
        moreover have "card (set (the_order c')) = length (cc_closed c')"
          using closed_inv_length(1) [OF k(1)] distinct_card [of "the_order c'"] k(1) unfolding closed_inv_def by metis
        ultimately show False using k(4) \<open>0 < k\<close> room(2) by simp
      qed
      then have d: "drop k (the_order c) = drop k before @ sid # after" using o'(1) by simp
      obtain b' a' where "remove1 x (drop k before @ sid # after) = b' @ sid # a'" "set a' \<subseteq> set after"
        using remove1_around [OF False] by metis
      moreover from this have "set (a' @ [x]) \<subseteq> later \<union> {x}" using o'(2) by auto
      ultimately show ?thesis using k(2,3) d e0 False Remember unfolding still_known_def
        by (intro conjI exI [of _ b'] exI [of _ "a' @ [x]"] exI [of _ e0]) (simp_all add: restrict_map_def)
    qed
  qed
qed

lemma still_known_run:
  assumes "bounded_inv max_streams now c" "sorted (now # map event_time es)" "0 \<le> max_streams"
    and "still_known sid expiry later c" "finite later" "expiry \<le> now + tcpServerClosedTTL"
    and "\<forall>e \<in> set es. event_time e < expiry"
    and "int (card ((later \<union> \<Union> (remembered_ids ` set es)) - {sid})) < closed_limit max_streams"
    and "closed_run max_streams es c = Some c'"
  shows "still_known sid expiry (later \<union> \<Union> (remembered_ids ` set es)) c'"
  using assms
proof (induction es arbitrary: now c later)
  case (Cons e es)
  obtain c1 where c1: "closed_event max_streams e c = Some c1" "bounded_inv max_streams (event_time e) c1"
    using closed_event_inv [of max_streams now c e] Cons.prems by auto
  have fin: "finite (remembered_ids x)" for x by (cases x) auto
  have "card ((later \<union> remembered_ids e) - {sid}) \<le> card ((later \<union> \<Union> (remembered_ids ` set (e # es))) - {sid})"
    using Cons.prems(5) fin by (intro card_mono) auto
  with Cons.prems c1 have "still_known sid expiry (later \<union> remembered_ids e) c1"
    by (intro still_known_event [of max_streams now c e]) auto
  with Cons.IH [of "event_time e" c1 "later \<union> remembered_ids e"] Cons.prems c1 fin show ?case
    by (simp add: Un_assoc)
qed simp

section \<open>Properties\<close>

text \<open>
  The memory of closed streams always answers and stays small: whatever streams end and whatever
  is looked up or pruned, at times that do not go back, every operation returns (the loop that makes
  room ends), the list, the element map and the expiries stay consistent, and the number of entries
  never exceeds the configured number of streams, or 65536 when that is unlimited.
\<close>

theorem closed_memory_bounded:
  assumes "0 \<le> max_streams" "sorted (now # map event_time es)"
  shows "\<exists>c. closed_run max_streams es empty_closed = Some c \<and> closed_inv (last (now # map event_time es)) c \<and>
    int (length (cc_closed c)) \<le> (if max_streams = 0 then 65536 else max_streams)"
  using closed_run_inv [OF empty_bounded assms(2,1)] assms(1)
  by (auto simp: bounded_inv_def closed_limit_def tcpServerClosedCacheSafetyLimit_def)

lemma closed_memory_bounded_witness:
  "\<exists>c. closed_run 1 [Remember [1] 5, Remember [2] 6, Prune 7] empty_closed = Some c \<and> int (length (cc_closed c)) \<le> 1"
  using closed_memory_bounded [of 1 0 "[Remember [1] 5, Remember [2] 6, Prune 7]"] by auto

text \<open>
  A closed stream stays closed: after a stream ended at time \<open>t\<close>, an OPEN with its identifier is
  refused at every time before \<open>t\<close> plus one minute, whatever happened since, as long as fewer other
  streams ended in between than the memory has room for.
\<close>

theorem closed_stream_refused:
  assumes "0 \<le> max_streams" "sorted (now # map event_time (es @ Remember sid t # fs) @ [later])"
    and "later < t + tcpServerClosedTTL"
    and "int (card (\<Union> (remembered_ids ` set fs) - {sid})) < closed_limit max_streams"
  shows "\<exists>c. closed_run max_streams (es @ Remember sid t # fs) empty_closed = Some c \<and> fst (refuse_closed sid later c)"
proof -
  have s: "sorted (now # map event_time es)" "last (now # map event_time es) \<le> t" "sorted (t # map event_time fs)"
    "\<forall>e \<in> set fs. event_time e \<le> later"
    using assms(2) last_in_set [of "now # map event_time es"] by (auto simp: sorted_append simp del: last.simps)
  obtain c1 where c1: "closed_run max_streams es empty_closed = Some c1" "bounded_inv max_streams (last (now # map event_time es)) c1"
    using closed_run_inv [OF empty_bounded s(1) assms(1)] assms(1) by blast
  obtain c2 where c2: "closed_event max_streams (Remember sid t) c1 = Some c2" "bounded_inv max_streams t c2"
    using closed_event_inv [OF c1(2), of "Remember sid t"] s(2) assms(1) by auto
  have known: "still_known sid (t + tcpServerClosedTTL) {} c2"
    using remember_closed_spec [of "last (now # map event_time es)" c1 t max_streams sid] c1(2) c2(1) s(2) assms(1)
    by (auto simp: bounded_inv_def still_known_def)
  obtain c3 where c3: "closed_run max_streams fs c2 = Some c3" using closed_run_inv [OF c2(2) s(3) assms(1)] by blast
  have "still_known sid (t + tcpServerClosedTTL) ({} \<union> \<Union> (remembered_ids ` set fs)) c3"
    using s(4) assms(3,4) by (intro still_known_run [OF c2(2) s(3) assms(1) known _ _ _ _ c3]) auto
  with c1 c2 c3 assms(3) show ?thesis
    by (auto simp: closed_run_append still_known_def refuse_closed_def)
qed

lemma closed_stream_refused_witness:
  "\<exists>c. closed_run 2 [Remember [1] 5, Prune 60000000004, Remember [2] 60000000004] empty_closed = Some c \<and>
     fst (refuse_closed [1] 60000000004 c)"
  using closed_stream_refused [of 2 0 "[]" "[1]" 5 "[Prune 60000000004, Remember [2] 60000000004]" 60000000004]
  by (auto simp: tcpServerClosedTTL_def closed_limit_def)

end
