(* ===== verification/Traffic_Cache.thy ===== *)
theory Traffic_Cache
  imports Prelude "HOL-Library.AList"
begin

text \<open>
  The server's traffic counters per client address (\<^verbatim>\<open>internal/serverrole/tcp.go\<close>): counters of
  addresses with an open connection must stay, those of others are kept for a while in a list ordered
  by their last use and are dropped when there are too many or they are too old. A pointer to a
  \<^verbatim>\<open>tcpServerTraffic\<close> is a number, its fields are in \<open>tr_store\<close>; the counters themselves are in \<open>Stats\<close>.
  \<open>tr_conns\<close> is the map \<^verbatim>\<open>connections\<close> with the field \<^verbatim>\<open>traffic\<close> of each connection. Times are
  nanoseconds.
\<close>

record traffic_entry =
  te_used :: int
  te_active :: int
  te_address :: string
  te_listed :: bool

record traffic_cache =
  tr_store :: "nat \<Rightarrow> traffic_entry"
  tr_next :: nat
  tr_map :: "(string \<times> nat) list"
  tr_list :: "nat list option"
  tr_conns :: "(nat \<times> nat option) list"

definition tcpServerTrafficTTL :: int where "tcpServerTrafficTTL = 5 * 60 * 1000000000"
definition tcpServerTrafficCacheSafetyLimit :: int where "tcpServerTrafficCacheSafetyLimit = 64 * 1024"

definition empty_traffic :: traffic_cache where
  "empty_traffic = \<lparr>tr_store = (\<lambda>_. \<lparr>te_used = 0, te_active = 0, te_address = '''', te_listed = False\<rparr>), tr_next = 0,
     tr_map = [], tr_list = Some [], tr_conns = []\<rparr>"

section \<open>Operations\<close>

definition the_list :: "traffic_cache \<Rightarrow> nat list" where
  "the_list c = (case tr_list c of None \<Rightarrow> [] | Some l \<Rightarrow> l)"

definition on_entry :: "nat \<Rightarrow> (traffic_entry \<Rightarrow> traffic_entry) \<Rightarrow> traffic_cache \<Rightarrow> traffic_cache" where
  "on_entry t f c = c\<lparr>tr_store := (tr_store c)(t := f (tr_store c t))\<rparr>"

definition move_to_back :: "nat \<Rightarrow> nat list \<Rightarrow> nat list" where
  "move_to_back t l = remove1 t l @ [t]"

text \<open>The products of configured limits are computed in 64-bit integers, with the overflow avoided.\<close>

definition max_int :: int where "max_int = 2 ^ 63 - 1"

definition traffic_limit :: "int \<Rightarrow> int \<Rightarrow> int \<Rightarrow> int" where
  "traffic_limit streams carriers pending =
     (if streams = 0 \<or> carriers = 0 \<or> pending = 0 then tcpServerTrafficCacheSafetyLimit
      else if streams > (max_int - pending) div carriers then max_int
      else streams * carriers + pending)"

definition ensure_traffic_tracking :: "traffic_cache \<Rightarrow> traffic_cache" where
  "ensure_traffic_tracking c =
     (if tr_list c \<noteq> None then c
      else
        let fresh = (\<lambda>t e. case filter (\<lambda>(a, t'). t' = t) (tr_map c) of
                        [] \<Rightarrow> e
                      | (a, _) # _ \<Rightarrow> e\<lparr>te_address := (if te_address e = '''' then a else te_address e), te_listed := False\<rparr>);
            store = (\<lambda>t. fresh t (tr_store c t));
            inactive = sort_key (\<lambda>t. te_used (store t)) (filter (\<lambda>t. te_active (store t) = 0) (map snd (tr_map c)))
        in c\<lparr>tr_store := (\<lambda>t. if t \<in> set inactive then (store t)\<lparr>te_listed := True\<rparr> else store t), tr_list := Some inactive\<rparr>)"

definition mark_inactive :: "nat \<Rightarrow> traffic_cache \<Rightarrow> traffic_cache" where
  "mark_inactive t c =
     (if map_of (tr_map c) (te_address (tr_store c t)) \<noteq> Some t then c
      else let c = ensure_traffic_tracking c
           in if \<not> te_listed (tr_store c t)
              then on_entry t (\<lambda>e. e\<lparr>te_listed := True\<rparr>) (c\<lparr>tr_list := Some (the_list c @ [t])\<rparr>)
              else c\<lparr>tr_list := Some (move_to_back t (the_list c))\<rparr>)"

definition remove_inactive :: "nat \<Rightarrow> traffic_cache \<Rightarrow> traffic_cache" where
  "remove_inactive t c =
     (if te_listed (tr_store c t)
      then on_entry t (\<lambda>e. e\<lparr>te_listed := False\<rparr>) (c\<lparr>tr_list := Some (remove1 t (the_list c))\<rparr>) else c)"

definition remove_traffic :: "nat \<Rightarrow> traffic_cache \<Rightarrow> traffic_cache" where
  "remove_traffic t c =
     (if map_of (tr_map c) (te_address (tr_store c t)) \<noteq> Some t then c
      else remove_inactive t (c\<lparr>tr_map := AList.delete (te_address (tr_store c t)) (tr_map c)\<rparr>))"

text \<open>The loop of \<open>trimTrafficLocked\<close>; nothing in its text makes it end when the map does not shrink.\<close>

partial_function (option) trim_loop :: "int \<Rightarrow> traffic_cache \<Rightarrow> traffic_cache option" where
  "trim_loop limit c =
     (if int (length (tr_map c)) > limit
      then (case the_list c of [] \<Rightarrow> Some c | t # _ \<Rightarrow> trim_loop limit (remove_traffic t c))
      else Some c)"

definition trim_traffic :: "int \<Rightarrow> traffic_cache \<Rightarrow> traffic_cache option" where
  "trim_traffic limit c = trim_loop limit (ensure_traffic_tracking c)"

fun prune_traffic_loop :: "nat \<Rightarrow> int \<Rightarrow> traffic_cache \<Rightarrow> traffic_cache" where
  "prune_traffic_loop 0 now c = c"
| "prune_traffic_loop (Suc remaining) now c =
     (case the_list c of
        [] \<Rightarrow> c
      | t # _ \<Rightarrow>
          if map_of (tr_map c) (te_address (tr_store c t)) \<noteq> Some t then prune_traffic_loop remaining now (remove_inactive t c)
          else if te_active (tr_store c t) \<noteq> 0
          then prune_traffic_loop remaining now (c\<lparr>tr_list := Some (move_to_back t (the_list c))\<rparr>)
          else if te_used (tr_store c t) + tcpServerTrafficTTL > now then c
          else prune_traffic_loop remaining now (remove_traffic t c))"

definition prune_traffic :: "int \<Rightarrow> traffic_cache \<Rightarrow> traffic_cache" where
  "prune_traffic now c =
     (let c = ensure_traffic_tracking c in prune_traffic_loop (length (the_list c)) now c)"

definition touch :: "nat \<Rightarrow> int \<Rightarrow> traffic_cache \<Rightarrow> traffic_cache" where
  "touch t now = on_entry t (\<lambda>e. e\<lparr>te_used := now\<rparr>)"

definition traffic_for_address_locked :: "string \<Rightarrow> int \<Rightarrow> traffic_cache \<Rightarrow> nat \<times> traffic_cache" where
  "traffic_for_address_locked address now c =
     (let c = ensure_traffic_tracking c in
      case map_of (tr_map c) address of
        None \<Rightarrow>
          let t = tr_next c
          in (t, touch t now (c\<lparr>tr_next := t + 1, tr_map := AList.update address t (tr_map c), tr_list := Some (the_list c @ [t]),
                tr_store := (tr_store c)(t := \<lparr>te_used = 0, te_active = 0, te_address = address, te_listed = True\<rparr>)\<rparr>))
      | Some t \<Rightarrow>
          if te_active (tr_store c t) = 0 \<and> te_listed (tr_store c t)
          then (t, touch t now (c\<lparr>tr_list := Some (move_to_back t (the_list c))\<rparr>))
          else (t, touch t now c))"

definition traffic_for_address :: "int \<Rightarrow> string \<Rightarrow> int \<Rightarrow> traffic_cache \<Rightarrow> (nat \<times> traffic_cache) option" where
  "traffic_for_address limit address now c =
     (case traffic_for_address_locked address now c of (t, c) \<Rightarrow> map_option (Pair t) (trim_traffic limit c))"

text \<open>\<open>conn\<close> is \<open>None\<close> for a connection that the runtime does not track.\<close>

definition traffic_for_connection :: "int \<Rightarrow> nat option \<Rightarrow> string \<Rightarrow> int \<Rightarrow> traffic_cache \<Rightarrow> (nat \<times> traffic_cache) option" where
  "traffic_for_connection limit conn address now c =
     (case traffic_for_address_locked address now c of
        (t, c) \<Rightarrow>
          let c = (case conn of
                None \<Rightarrow> c
              | Some k \<Rightarrow>
                  if map_of (tr_conns c) k = Some None then
                    let c = c\<lparr>tr_conns := AList.update k (Some t) (tr_conns c)\<rparr>;
                        c = (if te_active (tr_store c t) = 0 then remove_inactive t c else c)
                    in on_entry t (\<lambda>e. e\<lparr>te_active := te_active e + 1\<rparr>) c
                  else c)
          in map_option (Pair t) (trim_traffic limit c))"

definition connection_closed :: "int \<Rightarrow> nat \<Rightarrow> int \<Rightarrow> traffic_cache \<Rightarrow> traffic_cache option" where
  "connection_closed limit k now c =
     (let slot = (case map_of (tr_conns c) k of None \<Rightarrow> None | Some s \<Rightarrow> s);
          c = c\<lparr>tr_conns := AList.delete k (tr_conns c)\<rparr>
      in case slot of
           None \<Rightarrow> Some c
         | Some t \<Rightarrow>
             let c = (if te_active (tr_store c t) > 0 then on_entry t (\<lambda>e. e\<lparr>te_active := te_active e - 1\<rparr>) c else c);
                 c = touch t now c
             in if te_active (tr_store c t) = 0 then trim_traffic limit (mark_inactive t c) else Some c)"

section \<open>The invariant\<close>

text \<open>
  The list holds exactly the entries without a connection, each once; an entry counts the
  connections that point to it, and none of these points outside the map.
\<close>

definition pointing :: "nat \<Rightarrow> traffic_cache \<Rightarrow> int" where
  "pointing t c = int (length (filter (\<lambda>(k, s). s = Some t) (tr_conns c)))"

definition traffic_inv :: "traffic_cache \<Rightarrow> bool" where
  "traffic_inv c \<longleftrightarrow> tr_list c \<noteq> None \<and> distinct (the_list c) \<and> distinct (map fst (tr_map c)) \<and> distinct (map fst (tr_conns c)) \<and>
     (\<forall>a t. map_of (tr_map c) a = Some t \<longrightarrow> te_address (tr_store c t) = a \<and> t < tr_next c) \<and>
     (\<forall>t. t \<in> set (the_list c) \<longleftrightarrow> map_of (tr_map c) (te_address (tr_store c t)) = Some t \<and> pointing t c = 0) \<and>
     (\<forall>t. te_listed (tr_store c t) \<longleftrightarrow> t \<in> set (the_list c)) \<and>
     (\<forall>t. map_of (tr_map c) (te_address (tr_store c t)) = Some t \<longrightarrow> te_active (tr_store c t) = pointing t c) \<and>
     (\<forall>t. pointing t c \<noteq> 0 \<longrightarrow> map_of (tr_map c) (te_address (tr_store c t)) = Some t)"

lemma traffic_invD:
  assumes "traffic_inv c"
  shows "tr_list c \<noteq> None" "distinct (the_list c)" "distinct (map fst (tr_map c))" "distinct (map fst (tr_conns c))"
    "map_of (tr_map c) a = Some t \<Longrightarrow> te_address (tr_store c t) = a \<and> t < tr_next c"
    "t \<in> set (the_list c) \<longleftrightarrow> map_of (tr_map c) (te_address (tr_store c t)) = Some t \<and> pointing t c = 0"
    "te_listed (tr_store c t) \<longleftrightarrow> t \<in> set (the_list c)"
    "map_of (tr_map c) (te_address (tr_store c t)) = Some t \<Longrightarrow> te_active (tr_store c t) = pointing t c"
    "pointing t c \<noteq> 0 \<Longrightarrow> map_of (tr_map c) (te_address (tr_store c t)) = Some t"
  using assms unfolding traffic_inv_def by blast+

lemma traffic_invI:
  assumes "tr_list c \<noteq> None" "distinct (the_list c)" "distinct (map fst (tr_map c))" "distinct (map fst (tr_conns c))"
    "\<And>a t. map_of (tr_map c) a = Some t \<Longrightarrow> te_address (tr_store c t) = a \<and> t < tr_next c"
    "\<And>t. t \<in> set (the_list c) \<longleftrightarrow> map_of (tr_map c) (te_address (tr_store c t)) = Some t \<and> pointing t c = 0"
    "\<And>t. te_listed (tr_store c t) \<longleftrightarrow> t \<in> set (the_list c)"
    "\<And>t. map_of (tr_map c) (te_address (tr_store c t)) = Some t \<Longrightarrow> te_active (tr_store c t) = pointing t c"
    "\<And>t. pointing t c \<noteq> 0 \<Longrightarrow> map_of (tr_map c) (te_address (tr_store c t)) = Some t"
  shows "traffic_inv c"
  using assms unfolding traffic_inv_def by blast

lemma traffic_ensured [simp]: "traffic_inv c \<Longrightarrow> ensure_traffic_tracking c = c"
  by (simp add: ensure_traffic_tracking_def traffic_inv_def)

lemma the_list_update [simp]: "the_list (c\<lparr>tr_list := Some l\<rparr>) = l" "the_list (c\<lparr>tr_map := m\<rparr>) = the_list c"
    "the_list (c\<lparr>tr_conns := ks\<rparr>) = the_list c" "the_list (on_entry t f c) = the_list c"
    "the_list (c\<lparr>tr_store := s\<rparr>) = the_list c" "the_list (c\<lparr>tr_next := n\<rparr>) = the_list c"
  by (simp_all add: the_list_def on_entry_def)

lemma pointing_update [simp]: "pointing t (c\<lparr>tr_list := l\<rparr>) = pointing t c" "pointing t (c\<lparr>tr_map := m\<rparr>) = pointing t c"
    "pointing t (c\<lparr>tr_store := s\<rparr>) = pointing t c" "pointing t (on_entry t' f c) = pointing t c" "pointing t (c\<lparr>tr_next := n\<rparr>) = pointing t c"
  by (simp_all add: pointing_def on_entry_def)

lemma on_entry_simps [simp]:
  "tr_map (on_entry t f c) = tr_map c" "tr_conns (on_entry t f c) = tr_conns c" "tr_list (on_entry t f c) = tr_list c"
  "tr_next (on_entry t f c) = tr_next c" "tr_store (on_entry t f c) = (tr_store c)(t := f (tr_store c t))"
  by (simp_all add: on_entry_def)

lemma empty_traffic_inv: "traffic_inv empty_traffic"
  by (simp add: traffic_inv_def empty_traffic_def the_list_def pointing_def)

lemma remove_traffic_spec:
  assumes "traffic_inv c" and "t \<in> set (the_list c)"
  shows "traffic_inv (remove_traffic t c)" and "tr_conns (remove_traffic t c) = tr_conns c"
    and "the_list (remove_traffic t c) = remove1 t (the_list c)"
    and "tr_map (remove_traffic t c) = AList.delete (te_address (tr_store c t)) (tr_map c)"
    and "length (tr_map (remove_traffic t c)) < length (tr_map c)"
    and "te_used (tr_store (remove_traffic t c) s) = te_used (tr_store c s)"
    and "te_address (tr_store (remove_traffic t c) s) = te_address (tr_store c s)"
proof -
  note inv = traffic_invD [OF assms(1)]
  have t: "map_of (tr_map c) (te_address (tr_store c t)) = Some t" "te_listed (tr_store c t)" "pointing t c = 0"
    using inv(6,7) assms(2) by auto
  let ?c1 = "c\<lparr>tr_map := AList.delete (te_address (tr_store c t)) (tr_map c)\<rparr>"
  have eq: "remove_traffic t c = on_entry t (\<lambda>e. e\<lparr>te_listed := False\<rparr>) (?c1\<lparr>tr_list := Some (remove1 t (the_list c))\<rparr>)"
    using t by (simp add: remove_traffic_def remove_inactive_def)
  show conns: "tr_conns (remove_traffic t c) = tr_conns c" "the_list (remove_traffic t c) = remove1 t (the_list c)"
    "tr_map (remove_traffic t c) = AList.delete (te_address (tr_store c t)) (tr_map c)"
    "te_used (tr_store (remove_traffic t c) s) = te_used (tr_store c s)"
    "te_address (tr_store (remove_traffic t c) s) = te_address (tr_store c s)"
    by (simp_all add: eq)
  have "map_of m k \<noteq> None \<Longrightarrow> length (AList.delete k m) < length m" for m :: "(string \<times> nat) list" and k
    by (induction m) (auto simp: AList.delete_eq less_Suc_eq_le split: if_splits)
  then show "length (tr_map (remove_traffic t c)) < length (tr_map c)" using t(1) by (simp add: eq)
  let ?c = "remove_traffic t c"
  have live: "map_of (tr_map ?c) (te_address (tr_store ?c s)) = Some s \<longleftrightarrow> s \<noteq> t \<and> map_of (tr_map c) (te_address (tr_store c s)) = Some s" for s
    using t(1) by (auto simp: eq delete_conv')
  have other: "te_active (tr_store ?c s) = te_active (tr_store c s)" "te_listed (tr_store ?c s) \<longleftrightarrow> s \<noteq> t \<and> te_listed (tr_store c s)"
    "pointing s ?c = pointing s c" "te_address (tr_store ?c s) = te_address (tr_store c s)" for s
    by (auto simp: eq)
  have set: "s \<in> set (the_list ?c) \<longleftrightarrow> s \<noteq> t \<and> s \<in> set (the_list c)" for s using inv(2) by (auto simp: eq)
  have owner: "te_address (tr_store ?c s) = a \<and> s < tr_next ?c" if "map_of (tr_map ?c) a = Some s" for a s
  proof -
    have "map_of (tr_map c) a = Some s" using that by (auto simp: eq delete_conv' split: if_splits)
    from inv(5) [OF this] show ?thesis by (cases "s = t") (simp_all add: eq)
  qed
  show "traffic_inv ?c"
  proof (rule traffic_invI)
    show "tr_list ?c \<noteq> None" "distinct (the_list ?c)" "distinct (map fst (tr_map ?c))" "distinct (map fst (tr_conns ?c))"
      using inv(2-4) by (simp_all add: eq distinct_delete)
  qed (use live other set owner inv t in \<open>metis\<close>)+
qed
section \<open>Trimming and pruning\<close>

lemma map_distinct_pointers:
  assumes "traffic_inv c"
  shows "distinct (map snd (tr_map c))"
proof -
  note inv = traffic_invD [OF assms]
  have "inj_on snd (set (tr_map c))"
  proof (rule inj_onI)
    fix x y assume xy: "x \<in> set (tr_map c)" "y \<in> set (tr_map c)" "snd x = snd y"
    then have "map_of (tr_map c) (fst x) = Some (snd x)" "map_of (tr_map c) (fst y) = Some (snd y)"
      using inv(3) by (metis map_of_is_SomeI prod.collapse)+
    then have "fst x = fst y" using inv(5) xy(3) by metis
    with xy(3) show "x = y" by (simp add: prod_eq_iff)
  qed
  moreover have "distinct (tr_map c)" using inv(3) by (simp add: distinct_map)
  ultimately show ?thesis by (simp add: distinct_map)
qed

text \<open>When no entry is without a connection there are no more entries than connections.\<close>

lemma all_active_bound:
  assumes "traffic_inv c" and "the_list c = []"
  shows "length (tr_map c) \<le> length (tr_conns c)"
proof -
  note inv = traffic_invD [OF assms(1)]
  have "set (map snd (tr_map c)) \<subseteq> (\<lambda>x. the (snd x)) ` set (tr_conns c)"
  proof
    fix t assume "t \<in> set (map snd (tr_map c))"
    then obtain a where "map_of (tr_map c) a = Some t" using inv(3) by (auto simp: map_of_eq_Some_iff)
    with inv(5) have "map_of (tr_map c) (te_address (tr_store c t)) = Some t" by metis
    with inv(6) assms(2) have "pointing t c \<noteq> 0" by auto
    then obtain x where "x \<in> set (tr_conns c)" "snd x = Some t" by (auto simp: pointing_def filter_empty_conv)
    then show "t \<in> (\<lambda>x. the (snd x)) ` set (tr_conns c)" by force
  qed
  then have "card (set (map snd (tr_map c))) \<le> card (set (tr_conns c))" by (meson card_image_le card_mono finite_imageI finite_set le_trans)
  moreover have "card (set (map snd (tr_map c))) = length (tr_map c)" using distinct_card [OF map_distinct_pointers [OF assms(1)]] by simp
  ultimately show ?thesis using card_length [of "tr_conns c"] by simp
qed

definition keeps_active :: "traffic_cache \<Rightarrow> traffic_cache \<Rightarrow> bool" where
  "keeps_active c c' \<longleftrightarrow> (\<forall>a t. map_of (tr_map c) a = Some t \<longrightarrow> pointing t c \<noteq> 0 \<longrightarrow> map_of (tr_map c') a = Some t)"

lemma keeps_active_remove:
  assumes "traffic_inv c" and "t \<in> set (the_list c)" and "keeps_active (remove_traffic t c) c'" 
  shows "keeps_active c c'"
proof -
  note r = remove_traffic_spec [OF assms(1,2)] and inv = traffic_invD [OF assms(1)]
  have "pointing s (remove_traffic t c) = pointing s c" for s using r(2) by (simp add: pointing_def)
  moreover have "map_of (tr_map (remove_traffic t c)) a = Some s" if "map_of (tr_map c) a = Some s" "pointing s c \<noteq> 0" for a s
  proof -
    have "map_of (tr_map c) (te_address (tr_store c t)) = Some t" "pointing t c = 0" using inv(6) [of t] assms(2) by blast+
    with that have "a \<noteq> te_address (tr_store c t)" by auto
    with that(1) r(4) show ?thesis by (simp add: delete_conv')
  qed
  ultimately show ?thesis using assms(3) unfolding keeps_active_def by metis
qed

lemma trim_loop_spec:
  assumes "traffic_inv c"
  shows "\<exists>c'. trim_loop limit c = Some c' \<and> traffic_inv c' \<and> tr_conns c' = tr_conns c \<and> keeps_active c c' \<and>
    (int (length (tr_map c')) \<le> limit \<or> the_list c' = [])"
  using assms
proof (induction "length (tr_map c)" arbitrary: c rule: less_induct)
  case less
  show ?case
  proof (cases "int (length (tr_map c)) > limit \<and> the_list c \<noteq> []")
    case False
    with less.prems show ?thesis by (intro exI [of _ c]) (auto simp: trim_loop.simps [of limit c] keeps_active_def split: list.splits)
  next
    case True
    then obtain t rest where t: "the_list c = t # rest" by (cases "the_list c") auto
    then have in_list: "t \<in> set (the_list c)" by simp
    note r = remove_traffic_spec [OF less.prems in_list]
    from less.hyps [OF r(5) r(1)] obtain c' where "trim_loop limit (remove_traffic t c) = Some c'" "traffic_inv c'"
      "tr_conns c' = tr_conns c" "keeps_active (remove_traffic t c) c'" "int (length (tr_map c')) \<le> limit \<or> the_list c' = []"
      using r(2) by auto
    with True t keeps_active_remove [OF less.prems in_list] show ?thesis
      by (intro exI [of _ c']) (simp add: trim_loop.simps [of limit c])
  qed
qed

lemma prune_traffic_loop_spec:
  assumes "traffic_inv c"
  shows "traffic_inv (prune_traffic_loop n now c) \<and> tr_conns (prune_traffic_loop n now c) = tr_conns c \<and>
    keeps_active c (prune_traffic_loop n now c) \<and> length (tr_map (prune_traffic_loop n now c)) \<le> length (tr_map c) \<and>
    (the_list c = [] \<longrightarrow> the_list (prune_traffic_loop n now c) = []) \<and>
    (\<forall>a t. map_of (tr_map c) a = Some t \<longrightarrow> te_used (tr_store c t) + tcpServerTrafficTTL > now \<longrightarrow>
       map_of (tr_map (prune_traffic_loop n now c)) a = Some t)"
  using assms
proof (induction n arbitrary: c)
  case 0
  then show ?case by (simp add: keeps_active_def)
next
  case (Suc n)
  show ?case
  proof (cases "the_list c")
    case Nil
    with Suc.prems show ?thesis by (simp add: keeps_active_def)
  next
    case (Cons t rest)
    then have in_list: "t \<in> set (the_list c)" by simp
    note inv = traffic_invD [OF Suc.prems] and r = remove_traffic_spec [OF Suc.prems in_list]
    have t: "map_of (tr_map c) (te_address (tr_store c t)) = Some t" "te_active (tr_store c t) = 0"
      using inv(6) [of t] inv(8) [of t] in_list by auto
    show ?thesis
    proof (cases "te_used (tr_store c t) + tcpServerTrafficTTL > now")
      case True
      with Cons t Suc.prems show ?thesis by (simp add: keeps_active_def)
    next
      case False
      then have eq: "prune_traffic_loop (Suc n) now c = prune_traffic_loop n now (remove_traffic t c)" using Cons t by simp
      have young: "map_of (tr_map (remove_traffic t c)) a = Some s \<and> te_used (tr_store (remove_traffic t c) s) + tcpServerTrafficTTL > now"
        if "map_of (tr_map c) a = Some s" "te_used (tr_store c s) + tcpServerTrafficTTL > now" for a s
      proof -
        have "a \<noteq> te_address (tr_store c t)" using that t(1) False by auto
        with that r(4) r(6) [of s] show ?thesis by (simp add: delete_conv')
      qed
      show ?thesis
        using Suc.IH [OF r(1)] r(2,5) keeps_active_remove [OF Suc.prems in_list] young Cons unfolding eq by auto
    qed
  qed
qed

section \<open>Looking up and closing\<close>

text \<open>A change that the invariant does not see.\<close>

lemma same_inv:
  assumes "traffic_inv c" and "tr_map c' = tr_map c" "tr_conns c' = tr_conns c" "tr_next c' = tr_next c" "tr_list c' \<noteq> None"
    and "distinct (the_list c')" "set (the_list c') = set (the_list c)"
    and "\<And>s. te_active (tr_store c' s) = te_active (tr_store c s)" "\<And>s. te_listed (tr_store c' s) = te_listed (tr_store c s)"
    "\<And>s. te_address (tr_store c' s) = te_address (tr_store c s)"
  shows "traffic_inv c'"
proof -
  have "pointing s c' = pointing s c" for s using assms(3) by (simp add: pointing_def)
  note eqs = assms(2-4) assms(7-10) this and inv = traffic_invD [OF assms(1)]
  show ?thesis
  proof (rule traffic_invI)
    show "tr_list c' \<noteq> None" "distinct (the_list c')" by (fact assms)+
    show "distinct (map fst (tr_map c'))" "distinct (map fst (tr_conns c'))" using inv(3,4) by (simp_all only: eqs)
    show "te_address (tr_store c' s) = a \<and> s < tr_next c'" if "map_of (tr_map c') a = Some s" for a s
      using inv(5) [of a s] that unfolding eqs by blast
    show "s \<in> set (the_list c') \<longleftrightarrow> map_of (tr_map c') (te_address (tr_store c' s)) = Some s \<and> pointing s c' = 0" for s
      using inv(6) [of s] unfolding eqs by blast
    show "te_listed (tr_store c' s) \<longleftrightarrow> s \<in> set (the_list c')" for s
      using inv(7) [of s] unfolding eqs by blast
    show "te_active (tr_store c' s) = pointing s c'" if "map_of (tr_map c') (te_address (tr_store c' s)) = Some s" for s
      using inv(8) [of s] that unfolding eqs by blast
    show "map_of (tr_map c') (te_address (tr_store c' s)) = Some s" if "pointing s c' \<noteq> 0" for s
      using inv(9) [of s] that unfolding eqs by blast
  qed
qed

lemma touch_inv: "traffic_inv c \<Longrightarrow> traffic_inv (touch t now c)"
  by (rule same_inv) (auto simp: touch_def traffic_invD(1,2))

lemma reorder_inv:
  assumes "traffic_inv c" "distinct l" "set l = set (the_list c)"
  shows "traffic_inv (c\<lparr>tr_list := Some l\<rparr>)"
  using assms by (intro same_inv [OF assms(1)]) simp_all

lemma for_address_spec:
  assumes "traffic_inv c" and "traffic_for_address_locked address now c = (t, c')"
  shows "traffic_inv c' \<and> tr_conns c' = tr_conns c \<and> keeps_active c c' \<and> map_of (tr_map c') address = Some t \<and> te_used (tr_store c' t) = now"
proof (cases "map_of (tr_map c) address")
  case (Some s)
  have "traffic_inv (c\<lparr>tr_list := Some (move_to_back s (the_list c))\<rparr>)" if "s \<in> set (the_list c)"
    using traffic_invD(2) [OF assms(1)] that by (intro reorder_inv [OF assms(1)]) (auto simp: move_to_back_def set_remove1_eq)
  then have moved: "te_listed (tr_store c s) \<Longrightarrow> traffic_inv (c\<lparr>tr_list := Some (move_to_back s (the_list c))\<rparr>)"
    using traffic_invD(7) [OF assms(1)] by blast
  have kept: "keeps_active c c1 \<and> tr_conns (touch s now c1) = tr_conns c \<and> map_of (tr_map (touch s now c1)) address = Some s \<and>
      te_used (tr_store (touch s now c1) s) = now \<and> keeps_active c (touch s now c1)" if "tr_map c1 = tr_map c" "tr_conns c1 = tr_conns c" for c1
    using that Some by (simp add: touch_def keeps_active_def)
  have "c' = touch s now (c\<lparr>tr_list := Some (move_to_back s (the_list c))\<rparr>) \<and> te_listed (tr_store c s) \<or> c' = touch s now c" "t = s"
    using Some assms by (auto simp: traffic_for_address_locked_def split: if_splits)
  with moved kept assms(1) show ?thesis using touch_inv by auto
next
  case None
  note inv = traffic_invD [OF assms(1)]
  let ?t = "tr_next c"
  let ?c = "c\<lparr>tr_next := ?t + 1, tr_map := AList.update address ?t (tr_map c), tr_list := Some (the_list c @ [?t]),
      tr_store := (tr_store c)(?t := \<lparr>te_used = 0, te_active = 0, te_address = address, te_listed = True\<rparr>)\<rparr>"
  have c': "t = ?t" "c' = touch ?t now ?c" using None assms by (auto simp: traffic_for_address_locked_def Let_def)
  have fresh: "map_of (tr_map c) (te_address (tr_store c ?t)) \<noteq> Some ?t" using inv(5) by blast
  then have "?t \<notin> set (the_list c)" "pointing ?t c = 0" using inv(6,9) by blast+
  moreover have live: "map_of (tr_map ?c) (te_address (tr_store ?c s)) = Some s \<longleftrightarrow>
      s = ?t \<or> map_of (tr_map c) (te_address (tr_store c s)) = Some s" for s
    using None fresh by (auto simp: update_conv')
  moreover have owner: "te_address (tr_store ?c s) = a \<and> s < ?t + 1" if "map_of (tr_map ?c) a = Some s" for a s
  proof (cases "a = address")
    case False
    with that have "map_of (tr_map c) a = Some s" by (simp add: update_conv')
    from inv(5) [OF this] show ?thesis by simp
  qed (use that in \<open>simp add: update_conv'\<close>)
  moreover have fields: "pointing s ?c = pointing s c" "set (the_list ?c) = insert ?t (set (the_list c))"
      "te_listed (tr_store ?c s) \<longleftrightarrow> s = ?t \<or> te_listed (tr_store c s)"
      "te_active (tr_store ?c s) = (if s = ?t then 0 else te_active (tr_store c s))" for s
    by (simp_all add: the_list_def pointing_def)
  ultimately have "traffic_inv ?c"
  proof (intro traffic_invI)
    show "tr_list ?c \<noteq> None" "distinct (the_list ?c)" "distinct (map fst (tr_map ?c))" "distinct (map fst (tr_conns ?c))"
      using inv(2-4) \<open>?t \<notin> set (the_list c)\<close> by (simp_all add: the_list_def distinct_update)
    show "te_address (tr_store ?c s) = a \<and> s < tr_next ?c" if "map_of (tr_map ?c) a = Some s" for a s
      using owner [OF that] by simp
    show "s \<in> set (the_list ?c) \<longleftrightarrow> map_of (tr_map ?c) (te_address (tr_store ?c s)) = Some s \<and> pointing s ?c = 0" for s
      unfolding live fields using inv(6) [of s] \<open>pointing ?t c = 0\<close> by blast
    show "te_listed (tr_store ?c s) \<longleftrightarrow> s \<in> set (the_list ?c)" for s unfolding fields using inv(7) [of s] by blast
    show "te_active (tr_store ?c s) = pointing s ?c" if "map_of (tr_map ?c) (te_address (tr_store ?c s)) = Some s" for s
      using that inv(8) [of s] \<open>pointing ?t c = 0\<close> unfolding live fields by (cases "s = ?t") simp_all
    show "map_of (tr_map ?c) (te_address (tr_store ?c s)) = Some s" if "pointing s ?c \<noteq> 0" for s
      using that inv(9) [of s] unfolding live fields by blast
  qed
  moreover have "keeps_active c ?c" using None by (auto simp: keeps_active_def update_conv')
  ultimately show ?thesis by (auto simp: c' touch_inv update_conv') (auto simp: touch_def keeps_active_def update_conv')
qed

lemma pointing_add:
  assumes "distinct (map fst (tr_conns c))" "map_of (tr_conns c) k = Some None"
  shows "pointing s (c\<lparr>tr_conns := AList.update k (Some t) (tr_conns c)\<rparr>) = pointing s c + (if s = t then 1 else 0)"
proof -
  have "length (filter (\<lambda>(k, x). x = Some s) (AList.update k (Some t) m)) = length (filter (\<lambda>(k, x). x = Some s) m) + (if s = t then 1 else 0)"
    if "map_of m k = Some None" for m
    using that by (induction m) auto
  with assms show ?thesis by (simp add: pointing_def)
qed

lemma pointing_delete:
  assumes "distinct (map fst (tr_conns c))"
  shows "pointing s (c\<lparr>tr_conns := AList.delete k (tr_conns c)\<rparr>) = pointing s c - (if map_of (tr_conns c) k = Some (Some s) then 1 else 0)"
proof -
  have "int (length (filter (\<lambda>(k, x). x = Some s) (AList.delete k m))) =
      int (length (filter (\<lambda>(k, x). x = Some s) m)) - (if map_of m k = Some (Some s) then 1 else 0)"
    if "distinct (map fst m)" for m :: "(nat \<times> nat option) list"
    using that
  proof (induction m)
    case (Cons x m)
    show ?case
    proof (cases "fst x = k")
      case True
      with Cons.prems have "AList.delete k m = m" "map_of m k = None" by (auto simp: map_of_eq_None_iff)
      with True show ?thesis by (cases x) auto
    next
      case False
      with Cons show ?thesis by (cases x) auto
    qed
  qed simp
  with assms show ?thesis by (simp add: pointing_def)
qed

lemma attached_inv:
  assumes "traffic_inv c" and "map_of (tr_map c) (te_address (tr_store c t)) = Some t" and "map_of (tr_conns c) k = Some None"
  defines "c1 \<equiv> c\<lparr>tr_conns := AList.update k (Some t) (tr_conns c)\<rparr>"
  defines "c2 \<equiv> (if te_active (tr_store c1 t) = 0 then remove_inactive t c1 else c1)"
  shows "traffic_inv (on_entry t (\<lambda>e. e\<lparr>te_active := te_active e + 1\<rparr>) c2)"
proof -
  note inv = traffic_invD [OF assms(1)]
  let ?c = "on_entry t (\<lambda>e. e\<lparr>te_active := te_active e + 1\<rparr>) c2"
  have listed: "te_listed (tr_store c t) \<longleftrightarrow> te_active (tr_store c t) = 0"
    using inv(6) [of t] inv(7) [of t] inv(8) [of t] assms(2) by simp
  have nonneg: "pointing s c \<ge> 0" for s by (simp add: pointing_def)
  have p: "pointing s ?c = pointing s c + (if s = t then 1 else 0)" for s
  proof -
    have "pointing s ?c = pointing s c1" by (simp add: c2_def remove_inactive_def)
    then show ?thesis using pointing_add [OF inv(4) assms(3), of s t] by (simp only: c1_def)
  qed
  have eqs: "tr_map ?c = tr_map c" "tr_next ?c = tr_next c" "tr_conns ?c = AList.update k (Some t) (tr_conns c)"
    "te_address (tr_store ?c s) = te_address (tr_store c s)"
    "te_active (tr_store ?c s) = te_active (tr_store c s) + (if s = t then 1 else 0)"
    "te_listed (tr_store ?c s) \<longleftrightarrow> s \<noteq> t \<and> te_listed (tr_store c s)"
    "tr_list ?c \<noteq> None" "the_list ?c = remove1 t (the_list c)" for s
    using listed inv(1) inv(7) [of t] by (auto simp: c2_def c1_def remove_inactive_def remove1_idem)
  have set: "s \<in> set (the_list ?c) \<longleftrightarrow> s \<noteq> t \<and> s \<in> set (the_list c)" for s
    unfolding eqs using inv(2) by auto
  show ?thesis
  proof (rule traffic_invI)
    show "tr_list ?c \<noteq> None" by (fact eqs)
    show "distinct (the_list ?c)" "distinct (map fst (tr_map ?c))" "distinct (map fst (tr_conns ?c))"
      using inv(2-4) unfolding eqs by (simp_all add: distinct_update)
    show "te_address (tr_store ?c s) = a \<and> s < tr_next ?c" if "map_of (tr_map ?c) a = Some s" for a s
      using inv(5) [of a s] that unfolding eqs by blast
    show "s \<in> set (the_list ?c) \<longleftrightarrow> map_of (tr_map ?c) (te_address (tr_store ?c s)) = Some s \<and> pointing s ?c = 0" for s
      unfolding set unfolding eqs p using inv(6) [of s] nonneg [of t] by (cases "s = t") simp_all
    show "te_listed (tr_store ?c s) \<longleftrightarrow> s \<in> set (the_list ?c)" for s
      unfolding set unfolding eqs using inv(7) [of s] by blast
    show "te_active (tr_store ?c s) = pointing s ?c" if "map_of (tr_map ?c) (te_address (tr_store ?c s)) = Some s" for s
      using that inv(8) [of s] unfolding eqs p by simp
    show "map_of (tr_map ?c) (te_address (tr_store ?c s)) = Some s" if "pointing s ?c \<noteq> 0" for s
      using that inv(9) [of s] assms(2) unfolding eqs p by (cases "s = t") simp_all
  qed
qed

lemma keeps_active_trans:
  assumes "keeps_active c c1" "keeps_active c1 c2" "\<And>t. pointing t c \<noteq> 0 \<Longrightarrow> pointing t c1 \<noteq> 0"
  shows "keeps_active c c2"
  using assms unfolding keeps_active_def by blast

lemma keeps_active_same: "tr_map c1 = tr_map c \<Longrightarrow> keeps_active c c1"
  by (simp add: keeps_active_def)

definition within :: "int \<Rightarrow> traffic_cache \<Rightarrow> bool" where
  "within limit c \<longleftrightarrow> int (length (tr_map c)) \<le> limit \<or> the_list c = []"

lemma trim_traffic_spec:
  assumes "traffic_inv c"
  obtains c' where "trim_traffic limit c = Some c'" "traffic_inv c'" "tr_conns c' = tr_conns c" "keeps_active c c'" "within limit c'"
  using trim_loop_spec [OF assms, of limit] assms by (auto simp: trim_traffic_def within_def)

lemma pointing_conns: "tr_conns c' = tr_conns c \<Longrightarrow> pointing t c' = pointing t c"
  by (simp add: pointing_def)

lemma for_address_returns:
  assumes "traffic_inv c"
  shows "\<exists>t c'. traffic_for_address limit address now c = Some (t, c') \<and> traffic_inv c' \<and> tr_conns c' = tr_conns c \<and>
    keeps_active c c' \<and> within limit c'"
proof -
  obtain t c1 where c1: "traffic_for_address_locked address now c = (t, c1)" by (cases "traffic_for_address_locked address now c")
  note s = for_address_spec [OF assms c1]
  obtain c' where c': "trim_traffic limit c1 = Some c'" "traffic_inv c'" "tr_conns c' = tr_conns c1" "keeps_active c1 c'" "within limit c'"
    using s by (meson trim_traffic_spec)
  have "keeps_active c c'" using keeps_active_trans [of c c1 c'] s c'(4) pointing_conns [of c1 c] by simp
  with c1 c' s show ?thesis by (simp add: traffic_for_address_def)
qed

lemma for_connection_returns:
  assumes "traffic_inv c"
  shows "\<exists>t c'. traffic_for_connection limit conn address now c = Some (t, c') \<and> traffic_inv c' \<and>
    map fst (tr_conns c') = map fst (tr_conns c) \<and> keeps_active c c' \<and> within limit c' \<and>
    (\<forall>k. conn = Some k \<longrightarrow> map_of (tr_conns c) k = Some None \<longrightarrow>
       map_of (tr_conns c') k = Some (Some t) \<and> map_of (tr_map c') address = Some t) \<and>
    (\<forall>j. conn \<noteq> Some j \<longrightarrow> map_of (tr_conns c') j = map_of (tr_conns c) j)"
proof -
  obtain t c1 where c1: "traffic_for_address_locked address now c = (t, c1)" by (cases "traffic_for_address_locked address now c")
  note s = for_address_spec [OF assms c1]
  have live: "map_of (tr_map c1) (te_address (tr_store c1 t)) = Some t" "te_address (tr_store c1 t) = address"
    using s traffic_invD(5) [of c1 address t] by auto
  show ?thesis
  proof (cases "\<exists>k. conn = Some k \<and> map_of (tr_conns c1) k = Some None")
    case False
    then have eq: "traffic_for_connection limit conn address now c = map_option (Pair t) (trim_traffic limit c1)"
      using c1 by (cases conn) (auto simp: traffic_for_connection_def Let_def)
    obtain c' where c': "trim_traffic limit c1 = Some c'" "traffic_inv c'" "tr_conns c' = tr_conns c1" "keeps_active c1 c'" "within limit c'"
      using s by (meson trim_traffic_spec)
    have "keeps_active c c'" using keeps_active_trans [of c c1 c'] s c'(4) pointing_conns [of c1 c] by simp
    with eq c' s False show ?thesis by auto
  next
    case True
    then obtain k where k: "conn = Some k" "map_of (tr_conns c1) k = Some None" by blast
    define c2 where "c2 = c1\<lparr>tr_conns := AList.update k (Some t) (tr_conns c1)\<rparr>"
    define c3 where "c3 = (if te_active (tr_store c2 t) = 0 then remove_inactive t c2 else c2)"
    define c4 where "c4 = on_entry t (\<lambda>e. e\<lparr>te_active := te_active e + 1\<rparr>) c3"
    have inv4: "traffic_inv c4" unfolding c4_def c3_def c2_def using attached_inv [of c1 t k] s live k(2) by blast
    have f: "tr_map c4 = tr_map c1" "tr_conns c4 = AList.update k (Some t) (tr_conns c1)"
      by (simp_all add: c4_def c3_def c2_def remove_inactive_def)
    have p: "pointing u c4 = pointing u c1 + (if u = t then 1 else 0)" for u
      using pointing_add [of c1 k u t] s k(2) traffic_invD(4) [of c1] f(2) by (simp add: pointing_def)
    have eq: "traffic_for_connection limit conn address now c = map_option (Pair t) (trim_traffic limit c4)"
      using c1 k by (simp add: traffic_for_connection_def Let_def c4_def c3_def c2_def)
    obtain c' where c': "trim_traffic limit c4 = Some c'" "traffic_inv c'" "tr_conns c' = tr_conns c4" "keeps_active c4 c'" "within limit c'"
      using inv4 by (meson trim_traffic_spec)
    have nonneg: "pointing u c1 \<ge> 0" for u by (simp add: pointing_def)
    have "keeps_active c1 c'" using keeps_active_trans [OF keeps_active_same [OF f(1)] c'(4)] p nonneg by (metis add.commute add_0 int_one_le_iff_zero_less less_add_same_cancel1 nless_le not_less zero_less_one)
    then have keep: "keeps_active c c'" using keeps_active_trans [of c c1 c'] s pointing_conns [of c1 c] by simp
    have "map_of (tr_map c4) address = Some t" "pointing t c4 \<noteq> 0" using f(1) s p [of t] nonneg [of t] by auto
    with c'(4) have "map_of (tr_map c') address = Some t" unfolding keeps_active_def by blast
    moreover have "map fst (AList.update k (Some t) m) = map fst m" if "map_of m k = Some x" for m :: "(nat \<times> nat option) list" and x
      using that by (induction m) auto
    from this [OF k(2)] have "map fst (tr_conns c') = map fst (tr_conns c)" using c'(3) f(2) s by simp
    ultimately show ?thesis using eq c' keep k f(2) s by (simp add: update_conv')
  qed
qed

lemma close_inv:
  fixes now :: int
  assumes "traffic_inv c" and "map_of (tr_conns c) k = Some (Some t)"
  defines "c3 \<equiv> touch t now (on_entry t (\<lambda>e. e\<lparr>te_active := te_active e - 1\<rparr>) (c\<lparr>tr_conns := AList.delete k (tr_conns c)\<rparr>))"
  shows "te_active (tr_store c t) > 0" and "traffic_inv (if te_active (tr_store c3 t) = 0 then mark_inactive t c3 else c3)"
    and "tr_map (mark_inactive t c3) = tr_map c" and "tr_conns (mark_inactive t c3) = AList.delete k (tr_conns c)"
proof -
  note inv = traffic_invD [OF assms(1)]
  have "(k, Some t) \<in> set (tr_conns c)" using assms(2) by (rule map_of_SomeD)
  then have "filter (\<lambda>(k, s). s = Some t) (tr_conns c) \<noteq> []" by (auto simp: filter_empty_conv)
  then have pos: "pointing t c > 0" by (simp add: pointing_def)
  then have live: "map_of (tr_map c) (te_address (tr_store c t)) = Some t" using inv(9) [of t] by simp
  with pos inv(8) show "te_active (tr_store c t) > 0" by simp
  have unlisted: "\<not> te_listed (tr_store c t)" "t \<notin> set (the_list c)" using inv(6,7) [of t] pos by auto
  have nonneg: "pointing s c \<ge> 0" for s by (simp add: pointing_def)
  have p3: "pointing s c3 = pointing s c - (if s = t then 1 else 0)" for s
  proof -
    have "pointing s c3 = pointing s (c\<lparr>tr_conns := AList.delete k (tr_conns c)\<rparr>)" by (simp add: c3_def touch_def)
    then show ?thesis using pointing_delete [OF inv(4), of s k] assms(2) by simp
  qed
  have eqs: "tr_map c3 = tr_map c" "tr_next c3 = tr_next c" "tr_conns c3 = AList.delete k (tr_conns c)" "tr_list c3 = tr_list c"
    "the_list c3 = the_list c" "te_address (tr_store c3 s) = te_address (tr_store c s)"
    "te_active (tr_store c3 s) = te_active (tr_store c s) - (if s = t then 1 else 0)"
    "te_listed (tr_store c3 s) = te_listed (tr_store c s)" for s
    by (auto simp: c3_def touch_def)
  let ?d = "if te_active (tr_store c3 t) = 0 then mark_inactive t c3 else c3"
  have mark: "mark_inactive t c3 = on_entry t (\<lambda>e. e\<lparr>te_listed := True\<rparr>) (c3\<lparr>tr_list := Some (the_list c @ [t])\<rparr>)"
    using live inv(1) unlisted by (simp add: mark_inactive_def ensure_traffic_tracking_def eqs)
  show "tr_map (mark_inactive t c3) = tr_map c" "tr_conns (mark_inactive t c3) = AList.delete k (tr_conns c)"
    unfolding mark by (simp_all add: eqs)
  have zero: "te_active (tr_store c3 t) = 0 \<longleftrightarrow> pointing t c = 1" using inv(8) [OF live] eqs(7) [of t] by simp
  have d: "tr_map ?d = tr_map c" "tr_next ?d = tr_next c" "tr_conns ?d = AList.delete k (tr_conns c)" "tr_list ?d \<noteq> None"
    "the_list ?d = (if pointing t c = 1 then the_list c @ [t] else the_list c)" "te_address (tr_store ?d s) = te_address (tr_store c s)"
    "te_active (tr_store ?d s) = te_active (tr_store c s) - (if s = t then 1 else 0)"
    "te_listed (tr_store ?d s) \<longleftrightarrow> te_listed (tr_store c s) \<or> s = t \<and> pointing t c = 1"
    "pointing s ?d = pointing s c - (if s = t then 1 else 0)" for s
    using zero inv(1) p3 by (auto simp: mark eqs)
  show "traffic_inv ?d"
  proof (rule traffic_invI)
    show "tr_list ?d \<noteq> None" by (fact d)
    show "distinct (the_list ?d)" "distinct (map fst (tr_map ?d))" "distinct (map fst (tr_conns ?d))"
      using inv(2-4) unlisted(2) unfolding d by (simp_all add: distinct_delete)
    show "te_address (tr_store ?d s) = a \<and> s < tr_next ?d" if "map_of (tr_map ?d) a = Some s" for a s
      using inv(5) [of a s] that unfolding d by blast
    show "s \<in> set (the_list ?d) \<longleftrightarrow> map_of (tr_map ?d) (te_address (tr_store ?d s)) = Some s \<and> pointing s ?d = 0" for s
      unfolding d using inv(6) [of s] live unlisted(2) pos by (cases "s = t") auto
    show "te_listed (tr_store ?d s) \<longleftrightarrow> s \<in> set (the_list ?d)" for s
      unfolding d using inv(7) [of s] unlisted by (cases "s = t") auto
    show "te_active (tr_store ?d s) = pointing s ?d" if "map_of (tr_map ?d) (te_address (tr_store ?d s)) = Some s" for s
      using that inv(8) [of s] unfolding d by simp
    show "map_of (tr_map ?d) (te_address (tr_store ?d s)) = Some s" if "pointing s ?d \<noteq> 0" for s
      using that inv(9) [of s] live unfolding d by (cases "s = t") simp_all
  qed
qed

lemma untracked_inv:
  assumes "traffic_inv c" "tr_list c' = tr_list c" "tr_map c' = tr_map c" "tr_store c' = tr_store c" "tr_next c' = tr_next c"
    and "distinct (map fst (tr_conns c'))" "\<And>s. pointing s c' = pointing s c"
  shows "traffic_inv c'"
  using assms(1,6) unfolding traffic_inv_def the_list_def assms(2-5,7) by blast

lemma connection_closed_returns:
  assumes "traffic_inv c"
  shows "\<exists>c'. connection_closed limit k now c = Some c' \<and> traffic_inv c' \<and> tr_conns c' = AList.delete k (tr_conns c) \<and>
    (within limit c \<longrightarrow> within limit c') \<and>
    (\<forall>a u. map_of (tr_map c) a = Some u \<longrightarrow> pointing u c' \<noteq> 0 \<longrightarrow> map_of (tr_map c') a = Some u)"
proof -
  note inv = traffic_invD [OF assms]
  let ?c = "c\<lparr>tr_conns := AList.delete k (tr_conns c)\<rparr>"
  show ?thesis
  proof (cases "\<exists>t. map_of (tr_conns c) k = Some (Some t)")
    case False
    then have "connection_closed limit k now c = Some ?c" by (auto simp: connection_closed_def split: option.splits)
    moreover have "traffic_inv ?c"
      using pointing_delete [OF inv(4)] False inv(4) by (intro untracked_inv [OF assms]) (simp_all add: distinct_delete)
    ultimately show ?thesis by (auto simp: within_def the_list_def)
  next
    case True
    then obtain t where t: "map_of (tr_conns c) k = Some (Some t)" by blast
    note active = close_inv(1) [OF assms t] and close = close_inv(2-4) [OF assms t, where now = now]
    let ?c3 = "touch t now (on_entry t (\<lambda>e. e\<lparr>te_active := te_active e - 1\<rparr>) ?c)"
    have eq: "connection_closed limit k now c = (if te_active (tr_store ?c3 t) = 0 then trim_traffic limit (mark_inactive t ?c3) else Some ?c3)"
      using t active by (simp add: connection_closed_def Let_def)
    show ?thesis
    proof (cases "te_active (tr_store ?c3 t) = 0")
      case True
      obtain c' where "trim_traffic limit (mark_inactive t ?c3) = Some c'" "traffic_inv c'" "tr_conns c' = tr_conns (mark_inactive t ?c3)"
        "keeps_active (mark_inactive t ?c3) c'" "within limit c'"
        using trim_traffic_spec [OF close(1) [unfolded if_P [OF True]]] by blast
      with eq True close(2,3) show ?thesis by (auto simp: keeps_active_def pointing_def)
    next
      case False
      have "the_list ?c3 = the_list c" "tr_map ?c3 = tr_map c" "tr_conns ?c3 = AList.delete k (tr_conns c)" by (simp_all add: touch_def)
      with eq False close(1) [unfolded if_not_P [OF False]] show ?thesis by (simp add: within_def)
    qed
  qed
qed

section \<open>Every history of the cache\<close>

datatype traffic_event =
    TrackConn nat
  | ForConn "nat option" string int
  | ForAddr string int
  | ConnClosed nat int
  | PruneTraffic int

text \<open>A connection is tracked when it is accepted, under a pointer no tracked connection has.\<close>

fun traffic_step :: "int \<Rightarrow> traffic_event \<Rightarrow> traffic_cache \<Rightarrow> traffic_cache option" where
  "traffic_step limit (TrackConn k) c = Some (if k \<in> fst ` set (tr_conns c) then c else c\<lparr>tr_conns := (k, None) # tr_conns c\<rparr>)"
| "traffic_step limit (ForConn conn address now) c = map_option snd (traffic_for_connection limit conn address now c)"
| "traffic_step limit (ForAddr address now) c = map_option snd (traffic_for_address limit address now c)"
| "traffic_step limit (ConnClosed k now) c = connection_closed limit k now c"
| "traffic_step limit (PruneTraffic now) c = Some (prune_traffic now c)"

fun traffic_run :: "int \<Rightarrow> traffic_event list \<Rightarrow> traffic_cache \<Rightarrow> traffic_cache option" where
  "traffic_run limit [] c = Some c"
| "traffic_run limit (e # es) c = (case traffic_step limit e c of None \<Rightarrow> None | Some c' \<Rightarrow> traffic_run limit es c')"

lemma traffic_step_returns:
  assumes "traffic_inv c" "within limit c"
  shows "\<exists>c'. traffic_step limit e c = Some c' \<and> traffic_inv c' \<and> within limit c'"
proof (cases e)
  case (TrackConn k)
  have "traffic_inv (c\<lparr>tr_conns := (k, None) # tr_conns c\<rparr>)" if "k \<notin> fst ` set (tr_conns c)"
    using that traffic_invD(4) [OF assms(1)] by (intro untracked_inv [OF assms(1)]) (simp_all add: pointing_def)
  with assms TrackConn show ?thesis by (simp add: within_def the_list_def)
next
  case (ForConn conn address now)
  with for_connection_returns [OF assms(1), of limit conn address now] show ?thesis by auto
next
  case (ForAddr address now)
  with for_address_returns [OF assms(1), of limit address now] show ?thesis by auto
next
  case (ConnClosed k now)
  with connection_closed_returns [OF assms(1), of limit k now] assms(2) show ?thesis by auto
next
  case (PruneTraffic now)
  with prune_traffic_loop_spec [OF assms(1), of "length (the_list c)" now] assms show ?thesis
    by (auto simp: within_def prune_traffic_def Let_def)
qed

lemma traffic_run_returns:
  assumes "traffic_inv c" "within limit c"
  shows "\<exists>c'. traffic_run limit es c = Some c' \<and> traffic_inv c' \<and> within limit c'"
  using assms
proof (induction es arbitrary: c)
  case (Cons e es)
  obtain c' where "traffic_step limit e c = Some c'" "traffic_inv c'" "within limit c'"
    using traffic_step_returns [OF Cons.prems] by blast
  with Cons.IH show ?case by simp
qed simp

lemma traffic_limit_exact:
  assumes "0 < streams" "0 < carriers" "0 < pending" "streams \<le> max_int" "carriers \<le> max_int" "pending \<le> max_int"
  shows "traffic_limit streams carriers pending = min (streams * carriers + pending) max_int"
proof -
  have "streams \<le> (max_int - pending) div carriers \<longleftrightarrow> streams * carriers \<le> max_int - pending"
  proof
    assume "streams \<le> (max_int - pending) div carriers"
    then have "streams * carriers \<le> (max_int - pending) div carriers * carriers" using assms(2) by (simp add: mult_right_mono)
    also have "\<dots> \<le> max_int - pending" by (metis assms(2) div_mult_mod_eq add_le_same_cancel1 le_add_same_cancel1 pos_mod_sign)
    finally show "streams * carriers \<le> max_int - pending" .
  next
    assume "streams * carriers \<le> max_int - pending"
    from zdiv_mono1 [OF this assms(2)] assms(2) show "streams \<le> (max_int - pending) div carriers" by simp
  qed
  with assms(1-3) show ?thesis by (auto simp: traffic_limit_def min_def not_le)
qed

text \<open>
  C36. In every history the operations return (the loop of \<open>trimTrafficLocked\<close> ends), there are at most
  as many counters as the limit allows or as there are open connections, and the counter an open
  connection uses is in the map under its address and counts exactly the connections that use it: a
  trim or a prune never drops the counter of an open connection.
\<close>

theorem traffic_history:
  "\<exists>c. traffic_run limit es empty_traffic = Some c \<and>
     (int (length (tr_map c)) \<le> limit \<or> length (tr_map c) \<le> length (tr_conns c)) \<and>
     (\<forall>k t. map_of (tr_conns c) k = Some (Some t) \<longrightarrow>
        map_of (tr_map c) (te_address (tr_store c t)) = Some t \<and> te_active (tr_store c t) = pointing t c)"
proof -
  have "within limit empty_traffic" by (simp add: within_def empty_traffic_def the_list_def)
  then obtain c where c: "traffic_run limit es empty_traffic = Some c" "traffic_inv c" "within limit c"
    using traffic_run_returns [OF empty_traffic_inv] by blast
  note inv = traffic_invD [OF c(2)]
  have "map_of (tr_map c) (te_address (tr_store c t)) = Some t" if "map_of (tr_conns c) k = Some (Some t)" for k t
  proof -
    have "(k, Some t) \<in> set (tr_conns c)" using that by (rule map_of_SomeD)
    then have "filter (\<lambda>(k, s). s = Some t) (tr_conns c) \<noteq> []" by (auto simp: filter_empty_conv)
    then have "pointing t c \<noteq> 0" by (simp add: pointing_def)
    then show ?thesis by (rule inv(9))
  qed
  with c inv(8) all_active_bound [OF c(2)] show ?thesis by (auto simp: within_def)
qed

lemma traffic_history_witness:
  "\<exists>c. traffic_run 1 [TrackConn 0, ForConn (Some 0) ''10.0.0.1'' 5, ForAddr ''10.0.0.2'' 6] empty_traffic = Some c \<and>
     map_of (tr_conns c) 0 = Some (Some 0) \<and> tr_map c = [(''10.0.0.1'', 0)] \<and> te_active (tr_store c 0) = 1"
proof -
  let ?es = "[TrackConn 0, ForConn (Some 0) ''10.0.0.1'' 5, ForAddr ''10.0.0.2'' 6]"
  obtain c where c: "traffic_run 1 ?es empty_traffic = Some c"
    "\<forall>k t. map_of (tr_conns c) k = Some (Some t) \<longrightarrow>
        map_of (tr_map c) (te_address (tr_store c t)) = Some t \<and> te_active (tr_store c t) = pointing t c"
    using traffic_history [of 1 ?es] by blast
  have eval: "map_option (\<lambda>c. (tr_conns c, tr_map c)) (traffic_run 1 ?es empty_traffic) = Some ([(0, Some 0)], [(''10.0.0.1'', 0)])"
    by (simp add: empty_traffic_def traffic_for_connection_def traffic_for_address_def traffic_for_address_locked_def Let_def
        trim_traffic_def ensure_traffic_tracking_def the_list_def touch_def on_entry_def remove_inactive_def remove_traffic_def trim_loop.simps)
  from eval c(1) have "tr_conns c = [(0, Some 0)]" "tr_map c = [(''10.0.0.1'', 0)]" by simp_all
  moreover from this(1) c(2) have "te_active (tr_store c 0) = pointing 0 c" by simp
  ultimately show ?thesis using c(1) by (simp add: pointing_def)
qed

text \<open>
  The limit \<open>trafficLimit\<close> computes from validated settings is their product plus the pending
  connections, cut at the largest \<^verbatim>\<open>int\<close>: no intermediate value overflows.
\<close>

theorem traffic_limit_no_overflow:
  assumes "0 < streams" "0 < carriers" "0 < pending" "streams \<le> max_int" "carriers \<le> max_int" "pending \<le> max_int"
  shows "traffic_limit streams carriers pending = min (streams * carriers + pending) max_int \<and>
    max_int - pending \<in> {0..max_int} \<and> traffic_limit streams carriers pending \<in> {1..max_int}"
proof -
  have "0 < streams * carriers" using assms by simp
  then have "0 < streams * carriers + pending" using assms(3) by (rule add_pos_pos)
  with traffic_limit_exact [OF assms] assms show ?thesis by (auto simp: max_int_def)
qed

lemma traffic_limit_no_overflow_witness:
  "traffic_limit (2 ^ 40) (2 ^ 40) 64 = max_int \<and> traffic_limit 1024 8 64 = 8256"
  using traffic_limit_no_overflow [of "2 ^ 40" "2 ^ 40" 64] traffic_limit_no_overflow [of 1024 8 64] by (simp add: max_int_def)

end
