(* ===== verification/Open_Results.thy ===== *)
theory Open_Results
  imports Session Socks5 Stats
begin

text \<open>
  What a server answers to an OPEN (\<^verbatim>\<open>internal/serverrole/tcp.go\<close> and \<^verbatim>\<open>open_result_default.go\<close>):
  the choice of a result for an error, and the frame that carries it. An error is what
  \<^verbatim>\<open>errors.Is\<close> and \<^verbatim>\<open>errors.As\<close> tell of it; the platform's numbers for the refused and the unreachable
  errors are parameters of the system (both versions of the file read the same).
\<close>

record error_view =
  ev_deadline_exceeded :: bool
  ev_net_timeout :: bool
  ev_dns_not_found :: bool
  ev_refused :: bool
  ev_net_unreachable :: bool
  ev_host_unreachable :: bool

text \<open>An error none of the tests recognises, as those of \<^verbatim>\<open>errors.New\<close> are.\<close>

definition plain_error :: error_view where
  "plain_error = \<lparr>ev_deadline_exceeded = False, ev_net_timeout = False, ev_dns_not_found = False,
     ev_refused = False, ev_net_unreachable = False, ev_host_unreachable = False\<rparr>"

definition platform_open_result :: "error_view \<Rightarrow> byte" where
  "platform_open_result e =
     (if ev_refused e then OpenResultConnectionRefused
      else if ev_net_unreachable e then OpenResultNetworkUnreachable
      else if ev_host_unreachable e then OpenResultHostUnreachable
      else OpenResultGeneralFailure)"

definition open_result_for_error :: "error_view \<Rightarrow> byte" where
  "open_result_for_error e =
     (let platform_result = platform_open_result e in
      if ev_deadline_exceeded e \<or> ev_net_timeout e then OpenResultTimeout
      else if ev_dns_not_found e then OpenResultHostUnreachable
      else if platform_result \<noteq> OpenResultGeneralFailure then platform_result
      else OpenResultGeneralFailure)"

definition open_result_reply :: "byte list \<Rightarrow> byte \<Rightarrow> frame" where
  "open_result_reply stream_id result =
     \<lparr>f_type = FrameOpenResult, f_direction = DirectionServerToClient, f_stream = stream_id, f_offset = 0, f_payload = [result]\<rparr>"

text \<open>
  \<open>writeOpenResult\<close>: the errors of the deadlines are ignored, those of the frame are the result. \<open>None\<close>
  is a panic in \<open>WriteFrame\<close>.
\<close>

definition write_open_result ::
    "(nat \<Rightarrow> byte list) \<Rightarrow> byte list \<Rightarrow> byte \<Rightarrow> traffic \<Rightarrow> conn \<Rightarrow> (bool \<times> traffic \<times> conn) option" where
  "write_open_result pool stream_id result tr c =
     (let f = open_result_reply stream_id result; size = int (HeaderSize + length (f_payload f)) in
      case write_frame pool conn_write (snd (conn_set_write_deadline c)) f of
        None \<Rightarrow> None
      | Some (Some e, c1) \<Rightarrow> Some (False, tr\<lparr>tf_control := record_drop size (tf_control tr)\<rparr>, c1)
      | Some (None, c1) \<Rightarrow>
          Some (True, tr\<lparr>tf_control := record_tx size (tf_control tr)\<rparr>, snd (conn_set_write_deadline c1)))"

section \<open>Lemmas\<close>

lemma open_result_known: "open_result_for_error e \<noteq> OpenResultSuccess \<and> open_result_for_error e \<le> OpenResultPolicyDenied"
  by (simp add: open_result_for_error_def platform_open_result_def open_results Let_def)

lemma open_result_reply_ok:
  assumes "length stream_id = 16" "stream_id \<noteq> zero_stream" "result \<le> OpenResultPolicyDenied"
  shows "frame_typed (open_result_reply stream_id result)" "validate_frame (open_result_reply stream_id result) = None"
    "frame_ok m (open_result_reply stream_id result)"
proof -
  show typed: "frame_typed (open_result_reply stream_id result)" using assms by (simp add: frame_typed_def open_result_reply_def)
  show valid: "validate_frame (open_result_reply stream_id result) = None"
    using assms by (simp add: open_result_reply_def validate_frame_def frame_types MaxPayloadSize_def
        DirectionServerToClient_def DirectionClientToServer_def not_less)
  have "1 \<le> unat (clamp_payload m)"
    by (auto simp: clamp_payload_def MaxPayloadSize_def unat_eq_0 word_less_nat_alt Suc_le_eq unat_gt_0)
  with typed valid show "frame_ok m (open_result_reply stream_id result)" by (simp add: frame_ok_def open_result_reply_def)
qed

lemma write_open_result_written:
  assumes "pool_ok pool" "length stream_id = 16" "stream_id \<noteq> zero_stream" "result \<le> OpenResultPolicyDenied"
    and "write_open_result pool stream_id result tr c = Some (True, tr', c')"
  shows "c_out c' = c_out c @ marshal_frame (open_result_reply stream_id result)"
proof -
  note f = open_result_reply_ok [OF assms(2-4)]
  obtain e0 c0 where c0: "conn_set_write_deadline c = (e0, c0)" by (cases "conn_set_write_deadline c")
  with assms(5) f write_frame_spec [OF f(1) assms(1), of conn_write c0] obtain c1
    where "write_full conn_write c0 (marshal_frame (open_result_reply stream_id result)) = (None, c1)" "c' = snd (conn_set_write_deadline c1)"
    by (auto simp: write_open_result_def Let_def split: option.splits prod.splits)
  with net.write_full_ok c_out_set_write_deadline [OF c0] show ?thesis
    by (metis c_out_set_write_deadline prod.collapse)
qed

section \<open>Properties\<close>

lemma write_full_clean: "c_writes c = [] \<Longrightarrow> write_full conn_write c p = (None, c\<lparr>c_out := c_out c @ p\<rparr>)"
  by (cases "p = []") (simp_all add: write_full.simps [of conn_write _ p] conn_write_def)

text \<open>A destination's OPEN frame is always valid.\<close>

lemma open_frame_valid:
  assumes "dest_ok dest" "\<not> claimed dest" "encode_destination dest = Inr payload" "length stream_id = 16" "stream_id \<noteq> zero_stream"
  defines "f \<equiv> \<lparr>f_type = FrameOpen, f_direction = DirectionClientToServer, f_stream = stream_id, f_offset = 0, f_payload = payload\<rparr>"
  shows "frame_typed f" "validate_frame f = None"
  using assms(4,5) encode_destination_length [OF assms(1,3)] decode_encode_host [OF assms(1,3)] dest_ok_reconstruct [OF assms(1,2)]
  by (simp_all add: f_def frame_typed_def validate_frame_def MaxPayloadSize_def frame_types)

text \<open>
  Why a destination could not be reached arrives at the SOCKS client: whatever the dial error on the
  server, the result frame it writes is read by \<open>OpenDestination\<close> as a refusal that keeps the session,
  and the SOCKS reply the client sends is the one for that error; the server counts the frame once.
\<close>

theorem refusal_reported:
  assumes "pool_ok pool" "length stream_id = 16" "stream_id \<noteq> zero_stream" "dest_ok dest" "\<not> claimed dest"
    and "write_open_result pool stream_id (open_result_for_error e) tr c = Some (True, tr', c')" "c_out c = []"
  shows "\<exists>r. open_destination pool session stream_id dest timeout
        \<lparr>opened = Inr (duplex_of (c_out c') rnd out), ticks_first = False\<rparr> = Some (Inl (OpenError r), CloseStream) \<and>
      reply_for_error (OpenError r) =
        (if ev_deadline_exceeded e \<or> ev_net_timeout e then ReplyTTLExpired
         else if ev_dns_not_found e then ReplyHostUnreachable
         else if ev_refused e then ReplyConnectionRefused
         else if ev_net_unreachable e then ReplyNetworkUnreachable
         else if ev_host_unreachable e then ReplyHostUnreachable
         else ReplyGeneralFailure) \<and>
      tr' = tr\<lparr>tf_control := record_tx 33 (tf_control tr)\<rparr>"
proof -
  let ?r = "open_result_for_error e"
  have r: "?r \<noteq> OpenResultSuccess" "?r \<le> OpenResultPolicyDenied" using open_result_known by blast+
  obtain payload where enc: "encode_destination dest = Inr payload" using encode_forms [OF assms(4)] by blast
  note open_ok = open_frame_valid [OF assms(4,5) enc assms(2,3)]
  note send = send_frame_of [OF assms(1) open_ok]
  have out: "c_out c' = marshal_frame (open_result_reply stream_id ?r)"
    using write_open_result_written [OF assms(1-3) r(2) assms(6)] assms(7) by simp
  from read_frame_bytes [OF open_result_reply_ok(3) [OF assms(2,3) r(2)], of _ "[]" EOF]
  have "read_frame m (dx_in (duplex_of (c_out c') rnd out')) = Inr (open_result_reply stream_id ?r, \<lparr>rd_bytes = [], rd_err = EOF\<rparr>)" for m out'
    by (simp add: duplex_of_def out)
  then have "open_destination pool session stream_id dest timeout
      \<lparr>opened = Inr (duplex_of (c_out c') rnd out), ticks_first = False\<rparr> = Some (Inl (OpenError ?r), CloseStream)"
    using r(1) by (simp add: open_destination_def enc open_stream_def send) (simp add: open_result_reply_def)
  moreover have "reply_for_error (OpenError ?r) =
        (if ev_deadline_exceeded e \<or> ev_net_timeout e then ReplyTTLExpired
         else if ev_dns_not_found e then ReplyHostUnreachable
         else if ev_refused e then ReplyConnectionRefused
         else if ev_net_unreachable e then ReplyNetworkUnreachable
         else if ev_host_unreachable e then ReplyHostUnreachable
         else ReplyGeneralFailure)"
    by (simp add: reply_for_error_def open_result_for_error_def platform_open_result_def open_results Let_def)
  moreover have "tr' = tr\<lparr>tf_control := record_tx 33 (tf_control tr)\<rparr>"
    using assms(6) by (auto simp: write_open_result_def Let_def open_result_reply_def HeaderSize_def split: option.splits prod.splits)
  ultimately show ?thesis by blast
qed

lemma refusal_reported_witness:
  "\<exists>tr' c' r. write_open_result sample_pool (replicate 16 7) (open_result_for_error (plain_error\<lparr>ev_refused := True\<rparr>)) zero_traffic
        \<lparr>c_writes = [], c_deadlines = [], c_out = []\<rparr> = Some (True, tr', c') \<and>
     open_destination sample_pool \<lparr>ss_mux = (), ss_max_payload = 0\<rparr> (replicate 16 7) sample_dest 5
        \<lparr>opened = Inr (duplex_of (c_out c') [] []), ticks_first = False\<rparr> = Some (Inl (OpenError r), CloseStream) \<and>
     reply_for_error (OpenError r) = ReplyConnectionRefused"
proof -
  let ?e = "plain_error\<lparr>ev_refused := True\<rparr>" and ?sid = "replicate 16 7 :: byte list" and ?c = "\<lparr>c_writes = [], c_deadlines = [], c_out = []\<rparr>"
  have sid: "length ?sid = 16" "?sid \<noteq> zero_stream" by (simp_all add: zero_stream_def)
  have "parse_addr ''ab.c'' = None" by code_simp
  then have d: "dest_ok sample_dest" "\<not> claimed sample_dest"
    using new_destination_dest_ok [OF sample_destination] by (simp_all add: claimed_def)
  note f = open_result_reply_ok [OF sid conjunct2 [OF open_result_known [of ?e]]]
  have "write_frame sample_pool conn_write ?c (open_result_reply ?sid (open_result_for_error ?e)) =
      Some (None, ?c\<lparr>c_out := marshal_frame (open_result_reply ?sid (open_result_for_error ?e))\<rparr>)"
    using write_frame_spec [OF f(1) sample_frame_ok(3), of conn_write ?c] f(2) by (simp add: write_full_clean)
  then obtain tr' c' where w: "write_open_result sample_pool ?sid (open_result_for_error ?e) zero_traffic ?c = Some (True, tr', c')"
    by (simp add: write_open_result_def Let_def conn_set_write_deadline_def)
  with refusal_reported [OF sample_frame_ok(3) sid d w] show ?thesis by (simp add: plain_error_def) blast
qed

end
