(* ===== verification/Server_Streams.thy ===== *)
theory Server_Streams
  imports Limits Closed_Streams Open_Results
begin

text \<open>
  The streams of a server (\<^verbatim>\<open>internal/serverrole/tcp.go\<close>): every stream of a session is a goroutine in
  \<open>acceptStream\<close>, which reads the OPEN frame, finds or creates the stream of that identifier
  (\<open>getOrCreate\<close>, which dials the destination once), answers, and attaches itself as a carrier. A
  timer gives up a stream nobody attached to, a watcher removes a stream whose flow is over, and
  \<open>shutdown\<close> ends everything.

  The runtime is shared under \<^verbatim>\<open>runtime.mu\<close>, the fields of a stream under its \<^verbatim>\<open>attachMu\<close>; a critical
  section is one function, and \<open>server_step\<close> interleaves the goroutines. Pointers are numbers: a
  \<open>tcpServerStream\<close> is an index of \<open>rt_store\<close>, and the connection of a carrier takes its number from the
  same counter.
\<close>

section \<open>State\<close>

text \<open>What an OPEN asks for, and for whom: the principal is that of the session.\<close>

record request =
  op_stream :: stream_id
  op_destination :: string
  op_principal :: "byte list"

datatype watcher = Unwatched | Watching | TimerStopped | WatcherGone

record server_stream =
  sm_ready :: bool
  sm_version :: byte
  sm_destination :: string
  sm_principal :: "byte list"
  sm_flow :: "flow option"
  sm_timer :: bool
  sm_started :: bool
  sm_err :: "error_view option"
  sm_done :: bool
  sm_attach_mu :: "nat option"
  sm_watcher :: watcher

text \<open>
  Where a goroutine of \<open>acceptStream\<close> is: before the frame, before \<open>getOrCreate\<close>, in the dial, before a
  stream that another goroutine dials, before the lock, or at a statement under \<^verbatim>\<open>attachMu\<close>.
\<close>

datatype attach_stage = CheckClosing | CheckDone | CheckCarriers | Answering | Attaching | Starting

datatype stream_pc =
    ReadingOpen | Looking request | Dialing request nat | Waiting request nat | Locking request nat
  | InAttach request nat attach_stage

text \<open>
  \<open>rt_requests\<close> (what each connection asked for), \<open>rt_dials\<close> (the streams a dial was started for) and
  \<open>rt_ids\<close> (the identifier a stream was created for) are history: no function reads them.
\<close>

record runtime =
  rt_closing :: bool
  rt_ctx :: "error_view option"
  rt_streams :: "(stream_id \<times> nat) list"
  rt_store :: "nat \<Rightarrow> server_stream"
  rt_next :: nat
  rt_closed :: closed_cache
  rt_pending_streams :: int
  rt_handlers :: "nat \<Rightarrow> stream_pc option"
  rt_now :: int
  rt_requests :: "nat \<Rightarrow> request option"
  rt_dials :: "nat list"
  rt_ids :: "nat \<Rightarrow> stream_id"

definition new_stream :: "request \<Rightarrow> server_stream" where
  "new_stream r = \<lparr>sm_ready = False, sm_version = Version, sm_destination = op_destination r, sm_principal = op_principal r,
     sm_flow = None, sm_timer = False, sm_started = False, sm_err = None, sm_done = False, sm_attach_mu = None,
     sm_watcher = Unwatched\<rparr>"

definition new_runtime :: runtime where
  "new_runtime = \<lparr>rt_closing = False, rt_ctx = None, rt_streams = [],
     rt_store = (\<lambda>_. new_stream \<lparr>op_stream = [], op_destination = [], op_principal = []\<rparr>), rt_next = 0, rt_closed = empty_closed,
     rt_pending_streams = 0, rt_handlers = (\<lambda>_. None), rt_now = 0, rt_requests = (\<lambda>_. None), rt_dials = [], rt_ids = (\<lambda>_. [])\<rparr>"

definition on_stream :: "nat \<Rightarrow> (server_stream \<Rightarrow> server_stream) \<Rightarrow> runtime \<Rightarrow> runtime" where
  "on_stream p f rt = rt\<lparr>rt_store := (rt_store rt)(p := f (rt_store rt p))\<rparr>"

definition goto :: "nat \<Rightarrow> stream_pc \<Rightarrow> runtime \<Rightarrow> runtime" where
  "goto h pc rt = rt\<lparr>rt_handlers := (rt_handlers rt)(h \<mapsto> pc)\<rparr>"

section \<open>Operations\<close>

definition is_closing :: "runtime \<Rightarrow> bool" where
  "is_closing rt \<longleftrightarrow> rt_closing rt \<or> rt_ctx rt \<noteq> None"

definition context_error :: "runtime \<Rightarrow> error_view" where
  "context_error rt = (case rt_ctx rt of Some e \<Rightarrow> e | None \<Rightarrow> plain_error)"

text \<open>
  \<open>startSessionStream\<close>: whether the session goes on, and the runtime, with a goroutine for the stream
  when it was accepted. The deferred part of the goroutine is \<open>end_stream\<close>.
\<close>

definition start_session_stream :: "int \<Rightarrow> runtime \<Rightarrow> bool \<times> runtime" where
  "start_session_stream max_pending_streams rt =
     (if is_closing rt then (False, rt)
      else if max_pending_streams > 0 \<and> rt_pending_streams rt \<ge> max_pending_streams then (True, rt)
      else (True, rt\<lparr>rt_pending_streams := rt_pending_streams rt + 1, rt_next := rt_next rt + 1,
              rt_handlers := (rt_handlers rt)(rt_next rt \<mapsto> ReadingOpen)\<rparr>))"

definition end_stream :: "nat \<Rightarrow> runtime \<Rightarrow> runtime" where
  "end_stream h rt = rt\<lparr>rt_handlers := (rt_handlers rt)(h := None), rt_pending_streams := rt_pending_streams rt - 1\<rparr>"

definition destination_for_open :: "frame \<Rightarrow> go_error + string" where
  "destination_for_open f =
     (case decode_destination (f_payload f) of Inl e \<Rightarrow> Inl e | Inr d \<Rightarrow> Inr (destination_string d))"

text \<open>The first critical section of \<open>getOrCreate\<close>; \<open>Created\<close> is a new stream that the caller dials.\<close>

datatype lookup = Refused error_view | Found nat | Created nat

definition get_or_create :: "tcp_transfer \<Rightarrow> request \<Rightarrow> int \<Rightarrow> runtime \<Rightarrow> lookup \<times> runtime" where
  "get_or_create cfg r now rt =
     (if is_closing rt then (Refused (context_error rt), rt)
      else case refuse_closed (op_stream r) now (rt_closed rt) of
        (True, closed) \<Rightarrow> (Refused plain_error, rt)
      | (False, closed) \<Rightarrow>
          let rt = rt\<lparr>rt_closed := closed\<rparr> in
          (case map_of (rt_streams rt) (op_stream r) of
             Some p \<Rightarrow>
               let s = rt_store rt p in
               if sm_version s \<noteq> Version \<or> sm_destination s \<noteq> op_destination r \<or> sm_principal s \<noteq> op_principal r
               then (Refused plain_error, rt) else (Found p, rt)
           | None \<Rightarrow>
               if tt_max_streams cfg > 0 \<and> int (length (rt_streams rt)) \<ge> tt_max_streams cfg then (Refused plain_error, rt)
               else let p = rt_next rt
                    in (Created p, rt\<lparr>rt_streams := AList.update (op_stream r) p (rt_streams rt),
                          rt_store := (rt_store rt)(p := new_stream r), rt_next := p + 1\<rparr>)))"

text \<open>The second one, after the dial failed or succeeded. The result of the latter is an error, if any.\<close>

definition dial_failed :: "tcp_transfer \<Rightarrow> request \<Rightarrow> nat \<Rightarrow> error_view \<Rightarrow> int \<Rightarrow> runtime \<Rightarrow> runtime option" where
  "dial_failed cfg r p e now rt =
     (let rt = on_stream p (\<lambda>s. s\<lparr>sm_err := Some e\<rparr>) (rt\<lparr>rt_streams := AList.delete (op_stream r) (rt_streams rt)\<rparr>)
      in map_option (on_stream p (\<lambda>s. s\<lparr>sm_ready := True\<rparr>))
          (if \<not> is_closing rt
           then map_option (\<lambda>c. rt\<lparr>rt_closed := c\<rparr>) (remember_closed (tt_max_streams cfg) (op_stream r) now (rt_closed rt))
           else Some rt))"

definition dial_succeeded :: "tcp_transfer \<Rightarrow> request \<Rightarrow> nat \<Rightarrow> runtime \<Rightarrow> error_view option \<times> runtime" where
  "dial_succeeded cfg r p rt =
     (if is_closing rt
      then (Some (context_error rt),
            on_stream p (\<lambda>s. s\<lparr>sm_err := Some (context_error rt), sm_ready := True\<rparr>)
              (rt\<lparr>rt_streams := AList.delete (op_stream r) (rt_streams rt)\<rparr>))
      else (None, on_stream p (\<lambda>s. s\<lparr>sm_flow := Some (new_flow (op_stream r) DirectionServerToClient (flow_config_of cfg)),
              sm_timer := (if duration_of_millis (tt_open_timeout_millis cfg) > 0 then True else sm_timer s),
              sm_ready := True, sm_watcher := Watching\<rparr>) rt))"

text \<open>
  A statement of \<open>acceptStream\<close> under \<^verbatim>\<open>attachMu\<close>: the next one (none: it returns), the result written to
  the connection, if any, and the runtime. \<open>ok\<close> is whether the write of the result succeeds.
\<close>

definition start_or_reset :: "flow \<Rightarrow> flow" where
  "start_or_reset fl =
     (case start_flow fl of (no_carriers, fl1) \<Rightarrow> if no_carriers then snd (claim_reset fl1 (Some ErrNoCarriers) True) else fl1)"

fun attach_at :: "tcp_transfer \<Rightarrow> u32 \<Rightarrow> bool \<Rightarrow> nat \<Rightarrow> nat \<Rightarrow> attach_stage \<Rightarrow> runtime \<Rightarrow>
    attach_stage option \<times> byte option \<times> runtime" where
  "attach_at cfg max_payload ok h p CheckClosing rt =
     (if is_closing rt then (None, Some OpenResultGeneralFailure, rt) else (Some CheckDone, None, rt))"
| "attach_at cfg max_payload ok h p CheckDone rt =
     (if sm_done (rt_store rt p) then (None, Some OpenResultGeneralFailure, rt) else (Some CheckCarriers, None, rt))"
| "attach_at cfg max_payload ok h p CheckCarriers rt =
     (case sm_flow (rt_store rt p) of
        None \<Rightarrow> (None, None, rt)
      | Some fl \<Rightarrow>
          if tt_max_carriers_per_stream cfg > 0 \<and> int (length (fl_carriers fl)) \<ge> tt_max_carriers_per_stream cfg
          then (None, Some OpenResultGeneralFailure, rt) else (Some Answering, None, rt))"
| "attach_at cfg max_payload ok h p Answering rt =
     (if \<not> ok then (None, Some OpenResultSuccess, rt) else (Some Attaching, Some OpenResultSuccess, rt))"
| "attach_at cfg max_payload ok h p Attaching rt =
     (case sm_flow (rt_store rt p) of
        None \<Rightarrow> (None, None, rt)
      | Some fl \<Rightarrow>
          (case attach_limited fl h max_payload (tt_max_carriers_per_stream cfg) of
             Inl e \<Rightarrow> (None, None, rt)
           | Inr (_, _, fl1) \<Rightarrow>
               (Some Starting, None, on_stream p (\<lambda>s. s\<lparr>sm_flow := Some fl1, sm_started := True, sm_timer := False\<rparr>) rt)))"
| "attach_at cfg max_payload ok h p Starting rt =
     (None, None, on_stream p (\<lambda>s. s\<lparr>sm_flow := map_option start_or_reset (sm_flow s)\<rparr>) rt)"

text \<open>\<open>expireUnstartedStream\<close> up to the reset it claims.\<close>

definition expire_unstarted :: "nat \<Rightarrow> runtime \<Rightarrow> runtime" where
  "expire_unstarted p rt =
     (let rt = on_stream p (\<lambda>s. s\<lparr>sm_timer := False\<rparr>) rt; s = rt_store rt p in
      if sm_started s \<or> sm_flow s = None then rt
      else if sm_done s then rt
      else on_stream p (\<lambda>s. s\<lparr>sm_flow := map_option (\<lambda>fl. snd (claim_reset fl (Some ErrOpenTimeout) True)) (sm_flow s)\<rparr>) rt)"

text \<open>The watcher of a flow, after it is done: it stops the timer, then forgets the stream.\<close>

definition forget_stream :: "tcp_transfer \<Rightarrow> stream_id \<Rightarrow> nat \<Rightarrow> int \<Rightarrow> runtime \<Rightarrow> runtime option" where
  "forget_stream cfg sid p now rt =
     (let rt = (if map_of (rt_streams rt) sid = Some p then rt\<lparr>rt_streams := AList.delete sid (rt_streams rt)\<rparr> else rt)
      in if \<not> is_closing rt
         then map_option (\<lambda>c. rt\<lparr>rt_closed := c\<rparr>) (remember_closed (tt_max_streams cfg) sid now (rt_closed rt))
         else Some rt)"

text \<open>The end of \<open>shutdown\<close>, when every goroutine has returned.\<close>

definition clear_runtime :: "runtime \<Rightarrow> runtime" where
  "clear_runtime rt = rt\<lparr>rt_streams := [], rt_closed := empty_closed, rt_pending_streams := 0\<rparr>"

section \<open>The goroutines together\<close>

text \<open>
  What happens to a flow without the runtime: its carriers leave, it may close, its name stays. Every
  operation of \<open>Flow\<close> but attaching does just that.
\<close>

definition flow_moves :: "flow \<Rightarrow> flow \<Rightarrow> bool" where
  "flow_moves fl fl' \<longleftrightarrow> fl_id fl' = fl_id fl \<and> set (fl_carriers fl') \<subseteq> set (fl_carriers fl) \<and>
     length (fl_carriers fl') \<le> length (fl_carriers fl) \<and> (fl_closed fl \<longrightarrow> fl_closed fl')"

text \<open>
  One step of one goroutine. \<open>now\<close> is a reading of the clock, which does not run backwards. The timer
  of a stream may fire as long as it exists, also when \<^verbatim>\<open>Stop\<close> comes too late.
\<close>

inductive server_step :: "tcp_transfer \<Rightarrow> runtime \<Rightarrow> runtime \<Rightarrow> bool" for cfg where
  Accept: "start_session_stream (tt_max_pending_streams cfg) rt = (b, rt') \<Longrightarrow> server_step cfg rt rt'"
| NoOpen: "rt_handlers rt h = Some ReadingOpen \<Longrightarrow> server_step cfg rt (end_stream h rt)"
| Open: "rt_handlers rt h = Some ReadingOpen \<Longrightarrow> read_frame max_payload conn = Inr (f, conn') \<Longrightarrow> f_type f = FrameOpen \<Longrightarrow>
    destination_for_open f = Inr destination \<Longrightarrow>
    r = \<lparr>op_stream = f_stream f, op_destination = destination, op_principal = user\<rparr> \<Longrightarrow>
    server_step cfg rt (goto h (Looking r) (rt\<lparr>rt_requests := (rt_requests rt)(h \<mapsto> r)\<rparr>))"
| LookRefused: "rt_handlers rt h = Some (Looking r) \<Longrightarrow> rt_now rt \<le> now \<Longrightarrow>
    get_or_create cfg r now (rt\<lparr>rt_now := now\<rparr>) = (Refused e, rt') \<Longrightarrow> server_step cfg rt (end_stream h rt')"
| LookFound: "rt_handlers rt h = Some (Looking r) \<Longrightarrow> rt_now rt \<le> now \<Longrightarrow>
    get_or_create cfg r now (rt\<lparr>rt_now := now\<rparr>) = (Found p, rt') \<Longrightarrow> server_step cfg rt (goto h (Waiting r p) rt')"
| LookCreated: "rt_handlers rt h = Some (Looking r) \<Longrightarrow> rt_now rt \<le> now \<Longrightarrow>
    get_or_create cfg r now (rt\<lparr>rt_now := now\<rparr>) = (Created p, rt') \<Longrightarrow>
    server_step cfg rt (goto h (Dialing r p) (rt'\<lparr>rt_dials := p # rt_dials rt', rt_ids := (rt_ids rt')(p := op_stream r)\<rparr>))"
| WaitReady: "rt_handlers rt h = Some (Waiting r p) \<Longrightarrow> sm_ready (rt_store rt p) \<Longrightarrow>
    server_step cfg rt (if sm_err (rt_store rt p) = None then goto h (Locking r p) rt else end_stream h rt)"
| WaitCancelled: "rt_handlers rt h = Some (Waiting r p) \<Longrightarrow> rt_ctx rt \<noteq> None \<Longrightarrow> server_step cfg rt (end_stream h rt)"
| DialFailed: "rt_handlers rt h = Some (Dialing r p) \<Longrightarrow> rt_now rt \<le> now \<Longrightarrow>
    dial_failed cfg r p e now (rt\<lparr>rt_now := now\<rparr>) = Some rt' \<Longrightarrow> server_step cfg rt (end_stream h rt')"
| DialRefused: "rt_handlers rt h = Some (Dialing r p) \<Longrightarrow> dial_succeeded cfg r p rt = (Some e, rt') \<Longrightarrow>
    server_step cfg rt (end_stream h rt')"
| DialDone: "rt_handlers rt h = Some (Dialing r p) \<Longrightarrow> dial_succeeded cfg r p rt = (None, rt') \<Longrightarrow>
    server_step cfg rt (goto h (Locking r p) rt')"
| Lock: "rt_handlers rt h = Some (Locking r p) \<Longrightarrow> sm_attach_mu (rt_store rt p) = None \<Longrightarrow>
    server_step cfg rt (goto h (InAttach r p CheckClosing) (on_stream p (\<lambda>s. s\<lparr>sm_attach_mu := Some h\<rparr>) rt))"
| Attach: "rt_handlers rt h = Some (InAttach r p stage) \<Longrightarrow> attach_at cfg max_payload ok h p stage rt = (Some stage', a, rt') \<Longrightarrow>
    server_step cfg rt (goto h (InAttach r p stage') rt')"
| Unlock: "rt_handlers rt h = Some (InAttach r p stage) \<Longrightarrow> attach_at cfg max_payload ok h p stage rt = (None, a, rt') \<Longrightarrow>
    server_step cfg rt (end_stream h (on_stream p (\<lambda>s. s\<lparr>sm_attach_mu := None\<rparr>) rt'))"
| Expire: "sm_attach_mu (rt_store rt p) = None \<Longrightarrow> sm_flow (rt_store rt p) \<noteq> None \<Longrightarrow>
    duration_of_millis (tt_open_timeout_millis cfg) > 0 \<Longrightarrow> server_step cfg rt (expire_unstarted p rt)"
| FlowMoves: "sm_flow (rt_store rt p) = Some fl \<Longrightarrow> flow_moves fl fl' \<Longrightarrow>
    server_step cfg rt (on_stream p (\<lambda>s. s\<lparr>sm_flow := Some fl'\<rparr>) rt)"
| FlowDone: "sm_flow (rt_store rt p) = Some fl \<Longrightarrow> fl_closed fl \<Longrightarrow>
    server_step cfg rt (on_stream p (\<lambda>s. s\<lparr>sm_flow := Some (snd (finish_reset fl)), sm_done := True\<rparr>) rt)"
| WatchTimer: "sm_watcher (rt_store rt p) = Watching \<Longrightarrow> sm_done (rt_store rt p) \<Longrightarrow> sm_attach_mu (rt_store rt p) = None \<Longrightarrow>
    server_step cfg rt (on_stream p (\<lambda>s. s\<lparr>sm_timer := False, sm_watcher := TimerStopped\<rparr>) rt)"
| WatchForget: "sm_watcher (rt_store rt p) = TimerStopped \<Longrightarrow> sm_flow (rt_store rt p) = Some fl \<Longrightarrow> rt_now rt \<le> now \<Longrightarrow>
    forget_stream cfg (fl_id fl) p now (rt\<lparr>rt_now := now\<rparr>) = Some rt' \<Longrightarrow>
    server_step cfg rt (on_stream p (\<lambda>s. s\<lparr>sm_watcher := WatcherGone\<rparr>) rt')"
| PruneClosed: "rt_now rt \<le> now \<Longrightarrow> server_step cfg rt (rt\<lparr>rt_now := now, rt_closed := prune_closed now (rt_closed rt)\<rparr>)"
| Cancel: "rt_ctx rt = None \<Longrightarrow> server_step cfg rt (rt\<lparr>rt_ctx := Some e\<rparr>)"
| Shutdown: "server_step cfg rt (rt\<lparr>rt_closing := True\<rparr>)"
| ShutdownEnd: "rt_closing rt \<Longrightarrow> rt_handlers rt = (\<lambda>_. None) \<Longrightarrow> (\<forall>p. sm_watcher (rt_store rt p) \<in> {Unwatched, WatcherGone}) \<Longrightarrow>
    server_step cfg rt (clear_runtime rt)"

inductive server_reachable :: "tcp_transfer \<Rightarrow> runtime \<Rightarrow> bool" for cfg where
  "server_reachable cfg new_runtime"
| "server_reachable cfg rt \<Longrightarrow> server_step cfg rt rt' \<Longrightarrow> server_reachable cfg rt'"

section \<open>Basic facts\<close>

lemma goto_simps [simp]:
  "rt_closing (goto h pc rt) = rt_closing rt" "rt_ctx (goto h pc rt) = rt_ctx rt" "rt_streams (goto h pc rt) = rt_streams rt"
  "rt_store (goto h pc rt) = rt_store rt" "rt_next (goto h pc rt) = rt_next rt" "rt_closed (goto h pc rt) = rt_closed rt"
  "rt_pending_streams (goto h pc rt) = rt_pending_streams rt" "rt_handlers (goto h pc rt) = (rt_handlers rt)(h \<mapsto> pc)"
  "rt_now (goto h pc rt) = rt_now rt" "rt_requests (goto h pc rt) = rt_requests rt" "rt_dials (goto h pc rt) = rt_dials rt"
  "rt_ids (goto h pc rt) = rt_ids rt"
  by (simp_all add: goto_def)

lemma on_stream_simps [simp]:
  "rt_closing (on_stream p f rt) = rt_closing rt" "rt_ctx (on_stream p f rt) = rt_ctx rt" "rt_streams (on_stream p f rt) = rt_streams rt"
  "rt_store (on_stream p f rt) = (rt_store rt)(p := f (rt_store rt p))" "rt_next (on_stream p f rt) = rt_next rt"
  "rt_closed (on_stream p f rt) = rt_closed rt" "rt_pending_streams (on_stream p f rt) = rt_pending_streams rt"
  "rt_handlers (on_stream p f rt) = rt_handlers rt" "rt_now (on_stream p f rt) = rt_now rt"
  "rt_requests (on_stream p f rt) = rt_requests rt" "rt_dials (on_stream p f rt) = rt_dials rt" "rt_ids (on_stream p f rt) = rt_ids rt"
  by (simp_all add: on_stream_def)

lemma end_stream_simps [simp]:
  "rt_closing (end_stream h rt) = rt_closing rt" "rt_ctx (end_stream h rt) = rt_ctx rt" "rt_streams (end_stream h rt) = rt_streams rt"
  "rt_store (end_stream h rt) = rt_store rt" "rt_next (end_stream h rt) = rt_next rt" "rt_closed (end_stream h rt) = rt_closed rt"
  "rt_pending_streams (end_stream h rt) = rt_pending_streams rt - 1" "rt_handlers (end_stream h rt) = (rt_handlers rt)(h := None)"
  "rt_now (end_stream h rt) = rt_now rt" "rt_requests (end_stream h rt) = rt_requests rt" "rt_dials (end_stream h rt) = rt_dials rt"
  "rt_ids (end_stream h rt) = rt_ids rt"
  by (simp_all add: end_stream_def)

fun pc_request :: "stream_pc \<Rightarrow> request option" where
  "pc_request ReadingOpen = None" | "pc_request (Looking r) = Some r" | "pc_request (Dialing r p) = Some r"
| "pc_request (Waiting r p) = Some r" | "pc_request (Locking r p) = Some r" | "pc_request (InAttach r p stage) = Some r"

fun pc_stream :: "stream_pc \<Rightarrow> nat option" where
  "pc_stream ReadingOpen = None" | "pc_stream (Looking r) = None" | "pc_stream (Dialing r p) = Some p"
| "pc_stream (Waiting r p) = Some p" | "pc_stream (Locking r p) = Some p" | "pc_stream (InAttach r p stage) = Some p"

text \<open>Each operation in the cases that matter, with the runtime it leaves.\<close>

lemma start_session_stream_cases:
  assumes "start_session_stream m rt = (b, rt')"
  obtains "rt' = rt"
  | "\<not> is_closing rt" "m > 0 \<Longrightarrow> rt_pending_streams rt < m"
    "rt' = rt\<lparr>rt_pending_streams := rt_pending_streams rt + 1, rt_next := rt_next rt + 1,
       rt_handlers := (rt_handlers rt)(rt_next rt \<mapsto> ReadingOpen)\<rparr>"
  using assms by (fastforce simp: start_session_stream_def split: if_splits)

lemma get_or_create_cases:
  assumes "get_or_create cfg r now rt = (out, rt')"
  obtains e where "out = Refused e" "rt' = rt \<or> (\<exists>c. refuse_closed (op_stream r) now (rt_closed rt) = (False, c) \<and> rt' = rt\<lparr>rt_closed := c\<rparr>)"
  | p c where "out = Found p" "\<not> is_closing rt" "refuse_closed (op_stream r) now (rt_closed rt) = (False, c)" "rt' = rt\<lparr>rt_closed := c\<rparr>"
    "map_of (rt_streams rt) (op_stream r) = Some p" "sm_version (rt_store rt p) = Version"
    "sm_destination (rt_store rt p) = op_destination r" "sm_principal (rt_store rt p) = op_principal r"
  | c where "out = Created (rt_next rt)" "\<not> is_closing rt" "refuse_closed (op_stream r) now (rt_closed rt) = (False, c)"
    "map_of (rt_streams rt) (op_stream r) = None" "tt_max_streams cfg > 0 \<Longrightarrow> int (length (rt_streams rt)) < tt_max_streams cfg"
    "rt' = rt\<lparr>rt_closed := c, rt_streams := AList.update (op_stream r) (rt_next rt) (rt_streams rt),
       rt_store := (rt_store rt)(rt_next rt := new_stream r), rt_next := rt_next rt + 1\<rparr>"
proof (cases "is_closing rt")
  case True
  with assms show thesis by (intro that(1) [of "context_error rt"]) (auto simp: get_or_create_def)
next
  case open': False
  obtain b c where rc: "refuse_closed (op_stream r) now (rt_closed rt) = (b, c)" by (cases "refuse_closed (op_stream r) now (rt_closed rt)")
  show thesis
  proof (cases b)
    case True
    with open' rc assms show thesis by (intro that(1) [of plain_error]) (auto simp: get_or_create_def)
  next
    case False
    have rc': "refuse_closed (op_stream r) now (rt_closed rt) = (False, c)" using rc False by simp
    show thesis
    proof (cases "map_of (rt_streams rt) (op_stream r)")
      case None
      show thesis
      proof (cases "tt_max_streams cfg > 0 \<and> int (length (rt_streams rt)) \<ge> tt_max_streams cfg")
        case True
        with open' rc' None assms show thesis by (intro that(1) [of plain_error]) (auto simp: get_or_create_def Let_def)
      next
        case False
        with open' rc' None assms show thesis by (intro that(3)) (auto simp: get_or_create_def Let_def)
      qed
    next
      case (Some p)
      show thesis
      proof (cases "sm_version (rt_store rt p) \<noteq> Version \<or> sm_destination (rt_store rt p) \<noteq> op_destination r \<or> sm_principal (rt_store rt p) \<noteq> op_principal r")
        case True
        with open' rc' Some assms show thesis by (intro that(1) [of plain_error]) (auto simp: get_or_create_def Let_def)
      next
        case False
        with open' rc' Some assms show thesis by (intro that(2)) (auto simp: get_or_create_def Let_def)
      qed
    qed
  qed
qed

lemma dial_failed_cases:
  assumes "dial_failed cfg r p e now rt = Some rt'"
  obtains c where "rt' = on_stream p (\<lambda>s. s\<lparr>sm_err := Some e, sm_ready := True\<rparr>)
      (rt\<lparr>rt_streams := AList.delete (op_stream r) (rt_streams rt), rt_closed := c\<rparr>)"
    "c = rt_closed rt \<and> is_closing rt \<or> \<not> is_closing rt \<and> remember_closed (tt_max_streams cfg) (op_stream r) now (rt_closed rt) = Some c"
proof -
  let ?rt1 = "on_stream p (\<lambda>s. s\<lparr>sm_err := Some e\<rparr>) (rt\<lparr>rt_streams := AList.delete (op_stream r) (rt_streams rt)\<rparr>)"
  have closing: "is_closing ?rt1 = is_closing rt" "rt_closed ?rt1 = rt_closed rt" by (simp_all add: is_closing_def)
  show thesis
  proof (cases "is_closing rt")
    case True
    with assms have "rt' = on_stream p (\<lambda>s. s\<lparr>sm_ready := True\<rparr>) ?rt1"
      unfolding dial_failed_def Let_def closing by simp
    with True show thesis by (intro that [of "rt_closed rt"]) (simp_all add: on_stream_def)
  next
    case False
    with assms obtain c where "remember_closed (tt_max_streams cfg) (op_stream r) now (rt_closed rt) = Some c"
      "rt' = on_stream p (\<lambda>s. s\<lparr>sm_ready := True\<rparr>) (?rt1\<lparr>rt_closed := c\<rparr>)"
      unfolding dial_failed_def Let_def closing by auto
    with False show thesis by (intro that [of c]) (simp_all add: on_stream_def)
  qed
qed

lemma forget_stream_cases:
  assumes "forget_stream cfg sid p now rt = Some rt'"
  obtains c where "rt' = rt\<lparr>rt_streams := (if map_of (rt_streams rt) sid = Some p then AList.delete sid (rt_streams rt) else rt_streams rt), rt_closed := c\<rparr>"
    "c = rt_closed rt \<and> is_closing rt \<or> \<not> is_closing rt \<and> remember_closed (tt_max_streams cfg) sid now (rt_closed rt) = Some c"
proof -
  have [simp]: "is_closing (rt\<lparr>rt_streams := x\<rparr>) = is_closing rt" for x by (simp add: is_closing_def)
  from assms that [of "rt_closed rt"] that show thesis
    by (cases "is_closing rt"; cases "map_of (rt_streams rt) sid = Some p") (auto simp: forget_stream_def Let_def)
qed

lemma attach_at_cases:
  assumes "attach_at cfg max_payload ok h p stage rt = (next_stage, a, rt')"
  obtains "rt' = rt" "next_stage \<noteq> Some Starting"
  | fl fl1 x y where "sm_flow (rt_store rt p) = Some fl" "stage = Attaching" "next_stage = Some Starting"
    "attach_limited fl h max_payload (tt_max_carriers_per_stream cfg) = Inr (x, y, fl1)"
    "rt' = on_stream p (\<lambda>s. s\<lparr>sm_flow := Some fl1, sm_started := True, sm_timer := False\<rparr>) rt"
  | "stage = Starting" "next_stage = None" "rt' = on_stream p (\<lambda>s. s\<lparr>sm_flow := map_option start_or_reset (sm_flow s)\<rparr>) rt"
  using assms by (cases stage) (auto split: if_splits option.splits sum.splits prod.splits)

section \<open>What the flow operations do to carriers\<close>

lemma attach_limited_Inr:
  assumes "attach_limited fl h max_payload m = Inr (x, y, fl1)"
  shows "fl_id fl1 = fl_id fl" "fl_carriers fl1 = fl_carriers fl @ [h]" "\<not> fl_closed fl" "\<not> fl_closed fl1"
    "m > 0 \<Longrightarrow> int (length (fl_carriers fl)) < m"
  using assms by (auto simp: attach_limited_def Let_def set_state_def split: if_splits)

lemma flow_moves_refl [simp]: "flow_moves fl fl"
  by (simp add: flow_moves_def)

lemma claim_reset_moves [simp]: "flow_moves fl (snd (claim_reset fl e b))"
  by (simp add: claim_reset_def flow_moves_def)

lemma finish_reset_moves [simp]: "flow_moves fl (snd (finish_reset fl))" "fl_carriers (snd (finish_reset fl)) = []"
  by (simp_all add: finish_reset_def flow_moves_def)

lemma start_or_reset_moves [simp]: "flow_moves fl (start_or_reset fl)"
  by (auto simp: start_or_reset_def start_flow_def claim_reset_def flow_moves_def)

lemma flow_movesD:
  assumes "flow_moves fl fl'"
  shows "fl_id fl' = fl_id fl" "set (fl_carriers fl') \<subseteq> set (fl_carriers fl)" "length (fl_carriers fl') \<le> length (fl_carriers fl)"
    "fl_closed fl \<Longrightarrow> fl_closed fl'" "fl_carriers fl = [] \<Longrightarrow> fl_carriers fl' = []"
  using assms by (auto simp: flow_moves_def)

text \<open>
  The steps that only move a flow, all in one: a flow may change by \<open>flow_moves\<close> and the fields that
  concern the timer, the end and the watcher may change with it.
\<close>

definition store_moves :: "(nat \<Rightarrow> server_stream) \<Rightarrow> (nat \<Rightarrow> server_stream) \<Rightarrow> bool" where
  "store_moves st st' \<longleftrightarrow> (\<forall>p. sm_version (st' p) = sm_version (st p) \<and> sm_destination (st' p) = sm_destination (st p) \<and>
     sm_principal (st' p) = sm_principal (st p) \<and> sm_ready (st' p) = sm_ready (st p) \<and> sm_err (st' p) = sm_err (st p) \<and>
     sm_started (st' p) = sm_started (st p) \<and> (sm_flow (st p) = None \<longrightarrow> sm_flow (st' p) = None) \<and>
     (\<forall>fl. sm_flow (st p) = Some fl \<longrightarrow> (\<exists>fl'. sm_flow (st' p) = Some fl' \<and> flow_moves fl fl')))"

lemma store_moves_refl [simp]: "store_moves st st"
  by (simp add: store_moves_def)

lemma store_moves_update:
  assumes "sm_version s' = sm_version (st p)" "sm_destination s' = sm_destination (st p)" "sm_principal s' = sm_principal (st p)"
    "sm_ready s' = sm_ready (st p)" "sm_err s' = sm_err (st p)" "sm_started s' = sm_started (st p)"
    "case sm_flow (st p) of None \<Rightarrow> sm_flow s' = None | Some fl \<Rightarrow> \<exists>fl'. sm_flow s' = Some fl' \<and> flow_moves fl fl'"
  shows "store_moves st (st(p := s'))"
  using assms by (auto simp: store_moves_def split: option.splits)

lemma store_movesD:
  assumes "store_moves st st'"
  shows "sm_version (st' p) = sm_version (st p)" "sm_destination (st' p) = sm_destination (st p)" "sm_principal (st' p) = sm_principal (st p)"
    "sm_ready (st' p) = sm_ready (st p)" "sm_err (st' p) = sm_err (st p)" "sm_started (st' p) = sm_started (st p)"
    "sm_flow (st p) = None \<Longrightarrow> sm_flow (st' p) = None" "sm_flow (st' p) = None \<longleftrightarrow> sm_flow (st p) = None"
    "sm_flow (st p) = Some fl \<Longrightarrow> \<exists>fl'. sm_flow (st' p) = Some fl' \<and> flow_moves fl fl'"
    "sm_flow (st' p) = Some fl' \<Longrightarrow> \<exists>fl. sm_flow (st p) = Some fl \<and> flow_moves fl fl'"
proof -
  note d = assms [unfolded store_moves_def, rule_format, of p]
  show "sm_version (st' p) = sm_version (st p)" "sm_destination (st' p) = sm_destination (st p)" "sm_principal (st' p) = sm_principal (st p)"
    "sm_ready (st' p) = sm_ready (st p)" "sm_err (st' p) = sm_err (st p)" "sm_started (st' p) = sm_started (st p)"
    "sm_flow (st p) = None \<Longrightarrow> sm_flow (st' p) = None" "sm_flow (st p) = Some fl \<Longrightarrow> \<exists>fl'. sm_flow (st' p) = Some fl' \<and> flow_moves fl fl'"
    using d by auto
  show "sm_flow (st' p) = None \<longleftrightarrow> sm_flow (st p) = None" using d by (cases "sm_flow (st p)") auto
  show "sm_flow (st' p) = Some fl' \<Longrightarrow> \<exists>fl. sm_flow (st p) = Some fl \<and> flow_moves fl fl'" using d by (cases "sm_flow (st p)") auto
qed

text \<open>
  Every step in one of eight forms; \<open>same rt rt'\<close> are the parts that no form changes unless it says so.
\<close>

definition same :: "runtime \<Rightarrow> runtime \<Rightarrow> bool" where
  "same rt rt' \<longleftrightarrow> rt_streams rt' = rt_streams rt \<and> rt_store rt' = rt_store rt \<and> rt_next rt' = rt_next rt \<and>
     rt_handlers rt' = rt_handlers rt \<and> rt_requests rt' = rt_requests rt \<and> rt_dials rt' = rt_dials rt \<and>
     rt_ids rt' = rt_ids rt \<and> rt_pending_streams rt' = rt_pending_streams rt"

lemma expire_unstarted_store:
  "store_moves (rt_store rt) (rt_store (expire_unstarted p rt))" "rt_store (expire_unstarted p rt) = (rt_store rt)(p := rt_store (expire_unstarted p rt) p)"
  "sm_done (rt_store (expire_unstarted p rt) q) = sm_done (rt_store rt q)"
  "sm_attach_mu (rt_store (expire_unstarted p rt) q) = sm_attach_mu (rt_store rt q)"
  "sm_watcher (rt_store (expire_unstarted p rt) q) = sm_watcher (rt_store rt q)"
  by (auto simp: expire_unstarted_def Let_def store_moves_def)

lemma expire_unstarted_fields [simp]:
  "rt_streams (expire_unstarted p rt) = rt_streams rt" "rt_next (expire_unstarted p rt) = rt_next rt"
  "rt_handlers (expire_unstarted p rt) = rt_handlers rt" "rt_requests (expire_unstarted p rt) = rt_requests rt"
  "rt_dials (expire_unstarted p rt) = rt_dials rt" "rt_ids (expire_unstarted p rt) = rt_ids rt" "rt_closed (expire_unstarted p rt) = rt_closed rt"
  "rt_pending_streams (expire_unstarted p rt) = rt_pending_streams rt" "rt_now (expire_unstarted p rt) = rt_now rt"
  "rt_closing (expire_unstarted p rt) = rt_closing rt" "rt_ctx (expire_unstarted p rt) = rt_ctx rt"
  by (simp_all add: expire_unstarted_def Let_def)

section \<open>Pointers and identifiers\<close>

definition ptr_inv :: "runtime \<Rightarrow> bool" where
  "ptr_inv rt \<longleftrightarrow> distinct (map fst (rt_streams rt)) \<and>
     (\<forall>sid p. map_of (rt_streams rt) sid = Some p \<longrightarrow> p < rt_next rt \<and> rt_ids rt p = sid) \<and>
     (\<forall>h pc. rt_handlers rt h = Some pc \<longrightarrow> h < rt_next rt) \<and>
     (\<forall>h pc p. rt_handlers rt h = Some pc \<longrightarrow> pc_stream pc = Some p \<longrightarrow> p < rt_next rt) \<and>
     (\<forall>h pc p r. rt_handlers rt h = Some pc \<longrightarrow> pc_stream pc = Some p \<longrightarrow> pc_request pc = Some r \<longrightarrow> rt_ids rt p = op_stream r) \<and>
     (\<forall>h. rt_next rt \<le> h \<longrightarrow> rt_requests rt h = None \<and> sm_flow (rt_store rt h) = None \<and> sm_watcher (rt_store rt h) = Unwatched \<and>
        sm_attach_mu (rt_store rt h) = None \<and> h \<notin> set (rt_dials rt))"

lemma ptr_invD:
  assumes "ptr_inv rt"
  shows "distinct (map fst (rt_streams rt))" "map_of (rt_streams rt) sid = Some p \<Longrightarrow> p < rt_next rt"
    "map_of (rt_streams rt) sid = Some p \<Longrightarrow> rt_ids rt p = sid" "rt_handlers rt h = Some pc \<Longrightarrow> h < rt_next rt"
    "rt_handlers rt h = Some pc \<Longrightarrow> pc_stream pc = Some p \<Longrightarrow> p < rt_next rt"
    "rt_handlers rt h = Some pc \<Longrightarrow> pc_stream pc = Some p \<Longrightarrow> pc_request pc = Some r \<Longrightarrow> rt_ids rt p = op_stream r"
    "rt_next rt \<le> h \<Longrightarrow> rt_requests rt h = None" "rt_next rt \<le> h \<Longrightarrow> sm_flow (rt_store rt h) = None"
    "rt_next rt \<le> h \<Longrightarrow> sm_watcher (rt_store rt h) = Unwatched" "rt_next rt \<le> h \<Longrightarrow> sm_attach_mu (rt_store rt h) = None"
    "rt_next rt \<le> h \<Longrightarrow> h \<notin> set (rt_dials rt)"
  using assms unfolding ptr_inv_def by blast+

lemma ptr_inv_new: "ptr_inv new_runtime"
  by (simp add: ptr_inv_def new_runtime_def new_stream_def)

lemma map_of_delete_Some: "map_of (AList.delete k xs) j = Some x \<longleftrightarrow> j \<noteq> k \<and> map_of xs j = Some x"
  by (simp add: delete_conv')

lemma map_of_update_Some: "map_of (AList.update k v xs) j = Some x \<longleftrightarrow> (if j = k then x = v else map_of xs j = Some x)"
  by (auto simp: update_conv')

lemma expire_unstarted_other [simp]: "q \<noteq> p \<Longrightarrow> rt_store (expire_unstarted p rt) q = rt_store rt q"
  by (simp add: expire_unstarted_def Let_def)

lemma ptr_invI:
  assumes "distinct (map fst (rt_streams rt))"
    "\<And>sid p. map_of (rt_streams rt) sid = Some p \<Longrightarrow> p < rt_next rt \<and> rt_ids rt p = sid"
    "\<And>h pc. rt_handlers rt h = Some pc \<Longrightarrow> h < rt_next rt"
    "\<And>h pc p. rt_handlers rt h = Some pc \<Longrightarrow> pc_stream pc = Some p \<Longrightarrow> p < rt_next rt"
    "\<And>h pc p r. rt_handlers rt h = Some pc \<Longrightarrow> pc_stream pc = Some p \<Longrightarrow> pc_request pc = Some r \<Longrightarrow> rt_ids rt p = op_stream r"
    "\<And>h. rt_next rt \<le> h \<Longrightarrow> rt_requests rt h = None \<and> sm_flow (rt_store rt h) = None \<and> sm_watcher (rt_store rt h) = Unwatched \<and>
        sm_attach_mu (rt_store rt h) = None \<and> h \<notin> set (rt_dials rt)"
  shows "ptr_inv rt"
  using assms unfolding ptr_inv_def by blast

text \<open>A step that creates nothing: pointers only disappear.\<close>

lemma ptr_inv_shrinks:
  assumes "ptr_inv rt" "rt_next rt' = rt_next rt" "rt_ids rt' = rt_ids rt" "rt_dials rt' = rt_dials rt"
    and "distinct (map fst (rt_streams rt'))" "\<And>sid p. map_of (rt_streams rt') sid = Some p \<Longrightarrow> map_of (rt_streams rt) sid = Some p"
    and "\<And>h pc. rt_handlers rt' h = Some pc \<Longrightarrow> \<exists>pc0. rt_handlers rt h = Some pc0 \<and>
      (\<forall>p. pc_stream pc = Some p \<longrightarrow> (pc_stream pc0 = Some p \<and> pc_request pc = pc_request pc0) \<or>
         (\<exists>r. pc_request pc = Some r \<and> map_of (rt_streams rt) (op_stream r) = Some p))"
    and "\<And>h. rt_requests rt' h \<noteq> rt_requests rt h \<Longrightarrow> rt_handlers rt h \<noteq> None"
    and "\<And>p. rt_next rt \<le> p \<Longrightarrow> sm_flow (rt_store rt' p) = sm_flow (rt_store rt p) \<and> sm_watcher (rt_store rt' p) = sm_watcher (rt_store rt p) \<and>
      sm_attach_mu (rt_store rt' p) = sm_attach_mu (rt_store rt p)"
  shows "ptr_inv rt'"
proof (rule ptr_invI)
  note inv = ptr_invD [OF assms(1)]
  show "distinct (map fst (rt_streams rt'))" by (fact assms)
  show "p < rt_next rt' \<and> rt_ids rt' p = sid" if "map_of (rt_streams rt') sid = Some p" for sid p
    using assms(2,3) inv(2,3) assms(6) [OF that] by auto
  fix h pc assume h: "rt_handlers rt' h = Some pc"
  then obtain pc0 where pc0: "rt_handlers rt h = Some pc0" and alt: "\<And>p. pc_stream pc = Some p \<Longrightarrow> (pc_stream pc0 = Some p \<and> pc_request pc = pc_request pc0) \<or>
         (\<exists>r. pc_request pc = Some r \<and> map_of (rt_streams rt) (op_stream r) = Some p)" using assms(7) by blast
  show "h < rt_next rt'" using inv(4) [OF pc0] assms(2) by simp
  fix p assume p: "pc_stream pc = Some p"
  show "p < rt_next rt'" using alt [OF p] inv(5) [OF pc0] inv(2) assms(2) by auto
  fix r assume "pc_request pc = Some r"
  then show "rt_ids rt' p = op_stream r" using alt [OF p] inv(6) [OF pc0] inv(3) assms(3) by auto
next
  fix h assume "rt_next rt' \<le> h"
  then have h: "rt_next rt \<le> h" using assms(2) by simp
  note inv = ptr_invD [OF assms(1)]
  have "rt_handlers rt h = None" using inv(4) [of h] h by (cases "rt_handlers rt h") auto
  then have "rt_requests rt' h = rt_requests rt h" using assms(8) by blast
  then show "rt_requests rt' h = None \<and> sm_flow (rt_store rt' h) = None \<and> sm_watcher (rt_store rt' h) = Unwatched \<and>
      sm_attach_mu (rt_store rt' h) = None \<and> h \<notin> set (rt_dials rt')"
    using h inv(7-11) assms(4) assms(9) [OF h] by auto
qed

lemma ptr_inv_step:
  assumes "ptr_inv rt" "server_step cfg rt rt'"
  shows "ptr_inv rt'"
  using assms(2)
proof (cases rule: server_step.cases)
  note inv = ptr_invD [OF assms(1)]
  case (Accept b)
  from Accept(1) show ?thesis
  proof (cases rule: start_session_stream_cases)
    case 1
    with assms(1) show ?thesis by simp
  next
    case 2
    show ?thesis
      by (rule ptr_invI) (use 2(3) inv in \<open>auto split: if_splits intro: less_SucI\<close>)
  qed
next
  case (NoOpen h)
  show ?thesis unfolding NoOpen(1) by (rule ptr_inv_shrinks [OF assms(1)]) (use ptr_invD(1) [OF assms(1)] in \<open>auto split: if_splits\<close>)
next
  case (Open h max_payload conn f conn' destination r user)
  show ?thesis unfolding Open(1) by (rule ptr_inv_shrinks [OF assms(1)]) (use ptr_invD(1) [OF assms(1)] Open(2) in \<open>auto split: if_splits\<close>)
next
  case (LookRefused h r now e rt1)
  show ?thesis unfolding LookRefused(1)
    by (rule ptr_inv_shrinks [OF assms(1)]; use LookRefused(4) ptr_invD(1) [OF assms(1)] in \<open>cases rule: get_or_create_cases\<close>) (auto split: if_splits)
next
  case (LookFound h r now p rt1)
  from LookFound(4) obtain c where "rt1 = (rt\<lparr>rt_now := now\<rparr>)\<lparr>rt_closed := c\<rparr>" "map_of (rt_streams rt) (op_stream r) = Some p"
    by (cases rule: get_or_create_cases) auto
  with LookFound(2) show ?thesis unfolding LookFound(1) by (intro ptr_inv_shrinks [OF assms(1)]) (use ptr_invD(1) [OF assms(1)] in \<open>auto split: if_splits\<close>)
next
  case (LookCreated h r now p rt1)
  note inv = ptr_invD [OF assms(1)]
  from LookCreated(4) obtain c where c: "p = rt_next rt" "map_of (rt_streams rt) (op_stream r) = None"
    "rt1 = (rt\<lparr>rt_now := now\<rparr>)\<lparr>rt_closed := c, rt_streams := AList.update (op_stream r) p (rt_streams rt),
       rt_store := (rt_store rt)(p := new_stream r), rt_next := p + 1\<rparr>"
    by (cases rule: get_or_create_cases) auto
  have fresh: "pc_stream pc \<noteq> Some (rt_next rt)" if "rt_handlers rt h' = Some pc" for h' pc
    using inv(5) [OF that, of "rt_next rt"] by auto
  show ?thesis unfolding LookCreated(1)
  proof (rule ptr_invI)
  qed (use c LookCreated(2) inv in \<open>auto simp: map_of_update_Some distinct_update new_stream_def split: if_splits dest: fresh intro: less_SucI\<close>)
next
  case (WaitReady h r p)
  show ?thesis unfolding WaitReady(1) by (rule ptr_inv_shrinks [OF assms(1)]) (use ptr_invD(1) [OF assms(1)] WaitReady(2) in \<open>auto split: if_splits\<close>)
next
  case (WaitCancelled h r p)
  show ?thesis unfolding WaitCancelled(1) by (rule ptr_inv_shrinks [OF assms(1)]) (use ptr_invD(1) [OF assms(1)] in \<open>auto split: if_splits\<close>)
next
  case (DialFailed h r p now e rt1)
  from DialFailed(4) obtain c where "rt1 = on_stream p (\<lambda>s. s\<lparr>sm_err := Some e, sm_ready := True\<rparr>)
      ((rt\<lparr>rt_now := now\<rparr>)\<lparr>rt_streams := AList.delete (op_stream r) (rt_streams rt), rt_closed := c\<rparr>)"
    by (rule dial_failed_cases) simp
  then show ?thesis unfolding DialFailed(1)
    by (intro ptr_inv_shrinks [OF assms(1)]) (use ptr_invD(1) [OF assms(1)] in \<open>auto simp: map_of_delete_Some distinct_delete split: if_splits\<close>)
next
  case (DialRefused h r p e rt1)
  then show ?thesis unfolding DialRefused(1)
    by (intro ptr_inv_shrinks [OF assms(1)]) (use ptr_invD(1) [OF assms(1)] in \<open>auto simp: dial_succeeded_def map_of_delete_Some distinct_delete split: if_splits\<close>)
next
  case (DialDone h r p rt1)
  have "p < rt_next rt" using ptr_invD(5) [OF assms(1) DialDone(2)] by simp
  with DialDone show ?thesis unfolding DialDone(1)
    by (intro ptr_inv_shrinks [OF assms(1)]) (use ptr_invD(1) [OF assms(1)] in \<open>auto simp: dial_succeeded_def split: if_splits\<close>)
next
  case (Lock h r p)
  have "p < rt_next rt" using ptr_invD(5) [OF assms(1) Lock(2)] by simp
  with Lock show ?thesis unfolding Lock(1)
    by (intro ptr_inv_shrinks [OF assms(1)]) (use ptr_invD(1) [OF assms(1)] in \<open>auto split: if_splits\<close>)
next
  case (Attach h r p stage max_payload ok stage' a rt1)
  have "p < rt_next rt" using ptr_invD(5) [OF assms(1) Attach(2)] by simp
  with Attach show ?thesis unfolding Attach(1)
    by (intro ptr_inv_shrinks [OF assms(1)]) (use Attach(3) ptr_invD(1) [OF assms(1)] in \<open>auto elim!: attach_at_cases split: if_splits\<close>)
next
  case (Unlock h r p stage max_payload ok a rt1)
  have "p < rt_next rt" using ptr_invD(5) [OF assms(1) Unlock(2)] by simp
  with Unlock show ?thesis unfolding Unlock(1)
    by (intro ptr_inv_shrinks [OF assms(1)]) (use Unlock(3) ptr_invD(1) [OF assms(1)] in \<open>auto elim!: attach_at_cases split: if_splits\<close>)
next
  case (Expire p)
  have "p < rt_next rt" using ptr_invD(8) [OF assms(1), of p] Expire(3) by (cases "p < rt_next rt") auto
  with Expire show ?thesis unfolding Expire(1)
    by (intro ptr_inv_shrinks [OF assms(1)]) (use ptr_invD(1) [OF assms(1)] in \<open>auto simp: expire_unstarted_store(3-5) split: if_splits\<close>)
next
  case (FlowMoves p fl fl')
  have "p < rt_next rt" using ptr_invD(8) [OF assms(1), of p] FlowMoves(2) by (cases "p < rt_next rt") auto
  with FlowMoves show ?thesis unfolding FlowMoves(1)
    by (intro ptr_inv_shrinks [OF assms(1)]) (use ptr_invD(1) [OF assms(1)] in \<open>auto split: if_splits\<close>)
next
  case (FlowDone p fl)
  have "p < rt_next rt" using ptr_invD(8) [OF assms(1), of p] FlowDone(2) by (cases "p < rt_next rt") auto
  with FlowDone show ?thesis unfolding FlowDone(1)
    by (intro ptr_inv_shrinks [OF assms(1)]) (use ptr_invD(1) [OF assms(1)] in \<open>auto split: if_splits\<close>)
next
  case (WatchTimer p)
  have "p < rt_next rt" using ptr_invD(9) [OF assms(1), of p] WatchTimer(2) by (cases "p < rt_next rt") auto
  with WatchTimer show ?thesis unfolding WatchTimer(1)
    by (intro ptr_inv_shrinks [OF assms(1)]) (use ptr_invD(1) [OF assms(1)] in \<open>auto split: if_splits\<close>)
next
  case (WatchForget p fl now rt1)
  have p: "p < rt_next rt" using ptr_invD(9) [OF assms(1), of p] WatchForget(2) by (cases "p < rt_next rt") auto
  from WatchForget(5) obtain c where "rt1 = (rt\<lparr>rt_now := now\<rparr>)\<lparr>rt_streams := (if map_of (rt_streams rt) (fl_id fl) = Some p
      then AList.delete (fl_id fl) (rt_streams rt) else rt_streams rt), rt_closed := c\<rparr>"
    by (rule forget_stream_cases) (simp cong: if_cong)
  with p show ?thesis unfolding WatchForget(1)
    by (intro ptr_inv_shrinks [OF assms(1)]) (use ptr_invD(1) [OF assms(1)] in \<open>auto simp: map_of_delete_Some distinct_delete simp del: map_of_eq_Some_iff split: if_splits\<close>)
qed (use ptr_invD(1) [OF assms(1)] in \<open>auto intro!: ptr_inv_shrinks [OF assms(1)] simp: clear_runtime_def\<close>)

lemma get_or_create_refused:
  assumes "get_or_create cfg r now rt = (Refused e, rt')"
  obtains c where "rt' = rt\<lparr>rt_closed := c\<rparr>" "c = rt_closed rt \<or> refuse_closed (op_stream r) now (rt_closed rt) = (False, c)"
proof -
  have "rt = rt\<lparr>rt_closed := rt_closed rt\<rparr>" by simp
  with assms that show thesis by (cases rule: get_or_create_cases) (metis lookup.distinct(1,3))+
qed

section \<open>What carriers asked for\<close>

definition matches :: "request \<Rightarrow> server_stream \<Rightarrow> bool" where
  "matches r s \<longleftrightarrow> sm_version s = Version \<and> sm_destination s = op_destination r \<and> sm_principal s = op_principal r"

definition req_inv :: "runtime \<Rightarrow> bool" where
  "req_inv rt \<longleftrightarrow>
     (\<forall>h. rt_handlers rt h = Some ReadingOpen \<longrightarrow> rt_requests rt h = None) \<and>
     (\<forall>h pc r. rt_handlers rt h = Some pc \<longrightarrow> pc_request pc = Some r \<longrightarrow> rt_requests rt h = Some r) \<and>
     (\<forall>h pc r p. rt_handlers rt h = Some pc \<longrightarrow> pc_request pc = Some r \<longrightarrow> pc_stream pc = Some p \<longrightarrow> matches r (rt_store rt p)) \<and>
     (\<forall>p fl. sm_flow (rt_store rt p) = Some fl \<longrightarrow> fl_id fl = rt_ids rt p \<and>
        (\<forall>h \<in> set (fl_carriers fl). \<exists>r. rt_requests rt h = Some r \<and> op_stream r = rt_ids rt p \<and> matches r (rt_store rt p)))"

lemma req_invD:
  assumes "req_inv rt"
  shows "rt_handlers rt h = Some ReadingOpen \<Longrightarrow> rt_requests rt h = None"
    "rt_handlers rt h = Some pc \<Longrightarrow> pc_request pc = Some r \<Longrightarrow> rt_requests rt h = Some r"
    "rt_handlers rt h = Some pc \<Longrightarrow> pc_request pc = Some r \<Longrightarrow> pc_stream pc = Some p \<Longrightarrow> matches r (rt_store rt p)"
    "sm_flow (rt_store rt p) = Some fl \<Longrightarrow> fl_id fl = rt_ids rt p"
    "sm_flow (rt_store rt p) = Some fl \<Longrightarrow> h \<in> set (fl_carriers fl) \<Longrightarrow>
       \<exists>r. rt_requests rt h = Some r \<and> op_stream r = rt_ids rt p \<and> matches r (rt_store rt p)"
  using assms unfolding req_inv_def by blast+

lemma req_invI:
  assumes "\<And>h. rt_handlers rt h = Some ReadingOpen \<Longrightarrow> rt_requests rt h = None"
    "\<And>h pc r. rt_handlers rt h = Some pc \<Longrightarrow> pc_request pc = Some r \<Longrightarrow> rt_requests rt h = Some r"
    "\<And>h pc r p. rt_handlers rt h = Some pc \<Longrightarrow> pc_request pc = Some r \<Longrightarrow> pc_stream pc = Some p \<Longrightarrow> matches r (rt_store rt p)"
    "\<And>p fl. sm_flow (rt_store rt p) = Some fl \<Longrightarrow> fl_id fl = rt_ids rt p"
    "\<And>p fl h. sm_flow (rt_store rt p) = Some fl \<Longrightarrow> h \<in> set (fl_carriers fl) \<Longrightarrow>
       \<exists>r. rt_requests rt h = Some r \<and> op_stream r = rt_ids rt p \<and> matches r (rt_store rt p)"
  shows "req_inv rt"
  using assms unfolding req_inv_def by blast

lemma req_inv_moves:
  assumes "req_inv rt" "store_moves (rt_store rt) (rt_store rt')" "rt_requests rt' = rt_requests rt" "rt_ids rt' = rt_ids rt"
    and "\<And>h pc. rt_handlers rt' h = Some pc \<Longrightarrow> \<exists>pc0. rt_handlers rt h = Some pc0 \<and> pc_request pc = pc_request pc0 \<and>
      (pc = ReadingOpen \<longrightarrow> pc0 = ReadingOpen) \<and>
      (pc_stream pc = pc_stream pc0 \<or> (\<exists>p r. pc_stream pc = Some p \<and> pc_request pc = Some r \<and> matches r (rt_store rt p)))"
  shows "req_inv rt'"
proof (rule req_invI)
  note inv = req_invD [OF assms(1)] and sm = store_movesD [OF assms(2)]
  have same [simp]: "matches r (rt_store rt' p) = matches r (rt_store rt p)" for r p by (simp add: matches_def sm)
  show "rt_requests rt' h = None" if "rt_handlers rt' h = Some ReadingOpen" for h
    using assms(5) [OF that] inv(1) assms(3) by auto
  show "rt_requests rt' h = Some r" if "rt_handlers rt' h = Some pc" "pc_request pc = Some r" for h pc r
    using assms(5) [OF that(1)] that(2) inv(2) assms(3) by metis
  show "matches r (rt_store rt' p)" if "rt_handlers rt' h = Some pc" "pc_request pc = Some r" "pc_stream pc = Some p" for h pc r p
    using assms(5) [OF that(1)] that(2,3) inv(3) by auto
  show "fl_id fl = rt_ids rt' p" if "sm_flow (rt_store rt' p) = Some fl" for p fl
    using sm(10) [OF that] inv(4) assms(4) by (auto dest: flow_movesD(1))
  show "\<exists>r. rt_requests rt' h = Some r \<and> op_stream r = rt_ids rt' p \<and> matches r (rt_store rt' p)"
    if "sm_flow (rt_store rt' p) = Some fl" "h \<in> set (fl_carriers fl)" for p fl h
  proof -
    from sm(10) [OF that(1)] obtain fl0 where "sm_flow (rt_store rt p) = Some fl0" "flow_moves fl0 fl" by blast
    with that(2) inv(5) [of p fl0 h] flow_movesD(2) [of fl0 fl] assms(3,4) show ?thesis by auto
  qed
qed

lemma req_inv_new: "req_inv new_runtime"
  by (simp add: req_inv_def new_runtime_def new_stream_def)

text \<open>The steps that only move flows and goroutines.\<close>

lemma attach_at_moves:
  assumes "attach_at cfg max_payload ok h p stage rt = (next_stage, a, rt')" "next_stage \<noteq> Some Starting"
  shows "store_moves (rt_store rt) (rt_store rt')" "rt_streams rt' = rt_streams rt" "rt_next rt' = rt_next rt"
    "rt_handlers rt' = rt_handlers rt" "rt_requests rt' = rt_requests rt" "rt_ids rt' = rt_ids rt" "rt_dials rt' = rt_dials rt"
    "rt_pending_streams rt' = rt_pending_streams rt" "rt_closed rt' = rt_closed rt" "rt_now rt' = rt_now rt"
    "sm_attach_mu (rt_store rt' q) = sm_attach_mu (rt_store rt q)" "sm_done (rt_store rt' q) = sm_done (rt_store rt q)"
    "sm_watcher (rt_store rt' q) = sm_watcher (rt_store rt q)" "q \<noteq> p \<Longrightarrow> rt_store rt' q = rt_store rt q"
    "rt_closing rt' = rt_closing rt" "rt_ctx rt' = rt_ctx rt"
  using assms(1)
  by (cases rule: attach_at_cases; use assms(2) in \<open>auto intro!: store_moves_update split: option.splits\<close>)+

lemma req_inv_step:
  assumes "ptr_inv rt" "req_inv rt" "server_step cfg rt rt'"
  shows "req_inv rt'"
  using assms(3)
proof (cases rule: server_step.cases)
  note ptr = ptr_invD [OF assms(1)] and inv = req_invD [OF assms(2)]
  case (Accept b)
  from Accept(1) show ?thesis
  proof (cases rule: start_session_stream_cases)
    case 1
    with assms(2) show ?thesis by simp
  next
    case 2
    show ?thesis by (rule req_invI) (use 2(3) inv ptr(7) in \<open>auto split: if_splits\<close>)
  qed
next
  case (Open h max_payload conn f conn' destination r user)
  note inv = req_invD [OF assms(2)]
  have "rt_requests rt h = None" using inv(1) Open(2) .
  then have keep: "\<exists>r'. ((rt_requests rt)(h \<mapsto> r)) h' = Some r' \<and> op_stream r' = rt_ids rt p \<and> matches r' (rt_store rt p)"
    if "sm_flow (rt_store rt p) = Some fl" "h' \<in> set (fl_carriers fl)" for h' p fl
    using inv(5) [OF that] by auto
  show ?thesis unfolding Open(1)
    by (rule req_invI) (use inv(1-4) keep in \<open>auto split: if_splits\<close>)
next
  case (LookFound h r now p rt1)
  from LookFound(4) obtain c where "rt1 = (rt\<lparr>rt_now := now\<rparr>)\<lparr>rt_closed := c\<rparr>" "matches r (rt_store rt p)"
    by (cases rule: get_or_create_cases) (auto simp: matches_def)
  with LookFound(2) show ?thesis unfolding LookFound(1) by (intro req_inv_moves [OF assms(2)]) (auto split: if_splits)
next
  case (LookRefused h r now e rt1)
  from LookRefused(4) obtain c where "rt1 = (rt\<lparr>rt_now := now\<rparr>)\<lparr>rt_closed := c\<rparr>" by (rule get_or_create_refused)
  then show ?thesis unfolding LookRefused(1) by (intro req_inv_moves [OF assms(2)]) (auto split: if_splits)
next
  case (LookCreated h r now p rt1)
  note ptr = ptr_invD [OF assms(1)] and inv = req_invD [OF assms(2)]
  from LookCreated(4) obtain c where c: "p = rt_next rt"
    "rt1 = (rt\<lparr>rt_now := now\<rparr>)\<lparr>rt_closed := c, rt_streams := AList.update (op_stream r) p (rt_streams rt),
       rt_store := (rt_store rt)(p := new_stream r), rt_next := p + 1\<rparr>"
    by (cases rule: get_or_create_cases) auto
  have fresh: "q \<noteq> p" if "rt_handlers rt h' = Some pc" "pc_stream pc = Some q" for h' pc q
    using ptr(5) [OF that] c(1) by simp
  have "sm_flow (rt_store rt p) = None" using ptr(8) [of p] c(1) by simp
  with c fresh inv LookCreated(2) show ?thesis unfolding LookCreated(1)
    by (intro req_invI) (auto simp: new_stream_def matches_def split: if_splits)
next
  case (DialFailed h r p now e rt1)
  note ptr = ptr_invD [OF assms(1)] and inv = req_invD [OF assms(2)]
  from DialFailed(4) obtain c where rt1: "rt1 = on_stream p (\<lambda>s. s\<lparr>sm_err := Some e, sm_ready := True\<rparr>)
      ((rt\<lparr>rt_now := now\<rparr>)\<lparr>rt_streams := AList.delete (op_stream r) (rt_streams rt), rt_closed := c\<rparr>)"
    by (rule dial_failed_cases) simp
  then have m: "matches r' (rt_store rt1 q) = matches r' (rt_store rt q)" "sm_flow (rt_store rt1 q) = sm_flow (rt_store rt q)" for r' q
    by (simp_all add: matches_def)
  show ?thesis unfolding DialFailed(1)
    by (rule req_invI; simp only: end_stream_simps m) (use inv rt1 in \<open>auto split: if_splits\<close>)
next
  case (DialRefused h r p e rt1)
  note inv = req_invD [OF assms(2)]
  have m: "matches r' (rt_store rt1 q) = matches r' (rt_store rt q)" "sm_flow (rt_store rt1 q) = sm_flow (rt_store rt q)"
    "rt_requests rt1 = rt_requests rt" "rt_ids rt1 = rt_ids rt" "rt_handlers rt1 = rt_handlers rt" for r' q
    using DialRefused(3) by (auto simp: matches_def dial_succeeded_def split: if_splits)
  show ?thesis unfolding DialRefused(1)
    by (rule req_invI; simp only: end_stream_simps m) (use inv in \<open>auto split: if_splits\<close>)
next
  case (DialDone h r p rt1)
  note ptr = ptr_invD [OF assms(1)] and inv = req_invD [OF assms(2)]
  have m: "matches r' (rt_store rt1 q) = matches r' (rt_store rt q)" "q \<noteq> p \<Longrightarrow> sm_flow (rt_store rt1 q) = sm_flow (rt_store rt q)"
    "sm_flow (rt_store rt1 p) = Some (new_flow (op_stream r) DirectionServerToClient (flow_config_of cfg))"
    "rt_requests rt1 = rt_requests rt" "rt_ids rt1 = rt_ids rt" "rt_handlers rt1 = rt_handlers rt" for r' q
    using DialDone(3) by (auto simp: matches_def dial_succeeded_def split: if_splits)
  have flow: "sm_flow (rt_store rt1 q) = Some fl \<Longrightarrow> sm_flow (rt_store rt q) = Some fl \<or> q = p \<and> fl_carriers fl = [] \<and> fl_id fl = op_stream r" for q fl
    using m(2,3) by (cases "q = p") (auto simp: new_flow_def)
  have "rt_ids rt p = op_stream r" using ptr(6) [OF DialDone(2)] by simp
  then show ?thesis unfolding DialDone(1)
    by (intro req_invI; simp only: goto_simps m(1,4-6)) (use inv DialDone(2) in \<open>fastforce split: if_splits dest!: flow\<close>)+
next
  case (Attach h r p stage max_payload ok stage' a rt1)
  note ptr = ptr_invD [OF assms(1)] and inv = req_invD [OF assms(2)]
  show ?thesis
  proof (cases "stage' = Starting")
    case False
    with attach_at_moves [OF Attach(3)] Attach(2) show ?thesis unfolding Attach(1) by (intro req_inv_moves [OF assms(2)]) (auto split: if_splits)
  next
    case True
    with Attach(3) obtain fl fl1 x y where fl: "sm_flow (rt_store rt p) = Some fl" "attach_limited fl h max_payload (tt_max_carriers_per_stream cfg) = Inr (x, y, fl1)"
      and rt1: "rt1 = on_stream p (\<lambda>s. s\<lparr>sm_flow := Some fl1, sm_started := True, sm_timer := False\<rparr>) rt"
      by (cases rule: attach_at_cases) auto
    have m: "matches r' (rt_store rt1 q) = matches r' (rt_store rt q)" "sm_flow (rt_store rt1 q) = (if q = p then Some fl1 else sm_flow (rt_store rt q))" for r' q
      by (simp_all add: rt1 matches_def)
    have h: "rt_requests rt h = Some r" "op_stream r = rt_ids rt p" "matches r (rt_store rt p)"
      using inv(2,3) [OF Attach(2)] ptr(6) [OF Attach(2)] by simp_all
    note al = attach_limited_Inr(1,2) [OF fl(2)] and old = inv(4) [OF fl(1)] inv(5) [OF fl(1)]
    show ?thesis unfolding Attach(1)
    proof (rule req_invI; simp only: goto_simps m)
    qed (use inv Attach(2) h al old rt1 in \<open>auto split: if_splits\<close>)
  qed
next
  case (Unlock h r p stage max_payload ok a rt1)
  note am = attach_at_moves [OF Unlock(3), simplified]
  have "store_moves (rt_store rt) (rt_store (end_stream h (on_stream p (\<lambda>s. s\<lparr>sm_attach_mu := None\<rparr>) rt1)))"
    using am(1) by (auto simp: store_moves_def)
  with am Unlock(2) show ?thesis unfolding Unlock(1) by (intro req_inv_moves [OF assms(2)]) (auto split: if_splits)
next
  case (WatchForget p fl now rt1)
  from WatchForget(5) obtain c where "rt1 = (rt\<lparr>rt_now := now\<rparr>)\<lparr>rt_streams := (if map_of (rt_streams rt) (fl_id fl) = Some p
      then AList.delete (fl_id fl) (rt_streams rt) else rt_streams rt), rt_closed := c\<rparr>"
    by (rule forget_stream_cases) (simp cong: if_cong)
  then show ?thesis unfolding WatchForget(1)
    by (intro req_inv_moves [OF assms(2)]) (auto intro!: store_moves_update split: option.splits)
qed (auto intro!: req_inv_moves [OF assms(2)] store_moves_update expire_unstarted_store(1) simp: clear_runtime_def split: if_splits option.splits)

section \<open>The life of a stream\<close>

abbreviation dialing :: "runtime \<Rightarrow> nat \<Rightarrow> bool" where
  "dialing rt p \<equiv> \<exists>h r. rt_handlers rt h = Some (Dialing r p)"

abbreviation watched :: "runtime \<Rightarrow> nat \<Rightarrow> bool" where
  "watched rt p \<equiv> sm_watcher (rt_store rt p) = Watching \<or> sm_watcher (rt_store rt p) = TimerStopped"

text \<open>
  A stream is dialled by one goroutine, then has a flow that its watcher watches, and it is in the map
  exactly until the watcher forgets it; \<open>stage_ok\<close> is what the goroutines rely on.
\<close>

definition stage_ok :: "runtime \<Rightarrow> stream_pc \<Rightarrow> bool" where
  "stage_ok rt pc \<longleftrightarrow>
     (case pc of
        Dialing r p \<Rightarrow> map_of (rt_streams rt) (op_stream r) = Some p \<and> \<not> sm_ready (rt_store rt p) \<and> sm_flow (rt_store rt p) = None \<and>
          sm_err (rt_store rt p) = None \<and> sm_watcher (rt_store rt p) = Unwatched \<and> p \<in> set (rt_dials rt)
      | Waiting r p \<Rightarrow> sm_ready (rt_store rt p) \<or> dialing rt p
      | Locking r p \<Rightarrow> sm_flow (rt_store rt p) \<noteq> None
      | InAttach r p stage \<Rightarrow> sm_flow (rt_store rt p) \<noteq> None
      | _ \<Rightarrow> True)"

definition stream_ok :: "runtime \<Rightarrow> nat \<Rightarrow> bool" where
  "stream_ok rt p \<longleftrightarrow> (let s = rt_store rt p in
     (watched rt p \<longrightarrow> map_of (rt_streams rt) (rt_ids rt p) = Some p) \<and>
     (sm_watcher s = Unwatched \<longleftrightarrow> sm_flow s = None) \<and> (sm_flow s = None \<longleftrightarrow> \<not> (sm_ready s \<and> sm_err s = None)) \<and>
     (sm_watcher s = TimerStopped \<or> sm_watcher s = WatcherGone \<longrightarrow> sm_done s) \<and>
     (sm_done s \<longrightarrow> (\<exists>fl. sm_flow s = Some fl \<and> fl_closed fl \<and> fl_carriers fl = [])))"

definition life_inv :: "runtime \<Rightarrow> bool" where
  "life_inv rt \<longleftrightarrow>
     (\<forall>h h' r r' p. rt_handlers rt h = Some (Dialing r p) \<longrightarrow> rt_handlers rt h' = Some (Dialing r' p) \<longrightarrow> h = h') \<and>
     (\<forall>h pc. rt_handlers rt h = Some pc \<longrightarrow> stage_ok rt pc) \<and> (\<forall>p. stream_ok rt p) \<and>
     (\<forall>sid p. map_of (rt_streams rt) sid = Some p \<longrightarrow> dialing rt p \<or> watched rt p) \<and> distinct (rt_dials rt)"

lemma life_invD:
  assumes "life_inv rt"
  shows "rt_handlers rt h = Some (Dialing r p) \<Longrightarrow> rt_handlers rt h' = Some (Dialing r' p) \<Longrightarrow> h = h'"
    "rt_handlers rt h = Some pc \<Longrightarrow> stage_ok rt pc" "stream_ok rt p"
    "map_of (rt_streams rt) sid = Some p \<Longrightarrow> dialing rt p \<or> watched rt p" "distinct (rt_dials rt)"
  using assms unfolding life_inv_def by blast+

lemma life_invI:
  assumes "\<And>h h' r r' p. rt_handlers rt h = Some (Dialing r p) \<Longrightarrow> rt_handlers rt h' = Some (Dialing r' p) \<Longrightarrow> h = h'"
    "\<And>h pc. rt_handlers rt h = Some pc \<Longrightarrow> stage_ok rt pc" "\<And>p. stream_ok rt p"
    "\<And>sid p. map_of (rt_streams rt) sid = Some p \<Longrightarrow> dialing rt p \<or> watched rt p" "distinct (rt_dials rt)"
  shows "life_inv rt"
  using assms unfolding life_inv_def by blast

lemma life_inv_new: "life_inv new_runtime"
  by (simp add: life_inv_def new_runtime_def new_stream_def stream_ok_def Let_def)

text \<open>The steps that neither create, finish nor forget a stream.\<close>

lemma life_inv_moves:
  assumes "life_inv rt" "rt_streams rt' = rt_streams rt" "rt_ids rt' = rt_ids rt" "rt_dials rt' = rt_dials rt"
    and same: "\<And>p. sm_ready (rt_store rt' p) = sm_ready (rt_store rt p) \<and> sm_err (rt_store rt' p) = sm_err (rt_store rt p) \<and>
      sm_watcher (rt_store rt' p) = sm_watcher (rt_store rt p) \<and> sm_done (rt_store rt' p) = sm_done (rt_store rt p) \<and>
      (sm_flow (rt_store rt' p) = None \<longleftrightarrow> sm_flow (rt_store rt p) = None) \<and>
      (\<forall>fl. sm_flow (rt_store rt p) = Some fl \<longrightarrow> fl_closed fl \<longrightarrow> fl_carriers fl = [] \<longrightarrow>
        (\<exists>fl'. sm_flow (rt_store rt' p) = Some fl' \<and> fl_closed fl' \<and> fl_carriers fl' = []))"
    and dial: "\<And>h r p. rt_handlers rt' h = Some (Dialing r p) \<longleftrightarrow> rt_handlers rt h = Some (Dialing r p)"
    and stage: "\<And>h pc. rt_handlers rt' h = Some pc \<Longrightarrow> rt_handlers rt h \<noteq> Some pc \<Longrightarrow> stage_ok rt pc"
  shows "life_inv rt'"
proof (rule life_invI)
  note inv = life_invD [OF assms(1)]
  show "h = h'" if "rt_handlers rt' h = Some (Dialing r p)" "rt_handlers rt' h' = Some (Dialing r' p)" for h h' r r' p
    using that inv(1) unfolding dial by blast
  have stage_same: "stage_ok rt' pc \<longleftrightarrow> stage_ok rt pc" for pc
    using same assms(2,4) dial by (cases pc) (simp_all add: stage_ok_def)
  show "stage_ok rt' pc" if "rt_handlers rt' h = Some pc" for h pc
    using stage [OF that] inv(2) [of h pc] unfolding stage_same by blast
  show "stream_ok rt' p" for p
  proof -
    have eqs: "sm_ready (rt_store rt' p) = sm_ready (rt_store rt p)" "sm_err (rt_store rt' p) = sm_err (rt_store rt p)"
      "sm_watcher (rt_store rt' p) = sm_watcher (rt_store rt p)" "sm_done (rt_store rt' p) = sm_done (rt_store rt p)"
      "sm_flow (rt_store rt' p) = None \<longleftrightarrow> sm_flow (rt_store rt p) = None"
      and closed: "\<exists>fl. sm_flow (rt_store rt p) = Some fl \<and> fl_closed fl \<and> fl_carriers fl = [] \<Longrightarrow>
        \<exists>fl'. sm_flow (rt_store rt' p) = Some fl' \<and> fl_closed fl' \<and> fl_carriers fl' = []" using same [of p] by blast+
    show ?thesis using inv(3) [of p] closed unfolding stream_ok_def Let_def eqs assms(2,3) by blast
  qed
  show "dialing rt' p \<or> watched rt' p" if "map_of (rt_streams rt') sid = Some p" for sid p
    using that inv(4) [of sid p] same [of p] assms(2) unfolding dial by simp
  show "distinct (rt_dials rt')" using inv(5) assms(4) by simp
qed

lemma store_moves_closed:
  assumes "store_moves st st'" "sm_flow (st p) = Some fl" "fl_closed fl" "fl_carriers fl = []"
  shows "\<exists>fl'. sm_flow (st' p) = Some fl' \<and> fl_closed fl' \<and> fl_carriers fl' = []"
proof -
  obtain fl' where "sm_flow (st' p) = Some fl'" "flow_moves fl fl'" using store_movesD(9) [OF assms(1,2)] by blast
  with assms(3,4) show ?thesis by (auto dest: flow_movesD(4,5))
qed

text \<open>A dial that ended without a flow.\<close>

lemma life_inv_dial_ends:
  assumes "ptr_inv rt" "life_inv rt" "rt_handlers rt h = Some (Dialing r p)"
    and streams: "rt_streams rt' = AList.delete (op_stream r) (rt_streams rt)" and handlers: "rt_handlers rt' = (rt_handlers rt)(h := None)"
    and store: "rt_store rt' = (rt_store rt)(p := (rt_store rt p)\<lparr>sm_err := Some e, sm_ready := True\<rparr>)"
    and ids: "rt_ids rt' = rt_ids rt" and dials: "rt_dials rt' = rt_dials rt"
  shows "life_inv rt'"
proof -
  note ptr = ptr_invD [OF assms(1)] and inv = life_invD [OF assms(2)]
  have p: "map_of (rt_streams rt) (op_stream r) = Some p" "sm_watcher (rt_store rt p) = Unwatched" "sm_flow (rt_store rt p) = None"
    using inv(2) [OF assms(3)] by (simp_all add: stage_ok_def)
  have dial: "dialing rt' q \<longleftrightarrow> q \<noteq> p \<and> dialing rt q" for q
    unfolding handlers using inv(1) [OF assms(3)] assms(3) by (metis fun_upd_apply option.distinct(1) option.inject stream_pc.inject(2))
  have sid: "sid \<noteq> op_stream r" if "map_of (rt_streams rt) sid = Some q" "q \<noteq> p" for sid q using that p(1) by auto
  have sid': "q \<noteq> p" if "map_of (rt_streams rt) sid = Some q" "sid \<noteq> op_stream r" for sid q
    using ptr(3) [OF that(1)] ptr(3) [OF p(1)] that(2) by auto
  show ?thesis
  proof (rule life_invI)
    show "distinct (rt_dials rt')" using inv(5) dials by simp
    show "h1 = h2" if "rt_handlers rt' h1 = Some (Dialing r1 q)" "rt_handlers rt' h2 = Some (Dialing r2 q)" for h1 h2 r1 r2 q
      using that inv(1) [of h1 r1 q h2 r2] unfolding handlers by (auto split: if_splits)
    show "stream_ok rt' q" for q
      using inv(3) [of q] p sid [of "rt_ids rt q" q] unfolding stream_ok_def Let_def store ids streams map_of_delete_Some
      by (cases "q = p") auto
    show "dialing rt' q \<or> watched rt' q" if "map_of (rt_streams rt') sid = Some q" for sid q
      using that inv(4) [of sid q] sid' [of sid q] unfolding streams dial store map_of_delete_Some by simp
    show "stage_ok rt' pc" if "rt_handlers rt' h' = Some pc" for h' pc
    proof -
      have old: "rt_handlers rt h' = Some pc" "h' \<noteq> h" using that handlers by (auto split: if_splits)
      have "q \<noteq> p" if "pc = Dialing r' q" for q r' using inv(1) [OF assms(3)] old that by auto
      with inv(2) [OF old(1)] p(3) sid show ?thesis
        by (cases pc) (auto simp: stage_ok_def streams store dials dial map_of_delete_Some)
    qed
  qed
qed

lemma life_inv_dial_done:
  assumes "life_inv rt" "rt_handlers rt h = Some (Dialing r p)"
    and streams: "rt_streams rt' = rt_streams rt" and handlers: "rt_handlers rt' = (rt_handlers rt)(h \<mapsto> Locking r p)"
    and store: "rt_store rt' = (rt_store rt)(p := (rt_store rt p)\<lparr>sm_flow := Some fl, sm_timer := timer, sm_ready := True, sm_watcher := Watching\<rparr>)"
    and ids: "rt_ids rt' = rt_ids rt" and dials: "rt_dials rt' = rt_dials rt" and id: "rt_ids rt p = op_stream r"
  shows "life_inv rt'"
proof -
  note inv = life_invD [OF assms(1)]
  have p: "map_of (rt_streams rt) (op_stream r) = Some p" "sm_watcher (rt_store rt p) = Unwatched" "sm_flow (rt_store rt p) = None"
    "sm_err (rt_store rt p) = None" "\<not> sm_done (rt_store rt p)"
    using inv(2) [OF assms(2)] inv(3) [of p] by (auto simp: stage_ok_def stream_ok_def Let_def)
  have dial: "dialing rt' q \<longleftrightarrow> q \<noteq> p \<and> dialing rt q" for q
    unfolding handlers using inv(1) [OF assms(2)] assms(2)
    by (metis fun_upd_apply option.inject stream_pc.distinct(21) stream_pc.inject(2))
  show ?thesis
  proof (rule life_invI)
    show "distinct (rt_dials rt')" using inv(5) dials by simp
    show "h1 = h2" if "rt_handlers rt' h1 = Some (Dialing r1 q)" "rt_handlers rt' h2 = Some (Dialing r2 q)" for h1 h2 r1 r2 q
      using that inv(1) [of h1 r1 q h2 r2] unfolding handlers by (auto split: if_splits)
    show "stream_ok rt' q" for q
      using inv(3) [of q] p id unfolding stream_ok_def Let_def store ids streams by (cases "q = p") auto
    show "dialing rt' q \<or> watched rt' q" if "map_of (rt_streams rt') sid = Some q" for sid q
      using that inv(4) [of sid q] unfolding streams dial store by auto
    show "stage_ok rt' pc" if "rt_handlers rt' h' = Some pc" for h' pc
    proof (cases "h' = h")
      case True
      with that handlers have "pc = Locking r p" by simp
      then show ?thesis by (simp add: stage_ok_def store)
    next
      case False
      then have old: "rt_handlers rt h' = Some pc" using that handlers by simp
      have "q \<noteq> p" if "pc = Dialing r' q" for q r' using inv(1) [OF assms(2)] old that False by auto
      with inv(2) [OF old] p(3) show ?thesis
        by (cases pc) (auto simp: stage_ok_def streams store dials dial)
    qed
  qed
qed

text \<open>The end of a flow, the watcher's two steps: one stream changes, goroutines do not.\<close>

lemma life_inv_one:
  assumes "ptr_inv rt" "life_inv rt" and handlers: "rt_handlers rt' = rt_handlers rt" and store: "rt_store rt' = (rt_store rt)(p := s)"
    and ids: "rt_ids rt' = rt_ids rt" and dials: "rt_dials rt' = rt_dials rt"
    and s: "sm_ready s = sm_ready (rt_store rt p)" "sm_err s = sm_err (rt_store rt p)" "sm_flow s \<noteq> None" "sm_flow (rt_store rt p) \<noteq> None"
      "stream_ok rt' p"
    and streams: "rt_streams rt' = (if gone then AList.delete (rt_ids rt p) (rt_streams rt) else rt_streams rt)"
    and gone: "gone \<Longrightarrow> map_of (rt_streams rt) (rt_ids rt p) = Some p" "gone \<or> sm_watcher s = Watching \<or> sm_watcher s = TimerStopped \<or> \<not> watched rt p"
  shows "life_inv rt'"
proof (rule life_invI)
  note inv = life_invD [OF assms(2)]
  have undialed: "\<not> dialing rt p" using inv(2) s(4) by (fastforce simp: stage_ok_def)
  have kept: "map_of (rt_streams rt') sid = Some q" if "map_of (rt_streams rt) sid = Some q" "q \<noteq> p" for sid q
    using that gone(1) by (auto simp: streams map_of_delete_Some)
  show "distinct (rt_dials rt')" using inv(5) dials by simp
  show "h1 = h2" if "rt_handlers rt' h1 = Some (Dialing r1 q)" "rt_handlers rt' h2 = Some (Dialing r2 q)" for h1 h2 r1 r2 q
    using that inv(1) [of h1 r1 q h2 r2] unfolding handlers by auto
  show "stream_ok rt' q" for q
    using inv(3) [of q] s(5) kept unfolding stream_ok_def Let_def store ids by (cases "q = p") auto
  show "dialing rt' q \<or> watched rt' q" if "map_of (rt_streams rt') sid = Some q" for sid q
  proof -
    have old: "map_of (rt_streams rt) sid = Some q" and "gone \<Longrightarrow> sid \<noteq> rt_ids rt p"
      using that by (auto simp: streams map_of_delete_Some split: if_splits)
    moreover have "rt_ids rt q = sid" using ptr_invD(3) [OF assms(1) old] .
    ultimately show ?thesis using inv(4) [OF old] gone undialed unfolding handlers store by (cases "q = p") auto
  qed
  show "stage_ok rt' pc" if "rt_handlers rt' h' = Some pc" for h' pc
  proof -
    have old: "rt_handlers rt h' = Some pc" using that handlers by simp
    have "q \<noteq> p" if "pc = Dialing r' q" for q r' using undialed old that by blast
    with inv(2) [OF old] s kept show ?thesis
      by (cases pc) (auto simp: stage_ok_def store dials handlers)
  qed
qed

lemma life_inv_step:
  assumes "ptr_inv rt" "req_inv rt" "life_inv rt" "server_step cfg rt rt'"
  shows "life_inv rt'"
  using assms(4)
proof (cases rule: server_step.cases)
  case (Accept b)
  from Accept(1) show ?thesis
  proof (cases rule: start_session_stream_cases)
    case 1
    with assms(3) show ?thesis by simp
  next
    case 2
    have "rt_handlers rt (rt_next rt) = None" using ptr_invD(4) [OF assms(1), of "rt_next rt"] by (cases "rt_handlers rt (rt_next rt)") auto
    with 2(3) show ?thesis by (intro life_inv_moves [OF assms(3)]) (auto simp: stage_ok_def split: if_splits)
  qed
next
  case (LookFound h r now p rt1)
  from LookFound(4) obtain c where c: "rt1 = (rt\<lparr>rt_now := now\<rparr>)\<lparr>rt_closed := c\<rparr>" "map_of (rt_streams rt) (op_stream r) = Some p"
    by (cases rule: get_or_create_cases) auto
  have "dialing rt p \<or> sm_ready (rt_store rt p)"
    using life_invD(4) [OF assms(3) c(2)] life_invD(3) [OF assms(3), of p] by (auto simp: stream_ok_def Let_def)
  with c LookFound(2) show ?thesis unfolding LookFound(1)
    by (intro life_inv_moves [OF assms(3)]) (auto simp: stage_ok_def split: if_splits)
next
  case (LookRefused h r now e rt1)
  from LookRefused(4) obtain c where "rt1 = (rt\<lparr>rt_now := now\<rparr>)\<lparr>rt_closed := c\<rparr>" by (rule get_or_create_refused)
  with LookRefused(2) show ?thesis unfolding LookRefused(1) by (intro life_inv_moves [OF assms(3)]) (auto simp: stage_ok_def split: if_splits)
next
  case (WaitReady h r p)
  have "sm_err (rt_store rt p) = None \<Longrightarrow> sm_flow (rt_store rt p) \<noteq> None"
    using life_invD(3) [OF assms(3), of p] WaitReady(3) by (auto simp: stream_ok_def Let_def)
  with WaitReady(2) show ?thesis unfolding WaitReady(1) by (intro life_inv_moves [OF assms(3)]) (auto simp: stage_ok_def split: if_splits)
next
  case (Lock h r p)
  have "stage_ok rt (Locking r p)" using life_invD(2) [OF assms(3) Lock(2)] .
  with Lock(2) show ?thesis unfolding Lock(1) by (intro life_inv_moves [OF assms(3)]) (auto simp: stage_ok_def split: if_splits)
next
  case (Attach h r p stage max_payload ok stage' a rt1)
  have st: "stage_ok rt (InAttach r p stage)" using life_invD(2) [OF assms(3) Attach(2)] .
  show ?thesis
  proof (cases "stage' = Starting")
    case False
    note am = attach_at_moves [OF Attach(3)]
    show ?thesis unfolding Attach(1)
      using am False Attach(2) st store_movesD(4,5,8) [OF am(1)] store_moves_closed [OF am(1)]
      by (intro life_inv_moves [OF assms(3)]) (auto simp: stage_ok_def split: if_splits)
  next
    case True
    with Attach(3) obtain fl fl1 x y where fl: "sm_flow (rt_store rt p) = Some fl" "attach_limited fl h max_payload (tt_max_carriers_per_stream cfg) = Inr (x, y, fl1)"
      and rt1: "rt1 = on_stream p (\<lambda>s. s\<lparr>sm_flow := Some fl1, sm_started := True, sm_timer := False\<rparr>) rt"
      by (cases rule: attach_at_cases) auto
    with attach_limited_Inr(3) [OF fl(2)] Attach(2) st show ?thesis unfolding Attach(1)
      by (intro life_inv_moves [OF assms(3)]) (auto simp: stage_ok_def split: if_splits)
  qed
next
  case (Unlock h r p stage max_payload ok a rt1)
  note am = attach_at_moves [OF Unlock(3), simplified]
  show ?thesis unfolding Unlock(1)
    using am Unlock(2) store_movesD(4,5,8) [OF am(1)] store_moves_closed [OF am(1)]
    by (intro life_inv_moves [OF assms(3)]) (auto simp: stage_ok_def split: if_splits)
next
  case (Expire p)
  note sm = expire_unstarted_store(1) [of rt p]
  show ?thesis unfolding Expire(1)
    using store_movesD(4,5,8) [OF sm] store_moves_closed [OF sm]
    by (intro life_inv_moves [OF assms(3)]) (auto simp: expire_unstarted_store(3-5))
next
  case (FlowMoves p fl fl')
  then show ?thesis unfolding FlowMoves(1)
    by (intro life_inv_moves [OF assms(3)]) (auto dest: flow_movesD(4,5))
next
  case (LookCreated h r now p rt1)
  note ptr = ptr_invD [OF assms(1)] and inv = life_invD [OF assms(3)]
  from LookCreated(4) obtain c where c: "p = rt_next rt" "map_of (rt_streams rt) (op_stream r) = None"
    "rt1 = (rt\<lparr>rt_now := now\<rparr>)\<lparr>rt_closed := c, rt_streams := AList.update (op_stream r) p (rt_streams rt),
       rt_store := (rt_store rt)(p := new_stream r), rt_next := p + 1\<rparr>"
    by (cases rule: get_or_create_cases) auto
  have fresh: "q \<noteq> p" if "rt_handlers rt h' = Some pc" "pc_stream pc = Some q" for h' pc q
    using ptr(5) [OF that] c(1) by simp
  have undialed: "rt_handlers rt h' \<noteq> Some (Dialing r' p)" for h' r' using fresh [of h' "Dialing r' p" p] by auto
  have unmapped: "map_of (rt_streams rt) sid \<noteq> Some p" for sid using ptr(2) [of sid p] c(1) by auto
  have handlers: "rt_handlers rt' = (rt_handlers rt)(h \<mapsto> Dialing r p)" and streams: "rt_streams rt' = AList.update (op_stream r) p (rt_streams rt)"
    and store: "rt_store rt' = (rt_store rt)(p := new_stream r)" and ids: "rt_ids rt' = (rt_ids rt)(p := op_stream r)" and dials: "rt_dials rt' = p # rt_dials rt"
    unfolding LookCreated(1) by (simp_all add: c(3))
  have dial: "dialing rt' q \<longleftrightarrow> q = p \<or> dialing rt q" for q
    unfolding handlers using LookCreated(2) fresh by (metis (lifting) fun_upd_apply option.inject stream_pc.distinct(11) stream_pc.inject(2))
  show ?thesis
  proof (rule life_invI)
    show "distinct (rt_dials rt')" unfolding dials using inv(5) ptr(11) c(1) by simp
    show "stream_ok rt' q" for q
      using inv(3) [of q] unmapped c(2) unfolding stream_ok_def Let_def store ids streams
      by (cases "q = p") (auto simp: new_stream_def map_of_update_Some)
    show "dialing rt' q \<or> watched rt' q" if "map_of (rt_streams rt') sid = Some q" for sid q
      using that inv(4) [of sid q] unfolding streams dial store by (auto simp: map_of_update_Some split: if_splits)
    show "h1 = h2" if "rt_handlers rt' h1 = Some (Dialing r1 q)" "rt_handlers rt' h2 = Some (Dialing r2 q)" for h1 h2 r1 r2 q
      using that inv(1) [of h1 r1 q h2 r2] undialed unfolding handlers by (auto split: if_splits)
    show "stage_ok rt' pc" if "rt_handlers rt' h' = Some pc" for h' pc
    proof (cases "h' = h")
      case True
      with that handlers have "pc = Dialing r p" by simp
      then show ?thesis by (simp add: stage_ok_def streams store dials new_stream_def map_of_update_Some)
    next
      case False
      with that handlers have old: "rt_handlers rt h' = Some pc" by simp
      from fresh [OF old] inv(2) [OF old] c(2) show ?thesis
        by (cases pc) (auto simp: stage_ok_def streams store dials dial map_of_update_Some)
    qed
  qed
next
  case (DialFailed h r p now e rt1)
  from DialFailed(4) obtain c where "rt1 = on_stream p (\<lambda>s. s\<lparr>sm_err := Some e, sm_ready := True\<rparr>)
      ((rt\<lparr>rt_now := now\<rparr>)\<lparr>rt_streams := AList.delete (op_stream r) (rt_streams rt), rt_closed := c\<rparr>)"
    by (rule dial_failed_cases) simp
  then show ?thesis unfolding DialFailed(1) by (intro life_inv_dial_ends [OF assms(1,3) DialFailed(2)]) simp_all
next
  case (DialRefused h r p e rt1)
  then show ?thesis unfolding DialRefused(1)
    by (intro life_inv_dial_ends [OF assms(1,3) DialRefused(2), of _ e]) (auto simp: dial_succeeded_def split: if_splits)
next
  case (DialDone h r p rt1)
  have "rt_ids rt p = op_stream r" using ptr_invD(6) [OF assms(1) DialDone(2)] by simp
  with DialDone show ?thesis unfolding DialDone(1)
    by (intro life_inv_dial_done [OF assms(3) DialDone(2)]) (auto simp: dial_succeeded_def split: if_splits)
next
  case (FlowDone p fl)
  have "stream_ok rt' p"
    using life_invD(3) [OF assms(3), of p] FlowDone(2,3) unfolding FlowDone(1) by (auto simp: stream_ok_def Let_def finish_reset_def)
  with FlowDone(2) show ?thesis unfolding FlowDone(1)
    by (intro life_inv_one [OF assms(1,3), where p = p and gone = False and
          s = "(rt_store rt p)\<lparr>sm_flow := Some (snd (finish_reset fl)), sm_done := True\<rparr>"]) auto
next
  case (WatchTimer p)
  have "stream_ok rt' p" "sm_flow (rt_store rt p) \<noteq> None"
    using life_invD(3) [OF assms(3), of p] WatchTimer(2,3) unfolding WatchTimer(1) by (auto simp: stream_ok_def Let_def)
  then show ?thesis unfolding WatchTimer(1)
    by (intro life_inv_one [OF assms(1,3), where p = p and gone = False and
          s = "(rt_store rt p)\<lparr>sm_timer := False, sm_watcher := TimerStopped\<rparr>"]) auto
next
  case (WatchForget p fl now rt1)
  have p: "map_of (rt_streams rt) (rt_ids rt p) = Some p" using life_invD(3) [OF assms(3), of p] WatchForget(2) by (simp add: stream_ok_def Let_def)
  have id: "fl_id fl = rt_ids rt p" using req_invD(4) [OF assms(2) WatchForget(3)] .
  from WatchForget(5) obtain c where rt1: "rt1 = (rt\<lparr>rt_now := now\<rparr>)\<lparr>rt_streams := AList.delete (rt_ids rt p) (rt_streams rt), rt_closed := c\<rparr>"
    by (rule forget_stream_cases) (simp add: id p)
  have "stream_ok rt' p"
    using life_invD(3) [OF assms(3), of p] WatchForget(2) unfolding WatchForget(1) by (auto simp: stream_ok_def Let_def rt1)
  with p WatchForget(3) rt1 show ?thesis unfolding WatchForget(1)
    by (intro life_inv_one [OF assms(1,3), where p = p and gone = True and s = "(rt_store rt p)\<lparr>sm_watcher := WatcherGone\<rparr>"]) auto
next
  case ShutdownEnd
  note inv = life_invD [OF assms(3)]
  have "stream_ok (clear_runtime rt) p" for p
    using inv(3) [of p] ShutdownEnd(4) [rule_format, of p] by (auto simp: stream_ok_def Let_def clear_runtime_def)
  then show ?thesis unfolding ShutdownEnd(1)
    by (intro life_invI) (use ShutdownEnd(3) inv(5) in \<open>auto simp: clear_runtime_def\<close>)
qed (auto intro!: life_inv_moves [OF assms(3)] simp: stage_ok_def split: if_splits)

section \<open>The lock, the carriers, the counters\<close>

definition lock_inv :: "runtime \<Rightarrow> bool" where
  "lock_inv rt \<longleftrightarrow>
     (\<forall>h r p stage. rt_handlers rt h = Some (InAttach r p stage) \<longrightarrow> sm_attach_mu (rt_store rt p) = Some h) \<and>
     (\<forall>h p. sm_attach_mu (rt_store rt p) = Some h \<longrightarrow> (\<exists>r stage. rt_handlers rt h = Some (InAttach r p stage)))"

lemma lock_invD:
  assumes "lock_inv rt"
  shows "rt_handlers rt h = Some (InAttach r p stage) \<Longrightarrow> sm_attach_mu (rt_store rt p) = Some h"
    "sm_attach_mu (rt_store rt p) = Some h \<Longrightarrow> \<exists>r stage. rt_handlers rt h = Some (InAttach r p stage)"
  using assms unfolding lock_inv_def by blast+

lemma lock_inv_same:
  assumes "lock_inv rt" "\<And>p. sm_attach_mu (rt_store rt' p) = sm_attach_mu (rt_store rt p)"
    and "\<And>h r p. (\<exists>stage. rt_handlers rt' h = Some (InAttach r p stage)) \<longleftrightarrow> (\<exists>stage. rt_handlers rt h = Some (InAttach r p stage))"
  shows "lock_inv rt'"
  using assms unfolding lock_inv_def by metis

lemma lock_inv_step:
  assumes "ptr_inv rt" "lock_inv rt" "server_step cfg rt rt'"
  shows "lock_inv rt'"
  using assms(3)
proof (cases rule: server_step.cases)
  case (Accept b)
  have "rt_handlers rt (rt_next rt) = None" using ptr_invD(4) [OF assms(1), of "rt_next rt"] by (cases "rt_handlers rt (rt_next rt)") auto
  with Accept(1) assms(2) show ?thesis by (cases rule: start_session_stream_cases) (auto intro!: lock_inv_same [OF assms(2)] split: if_splits)
next
  case (LookRefused h r now e rt1)
  from LookRefused(4) obtain c where "rt1 = (rt\<lparr>rt_now := now\<rparr>)\<lparr>rt_closed := c\<rparr>" by (rule get_or_create_refused)
  with LookRefused(2) show ?thesis unfolding LookRefused(1) by (intro lock_inv_same [OF assms(2)]) auto
next
  case (LookFound h r now p rt1)
  from LookFound(4) obtain c where "rt1 = (rt\<lparr>rt_now := now\<rparr>)\<lparr>rt_closed := c\<rparr>" by (cases rule: get_or_create_cases) auto
  with LookFound(2) show ?thesis unfolding LookFound(1) by (intro lock_inv_same [OF assms(2)]) auto
next
  case (LookCreated h r now p rt1)
  from LookCreated(4) obtain c where c: "p = rt_next rt"
    "rt1 = (rt\<lparr>rt_now := now\<rparr>)\<lparr>rt_closed := c, rt_streams := AList.update (op_stream r) p (rt_streams rt),
       rt_store := (rt_store rt)(p := new_stream r), rt_next := p + 1\<rparr>"
    by (cases rule: get_or_create_cases) auto
  have "sm_attach_mu (rt_store rt p) = None" using ptr_invD(10) [OF assms(1), of p] c(1) by simp
  with c LookCreated(2) show ?thesis unfolding LookCreated(1) by (intro lock_inv_same [OF assms(2)]) (auto simp: new_stream_def)
next
  case (DialFailed h r p now e rt1)
  from DialFailed(4) obtain c where "rt1 = on_stream p (\<lambda>s. s\<lparr>sm_err := Some e, sm_ready := True\<rparr>)
      ((rt\<lparr>rt_now := now\<rparr>)\<lparr>rt_streams := AList.delete (op_stream r) (rt_streams rt), rt_closed := c\<rparr>)"
    by (rule dial_failed_cases) simp
  with DialFailed(2) show ?thesis unfolding DialFailed(1) by (intro lock_inv_same [OF assms(2)]) auto
next
  case (DialRefused h r p e rt1)
  then show ?thesis unfolding DialRefused(1) by (intro lock_inv_same [OF assms(2)]) (auto simp: dial_succeeded_def split: if_splits)
next
  case (DialDone h r p rt1)
  then show ?thesis unfolding DialDone(1) by (intro lock_inv_same [OF assms(2)]) (auto simp: dial_succeeded_def split: if_splits)
next
  case (Lock h r p)
  with lock_invD [OF assms(2)] show ?thesis unfolding Lock(1) lock_inv_def by (auto split: if_splits) (metis option.distinct(1) option.inject stream_pc.distinct(29))+
next
  case (Attach h r p stage max_payload ok stage' a rt1)
  have "rt_handlers rt1 = rt_handlers rt" "sm_attach_mu (rt_store rt1 q) = sm_attach_mu (rt_store rt q)" for q
    using Attach(3) by (cases rule: attach_at_cases; simp)+
  with Attach(2) show ?thesis unfolding Attach(1) by (intro lock_inv_same [OF assms(2)]) (auto split: if_splits)
next
  case (Unlock h r p stage max_payload ok a rt1)
  note am = attach_at_moves [OF Unlock(3), simplified] and inv = lock_invD [OF assms(2)]
  have mine: "sm_attach_mu (rt_store rt p) = Some h" using inv(1) [OF Unlock(2)] .
  have handlers: "rt_handlers rt' = (rt_handlers rt)(h := None)" and mu: "sm_attach_mu (rt_store rt' q) = (if q = p then None else sm_attach_mu (rt_store rt q))" for q
    unfolding Unlock(1) using am(4,11) by simp_all
  have "sm_attach_mu (rt_store rt' q) = Some h'" if "rt_handlers rt' h' = Some (InAttach r' q st)" for h' r' q st
    using that inv(1) [of h' r' q st] mine unfolding handlers mu by (auto split: if_splits)
  moreover have "\<exists>r' st. rt_handlers rt' h' = Some (InAttach r' q st)" if "sm_attach_mu (rt_store rt' q) = Some h'" for h' q
    using that inv(2) [of q h'] Unlock(2) unfolding handlers mu by (auto split: if_splits)
  ultimately show ?thesis unfolding lock_inv_def by blast
next
  case (Expire p)
  then show ?thesis by (intro lock_inv_same [OF assms(2)]) (simp_all add: expire_unstarted_store(4))
next
  case (WatchForget p fl now rt1)
  from WatchForget(5) obtain c where "rt1 = (rt\<lparr>rt_now := now\<rparr>)\<lparr>rt_streams := (if map_of (rt_streams rt) (fl_id fl) = Some p
      then AList.delete (fl_id fl) (rt_streams rt) else rt_streams rt), rt_closed := c\<rparr>"
    by (rule forget_stream_cases) (simp cong: if_cong)
  then show ?thesis unfolding WatchForget(1) by (intro lock_inv_same [OF assms(2)]) auto
qed (auto intro!: lock_inv_same [OF assms(2)] simp: clear_runtime_def split: if_splits)

definition carriers_inv :: "tcp_transfer \<Rightarrow> runtime \<Rightarrow> bool" where
  "carriers_inv cfg rt \<longleftrightarrow> (\<forall>p fl. sm_flow (rt_store rt p) = Some fl \<longrightarrow> (\<not> sm_started (rt_store rt p) \<longrightarrow> fl_carriers fl = []) \<and>
     (tt_max_carriers_per_stream cfg > 0 \<longrightarrow> int (length (fl_carriers fl)) \<le> tt_max_carriers_per_stream cfg))"

lemma carriers_inv_moves:
  assumes "carriers_inv cfg rt" "store_moves (rt_store rt) (rt_store rt')"
  shows "carriers_inv cfg rt'"
  unfolding carriers_inv_def
proof (intro allI impI)
  fix p fl assume fl: "sm_flow (rt_store rt' p) = Some fl"
  from store_movesD(10) [OF assms(2) fl] obtain fl0 where "sm_flow (rt_store rt p) = Some fl0" "flow_moves fl0 fl" by blast
  with assms(1) store_movesD(6) [OF assms(2), of p] flow_movesD(3,5) [of fl0 fl]
  show "(\<not> sm_started (rt_store rt' p) \<longrightarrow> fl_carriers fl = []) \<and>
     (tt_max_carriers_per_stream cfg > 0 \<longrightarrow> int (length (fl_carriers fl)) \<le> tt_max_carriers_per_stream cfg)"
    unfolding carriers_inv_def by fastforce
qed

lemma carriers_inv_fresh:
  assumes "carriers_inv cfg rt" "\<And>q. q \<noteq> p \<Longrightarrow> rt_store rt' q = rt_store rt q"
    and "case sm_flow (rt_store rt' p) of None \<Rightarrow> True | Some fl \<Rightarrow> fl_carriers fl = [] \<or> sm_flow (rt_store rt p) = Some fl \<and> sm_started (rt_store rt' p) = sm_started (rt_store rt p)"
  shows "carriers_inv cfg rt'"
  unfolding carriers_inv_def
proof (intro allI impI)
  fix q fl assume fl: "sm_flow (rt_store rt' q) = Some fl"
  show "(\<not> sm_started (rt_store rt' q) \<longrightarrow> fl_carriers fl = []) \<and>
     (tt_max_carriers_per_stream cfg > 0 \<longrightarrow> int (length (fl_carriers fl)) \<le> tt_max_carriers_per_stream cfg)"
    using fl assms by (cases "q = p") (auto simp: carriers_inv_def)
qed

lemma carriers_inv_step:
  assumes "carriers_inv cfg rt" "server_step cfg rt rt'"
  shows "carriers_inv cfg rt'"
  using assms(2)
proof (cases rule: server_step.cases)
  case (Accept b)
  from Accept(1) assms(1) show ?thesis by (cases rule: start_session_stream_cases) (auto intro!: carriers_inv_moves [OF assms(1)])
next
  case (LookRefused h r now e rt1)
  from LookRefused(4) obtain c where "rt1 = (rt\<lparr>rt_now := now\<rparr>)\<lparr>rt_closed := c\<rparr>" by (rule get_or_create_refused)
  then show ?thesis unfolding LookRefused(1) by (intro carriers_inv_moves [OF assms(1)]) auto
next
  case (LookFound h r now p rt1)
  from LookFound(4) obtain c where "rt1 = (rt\<lparr>rt_now := now\<rparr>)\<lparr>rt_closed := c\<rparr>" by (cases rule: get_or_create_cases) auto
  then show ?thesis unfolding LookFound(1) by (intro carriers_inv_moves [OF assms(1)]) auto
next
  case (LookCreated h r now p rt1)
  from LookCreated(4) obtain c where "rt1 = (rt\<lparr>rt_now := now\<rparr>)\<lparr>rt_closed := c, rt_streams := AList.update (op_stream r) p (rt_streams rt),
       rt_store := (rt_store rt)(p := new_stream r), rt_next := p + 1\<rparr>"
    by (cases rule: get_or_create_cases) auto
  then show ?thesis unfolding LookCreated(1) by (intro carriers_inv_fresh [OF assms(1), of p]) (auto simp: new_stream_def)
next
  case (DialFailed h r p now e rt1)
  from DialFailed(4) obtain c where "rt1 = on_stream p (\<lambda>s. s\<lparr>sm_err := Some e, sm_ready := True\<rparr>)
      ((rt\<lparr>rt_now := now\<rparr>)\<lparr>rt_streams := AList.delete (op_stream r) (rt_streams rt), rt_closed := c\<rparr>)"
    by (rule dial_failed_cases) simp
  then show ?thesis unfolding DialFailed(1) by (intro carriers_inv_fresh [OF assms(1), of p]) (auto split: option.splits)
next
  case (DialRefused h r p e rt1)
  then show ?thesis unfolding DialRefused(1)
    by (intro carriers_inv_fresh [OF assms(1), of p]) (auto simp: dial_succeeded_def split: if_splits option.splits)
next
  case (DialDone h r p rt1)
  then show ?thesis unfolding DialDone(1)
    by (intro carriers_inv_fresh [OF assms(1), of p]) (auto simp: dial_succeeded_def new_flow_def split: if_splits option.splits)
next
  case (Attach h r p stage max_payload ok stage' a rt1)
  from Attach(3) show ?thesis
  proof (cases rule: attach_at_cases)
    case (2 fl fl1 x y)
    from attach_limited_Inr [OF 2(4)] have "fl_carriers fl1 = fl_carriers fl @ [h]" "tt_max_carriers_per_stream cfg > 0 \<Longrightarrow>
      int (length (fl_carriers fl)) < tt_max_carriers_per_stream cfg" by blast+
    with assms(1) 2(5) show ?thesis unfolding Attach(1) carriers_inv_def by (auto split: if_splits)
  qed (use Attach(1) in \<open>auto intro!: carriers_inv_moves [OF assms(1)] store_moves_update split: option.splits\<close>)
next
  case (Unlock h r p stage max_payload ok a rt1)
  have "store_moves (rt_store rt) (rt_store (end_stream h (on_stream p (\<lambda>s. s\<lparr>sm_attach_mu := None\<rparr>) rt1)))"
    using attach_at_moves(1) [OF Unlock(3)] by (auto simp: store_moves_def)
  then show ?thesis unfolding Unlock(1) by (rule carriers_inv_moves [OF assms(1)])
next
  case (WatchForget p fl now rt1)
  from WatchForget(5) obtain c where "rt1 = (rt\<lparr>rt_now := now\<rparr>)\<lparr>rt_streams := (if map_of (rt_streams rt) (fl_id fl) = Some p
      then AList.delete (fl_id fl) (rt_streams rt) else rt_streams rt), rt_closed := c\<rparr>"
    by (rule forget_stream_cases) (simp cong: if_cong)
  then show ?thesis unfolding WatchForget(1) by (intro carriers_inv_moves [OF assms(1)]) (auto intro!: store_moves_update split: option.splits)
qed (auto intro!: carriers_inv_moves [OF assms(1)] store_moves_update expire_unstarted_store(1) simp: clear_runtime_def split: if_splits option.splits)

definition pending_inv :: "tcp_transfer \<Rightarrow> runtime \<Rightarrow> bool" where
  "pending_inv cfg rt \<longleftrightarrow> finite (dom (rt_handlers rt)) \<and> rt_pending_streams rt = int (card (dom (rt_handlers rt))) \<and>
     (tt_max_pending_streams cfg > 0 \<longrightarrow> rt_pending_streams rt \<le> tt_max_pending_streams cfg)"

lemma pending_inv_goto:
  assumes "pending_inv cfg rt" "rt_handlers rt h \<noteq> None" "rt_handlers rt' = (rt_handlers rt)(h \<mapsto> pc)"
    "rt_pending_streams rt' = rt_pending_streams rt"
  shows "pending_inv cfg rt'"
proof -
  have "dom (rt_handlers rt') = dom (rt_handlers rt)" using assms(2,3) by auto
  with assms(1,4) show ?thesis unfolding pending_inv_def by metis
qed

lemma pending_inv_end:
  assumes "pending_inv cfg rt" "rt_handlers rt h \<noteq> None" "rt_handlers rt' = (rt_handlers rt)(h := None)"
    "rt_pending_streams rt' = rt_pending_streams rt - 1"
  shows "pending_inv cfg rt'"
proof -
  have eq: "dom (rt_handlers rt') = dom (rt_handlers rt) - {h}" and h: "h \<in> dom (rt_handlers rt)" using assms(2,3) by auto
  have fin: "finite (dom (rt_handlers rt))" using assms(1) by (simp add: pending_inv_def)
  then have "card (dom (rt_handlers rt)) > 0" using h by (auto simp: card_gt_0_iff)
  then have "int (card (dom (rt_handlers rt) - {h})) = int (card (dom (rt_handlers rt))) - 1" using h fin by simp
  with assms(1,4) fin show ?thesis unfolding pending_inv_def eq by auto
qed

lemma pending_inv_same:
  assumes "pending_inv cfg rt" "rt_handlers rt' = rt_handlers rt" "rt_pending_streams rt' = rt_pending_streams rt"
  shows "pending_inv cfg rt'"
  using assms unfolding pending_inv_def by metis

lemma get_or_create_handlers:
  assumes "get_or_create cfg r now rt = (out, rt')"
  shows "rt_handlers rt' = rt_handlers rt" "rt_pending_streams rt' = rt_pending_streams rt" "rt_ctx rt' = rt_ctx rt" "rt_closing rt' = rt_closing rt"
    "rt_now rt' = rt_now rt"
  using assms by (cases rule: get_or_create_cases; auto)+

lemma pending_inv_step:
  assumes "ptr_inv rt" "pending_inv cfg rt" "server_step cfg rt rt'"
  shows "pending_inv cfg rt'"
  using assms(3)
proof (cases rule: server_step.cases)
  case (Accept b)
  from Accept(1) show ?thesis
  proof (cases rule: start_session_stream_cases)
    case 1
    with assms(2) show ?thesis by simp
  next
    case 2
    have "rt_handlers rt (rt_next rt) = None" using ptr_invD(4) [OF assms(1), of "rt_next rt"] by (cases "rt_handlers rt (rt_next rt)") auto
    then have "rt_next rt \<notin> dom (rt_handlers rt)" by auto
    with assms(2) 2 show ?thesis by (auto simp: pending_inv_def)
  qed
next
  case (WaitReady h r p)
  then show ?thesis by (auto intro: pending_inv_goto [OF assms(2)] pending_inv_end [OF assms(2)])
next
  case (LookRefused h r now e rt1)
  note g = get_or_create_handlers [OF LookRefused(4)]
  show ?thesis unfolding LookRefused(1) by (rule pending_inv_end [OF assms(2), of h]) (use g LookRefused(2) in simp_all)
next
  case (LookFound h r now p rt1)
  note g = get_or_create_handlers [OF LookFound(4)]
  show ?thesis unfolding LookFound(1) by (rule pending_inv_goto [OF assms(2), of h]) (use g LookFound(2) in simp_all)
next
  case (LookCreated h r now p rt1)
  note g = get_or_create_handlers [OF LookCreated(4)]
  show ?thesis unfolding LookCreated(1) by (rule pending_inv_goto [OF assms(2), of h]) (use g LookCreated(2) in simp_all)
next
  case (DialFailed h r p now e rt1)
  from DialFailed(4) obtain c where "rt1 = on_stream p (\<lambda>s. s\<lparr>sm_err := Some e, sm_ready := True\<rparr>)
      ((rt\<lparr>rt_now := now\<rparr>)\<lparr>rt_streams := AList.delete (op_stream r) (rt_streams rt), rt_closed := c\<rparr>)"
    by (rule dial_failed_cases) simp
  then show ?thesis unfolding DialFailed(1) by (intro pending_inv_end [OF assms(2), of h]) (use DialFailed(2) in simp_all)
next
  case (DialRefused h r p e rt1)
  then show ?thesis unfolding DialRefused(1)
    by (intro pending_inv_end [OF assms(2), of h]) (auto simp: dial_succeeded_def split: if_splits)
next
  case (DialDone h r p rt1)
  then show ?thesis unfolding DialDone(1)
    by (intro pending_inv_goto [OF assms(2), of h]) (auto simp: dial_succeeded_def split: if_splits)
next
  case (Attach h r p stage max_payload ok stage' a rt1)
  have "rt_handlers rt1 = rt_handlers rt" "rt_pending_streams rt1 = rt_pending_streams rt"
    using Attach(3) by (cases rule: attach_at_cases; simp)+
  with Attach(2) show ?thesis unfolding Attach(1) by (intro pending_inv_goto [OF assms(2), of h]) auto
next
  case (Unlock h r p stage max_payload ok a rt1)
  note am = attach_at_moves [OF Unlock(3), simplified]
  show ?thesis unfolding Unlock(1) by (rule pending_inv_end [OF assms(2), of h]) (use am Unlock(2) in simp_all)
next
  case (WatchForget p fl now rt1)
  from WatchForget(5) obtain c where "rt1 = (rt\<lparr>rt_now := now\<rparr>)\<lparr>rt_streams := (if map_of (rt_streams rt) (fl_id fl) = Some p
      then AList.delete (fl_id fl) (rt_streams rt) else rt_streams rt), rt_closed := c\<rparr>"
    by (rule forget_stream_cases) (simp cong: if_cong)
  then show ?thesis unfolding WatchForget(1) by (intro pending_inv_same [OF assms(2)]) auto
next
  case ShutdownEnd
  with assms(2) show ?thesis by (simp add: pending_inv_def clear_runtime_def)
qed (auto intro: pending_inv_goto [OF assms(2)] pending_inv_end [OF assms(2)] pending_inv_same [OF assms(2)])

section \<open>The identifiers that are live and those that were closed\<close>

definition admit_inv :: "tcp_transfer \<Rightarrow> runtime \<Rightarrow> bool" where
  "admit_inv cfg rt \<longleftrightarrow> (tt_max_streams cfg > 0 \<longrightarrow> int (length (rt_streams rt)) \<le> tt_max_streams cfg) \<and>
     bounded_inv (tt_max_streams cfg) (rt_now rt) (rt_closed rt) \<and>
     (\<forall>sid. map_of (rt_streams rt) sid \<noteq> None \<longrightarrow> map_of (cc_closed (rt_closed rt)) sid = None)"

lemma bounded_later: "bounded_inv m now c \<Longrightarrow> now \<le> later \<Longrightarrow> bounded_inv m later c"
  unfolding bounded_inv_def using closed_inv_later by blast

lemma refuse_closed_forgets:
  assumes "bounded_inv m now c" "now \<le> t" "0 \<le> m" "refuse_closed sid t c = (False, c')"
  shows "bounded_inv m t c'" "map_of (cc_closed c') sid = None" "map_of (cc_closed c) x = None \<Longrightarrow> map_of (cc_closed c') x = None"
proof -
  show "bounded_inv m t c'" using closed_event_inv [OF assms(1), of "Look sid t"] assms(2-4) by simp
  have "c' = remove_closed sid c \<or> c' = c \<and> map_of (cc_closed c) sid = None"
    using assms(4) by (auto simp: refuse_closed_def split: option.splits if_splits)
  moreover have "cc_closed (remove_closed sid c) = AList.delete sid (cc_closed c)"
    using remove_closed_simps(1) assms(1) unfolding bounded_inv_def by blast
  ultimately show "map_of (cc_closed c') sid = None" "map_of (cc_closed c) x = None \<Longrightarrow> map_of (cc_closed c') x = None"
    by (auto simp: delete_conv')
qed

lemma remember_closed_keeps:
  assumes "bounded_inv m now c" "now \<le> t" "0 \<le> m" "remember_closed m sid t c = Some c'"
  shows "bounded_inv m t c'" "x \<noteq> sid \<Longrightarrow> map_of (cc_closed c) x = None \<Longrightarrow> map_of (cc_closed c') x = None"
  using closed_event_inv [OF assms(1), of "Remember sid t"] assms(2-4)
    remember_closed_spec [of now c t m sid] assms(1) unfolding bounded_inv_def
  by (auto simp: restrict_map_def)

lemma prune_closed_keeps:
  assumes "bounded_inv m now c" "now \<le> t" "0 \<le> m"
  shows "bounded_inv m t (prune_closed t c)" "map_of (cc_closed c) x = None \<Longrightarrow> map_of (cc_closed (prune_closed t c)) x = None"
  using closed_event_inv [OF assms(1), of "Prune t"] assms(2,3) prune_closed_spec(3) [of now c t] assms(1) unfolding bounded_inv_def
  by auto

lemma admit_inv_same:
  assumes "admit_inv cfg rt" "rt_streams rt' = rt_streams rt" "rt_closed rt' = rt_closed rt" "rt_now rt \<le> rt_now rt'"
  shows "admit_inv cfg rt'"
  using assms bounded_later unfolding admit_inv_def by metis

text \<open>A stream leaves the map, and its identifier may be remembered.\<close>

lemma admit_inv_leaves:
  assumes "admit_inv cfg rt" "0 \<le> tt_max_streams cfg" "rt_now rt \<le> rt_now rt'" "rt_streams rt' = AList.delete sid (rt_streams rt)"
    and "rt_closed rt' = rt_closed rt \<or> remember_closed (tt_max_streams cfg) sid (rt_now rt') (rt_closed rt) = Some (rt_closed rt')"
  shows "admit_inv cfg rt'"
proof -
  note inv = assms(1) [unfolded admit_inv_def]
  have "length (rt_streams rt') \<le> length (rt_streams rt)" unfolding assms(4) by (rule length_delete_le)
  moreover have "bounded_inv (tt_max_streams cfg) (rt_now rt') (rt_closed rt')"
    using assms(5) inv bounded_later [OF _ assms(3)] remember_closed_keeps(1) [OF _ assms(3,2)] by metis
  moreover have "map_of (cc_closed (rt_closed rt')) x = None" if "map_of (rt_streams rt') x \<noteq> None" for x
  proof -
    have "x \<noteq> sid" "map_of (rt_streams rt) x \<noteq> None" using that by (auto simp: assms(4) delete_conv' split: if_splits)
    with inv assms(5) remember_closed_keeps(2) [OF _ assms(3,2)] show ?thesis by metis
  qed
  ultimately show ?thesis using inv unfolding admit_inv_def by force
qed

lemma admit_inv_step:
  assumes "0 \<le> tt_max_streams cfg" "ptr_inv rt" "req_inv rt" "life_inv rt" "admit_inv cfg rt" "server_step cfg rt rt'"
  shows "admit_inv cfg rt'"
  using assms(6)
proof (cases rule: server_step.cases)
  case (Accept b)
  from Accept(1) assms(5) show ?thesis by (cases rule: start_session_stream_cases) (auto intro!: admit_inv_same [OF assms(5)])
next
  case (LookRefused h r now e rt1)
  note inv = assms(5) [unfolded admit_inv_def]
  from LookRefused(4) obtain c where c: "rt1 = (rt\<lparr>rt_now := now\<rparr>)\<lparr>rt_closed := c\<rparr>" "c = rt_closed rt \<or> refuse_closed (op_stream r) now (rt_closed rt) = (False, c)"
    by (rule get_or_create_refused) simp
  have "bounded_inv (tt_max_streams cfg) now c" "map_of (cc_closed (rt_closed rt)) x = None \<Longrightarrow> map_of (cc_closed c) x = None" for x
    using c(2) inv bounded_later [OF _ LookRefused(3)] refuse_closed_forgets(1,3) [OF _ LookRefused(3) assms(1)] by metis+
  with inv show ?thesis unfolding LookRefused(1) admit_inv_def c(1) by auto
next
  case (LookFound h r now p rt1)
  note inv = assms(5) [unfolded admit_inv_def]
  from LookFound(4) obtain c where c: "rt1 = (rt\<lparr>rt_now := now\<rparr>)\<lparr>rt_closed := c\<rparr>" "refuse_closed (op_stream r) now (rt_closed rt) = (False, c)"
    by (cases rule: get_or_create_cases) auto
  have "bounded_inv (tt_max_streams cfg) now c" "map_of (cc_closed (rt_closed rt)) x = None \<Longrightarrow> map_of (cc_closed c) x = None" for x
    using refuse_closed_forgets(1,3) [OF _ LookFound(3) assms(1) c(2)] inv by blast+
  with inv show ?thesis unfolding LookFound(1) admit_inv_def c(1) by auto
next
  case (LookCreated h r now p rt1)
  note inv = assms(5) [unfolded admit_inv_def]
  from LookCreated(4) obtain c where c: "refuse_closed (op_stream r) now (rt_closed rt) = (False, c)" "map_of (rt_streams rt) (op_stream r) = None"
    "tt_max_streams cfg > 0 \<Longrightarrow> int (length (rt_streams rt)) < tt_max_streams cfg"
    "rt1 = (rt\<lparr>rt_now := now\<rparr>)\<lparr>rt_closed := c, rt_streams := AList.update (op_stream r) p (rt_streams rt),
       rt_store := (rt_store rt)(p := new_stream r), rt_next := p + 1\<rparr>"
    by (cases rule: get_or_create_cases) auto
  have closed: "bounded_inv (tt_max_streams cfg) now c" "map_of (cc_closed c) (op_stream r) = None"
    "map_of (cc_closed (rt_closed rt)) x = None \<Longrightarrow> map_of (cc_closed c) x = None" for x
    using refuse_closed_forgets [OF _ LookCreated(3) assms(1) c(1)] inv by blast+
  have "length (AList.update k v xs) = Suc (length xs)" if "map_of xs k = None" for k and v :: nat and xs :: "(stream_id \<times> nat) list"
    using that by (induction xs) (auto split: if_splits)
  with c(2) have "length (AList.update (op_stream r) p (rt_streams rt)) = Suc (length (rt_streams rt))" by simp
  with inv c(3) closed show ?thesis unfolding LookCreated(1) admit_inv_def c(4) by (auto simp: update_conv' split: if_splits)
next
  case (DialFailed h r p now e rt1)
  from DialFailed(4) obtain c where "rt1 = on_stream p (\<lambda>s. s\<lparr>sm_err := Some e, sm_ready := True\<rparr>)
      ((rt\<lparr>rt_now := now\<rparr>)\<lparr>rt_streams := AList.delete (op_stream r) (rt_streams rt), rt_closed := c\<rparr>)"
    "c = rt_closed rt \<or> remember_closed (tt_max_streams cfg) (op_stream r) now (rt_closed rt) = Some c"
    by (rule dial_failed_cases) auto
  with DialFailed(3) show ?thesis unfolding DialFailed(1) by (intro admit_inv_leaves [OF assms(5,1), of _ "op_stream r"]) simp_all
next
  case (DialRefused h r p e rt1)
  then show ?thesis unfolding DialRefused(1)
    by (intro admit_inv_leaves [OF assms(5,1), of _ "op_stream r"]) (auto simp: dial_succeeded_def split: if_splits)
next
  case (DialDone h r p rt1)
  then show ?thesis unfolding DialDone(1) by (intro admit_inv_same [OF assms(5)]) (auto simp: dial_succeeded_def split: if_splits)
next
  case (Attach h r p stage max_payload ok stage' a rt1)
  have "rt_streams rt1 = rt_streams rt" "rt_closed rt1 = rt_closed rt" "rt_now rt1 = rt_now rt"
    using Attach(3) by (cases rule: attach_at_cases; simp)+
  then show ?thesis unfolding Attach(1) by (intro admit_inv_same [OF assms(5)]) auto
next
  case (Unlock h r p stage max_payload ok a rt1)
  note am = attach_at_moves [OF Unlock(3), simplified]
  show ?thesis unfolding Unlock(1) by (rule admit_inv_same [OF assms(5)]) (use am in simp_all)
next
  case (WatchForget p fl now rt1)
  have p: "map_of (rt_streams rt) (rt_ids rt p) = Some p" using life_invD(3) [OF assms(4), of p] WatchForget(2) by (simp add: stream_ok_def Let_def)
  have id: "fl_id fl = rt_ids rt p" using req_invD(4) [OF assms(3) WatchForget(3)] .
  from WatchForget(5) obtain c where "rt1 = (rt\<lparr>rt_now := now\<rparr>)\<lparr>rt_streams := AList.delete (rt_ids rt p) (rt_streams rt), rt_closed := c\<rparr>"
    "c = rt_closed rt \<or> remember_closed (tt_max_streams cfg) (rt_ids rt p) now (rt_closed rt) = Some c"
    by (rule forget_stream_cases) (auto simp: id p)
  with WatchForget(4) show ?thesis unfolding WatchForget(1) by (intro admit_inv_leaves [OF assms(5,1), of _ "rt_ids rt p"]) simp_all
next
  case (PruneClosed now)
  note inv = assms(5) [unfolded admit_inv_def]
  have "bounded_inv (tt_max_streams cfg) now (prune_closed now (rt_closed rt))"
    "map_of (cc_closed (rt_closed rt)) x = None \<Longrightarrow> map_of (cc_closed (prune_closed now (rt_closed rt))) x = None" for x
    using prune_closed_keeps [OF _ PruneClosed(2) assms(1)] inv by blast+
  with inv show ?thesis unfolding PruneClosed(1) admit_inv_def by auto
next
  case ShutdownEnd
  show ?thesis unfolding ShutdownEnd(1) admit_inv_def using empty_bounded [OF assms(1)] by (simp add: clear_runtime_def)
qed (auto intro: admit_inv_same [OF assms(5)])

section \<open>Every reachable runtime\<close>

definition server_inv :: "tcp_transfer \<Rightarrow> runtime \<Rightarrow> bool" where
  "server_inv cfg rt \<longleftrightarrow> ptr_inv rt \<and> req_inv rt \<and> life_inv rt \<and> lock_inv rt \<and> carriers_inv cfg rt \<and> pending_inv cfg rt \<and> admit_inv cfg rt"

lemma server_reachable_inv:
  assumes "server_reachable cfg rt" "0 \<le> tt_max_streams cfg"
  shows "server_inv cfg rt"
  using assms(1)
proof (induction rule: server_reachable.induct)
  case 1
  have "bounded_inv (tt_max_streams cfg) 0 empty_closed" using empty_bounded [OF assms(2)] .
  then have "admit_inv cfg new_runtime" by (simp add: admit_inv_def new_runtime_def)
  moreover have "lock_inv new_runtime" "carriers_inv cfg new_runtime" "pending_inv cfg new_runtime"
    by (auto simp: lock_inv_def carriers_inv_def pending_inv_def new_runtime_def new_stream_def)
  ultimately show ?case using ptr_inv_new req_inv_new life_inv_new by (simp add: server_inv_def)
next
  case (2 rt rt')
  then have inv: "ptr_inv rt" "req_inv rt" "life_inv rt" "lock_inv rt" "carriers_inv cfg rt" "pending_inv cfg rt" "admit_inv cfg rt"
    by (simp_all add: server_inv_def)
  show ?case unfolding server_inv_def
    using ptr_inv_step [OF inv(1) 2(2)] req_inv_step [OF inv(1,2) 2(2)] life_inv_step [OF inv(1-3) 2(2)] lock_inv_step [OF inv(1,4) 2(2)]
      carriers_inv_step [OF inv(5) 2(2)] pending_inv_step [OF inv(1,6) 2(2)] admit_inv_step [OF assms(2) inv(1-3,7) 2(2)] by blast
qed

lemma server_reachableD:
  assumes "server_reachable cfg rt" "0 \<le> tt_max_streams cfg"
  shows "ptr_inv rt" "req_inv rt" "life_inv rt" "lock_inv rt" "carriers_inv cfg rt" "pending_inv cfg rt" "admit_inv cfg rt"
  using server_reachable_inv [OF assms] by (simp_all add: server_inv_def)

subsection \<open>A run with one carrier\<close>

definition sample_transfer :: tcp_transfer where
  "sample_transfer = (tr_tcp (transfer_apply_defaults empty_transfer))\<lparr>tt_max_streams := 1, tt_max_carriers_per_stream := 1, tt_max_pending_streams := 2\<rparr>"

lemma sample_transfer_limits [simp]: "tt_max_streams sample_transfer = 1" "tt_max_carriers_per_stream sample_transfer = 1"
    "tt_max_pending_streams sample_transfer = 2"
  by (simp_all add: sample_transfer_def)

definition sample_id :: stream_id where "sample_id = replicate 16 7"
definition sample_request :: request where
  "sample_request = \<lparr>op_stream = sample_id, op_destination = ''ab.c:80'', op_principal = [1]\<rparr>"

definition sample_accepted :: runtime where
  "sample_accepted = new_runtime\<lparr>rt_pending_streams := 1, rt_next := 1, rt_handlers := [0 \<mapsto> ReadingOpen]\<rparr>"

definition sample_looking :: runtime where
  "sample_looking = new_runtime\<lparr>rt_pending_streams := 1, rt_next := 1, rt_handlers := [0 \<mapsto> Looking sample_request],
     rt_requests := [0 \<mapsto> sample_request]\<rparr>"

definition sample_dialing :: runtime where
  "sample_dialing = new_runtime\<lparr>rt_streams := [(sample_id, 1)], rt_store := (rt_store new_runtime)(1 := new_stream sample_request), rt_next := 2,
     rt_pending_streams := 1, rt_handlers := [0 \<mapsto> Dialing sample_request 1], rt_requests := [0 \<mapsto> sample_request], rt_dials := [1],
     rt_ids := (\<lambda>_. [])(1 := sample_id)\<rparr>"

lemma sample_open_frame: "\<exists>f. f_type f = FrameOpen \<and> f_stream f = sample_id \<and> destination_for_open f = Inr ''ab.c:80'' \<and> frame_ok 0 f"
proof -
  have "parse_addr ''ab.c'' = None" by code_simp
  then have d: "dest_ok sample_dest" "\<not> claimed sample_dest"
    using new_destination_dest_ok [OF sample_destination] by (simp_all add: claimed_def)
  obtain payload where enc: "encode_destination sample_dest = Inr payload" using encode_forms [OF d(1)] by blast
  note f = open_frame_valid [OF d enc, of sample_id, simplified sample_id_def zero_stream_def, simplified]
  have "destination_string sample_dest = ''ab.c:80''" by code_simp
  moreover have "decode_destination payload = Inr sample_dest" using decode_encode_host [OF d(1) enc] dest_ok_reconstruct [OF d] by simp
  ultimately show ?thesis
    using f encode_destination_length [OF d(1) enc]
    by (intro exI [of _ "\<lparr>f_type = FrameOpen, f_direction = DirectionClientToServer, f_stream = sample_id, f_offset = 0, f_payload = payload\<rparr>"])
      (simp add: destination_for_open_def frame_ok_def sample_id_def clamp_payload_def MaxPayloadSize_def)
qed

text \<open>The run from \<open>sample_looking\<close> on, for any property that its steps keep.\<close>

lemma sample_dialing_from:
  assumes "P sample_looking"
    and keeps: "\<And>rt rt'. P rt \<Longrightarrow> server_step sample_transfer rt rt' \<Longrightarrow> dom (rt_handlers rt') \<subseteq> dom (rt_handlers rt) \<Longrightarrow>
      rt_requests rt' = rt_requests rt \<Longrightarrow> P rt'"
  shows "P sample_dialing"
proof -
  have look: "get_or_create sample_transfer sample_request 0 (sample_looking\<lparr>rt_now := 0\<rparr>) =
      (Created 1, sample_looking\<lparr>rt_streams := [(sample_id, 1)], rt_store := (rt_store new_runtime)(1 := new_stream sample_request), rt_next := 2\<rparr>)"
    by (simp add: get_or_create_def is_closing_def sample_looking_def new_runtime_def refuse_closed_def empty_closed_def Let_def)
      (simp add: sample_request_def)
  have "server_step sample_transfer sample_looking sample_dialing"
    using server_step.LookCreated [of sample_looking 0 sample_request 0, OF _ _ look]
    by (simp add: sample_looking_def sample_dialing_def goto_def new_runtime_def sample_request_def)
  from keeps [OF assms(1) this] show ?thesis by (simp add: sample_looking_def sample_dialing_def new_runtime_def)
qed

lemma sample_looking_step: "server_step sample_transfer sample_accepted sample_looking"
proof -
  obtain f where f: "f_type f = FrameOpen" "f_stream f = sample_id" "destination_for_open f = Inr ''ab.c:80''" "frame_ok 0 f"
    using sample_open_frame by blast
  have r: "sample_request = \<lparr>op_stream = f_stream f, op_destination = ''ab.c:80'', op_principal = [1]\<rparr>"
    by (simp add: sample_request_def f(2))
  have "server_step sample_transfer sample_accepted (goto 0 (Looking sample_request)
      (sample_accepted\<lparr>rt_requests := (rt_requests sample_accepted)(0 \<mapsto> sample_request)\<rparr>))"
    by (rule server_step.Open [OF _ read_frame_bytes [OF f(4), of "[]" EOF] f(1,3) r]) (simp add: sample_accepted_def)
  moreover have "goto 0 (Looking sample_request) (sample_accepted\<lparr>rt_requests := (rt_requests sample_accepted)(0 \<mapsto> sample_request)\<rparr>) = sample_looking"
    by (simp add: goto_def sample_accepted_def sample_looking_def new_runtime_def)
  ultimately show ?thesis by simp
qed

lemma sample_dialing_reachable: "server_reachable sample_transfer sample_dialing"
proof -
  have "server_step sample_transfer new_runtime sample_accepted"
    by (rule server_step.Accept [of _ _ True])
      (simp add: start_session_stream_def is_closing_def new_runtime_def sample_accepted_def)
  then have "server_reachable sample_transfer sample_accepted" by (rule server_reachable.intros(2) [OF server_reachable.intros(1)])
  then have "server_reachable sample_transfer sample_looking" by (rule server_reachable.intros(2)) (rule sample_looking_step)
  then show ?thesis by (rule sample_dialing_from [where P = "server_reachable sample_transfer"]) (rule server_reachable.intros(2))
qed

definition sample_at :: "stream_pc \<Rightarrow> server_stream \<Rightarrow> runtime" where
  "sample_at pc s = sample_dialing\<lparr>rt_handlers := [0 \<mapsto> pc], rt_store := (rt_store new_runtime)(1 := s)\<rparr>"

definition sample_flow :: flow where
  "sample_flow = new_flow sample_id DirectionServerToClient (flow_config_of sample_transfer)"

definition sample_carrying :: flow where
  "sample_carrying = (set_state sample_flow 0 \<lparr>st_next_sequence = 0, st_in_flight = None, st_written = None,
     st_written_offset = 0, st_written_fin = False\<rparr>)\<lparr>fl_carriers := [0]\<rparr>"

definition sample_ready :: server_stream where
  "sample_ready = (new_stream sample_request)\<lparr>sm_flow := Some sample_flow,
     sm_timer := duration_of_millis (tt_open_timeout_millis sample_transfer) > 0, sm_ready := True, sm_watcher := Watching\<rparr>"

definition sample_attached :: server_stream where
  "sample_attached = sample_ready\<lparr>sm_attach_mu := Some 0, sm_flow := Some sample_carrying, sm_started := True, sm_timer := False\<rparr>"

lemma sample_at_simps [simp]:
  "rt_handlers (sample_at pc s) = [0 \<mapsto> pc]" "rt_store (sample_at pc s) 1 = s" "rt_closing (sample_at pc s) = False"
  "rt_ctx (sample_at pc s) = None" "rt_streams (sample_at pc s) = [(sample_id, 1)]" "goto 0 pc' (sample_at pc s) = sample_at pc' s"
  "rt_store (sample_at pc s) (Suc 0) = s"
  "on_stream 1 f (sample_at pc s) = sample_at pc (f s)" "on_stream (Suc 0) f (sample_at pc s) = sample_at pc (f s)" "is_closing (sample_at pc s) = False"
  by (simp_all add: sample_at_def sample_dialing_def new_runtime_def goto_def on_stream_def is_closing_def)

lemma sample_attach: "attach_limited sample_flow 0 0 1 = Inr (MaxPayload32, None, sample_carrying)"
  by (simp add: attach_limited_def sample_flow_def sample_carrying_def new_flow_def set_state_def Let_def)

lemma sample_attached_from:
  assumes "P sample_dialing"
    and keeps: "\<And>rt rt'. P rt \<Longrightarrow> server_step sample_transfer rt rt' \<Longrightarrow> dom (rt_handlers rt') \<subseteq> dom (rt_handlers rt) \<Longrightarrow>
      rt_requests rt' = rt_requests rt \<Longrightarrow> P rt'"
  shows "P (sample_at (InAttach sample_request 1 Starting) sample_attached)"
proof -
  let ?r = "sample_request" and ?locked = "sample_ready\<lparr>sm_attach_mu := Some 0\<rparr>"
  have requests [simp]: "rt_requests (sample_at pc s) = [0 \<mapsto> sample_request]" for pc s
    by (simp add: sample_at_def sample_dialing_def)
  have start: "sample_dialing = sample_at (Dialing ?r 1) (new_stream ?r)"
    by (simp add: sample_at_def sample_dialing_def new_runtime_def)
  have dial: "dial_succeeded sample_transfer ?r 1 sample_dialing = (None, sample_at (Dialing ?r 1) sample_ready)"
    by (simp add: dial_succeeded_def start sample_ready_def sample_flow_def) (simp add: new_stream_def sample_request_def)
  have "server_step sample_transfer sample_dialing (sample_at (Locking ?r 1) sample_ready)"
    using server_step.DialDone [OF _ dial, of 0] by (simp add: start)
  from keeps [OF assms(1) this] have 1: "P (sample_at (Locking ?r 1) sample_ready)" by (simp add: start)
  have "sm_attach_mu sample_ready = None" by (simp add: sample_ready_def new_stream_def)
  then have "server_step sample_transfer (sample_at (Locking ?r 1) sample_ready) (sample_at (InAttach ?r 1 CheckClosing) ?locked)"
    using server_step.Lock [of "sample_at (Locking ?r 1) sample_ready" 0 ?r 1] by simp
  from keeps [OF 1 this] have 2: "P (sample_at (InAttach ?r 1 CheckClosing) ?locked)" by simp
  have attach: "P (sample_at (InAttach ?r 1 stage') s')"
    if "P (sample_at (InAttach ?r 1 stage) s)"
      "attach_at sample_transfer 0 True 0 1 stage (sample_at (InAttach ?r 1 stage) s) = (Some stage', a, sample_at (InAttach ?r 1 stage) s')"
    for stage s stage' s' a
    using keeps [OF that(1) server_step.Attach [OF _ that(2)]] by simp
  have fields: "sm_done ?locked = False" "sm_flow ?locked = Some sample_flow" "fl_carriers sample_flow = []"
    by (simp_all add: sample_ready_def new_stream_def sample_flow_def new_flow_def)
  from 2 have "P (sample_at (InAttach ?r 1 CheckDone) ?locked)" by (rule attach) simp
  then have "P (sample_at (InAttach ?r 1 CheckCarriers) ?locked)" by (rule attach) (use fields in simp)
  then have "P (sample_at (InAttach ?r 1 Answering) ?locked)" by (rule attach) (use fields in simp)
  then have "P (sample_at (InAttach ?r 1 Attaching) ?locked)" by (rule attach) simp
  then show ?thesis by (rule attach) (use fields in \<open>simp add: sample_attach sample_attached_def\<close>)
qed

lemma sample_attached_reachable: "server_reachable sample_transfer (sample_at (InAttach sample_request 1 Starting) sample_attached)"
  by (rule sample_attached_from [where P = "server_reachable sample_transfer", OF sample_dialing_reachable]) (rule server_reachable.intros(2))

section \<open>What a flow does alone\<close>

text \<open>
  \<open>flow_moves\<close> is sound for the flow of \<^verbatim>\<open>internal/tcpstream/stream.go\<close>: every step of its send loops, of its
  inbound goroutine and of its closing, attaching apart, is one.
\<close>

lemma ack_moves:
  "apply_acknowledgement fl offset fin = (skipped, c, fl') \<Longrightarrow> flow_moves fl fl'"
  "apply_deferred_acknowledgement fl = (skipped, c, fl') \<Longrightarrow> flow_moves fl fl'"
  "acknowledge fl carrier offset fin = (skipped, c, fl') \<Longrightarrow> flow_moves fl fl'"
  by (auto simp: apply_acknowledgement_def apply_deferred_acknowledgement_def acknowledge_def prune_history_def defer_acknowledgement_def
      flow_moves_def Let_def split: if_splits option.splits prod.splits)

lemma remember_moves: "remember fl f = (res, skipped, fl') \<Longrightarrow> flow_moves fl fl'"
  by (auto simp: remember_def remember_append_def prune_history_def flow_moves_def Let_def split: if_splits prod.splits)

lemma flow_moves_trans: "flow_moves a b \<Longrightarrow> flow_moves b c \<Longrightarrow> flow_moves a c"
  by (auto simp: flow_moves_def)

lemma set_state_moves: "flow_moves fl (set_state fl c st)"
  by (simp add: set_state_def flow_moves_def)

lemma pick_moves: "send_pick fl c = (r, fl') \<Longrightarrow> flow_moves fl fl'"
  by (auto simp: send_pick_def set_state_moves split: if_splits option.splits)

lemma send_done_moves: "send_done fl c item = (skipped, b, fl') \<Longrightarrow> flow_moves fl fl'"
proof (cases "map_of (fl_carrier_states fl) c")
  case None
  then show "send_done fl c item = (skipped, b, fl') \<Longrightarrow> flow_moves fl fl'" by (simp add: send_done_def)
next
  case (Some st0)
  assume sent: "send_done fl c item = (skipped, b, fl')"
  from send_done_after_write [OF Some, of item] obtain st where
    "send_done fl c item = apply_deferred_acknowledgement (after_write fl c st item)" by blast
  with ack_moves(2) sent have "flow_moves (after_write fl c st item) fl'" by simp
  moreover have "flow_moves fl (after_write fl c st item)" by (simp add: flow_moves_def after_write_def set_state_def Let_def)
  ultimately show ?thesis by (rule flow_moves_trans [rotated])
qed

lemma other_op_moves: "other_op reader fl fl' calls \<Longrightarrow> flow_moves fl fl'"
proof (induction rule: other_op.induct)
  case (op_deliver fl w f res fl' w')
  then show ?case
    by (auto simp: deliver_inbound_def flow_moves_def split: if_splits option.splits sum.splits prod.splits)
qed (auto simp: flow_moves_def start_flow_def finish_remote_def carrier_frame_written_def begin_inbound_def release_inbound_def record_ack_def
    reset_after_last_carrier_def reset_after_carrier_failure_def claim_after_carriers_def claim_reset_def Let_def split: if_splits prod.splits)

lemma source_step_moves: "source_step s s' \<Longrightarrow> flow_moves (sd_flow s) (sd_flow s')"
proof (induction rule: source_step.induct)
  case (rd_start fl' s fails)
  with other_op_moves [OF op_start] show ?case by simp
next
  case (rd_data s p err f res skipped fl')
  then show ?case by (auto dest: remember_moves)
next
  case (rd_fin s f res skipped fl')
  then show ?case by (auto dest: remember_moves)
next
  case (rd_eof s)
  then show ?case using other_op_moves [OF op_local_fin] by simp
next
  case (rd_fin_lost s r fl')
  then show ?case using other_op_moves [OF op_carrier_failure] by simp
qed simp_all

lemma detach_moves: "detach fl c preserve = (skipped, b, resend, fl') \<Longrightarrow> flow_moves fl fl'"
  by (auto simp: detach_def flow_moves_def claim_after_carriers_def claim_reset_def prune_history_def Let_def
      length_remove1 split: if_splits prod.splits dest: set_remove1_subset [THEN subsetD] notin_set_remove1)

lemma sender_step_moves:
  assumes "sender_step s s'"
  shows "flow_moves (sd_flow s) (sd_flow s') \<or> (\<exists>c m x a. attach_limited (sd_flow s) c m x = Inr (a, fl_latest_ack (sd_flow s), sd_flow s'))"
  using assms
proof (cases rule: sender_step.cases)
  case (sn_attach c max_payload max_carriers m ack fl')
  then have "ack = fl_latest_ack (sd_flow s)" by (auto simp: attach_limited_def Let_def split: if_splits)
  with sn_attach show ?thesis by auto
next
  case (sn_reset err notify first fl')
  with claim_reset_moves [of "sd_flow s" err notify] show ?thesis by simp
next
  case (sn_finish carriers_notify fl')
  with finish_reset_moves(1) [of "sd_flow s"] show ?thesis by simp
qed (auto dest: remember_moves pick_moves send_done_moves ack_moves detach_moves other_op_moves source_step_moves)

section \<open>Properties\<close>

text \<open>
  C28. The server keeps every limit it is configured with, in every interleaving: the streams in its map,
  the goroutines that serve streams not yet attached, the carriers of each stream, and the identifiers
  it remembers; the counter of pending streams is exact.
\<close>

theorem server_keeps_limits:
  assumes "server_reachable cfg rt" "0 \<le> tt_max_streams cfg"
  shows "(tt_max_streams cfg > 0 \<longrightarrow> int (length (rt_streams rt)) \<le> tt_max_streams cfg) \<and>
    rt_pending_streams rt = int (card (dom (rt_handlers rt))) \<and>
    (tt_max_pending_streams cfg > 0 \<longrightarrow> rt_pending_streams rt \<le> tt_max_pending_streams cfg) \<and>
    (\<forall>p fl. sm_flow (rt_store rt p) = Some fl \<longrightarrow> tt_max_carriers_per_stream cfg > 0 \<longrightarrow>
       int (length (fl_carriers fl)) \<le> tt_max_carriers_per_stream cfg) \<and>
    int (length (cc_closed (rt_closed rt))) \<le> closed_limit (tt_max_streams cfg)"
  using server_reachableD(5-7) [OF assms] unfolding carriers_inv_def pending_inv_def admit_inv_def bounded_inv_def by blast

lemma server_keeps_limits_witness:
  "int (length (fl_carriers sample_carrying)) \<le> 1 \<and> rt_pending_streams (sample_at (InAttach sample_request 1 Starting) sample_attached) = 1"
proof -
  have "sm_flow (rt_store (sample_at (InAttach sample_request 1 Starting) sample_attached) 1) = Some sample_carrying"
    by (simp add: sample_attached_def)
  then show ?thesis using server_keeps_limits [OF sample_attached_reachable] by fastforce
qed

text \<open>
  C26. A stream is shared only by carriers that asked for the same thing: all connections attached to one
  stream sent the same identifier and the same destination, over sessions of the same principal, which
  are those the stream was created for.
\<close>

theorem carriers_agree:
  assumes "server_reachable cfg rt" "0 \<le> tt_max_streams cfg"
    and "sm_flow (rt_store rt p) = Some fl" "h \<in> set (fl_carriers fl)" "h' \<in> set (fl_carriers fl)"
  shows "\<exists>r. rt_requests rt h = Some r \<and> rt_requests rt h' = Some r \<and> op_stream r = fl_id fl \<and>
    op_destination r = sm_destination (rt_store rt p) \<and> op_principal r = sm_principal (rt_store rt p)"
proof -
  note req = req_invD [OF server_reachableD(2) [OF assms(1,2)]]
  obtain r r' where r: "rt_requests rt h = Some r" "op_stream r = rt_ids rt p" "matches r (rt_store rt p)"
    "rt_requests rt h' = Some r'" "op_stream r' = rt_ids rt p" "matches r' (rt_store rt p)"
    using req(5) [OF assms(3)] assms(4,5) by meson
  then have "r' = r" by (simp add: matches_def)
  with r req(4) [OF assms(3)] show ?thesis by (simp add: matches_def)
qed

lemma carriers_agree_witness: "fl_id sample_carrying = sample_id \<and> sm_destination sample_attached = ''ab.c:80''"
proof -
  have "sm_flow (rt_store (sample_at (InAttach sample_request 1 Starting) sample_attached) 1) = Some sample_carrying"
      "0 \<in> set (fl_carriers sample_carrying)" "rt_requests (sample_at (InAttach sample_request 1 Starting) sample_attached) 0 = Some sample_request"
    by (simp_all add: sample_attached_def sample_carrying_def sample_at_def sample_dialing_def)
  with carriers_agree [OF sample_attached_reachable _ this(1,2,2)] show ?thesis by (simp add: sample_request_def)
qed

text \<open>
  C27. A destination is dialled once per stream and there is one live connection per identifier: no
  stream is dialled twice, and of two streams whose flows are not over the identifiers differ.
\<close>

theorem one_dial_per_stream:
  assumes "server_reachable cfg rt" "0 \<le> tt_max_streams cfg"
  shows "distinct (rt_dials rt) \<and>
    (\<forall>h r p. rt_handlers rt h = Some (Dialing r p) \<longrightarrow> p \<in> set (rt_dials rt) \<and> map_of (rt_streams rt) (op_stream r) = Some p) \<and>
    (\<forall>p q fl fl'. sm_flow (rt_store rt p) = Some fl \<longrightarrow> sm_flow (rt_store rt q) = Some fl' \<longrightarrow>
       \<not> sm_done (rt_store rt p) \<longrightarrow> \<not> sm_done (rt_store rt q) \<longrightarrow> fl_id fl = fl_id fl' \<longrightarrow> p = q)"
proof (intro conjI allI impI)
  note life = life_invD [OF server_reachableD(3) [OF assms]]
  show "distinct (rt_dials rt)" by (fact life(5))
  show "p \<in> set (rt_dials rt)" "map_of (rt_streams rt) (op_stream r) = Some p" if "rt_handlers rt h = Some (Dialing r p)" for h r p
    using life(2) [OF that] by (simp_all add: stage_ok_def)
  have live: "map_of (rt_streams rt) (fl_id fl) = Some p" if "sm_flow (rt_store rt p) = Some fl" "\<not> sm_done (rt_store rt p)" for p fl
    using life(3) [of p] that req_invD(4) [OF server_reachableD(2) [OF assms] that(1)]
    by (cases "sm_watcher (rt_store rt p)") (simp_all add: stream_ok_def Let_def)
  show "p = q" if "sm_flow (rt_store rt p) = Some fl" "sm_flow (rt_store rt q) = Some fl'"
    "\<not> sm_done (rt_store rt p)" "\<not> sm_done (rt_store rt q)" "fl_id fl = fl_id fl'" for p q fl fl'
    using live [OF that(1,3)] live [OF that(2,4)] that(5) by simp
qed

lemma one_dial_per_stream_witness: "map_of (rt_streams sample_dialing) (op_stream sample_request) = Some 1"
proof -
  have "rt_handlers sample_dialing 0 = Some (Dialing sample_request 1)" by (simp add: sample_dialing_def)
  with one_dial_per_stream [OF sample_dialing_reachable] show ?thesis by simp
qed

text \<open>
  No identifier is live and closed at once: an identifier in the map of streams is not remembered as
  closed, so a stream that ended is refused as long as it is remembered and one that lives is never.
\<close>

theorem live_or_closed:
  assumes "server_reachable cfg rt" "0 \<le> tt_max_streams cfg" "map_of (rt_streams rt) sid \<noteq> None"
  shows "map_of (cc_closed (rt_closed rt)) sid = None \<and> refuse_closed sid now (rt_closed rt) = (False, rt_closed rt)"
  using server_reachableD(7) [OF assms(1,2)] assms(3) unfolding admit_inv_def by (simp add: refuse_closed_def)

lemma live_or_closed_witness: "refuse_closed sample_id 5 (rt_closed sample_dialing) = (False, rt_closed sample_dialing)"
  by (rule conjunct2 [OF live_or_closed [OF sample_dialing_reachable]]) (simp_all add: sample_dialing_def)

lemma remember_returns:
  assumes "admit_inv cfg rt" "0 \<le> tt_max_streams cfg" "rt_now rt \<le> now"
  shows "\<exists>c. remember_closed (tt_max_streams cfg) sid now (rt_closed rt) = Some c"
  using closed_event_inv [of "tt_max_streams cfg" "rt_now rt" "rt_closed rt" "Remember sid now"] assms by (auto simp: admit_inv_def)

text \<open>
  Nobody waits for ever for a stream: a goroutine that found a stream sees it ready, or exactly one
  other goroutine is dialling it, whose end, whether the dial fails or succeeds, makes it ready.
\<close>

theorem waiters_are_woken:
  assumes "server_reachable cfg rt" "0 \<le> tt_max_streams cfg" "rt_handlers rt h = Some (Waiting r p)" "rt_now rt \<le> now"
  shows "sm_ready (rt_store rt p) \<or> (\<exists>k r'. rt_handlers rt k = Some (Dialing r' p) \<and>
    (\<forall>j r''. rt_handlers rt j = Some (Dialing r'' p) \<longrightarrow> j = k) \<and>
    (\<exists>rt'. dial_failed cfg r' p e now (rt\<lparr>rt_now := now\<rparr>) = Some rt' \<and> sm_ready (rt_store rt' p)) \<and>
    sm_ready (rt_store (snd (dial_succeeded cfg r' p rt)) p))"
proof (cases "sm_ready (rt_store rt p)")
  case False
  note life = life_invD [OF server_reachableD(3) [OF assms(1,2)]]
  obtain k r' where k: "rt_handlers rt k = Some (Dialing r' p)" using life(2) [OF assms(3)] False by (auto simp: stage_ok_def)
  obtain c where "remember_closed (tt_max_streams cfg) (op_stream r') now (rt_closed rt) = Some c"
    using remember_returns [OF server_reachableD(7) [OF assms(1,2)] assms(2,4)] by blast
  then have "\<exists>rt'. dial_failed cfg r' p e now (rt\<lparr>rt_now := now\<rparr>) = Some rt' \<and> sm_ready (rt_store rt' p)"
    "sm_ready (rt_store (snd (dial_succeeded cfg r' p rt)) p)"
    by (simp_all add: dial_failed_def Let_def dial_succeeded_def)
  with k life(1) show ?thesis by blast
qed simp

definition sample_waiting :: runtime where
  "sample_waiting = sample_dialing\<lparr>rt_next := 3, rt_pending_streams := 2,
     rt_handlers := [0 \<mapsto> Dialing sample_request 1, 2 \<mapsto> Waiting sample_request 1],
     rt_requests := [0 \<mapsto> sample_request, 2 \<mapsto> sample_request]\<rparr>"

lemma sample_waiting_reachable: "server_reachable sample_transfer sample_waiting"
proof -
  let ?rt1 = "sample_dialing\<lparr>rt_pending_streams := 2, rt_next := 3, rt_handlers := [0 \<mapsto> Dialing sample_request 1, 2 \<mapsto> ReadingOpen]\<rparr>"
  let ?rt2 = "goto 2 (Looking sample_request) (?rt1\<lparr>rt_requests := (rt_requests ?rt1)(2 \<mapsto> sample_request)\<rparr>)"
  have "server_step sample_transfer sample_dialing ?rt1"
    by (rule server_step.Accept [of _ _ True])
      (simp add: start_session_stream_def is_closing_def sample_dialing_def new_runtime_def)
  note 1 = server_reachable.intros(2) [OF sample_dialing_reachable this]
  obtain f where f: "f_type f = FrameOpen" "f_stream f = sample_id" "destination_for_open f = Inr ''ab.c:80''" "frame_ok 0 f"
    using sample_open_frame by blast
  have r: "sample_request = \<lparr>op_stream = f_stream f, op_destination = ''ab.c:80'', op_principal = [1]\<rparr>"
    by (simp add: sample_request_def f(2))
  have "server_step sample_transfer ?rt1 ?rt2"
    by (rule server_step.Open [OF _ read_frame_bytes [OF f(4), of "[]" EOF] f(1,3) r]) simp
  note 2 = server_reachable.intros(2) [OF 1 this]
  have look: "get_or_create sample_transfer sample_request 0 (?rt2\<lparr>rt_now := 0\<rparr>) = (Found 1, ?rt2)"
    by (simp add: get_or_create_def is_closing_def sample_dialing_def new_runtime_def refuse_closed_def empty_closed_def Let_def goto_def)
      (simp add: sample_request_def new_stream_def)
  have "server_step sample_transfer ?rt2 sample_waiting"
    using server_step.LookFound [of ?rt2 2 sample_request 0, OF _ _ look]
    by (simp add: sample_waiting_def goto_def sample_dialing_def new_runtime_def fun_upd_twist)
  with 2 show ?thesis by (rule server_reachable.intros(2))
qed

lemma waiters_are_woken_witness:
  "\<exists>rt'. dial_failed sample_transfer sample_request 1 plain_error 5 (sample_waiting\<lparr>rt_now := 5\<rparr>) = Some rt' \<and> sm_ready (rt_store rt' 1)"
proof -
  have "rt_handlers sample_waiting 2 = Some (Waiting sample_request 1)" "rt_now sample_waiting \<le> 5" "\<not> sm_ready (rt_store sample_waiting 1)"
    by (simp_all add: sample_waiting_def sample_dialing_def new_runtime_def new_stream_def)
  moreover have "r' = sample_request" if "rt_handlers sample_waiting k = Some (Dialing r' 1)" for k r'
    using that by (simp add: sample_waiting_def split: if_splits)
  ultimately show ?thesis using waiters_are_woken [OF sample_waiting_reachable, of 2 sample_request 1 5 plain_error] by auto
qed

text \<open>
  The open timer never takes a stream from a carrier: when it resets the flow of a stream, no
  connection was ever attached to it.
\<close>

theorem timer_spares_carriers:
  assumes "server_reachable cfg rt" "0 \<le> tt_max_streams cfg"
    and "sm_flow (rt_store rt p) = Some fl" "sm_flow (rt_store (expire_unstarted p rt) p) \<noteq> Some fl"
  shows "\<not> sm_started (rt_store rt p) \<and> fl_carriers fl = [] \<and> \<not> fl_closed fl \<and>
    sm_flow (rt_store (expire_unstarted p rt) p) = Some (fl\<lparr>fl_closed := True, fl_terminal_err := Some ErrOpenTimeout, fl_terminal_notify := True\<rparr>)"
proof -
  have "\<not> sm_started (rt_store rt p)" using assms(3,4) by (auto simp: expire_unstarted_def Let_def)
  moreover have "\<not> fl_closed fl" using assms(3,4) by (auto simp: expire_unstarted_def Let_def claim_reset_def split: if_splits)
  moreover have "sm_flow (rt_store (expire_unstarted p rt) p) = Some (snd (claim_reset fl (Some ErrOpenTimeout) True))"
    using assms(3,4) by (auto simp: expire_unstarted_def Let_def split: if_splits)
  ultimately show ?thesis using server_reachableD(5) [OF assms(1,2)] assms(3) by (auto simp: carriers_inv_def claim_reset_def)
qed

lemma timer_spares_carriers_witness: "\<not> sm_started sample_ready \<and> fl_carriers sample_flow = []"
proof -
  let ?rt = "sample_at (Locking sample_request 1) sample_ready"
  have start: "sample_dialing = sample_at (Dialing sample_request 1) (new_stream sample_request)"
    by (simp add: sample_at_def sample_dialing_def new_runtime_def)
  have dial: "dial_succeeded sample_transfer sample_request 1 sample_dialing = (None, sample_at (Dialing sample_request 1) sample_ready)"
    by (simp add: dial_succeeded_def start sample_ready_def sample_flow_def) (simp add: new_stream_def sample_request_def)
  have "server_step sample_transfer sample_dialing ?rt" using server_step.DialDone [OF _ dial, of 0] by (simp add: start)
  note r = server_reachable.intros(2) [OF sample_dialing_reachable this]
  have "\<not> sm_started sample_ready" "\<not> sm_done sample_ready" "sm_flow sample_ready = Some sample_flow" "\<not> fl_closed sample_flow"
    by (simp_all add: sample_ready_def new_stream_def sample_flow_def new_flow_def)
  then have "sm_flow (rt_store ?rt 1) = Some sample_flow" "sm_flow (rt_store (expire_unstarted 1 ?rt) 1) \<noteq> Some sample_flow"
    by (auto simp: expire_unstarted_def Let_def claim_reset_def dest: arg_cong [where f = fl_closed])
  from timer_spares_carriers [OF r _ this] show ?thesis by simp
qed

lemma closing_step:
  assumes "is_closing rt" "server_step cfg rt rt'"
  shows "is_closing rt' \<and> (\<forall>sid p. map_of (rt_streams rt') sid = Some p \<longrightarrow> map_of (rt_streams rt) sid = Some p) \<and>
    dom (rt_handlers rt') \<subseteq> dom (rt_handlers rt) \<and> rt_dials rt' = rt_dials rt"
  using assms(2)
proof (cases rule: server_step.cases)
  case (Accept b)
  with assms(1) show ?thesis by (auto simp: start_session_stream_def split: if_splits)
next
  case (LookRefused h r now e rt1)
  have "is_closing (rt\<lparr>rt_now := now\<rparr>)" using assms(1) by (simp add: is_closing_def)
  with LookRefused assms(1) show ?thesis by (auto simp: get_or_create_def is_closing_def)
next
  case (LookFound h r now p rt1)
  have "is_closing (rt\<lparr>rt_now := now\<rparr>)" using assms(1) by (simp add: is_closing_def)
  with LookFound(4) show ?thesis by (auto simp: get_or_create_def)
next
  case (LookCreated h r now p rt1)
  have "is_closing (rt\<lparr>rt_now := now\<rparr>)" using assms(1) by (simp add: is_closing_def)
  with LookCreated(4) show ?thesis by (auto simp: get_or_create_def)
next
  case (DialFailed h r p now e rt1)
  from DialFailed(4) obtain c where "rt1 = on_stream p (\<lambda>s. s\<lparr>sm_err := Some e, sm_ready := True\<rparr>)
      ((rt\<lparr>rt_now := now\<rparr>)\<lparr>rt_streams := AList.delete (op_stream r) (rt_streams rt), rt_closed := c\<rparr>)"
    by (rule dial_failed_cases) simp
  with assms(1) show ?thesis unfolding DialFailed(1) by (auto simp: is_closing_def map_of_delete_Some)
next
  case (DialRefused h r p e rt1)
  with assms(1) show ?thesis by (auto simp: dial_succeeded_def is_closing_def map_of_delete_Some split: if_splits)
next
  case (DialDone h r p rt1)
  with assms(1) show ?thesis by (auto simp: dial_succeeded_def split: if_splits)
next
  case (Attach h r p stage max_payload ok stage' a rt1)
  have "rt_streams rt1 = rt_streams rt" "rt_handlers rt1 = rt_handlers rt" "rt_dials rt1 = rt_dials rt" "is_closing rt1 = is_closing rt"
    using Attach(3) by (cases rule: attach_at_cases; simp add: is_closing_def)+
  with Attach(1,2) assms(1) show ?thesis by (auto simp: is_closing_def)
next
  case (Unlock h r p stage max_payload ok a rt1)
  note am = attach_at_moves [OF Unlock(3), simplified]
  show ?thesis unfolding Unlock(1) using am assms(1) by (auto simp: is_closing_def)
next
  case (WatchForget p fl now rt1)
  from WatchForget(5) obtain c where "rt1 = (rt\<lparr>rt_now := now\<rparr>)\<lparr>rt_streams := (if map_of (rt_streams rt) (fl_id fl) = Some p
      then AList.delete (fl_id fl) (rt_streams rt) else rt_streams rt), rt_closed := c\<rparr>"
    by (rule forget_stream_cases) (simp cong: if_cong)
  with assms(1) show ?thesis unfolding WatchForget(1) by (auto simp: is_closing_def map_of_delete_Some simp del: map_of_eq_Some_iff)
qed (use assms(1) in \<open>auto simp: is_closing_def clear_runtime_def split: if_splits\<close>)

text \<open>
  A server that is closing takes nothing in: no step of it adds a stream, a goroutine or a dial; and
  when every watcher has returned, as \<open>shutdown\<close> waits for, no flow is left that is not over.
\<close>

theorem closing_admits_nothing:
  assumes "server_reachable cfg rt" "0 \<le> tt_max_streams cfg" "is_closing rt" "server_step cfg rt rt'"
  shows "is_closing rt' \<and> (\<forall>sid p. map_of (rt_streams rt') sid = Some p \<longrightarrow> map_of (rt_streams rt) sid = Some p) \<and>
    dom (rt_handlers rt') \<subseteq> dom (rt_handlers rt) \<and> rt_dials rt' = rt_dials rt \<and>
    (\<forall>p. sm_watcher (rt_store rt p) \<in> {Unwatched, WatcherGone} \<longrightarrow> sm_flow (rt_store rt p) = None \<or> sm_done (rt_store rt p))"
proof -
  have "sm_flow (rt_store rt p) = None \<or> sm_done (rt_store rt p)" if "sm_watcher (rt_store rt p) \<in> {Unwatched, WatcherGone}" for p
    using life_invD(3) [OF server_reachableD(3) [OF assms(1,2)], of p] that by (auto simp: stream_ok_def Let_def)
  with closing_step [OF assms(3,4)] show ?thesis by blast
qed

lemma closing_admits_nothing_witness: "is_closing (sample_waiting\<lparr>rt_closing := True, rt_ctx := Some plain_error\<rparr>)"
proof -
  have "server_step sample_transfer sample_waiting (sample_waiting\<lparr>rt_closing := True\<rparr>)" by (rule server_step.Shutdown)
  note r = server_reachable.intros(2) [OF sample_waiting_reachable this]
  have "rt_ctx (sample_waiting\<lparr>rt_closing := True\<rparr>) = None" by (simp add: sample_waiting_def sample_dialing_def new_runtime_def)
  from server_step.Cancel [OF this, of sample_transfer plain_error]
  have "server_step sample_transfer (sample_waiting\<lparr>rt_closing := True\<rparr>) (sample_waiting\<lparr>rt_closing := True, rt_ctx := Some plain_error\<rparr>)" .
  from closing_admits_nothing [OF r _ _ this] show ?thesis by (simp add: is_closing_def)
qed

end
