(* ===== verification/Server_Conns.thy ===== *)
theory Server_Conns
  imports Server_Streams Traffic_Cache Access Session
begin

text \<open>
  The connections of a server (\<^verbatim>\<open>internal/serverrole/tcp.go\<close>): the accept loop of \<open>runTCP\<close> takes a token
  of the pending handshakes, \<open>startAccept\<close> tracks the connection and starts its goroutine, which admits
  the address, shakes hands, gives the token back, finds the counters of the address, registers the
  session and serves it until it ends. The streams a session starts are those of \<open>Server_Streams\<close>; the
  counters and the map of tracked connections are those of \<open>Traffic_Cache\<close>.

  A connection is a number, also for its \<^verbatim>\<open>tcpServerConn\<close> and its session. Closing is the \<^verbatim>\<open>sync.Once\<close> of
  \<open>tcpServerConn\<close>: anyone may begin it, at any time, and it ends under \<^verbatim>\<open>runtime.mu\<close>.
\<close>

section \<open>State\<close>

text \<open>
  Where the goroutine of a connection is: \<open>Refusing\<close> closes it and \<open>Releasing\<close> gives the token back;
  \<open>Established\<close> has a session and the token; \<open>Leaving\<close> has left the loop of \<open>AcceptStream\<close>, \<open>Ending\<close>
  closes the session.
\<close>

datatype conn_pc =
    Fresh | Admitting | Handshaking | Refusing | Releasing | Established | Counting | Registering | Serving | Leaving | Ending

datatype close_once = Unclosed | Closing | Closed

datatype accept_loop = Accepting | Tracking nat | Rejecting nat | LoopDone

text \<open>
  \<open>cn_pending\<close> is the number of tokens in the channel \<^verbatim>\<open>pending\<close>; the map \<^verbatim>\<open>connections\<close> is in \<open>cn_traffic\<close>.
  \<open>cn_addr\<close>, \<open>cn_principal\<close> (what the handshake returned) and \<open>cn_owner\<close> (the connection whose session
  started a stream) are the arguments of the goroutines; \<open>cn_talk\<close> is history: what a handshake had to read.
\<close>

record conns =
  cn_runtime :: runtime
  cn_pending :: int
  cn_traffic :: traffic_cache
  cn_sessions :: "nat list"
  cn_loop :: accept_loop
  cn_handlers :: "nat \<Rightarrow> conn_pc option"
  cn_once :: "nat \<Rightarrow> close_once"
  cn_next :: nat
  cn_addr :: "nat \<Rightarrow> byte list option"
  cn_principal :: "nat \<Rightarrow> byte list option"
  cn_owner :: "nat \<Rightarrow> nat"
  cn_talk :: "nat \<Rightarrow> duplex"

definition new_conns :: conns where
  "new_conns = \<lparr>cn_runtime = new_runtime, cn_pending = 0, cn_traffic = empty_traffic, cn_sessions = [], cn_loop = Accepting,
     cn_handlers = (\<lambda>_. None), cn_once = (\<lambda>_. Unclosed), cn_next = 0, cn_addr = (\<lambda>_. None), cn_principal = (\<lambda>_. None),
     cn_owner = (\<lambda>_. 0), cn_talk = (\<lambda>_. duplex_of [] [] [])\<rparr>"

definition at_pc :: "nat \<Rightarrow> conn_pc option \<Rightarrow> conns \<Rightarrow> conns" where
  "at_pc k pc s = s\<lparr>cn_handlers := (cn_handlers s)(k := pc)\<rparr>"

section \<open>Operations\<close>

definition server_tcp :: "role_server \<Rightarrow> tcp_transfer" where
  "server_tcp server = tr_tcp (sv_transfer (rs_cfg server))"

text \<open>The users of the configuration, as the bytes of their names and passwords.\<close>

definition text_bytes :: "string \<Rightarrow> byte list" where "text_bytes s = map byte_of_char s"

definition peer_users :: "server_config \<Rightarrow> (byte list \<rightharpoonup> byte list) option" where
  "peer_users cfg = map_option (\<lambda>us. map_of (map (\<lambda>(u, p). (text_bytes u, text_bytes p)) us)) (sv_peer_auth cfg)"

text \<open>The channel of tokens: none without a limit. Taking one does not block, giving one back does when there is none.\<close>

definition try_acquire_pending :: "int \<Rightarrow> int \<Rightarrow> int option" where
  "try_acquire_pending limit pending = (if limit \<le> 0 then Some pending else if pending < limit then Some (pending + 1) else None)"

definition release_pending :: "int \<Rightarrow> int \<Rightarrow> int option" where
  "release_pending limit pending = (if limit \<le> 0 then Some pending else if pending > 0 then Some (pending - 1) else None)"

text \<open>The critical section of \<open>startAccept\<close>.\<close>

definition start_accept :: "nat \<Rightarrow> conns \<Rightarrow> conns" where
  "start_accept k s =
     (if is_closing (cn_runtime s) then s\<lparr>cn_loop := Rejecting k\<rparr>
      else at_pc k (Some Fresh) (s\<lparr>cn_loop := Accepting, cn_traffic := (cn_traffic s)\<lparr>tr_conns := (k, None) # tr_conns (cn_traffic s)\<rparr>\<rparr>))"

text \<open>\<open>acceptWithHandshakeDone\<close> up to the handshake, and the registration of a session.\<close>

definition admit_conn :: "role_server \<Rightarrow> byte list option \<Rightarrow> conn_pc" where
  "admit_conn server addr =
     (case addr of None \<Rightarrow> Refusing | Some ip \<Rightarrow> if client_ip_allowed server ip then Handshaking else Refusing)"

definition register_session :: "int \<Rightarrow> nat \<Rightarrow> conns \<Rightarrow> conns" where
  "register_session max_sessions k s =
     (if is_closing (cn_runtime s) then at_pc k (Some Ending) s
      else if max_sessions > 0 \<and> int (length (cn_sessions s)) \<ge> max_sessions then at_pc k (Some Ending) s
      else at_pc k (Some Serving) (s\<lparr>cn_sessions := k # cn_sessions s\<rparr>))"

definition server_traffic_limit :: "tcp_transfer \<Rightarrow> int" where
  "server_traffic_limit cfg = traffic_limit (tt_max_streams cfg) (tt_max_carriers_per_stream cfg) (tt_max_pending_connections cfg)"

text \<open>\<^verbatim>\<open>net.IP.String\<close>.\<close>

definition ip_text :: "byte list \<Rightarrow> string" where
  "ip_text ip =
     (if ip = [] then ''<nil>''
      else if length ip \<noteq> 4 \<and> length ip \<noteq> 16 then ''?'' @ concat (map (\<lambda>b. [digit (unat b div 16), digit (unat b mod 16)]) ip)
      else case to4 ip of Some q \<Rightarrow> string4 q | None \<Rightarrow> addr_string (Addr6 ip ''''))"

text \<open>\<open>pruneStateLocked\<close>, which maintenance and the status page run.\<close>

definition prune_state :: "int \<Rightarrow> conns \<Rightarrow> conns" where
  "prune_state now s =
     s\<lparr>cn_runtime := (cn_runtime s)\<lparr>rt_now := now, rt_closed := prune_closed now (rt_closed (cn_runtime s))\<rparr>,
       cn_traffic := prune_traffic now (cn_traffic s)\<rparr>"

text \<open>The end of \<open>shutdown\<close>; nobody holds a counter any more.\<close>

definition clear_conns :: "conns \<Rightarrow> conns" where
  "clear_conns s = s\<lparr>cn_runtime := clear_runtime (cn_runtime s), cn_sessions := [], cn_traffic := empty_traffic\<rparr>"

section \<open>The goroutines together\<close>

text \<open>
  One step of one goroutine. \<open>StreamStart\<close> is a session that takes a stream, \<open>Stream\<close> any step of the
  streams: a new OPEN carries the principal of the session that started its goroutine, and no goroutine
  starts by itself. \<open>smux\<close> may close a connection at any time, so may its peer.
\<close>

inductive conns_step :: "role_server \<Rightarrow> (smux_config \<Rightarrow> 'm io) \<Rightarrow> smux_config \<Rightarrow> conns \<Rightarrow> conns \<Rightarrow> bool"
  for server smux_server defaults where
  AcceptConn: "cn_loop s = Accepting \<Longrightarrow> try_acquire_pending (tt_max_pending_connections (server_tcp server)) (cn_pending s) = Some n \<Longrightarrow>
    conns_step server smux_server defaults s
      (s\<lparr>cn_loop := Tracking (cn_next s), cn_next := cn_next s + 1, cn_pending := n, cn_addr := (cn_addr s)(cn_next s := addr)\<rparr>)"
| DropConn: "cn_loop s = Accepting \<Longrightarrow> try_acquire_pending (tt_max_pending_connections (server_tcp server)) (cn_pending s) = None \<Longrightarrow>
    conns_step server smux_server defaults s (s\<lparr>cn_next := cn_next s + 1, cn_once := (cn_once s)(cn_next s := Closed)\<rparr>)"
| Track: "cn_loop s = Tracking k \<Longrightarrow> conns_step server smux_server defaults s (start_accept k s)"
| Reject: "cn_loop s = Rejecting k \<Longrightarrow> release_pending (tt_max_pending_connections (server_tcp server)) (cn_pending s) = Some n \<Longrightarrow>
    conns_step server smux_server defaults s (s\<lparr>cn_loop := Accepting, cn_pending := n, cn_once := (cn_once s)(k := Closed)\<rparr>)"
| LoopEnd: "cn_loop s = Accepting \<Longrightarrow> conns_step server smux_server defaults s (s\<lparr>cn_loop := LoopDone\<rparr>)"
| First: "cn_handlers s k = Some Fresh \<Longrightarrow>
    conns_step server smux_server defaults s (at_pc k (Some (if is_closing (cn_runtime s) then Refusing else Admitting)) s)"
| Admit: "cn_handlers s k = Some Admitting \<Longrightarrow>
    conns_step server smux_server defaults s (at_pc k (Some (admit_conn server (cn_addr s k))) s)"
| Shake: "cn_handlers s k = Some Handshaking \<Longrightarrow>
    accept_session smux_server defaults MaxPayload32 (duration_of_millis (tt_open_timeout_millis (server_tcp server)))
      (session_config_of (sv_transfer (rs_cfg server))) (peer_users (rs_cfg server)) d = (Inr (session, user), d') \<Longrightarrow>
    conns_step server smux_server defaults s (at_pc k (Some Established) (s\<lparr>cn_principal := (cn_principal s)(k \<mapsto> user), cn_talk := (cn_talk s)(k := d)\<rparr>))"
| ShakeFailed: "cn_handlers s k = Some Handshaking \<Longrightarrow>
    accept_session smux_server defaults MaxPayload32 (duration_of_millis (tt_open_timeout_millis (server_tcp server)))
      (session_config_of (sv_transfer (rs_cfg server))) (peer_users (rs_cfg server)) d = (Inl e, d') \<Longrightarrow> dx_closed d' \<Longrightarrow>
    conns_step server smux_server defaults s (at_pc k (Some Refusing) s)"
| CloseBegin: "cn_handlers s k \<noteq> None \<Longrightarrow> cn_once s k = Unclosed \<Longrightarrow>
    conns_step server smux_server defaults s (s\<lparr>cn_once := (cn_once s)(k := Closing)\<rparr>)"
| CloseEnd: "cn_once s k = Closing \<Longrightarrow> connection_closed (server_traffic_limit (server_tcp server)) k now (cn_traffic s) = Some c \<Longrightarrow>
    conns_step server smux_server defaults s (s\<lparr>cn_once := (cn_once s)(k := Closed), cn_traffic := c\<rparr>)"
| Refused: "cn_handlers s k = Some Refusing \<Longrightarrow> cn_once s k = Closed \<Longrightarrow>
    conns_step server smux_server defaults s (at_pc k (Some Releasing) s)"
| Release: "cn_handlers s k = Some Releasing \<Longrightarrow> release_pending (tt_max_pending_connections (server_tcp server)) (cn_pending s) = Some n \<Longrightarrow>
    conns_step server smux_server defaults s (at_pc k None (s\<lparr>cn_pending := n\<rparr>))"
| Finish: "cn_handlers s k = Some Established \<Longrightarrow> release_pending (tt_max_pending_connections (server_tcp server)) (cn_pending s) = Some n \<Longrightarrow>
    conns_step server smux_server defaults s (at_pc k (Some Counting) (s\<lparr>cn_pending := n\<rparr>))"
| Count: "cn_handlers s k = Some Counting \<Longrightarrow> cn_addr s k = Some ip \<Longrightarrow>
    traffic_for_connection (server_traffic_limit (server_tcp server)) (Some k) (ip_text ip) now (cn_traffic s) = Some (t, c) \<Longrightarrow>
    conns_step server smux_server defaults s (at_pc k (Some Registering) (s\<lparr>cn_traffic := c\<rparr>))"
| Register: "cn_handlers s k = Some Registering \<Longrightarrow>
    conns_step server smux_server defaults s (register_session (tt_max_sessions (server_tcp server)) k s)"
| StreamStart: "cn_handlers s k = Some Serving \<Longrightarrow>
    start_session_stream (tt_max_pending_streams (server_tcp server)) (cn_runtime s) = (go_on, rt) \<Longrightarrow>
    conns_step server smux_server defaults s
      (at_pc k (Some (if go_on then Serving else Leaving)) (s\<lparr>cn_runtime := rt, cn_owner := (cn_owner s)(rt_next (cn_runtime s) := k)\<rparr>))"
| ServeEnd: "cn_handlers s k = Some Serving \<Longrightarrow> conns_step server smux_server defaults s (at_pc k (Some Leaving) s)"
| Unregister: "cn_handlers s k = Some Leaving \<Longrightarrow>
    conns_step server smux_server defaults s (at_pc k (Some Ending) (s\<lparr>cn_sessions := remove1 k (cn_sessions s)\<rparr>))"
| Ended: "cn_handlers s k = Some Ending \<Longrightarrow> cn_once s k = Closed \<Longrightarrow> conns_step server smux_server defaults s (at_pc k None s)"
| Stream: "server_step (server_tcp server) (cn_runtime s) rt \<Longrightarrow> dom (rt_handlers rt) \<subseteq> dom (rt_handlers (cn_runtime s)) \<Longrightarrow>
    (\<forall>h r. rt_requests rt h = Some r \<longrightarrow> rt_requests (cn_runtime s) h \<noteq> Some r \<longrightarrow>
       rt_handlers (cn_runtime s) h \<noteq> None \<and> cn_principal s (cn_owner s h) = Some (op_principal r)) \<Longrightarrow>
    conns_step server smux_server defaults s (s\<lparr>cn_runtime := rt\<rparr>)"
| Prune: "rt_now (cn_runtime s) \<le> now \<Longrightarrow> conns_step server smux_server defaults s (prune_state now s)"
| Stopped: "cn_loop s = LoopDone \<Longrightarrow> cn_handlers s = (\<lambda>_. None) \<Longrightarrow>
    server_step (server_tcp server) (cn_runtime s) (clear_runtime (cn_runtime s)) \<Longrightarrow>
    conns_step server smux_server defaults s (clear_conns s)"

inductive conns_reachable :: "role_server \<Rightarrow> (smux_config \<Rightarrow> 'm io) \<Rightarrow> smux_config \<Rightarrow> conns \<Rightarrow> bool"
  for server smux_server defaults where
  "conns_reachable server smux_server defaults new_conns"
| "conns_reachable server smux_server defaults s \<Longrightarrow> conns_step server smux_server defaults s s' \<Longrightarrow>
    conns_reachable server smux_server defaults s'"

section \<open>Basic facts\<close>

lemma at_pc_simps [simp]:
  "cn_runtime (at_pc k pc s) = cn_runtime s" "cn_pending (at_pc k pc s) = cn_pending s" "cn_traffic (at_pc k pc s) = cn_traffic s"
  "cn_sessions (at_pc k pc s) = cn_sessions s" "cn_loop (at_pc k pc s) = cn_loop s" "cn_handlers (at_pc k pc s) = (cn_handlers s)(k := pc)"
  "cn_once (at_pc k pc s) = cn_once s" "cn_next (at_pc k pc s) = cn_next s" "cn_addr (at_pc k pc s) = cn_addr s"
  "cn_principal (at_pc k pc s) = cn_principal s" "cn_owner (at_pc k pc s) = cn_owner s" "cn_talk (at_pc k pc s) = cn_talk s"
  by (simp_all add: at_pc_def)

lemma try_acquire_cases:
  assumes "try_acquire_pending limit p = Some n"
  shows "limit > 0 \<Longrightarrow> p < limit \<and> n = p + 1" "limit \<le> 0 \<Longrightarrow> n = p"
  using assms by (auto simp: try_acquire_pending_def split: if_splits)

lemma release_cases:
  assumes "release_pending limit p = Some n"
  shows "limit > 0 \<Longrightarrow> p > 0 \<and> n = p - 1" "limit \<le> 0 \<Longrightarrow> n = p"
  using assms by (auto simp: release_pending_def split: if_splits)

text \<open>The fields a registration and a start leave alone.\<close>

lemma register_simps [simp]:
  "cn_runtime (register_session m k s) = cn_runtime s" "cn_pending (register_session m k s) = cn_pending s"
  "cn_traffic (register_session m k s) = cn_traffic s" "cn_loop (register_session m k s) = cn_loop s"
  "cn_once (register_session m k s) = cn_once s" "cn_next (register_session m k s) = cn_next s"
  "cn_addr (register_session m k s) = cn_addr s" "cn_principal (register_session m k s) = cn_principal s"
  "cn_owner (register_session m k s) = cn_owner s" "cn_talk (register_session m k s) = cn_talk s"
  by (simp_all add: register_session_def)

lemma start_simps [simp]:
  "cn_runtime (start_accept k s) = cn_runtime s" "cn_pending (start_accept k s) = cn_pending s" "cn_sessions (start_accept k s) = cn_sessions s"
  "cn_once (start_accept k s) = cn_once s" "cn_next (start_accept k s) = cn_next s" "cn_addr (start_accept k s) = cn_addr s"
  "cn_principal (start_accept k s) = cn_principal s" "cn_owner (start_accept k s) = cn_owner s" "cn_talk (start_accept k s) = cn_talk s"
  by (simp_all add: start_accept_def)

lemma prune_simps [simp]:
  "cn_pending (prune_state now s) = cn_pending s" "cn_sessions (prune_state now s) = cn_sessions s" "cn_loop (prune_state now s) = cn_loop s"
  "cn_handlers (prune_state now s) = cn_handlers s" "cn_once (prune_state now s) = cn_once s" "cn_next (prune_state now s) = cn_next s"
  "cn_addr (prune_state now s) = cn_addr s" "cn_principal (prune_state now s) = cn_principal s" "cn_owner (prune_state now s) = cn_owner s" "cn_talk (prune_state now s) = cn_talk s"
  "cn_traffic (prune_state now s) = prune_traffic now (cn_traffic s)"
  by (simp_all add: prune_state_def)

lemma clear_simps [simp]:
  "cn_pending (clear_conns s) = cn_pending s" "cn_sessions (clear_conns s) = []" "cn_loop (clear_conns s) = cn_loop s"
  "cn_handlers (clear_conns s) = cn_handlers s" "cn_once (clear_conns s) = cn_once s" "cn_next (clear_conns s) = cn_next s"
  "cn_addr (clear_conns s) = cn_addr s" "cn_principal (clear_conns s) = cn_principal s" "cn_owner (clear_conns s) = cn_owner s" "cn_talk (clear_conns s) = cn_talk s"
  "cn_runtime (clear_conns s) = clear_runtime (cn_runtime s)"
  by (simp_all add: clear_conns_def)

lemma register_handler:
  obtains pc where "cn_handlers (register_session m k s) = (cn_handlers s)(k \<mapsto> pc)" "pc = Ending" "cn_sessions (register_session m k s) = cn_sessions s"
  | pc where "cn_handlers (register_session m k s) = (cn_handlers s)(k \<mapsto> pc)" "pc = Serving" "cn_sessions (register_session m k s) = k # cn_sessions s"
    "m > 0 \<Longrightarrow> int (length (cn_sessions s)) < m" "\<not> is_closing (cn_runtime s)"
  by (cases "is_closing (cn_runtime s)"; cases "m > 0 \<and> int (length (cn_sessions s)) \<ge> m") (auto simp: register_session_def)

section \<open>Numbers, tokens and sessions\<close>

definition loop_conn :: "accept_loop \<Rightarrow> nat option" where
  "loop_conn l = (case l of Tracking k \<Rightarrow> Some k | Rejecting k \<Rightarrow> Some k | _ \<Rightarrow> None)"

lemma loop_conn_simps [simp]: "loop_conn Accepting = None" "loop_conn LoopDone = None" "loop_conn (Tracking k) = Some k" "loop_conn (Rejecting k) = Some k"
  by (simp_all add: loop_conn_def)

text \<open>
  A number is used for one connection: that of the accept loop has no goroutine and is not closed; one
  without a goroutine that the accept loop does not hold was closed.
\<close>

definition number_ok :: "conns \<Rightarrow> nat \<Rightarrow> bool" where
  "number_ok s k \<longleftrightarrow> (cn_handlers s k \<noteq> None \<longrightarrow> k < cn_next s) \<and>
     (loop_conn (cn_loop s) = Some k \<longrightarrow> k < cn_next s \<and> cn_handlers s k = None \<and> cn_once s k = Unclosed) \<and>
     (k \<ge> cn_next s \<longrightarrow> cn_once s k = Unclosed) \<and> (cn_handlers s k = Some Releasing \<longrightarrow> cn_once s k = Closed) \<and>
     (k < cn_next s \<longrightarrow> cn_handlers s k = None \<longrightarrow> loop_conn (cn_loop s) \<noteq> Some k \<longrightarrow> cn_once s k = Closed)"

definition number_inv :: "conns \<Rightarrow> bool" where
  "number_inv s \<longleftrightarrow> (\<forall>k. number_ok s k)"

lemma number_invD:
  assumes "number_inv s"
  shows "cn_handlers s k \<noteq> None \<Longrightarrow> k < cn_next s" "cn_handlers s k = Some pc \<Longrightarrow> k < cn_next s"
    "loop_conn (cn_loop s) = Some k \<Longrightarrow> k < cn_next s \<and> cn_handlers s k = None \<and> cn_once s k = Unclosed"
    "k \<ge> cn_next s \<Longrightarrow> cn_once s k = Unclosed"
    "cn_handlers s k = Some Releasing \<Longrightarrow> cn_once s k = Closed"
    "k < cn_next s \<Longrightarrow> cn_handlers s k = None \<Longrightarrow> loop_conn (cn_loop s) \<noteq> Some k \<Longrightarrow> cn_once s k = Closed"
  using assms unfolding number_inv_def number_ok_def by auto

text \<open>Who holds a token, and who is registered.\<close>

definition holds_token :: "conn_pc option \<Rightarrow> bool" where
  "holds_token pc \<longleftrightarrow> pc \<in> Some ` {Fresh, Admitting, Handshaking, Refusing, Releasing, Established}"

lemma holds_token_simps [simp]: "\<not> holds_token None"
  "holds_token (Some pc) \<longleftrightarrow> pc \<in> {Fresh, Admitting, Handshaking, Refusing, Releasing, Established}"
  by (auto simp: holds_token_def)

definition tokens :: "conns \<Rightarrow> int" where
  "tokens s = int (card {k. holds_token (cn_handlers s k)}) + (if loop_conn (cn_loop s) = None then 0 else 1)"

definition token_inv :: "role_server \<Rightarrow> conns \<Rightarrow> bool" where
  "token_inv server s \<longleftrightarrow>
     (let limit = tt_max_pending_connections (server_tcp server)
      in if limit > 0 then cn_pending s = tokens s \<and> cn_pending s \<le> limit else cn_pending s = 0)"

definition session_inv :: "role_server \<Rightarrow> conns \<Rightarrow> bool" where
  "session_inv server s \<longleftrightarrow> distinct (cn_sessions s) \<and>
     (\<forall>k. k \<in> set (cn_sessions s) \<longleftrightarrow> cn_handlers s k \<in> {Some Serving, Some Leaving}) \<and>
     (tt_max_sessions (server_tcp server) > 0 \<longrightarrow> int (length (cn_sessions s)) \<le> tt_max_sessions (server_tcp server))"

lemma number_step:
  assumes "conns_step server smux_server defaults s s'" "number_inv s"
  shows "number_inv s'"
proof -
  have "number_ok s' x" for x
  proof -
    have x: "number_ok s x" using assms(2) by (simp add: number_inv_def)
    show ?thesis
      using assms(1)
    proof cases
      case (Track k)
      with x show ?thesis by (cases "is_closing (cn_runtime s)") (auto simp: number_ok_def start_accept_def)
    next
      case (Register k)
      with x show ?thesis by (cases rule: register_handler [of "tt_max_sessions (server_tcp server)" k s]) (auto simp: number_ok_def)
    qed (use x in \<open>auto simp: number_ok_def admit_conn_def split: option.splits if_splits\<close>)
  qed
  then show ?thesis by (simp add: number_inv_def)
qed

lemma finite_holders: "number_inv s \<Longrightarrow> finite {k. holds_token (cn_handlers s k)}"
  by (rule finite_subset [of _ "{..< cn_next s}"]) (auto simp: holds_token_def dest: number_invD(2))

lemma card_holders:
  assumes "finite {k. holds_token (h k)}"
  shows "int (card {k. holds_token ((h(j := pc)) k)}) =
    int (card {k. holds_token (h k)}) + (if holds_token pc then 1 else 0) - (if holds_token (h j) then 1 else 0)"
proof -
  have "{k. holds_token ((h(j := pc)) k)} = (if holds_token pc then insert j {k. holds_token (h k)} else {k. holds_token (h k)} - {j})" by auto
  moreover have "card {k. holds_token (h k)} > 0" if "holds_token (h j)" using that assms by (auto simp: card_gt_0_iff)
  ultimately show ?thesis using assms by (auto simp: card_insert_if card_Diff_singleton_if int_ops)
qed

lemma tokens_at_pc:
  assumes "number_inv s"
  shows "tokens (at_pc j pc s) = tokens s + (if holds_token pc then 1 else 0) - (if holds_token (cn_handlers s j) then 1 else 0)"
  using card_holders [OF finite_holders [OF assms], of j pc] by (simp add: tokens_def)

lemma tokens_update [simp]:
  "tokens (s\<lparr>cn_runtime := x1\<rparr>) = tokens s" "tokens (s\<lparr>cn_pending := x2\<rparr>) = tokens s" "tokens (s\<lparr>cn_traffic := x3\<rparr>) = tokens s"
  "tokens (s\<lparr>cn_sessions := x4\<rparr>) = tokens s" "tokens (s\<lparr>cn_once := x5\<rparr>) = tokens s" "tokens (s\<lparr>cn_next := x6\<rparr>) = tokens s"
  "tokens (s\<lparr>cn_addr := x7\<rparr>) = tokens s" "tokens (s\<lparr>cn_principal := x8\<rparr>) = tokens s" "tokens (s\<lparr>cn_owner := x9\<rparr>) = tokens s"
  "tokens (s\<lparr>cn_talk := x10\<rparr>) = tokens s"
  by (simp_all add: tokens_def)

lemma tokens_nonneg: "tokens s \<ge> 0"
  by (simp add: tokens_def)

text \<open>A step that gives a token back finds one.\<close>

lemma token_step:
  assumes "conns_step server smux_server defaults s s'" "number_inv s" "token_inv server s"
  shows "token_inv server s'"
proof -
  have finite: "number_inv (s\<lparr>cn_pending := n\<rparr>)" "number_inv (s\<lparr>cn_traffic := c\<rparr>)" "number_inv (s\<lparr>cn_principal := u, cn_talk := tk\<rparr>)" "number_inv (s\<lparr>cn_sessions := ss\<rparr>)"
    "number_inv (s\<lparr>cn_runtime := rt, cn_owner := ow\<rparr>)" for n c u ss rt ow tk
    using assms(2) by (simp_all add: number_inv_def number_ok_def)
  note at = tokens_at_pc [OF assms(2)] finite [THEN tokens_at_pc]
  show ?thesis
    using assms(1)
  proof cases
    case (AcceptConn n addr)
    with assms(3) try_acquire_cases [OF AcceptConn(3)] show ?thesis by (auto simp: token_inv_def Let_def tokens_def)
  next
    case (Track k)
    have none: "\<not> holds_token (cn_handlers s k)" using number_invD(3) [OF assms(2)] Track by (metis holds_token_simps(1) loop_conn_simps(3))
    show ?thesis
    proof (cases "is_closing (cn_runtime s)")
      case True
      with Track assms(3) show ?thesis by (auto simp: token_inv_def start_accept_def tokens_def Let_def split: if_splits)
    next
      case False
      with Track none card_holders [OF finite_holders [OF assms(2)], of k "Some Fresh"] assms(3) show ?thesis
        by (auto simp: token_inv_def start_accept_def tokens_def Let_def split: if_splits)
    qed
  next
    case (Reject k n)
    with assms(3) release_cases [OF Reject(3)] show ?thesis by (auto simp: token_inv_def Let_def tokens_def)
  next
    case (Register k)
    then show ?thesis using assms(3) at
      by (cases rule: register_handler [of "tt_max_sessions (server_tcp server)" k s]) (auto simp: token_inv_def register_session_def Let_def)
  next
    case (Release k n)
    with assms(3) release_cases [OF Release(3)] at show ?thesis by (auto simp: token_inv_def Let_def)
  next
    case (Finish k n)
    with assms(3) release_cases [OF Finish(3)] at show ?thesis by (auto simp: token_inv_def Let_def)
  qed (use assms(3) at in \<open>auto simp: token_inv_def tokens_def admit_conn_def Let_def split: option.splits\<close>)
qed

lemma session_step:
  assumes "conns_step server smux_server defaults s s'" "number_inv s" "session_inv server s"
  shows "session_inv server s'"
proof -
  note inv = assms(3) [unfolded session_inv_def]
  show ?thesis
    using assms(1)
  proof cases
    case (Track k)
    have "cn_handlers s k = None" using number_invD(3) [OF assms(2), of k] Track by simp
    with Track inv show ?thesis unfolding session_inv_def by (cases "is_closing (cn_runtime s)") (auto simp: start_accept_def)
  next
    case (Register k)
    have "k \<notin> set (cn_sessions s)" using inv Register by simp
    with inv Register show ?thesis unfolding session_inv_def
      by (cases rule: register_handler [of "tt_max_sessions (server_tcp server)" k s]) auto
  next
    case (Unregister k)
    have "int (length (remove1 k (cn_sessions s))) \<le> int (length (cn_sessions s))" by (simp add: length_remove1)
    with inv Unregister show ?thesis unfolding session_inv_def by (auto simp: set_remove1_eq)
  next
    case Stopped
    then have "cn_sessions s = []" using inv by (metis last_in_set option.distinct(1) insertE singletonD)
    with inv Stopped show ?thesis unfolding session_inv_def by auto
  qed (use inv in \<open>auto simp: session_inv_def admit_conn_def split: option.splits\<close>)
qed


section \<open>Tracked connections and their counters\<close>

definition has_counter :: "conn_pc \<Rightarrow> bool" where
  "has_counter pc \<longleftrightarrow> pc \<in> {Registering, Serving, Leaving, Ending}"

text \<open>
  A connection with a goroutine is tracked until its close has ended; from \<open>trafficForConnection\<close> on it
  points to the counters of its address.
\<close>

definition slot_ok :: "conns \<Rightarrow> nat \<Rightarrow> bool" where
  "slot_ok s k \<longleftrightarrow>
     (case cn_handlers s k of
        None \<Rightarrow> map_of (tr_conns (cn_traffic s)) k = None
      | Some pc \<Rightarrow>
          if cn_once s k = Closed then map_of (tr_conns (cn_traffic s)) k = None
          else if has_counter pc
          then \<exists>ip t. cn_addr s k = Some ip \<and> map_of (tr_conns (cn_traffic s)) k = Some (Some t) \<and>
            map_of (tr_map (cn_traffic s)) (ip_text ip) = Some t
          else map_of (tr_conns (cn_traffic s)) k = Some None)"

definition slot_inv :: "int \<Rightarrow> conns \<Rightarrow> bool" where
  "slot_inv limit s \<longleftrightarrow> traffic_inv (cn_traffic s) \<and> within limit (cn_traffic s) \<and> (\<forall>k. slot_ok s k)"

text \<open>What a change of the cache must keep for the slots of the others.\<close>

definition slots_kept :: "nat option \<Rightarrow> traffic_cache \<Rightarrow> traffic_cache \<Rightarrow> bool" where
  "slots_kept k c c' \<longleftrightarrow> (\<forall>j. k \<noteq> Some j \<longrightarrow> map_of (tr_conns c') j = map_of (tr_conns c) j \<and>
     (\<forall>a t. map_of (tr_conns c) j = Some (Some t) \<longrightarrow> map_of (tr_map c) a = Some t \<longrightarrow> map_of (tr_map c') a = Some t))"

lemma slot_ok_kept:
  assumes "slot_ok s j" "slots_kept k (cn_traffic s) (cn_traffic s')" "k \<noteq> Some j"
    and "cn_handlers s' j = cn_handlers s j" "cn_once s' j = Closed \<longleftrightarrow> cn_once s j = Closed" "cn_addr s' j = cn_addr s j"
  shows "slot_ok s' j"
  using assms unfolding slot_ok_def slots_kept_def by (fastforce split: option.splits if_splits)

lemma points_at: "map_of (tr_conns c) j = Some (Some t) \<Longrightarrow> pointing t c \<noteq> 0"
  by (auto simp: pointing_def filter_empty_conv dest!: map_of_SomeD)

lemma for_connection_kept:
  assumes "traffic_for_connection limit (Some k) address now c = Some (t, c')" "traffic_inv c"
  shows "traffic_inv c'" "within limit c'" "slots_kept (Some k) c c'"
    "map_of (tr_conns c) k = Some None \<Longrightarrow> map_of (tr_conns c') k = Some (Some t) \<and> map_of (tr_map c') address = Some t"
    "map_of (tr_conns c) k = None \<Longrightarrow> map_of (tr_conns c') k = None"
proof -
  obtain t1 c1 where c1: "traffic_for_connection limit (Some k) address now c = Some (t1, c1)" "traffic_inv c1"
    "map fst (tr_conns c1) = map fst (tr_conns c)" "keeps_active c c1" "within limit c1"
    "map_of (tr_conns c) k = Some None \<longrightarrow> map_of (tr_conns c1) k = Some (Some t1) \<and> map_of (tr_map c1) address = Some t1"
    "\<forall>j. Some k \<noteq> Some j \<longrightarrow> map_of (tr_conns c1) j = map_of (tr_conns c) j"
    using for_connection_returns [OF assms(2), of limit "Some k" address now] by blast
  have same: "t1 = t" "c1 = c'" using assms(1) c1(1) by simp_all
  show "traffic_inv c'" "within limit c'" "map_of (tr_conns c) k = Some None \<Longrightarrow> map_of (tr_conns c') k = Some (Some t) \<and> map_of (tr_map c') address = Some t"
    using c1(2,5,6) unfolding same by simp_all
  show "slots_kept (Some k) c c'" using c1(4,7) unfolding same slots_kept_def keeps_active_def by (auto dest: points_at)
  show "map_of (tr_conns c) k = None \<Longrightarrow> map_of (tr_conns c') k = None" using c1(3) unfolding same map_of_eq_None_iff by (metis image_set)
qed

lemma closed_kept:
  assumes "connection_closed limit k now c = Some c'" "traffic_inv c"
  shows "traffic_inv c'" "within limit c \<Longrightarrow> within limit c'" "slots_kept (Some k) c c'" "map_of (tr_conns c') k = None"
proof -
  obtain c1 where c1: "connection_closed limit k now c = Some c1" "traffic_inv c1" "tr_conns c1 = AList.delete k (tr_conns c)"
    "within limit c \<longrightarrow> within limit c1" "\<forall>a u. map_of (tr_map c) a = Some u \<longrightarrow> pointing u c1 \<noteq> 0 \<longrightarrow> map_of (tr_map c1) a = Some u"
    using connection_closed_returns [OF assms(2), of limit k now] by blast
  have same: "c' = c1" using assms(1) c1(1) by simp
  have conns: "map_of (tr_conns c1) j = (if j = k then None else map_of (tr_conns c) j)" for j
    unfolding c1(3) by (simp add: delete_conv')
  have "pointing t c1 \<noteq> 0" if "map_of (tr_conns c) j = Some (Some t)" "j \<noteq> k" for j t
    using that conns [of j] by (auto intro!: points_at [of c1 j t])
  with c1(2,4,5) conns show "traffic_inv c'" "within limit c \<Longrightarrow> within limit c'" "slots_kept (Some k) c c'" "map_of (tr_conns c') k = None"
    unfolding same slots_kept_def by auto
qed

lemma prune_kept:
  assumes "traffic_inv c"
  shows "traffic_inv (prune_traffic now c)" "within limit c \<Longrightarrow> within limit (prune_traffic now c)" "slots_kept None c (prune_traffic now c)"
proof -
  have "prune_traffic now c = prune_traffic_loop (length (the_list c)) now c" using traffic_ensured [OF assms] by (simp add: prune_traffic_def Let_def)
  with prune_traffic_loop_spec [OF assms, of "length (the_list c)" now] show "traffic_inv (prune_traffic now c)"
    "within limit c \<Longrightarrow> within limit (prune_traffic now c)" "slots_kept None c (prune_traffic now c)"
    by (auto simp: within_def slots_kept_def keeps_active_def dest: points_at)
qed

lemma track_inv:
  assumes "traffic_inv c" "map_of (tr_conns c) k = None"
  shows "traffic_inv (c\<lparr>tr_conns := (k, None) # tr_conns c\<rparr>)"
  using assms traffic_invD(4) [OF assms(1)] by (intro untracked_inv [OF assms(1)]) (auto simp: pointing_def map_of_eq_None_iff)

lemma fresh_handler: "number_inv s \<Longrightarrow> cn_handlers s (cn_next s) = None"
  by (cases "cn_handlers s (cn_next s)") (auto dest: number_invD(2))

lemma cache_step:
  assumes "conns_step server smux_server defaults s s'" "number_inv s" "slot_inv (server_traffic_limit (server_tcp server)) s"
  shows "traffic_inv (cn_traffic s') \<and> within (server_traffic_limit (server_tcp server)) (cn_traffic s')"
proof -
  let ?limit = "server_traffic_limit (server_tcp server)"
  have t: "traffic_inv (cn_traffic s)" "within ?limit (cn_traffic s)" and slot: "\<And>k. slot_ok s k" using assms(3) by (auto simp: slot_inv_def)
  show ?thesis
    using assms(1)
  proof cases
    case (Track k)
    have "map_of (tr_conns (cn_traffic s)) k = None" using number_invD(3) [OF assms(2), of k] slot [of k] Track by (simp add: slot_ok_def)
    from track_inv [OF t(1) this] t Track show ?thesis
      by (cases "is_closing (cn_runtime s)") (simp_all add: start_accept_def within_def)
  next
    case (CloseEnd k now c)
    with closed_kept [OF CloseEnd(3) t(1)] t show ?thesis by simp
  next
    case (Count k ip now t c)
    with for_connection_kept [OF Count(4) t(1)] show ?thesis by simp
  next
    case (Prune now)
    with prune_kept(1) [OF t(1), of now] prune_kept(2) [OF t, of now] show ?thesis by simp
  next
    case Stopped
    then show ?thesis using empty_traffic_inv by (simp add: clear_conns_def within_def the_list_def empty_traffic_def)
  qed (use t in simp_all)
qed

lemma slot_ok_step:
  assumes "conns_step server smux_server defaults s s'" "number_inv s" "traffic_inv (cn_traffic s)" "slot_ok s x"
  shows "slot_ok s' x"
proof -
  have n: "number_ok s x" using assms(2) by (simp add: number_inv_def)
  note slot = assms(4)
  show ?thesis
    using assms(1)
  proof cases
    case (AcceptConn n addr)
    with slot fresh_handler [OF assms(2)] show ?thesis by (cases "x = cn_next s") (auto simp: slot_ok_def split: option.splits if_splits)
  next
    case DropConn
    with slot fresh_handler [OF assms(2)] show ?thesis by (cases "x = cn_next s") (auto simp: slot_ok_def split: option.splits if_splits)
  next
    case (Track k)
    with n slot show ?thesis
      by (cases "is_closing (cn_runtime s)"; cases "x = k") (auto simp: slot_ok_def number_ok_def start_accept_def has_counter_def split: option.splits)
  next
    case (Reject k m)
    with n slot show ?thesis by (cases "x = k") (auto simp: slot_ok_def number_ok_def split: option.splits if_splits)
  next
    case (CloseBegin k)
    with slot show ?thesis by (cases "x = k") (auto simp: slot_ok_def split: option.splits)
  next
    case (CloseEnd k now c)
    note kept = closed_kept [OF CloseEnd(3) assms(3)]
    show ?thesis
    proof (cases "x = k")
      case True
      with kept(4) CloseEnd show ?thesis by (simp add: slot_ok_def split: option.split)
    next
      case False
      with CloseEnd kept(3) show ?thesis by (intro slot_ok_kept [OF slot, of "Some k"]) auto
    qed
  next
    case (Count k ip now t c)
    note kept = for_connection_kept [OF Count(4) assms(3)]
    show ?thesis
    proof (cases "x = k")
      case True
      with kept(4,5) slot Count show ?thesis by (cases "cn_once s k = Closed") (auto simp: slot_ok_def has_counter_def split: option.splits if_splits)
    next
      case False
      with Count kept(3) show ?thesis by (intro slot_ok_kept [OF slot, of "Some k"]) auto
    qed
  next
    case (Register k)
    with slot show ?thesis
      by (cases rule: register_handler [of "tt_max_sessions (server_tcp server)" k s]; cases "x = k") (auto simp: slot_ok_def has_counter_def split: option.splits if_splits)
  next
    case (Prune now)
    with prune_kept(3) [OF assms(3), of now] show ?thesis by (intro slot_ok_kept [OF slot, of None]) simp_all
  next
    case Stopped
    then show ?thesis by (simp add: slot_ok_def clear_conns_def empty_traffic_def)
  next
    case (Release k m)
    with n slot show ?thesis by (cases "x = k") (auto simp: slot_ok_def number_ok_def split: option.splits if_splits)
  next
    case (Ended k)
    with slot show ?thesis by (cases "x = k") (auto simp: slot_ok_def split: option.splits if_splits)
  qed (use slot in \<open>auto simp: slot_ok_def has_counter_def admit_conn_def split: option.splits if_splits\<close>)
qed

lemma slot_step:
  assumes "conns_step server smux_server defaults s s'" "number_inv s" "slot_inv (server_traffic_limit (server_tcp server)) s"
  shows "slot_inv (server_traffic_limit (server_tcp server)) s'"
  using cache_step [OF assms] slot_ok_step [OF assms(1,2)] assms(3) by (simp add: slot_inv_def)

section \<open>Who was let in\<close>

text \<open>The handshake of the server on a connection with these bytes to read returned this user.\<close>

definition shaken :: "role_server \<Rightarrow> (smux_config \<Rightarrow> 'm io) \<Rightarrow> smux_config \<Rightarrow> duplex \<Rightarrow> byte list \<Rightarrow> bool" where
  "shaken server smux_server defaults d user \<longleftrightarrow>
     (\<exists>d' session. accept_session smux_server defaults MaxPayload32 (duration_of_millis (tt_open_timeout_millis (server_tcp server)))
        (session_config_of (sv_transfer (rs_cfg server))) (peer_users (rs_cfg server)) d = (Inr (session, user), d'))"

definition allowed_addr :: "role_server \<Rightarrow> byte list option \<Rightarrow> bool" where
  "allowed_addr server addr \<longleftrightarrow> (\<exists>ip. addr = Some ip \<and> client_ip_allowed server ip)"

definition before_handshake :: "conn_pc \<Rightarrow> bool" where
  "before_handshake pc \<longleftrightarrow> pc \<in> {Fresh, Admitting, Handshaking, Refusing, Releasing}"

definition who_ok :: "role_server \<Rightarrow> (smux_config \<Rightarrow> 'm io) \<Rightarrow> smux_config \<Rightarrow> conns \<Rightarrow> nat \<Rightarrow> bool" where
  "who_ok server smux_server defaults s k \<longleftrightarrow>
     (case cn_handlers s k of None \<Rightarrow> True | Some pc \<Rightarrow> cn_principal s k = None \<longleftrightarrow> before_handshake pc) \<and>
     (cn_handlers s k = Some Handshaking \<longrightarrow> allowed_addr server (cn_addr s k)) \<and>
     (case cn_principal s k of None \<Rightarrow> True
      | Some user \<Rightarrow> k < cn_next s \<and> loop_conn (cn_loop s) \<noteq> Some k \<and>
        allowed_addr server (cn_addr s k) \<and> shaken server smux_server defaults (cn_talk s k) user)"

definition who_inv :: "role_server \<Rightarrow> (smux_config \<Rightarrow> 'm io) \<Rightarrow> smux_config \<Rightarrow> conns \<Rightarrow> bool" where
  "who_inv server smux_server defaults s \<longleftrightarrow> (\<forall>k. who_ok server smux_server defaults s k)"

lemma who_step:
  assumes "conns_step server smux_server defaults s s'" "number_inv s" "who_inv server smux_server defaults s"
  shows "who_inv server smux_server defaults s'"
proof -
  have "who_ok server smux_server defaults s' x" for x
  proof -
    have x: "who_ok server smux_server defaults s x" using assms(3) by (simp add: who_inv_def)
    have n: "number_ok s x" using assms(2) by (simp add: number_inv_def)
    show ?thesis
      using assms(1)
    proof cases
      case (Track k)
      with x n show ?thesis
        by (cases "is_closing (cn_runtime s)") (auto simp: who_ok_def start_accept_def before_handshake_def split: option.splits if_splits)
    next
      case (Shake k d session user d')
      have "shaken server smux_server defaults d user" unfolding shaken_def using Shake by blast
      with Shake x n show ?thesis by (auto simp: who_ok_def number_ok_def before_handshake_def split: option.splits if_splits)
    next
      case (Register k)
      with x show ?thesis
        by (cases rule: register_handler [of "tt_max_sessions (server_tcp server)" k s]) (auto simp: who_ok_def before_handshake_def split: option.splits if_splits)
    next
      case (Admit k)
      with x show ?thesis by (auto simp: who_ok_def before_handshake_def admit_conn_def allowed_addr_def split: option.splits if_splits)
    next
      case (AcceptConn n addr)
      with x n show ?thesis by (auto simp: who_ok_def number_ok_def before_handshake_def split: option.splits if_splits)
    qed (use x in \<open>auto simp: who_ok_def before_handshake_def split: option.splits if_splits\<close>)
  qed
  then show ?thesis by (simp add: who_inv_def)
qed

lemma who_invD:
  assumes "who_inv server smux_server defaults s"
  shows "cn_handlers s k = Some pc \<Longrightarrow> cn_principal s k = None \<longleftrightarrow> before_handshake pc"
    "cn_principal s k = Some user \<Longrightarrow> allowed_addr server (cn_addr s k) \<and> shaken server smux_server defaults (cn_talk s k) user"
proof -
  have "who_ok server smux_server defaults s k" using assms by (simp add: who_inv_def)
  then show "cn_handlers s k = Some pc \<Longrightarrow> cn_principal s k = None \<longleftrightarrow> before_handshake pc"
    "cn_principal s k = Some user \<Longrightarrow> allowed_addr server (cn_addr s k) \<and> shaken server smux_server defaults (cn_talk s k) user"
    by (auto simp: who_ok_def)
qed

text \<open>A goroutine of a stream belongs to a connection that was let in, and asks for its user.\<close>

definition owner_inv :: "conns \<Rightarrow> bool" where
  "owner_inv s \<longleftrightarrow>
     (\<forall>h. rt_handlers (cn_runtime s) h \<noteq> None \<longrightarrow> cn_principal s (cn_owner s h) \<noteq> None) \<and>
     (\<forall>h r. rt_requests (cn_runtime s) h = Some r \<longrightarrow> cn_principal s (cn_owner s h) = Some (op_principal r))"

lemma owner_step:
  assumes "conns_step server smux_server defaults s s'" "who_inv server smux_server defaults s" "owner_inv s" "ptr_inv (cn_runtime s)"
  shows "owner_inv s'"
proof -
  have inv: "\<And>h. rt_handlers (cn_runtime s) h \<noteq> None \<Longrightarrow> cn_principal s (cn_owner s h) \<noteq> None"
    "\<And>h r. rt_requests (cn_runtime s) h = Some r \<Longrightarrow> cn_principal s (cn_owner s h) = Some (op_principal r)"
    using assms(3) unfolding owner_inv_def by blast+
  show ?thesis
    using assms(1)
  proof cases
    case (Shake k d session user d')
    have "cn_principal s k = None" using who_invD(1) [OF assms(2) Shake(2)] by (simp add: before_handshake_def)
    then have "cn_owner s h \<noteq> k" if "rt_handlers (cn_runtime s) h \<noteq> None \<or> rt_requests (cn_runtime s) h \<noteq> None" for h
      using that inv by fastforce
    with inv Shake show ?thesis by (auto simp: owner_inv_def)
  next
    case (StreamStart k go_on rt)
    have "cn_principal s k \<noteq> None" using who_invD(1) [OF assms(2) StreamStart(2)] by (simp add: before_handshake_def)
    moreover have "rt_requests (cn_runtime s) (rt_next (cn_runtime s)) = None" using assms(4) unfolding ptr_inv_def by blast
    ultimately show ?thesis using inv StreamStart(1)
      by (cases rule: start_session_stream_cases [OF StreamStart(3)]) (auto simp: owner_inv_def)
  next
    case (Stream rt)
    have "rt_handlers (cn_runtime s) h \<noteq> None" if "rt_handlers rt h \<noteq> None" for h using that Stream(3) by blast
    moreover have "cn_principal s (cn_owner s h) = Some (op_principal r)" if "rt_requests rt h = Some r" for h r
      using that Stream(4) inv(2) [of h r] by (cases "rt_requests (cn_runtime s) h = Some r") simp_all
    ultimately show ?thesis using inv(1) Stream(1) by (simp add: owner_inv_def)
  next
    case Stopped
    then show ?thesis using inv by (auto simp: owner_inv_def clear_runtime_def)
  qed (use inv in \<open>auto simp: owner_inv_def prune_state_def\<close>)
qed

section \<open>Every reachable server\<close>

lemma runtime_step:
  assumes "conns_step server smux_server defaults s s'" "server_reachable (server_tcp server) (cn_runtime s)"
  shows "server_reachable (server_tcp server) (cn_runtime s')"
  using assms(1)
proof cases
  case (StreamStart k go_on rt)
  with server_reachable.intros(2) [OF assms(2) server_step.Accept [OF StreamStart(3)]] show ?thesis by simp
next
  case (Stream rt)
  with server_reachable.intros(2) [OF assms(2) Stream(2)] show ?thesis by simp
next
  case (Prune now)
  with server_reachable.intros(2) [OF assms(2) server_step.PruneClosed [OF Prune(2)]] show ?thesis by (simp add: prune_state_def)
next
  case Stopped
  then show ?thesis using server_reachable.intros(2) [OF assms(2)] by simp
qed (use assms(2) in simp_all)

definition conns_inv :: "role_server \<Rightarrow> (smux_config \<Rightarrow> 'm io) \<Rightarrow> smux_config \<Rightarrow> conns \<Rightarrow> bool" where
  "conns_inv server smux_server defaults s \<longleftrightarrow> server_reachable (server_tcp server) (cn_runtime s) \<and> number_inv s \<and> token_inv server s \<and>
     session_inv server s \<and> slot_inv (server_traffic_limit (server_tcp server)) s \<and> who_inv server smux_server defaults s \<and> owner_inv s"

lemma conns_reachable_inv:
  assumes "conns_reachable server smux_server defaults s" "0 \<le> tt_max_streams (server_tcp server)"
  shows "conns_inv server smux_server defaults s"
  using assms(1)
proof induction
  case 1
  have "cn_traffic new_conns = empty_traffic" by (simp add: new_conns_def)
  then have "slot_inv limit new_conns" for limit using empty_traffic_inv
    by (auto simp: slot_inv_def slot_ok_def within_def the_list_def empty_traffic_def new_conns_def)
  moreover have "owner_inv new_conns" by (simp add: owner_inv_def new_conns_def new_runtime_def)
  moreover have "number_inv new_conns" "token_inv server new_conns" "session_inv server new_conns" "who_inv server smux_server defaults new_conns"
    by (auto simp: number_inv_def number_ok_def token_inv_def tokens_def session_inv_def who_inv_def who_ok_def new_conns_def)
  moreover have "cn_runtime new_conns = new_runtime" by (simp add: new_conns_def)
  ultimately show ?case unfolding conns_inv_def using server_reachable.intros(1) [of "server_tcp server"] by metis
next
  case (2 s s')
  then show ?case
    using runtime_step [OF 2(2)] number_step [OF 2(2)] token_step [OF 2(2)] session_step [OF 2(2)] slot_step [OF 2(2)] who_step [OF 2(2)]
      owner_step [OF 2(2)] server_reachableD(1) [OF _ assms(2)]
    unfolding conns_inv_def by blast
qed

lemma counter_exact:
  assumes "traffic_inv (cn_traffic s)" "map_of (tr_map (cn_traffic s)) a = Some t"
  shows "te_active (tr_store (cn_traffic s) t) = pointing t (cn_traffic s)"
  using traffic_invD(5) [OF assms] traffic_invD(8) [OF assms(1), of t] assms(2) by simp

lemma release_ready:
  assumes "number_inv s" "token_inv server s" "cn_handlers s k \<in> {Some Releasing, Some Established} \<or> cn_loop s = Rejecting k"
  shows "release_pending (tt_max_pending_connections (server_tcp server)) (cn_pending s) \<noteq> None"
proof -
  have "holds_token (cn_handlers s k) \<Longrightarrow> card {k. holds_token (cn_handlers s k)} > 0" using finite_holders [OF assms(1)] by (auto simp: card_gt_0_iff)
  with assms(3) have "tokens s > 0" by (auto simp: tokens_def)
  with assms(2) show ?thesis by (auto simp: token_inv_def release_pending_def Let_def)
qed

lemma carriers_request:
  assumes "server_reachable cfg rt" "0 \<le> tt_max_streams cfg" "sm_flow (rt_store rt p) = Some fl" "h \<in> set (fl_carriers fl)"
  shows "\<exists>r. rt_requests rt h = Some r \<and> op_principal r = sm_principal (rt_store rt p)"
proof -
  note req = req_invD [OF server_reachableD(2) [OF assms(1,2)]]
  from req(5) [OF assms(3)] assms(4) show ?thesis by (fastforce simp: matches_def)
qed

lemma accept_session_user:
  assumes "accept_session smux_server defaults m timeout config (Some us) d = (Inr (session, user), d')"
  shows "\<exists>cp sp d1 d2 before. rd_bytes (dx_in d) = before @ rd_bytes (dx_in d1) \<and> dx_rand d1 = dx_rand d \<and>
    authenticate_peer_server cp sp us d1 = (Inr user, d2)"
proof -
  from assms obtain u1 d1 cp d2 u3 d3 sb d4 where
    first: "(if timeout > 0 then set_deadline else io_return ()) d = (Inr u1, d1)" and cp: "receive_preface d1 = (Inr cp, d2)"
    and guard: "io_guard (pf_flags cp = 0) ErrInvalidPreface d2 = (Inr u3, d3)"
    and steps: "(let server_preface = \<lparr>pf_version = 0, pf_flags = (if Some us \<noteq> None then PrefaceFlagAuthRequired else 0), pf_max_payload = m\<rparr> in
     io_bind (io_lift (marshal_preface server_preface)) (\<lambda>(server_bytes, _).
     io_bind (send server_bytes) (\<lambda>_.
     io_bind (case Some us of None \<Rightarrow> io_return [] | Some us \<Rightarrow> authenticate_peer_server cp server_preface us) (\<lambda>principal.
     io_bind set_deadline (\<lambda>_. io_bind (smux_server (smux_session_config defaults config)) (\<lambda>mux.
     io_return (\<lparr>ss_mux = mux, ss_max_payload = pf_max_payload cp\<rparr>, principal)))))) d3) = (Inr (session, user), d')"
    unfolding accept_session_def close_on_error_ok by (elim io_bindE) (auto simp: Let_def)
  let ?sp = "\<lparr>pf_version = 0, pf_flags = PrefaceFlagAuthRequired, pf_max_payload = m\<rparr>"
  from steps obtain sbp d4 u5 d5 principal d6 u7 d7 mux d8 where
    lift: "io_lift (marshal_preface ?sp) d3 = (Inr sbp, d4)" and sent: "send (fst sbp) d4 = (Inr u5, d5)"
    and auth: "authenticate_peer_server cp ?sp us d5 = (Inr principal, d6)"
    and result: "io_return (\<lparr>ss_mux = mux, ss_max_payload = pf_max_payload cp\<rparr>, principal) d8 = (Inr (session, user), d')"
    unfolding Let_def by (elim io_bindE) (auto simp: case_prod_unfold elim!: io_bindE)
  have "dx_in d1 = dx_in d \<and> dx_rand d1 = dx_rand d" using first by (auto simp: set_deadline_def io_return_def split: if_splits prod.splits option.splits)
  moreover have "rd_bytes (dx_in d1) = preface_bytes cp @ rd_bytes (dx_in d2) \<and> dx_rand d2 = dx_rand d1"
    using cp read_preface_sound by (auto simp: receive_preface_def split: sum.splits)
  moreover have "d3 = d2" using guard by (simp add: io_guard_def)
  moreover have "d4 = d3" using io_ok(2) [OF lift] by simp
  moreover have "dx_in d5 = dx_in d4 \<and> dx_rand d5 = dx_rand d4" using send_ok [OF sent] by simp
  ultimately have "rd_bytes (dx_in d) = preface_bytes cp @ rd_bytes (dx_in d5)" "dx_rand d5 = dx_rand d" by simp_all
  moreover have "principal = user" using result by (simp add: io_return_def)
  ultimately show ?thesis using auth by blast
qed

text \<open>
  The proof of a user's password on a connection: the server draws a fresh challenge and reads the keyed
  sum over it.
\<close>

definition knows_password :: "(byte list \<rightharpoonup> byte list) \<Rightarrow> byte list \<Rightarrow> duplex \<Rightarrow> bool" where
  "knows_password us user d \<longleftrightarrow>
     (\<exists>cp sp fresh spare nonce password mac before after. us user = Some password \<and> length fresh = 32 \<and>
        rd_bytes (dx_rand d) = fresh @ spare \<and>
        peer_auth_mac cp sp (record_header peerAuthChallengeType 0 @ fresh) nonce user password = Inr mac \<and>
        rd_bytes (dx_in d) = before @ user @ nonce @ mac @ after)"

lemma shaken_user:
  assumes "shaken server smux_server defaults d user" "peer_users (rs_cfg server) = Some us"
  shows "knows_password us user d"
proof -
  obtain d' session where "accept_session smux_server defaults MaxPayload32 (duration_of_millis (tt_open_timeout_millis (server_tcp server)))
     (session_config_of (sv_transfer (rs_cfg server))) (Some us) d = (Inr (session, user), d')"
    using assms unfolding shaken_def by auto
  from accept_session_user [OF this] obtain cp sp d1 d2 before where d1: "rd_bytes (dx_in d) = before @ rd_bytes (dx_in d1)" "dx_rand d1 = dx_rand d"
    and "authenticate_peer_server cp sp us d1 = (Inr user, d2)" by blast
  from server_ok_inv [OF this(3)] obtain fresh header nonce mac password spare where
    "us user = Some password" "length fresh = 32" "rd_bytes (dx_rand d1) = fresh @ spare"
    "rd_bytes (dx_in d1) = header @ user @ nonce @ mac @ rd_bytes (dx_in d2)"
    "peer_auth_mac cp sp (record_header peerAuthChallengeType 0 @ fresh) nonce user password = Inr mac" by blast
  with d1 show ?thesis unfolding knows_password_def by (metis append.assoc)
qed

text \<open>A number that has a goroutine is never the accept loop's again.\<close>

lemma loop_fresh:
  assumes "conns_step server smux_server defaults s s'" "number_inv s" "cn_handlers s k \<noteq> None"
  shows "k < cn_next s' \<and> loop_conn (cn_loop s') \<noteq> Some k"
proof -
  have "number_ok s k" using assms(2) by (simp add: number_inv_def)
  then have k: "k < cn_next s" "loop_conn (cn_loop s) \<noteq> Some k" using assms(3) by (auto simp: number_ok_def)
  show ?thesis
    using assms(1)
  proof cases
    case (Track j)
    with k show ?thesis by (cases "is_closing (cn_runtime s)") (simp_all add: start_accept_def)
  qed (use k in auto)
qed

section \<open>A connection can always end\<close>

fun pc_rank :: "conn_pc \<Rightarrow> nat" where
  "pc_rank Fresh = 11" | "pc_rank Admitting = 10" | "pc_rank Handshaking = 9" | "pc_rank Established = 8" | "pc_rank Counting = 7"
| "pc_rank Registering = 6" | "pc_rank Serving = 5" | "pc_rank Leaving = 4" | "pc_rank Ending = 3" | "pc_rank Refusing = 2" | "pc_rank Releasing = 1"

fun once_rank :: "close_once \<Rightarrow> nat" where
  "once_rank Unclosed = 2" | "once_rank Closing = 1" | "once_rank Closed = 0"

definition conn_rank :: "conns \<Rightarrow> nat \<Rightarrow> nat" where
  "conn_rank s k = (case cn_handlers s k of None \<Rightarrow> 0 | Some pc \<Rightarrow> 3 * pc_rank pc + once_rank (cn_once s k))"

lemma once_rank_bound: "once_rank x \<le> 2"
  by (cases x) auto

lemma rank_at_pc:
  assumes "cn_handlers s k = Some pc" "cn_once s' k = cn_once s k" "cn_handlers s' k = None \<or> (\<exists>pc'. cn_handlers s' k = Some pc' \<and> pc_rank pc' < pc_rank pc)"
  shows "conn_rank s' k < conn_rank s k"
proof -
  have "0 < pc_rank pc" by (cases pc) auto
  with assms show ?thesis by (auto simp: conn_rank_def)
qed

lemma close_progress:
  assumes "cn_handlers s k = Some pc" "cn_once s k \<noteq> Closed" "traffic_inv (cn_traffic s)"
  shows "\<exists>s'. conns_step server smux_server defaults s s' \<and> conn_rank s' k < conn_rank s k"
proof (cases "cn_once s k")
  case Unclosed
  have "conns_step server smux_server defaults s (s\<lparr>cn_once := (cn_once s)(k := Closing)\<rparr>)" by (rule CloseBegin) (use assms Unclosed in simp_all)
  with assms Unclosed show ?thesis by (force simp: conn_rank_def)
next
  case Closing
  obtain c where "connection_closed (server_traffic_limit (server_tcp server)) k 0 (cn_traffic s) = Some c"
    using connection_closed_returns [OF assms(3)] by blast
  with CloseEnd [OF Closing] have "conns_step server smux_server defaults s (s\<lparr>cn_once := (cn_once s)(k := Closed), cn_traffic := c\<rparr>)" by blast
  with assms Closing show ?thesis by (force simp: conn_rank_def)
qed (use assms in simp)

lemma conn_progress:
  assumes "conns_reachable server smux_server defaults s" "0 \<le> tt_max_streams (server_tcp server)" "cn_handlers s k = Some pc"
  shows "\<exists>s'. conns_step server smux_server defaults s s' \<and> conn_rank s' k < conn_rank s k"
proof -
  note inv = conns_reachable_inv [OF assms(1,2), unfolded conns_inv_def slot_inv_def]
  have who: "who_inv server smux_server defaults s" and t: "traffic_inv (cn_traffic s)" using inv by blast+
  let ?limit = "tt_max_pending_connections (server_tcp server)"
  note r = rank_at_pc [OF assms(3)]
  have release: "pc = Releasing \<or> pc = Established \<Longrightarrow> \<exists>n. release_pending ?limit (cn_pending s) = Some n"
    using release_ready [of s server k] inv assms(3) by blast
  have goto: "\<exists>s'. conns_step server smux_server defaults s s' \<and> conn_rank s' k < conn_rank s k"
    if "conns_step server smux_server defaults s (at_pc k pc' s1)" "cn_once s1 k = cn_once s k"
      "pc' = None \<or> (\<exists>pc1. pc' = Some pc1 \<and> pc_rank pc1 < pc_rank pc)" for pc' s1
    using that by (intro exI [of _ "at_pc k pc' s1"]) (auto intro: r)
  show ?thesis
  proof (cases pc)
    case Fresh
    with First [of s k] assms(3) show ?thesis by (intro goto) auto
  next
    case Admitting
    have "pc_rank (admit_conn server (cn_addr s k)) < 10" by (auto simp: admit_conn_def split: option.split)
    with Admit [of s k] assms(3) Admitting show ?thesis by (intro goto) auto
  next
    case Handshaking
    obtain res d' where run: "accept_session smux_server defaults MaxPayload32 (duration_of_millis (tt_open_timeout_millis (server_tcp server)))
      (session_config_of (sv_transfer (rs_cfg server))) (peer_users (rs_cfg server)) (duplex_of [] [] []) = (res, d')" by fastforce
    show ?thesis
    proof (cases res)
      case (Inl e)
      with run have "dx_closed d'" unfolding accept_session_def by (auto intro: close_on_error_fails)
      with ShakeFailed [of s k] run Inl assms(3) Handshaking show ?thesis by (intro goto [of "Some Refusing" s]) auto
    next
      case (Inr x)
      obtain session user where "x = (session, user)" by (cases x)
      with Shake [of s k] run Inr assms(3) Handshaking show ?thesis
        by (intro goto [of "Some Established" "s\<lparr>cn_principal := (cn_principal s)(k \<mapsto> user), cn_talk := (cn_talk s)(k := duplex_of [] [] [])\<rparr>"]) auto
    qed
  next
    case Established
    from release Established obtain n where "release_pending ?limit (cn_pending s) = Some n" by blast
    with Finish [of s k] assms(3) Established show ?thesis by (intro goto [of "Some Counting" "s\<lparr>cn_pending := n\<rparr>"]) auto
  next
    case Counting
    have "cn_principal s k \<noteq> None" using who_invD(1) [OF who assms(3)] Counting by (simp add: before_handshake_def)
    then obtain ip where "cn_addr s k = Some ip" using who_invD(2) [OF who, of k] by (auto simp: allowed_addr_def)
    moreover obtain t c where "traffic_for_connection (server_traffic_limit (server_tcp server)) (Some k) (ip_text ip) 0 (cn_traffic s) = Some (t, c)"
      using for_connection_returns [OF t] by blast
    ultimately show ?thesis using Count [of s k ip] assms(3) Counting by (intro goto [of "Some Registering" "s\<lparr>cn_traffic := c\<rparr>"]) auto
  next
    case Registering
    have step: "conns_step server smux_server defaults s (register_session (tt_max_sessions (server_tcp server)) k s)"
      using conns_step.Register [of s k] assms(3) Registering by simp
    moreover have "conn_rank (register_session (tt_max_sessions (server_tcp server)) k s) k < conn_rank s k"
      using Registering by (cases rule: register_handler [of "tt_max_sessions (server_tcp server)" k s]) (auto intro!: r)
    ultimately show ?thesis by blast
  next
    case Serving
    with ServeEnd [of s k] assms(3) show ?thesis by (intro goto) auto
  next
    case Leaving
    with Unregister [of s k] assms(3) show ?thesis by (intro goto [of "Some Ending" "s\<lparr>cn_sessions := remove1 k (cn_sessions s)\<rparr>"]) auto
  next
    case Ending
    show ?thesis
    proof (cases "cn_once s k = Closed")
      case True
      with Ended [of s k] assms(3) Ending show ?thesis by (intro goto) auto
    qed (rule close_progress [OF assms(3) _ t])
  next
    case Refusing
    show ?thesis
    proof (cases "cn_once s k = Closed")
      case True
      with Refused [of s k] assms(3) Refusing show ?thesis by (intro goto) auto
    qed (rule close_progress [OF assms(3) _ t])
  next
    case Releasing
    from release Releasing obtain n where "release_pending ?limit (cn_pending s) = Some n" by blast
    with Release [of s k] assms(3) Releasing show ?thesis by (intro goto [of None "s\<lparr>cn_pending := n\<rparr>"]) auto
  qed
qed

subsection \<open>A run with one carrier\<close>

definition sample_server :: role_server where
  "sample_server = \<lparr>rs_cfg = (cf_server empty_config)\<lparr>sv_transfer := (transfer_apply_defaults empty_transfer)\<lparr>tr_tcp := sample_transfer\<rparr>,
     sv_peer_auth := Some [([CHR 0x01], ''b'')]\<rparr>, rs_allowed_ips = [], rs_allowed_nets = []\<rparr>"

lemma sample_server_simps [simp]: "server_tcp sample_server = sample_transfer" "client_ip_allowed sample_server ip"
    "peer_users (rs_cfg sample_server) = Some [[1] \<mapsto> [98]]" "tt_max_pending_connections sample_transfer = 0" "tt_max_sessions sample_transfer = 0"
  by (simp_all add: server_tcp_def sample_server_def client_ip_allowed_def peer_users_def text_bytes_def byte_of_char_def
      sample_transfer_def empty_transfer_def transfer_apply_defaults_def tcp_apply_defaults_def Let_def)

definition no_mux :: "smux_config \<Rightarrow> unit io" where "no_mux config d = (Inr (), d)"

definition sample_conn :: "conn_pc \<Rightarrow> runtime \<Rightarrow> traffic_cache \<Rightarrow> nat list \<Rightarrow> byte list option \<Rightarrow> duplex \<Rightarrow> conns" where
  "sample_conn pc rt c sessions user talk = new_conns\<lparr>cn_handlers := [0 \<mapsto> pc], cn_runtime := rt, cn_traffic := c, cn_sessions := sessions,
     cn_next := 1, cn_addr := [0 \<mapsto> [10, 0, 0, 1]], cn_principal := (\<lambda>k. if k = 0 then user else None),
     cn_talk := (cn_talk new_conns)(0 := talk)\<rparr>"

lemma sample_conn_simps [simp]:
  "cn_handlers (sample_conn pc rt c ss user talk) = [0 \<mapsto> pc]" "cn_runtime (sample_conn pc rt c ss user talk) = rt"
  "cn_traffic (sample_conn pc rt c ss user talk) = c" "cn_sessions (sample_conn pc rt c ss user talk) = ss"
  "cn_once (sample_conn pc rt c ss user talk) k = Unclosed" "cn_pending (sample_conn pc rt c ss user talk) = 0"
  "cn_loop (sample_conn pc rt c ss user talk) = Accepting" "cn_addr (sample_conn pc rt c ss user talk) = [0 \<mapsto> [10, 0, 0, 1]]"
  "cn_principal (sample_conn pc rt c ss user talk) 0 = user" "cn_owner (sample_conn pc rt c ss user talk) h = 0"
  "cn_talk (sample_conn pc rt c ss user talk) 0 = talk"
  "at_pc 0 (Some pc') (sample_conn pc rt c ss user talk) = sample_conn pc' rt c ss user talk"
  "(sample_conn pc rt c ss user talk)\<lparr>cn_runtime := rt'\<rparr> = sample_conn pc rt' c ss user talk"
  "(sample_conn pc rt c ss user talk)\<lparr>cn_pending := 0\<rparr> = sample_conn pc rt c ss user talk"
  "(sample_conn pc rt c ss user talk)\<lparr>cn_traffic := c'\<rparr> = sample_conn pc rt c' ss user talk"
  "(sample_conn pc rt c ss user talk)\<lparr>cn_sessions := ss'\<rparr> = sample_conn pc rt c ss' user talk"
  "(sample_conn pc rt c ss user talk)\<lparr>cn_owner := (cn_owner (sample_conn pc' rt' c ss user talk))(h' := 0)\<rparr> = sample_conn pc rt c ss user talk"
  "(sample_conn pc rt c ss user talk)\<lparr>cn_principal := (cn_principal (sample_conn pc rt c ss user talk))(0 \<mapsto> u),
     cn_talk := (cn_talk (sample_conn pc rt c ss user talk))(0 := d)\<rparr> = sample_conn pc rt c ss (Some u) d"
  by (auto simp: sample_conn_def new_conns_def at_pc_def fun_eq_iff)

definition sample_tracked :: traffic_cache where "sample_tracked = empty_traffic\<lparr>tr_conns := [(0, None)]\<rparr>"

abbreviation sample_runs :: "conns \<Rightarrow> bool" where "sample_runs \<equiv> conns_reachable sample_server no_mux undefined"

lemma sample_shaking: "sample_runs (sample_conn Handshaking new_runtime sample_tracked [] None (duplex_of [] [] []))"
proof -
  let ?s = "\<lambda>pc. sample_conn pc new_runtime sample_tracked [] None (duplex_of [] [] [])"
  have closing: "\<not> is_closing new_runtime" by (simp add: is_closing_def new_runtime_def)
  let ?s1 = "new_conns\<lparr>cn_loop := Tracking 0, cn_next := 1, cn_pending := 0, cn_addr := [0 \<mapsto> [10, 0, 0, 1]]\<rparr>"
  have "conns_step sample_server no_mux undefined new_conns ?s1"
    using AcceptConn [of new_conns sample_server 0 no_mux undefined "Some [10, 0, 0, 1]"] by (simp add: new_conns_def try_acquire_pending_def)
  note 1 = conns_reachable.intros(2) [OF conns_reachable.intros(1) this]
  have "conns_step sample_server no_mux undefined ?s1 (start_accept 0 ?s1)" by (rule Track) simp
  moreover have "start_accept 0 ?s1 = ?s Fresh"
    using closing by (auto simp: start_accept_def sample_conn_def new_conns_def at_pc_def sample_tracked_def empty_traffic_def fun_eq_iff)
  ultimately have 2: "sample_runs (?s Fresh)" using conns_reachable.intros(2) [OF 1] by simp
  have "conns_step sample_server no_mux undefined (?s Fresh) (?s Admitting)" using First [of "?s Fresh" 0 sample_server no_mux undefined] closing by simp
  note 3 = conns_reachable.intros(2) [OF 2 this]
  have "conns_step sample_server no_mux undefined (?s Admitting) (?s Handshaking)"
    using Admit [of "?s Admitting" 0 sample_server no_mux undefined] by (simp add: admit_conn_def)
  from conns_reachable.intros(2) [OF 3 this] show ?thesis .
qed

lemma sample_serving: "\<exists>c talk. sample_runs (sample_conn Serving new_runtime c [0] (Some [1]) talk)"
proof -
  have m: "(0::u32) \<le> MaxPayload32" "MaxPayload32 \<le> MaxPayload32" by simp_all
  have mux: "\<forall>cfg d. no_mux cfg d = (Inr (), d)" by (simp add: no_mux_def)
  have user: "case (Some [[1] \<mapsto> [98]], Some \<lparr>pc_username = [1], pc_password = [98]\<rparr>) of (None, None) \<Rightarrow> True
      | (Some us, Some c) \<Rightarrow> us (pc_username c) = Some (pc_password c) \<and> pc_username c \<noteq> [] \<and>
          length (pc_username c) \<le> 255 \<and> pc_password c \<noteq> []
      | _ \<Rightarrow> False" by simp
  have len: "length (replicate 32 1 :: byte list) = 32" by simp
  from sessions_agree [OF m len len len mux mux user, where defaults = undefined and config' = "session_config_of (sv_transfer (rs_cfg sample_server))"
      and timeout' = "duration_of_millis (tt_open_timeout_millis sample_transfer)"]
  obtain to_server session d' where "accept_session no_mux undefined MaxPayload32 (duration_of_millis (tt_open_timeout_millis sample_transfer))
     (session_config_of (sv_transfer (rs_cfg sample_server))) (Some [[1] \<mapsto> [98]]) (duplex_of to_server (replicate 32 1 @ replicate 32 1) []) =
     (Inr (session, case Some \<lparr>pc_username = [1], pc_password = [98]\<rparr> of None \<Rightarrow> [] | Some c \<Rightarrow> pc_username c), d')"
    by blast
  then obtain d where run: "accept_session no_mux undefined MaxPayload32 (duration_of_millis (tt_open_timeout_millis sample_transfer))
     (session_config_of (sv_transfer (rs_cfg sample_server))) (Some [[1] \<mapsto> [98]]) d = (Inr (session, [1]), d')"
    by auto
  let ?s = "\<lambda>pc. sample_conn pc new_runtime sample_tracked [] (Some [1]) d"
  have "conns_step sample_server no_mux undefined (sample_conn Handshaking new_runtime sample_tracked [] None (duplex_of [] [] [])) (?s Established)"
    using Shake [of "sample_conn Handshaking new_runtime sample_tracked [] None (duplex_of [] [] [])" 0 no_mux undefined sample_server d session "[1]" d'] run
    by simp
  note 1 = conns_reachable.intros(2) [OF sample_shaking this]
  have "conns_step sample_server no_mux undefined (?s Established) (?s Counting)"
    using Finish [of "?s Established" 0 sample_server 0 no_mux undefined] by (simp add: release_pending_def)
  note 2 = conns_reachable.intros(2) [OF 1 this]
  have "map_of (tr_conns empty_traffic) 0 = None" by (simp add: empty_traffic_def)
  from track_inv [OF empty_traffic_inv this] have "traffic_inv sample_tracked" by (simp add: sample_tracked_def empty_traffic_def)
  then obtain t c where "traffic_for_connection (server_traffic_limit sample_transfer) (Some 0) (ip_text [10, 0, 0, 1]) 0 sample_tracked = Some (t, c)"
    using for_connection_returns by blast
  then have "conns_step sample_server no_mux undefined (?s Counting) (sample_conn Registering new_runtime c [] (Some [1]) d)"
    using Count [of "?s Counting" 0 "[10, 0, 0, 1]" sample_server 0 t c no_mux undefined] by simp
  note 3 = conns_reachable.intros(2) [OF 2 this]
  have "\<not> is_closing new_runtime" by (simp add: is_closing_def new_runtime_def)
  then have "conns_step sample_server no_mux undefined (sample_conn Registering new_runtime c [] (Some [1]) d) (sample_conn Serving new_runtime c [0] (Some [1]) d)"
    using conns_step.Register [of "sample_conn Registering new_runtime c [] (Some [1]) d" 0 sample_server no_mux undefined]
    by (simp add: register_session_def)
  from conns_reachable.intros(2) [OF 3 this] show ?thesis by blast
qed

lemma sample_carrier: "\<exists>c talk. sample_runs (sample_conn Serving (sample_at (InAttach sample_request 1 Starting) sample_attached) c [0] (Some [1]) talk)"
proof -
  obtain c d where start: "sample_runs (sample_conn Serving new_runtime c [0] (Some [1]) d)" using sample_serving by blast
  let ?s = "\<lambda>rt. sample_conn Serving rt c [0] (Some [1]) d"
  have "start_session_stream 2 new_runtime = (True, sample_accepted)"
    by (simp add: start_session_stream_def is_closing_def new_runtime_def sample_accepted_def)
  then have "conns_step sample_server no_mux undefined (?s new_runtime) (?s sample_accepted)"
    using StreamStart [of "?s new_runtime" 0 sample_server True sample_accepted no_mux undefined] by simp
  note 1 = conns_reachable.intros(2) [OF start this]
  have stream: "sample_runs (?s rt')" if "sample_runs (?s rt)" "server_step sample_transfer rt rt'" "dom (rt_handlers rt') \<subseteq> dom (rt_handlers rt)"
    "rt_requests rt' = rt_requests rt \<or> rt_handlers rt 0 \<noteq> None \<and> rt_requests rt' = (rt_requests rt)(0 \<mapsto> sample_request)" for rt rt'
  proof -
    have user: "op_principal sample_request = [1]" by (simp add: sample_request_def)
    have "rt_handlers rt h \<noteq> None \<and> Some [1] = Some (op_principal r)" if "rt_requests rt' h = Some r" "rt_requests rt h \<noteq> Some r" for h r
      using that \<open>rt_requests rt' = rt_requests rt \<or> _\<close> user by (cases "h = 0") auto
    then have "conns_step sample_server no_mux undefined (?s rt) ((?s rt)\<lparr>cn_runtime := rt'\<rparr>)"
      by (intro Stream) (use that(2,3) in simp_all)
    then have "conns_step sample_server no_mux undefined (?s rt) (?s rt')" by simp
    from conns_reachable.intros(2) [OF that(1) this] show ?thesis .
  qed
  have "server_step sample_transfer sample_accepted sample_looking" by (rule sample_looking_step)
  from stream [OF 1 this] have 2: "sample_runs (?s sample_looking)" by (simp add: sample_looking_def sample_accepted_def new_runtime_def)
  have "sample_runs (?s sample_dialing)" by (rule sample_dialing_from [where P = "\<lambda>rt. sample_runs (?s rt)", OF 2]) (rule stream, assumption+, simp)
  then have "sample_runs (?s (sample_at (InAttach sample_request 1 Starting) sample_attached))"
    by (rule sample_attached_from [where P = "\<lambda>rt. sample_runs (?s rt)"]) (rule stream, assumption+, simp)
  then show ?thesis by blast
qed

section \<open>Properties\<close>

text \<open>
  C25. A stream belongs to one user. Every carrier of a stream was opened over a connection from an
  admitted address whose handshake returned the principal of the stream; when the configuration has
  users, that is one of them, and on each of these connections the server has drawn a challenge and read
  the keyed sum over it under the password of that user.
\<close>

theorem carriers_are_authenticated:
  assumes "conns_reachable server smux_server defaults s" "0 \<le> tt_max_streams (server_tcp server)"
    and "sm_flow (rt_store (cn_runtime s) p) = Some fl" "h \<in> set (fl_carriers fl)"
  shows "\<exists>ip. cn_addr s (cn_owner s h) = Some ip \<and> client_ip_allowed server ip \<and>
    cn_principal s (cn_owner s h) = Some (sm_principal (rt_store (cn_runtime s) p)) \<and>
    shaken server smux_server defaults (cn_talk s (cn_owner s h)) (sm_principal (rt_store (cn_runtime s) p)) \<and>
    (\<forall>us. peer_users (rs_cfg server) = Some us \<longrightarrow> knows_password us (sm_principal (rt_store (cn_runtime s) p)) (cn_talk s (cn_owner s h)))"
proof -
  have inv: "server_reachable (server_tcp server) (cn_runtime s)" "who_inv server smux_server defaults s" "owner_inv s"
    using conns_reachable_inv [OF assms(1,2)] by (simp_all add: conns_inv_def)
  obtain r where r: "rt_requests (cn_runtime s) h = Some r" "op_principal r = sm_principal (rt_store (cn_runtime s) p)"
    using carriers_request [OF inv(1) assms(2-4)] by blast
  with inv(3) have "cn_principal s (cn_owner s h) = Some (sm_principal (rt_store (cn_runtime s) p))" by (metis owner_inv_def)
  from this who_invD(2) [OF inv(2) this] shaken_user show ?thesis unfolding allowed_addr_def by blast
qed

lemma carriers_are_authenticated_witness:
  "\<exists>c talk. sample_runs (sample_conn Serving (sample_at (InAttach sample_request 1 Starting) sample_attached) c [0] (Some [1]) talk) \<and>
     knows_password [[1] \<mapsto> [98]] [1] talk"
proof -
  obtain c talk where r: "sample_runs (sample_conn Serving (sample_at (InAttach sample_request 1 Starting) sample_attached) c [0] (Some [1]) talk)"
    using sample_carrier by blast
  have fields: "sm_flow sample_attached = Some sample_carrying" "sm_principal sample_attached = [1]" "0 \<in> set (fl_carriers sample_carrying)"
    by (simp_all add: sample_attached_def sample_ready_def new_stream_def sample_request_def sample_carrying_def)
  from carriers_are_authenticated [OF r, of 1 sample_carrying 0] r fields show ?thesis by auto
qed

text \<open>
  Every limit on connections holds in every interleaving: no more handshakes run than
  \<open>maxPendingConnections\<close>, no more sessions than \<open>maxSessions\<close>; each token belongs to a connection that
  is shaking hands or being refused, or to the accept loop, so that giving one back never blocks.
\<close>

theorem connections_bounded:
  assumes "conns_reachable server smux_server defaults s" "0 \<le> tt_max_streams (server_tcp server)"
  shows "(tt_max_pending_connections (server_tcp server) > 0 \<longrightarrow>
      cn_pending s \<le> tt_max_pending_connections (server_tcp server) \<and>
      int (card {k. cn_handlers s k = Some Handshaking}) \<le> cn_pending s) \<and>
    (tt_max_sessions (server_tcp server) > 0 \<longrightarrow> int (card {k. cn_handlers s k = Some Serving}) \<le> tt_max_sessions (server_tcp server)) \<and>
    (\<forall>k. cn_handlers s k \<in> {Some Releasing, Some Established} \<or> cn_loop s = Rejecting k \<longrightarrow>
      release_pending (tt_max_pending_connections (server_tcp server)) (cn_pending s) \<noteq> None)"
proof (intro conjI impI allI)
  note inv = conns_reachable_inv [OF assms, unfolded conns_inv_def]
  have number: "number_inv s" and token: "token_inv server s" and session: "session_inv server s" using inv by blast+
  let ?limit = "tt_max_pending_connections (server_tcp server)"
  have sub: "int (card {k. cn_handlers s k = Some Handshaking}) \<le> tokens s"
    using card_mono [OF finite_holders [OF number], of "{k. cn_handlers s k = Some Handshaking}"] by (force simp: tokens_def)
  show "cn_pending s \<le> ?limit" "int (card {k. cn_handlers s k = Some Handshaking}) \<le> cn_pending s" if "?limit > 0"
    using token sub that by (simp_all add: token_inv_def)
  have "{k. cn_handlers s k = Some Serving} \<subseteq> set (cn_sessions s)" using session by (auto simp: session_inv_def)
  from card_mono [OF finite_set this] have "card {k. cn_handlers s k = Some Serving} \<le> length (cn_sessions s)"
    using card_length [of "cn_sessions s"] by (rule le_trans)
  with session show "int (card {k. cn_handlers s k = Some Serving}) \<le> tt_max_sessions (server_tcp server)"
    if "tt_max_sessions (server_tcp server) > 0" using that by (simp add: session_inv_def)
  show "release_pending ?limit (cn_pending s) \<noteq> None"
    if "cn_handlers s k \<in> {Some Releasing, Some Established} \<or> cn_loop s = Rejecting k" for k
    by (rule release_ready [OF number token that])
qed

lemma connections_bounded_witness:
  "cn_pending (new_conns\<lparr>cn_loop := Tracking 0, cn_next := 1, cn_pending := 1, cn_addr := [0 \<mapsto> [10, 0, 0, 1]]\<rparr>) \<le> 1"
proof -
  let ?server = "sample_server\<lparr>rs_cfg := (rs_cfg sample_server)\<lparr>sv_transfer := (sv_transfer (rs_cfg sample_server))\<lparr>tr_tcp :=
    sample_transfer\<lparr>tt_max_pending_connections := 1\<rparr>\<rparr>\<rparr>\<rparr>"
  let ?s = "new_conns\<lparr>cn_loop := Tracking 0, cn_next := 1, cn_pending := 1, cn_addr := [0 \<mapsto> [10, 0, 0, 1]]\<rparr>"
  have tcp: "server_tcp ?server = sample_transfer\<lparr>tt_max_pending_connections := 1\<rparr>" by (simp add: server_tcp_def)
  have "conns_step ?server no_mux undefined new_conns ?s"
    using AcceptConn [of new_conns ?server 1 no_mux undefined "Some [10, 0, 0, 1]"] unfolding tcp by (simp add: new_conns_def try_acquire_pending_def)
  note r = conns_reachable.intros(2) [OF conns_reachable.intros(1) this]
  have "0 \<le> tt_max_streams (server_tcp ?server)" unfolding tcp by simp
  from connections_bounded [OF r this] show ?thesis unfolding tcp by simp
qed

text \<open>
  A server that has nothing to do holds nothing: when no goroutine of a connection runs and the
  accept loop holds none, every connection that was ever accepted is closed, no session is registered,
  nothing is tracked and every token is back.
\<close>

theorem idle_holds_nothing:
  assumes "conns_reachable server smux_server defaults s" "0 \<le> tt_max_streams (server_tcp server)"
    and "cn_handlers s = (\<lambda>_. None)" "cn_loop s = Accepting \<or> cn_loop s = LoopDone"
  shows "(\<forall>k < cn_next s. cn_once s k = Closed) \<and> cn_sessions s = [] \<and> tr_conns (cn_traffic s) = [] \<and> cn_pending s = 0 \<and>
    (\<forall>t a. map_of (tr_map (cn_traffic s)) a = Some t \<longrightarrow> te_active (tr_store (cn_traffic s) t) = 0)"
proof -
  note inv = conns_reachable_inv [OF assms(1,2), unfolded conns_inv_def slot_inv_def]
  have slot: "slot_ok s k" for k using inv by blast
  have none: "map_of (tr_conns (cn_traffic s)) k = None" for k using slot [of k] assms(3) by (simp add: slot_ok_def)
  then have conns: "tr_conns (cn_traffic s) = []" by (cases "tr_conns (cn_traffic s)") (fastforce split: if_splits)+
  have "te_active (tr_store (cn_traffic s) t) = 0" if "map_of (tr_map (cn_traffic s)) a = Some t" for t a
    using counter_exact [of s a t] inv that conns by (simp add: pointing_def)
  moreover have "session_inv server s" using inv by blast
  then have "set (cn_sessions s) = {}" using assms(3) by (simp add: session_inv_def)
  moreover have "number_inv s" using inv by blast
  from number_invD(6) [OF this] have "cn_once s k = Closed" if "k < cn_next s" for k using assms(3,4) that by auto
  moreover have "token_inv server s" using inv by blast
  then have "cn_pending s = 0" using assms(3,4) by (auto simp: token_inv_def tokens_def Let_def split: if_splits)
  ultimately show ?thesis using conns by simp
qed


lemma idle_holds_nothing_witness: "cn_pending (new_conns\<lparr>cn_loop := LoopDone\<rparr>) = 0"
proof -
  have "conns_step sample_server no_mux undefined new_conns (new_conns\<lparr>cn_loop := LoopDone\<rparr>)" by (rule LoopEnd) (simp add: new_conns_def)
  note r = conns_reachable.intros(2) [OF conns_reachable.intros(1) this]
  have "cn_handlers (new_conns\<lparr>cn_loop := LoopDone\<rparr>) = (\<lambda>_. None)" by (simp add: new_conns_def)
  from idle_holds_nothing [OF r _ this] show ?thesis by simp
qed

text \<open>
  The counters of an address are right while it is connected: a session that is being served on a
  connection that is not closed counts under the address of its connection, and the counter of an
  address counts exactly its open connections, so it is not dropped before the last of them closes.
\<close>

theorem sessions_are_counted:
  assumes "conns_reachable server smux_server defaults s" "0 \<le> tt_max_streams (server_tcp server)"
    and "cn_handlers s k = Some Serving" "cn_once s k \<noteq> Closed"
  shows "\<exists>ip t. cn_addr s k = Some ip \<and> map_of (tr_conns (cn_traffic s)) k = Some (Some t) \<and>
    map_of (tr_map (cn_traffic s)) (ip_text ip) = Some t \<and>
    te_active (tr_store (cn_traffic s) t) = pointing t (cn_traffic s) \<and> 0 < te_active (tr_store (cn_traffic s) t)"
proof -
  note inv = conns_reachable_inv [OF assms(1,2), unfolded conns_inv_def slot_inv_def]
  have "slot_ok s k" using inv by blast
  then obtain ip t where t: "cn_addr s k = Some ip" "map_of (tr_conns (cn_traffic s)) k = Some (Some t)"
    "map_of (tr_map (cn_traffic s)) (ip_text ip) = Some t"
    using assms(3,4) by (auto simp: slot_ok_def has_counter_def)
  have "te_active (tr_store (cn_traffic s) t) = pointing t (cn_traffic s)"
    using counter_exact [OF _ t(3)] inv by blast
  moreover have "pointing t (cn_traffic s) > 0" using points_at [OF t(2)] by (simp add: pointing_def)
  ultimately show ?thesis using t by auto
qed

lemma sessions_are_counted_witness:
  "\<exists>c talk t. sample_runs (sample_conn Serving new_runtime c [0] (Some [1]) talk) \<and>
     map_of (tr_map c) (ip_text [10, 0, 0, 1]) = Some t \<and> 0 < te_active (tr_store c t)"
proof -
  obtain c talk where r: "sample_runs (sample_conn Serving new_runtime c [0] (Some [1]) talk)" using sample_serving by blast
  from sessions_are_counted [OF r, of 0] r show ?thesis by auto
qed

text \<open>
  No connection is stuck: from every state that the server can reach there is a run of its
  goroutines after which the goroutine of a given connection has returned and the connection is closed;
  nothing it waits for (a token, the lock, the end of a close, the loop of the counters) can fail to come.
\<close>

theorem connection_can_end:
  assumes "conns_reachable server smux_server defaults s" "0 \<le> tt_max_streams (server_tcp server)" "cn_handlers s k \<noteq> None"
  shows "\<exists>s'. (conns_step server smux_server defaults)\<^sup>*\<^sup>* s s' \<and> cn_handlers s' k = None \<and> cn_once s' k = Closed"
  using assms
proof (induction "conn_rank s k" arbitrary: s rule: less_induct)
  case less
  obtain pc where "cn_handlers s k = Some pc" using less.prems(3) by blast
  from conn_progress [OF less.prems(1,2) this] obtain s1 where s1: "conns_step server smux_server defaults s s1" "conn_rank s1 k < conn_rank s k" by blast
  have reach: "conns_reachable server smux_server defaults s1" by (rule conns_reachable.intros(2) [OF less.prems(1) s1(1)])
  show ?case
  proof (cases "cn_handlers s1 k = None")
    case True
    have "number_inv s" "number_inv s1" using conns_reachable_inv less.prems(1,2) reach by (auto simp: conns_inv_def)
    with loop_fresh [OF s1(1) _ less.prems(3)] number_invD(6) [of s1 k] True have "cn_once s1 k = Closed" by blast
    with True s1(1) show ?thesis by blast
  next
    case False
    with less.hyps [OF s1(2) reach less.prems(2)] obtain s' where
      "(conns_step server smux_server defaults)\<^sup>*\<^sup>* s1 s'" "cn_handlers s' k = None" "cn_once s' k = Closed" by blast
    with s1(1) show ?thesis by (meson converse_rtranclp_into_rtranclp)
  qed
qed

lemma connection_can_end_witness:
  "\<exists>s'. (conns_step sample_server no_mux undefined)\<^sup>*\<^sup>* (sample_conn Handshaking new_runtime sample_tracked [] None (duplex_of [] [] [])) s' \<and>
     cn_handlers s' 0 = None"
  using connection_can_end [OF sample_shaking, of 0] by auto

end
