(* ===== verification/Server_Status.thy ===== *)
theory Server_Status
  imports Server_Conns Stats "HOL-Library.List_Lexorder" "HOL-Library.Char_ord"
begin

text \<open>
  What the management page of a server shows (\<open>status\<close> in \<^verbatim>\<open>internal/serverrole/tcp.go\<close>, the types in
  \<^verbatim>\<open>internal/control/types.go\<close>). The critical section prunes and copies; carriers and counters are read
  after it, from a later state.
\<close>

record web_socket =
  ws_address :: string
  ws_traffic :: traffic_stats

record tcp_stream_status =
  tss_id :: string
  tss_version :: byte
  tss_destination :: string
  tss_carriers :: nat
  tss_state :: string

record server_status =
  vs_type :: string
  vs_version :: string
  vs_description :: string
  vs_listen_address :: string
  vs_peer_auth_enabled :: bool
  vs_sockets :: "web_socket list"
  vs_tcp_streams :: "tcp_stream_status list"
  vs_streams :: nat
  vs_carriers :: nat
  vs_sessions :: nat

text \<open>\<^verbatim>\<open>hex.EncodeToString\<close>.\<close>

definition hex_encode :: "byte list \<Rightarrow> string" where
  "hex_encode bs = concat (map (\<lambda>b. [digit (unat b div 16), digit (unat b mod 16)]) bs)"

definition stream_state :: "server_stream \<Rightarrow> string" where
  "stream_state st = (if sm_flow st \<noteq> None then ''active'' else if sm_err st \<noteq> None then ''failed'' else ''connecting'')"

definition flow_carriers :: "server_stream \<Rightarrow> nat" where
  "flow_carriers st = (case sm_flow st of None \<Rightarrow> 0 | Some fl \<Rightarrow> length (fl_carriers fl))"

definition stream_entry :: "runtime \<Rightarrow> runtime \<Rightarrow> stream_id \<times> nat \<Rightarrow> tcp_stream_status" where
  "stream_entry rt later = (\<lambda>(sid, p). \<lparr>tss_id = hex_encode (take 8 sid), tss_version = sm_version (rt_store rt p),
     tss_destination = sm_destination (rt_store rt p),
     tss_carriers = (if sm_flow (rt_store rt p) = None then 0 else flow_carriers (rt_store later p)),
     tss_state = stream_state (rt_store rt p)\<rparr>)"

text \<open>\<open>sort.Slice\<close> promises no order of equal keys; the one of the list stands for any.\<close>

definition status :: "server_config \<Rightarrow> string \<Rightarrow> int \<Rightarrow> conns \<Rightarrow> runtime \<Rightarrow> (nat \<Rightarrow> traffic) \<Rightarrow> server_status \<times> conns" where
  "status cfg version now s later counts =
     (let s = prune_state now s; rt = cn_runtime s;
          streams = map (stream_entry rt later) (rt_streams rt);
          sockets = map (\<lambda>(address, t). \<lparr>ws_address = address, ws_traffic = traffic_snapshot (Some (counts t))\<rparr>) (tr_map (cn_traffic s))
      in (\<lparr>vs_type = ''server'', vs_version = version, vs_description = sv_description cfg, vs_listen_address = sv_listen_addr cfg,
           vs_peer_auth_enabled = (sv_peer_auth cfg \<noteq> None), vs_sockets = sort_key ws_address sockets,
           vs_tcp_streams = sort_key tss_id streams, vs_streams = length (rt_streams rt),
           vs_carriers = sum_list (map tss_carriers streams), vs_sessions = length (cn_sessions s)\<rparr>, s))"

text \<open>\<open>Server.Status\<close> before the server runs.\<close>

definition server_status_of :: "server_config \<Rightarrow> string \<Rightarrow> int \<Rightarrow> (conns \<times> runtime \<times> (nat \<Rightarrow> traffic)) option \<Rightarrow> server_status" where
  "server_status_of cfg version now running =
     (case running of
        Some (s, later, counts) \<Rightarrow> fst (status cfg version now s later counts)
      | None \<Rightarrow> \<lparr>vs_type = ''server'', vs_version = version, vs_description = sv_description cfg, vs_listen_address = sv_listen_addr cfg,
           vs_peer_auth_enabled = (sv_peer_auth cfg \<noteq> None), vs_sockets = [], vs_tcp_streams = [], vs_streams = 0,
           vs_carriers = 0, vs_sessions = 0\<rparr>)"

lemma status_fields:
  assumes "status cfg version now s later counts = (st, s')"
  shows "s' = prune_state now s" "vs_streams st = length (rt_streams (cn_runtime s))" "vs_sessions st = length (cn_sessions s)"
    "vs_carriers st = sum_list (map tss_carriers (map (stream_entry (cn_runtime s) later) (rt_streams (cn_runtime s))))"
    "mset (map ws_address (vs_sockets st)) = mset (map fst (tr_map (prune_traffic now (cn_traffic s))))"
    "sorted (map ws_address (vs_sockets st))" "sorted (map tss_id (vs_tcp_streams st))"
    "mset (vs_tcp_streams st) = mset (map (stream_entry (cn_runtime s) later) (rt_streams (cn_runtime s)))"
proof -
  have entry: "stream_entry (rt\<lparr>rt_now := x, rt_closed := y\<rparr>) later = stream_entry rt later" for rt x y
    by (simp add: stream_entry_def)
  have out: "st = fst (status cfg version now s later counts)" "s' = snd (status cfg version now s later counts)" using assms by simp_all
  show "s' = prune_state now s" "vs_streams st = length (rt_streams (cn_runtime s))" "vs_sessions st = length (cn_sessions s)"
    "vs_carriers st = sum_list (map tss_carriers (map (stream_entry (cn_runtime s) later) (rt_streams (cn_runtime s))))"
    "sorted (map ws_address (vs_sockets st))" "sorted (map tss_id (vs_tcp_streams st))"
    "mset (vs_tcp_streams st) = mset (map (stream_entry (cn_runtime s) later) (rt_streams (cn_runtime s)))"
    unfolding out by (simp_all add: status_def Let_def prune_state_def entry)
  have "mset (map ws_address (vs_sockets st)) = image_mset ws_address (mset (vs_sockets st))" by simp
  also have "\<dots> = mset (map fst (tr_map (prune_traffic now (cn_traffic s))))"
    unfolding out by (simp add: status_def Let_def prune_state_def image_mset.compositionality comp_def case_prod_unfold flip: mset_map)
  finally show "mset (map ws_address (vs_sockets st)) = mset (map fst (tr_map (prune_traffic now (cn_traffic s))))" .
qed

text \<open>
  The page tells the truth: showing it changes nothing but what has expired; the numbers are those
  of the streams and of the sessions being served; the listed carriers add up; there is one line for each
  address, in order, and none is missing that a session is being served from.
\<close>

theorem status_is_true:
  assumes "conns_reachable server smux_server defaults s" "0 \<le> tt_max_streams (server_tcp server)" "rt_now (cn_runtime s) \<le> now"
    and "status (rs_cfg server) version now s later counts = (st, s')"
  shows "conns_step server smux_server defaults s s' \<and> vs_streams st = card (dom (map_of (rt_streams (cn_runtime s)))) \<and>
    vs_sessions st = card {k. cn_handlers s k \<in> {Some Serving, Some Leaving}} \<and>
    vs_carriers st = sum_list (map tss_carriers (vs_tcp_streams st)) \<and> length (vs_tcp_streams st) = vs_streams st \<and>
    distinct (map ws_address (vs_sockets st)) \<and> sorted (map ws_address (vs_sockets st)) \<and>
    (\<forall>k ip. cn_handlers s k = Some Serving \<longrightarrow> cn_once s k \<noteq> Closed \<longrightarrow> cn_addr s k = Some ip \<longrightarrow>
       ip_text ip \<in> ws_address ` set (vs_sockets st))"
proof -
  note f = status_fields [OF assms(4)] and inv = conns_reachable_inv [OF assms(1,2), unfolded conns_inv_def slot_inv_def]
  have step: "conns_step server smux_server defaults s s'" unfolding f(1) by (rule Prune [OF assms(3)])
  note inv' = conns_reachable_inv [OF conns_reachable.intros(2) [OF assms(1) step] assms(2), unfolded conns_inv_def slot_inv_def]
  have "distinct (map fst (rt_streams (cn_runtime s)))" using inv server_reachableD(1) assms(2) ptr_invD(1) by blast
  then have "vs_streams st = card (dom (map_of (rt_streams (cn_runtime s))))"
    using f(2) distinct_card [of "map fst (rt_streams (cn_runtime s))"] by (simp add: dom_map_of_conv_image_fst)
  moreover have "session_inv server s" using inv by blast
  then have "distinct (cn_sessions s)" "set (cn_sessions s) = {k. cn_handlers s k \<in> {Some Serving, Some Leaving}}"
    by (auto simp: session_inv_def)
  then have "vs_sessions st = card {k. cn_handlers s k \<in> {Some Serving, Some Leaving}}" using f(3) distinct_card by metis
  moreover have "mset (map tss_carriers (vs_tcp_streams st)) = mset (map tss_carriers (map (stream_entry (cn_runtime s) later) (rt_streams (cn_runtime s))))"
    using f(8) by (metis mset_map)
  then have "vs_carriers st = sum_list (map tss_carriers (vs_tcp_streams st))" using f(4) by (metis sum_mset_sum_list)
  moreover have "length (vs_tcp_streams st) = vs_streams st" using f(2,8) by (metis length_map size_mset)
  moreover have prune: "cn_traffic s' = prune_traffic now (cn_traffic s)" by (simp add: f(1))
  have "distinct (map fst (tr_map (cn_traffic s')))" using inv' traffic_invD(3) by blast
  then have "distinct (map ws_address (vs_sockets st))" using f(5) prune by (metis mset_eq_imp_distinct_iff)
  moreover have "ip_text ip \<in> ws_address ` set (vs_sockets st)"
    if serving: "cn_handlers s k = Some Serving" "cn_once s k \<noteq> Closed" "cn_addr s k = Some ip" for k ip
  proof -
    have "slot_ok s' k" using inv' by blast
    then obtain t where "map_of (tr_map (cn_traffic s')) (ip_text ip) = Some t"
      using serving by (auto simp: slot_ok_def f(1) has_counter_def)
    then have "ip_text ip \<in> set (map fst (tr_map (prune_traffic now (cn_traffic s))))" unfolding prune by (force dest: map_of_SomeD)
    then show ?thesis using mset_eq_setD [OF f(5)] by auto
  qed
  ultimately show ?thesis using step f(6) by blast
qed

lemma status_is_true_witness:
  "vs_sessions (fst (status (rs_cfg sample_server) ''1'' 0 (sample_conn Handshaking new_runtime sample_tracked [] None (duplex_of [] [] []))
     new_runtime (\<lambda>_. zero_traffic))) = 0"
proof -
  let ?s = "sample_conn Handshaking new_runtime sample_tracked [] None (duplex_of [] [] [])"
  obtain st s' where run: "status (rs_cfg sample_server) ''1'' 0 ?s new_runtime (\<lambda>_. zero_traffic) = (st, s')"
    by (cases "status (rs_cfg sample_server) ''1'' 0 ?s new_runtime (\<lambda>_. zero_traffic)")
  have "rt_now (cn_runtime ?s) \<le> 0" by (simp add: new_runtime_def)
  from status_is_true [OF sample_shaking _ this run] show ?thesis by (simp add: run)
qed

end
