(* ===== verification/Path_Sessions.thy ===== *)
theory Path_Sessions
  imports Prelude
begin

text \<open>
  The physical session of one \<open>tcpPathSession\<close> (\<^verbatim>\<open>internal/clientrole/tcp_group.go\<close>), which belongs to one path
  of one interface; \<open>Interface_Sessions\<close> puts those together that an interface has had. An attempt
  dials, installs the session, watches it, waits for a growing delay when it failed or ended, and tries
  again until the path is closed. Each critical section under \<^verbatim>\<open>pathSession.mu\<close> is a function; a goroutine
  is where it stands between two of them. Sessions are numbers, durations nanoseconds.
\<close>

section \<open>Delays\<close>

definition tcpSessionRetryInitialDelay :: int where "tcpSessionRetryInitialDelay = 100 * 1000000"
definition tcpSessionRetryMaxDelay :: int where "tcpSessionRetryMaxDelay = 5 * 1000000000"

fun retry_delay_loop :: "nat \<Rightarrow> int \<Rightarrow> int" where
  "retry_delay_loop 0 delay = delay"
| "retry_delay_loop (Suc n) delay =
     (if delay \<ge> tcpSessionRetryMaxDelay div 2 then tcpSessionRetryMaxDelay else retry_delay_loop n (delay * 2))"

definition session_retry_delay :: "nat \<Rightarrow> int" where
  "session_retry_delay retry_count = retry_delay_loop retry_count tcpSessionRetryInitialDelay"

definition apply_jitter :: "int \<Rightarrow> int \<Rightarrow> int" where
  "apply_jitter delay offset =
     (let spread = delay div 5; jittered = delay - spread + offset
      in if jittered > tcpSessionRetryMaxDelay then tcpSessionRetryMaxDelay else jittered)"

text \<open>The offsets \<^verbatim>\<open>rand.Int64N(2*spread+1)\<close> can return.\<close>

definition jitter_offsets :: "int \<Rightarrow> int set" where
  "jitter_offsets delay = {0..2 * (delay div 5)}"

definition session_was_stable :: "int \<Rightarrow> int \<Rightarrow> bool" where
  "session_was_stable established ended \<longleftrightarrow> established \<noteq> 0 \<and> ended - established \<ge> tcpSessionRetryMaxDelay"

section \<open>State\<close>

record path_session =
  ps_session :: "nat option"
  ps_generation :: u64
  ps_in_flight :: bool
  ps_retrying :: bool
  ps_retry_count :: nat
  ps_closed :: bool

definition new_path_session :: path_session where
  "new_path_session = \<lparr>ps_session = None, ps_generation = 0, ps_in_flight = False, ps_retrying = False, ps_retry_count = 0, ps_closed = False\<rparr>"

section \<open>Operations\<close>

text \<open>The critical section of \<open>reconcile\<close>: the generation to dial, if any.\<close>

definition begin_attempt :: "path_session \<Rightarrow> u64 option \<times> path_session" where
  "begin_attempt ps =
     (if ps_closed ps \<or> ps_session ps \<noteq> None \<or> ps_in_flight ps \<or> ps_retrying ps then (None, ps)
      else let g = ps_generation ps + 1 in (Some g, ps\<lparr>ps_in_flight := True, ps_generation := g\<rparr>))"

definition finish_attempt :: "u64 \<Rightarrow> path_session \<Rightarrow> path_session" where
  "finish_attempt g ps = (if ps_generation ps = g then ps\<lparr>ps_in_flight := False\<rparr> else ps)"

text \<open>The two critical sections of \<open>dial\<close>: whether the session was taken, and whether to retry.\<close>

definition install_session :: "u64 \<Rightarrow> nat \<Rightarrow> path_session \<Rightarrow> bool \<times> path_session" where
  "install_session g sess ps =
     (if ps_closed ps \<or> \<not> ps_in_flight ps \<or> ps_generation ps \<noteq> g then (False, ps)
      else (True, ps\<lparr>ps_session := Some sess, ps_in_flight := False, ps_retrying := False\<rparr>))"

definition session_ended :: "nat \<Rightarrow> int \<Rightarrow> int \<Rightarrow> path_session \<Rightarrow> bool \<times> path_session" where
  "session_ended sess established ended ps =
     (if ps_session ps = Some sess
      then (\<not> ps_closed ps, ps\<lparr>ps_session := None, ps_retry_count := (if session_was_stable established ended then 0 else ps_retry_count ps)\<rparr>)
      else (False, ps))"

text \<open>\<open>retry\<close>: the delay to wait, if any, for a random \<open>offset\<close>.\<close>

definition plan_retry :: "u64 \<Rightarrow> int \<Rightarrow> path_session \<Rightarrow> int option \<times> path_session" where
  "plan_retry g offset ps =
     (if ps_closed ps \<or> ps_generation ps \<noteq> g \<or> ps_session ps \<noteq> None then (None, ps)
      else let ps = ps\<lparr>ps_in_flight := False\<rparr> in
        if ps_retrying ps then (None, ps)
        else let base = session_retry_delay (ps_retry_count ps)
          in (Some (apply_jitter base offset),
              ps\<lparr>ps_retry_count := (if base < tcpSessionRetryMaxDelay then ps_retry_count ps + 1 else ps_retry_count ps), ps_retrying := True\<rparr>))"

definition undo_retry :: "u64 \<Rightarrow> path_session \<Rightarrow> path_session" where
  "undo_retry g ps = (if ps_generation ps = g then ps\<lparr>ps_retrying := False\<rparr> else ps)"

definition end_wait :: "u64 \<Rightarrow> path_session \<Rightarrow> bool \<times> path_session" where
  "end_wait g ps =
     (if ps_closed ps \<or> ps_generation ps \<noteq> g \<or> \<not> ps_retrying ps \<or> ps_session ps \<noteq> None then (False, ps)
      else (True, ps\<lparr>ps_retrying := False\<rparr>))"

text \<open>\<open>current\<close> for a session that lives and for one that does not; the path is compared by the caller.\<close>

definition current_session :: "(nat \<Rightarrow> bool) \<Rightarrow> bool \<Rightarrow> path_session \<Rightarrow> (nat \<times> u64) option" where
  "current_session is_closed same_path ps =
     (if ps_closed ps \<or> \<not> same_path then None
      else case ps_session ps of None \<Rightarrow> None | Some sess \<Rightarrow> if is_closed sess then None else Some (sess, ps_generation ps))"

definition close_path :: "path_session \<Rightarrow> nat option \<times> path_session" where
  "close_path ps = (if ps_closed ps then (None, ps) else (ps_session ps, ps\<lparr>ps_closed := True, ps_session := None\<rparr>))"

section \<open>The goroutines together\<close>

text \<open>
  \<open>Starting\<close> and \<open>StartWait\<close> stand before \<open>startGroupWorker\<close>, which refuses when the runtime is closing;
  \<open>Installing\<close> has a session that nobody else knows; \<open>CloseSession\<close> is the end of \<open>close\<close>.
\<close>

datatype path_pc =
    Reconciling | Starting u64 | Finishing u64 | Dialing u64 | Installing u64 nat int | Discarding nat
  | Watching u64 nat int | Ended u64 nat int | Retrying u64 | StartWait u64 int | Undoing u64 | Waiting u64 int | Waking u64
  | CloseSession nat

text \<open>\<open>pw_open\<close> are the sessions dialled and not closed, by either end; \<open>pw_stopping\<close> is \<open>runtime.closing\<close> or its context.\<close>

record path_world =
  pw_path :: path_session
  pw_pcs :: "path_pc list"
  pw_open :: "nat set"
  pw_next :: nat
  pw_stopping :: bool

definition new_world :: path_world where
  "new_world = \<lparr>pw_path = new_path_session, pw_pcs = [Reconciling], pw_open = {}, pw_next = 0, pw_stopping = False\<rparr>"

definition moves :: "path_pc \<Rightarrow> path_pc option \<Rightarrow> path_world \<Rightarrow> path_world" where
  "moves pc next w = w\<lparr>pw_pcs := (case next of None \<Rightarrow> [] | Some pc' \<Rightarrow> [pc']) @ remove1 pc (pw_pcs w)\<rparr>"

inductive physical_step :: "path_world \<Rightarrow> path_world \<Rightarrow> bool" where
  Reconcile: "Reconciling \<in> set (pw_pcs w) \<Longrightarrow> begin_attempt (pw_path w) = (g, ps) \<Longrightarrow>
    physical_step w (moves Reconciling (map_option Starting g) (w\<lparr>pw_path := ps\<rparr>))"
| StartDial: "Starting g \<in> set (pw_pcs w) \<Longrightarrow> physical_step w (moves (Starting g) (Some (if pw_stopping w then Finishing g else Dialing g)) w)"
| FinishAttempt: "Finishing g \<in> set (pw_pcs w) \<Longrightarrow> physical_step w (moves (Finishing g) None (w\<lparr>pw_path := finish_attempt g (pw_path w)\<rparr>))"
| DialFailed: "Dialing g \<in> set (pw_pcs w) \<Longrightarrow> physical_step w (moves (Dialing g) (Some (Retrying g)) w)"
| DialDone: "Dialing g \<in> set (pw_pcs w) \<Longrightarrow> established \<noteq> 0 \<Longrightarrow>
    physical_step w (moves (Dialing g) (Some (Installing g (pw_next w) established)) (w\<lparr>pw_open := insert (pw_next w) (pw_open w), pw_next := pw_next w + 1\<rparr>))"
| Install: "Installing g sess established \<in> set (pw_pcs w) \<Longrightarrow> install_session g sess (pw_path w) = (taken, ps) \<Longrightarrow>
    physical_step w (moves (Installing g sess established) (Some (if taken then Watching g sess established else Discarding sess)) (w\<lparr>pw_path := ps\<rparr>))"
| Discard: "Discarding sess \<in> set (pw_pcs w) \<Longrightarrow> physical_step w (moves (Discarding sess) None (w\<lparr>pw_open := pw_open w - {sess}\<rparr>))"
| SessionDies: "physical_step w (w\<lparr>pw_open := pw_open w - {sess}\<rparr>)"
| WatchEnds: "Watching g sess established \<in> set (pw_pcs w) \<Longrightarrow> sess \<notin> pw_open w \<or> ps_closed (pw_path w) \<Longrightarrow>
    physical_step w (moves (Watching g sess established) (Some (Ended g sess established)) w)"
| SessionEnded: "Ended g sess established \<in> set (pw_pcs w) \<Longrightarrow> session_ended sess established now (pw_path w) = (again, ps) \<Longrightarrow>
    physical_step w (moves (Ended g sess established) (if again then Some (Retrying g) else None) (w\<lparr>pw_path := ps\<rparr>))"
| Retry: "Retrying g \<in> set (pw_pcs w) \<Longrightarrow> offset \<in> jitter_offsets (session_retry_delay (ps_retry_count (pw_path w))) \<Longrightarrow> plan_retry g offset (pw_path w) = (delay, ps) \<Longrightarrow>
    physical_step w (moves (Retrying g) (map_option (StartWait g) delay) (w\<lparr>pw_path := ps\<rparr>))"
| WaitStarts: "StartWait g delay \<in> set (pw_pcs w) \<Longrightarrow>
    physical_step w (moves (StartWait g delay) (Some (if pw_stopping w then Undoing g else Waiting g delay)) w)"
| UndoRetry: "Undoing g \<in> set (pw_pcs w) \<Longrightarrow> physical_step w (moves (Undoing g) None (w\<lparr>pw_path := undo_retry g (pw_path w)\<rparr>))"
| WaitEnds: "Waiting g delay \<in> set (pw_pcs w) \<Longrightarrow> physical_step w (moves (Waiting g delay) (Some (Waking g)) w)"
| WaitStops: "Waiting g delay \<in> set (pw_pcs w) \<Longrightarrow> ps_closed (pw_path w) \<or> pw_stopping w \<Longrightarrow> physical_step w (moves (Waiting g delay) None w)"
| Wake: "Waking g \<in> set (pw_pcs w) \<Longrightarrow> end_wait g (pw_path w) = (again, ps) \<Longrightarrow>
    physical_step w (moves (Waking g) (if again then Some Reconciling else None) (w\<lparr>pw_path := ps\<rparr>))"
| Close: "close_path (pw_path w) = (sess, ps) \<Longrightarrow>
    physical_step w (w\<lparr>pw_path := ps, pw_pcs := (case sess of None \<Rightarrow> [] | Some x \<Rightarrow> [CloseSession x]) @ pw_pcs w\<rparr>)"
| CloseDone: "CloseSession sess \<in> set (pw_pcs w) \<Longrightarrow> physical_step w (moves (CloseSession sess) None (w\<lparr>pw_open := pw_open w - {sess}\<rparr>))"
| Stop: "physical_step w (w\<lparr>pw_stopping := True\<rparr>)"

inductive path_reachable :: "path_world \<Rightarrow> bool" where
  "path_reachable new_world"
| "path_reachable w \<Longrightarrow> physical_step w w' \<Longrightarrow> path_reachable w'"

section \<open>Delays are bounded\<close>

lemma retry_delay_loop_bounds:
  assumes "tcpSessionRetryInitialDelay \<le> delay" "delay \<le> tcpSessionRetryMaxDelay"
  shows "delay \<le> retry_delay_loop n delay \<and> retry_delay_loop n delay \<le> tcpSessionRetryMaxDelay"
  using assms
proof (induction n arbitrary: delay)
  case (Suc n)
  show ?case
  proof (cases "delay \<ge> tcpSessionRetryMaxDelay div 2")
    case True
    with Suc.prems show ?thesis by simp
  next
    case False
    with Suc.prems have "tcpSessionRetryInitialDelay \<le> delay * 2" "delay * 2 \<le> tcpSessionRetryMaxDelay" "delay \<le> delay * 2"
      by (simp_all add: tcpSessionRetryInitialDelay_def tcpSessionRetryMaxDelay_def)
    with Suc.IH [of "delay * 2"] False show ?thesis by simp
  qed
qed simp

lemma retry_delay_bounds: "tcpSessionRetryInitialDelay \<le> session_retry_delay n" "session_retry_delay n \<le> tcpSessionRetryMaxDelay"
  using retry_delay_loop_bounds [of tcpSessionRetryInitialDelay n]
  by (simp_all add: session_retry_delay_def tcpSessionRetryInitialDelay_def tcpSessionRetryMaxDelay_def)

lemma jitter_bounds:
  assumes "tcpSessionRetryInitialDelay \<le> delay" "delay \<le> tcpSessionRetryMaxDelay" "offset \<in> jitter_offsets delay"
  shows "delay - delay div 5 \<le> apply_jitter delay offset" "apply_jitter delay offset \<le> tcpSessionRetryMaxDelay"
    "apply_jitter delay offset \<le> delay + delay div 5" "0 < apply_jitter delay offset"
  using assms by (auto simp: apply_jitter_def jitter_offsets_def Let_def tcpSessionRetryInitialDelay_def tcpSessionRetryMaxDelay_def)

section \<open>One attempt at a time\<close>

definition is_closer :: "path_pc \<Rightarrow> bool" where
  "is_closer pc \<longleftrightarrow> (case pc of CloseSession _ \<Rightarrow> True | _ \<Rightarrow> False)"

lemma is_closer_simps [simp]:
  "is_closer (CloseSession sess)" "\<not> is_closer Reconciling" "\<not> is_closer (Starting g)" "\<not> is_closer (Finishing g)" "\<not> is_closer (Dialing g)"
  "\<not> is_closer (Installing g sess t)" "\<not> is_closer (Discarding sess)" "\<not> is_closer (Watching g sess t)" "\<not> is_closer (Ended g sess t)"
  "\<not> is_closer (Retrying g)" "\<not> is_closer (StartWait g delay)" "\<not> is_closer (Undoing g)" "\<not> is_closer (Waiting g delay)" "\<not> is_closer (Waking g)"
  by (simp_all add: is_closer_def)

definition agents :: "path_world \<Rightarrow> path_pc list" where "agents w = filter (\<lambda>pc. \<not> is_closer pc) (pw_pcs w)"
definition closers :: "path_world \<Rightarrow> path_pc list" where "closers w = filter is_closer (pw_pcs w)"

definition opt :: "'a option \<Rightarrow> 'a list" where "opt x = (case x of None \<Rightarrow> [] | Some y \<Rightarrow> [y])"

lemma opt_simps [simp]: "opt None = []" "opt (Some x) = [x]" "opt a = [] \<longleftrightarrow> a = None" "set (opt a) = set_option a"
  by (auto simp: opt_def split: option.splits)

text \<open>What holds where the goroutine of the attempt stands.\<close>

definition delay_ok :: "int \<Rightarrow> bool" where
  "delay_ok delay \<longleftrightarrow> 80 * 1000000 \<le> delay \<and> delay \<le> tcpSessionRetryMaxDelay"

fun pc_ok :: "path_session \<Rightarrow> bool \<Rightarrow> path_pc \<Rightarrow> bool" where
  "pc_ok ps stopping Reconciling \<longleftrightarrow> ps_session ps = None \<and> \<not> ps_in_flight ps \<and> \<not> ps_retrying ps"
| "pc_ok ps stopping (Starting g) \<longleftrightarrow> ps_session ps = None \<and> ps_generation ps = g \<and> ps_in_flight ps \<and> \<not> ps_retrying ps"
| "pc_ok ps stopping (Finishing g) \<longleftrightarrow> stopping \<and> ps_session ps = None \<and> ps_generation ps = g \<and> \<not> ps_retrying ps"
| "pc_ok ps stopping (Dialing g) \<longleftrightarrow> ps_session ps = None \<and> ps_generation ps = g \<and> ps_in_flight ps \<and> \<not> ps_retrying ps"
| "pc_ok ps stopping (Installing g sess t) \<longleftrightarrow> ps_session ps = None \<and> ps_generation ps = g \<and> ps_in_flight ps \<and> \<not> ps_retrying ps \<and> t \<noteq> 0"
| "pc_ok ps stopping (Discarding sess) \<longleftrightarrow> ps_closed ps \<and> ps_session ps = None"
| "pc_ok ps stopping (Watching g sess t) \<longleftrightarrow> ps_generation ps = g \<and> \<not> ps_in_flight ps \<and> \<not> ps_retrying ps \<and> t \<noteq> 0 \<and>
     ps_session ps = (if ps_closed ps then None else Some sess)"
| "pc_ok ps stopping (Ended g sess t) \<longleftrightarrow> ps_generation ps = g \<and> \<not> ps_in_flight ps \<and> \<not> ps_retrying ps \<and> t \<noteq> 0 \<and>
     ps_session ps = (if ps_closed ps then None else Some sess)"
| "pc_ok ps stopping (Retrying g) \<longleftrightarrow> ps_session ps = None \<and> ps_generation ps = g \<and> \<not> ps_retrying ps"
| "pc_ok ps stopping (StartWait g delay) \<longleftrightarrow> ps_session ps = None \<and> ps_generation ps = g \<and> \<not> ps_in_flight ps \<and> ps_retrying ps \<and> delay_ok delay"
| "pc_ok ps stopping (Undoing g) \<longleftrightarrow> stopping \<and> ps_session ps = None \<and> ps_generation ps = g \<and> \<not> ps_in_flight ps"
| "pc_ok ps stopping (Waiting g delay) \<longleftrightarrow> ps_session ps = None \<and> ps_generation ps = g \<and> \<not> ps_in_flight ps \<and> ps_retrying ps \<and> delay_ok delay"
| "pc_ok ps stopping (Waking g) \<longleftrightarrow> ps_session ps = None \<and> ps_generation ps = g \<and> \<not> ps_in_flight ps \<and> ps_retrying ps"
| "pc_ok ps stopping (CloseSession sess) \<longleftrightarrow> True"

definition watches :: "path_pc option \<Rightarrow> bool" where
  "watches a \<longleftrightarrow> (case a of Some (Watching _ _ _) \<Rightarrow> True | Some (Ended _ _ _) \<Rightarrow> True | None \<Rightarrow> True | _ \<Rightarrow> False)"

definition held :: "path_session \<Rightarrow> path_pc option \<Rightarrow> nat option \<Rightarrow> nat set" where
  "held ps a c = set_option (ps_session ps) \<union> set_option c \<union>
     (case a of Some (Installing _ sess _) \<Rightarrow> {sess} | Some (Discarding sess) \<Rightarrow> {sess} | _ \<Rightarrow> {})"

definition core_inv :: "path_session \<Rightarrow> bool \<Rightarrow> path_pc option \<Rightarrow> nat option \<Rightarrow> nat set \<Rightarrow> bool" where
  "core_inv ps stopping a c open_sessions \<longleftrightarrow>
     (ps_closed ps \<longrightarrow> ps_session ps = None) \<and>
     (case a of None \<Rightarrow> ps_session ps = None \<and> (ps_closed ps \<or> stopping) | Some pc \<Rightarrow> \<not> is_closer pc \<and> pc_ok ps stopping pc) \<and>
     (c \<noteq> None \<longrightarrow> ps_closed ps \<and> watches a) \<and> open_sessions \<subseteq> held ps a c \<and> ps_retry_count ps \<le> 6 \<and>
     (case a of Some (Ended g sess t) \<Rightarrow> ps_closed ps \<or> sess \<notin> open_sessions | _ \<Rightarrow> True)"

definition path_inv :: "path_world \<Rightarrow> bool" where
  "path_inv w \<longleftrightarrow> (\<exists>a c. agents w = opt a \<and> closers w = map CloseSession (opt c) \<and> core_inv (pw_path w) (pw_stopping w) a c (pw_open w))"

lemma filter_remove1: "filter P (remove1 x xs) = (if P x then remove1 x (filter P xs) else filter P xs)"
  by (induction xs) auto

lemma agent_in:
  assumes "path_inv w" "pc \<in> set (pw_pcs w)" "\<not> is_closer pc"
  obtains c where "agents w = [pc]" "closers w = map CloseSession (opt c)" "core_inv (pw_path w) (pw_stopping w) (Some pc) c (pw_open w)"
proof -
  obtain a c where ac: "agents w = opt a" "closers w = map CloseSession (opt c)" "core_inv (pw_path w) (pw_stopping w) a c (pw_open w)"
    using assms(1) by (auto simp: path_inv_def)
  moreover have "pc \<in> set (agents w)" using assms(2,3) by (simp add: agents_def)
  ultimately have "a = Some pc" by (cases a) auto
  with ac that show ?thesis by simp
qed

text \<open>A step of the goroutine of the attempt.\<close>

lemma agent_step:
  assumes "path_inv w" "pc \<in> set (pw_pcs w)" "\<not> is_closer pc"
    and "\<And>c. core_inv (pw_path w) (pw_stopping w) (Some pc) c (pw_open w) \<Longrightarrow>
      core_inv (pw_path w') (pw_stopping w) next c (pw_open w')"
    and "pw_pcs w' = pw_pcs w" "pw_stopping w' = pw_stopping w" "\<forall>pc'. next = Some pc' \<longrightarrow> \<not> is_closer pc'"
  shows "path_inv (moves pc next w')"
proof -
  obtain c where c: "agents w = [pc]" "closers w = map CloseSession (opt c)" "core_inv (pw_path w) (pw_stopping w) (Some pc) c (pw_open w)"
    using agent_in [OF assms(1-3)] by blast
  have "agents (moves pc next w') = opt next" "closers (moves pc next w') = map CloseSession (opt c)"
    using c(1,2) assms(3,5,7) by (auto simp: agents_def closers_def moves_def filter_remove1 split: option.splits)
  with assms(4) [OF c(3)] assms(6) show ?thesis unfolding path_inv_def
    by (intro exI [of _ "next"] exI [of _ c]) (simp add: moves_def)
qed

lemma retry_delay_values: "session_retry_delay n < tcpSessionRetryMaxDelay \<Longrightarrow> n \<le> 5"
proof (rule ccontr)
  assume less: "session_retry_delay n < tcpSessionRetryMaxDelay" and "\<not> n \<le> 5"
  then obtain m where "n = 6 + m" using le_Suc_ex [of 6 n] by auto
  with less show False by (simp add: session_retry_delay_def tcpSessionRetryInitialDelay_def tcpSessionRetryMaxDelay_def eval_nat_numeral)
qed

lemma planned_delay_ok:
  assumes "offset \<in> jitter_offsets (session_retry_delay n)"
  shows "delay_ok (apply_jitter (session_retry_delay n) offset)"
  using jitter_bounds [OF retry_delay_bounds assms] retry_delay_bounds [of n] by (simp add: delay_ok_def tcpSessionRetryInitialDelay_def)

lemma fewer_open:
  assumes "core_inv ps stopping a c open_sessions" "open' \<subseteq> open_sessions"
  shows "core_inv ps stopping a c open'"
proof (cases a)
  case (Some pc)
  with assms show ?thesis by (cases pc) (auto simp: core_inv_def)
qed (use assms in \<open>auto simp: core_inv_def\<close>)

lemma path_step_inv:
  assumes "physical_step w w'" "path_inv w"
  shows "path_inv w'"
  using assms(1)
proof cases
  case (Reconcile g ps)
  show ?thesis unfolding Reconcile(1)
    by (rule agent_step [OF assms(2) Reconcile(2)])
      (use Reconcile(3) in \<open>auto simp: begin_attempt_def core_inv_def held_def watches_def Let_def split: if_splits option.splits\<close>)
next
  case (StartDial g)
  show ?thesis unfolding StartDial(1)
    by (rule agent_step [OF assms(2) StartDial(2)]) (auto simp: core_inv_def held_def watches_def)
next
  case (FinishAttempt g)
  show ?thesis unfolding FinishAttempt(1)
    by (rule agent_step [OF assms(2) FinishAttempt(2)]) (auto simp: finish_attempt_def core_inv_def held_def watches_def)
next
  case (DialFailed g)
  show ?thesis unfolding DialFailed(1)
    by (rule agent_step [OF assms(2) DialFailed(2)]) (auto simp: core_inv_def held_def watches_def)
next
  case (DialDone g established)
  show ?thesis unfolding DialDone(1)
    by (rule agent_step [OF assms(2) DialDone(2)]) (use DialDone(3) in \<open>auto simp: core_inv_def held_def watches_def\<close>)
next
  case (Install g sess established taken ps)
  show ?thesis unfolding Install(1)
    by (rule agent_step [OF assms(2) Install(2)])
      (use Install(3) in \<open>auto simp: install_session_def core_inv_def held_def watches_def split: if_splits\<close>)
next
  case (Discard sess)
  show ?thesis unfolding Discard(1)
    by (rule agent_step [OF assms(2) Discard(2)]) (auto simp: core_inv_def held_def watches_def)
next
  case (SessionDies sess)
  obtain a c where ac: "agents w = opt a" "closers w = map CloseSession (opt c)" "core_inv (pw_path w) (pw_stopping w) a c (pw_open w)"
    using assms(2) by (auto simp: path_inv_def)
  with fewer_open [OF ac(3), of "pw_open w - {sess}"] show ?thesis unfolding path_inv_def SessionDies
    by (intro exI [of _ a] exI [of _ c]) (auto simp: agents_def closers_def)
next
  case (WatchEnds g sess established)
  show ?thesis unfolding WatchEnds(1)
    by (rule agent_step [OF assms(2) WatchEnds(2)]) (use WatchEnds(3) in \<open>auto simp: core_inv_def held_def watches_def\<close>)
next
  case (SessionEnded g sess established now again ps)
  show ?thesis unfolding SessionEnded(1)
    by (rule agent_step [OF assms(2) SessionEnded(2)])
      (use SessionEnded(3) in \<open>auto simp: session_ended_def core_inv_def held_def watches_def split: if_splits\<close>)
next
  case (Retry g offset delay ps)
  show ?thesis unfolding Retry(1)
    by (rule agent_step [OF assms(2) Retry(2)])
      (use Retry(4) planned_delay_ok [OF Retry(3)] in
        \<open>auto simp: plan_retry_def core_inv_def held_def watches_def Let_def Suc_le_eq split: if_splits dest!: retry_delay_values\<close>)
next
  case (WaitStarts g delay)
  show ?thesis unfolding WaitStarts(1)
    by (rule agent_step [OF assms(2) WaitStarts(2)]) (auto simp: core_inv_def held_def watches_def)
next
  case (UndoRetry g)
  show ?thesis unfolding UndoRetry(1)
    by (rule agent_step [OF assms(2) UndoRetry(2)]) (auto simp: undo_retry_def core_inv_def held_def watches_def)
next
  case (WaitEnds g delay)
  show ?thesis unfolding WaitEnds(1)
    by (rule agent_step [OF assms(2) WaitEnds(2)]) (auto simp: core_inv_def held_def watches_def)
next
  case (WaitStops g delay)
  show ?thesis unfolding WaitStops(1)
    by (rule agent_step [OF assms(2) WaitStops(2)]) (use WaitStops(3) in \<open>auto simp: core_inv_def held_def watches_def\<close>)
next
  case (Wake g again ps)
  show ?thesis unfolding Wake(1)
    by (rule agent_step [OF assms(2) Wake(2)])
      (use Wake(3) in \<open>auto simp: end_wait_def core_inv_def held_def watches_def split: if_splits\<close>)
next
  case (Close sess ps)
  obtain a c where ac: "agents w = opt a" "closers w = map CloseSession (opt c)" "core_inv (pw_path w) (pw_stopping w) a c (pw_open w)"
    using assms(2) by (auto simp: path_inv_def)
  let ?c = "if sess = None then c else sess"
  have core: "core_inv ps (pw_stopping w) a ?c (pw_open w)"
  proof (cases a)
    case None
    with Close(2) ac(3) show ?thesis by (auto simp: close_path_def core_inv_def held_def watches_def split: if_splits)
  next
    case (Some pc)
    with Close(2) ac(3) show ?thesis by (cases pc) (auto simp: close_path_def core_inv_def held_def watches_def split: if_splits)
  qed
  have "c = None" if "sess \<noteq> None" using that Close(2) ac(3) by (auto simp: close_path_def core_inv_def split: if_splits)
  with ac(1,2) core show ?thesis unfolding path_inv_def Close(1)
    by (intro exI [of _ a] exI [of _ ?c]) (auto simp: agents_def closers_def split: option.splits)
next
  case (CloseDone sess)
  obtain a c where ac: "agents w = opt a" "closers w = map CloseSession (opt c)" "core_inv (pw_path w) (pw_stopping w) a c (pw_open w)"
    using assms(2) by (auto simp: path_inv_def)
  have "CloseSession sess \<in> set (closers w)" using CloseDone(2) by (simp add: closers_def)
  with ac(2) have c: "c = Some sess" by (cases c) auto
  with ac show ?thesis unfolding path_inv_def CloseDone(1)
    by (intro exI [of _ a] exI [of _ "None :: nat option"])
      (auto simp: agents_def closers_def moves_def filter_remove1 core_inv_def held_def split: option.splits path_pc.splits)
next
  case Stop
  obtain a c where ac: "agents w = opt a" "closers w = map CloseSession (opt c)" "core_inv (pw_path w) (pw_stopping w) a c (pw_open w)"
    using assms(2) by (auto simp: path_inv_def)
  have "pc_ok ps True pc" if "pc_ok ps b pc" for ps b pc using that by (cases pc) auto
  with ac show ?thesis unfolding path_inv_def Stop
    by (intro exI [of _ a] exI [of _ c]) (auto simp: agents_def closers_def core_inv_def split: option.splits)
qed

lemma path_reachable_inv: "path_reachable w \<Longrightarrow> path_inv w"
proof (induction rule: path_reachable.induct)
  case 1
  show ?case unfolding path_inv_def
    by (intro exI [of _ "Some Reconciling"] exI [of _ "None :: nat option"])
      (simp add: new_world_def new_path_session_def agents_def closers_def core_inv_def)
qed (rule path_step_inv)

section \<open>Trying again\<close>

text \<open>The steps that lead an attempt to a new session when the dial succeeds.\<close>

lemma path_inv_agent:
  assumes "path_inv w" "\<not> ps_closed (pw_path w)" "\<not> pw_stopping w"
  obtains pc where "pc \<in> set (pw_pcs w)" "\<not> is_closer pc" "pc_ok (pw_path w) False pc" "agents w = [pc]"
    "case pc of Ended g sess t \<Rightarrow> sess \<notin> pw_open w | _ \<Rightarrow> True"
proof -
  obtain a c where ac: "agents w = opt a" "closers w = map CloseSession (opt c)" "core_inv (pw_path w) (pw_stopping w) a c (pw_open w)"
    using assms(1) by (auto simp: path_inv_def)
  with assms(2,3) obtain pc where pc: "a = Some pc" "\<not> is_closer pc" "pc_ok (pw_path w) False pc" by (auto simp: core_inv_def split: option.splits)
  moreover have "pc \<in> set (agents w)" using ac(1) pc(1) by simp
  then have "pc \<in> set (pw_pcs w)" by (simp add: agents_def)
  ultimately show ?thesis using that ac assms(2) by (auto simp: core_inv_def split: path_pc.splits)
qed

fun attempt_rank :: "path_pc \<Rightarrow> nat" where
  "attempt_rank (Watching _ _ _) = 0" | "attempt_rank (Installing _ _ _) = 1" | "attempt_rank (Dialing _) = 2" | "attempt_rank (Starting _) = 3"
| "attempt_rank Reconciling = 4" | "attempt_rank (Waking _) = 5" | "attempt_rank (Waiting _ _) = 6" | "attempt_rank (StartWait _ _) = 7"
| "attempt_rank (Retrying _) = 8" | "attempt_rank (Ended _ _ _) = 9" | "attempt_rank _ = 10"

lemma attempt_progress:
  assumes "path_inv w" "\<not> ps_closed (pw_path w)" "\<not> pw_stopping w" "agents w = [pc]" "0 < attempt_rank pc"
  shows "\<exists>w' pc'. physical_step w w' \<and> \<not> ps_closed (pw_path w') \<and> \<not> pw_stopping w' \<and> agents w' = [pc'] \<and> attempt_rank pc' < attempt_rank pc"
proof -
  obtain pc1 where pc1: "pc1 \<in> set (pw_pcs w)" "\<not> is_closer pc1" "pc_ok (pw_path w) False pc1" "agents w = [pc1]"
    using path_inv_agent [OF assms(1-3)] by blast
  then have pc: "pc \<in> set (pw_pcs w)" "\<not> is_closer pc" "pc_ok (pw_path w) False pc" using assms(4) by auto
  have move: "\<exists>w' pc'. physical_step w w' \<and> \<not> ps_closed (pw_path w') \<and> \<not> pw_stopping w' \<and> agents w' = [pc'] \<and> attempt_rank pc' < attempt_rank pc"
    if "physical_step w (moves pc (Some pc') w1)" "pw_pcs w1 = pw_pcs w" "\<not> ps_closed (pw_path w1)" "\<not> pw_stopping w1" "\<not> is_closer pc'"
      "attempt_rank pc' < attempt_rank pc" for pc' w1
    using that pc(2) assms(4)
    by (intro exI [of _ "moves pc (Some pc') w1"] exI [of _ pc']) (simp add: moves_def agents_def filter_remove1)
  show ?thesis
  proof (cases pc)
    case Reconciling
    let ?ps = "(pw_path w)\<lparr>ps_in_flight := True, ps_generation := ps_generation (pw_path w) + 1\<rparr>"
    have "begin_attempt (pw_path w) = (Some (ps_generation (pw_path w) + 1), ?ps)"
      using pc(3) assms(2) Reconciling by (simp add: begin_attempt_def Let_def)
    from Reconcile [OF _ this] pc Reconciling show ?thesis
      by (intro move [of "Starting (ps_generation (pw_path w) + 1)" "w\<lparr>pw_path := ?ps\<rparr>"]) (use assms(2,3) in auto)
  next
    case (Starting g)
    with StartDial [of g w] pc assms(2,3) show ?thesis by (intro move [of "Dialing g" w]) auto
  next
    case (Dialing g)
    with DialDone [of g w 1] pc assms(2,3) show ?thesis
      by (intro move [of "Installing g (pw_next w) 1" "w\<lparr>pw_open := insert (pw_next w) (pw_open w), pw_next := pw_next w + 1\<rparr>"]) auto
  next
    case (Installing g sess t)
    let ?ps = "(pw_path w)\<lparr>ps_session := Some sess, ps_in_flight := False, ps_retrying := False\<rparr>"
    have "install_session g sess (pw_path w) = (True, ?ps)" using pc(3) assms(2) Installing by (simp add: install_session_def)
    from Install [OF _ this] pc Installing assms(2,3) show ?thesis by (intro move [of "Watching g sess t" "w\<lparr>pw_path := ?ps\<rparr>"]) auto
  next
    case (Ended g sess t)
    let ?ps = "(pw_path w)\<lparr>ps_session := None, ps_retry_count := (if session_was_stable t 0 then 0 else ps_retry_count (pw_path w))\<rparr>"
    have "session_ended sess t 0 (pw_path w) = (True, ?ps)" using pc(3) assms(2) Ended by (simp add: session_ended_def)
    from SessionEnded [OF _ this] pc Ended assms(2,3) show ?thesis by (intro move [of "Retrying g" "w\<lparr>pw_path := ?ps\<rparr>"]) auto
  next
    case (Retrying g)
    obtain delay ps where plan: "plan_retry g 0 (pw_path w) = (Some delay, ps)" "\<not> ps_closed ps"
      using pc(3) assms(2) Retrying by (auto simp: plan_retry_def Let_def)
    have "0 \<in> jitter_offsets (session_retry_delay n)" for n
      using retry_delay_bounds(1) [of n] by (simp add: jitter_offsets_def tcpSessionRetryInitialDelay_def)
    from Retry [OF _ this plan(1)] plan(2) pc Retrying assms(3) show ?thesis by (intro move [of "StartWait g delay" "w\<lparr>pw_path := ps\<rparr>"]) auto
  next
    case (StartWait g delay)
    with WaitStarts [of g delay w] pc assms(2,3) show ?thesis by (intro move [of "Waiting g delay" w]) auto
  next
    case (Waiting g delay)
    with WaitEnds [of g delay w] pc assms(2,3) show ?thesis by (intro move [of "Waking g" w]) auto
  next
    case (Waking g)
    let ?ps = "(pw_path w)\<lparr>ps_retrying := False\<rparr>"
    have "end_wait g (pw_path w) = (True, ?ps)" using pc(3) assms(2) Waking by (simp add: end_wait_def)
    from Wake [OF _ this] pc Waking assms(2,3) show ?thesis by (intro move [of Reconciling "w\<lparr>pw_path := ?ps\<rparr>"]) auto
  next
    case (Discarding sess)
    with pc(3) assms(2) show ?thesis by simp
  qed (use pc assms in auto)
qed

lemma held_single:
  assumes "core_inv ps stopping a c open_sessions"
  shows "\<exists>x. held ps a c \<subseteq> {x}"
proof (cases a)
  case None
  with assms show ?thesis by (cases c) (auto simp: core_inv_def held_def)
next
  case (Some pc)
  with assms show ?thesis by (cases pc; cases c) (auto simp: core_inv_def held_def watches_def)
qed

text \<open>
  There is one physical session for a path session: of all the sessions that it has dialled at most one is
  open at a time, at most one goroutine makes attempts, its generation is the current one, and the
  session that \<open>current\<close> hands out is the one it watches.
\<close>

lemma one_session_per_path:
  assumes "path_reachable w"
  shows "(\<forall>a \<in> pw_open w. \<forall>b \<in> pw_open w. a = b) \<and> length (agents w) \<le> 1 \<and>
    (\<forall>is_closed same sess g. current_session is_closed same (pw_path w) = Some (sess, g) \<longrightarrow>
       (\<exists>t. agents w = [Watching g sess t] \<or> agents w = [Ended g sess t]))"
proof -
  obtain a c where ac: "agents w = opt a" "core_inv (pw_path w) (pw_stopping w) a c (pw_open w)"
    using path_reachable_inv [OF assms] by (auto simp: path_inv_def)
  have len: "length (agents w) \<le> 1" using ac(1) by (cases a) simp_all
  have "\<exists>t. agents w = [Watching g sess t] \<or> agents w = [Ended g sess t]" if "current_session is_closed same (pw_path w) = Some (sess, g)"
    for is_closed same sess g
    using ac that by (cases a; cases "the a") (auto simp: core_inv_def current_session_def split: option.splits if_splits)
  moreover obtain x where "held (pw_path w) a c \<subseteq> {x}" using held_single [OF ac(2)] by blast
  then have "pw_open w \<subseteq> {x}" using ac(2) by (auto simp: core_inv_def)
  ultimately show ?thesis using len by blast
qed

text \<open>
  A path that is wanted never stops trying, and never hurries: until it is closed or the client
  stops there is a goroutine at work on it, from every state its steps can lead to an installed session,
  and every delay it waits for is between 80 milliseconds and 5 seconds.
\<close>

theorem path_keeps_trying:
  assumes "path_reachable w" "\<not> ps_closed (pw_path w)" "\<not> pw_stopping w"
  shows "(\<exists>w'. physical_step\<^sup>*\<^sup>* w w' \<and> (\<exists>sess. ps_session (pw_path w') = Some sess)) \<and>
    (\<forall>g delay. Waiting g delay \<in> set (pw_pcs w) \<longrightarrow> 80 * 1000000 \<le> delay \<and> delay \<le> tcpSessionRetryMaxDelay)"
proof (intro conjI allI impI)
  have reach: "\<exists>w'. physical_step\<^sup>*\<^sup>* w w' \<and> (\<exists>sess. ps_session (pw_path w') = Some sess)"
    if "path_reachable w" "\<not> ps_closed (pw_path w)" "\<not> pw_stopping w" "agents w = [pc]" for w pc
    using that
  proof (induction "attempt_rank pc" arbitrary: w pc rule: less_induct)
    case less
    note inv = path_reachable_inv [OF less.prems(1)]
    show ?case
    proof (cases "attempt_rank pc = 0")
      case True
      then obtain g sess t where pc: "pc = Watching g sess t" by (cases pc) auto
      from path_inv_agent [OF inv less.prems(2,3)] less.prems(4) have "pc_ok (pw_path w) False pc" by (metis list.inject)
      with pc less.prems(2) show ?thesis by auto
    next
      case False
      then obtain w1 pc1 where w1: "physical_step w w1" "\<not> ps_closed (pw_path w1)" "\<not> pw_stopping w1" "agents w1 = [pc1]" "attempt_rank pc1 < attempt_rank pc"
        using attempt_progress [OF inv less.prems(2-4)] by blast
      from less.hyps [OF w1(5) path_reachable.intros(2) [OF less.prems(1) w1(1)] w1(2-4)] w1(1) show ?thesis
        by (meson converse_rtranclp_into_rtranclp)
    qed
  qed
  obtain pc where pc: "agents w = [pc]" "pc_ok (pw_path w) False pc" using path_inv_agent [OF path_reachable_inv [OF assms(1)] assms(2,3)] by metis
  from reach [OF assms pc(1)] show "\<exists>w'. physical_step\<^sup>*\<^sup>* w w' \<and> (\<exists>sess. ps_session (pw_path w') = Some sess)" .
  show "80 * 1000000 \<le> delay" "delay \<le> tcpSessionRetryMaxDelay" if "Waiting g delay \<in> set (pw_pcs w)" for g delay
  proof -
    have "Waiting g delay \<in> set (agents w)" using that by (simp add: agents_def)
    with pc show "80 * 1000000 \<le> delay" "delay \<le> tcpSessionRetryMaxDelay" by (auto simp: delay_ok_def)
  qed
qed

lemma closed_left_clean:
  assumes "path_reachable w" "ps_closed (pw_path w)" "pw_pcs w = []"
  shows "pw_open w = {}"
proof -
  obtain a c where ac: "agents w = opt a" "closers w = map CloseSession (opt c)" "core_inv (pw_path w) (pw_stopping w) a c (pw_open w)"
    using path_reachable_inv [OF assms(1)] by (auto simp: path_inv_def)
  have "a = None \<and> c = None" using ac(1,2) assms(3) by (cases a) (simp_all add: agents_def closers_def)
  with ac(3) assms(2) show ?thesis by (auto simp: core_inv_def held_def)
qed

text \<open>
  A closed path leaves nothing behind: once it is closed it hands out no session, and when its
  goroutines have returned no session that was dialled for it is open.
\<close>

theorem closed_path_is_clean:
  assumes "path_reachable w" "ps_closed (pw_path w)"
  shows "current_session is_closed same (pw_path w) = None \<and> ps_session (pw_path w) = None \<and> (pw_pcs w = [] \<longrightarrow> pw_open w = {})"
proof -
  obtain a c where ac: "agents w = opt a" "closers w = map CloseSession (opt c)" "core_inv (pw_path w) (pw_stopping w) a c (pw_open w)"
    using path_reachable_inv [OF assms(1)] by (auto simp: path_inv_def)
  with assms(2) closed_left_clean [OF assms] show ?thesis by (auto simp: core_inv_def current_session_def)
qed

subsection \<open>A session that is dialled and closed\<close>

lemma sample_watching:
  "\<exists>w g. path_reachable w \<and> agents w = [Watching g 0 1] \<and> pw_pcs w = [Watching g 0 1] \<and> pw_open w = {0} \<and>
     ps_session (pw_path w) = Some 0 \<and> \<not> ps_closed (pw_path w) \<and> \<not> pw_stopping w"
proof -
  let ?w = "\<lambda>ps pc open n. \<lparr>pw_path = ps, pw_pcs = [pc], pw_open = open, pw_next = n, pw_stopping = False\<rparr>"
  let ?ps = "\<lambda>s f. \<lparr>ps_session = s, ps_generation = 1, ps_in_flight = f, ps_retrying = False, ps_retry_count = 0, ps_closed = False\<rparr>"
  have "begin_attempt new_path_session = (Some 1, ?ps None True)" by (simp add: begin_attempt_def new_path_session_def Let_def)
  then have "physical_step new_world (?w (?ps None True) (Starting 1) {} 0)"
    using Reconcile [of new_world "Some 1" "?ps None True"] by (simp add: new_world_def moves_def)
  note 1 = path_reachable.intros(2) [OF path_reachable.intros(1) this]
  have "physical_step (?w (?ps None True) (Starting 1) {} 0) (?w (?ps None True) (Dialing 1) {} 0)"
    using StartDial [of 1 "?w (?ps None True) (Starting 1) {} 0"] by (simp add: moves_def)
  note 2 = path_reachable.intros(2) [OF 1 this]
  have "physical_step (?w (?ps None True) (Dialing 1) {} 0) (?w (?ps None True) (Installing 1 0 1) {0} 1)"
    using DialDone [of 1 "?w (?ps None True) (Dialing 1) {} 0" 1] by (simp add: moves_def)
  note 3 = path_reachable.intros(2) [OF 2 this]
  have "physical_step (?w (?ps None True) (Installing 1 0 1) {0} 1) (?w (?ps (Some 0) False) (Watching 1 0 1) {0} 1)"
    using Install [of 1 0 1 "?w (?ps None True) (Installing 1 0 1) {0} 1" True "?ps (Some 0) False"] by (simp add: moves_def install_session_def)
  note 4 = path_reachable.intros(2) [OF 3 this]
  then show ?thesis by (intro exI [of _ "?w (?ps (Some 0) False) (Watching 1 0 1) {0} 1"] exI [of _ 1]) (simp add: agents_def)
qed

lemma path_keeps_trying_witness: "\<exists>w'. physical_step\<^sup>*\<^sup>* new_world w' \<and> (\<exists>sess. ps_session (pw_path w') = Some sess)"
  by (rule conjunct1 [OF path_keeps_trying [OF path_reachable.intros(1)]]) (simp_all add: new_world_def new_path_session_def)

lemma closed_path_is_clean_witness:
  "\<exists>w. path_reachable w \<and> pw_open w = {0} \<and> current_session (\<lambda>_. False) True (pw_path w) = None"
proof -
  obtain w where w: "path_reachable w" "pw_open w = {0}" using sample_watching by blast
  obtain sess ps where close: "close_path (pw_path w) = (sess, ps)" by (cases "close_path (pw_path w)")
  note r = path_reachable.intros(2) [OF w(1) Close [OF close]]
  have "ps_closed ps" using close by (auto simp: close_path_def split: if_splits)
  with closed_path_is_clean [OF r] w(2) r show ?thesis
    by (intro exI [of _ "w\<lparr>pw_path := ps, pw_pcs := (case sess of None \<Rightarrow> [] | Some x \<Rightarrow> [CloseSession x]) @ pw_pcs w\<rparr>"]) simp
qed

end
