(* ===== verification/Carrier_Groups.thy ===== *)
theory Carrier_Groups
  imports Path_Sessions Socks5
begin

text \<open>
  The carriers of one logical flow on the client (\<open>tcpCarrierGroup\<close> in \<^verbatim>\<open>internal/clientrole/tcp_group.go\<close>):
  one slot per interface, an attempt to open and attach a carrier over the current session of the path,
  retries, and the answer to the SOCKS client, which is written once: success with the first carrier, or
  a failure when none comes in time. The critical sections under \<^verbatim>\<open>group.mu\<close> are functions; \<^verbatim>\<open>startMu\<close> is a
  lock of the model, because it is held across several of them. Sessions and carriers are numbers.
\<close>

section \<open>State\<close>

record client_path =
  cp_index :: int
  cp_address :: string
  cp_destination :: string

text \<open>\<open>sl_id\<close> is the address of the slot.\<close>

record flow_slot =
  sl_id :: nat
  sl_path :: client_path
  sl_session :: "nat option"
  sl_generation :: u64
  sl_carrier :: "nat option"
  sl_in_flight :: bool
  sl_retrying :: bool
  sl_retry_count :: nat
  sl_rejected :: bool

text \<open>The arguments that the goroutines of an attempt hand on.\<close>

record attempt =
  at_name :: string
  at_path :: client_path
  at_session :: nat
  at_generation :: u64

record group =
  gr_slots :: "(string \<times> flow_slot) list"
  gr_next_slot :: nat
  gr_assigned :: bool
  gr_started :: bool
  gr_committed :: bool
  gr_open_results :: "byte list"
  gr_failed :: bool
  gr_closed :: bool

definition new_group :: group where
  "new_group = \<lparr>gr_slots = [], gr_next_slot = 0, gr_assigned = False, gr_started = False, gr_committed = False, gr_open_results = [],
     gr_failed = False, gr_closed = False\<rparr>"

definition new_slot :: "nat \<Rightarrow> client_path \<Rightarrow> flow_slot" where
  "new_slot i path = \<lparr>sl_id = i, sl_path = path, sl_session = None, sl_generation = 0, sl_carrier = None, sl_in_flight = False,
     sl_retrying = False, sl_retry_count = 0, sl_rejected = False\<rparr>"

section \<open>Operations\<close>

definition on_slot :: "string \<Rightarrow> (flow_slot \<Rightarrow> flow_slot) \<Rightarrow> group \<Rightarrow> group" where
  "on_slot name f gr = gr\<lparr>gr_slots := map (\<lambda>(n, s). (n, if n = name then f s else s)) (gr_slots gr)\<rparr>"

definition of_attempt :: "attempt \<Rightarrow> flow_slot \<Rightarrow> bool" where
  "of_attempt a s \<longleftrightarrow> sl_path s = at_path a \<and> sl_session s = Some (at_session a) \<and> sl_generation s = at_generation a"

definition slot_of :: "attempt \<Rightarrow> group \<Rightarrow> flow_slot option" where
  "slot_of a gr = (case map_of (gr_slots gr) (at_name a) of None \<Rightarrow> None | Some s \<Rightarrow> if of_attempt a s then Some s else None)"

definition valid_open_attempt :: "attempt \<Rightarrow> group \<Rightarrow> bool" where
  "valid_open_attempt a gr \<longleftrightarrow> \<not> gr_closed gr \<and> \<not> gr_failed gr \<and> (case slot_of a gr of None \<Rightarrow> False | Some s \<Rightarrow> sl_in_flight s)"

text \<open>\<open>syncPaths\<close>: the carriers to close and the group.\<close>

fun add_slots :: "(string \<times> client_path) list \<Rightarrow> group \<Rightarrow> group" where
  "add_slots [] gr = gr"
| "add_slots ((name, path) # paths) gr =
     (if map_of (gr_slots gr) name = None
      then add_slots paths (gr\<lparr>gr_slots := (name, new_slot (gr_next_slot gr) path) # gr_slots gr, gr_next_slot := gr_next_slot gr + 1\<rparr>)
      else add_slots paths gr)"

definition slot_kept :: "(string \<times> client_path) list \<Rightarrow> string \<times> flow_slot \<Rightarrow> bool" where
  "slot_kept paths = (\<lambda>(name, s). map_of paths name = Some (sl_path s))"

definition slot_carriers :: "(string \<times> flow_slot) list \<Rightarrow> nat list" where
  "slot_carriers slots = List.map_filter (\<lambda>(name, s). sl_carrier s) slots"

definition sync_paths :: "(string \<times> client_path) list \<Rightarrow> group \<Rightarrow> nat list \<times> group" where
  "sync_paths paths gr =
     (slot_carriers (filter (\<lambda>x. \<not> slot_kept paths x) (gr_slots gr)),
      add_slots paths (gr\<lparr>gr_slots := filter (slot_kept paths) (gr_slots gr)\<rparr>))"

text \<open>The critical sections of \<open>reconcile\<close>: the path to look up, then the old carrier of an attempt that begins.\<close>

definition reconcile_path :: "string \<Rightarrow> bool \<Rightarrow> group \<Rightarrow> client_path option" where
  "reconcile_path name flow_done gr =
     (if gr_closed gr \<or> gr_failed gr \<or> \<not> gr_assigned gr \<or> flow_done then None else map_option sl_path (map_of (gr_slots gr) name))"

definition begin_open :: "attempt \<Rightarrow> bool \<Rightarrow> group \<Rightarrow> nat option option \<times> group" where
  "begin_open a flow_done gr =
     (if gr_closed gr \<or> gr_failed gr \<or> flow_done then (None, gr)
      else case map_of (gr_slots gr) (at_name a) of
        None \<Rightarrow> (None, gr)
      | Some s \<Rightarrow>
          if sl_path s \<noteq> at_path a then (None, gr)
          else
            let same = (sl_session s = Some (at_session a) \<and> sl_generation s = at_generation a) in
            if sl_carrier s \<noteq> None \<and> same then (None, gr)
            else if same \<and> (sl_in_flight s \<or> sl_retrying s \<or> sl_rejected s) then (None, gr)
            else (Some (sl_carrier s),
                  on_slot (at_name a) (\<lambda>s. (if same then s else s\<lparr>sl_retrying := False, sl_retry_count := 0, sl_rejected := False\<rparr>)
                    \<lparr>sl_carrier := None, sl_session := Some (at_session a), sl_generation := at_generation a, sl_in_flight := True\<rparr>) gr))"

definition finish_open :: "attempt \<Rightarrow> group \<Rightarrow> group" where
  "finish_open a gr = (if slot_of a gr = None then gr else on_slot (at_name a) (\<lambda>s. s\<lparr>sl_in_flight := False\<rparr>) gr)"

definition reject_open :: "attempt \<Rightarrow> group \<Rightarrow> group" where
  "reject_open a gr = (if slot_of a gr = None then gr else on_slot (at_name a) (\<lambda>s. s\<lparr>sl_in_flight := False, sl_rejected := True\<rparr>) gr)"

definition install_carrier :: "attempt \<Rightarrow> nat \<Rightarrow> bool \<Rightarrow> group \<Rightarrow> group" where
  "install_carrier a c first gr =
     (let gr = on_slot (at_name a) (\<lambda>s. s\<lparr>sl_carrier := Some c, sl_in_flight := False, sl_rejected := False\<rparr>) gr
      in if first then gr\<lparr>gr_started := True\<rparr> else gr)"

definition remove_carrier :: "attempt \<Rightarrow> nat \<Rightarrow> group \<Rightarrow> bool \<times> group" where
  "remove_carrier a c gr =
     (case slot_of a gr of
        None \<Rightarrow> (False, gr)
      | Some s \<Rightarrow> if sl_carrier s = Some c then (True, on_slot (at_name a) (\<lambda>s. s\<lparr>sl_carrier := None\<rparr>) gr) else (False, gr))"

text \<open>\<open>retry\<close>: the slot and the delay to wait for, if any.\<close>

definition plan_reopen :: "attempt \<Rightarrow> bool \<Rightarrow> bool \<Rightarrow> bool \<Rightarrow> int \<Rightarrow> group \<Rightarrow> (nat \<times> int) option \<times> group" where
  "plan_reopen a reset_backoff session_closed flow_done offset gr =
     (case slot_of a gr of
        None \<Rightarrow> (None, gr)
      | Some s \<Rightarrow>
          if gr_closed gr \<or> gr_failed gr \<or> sl_carrier s \<noteq> None \<or> flow_done \<or> session_closed then (None, gr)
          else
            let count = (if reset_backoff then 0 else sl_retry_count s) in
            if sl_retrying s then (None, on_slot (at_name a) (\<lambda>s. s\<lparr>sl_in_flight := False, sl_retry_count := count\<rparr>) gr)
            else let base = session_retry_delay count
              in (Some (sl_id s, apply_jitter base offset),
                  on_slot (at_name a) (\<lambda>s. s\<lparr>sl_in_flight := False, sl_retrying := True,
                    sl_retry_count := (if base < tcpSessionRetryMaxDelay then count + 1 else count)\<rparr>) gr))"

definition undo_reopen :: "attempt \<Rightarrow> nat \<Rightarrow> group \<Rightarrow> group" where
  "undo_reopen a i gr =
     (case slot_of a gr of None \<Rightarrow> gr | Some s \<Rightarrow> if sl_id s = i then on_slot (at_name a) (\<lambda>s. s\<lparr>sl_retrying := False\<rparr>) gr else gr)"

definition end_reopen_wait :: "attempt \<Rightarrow> bool \<Rightarrow> bool \<Rightarrow> group \<Rightarrow> bool \<times> group" where
  "end_reopen_wait a session_closed flow_done gr =
     (case slot_of a gr of
        None \<Rightarrow> (False, gr)
      | Some s \<Rightarrow>
          if gr_closed gr \<or> gr_failed gr \<or> \<not> sl_retrying s \<or> sl_carrier s \<noteq> None \<or> flow_done \<or> session_closed then (False, gr)
          else (True, on_slot (at_name a) (\<lambda>s. s\<lparr>sl_retrying := False\<rparr>) gr))"

text \<open>Failing to open: what the servers answered, in the order of preference, else the fallback.\<close>

definition record_open_error :: "go_error \<Rightarrow> group \<Rightarrow> group" where
  "record_open_error e gr =
     (case e of
        OpenError result \<Rightarrow>
          if result > OpenResultPolicyDenied then gr
          else if \<not> gr_started gr \<and> \<not> gr_failed gr \<and> \<not> gr_closed gr then gr\<lparr>gr_open_results := result # gr_open_results gr\<rparr> else gr
      | _ \<Rightarrow> gr)"

definition result_preference :: "byte list" where
  "result_preference = [OpenResultPolicyDenied, OpenResultConnectionRefused, OpenResultHostUnreachable, OpenResultNetworkUnreachable,
     OpenResultTimeout, OpenResultGeneralFailure]"

definition preferred_open_error :: "go_error \<Rightarrow> group \<Rightarrow> go_error" where
  "preferred_open_error fallback gr =
     (case filter (\<lambda>r. r \<in> set (gr_open_results gr)) result_preference of [] \<Rightarrow> fallback | r # _ \<Rightarrow> OpenError r)"

text \<open>The critical section of \<open>failOpenLocked\<close>: the error to end with and whether to tell the client.\<close>

definition fail_open :: "go_error \<Rightarrow> group \<Rightarrow> (go_error \<times> bool) option \<times> group" where
  "fail_open e gr =
     (if gr_started gr \<or> gr_failed gr \<or> gr_closed gr then (None, gr)
      else (Some (if e = ErrNoCarriers then preferred_open_error e gr else e, \<not> gr_committed gr), gr\<lparr>gr_failed := True\<rparr>))"

definition close_group :: "group \<Rightarrow> nat list \<times> group" where
  "close_group gr =
     (if gr_closed gr then ([], gr)
      else (slot_carriers (gr_slots gr), gr\<lparr>gr_closed := True, gr_slots := map (\<lambda>(n, s). (n, s\<lparr>sl_carrier := None\<rparr>)) (gr_slots gr)\<rparr>))"

section \<open>The goroutines together\<close>

text \<open>
  Where a goroutine stands. The first five are \<open>reconcile\<close> up to the start of a worker, the next five
  \<open>open\<close>; \<open>Checking\<close> to \<open>DropRemoved\<close> are \<open>attach\<close> under \<^verbatim>\<open>startMu\<close> with the carrier, \<open>first\<close> and
  \<open>needsCommit\<close>; then \<open>failOpenLocked\<close>, \<open>retry\<close> with its wait, \<open>monitorCarrier\<close>, \<open>watchOpen\<close>, \<open>close\<close> and
  \<open>syncPaths\<close>. A goroutine that \<open>retry\<close> is called from under \<^verbatim>\<open>startMu\<close> gives up the lock before it
  instead of after it, which allows more interleavings than the code.
\<close>

datatype group_pc =
    Looking string | LookingUp string client_path | Deciding attempt | StartOpen attempt "nat option" | FinishOpen attempt
  | OpenStart attempt | Opening attempt | OpenFailed attempt go_error | Rejecting attempt | AttachLock attempt
  | Checking attempt | AttachFlow attempt bool bool | Revalidating attempt nat bool bool | FirstLook attempt nat bool bool
  | Replying attempt nat bool | Committing attempt nat bool | SecondLook attempt nat bool | InstallSlot attempt nat bool
  | Announcing attempt nat bool | StartMonitor attempt nat | Dropping nat | DropRemoved attempt nat
  | FailCheck go_error | FailReply go_error bool | FailReset
  | Reopening attempt bool | StartReopenWait attempt nat int | UndoReopen attempt nat | ReopenWaiting attempt int | ReopenWaking attempt
  | Monitoring attempt nat | CarrierLost attempt nat
  | StartOpenWatch | OpenWatch | FailLock
  | CloseLock | ClosingGroup | ClosingCarriers "nat list"
  | Assigning | ReconcileAll | Syncing "(string \<times> client_path) list" | ClosingStale "nat list"

text \<open>What is written to the SOCKS client: the success reply, or a failure with its code; and whether the write worked.\<close>

datatype client_reply = Granted bool | Declined byte bool

text \<open>
  \<open>gw_open\<close> are the carriers attached and not done, \<open>gw_live\<close> the path sessions the runtime has installed
  and \<open>gw_dead\<close> the sessions that are closed. \<open>gw_replies\<close> and \<open>gw_starts\<close> (the calls of \<open>Flow.Start\<close>) are
  history.
\<close>

record group_world =
  gw_group :: group
  gw_pcs :: "group_pc list"
  gw_mu :: bool
  gw_flow_done :: bool
  gw_open :: "nat set"
  gw_next :: nat
  gw_live :: "string \<Rightarrow> (client_path \<times> nat \<times> u64) option"
  gw_dead :: "nat set"
  gw_stopping :: bool
  gw_replies :: "client_reply list"
  gw_starts :: nat

definition new_group_world :: "(string \<times> client_path) list \<Rightarrow> (string \<Rightarrow> (client_path \<times> nat \<times> u64) option) \<Rightarrow> group_world" where
  "new_group_world paths live = \<lparr>gw_group = new_group, gw_pcs = [Syncing paths, Assigning], gw_mu = False, gw_flow_done = False,
     gw_open = {}, gw_next = 0, gw_live = live, gw_dead = {}, gw_stopping = False, gw_replies = [], gw_starts = 0\<rparr>"

definition go :: "group_pc \<Rightarrow> group_pc list \<Rightarrow> group_world \<Rightarrow> group_world" where
  "go pc next w = w\<lparr>gw_pcs := next @ remove1 pc (gw_pcs w)\<rparr>"

definition lookup_path :: "string \<Rightarrow> client_path \<Rightarrow> group_world \<Rightarrow> attempt option" where
  "lookup_path name path w =
     (case gw_live w name of
        Some (p, sess, g) \<Rightarrow>
          if p = path \<and> sess \<notin> gw_dead w then Some \<lparr>at_name = name, at_path = path, at_session = sess, at_generation = g\<rparr> else None
      | None \<Rightarrow> None)"

inductive goroutine_step :: "group_world \<Rightarrow> group_world \<Rightarrow> bool" where
  Look: "Looking name \<in> set (gw_pcs w) \<Longrightarrow>
    goroutine_step w (go (Looking name) (case reconcile_path name (gw_flow_done w) (gw_group w) of None \<Rightarrow> [] | Some p \<Rightarrow> [LookingUp name p]) w)"
| LookUp: "LookingUp name path \<in> set (gw_pcs w) \<Longrightarrow>
    goroutine_step w (go (LookingUp name path) (case lookup_path name path w of None \<Rightarrow> [] | Some a \<Rightarrow> [Deciding a]) w)"
| Decide: "Deciding a \<in> set (gw_pcs w) \<Longrightarrow> begin_open a (gw_flow_done w) (gw_group w) = (old, gr) \<Longrightarrow>
    goroutine_step w (go (Deciding a) (case old of None \<Rightarrow> [] | Some c \<Rightarrow> [StartOpen a c]) (w\<lparr>gw_group := gr\<rparr>))"
| OpenWorker: "StartOpen a old \<in> set (gw_pcs w) \<Longrightarrow>
    goroutine_step w (go (StartOpen a old) [if gw_stopping w then FinishOpen a else OpenStart a] (w\<lparr>gw_open := gw_open w - set_option old\<rparr>))"
| FinishOpens: "FinishOpen a \<in> set (gw_pcs w) \<Longrightarrow> goroutine_step w (go (FinishOpen a) [] (w\<lparr>gw_group := finish_open a (gw_group w)\<rparr>))"
| OpenStarts: "OpenStart a \<in> set (gw_pcs w) \<Longrightarrow>
    goroutine_step w (go (OpenStart a) [if valid_open_attempt a (gw_group w) \<and> \<not> gw_flow_done w then Opening a else FinishOpen a] w)"
| OpenFails: "Opening a \<in> set (gw_pcs w) \<Longrightarrow> goroutine_step w (go (Opening a) [OpenFailed a e] w)"
| Opened: "Opening a \<in> set (gw_pcs w) \<Longrightarrow> goroutine_step w (go (Opening a) [AttachLock a] w)"
| OpenRecords: "OpenFailed a (OpenError result) \<in> set (gw_pcs w) \<Longrightarrow>
    goroutine_step w (go (OpenFailed a (OpenError result)) [Rejecting a] (w\<lparr>gw_group := record_open_error (OpenError result) (gw_group w)\<rparr>))"
| OpenRejects: "Rejecting a \<in> set (gw_pcs w) \<Longrightarrow> goroutine_step w (go (Rejecting a) [] (w\<lparr>gw_group := reject_open a (gw_group w)\<rparr>))"
| OpenRetries: "OpenFailed a e \<in> set (gw_pcs w) \<Longrightarrow> (\<forall>result. e \<noteq> OpenError result) \<Longrightarrow>
    goroutine_step w (go (OpenFailed a e) [Reopening a False] w)"
| AttachLocks: "AttachLock a \<in> set (gw_pcs w) \<Longrightarrow> \<not> gw_mu w \<Longrightarrow> goroutine_step w (go (AttachLock a) [Checking a] (w\<lparr>gw_mu := True\<rparr>))"
| CheckFails: "Checking a \<in> set (gw_pcs w) \<Longrightarrow> \<not> valid_open_attempt a (gw_group w) \<or> gw_flow_done w \<Longrightarrow>
    goroutine_step w (go (Checking a) [] (w\<lparr>gw_mu := False\<rparr>))"
| Check: "Checking a \<in> set (gw_pcs w) \<Longrightarrow> valid_open_attempt a (gw_group w) \<Longrightarrow> \<not> gw_flow_done w \<Longrightarrow>
    goroutine_step w (go (Checking a) [AttachFlow a (\<not> gr_started (gw_group w)) (\<not> gr_started (gw_group w) \<and> \<not> gr_committed (gw_group w))] w)"
| AttachFails: "AttachFlow a first commit \<in> set (gw_pcs w) \<Longrightarrow>
    goroutine_step w (go (AttachFlow a first commit) [Reopening a False] (w\<lparr>gw_mu := False\<rparr>))"
| Attach: "AttachFlow a first commit \<in> set (gw_pcs w) \<Longrightarrow>
    goroutine_step w (go (AttachFlow a first commit) [Revalidating a (gw_next w) first commit]
      (w\<lparr>gw_open := insert (gw_next w) (gw_open w), gw_next := gw_next w + 1\<rparr>))"
| Revalidate: "Revalidating a c first commit \<in> set (gw_pcs w) \<Longrightarrow>
    goroutine_step w (go (Revalidating a c first commit)
      [if valid_open_attempt a (gw_group w) \<and> \<not> gw_flow_done w then FirstLook a c first commit else Dropping c] w)"
| FirstGone: "FirstLook a c first commit \<in> set (gw_pcs w) \<Longrightarrow> c \<notin> gw_open w \<Longrightarrow>
    goroutine_step w (go (FirstLook a c first commit) [Reopening a False] (w\<lparr>gw_mu := False\<rparr>))"
| FirstLooks: "FirstLook a c first commit \<in> set (gw_pcs w) \<Longrightarrow> c \<in> gw_open w \<Longrightarrow>
    goroutine_step w (go (FirstLook a c first commit) [if commit then Replying a c first else SecondLook a c first] w)"
| ReplyFails: "Replying a c first \<in> set (gw_pcs w) \<Longrightarrow>
    goroutine_step w (go (Replying a c first) [FailCheck e] (w\<lparr>gw_open := gw_open w - {c}, gw_replies := gw_replies w @ [Granted False]\<rparr>))"
| Reply: "Replying a c first \<in> set (gw_pcs w) \<Longrightarrow>
    goroutine_step w (go (Replying a c first) [Committing a c first] (w\<lparr>gw_replies := gw_replies w @ [Granted True]\<rparr>))"
| Commit: "Committing a c first \<in> set (gw_pcs w) \<Longrightarrow>
    goroutine_step w (go (Committing a c first) [SecondLook a c first] (w\<lparr>gw_group := (gw_group w)\<lparr>gr_committed := True\<rparr>\<rparr>))"
| SecondGone: "SecondLook a c first \<in> set (gw_pcs w) \<Longrightarrow> c \<notin> gw_open w \<Longrightarrow>
    goroutine_step w (go (SecondLook a c first) [Reopening a False] (w\<lparr>gw_mu := False\<rparr>))"
| SecondLooks: "SecondLook a c first \<in> set (gw_pcs w) \<Longrightarrow> c \<in> gw_open w \<Longrightarrow> goroutine_step w (go (SecondLook a c first) [InstallSlot a c first] w)"
| InstallFails: "InstallSlot a c first \<in> set (gw_pcs w) \<Longrightarrow> \<not> valid_open_attempt a (gw_group w) \<or> gw_flow_done w \<Longrightarrow>
    goroutine_step w (go (InstallSlot a c first) [Dropping c] w)"
| InstallDone: "InstallSlot a c first \<in> set (gw_pcs w) \<Longrightarrow> valid_open_attempt a (gw_group w) \<Longrightarrow> \<not> gw_flow_done w \<Longrightarrow>
    goroutine_step w (go (InstallSlot a c first) [Announcing a c first] (w\<lparr>gw_group := install_carrier a c first (gw_group w)\<rparr>))"
| Announce: "Announcing a c first \<in> set (gw_pcs w) \<Longrightarrow>
    goroutine_step w (go (Announcing a c first) [StartMonitor a c] (w\<lparr>gw_starts := (if first then gw_starts w + 1 else gw_starts w)\<rparr>))"
| MonitorStarts: "StartMonitor a c \<in> set (gw_pcs w) \<Longrightarrow> \<not> gw_stopping w \<Longrightarrow>
    goroutine_step w (go (StartMonitor a c) [Monitoring a c] (w\<lparr>gw_mu := False\<rparr>))"
| MonitorRefused: "StartMonitor a c \<in> set (gw_pcs w) \<Longrightarrow> gw_stopping w \<Longrightarrow>
    goroutine_step w (go (StartMonitor a c) [DropRemoved a c] (w\<lparr>gw_open := gw_open w - {c}\<rparr>))"
| Drop: "Dropping c \<in> set (gw_pcs w) \<Longrightarrow> goroutine_step w (go (Dropping c) [] (w\<lparr>gw_open := gw_open w - {c}, gw_mu := False\<rparr>))"
| DropRemoves: "DropRemoved a c \<in> set (gw_pcs w) \<Longrightarrow> remove_carrier a c (gw_group w) = (removed, gr) \<Longrightarrow>
    goroutine_step w (go (DropRemoved a c) [] (w\<lparr>gw_group := gr, gw_mu := False\<rparr>))"
| FailNothing: "FailCheck e \<in> set (gw_pcs w) \<Longrightarrow> fail_open e (gw_group w) = (None, gr) \<Longrightarrow>
    goroutine_step w (go (FailCheck e) [] (w\<lparr>gw_mu := False\<rparr>))"
| FailOpens: "FailCheck e \<in> set (gw_pcs w) \<Longrightarrow> fail_open e (gw_group w) = (Some (e', tell), gr) \<Longrightarrow>
    goroutine_step w (go (FailCheck e) [FailReply e' tell] (w\<lparr>gw_group := gr\<rparr>))"
| FailReplies: "FailReply e tell \<in> set (gw_pcs w) \<Longrightarrow>
    goroutine_step w (go (FailReply e tell) [FailReset] (if tell then w\<lparr>gw_replies := gw_replies w @ [Declined (reply_for_error e) ok]\<rparr> else w))"
| FailResets: "FailReset \<in> set (gw_pcs w) \<Longrightarrow> goroutine_step w (go FailReset [] (w\<lparr>gw_mu := False\<rparr>))"
| Reopens: "Reopening a reset_backoff \<in> set (gw_pcs w) \<Longrightarrow>
    plan_reopen a reset_backoff (at_session a \<in> gw_dead w) (gw_flow_done w) offset (gw_group w) = (wait, gr) \<Longrightarrow>
    (\<forall>s. slot_of a (gw_group w) = Some s \<longrightarrow> offset \<in> jitter_offsets (session_retry_delay (if reset_backoff then 0 else sl_retry_count s))) \<Longrightarrow>
    goroutine_step w (go (Reopening a reset_backoff) (case wait of None \<Rightarrow> [] | Some (i, delay) \<Rightarrow> [StartReopenWait a i delay]) (w\<lparr>gw_group := gr\<rparr>))"
| ReopenWaitStarts: "StartReopenWait a i delay \<in> set (gw_pcs w) \<Longrightarrow>
    goroutine_step w (go (StartReopenWait a i delay) [if gw_stopping w then UndoReopen a i else ReopenWaiting a delay] w)"
| ReopenUndone: "UndoReopen a i \<in> set (gw_pcs w) \<Longrightarrow> goroutine_step w (go (UndoReopen a i) [] (w\<lparr>gw_group := undo_reopen a i (gw_group w)\<rparr>))"
| ReopenWaitEnds: "ReopenWaiting a delay \<in> set (gw_pcs w) \<Longrightarrow> goroutine_step w (go (ReopenWaiting a delay) [ReopenWaking a] w)"
| ReopenWaitStops: "ReopenWaiting a delay \<in> set (gw_pcs w) \<Longrightarrow> at_session a \<in> gw_dead w \<or> gw_stopping w \<or> gr_closed (gw_group w) \<Longrightarrow>
    goroutine_step w (go (ReopenWaiting a delay) [] w)"
| ReopenWakes: "ReopenWaking a \<in> set (gw_pcs w) \<Longrightarrow> end_reopen_wait a (at_session a \<in> gw_dead w) (gw_flow_done w) (gw_group w) = (again, gr) \<Longrightarrow>
    goroutine_step w (go (ReopenWaking a) (if again then [Looking (at_name a)] else []) (w\<lparr>gw_group := gr\<rparr>))"
| CarrierEnds: "Monitoring a c \<in> set (gw_pcs w) \<Longrightarrow> c \<notin> gw_open w \<Longrightarrow> goroutine_step w (go (Monitoring a c) [CarrierLost a c] w)"
| CarrierRemoved: "CarrierLost a c \<in> set (gw_pcs w) \<Longrightarrow> remove_carrier a c (gw_group w) = (removed, gr) \<Longrightarrow>
    goroutine_step w (go (CarrierLost a c) (if removed then [Reopening a lasted] else []) (w\<lparr>gw_group := gr\<rparr>))"
| OpenWatchStarts: "StartOpenWatch \<in> set (gw_pcs w) \<Longrightarrow> goroutine_step w (go StartOpenWatch (if gw_stopping w then [] else [OpenWatch]) w)"
| OpenWatchEnds: "OpenWatch \<in> set (gw_pcs w) \<Longrightarrow> gw_flow_done w \<or> gr_started (gw_group w) \<or> gw_stopping w \<Longrightarrow> goroutine_step w (go OpenWatch [] w)"
| OpenTimeout: "OpenWatch \<in> set (gw_pcs w) \<Longrightarrow> goroutine_step w (go OpenWatch [FailLock] w)"
| FailLocks: "FailLock \<in> set (gw_pcs w) \<Longrightarrow> \<not> gw_mu w \<Longrightarrow> goroutine_step w (go FailLock [FailCheck ErrNoCarriers] (w\<lparr>gw_mu := True\<rparr>))"
| CloseLocks: "CloseLock \<in> set (gw_pcs w) \<Longrightarrow> \<not> gw_mu w \<Longrightarrow> goroutine_step w (go CloseLock [ClosingGroup] (w\<lparr>gw_mu := True\<rparr>))"
| CloseGroup: "ClosingGroup \<in> set (gw_pcs w) \<Longrightarrow> close_group (gw_group w) = (cs, gr) \<Longrightarrow>
    goroutine_step w (go ClosingGroup [ClosingCarriers cs] (w\<lparr>gw_group := gr\<rparr>))"
| CloseCarriers: "ClosingCarriers cs \<in> set (gw_pcs w) \<Longrightarrow>
    goroutine_step w (go (ClosingCarriers cs) [] (w\<lparr>gw_open := gw_open w - set cs, gw_mu := False\<rparr>))"
| Assign: "Assigning \<in> set (gw_pcs w) \<Longrightarrow>
    goroutine_step w (go Assigning [ReconcileAll, StartOpenWatch] (w\<lparr>gw_group := (gw_group w)\<lparr>gr_assigned := True\<rparr>\<rparr>))"
| ReconcilesAll: "ReconcileAll \<in> set (gw_pcs w) \<Longrightarrow> goroutine_step w (go ReconcileAll (map (Looking \<circ> fst) (gr_slots (gw_group w))) w)"
| SyncPaths: "Syncing paths \<in> set (gw_pcs w) \<Longrightarrow> sync_paths paths (gw_group w) = (stale, gr) \<Longrightarrow>
    goroutine_step w (go (Syncing paths) [ClosingStale stale] (w\<lparr>gw_group := gr\<rparr>))"
| CloseStale: "ClosingStale cs \<in> set (gw_pcs w) \<Longrightarrow>
    goroutine_step w (go (ClosingStale cs) [ReconcileAll] (w\<lparr>gw_open := gw_open w - set cs\<rparr>))"

text \<open>
  What comes from outside: a refresh of the paths, sessions that come and go, the end of a carrier, of the
  flow or of the runtime, and \<open>close\<close>, which \<open>releaseCarrierGroup\<close> calls after the flow is done and \<open>shutdown\<close>
  after it has cancelled the runtime.
\<close>

inductive group_env :: "group_world \<Rightarrow> group_world \<Rightarrow> bool" where
  Refresh: "group_env w (w\<lparr>gw_pcs := Syncing paths # gw_pcs w\<rparr>)"
| SessionUp: "sess \<notin> gw_dead w \<Longrightarrow>
    group_env w (w\<lparr>gw_live := (gw_live w)(name \<mapsto> (path, sess, g)), gw_pcs := Looking name # gw_pcs w\<rparr>)"
| SessionDown: "group_env w (w\<lparr>gw_live := (gw_live w)(name := None)\<rparr>)"
| SessionCloses: "group_env w (w\<lparr>gw_dead := insert sess (gw_dead w)\<rparr>)"
| CarrierDies: "group_env w (w\<lparr>gw_open := gw_open w - {c}\<rparr>)"
| FlowEnds: "group_env w (w\<lparr>gw_flow_done := True\<rparr>)"
| ReleaseGroup: "gw_flow_done w \<or> gw_stopping w \<Longrightarrow> group_env w (w\<lparr>gw_pcs := CloseLock # gw_pcs w\<rparr>)"
| StopRuntime: "group_env w (w\<lparr>gw_stopping := True\<rparr>)"

inductive group_step :: "group_world \<Rightarrow> group_world \<Rightarrow> bool" where
  Goroutine: "goroutine_step w w' \<Longrightarrow> group_step w w'"
| Around: "group_env w w' \<Longrightarrow> group_step w w'"

inductive group_reachable :: "(string \<times> client_path) list \<Rightarrow> (string \<Rightarrow> (client_path \<times> nat \<times> u64) option) \<Rightarrow> group_world \<Rightarrow> bool"
  for paths live where
  "group_reachable paths live (new_group_world paths live)"
| "group_reachable paths live w \<Longrightarrow> group_step w w' \<Longrightarrow> group_reachable paths live w'"

section \<open>Basic facts\<close>

lemma go_simps [simp]:
  "gw_group (go pc next w) = gw_group w" "gw_mu (go pc next w) = gw_mu w" "gw_flow_done (go pc next w) = gw_flow_done w"
  "gw_open (go pc next w) = gw_open w" "gw_next (go pc next w) = gw_next w" "gw_live (go pc next w) = gw_live w"
  "gw_dead (go pc next w) = gw_dead w" "gw_stopping (go pc next w) = gw_stopping w" "gw_replies (go pc next w) = gw_replies w"
  "gw_starts (go pc next w) = gw_starts w" "gw_pcs (go pc next w) = next @ remove1 pc (gw_pcs w)"
  by (simp_all add: go_def)

text \<open>The fields of a group that say how far the opening is.\<close>

definition flags :: "group \<Rightarrow> bool \<times> bool \<times> bool \<times> bool" where
  "flags gr = (gr_started gr, gr_committed gr, gr_failed gr, gr_closed gr)"

lemma flags_eqD: "flags gr' = flags gr \<Longrightarrow> gr_started gr' = gr_started gr \<and> gr_committed gr' = gr_committed gr \<and>
    gr_failed gr' = gr_failed gr \<and> gr_closed gr' = gr_closed gr"
  by (simp add: flags_def)

lemma flags_on_slot [simp]: "flags (on_slot name f gr) = flags gr"
  by (simp add: flags_def on_slot_def)

lemma flags_simps [simp]:
  "flags (gr\<lparr>gr_slots := slots\<rparr>) = flags gr" "flags (gr\<lparr>gr_assigned := b\<rparr>) = flags gr" "flags (gr\<lparr>gr_open_results := rs\<rparr>) = flags gr"
  "flags (gr\<lparr>gr_next_slot := i\<rparr>) = flags gr"
  by (simp_all add: flags_def)

lemma flags_add_slots: "flags (add_slots paths gr) = flags gr"
proof (induction paths gr rule: add_slots.induct)
  case (2 name path paths gr)
  then show ?case by (cases "map_of (gr_slots gr) name") (simp_all add: flags_def)
qed simp

lemma flags_ops:
  "flags (finish_open a gr) = flags gr" "flags (reject_open a gr) = flags gr" "flags (record_open_error e gr) = flags gr"
  "begin_open a d gr = (old, gr') \<Longrightarrow> flags gr' = flags gr" "remove_carrier a c gr = (removed, gr') \<Longrightarrow> flags gr' = flags gr"
  "plan_reopen a r s d offset gr = (wait, gr') \<Longrightarrow> flags gr' = flags gr" "flags (undo_reopen a i gr) = flags gr"
  "end_reopen_wait a s d gr = (again, gr') \<Longrightarrow> flags gr' = flags gr" "sync_paths paths gr = (stale, gr') \<Longrightarrow> flags gr' = flags gr"
  by (auto simp: finish_open_def reject_open_def record_open_error_def begin_open_def remove_carrier_def plan_reopen_def undo_reopen_def
      end_reopen_wait_def sync_paths_def flags_add_slots Let_def split: if_splits option.splits go_error.splits)

section \<open>The answer to the client\<close>

definition holds_start :: "group_pc \<Rightarrow> bool" where
  "holds_start pc \<longleftrightarrow> (case pc of
     Checking _ \<Rightarrow> True | AttachFlow _ _ _ \<Rightarrow> True | Revalidating _ _ _ _ \<Rightarrow> True | FirstLook _ _ _ _ \<Rightarrow> True | Replying _ _ _ \<Rightarrow> True
   | Committing _ _ _ \<Rightarrow> True | SecondLook _ _ _ \<Rightarrow> True | InstallSlot _ _ _ \<Rightarrow> True | Announcing _ _ _ \<Rightarrow> True | StartMonitor _ _ \<Rightarrow> True
   | Dropping _ \<Rightarrow> True | DropRemoved _ _ \<Rightarrow> True | FailCheck _ \<Rightarrow> True | FailReply _ _ \<Rightarrow> True | FailReset \<Rightarrow> True
   | ClosingGroup \<Rightarrow> True | ClosingCarriers _ \<Rightarrow> True | _ \<Rightarrow> False)"

text \<open>When no goroutine is between the steps of an opening.\<close>

definition quiet :: "group \<Rightarrow> client_reply list \<Rightarrow> nat \<Rightarrow> bool" where
  "quiet gr replies starts \<longleftrightarrow>
     starts = (if gr_started gr then 1 else 0) \<and> (gr_started gr \<longrightarrow> gr_committed gr \<and> \<not> gr_failed gr) \<and>
     (if gr_committed gr then replies = [Granted True]
      else if gr_failed gr then \<exists>r ok. r \<noteq> ReplySucceeded \<and> (replies = [Declined r ok] \<or> replies = [Granted False, Declined r ok])
      else replies = [])"

text \<open>What holds where the goroutine that has \<^verbatim>\<open>startMu\<close> stands.\<close>

fun told :: "group \<Rightarrow> client_reply list \<Rightarrow> nat \<Rightarrow> group_pc \<Rightarrow> bool" where
  "told gr R n (AttachFlow a first commit) \<longleftrightarrow> quiet gr R n \<and> first = (\<not> gr_started gr) \<and> commit = (first \<and> \<not> gr_committed gr)"
| "told gr R n (Revalidating a c first commit) \<longleftrightarrow> quiet gr R n \<and> first = (\<not> gr_started gr) \<and> commit = (first \<and> \<not> gr_committed gr)"
| "told gr R n (FirstLook a c first commit) \<longleftrightarrow> quiet gr R n \<and> first = (\<not> gr_started gr) \<and> commit = (first \<and> \<not> gr_committed gr) \<and>
     \<not> gr_failed gr \<and> \<not> gr_closed gr"
| "told gr R n (Replying a c first) \<longleftrightarrow> quiet gr R n \<and> first \<and> \<not> gr_started gr \<and> \<not> gr_committed gr \<and> \<not> gr_failed gr \<and> \<not> gr_closed gr"
| "told gr R n (Committing a c first) \<longleftrightarrow> R = [Granted True] \<and> n = 0 \<and> first \<and> \<not> gr_started gr \<and> \<not> gr_committed gr \<and> \<not> gr_failed gr \<and> \<not> gr_closed gr"
| "told gr R n (SecondLook a c first) \<longleftrightarrow> quiet gr R n \<and> gr_committed gr \<and> first = (\<not> gr_started gr)"
| "told gr R n (InstallSlot a c first) \<longleftrightarrow> quiet gr R n \<and> gr_committed gr \<and> first = (\<not> gr_started gr)"
| "told gr R n (Announcing a c first) \<longleftrightarrow> R = [Granted True] \<and> gr_started gr \<and> gr_committed gr \<and> \<not> gr_failed gr \<and> n = (if first then 0 else 1)"
| "told gr R n (FailCheck e) \<longleftrightarrow> quiet gr R n \<or>
     R = [Granted False] \<and> n = 0 \<and> \<not> gr_started gr \<and> \<not> gr_committed gr \<and> \<not> gr_failed gr \<and> \<not> gr_closed gr"
| "told gr R n (FailReply e tell) \<longleftrightarrow> gr_failed gr \<and> \<not> gr_started gr \<and> n = 0 \<and> tell = (\<not> gr_committed gr) \<and>
     (if gr_committed gr then R = [Granted True] else R = [] \<or> R = [Granted False])"
| "told gr R n _ \<longleftrightarrow> quiet gr R n"

definition told_by :: "group \<Rightarrow> client_reply list \<Rightarrow> nat \<Rightarrow> group_pc option \<Rightarrow> bool" where
  "told_by gr R n h \<longleftrightarrow> (case h of None \<Rightarrow> quiet gr R n | Some pc \<Rightarrow> told gr R n pc)"

definition answer_inv :: "group_world \<Rightarrow> bool" where
  "answer_inv w \<longleftrightarrow> (\<exists>h. filter holds_start (gw_pcs w) = opt h \<and> gw_mu w = (h \<noteq> None) \<and> told_by (gw_group w) (gw_replies w) (gw_starts w) h)"

lemma quiet_flags: "flags gr' = flags gr \<Longrightarrow> quiet gr' R n = quiet gr R n"
  by (drule flags_eqD) (simp add: quiet_def)

lemma told_flags:
  assumes "flags gr' = flags gr"
  shows "told gr' R n pc = told gr R n pc"
proof -
  have eqs: "gr_started gr' = gr_started gr" "gr_committed gr' = gr_committed gr" "gr_failed gr' = gr_failed gr" "gr_closed gr' = gr_closed gr"
    using flags_eqD [OF assms] by simp_all
  show ?thesis by (cases pc) (simp_all only: told.simps eqs quiet_flags [OF assms])
qed

lemma told_by_flags: "flags gr' = flags gr \<Longrightarrow> told_by gr' R n h = told_by gr R n h"
  unfolding told_by_def by (cases h) (simp_all add: quiet_flags [of gr' gr] told_flags [of gr' gr])

text \<open>
  What a step of one goroutine has to show, from where it stands to what follows: with the lock it answers
  for the group, without it changes nothing that matters or takes the lock.
\<close>

definition answer_ok :: "group_world \<Rightarrow> group_pc \<Rightarrow> group_pc list \<Rightarrow> group_world \<Rightarrow> bool" where
  "answer_ok w pc next w' \<longleftrightarrow>
     (if holds_start pc then
        gw_mu w \<longrightarrow> told (gw_group w) (gw_replies w) (gw_starts w) pc \<longrightarrow>
        (case filter holds_start next of
           [] \<Rightarrow> \<not> gw_mu w' \<and> quiet (gw_group w') (gw_replies w') (gw_starts w')
         | pc' # rest \<Rightarrow> rest = [] \<and> gw_mu w' \<and> told (gw_group w') (gw_replies w') (gw_starts w') pc')
      else flags (gw_group w') = flags (gw_group w) \<and> gw_replies w' = gw_replies w \<and> gw_starts w' = gw_starts w \<and>
        (case filter holds_start next of
           [] \<Rightarrow> gw_mu w' = gw_mu w
         | pc' # rest \<Rightarrow> rest = [] \<and> \<not> gw_mu w \<and> gw_mu w' \<and>
             (quiet (gw_group w) (gw_replies w) (gw_starts w) \<longrightarrow> told (gw_group w) (gw_replies w) (gw_starts w) pc')))"

lemma holder_unique:
  assumes "answer_inv w" "pc \<in> set (gw_pcs w)" "holds_start pc"
  shows "filter holds_start (gw_pcs w) = [pc]" "gw_mu w" "told (gw_group w) (gw_replies w) (gw_starts w) pc"
proof -
  obtain h where h: "filter holds_start (gw_pcs w) = opt h" "gw_mu w = (h \<noteq> None)" "told_by (gw_group w) (gw_replies w) (gw_starts w) h"
    using assms(1) by (auto simp: answer_inv_def)
  have "pc \<in> set (filter holds_start (gw_pcs w))" using assms(2,3) by simp
  then have "h = Some pc" unfolding h(1) by (cases h) (simp_all add: opt_def)
  with h show "filter holds_start (gw_pcs w) = [pc]" "gw_mu w" "told (gw_group w) (gw_replies w) (gw_starts w) pc"
    by (simp_all add: opt_def told_by_def)
qed

lemma answer_go:
  assumes "answer_inv w" "pc \<in> set (gw_pcs w)" "gw_pcs w' = gw_pcs w" "answer_ok w pc next w'"
  shows "answer_inv (go pc next w')"
proof (cases "holds_start pc")
  case True
  note u = holder_unique [OF assms(1,2) True]
  with assms(3,4) True show ?thesis unfolding answer_inv_def
    by (intro exI [of _ "case filter holds_start next of [] \<Rightarrow> None | pc' # _ \<Rightarrow> Some pc'"])
       (auto simp: answer_ok_def filter_remove1 opt_def told_by_def split: list.splits)
next
  case False
  obtain h where h: "filter holds_start (gw_pcs w) = opt h" "gw_mu w = (h \<noteq> None)" "told_by (gw_group w) (gw_replies w) (gw_starts w) h"
    using assms(1) by (auto simp: answer_inv_def)
  have fl: "flags (gw_group w') = flags (gw_group w)" using assms(4) False by (simp add: answer_ok_def)
  from h assms(3,4) False show ?thesis unfolding answer_inv_def
    by (intro exI [of _ "case filter holds_start next of [] \<Rightarrow> h | pc' # _ \<Rightarrow> Some pc'"])
       (auto simp: answer_ok_def filter_remove1 opt_def told_by_flags [OF fl] told_by_def [of "gw_group w"] split: list.splits option.splits)
qed

lemma flags_install: "flags (install_carrier a c first gr) = (gr_started gr \<or> first, gr_committed gr, gr_failed gr, gr_closed gr)"
  by (simp add: install_carrier_def Let_def flags_def on_slot_def)

lemma fail_openD:
  "fail_open e gr = (None, gr') \<Longrightarrow> gr' = gr \<and> (gr_started gr \<or> gr_failed gr \<or> gr_closed gr)"
  "fail_open e gr = (Some (e', tell), gr') \<Longrightarrow> gr' = gr\<lparr>gr_failed := True\<rparr> \<and> \<not> gr_started gr \<and> \<not> gr_failed gr \<and> \<not> gr_closed gr \<and> tell = (\<not> gr_committed gr)"
  by (auto simp: fail_open_def split: if_splits)

lemma quiet_closed [simp]: "quiet (gr\<lparr>gr_closed := b\<rparr>) R n = quiet gr R n" "quiet (gr\<lparr>gr_slots := slots\<rparr>) R n = quiet gr R n"
  by (simp_all add: quiet_def)

lemma close_group_quiet: "close_group gr = (cs, gr') \<Longrightarrow> quiet gr R n \<Longrightarrow> quiet gr' R n"
  by (auto simp: close_group_def quiet_def split: if_splits)

lemma validD: "valid_open_attempt a gr \<Longrightarrow> \<not> gr_failed gr \<and> \<not> gr_closed gr"
  by (simp add: valid_open_attempt_def)

lemma reply_for_error_failure: "reply_for_error e \<noteq> ReplySucceeded"
  by (simp add: reply_for_error_def socks_constants split: go_error.split)

lemma answer_env:
  "answer_inv w \<Longrightarrow> \<not> holds_start pc \<Longrightarrow> answer_inv (w\<lparr>gw_pcs := pc # gw_pcs w\<rparr>)"
  "answer_inv w \<Longrightarrow> answer_inv (w\<lparr>gw_live := live\<rparr>)" "answer_inv w \<Longrightarrow> answer_inv (w\<lparr>gw_dead := dead\<rparr>)"
  "answer_inv w \<Longrightarrow> answer_inv (w\<lparr>gw_open := cs\<rparr>)" "answer_inv w \<Longrightarrow> answer_inv (w\<lparr>gw_flow_done := b\<rparr>)"
  "answer_inv w \<Longrightarrow> answer_inv (w\<lparr>gw_stopping := b\<rparr>)"
  by (simp_all add: answer_inv_def)

lemma answer_new: "answer_inv (new_group_world paths live)"
  by (simp add: answer_inv_def new_group_world_def new_group_def holds_start_def told_by_def quiet_def opt_def)


lemma quiet_untoldD: "quiet gr R n \<Longrightarrow> \<not> gr_started gr \<Longrightarrow> \<not> gr_committed gr \<Longrightarrow> \<not> gr_failed gr \<Longrightarrow> R = [] \<and> n = 0"
  by (simp add: quiet_def)

lemma quiet_told:
  "\<not> gr_started gr \<Longrightarrow> quiet (gr\<lparr>gr_committed := True\<rparr>) [Granted True] 0"
  "gr_started gr \<Longrightarrow> gr_committed gr \<Longrightarrow> \<not> gr_failed gr \<Longrightarrow> quiet gr [Granted True] (Suc 0)"
  by (simp_all add: quiet_def)

lemma no_start_lookers [simp]: "filter holds_start (map (Looking \<circ> fst) slots) = []"
  by (simp add: filter_empty_conv holds_start_def)

lemma answer_step:
  assumes "group_step w w'" "answer_inv w"
  shows "answer_inv w'"
  using assms(1)
proof (cases rule: group_step.cases)
  case Goroutine
  then show ?thesis
  proof (cases rule: goroutine_step.cases)
    case (FailReplies e tell ok)
    then show ?thesis by (auto intro!: answer_go [OF assms(2)] simp: answer_ok_def holds_start_def quiet_def reply_for_error_failure split: option.split)
  next
    case (FirstLooks a c first commit)
    then show ?thesis by (auto intro!: answer_go [OF assms(2)] simp: answer_ok_def holds_start_def quiet_def)
  next
    case (InstallDone a c first)
    then show ?thesis using flags_install [of a c first "gw_group w"]
      by (auto intro!: answer_go [OF assms(2)] dest: validD simp: answer_ok_def holds_start_def quiet_def flags_def)
  next
    case (DropRemoves a c removed gr)
    then show ?thesis using quiet_flags [OF flags_ops(5) [OF DropRemoves(3)]] by (auto intro!: answer_go [OF assms(2)] simp: answer_ok_def holds_start_def)
  next
    case (FailOpens e e' tell gr)
    then show ?thesis using fail_openD(2) [OF FailOpens(3)] by (auto intro!: answer_go [OF assms(2)] simp: answer_ok_def holds_start_def quiet_def)
  next
    case (FailNothing e gr)
    then show ?thesis using fail_openD(1) [OF FailNothing(3)] by (auto intro!: answer_go [OF assms(2)] simp: answer_ok_def holds_start_def)
  next
    case (CloseGroup cs gr)
    then show ?thesis using close_group_quiet [OF CloseGroup(3)] by (auto intro!: answer_go [OF assms(2)] simp: answer_ok_def holds_start_def)
  qed (auto intro!: answer_go [OF assms(2)] answer_env [OF assms(2)] dest: validD flags_ops(4-6,8,9) quiet_untoldD simp: quiet_told answer_ok_def holds_start_def flags_ops(1-3,7)
      split: option.split)
next
  case Around
  then show ?thesis
  proof (cases rule: group_env.cases)
    case (SessionUp sess name path g)
    then show ?thesis using assms(2) by (simp add: answer_inv_def holds_start_def)
  qed (auto intro: answer_env [OF assms(2)] simp: holds_start_def)
qed

lemma reachable_answers:
  assumes "group_reachable paths live w"
  shows "answer_inv w"
  using assms by induction (auto intro: answer_new answer_step)

text \<open>
  When a goroutine comes to write the success reply, the carrier it has attached was open and the group
  had no carrier before; and nobody else writes it.
\<close>

lemma replying_step:
  assumes "goroutine_step w w'" "Replying a c first \<in> set (gw_pcs w')"
  shows "Replying a c first \<in> set (gw_pcs w) \<or> FirstLook a c first True \<in> set (gw_pcs w) \<and> c \<in> gw_open w"
  using assms by cases (auto split: if_splits option.splits dest: set_remove1_subset [THEN subsetD])

lemma granted_step:
  assumes "goroutine_step w w'" "gw_replies w' = gw_replies w @ [Granted ok]"
  shows "\<exists>a c first. Replying a c first \<in> set (gw_pcs w)"
  using assms by cases (auto split: if_splits)

lemma env_replies: "group_env w w' \<Longrightarrow> gw_replies w' = gw_replies w \<and> (Replying a c first \<in> set (gw_pcs w') \<longrightarrow> Replying a c first \<in> set (gw_pcs w))"
  by (cases rule: group_env.cases) auto

text \<open>What the client has been told when nobody is telling it: that it is served, or why not.\<close>

definition answered :: "client_reply list \<Rightarrow> bool" where
  "answered replies \<longleftrightarrow> replies = [Granted True] \<or> (\<exists>r ok. r \<noteq> ReplySucceeded \<and> (replies = [Declined r ok] \<or> replies = [Granted False, Declined r ok]))"

text \<open>
  C16. The SOCKS client is never told two things. Nothing was written to it yet, or a success, or a
  failure with a failing code; a failure is written after a success only when writing the success had
  failed, so at most one of the writes ever works. Success is written only by the goroutine of a
  carrier that was attached to the flow and was still open when that goroutine looked, which it does
  immediately before. The flow is started at most once and only after the success was written; while
  no goroutine is attaching a carrier, a group that has failed without having committed has written a failure.
\<close>

theorem client_answered_once:
  assumes "group_reachable paths live w"
  shows "(gw_replies w = [] \<or> gw_replies w = [Granted False] \<or> answered (gw_replies w)) \<and>
    (\<forall>w' ok. group_step w w' \<and> gw_replies w' = gw_replies w @ [Granted ok] \<longrightarrow> (\<exists>a c first. Replying a c first \<in> set (gw_pcs w))) \<and>
    (\<forall>w' a c first. group_step w w' \<and> Replying a c first \<in> set (gw_pcs w') \<and> Replying a c first \<notin> set (gw_pcs w) \<longrightarrow>
       c \<in> gw_open w \<and> gw_replies w = [] \<and> \<not> gr_started (gw_group w)) \<and>
    gw_starts w \<le> 1 \<and> (gr_started (gw_group w) \<longrightarrow> gw_replies w = [Granted True]) \<and> (gw_starts w = 1 \<longrightarrow> gr_started (gw_group w)) \<and>
    (\<not> gw_mu w \<longrightarrow> (gw_starts w = 1) = gr_started (gw_group w) \<and>
       (gr_failed (gw_group w) \<and> \<not> gr_committed (gw_group w) \<longrightarrow> (\<exists>r ok. r \<noteq> ReplySucceeded \<and> last (gw_replies w) = Declined r ok)))"
proof -
  note inv = reachable_answers [OF assms]
  obtain h where h: "gw_mu w = (h \<noteq> None)" "told_by (gw_group w) (gw_replies w) (gw_starts w) h"
    using inv by (auto simp: answer_inv_def)
  have "(gw_replies w = [] \<or> gw_replies w = [Granted False] \<or> answered (gw_replies w)) \<and>
    gw_starts w \<le> 1 \<and> (gr_started (gw_group w) \<longrightarrow> gw_replies w = [Granted True]) \<and> (gw_starts w = 1 \<longrightarrow> gr_started (gw_group w)) \<and>
    (\<not> gw_mu w \<longrightarrow> (gw_starts w = 1) = gr_started (gw_group w) \<and>
       (gr_failed (gw_group w) \<and> \<not> gr_committed (gw_group w) \<longrightarrow> (\<exists>r ok. r \<noteq> ReplySucceeded \<and> last (gw_replies w) = Declined r ok)))"
  proof (cases h)
    case None
    with h show ?thesis by (auto simp: told_by_def quiet_def answered_def split: if_splits)
  next
    case (Some pc)
    with h have "gw_mu w" "told (gw_group w) (gw_replies w) (gw_starts w) pc" by (simp_all add: told_by_def)
    then show ?thesis by (cases pc) (auto simp: quiet_def answered_def split: if_splits)
  qed
  moreover have "\<exists>a c first. Replying a c first \<in> set (gw_pcs w)" if "group_step w w'" "gw_replies w' = gw_replies w @ [Granted ok]" for w' ok
    using that granted_step env_replies by (cases rule: group_step.cases) fastforce+
  moreover have "c \<in> gw_open w \<and> gw_replies w = [] \<and> \<not> gr_started (gw_group w)"
    if "group_step w w'" "Replying a c first \<in> set (gw_pcs w')" "Replying a c first \<notin> set (gw_pcs w)" for w' a c first
  proof -
    have look: "FirstLook a c first True \<in> set (gw_pcs w)" "c \<in> gw_open w"
      using that(1) replying_step [OF _ that(2)] env_replies [of w w' a c first] that(2,3) by (auto elim: group_step.cases)
    then have "told (gw_group w) (gw_replies w) (gw_starts w) (FirstLook a c first True)"
      by (intro holder_unique(3) [OF inv look(1)]) (simp add: holds_start_def)
    then show ?thesis using look(2) quiet_untoldD [of "gw_group w"] unfolding told.simps by blast
  qed
  ultimately show ?thesis by blast
qed

section \<open>The client is answered\<close>

text \<open>While nothing is settled somebody will settle it.\<close>

definition settled :: "group_world \<Rightarrow> bool" where
  "settled w \<longleftrightarrow> gr_started (gw_group w) \<or> gr_failed (gw_group w) \<or> gr_closed (gw_group w) \<or> gw_stopping w \<or> gw_flow_done w"

definition watched :: "group_world \<Rightarrow> bool" where
  "watched w \<longleftrightarrow> settled w \<or> Assigning \<in> set (gw_pcs w) \<or> StartOpenWatch \<in> set (gw_pcs w) \<or> OpenWatch \<in> set (gw_pcs w) \<or>
     FailLock \<in> set (gw_pcs w) \<or> (\<exists>e. FailCheck e \<in> set (gw_pcs w))"

lemma settled_step:
  assumes "group_step w w'" "settled w"
  shows "settled w'"
  using assms
proof (cases rule: group_step.cases)
  case Goroutine
  then show ?thesis
  proof (cases rule: goroutine_step.cases)
    case (InstallDone a c first)
    then show ?thesis using assms(2) flags_install [of a c first "gw_group w"] by (auto simp: settled_def flags_def)
  next
    case (FailNothing e gr)
    then show ?thesis using assms(2) by (simp add: settled_def)
  next
    case (FailOpens e e' tell gr)
    then show ?thesis using fail_openD(2) [OF FailOpens(3)] by (simp add: settled_def)
  next
    case (CloseGroup cs gr)
    then show ?thesis using assms(2) by (auto simp: settled_def close_group_def split: if_splits)
  qed (use assms(2) in \<open>auto simp: settled_def flags_ops(1-3,7) [THEN flags_eqD] dest!: flags_ops(4-6,8,9) [THEN flags_eqD]\<close>)
next
  case Around
  then show ?thesis by (cases rule: group_env.cases) (use assms(2) in \<open>auto simp: settled_def\<close>)
qed

lemma watched_step:
  assumes "group_step w w'" "watched w"
  shows "watched w'"
proof (cases "settled w'")
  case False
  with settled_step [OF assms(1)] have "\<not> settled w" by blast
  from assms(1) show ?thesis
  proof (cases rule: group_step.cases)
    case Goroutine
    then show ?thesis
    proof (cases rule: goroutine_step.cases)
      case (FailNothing e gr)
      then show ?thesis using assms(2) fail_openD(1) [OF FailNothing(3)] \<open>\<not> settled w\<close> \<open>\<not> settled w'\<close> by (auto simp: settled_def)
    next
      case (FailOpens e e' tell gr)
      then show ?thesis using fail_openD(2) [OF FailOpens(3)] by (simp add: watched_def settled_def)
    qed (use assms(2) \<open>\<not> settled w\<close> in \<open>auto simp: watched_def settled_def split: if_splits\<close>)
  next
    case Around
    then show ?thesis by (cases rule: group_env.cases) (use assms(2) \<open>\<not> settled w\<close> in \<open>auto simp: watched_def settled_def\<close>)
  qed
qed (simp add: watched_def)

lemma reachable_watched: "group_reachable paths live w \<Longrightarrow> watched w"
proof (induction rule: group_reachable.induct)
  case 1
  then show ?case by (simp add: watched_def new_group_world_def)
qed (rule watched_step)

text \<open>The group is closed, or about to be, only when its flow is done or the runtime stops.\<close>

definition open_still :: "group_world \<Rightarrow> bool" where
  "open_still w \<longleftrightarrow> gw_flow_done w \<or> gw_stopping w \<or> \<not> gr_closed (gw_group w) \<and> CloseLock \<notin> set (gw_pcs w) \<and> ClosingGroup \<notin> set (gw_pcs w)"

lemma goroutine_flow: "goroutine_step w w' \<Longrightarrow> gw_flow_done w' = gw_flow_done w \<and> gw_stopping w' = gw_stopping w"
  by (cases rule: goroutine_step.cases) (auto split: if_splits)

lemma open_still_step:
  assumes "group_step w w'" "open_still w"
  shows "open_still w'"
  using assms(1)
proof (cases rule: group_step.cases)
  case Goroutine
  show ?thesis
  proof (cases "gw_flow_done w \<or> gw_stopping w")
    case False
    with assms(2) have "\<not> gr_closed (gw_group w)" "CloseLock \<notin> set (gw_pcs w)" "ClosingGroup \<notin> set (gw_pcs w)"
      by (auto simp: open_still_def)
    with Goroutine show ?thesis
    proof (cases rule: goroutine_step.cases)
      case (FailNothing e gr)
      then show ?thesis using \<open>open_still w\<close> by (auto simp: open_still_def)
    next
      case (FailOpens e e' tell gr)
      then show ?thesis using \<open>open_still w\<close> fail_openD(2) [OF FailOpens(3)] by (auto simp: open_still_def)
    next
      case (InstallDone a c first)
      then show ?thesis using \<open>open_still w\<close> flags_install [of a c first "gw_group w"] by (auto simp: open_still_def flags_def)
    qed (use \<open>open_still w\<close> in \<open>auto simp: open_still_def flags_ops(1-3,7) [THEN flags_eqD] split: option.splits dest!: flags_ops(4-6,8,9) [THEN flags_eqD]\<close>)
  qed (use goroutine_flow [OF Goroutine] in \<open>auto simp: open_still_def\<close>)
next
  case Around
  then show ?thesis by (cases rule: group_env.cases) (use assms(2) in \<open>auto simp: open_still_def\<close>)
qed

lemma reachable_open_still: "group_reachable paths live w \<Longrightarrow> open_still w"
proof (induction rule: group_reachable.induct)
  case 1
  then show ?case by (simp add: open_still_def new_group_world_def new_group_def)
qed (rule open_still_step)

section \<open>The lock is given back\<close>

fun hold_rank :: "group_pc \<Rightarrow> nat" where
  "hold_rank (Checking _) = 12" | "hold_rank (AttachFlow _ _ _) = 11" | "hold_rank (Revalidating _ _ _ _) = 10"
| "hold_rank (FirstLook _ _ _ _) = 9" | "hold_rank (Replying _ _ _) = 8" | "hold_rank (Committing _ _ _) = 7"
| "hold_rank (SecondLook _ _ _) = 6" | "hold_rank (InstallSlot _ _ _) = 5" | "hold_rank (Announcing _ _ _) = 4"
| "hold_rank (StartMonitor _ _) = 3" | "hold_rank (DropRemoved _ _) = 2" | "hold_rank (Dropping _) = 2"
| "hold_rank (FailCheck _) = 3" | "hold_rank (FailReply _ _) = 2" | "hold_rank FailReset = 1"
| "hold_rank ClosingGroup = 2" | "hold_rank (ClosingCarriers _) = 1" | "hold_rank _ = 0"

definition hold :: "group_world \<Rightarrow> nat" where
  "hold w = sum_list (map hold_rank (gw_pcs w))"

definition can_move :: "group_world \<Rightarrow> group_pc \<Rightarrow> bool" where
  "can_move w pc \<longleftrightarrow> (\<exists>next w'. goroutine_step w (go pc next w') \<and> gw_pcs w' = gw_pcs w \<and> gw_flow_done w' = gw_flow_done w \<and>
     gw_stopping w' = gw_stopping w \<and> sum_list (map hold_rank next) < hold_rank pc)"

lemma can_moveI:
  "goroutine_step w (go pc next w') \<Longrightarrow> gw_pcs w' = gw_pcs w \<Longrightarrow> gw_flow_done w' = gw_flow_done w \<Longrightarrow> gw_stopping w' = gw_stopping w \<Longrightarrow>
    sum_list (map hold_rank next) < hold_rank pc \<Longrightarrow> can_move w pc"
  unfolding can_move_def by blast

lemma hold_rank_if [simp]: "hold_rank (if commit then Replying a c first else SecondLook a c first) < 9"
  by simp

lemma branch_can_move:
  "Checking a \<in> set (gw_pcs w) \<Longrightarrow> can_move w (Checking a)" "InstallSlot a c first \<in> set (gw_pcs w) \<Longrightarrow> can_move w (InstallSlot a c first)"
  "FirstLook a c first commit \<in> set (gw_pcs w) \<Longrightarrow> can_move w (FirstLook a c first commit)"
  "SecondLook a c first \<in> set (gw_pcs w) \<Longrightarrow> can_move w (SecondLook a c first)"
  "StartMonitor a c \<in> set (gw_pcs w) \<Longrightarrow> can_move w (StartMonitor a c)"
  using can_moveI [OF goroutine_step.CheckFails, of a w] can_moveI [OF goroutine_step.Check, of a w]
    can_moveI [OF goroutine_step.InstallFails, of a c first w] can_moveI [OF goroutine_step.InstallDone, of a c first w]
    can_moveI [OF goroutine_step.FirstGone, of a c first commit w] can_moveI [OF goroutine_step.FirstLooks, of a c first commit w]
    can_moveI [OF goroutine_step.SecondGone, of a c first w] can_moveI [OF goroutine_step.SecondLooks, of a c first w]
    can_moveI [OF goroutine_step.MonitorStarts, of a c w] can_moveI [OF goroutine_step.MonitorRefused, of a c w]
  by auto

lemma fail_can_move: "FailCheck e \<in> set (gw_pcs w) \<Longrightarrow> can_move w (FailCheck e)"
  by (cases "fail_open e (gw_group w)"; cases "fst (fail_open e (gw_group w))")
    (auto intro: can_moveI [OF goroutine_step.FailNothing] can_moveI [OF goroutine_step.FailOpens])

lemma reply_can_move: "FailReply e tell \<in> set (gw_pcs w) \<Longrightarrow> can_move w (FailReply e tell)"
  using can_moveI [OF goroutine_step.FailReplies [of e tell w True]] by (cases tell) simp_all

lemma holder_can_move:
  assumes "pc \<in> set (gw_pcs w)" "holds_start pc"
  shows "can_move w pc"
proof -
  note moves = branch_can_move fail_can_move reply_can_move can_moveI [OF goroutine_step.Attach] can_moveI [OF goroutine_step.Revalidate]
    can_moveI [OF goroutine_step.Reply] can_moveI [OF goroutine_step.Commit] can_moveI [OF goroutine_step.Announce]
    can_moveI [OF goroutine_step.Drop] can_moveI [OF goroutine_step.DropRemoves [OF _ surjective_pairing]]
    can_moveI [OF goroutine_step.FailResets]
    can_moveI [OF goroutine_step.CloseGroup [OF _ surjective_pairing]] can_moveI [OF goroutine_step.CloseCarriers]
  show ?thesis by (cases pc) (use assms in \<open>auto simp: holds_start_def intro: moves\<close>)
qed

lemma hold_go:
  assumes "pc \<in> set (gw_pcs w)" "gw_pcs w' = gw_pcs w" "sum_list (map hold_rank next) < hold_rank pc"
  shows "hold (go pc next w') < hold w"
  using assms sum_list_map_remove1 [of pc "gw_pcs w" hold_rank] by (simp add: hold_def)

text \<open>Whoever has the lock can go on until it is free, whatever the others do meanwhile.\<close>

lemma lock_comes_free:
  assumes "answer_inv w"
  shows "\<exists>w'. goroutine_step\<^sup>*\<^sup>* w w' \<and> \<not> gw_mu w' \<and> gw_flow_done w' = gw_flow_done w \<and> gw_stopping w' = gw_stopping w"
  using assms
proof (induction "hold w" arbitrary: w rule: less_induct)
  case less
  show ?case
  proof (cases "gw_mu w")
    case True
    then have "filter holds_start (gw_pcs w) \<noteq> []" using less.prems by (auto simp: answer_inv_def opt_def split: option.splits)
    then obtain pc where pc: "pc \<in> set (gw_pcs w)" "holds_start pc" by (auto simp: filter_empty_conv)
    then obtain pcs w' where w': "goroutine_step w (go pc pcs w')" "gw_pcs w' = gw_pcs w" "gw_flow_done w' = gw_flow_done w"
      "gw_stopping w' = gw_stopping w" "sum_list (map hold_rank pcs) < hold_rank pc"
      using holder_can_move [OF pc] unfolding can_move_def by blast
    from less.hyps [OF hold_go [OF pc(1) w'(2,5)] answer_step [OF group_step.Goroutine [OF w'(1)] less.prems]] w' show ?thesis
      by (auto intro: converse_rtranclp_into_rtranclp)
  qed auto
qed

definition gets_told :: "group_world \<Rightarrow> bool" where
  "gets_told w \<longleftrightarrow> (\<exists>w'. goroutine_step\<^sup>*\<^sup>* w w' \<and> answered (gw_replies w'))"

lemma gets_told_step: "goroutine_step w w' \<Longrightarrow> gets_told w' \<Longrightarrow> gets_told w"
  unfolding gets_told_def by (meson converse_rtranclp_into_rtranclp)

definition untold :: "group_world \<Rightarrow> bool" where
  "untold w \<longleftrightarrow> gw_replies w = [] \<and> \<not> gw_mu w \<and> \<not> gw_stopping w \<and> flags (gw_group w) = (False, False, False, False)"

lemma check_is_told:
  assumes "FailCheck e \<in> set (gw_pcs w)" "flags (gw_group w) = (False, False, False, False)" "gw_replies w = []"
  shows "gets_told w"
proof -
  obtain e' gr where fail: "fail_open e (gw_group w) = (Some (e', True), gr)" using assms(2) by (auto simp: fail_open_def flags_def)
  let ?w = "go (FailCheck e) [FailReply e' True] (w\<lparr>gw_group := gr\<rparr>)"
  have "gets_told (go (FailReply e' True) [FailReset] (?w\<lparr>gw_replies := gw_replies ?w @ [Declined (reply_for_error e') True]\<rparr>))"
    unfolding gets_told_def by (intro exI conjI, rule rtranclp.rtrancl_refl) (use reply_for_error_failure [of e'] in \<open>auto simp: answered_def assms(3)\<close>)
  with goroutine_step.FailReplies [of e' True ?w True] have "gets_told ?w" by (auto intro: gets_told_step)
  with goroutine_step.FailOpens [OF assms(1) fail] show ?thesis by (rule gets_told_step)
qed

lemma watcher_tells:
  assumes "untold w"
  shows "FailLock \<in> set (gw_pcs w) \<Longrightarrow> gets_told w" "OpenWatch \<in> set (gw_pcs w) \<Longrightarrow> gets_told w"
    "StartOpenWatch \<in> set (gw_pcs w) \<Longrightarrow> gets_told w" "Assigning \<in> set (gw_pcs w) \<Longrightarrow> gets_told w"
proof -
  have lock: "gets_told v" if "untold v" "FailLock \<in> set (gw_pcs v)" for v
    using that by - (rule gets_told_step [OF goroutine_step.FailLocks], auto simp: untold_def intro: check_is_told)
  have watch: "gets_told v" if "untold v" "OpenWatch \<in> set (gw_pcs v)" for v
    using that by - (rule gets_told_step [OF goroutine_step.OpenTimeout], auto simp: untold_def intro!: lock)
  have start: "gets_told v" if "untold v" "StartOpenWatch \<in> set (gw_pcs v)" for v
    using that by - (rule gets_told_step [OF goroutine_step.OpenWatchStarts], auto simp: untold_def intro!: watch)
  show "FailLock \<in> set (gw_pcs w) \<Longrightarrow> gets_told w" "OpenWatch \<in> set (gw_pcs w) \<Longrightarrow> gets_told w" "StartOpenWatch \<in> set (gw_pcs w) \<Longrightarrow> gets_told w"
    using assms lock watch start by blast+
  show "Assigning \<in> set (gw_pcs w) \<Longrightarrow> gets_told w"
    using assms by - (rule gets_told_step [OF goroutine_step.Assign], auto simp: untold_def intro!: start)
qed

text \<open>
  C17. The SOCKS client is not left without an answer: from every state that can be reached while the flow
  lives and the runtime is not stopping, the goroutines of the group can go on by their own steps, with no
  refresh, no session and no close coming from outside, until the client has been told: the success was
  written, or a failure with a failing code. They need no carrier for it: the goroutine that watches the
  opening, which such a group still has while nothing was told, fails it after its timeout, and the lock
  under which it answers always comes free. A group that is told nothing is therefore one whose flow is
  done or whose runtime stops, since only then it is closed.
\<close>

theorem client_gets_answer:
  assumes "group_reachable paths live w" "\<not> gw_flow_done w" "\<not> gw_stopping w"
  shows "\<exists>w'. goroutine_step\<^sup>*\<^sup>* w w' \<and> answered (gw_replies w')"
proof -
  obtain v where v: "goroutine_step\<^sup>*\<^sup>* w v" "\<not> gw_mu v" "\<not> gw_flow_done v" "\<not> gw_stopping v"
    using lock_comes_free [OF reachable_answers [OF assms(1)]] assms(2,3) by auto
  have r: "group_reachable paths live v" using v(1) assms(1) by induction (auto intro: group_reachable.intros group_step.Goroutine)
  have "\<not> gr_closed (gw_group v)" using reachable_open_still [OF r] v by (simp add: open_still_def)
  have free: "\<forall>pc \<in> set (gw_pcs v). \<not> holds_start pc" and q: "quiet (gw_group v) (gw_replies v) (gw_starts v)"
    using reachable_answers [OF r] v(2) by (auto simp: answer_inv_def told_by_def opt_def filter_empty_conv)
  have no: "FailCheck e \<notin> set (gw_pcs v)" for e using free by (force simp: holds_start_def)
  have "gets_told v"
  proof (cases "gr_committed (gw_group v) \<or> gr_failed (gw_group v)")
    case True
    with q have "answered (gw_replies v)" by (auto simp: quiet_def answered_def split: if_splits)
    then show ?thesis by (auto simp: gets_told_def)
  next
    case False
    then have "untold v" using q v \<open>\<not> gr_closed (gw_group v)\<close> by (auto simp: untold_def flags_def quiet_def split: if_splits)
    with reachable_watched [OF r] no v watcher_tells show ?thesis by (auto simp: watched_def settled_def untold_def flags_def)
  qed
  with v(1) show ?thesis unfolding gets_told_def by (meson rtranclp_trans)
qed

section \<open>Who has a carrier\<close>

lemma lookup_on_slot [simp]: "map_of (gr_slots (on_slot name f gr)) n = (if n = name then map_option f (map_of (gr_slots gr) n) else map_of (gr_slots gr) n)"
proof -
  have "map_of (map (\<lambda>(n, s). (n, if n = name then f s else s)) slots) n =
    (if n = name then map_option f (map_of slots n) else map_of slots n)" for slots
    by (induction slots) auto
  then show ?thesis by (simp add: on_slot_def)
qed

lemma names_on_slot [simp]: "map fst (gr_slots (on_slot name f gr)) = map fst (gr_slots gr)" "gr_closed (on_slot name f gr) = gr_closed gr"
  by (simp_all add: on_slot_def case_prod_beta o_def)

text \<open>The carriers a goroutine is going to close or to install, those it knows to be gone, and those it looks after.\<close>

fun carriers_of :: "group_pc \<Rightarrow> nat set" where
  "carriers_of (StartOpen a old) = set_option old" | "carriers_of (Revalidating a c _ _) = {c}" | "carriers_of (FirstLook a c _ _) = {c}"
| "carriers_of (Replying a c _) = {c}" | "carriers_of (Committing a c _) = {c}" | "carriers_of (SecondLook a c _) = {c}"
| "carriers_of (InstallSlot a c _) = {c}" | "carriers_of (Dropping c) = {c}" | "carriers_of (ClosingCarriers cs) = set cs"
| "carriers_of (ClosingStale cs) = set cs" | "carriers_of _ = {}"

fun gone_of :: "group_pc \<Rightarrow> nat set" where
  "gone_of (CarrierLost a c) = {c}" | "gone_of (DropRemoved a c) = {c}" | "gone_of _ = {}"

fun guards :: "string \<Rightarrow> flow_slot \<Rightarrow> nat \<Rightarrow> group_pc \<Rightarrow> bool" where
  "guards n s c (Announcing a c' _) \<longleftrightarrow> c' = c \<and> at_name a = n \<and> of_attempt a s" | "guards n s c (StartMonitor a c') \<longleftrightarrow> c' = c \<and> at_name a = n \<and> of_attempt a s"
| "guards n s c (Monitoring a c') \<longleftrightarrow> c' = c \<and> at_name a = n \<and> of_attempt a s" | "guards n s c (CarrierLost a c') \<longleftrightarrow> c' = c \<and> at_name a = n \<and> of_attempt a s"
| "guards n s c (DropRemoved a c') \<longleftrightarrow> c' = c \<and> at_name a = n \<and> of_attempt a s" | "guards n s c _ \<longleftrightarrow> False"

fun known_of :: "group_pc \<Rightarrow> nat set" where
  "known_of (Announcing a c _) = {c}" | "known_of (StartMonitor a c) = {c}" | "known_of (Monitoring a c) = {c}"
| "known_of pc = carriers_of pc \<union> gone_of pc"

definition in_slot :: "group \<Rightarrow> nat \<Rightarrow> bool" where
  "in_slot gr c \<longleftrightarrow> (\<exists>n s. map_of (gr_slots gr) n = Some s \<and> sl_carrier s = Some c)"

definition slot_fine :: "group_world \<Rightarrow> string \<Rightarrow> flow_slot \<Rightarrow> bool" where
  "slot_fine w n s \<longleftrightarrow> (sl_in_flight s \<or> gr_closed (gw_group w) \<longrightarrow> sl_carrier s = None) \<and>
     (\<forall>c. sl_carrier s = Some c \<longrightarrow> c < gw_next w \<and> (\<exists>pc \<in> set (gw_pcs w). guards n s c pc))"

definition open_fine :: "group_world \<Rightarrow> nat \<Rightarrow> bool" where
  "open_fine w c \<longleftrightarrow> (c \<in> gw_open w \<longrightarrow> c < gw_next w \<and> (in_slot (gw_group w) c \<or> (\<exists>pc \<in> set (gw_pcs w). c \<in> carriers_of pc)))"

definition pc_fine :: "group_world \<Rightarrow> group_pc \<Rightarrow> bool" where
  "pc_fine w pc \<longleftrightarrow> (\<forall>c \<in> known_of pc. c < gw_next w) \<and> (\<forall>c \<in> gone_of pc. c \<notin> gw_open w)"

definition owned :: "group_world \<Rightarrow> bool" where
  "owned w \<longleftrightarrow> distinct (map fst (gr_slots (gw_group w))) \<and> (\<forall>n s. map_of (gr_slots (gw_group w)) n = Some s \<longrightarrow> slot_fine w n s) \<and>
     (\<forall>c. open_fine w c) \<and> (\<forall>pc \<in> set (gw_pcs w). pc_fine w pc)"

lemma owned_new: "owned (new_group_world paths live)"
  by (simp add: owned_def new_group_world_def new_group_def open_fine_def pc_fine_def)

text \<open>A step that leaves the carriers of the slots and the sessions they belong to as they are.\<close>

definition slot_view :: "flow_slot \<Rightarrow> client_path \<times> nat option \<times> u64 \<times> nat option" where
  "slot_view s = (sl_path s, sl_session s, sl_generation s, sl_carrier s)"

definition same_slots :: "group \<Rightarrow> group \<Rightarrow> bool" where
  "same_slots gr gr' \<longleftrightarrow> map fst (gr_slots gr') = map fst (gr_slots gr) \<and> gr_closed gr' = gr_closed gr \<and>
     (\<forall>n. map_option slot_view (map_of (gr_slots gr') n) = map_option slot_view (map_of (gr_slots gr) n)) \<and>
     (\<forall>n s s'. map_of (gr_slots gr) n = Some s \<longrightarrow> map_of (gr_slots gr') n = Some s' \<longrightarrow> sl_in_flight s' \<longrightarrow> sl_in_flight s)"

lemma same_slots_refl [simp]: "same_slots gr gr" by (simp add: same_slots_def)

lemma same_slots_more [simp]:
  "same_slots gr (gr\<lparr>gr_assigned := b\<rparr>)" "same_slots gr (gr\<lparr>gr_committed := b\<rparr>)" "same_slots gr (gr\<lparr>gr_failed := b\<rparr>)"
  "same_slots gr (gr\<lparr>gr_open_results := rs\<rparr>)"
  by (simp_all add: same_slots_def)

lemma same_slots_on_slot:
  assumes "\<And>s. slot_view (f s) = slot_view s" "\<And>s. sl_in_flight (f s) \<Longrightarrow> sl_in_flight s"
  shows "same_slots gr (on_slot name f gr)"
  using assms by (auto simp: same_slots_def option.map_comp o_def)

lemma same_slots_ops:
  "same_slots gr (finish_open a gr)" "same_slots gr (reject_open a gr)" "same_slots gr (record_open_error e gr)" "same_slots gr (undo_reopen a i gr)"
  "plan_reopen a r x d offset gr = (wait, gr') \<Longrightarrow> same_slots gr gr'" "end_reopen_wait a x d gr = (again, gr') \<Longrightarrow> same_slots gr gr'"
  "fail_open e gr = (answer, gr') \<Longrightarrow> same_slots gr gr'"
  by (auto simp: finish_open_def reject_open_def record_open_error_def undo_reopen_def plan_reopen_def end_reopen_wait_def fail_open_def
      slot_view_def Let_def intro!: same_slots_on_slot split: if_splits option.splits go_error.splits)

lemma same_slots_lookup:
  assumes "same_slots gr gr'" "map_of (gr_slots gr') n = Some s'"
  shows "\<exists>s. map_of (gr_slots gr) n = Some s \<and> slot_view s' = slot_view s \<and> (sl_in_flight s' \<longrightarrow> sl_in_flight s)"
proof -
  have "map_option slot_view (map_of (gr_slots gr') n) = map_option slot_view (map_of (gr_slots gr) n)" using assms(1) by (simp add: same_slots_def)
  with assms show ?thesis by (cases "map_of (gr_slots gr) n") (auto simp: same_slots_def)
qed

lemma same_slots_in_slot: "same_slots gr gr' \<Longrightarrow> in_slot gr c \<Longrightarrow> in_slot gr' c"
proof -
  assume same: "same_slots gr gr'" and "in_slot gr c"
  then obtain n s where s: "map_of (gr_slots gr) n = Some s" "sl_carrier s = Some c" by (auto simp: in_slot_def)
  have "map_option slot_view (map_of (gr_slots gr') n) = map_option slot_view (map_of (gr_slots gr) n)" using same by (simp add: same_slots_def)
  with s show "in_slot gr' c" by (cases "map_of (gr_slots gr') n") (auto simp: in_slot_def slot_view_def)
qed

lemma guards_view: "slot_view s' = slot_view s \<Longrightarrow> guards n s' c pc = guards n s c pc"
  by (cases pc) (simp_all add: slot_view_def of_attempt_def)

text \<open>A step of a goroutine, by what it hands on.\<close>

lemma heir:
  assumes "\<exists>pc' \<in> set pcs. P pc'" "P pc \<Longrightarrow> \<exists>pc' \<in> set next. P pc'"
  shows "\<exists>pc' \<in> set (next @ remove1 pc pcs). P pc'"
proof -
  obtain pc' where "pc' \<in> set pcs" "P pc'" using assms(1) by blast
  with assms(2) show ?thesis by (cases "pc' = pc") auto
qed

lemma owned_group:
  assumes "owned w" "pc \<in> set (gw_pcs w)" "gw_pcs w' = gw_pcs w" "gw_next w' = gw_next w" "gw_open w' \<subseteq> gw_open w"
    and "distinct (map fst (gr_slots (gw_group w')))"
    and "\<And>n s. map_of (gr_slots (gw_group w')) n = Some s \<Longrightarrow> slot_fine (go pc next w') n s"
    and "\<And>c. c \<in> gw_open w' \<Longrightarrow> in_slot (gw_group w) c \<Longrightarrow> in_slot (gw_group w') c \<or> (\<exists>pc' \<in> set next. c \<in> carriers_of pc')"
    and "\<And>c. c \<in> carriers_of pc \<Longrightarrow> c \<in> gw_open w' \<Longrightarrow> in_slot (gw_group w') c \<or> (\<exists>pc' \<in> set next. c \<in> carriers_of pc')"
    and "\<And>pc'. pc' \<in> set next \<Longrightarrow> pc_fine w pc \<Longrightarrow> pc_fine w' pc'"
  shows "owned (go pc next w')"
proof -
  have "open_fine (go pc next w') c" for c
  proof -
    have "open_fine w c" using assms(1) by (simp add: owned_def)
    then show ?thesis
      using assms(3-5) assms(8,9) [of c] heir [of "gw_pcs w" "\<lambda>pc. c \<in> carriers_of pc" pc "next"] unfolding open_fine_def by auto
  qed
  moreover have "pc_fine (go pc next w') pc'" if "pc' \<in> set next \<or> pc' \<in> set (gw_pcs w)" for pc'
    using that assms(1,2,4,5,10) by (auto simp: owned_def pc_fine_def)
  ultimately show ?thesis using assms(3,6,7) by (auto simp: owned_def dest: subsetD [OF set_remove1_subset])
qed

lemma slot_fine_go:
  assumes "slot_fine w n s" "slot_view s' = slot_view s" "sl_in_flight s' \<Longrightarrow> sl_carrier s = None" "gw_pcs w' = gw_pcs w" "gw_next w' = gw_next w"
    and "gr_closed (gw_group w') \<Longrightarrow> sl_carrier s = None" "\<And>c. guards n s c pc \<Longrightarrow> \<exists>pc' \<in> set next. guards n s c pc'"
  shows "slot_fine (go pc next w') n s'"
  using assms heir [OF _ assms(7), of "gw_pcs w"] unfolding slot_fine_def by (auto simp: guards_view [OF assms(2)] slot_view_def)

lemma owned_go:
  assumes "owned w" "pc \<in> set (gw_pcs w)" "gw_pcs w' = gw_pcs w" "same_slots (gw_group w) (gw_group w')" "gw_next w' = gw_next w"
    and "gw_open w' \<subseteq> gw_open w" "\<And>c. c \<in> carriers_of pc \<Longrightarrow> c \<in> gw_open w' \<Longrightarrow> \<exists>pc' \<in> set next. c \<in> carriers_of pc'"
    and "\<And>n s c. guards n s c pc \<Longrightarrow> \<exists>pc' \<in> set next. guards n s c pc'"
    and "\<And>pc'. pc' \<in> set next \<Longrightarrow> pc_fine w pc \<Longrightarrow> pc_fine w' pc'"
  shows "owned (go pc next w')"
proof (rule owned_group [OF assms(1-3,5,6)])
  show "distinct (map fst (gr_slots (gw_group w')))" using assms(1,4) by (simp add: owned_def same_slots_def)
next
  fix n s'
  assume "map_of (gr_slots (gw_group w')) n = Some s'"
  then obtain s where s: "map_of (gr_slots (gw_group w)) n = Some s" "slot_view s' = slot_view s" "sl_in_flight s' \<longrightarrow> sl_in_flight s"
    using same_slots_lookup [OF assms(4)] by blast
  then have "slot_fine w n s" using assms(1) by (simp add: owned_def)
  with s assms(3,4,5,8) show "slot_fine (go pc next w') n s'" by (intro slot_fine_go) (auto simp: slot_fine_def same_slots_def)
qed (use assms same_slots_in_slot [OF assms(4)] in auto)

section \<open>Steps that move carriers\<close>

lemma slot_fine_other:
  assumes "slot_fine w n s" "gw_pcs w' = gw_pcs w" "gw_next w' = gw_next w" "gr_closed (gw_group w') \<Longrightarrow> gr_closed (gw_group w)"
    and "\<And>c. sl_carrier s = Some c \<Longrightarrow> \<not> guards n s c pc"
  shows "slot_fine (go pc next w') n s"
  using assms heir [of "gw_pcs w" "guards n s (the (sl_carrier s))" pc "next"] by (auto simp: slot_fine_def)

lemma in_slot_on_slot:
  assumes "in_slot gr c" "\<And>s. map_of (gr_slots gr) name = Some s \<Longrightarrow> sl_carrier s \<noteq> Some c"
  shows "in_slot (on_slot name f gr) c"
proof -
  obtain n s where "map_of (gr_slots gr) n = Some s" "sl_carrier s = Some c" using assms(1) by (auto simp: in_slot_def)
  moreover from this assms(2) have "n \<noteq> name" by auto
  ultimately show ?thesis unfolding in_slot_def by (intro exI [of _ n]) simp
qed

lemma owned_slot: "owned w \<Longrightarrow> map_of (gr_slots (gw_group w)) n = Some s \<Longrightarrow> slot_fine w n s"
  by (simp add: owned_def)

lemma slot_ofD: "slot_of a gr = Some s \<Longrightarrow> map_of (gr_slots gr) (at_name a) = Some s \<and> of_attempt a s"
  by (auto simp: slot_of_def split: option.splits if_splits)

lemma begin_openD:
  assumes "begin_open a d gr = (old, gr')"
  shows "old = None \<and> gr' = gr \<or> (\<exists>s f. map_of (gr_slots gr) (at_name a) = Some s \<and> old = Some (sl_carrier s) \<and> gr' = on_slot (at_name a) f gr \<and>
    (\<forall>s. sl_carrier (f s) = None) \<and> \<not> gr_closed gr)"
  using assms by (auto simp: begin_open_def Let_def split: if_splits option.splits)

lemma owned_decide:
  assumes "owned w" "Deciding a \<in> set (gw_pcs w)" "begin_open a (gw_flow_done w) (gw_group w) = (old, gr)"
  shows "owned (go (Deciding a) (case old of None \<Rightarrow> [] | Some c \<Rightarrow> [StartOpen a c]) (w\<lparr>gw_group := gr\<rparr>))"
  using begin_openD [OF assms(3)]
proof (elim disjE conjE exE)
  assume "old = None" "gr = gw_group w"
  then show ?thesis using assms(1,2) by (auto intro!: owned_go)
next
  fix s f
  assume s: "map_of (gr_slots (gw_group w)) (at_name a) = Some s" and old: "old = Some (sl_carrier s)" and gr: "gr = on_slot (at_name a) f (gw_group w)"
    and f: "\<forall>s. sl_carrier (f s) = None" and "\<not> gr_closed (gw_group w)"
  show ?thesis unfolding old gr option.case
  proof (rule owned_group [OF assms(1,2)])
    fix n t
    assume "map_of (gr_slots (gw_group (w\<lparr>gw_group := on_slot (at_name a) f (gw_group w)\<rparr>))) n = Some t"
    then show "slot_fine (go (Deciding a) [StartOpen a (sl_carrier s)] (w\<lparr>gw_group := on_slot (at_name a) f (gw_group w)\<rparr>)) n t"
    proof (cases "n = at_name a")
      case False
      then show ?thesis using \<open>map_of _ n = Some t\<close> owned_slot [OF assms(1), of n t] by (intro slot_fine_other [of w n t]) auto
    qed (use s f in \<open>auto simp: slot_fine_def\<close>)
  next
    fix c
    assume "in_slot (gw_group w) c"
    then show "in_slot (gw_group (w\<lparr>gw_group := on_slot (at_name a) f (gw_group w)\<rparr>)) c \<or> (\<exists>pc' \<in> set [StartOpen a (sl_carrier s)]. c \<in> carriers_of pc')"
      using s in_slot_on_slot [of "gw_group w" c "at_name a" f] by (cases "sl_carrier s = Some c") auto
  qed (use s assms(1) owned_slot [OF assms(1) s] in \<open>auto simp: owned_def pc_fine_def slot_fine_def\<close>)
qed

lemma of_attempt_view: "slot_view s' = slot_view s \<Longrightarrow> of_attempt a s' = of_attempt a s" by (simp add: slot_view_def of_attempt_def)

lemma owned_install:
  assumes "owned w" "InstallSlot a c first \<in> set (gw_pcs w)" "valid_open_attempt a (gw_group w)"
  shows "owned (go (InstallSlot a c first) [Announcing a c first] (w\<lparr>gw_group := install_carrier a c first (gw_group w)\<rparr>))"
proof -
  obtain s where s: "map_of (gr_slots (gw_group w)) (at_name a) = Some s" "of_attempt a s" "sl_in_flight s" "\<not> gr_closed (gw_group w)"
    using assms(3) by (auto simp: valid_open_attempt_def dest: slot_ofD split: option.splits)
  then have empty: "sl_carrier s = None" using owned_slot [OF assms(1)] by (auto simp: slot_fine_def)
  have lookup: "map_of (gr_slots (install_carrier a c first (gw_group w))) n =
      (if n = at_name a then map_option (\<lambda>s. s\<lparr>sl_carrier := Some c, sl_in_flight := False, sl_rejected := False\<rparr>) (map_of (gr_slots (gw_group w)) n)
       else map_of (gr_slots (gw_group w)) n)"
    "map fst (gr_slots (install_carrier a c first (gw_group w))) = map fst (gr_slots (gw_group w))"
    "gr_closed (install_carrier a c first (gw_group w)) = gr_closed (gw_group w)" for n
    by (simp_all add: install_carrier_def Let_def)
  have c: "c < gw_next w" using assms(1,2) by (auto simp: owned_def pc_fine_def)
  show ?thesis
  proof (rule owned_group [OF assms(1,2)])
    fix n t
    assume t: "map_of (gr_slots (gw_group (w\<lparr>gw_group := install_carrier a c first (gw_group w)\<rparr>))) n = Some t"
    show "slot_fine (go (InstallSlot a c first) [Announcing a c first] (w\<lparr>gw_group := install_carrier a c first (gw_group w)\<rparr>)) n t"
    proof (cases "n = at_name a")
      case True
      with t s c show ?thesis by (auto simp: lookup slot_fine_def of_attempt_def)
    next
      case False
      with t s(4) owned_slot [OF assms(1), of n t] show ?thesis by (auto simp: lookup intro!: slot_fine_other [of w n t])
    qed
  next
    fix c'
    assume "in_slot (gw_group w) c'"
    then have "in_slot (on_slot (at_name a) (\<lambda>s. s\<lparr>sl_carrier := Some c, sl_in_flight := False, sl_rejected := False\<rparr>) (gw_group w)) c'"
      using s empty by (intro in_slot_on_slot) auto
    then show "in_slot (gw_group (w\<lparr>gw_group := install_carrier a c first (gw_group w)\<rparr>)) c' \<or> (\<exists>pc' \<in> set [Announcing a c first]. c' \<in> carriers_of pc')"
      by (simp add: in_slot_def install_carrier_def Let_def)
  qed (use s c assms(1) in \<open>auto simp: lookup owned_def in_slot_def pc_fine_def\<close>)
qed

lemma remove_carrierD:
  assumes "remove_carrier a c gr = (removed, gr')"
  shows "\<not> removed \<and> gr' = gr \<and> (\<forall>s. map_of (gr_slots gr) (at_name a) = Some s \<longrightarrow> of_attempt a s \<longrightarrow> sl_carrier s \<noteq> Some c) \<or>
    removed \<and> gr' = on_slot (at_name a) (\<lambda>s. s\<lparr>sl_carrier := None\<rparr>) gr \<and> (\<exists>s. map_of (gr_slots gr) (at_name a) = Some s \<and> sl_carrier s = Some c)"
  using assms by (auto simp: remove_carrier_def slot_of_def split: option.splits if_splits)

lemma owned_remove:
  assumes "owned w" "pc \<in> set (gw_pcs w)" "pc = CarrierLost a c \<or> pc = DropRemoved a c" "remove_carrier a c (gw_group w) = (removed, gr)"
    and "\<And>pc'. pc' \<in> set next \<Longrightarrow> known_of pc' = {} \<and> gone_of pc' = {}"
  shows "owned (go pc next (w\<lparr>gw_group := gr, gw_mu := b\<rparr>))" "owned (go pc next (w\<lparr>gw_group := gr\<rparr>))"
proof -
  have gone: "c \<notin> gw_open w" using assms(1-3) by (auto simp: owned_def pc_fine_def)
  have *: "owned (go pc next w')" if w': "gw_group w' = gr" "gw_pcs w' = gw_pcs w" "gw_next w' = gw_next w" "gw_open w' = gw_open w" for w'
  proof (rule owned_group [OF assms(1,2) w'(2,3)])
    fix n t
    assume t: "map_of (gr_slots (gw_group w')) n = Some t"
    show "slot_fine (go pc next w') n t"
    proof (cases "removed \<and> n = at_name a")
      case True
      with t remove_carrierD [OF assms(4)] w'(1) show ?thesis by (auto simp: slot_fine_def)
    next
      case False
      with t remove_carrierD [OF assms(4)] assms(3) w' owned_slot [OF assms(1), of n t] show ?thesis
        by (intro slot_fine_other [of w]) auto
    qed
  next
    fix c'
    assume "c' \<in> gw_open w'" "in_slot (gw_group w) c'"
    with gone w' remove_carrierD [OF assms(4)] show "in_slot (gw_group w') c' \<or> (\<exists>pc' \<in> set next. c' \<in> carriers_of pc')"
      by (auto intro!: disjI1 in_slot_on_slot)
  qed (use remove_carrierD [OF assms(4)] assms(1,3,5) w' in \<open>auto simp: owned_def pc_fine_def\<close>)
  show "owned (go pc next (w\<lparr>gw_group := gr, gw_mu := b\<rparr>))" "owned (go pc next (w\<lparr>gw_group := gr\<rparr>))" by (rule *; simp)+
qed

lemma slot_carriers_iff: "distinct (map fst slots) \<Longrightarrow> c \<in> set (slot_carriers slots) \<longleftrightarrow> (\<exists>n s. map_of slots n = Some s \<and> sl_carrier s = Some c)"
  by (force simp: slot_carriers_def List.map_filter_def)

lemma lookup_filter: "distinct (map fst slots) \<Longrightarrow> map_of (filter P slots) n = (case map_of slots n of None \<Rightarrow> None | Some s \<Rightarrow> if P (n, s) then Some s else None)"
proof (induction slots)
  case (Cons x slots)
  then show ?case using map_of_SomeD [of slots "fst x"] by (cases x) (auto split: option.split, force)
qed simp

lemma new_slot_carrier [simp]: "sl_carrier (new_slot i path) = None"
  by (simp add: new_slot_def)

lemma add_slots_lookup:
  "(map_of (gr_slots gr) n = Some s \<longrightarrow> map_of (gr_slots (add_slots paths gr)) n = Some s) \<and>
    (map_of (gr_slots (add_slots paths gr)) n = Some s \<longrightarrow> map_of (gr_slots gr) n = Some s \<or> sl_carrier s = None) \<and>
    (distinct (map fst (gr_slots gr)) \<longrightarrow> distinct (map fst (gr_slots (add_slots paths gr)))) \<and> gr_closed (add_slots paths gr) = gr_closed gr"
proof (induction paths gr rule: add_slots.induct)
  case (2 name path paths gr)
  show ?case
  proof (cases "map_of (gr_slots gr) name")
    case None
    moreover from this have "name \<notin> fst ` set (gr_slots gr)" by (simp add: map_of_eq_None_iff)
    ultimately show ?thesis using 2(1) by (cases "n = name") auto
  next
    case (Some t)
    then show ?thesis using 2(2) by simp
  qed
qed simp

lemma owned_close:
  assumes "owned w" "ClosingGroup \<in> set (gw_pcs w)" "close_group (gw_group w) = (cs, gr)"
  shows "owned (go ClosingGroup [ClosingCarriers cs] (w\<lparr>gw_group := gr\<rparr>))"
proof (cases "gr_closed (gw_group w)")
  case True
  with assms show ?thesis by (auto simp: close_group_def pc_fine_def intro!: owned_go)
next
  case False
  have d: "distinct (map fst (gr_slots (gw_group w)))" using assms(1) by (simp add: owned_def)
  have cs: "cs = slot_carriers (gr_slots (gw_group w))" and gr: "gr_slots gr = map (\<lambda>(n, s). (n, s\<lparr>sl_carrier := None\<rparr>)) (gr_slots (gw_group w))"
    using assms(3) False by (auto simp: close_group_def)
  show ?thesis
  proof (rule owned_group [OF assms(1,2)])
    fix n t
    assume "map_of (gr_slots (gw_group (w\<lparr>gw_group := gr\<rparr>))) n = Some t"
    then have "sl_carrier t = None" by (auto simp: gr dest!: map_of_SomeD)
    then show "slot_fine (go ClosingGroup [ClosingCarriers cs] (w\<lparr>gw_group := gr\<rparr>)) n t" by (simp add: slot_fine_def)
  qed (use d owned_slot [OF assms(1)] in \<open>auto simp: gr cs slot_carriers_iff in_slot_def pc_fine_def slot_fine_def o_def case_prod_beta\<close>)
qed

lemma owned_sync:
  assumes "owned w" "Syncing paths \<in> set (gw_pcs w)" "sync_paths paths (gw_group w) = (stale, gr)"
  shows "owned (go (Syncing paths) [ClosingStale stale] (w\<lparr>gw_group := gr\<rparr>))"
proof -
  let ?slots = "gr_slots (gw_group w)"
  have d: "distinct (map fst ?slots)" using assms(1) by (simp add: owned_def)
  then have d': "distinct (map fst (filter (slot_kept paths) ?slots))" "distinct (map fst (filter (\<lambda>x. \<not> slot_kept paths x) ?slots))"
    by (simp_all add: distinct_map_filter)
  have stale: "stale = slot_carriers (filter (\<lambda>x. \<not> slot_kept paths x) ?slots)"
    and gr: "gr = add_slots paths ((gw_group w)\<lparr>gr_slots := filter (slot_kept paths) ?slots\<rparr>)" using assms(3) by (auto simp: sync_paths_def)
  show ?thesis
  proof (rule owned_group [OF assms(1,2)])
    fix n t
    assume "map_of (gr_slots (gw_group (w\<lparr>gw_group := gr\<rparr>))) n = Some t"
    then have "map_of ?slots n = Some t \<or> sl_carrier t = None"
      using add_slots_lookup d by (fastforce simp: gr lookup_filter split: option.splits if_splits)
    then show "slot_fine (go (Syncing paths) [ClosingStale stale] (w\<lparr>gw_group := gr\<rparr>)) n t"
    proof
      assume "map_of ?slots n = Some t"
      then show ?thesis using owned_slot [OF assms(1)] by (intro slot_fine_other [of w]) (simp_all add: gr add_slots_lookup)
    qed (simp add: slot_fine_def)
  next
    fix c
    assume "in_slot (gw_group w) c"
    then obtain n s where s: "map_of ?slots n = Some s" "sl_carrier s = Some c" by (auto simp: in_slot_def)
    show "in_slot (gw_group (w\<lparr>gw_group := gr\<rparr>)) c \<or> (\<exists>pc' \<in> set [ClosingStale stale]. c \<in> carriers_of pc')"
    proof (cases "slot_kept paths (n, s)")
      case True
      with s d have "map_of (gr_slots gr) n = Some s" by (simp add: gr add_slots_lookup lookup_filter)
      with s show ?thesis by (auto simp: in_slot_def)
    next
      case False
      with s d have "map_of (filter (\<lambda>x. \<not> slot_kept paths x) ?slots) n = Some s" by (simp add: lookup_filter)
      with s(2) d'(2) show ?thesis by (auto simp: stale slot_carriers_iff)
    qed
  next
    fix pc'
    assume "pc' \<in> set [ClosingStale stale]"
    moreover have "c < gw_next w" if c: "c \<in> set stale" for c
    proof -
      obtain n s where "map_of (filter (\<lambda>x. \<not> slot_kept paths x) ?slots) n = Some s" "sl_carrier s = Some c"
        using iffD1 [OF slot_carriers_iff [OF d'(2)], of c] c unfolding stale by blast
      with d owned_slot [OF assms(1), of n s] show ?thesis by (auto simp: lookup_filter slot_fine_def split: option.splits if_splits)
    qed
    ultimately show "pc_fine (w\<lparr>gw_group := gr\<rparr>) pc'" by (simp add: pc_fine_def)
  qed (simp_all add: gr add_slots_lookup d'(1))
qed

lemma owned_attach:
  assumes "owned w" "AttachFlow a first commit \<in> set (gw_pcs w)"
  shows "owned (go (AttachFlow a first commit) [Revalidating a (gw_next w) first commit]
    (w\<lparr>gw_open := insert (gw_next w) (gw_open w), gw_next := gw_next w + 1\<rparr>))" (is "owned ?w")
proof -
  have "slot_fine ?w n s" if "map_of (gr_slots (gw_group w)) n = Some s" for n s
    using owned_slot [OF assms(1) that] heir [of "gw_pcs w" "guards n s (the (sl_carrier s))" "AttachFlow a first commit" "[]"]
    by (auto simp: slot_fine_def)
  moreover have "open_fine ?w c" for c
  proof -
    have "open_fine w c" using assms(1) by (simp add: owned_def)
    then show ?thesis using heir [of "gw_pcs w" "\<lambda>pc. c \<in> carriers_of pc" "AttachFlow a first commit" "[]"] by (auto simp: open_fine_def)
  qed
  moreover have "pc_fine ?w pc" if "pc \<in> set (gw_pcs w)" for pc
    using assms(1) that by (cases pc) (force simp: owned_def pc_fine_def)+
  moreover have "pc_fine ?w (Revalidating a (gw_next w) first commit)" by (simp add: pc_fine_def)
  ultimately show ?thesis using assms(1) by (auto simp: owned_def dest: subsetD [OF set_remove1_subset])
qed

lemma owned_env:
  assumes "owned w"
  shows "gone_of pc = {} \<Longrightarrow> known_of pc = {} \<Longrightarrow> owned (w\<lparr>gw_pcs := pc # gw_pcs w\<rparr>)" "cs \<subseteq> gw_open w \<Longrightarrow> owned (w\<lparr>gw_open := cs\<rparr>)"
    "owned (w\<lparr>gw_live := live\<rparr>)" "owned (w\<lparr>gw_dead := dead\<rparr>)" "owned (w\<lparr>gw_flow_done := b\<rparr>)" "owned (w\<lparr>gw_stopping := b\<rparr>)"
  using assms unfolding owned_def slot_fine_def open_fine_def pc_fine_def by auto

lemma owned_step:
  assumes "group_step w w'" "owned w"
  shows "owned w'"
  using assms(1)
proof (cases rule: group_step.cases)
  case Goroutine
  then show ?thesis
  proof (cases rule: goroutine_step.cases)
    case (Decide a old gr)
    then show ?thesis using owned_decide [OF assms(2)] by simp
  next
    case (InstallDone a c first)
    then show ?thesis using owned_install [OF assms(2)] by simp
  next
    case (DropRemoves a c removed gr)
    then show ?thesis using owned_remove(1) [OF assms(2), of "DropRemoved a c" a c removed gr "[]" False] by simp
  next
    case (CarrierRemoved a c removed gr lasted)
    then show ?thesis using owned_remove(2) [OF assms(2), of "CarrierLost a c" a c removed gr "if removed then [Reopening a lasted] else []"] by simp
  next
    case (CloseGroup cs gr)
    then show ?thesis using owned_close [OF assms(2)] by simp
  next
    case (SyncPaths paths stale gr)
    then show ?thesis using owned_sync [OF assms(2)] by simp
  next
    case (Attach a first commit)
    then show ?thesis using owned_attach [OF assms(2)] by simp
  qed (auto intro!: owned_go [OF assms(2)] owned_env [OF assms(2)] dest!: same_slots_ops(5-7) simp: same_slots_ops(1-4) pc_fine_def split: option.splits if_splits)
next
  case Around
  then show ?thesis
  proof (cases rule: group_env.cases)
    case (SessionUp sess name path g)
    then show ?thesis using owned_env(1) [OF owned_env(3) [OF assms(2), of "(gw_live w)(name \<mapsto> (path, sess, g))"], of "Looking name"] by simp
  qed (auto intro!: owned_env [OF assms(2)])
qed

lemma reachable_owned:
  assumes "group_reachable paths live w"
  shows "owned w"
  using assms by induction (auto intro: owned_new owned_step)

text \<open>
  C21. No virtual carrier is lost. A carrier that is open belongs to a slot or to a goroutine that is
  going to install or to close it; a carrier in a slot has a goroutine that notices its end and will
  clear exactly that slot; and when a group is closed and its goroutines have returned none is open.
\<close>

theorem carriers_have_owners:
  assumes "group_reachable paths live w"
  shows "(\<forall>c \<in> gw_open w. (\<exists>n s. map_of (gr_slots (gw_group w)) n = Some s \<and> sl_carrier s = Some c) \<or> (\<exists>pc \<in> set (gw_pcs w). c \<in> carriers_of pc)) \<and>
    (\<forall>n s c. map_of (gr_slots (gw_group w)) n = Some s \<longrightarrow> sl_carrier s = Some c \<longrightarrow>
       \<not> sl_in_flight s \<and> \<not> gr_closed (gw_group w) \<and> (\<exists>pc \<in> set (gw_pcs w). guards n s c pc)) \<and>
    (gr_closed (gw_group w) \<and> gw_pcs w = [] \<longrightarrow> gw_open w = {})"
proof -
  note o = reachable_owned [OF assms]
  have 1: "(\<exists>n s. map_of (gr_slots (gw_group w)) n = Some s \<and> sl_carrier s = Some c) \<or> (\<exists>pc \<in> set (gw_pcs w). c \<in> carriers_of pc)"
    if "c \<in> gw_open w" for c using o that unfolding owned_def open_fine_def in_slot_def by blast
  have 2: "\<not> sl_in_flight s \<and> \<not> gr_closed (gw_group w) \<and> (\<exists>pc \<in> set (gw_pcs w). guards n s c pc)"
    if "map_of (gr_slots (gw_group w)) n = Some s" "sl_carrier s = Some c" for n s c
    using owned_slot [OF o that(1)] that(2) by (auto simp: slot_fine_def)
  from 1 2 have "gw_open w = {}" if "gr_closed (gw_group w)" "gw_pcs w = []" using that by fastforce
  with 1 2 show ?thesis by blast
qed

section \<open>A run\<close>

definition sample_path :: client_path where
  "sample_path = \<lparr>cp_index = 1, cp_address = ''10.0.0.2'', cp_destination = ''192.0.2.1:59501''\<rparr>"

definition sample_paths :: "(string \<times> client_path) list" where "sample_paths = [(''eth0'', sample_path)]"

definition sample_live :: "string \<Rightarrow> (client_path \<times> nat \<times> u64) option" where "sample_live = [''eth0'' \<mapsto> (sample_path, 1, 1)]"

definition sample_attempt :: attempt where
  "sample_attempt = \<lparr>at_name = ''eth0'', at_path = sample_path, at_session = 1, at_generation = 1\<rparr>"

abbreviation sample_reaches :: "group_world \<Rightarrow> bool" where "sample_reaches \<equiv> group_reachable sample_paths sample_live"

lemma step_eq: "group_step w w' \<Longrightarrow> w' = w'' \<Longrightarrow> group_step w w''" by simp

lemma sample_next: "sample_reaches w \<Longrightarrow> group_step w w' \<Longrightarrow> sample_reaches w'" by (rule group_reachable.intros)

definition sample_slot :: "bool \<Rightarrow> nat option \<Rightarrow> flow_slot" where
  "sample_slot fresh c = (if fresh then new_slot 0 sample_path else (new_slot 0 sample_path)\<lparr>sl_session := Some 1, sl_generation := 1, sl_in_flight := c = None, sl_carrier := c\<rparr>)"

definition sample_group :: "(string \<times> flow_slot) list \<Rightarrow> bool \<Rightarrow> bool \<Rightarrow> group" where
  "sample_group slots committed started = \<lparr>gr_slots = slots, gr_next_slot = length slots, gr_assigned = True, gr_started = started,
     gr_committed = committed, gr_open_results = [], gr_failed = False, gr_closed = False\<rparr>"

definition sample_world :: "group \<Rightarrow> group_pc list \<Rightarrow> bool \<Rightarrow> nat set \<Rightarrow> nat \<Rightarrow> client_reply list \<Rightarrow> group_world" where
  "sample_world gr pcs mu opened_cs next_c replies = \<lparr>gw_group = gr, gw_pcs = pcs @ [ReconcileAll, StartOpenWatch], gw_mu = mu, gw_flow_done = False, gw_open = opened_cs,
     gw_next = next_c, gw_live = sample_live, gw_dead = {}, gw_stopping = False, gw_replies = replies, gw_starts = 0\<rparr>"

lemmas sample_simps = sample_world_def sample_group_def sample_slot_def sample_attempt_def sample_live_def go_def
  new_slot_def slot_of_def of_attempt_def valid_open_attempt_def on_slot_def lookup_path_def reconcile_path_def

lemma sample_started: "sample_reaches (sample_world (sample_group [(''eth0'', sample_slot True None)] False False) [ReconcileAll] False {} 0 [])"
proof -
  have "sample_reaches (new_group_world sample_paths sample_live)" by (rule group_reachable.intros)
  note r = sample_next [OF sample_next [OF sample_next [OF this group_step.Goroutine [OF goroutine_step.Assign]] group_step.Goroutine [OF goroutine_step.SyncPaths [OF _ surjective_pairing]]]
    group_step.Goroutine [OF goroutine_step.CloseStale [where cs = "[]"]]]
  show ?thesis using r by (simp add: new_group_world_def new_group_def sync_paths_def slot_carriers_def List.map_filter_def sample_paths_def sample_simps)
qed

lemma sample_attached: "sample_reaches (sample_world (sample_group [(''eth0'', sample_slot False (Some 0))] True True) [Announcing sample_attempt 0 True] True {0} 1 [Granted True])"
proof -
  have "sample_reaches (sample_world (sample_group [(''eth0'', sample_slot True None)] False False) [Looking ''eth0''] False {} 0 [])"
    by (rule sample_next [OF sample_started]) (rule step_eq, rule group_step.Goroutine, rule goroutine_step.ReconcilesAll, auto simp: sample_simps)
  then have "sample_reaches (sample_world (sample_group [(''eth0'', sample_slot True None)] False False) [LookingUp ''eth0'' sample_path] False {} 0 [])"
    by (rule sample_next) (rule step_eq, rule group_step.Goroutine, rule goroutine_step.Look, auto simp: sample_simps)
  then have "sample_reaches (sample_world (sample_group [(''eth0'', sample_slot True None)] False False) [Deciding sample_attempt] False {} 0 [])"
    by (rule sample_next) (rule step_eq, rule group_step.Goroutine, rule goroutine_step.LookUp, auto simp: sample_simps)
  then have "sample_reaches (sample_world (sample_group [(''eth0'', sample_slot False None)] False False) [StartOpen sample_attempt None] False {} 0 [])"
    by (rule sample_next) (rule step_eq, rule group_step.Goroutine, rule goroutine_step.Decide [OF _ surjective_pairing], auto simp: begin_open_def sample_simps)
  then have "sample_reaches (sample_world (sample_group [(''eth0'', sample_slot False None)] False False) [OpenStart sample_attempt] False {} 0 [])"
    by (rule sample_next) (rule step_eq, rule group_step.Goroutine, rule goroutine_step.OpenWorker, auto simp: sample_simps)
  then have "sample_reaches (sample_world (sample_group [(''eth0'', sample_slot False None)] False False) [Opening sample_attempt] False {} 0 [])"
    by (rule sample_next) (rule step_eq, rule group_step.Goroutine, rule goroutine_step.OpenStarts, auto simp: sample_simps)
  then have "sample_reaches (sample_world (sample_group [(''eth0'', sample_slot False None)] False False) [AttachLock sample_attempt] False {} 0 [])"
    by (rule sample_next) (rule step_eq, rule group_step.Goroutine, rule goroutine_step.Opened, auto simp: sample_simps)
  then have "sample_reaches (sample_world (sample_group [(''eth0'', sample_slot False None)] False False) [Checking sample_attempt] True {} 0 [])"
    by (rule sample_next) (rule step_eq, rule group_step.Goroutine, rule goroutine_step.AttachLocks, auto simp: sample_simps)
  then have "sample_reaches (sample_world (sample_group [(''eth0'', sample_slot False None)] False False) [AttachFlow sample_attempt True True] True {} 0 [])"
    by (rule sample_next) (rule step_eq, rule group_step.Goroutine, rule goroutine_step.Check, auto simp: sample_simps)
  then have "sample_reaches (sample_world (sample_group [(''eth0'', sample_slot False None)] False False) [Revalidating sample_attempt 0 True True] True {0} 1 [])"
    by (rule sample_next) (rule step_eq, rule group_step.Goroutine, rule goroutine_step.Attach, auto simp: sample_simps)
  then have "sample_reaches (sample_world (sample_group [(''eth0'', sample_slot False None)] False False) [FirstLook sample_attempt 0 True True] True {0} 1 [])"
    by (rule sample_next) (rule step_eq, rule group_step.Goroutine, rule goroutine_step.Revalidate, auto simp: sample_simps)
  then have "sample_reaches (sample_world (sample_group [(''eth0'', sample_slot False None)] False False) [Replying sample_attempt 0 True] True {0} 1 [])"
    by (rule sample_next) (rule step_eq, rule group_step.Goroutine, rule goroutine_step.FirstLooks, auto simp: sample_simps)
  then have "sample_reaches (sample_world (sample_group [(''eth0'', sample_slot False None)] False False) [Committing sample_attempt 0 True] True {0} 1 [Granted True])"
    by (rule sample_next) (rule step_eq, rule group_step.Goroutine, rule goroutine_step.Reply, auto simp: sample_simps)
  then have "sample_reaches (sample_world (sample_group [(''eth0'', sample_slot False None)] True False) [SecondLook sample_attempt 0 True] True {0} 1 [Granted True])"
    by (rule sample_next) (rule step_eq, rule group_step.Goroutine, rule goroutine_step.Commit, auto simp: sample_simps)
  then have "sample_reaches (sample_world (sample_group [(''eth0'', sample_slot False None)] True False) [InstallSlot sample_attempt 0 True] True {0} 1 [Granted True])"
    by (rule sample_next) (rule step_eq, rule group_step.Goroutine, rule goroutine_step.SecondLooks, auto simp: sample_simps)
  then show ?thesis
    by (rule sample_next) (rule step_eq, rule group_step.Goroutine, rule goroutine_step.InstallDone, auto simp: install_carrier_def sample_simps)
qed

lemma client_answered_once_witness:
  "gw_replies (sample_world (sample_group [(''eth0'', sample_slot False (Some 0))] True True) [Announcing sample_attempt 0 True] True {0} 1 [Granted True]) = [Granted True]"
  using client_answered_once [OF sample_attached] by (simp add: sample_simps)

lemma client_gets_answer_witness:
  "\<exists>w'. goroutine_step\<^sup>*\<^sup>* (sample_world (sample_group [(''eth0'', sample_slot True None)] False False) [ReconcileAll] False {} 0 []) w' \<and>
    answered (gw_replies w')"
  by (rule client_gets_answer [OF sample_started]) (simp_all add: sample_world_def)

lemma carriers_have_owners_witness:
  "\<exists>pc \<in> {Announcing sample_attempt 0 True, ReconcileAll, StartOpenWatch}. guards ''eth0'' (sample_slot False (Some 0)) 0 pc"
  using carriers_have_owners [OF sample_attached] by (simp add: sample_simps)

section \<open>A stale look\<close>

definition session_slot :: "nat \<Rightarrow> bool \<Rightarrow> nat option \<Rightarrow> flow_slot" where
  "session_slot i in_flight c = (new_slot 0 sample_path)\<lparr>sl_session := Some i, sl_generation := of_nat i, sl_in_flight := in_flight, sl_carrier := c\<rparr>"

definition second_attempt :: attempt where "second_attempt = sample_attempt\<lparr>at_session := 2, at_generation := 2\<rparr>"

text \<open>The first session of the path is closed, the second is installed.\<close>

definition flapped_world :: "group \<Rightarrow> group_pc list \<Rightarrow> bool \<Rightarrow> nat set \<Rightarrow> nat \<Rightarrow> client_reply list \<Rightarrow> nat \<Rightarrow> group_world" where
  "flapped_world gr pcs mu opened_cs next_c replies starts = \<lparr>gw_group = gr, gw_pcs = pcs, gw_mu = mu, gw_flow_done = False, gw_open = opened_cs,
     gw_next = next_c, gw_live = [''eth0'' \<mapsto> (sample_path, 2, 2)], gw_dead = {1}, gw_stopping = False, gw_replies = replies, gw_starts = starts\<rparr>"

lemma no_jitter: "0 \<in> jitter_offsets (session_retry_delay n)"
  using order_trans [OF _ retry_delay_bounds(1) [of n], of 0] by (simp add: jitter_offsets_def tcpSessionRetryInitialDelay_def)

lemmas flapped_simps = no_jitter flapped_world_def session_slot_def second_attempt_def sample_simps install_carrier_def begin_open_def plan_reopen_def
  remove_carrier_def

lemma flapped_start: "sample_reaches (flapped_world (sample_group [(''eth0'', sample_slot True None)] False False) [Looking ''eth0'', Deciding sample_attempt, ReconcileAll, StartOpenWatch] False {} 0 [] 0)"
proof -
  have "sample_reaches (sample_world (sample_group [(''eth0'', sample_slot True None)] False False) [Looking ''eth0''] False {} 0 [])"
    by (rule sample_next [OF sample_started]) (rule step_eq, rule group_step.Goroutine, rule goroutine_step.ReconcilesAll, auto simp: sample_simps)
  then have "sample_reaches (sample_world (sample_group [(''eth0'', sample_slot True None)] False False) [LookingUp ''eth0'' sample_path] False {} 0 [])"
    by (rule sample_next) (rule step_eq, rule group_step.Goroutine, rule goroutine_step.Look, auto simp: sample_simps)
  then have "sample_reaches (sample_world (sample_group [(''eth0'', sample_slot True None)] False False) [Deciding sample_attempt] False {} 0 [])"
    by (rule sample_next) (rule step_eq, rule group_step.Goroutine, rule goroutine_step.LookUp, auto simp: sample_simps)
  from sample_next [OF sample_next [OF this group_step.Around [OF group_env.SessionCloses [of _ 1]]]
    group_step.Around [OF group_env.SessionUp [of 2 _ "''eth0''" sample_path 2]]]
  show ?thesis by (simp add: flapped_simps)
qed

lemma flapped_opening: "sample_reaches (flapped_world (sample_group [(''eth0'', session_slot 2 True None)] False False) [Checking second_attempt, Deciding sample_attempt, ReconcileAll, StartOpenWatch] True {} 0 [] 0)"
proof -
  have "sample_reaches (flapped_world (sample_group [(''eth0'', sample_slot True None)] False False) [LookingUp ''eth0'' sample_path, Deciding sample_attempt, ReconcileAll, StartOpenWatch] False {} 0 [] 0)"
    by (rule sample_next [OF flapped_start]) (rule step_eq, rule group_step.Goroutine, rule goroutine_step.Look, auto simp: flapped_simps)
  then have "sample_reaches (flapped_world (sample_group [(''eth0'', sample_slot True None)] False False) [Deciding second_attempt, Deciding sample_attempt, ReconcileAll, StartOpenWatch] False {} 0 [] 0)"
    by (rule sample_next) (rule step_eq, rule group_step.Goroutine, rule goroutine_step.LookUp, auto simp: flapped_simps)
  then have "sample_reaches (flapped_world (sample_group [(''eth0'', session_slot 2 True None)] False False) [StartOpen second_attempt None, Deciding sample_attempt, ReconcileAll, StartOpenWatch] False {} 0 [] 0)"
    by (rule sample_next) (rule step_eq, rule group_step.Goroutine, rule goroutine_step.Decide [OF _ surjective_pairing], auto simp: flapped_simps)
  then have "sample_reaches (flapped_world (sample_group [(''eth0'', session_slot 2 True None)] False False) [OpenStart second_attempt, Deciding sample_attempt, ReconcileAll, StartOpenWatch] False {} 0 [] 0)"
    by (rule sample_next) (rule step_eq, rule group_step.Goroutine, rule goroutine_step.OpenWorker, auto simp: flapped_simps)
  then have "sample_reaches (flapped_world (sample_group [(''eth0'', session_slot 2 True None)] False False) [Opening second_attempt, Deciding sample_attempt, ReconcileAll, StartOpenWatch] False {} 0 [] 0)"
    by (rule sample_next) (rule step_eq, rule group_step.Goroutine, rule goroutine_step.OpenStarts, auto simp: flapped_simps)
  then have "sample_reaches (flapped_world (sample_group [(''eth0'', session_slot 2 True None)] False False) [AttachLock second_attempt, Deciding sample_attempt, ReconcileAll, StartOpenWatch] False {} 0 [] 0)"
    by (rule sample_next) (rule step_eq, rule group_step.Goroutine, rule goroutine_step.Opened, auto simp: flapped_simps)
  then show ?thesis
    by (rule sample_next) (rule step_eq, rule group_step.Goroutine, rule goroutine_step.AttachLocks, auto simp: flapped_simps)
qed

lemma flapped_started: "sample_reaches (flapped_world (sample_group [(''eth0'', session_slot 2 False (Some 0))] True True) [Monitoring second_attempt 0, Deciding sample_attempt, ReconcileAll, StartOpenWatch] False {0} 1 [Granted True] 1)"
proof -
  have "sample_reaches (flapped_world (sample_group [(''eth0'', session_slot 2 True None)] False False) [AttachFlow second_attempt True True, Deciding sample_attempt, ReconcileAll, StartOpenWatch] True {} 0 [] 0)"
    by (rule sample_next [OF flapped_opening]) (rule step_eq, rule group_step.Goroutine, rule goroutine_step.Check, auto simp: flapped_simps)
  then have "sample_reaches (flapped_world (sample_group [(''eth0'', session_slot 2 True None)] False False) [Revalidating second_attempt 0 True True, Deciding sample_attempt, ReconcileAll, StartOpenWatch] True {0} 1 [] 0)"
    by (rule sample_next) (rule step_eq, rule group_step.Goroutine, rule goroutine_step.Attach, auto simp: flapped_simps)
  then have "sample_reaches (flapped_world (sample_group [(''eth0'', session_slot 2 True None)] False False) [FirstLook second_attempt 0 True True, Deciding sample_attempt, ReconcileAll, StartOpenWatch] True {0} 1 [] 0)"
    by (rule sample_next) (rule step_eq, rule group_step.Goroutine, rule goroutine_step.Revalidate, auto simp: flapped_simps)
  then have "sample_reaches (flapped_world (sample_group [(''eth0'', session_slot 2 True None)] False False) [Replying second_attempt 0 True, Deciding sample_attempt, ReconcileAll, StartOpenWatch] True {0} 1 [] 0)"
    by (rule sample_next) (rule step_eq, rule group_step.Goroutine, rule goroutine_step.FirstLooks, auto simp: flapped_simps)
  then have "sample_reaches (flapped_world (sample_group [(''eth0'', session_slot 2 True None)] False False) [Committing second_attempt 0 True, Deciding sample_attempt, ReconcileAll, StartOpenWatch] True {0} 1 [Granted True] 0)"
    by (rule sample_next) (rule step_eq, rule group_step.Goroutine, rule goroutine_step.Reply, auto simp: flapped_simps)
  then have "sample_reaches (flapped_world (sample_group [(''eth0'', session_slot 2 True None)] True False) [SecondLook second_attempt 0 True, Deciding sample_attempt, ReconcileAll, StartOpenWatch] True {0} 1 [Granted True] 0)"
    by (rule sample_next) (rule step_eq, rule group_step.Goroutine, rule goroutine_step.Commit, auto simp: flapped_simps)
  then have "sample_reaches (flapped_world (sample_group [(''eth0'', session_slot 2 True None)] True False) [InstallSlot second_attempt 0 True, Deciding sample_attempt, ReconcileAll, StartOpenWatch] True {0} 1 [Granted True] 0)"
    by (rule sample_next) (rule step_eq, rule group_step.Goroutine, rule goroutine_step.SecondLooks, auto simp: flapped_simps)
  then have "sample_reaches (flapped_world (sample_group [(''eth0'', session_slot 2 False (Some 0))] True True) [Announcing second_attempt 0 True, Deciding sample_attempt, ReconcileAll, StartOpenWatch] True {0} 1 [Granted True] 0)"
    by (rule sample_next) (rule step_eq, rule group_step.Goroutine, rule goroutine_step.InstallDone, auto simp: flapped_simps)
  then have "sample_reaches (flapped_world (sample_group [(''eth0'', session_slot 2 False (Some 0))] True True) [StartMonitor second_attempt 0, Deciding sample_attempt, ReconcileAll, StartOpenWatch] True {0} 1 [Granted True] 1)"
    by (rule sample_next) (rule step_eq, rule group_step.Goroutine, rule goroutine_step.Announce, auto simp: flapped_simps)
  then show ?thesis
    by (rule sample_next) (rule step_eq, rule group_step.Goroutine, rule goroutine_step.MonitorStarts, auto simp: flapped_simps)
qed

lemma flapped_reopening: "sample_reaches (flapped_world (sample_group [(''eth0'', session_slot 1 True None)] True True) [OpenFailed sample_attempt (IOErr 0), Monitoring second_attempt 0, StartOpenWatch] False {} 1 [Granted True] 1)"
proof -
  have "sample_reaches (flapped_world (sample_group [(''eth0'', session_slot 2 False (Some 0))] True True) [Looking ''eth0'', Monitoring second_attempt 0, Deciding sample_attempt, StartOpenWatch] False {0} 1 [Granted True] 1)"
    by (rule sample_next [OF flapped_started]) (rule step_eq, rule group_step.Goroutine, rule goroutine_step.ReconcilesAll, auto simp: flapped_simps)
  then have "sample_reaches (flapped_world (sample_group [(''eth0'', session_slot 2 False (Some 0))] True True) [LookingUp ''eth0'' sample_path, Monitoring second_attempt 0, Deciding sample_attempt, StartOpenWatch] False {0} 1 [Granted True] 1)"
    by (rule sample_next) (rule step_eq, rule group_step.Goroutine, rule goroutine_step.Look [of "''eth0''"], auto simp: flapped_simps)
  then have "sample_reaches (flapped_world (sample_group [(''eth0'', session_slot 2 False (Some 0))] True True) [Deciding second_attempt, Monitoring second_attempt 0, Deciding sample_attempt, StartOpenWatch] False {0} 1 [Granted True] 1)"
    by (rule sample_next) (rule step_eq, rule group_step.Goroutine, rule goroutine_step.LookUp [of "''eth0''" sample_path], auto simp: flapped_simps)
  then have "sample_reaches (flapped_world (sample_group [(''eth0'', session_slot 2 False (Some 0))] True True) [Monitoring second_attempt 0, Deciding sample_attempt, StartOpenWatch] False {0} 1 [Granted True] 1)"
    by (rule sample_next) (rule step_eq, rule group_step.Goroutine, rule goroutine_step.Decide [of second_attempt, OF _ surjective_pairing], auto simp: flapped_simps)
  then have "sample_reaches (flapped_world (sample_group [(''eth0'', session_slot 1 True None)] True True) [StartOpen sample_attempt (Some 0), Monitoring second_attempt 0, StartOpenWatch] False {0} 1 [Granted True] 1)"
    by (rule sample_next) (rule step_eq, rule group_step.Goroutine, rule goroutine_step.Decide [of sample_attempt, OF _ surjective_pairing], auto simp: flapped_simps)
  then have "sample_reaches (flapped_world (sample_group [(''eth0'', session_slot 1 True None)] True True) [OpenStart sample_attempt, Monitoring second_attempt 0, StartOpenWatch] False {} 1 [Granted True] 1)"
    by (rule sample_next) (rule step_eq, rule group_step.Goroutine, rule goroutine_step.OpenWorker, auto simp: flapped_simps)
  then have "sample_reaches (flapped_world (sample_group [(''eth0'', session_slot 1 True None)] True True) [Opening sample_attempt, Monitoring second_attempt 0, StartOpenWatch] False {} 1 [Granted True] 1)"
    by (rule sample_next) (rule step_eq, rule group_step.Goroutine, rule goroutine_step.OpenStarts, auto simp: flapped_simps)
  then show ?thesis
    by (rule sample_next) (rule step_eq, rule group_step.Goroutine, rule goroutine_step.OpenFails, auto simp: flapped_simps)
qed

lemma flapped_stuck: "sample_reaches (flapped_world (sample_group [(''eth0'', session_slot 1 True None)] True True) [] False {} 1 [Granted True] 1)"
proof -
  have "sample_reaches (flapped_world (sample_group [(''eth0'', session_slot 1 True None)] True True) [Reopening sample_attempt False, Monitoring second_attempt 0, StartOpenWatch] False {} 1 [Granted True] 1)"
    by (rule sample_next [OF flapped_reopening]) (rule step_eq, rule group_step.Goroutine, rule goroutine_step.OpenRetries, auto simp: flapped_simps)
  then have "sample_reaches (flapped_world (sample_group [(''eth0'', session_slot 1 True None)] True True) [Monitoring second_attempt 0, StartOpenWatch] False {} 1 [Granted True] 1)"
    by (rule sample_next) (rule step_eq, rule group_step.Goroutine, rule goroutine_step.Reopens [where offset = 0, OF _ surjective_pairing], auto simp: flapped_simps)
  then have "sample_reaches (flapped_world (sample_group [(''eth0'', session_slot 1 True None)] True True) [CarrierLost second_attempt 0, StartOpenWatch] False {} 1 [Granted True] 1)"
    by (rule sample_next) (rule step_eq, rule group_step.Goroutine, rule goroutine_step.CarrierEnds, auto simp: flapped_simps)
  then have "sample_reaches (flapped_world (sample_group [(''eth0'', session_slot 1 True None)] True True) [StartOpenWatch] False {} 1 [Granted True] 1)"
    by (rule sample_next) (rule step_eq, rule group_step.Goroutine, rule goroutine_step.CarrierRemoved [OF _ surjective_pairing], auto simp: flapped_simps)
  then have "sample_reaches (flapped_world (sample_group [(''eth0'', session_slot 1 True None)] True True) [OpenWatch] False {} 1 [Granted True] 1)"
    by (rule sample_next) (rule step_eq, rule group_step.Goroutine, rule goroutine_step.OpenWatchStarts, auto simp: flapped_simps)
  then show ?thesis
    by (rule sample_next) (rule step_eq, rule group_step.Goroutine, rule goroutine_step.OpenWatchEnds, auto simp: flapped_simps)
qed

text \<open>
  A look-up that is overtaken strands an interface. \<open>reconcile\<close> looks the session of the path up
  between two critical sections; when the session it found has ended meanwhile and another goroutine has
  already opened a carrier over the next one, it takes that carrier out of the slot, closes it and binds
  the slot to the dead session. The open fails, \<open>retry\<close> returns because that session is closed, and
  \<open>monitorCarrier\<close> does not retry because the slot is no longer its own: the flow lives, its path has a
  session, and nobody opens a carrier.
\<close>

theorem stale_look_strands:
  "\<exists>w. group_reachable sample_paths sample_live w \<and> gw_pcs w = [] \<and> gw_open w = {} \<and> gw_starts w = 1 \<and> \<not> gw_flow_done w \<and> \<not> gw_stopping w \<and>
    \<not> gr_closed (gw_group w) \<and> \<not> gr_failed (gw_group w) \<and> reconcile_path ''eth0'' False (gw_group w) = Some sample_path \<and>
    lookup_path ''eth0'' sample_path w = Some second_attempt"
  by (rule exI, rule conjI, rule flapped_stuck) (simp add: flapped_simps)

end
