(* ===== verification/Client_Runtime.thy ===== *)
theory Client_Runtime
  imports Carrier_Groups Path Stats Closed_Streams "HOL-Library.AList"
begin

text \<open>
  The runtime of a client (\<^verbatim>\<open>internal/clientrole/tcp.go\<close> and the rest of \<^verbatim>\<open>tcp_group.go\<close>): the SOCKS
  connections, flows, interfaces with their physical sessions and counters, and what the page shows.
  Everything that holds \<^verbatim>\<open>runtime.mu\<close> is one function; Go maps are association lists with distinct keys.
  Flows, groups, path sessions, connections and counters are numbers, in the order in which they are made.
\<close>

section \<open>State\<close>

text \<open>An interface of the system; its addresses are none when they cannot be listed.\<close>

record net_interface =
  ni_name :: string
  ni_index :: int
  ni_addrs :: "string list option"

record role_client =
  rc_cfg :: client_config
  rc_version :: string
  rc_paths :: manager

definition new_client :: "client_config \<Rightarrow> string \<Rightarrow> role_client" where
  "new_client cfg version =
     (let cfg = cfg\<lparr>cl_transfer := transfer_apply_defaults (cl_transfer cfg)\<rparr>
      in \<lparr>rc_cfg = cfg, rc_version = version, rc_paths = new_manager cfg\<rparr>)"

text \<open>\<open>crt_made_for\<close> is history: the interface and path a counter was made for.\<close>

record client_runtime =
  crt_closing :: bool
  crt_cancelled :: bool
  crt_flows :: "(stream_id \<times> nat) list"
  crt_paths :: "(string \<times> client_path) list"
  crt_carriers :: "(stream_id \<times> (string \<times> nat) list) list"
  crt_traffic :: "(string \<times> nat) list"
  crt_last_received :: "(string \<times> nat) list"
  crt_sessions :: "(string \<times> nat \<times> client_path) list"
  crt_groups :: "nat list"
  crt_accepted :: "nat list"
  crt_next :: nat
  crt_made_for :: "nat \<Rightarrow> (string \<times> client_path) option"

definition new_client_runtime :: client_runtime where
  "new_client_runtime = \<lparr>crt_closing = False, crt_cancelled = False, crt_flows = [], crt_paths = [], crt_carriers = [], crt_traffic = [],
     crt_last_received = [], crt_sessions = [], crt_groups = [], crt_accepted = [], crt_next = 0, crt_made_for = (\<lambda>_. None)\<rparr>"

definition client_tcp :: "role_client \<Rightarrow> tcp_transfer" where
  "client_tcp client = tr_tcp (cl_transfer (rc_cfg client))"

definition client_stopping :: "client_runtime \<Rightarrow> bool" where
  "client_stopping rt \<longleftrightarrow> crt_closing rt \<or> crt_cancelled rt"

section \<open>Connections and flows\<close>

text \<open>\<open>startAccept\<close>: whether the connection is served; \<open>finishAccept\<close> when its goroutine returns.\<close>

definition start_accept_client :: "int \<Rightarrow> client_runtime \<Rightarrow> nat option \<times> client_runtime" where
  "start_accept_client max_streams rt =
     (if client_stopping rt \<or> max_streams > 0 \<and> int (length (crt_accepted rt)) \<ge> max_streams then (None, rt)
      else (Some (crt_next rt), rt\<lparr>crt_accepted := crt_next rt # crt_accepted rt, crt_next := crt_next rt + 1\<rparr>))"

definition finish_accept :: "nat \<Rightarrow> client_runtime \<Rightarrow> client_runtime" where
  "finish_accept c rt = rt\<lparr>crt_accepted := removeAll c (crt_accepted rt)\<rparr>"

text \<open>\<open>startGroupWorker\<close>: whether the goroutine was started.\<close>

definition start_group_worker :: "client_runtime \<Rightarrow> bool" where
  "start_group_worker rt \<longleftrightarrow> \<not> client_stopping rt"

text \<open>\<open>assignCarrierGroup\<close>: the group and the paths it is told, or an error; \<open>releaseCarrierGroup\<close> after the flow.\<close>

definition assign_carrier_group :: "int \<Rightarrow> stream_id \<Rightarrow> client_runtime \<Rightarrow> (go_error + nat \<times> (string \<times> client_path) list) \<times> client_runtime" where
  "assign_carrier_group max_streams sid rt =
     (if client_stopping rt then (Inl ErrNetClosed, rt)
      else if max_streams > 0 \<and> int (length (crt_flows rt)) \<ge> max_streams then (Inl (IOErr 0), rt)
      else let g = crt_next rt
        in (Inr (g, crt_paths rt),
            rt\<lparr>crt_groups := g # crt_groups rt, crt_flows := AList.update sid g (crt_flows rt),
               crt_carriers := AList.update sid [] (crt_carriers rt), crt_next := g + 1\<rparr>))"

definition release_carrier_group :: "stream_id \<Rightarrow> nat \<Rightarrow> client_runtime \<Rightarrow> client_runtime" where
  "release_carrier_group sid g rt =
     rt\<lparr>crt_flows := AList.delete sid (crt_flows rt), crt_carriers := AList.delete sid (crt_carriers rt), crt_groups := removeAll g (crt_groups rt)\<rparr>"

definition record_group_carrier :: "stream_id \<Rightarrow> string \<Rightarrow> nat \<Rightarrow> client_runtime \<Rightarrow> client_runtime" where
  "record_group_carrier sid name c rt =
     (case map_of (crt_carriers rt) sid of
        None \<Rightarrow> rt
      | Some cs \<Rightarrow> rt\<lparr>crt_carriers := AList.update sid (AList.update name c cs) (crt_carriers rt)\<rparr>)"

definition remove_group_carrier :: "stream_id \<Rightarrow> string \<Rightarrow> nat \<Rightarrow> client_runtime \<Rightarrow> client_runtime" where
  "remove_group_carrier sid name c rt =
     (case map_of (crt_carriers rt) sid of
        None \<Rightarrow> rt
      | Some cs \<Rightarrow> if map_of cs name = Some c then rt\<lparr>crt_carriers := AList.update sid (AList.delete name cs) (crt_carriers rt)\<rparr> else rt)"

section \<open>Interfaces and paths\<close>

text \<open>\<open>refresh\<close>: the usable interfaces, later ones of the same name winning.\<close>

fun current_paths :: "(string \<Rightarrow> string \<Rightarrow> bool option) \<Rightarrow> manager \<Rightarrow> net_interface list \<Rightarrow> (string \<times> client_path) list \<Rightarrow> (string \<times> client_path) list" where
  "current_paths path_match m [] current = current"
| "current_paths path_match m (i # interfaces) current =
     (if is_excluded path_match m (ni_name i) then current_paths path_match m interfaces current
      else let address = address_by_interface (ni_addrs i)
        in if address = '''' then current_paths path_match m interfaces current
           else current_paths path_match m interfaces
             (AList.update (ni_name i) \<lparr>cp_index = ni_index i, cp_address = address, cp_destination = interface_destination m (ni_name i)\<rparr> current))"

definition equal_paths :: "(string \<times> client_path) list \<Rightarrow> (string \<times> client_path) list \<Rightarrow> bool" where
  "equal_paths ps qs \<longleftrightarrow> length ps = length qs \<and> list_all (\<lambda>(name, p). map_of qs name = Some p) ps"

text \<open>Reading a missing key of a Go map gives the zero value.\<close>

definition path_or_zero :: "(string \<times> client_path) list \<Rightarrow> string \<Rightarrow> client_path" where
  "path_or_zero ps name = (case map_of ps name of None \<Rightarrow> \<lparr>cp_index = 0, cp_address = '''', cp_destination = ''''\<rparr> | Some p \<Rightarrow> p)"

definition counter_kept :: "(string \<times> client_path) list \<Rightarrow> (string \<times> client_path) list \<Rightarrow> string \<times> nat \<Rightarrow> bool" where
  "counter_kept previous paths = (\<lambda>(name, _). case map_of paths name of None \<Rightarrow> False | Some p \<Rightarrow> path_or_zero previous name = p)"

definition set_paths :: "(string \<times> client_path) list \<Rightarrow> client_runtime \<Rightarrow> client_runtime" where
  "set_paths paths rt =
     rt\<lparr>crt_paths := paths, crt_traffic := filter (counter_kept (crt_paths rt) paths) (crt_traffic rt),
        crt_last_received := filter (counter_kept (crt_paths rt) paths) (crt_last_received rt)\<rparr>"

definition session_of_path :: "(string \<times> client_path) list \<Rightarrow> string \<times> nat \<times> client_path \<Rightarrow> bool" where
  "session_of_path paths = (\<lambda>(name, _, p). map_of paths name = Some p)"

definition paths_stable :: "(string \<times> client_path) list \<Rightarrow> client_runtime \<Rightarrow> bool" where
  "paths_stable paths rt \<longleftrightarrow> equal_paths (crt_paths rt) paths \<and> length (crt_sessions rt) = length paths \<and>
     list_all (\<lambda>(name, p). map_option snd (map_of (crt_sessions rt) name) = Some p) paths"

text \<open>The new path sessions of \<open>refreshCarrierGroups\<close>.\<close>

fun start_sessions :: "(string \<times> client_path) list \<Rightarrow> client_runtime \<Rightarrow> nat list \<times> client_runtime" where
  "start_sessions [] rt = ([], rt)"
| "start_sessions ((name, path) # paths) rt =
     (if map_of (crt_sessions rt) name \<noteq> None then start_sessions paths rt
      else let (started, rt') = start_sessions paths (rt\<lparr>crt_sessions := (name, crt_next rt, path) # crt_sessions rt, crt_next := crt_next rt + 1\<rparr>)
        in (crt_next rt # started, rt'))"

text \<open>
  The critical section of \<open>refreshCarrierGroups\<close>: the path sessions to close, the groups to tell and
  the sessions to start.
\<close>

datatype refreshed = RefreshRefused | RefreshUnchanged | RefreshDone "nat list" "nat list" "nat list"

definition refresh_carrier_groups :: "(string \<times> client_path) list \<Rightarrow> client_runtime \<Rightarrow> refreshed \<times> client_runtime" where
  "refresh_carrier_groups paths rt =
     (if client_stopping rt then (RefreshRefused, rt)
      else if paths_stable paths rt then (RefreshUnchanged, rt)
      else let rt1 = set_paths paths rt;
               stale = map (\<lambda>(name, i, p). i) (filter (\<lambda>x. \<not> session_of_path paths x) (crt_sessions rt1));
               (started, rt2) = start_sessions paths (rt1\<lparr>crt_sessions := filter (session_of_path paths) (crt_sessions rt1)\<rparr>)
        in (RefreshDone stale (crt_groups rt2) started, rt2))"

text \<open>The path sessions of the map, and those that a refresh has to close or to start.\<close>

definition session_ids :: "client_runtime \<Rightarrow> nat set" where
  "session_ids rt = (fst \<circ> snd) ` set (crt_sessions rt)"

fun stale_of :: "refreshed \<Rightarrow> nat list" where
  "stale_of (RefreshDone stale grs started) = stale"
| "stale_of _ = []"

definition refresh :: "(string \<Rightarrow> string \<Rightarrow> bool option) \<Rightarrow> manager \<Rightarrow> net_interface list option \<Rightarrow> client_runtime \<Rightarrow> refreshed \<times> client_runtime" where
  "refresh path_match m interfaces rt =
     (case interfaces of None \<Rightarrow> (RefreshRefused, rt) | Some is \<Rightarrow> refresh_carrier_groups (current_paths path_match m is []) rt)"

text \<open>\<open>currentPathSession\<close> up to the call of \<open>current\<close>: the path session to ask.\<close>

definition current_path_session :: "string \<Rightarrow> client_path \<Rightarrow> client_runtime \<Rightarrow> nat option" where
  "current_path_session name path rt =
     (case map_of (crt_sessions rt) name of
        None \<Rightarrow> None
      | Some (i, p) \<Rightarrow> if map_of (crt_paths rt) name = Some path then Some i else None)"

text \<open>The counters of a path: a fresh one that nobody sees when the path is not the current one.\<close>

definition traffic_for_path :: "string \<Rightarrow> client_path \<Rightarrow> client_runtime \<Rightarrow> nat \<times> client_runtime" where
  "traffic_for_path name path rt =
     (let fresh = (crt_next rt, rt\<lparr>crt_next := crt_next rt + 1, crt_made_for := (crt_made_for rt)(crt_next rt \<mapsto> (name, path))\<rparr>)
      in if crt_closing rt \<or> map_of (crt_paths rt) name \<noteq> Some path then fresh
         else case map_of (crt_traffic rt) name of
           Some t \<Rightarrow> (t, rt)
         | None \<Rightarrow> (fst fresh, (snd fresh)\<lparr>crt_traffic := AList.update name (fst fresh) (crt_traffic rt)\<rparr>))"

definition last_received_for_path :: "string \<Rightarrow> client_path \<Rightarrow> client_runtime \<Rightarrow> nat \<times> client_runtime" where
  "last_received_for_path name path rt =
     (let fresh = (crt_next rt, rt\<lparr>crt_next := crt_next rt + 1, crt_made_for := (crt_made_for rt)(crt_next rt \<mapsto> (name, path))\<rparr>)
      in if crt_closing rt \<or> map_of (crt_paths rt) name \<noteq> Some path then fresh
         else case map_of (crt_last_received rt) name of
           Some t \<Rightarrow> (t, rt)
         | None \<Rightarrow> (fst fresh, (snd fresh)\<lparr>crt_last_received := AList.update name (fst fresh) (crt_last_received rt)\<rparr>))"

text \<open>\<open>tcpLastReceivedConn.Read\<close>: the time of the last read that returned bytes.\<close>

definition last_received_read :: "nat \<Rightarrow> int \<Rightarrow> int \<Rightarrow> int" where
  "last_received_read read now before = (if read > 0 then now else before)"

section \<open>Shutdown\<close>

text \<open>The two critical sections of \<open>shutdown\<close>: what to close, and the end.\<close>

definition begin_shutdown :: "client_runtime \<Rightarrow> (nat list \<times> nat list \<times> nat list \<times> nat list) \<times> client_runtime" where
  "begin_shutdown rt =
     ((map (fst \<circ> snd) (crt_sessions rt), crt_accepted rt, map snd (crt_flows rt), crt_groups rt), rt\<lparr>crt_closing := True\<rparr>)"

definition end_shutdown :: "client_runtime \<Rightarrow> client_runtime" where
  "end_shutdown rt = rt\<lparr>crt_flows := [], crt_paths := [], crt_carriers := [], crt_traffic := [], crt_last_received := [], crt_sessions := [],
     crt_groups := [], crt_accepted := []\<rparr>"

section \<open>The critical sections in any order\<close>

inductive client_step :: "role_client \<Rightarrow> (string \<Rightarrow> string \<Rightarrow> bool option) \<Rightarrow> client_runtime \<Rightarrow> client_runtime \<Rightarrow> bool" for client path_match where
  Accept: "start_accept_client (tt_max_streams (client_tcp client)) rt = (c, rt') \<Longrightarrow> client_step client path_match rt rt'"
| Finish: "client_step client path_match rt (finish_accept c rt)"
| Assign: "assign_carrier_group (tt_max_streams (client_tcp client)) sid rt = (g, rt') \<Longrightarrow> client_step client path_match rt rt'"
| Release: "client_step client path_match rt (release_carrier_group sid g rt)"
| Record: "client_step client path_match rt (record_group_carrier sid name c rt)"
| Unrecord: "client_step client path_match rt (remove_group_carrier sid name c rt)"
| Refresh: "refresh path_match m interfaces rt = (r, rt') \<Longrightarrow> client_step client path_match rt rt'"
| Traffic: "traffic_for_path name path rt = (t, rt') \<Longrightarrow> client_step client path_match rt rt'"
| LastReceived: "last_received_for_path name path rt = (t, rt') \<Longrightarrow> client_step client path_match rt rt'"
| Cancel: "client_step client path_match rt (rt\<lparr>crt_cancelled := True\<rparr>)"
| Begin: "begin_shutdown rt = (closed, rt') \<Longrightarrow> client_step client path_match rt rt'"
| End: "crt_closing rt \<Longrightarrow> crt_accepted rt = [] \<Longrightarrow> client_step client path_match rt (end_shutdown rt)"

inductive client_reachable :: "role_client \<Rightarrow> (string \<Rightarrow> string \<Rightarrow> bool option) \<Rightarrow> client_runtime \<Rightarrow> bool" for client path_match where
  "client_reachable client path_match new_client_runtime"
| "client_reachable client path_match rt \<Longrightarrow> client_step client path_match rt rt' \<Longrightarrow> client_reachable client path_match rt'"

section \<open>Association lists\<close>

lemma length_update_le: "length (AList.update k v al) \<le> Suc (length al)"
  by (induction al) auto

lemma length_delete_le: "length (AList.delete k al) \<le> length al"
  by (simp add: AList.delete_eq)

lemma lookup_filter_key:
  assumes "distinct (map fst al)"
  shows "map_of (filter P al) k = (case map_of al k of None \<Rightarrow> None | Some v \<Rightarrow> if P (k, v) then Some v else None)"
  using lookup_filter [OF assms, of P k] .

lemmas alist_simps = AList.update_conv' AList.delete_conv' distinct_update distinct_delete

section \<open>Refreshing\<close>

lemma current_paths_distinct: "distinct (map fst current) \<Longrightarrow> distinct (map fst (current_paths path_match m interfaces current))"
  by (induction path_match m interfaces current rule: current_paths.induct) (simp_all add: distinct_update Let_def)

text \<open>\<open>start_sessions\<close> by its results.\<close>

lemma start_sessions_Cons:
  "start_sessions ((name, path) # paths) rt =
    (if map_of (crt_sessions rt) name \<noteq> None then start_sessions paths rt
     else (crt_next rt # fst (start_sessions paths (rt\<lparr>crt_sessions := (name, crt_next rt, path) # crt_sessions rt, crt_next := crt_next rt + 1\<rparr>)),
       snd (start_sessions paths (rt\<lparr>crt_sessions := (name, crt_next rt, path) # crt_sessions rt, crt_next := crt_next rt + 1\<rparr>))))"
  by (simp add: case_prod_unfold Let_def)

declare start_sessions.simps(2) [simp del]

lemma start_sessions_next: "\<exists>ss n. snd (start_sessions paths rt) = rt\<lparr>crt_sessions := ss, crt_next := n\<rparr> \<and> crt_next rt \<le> n"
proof (induction paths rt rule: start_sessions.induct)
  case (1 rt)
  show ?case by (rule exI [of _ "crt_sessions rt"], rule exI [of _ "crt_next rt"]) simp
next
  case (2 name path paths rt)
  show ?case
  proof (cases "map_of (crt_sessions rt) name")
    case None
    with 2(2) obtain ss n where "snd (start_sessions ((name, path) # paths) rt) = rt\<lparr>crt_sessions := ss, crt_next := n\<rparr>" "Suc (crt_next rt) \<le> n"
      by (auto simp: start_sessions_Cons)
    then show ?thesis by (auto intro!: exI)
  qed (use 2(1) in \<open>simp add: start_sessions_Cons\<close>)
qed

lemma start_sessions_numbers: "set (fst (start_sessions paths rt)) = {i. crt_next rt \<le> i \<and> i < crt_next (snd (start_sessions paths rt))}"
proof (induction paths rt rule: start_sessions.induct)
  case (2 name path paths rt)
  show ?case
  proof (cases "map_of (crt_sessions rt) name")
    case None
    let ?rt = "rt\<lparr>crt_sessions := (name, crt_next rt, path) # crt_sessions rt, crt_next := crt_next rt + 1\<rparr>"
    have later: "crt_next rt + 1 \<le> crt_next (snd (start_sessions paths ?rt))" using start_sessions_next [of paths ?rt] by auto
    have "set (fst (start_sessions paths ?rt)) = {i. crt_next rt + 1 \<le> i \<and> i < crt_next (snd (start_sessions paths ?rt))}" using 2(2) None by simp
    then have "set (fst (start_sessions ((name, path) # paths) rt)) =
        insert (crt_next rt) {i. crt_next rt + 1 \<le> i \<and> i < crt_next (snd (start_sessions paths ?rt))}" by (simp only: start_sessions_Cons None) simp
    also have "\<dots> = {i. crt_next rt \<le> i \<and> i < crt_next (snd (start_sessions paths ?rt))}" using later by auto
    finally show ?thesis by (simp add: start_sessions_Cons None)
  qed (use 2(1) in \<open>simp add: start_sessions_Cons\<close>)
qed simp

lemma start_sessions_distinct: "distinct (fst (start_sessions paths rt))"
proof (induction paths rt rule: start_sessions.induct)
  case (2 name path paths rt)
  show ?case
  proof (cases "map_of (crt_sessions rt) name")
    case None
    let ?rt = "rt\<lparr>crt_sessions := (name, crt_next rt, path) # crt_sessions rt, crt_next := crt_next rt + 1\<rparr>"
    have "crt_next rt \<notin> set (fst (start_sessions paths ?rt))" using start_sessions_numbers [of paths ?rt] by simp
    with 2(2) None show ?thesis by (simp add: start_sessions_Cons)
  qed (use 2(1) in \<open>simp add: start_sessions_Cons\<close>)
qed simp

lemma start_sessions_lookup:
  "map_option snd (map_of (crt_sessions (snd (start_sessions paths rt))) name) =
    (case map_of (crt_sessions rt) name of Some x \<Rightarrow> Some (snd x) | None \<Rightarrow> map_of paths name) \<and>
   (map_of (crt_sessions rt) name = Some x \<longrightarrow> map_of (crt_sessions (snd (start_sessions paths rt))) name = Some x)"
proof (induction paths rt rule: start_sessions.induct)
  case (2 name' path paths rt)
  then show ?case by (cases "map_of (crt_sessions rt) name'") (auto simp: start_sessions_Cons split: option.splits)
qed (simp split: option.split)

definition sessions_fine :: "client_runtime \<Rightarrow> bool" where
  "sessions_fine rt \<longleftrightarrow> distinct (map fst (crt_sessions rt)) \<and> distinct (map (fst \<circ> snd) (crt_sessions rt)) \<and>
     (\<forall>(name, i, p) \<in> set (crt_sessions rt). i < crt_next rt)"

lemma start_sessions_fine: "sessions_fine rt \<Longrightarrow> sessions_fine (snd (start_sessions paths rt))"
proof (induction paths rt rule: start_sessions.induct)
  case (2 name path paths rt)
  show ?case
  proof (cases "map_of (crt_sessions rt) name")
    case None
    let ?rt = "rt\<lparr>crt_sessions := (name, crt_next rt, path) # crt_sessions rt, crt_next := crt_next rt + 1\<rparr>"
    have "name \<notin> fst ` set (crt_sessions rt)" using None by (simp add: map_of_eq_None_iff)
    then have "sessions_fine ?rt" using 2(3) by (fastforce simp: sessions_fine_def)
    with 2(2) None show ?thesis by (simp add: start_sessions_Cons)
  qed (use 2(1,3) in \<open>simp add: start_sessions_Cons\<close>)
qed simp

section \<open>Invariants\<close>

definition keys_ok :: "client_runtime \<Rightarrow> bool" where
  "keys_ok rt \<longleftrightarrow> distinct (map fst (crt_flows rt)) \<and> distinct (map fst (crt_paths rt)) \<and> distinct (map fst (crt_carriers rt)) \<and>
     distinct (map fst (crt_traffic rt)) \<and> distinct (map fst (crt_last_received rt)) \<and>
     fst ` set (crt_carriers rt) = fst ` set (crt_flows rt)"

definition limits_ok :: "int \<Rightarrow> client_runtime \<Rightarrow> bool" where
  "limits_ok max_streams rt \<longleftrightarrow> (max_streams > 0 \<longrightarrow> int (length (crt_accepted rt)) \<le> max_streams \<and> int (length (crt_flows rt)) \<le> max_streams)"

definition paths_ok :: "client_runtime \<Rightarrow> bool" where
  "paths_ok rt \<longleftrightarrow> sessions_fine rt \<and> (\<forall>name. map_option snd (map_of (crt_sessions rt) name) = map_of (crt_paths rt) name)"

definition counter_ok :: "client_runtime \<Rightarrow> string \<Rightarrow> nat \<Rightarrow> bool" where
  "counter_ok rt name t \<longleftrightarrow> (\<exists>p. map_of (crt_paths rt) name = Some p \<and> crt_made_for rt t = Some (name, p))"

definition counters_ok :: "client_runtime \<Rightarrow> bool" where
  "counters_ok rt \<longleftrightarrow> (\<forall>t. crt_made_for rt t \<noteq> None \<longrightarrow> t < crt_next rt) \<and>
     (\<forall>name t. map_of (crt_traffic rt) name = Some t \<or> map_of (crt_last_received rt) name = Some t \<longrightarrow> counter_ok rt name t)"

lemmas section_defs = start_accept_client_def finish_accept_def assign_carrier_group_def release_carrier_group_def record_group_carrier_def
  remove_group_carrier_def traffic_for_path_def last_received_for_path_def begin_shutdown_def end_shutdown_def

text \<open>What the operations leave behind.\<close>

lemma assignD:
  assumes "assign_carrier_group max_streams sid rt = (g, rt')"
  obtains "rt' = rt" | "rt' = rt\<lparr>crt_groups := crt_next rt # crt_groups rt, crt_flows := AList.update sid (crt_next rt) (crt_flows rt),
      crt_carriers := AList.update sid [] (crt_carriers rt), crt_next := crt_next rt + 1\<rparr>" "max_streams > 0 \<Longrightarrow> int (length (crt_flows rt)) < max_streams"
  using assms by (auto simp: assign_carrier_group_def Let_def split: if_splits)

definition counted :: "string \<Rightarrow> client_path \<Rightarrow> client_runtime \<Rightarrow> client_runtime" where
  "counted name path rt = rt\<lparr>crt_next := crt_next rt + 1, crt_made_for := (crt_made_for rt)(crt_next rt \<mapsto> (name, path))\<rparr>"

lemma counter_forD:
  "traffic_for_path name path rt = (t, rt') \<Longrightarrow> rt' = rt \<or> rt' = counted name path rt \<or>
    map_of (crt_paths rt) name = Some path \<and> rt' = (counted name path rt)\<lparr>crt_traffic := AList.update name (crt_next rt) (crt_traffic rt)\<rparr>"
  "last_received_for_path name path rt = (t, rt') \<Longrightarrow> rt' = rt \<or> rt' = counted name path rt \<or>
    map_of (crt_paths rt) name = Some path \<and> rt' = (counted name path rt)\<lparr>crt_last_received := AList.update name (crt_next rt) (crt_last_received rt)\<rparr>"
  by (auto simp: traffic_for_path_def last_received_for_path_def counted_def Let_def split: if_splits option.splits)

text \<open>A refresh either changes nothing or takes the new paths.\<close>

lemma refresh_carrier_groupsD:
  assumes "refresh_carrier_groups paths rt = (r, rt')"
  shows "rt' = rt \<or> rt' = snd (start_sessions paths ((set_paths paths rt)\<lparr>crt_sessions := filter (session_of_path paths) (crt_sessions rt)\<rparr>)) \<and> \<not> client_stopping rt"
  using assms by (auto simp: refresh_carrier_groups_def set_paths_def Let_def case_prod_unfold split: if_splits)

lemma refreshD:
  assumes "refresh path_match m interfaces rt = (r, rt')"
  obtains "rt' = rt" | paths where "distinct (map fst paths)" "refresh_carrier_groups paths rt = (r, rt')"
    "rt' = snd (start_sessions paths ((set_paths paths rt)\<lparr>crt_sessions := filter (session_of_path paths) (crt_sessions rt)\<rparr>))"
proof (cases interfaces)
  case None
  with assms show thesis by (intro that(1)) (simp add: refresh_def)
next
  case (Some found)
  let ?paths = "current_paths path_match m found []"
  have r: "refresh_carrier_groups ?paths rt = (r, rt')" using assms Some by (simp add: refresh_def)
  from refresh_carrier_groupsD [OF r] show thesis
    using that(1) that(2) [OF _ r] current_paths_distinct [of "[]" path_match m found] by (elim disjE conjE) simp_all
qed

lemma started_fields:
  assumes "rt' = snd (start_sessions paths ((set_paths paths rt)\<lparr>crt_sessions := sessions\<rparr>))"
  shows "crt_closing rt' = crt_closing rt \<and> crt_cancelled rt' = crt_cancelled rt \<and> crt_flows rt' = crt_flows rt \<and> crt_paths rt' = paths \<and>
    crt_carriers rt' = crt_carriers rt \<and> crt_traffic rt' = filter (counter_kept (crt_paths rt) paths) (crt_traffic rt) \<and>
    crt_last_received rt' = filter (counter_kept (crt_paths rt) paths) (crt_last_received rt) \<and> crt_groups rt' = crt_groups rt \<and>
    crt_accepted rt' = crt_accepted rt \<and> crt_next rt \<le> crt_next rt' \<and> crt_made_for rt' = crt_made_for rt"
proof -
  obtain n ss where "snd (start_sessions paths ((set_paths paths rt)\<lparr>crt_sessions := sessions\<rparr>)) =
      ((set_paths paths rt)\<lparr>crt_sessions := sessions\<rparr>)\<lparr>crt_sessions := ss, crt_next := n\<rparr>" "crt_next rt \<le> n"
    using start_sessions_next [of paths "(set_paths paths rt)\<lparr>crt_sessions := sessions\<rparr>"] by (auto simp: set_paths_def)
  then show ?thesis unfolding assms by (simp add: set_paths_def)
qed

lemma keys_delete: "fst ` set (AList.delete k al) = fst ` set al - {k}"
  by (metis AList.delete_keys list.set_map set_removeAll)

lemma keys_of_lookup: "map_of al k = Some v \<Longrightarrow> insert k (fst ` set al) = fst ` set al"
  by (auto dest!: map_of_SomeD intro: rev_image_eqI)

lemma keys_step:
  assumes "client_step client path_match rt rt'" "keys_ok rt"
  shows "keys_ok rt'"
  using assms
proof cases
  case (Refresh m interfaces r)
  from refreshD [OF this] show ?thesis
  proof cases
    case (2 paths)
    with started_fields [OF 2(3)] assms(2) show ?thesis by (simp add: keys_ok_def distinct_map_filter)
  qed (use assms(2) in simp)
next
  case (Record sid name c)
  then show ?thesis using assms(2) keys_of_lookup [of "crt_carriers rt" sid]
    by (cases "map_of (crt_carriers rt) sid") (simp_all add: keys_ok_def section_defs AList.dom_update distinct_update)
next
  case (Unrecord sid name c)
  then show ?thesis using assms(2) keys_of_lookup [of "crt_carriers rt" sid]
    by (cases "map_of (crt_carriers rt) sid") (simp_all add: keys_ok_def section_defs AList.dom_update distinct_update)
next
  case (Release sid g)
  then show ?thesis using assms(2) by (simp add: keys_ok_def section_defs keys_delete distinct_delete)
next
  case (Assign sid g)
  then show ?thesis by (rule assignD) (use assms(2) in \<open>simp_all add: keys_ok_def AList.dom_update distinct_update\<close>)
next
  case (Traffic name path t)
  from counter_forD(1) [OF this] assms(2) show ?thesis by (elim disjE) (simp_all add: keys_ok_def counted_def distinct_update)
next
  case (LastReceived name path t)
  from counter_forD(2) [OF this] assms(2) show ?thesis by (elim disjE) (simp_all add: keys_ok_def counted_def distinct_update)
next
  case (Begin closed)
  then show ?thesis using assms(2) by (auto simp: begin_shutdown_def) (simp add: keys_ok_def)
next
  case (Accept c)
  then show ?thesis using assms(2) by (auto simp: start_accept_client_def split: if_splits) (simp_all add: keys_ok_def)
qed (use assms(2) in \<open>simp_all add: keys_ok_def finish_accept_def end_shutdown_def\<close>)

lemma client_step_next: "client_step client path_match rt rt' \<Longrightarrow> crt_next rt \<le> crt_next rt'"
proof (induction rule: client_step.induct)
  case (Refresh m interfaces rt r rt')
  from refreshD [OF this] show ?case
  proof cases
    case (2 paths)
    then show ?thesis using started_fields [OF 2(3)] by simp
  qed simp
qed (auto simp: section_defs Let_def split: if_splits option.splits)

lemma limits_step:
  assumes "client_step client path_match rt rt'" "limits_ok (tt_max_streams (client_tcp client)) rt"
  shows "limits_ok (tt_max_streams (client_tcp client)) rt'"
  using assms
proof cases
  case (Assign sid g)
  then show ?thesis
    by (rule assignD) (use assms(2) length_update_le [of sid "crt_next rt" "crt_flows rt"] in \<open>auto simp: limits_ok_def\<close>)
next
  case (Finish c)
  then show ?thesis using assms(2) by (auto simp: limits_ok_def section_defs intro: order_trans [OF iffD2 [OF of_nat_le_iff length_removeAll_less_eq]])
next
  case (Release sid g)
  then show ?thesis using assms(2) by (auto simp: limits_ok_def section_defs intro: order_trans [OF iffD2 [OF of_nat_le_iff length_delete_le]])
next
  case (Refresh m interfaces r)
  from refreshD [OF this] show ?thesis
  proof cases
    case (2 paths)
    with started_fields [OF 2(3)] assms(2) show ?thesis by (simp add: limits_ok_def)
  qed (use assms(2) in simp)
qed (use assms(2) in \<open>auto simp: limits_ok_def section_defs Let_def split: if_splits option.splits\<close>)

lemma paths_step:
  assumes "client_step client path_match rt rt'" "paths_ok rt"
  shows "paths_ok rt'"
  using assms
proof cases
  case (Refresh m interfaces r)
  from refreshD [OF this] show ?thesis
  proof cases
    case (2 paths)
    let ?rt = "(set_paths paths rt)\<lparr>crt_sessions := filter (session_of_path paths) (crt_sessions rt)\<rparr>"
    note rt' = 2(3)
    have d: "distinct (map fst (crt_sessions rt))" using assms(2) by (simp add: paths_ok_def sessions_fine_def)
    have "sessions_fine ?rt" using assms(2) by (auto simp: paths_ok_def sessions_fine_def set_paths_def distinct_map_filter)
    then have "sessions_fine rt'" unfolding rt' by (rule start_sessions_fine)
    moreover have "map_option snd (map_of (crt_sessions rt') name) = map_of (crt_paths rt') name" for name
      using start_sessions_lookup [of paths ?rt name] started_fields [OF rt'] lookup_filter_key [OF d, of "session_of_path paths" name] unfolding rt'
      by (auto simp: session_of_path_def split: option.splits if_splits)
    ultimately show ?thesis by (simp add: paths_ok_def)
  qed (use assms(2) in simp)
qed (use assms(2) in \<open>fastforce simp: paths_ok_def sessions_fine_def section_defs less_Suc_eq Let_def split: if_splits option.splits\<close>)+

lemma counter_ok_more [simp]:
  "counter_ok (rt\<lparr>crt_traffic := ts\<rparr>) name t = counter_ok rt name t" "counter_ok (rt\<lparr>crt_last_received := ts\<rparr>) name t = counter_ok rt name t"
  by (simp_all add: counter_ok_def)

lemma counted_keeps: "counters_ok rt \<Longrightarrow> counter_ok rt n t \<Longrightarrow> counter_ok (counted name path rt) n t"
  by (fastforce simp: counters_ok_def counter_ok_def counted_def)

lemma counted_new: "map_of (crt_paths rt) name = Some path \<Longrightarrow> counter_ok (counted name path rt) name (crt_next rt)"
  by (simp add: counter_ok_def counted_def)

lemma counted_fields:
  "crt_next (counted name path rt) = Suc (crt_next rt)" "crt_made_for (counted name path rt) = (crt_made_for rt)(crt_next rt \<mapsto> (name, path))"
  "crt_traffic (counted name path rt) = crt_traffic rt" "crt_last_received (counted name path rt) = crt_last_received rt"
  by (simp_all add: counted_def)

lemma counted_ok: "counters_ok rt \<Longrightarrow> counters_ok (counted name path rt)"
  using counted_keeps [of rt] by (auto simp: counters_ok_def counted_fields less_Suc_eq)

lemma counters_added:
  assumes "counters_ok rt" "map_of (crt_paths rt) name = Some path"
  shows "counters_ok ((counted name path rt)\<lparr>crt_traffic := AList.update name (crt_next rt) (crt_traffic rt)\<rparr>)"
    "counters_ok ((counted name path rt)\<lparr>crt_last_received := AList.update name (crt_next rt) (crt_last_received rt)\<rparr>)"
  using counted_ok [OF assms(1), of name path] counted_new [OF assms(2)]
  by (auto simp: counters_ok_def counted_fields AList.update_conv' simp del: map_of_eq_Some_iff)

lemma counters_step:
  assumes "client_step client path_match rt rt'" "keys_ok rt" "counters_ok rt"
  shows "counters_ok rt'"
  using assms(1)
proof cases
  case (Refresh m interfaces r)
  from refreshD [OF this] show ?thesis
  proof cases
    case (2 paths)
    note f = started_fields [OF 2(3)]
    have "counter_ok rt' name t" if "map_of (crt_traffic rt') name = Some t \<or> map_of (crt_last_received rt') name = Some t" for name t
    proof -
      have "(map_of (crt_traffic rt) name = Some t \<or> map_of (crt_last_received rt) name = Some t) \<and> counter_kept (crt_paths rt) paths (name, t)"
        using that assms(2) f by (auto simp: lookup_filter_key keys_ok_def split: option.splits if_splits)
      then have "counter_ok rt name t" "counter_kept (crt_paths rt) paths (name, t)" using assms(3) by (auto simp: counters_ok_def)
      with f show ?thesis by (auto simp: counter_ok_def counter_kept_def path_or_zero_def split: option.splits)
    qed
    moreover have "t < crt_next rt'" if "crt_made_for rt' t \<noteq> None" for t using that assms(3) f by (auto simp: counters_ok_def intro: less_le_trans)
    ultimately show ?thesis unfolding counters_ok_def by blast
  qed (use assms(3) in simp)
next
  case (Traffic name path t)
  from counter_forD(1) [OF this] assms(3) counted_ok counters_added show ?thesis by blast
next
  case (LastReceived name path t)
  from counter_forD(2) [OF this] assms(3) counted_ok counters_added show ?thesis by blast
next
  case (Assign sid g)
  then show ?thesis by (rule assignD) (use assms(3) in \<open>auto simp: counters_ok_def counter_ok_def simp: less_Suc_eq\<close>)
next
  case (Accept c)
  then show ?thesis using assms(3) by (auto simp: counters_ok_def counter_ok_def start_accept_client_def less_Suc_eq split: if_splits)
qed (use assms(3) in \<open>auto simp: counters_ok_def counter_ok_def finish_accept_def release_carrier_group_def record_group_carrier_def
    remove_group_carrier_def begin_shutdown_def end_shutdown_def split: option.splits\<close>)

definition client_inv :: "role_client \<Rightarrow> client_runtime \<Rightarrow> bool" where
  "client_inv client rt \<longleftrightarrow> keys_ok rt \<and> limits_ok (tt_max_streams (client_tcp client)) rt \<and> paths_ok rt \<and> counters_ok rt"

lemma reachable_client_inv:
  assumes "client_reachable client path_match rt"
  shows "client_inv client rt"
  using assms
proof induction
  case 1
  show ?case by (simp add: client_inv_def keys_ok_def limits_ok_def paths_ok_def sessions_fine_def counters_ok_def new_client_runtime_def)
next
  case (2 rt rt')
  then show ?case using keys_step limits_step paths_step counters_step unfolding client_inv_def by blast
qed

section \<open>What a refresh does\<close>

definition usable_path :: "(string \<Rightarrow> string \<Rightarrow> bool option) \<Rightarrow> manager \<Rightarrow> net_interface \<Rightarrow> client_path option" where
  "usable_path path_match m i =
     (if is_excluded path_match m (ni_name i) \<or> address_by_interface (ni_addrs i) = '''' then None
      else Some \<lparr>cp_index = ni_index i, cp_address = address_by_interface (ni_addrs i), cp_destination = interface_destination m (ni_name i)\<rparr>)"

lemma current_paths_step:
  "current_paths path_match m (i # interfaces) current =
    current_paths path_match m interfaces (case usable_path path_match m i of None \<Rightarrow> current | Some p \<Rightarrow> AList.update (ni_name i) p current)"
  by (simp add: usable_path_def Let_def)

lemma current_paths_lookup:
  assumes "distinct (map ni_name interfaces)"
  shows "map_of (current_paths path_match m interfaces current) name = Some p \<longleftrightarrow>
    (\<exists>i \<in> set interfaces. ni_name i = name \<and> usable_path path_match m i = Some p) \<or>
    (\<forall>i \<in> set interfaces. ni_name i = name \<longrightarrow> usable_path path_match m i = None) \<and> map_of current name = Some p"
  using assms
proof (induction interfaces arbitrary: current)
  case (Cons i interfaces)
  have other: "j \<in> set interfaces \<Longrightarrow> ni_name j \<noteq> ni_name i" for j using Cons.prems by (metis distinct.simps(2) image_eqI list.set_map list.simps(9))
  have "distinct (map ni_name interfaces)" using Cons.prems by simp
  note IH = Cons.IH [OF this]
  show ?case
  proof (cases "usable_path path_match m i")
    case None
    then show ?thesis by (simp add: current_paths_step IH del: current_paths.simps)
  next
    case (Some q)
    then show ?thesis using other
      by (cases "ni_name i = name") (auto simp: current_paths_step IH AList.update_conv' simp del: current_paths.simps map_of_eq_Some_iff)
  qed
qed simp

lemma equal_paths_lookup:
  assumes "equal_paths ps qs" "distinct (map fst ps)" "distinct (map fst qs)"
  shows "map_of ps = map_of qs"
proof -
  have sub: "set ps \<subseteq> set qs" using assms(1) by (auto simp: equal_paths_def list_all_iff dest: map_of_SomeD)
  have "card (set ps) = card (set qs)" using assms by (simp add: equal_paths_def distinct_card distinct_map)
  with sub have "set ps = set qs" by (simp add: card_subset_eq)
  with assms(2,3) show ?thesis by (simp only: map_of_inject_set)
qed

lemma start_sessions_members:
  "(name, i, p) \<in> set (crt_sessions (snd (start_sessions paths rt))) \<Longrightarrow> (name, i, p) \<in> set (crt_sessions rt) \<or> crt_next rt \<le> i \<and> i \<in> set (fst (start_sessions paths rt))"
proof (induction paths rt rule: start_sessions.induct)
  case (2 name' path paths rt)
  then show ?case by (cases "map_of (crt_sessions rt) name'") (auto simp: start_sessions_Cons)
qed simp

lemma start_sessions_started:
  "set (crt_sessions rt) \<subseteq> set (crt_sessions (snd (start_sessions paths rt))) \<and>
    (i \<in> set (fst (start_sessions paths rt)) \<longrightarrow> (\<exists>name p. (name, i, p) \<in> set (crt_sessions (snd (start_sessions paths rt)))))"
proof (induction paths rt rule: start_sessions.induct)
  case (2 name' path paths rt)
  then show ?case by (cases "map_of (crt_sessions rt) name'") (auto simp: start_sessions_Cons)
qed simp

lemma start_sessions_keeps: "session_ids rt \<subseteq> session_ids (snd (start_sessions paths rt))"
  using start_sessions_started [of rt paths] by (auto simp: session_ids_def)

text \<open>A refresh that does something; what the map of path sessions loses is what it closes.\<close>

lemma refresh_doneD:
  assumes "refresh path_match m interfaces rt = (RefreshDone stale grs started, rt')"
  obtains paths where "rt' = snd (start_sessions paths ((set_paths paths rt)\<lparr>crt_sessions := filter (session_of_path paths) (crt_sessions rt)\<rparr>))"
    "started = fst (start_sessions paths ((set_paths paths rt)\<lparr>crt_sessions := filter (session_of_path paths) (crt_sessions rt)\<rparr>))"
    "stale = map (\<lambda>(name, i, p). i) (filter (\<lambda>x. \<not> session_of_path paths x) (crt_sessions rt))" "\<not> client_stopping rt"
proof -
  obtain paths where "refresh_carrier_groups paths rt = (RefreshDone stale grs started, rt')"
    using assms by (auto simp: refresh_def split: option.splits)
  with that [of paths] show ?thesis by (auto simp: refresh_carrier_groups_def set_paths_def Let_def case_prod_unfold split: if_splits)
qed

lemma refresh_not_done: "refresh path_match m interfaces rt = (r, rt') \<Longrightarrow> \<forall>stale grs started. r \<noteq> RefreshDone stale grs started \<Longrightarrow> rt' = rt"
  by (auto simp: refresh_def refresh_carrier_groups_def Let_def case_prod_unfold split: option.splits if_splits)

lemma refresh_sessions:
  assumes "refresh path_match m interfaces rt = (r, rt')"
  shows "session_ids rt \<subseteq> session_ids rt' \<union> set (stale_of r)"
proof (cases r)
  case (RefreshDone stale grs started)
  obtain paths where out: "rt' = snd (start_sessions paths ((set_paths paths rt)\<lparr>crt_sessions := filter (session_of_path paths) (crt_sessions rt)\<rparr>))"
    "stale = map (\<lambda>(name, i, p). i) (filter (\<lambda>x. \<not> session_of_path paths x) (crt_sessions rt))"
    using refresh_doneD [OF assms [unfolded RefreshDone]] by blast
  have "session_ids ((set_paths paths rt)\<lparr>crt_sessions := filter (session_of_path paths) (crt_sessions rt)\<rparr>) \<subseteq> session_ids rt'"
    unfolding out(1) by (rule start_sessions_keeps)
  then show ?thesis by (auto simp: RefreshDone out(2) session_ids_def case_prod_unfold image_iff)
qed (use refresh_not_done [OF assms] in auto)

text \<open>
  C30. A refresh takes exactly the usable interfaces: the paths are those of the interfaces that are not
  excluded and have an allowed address, each with its index, that address and the destination chosen for
  it; a path that did not change keeps its session, one that went or changed has its session closed, one
  that is new or changed gets a fresh one; and when nothing changed nothing is done.
\<close>

theorem refresh_exact:
  assumes "client_reachable client path_match rt" "\<not> client_stopping rt" "distinct (map ni_name interfaces)"
    and "refresh path_match m (Some interfaces) rt = (r, rt')"
  shows "(\<forall>name p. map_of (crt_paths rt') name = Some p \<longleftrightarrow> (\<exists>i \<in> set interfaces. ni_name i = name \<and> usable_path path_match m i = Some p)) \<and>
    (\<forall>name i p. map_of (crt_sessions rt) name = Some (i, p) \<and> map_of (crt_paths rt') name = Some p \<longrightarrow> map_of (crt_sessions rt') name = Some (i, p)) \<and>
    (case r of
       RefreshRefused \<Rightarrow> False
     | RefreshUnchanged \<Rightarrow> rt' = rt
     | RefreshDone stale notified started \<Rightarrow> notified = crt_groups rt \<and>
         set stale = {i. \<exists>name p. map_of (crt_sessions rt) name = Some (i, p) \<and> map_of (crt_paths rt') name \<noteq> Some p} \<and>
         set started = {i. \<exists>name p. map_of (crt_sessions rt') name = Some (i, p) \<and> map_of (crt_sessions rt) name \<noteq> Some (i, p)})"
proof -
  let ?paths = "current_paths path_match m interfaces []"
  let ?rt = "(set_paths ?paths rt)\<lparr>crt_sessions := filter (session_of_path ?paths) (crt_sessions rt)\<rparr>"
  have inv: "keys_ok rt" "sessions_fine rt" using reachable_client_inv [OF assms(1)] by (simp_all add: client_inv_def paths_ok_def)
  then have d: "distinct (map fst (crt_sessions rt))" and young: "\<And>name i p. (name, i, p) \<in> set (crt_sessions rt) \<Longrightarrow> i < crt_next rt"
    by (auto simp: sessions_fine_def)
  have lookup: "map_of ?paths name = Some p \<longleftrightarrow> (\<exists>i \<in> set interfaces. ni_name i = name \<and> usable_path path_match m i = Some p)" for name p
    by (simp add: current_paths_lookup [OF assms(3)])
  have r: "refresh_carrier_groups ?paths rt = (r, rt')" using assms(4) by (simp add: refresh_def)
  show ?thesis
  proof (cases "paths_stable ?paths rt")
    case True
    with r assms(2) have "r = RefreshUnchanged" "rt' = rt" by (auto simp: refresh_carrier_groups_def)
    moreover have "map_of (crt_paths rt) = map_of ?paths"
      using True inv(1) current_paths_distinct [of "[]" path_match m interfaces] by (intro equal_paths_lookup) (simp_all add: paths_stable_def keys_ok_def)
    ultimately show ?thesis using lookup by simp
  next
    case False
    have out: "r = RefreshDone (map (\<lambda>(name, i, p). i) (filter (\<lambda>x. \<not> session_of_path ?paths x) (crt_sessions rt))) (crt_groups rt') (fst (start_sessions ?paths ?rt))"
      "rt' = snd (start_sessions ?paths ?rt)"
      using r assms(2) False by (auto simp: refresh_carrier_groups_def set_paths_def Let_def case_prod_unfold)
    note f = started_fields [OF out(2)]
    have "sessions_fine ?rt" using inv(2) by (auto simp: sessions_fine_def set_paths_def distinct_map_filter)
    then have d': "distinct (map fst (crt_sessions rt'))" using start_sessions_fine [of ?rt ?paths] unfolding out(2) sessions_fine_def by blast
    have "map_of (crt_sessions rt') name = Some (i, p)" if "map_of (crt_sessions rt) name = Some (i, p)" "map_of ?paths name = Some p" for name i p
      using that start_sessions_lookup [of ?paths ?rt name "(i, p)"] lookup_filter_key [OF d, of "session_of_path ?paths" name]
      by (simp add: out(2) session_of_path_def)
    moreover have "set (fst (start_sessions ?paths ?rt)) = {i. \<exists>name p. map_of (crt_sessions rt') name = Some (i, p) \<and> map_of (crt_sessions rt) name \<noteq> Some (i, p)}"
    proof (intro set_eqI iffI)
      fix i
      assume i: "i \<in> set (fst (start_sessions ?paths ?rt))"
      then have "crt_next rt \<le> i" using start_sessions_numbers [of ?paths ?rt] by (simp add: set_paths_def)
      with i young d d' start_sessions_started [of ?rt ?paths i] show "i \<in> {i. \<exists>name p. map_of (crt_sessions rt') name = Some (i, p) \<and> map_of (crt_sessions rt) name \<noteq> Some (i, p)}"
        unfolding out(2) by (fastforce simp: not_less [symmetric])
    next
      fix i
      assume "i \<in> {i. \<exists>name p. map_of (crt_sessions rt') name = Some (i, p) \<and> map_of (crt_sessions rt) name \<noteq> Some (i, p)}"
      then show "i \<in> set (fst (start_sessions ?paths ?rt))" using d d' start_sessions_members [of _ i _ ?paths ?rt] unfolding out(2) by fastforce
    qed
    moreover have "set (map (\<lambda>(name, i, p). i) (filter (\<lambda>x. \<not> session_of_path ?paths x) (crt_sessions rt))) =
        {i. \<exists>name p. map_of (crt_sessions rt) name = Some (i, p) \<and> map_of ?paths name \<noteq> Some p}"
      using d by (force simp: session_of_path_def)
    ultimately show ?thesis using lookup f unfolding out(1) by simp
  qed
qed

section \<open>Limits and counters\<close>

text \<open>
  A client keeps its limit of streams: it never serves more SOCKS connections at a time, nor has more
  flows, than \<open>maxStreams\<close>; and it keeps a map of carriers for exactly the flows it has.
\<close>

theorem client_limits:
  assumes "client_reachable client path_match rt" "tt_max_streams (client_tcp client) > 0"
  shows "int (length (crt_accepted rt)) \<le> tt_max_streams (client_tcp client) \<and> int (card (dom (map_of (crt_flows rt)))) \<le> tt_max_streams (client_tcp client) \<and>
    dom (map_of (crt_carriers rt)) = dom (map_of (crt_flows rt))"
proof -
  have inv: "keys_ok rt" "limits_ok (tt_max_streams (client_tcp client)) rt" using reachable_client_inv [OF assms(1)] by (simp_all add: client_inv_def)
  have "card (dom (map_of (crt_flows rt))) = length (crt_flows rt)"
    using inv(1) by (simp add: keys_ok_def dom_map_of_conv_image_fst card_image distinct_map distinct_card)
  with inv assms(2) show ?thesis by (simp add: keys_ok_def limits_ok_def dom_map_of_conv_image_fst)
qed

text \<open>
  C31. The sessions and the counters of a client are those of its present interfaces: there is one path
  session for each path, made for exactly this path, no two share a number, and a group that asks for
  the session of a path is sent to it exactly when the path is still the current one; a counter or time
  of the last read that is shown for an interface was made for its present path.
\<close>

theorem sessions_follow_paths:
  assumes "client_reachable client path_match rt"
  shows "(\<forall>name. map_option snd (map_of (crt_sessions rt) name) = map_of (crt_paths rt) name) \<and> distinct (map (fst \<circ> snd) (crt_sessions rt)) \<and>
    (\<forall>name path i. current_path_session name path rt = Some i \<longleftrightarrow> map_of (crt_sessions rt) name = Some (i, path)) \<and>
    (\<forall>name t. map_of (crt_traffic rt) name = Some t \<or> map_of (crt_last_received rt) name = Some t \<longrightarrow>
       (\<exists>path. map_of (crt_paths rt) name = Some path \<and> crt_made_for rt t = Some (name, path)))"
proof -
  have inv: "paths_ok rt" "counters_ok rt" using reachable_client_inv [OF assms] by (simp_all add: client_inv_def)
  then have paths: "map_option snd (map_of (crt_sessions rt) name) = map_of (crt_paths rt) name" for name by (simp add: paths_ok_def)
  have "current_path_session name path rt = Some i \<longleftrightarrow> map_of (crt_sessions rt) name = Some (i, path)" for name path i
    using paths [of name] by (auto simp: current_path_session_def split: option.splits)
  with inv paths show ?thesis by (simp add: paths_ok_def sessions_fine_def counters_ok_def counter_ok_def)
qed

section \<open>A run of a client\<close>

definition sample_client :: role_client where
  "sample_client = new_client ((cf_client empty_config)\<lparr>cl_dst_addr := ''192.0.2.1:59501'',
     cl_transfer := empty_transfer\<lparr>tr_tcp := (tr_tcp empty_transfer)\<lparr>tt_max_streams := 8\<rparr>\<rparr>\<rparr>) ''1''"

definition sample_interfaces :: "net_interface list" where
  "sample_interfaces = [\<lparr>ni_name = ''lo'', ni_index = 1, ni_addrs = Some [''127.0.0.1/8'']\<rparr>, \<lparr>ni_name = ''eth0'', ni_index = 2, ni_addrs = Some [''10.0.0.2/24'']\<rparr>]"

definition no_match :: "string \<Rightarrow> string \<Rightarrow> bool option" where "no_match pattern name = Some False"

lemma sample_addresses: "address_by_interface (Some [''127.0.0.1/8'']) = ''''" "address_by_interface (Some [''10.0.0.2/24'']) = ''10.0.0.2''"
  by code_simp+

lemma sample_current: "current_paths no_match (rc_paths sample_client) sample_interfaces [] = [(''eth0'', sample_path\<lparr>cp_index := 2\<rparr>)]"
  by code_simp

definition sample_refreshed :: client_runtime where
  "sample_refreshed = new_client_runtime\<lparr>crt_paths := [(''eth0'', sample_path\<lparr>cp_index := 2\<rparr>)],
     crt_sessions := [(''eth0'', 0, sample_path\<lparr>cp_index := 2\<rparr>)], crt_next := 1\<rparr>"

lemma sample_refresh: "refresh no_match (rc_paths sample_client) (Some sample_interfaces) new_client_runtime = (RefreshDone [] [] [0], sample_refreshed)"
  by (simp add: refresh_def refresh_carrier_groups_def sample_current client_stopping_def new_client_runtime_def paths_stable_def equal_paths_def
      set_paths_def start_sessions_Cons sample_refreshed_def)

definition sample_busy :: client_runtime where
  "sample_busy = sample_refreshed\<lparr>crt_accepted := [1], crt_groups := [2], crt_flows := [(replicate 16 7, 2)], crt_carriers := [(replicate 16 7, [])],
     crt_traffic := [(''eth0'', 3)], crt_next := 4, crt_made_for := [3 \<mapsto> (''eth0'', sample_path\<lparr>cp_index := 2\<rparr>)]\<rparr>"

lemma sample_limit: "tt_max_streams (client_tcp sample_client) > 2" by code_simp

lemma sample_refreshed_reachable: "client_reachable sample_client no_match sample_refreshed"
  by (rule client_reachable.intros(2) [OF client_reachable.intros(1) client_step.Refresh [OF sample_refresh]])

lemma sample_busy_reachable: "client_reachable sample_client no_match sample_busy"
proof -
  let ?max = "tt_max_streams (client_tcp sample_client)"
  note defs = sample_refreshed_def new_client_runtime_def client_stopping_def
  have "start_accept_client ?max sample_refreshed = (Some 1, sample_refreshed\<lparr>crt_accepted := [1], crt_next := 2\<rparr>)"
    using sample_limit by (simp add: start_accept_client_def defs)
  note r = client_reachable.intros(2) [OF sample_refreshed_reachable client_step.Accept [OF this]]
  have "assign_carrier_group ?max (replicate 16 7) (sample_refreshed\<lparr>crt_accepted := [1], crt_next := 2\<rparr>) =
      (Inr (2, crt_paths sample_refreshed), sample_refreshed\<lparr>crt_accepted := [1], crt_groups := [2], crt_flows := [(replicate 16 7, 2)],
        crt_carriers := [(replicate 16 7, [])], crt_next := 3\<rparr>)"
    using sample_limit by (simp add: assign_carrier_group_def Let_def defs)
  note r = client_reachable.intros(2) [OF r client_step.Assign [OF this]]
  have "traffic_for_path ''eth0'' (sample_path\<lparr>cp_index := 2\<rparr>) (sample_refreshed\<lparr>crt_accepted := [1], crt_groups := [2], crt_flows := [(replicate 16 7, 2)],
        crt_carriers := [(replicate 16 7, [])], crt_next := 3\<rparr>) = (3, sample_busy)"
    by (simp add: traffic_for_path_def Let_def sample_busy_def defs)
  then show ?thesis using client_reachable.intros(2) [OF r client_step.Traffic] by blast
qed

lemma client_limits_witness: "int (card (dom (map_of (crt_flows sample_busy)))) \<le> tt_max_streams (client_tcp sample_client)"
  using client_limits [OF sample_busy_reachable] sample_limit by auto

lemma sessions_follow_paths_witness: "\<exists>path. map_of (crt_paths sample_busy) ''eth0'' = Some path \<and> crt_made_for sample_busy 3 = Some (''eth0'', path)"
  using sessions_follow_paths [OF sample_busy_reachable] by (simp add: sample_busy_def sample_refreshed_def)

lemma refresh_exact_witness:
  "set [] = {i. \<exists>name p. map_of (crt_sessions new_client_runtime) name = Some (i, p) \<and> map_of (crt_paths sample_refreshed) name \<noteq> Some p} \<and>
    map_of (crt_paths sample_refreshed) ''lo'' = None"
  using refresh_exact [OF client_reachable.intros(1) _ _ sample_refresh]
  by (simp add: client_stopping_def new_client_runtime_def sample_refreshed_def sample_interfaces_def)

end
