(* ===== verification/Interface_Sessions.thy ===== *)
theory Interface_Sessions
  imports Client_Runtime
begin

text \<open>
  The path sessions that the interfaces of a client have over time: \<open>refreshCarrierGroups\<close> in
  \<^verbatim>\<open>internal/clientrole/tcp_group.go\<close> takes the new paths under \<^verbatim>\<open>runtime.mu\<close>, then closes the path sessions it
  has removed, then calls \<open>reconcile\<close> of those it has made; each of them is a world of \<open>Path_Sessions\<close>, whose
  goroutines go on by themselves, also after \<open>close\<close>. The refreshes come one after the other, from
  \<open>runTCP\<close> and then from \<open>refreshLoop\<close>.
\<close>

section \<open>State\<close>

text \<open>
  \<open>iv_path\<close> are the path sessions by number, from their first \<open>reconcile\<close>, before which they do nothing;
  \<open>iv_stale\<close> and \<open>iv_started\<close> what the running refresh still has to close and to start. \<open>iv_name\<close> is history: the
  interface a path session was made for.
\<close>

record interfaces_world =
  iv_rt :: client_runtime
  iv_path :: "nat \<Rightarrow> path_world option"
  iv_stale :: "nat list"
  iv_started :: "nat list"
  iv_name :: "nat \<Rightarrow> string option"

definition new_interfaces_world :: interfaces_world where
  "new_interfaces_world = \<lparr>iv_rt = new_client_runtime, iv_path = (\<lambda>_. None), iv_stale = [], iv_started = [], iv_name = (\<lambda>_. None)\<rparr>"

definition close_world :: "path_world \<Rightarrow> path_world" where
  "close_world w =
     (let (sess, ps) = close_path (pw_path w)
      in w\<lparr>pw_path := ps, pw_pcs := (case sess of None \<Rightarrow> [] | Some x \<Rightarrow> [Path_Sessions.CloseSession x]) @ pw_pcs w\<rparr>)"

text \<open>The interfaces of the path sessions in the map.\<close>

definition names_of :: "(string \<times> nat \<times> client_path) list \<Rightarrow> nat \<Rightarrow> string option" where
  "names_of sessions = map_of (map (\<lambda>(name, i, p). (i, name)) sessions)"

section \<open>Steps\<close>

text \<open>
  \<open>Works\<close> is any step of a path session, its \<open>close\<close> by \<open>shutdown\<close> included; \<open>Elsewhere\<close> any other critical section of
  the runtime but the last of \<open>shutdown\<close>, which forgets the map.
\<close>

inductive interfaces_step :: "role_client \<Rightarrow> (string \<Rightarrow> string \<Rightarrow> bool option) \<Rightarrow> interfaces_world \<Rightarrow> interfaces_world \<Rightarrow> bool" for client path_match where
  Refreshes: "iv_stale v = [] \<Longrightarrow> iv_started v = [] \<Longrightarrow> refresh path_match m interfaces (iv_rt v) = (RefreshDone stale grs started, rt) \<Longrightarrow>
    interfaces_step client path_match v (v\<lparr>iv_rt := rt, iv_stale := stale, iv_started := started, iv_name := iv_name v ++ names_of (crt_sessions rt)\<rparr>)"
| ClosesStale: "iv_stale v = i # stale \<Longrightarrow>
    interfaces_step client path_match v (v\<lparr>iv_path := (iv_path v)(i := map_option close_world (iv_path v i)), iv_stale := stale\<rparr>)"
| Starts: "iv_stale v = [] \<Longrightarrow> iv_started v = i # started \<Longrightarrow>
    interfaces_step client path_match v (v\<lparr>iv_path := (iv_path v)(i \<mapsto> new_world), iv_started := started\<rparr>)"
| Works: "iv_path v i = Some w \<Longrightarrow> physical_step w w' \<Longrightarrow> interfaces_step client path_match v (v\<lparr>iv_path := (iv_path v)(i \<mapsto> w')\<rparr>)"
| Elsewhere: "client_step client path_match (iv_rt v) rt \<Longrightarrow> crt_sessions rt = crt_sessions (iv_rt v) \<Longrightarrow>
    interfaces_step client path_match v (v\<lparr>iv_rt := rt\<rparr>)"

inductive interfaces_reachable :: "role_client \<Rightarrow> (string \<Rightarrow> string \<Rightarrow> bool option) \<Rightarrow> interfaces_world \<Rightarrow> bool" for client path_match where
  "interfaces_reachable client path_match new_interfaces_world"
| "interfaces_reachable client path_match v \<Longrightarrow> interfaces_step client path_match v v' \<Longrightarrow> interfaces_reachable client path_match v'"

section \<open>Invariants\<close>

text \<open>A path session that has begun and is not closed.\<close>

definition live :: "interfaces_world \<Rightarrow> nat \<Rightarrow> bool" where
  "live v i \<longleftrightarrow> (\<exists>w. iv_path v i = Some w \<and> \<not> ps_closed (pw_path w))"

definition made_inv :: "interfaces_world \<Rightarrow> bool" where
  "made_inv v \<longleftrightarrow> (\<forall>i w. iv_path v i = Some w \<longrightarrow> path_reachable w) \<and> (\<forall>i \<in> dom (iv_path v). i < crt_next (iv_rt v)) \<and>
     (\<forall>name i p. (name, i, p) \<in> set (crt_sessions (iv_rt v)) \<longrightarrow> iv_name v i = Some name) \<and>
     distinct (iv_started v) \<and> (\<forall>i \<in> set (iv_started v). i \<in> session_ids (iv_rt v) \<and> iv_path v i = None)"

definition single_inv :: "interfaces_world \<Rightarrow> bool" where
  "single_inv v \<longleftrightarrow> (\<forall>i. live v i \<longrightarrow> i \<in> session_ids (iv_rt v) \<or> i \<in> set (iv_stale v)) \<and>
     (\<forall>i j. live v i \<and> live v j \<and> iv_name v i = iv_name v j \<longrightarrow> i = j)"

lemma closed_stays: "physical_step w w' \<Longrightarrow> ps_closed (pw_path w) \<Longrightarrow> ps_closed (pw_path w')"
  by (induction rule: physical_step.induct)
    (auto simp: moves_def begin_attempt_def finish_attempt_def install_session_def session_ended_def plan_retry_def undo_retry_def end_wait_def
      close_path_def Let_def split: if_splits)

lemma close_world_step: "physical_step w (close_world w)"
  unfolding close_world_def by (cases "close_path (pw_path w)") (auto intro: physical_step.Close)

lemma close_world_closed: "ps_closed (pw_path (close_world w))"
  by (auto simp: close_world_def close_path_def split: if_splits)

lemma interfaces_runtime: "interfaces_reachable client path_match v \<Longrightarrow> client_reachable client path_match (iv_rt v)"
proof (induction rule: interfaces_reachable.induct)
  case 1
  show ?case by (simp add: new_interfaces_world_def client_reachable.intros(1))
next
  case (2 v v')
  from 2(2) show ?case by cases (use 2(3) in \<open>auto intro: client_reachable.intros(2) client_step.Refresh\<close>)
qed

lemma names_ofD:
  assumes "sessions_fine rt" "(name, i, p) \<in> set (crt_sessions rt)"
  shows "names_of (crt_sessions rt) i = Some name"
proof -
  have "distinct (map fst (map (\<lambda>(name, i, p). (i, name)) (crt_sessions rt)))"
    using assms(1) by (simp add: sessions_fine_def comp_def case_prod_unfold)
  with assms(2) show ?thesis unfolding names_of_def by (intro map_of_is_SomeI) force+
qed

lemma names_of_ids: "names_of (crt_sessions rt) i = Some name \<Longrightarrow> i \<in> session_ids rt"
  by (force simp: names_of_def session_ids_def dest!: map_of_SomeD)

lemma session_name:
  assumes "sessions_fine rt" "(name, i, p) \<in> set (crt_sessions rt)" "(name, j, q) \<in> set (crt_sessions rt)"
  shows "i = j"
  using assms eq_key_imp_eq_value [of "crt_sessions rt" name "(i, p)" "(j, q)"] by (simp add: sessions_fine_def)

text \<open>What a refresh that does something does to the map.\<close>

lemma refresh_done:
  assumes "refresh path_match m interfaces rt = (RefreshDone stale grs started, rt')" "sessions_fine rt"
  shows "sessions_fine rt'" "distinct started" "set started \<subseteq> session_ids rt'" "\<forall>i \<in> set started. crt_next rt \<le> i"
    "crt_next rt \<le> crt_next rt'" "\<forall>(name, i, p) \<in> set (crt_sessions rt'). (name, i, p) \<in> set (crt_sessions rt) \<or> crt_next rt \<le> i"
proof -
  obtain paths where out: "rt' = snd (start_sessions paths ((set_paths paths rt)\<lparr>crt_sessions := filter (session_of_path paths) (crt_sessions rt)\<rparr>))"
    "started = fst (start_sessions paths ((set_paths paths rt)\<lparr>crt_sessions := filter (session_of_path paths) (crt_sessions rt)\<rparr>))"
    using refresh_doneD [OF assms(1)] by blast
  let ?rt = "(set_paths paths rt)\<lparr>crt_sessions := filter (session_of_path paths) (crt_sessions rt)\<rparr>"
  have fine: "sessions_fine ?rt" using assms(2) by (auto simp: sessions_fine_def set_paths_def distinct_map_filter)
  then show "sessions_fine rt'" unfolding out(1) by (rule start_sessions_fine)
  show "distinct started" unfolding out(2) by (rule start_sessions_distinct)
  show "set started \<subseteq> session_ids rt'" using start_sessions_started [of ?rt paths] by (force simp: out session_ids_def)
  show "\<forall>i \<in> set started. crt_next rt \<le> i" using start_sessions_numbers [of paths ?rt] by (simp add: out(2) set_paths_def)
  show "crt_next rt \<le> crt_next rt'" using started_fields [OF out(1)] by simp
  show "\<forall>(name, i, p) \<in> set (crt_sessions rt'). (name, i, p) \<in> set (crt_sessions rt) \<or> crt_next rt \<le> i"
    using start_sessions_members [of _ _ _ paths ?rt] by (fastforce simp: out(1) set_paths_def)
qed

section \<open>The invariants hold\<close>

lemma made_invD:
  assumes "made_inv v"
  shows "iv_path v i = Some w \<Longrightarrow> path_reachable w" "iv_path v i = Some w \<Longrightarrow> i < crt_next (iv_rt v)"
    "(name, i, p) \<in> set (crt_sessions (iv_rt v)) \<Longrightarrow> iv_name v i = Some name" "distinct (iv_started v)"
    "i \<in> set (iv_started v) \<Longrightarrow> i \<in> session_ids (iv_rt v) \<and> iv_path v i = None"
  using assms unfolding made_inv_def by blast+

lemma made_step:
  assumes "interfaces_step client path_match v v'" "made_inv v" "sessions_fine (iv_rt v)"
  shows "made_inv v'"
  using assms(1)
proof cases
  case (Refreshes m interfaces stale grs started rt)
  note out = refresh_done [OF Refreshes(4) assms(3)]
  have "(iv_name v ++ names_of (crt_sessions rt)) i = Some name" if "(name, i, p) \<in> set (crt_sessions rt)" for name i p
    using names_ofD [OF out(1) that] by (simp add: map_add_def)
  moreover have "iv_path v i = None" if "i \<in> set started" for i
    using that out(4) made_invD(2) [OF assms(2), of i] by (cases "iv_path v i") fastforce+
  moreover have "i < crt_next rt" if "i \<in> dom (iv_path v)" for i using that made_invD(2) [OF assms(2), of i] out(5) by auto
  ultimately show ?thesis using made_invD(1) [OF assms(2)] out(2,3) unfolding made_inv_def Refreshes(1) by simp blast
next
  case (ClosesStale i stale)
  show ?thesis using assms(2) by (auto simp: made_inv_def ClosesStale(1) intro: path_reachable.intros(2) close_world_step)
next
  case (Starts i started)
  have i: "i \<in> session_ids (iv_rt v)" "i \<notin> set started" using assms(2) Starts(3) by (auto simp: made_inv_def)
  then have "i < crt_next (iv_rt v)" using assms(3) by (auto simp: sessions_fine_def session_ids_def)
  then show ?thesis using assms(2) i Starts(3) by (auto simp: made_inv_def Starts(1) intro: path_reachable.intros(1))
next
  case (Works i w w')
  then show ?thesis using assms(2) by (fastforce simp: made_inv_def intro: path_reachable.intros(2))
next
  case (Elsewhere rt)
  have "crt_next (iv_rt v) \<le> crt_next rt" by (rule client_step_next [OF Elsewhere(2)])
  then have "i < crt_next rt" if "i \<in> dom (iv_path v)" for i using that made_invD(2) [OF assms(2), of i] by auto
  then show ?thesis using assms(2) Elsewhere(3) unfolding made_inv_def Elsewhere(1) session_ids_def by simp
qed

text \<open>Fewer path sessions that are live, in the same maps.\<close>

lemma single_fewer:
  assumes "single_inv v" "\<And>i. live v' i \<Longrightarrow> live v i \<and> (i \<in> session_ids (iv_rt v') \<or> i \<in> set (iv_stale v') \<or> i \<notin> session_ids (iv_rt v) \<union> set (iv_stale v))"
    "\<And>i. live v i \<Longrightarrow> iv_name v' i = iv_name v i"
  shows "single_inv v'"
  using assms unfolding single_inv_def by (metis UnCI UnE)

lemma single_step:
  assumes "interfaces_step client path_match v v'" "made_inv v" "sessions_fine (iv_rt v)" "single_inv v"
  shows "single_inv v'"
  using assms(1)
proof cases
  case (Refreshes m interfaces stale grs started rt)
  note out = refresh_done [OF Refreshes(4) assms(3)]
  have same: "live v' i = live v i" for i by (simp add: live_def Refreshes(1))
  have name: "iv_name v' i = iv_name v i" if "live v i" for i
  proof (cases "names_of (crt_sessions rt) i")
    case (Some name)
    then obtain p where p: "(name, i, p) \<in> set (crt_sessions rt)" by (auto simp: names_of_def dest!: map_of_SomeD)
    have "i < crt_next (iv_rt v)" using that assms(2) by (auto simp: live_def made_inv_def)
    with p out(6) have "(name, i, p) \<in> set (crt_sessions (iv_rt v))" by fastforce
    then have "iv_name v i = Some name" by (rule made_invD(3) [OF assms(2)])
    with Some show ?thesis by (simp add: Refreshes(1))
  qed (simp add: Refreshes(1) map_add_def)
  have "i \<in> session_ids rt \<or> i \<in> set stale" if "live v i" for i
    using that assms(4) refresh_sessions [OF Refreshes(4)] Refreshes(2) by (auto simp: single_inv_def)
  then show ?thesis by (intro single_fewer [OF assms(4)]) (use same name in \<open>auto simp: Refreshes(1)\<close>)
next
  case (ClosesStale i stale)
  have "live v' j \<longleftrightarrow> live v j \<and> j \<noteq> i" for j
    using close_world_closed by (auto simp: live_def ClosesStale(1))
  then show ?thesis by (intro single_fewer [OF assms(4)]) (use ClosesStale(2) in \<open>auto simp: ClosesStale(1)\<close>)
next
  case (Starts i started)
  have i: "i \<in> session_ids (iv_rt v)" using assms(2) Starts(3) by (auto simp: made_inv_def)
  then obtain name p where p: "(name, i, p) \<in> set (crt_sessions (iv_rt v))" by (auto simp: session_ids_def)
  have old: "live v j" if "live v' j" "j \<noteq> i" for j using that by (auto simp: live_def Starts(1))
  have alone: "j = i" if "live v' j" "iv_name v j = iv_name v i" for j
  proof (rule ccontr)
    assume "j \<noteq> i"
    with old that(1) assms(4) Starts(2) have "j \<in> session_ids (iv_rt v)" by (auto simp: single_inv_def)
    then obtain name' q where q: "(name', j, q) \<in> set (crt_sessions (iv_rt v))" by (auto simp: session_ids_def)
    with made_invD(3) [OF assms(2) p] made_invD(3) [OF assms(2) q] that(2) have "name' = name" by simp
    with session_name [OF assms(3)] p q \<open>j \<noteq> i\<close> show False by blast
  qed
  show ?thesis unfolding single_inv_def
  proof (intro conjI allI impI)
    fix j assume "live v' j"
    then show "j \<in> session_ids (iv_rt v') \<or> j \<in> set (iv_stale v')"
      using i old [of j] assms(4) by (cases "j = i") (auto simp: single_inv_def Starts(1))
  next
    fix j k assume *: "live v' j \<and> live v' k \<and> iv_name v' j = iv_name v' k"
    then have name: "iv_name v j = iv_name v k" by (simp add: Starts(1))
    show "j = k"
    proof (cases "j = i \<or> k = i")
      case True
      then show ?thesis using alone [of j] alone [of k] * name by auto
    next
      case False
      then have "live v j" "live v k" using old * by blast+
      with name assms(4) show ?thesis unfolding single_inv_def by blast
    qed
  qed
next
  case (Works i w w')
  have "live v' j \<Longrightarrow> live v j" for j using closed_stays [OF Works(3)] Works(2) by (auto simp: live_def Works(1) split: if_splits)
  then show ?thesis by (intro single_fewer [OF assms(4)]) (auto simp: Works(1))
next
  case (Elsewhere rt)
  then show ?thesis by (intro single_fewer [OF assms(4)]) (auto simp: Elsewhere(1) live_def session_ids_def)
qed

lemma interfaces_inv:
  assumes "interfaces_reachable client path_match v"
  shows "made_inv v \<and> single_inv v"
  using assms
proof induction
  case 1
  show ?case by (simp add: new_interfaces_world_def made_inv_def single_inv_def live_def new_client_runtime_def)
next
  case (2 v v')
  have "sessions_fine (iv_rt v)" using reachable_client_inv [OF interfaces_runtime [OF 2(1)]] by (simp add: client_inv_def paths_ok_def)
  with made_step [OF 2(2)] single_step [OF 2(2)] 2(3) show ?case by blast
qed

section \<open>Properties\<close>

text \<open>
  C29. An interface has one physical session. In every run of the refreshes with the path sessions they
  make: of all the path sessions that an interface has had at most one has begun and is not closed, so
  a new one never dials before the one it replaces was closed; each path session has at most
  one session open and at most one goroutine that makes attempts; and the session that a look-up for an
  interface hands out is the one that the goroutine of its live path session watches. A path session
  that was replaced may still be in a dial or in a handshake, which its \<open>close\<close> does not wait for: it
  hands out nothing any more, and as long as it has a session open a goroutine of it is left to close it.
\<close>

theorem one_session_per_interface:
  assumes "interfaces_reachable client path_match v"
  shows "(\<forall>i j. live v i \<and> live v j \<and> iv_name v i = iv_name v j \<longrightarrow> i = j) \<and>
    (\<forall>i w. iv_path v i = Some w \<longrightarrow> (\<forall>a \<in> pw_open w. \<forall>b \<in> pw_open w. a = b) \<and> length (agents w) \<le> 1 \<and>
       (ps_closed (pw_path w) \<and> pw_open w \<noteq> {} \<longrightarrow> pw_pcs w \<noteq> [])) \<and>
    (\<forall>name path i w is_closed same sess g. current_path_session name path (iv_rt v) = Some i \<and> iv_path v i = Some w \<and>
       current_session is_closed same (pw_path w) = Some (sess, g) \<longrightarrow>
       live v i \<and> iv_name v i = Some name \<and> (\<exists>t. agents w = [Watching g sess t] \<or> agents w = [Ended g sess t]))"
proof -
  note inv = interfaces_inv [OF assms]
  have worlds: "path_reachable w" if "iv_path v i = Some w" for i w using that inv by (auto simp: made_inv_def)
  have name: "live v i \<and> iv_name v i = Some name"
    if h: "current_path_session name path (iv_rt v) = Some i" "iv_path v i = Some w" "current_session is_closed same (pw_path w) = Some (sess, g)"
    for name path i w is_closed same sess g
  proof -
    obtain p where "map_of (crt_sessions (iv_rt v)) name = Some (i, p)" using h(1)
      by (cases "map_of (crt_sessions (iv_rt v)) name") (auto simp: current_path_session_def split: if_splits)
    then have "iv_name v i = Some name" using inv by (auto intro: made_invD(3) dest!: map_of_SomeD)
    with that(2,3) show ?thesis by (auto simp: live_def current_session_def split: if_splits)
  qed
  have watched: "\<exists>t. agents w = [Watching g sess t] \<or> agents w = [Ended g sess t]"
    if "iv_path v i = Some w" "current_session is_closed same (pw_path w) = Some (sess, g)" for i w is_closed same sess g
    using one_session_per_path [OF worlds [OF that(1)]] that(2) by blast
  show ?thesis
  proof (intro conjI)
    show "\<forall>i j. live v i \<and> live v j \<and> iv_name v i = iv_name v j \<longrightarrow> i = j" using inv unfolding single_inv_def by blast
    show "\<forall>i w. iv_path v i = Some w \<longrightarrow> (\<forall>a \<in> pw_open w. \<forall>b \<in> pw_open w. a = b) \<and> length (agents w) \<le> 1 \<and>
       (ps_closed (pw_path w) \<and> pw_open w \<noteq> {} \<longrightarrow> pw_pcs w \<noteq> [])"
      using one_session_per_path [OF worlds] closed_left_clean [OF worlds] by blast
  qed (use name watched in blast)
qed

section \<open>A path that changes while its session is dialled\<close>

definition moved_interfaces :: "net_interface list" where
  "moved_interfaces = [\<lparr>ni_name = ''eth0'', ni_index = 2, ni_addrs = Some [''10.0.0.3/24'']\<rparr>]"

abbreviation moved_path :: client_path where "moved_path \<equiv> sample_path\<lparr>cp_index := 2, cp_address := ''10.0.0.3''\<rparr>"

lemma moved_current: "current_paths no_match (rc_paths sample_client) moved_interfaces [] = [(''eth0'', moved_path)]"
  by code_simp

definition moved_refreshed :: client_runtime where
  "moved_refreshed = sample_refreshed\<lparr>crt_paths := [(''eth0'', moved_path)], crt_sessions := [(''eth0'', 1, moved_path)], crt_next := 2\<rparr>"

lemma moved_refresh: "refresh no_match (rc_paths sample_client) (Some moved_interfaces) sample_refreshed = (RefreshDone [0] [] [1], moved_refreshed)"
  by (simp add: refresh_def refresh_carrier_groups_def moved_current client_stopping_def new_client_runtime_def paths_stable_def equal_paths_def
      set_paths_def start_sessions_Cons sample_refreshed_def moved_refreshed_def session_of_path_def sample_path_def)

definition dialing_world :: "bool \<Rightarrow> path_world" where
  "dialing_world closed = \<lparr>pw_path = new_path_session\<lparr>ps_generation := 1, ps_in_flight := True, ps_closed := closed\<rparr>, pw_pcs = [Dialing 1],
     pw_open = {}, pw_next = 0, pw_stopping = False\<rparr>"

definition sample_interfaces_world :: "client_runtime \<Rightarrow> (nat \<Rightarrow> path_world option) \<Rightarrow> nat list \<Rightarrow> nat list \<Rightarrow> (nat \<Rightarrow> string option) \<Rightarrow> interfaces_world" where
  "sample_interfaces_world rt ws stale started name = \<lparr>iv_rt = rt, iv_path = ws, iv_stale = stale, iv_started = started, iv_name = name\<rparr>"

lemmas sample_interfaces_simps = sample_interfaces_world_def new_world_def moves_def dialing_world_def new_path_session_def begin_attempt_def close_world_def close_path_def

abbreviation reached_interfaces :: "interfaces_world \<Rightarrow> bool" where
  "reached_interfaces \<equiv> interfaces_reachable sample_client no_match"

lemma interfaces_next: "reached_interfaces v \<Longrightarrow> interfaces_step sample_client no_match v v' \<Longrightarrow> v' = v'' \<Longrightarrow> reached_interfaces v''"
  by (auto intro: interfaces_reachable.intros(2))

lemma dialing_reached: "reached_interfaces (sample_interfaces_world sample_refreshed [0 \<mapsto> dialing_world False] [] [] [0 \<mapsto> ''eth0''])"
proof -
  let ?w = "sample_interfaces_world sample_refreshed"
  let ?starting = "\<lparr>pw_path = new_path_session\<lparr>ps_generation := 1, ps_in_flight := True\<rparr>, pw_pcs = [Starting 1], pw_open = {}, pw_next = 0, pw_stopping = False\<rparr>"
  have "reached_interfaces (?w Map.empty [] [0] [0 \<mapsto> ''eth0''])"
    by (rule interfaces_next [OF interfaces_reachable.intros(1) interfaces_step.Refreshes [OF _ _ _]])
      (use sample_refresh in \<open>auto simp: new_interfaces_world_def sample_interfaces_world_def names_of_def sample_refreshed_def\<close>)
  then have "reached_interfaces (?w [0 \<mapsto> new_world] [] [] [0 \<mapsto> ''eth0''])"
    by (rule interfaces_next [OF _ interfaces_step.Starts]) (simp_all add: sample_interfaces_world_def)
  then have "reached_interfaces (?w [0 \<mapsto> ?starting] [] [] [0 \<mapsto> ''eth0''])"
    by (rule interfaces_next [OF _ interfaces_step.Works [OF _ physical_step.Reconcile [OF _ surjective_pairing]]]) (auto simp: sample_interfaces_simps Let_def)
  then show ?thesis
    by (rule interfaces_next [OF _ interfaces_step.Works [OF _ physical_step.StartDial [where g = 1]]]) (auto simp: sample_interfaces_simps)
qed

lemma replaced_reached:
  "reached_interfaces (sample_interfaces_world moved_refreshed [0 \<mapsto> dialing_world True, 1 \<mapsto> new_world] [] [] [0 \<mapsto> ''eth0'', 1 \<mapsto> ''eth0''])"
proof -
  let ?w = "sample_interfaces_world moved_refreshed"
  have "reached_interfaces (?w [0 \<mapsto> dialing_world False] [0] [1] [0 \<mapsto> ''eth0'', 1 \<mapsto> ''eth0''])"
    by (rule interfaces_next [OF dialing_reached interfaces_step.Refreshes [OF _ _ _]])
      (use moved_refresh in \<open>auto simp: sample_interfaces_world_def names_of_def moved_refreshed_def\<close>)
  then have "reached_interfaces (?w [0 \<mapsto> dialing_world True] [] [1] [0 \<mapsto> ''eth0'', 1 \<mapsto> ''eth0''])"
    by (rule interfaces_next [OF _ interfaces_step.ClosesStale]) (auto simp: sample_interfaces_simps)
  then show ?thesis by (rule interfaces_next [OF _ interfaces_step.Starts]) (auto simp: sample_interfaces_world_def)
qed

lemma one_session_per_interface_witness:
  "\<exists>v w. reached_interfaces v \<and> iv_name v 0 = Some ''eth0'' \<and> iv_name v 1 = Some ''eth0'' \<and> live v 1 \<and> \<not> live v 0 \<and> iv_path v 0 = Some w \<and> agents w = [Dialing 1]"
proof -
  let ?v = "sample_interfaces_world moved_refreshed [0 \<mapsto> dialing_world True, 1 \<mapsto> new_world] [] [] [0 \<mapsto> ''eth0'', 1 \<mapsto> ''eth0'']"
  have live: "live ?v 1" by (simp add: live_def sample_interfaces_simps)
  moreover have "\<not> live ?v 0"
    using one_session_per_interface [OF replaced_reached, THEN conjunct1, rule_format, of 0 1] live by (auto simp: sample_interfaces_world_def)
  moreover have "agents (dialing_world True) = [Dialing 1]" by (simp add: agents_def dialing_world_def)
  ultimately show ?thesis using replaced_reached by (intro exI [of _ ?v] exI [of _ "dialing_world True"]) (simp add: sample_interfaces_world_def)
qed

end
