(* ===== verification/Client_Lives.thy ===== *)
theory Client_Lives
  imports Client_Runtime Socks5 Limits
begin

text \<open>
  The life of a client (\<open>runTCP\<close>, \<open>accept\<close>, \<open>readDestination\<close>, \<open>refreshLoop\<close>, \<open>closeOnCancel\<close> and \<open>shutdown\<close> in
  \<^verbatim>\<open>internal/clientrole/tcp.go\<close>): the loop that accepts SOCKS connections, one goroutine for each of
  them from the handshake to the end of its flow, and the shutdown that waits for all of them. The critical
  sections are those of \<open>Client_Runtime\<close>; the handshake and the replies are the functions of \<open>Socks5\<close> on the
  connection's own bytes.
\<close>

section \<open>State\<close>

text \<open>
  \<open>accept\<close>: in the handshake, drawing the identifier, before \<open>assignCarrierGroup\<close>, writing the refusal,
  waiting for the flow, in \<open>releaseCarrierGroup\<close> before and after \<open>group.close\<close>, and in the deferred calls.
\<close>

datatype client_pc = ReadDestination | DrawStreamID destination | AssignGroup destination stream_id | RefuseConn go_error
  | AwaitFlow destination stream_id nat | CloseFlowGroup destination stream_id nat | ForgetFlow destination stream_id nat | CloseConn

text \<open>
  The goroutine of \<open>runTCP\<close>: accepting, then \<open>shutdown\<close> before its first critical section, before \<open>cancel\<close>
  and while it closes one thing after the other, with the sessions, connections, flows and groups that are left to
  close; then waiting for the goroutines, and done.
\<close>

datatype client_loop = LoopAccepting | LoopReturned | LoopStopping "nat list" "nat list" "nat list" "nat list"
  | LoopClosing "nat list" "nat list" "nat list" "nat list" | LoopWaiting | LoopOver

text \<open>Who has started a goroutine of \<^verbatim>\<open>groupWG\<close>: the group of a flow or a path session.\<close>

datatype worker_owner = OfGroup nat | OfSession nat

text \<open>
  Connections, groups and path sessions are named by their numbers. \<open>lv_wire\<close> is the state of a connection and
  \<open>lv_first\<close> what it was when it was accepted; \<open>lv_heard\<close> are the connections whose request, or the end of it,
  has arrived or whose deadline has passed, \<open>lv_shut\<close> those that \<open>shutdown\<close> has closed. \<open>lv_ended\<close> are the
  flows that are done, by the number of their group, \<open>lv_closed\<close> the groups and \<open>lv_dead\<close> the path sessions
  that were closed, \<open>lv_stale\<close> those that a refresh has taken out of the map and closes next. \<open>lv_workers\<close> is
  \<^verbatim>\<open>groupWG\<close>; \<open>lv_on_cancel\<close>, \<open>lv_page\<close> and \<open>lv_ticking\<close> tell whether \<open>closeOnCancel\<close>, the management page and
  \<open>refreshLoop\<close>, the goroutines of \<^verbatim>\<open>backgroundWG\<close>, run.
\<close>

record client_life =
  lv_rt :: client_runtime
  lv_loop :: client_loop
  lv_conns :: "(nat \<times> client_pc) list"
  lv_wire :: "nat \<Rightarrow> duplex"
  lv_first :: "nat \<Rightarrow> duplex"
  lv_heard :: "nat set"
  lv_shut :: "nat set"
  lv_ended :: "nat set"
  lv_closed :: "nat set"
  lv_dead :: "nat set"
  lv_stale :: "nat list"
  lv_workers :: "worker_owner list"
  lv_on_cancel :: bool
  lv_page :: bool
  lv_ticking :: bool

text \<open>\<open>closeOnCancel\<close> and \<open>refreshLoop\<close> always run, the page when it is configured.\<close>

definition client_life_start :: "role_client \<Rightarrow> duplex \<Rightarrow> client_life" where
  "client_life_start client d = \<lparr>lv_rt = new_client_runtime, lv_loop = LoopAccepting, lv_conns = [], lv_wire = (\<lambda>_. d), lv_first = (\<lambda>_. d),
     lv_heard = {}, lv_shut = {}, lv_ended = {}, lv_closed = {}, lv_dead = {}, lv_stale = [], lv_workers = [],
     lv_on_cancel = True, lv_page = (wm_listen_addr (cl_web_manager (rc_cfg client)) \<noteq> []), lv_ticking = True\<rparr>"

section \<open>Steps\<close>

definition read_destination :: "role_client \<Rightarrow> destination io" where
  "read_destination client =
     read_connect_with_auth (duration_of_millis (tt_open_timeout_millis (client_tcp client))) (map_option credentials_of (cl_socks5_auth (rc_cfg client)))"

definition write_refusal :: "role_client \<Rightarrow> go_error \<Rightarrow> unit io" where
  "write_refusal client e = write_reply (reply_for_error e) (duration_of_millis (tt_write_timeout_millis (client_tcp client)))"

definition conn_at :: "nat \<Rightarrow> client_pc \<Rightarrow> client_life \<Rightarrow> bool" where
  "conn_at c pc s \<longleftrightarrow> map_of (lv_conns s) c = Some pc"

definition conn_to :: "nat \<Rightarrow> client_pc \<Rightarrow> client_life \<Rightarrow> client_life" where
  "conn_to c pc s = s\<lparr>lv_conns := AList.update c pc (lv_conns s)\<rparr>"

text \<open>
  \<open>NewStreamID\<close> draws sixteen random bytes; that they are none of those in use is all that is asked of them.
\<close>

inductive conn_step :: "role_client \<Rightarrow> client_life \<Rightarrow> client_life \<Rightarrow> bool" for client where
  Reads: "conn_at c ReadDestination s \<Longrightarrow> c \<in> lv_heard s \<Longrightarrow> read_destination client (lv_wire s c) = (Inr dest, d) \<Longrightarrow>
    conn_step client s (conn_to c (DrawStreamID dest) (s\<lparr>lv_wire := (lv_wire s)(c := d)\<rparr>))"
| ReadCut: "conn_at c ReadDestination s \<Longrightarrow> c \<in> lv_shut s \<Longrightarrow> conn_step client s (conn_to c CloseConn s)"
| ReadFails: "conn_at c ReadDestination s \<Longrightarrow> c \<in> lv_heard s \<Longrightarrow> read_destination client (lv_wire s c) = (Inl e, d) \<Longrightarrow>
    conn_step client s (conn_to c CloseConn (s\<lparr>lv_wire := (lv_wire s)(c := d)\<rparr>))"
| Draws: "conn_at c (DrawStreamID dest) s \<Longrightarrow> map_of (crt_flows (lv_rt s)) sid = None \<Longrightarrow>
    (\<forall>c' dest'. \<not> conn_at c' (AssignGroup dest' sid) s) \<Longrightarrow> conn_step client s (conn_to c (AssignGroup dest sid) s)"
| DrawFails: "conn_at c (DrawStreamID dest) s \<Longrightarrow> conn_step client s (conn_to c CloseConn s)"
| Assigns: "conn_at c (AssignGroup dest sid) s \<Longrightarrow>
    assign_carrier_group (tt_max_streams (client_tcp client)) sid (lv_rt s) = (Inr (g, paths), rt) \<Longrightarrow>
    conn_step client s (conn_to c (AwaitFlow dest sid g) (s\<lparr>lv_rt := rt\<rparr>))"
| AssignFails: "conn_at c (AssignGroup dest sid) s \<Longrightarrow>
    assign_carrier_group (tt_max_streams (client_tcp client)) sid (lv_rt s) = (Inl e, rt) \<Longrightarrow>
    conn_step client s (conn_to c (RefuseConn e) (s\<lparr>lv_rt := rt\<rparr>))"
| Refuses: "conn_at c (RefuseConn e) s \<Longrightarrow> write_refusal client e (lv_wire s c) = (ignored, d) \<Longrightarrow>
    conn_step client s (conn_to c CloseConn (s\<lparr>lv_wire := (lv_wire s)(c := d)\<rparr>))"
| FlowOver: "conn_at c (AwaitFlow dest sid g) s \<Longrightarrow> g \<in> lv_ended s \<Longrightarrow> conn_step client s (conn_to c (CloseFlowGroup dest sid g) s)"
| ClosesGroup: "conn_at c (CloseFlowGroup dest sid g) s \<Longrightarrow>
    conn_step client s (conn_to c (ForgetFlow dest sid g) (s\<lparr>lv_closed := insert g (lv_closed s)\<rparr>))"
| Forgets: "conn_at c (ForgetFlow dest sid g) s \<Longrightarrow>
    conn_step client s (conn_to c CloseConn (s\<lparr>lv_rt := release_carrier_group sid g (lv_rt s)\<rparr>))"
| Closes: "conn_at c CloseConn s \<Longrightarrow>
    conn_step client s (s\<lparr>lv_conns := AList.delete c (lv_conns s), lv_rt := finish_accept c (lv_rt s)\<rparr>)"

text \<open>Who may still start a goroutine: what is in the maps, or was closed or is about to be.\<close>

fun owner_known :: "client_life \<Rightarrow> worker_owner \<Rightarrow> bool" where
  "owner_known s (OfGroup g) \<longleftrightarrow> g \<in> set (crt_groups (lv_rt s)) \<or> g \<in> lv_closed s"
| "owner_known s (OfSession i) \<longleftrightarrow> i \<in> session_ids (lv_rt s) \<or> i \<in> lv_dead s \<or> i \<in> set (lv_stale s)"

fun owner_gone :: "client_life \<Rightarrow> worker_owner \<Rightarrow> bool" where
  "owner_gone s (OfGroup g) \<longleftrightarrow> g \<in> lv_closed s"
| "owner_gone s (OfSession i) \<longleftrightarrow> i \<in> lv_dead s"

text \<open>
  The goroutines that are no connection's. The loop accepts until the listener fails, which \<open>closeOnCancel\<close> closes
  once the context is done; \<open>shutdown\<close> closes the path sessions, the accepted connections, the flows and the groups
  it has found, in this order, and waits. A goroutine of \<^verbatim>\<open>groupWG\<close> is sure to return only when the context is
  done and its group or path session is closed, which every one of its waits listens to or bounds by a deadline;
  \<open>refreshLoop\<close> when it is not within a refresh.
\<close>

inductive loop_step :: "client_life \<Rightarrow> client_life \<Rightarrow> bool" where
  AcceptFails: "lv_loop s = LoopAccepting \<Longrightarrow> \<not> lv_on_cancel s \<Longrightarrow> loop_step s (s\<lparr>lv_loop := LoopReturned\<rparr>)"
| ShutdownBegins: "lv_loop s = LoopReturned \<Longrightarrow> begin_shutdown (lv_rt s) = ((sessions, accepted, flows, grs), rt) \<Longrightarrow>
    loop_step s (s\<lparr>lv_rt := rt, lv_loop := LoopStopping sessions accepted flows grs\<rparr>)"
| ShutdownCancels: "lv_loop s = LoopStopping sessions accepted flows grs \<Longrightarrow>
    loop_step s (s\<lparr>lv_rt := (lv_rt s)\<lparr>crt_cancelled := True\<rparr>, lv_loop := LoopClosing sessions accepted flows grs\<rparr>)"
| ClosesSession: "lv_loop s = LoopClosing (i # sessions) accepted flows grs \<Longrightarrow>
    loop_step s (s\<lparr>lv_dead := insert i (lv_dead s), lv_loop := LoopClosing sessions accepted flows grs\<rparr>)"
| ClosesAccepted: "lv_loop s = LoopClosing [] (c # accepted) flows grs \<Longrightarrow>
    loop_step s (s\<lparr>lv_shut := insert c (lv_shut s), lv_loop := LoopClosing [] accepted flows grs\<rparr>)"
| ClosesFlow: "lv_loop s = LoopClosing [] [] (g # flows) grs \<Longrightarrow>
    loop_step s (s\<lparr>lv_ended := insert g (lv_ended s), lv_loop := LoopClosing [] [] flows grs\<rparr>)"
| ClosesAGroup: "lv_loop s = LoopClosing [] [] [] (g # grs) \<Longrightarrow>
    loop_step s (s\<lparr>lv_closed := insert g (lv_closed s), lv_loop := LoopClosing [] [] [] grs\<rparr>)"
| ShutdownWaits: "lv_loop s = LoopClosing [] [] [] [] \<Longrightarrow> loop_step s (s\<lparr>lv_loop := LoopWaiting\<rparr>)"
| ShutdownEnds: "lv_loop s = LoopWaiting \<Longrightarrow> lv_conns s = [] \<Longrightarrow> lv_workers s = [] \<Longrightarrow> \<not> lv_on_cancel s \<Longrightarrow> \<not> lv_page s \<Longrightarrow> \<not> lv_ticking s \<Longrightarrow>
    loop_step s (s\<lparr>lv_rt := end_shutdown (lv_rt s), lv_loop := LoopOver\<rparr>)"
| StaleCloses: "lv_stale s = i # stale \<Longrightarrow> loop_step s (s\<lparr>lv_dead := insert i (lv_dead s), lv_stale := stale\<rparr>)"
| WorkerReturns: "owner \<in> set (lv_workers s) \<Longrightarrow> crt_cancelled (lv_rt s) \<Longrightarrow> owner_gone s owner \<Longrightarrow>
    loop_step s (s\<lparr>lv_workers := remove1 owner (lv_workers s)\<rparr>)"
| ListenerCloses: "lv_on_cancel s \<Longrightarrow> crt_cancelled (lv_rt s) \<Longrightarrow> loop_step s (s\<lparr>lv_on_cancel := False\<rparr>)"
| RefreshStops: "lv_ticking s \<Longrightarrow> crt_cancelled (lv_rt s) \<Longrightarrow> lv_stale s = [] \<Longrightarrow> loop_step s (s\<lparr>lv_ticking := False\<rparr>)"
| PageStops: "lv_page s \<Longrightarrow> crt_cancelled (lv_rt s) \<Longrightarrow> loop_step s (s\<lparr>lv_page := False\<rparr>)"

text \<open>
  What comes from outside: a connection and its request, an error of the listener or of the page's, the end of a flow, the
  work of the groups, the path sessions and the status page on the shared maps, a goroutine of theirs that starts or
  that returns by itself, a tick of the refresh, the cancelled context.
\<close>

inductive life_env :: "role_client \<Rightarrow> (string \<Rightarrow> string \<Rightarrow> bool option) \<Rightarrow> client_life \<Rightarrow> client_life \<Rightarrow> bool" for client path_match where
  Accepts: "lv_loop s = LoopAccepting \<Longrightarrow> start_accept_client (tt_max_streams (client_tcp client)) (lv_rt s) = (Some c, rt) \<Longrightarrow>
    life_env client path_match s (conn_to c ReadDestination (s\<lparr>lv_rt := rt, lv_wire := (lv_wire s)(c := d), lv_first := (lv_first s)(c := d)\<rparr>))"
| AcceptRefused: "lv_loop s = LoopAccepting \<Longrightarrow> start_accept_client (tt_max_streams (client_tcp client)) (lv_rt s) = (None, rt) \<Longrightarrow>
    life_env client path_match s (s\<lparr>lv_rt := rt\<rparr>)"
| AcceptError: "lv_loop s = LoopAccepting \<Longrightarrow> life_env client path_match s (s\<lparr>lv_loop := LoopReturned\<rparr>)"
| Hears: "life_env client path_match s (s\<lparr>lv_heard := insert c (lv_heard s)\<rparr>)"
| PageFails: "life_env client path_match s (s\<lparr>lv_page := False\<rparr>)"
| FlowEnds: "life_env client path_match s (s\<lparr>lv_ended := insert g (lv_ended s)\<rparr>)"
| WorkerStarts: "start_group_worker (lv_rt s) \<Longrightarrow> owner_known s owner \<Longrightarrow> life_env client path_match s (s\<lparr>lv_workers := owner # lv_workers s\<rparr>)"
| WorkerLeaves: "life_env client path_match s (s\<lparr>lv_workers := remove1 owner (lv_workers s)\<rparr>)"
| Tick: "lv_ticking s \<Longrightarrow> lv_stale s = [] \<Longrightarrow> refresh path_match m interfaces (lv_rt s) = (r, rt) \<Longrightarrow>
    life_env client path_match s (s\<lparr>lv_rt := rt, lv_stale := stale_of r\<rparr>)"
| Counter: "traffic_for_path name path (lv_rt s) = (t, rt) \<Longrightarrow> life_env client path_match s (s\<lparr>lv_rt := rt\<rparr>)"
| ReadTime: "last_received_for_path name path (lv_rt s) = (t, rt) \<Longrightarrow> life_env client path_match s (s\<lparr>lv_rt := rt\<rparr>)"
| Recorded: "life_env client path_match s (s\<lparr>lv_rt := record_group_carrier sid name carrier (lv_rt s)\<rparr>)"
| Removed: "life_env client path_match s (s\<lparr>lv_rt := remove_group_carrier sid name carrier (lv_rt s)\<rparr>)"
| Cancelled: "life_env client path_match s (s\<lparr>lv_rt := (lv_rt s)\<lparr>crt_cancelled := True\<rparr>\<rparr>)"

definition life_work :: "role_client \<Rightarrow> client_life \<Rightarrow> client_life \<Rightarrow> bool" where
  "life_work client s s' \<longleftrightarrow> conn_step client s s' \<or> loop_step s s'"

inductive life_reachable :: "role_client \<Rightarrow> (string \<Rightarrow> string \<Rightarrow> bool option) \<Rightarrow> client_life \<Rightarrow> bool" for client path_match where
  "life_reachable client path_match (client_life_start client d)"
| "life_reachable client path_match s \<Longrightarrow> life_work client s s' \<or> life_env client path_match s s' \<Longrightarrow> life_reachable client path_match s'"


section \<open>Invariants\<close>

fun flow_of :: "client_pc \<Rightarrow> (stream_id \<times> nat) option" where
  "flow_of (AwaitFlow dest sid g) = Some (sid, g)"
| "flow_of (CloseFlowGroup dest sid g) = Some (sid, g)"
| "flow_of (ForgetFlow dest sid g) = Some (sid, g)"
| "flow_of _ = None"

fun stream_of :: "client_pc \<Rightarrow> stream_id option" where
  "stream_of (AssignGroup dest sid) = Some sid"
| "stream_of pc = map_option fst (flow_of pc)"

fun dest_of :: "client_pc \<Rightarrow> destination option" where
  "dest_of (DrawStreamID dest) = Some dest"
| "dest_of (AssignGroup dest sid) = Some dest"
| "dest_of (AwaitFlow dest sid g) = Some dest"
| "dest_of (CloseFlowGroup dest sid g) = Some dest"
| "dest_of (ForgetFlow dest sid g) = Some dest"
| "dest_of _ = None"

text \<open>The accepted connections are the running goroutines, and these have numbers below the next one.\<close>

definition accepted_inv :: "client_life \<Rightarrow> bool" where
  "accepted_inv s \<longleftrightarrow> distinct (map fst (lv_conns s)) \<and> distinct (crt_accepted (lv_rt s)) \<and>
     set (crt_accepted (lv_rt s)) = dom (map_of (lv_conns s)) \<and> (\<forall>c \<in> dom (map_of (lv_conns s)). c < crt_next (lv_rt s))"

text \<open>The flow and the name each goroutine holds.\<close>

definition holds_flow :: "client_life \<Rightarrow> nat \<Rightarrow> (stream_id \<times> nat) option" where
  "holds_flow s c = Option.bind (map_of (lv_conns s) c) flow_of"

definition holds_name :: "client_life \<Rightarrow> nat \<Rightarrow> stream_id option" where
  "holds_name s c = Option.bind (map_of (lv_conns s) c) stream_of"

text \<open>The flows are those of the goroutines, each of one of them.\<close>

definition flows_fit :: "(nat \<Rightarrow> (stream_id \<times> nat) option) \<Rightarrow> (nat \<Rightarrow> stream_id option) \<Rightarrow> client_runtime \<Rightarrow> bool" where
  "flows_fit flow name rt \<longleftrightarrow>
     (\<forall>sid g. map_of (crt_flows rt) sid = Some g \<longleftrightarrow> (\<exists>c. flow c = Some (sid, g))) \<and>
     (\<forall>g. g \<in> set (crt_groups rt) \<longleftrightarrow> (\<exists>c sid. flow c = Some (sid, g))) \<and>
     (\<forall>c c' sid. name c = Some sid \<and> name c' = Some sid \<longrightarrow> c = c') \<and>
     (\<forall>c c' sid sid' g. flow c = Some (sid, g) \<and> flow c' = Some (sid', g) \<longrightarrow> c = c') \<and>
     (\<forall>c sid g. flow c = Some (sid, g) \<longrightarrow> g < crt_next rt \<and> name c = Some sid)"

definition flows_inv :: "client_life \<Rightarrow> bool" where
  "flows_inv s \<longleftrightarrow> flows_fit (holds_flow s) (holds_name s) (lv_rt s)"

definition earned_inv :: "role_client \<Rightarrow> client_life \<Rightarrow> bool" where
  "earned_inv client s \<longleftrightarrow> (\<forall>c. conn_at c ReadDestination s \<longrightarrow> lv_wire s c = lv_first s c) \<and>
     (\<forall>c pc dest. conn_at c pc s \<and> dest_of pc = Some dest \<longrightarrow> (\<exists>d. read_destination client (lv_first s c) = (Inr dest, d)))"

text \<open>What is left to close, and that nothing else is in the tables.\<close>

definition covers :: "client_life \<Rightarrow> nat list \<Rightarrow> nat list \<Rightarrow> nat list \<Rightarrow> nat list \<Rightarrow> bool" where
  "covers s sessions accepted flows grs \<longleftrightarrow> session_ids (lv_rt s) \<subseteq> set sessions \<union> lv_dead s \<and>
     set (crt_accepted (lv_rt s)) \<subseteq> set accepted \<union> lv_shut s \<and> ran (map_of (crt_flows (lv_rt s))) \<subseteq> set flows \<union> lv_ended s \<and>
     set (crt_groups (lv_rt s)) \<subseteq> set grs \<union> lv_closed s"

definition tables_empty :: "client_runtime \<Rightarrow> bool" where
  "tables_empty rt \<longleftrightarrow> crt_flows rt = [] \<and> crt_paths rt = [] \<and> crt_carriers rt = [] \<and> crt_traffic rt = [] \<and> crt_last_received rt = [] \<and>
     crt_sessions rt = [] \<and> crt_groups rt = [] \<and> crt_accepted rt = []"

definition ending_ok :: "client_life \<Rightarrow> bool" where
  "ending_ok s \<longleftrightarrow>
     (case lv_loop s of
        LoopStopping sessions accepted flows grs \<Rightarrow> crt_closing (lv_rt s) \<and> covers s sessions accepted flows grs
      | LoopClosing sessions accepted flows grs \<Rightarrow> crt_closing (lv_rt s) \<and> crt_cancelled (lv_rt s) \<and> covers s sessions accepted flows grs
      | LoopWaiting \<Rightarrow> crt_closing (lv_rt s) \<and> crt_cancelled (lv_rt s) \<and> covers s [] [] [] []
      | LoopOver \<Rightarrow> crt_closing (lv_rt s) \<and> lv_conns s = [] \<and> lv_workers s = [] \<and> lv_stale s = [] \<and> \<not> lv_on_cancel s \<and> \<not> lv_page s \<and>
          \<not> lv_ticking s \<and> tables_empty (lv_rt s)
      | _ \<Rightarrow> \<not> crt_closing (lv_rt s))"

text \<open>Every goroutine of \<^verbatim>\<open>groupWG\<close> has an owner that is closed or will be; a refresh is only within its loop.\<close>

definition owners_inv :: "client_life \<Rightarrow> bool" where
  "owners_inv s \<longleftrightarrow> (\<forall>owner \<in> set (lv_workers s). owner_known s owner) \<and>
     (\<forall>c dest sid g. conn_at c (ForgetFlow dest sid g) s \<longrightarrow> g \<in> lv_closed s) \<and> (lv_stale s = [] \<or> lv_ticking s)"

definition lives_inv :: "role_client \<Rightarrow> client_life \<Rightarrow> bool" where
  "lives_inv client s \<longleftrightarrow> accepted_inv s \<and> flows_inv s \<and> earned_inv client s \<and> ending_ok s \<and> owners_inv s"

lemma conn_to_at [simp]: "conn_at c' pc' (conn_to c pc s) \<longleftrightarrow> (if c' = c then pc' = pc else conn_at c' pc' s)"
  by (auto simp: conn_at_def conn_to_def AList.update_conv')

lemma conn_to_same [simp]:
  "lv_rt (conn_to c pc s) = lv_rt s" "lv_loop (conn_to c pc s) = lv_loop s" "lv_wire (conn_to c pc s) = lv_wire s" "lv_first (conn_to c pc s) = lv_first s"
  "lv_heard (conn_to c pc s) = lv_heard s" "lv_shut (conn_to c pc s) = lv_shut s" "lv_ended (conn_to c pc s) = lv_ended s"
  "lv_closed (conn_to c pc s) = lv_closed s" "lv_dead (conn_to c pc s) = lv_dead s" "lv_stale (conn_to c pc s) = lv_stale s"
  "lv_workers (conn_to c pc s) = lv_workers s" "lv_on_cancel (conn_to c pc s) = lv_on_cancel s" "lv_page (conn_to c pc s) = lv_page s"
  "lv_ticking (conn_to c pc s) = lv_ticking s"
  by (simp_all add: conn_to_def)

lemma conn_at_fields [simp]:
  "conn_at c pc (s\<lparr>lv_rt := rt\<rparr>) = conn_at c pc s" "conn_at c pc (s\<lparr>lv_wire := wire\<rparr>) = conn_at c pc s"
  "conn_at c pc (s\<lparr>lv_closed := gs\<rparr>) = conn_at c pc s" "conn_at c pc (s\<lparr>lv_first := wire\<rparr>) = conn_at c pc s"
  by (simp_all add: conn_at_def)

lemma holds_conn_to [simp]:
  "holds_flow (conn_to c pc s) = (holds_flow s)(c := flow_of pc)" "holds_name (conn_to c pc s) = (holds_name s)(c := stream_of pc)"
  by (auto simp: holds_flow_def holds_name_def conn_to_def AList.update_conv')

lemma holds_fields [simp]:
  "holds_flow (s\<lparr>lv_rt := rt\<rparr>) = holds_flow s" "holds_name (s\<lparr>lv_rt := rt\<rparr>) = holds_name s"
  "holds_flow (s\<lparr>lv_wire := wire\<rparr>) = holds_flow s" "holds_name (s\<lparr>lv_wire := wire\<rparr>) = holds_name s"
  "holds_flow (s\<lparr>lv_first := wire\<rparr>) = holds_flow s" "holds_name (s\<lparr>lv_first := wire\<rparr>) = holds_name s"
  "holds_flow (s\<lparr>lv_closed := gs\<rparr>) = holds_flow s" "holds_name (s\<lparr>lv_closed := gs\<rparr>) = holds_name s"
  by (auto simp: holds_flow_def holds_name_def)

lemma holds_at: "conn_at c pc s \<Longrightarrow> holds_flow s c = flow_of pc \<and> holds_name s c = stream_of pc"
  by (simp add: conn_at_def holds_flow_def holds_name_def)

lemma conns_moved:
  assumes "accepted_inv s" "conn_at c old s" "crt_accepted (lv_rt s') = crt_accepted (lv_rt s)" "crt_next (lv_rt s) \<le> crt_next (lv_rt s')"
    "lv_conns s' = lv_conns s"
  shows "accepted_inv (conn_to c pc s')"
proof -
  have "dom (map_of (AList.update c pc (lv_conns s))) = dom (map_of (lv_conns s))" using assms(2) by (auto simp: AList.update_conv' conn_at_def split: if_splits)
  moreover have "d < crt_next (lv_rt s')" if "d \<in> dom (map_of (lv_conns s))" for d
    using that assms(1,4) by (meson accepted_inv_def order.strict_trans2)
  ultimately show ?thesis using assms(1,3,5) by (simp add: accepted_inv_def conn_to_def distinct_update)
qed

text \<open>A connection that moves on without touching flows.\<close>

lemma flows_moved:
  assumes "flows_inv s" "conn_at c old s" "flow_of pc = flow_of old" "stream_of pc = stream_of old"
    "lv_conns s' = lv_conns s" "lv_rt s' = lv_rt s"
  shows "flows_inv (conn_to c pc s')"
proof -
  have h: "holds_flow s' = holds_flow s" "holds_name s' = holds_name s" by (auto simp: holds_flow_def holds_name_def assms(5))
  have "(holds_flow s)(c := flow_of pc) = holds_flow s" "(holds_name s)(c := stream_of pc) = holds_name s"
    using holds_at [OF assms(2)] assms(3,4) by (simp_all add: fun_upd_idem)
  with assms(1,6) h show ?thesis by (simp add: flows_inv_def)
qed

lemma fit_drop_name: "flows_fit flow name rt \<Longrightarrow> flow c = None \<Longrightarrow> flows_fit (flow(c := None)) (name(c := None)) rt"
  by (auto simp: flows_fit_def fun_upd_idem)

lemma fit_name:
  assumes "flows_fit flow name rt" "flow c = None" "\<And>c'. name c' \<noteq> Some sid"
  shows "flows_fit (flow(c := None)) (name(c := Some sid)) rt"
proof -
  have "flow(c := None) = flow" using assms(2) by (simp add: fun_upd_idem)
  then show ?thesis using assms by (auto simp: flows_fit_def)
qed

lemma ex_upd: "(\<exists>c'. (f(c := y)) c' = z) \<longleftrightarrow> y = z \<or> (\<exists>c'. c' \<noteq> c \<and> f c' = z)"
  by (metis fun_upd_apply)

lemma ex_other: "f c \<noteq> z \<Longrightarrow> (\<exists>c'. c' \<noteq> c \<and> f c' = z) \<longleftrightarrow> (\<exists>c'. f c' = z)"
  by metis

lemma ex_upd2: "(\<exists>c' x. (f(c := y)) c' = Some (x, g)) \<longleftrightarrow> (\<exists>x. y = Some (x, g)) \<or> (\<exists>c' x. c' \<noteq> c \<and> f c' = Some (x, g))"
  by (metis fun_upd_apply)

lemma flows_fitD:
  assumes "flows_fit flow name rt"
  shows "map_of (crt_flows rt) sid = Some g \<longleftrightarrow> (\<exists>c. flow c = Some (sid, g))" "g \<in> set (crt_groups rt) \<longleftrightarrow> (\<exists>c sid. flow c = Some (sid, g))"
    "name c = Some sid \<Longrightarrow> name c' = Some sid \<Longrightarrow> c = c'" "flow c = Some (sid, g) \<Longrightarrow> flow c' = Some (sid', g) \<Longrightarrow> c = c'"
    "flow c = Some (sid, g) \<Longrightarrow> g < crt_next rt" "flow c = Some (sid, g) \<Longrightarrow> name c = Some sid"
  using assms unfolding flows_fit_def by blast+

lemma flows_fitI:
  assumes "\<And>sid g. map_of (crt_flows rt) sid = Some g \<longleftrightarrow> (\<exists>c. flow c = Some (sid, g))"
    "\<And>g. g \<in> set (crt_groups rt) \<longleftrightarrow> (\<exists>c sid. flow c = Some (sid, g))"
    "\<And>c c' sid. name c = Some sid \<Longrightarrow> name c' = Some sid \<Longrightarrow> c = c'"
    "\<And>c c' sid sid' g. flow c = Some (sid, g) \<Longrightarrow> flow c' = Some (sid', g) \<Longrightarrow> c = c'"
    "\<And>c sid g. flow c = Some (sid, g) \<Longrightarrow> g < crt_next rt \<and> name c = Some sid"
  shows "flows_fit flow name rt"
  unfolding flows_fit_def by (intro conjI allI impI; (elim conjE)?) (use assms in \<open>blast+\<close>)

lemma fit_assign:
  assumes "flows_fit flow name rt" "flow c = None" "name c = Some sid"
    "crt_groups rt' = crt_next rt # crt_groups rt" "crt_flows rt' = AList.update sid (crt_next rt) (crt_flows rt)" "crt_next rt' = crt_next rt + 1"
  shows "flows_fit (flow(c := Some (sid, crt_next rt))) (name(c := Some sid)) rt'"
proof -
  note fit = flows_fitD [OF assms(1)]
  have other: "flow c' = Some (sid', g) \<Longrightarrow> sid' \<noteq> sid" for c' sid' g
    using fit(3) [OF assms(3)] fit(6) assms(2) by fastforce
  have name: "name(c := Some sid) = name" using assms(3) by (simp add: fun_upd_idem)
  have flows: "map_of (AList.update sid (crt_next rt) (crt_flows rt)) sid' = Some g \<longleftrightarrow> (\<exists>c'. (flow(c := Some (sid, crt_next rt))) c' = Some (sid', g))" for sid' g
  proof (cases "sid' = sid")
    case True
    have "\<not> (\<exists>c'. c' \<noteq> c \<and> flow c' = Some (sid, g))" using other by blast
    with True show ?thesis by (auto simp: ex_upd AList.update_conv')
  next
    case False
    have "(\<exists>c'. c' \<noteq> c \<and> flow c' = Some (sid', g)) \<longleftrightarrow> (\<exists>c'. flow c' = Some (sid', g))" using assms(2) by (intro ex_other) simp
    with False fit(1) [of sid' g] show ?thesis by (auto simp: ex_upd AList.update_conv')
  qed
  have grs: "g \<in> set (crt_next rt # crt_groups rt) \<longleftrightarrow> (\<exists>c' sid'. (flow(c := Some (sid, crt_next rt))) c' = Some (sid', g))" for g
  proof -
    have "(\<exists>c' sid'. c' \<noteq> c \<and> flow c' = Some (sid', g)) \<longleftrightarrow> (\<exists>c' sid'. flow c' = Some (sid', g))" using assms(2) by (metis option.distinct(1))
    then show ?thesis using fit(2) [of g] by (auto simp: ex_upd2)
  qed
  have fresh: "flow d \<noteq> Some (sid'', crt_next rt)" for d sid'' using fit(5) by blast
  have one: "c' = c''" if "(flow(c := Some (sid, crt_next rt))) c' = Some (sid', g)" "(flow(c := Some (sid, crt_next rt))) c'' = Some (sid'', g)" for c' c'' sid' sid'' g
    using that fit(4) fresh by (auto split: if_splits)
  have bound: "g < crt_next rt + 1 \<and> name c' = Some sid'" if "(flow(c := Some (sid, crt_next rt))) c' = Some (sid', g)" for c' sid' g
    using that fit(5,6) assms(3) by (fastforce split: if_splits)
  show ?thesis unfolding name by (rule flows_fitI, unfold assms(4-6)) (fact flows, fact grs, erule (1) fit(3), erule (1) one, erule bound)
qed

lemma fit_release:
  assumes "flows_fit flow name rt" "flow c = Some (sid, g)"
    "crt_groups rt' = removeAll g (crt_groups rt)" "crt_flows rt' = AList.delete sid (crt_flows rt)" "crt_next rt' = crt_next rt"
  shows "flows_fit (flow(c := None)) (name(c := None)) rt'"
proof -
  note fit = flows_fitD [OF assms(1)]
  have flows: "map_of (AList.delete sid (crt_flows rt)) sid' = Some g' \<longleftrightarrow> (\<exists>c'. (flow(c := None)) c' = Some (sid', g'))" for sid' g'
  proof (cases "sid' = sid")
    case True
    have "\<not> (\<exists>c'. c' \<noteq> c \<and> flow c' = Some (sid, g'))" using fit(3,6) assms(2) by blast
    with True show ?thesis by (auto simp: ex_upd AList.delete_conv')
  next
    case False
    then have "(\<exists>c'. c' \<noteq> c \<and> flow c' = Some (sid', g')) \<longleftrightarrow> (\<exists>c'. flow c' = Some (sid', g'))" using assms(2) by (intro ex_other) simp
    with False fit(1) [of sid' g'] show ?thesis by (auto simp: ex_upd AList.delete_conv')
  qed
  have grs: "g' \<in> set (removeAll g (crt_groups rt)) \<longleftrightarrow> (\<exists>c' sid'. (flow(c := None)) c' = Some (sid', g'))" for g'
  proof (cases "g' = g")
    case True
    have "\<not> (\<exists>c' sid'. c' \<noteq> c \<and> flow c' = Some (sid', g))" using fit(4) assms(2) by blast
    with True show ?thesis by (auto simp: ex_upd2)
  next
    case False
    have "(\<exists>c' sid'. c' \<noteq> c \<and> flow c' = Some (sid', g')) \<longleftrightarrow> (\<exists>c' sid'. flow c' = Some (sid', g'))" using assms(2) False by (metis option.inject prod.inject)
    with False fit(2) [of g'] show ?thesis by (simp add: ex_upd2 del: fun_upd_apply)
  qed
  have one: "c' = c''" if "(flow(c := None)) c' = Some (sid', g')" "(flow(c := None)) c'' = Some (sid'', g')" for c' c'' sid' sid'' g'
    using that fit(4) by (auto split: if_splits)
  have bound: "g' < crt_next rt \<and> (name(c := None)) c' = Some sid'" if "(flow(c := None)) c' = Some (sid', g')" for c' sid' g'
    using that fit(5,6) by (auto split: if_splits)
  have names: "c' = c''" if "(name(c := None)) c' = Some sid'" "(name(c := None)) c'' = Some sid'" for c' c'' sid'
    using that fit(3) by (auto split: if_splits)
  show ?thesis by (rule flows_fitI, unfold assms(3-5)) (fact flows, fact grs, erule (1) names, erule (1) one, erule bound)
qed


lemma fit_same:
  assumes "flows_fit flow name rt" "crt_flows rt' = crt_flows rt" "crt_groups rt' = crt_groups rt" "crt_next rt \<le> crt_next rt'"
  shows "flows_fit flow name rt'"
proof -
  note fit = flows_fitD [OF assms(1)]
  have "flow c = Some (sid, g) \<Longrightarrow> g < crt_next rt'" for c sid g using fit(5) assms(4) order.strict_trans2 by blast
  then have bound: "flow c = Some (sid, g) \<Longrightarrow> g < crt_next rt' \<and> name c = Some sid" for c sid g using fit(6) by blast
  show ?thesis by (rule flows_fitI, unfold assms(2,3)) (rule fit(1), rule fit(2), erule (1) fit(3), erule (1) fit(4), erule bound)
qed

text \<open>What the critical sections that are no concern of a connection leave alone.\<close>

definition same_lives :: "client_runtime \<Rightarrow> client_runtime \<Rightarrow> bool" where
  "same_lives rt rt' \<longleftrightarrow> crt_closing rt' = crt_closing rt \<and> crt_cancelled rt' = crt_cancelled rt \<and> crt_flows rt' = crt_flows rt \<and>
     crt_groups rt' = crt_groups rt \<and> crt_accepted rt' = crt_accepted rt \<and> crt_next rt \<le> crt_next rt' \<and>
     (client_stopping rt \<longrightarrow> crt_sessions rt' = crt_sessions rt) \<and> (crt_closing rt \<and> tables_empty rt \<longrightarrow> tables_empty rt')"

lemma counted_same [simp]: "crt_closing (counted name path rt) = crt_closing rt" "crt_cancelled (counted name path rt) = crt_cancelled rt"
  "crt_flows (counted name path rt) = crt_flows rt" "crt_paths (counted name path rt) = crt_paths rt" "crt_carriers (counted name path rt) = crt_carriers rt"
  "crt_traffic (counted name path rt) = crt_traffic rt" "crt_last_received (counted name path rt) = crt_last_received rt"
  "crt_sessions (counted name path rt) = crt_sessions rt" "crt_groups (counted name path rt) = crt_groups rt"
  "crt_accepted (counted name path rt) = crt_accepted rt" "crt_next (counted name path rt) = crt_next rt + 1"
  by (simp_all add: counted_def)

lemma same_lives_refl [simp]: "same_lives rt rt"
  by (simp add: same_lives_def)

lemma refresh_stopping: "refresh path_match m interfaces rt = (r, rt') \<Longrightarrow> client_stopping rt \<Longrightarrow> r = RefreshRefused \<and> rt' = rt"
  by (auto simp: refresh_def refresh_carrier_groups_def split: option.splits)

lemma same_lives_ops:
  "refresh path_match m interfaces rt = (r, rt') \<Longrightarrow> same_lives rt rt'"
  "traffic_for_path name path rt = (t, rt') \<Longrightarrow> same_lives rt rt'"
  "last_received_for_path name path rt = (t, rt') \<Longrightarrow> same_lives rt rt'"
  "same_lives rt (record_group_carrier sid name carrier rt)"
  "same_lives rt (remove_group_carrier sid name carrier rt)"
proof -
  show "refresh path_match m interfaces rt = (r, rt') \<Longrightarrow> same_lives rt rt'"
  proof (cases "client_stopping rt")
    case False
    then show "refresh path_match m interfaces rt = (r, rt') \<Longrightarrow> same_lives rt rt'"
    proof (elim refreshD)
      fix paths assume "rt' = snd (start_sessions paths ((set_paths paths rt)\<lparr>crt_sessions := filter (session_of_path paths) (crt_sessions rt)\<rparr>))"
      from started_fields [OF this] False show ?thesis by (simp add: same_lives_def client_stopping_def)
    qed simp
  qed (auto dest: refresh_stopping)
qed (auto dest!: counter_forD simp: same_lives_def tables_empty_def record_group_carrier_def remove_group_carrier_def split: option.splits)

lemma other_sessions:
  "traffic_for_path name path rt = (t, rt') \<Longrightarrow> crt_sessions rt' = crt_sessions rt"
  "last_received_for_path name path rt = (t, rt') \<Longrightarrow> crt_sessions rt' = crt_sessions rt"
  "crt_sessions (record_group_carrier sid name carrier rt) = crt_sessions rt"
  "crt_sessions (remove_group_carrier sid name carrier rt) = crt_sessions rt"
  by (auto dest!: counter_forD simp: record_group_carrier_def remove_group_carrier_def split: option.splits)

lemma lives_invD:
  assumes "lives_inv client s"
  shows "accepted_inv s" "flows_inv s" "earned_inv client s" "ending_ok s" "owners_inv s"
  using assms by (simp_all add: lives_inv_def)

text \<open>A connection exists only before the end.\<close>

lemma conn_not_over: "lives_inv client s \<Longrightarrow> conn_at c pc s \<Longrightarrow> lv_loop s \<noteq> LoopOver"
  by (auto simp: lives_inv_def ending_ok_def conn_at_def)

text \<open>Fewer sessions, connections, flows and groups are none that the shutdown has to know.\<close>

definition fewer :: "client_runtime \<Rightarrow> client_runtime \<Rightarrow> bool" where
  "fewer rt rt' \<longleftrightarrow> crt_sessions rt' = crt_sessions rt \<and> set (crt_accepted rt') \<subseteq> set (crt_accepted rt) \<and>
     ran (map_of (crt_flows rt')) \<subseteq> ran (map_of (crt_flows rt)) \<and> set (crt_groups rt') \<subseteq> set (crt_groups rt)"

lemma covers_fewer:
  assumes "covers s sessions accepted flows grs" "fewer (lv_rt s) (lv_rt s')"
    "lv_dead s \<subseteq> lv_dead s'" "lv_shut s \<subseteq> lv_shut s'" "lv_ended s \<subseteq> lv_ended s'" "lv_closed s \<subseteq> lv_closed s'"
  shows "covers s' sessions accepted flows grs"
proof -
  have "session_ids (lv_rt s') = session_ids (lv_rt s)" using assms(2) by (simp add: fewer_def session_ids_def)
  with assms(1,3) have "session_ids (lv_rt s') \<subseteq> set sessions \<union> lv_dead s'" by (auto simp: covers_def)
  moreover have "set (crt_accepted (lv_rt s')) \<subseteq> set accepted \<union> lv_shut s'" using assms(1,2,4) by (auto simp: covers_def fewer_def)
  moreover have "ran (map_of (crt_flows (lv_rt s'))) \<subseteq> set flows \<union> lv_ended s'" using assms(1,2,5) unfolding covers_def fewer_def by blast
  moreover have "set (crt_groups (lv_rt s')) \<subseteq> set grs \<union> lv_closed s'" using assms(1,2,6) by (auto simp: covers_def fewer_def)
  ultimately show ?thesis by (simp add: covers_def)
qed

lemma ending_fewer:
  assumes "ending_ok s" "lv_loop s' = lv_loop s" "lv_loop s \<noteq> LoopOver" "crt_closing (lv_rt s') = crt_closing (lv_rt s)"
    "crt_cancelled (lv_rt s') = crt_cancelled (lv_rt s)"
    "lv_dead s \<subseteq> lv_dead s'" "lv_shut s \<subseteq> lv_shut s'" "lv_ended s \<subseteq> lv_ended s'" "lv_closed s \<subseteq> lv_closed s'"
    "crt_closing (lv_rt s) \<longrightarrow> fewer (lv_rt s) (lv_rt s')"
  shows "ending_ok s'"
  using assms covers_fewer [OF _ _ assms(6-9)] by (cases "lv_loop s") (simp_all add: ending_ok_def)

text \<open>A step that keeps the owners of the goroutines known.\<close>

lemma owner_keeps:
  assumes "owner_known s owner" "set (crt_groups (lv_rt s)) \<subseteq> set (crt_groups (lv_rt s')) \<union> lv_closed s'" "lv_closed s \<subseteq> lv_closed s'"
    "session_ids (lv_rt s) \<union> set (lv_stale s) \<subseteq> session_ids (lv_rt s') \<union> set (lv_stale s') \<union> lv_dead s'" "lv_dead s \<subseteq> lv_dead s'"
  shows "owner_known s' owner"
  using assms by (cases owner) auto

lemma owners_keep:
  assumes "owners_inv s" "\<And>c' pc'. conn_at c' pc' s' \<Longrightarrow> c' = c \<and> pc' = pc \<or> conn_at c' pc' s"
    "\<And>dest sid g. pc = ForgetFlow dest sid g \<Longrightarrow> g \<in> lv_closed s'" "lv_closed s \<subseteq> lv_closed s'" "lv_dead s \<subseteq> lv_dead s'"
    "set (crt_groups (lv_rt s)) \<subseteq> set (crt_groups (lv_rt s')) \<union> lv_closed s'"
    "session_ids (lv_rt s) \<union> set (lv_stale s) \<subseteq> session_ids (lv_rt s') \<union> set (lv_stale s') \<union> lv_dead s'"
    "set (lv_workers s') \<subseteq> set (lv_workers s) \<union> {owner. owner_known s owner}"
    "lv_stale s' = [] \<or> lv_ticking s' \<or> lv_stale s' = lv_stale s \<and> lv_ticking s' = lv_ticking s"
  shows "owners_inv s'"
proof -
  have "owner_known s' owner" if "owner \<in> set (lv_workers s')" for owner
  proof (rule owner_keeps [OF _ assms(6,4,7,5)])
    show "owner_known s owner" using that assms(1,8) by (auto simp: owners_inv_def)
  qed
  moreover have "g \<in> lv_closed s'" if "conn_at c' (ForgetFlow dest sid g) s'" for c' dest sid g
    using assms(2) [OF that] assms(1,3,4) by (auto simp: owners_inv_def)
  moreover have "lv_stale s' = [] \<or> lv_ticking s'" using assms(1,9) by (auto simp: owners_inv_def)
  ultimately show ?thesis by (simp add: owners_inv_def)
qed

text \<open>A connection that moves on and touches at most its own bytes.\<close>

lemma conn_moved:
  assumes "lives_inv client s" "conn_at c old s" "flow_of pc = flow_of old" "stream_of pc = stream_of old" "pc \<noteq> ReadDestination"
    "dest_of pc = None \<or> dest_of pc = dest_of old \<or> old = ReadDestination \<and> (\<exists>d. read_destination client (lv_wire s c) = (Inr (the (dest_of pc)), d))"
    "s' = s\<lparr>lv_wire := wire, lv_closed := gs\<rparr>" "\<And>c'. c' \<noteq> c \<Longrightarrow> wire c' = lv_wire s c'" "lv_closed s \<subseteq> gs"
    "\<And>dest sid g. pc = ForgetFlow dest sid g \<Longrightarrow> g \<in> gs"
  shows "lives_inv client (conn_to c pc s')"
proof -
  note inv = lives_invD [OF assms(1)]
  have "accepted_inv (conn_to c pc s')" by (rule conns_moved [OF inv(1) assms(2)]) (simp_all add: assms(7))
  moreover have "flows_inv (conn_to c pc s')" by (rule flows_moved [OF inv(2) assms(2-4)]) (simp_all add: assms(7))
  moreover have "earned_inv client (conn_to c pc s')"
    using inv(3) assms(2,5,6,8) by (auto simp: earned_inv_def assms(7))
  moreover have "ending_ok (conn_to c pc s')"
    by (rule ending_fewer [OF inv(4)]) (use conn_not_over [OF assms(1,2)] assms(9) in \<open>simp_all add: assms(7) fewer_def\<close>)
  moreover have "owners_inv (conn_to c pc s')"
    by (rule owners_keep [OF inv(5), where c = c and pc = pc]) (use assms(9,10) in \<open>auto simp: assms(7) split: if_splits\<close>)
  ultimately show ?thesis by (simp add: lives_inv_def)
qed

lemma earned_keeps:
  assumes "earned_inv client s" "conn_at c old s" "\<And>c' pc'. conn_at c' pc' s' \<longleftrightarrow> (if c' = c then pc' = pc else conn_at c' pc' s)"
    "lv_wire s' = lv_wire s" "lv_first s' = lv_first s" "pc \<noteq> ReadDestination" "dest_of pc = None \<or> dest_of pc = dest_of old"
  shows "earned_inv client s'"
  unfolding earned_inv_def
proof (intro conjI allI impI)
  fix c' assume "conn_at c' ReadDestination s'"
  then show "lv_wire s' c' = lv_first s' c'" using assms(1,3-6) by (auto simp: earned_inv_def split: if_splits)
next
  fix c' pc' dest assume *: "conn_at c' pc' s' \<and> dest_of pc' = Some dest"
  show "\<exists>d. read_destination client (lv_first s' c') = (Inr dest, d)"
  proof (cases "c' = c")
    case True
    with * assms(3,7) have "dest_of old = Some dest" by auto
    moreover note assms(1) [unfolded earned_inv_def, THEN conjunct2, rule_format, OF conjI, OF assms(2)]
    ultimately show ?thesis using assms(5) True by simp
  next
    case False
    with * assms(1,3,5) show ?thesis unfolding earned_inv_def by (auto dest: spec)
  qed
qed

lemma conn_step_inv:
  assumes "conn_step client s s'" "lives_inv client s"
  shows "lives_inv client s'"
  using assms(1)
proof cases
  case (Reads c dest d)
  show ?thesis unfolding Reads(1) by (rule conn_moved [OF assms(2) Reads(2), where wire = "(lv_wire s)(c := d)" and gs = "lv_closed s"]) (use Reads(4) in auto)
next
  case (ReadCut c)
  show ?thesis unfolding ReadCut(1) by (rule conn_moved [OF assms(2) ReadCut(2), where wire = "lv_wire s" and gs = "lv_closed s"]) auto
next
  case (ReadFails c e d)
  show ?thesis unfolding ReadFails(1) by (rule conn_moved [OF assms(2) ReadFails(2), where wire = "(lv_wire s)(c := d)" and gs = "lv_closed s"]) auto
next
  case (Draws c dest sid)
  note inv = lives_invD [OF assms(2)]
  have "accepted_inv s'" unfolding Draws(1) by (rule conns_moved [OF inv(1) Draws(2)]) simp_all
  moreover have "flows_inv s'"
  proof -
    have fit: "flows_fit (holds_flow s) (holds_name s) (lv_rt s)" using inv(2) by (simp add: flows_inv_def)
    have "holds_name s c' \<noteq> Some sid" for c'
    proof
      assume "holds_name s c' = Some sid"
      then obtain pc where pc: "conn_at c' pc s" "stream_of pc = Some sid" by (auto simp: holds_name_def conn_at_def bind_eq_Some_conv)
      show False
      proof (cases "flow_of pc")
        case None
        with pc(2) have "\<exists>dest. pc = AssignGroup dest sid" by (cases pc) simp_all
        with Draws(4) pc(1) show False by auto
      next
        case (Some x)
        with pc(2) have "fst x = sid" by (cases pc) auto
        with Some holds_at [OF pc(1)] have "holds_flow s c' = Some (sid, snd x)" by (cases x) simp
        with flows_fitD(1) [OF fit, of sid "snd x"] Draws(3) show False by auto
      qed
    qed
    with fit_name [OF fit] holds_at [OF Draws(2)] show ?thesis unfolding Draws(1) by (simp add: flows_inv_def)
  qed
  moreover have "earned_inv client s'" using inv(3) by (rule earned_keeps [OF _ Draws(2), where pc = "AssignGroup dest sid"]) (simp_all add: Draws(1))
  moreover have "ending_ok s'" by (rule ending_fewer [OF inv(4)]) (use conn_not_over [OF assms(2) Draws(2)] in \<open>simp_all add: Draws(1) fewer_def\<close>)
  moreover have "owners_inv s'" by (rule owners_keep [OF inv(5), where c = c and pc = "AssignGroup dest sid"]) (auto simp: Draws(1) split: if_splits)
  ultimately show ?thesis by (simp add: lives_inv_def)
next
  case (DrawFails c dest)
  show ?thesis unfolding DrawFails(1) by (rule conn_moved [OF assms(2) DrawFails(2), where wire = "lv_wire s" and gs = "lv_closed s"]) auto
next
  case (Assigns c dest sid g paths rt)
  note inv = lives_invD [OF assms(2)]
  from Assigns(3) have rt: "rt = (lv_rt s)\<lparr>crt_groups := crt_next (lv_rt s) # crt_groups (lv_rt s),
      crt_flows := AList.update sid (crt_next (lv_rt s)) (crt_flows (lv_rt s)), crt_carriers := AList.update sid [] (crt_carriers (lv_rt s)),
      crt_next := crt_next (lv_rt s) + 1\<rparr>" "g = crt_next (lv_rt s)" "\<not> crt_closing (lv_rt s)"
    by (auto simp: assign_carrier_group_def client_stopping_def Let_def split: if_splits)
  have "accepted_inv s'" unfolding Assigns(1) by (rule conns_moved [OF inv(1) Assigns(2)]) (simp_all add: rt)
  moreover have "flows_inv s'" unfolding Assigns(1)
    using fit_assign [of "holds_flow s" "holds_name s" "lv_rt s" c sid rt] inv(2) holds_at [OF Assigns(2)] by (simp add: flows_inv_def rt)
  moreover have "earned_inv client s'" using inv(3) by (rule earned_keeps [OF _ Assigns(2), where pc = "AwaitFlow dest sid g"]) (simp_all add: Assigns(1))
  moreover have "ending_ok s'" by (rule ending_fewer [OF inv(4)]) (use conn_not_over [OF assms(2) Assigns(2)] rt(3) in \<open>simp_all add: Assigns(1) rt(1)\<close>)
  moreover have "owners_inv s'"
    by (rule owners_keep [OF inv(5), where c = c and pc = "AwaitFlow dest sid g"]) (auto simp: Assigns(1) rt(1) session_ids_def split: if_splits)
  ultimately show ?thesis by (simp add: lives_inv_def)
next
  case (AssignFails c dest sid e rt)
  note inv = lives_invD [OF assms(2)]
  from AssignFails(3) have rt: "rt = lv_rt s" by (auto simp: assign_carrier_group_def Let_def split: if_splits)
  have "accepted_inv s'" unfolding AssignFails(1) by (rule conns_moved [OF inv(1) AssignFails(2)]) (simp_all add: rt)
  moreover have "flows_inv s'" unfolding AssignFails(1)
    using fit_drop_name [of "holds_flow s" "holds_name s" "lv_rt s" c] inv(2) holds_at [OF AssignFails(2)] by (simp add: flows_inv_def rt)
  moreover have "earned_inv client s'" using inv(3) by (rule earned_keeps [OF _ AssignFails(2), where pc = "RefuseConn e"]) (simp_all add: AssignFails(1))
  moreover have "ending_ok s'" by (rule ending_fewer [OF inv(4)]) (use conn_not_over [OF assms(2) AssignFails(2)] in \<open>simp_all add: AssignFails(1) rt fewer_def\<close>)
  moreover have "owners_inv s'" by (rule owners_keep [OF inv(5), where c = c and pc = "RefuseConn e"]) (auto simp: AssignFails(1) rt split: if_splits)
  ultimately show ?thesis by (simp add: lives_inv_def)
next
  case (Refuses c e ignored d)
  show ?thesis unfolding Refuses(1) by (rule conn_moved [OF assms(2) Refuses(2), where wire = "(lv_wire s)(c := d)" and gs = "lv_closed s"]) auto
next
  case (FlowOver c dest sid g)
  show ?thesis unfolding FlowOver(1) by (rule conn_moved [OF assms(2) FlowOver(2), where wire = "lv_wire s" and gs = "lv_closed s"]) auto
next
  case (ClosesGroup c dest sid g)
  show ?thesis unfolding ClosesGroup(1) by (rule conn_moved [OF assms(2) ClosesGroup(2), where wire = "lv_wire s" and gs = "insert g (lv_closed s)"]) auto
next
  case (Forgets c dest sid g)
  note inv = lives_invD [OF assms(2)]
  have "accepted_inv s'" unfolding Forgets(1) by (rule conns_moved [OF inv(1) Forgets(2)]) (simp_all add: release_carrier_group_def)
  moreover have "flows_inv s'" unfolding Forgets(1)
    using fit_release [of "holds_flow s" "holds_name s" "lv_rt s" c sid g "release_carrier_group sid g (lv_rt s)"] inv(2) holds_at [OF Forgets(2)]
    by (simp add: flows_inv_def release_carrier_group_def)
  moreover have "earned_inv client s'" using inv(3) by (rule earned_keeps [OF _ Forgets(2), where pc = "CloseConn"]) (simp_all add: Forgets(1))
  moreover have "ending_ok s'"
    by (rule ending_fewer [OF inv(4)])
      (use conn_not_over [OF assms(2) Forgets(2)] in \<open>auto simp: Forgets(1) release_carrier_group_def fewer_def AList.delete_conv' ran_def split: if_splits\<close>)
  moreover have "owners_inv s'"
  proof (rule owners_keep [OF inv(5), where c = c and pc = CloseConn])
    have "g \<in> lv_closed s" using inv(5) Forgets(2) by (auto simp: owners_inv_def)
    then show "set (crt_groups (lv_rt s)) \<subseteq> set (crt_groups (lv_rt s')) \<union> lv_closed s'" by (auto simp: Forgets(1) release_carrier_group_def)
  qed (auto simp: Forgets(1) release_carrier_group_def session_ids_def split: if_splits)
  ultimately show ?thesis by (simp add: lives_inv_def)
next
  case (Closes c)
  note inv = lives_invD [OF assms(2)]
  have at: "conn_at c' pc s' \<longleftrightarrow> c' \<noteq> c \<and> conn_at c' pc s" for c' pc by (auto simp: conn_at_def Closes(1) AList.delete_conv')
  have "holds_flow s' = (holds_flow s)(c := None)" "holds_name s' = (holds_name s)(c := None)"
    by (auto simp: holds_flow_def holds_name_def Closes(1) AList.delete_conv')
  moreover have fit: "flows_fit ((holds_flow s)(c := None)) ((holds_name s)(c := None)) (lv_rt s)"
    using inv(2) holds_at [OF Closes(2)] by (intro fit_drop_name) (simp_all add: flows_inv_def)
  have "flows_fit ((holds_flow s)(c := None)) ((holds_name s)(c := None)) (finish_accept c (lv_rt s))"
    by (rule fit_same [OF fit]) (simp_all add: finish_accept_def)
  ultimately have "flows_inv s'" unfolding flows_inv_def by (simp add: Closes(1))
  moreover have "accepted_inv s'" using inv(1)
    by (auto simp: accepted_inv_def Closes(1) finish_accept_def distinct_delete distinct_removeAll AList.delete_conv' split: if_splits)
  moreover have "earned_inv client s'" using inv(3) unfolding earned_inv_def at by (simp add: Closes(1)) blast
  moreover have "ending_ok s'" by (rule ending_fewer [OF inv(4)]) (use conn_not_over [OF assms(2) Closes(2)] in \<open>auto simp: Closes(1) finish_accept_def fewer_def\<close>)
  moreover have "owners_inv s'"
    by (rule owners_keep [OF inv(5), where c = c and pc = CloseConn]) (use at in \<open>auto simp: Closes(1) finish_accept_def session_ids_def\<close>)
  ultimately show ?thesis by (simp add: lives_inv_def)
qed



lemma end_shutdown_flows: "flow = (\<lambda>_. None) \<Longrightarrow> name = (\<lambda>_. None) \<Longrightarrow> flows_fit flow name (end_shutdown rt)"
  by (simp add: flows_fit_def end_shutdown_def)

lemma earned_same:
  assumes "earned_inv client s" "lv_conns s' = lv_conns s" "lv_wire s' = lv_wire s" "lv_first s' = lv_first s"
  shows "earned_inv client s'"
proof -
  have "conn_at c pc s' \<longleftrightarrow> conn_at c pc s" for c pc by (simp add: conn_at_def assms(2))
  then show ?thesis using assms(1) unfolding earned_inv_def assms(3,4) by simp
qed

lemma fields_inv:
  assumes "lives_inv client s" "lv_conns s' = lv_conns s" "lv_wire s' = lv_wire s" "lv_first s' = lv_first s" "same_lives (lv_rt s) (lv_rt s')" "ending_ok s'" "owners_inv s'"
  shows "lives_inv client s'"
proof -
  note inv = lives_invD [OF assms(1)] and same = assms(5) [unfolded same_lives_def]
  have h: "holds_flow s' = holds_flow s" "holds_name s' = holds_name s" by (auto simp: holds_flow_def holds_name_def assms(2))
  have "earned_inv client s'" using inv(3) assms(2-4) by (rule earned_same)
  moreover have "flows_inv s'" using inv(2) fit_same same unfolding flows_inv_def h by simp
  moreover have "accepted_inv s'" using inv(1) same unfolding accepted_inv_def assms(2) by (auto intro: order.strict_trans2)
  ultimately show ?thesis using assms(6,7) by (simp add: lives_inv_def)
qed

lemma owners_fields:
  assumes "owners_inv s" "lv_conns s' = lv_conns s" "lv_closed s \<subseteq> lv_closed s'" "lv_dead s \<subseteq> lv_dead s'"
    "set (crt_groups (lv_rt s)) \<subseteq> set (crt_groups (lv_rt s')) \<union> lv_closed s'"
    "session_ids (lv_rt s) \<union> set (lv_stale s) \<subseteq> session_ids (lv_rt s') \<union> set (lv_stale s') \<union> lv_dead s'"
    "set (lv_workers s') \<subseteq> set (lv_workers s) \<union> {owner. owner_known s owner}"
    "lv_stale s' = [] \<or> lv_ticking s' \<or> lv_stale s' = lv_stale s \<and> lv_ticking s' = lv_ticking s"
  shows "owners_inv s'"
proof (rule owners_keep [OF assms(1) _ _ assms(3-8), where pc = CloseConn])
  show "c' = 0 \<and> pc' = CloseConn \<or> conn_at c' pc' s" if "conn_at c' pc' s'" for c' pc' using that by (simp add: conn_at_def assms(2))
qed simp

lemma loop_step_inv:
  assumes "loop_step s s'" "lives_inv client s"
  shows "lives_inv client s'"
proof -
  note inv = lives_invD [OF assms(2)] and keep = fields_inv [OF assms(2)] and own = owners_fields [OF lives_invD(5) [OF assms(2)]]
  from assms(1) show ?thesis
  proof cases
    case (ShutdownBegins sessions accepted flows grs rt)
    have rt: "rt = (lv_rt s)\<lparr>crt_closing := True\<rparr>" "flows = map snd (crt_flows (lv_rt s))" "sessions = map (fst \<circ> snd) (crt_sessions (lv_rt s))"
      "accepted = crt_accepted (lv_rt s)" "grs = crt_groups (lv_rt s)" using ShutdownBegins(3) by (auto simp: begin_shutdown_def)
    have "ran (map_of (crt_flows (lv_rt s))) \<subseteq> set flows" by (force simp: rt(2) ran_def dest!: map_of_SomeD)
    then have "ending_ok s'" by (auto simp: ending_ok_def ShutdownBegins(1) covers_def session_ids_def rt(1,3-5))
    moreover have "accepted_inv s'" using inv(1) by (simp add: accepted_inv_def ShutdownBegins(1) rt)
    moreover have "flows_inv s'" using inv(2) by (simp add: flows_inv_def flows_fit_def holds_flow_def holds_name_def ShutdownBegins(1) rt)
    moreover have "earned_inv client s'" by (rule earned_same [OF inv(3)]) (simp_all add: ShutdownBegins(1))
    moreover have "owners_inv s'" by (rule own) (auto simp: ShutdownBegins(1) rt session_ids_def)
    ultimately show ?thesis by (simp add: lives_inv_def)
  next
    case (ShutdownCancels sessions accepted flows grs)
    have "ending_ok s'" using inv(4) ShutdownCancels(2) by (auto simp: ending_ok_def ShutdownCancels(1) covers_def session_ids_def)
    moreover have "accepted_inv s'" using inv(1) by (simp add: accepted_inv_def ShutdownCancels(1))
    moreover have "flows_inv s'" using inv(2) by (simp add: flows_inv_def flows_fit_def holds_flow_def holds_name_def ShutdownCancels(1))
    moreover have "earned_inv client s'" by (rule earned_same [OF inv(3)]) (simp_all add: ShutdownCancels(1))
    moreover have "owners_inv s'" by (rule own) (auto simp: ShutdownCancels(1) session_ids_def)
    ultimately show ?thesis by (simp add: lives_inv_def)
  next
    case ShutdownEnds
    have h: "holds_flow s' = (\<lambda>_. None)" "holds_name s' = (\<lambda>_. None)" using ShutdownEnds(3) by (auto simp: holds_flow_def holds_name_def ShutdownEnds(1))
    have stale: "lv_stale s = []" using inv(5) ShutdownEnds(7) by (simp add: owners_inv_def)
    have "flows_inv s'" unfolding flows_inv_def by (simp add: ShutdownEnds(1) end_shutdown_flows h [unfolded ShutdownEnds(1)])
    moreover have "accepted_inv s'" using ShutdownEnds(3) by (simp add: accepted_inv_def ShutdownEnds(1) end_shutdown_def)
    moreover have "earned_inv client s'" using ShutdownEnds(3) by (simp add: earned_inv_def conn_at_def ShutdownEnds(1))
    moreover have "ending_ok s'" using inv(4) ShutdownEnds stale by (simp add: ending_ok_def end_shutdown_def tables_empty_def)
    moreover have "owners_inv s'" using ShutdownEnds(3,4) stale by (simp add: owners_inv_def ShutdownEnds(1) conn_at_def)
    ultimately show ?thesis by (simp add: lives_inv_def)
  next
    case (StaleCloses i stale)
    have "ending_ok s'" using inv(4) StaleCloses(2) by (auto simp: ending_ok_def StaleCloses(1) covers_def split: client_loop.splits)
    moreover have "owners_inv s'" by (rule own) (use inv(5) StaleCloses(2) in \<open>auto simp: StaleCloses(1) owners_inv_def\<close>)
    ultimately show ?thesis by (intro keep) (simp_all add: StaleCloses(1))
  next
    case (WorkerReturns owner)
    have "ending_ok s'" using inv(4) by (auto simp: ending_ok_def WorkerReturns(1) covers_def split: client_loop.splits)
    moreover have "owners_inv s'" by (rule own) (auto simp: WorkerReturns(1) dest: notin_set_remove1 set_remove1_subset [THEN subsetD])
    ultimately show ?thesis by (intro keep) (simp_all add: WorkerReturns(1))
  qed (use inv(4) in \<open>intro keep own; auto simp: ending_ok_def covers_def split: client_loop.splits\<close>)+
qed

lemma ending_same:
  assumes "ending_ok s" "same_lives (lv_rt s) rt"
  shows "ending_ok (s\<lparr>lv_rt := rt\<rparr>)"
  using assms by (auto simp: ending_ok_def same_lives_def covers_def client_stopping_def session_ids_def split: client_loop.splits)

lemma accepts_inv:
  assumes "lives_inv client s" "lv_loop s = LoopAccepting" "start_accept_client m (lv_rt s) = (Some c, rt)"
  shows "lives_inv client (conn_to c ReadDestination (s\<lparr>lv_rt := rt, lv_wire := (lv_wire s)(c := d), lv_first := (lv_first s)(c := d)\<rparr>))"
    (is "lives_inv client ?s'")
proof -
  note inv = lives_invD [OF assms(1)]
  have rt: "rt = (lv_rt s)\<lparr>crt_accepted := c # crt_accepted (lv_rt s), crt_next := c + 1\<rparr>" "c = crt_next (lv_rt s)"
    using assms(3) by (auto simp: start_accept_client_def split: if_splits)
  have fresh: "c \<notin> dom (map_of (lv_conns s))" using inv(1) unfolding accepted_inv_def rt(2) by blast
  have "accepted_inv ?s'" using inv(1) fresh unfolding accepted_inv_def conn_to_def
    by (auto simp: rt(1) distinct_update AList.update_conv' rt(2) less_Suc_eq)
  moreover have "flows_inv ?s'"
  proof -
    have "holds_flow s c = None" "holds_name s c = None" using fresh by (auto simp: holds_flow_def holds_name_def domIff)
    then have "(holds_flow s)(c := None) = holds_flow s" "(holds_name s)(c := None) = holds_name s" by (simp_all add: fun_upd_idem)
    moreover have "flows_fit (holds_flow s) (holds_name s) rt" by (rule fit_same [OF inv(2) [unfolded flows_inv_def]]) (simp_all add: rt)
    ultimately show ?thesis by (simp add: flows_inv_def)
  qed
  moreover have "earned_inv client ?s'"
  proof -
    have "\<not> conn_at c pc s" for pc using fresh by (auto simp: conn_at_def)
    then show ?thesis using inv(3) by (auto simp: earned_inv_def)
  qed
  moreover have "ending_ok ?s'" using inv(4) assms(2) by (simp add: ending_ok_def rt(1))
  moreover have "owners_inv ?s'"
    by (rule owners_keep [OF inv(5), where c = c and pc = ReadDestination]) (auto simp: rt(1) session_ids_def split: if_splits)
  ultimately show ?thesis by (simp add: lives_inv_def)
qed

lemma env_inv:
  assumes "life_env client path_match s s'" "lives_inv client s"
  shows "lives_inv client s'"
proof -
  note keep = fields_inv [OF assms(2)] and ends = lives_invD(4) [OF assms(2)] and own = owners_fields [OF lives_invD(5) [OF assms(2)]]
  have same: "lives_inv client (s\<lparr>lv_rt := rt\<rparr>)" if "same_lives (lv_rt s) rt" "crt_sessions rt = crt_sessions (lv_rt s)" for rt
  proof (rule keep)
    show "owners_inv (s\<lparr>lv_rt := rt\<rparr>)" by (rule own) (use that in \<open>auto simp: same_lives_def session_ids_def\<close>)
  qed (simp_all add: ending_same [OF ends] that(1))
  from assms(1) show ?thesis
  proof cases
    case (Accepts c rt d)
    show ?thesis unfolding Accepts(1) using Accepts(2,3) by (rule accepts_inv [OF assms(2)])
  next
    case (AcceptRefused rt)
    then show ?thesis using assms(2) by (auto simp: start_accept_client_def split: if_splits)
  next
    case (WorkerStarts owner)
    have "ending_ok s'" using ends WorkerStarts(2)
      by (auto simp: ending_ok_def WorkerStarts(1) start_group_worker_def client_stopping_def covers_def split: client_loop.splits)
    moreover have "owners_inv s'" by (rule own) (use WorkerStarts(3) in \<open>auto simp: WorkerStarts(1)\<close>)
    ultimately show ?thesis by (intro keep) (simp_all add: WorkerStarts(1))
  next
    case (WorkerLeaves owner)
    have "ending_ok s'" using ends by (auto simp: ending_ok_def WorkerLeaves covers_def split: client_loop.splits)
    moreover have "owners_inv s'" by (rule own) (auto simp: WorkerLeaves dest: set_remove1_subset [THEN subsetD])
    ultimately show ?thesis by (intro keep) (simp_all add: WorkerLeaves)
  next
    case (Tick m interfaces r rt)
    note live = same_lives_ops(1) [OF Tick(4)]
    have "ending_ok (s\<lparr>lv_rt := rt\<rparr>)" by (rule ending_same [OF ends live])
    then have "ending_ok s'" using Tick(2) by (auto simp: ending_ok_def Tick(1) covers_def split: client_loop.splits)
    moreover have "owners_inv s'"
      by (rule own) (use refresh_sessions [OF Tick(4)] live Tick(2,3) in \<open>auto simp: Tick(1) same_lives_def\<close>)
    ultimately show ?thesis using live by (intro keep) (simp_all add: Tick(1))
  next
    case Cancelled
    have "ending_ok s'" using ends by (auto simp: ending_ok_def Cancelled covers_def session_ids_def tables_empty_def split: client_loop.splits)
    moreover have "accepted_inv s'" using assms(2) by (simp add: lives_inv_def accepted_inv_def Cancelled)
    moreover have "flows_inv s'" using assms(2) by (simp add: lives_inv_def flows_inv_def flows_fit_def holds_flow_def holds_name_def Cancelled)
    moreover have "earned_inv client s'" by (rule earned_same [OF lives_invD(3) [OF assms(2)]]) (simp_all add: Cancelled)
    moreover have "owners_inv s'" by (rule own) (auto simp: Cancelled session_ids_def)
    ultimately show ?thesis by (simp add: lives_inv_def)
  next
    case AcceptError
    have "ending_ok s'" using ends AcceptError(2) by (simp add: ending_ok_def AcceptError(1))
    moreover have "owners_inv s'" by (rule own) (simp_all add: AcceptError(1))
    ultimately show ?thesis by (intro keep) (simp_all add: AcceptError(1))
  next
    case (Hears c)
    have "ending_ok s'" using ends by (simp add: ending_ok_def Hears covers_def split: client_loop.splits)
    moreover have "owners_inv s'" by (rule own) (simp_all add: Hears)
    ultimately show ?thesis by (intro keep) (simp_all add: Hears)
  next
    case PageFails
    have "ending_ok s'" using ends by (simp add: ending_ok_def PageFails covers_def split: client_loop.splits)
    moreover have "owners_inv s'" by (rule own) (simp_all add: PageFails)
    ultimately show ?thesis by (intro keep) (simp_all add: PageFails)
  next
    case (FlowEnds g)
    have "ending_ok s'" using ends by (auto simp: ending_ok_def FlowEnds covers_def split: client_loop.splits)
    moreover have "owners_inv s'" by (rule own) (simp_all add: FlowEnds)
    ultimately show ?thesis by (intro keep) (simp_all add: FlowEnds)
  qed (simp_all add: same same_lives_ops other_sessions)
qed

lemma start_inv: "lives_inv client (client_life_start client d)"
  by (simp add: lives_inv_def accepted_inv_def flows_inv_def flows_fit_def earned_inv_def ending_ok_def owners_inv_def client_life_start_def new_client_runtime_def
      holds_flow_def holds_name_def conn_at_def)

lemma life_work_inv: "life_work client s s' \<Longrightarrow> lives_inv client s \<Longrightarrow> lives_inv client s'"
  by (auto simp: life_work_def intro: conn_step_inv loop_step_inv)

lemma life_reachable_inv: "life_reachable client path_match s \<Longrightarrow> lives_inv client s"
  by (induction rule: life_reachable.induct) (auto intro: start_inv life_work_inv env_inv)

section \<open>Every run is one of the runtime\<close>

lemma loop_step_runtime: "loop_step s s' \<Longrightarrow> lives_inv client s \<Longrightarrow> lv_rt s' = lv_rt s \<or> client_step client path_match (lv_rt s) (lv_rt s')"
proof (induction rule: loop_step.induct)
  case (ShutdownEnds s)
  have "crt_closing (lv_rt s)" "crt_accepted (lv_rt s) = []"
    using ShutdownEnds by (auto simp: lives_inv_def ending_ok_def accepted_inv_def)
  then show ?case by (auto intro: client_step.End)
qed (auto intro: client_step.intros)

lemma conn_step_runtime: "conn_step client s s' \<Longrightarrow> lv_rt s' = lv_rt s \<or> client_step client path_match (lv_rt s) (lv_rt s')"
  by (induction rule: conn_step.induct) (auto intro: client_step.intros)

lemma env_runtime: "life_env client path_match s s' \<Longrightarrow> lv_rt s' = lv_rt s \<or> client_step client path_match (lv_rt s) (lv_rt s')"
  by (induction rule: life_env.induct) (auto intro: client_step.intros)

lemma life_runtime: "life_reachable client path_match s \<Longrightarrow> client_reachable client path_match (lv_rt s)"
proof (induction rule: life_reachable.induct)
  case (1 d)
  show ?case by (simp add: client_life_start_def client_reachable.intros(1))
next
  case (2 s s')
  have "lv_rt s' = lv_rt s \<or> client_step client path_match (lv_rt s) (lv_rt s')"
    using 2(2) conn_step_runtime env_runtime loop_step_runtime [OF _ life_reachable_inv [OF 2(1)]] unfolding life_work_def by blast
  with 2(3) show ?case by (auto intro: client_reachable.intros(2))
qed

section \<open>The shutdown ends\<close>

fun goroutine_rank :: "client_pc \<Rightarrow> nat" where
  "goroutine_rank (ReadDestination) = 7"
| "goroutine_rank (DrawStreamID dest) = 6"
| "goroutine_rank (AssignGroup dest sid) = 5"
| "goroutine_rank (AwaitFlow dest sid g) = 4"
| "goroutine_rank (CloseFlowGroup dest sid g) = 3"
| "goroutine_rank (ForgetFlow dest sid g) = 2"
| "goroutine_rank (RefuseConn e) = 2"
| "goroutine_rank CloseConn = 1"

text \<open>The steps that are left: those of the loop with what it has to close, of each connection, and the returns of the other goroutines.\<close>

definition tables_rank :: "client_runtime \<Rightarrow> nat" where
  "tables_rank rt = length (crt_sessions rt) + length (crt_accepted rt) + length (crt_flows rt) + length (crt_groups rt)"

fun loop_rank :: "client_runtime \<Rightarrow> client_loop \<Rightarrow> nat" where
  "loop_rank rt LoopAccepting = 5 + tables_rank rt"
| "loop_rank rt LoopReturned = 4 + tables_rank rt"
| "loop_rank rt (LoopStopping sessions accepted flows grs) = 3 + length sessions + length accepted + length flows + length grs"
| "loop_rank rt (LoopClosing sessions accepted flows grs) = 2 + length sessions + length accepted + length flows + length grs"
| "loop_rank rt LoopWaiting = 1"
| "loop_rank rt LoopOver = 0"

definition conns_rank :: "(nat \<times> client_pc) list \<Rightarrow> nat" where
  "conns_rank conns = (\<Sum>x\<leftarrow>conns. goroutine_rank (snd x))"

definition life_rank :: "client_life \<Rightarrow> nat" where
  "life_rank s = loop_rank (lv_rt s) (lv_loop s) + conns_rank (lv_conns s) + length (lv_stale s) + length (lv_workers s) +
     of_bool (lv_on_cancel s) + of_bool (lv_page s) + of_bool (lv_ticking s)"

lemma loop_rank_mono: "tables_rank rt' \<le> tables_rank rt \<Longrightarrow> loop_rank rt' l \<le> loop_rank rt l"
  by (cases l) simp_all

lemma rank_update: "map_of conns c = Some old \<Longrightarrow> conns_rank (AList.update c pc conns) + goroutine_rank old = conns_rank conns + goroutine_rank pc"
  by (induction conns) (auto simp: conns_rank_def)

lemma conns_rank_delete_le: "conns_rank (AList.delete c conns) \<le> conns_rank conns"
  by (induction conns) (auto simp: conns_rank_def)

lemma rank_delete: "map_of conns c = Some old \<Longrightarrow> conns_rank (AList.delete c conns) + goroutine_rank old \<le> conns_rank conns"
proof (induction conns)
  case (Cons x conns)
  show ?case
  proof (cases "fst x = c")
    case True
    with Cons.prems conns_rank_delete_le [of c conns] show ?thesis by (auto simp: conns_rank_def)
  next
    case False
    with Cons show ?thesis by (auto simp: conns_rank_def)
  qed
qed simp

lemma conn_to_rank:
  assumes "conn_at c old s" "goroutine_rank pc < goroutine_rank old" "lv_conns s' = lv_conns s" "lv_loop s' = lv_loop s" "lv_stale s' = lv_stale s"
    "lv_workers s' = lv_workers s" "lv_on_cancel s' = lv_on_cancel s" "lv_page s' = lv_page s" "lv_ticking s' = lv_ticking s"
    "tables_rank (lv_rt s') \<le> tables_rank (lv_rt s)"
  shows "life_rank (conn_to c pc s') < life_rank s"
  using rank_update [OF assms(1) [unfolded conn_at_def], of pc] loop_rank_mono [OF assms(10), of "lv_loop s"] assms(2-9)
  by (simp add: life_rank_def conn_to_def)

lemma length_filter_key_le: "length (AList.delete k al) \<le> length al"
  by (simp add: AList.delete_eq)

lemma tables_rank_ops: "tables_rank (finish_accept c rt) \<le> tables_rank rt" "tables_rank (release_carrier_group sid g rt) \<le> tables_rank rt"
  by (auto simp: tables_rank_def finish_accept_def release_carrier_group_def intro!: add_mono length_removeAll_less_eq length_filter_key_le)

lemma assign_stopping: "assign_carrier_group m sid rt = (r, rt') \<Longrightarrow> client_stopping rt \<Longrightarrow> r = Inl ErrNetClosed \<and> rt' = rt"
  by (simp add: assign_carrier_group_def)

lemma conn_step_rank: "conn_step client s s' \<Longrightarrow> client_stopping (lv_rt s) \<Longrightarrow> life_rank s' < life_rank s"
proof (induction rule: conn_step.induct)
  case (Closes c s)
  have "loop_rank (finish_accept c (lv_rt s)) (lv_loop s) \<le> loop_rank (lv_rt s) (lv_loop s)" by (rule loop_rank_mono [OF tables_rank_ops(1)])
  with rank_delete [of "lv_conns s" c CloseConn] Closes show ?case by (simp add: conn_at_def life_rank_def)
next
  case (Assigns c dest sid s g paths rt)
  then show ?case using assign_stopping by blast
next
  case (AssignFails c dest sid s e rt)
  then show ?case using assign_stopping [OF AssignFails(2)] by (intro conn_to_rank [OF AssignFails(1)]) simp_all
qed (erule conn_to_rank; simp add: tables_rank_ops)+

lemma begin_shutdown_rank: "begin_shutdown rt = ((sessions, accepted, flows, grs), rt') \<Longrightarrow>
    length sessions + length accepted + length flows + length grs = tables_rank rt"
  by (auto simp: begin_shutdown_def tables_rank_def)

lemma loop_step_rank: "loop_step s s' \<Longrightarrow> life_rank s' < life_rank s"
proof (induction rule: loop_step.induct)
  case (ShutdownBegins s sessions accepted flows grs rt)
  with begin_shutdown_rank [OF ShutdownBegins(2)] show ?case by (simp add: life_rank_def)
next
  case (WorkerReturns owner s)
  then show ?case using length_pos_if_in_set [of owner "lv_workers s"] by (simp add: life_rank_def length_remove1)
qed (simp_all add: life_rank_def)

lemma life_work_rank: "life_work client s s' \<Longrightarrow> client_stopping (lv_rt s) \<Longrightarrow> life_rank s' < life_rank s"
  by (auto simp: life_work_def intro: conn_step_rank loop_step_rank)

text \<open>A goroutine that waits for its flow finds it ended once the shutdown has closed the flows.\<close>

lemma conn_can_move:
  assumes "lives_inv client s" "conn_at c pc s" "lv_loop s = LoopWaiting"
  shows "\<exists>s'. conn_step client s s'"
proof (cases pc)
  case ReadDestination
  have "c \<in> set (crt_accepted (lv_rt s))" using lives_invD(1) [OF assms(1)] assms(2) by (auto simp: accepted_inv_def conn_at_def)
  then have "c \<in> lv_shut s" using lives_invD(4) [OF assms(1)] assms(3) by (auto simp: ending_ok_def covers_def)
  with assms(2) ReadDestination show ?thesis by (auto intro: conn_step.ReadCut)
next
  case (DrawStreamID dest)
  with assms(2) show ?thesis by (auto intro: conn_step.DrawFails)
next
  case (AssignGroup dest sid)
  obtain r rt where "assign_carrier_group (tt_max_streams (client_tcp client)) sid (lv_rt s) = (r, rt)" by fastforce
  with assms(2) AssignGroup show ?thesis by (cases r) (auto intro: conn_step.intros)
next
  case (RefuseConn e)
  obtain r d where "write_refusal client e (lv_wire s c) = (r, d)" by fastforce
  with assms(2) RefuseConn show ?thesis by (auto intro: conn_step.Refuses)
next
  case (AwaitFlow dest sid g)
  have "map_of (crt_flows (lv_rt s)) sid = Some g"
    using flows_fitD(1) [OF lives_invD(2) [OF assms(1), unfolded flows_inv_def]] holds_at [OF assms(2)] AwaitFlow by auto
  moreover have "ran (map_of (crt_flows (lv_rt s))) \<subseteq> lv_ended s" using lives_invD(4) [OF assms(1)] assms(3) by (simp add: ending_ok_def covers_def)
  ultimately have "g \<in> lv_ended s" by (auto simp: ran_def)
  with assms(2) AwaitFlow show ?thesis by (auto intro: conn_step.FlowOver)
qed (use assms(2) in \<open>auto intro: conn_step.intros\<close>)

text \<open>Once the shutdown has closed what it found, every goroutine of \<^verbatim>\<open>groupWG\<close> has lost its owner.\<close>

lemma worker_can_return:
  assumes "lives_inv client s" "lv_loop s = LoopWaiting" "lv_stale s = []" "owner \<in> set (lv_workers s)"
  shows "owner_gone s owner"
proof -
  have "owner_known s owner" using lives_invD(5) [OF assms(1)] assms(4) by (simp add: owners_inv_def)
  moreover have "covers s [] [] [] []" using lives_invD(4) [OF assms(1)] assms(2) by (simp add: ending_ok_def)
  ultimately show ?thesis using assms(3) by (cases owner) (auto simp: covers_def)
qed

lemma life_can_move:
  assumes "lives_inv client s" "client_stopping (lv_rt s)" "lv_loop s \<noteq> LoopOver"
  shows "\<exists>s'. life_work client s s'"
proof (cases "lv_loop s")
  case LoopAccepting
  with assms(2) lives_invD(4) [OF assms(1)] have "crt_cancelled (lv_rt s)" by (simp add: ending_ok_def client_stopping_def)
  with LoopAccepting show ?thesis by (cases "lv_on_cancel s") (auto simp: life_work_def intro: loop_step.AcceptFails loop_step.ListenerCloses)
next
  case LoopReturned
  obtain sessions accepted flows grs rt where "begin_shutdown (lv_rt s) = ((sessions, accepted, flows, grs), rt)" by (cases "begin_shutdown (lv_rt s)") auto
  with LoopReturned show ?thesis by (auto simp: life_work_def intro: loop_step.ShutdownBegins)
next
  case (LoopStopping sessions accepted flows grs)
  then show ?thesis by (auto simp: life_work_def intro: loop_step.ShutdownCancels)
next
  case (LoopClosing sessions accepted flows grs)
  then show ?thesis unfolding life_work_def
    by (cases sessions; cases accepted; cases flows; cases grs)
      (auto intro: loop_step.ClosesSession loop_step.ClosesAccepted loop_step.ClosesFlow loop_step.ClosesAGroup loop_step.ShutdownWaits)
next
  case LoopWaiting
  have cancelled: "crt_cancelled (lv_rt s)" using lives_invD(4) [OF assms(1)] LoopWaiting by (simp add: ending_ok_def)
  consider "lv_conns s \<noteq> []" | i stale where "lv_stale s = i # stale" | owner where "lv_stale s = []" "owner \<in> set (lv_workers s)" |
    "lv_on_cancel s" | "lv_page s" | "lv_stale s = []" "lv_ticking s" |
    "lv_conns s = []" "lv_workers s = []" "\<not> lv_on_cancel s" "\<not> lv_page s" "\<not> lv_ticking s"
    by (cases "lv_stale s"; cases "lv_workers s") auto
  then show ?thesis
  proof cases
    case 1
    then obtain c pc xs where "lv_conns s = (c, pc) # xs" by (cases "lv_conns s") auto
    then have "conn_at c pc s" by (simp add: conn_at_def)
    from conn_can_move [OF assms(1) this LoopWaiting] show ?thesis by (auto simp: life_work_def)
  next
    case (3 owner)
    from loop_step.WorkerReturns [OF 3(2) cancelled worker_can_return [OF assms(1) LoopWaiting 3]] show ?thesis by (auto simp: life_work_def)
  qed (use LoopWaiting cancelled in \<open>auto simp: life_work_def intro: loop_step.intros\<close>)
qed (use assms(3) in simp)

text \<open>Once the client is stopping it stays so, and nothing from outside adds to what is left to do.\<close>

lemma conn_keeps_stopping: "conn_step client s s' \<Longrightarrow> client_stopping (lv_rt s) \<Longrightarrow> client_stopping (lv_rt s')"
  by (induction rule: conn_step.induct)
    (auto simp: release_carrier_group_def finish_accept_def assign_carrier_group_def client_stopping_def Let_def split: if_splits)

lemma loop_keeps_stopping: "loop_step s s' \<Longrightarrow> client_stopping (lv_rt s) \<Longrightarrow> client_stopping (lv_rt s')"
  by (induction rule: loop_step.induct) (auto simp: client_stopping_def begin_shutdown_def end_shutdown_def)

lemma same_lives_stopping:
  assumes "same_lives (lv_rt s) rt" "client_stopping (lv_rt s)"
  shows "client_stopping rt \<and> life_rank (s\<lparr>lv_rt := rt\<rparr>) \<le> life_rank s"
proof -
  have "tables_rank rt = tables_rank (lv_rt s)" using assms by (simp add: same_lives_def tables_rank_def)
  then have "loop_rank rt (lv_loop s) \<le> loop_rank (lv_rt s) (lv_loop s)" by (simp add: loop_rank_mono)
  then show ?thesis using assms by (simp add: same_lives_def client_stopping_def life_rank_def)
qed

lemma env_stopping: "life_env client path_match s s' \<Longrightarrow> client_stopping (lv_rt s) \<Longrightarrow> client_stopping (lv_rt s') \<and> life_rank s' \<le> life_rank s"
proof (induction rule: life_env.induct)
  case (Accepts s c rt d)
  then show ?case by (simp add: start_accept_client_def)
next
  case (AcceptRefused s rt)
  then show ?case by (simp add: start_accept_client_def life_rank_def)
next
  case (Cancelled s)
  have "loop_rank ((lv_rt s)\<lparr>crt_cancelled := True\<rparr>) (lv_loop s) \<le> loop_rank (lv_rt s) (lv_loop s)" by (rule loop_rank_mono) (simp add: tables_rank_def)
  then show ?case by (simp add: client_stopping_def life_rank_def)
next
  case (WorkerStarts s owner)
  then show ?case by (simp add: start_group_worker_def)
next
  case (WorkerLeaves s owner)
  then show ?case by (simp add: life_rank_def length_remove1)
next
  case (Tick s m interfaces r rt)
  then show ?case using refresh_stopping [OF Tick(3)] by (simp add: life_rank_def)
next
  case (Counter name path s t rt)
  then show ?case using same_lives_stopping [OF same_lives_ops(2)] by simp
next
  case (ReadTime name path s t rt)
  then show ?case using same_lives_stopping [OF same_lives_ops(3)] by simp
next
  case (Recorded s sid name carrier)
  then show ?case using same_lives_stopping [OF same_lives_ops(4)] by simp
next
  case (Removed s sid name carrier)
  then show ?case using same_lives_stopping [OF same_lives_ops(5)] by simp
qed (auto simp: life_rank_def)

text \<open>A run in which the program takes \<open>n\<close> steps of its own.\<close>

inductive life_run :: "role_client \<Rightarrow> (string \<Rightarrow> string \<Rightarrow> bool option) \<Rightarrow> nat \<Rightarrow> client_life \<Rightarrow> client_life \<Rightarrow> bool" for client path_match where
  Nothing: "life_run client path_match 0 s s"
| Works: "life_run client path_match n s t \<Longrightarrow> life_work client t s' \<Longrightarrow> life_run client path_match (n + 1) s s'"
| Outside: "life_run client path_match n s t \<Longrightarrow> life_env client path_match t s' \<Longrightarrow> life_run client path_match n s s'"

lemma life_run_bound:
  assumes "life_run client path_match n s s'" "lives_inv client s" "client_stopping (lv_rt s)"
  shows "n + life_rank s' \<le> life_rank s \<and> lives_inv client s' \<and> client_stopping (lv_rt s')"
  using assms
proof induction
  case (Works n s t s')
  then have "client_stopping (lv_rt s')" unfolding life_work_def using conn_keeps_stopping loop_keeps_stopping by blast
  with Works life_work_rank [OF Works(2)] life_work_inv [OF Works(2)] show ?case by fastforce
next
  case (Outside n s t s')
  with env_stopping [OF Outside(2)] env_inv [OF Outside(2)] show ?case by fastforce
qed simp

section \<open>Properties\<close>

text \<open>The goroutine \<open>c\<close> serves the flow \<open>sid\<close> with the group \<open>g\<close>, which it asked for \<open>dest\<close>.\<close>

definition serves_flow :: "client_life \<Rightarrow> nat \<Rightarrow> destination \<Rightarrow> stream_id \<Rightarrow> nat \<Rightarrow> bool" where
  "serves_flow s c dest sid g \<longleftrightarrow> conn_at c (AwaitFlow dest sid g) s \<or> conn_at c (CloseFlowGroup dest sid g) s \<or> conn_at c (ForgetFlow dest sid g) s"

lemma serves_flow_holds: "(\<exists>dest. serves_flow s c dest sid g) \<longleftrightarrow> holds_flow s c = Some (sid, g)"
proof (cases "map_of (lv_conns s) c")
  case (Some pc)
  then show ?thesis by (cases pc) (auto simp: serves_flow_def holds_flow_def conn_at_def)
qed (simp add: serves_flow_def holds_flow_def conn_at_def)

lemma serves_flow_at: "serves_flow s c dest sid g \<Longrightarrow> \<exists>pc. conn_at c pc s \<and> dest_of pc = Some dest \<and> flow_of pc = Some (sid, g)"
  by (auto simp: serves_flow_def)

text \<open>
  C19. The tables of a client tell the truth about its goroutines in every run: a flow and its group are
  registered exactly while the goroutine of one accepted connection serves them, no two goroutines share a
  flow or a group, the accepted connections are the running goroutines, and their number is within
  \<open>maxStreams\<close>.
\<close>

theorem client_flows_owned:
  assumes "life_reachable client path_match s"
  shows "(map_of (crt_flows (lv_rt s)) sid = Some g \<longleftrightarrow> (\<exists>c dest. serves_flow s c dest sid g)) \<and>
    (g \<in> set (crt_groups (lv_rt s)) \<longleftrightarrow> (\<exists>c dest sid. serves_flow s c dest sid g)) \<and>
    (serves_flow s c dest sid g \<and> serves_flow s c' dest' sid' g' \<and> (sid = sid' \<or> g = g') \<longrightarrow> c = c') \<and>
    set (crt_accepted (lv_rt s)) = fst ` set (lv_conns s) \<and>
    (tt_max_streams (client_tcp client) > 0 \<longrightarrow> int (length (lv_conns s)) \<le> tt_max_streams (client_tcp client))"
proof -
  note inv = life_reachable_inv [OF assms]
  note fit = flows_fitD [OF lives_invD(2) [OF inv, unfolded flows_inv_def]] and conns = lives_invD(1) [OF inv, unfolded accepted_inv_def]
  have flows: "map_of (crt_flows (lv_rt s)) sid = Some g \<longleftrightarrow> (\<exists>c dest. serves_flow s c dest sid g)"
    unfolding serves_flow_holds by (rule fit(1))
  have grs: "g \<in> set (crt_groups (lv_rt s)) \<longleftrightarrow> (\<exists>c dest sid. serves_flow s c dest sid g)"
    using fit(2) serves_flow_holds by metis
  have one: "c = c'" if "serves_flow s c dest sid g" "serves_flow s c' dest' sid' g'" "sid = sid' \<or> g = g'"
    using that fit(3) [of c sid c'] fit(4) [of c sid g c' sid'] fit(6) serves_flow_holds [of s c sid g] serves_flow_holds [of s c' sid' g'] by metis
  have same: "set (crt_accepted (lv_rt s)) = fst ` set (lv_conns s)" using conns by (simp add: dom_map_of_conv_image_fst)
  have "length (crt_accepted (lv_rt s)) = length (lv_conns s)"
    using conns same distinct_card [of "crt_accepted (lv_rt s)"] distinct_card [of "map fst (lv_conns s)"] by simp
  then have "tt_max_streams (client_tcp client) > 0 \<longrightarrow> int (length (lv_conns s)) \<le> tt_max_streams (client_tcp client)"
    using reachable_client_inv [OF life_runtime [OF assms]] by (simp add: client_inv_def limits_ok_def)
  with flows grs one same show ?thesis by blast
qed

text \<open>
  C18. Nobody uses the relay without the password. When the configuration has \<open>socks5Auth\<close>, every flow of a
  client, in every run, was asked for on a connection whose first bytes were a greeting that offers
  the password method, a user name and a password with the digests of the configured ones, and a
  CONNECT request that decodes to exactly the destination the flow is opened for.
\<close>

theorem client_flows_authenticated:
  assumes "life_reachable client path_match s" "map_of (crt_flows (lv_rt s)) sid = Some g" "cl_socks5_auth (rc_cfg client) = Some auth"
  shows "\<exists>c dest methods username password payload rest. serves_flow s c dest sid g \<and>
    rd_bytes (dx_in (lv_first s c)) = [version5, word_of_nat (length methods)] @ methods @ password_message username password @
      [version5, commandConnect, 0] @ payload @ rest \<and>
    methodUsernamePassword \<in> set methods \<and> decode_destination payload = Inr dest \<and>
    sha256 username = sha256 (bytes_of_string (cc_username auth)) \<and> sha256 password = sha256 (bytes_of_string (cc_password auth))"
proof -
  note inv = life_reachable_inv [OF assms(1)]
  obtain c where "holds_flow s c = Some (sid, g)"
    using flows_fitD(1) [OF lives_invD(2) [OF inv, unfolded flows_inv_def]] assms(2) by blast
  then obtain dest where serves: "serves_flow s c dest sid g" using serves_flow_holds by blast
  from serves_flow_at [OF this] obtain pc where pc: "conn_at c pc s" "dest_of pc = Some dest" by blast
  note lives_invD(3) [OF inv, unfolded earned_inv_def, THEN conjunct2, rule_format, OF conjI, OF pc]
  then obtain d where "read_destination client (lv_first s c) = (Inr dest, d)" by blast
  from socks_success [OF this [unfolded read_destination_def]] assms(3) serves
  show ?thesis by (simp add: credentials_of_def) blast
qed

text \<open>
  C20. The shutdown of a client ends. Once its context is cancelled or the shutdown has begun, the loop and
  the goroutines take at most \<open>life_rank\<close> further steps of their own, whatever comes from outside in
  between, and as long as the client is not over one of them can take a step: no goroutine waits for
  ever for its flow, its peer, its path session, its group or another goroutine, because everything
  that was registered when the shutdown began is closed by it, and everything that was not by the
  refresh that took it away. When it is over, every connection is finished, every goroutine has
  returned and all eight tables of the runtime are empty, and they stay so.
\<close>

theorem client_shutdown_completes:
  assumes "life_reachable client path_match s" "client_stopping (lv_rt s)" "life_run client path_match n s s'"
  shows "n + life_rank s' \<le> life_rank s \<and>
    ((\<exists>s''. life_work client s' s'') \<or>
     lv_loop s' = LoopOver \<and> lv_conns s' = [] \<and> lv_workers s' = [] \<and> lv_stale s' = [] \<and> \<not> lv_on_cancel s' \<and> \<not> lv_page s' \<and> \<not> lv_ticking s' \<and>
     crt_flows (lv_rt s') = [] \<and> crt_paths (lv_rt s') = [] \<and> crt_carriers (lv_rt s') = [] \<and> crt_traffic (lv_rt s') = [] \<and>
     crt_last_received (lv_rt s') = [] \<and> crt_sessions (lv_rt s') = [] \<and> crt_groups (lv_rt s') = [] \<and> crt_accepted (lv_rt s') = [])"
proof -
  note run = life_run_bound [OF assms(3) life_reachable_inv [OF assms(1)] assms(2)]
  show ?thesis
  proof (cases "lv_loop s' = LoopOver")
    case True
    with run show ?thesis by (simp add: lives_inv_def ending_ok_def tables_empty_def)
  next
    case False
    with run life_can_move [of client s'] show ?thesis by blast
  qed
qed

section \<open>A run with a password\<close>

definition guarded_client :: role_client where
  "guarded_client = new_client ((cf_client empty_config)\<lparr>cl_dst_addr := ''192.0.2.1:59501'', cl_socks5_auth := Some \<lparr>cc_username = ''u'', cc_password = ''pq''\<rparr>,
     cl_transfer := empty_transfer\<lparr>tr_tcp := (tr_tcp empty_transfer)\<lparr>tt_max_streams := 8\<rparr>\<rparr>\<rparr>) ''1''"

lemma guarded_client_fields:
  "tt_max_streams (client_tcp guarded_client) = 8" "cl_socks5_auth (rc_cfg guarded_client) = Some \<lparr>cc_username = ''u'', cc_password = ''pq''\<rparr>"
  "credentials_of \<lparr>cc_username = ''u'', cc_password = ''pq''\<rparr> = sample_credentials"
  by code_simp+

abbreviation wanted_dest :: destination where
  "wanted_dest \<equiv> \<lparr>type_code = DestinationDomain, d_host = ''ab.c'', d_port = 80\<rparr>"

abbreviation sample_request :: duplex where
  "sample_request \<equiv> duplex_of [5, 1, 2, 1, 1, 117, 2, 112, 113, 5, 1, 0, 3, 4, 97, 98, 46, 99, 0, 80] [] []"

abbreviation sample_stream :: stream_id where
  "sample_stream \<equiv> replicate 16 (7 :: byte)"

lemma sample_authenticated: "read_destination guarded_client sample_request = (Inr wanted_dest, duplex_of [] [] [5, 2, 1, 0])"
  using read_request_of [OF sample_payload, of "[]" "[]" "[5, 2, 1, 0]"] receive_at(1) [of "[2]" "Suc 0"]
    authenticate_of [of sample_credentials "[5, 1, 0, 3, 4, 97, 98, 46, 99, 0, 80]" "[]" "[5, 2]"]
  by (simp add: read_destination_def guarded_client_fields read_connect_with_auth_def socks_constants send_of valid_credentials_def)

definition sample_life :: "client_runtime \<Rightarrow> client_pc \<Rightarrow> duplex \<Rightarrow> client_life" where
  "sample_life rt pc d = \<lparr>lv_rt = rt, lv_loop = LoopAccepting, lv_conns = [(0, pc)], lv_wire = (\<lambda>_. sample_request)(0 := d),
     lv_first = (\<lambda>_. sample_request)(0 := sample_request), lv_heard = {0},
     lv_shut = {}, lv_ended = {}, lv_closed = {}, lv_dead = {}, lv_stale = [], lv_workers = [], lv_on_cancel = True, lv_page = False, lv_ticking = True\<rparr>"

definition sample_one :: client_runtime where
  "sample_one = new_client_runtime\<lparr>crt_accepted := [0], crt_next := 1\<rparr>"

definition sample_serving_rt :: client_runtime where
  "sample_serving_rt = sample_one\<lparr>crt_groups := [1], crt_flows := [(sample_stream, 1)], crt_carriers := [(sample_stream, [])], crt_next := 2\<rparr>"

abbreviation life_of :: "client_life \<Rightarrow> bool" where
  "life_of \<equiv> life_reachable guarded_client no_match"

lemmas sample_life_defs = sample_life_def sample_one_def sample_serving_rt_def new_client_runtime_def conn_to_def conn_at_def

lemma life_goes_on: "life_of s \<Longrightarrow> conn_step guarded_client s s' \<Longrightarrow> s' = t \<Longrightarrow> life_of t"
  by (auto simp: life_work_def intro: life_reachable.intros(2))

lemma sample_accepted: "life_of (sample_life sample_one ReadDestination sample_request)"
proof -
  let ?s = "client_life_start guarded_client sample_request"
  have page: "wm_listen_addr (cl_web_manager (rc_cfg guarded_client)) = []" by code_simp
  have "start_accept_client (tt_max_streams (client_tcp guarded_client)) (lv_rt ?s) = (Some 0, sample_one)"
    by (simp add: start_accept_client_def guarded_client_fields client_life_start_def client_stopping_def sample_life_defs)
  from life_env.Accepts [of ?s, OF _ this, of no_match sample_request]
  have "life_env guarded_client no_match ?s ((sample_life sample_one ReadDestination sample_request)\<lparr>lv_heard := {}\<rparr>)"
    by (simp add: client_life_start_def sample_life_def conn_to_def page)
  then have "life_of ((sample_life sample_one ReadDestination sample_request)\<lparr>lv_heard := {}\<rparr>)" using life_reachable.intros by blast
  from life_reachable.intros(2) [OF this disjI2 [OF life_env.Hears [of _ _ _ 0]]] show ?thesis by (simp add: sample_life_def)
qed

lemma sample_life_serving: "life_of (sample_life sample_serving_rt (AwaitFlow wanted_dest sample_stream 1) (duplex_of [] [] [5, 2, 1, 0]))"
proof -
  let ?d = "duplex_of [] [] [5, 2, 1, 0]"
  have "life_of (sample_life sample_one (DrawStreamID wanted_dest) ?d)"
    by (rule life_goes_on [OF sample_accepted conn_step.Reads [where c = 0 and dest = wanted_dest and d = ?d]])
      (simp_all add: sample_life_defs sample_authenticated)
  then have "life_of (sample_life sample_one (AssignGroup wanted_dest sample_stream) ?d)"
    by (rule life_goes_on [OF _ conn_step.Draws [where c = 0 and sid = sample_stream]]) (simp_all add: sample_life_defs)
  then show ?thesis
    by (rule life_goes_on [OF _ conn_step.Assigns [where c = 0 and g = 1]])
      (simp_all add: sample_life_defs assign_carrier_group_def client_stopping_def guarded_client_fields)
qed

lemma client_flows_owned_witness: "\<exists>c dest. serves_flow (sample_life sample_serving_rt (AwaitFlow wanted_dest sample_stream 1) (duplex_of [] [] [5, 2, 1, 0])) c dest sample_stream 1"
  using client_flows_owned [OF sample_life_serving, of sample_stream 1] by (simp add: sample_life_defs)

lemma client_flows_authenticated_witness:
  "\<exists>methods username payload rest. [5, 1, 2, 1, 1, 117, 2, 112, 113, 5, 1, 0, 3, 4, 97, 98, 46, 99, 0, 80] =
     [version5, word_of_nat (length methods)] @ methods @ username @ [version5, commandConnect, 0] @ payload @ rest \<and>
     methodUsernamePassword \<in> set methods"
  using client_flows_authenticated [OF sample_life_serving, of sample_stream 1] guarded_client_fields(2)
  by (simp add: sample_life_def sample_serving_rt_def duplex_of_def) blast

lemma client_shutdown_completes_witness:
  "\<exists>s s'. life_of s \<and> crt_flows (lv_rt s) \<noteq> [] \<and> life_work guarded_client s s' \<and> \<not> lv_on_cancel s' \<and> life_rank s' + 1 \<le> life_rank s \<and>
     (\<exists>s''. life_work guarded_client s' s'')"
proof -
  let ?s = "sample_life sample_serving_rt (AwaitFlow wanted_dest sample_stream 1) (duplex_of [] [] [5, 2, 1, 0])"
  let ?c = "?s\<lparr>lv_rt := (lv_rt ?s)\<lparr>crt_cancelled := True\<rparr>\<rparr>"
  let ?t = "?c\<lparr>lv_on_cancel := False\<rparr>"
  have reach: "life_of ?c" using sample_life_serving life_env.Cancelled life_reachable.intros(2) by blast
  have work: "life_work guarded_client ?c ?t"
    unfolding life_work_def by (intro disjI2 loop_step.ListenerCloses) (simp_all add: sample_life_def)
  have stopping: "client_stopping (lv_rt ?c)" by (simp add: client_stopping_def)
  have "life_run guarded_client no_match (0 + 1) ?c ?t" by (rule life_run.Works [OF life_run.Nothing work])
  from client_shutdown_completes [OF reach stopping this]
  have "life_rank ?t + 1 \<le> life_rank ?c" "\<exists>s''. life_work guarded_client ?t s''" by (simp_all add: sample_life_def)
  moreover have "crt_flows (lv_rt ?c) \<noteq> []" "\<not> lv_on_cancel ?t" by (simp_all add: sample_life_def sample_serving_rt_def)
  ultimately show ?thesis using reach work by blast
qed

end
