(* ===== verification/Client_Status.thy ===== *)
theory Client_Status
  imports Client_Runtime
begin

text \<open>
  What the management page of a client shows (\<open>status\<close> in \<^verbatim>\<open>internal/clientrole/tcp.go\<close>,
  \<open>pathSessionStatus\<close> in \<^verbatim>\<open>tcp_group.go\<close>, \<open>Client.Status\<close>; the types in \<^verbatim>\<open>internal/control/types.go\<close>). The
  path sessions are asked first, under their own locks, then the runtime, then the counters are read.
\<close>

record web_interface =
  wi_name :: string
  wi_label :: string
  wi_status :: string
  wi_sender_address :: string
  wi_dst_address :: string
  wi_last :: "int option"
  wi_traffic :: traffic_stats

record client_status =
  cst_type :: string
  cst_version :: string
  cst_description :: string
  cst_listen_address :: string
  cst_frontend_auth_enabled :: bool
  cst_peer_auth_enabled :: bool
  cst_interfaces :: "web_interface list"
  cst_streams :: nat
  cst_carriers :: nat
  cst_sessions :: nat

text \<open>
  \<open>sessions\<close> is the state of each path session when it is asked and \<open>is_closed\<close> says which physical
  sessions are closed then.
\<close>

definition session_healthy :: "(nat \<Rightarrow> path_session) \<Rightarrow> (nat \<Rightarrow> bool) \<Rightarrow> (string \<times> client_path) list \<Rightarrow> string \<times> nat \<times> client_path \<Rightarrow> bool" where
  "session_healthy sessions is_closed paths =
     (\<lambda>(name, i, p). current_session is_closed (path_or_zero paths name = p) (sessions i) \<noteq> None)"

definition path_session_status :: "(nat \<Rightarrow> path_session) \<Rightarrow> (nat \<Rightarrow> bool) \<Rightarrow> client_runtime \<Rightarrow> (string \<times> bool) list \<times> nat" where
  "path_session_status sessions is_closed rt =
     (let active = map (\<lambda>x. (fst x, session_healthy sessions is_closed (crt_paths rt) x)) (crt_sessions rt)
      in (active, length (filter snd active)))"

text \<open>Reading a missing key of a Go map of booleans gives false.\<close>

definition shown_active :: "(string \<times> bool) list \<Rightarrow> string \<Rightarrow> bool" where
  "shown_active active name \<longleftrightarrow> map_of active name = Some True"

definition active_carriers :: "(stream_id \<times> (string \<times> nat) list) list \<Rightarrow> string \<Rightarrow> nat" where
  "active_carriers carriers name = sum_list (map (\<lambda>(sid, cs). length (filter (\<lambda>(n, c). n = name) cs)) carriers)"

definition shown_age :: "int \<Rightarrow> int option \<Rightarrow> int option" where
  "shown_age now received =
     (case received of None \<Rightarrow> None | Some t \<Rightarrow> if t > 0 then Some (if now - t < 0 then 0 else now - t) else None)"

definition web_interface_of ::
    "(string \<Rightarrow> string \<Rightarrow> bool option) \<Rightarrow> manager \<Rightarrow> int \<Rightarrow> (string \<times> bool) list \<Rightarrow> client_runtime \<Rightarrow> (nat \<Rightarrow> traffic) \<Rightarrow> (nat \<Rightarrow> int) \<Rightarrow>
     net_interface \<Rightarrow> web_interface" where
  "web_interface_of path_match m now active rt counts received i =
     (let name = ni_name i; excluded = is_excluded path_match m name
      in \<lparr>wi_name = name, wi_label = label m name,
          wi_status = (if excluded then ''excluded''
            else if shown_active active name \<or> active_carriers (crt_carriers rt) name > 0 then ''active'' else ''idle''),
          wi_sender_address = address_by_interface (ni_addrs i),
          wi_dst_address = (if excluded then '''' else interface_destination m name),
          wi_last = shown_age now (map_option received (map_of (crt_last_received rt) name)),
          wi_traffic = traffic_snapshot (map_option counts (map_of (crt_traffic rt) name))\<rparr>)"

text \<open>\<open>earlier\<close> is the runtime when the path sessions were listed, \<open>rt\<close> when the rest was.\<close>

definition client_status_page ::
    "role_client \<Rightarrow> (string \<Rightarrow> string \<Rightarrow> bool option) \<Rightarrow> manager \<Rightarrow> go_error + net_interface list \<Rightarrow> int \<Rightarrow> (nat \<Rightarrow> path_session) \<Rightarrow> (nat \<Rightarrow> bool) \<Rightarrow>
     client_runtime \<Rightarrow> client_runtime \<Rightarrow> (nat \<Rightarrow> traffic) \<Rightarrow> (nat \<Rightarrow> int) \<Rightarrow> go_error + client_status" where
  "client_status_page client path_match m interfaces now sessions is_closed earlier rt counts received =
     (case interfaces of
        Inl e \<Rightarrow> Inl e
      | Inr is \<Rightarrow>
          let (active, session_count) = path_session_status sessions is_closed earlier
          in Inr \<lparr>cst_type = ''client'', cst_version = rc_version client, cst_description = cl_description (rc_cfg client),
               cst_listen_address = cl_listen_addr (rc_cfg client), cst_frontend_auth_enabled = (cl_socks5_auth (rc_cfg client) \<noteq> None),
               cst_peer_auth_enabled = (cl_peer_auth (rc_cfg client) \<noteq> None),
               cst_interfaces = map (web_interface_of path_match m now active rt counts received) is,
               cst_streams = length (crt_flows rt), cst_carriers = sum_list (map (length \<circ> snd) (crt_carriers rt)),
               cst_sessions = session_count\<rparr>)"

text \<open>\<open>Client.Status\<close> before the client runs.\<close>

definition client_status_idle :: "role_client \<Rightarrow> client_status" where
  "client_status_idle client = \<lparr>cst_type = ''client'', cst_version = rc_version client, cst_description = cl_description (rc_cfg client),
     cst_listen_address = cl_listen_addr (rc_cfg client), cst_frontend_auth_enabled = (cl_socks5_auth (rc_cfg client) \<noteq> None),
     cst_peer_auth_enabled = (cl_peer_auth (rc_cfg client) \<noteq> None), cst_interfaces = [], cst_streams = 0, cst_carriers = 0, cst_sessions = 0\<rparr>"

section \<open>Lemmas\<close>

lemma active_carriers_pos:
  assumes "distinct (map fst carriers)"
  shows "active_carriers carriers name > 0 \<longleftrightarrow> (\<exists>sid cs c. map_of carriers sid = Some cs \<and> map_of cs name = Some c)"
proof -
  have "length (filter (\<lambda>(n, c). n = name) cs) > 0 \<longleftrightarrow> (\<exists>c. map_of cs name = Some c)" for cs :: "(string \<times> nat) list"
    by (induction cs) auto
  then have "active_carriers carriers name > 0 \<longleftrightarrow> (\<exists>(sid, cs) \<in> set carriers. \<exists>c. map_of cs name = Some c)"
    unfolding active_carriers_def by (induction carriers) auto
  with assms show ?thesis by auto
qed

lemma shown_active_iff:
  assumes "distinct (map fst (crt_sessions rt))"
  shows "shown_active (fst (path_session_status sessions is_closed rt)) name \<longleftrightarrow>
    (\<exists>i p. map_of (crt_sessions rt) name = Some (i, p) \<and> session_healthy sessions is_closed (crt_paths rt) (name, i, p))"
proof -
  have "map_of (map (\<lambda>x. (fst x, P x)) al) name = (case map_of al name of None \<Rightarrow> None | Some v \<Rightarrow> Some (P (name, v)))"
    for P :: "string \<times> nat \<times> client_path \<Rightarrow> bool" and al by (induction al) auto
  then show ?thesis by (auto simp: shown_active_def path_session_status_def Let_def split: option.splits)
qed

lemma healthy_count:
  assumes "distinct (map fst (crt_sessions rt))"
  shows "snd (path_session_status sessions is_closed rt) = card {name. shown_active (fst (path_session_status sessions is_closed rt)) name}"
proof -
  let ?P = "session_healthy sessions is_closed (crt_paths rt)"
  have "snd (path_session_status sessions is_closed rt) = length (filter ?P (crt_sessions rt))"
    by (simp add: path_session_status_def Let_def filter_map o_def)
  also have "\<dots> = card (fst ` set (filter ?P (crt_sessions rt)))"
    using distinct_card [OF distinct_map_filter [OF assms, of ?P]] by simp
  also have "fst ` set (filter ?P (crt_sessions rt)) = {name. shown_active (fst (path_session_status sessions is_closed rt)) name}"
    using assms by (force simp: shown_active_iff)
  finally show ?thesis .
qed

lemma sum_over_keys:
  assumes "distinct (map fst al)"
  shows "sum_list (map (length \<circ> snd) al) = (\<Sum>k \<in> fst ` set al. length (the (map_of al k)))"
  using assms
proof (induction al)
  case (Cons x al)
  have "fst x \<notin> fst ` set al" using Cons.prems by simp
  then have "(\<Sum>k \<in> fst ` set al. length (the (map_of (x # al) k))) = (\<Sum>k \<in> fst ` set al. length (the (map_of al k)))"
    by (intro sum.cong refl) (cases x, force)
  with Cons show ?case by (cases x) simp
qed simp

text \<open>
  The page of a client tells the truth: one line for each interface of the system, in its order; an
  interface is shown as excluded exactly when it is, as active exactly when its path session is up or a
  flow has a carrier over it, and else as idle; the numbers are those of the flows, of the carriers of
  all flows and of the interfaces whose session is up; no age is negative.
\<close>

theorem client_status_is_true:
  assumes "client_reachable client path_match earlier" "client_reachable client path_match rt"
    and "client_status_page client path_match m (Inr interfaces) now sessions is_closed earlier rt counts received = Inr st"
  shows "map wi_name (cst_interfaces st) = map ni_name interfaces \<and>
    (\<forall>w \<in> set (cst_interfaces st). (wi_status w = ''excluded'' \<longleftrightarrow> is_excluded path_match m (wi_name w)) \<and>
       (wi_status w = ''active'' \<longleftrightarrow> \<not> is_excluded path_match m (wi_name w) \<and>
          ((\<exists>i p. map_of (crt_sessions earlier) (wi_name w) = Some (i, p) \<and> map_of (crt_paths earlier) (wi_name w) = Some p \<and>
              current_session is_closed True (sessions i) \<noteq> None) \<or>
           (\<exists>sid cs c. map_of (crt_carriers rt) sid = Some cs \<and> map_of cs (wi_name w) = Some c))) \<and>
       wi_status w \<in> {''excluded'', ''active'', ''idle''} \<and> (\<forall>age. wi_last w = Some age \<longrightarrow> 0 \<le> age)) \<and>
    cst_streams st = card (dom (map_of (crt_flows rt))) \<and>
    cst_carriers st = (\<Sum>sid \<in> dom (map_of (crt_flows rt)). length (the (map_of (crt_carriers rt) sid))) \<and>
    cst_sessions st = card {name. \<exists>i p. map_of (crt_sessions earlier) name = Some (i, p) \<and> current_session is_closed True (sessions i) \<noteq> None}"
    (is "_ \<and> (\<forall>w \<in> _. ?Q w) \<and> _")
proof -
  have d: "distinct (map fst (crt_sessions earlier))" and paths: "map_option snd (map_of (crt_sessions earlier) name) = map_of (crt_paths earlier) name" for name
    using reachable_client_inv [OF assms(1)] by (simp_all add: client_inv_def paths_ok_def sessions_fine_def)
  have keys: "distinct (map fst (crt_carriers rt))" "distinct (map fst (crt_flows rt))" "fst ` set (crt_carriers rt) = fst ` set (crt_flows rt)"
    using reachable_client_inv [OF assms(2)] by (simp_all add: client_inv_def keys_ok_def)
  have here: "path_or_zero (crt_paths earlier) name = p" "map_of (crt_paths earlier) name = Some p" if "map_of (crt_sessions earlier) name = Some (i, p)" for name i p
  proof -
    show "map_of (crt_paths earlier) name = Some p" using paths [of name, symmetric] that by simp
    then show "path_or_zero (crt_paths earlier) name = p" by (simp add: path_or_zero_def)
  qed
  have active: "shown_active (fst (path_session_status sessions is_closed earlier)) name \<longleftrightarrow>
      (\<exists>i p. map_of (crt_sessions earlier) name = Some (i, p) \<and> current_session is_closed True (sessions i) \<noteq> None)" for name
    unfolding shown_active_iff [OF d] session_healthy_def prod.case
    by (cases "map_of (crt_sessions earlier) name") (use here(1) [of name] in fastforce)+
  let ?active = "fst (path_session_status sessions is_closed earlier)"
  have st: "cst_interfaces st = map (web_interface_of path_match m now ?active rt counts received) interfaces" "cst_streams st = length (crt_flows rt)"
    "cst_carriers st = sum_list (map (length \<circ> snd) (crt_carriers rt))" "cst_sessions st = snd (path_session_status sessions is_closed earlier)"
    using assms(3) by (auto simp: client_status_page_def case_prod_unfold Let_def)
  have one: "?Q w"
    if w: "w = web_interface_of path_match m now ?active rt counts received i" for w i
    unfolding w using here(2) by (auto simp: web_interface_of_def Let_def active active_carriers_pos [OF keys(1)] shown_age_def split: option.splits if_splits)
  have "cst_streams st = card (dom (map_of (crt_flows rt)))"
    using st(2) distinct_card [OF keys(2)] by (simp add: dom_map_of_conv_image_fst)
  moreover have "cst_carriers st = (\<Sum>sid \<in> dom (map_of (crt_flows rt)). length (the (map_of (crt_carriers rt) sid)))"
    using st(3) sum_over_keys [OF keys(1)] keys(3) by (simp add: dom_map_of_conv_image_fst)
  moreover have "cst_sessions st = card {name. \<exists>i p. map_of (crt_sessions earlier) name = Some (i, p) \<and> current_session is_closed True (sessions i) \<noteq> None}"
    using st(4) healthy_count [OF d] by (simp add: active)
  moreover have "map wi_name (cst_interfaces st) = map ni_name interfaces" by (simp add: st(1) web_interface_of_def Let_def)
  moreover have "\<forall>w \<in> set (cst_interfaces st). ?Q w"
  proof
    fix w
    assume "w \<in> set (cst_interfaces st)"
    then obtain i where "w = web_interface_of path_match m now ?active rt counts received i" by (auto simp: st(1))
    then show "?Q w" by (rule one)
  qed
  ultimately show ?thesis by blast
qed

lemma client_status_is_true_witness:
  "\<exists>st. client_status_page sample_client no_match (rc_paths sample_client) (Inr sample_interfaces) 100 (\<lambda>_. new_path_session) (\<lambda>_. False)
      sample_refreshed sample_busy (\<lambda>_. zero_traffic) (\<lambda>_. 0) = Inr st \<and> map wi_name (cst_interfaces st) = [''lo'', ''eth0''] \<and> cst_streams st = 1"
proof -
  obtain st where st: "client_status_page sample_client no_match (rc_paths sample_client) (Inr sample_interfaces) 100 (\<lambda>_. new_path_session) (\<lambda>_. False)
      sample_refreshed sample_busy (\<lambda>_. zero_traffic) (\<lambda>_. 0) = Inr st" by (simp add: client_status_page_def case_prod_unfold Let_def)
  from client_status_is_true [OF sample_refreshed_reachable sample_busy_reachable st] st show ?thesis
    by (simp add: sample_interfaces_def sample_busy_def)
qed

end
