(* ===== verification/Command.thy ===== *)
theory Command
  imports Path
begin

text \<open>
  The command (\<^verbatim>\<open>cmd/engarde/main.go\<close>): the arguments, the version line, the list of interfaces, and the
  role that a loaded configuration names. The file, YAML and \<^verbatim>\<open>path.Match\<close> are the parameters of \<open>load\<close>;
  the embedded page and the run of a role, with the signals that end it, are parameters here.
\<close>

datatype command_error = ConfigError config_error | AssetsError | RunError go_error

definition print_version :: "string \<Rightarrow> conn \<Rightarrow> conn" where
  "print_version version out =
     (if version \<noteq> '''' then snd (snd (conn_write out (bytes_of_string (''engarde ver. '' @ version @ crlf)))) else out)"

text \<open>A role that was started and the error it ended with, if any.\<close>

definition run_role ::
    "(client_config \<Rightarrow> go_error option) \<Rightarrow> (server_config \<Rightarrow> go_error option) \<Rightarrow> config \<Rightarrow> role \<Rightarrow>
     command_error option \<times> (client_config + server_config) option" where
  "run_role start_client start_server cfg r =
     (case r of
        RoleClient \<Rightarrow> (map_option RunError (start_client (cf_client cfg)), Some (Inl (cf_client cfg)))
      | RoleServer \<Rightarrow> (map_option RunError (start_server (cf_server cfg)), Some (Inr (cf_server cfg))))"

definition config_name :: "string list \<Rightarrow> string" where
  "config_name args = (case args of [] \<Rightarrow> ''engarde.yml'' | a # _ \<Rightarrow> a)"

definition run ::
    "string \<Rightarrow> (string \<Rightarrow> config_error + config \<times> role) \<Rightarrow> go_error + (string \<times> string list option) list \<Rightarrow> bool \<Rightarrow>
     (client_config \<Rightarrow> go_error option) \<Rightarrow> (server_config \<Rightarrow> go_error option) \<Rightarrow> string list \<Rightarrow> conn \<Rightarrow>
     command_error option \<times> conn \<times> (client_config + server_config) option" where
  "run version load_config interfaces web_fs start_client start_server args out =
     (let out = print_version version out
      in if config_name args = ''-v'' then (None, out, None)
         else if config_name args = ''list-interfaces''
         then (case list_interfaces interfaces out of (e, out') \<Rightarrow> (map_option RunError e, out', None))
         else case load_config (config_name args) of
           Inl e \<Rightarrow> (Some (ConfigError e), out, None)
         | Inr (cfg, r) \<Rightarrow>
             if \<not> web_fs then (Some AssetsError, out, None)
             else case run_role start_client start_server cfg r of (e, started) \<Rightarrow> (e, out, started))"

definition run_exit_code ::
    "string \<Rightarrow> (string \<Rightarrow> config_error + config \<times> role) \<Rightarrow> go_error + (string \<times> string list option) list \<Rightarrow> bool \<Rightarrow>
     (client_config \<Rightarrow> go_error option) \<Rightarrow> (server_config \<Rightarrow> go_error option) \<Rightarrow> string list \<Rightarrow> conn \<Rightarrow> nat" where
  "run_exit_code version load_config interfaces web_fs start_client start_server args out =
     (case fst (run version load_config interfaces web_fs start_client start_server args out) of Some e \<Rightarrow> 1 | None \<Rightarrow> 0)"

section \<open>What the command does\<close>

lemma loaded_is_valid:
  assumes "load pattern_ok read_file unmarshal name = Inr (cfg, r)"
  shows "validate pattern_ok r cfg = None"
  using assms by (auto simp: load_def Let_def split: option.splits sum.splits prod.splits)

text \<open>
  C38. A role is only started with a configuration that was read from the named file and passed the
  validation of that role, and only the role the configuration names is; the two words that are not
  files start nothing; and the exit code is 0 exactly when nothing failed.
\<close>

theorem command_starts_valid:
  assumes "run version (load pattern_ok read_file unmarshal) interfaces web_fs start_client start_server args out = (e, out', started)"
  shows "(\<forall>role_cfg. started = Some role_cfg \<longrightarrow>
       (\<exists>cfg r. load pattern_ok read_file unmarshal (config_name args) = Inr (cfg, r) \<and> validate pattern_ok r cfg = None \<and> web_fs \<and>
          role_cfg = (if r = RoleClient then Inl (cf_client cfg) else Inr (cf_server cfg)) \<and>
          e = map_option RunError (if r = RoleClient then start_client (cf_client cfg) else start_server (cf_server cfg)))) \<and>
    (config_name args = ''-v'' \<longrightarrow> e = None \<and> out' = print_version version out) \<and>
    (config_name args \<in> {''-v'', ''list-interfaces''} \<longrightarrow> started = None) \<and>
    (config_name args \<notin> {''-v'', ''list-interfaces''} \<and> started = None \<longrightarrow> e \<noteq> None) \<and>
    (run_exit_code version (load pattern_ok read_file unmarshal) interfaces web_fs start_client start_server args out = 0 \<longleftrightarrow> e = None)"
proof -
  let ?load = "load pattern_ok read_file unmarshal"
  have code: "run_exit_code version ?load interfaces web_fs start_client start_server args out = 0 \<longleftrightarrow> e = None"
    using assms by (auto simp: run_exit_code_def split: option.split)
  consider "config_name args = ''-v''" | "config_name args = ''list-interfaces''" | "config_name args \<notin> {''-v'', ''list-interfaces''}" by auto
  then show ?thesis
  proof cases
    case 3
    show ?thesis
    proof (cases "?load (config_name args)")
      case (Inr x)
      then obtain cfg r where x: "?load (config_name args) = Inr (cfg, r)" by (cases x) auto
      with assms 3 code loaded_is_valid [OF x] show ?thesis
        by (cases r) (auto simp: run_def run_role_def Let_def split: if_splits)
    qed (use assms 3 code in \<open>auto simp: run_def Let_def\<close>)
  qed (use assms code in \<open>auto simp: run_def Let_def split: prod.splits\<close>)
qed

lemma command_starts_valid_witness:
  "run_exit_code ''1.0'' (load (\<lambda>_. True) (\<lambda>_. None) (\<lambda>_. None)) (Inr []) True (\<lambda>_. None) (\<lambda>_. None) [] \<lparr>c_writes = [], c_deadlines = [], c_out = []\<rparr> \<noteq> 0"
proof -
  have "run ''1.0'' (load (\<lambda>_. True) (\<lambda>_. None) (\<lambda>_. None)) (Inr []) True (\<lambda>_. None) (\<lambda>_. None) [] \<lparr>c_writes = [], c_deadlines = [], c_out = []\<rparr> =
      (Some (ConfigError ReadFailed), print_version ''1.0'' \<lparr>c_writes = [], c_deadlines = [], c_out = []\<rparr>, None)"
    by (simp add: run_def config_name_def load_def Let_def)
  from command_starts_valid [OF this] show ?thesis by simp
qed

end
