(* ===== verification/Spec2Isabelle.thy ===== *)
theory Spec2Isabelle
  imports End_To_End Carrier_Reads Inbound Session_Close Limits Control_Run Stats Access Closed_Streams Traffic_Cache Server_Streams Server_Status Interface_Sessions Client_Lives Client_Status Command
begin

text \<open>
  A model of engarde, a relay for TCP connections that sends each of them over all network interfaces of the client at
  once. Paths are those of the repository, below \<^verbatim>\<open>src/\<close>; all names in
  \<^verbatim>\<open>typewriter\<close> are the program's.

  \<^bold>\<open>The program.\<close> The command (\<^verbatim>\<open>cmd/engarde/main.go\<close>) reads a configuration
  (\<^verbatim>\<open>internal/config\<close>) and runs one of two roles. A client
  (\<^verbatim>\<open>internal/clientrole\<close>) listens for SOCKS5 (\<^verbatim>\<open>internal/socks5\<close>). It
  keeps one authenticated physical connection per usable interface (\<^verbatim>\<open>internal/path\<close>),
  multiplexed by smux into streams, and opens for each SOCKS connection one stream per interface, a carrier. The
  carriers of one connection form a flow (\<^verbatim>\<open>internal/tcpstream\<close>): the sender remembers what it
  read from the application until the peer acknowledges it and writes every frame to every carrier; the receiver puts
  the frames of all carriers in order, drops duplicates, writes the bytes to its application and acknowledges them. A
  server (\<^verbatim>\<open>internal/serverrole\<close>) accepts the connections, checks the client's address and
  password, dials the destination once per flow and joins all carriers of the flow to it. Both roles show a management
  page (\<^verbatim>\<open>internal/control\<close>) with their counters (\<^verbatim>\<open>internal/stats\<close>).

  \<^bold>\<open>How programs are modelled.\<close> A struct is a record with a prefix for its fields, an enumeration a
  datatype, a fixed-width integer a word that wraps, a Go string a list of characters with one character for each
  byte. A failing call returns a sum with the error on the left (\<open>Prelude\<close> has all error values), a
  run-time panic is \<open>None\<close> where one is possible, as in slice expressions. Sequential code is a function
  on the state. Code that runs in goroutines is a step relation: one step is one critical section of the mutex that
  the code holds (or one atomic access, one message, one call of the outside), and every goroutine has a program
  counter in the state when it takes several. A reachable state is one after any interleaving of these steps, and the
  properties quantify over all of them. Pointers that the code compares are numbers.

  \<^bold>\<open>The theories, from the bottom to the top.\<close>
  \<^item> \<open>Prelude\<close> has the machine types, the errors, big-endian integers, slices, streams as sets of
    positioned bytes (\<open>cells\<close>), and the collections of hints. \<open>IO\<close> has
    \<^verbatim>\<open>io.Reader\<close>, \<^verbatim>\<open>io.Writer\<close>, \<^verbatim>\<open>net.Conn\<close>
    with its deadlines and \<^verbatim>\<open>deadlineWriter\<close>; its locale \<open>io_writer\<close> is the
    contract of a writer that may write short, interpreted for connections and endpoints.
  \<^item> \<open>Frame\<close> (\<^verbatim>\<open>frame.go\<close>): prefaces and frames, written and read. The locale
    \<open>wire_codec\<close> gives unambiguous streams of messages to any codec with a round trip; both codecs
    interpret it.
  \<^item> \<open>Netip\<close>, \<open>Netaddr\<close> and \<open>Sha256\<close> are what the program uses of Go's
    standard library on addresses and digests; \<open>Destination\<close> (\<^verbatim>\<open>destination.go\<close>)
    parses, prints, encodes and decodes destinations, \<open>Auth\<close> (\<^verbatim>\<open>auth.go\<close>) is the
    mutual authentication, \<open>Session\<close> (\<^verbatim>\<open>session.go\<close>) establishes sessions and
    opens destinations, \<open>Session_Close\<close> ends them, and \<open>Socks5\<close> (\<^verbatim>\<open>socks5.go\<close>) is the front end.
  \<^item> \<open>Reassembler\<close> (\<^verbatim>\<open>reassembler.go\<close>): the segments in order of their
    offsets, \<open>push\<close>, \<open>set_fin\<close> and the drain, with their invariant. \<open>Delivery\<close>
    states as the locale \<open>ordered_delivery\<close> what a flow needs of it, proves there that honest pieces in
    any order give the stream, and interprets it on the reassembler.
  \<^item> \<open>Carrier\<close> and \<open>Carrier_Reads\<close> (\<^verbatim>\<open>carrier.go\<close>) are the two
    halves of a carrier. The first has the bounded queue with its blocked callers, the acknowledgement slot (locale
    \<open>coalescing\<close>: a merge that keeps the later one) and the write loop; the second the read and process
    loops and the once-only shutdown.
  \<^item> \<open>Flow\<close> (\<^verbatim>\<open>stream.go\<close>) has every critical section of
    \<^verbatim>\<open>flow.mu\<close> as a function on the record of the flow: \<open>remember\<close>,
    \<open>acknowledge\<close> with its deferred form, the choice of the next frame of a carrier,
    \<open>attach\<close>, \<open>detach\<close>, the resets. \<open>Sender\<close> and \<open>Sender_Runs\<close>
    compose them with the endpoint reader (\<open>source_step\<close>, with the offset that \<^verbatim>\<open>readEndpoint\<close>
    counts and where it stands between two critical sections) and one sending goroutine per carrier. \<open>Receiver\<close> is the
    endpoint writer over a list of arriving frames, and \<open>Inbound\<close> the queue between process loops and
    that writer with all its races: counting, giving up, detaching and the end after the last carrier.
    \<open>End_To_End\<close> joins sender and receiver.
  \<^item> \<open>Config\<close> (\<^verbatim>\<open>config.go\<close>) has defaults and validation and
    \<open>Limits\<close> what both roles make of them. \<open>Path\<close> (\<^verbatim>\<open>path.go\<close>)
    chooses the interfaces, \<open>Stats\<close> counts, \<open>Control\<close>
    (\<^verbatim>\<open>control.go\<close>, \<^verbatim>\<open>nocache.go\<close>) serves the management page and
    \<open>Control_Run\<close> runs and stops its server.
  \<^item> The server: \<open>Access\<close> (allowed addresses), \<open>Closed_Streams\<close> (identifiers that may
    not come back), \<open>Traffic_Cache\<close> (counters per address), \<open>Open_Results\<close> (answers to an
    OPEN), \<open>Server_Streams\<close> (handlers, limits, dialling and the life of streams),
    \<open>Server_Conns\<close> (tokens, handshakes, sessions, around the steps of \<open>Server_Streams\<close>) and
    \<open>Server_Status\<close>.
  \<^item> The client: \<open>Path_Sessions\<close> (attempts and retries of one \<open>tcpPathSession\<close>),
    \<open>Carrier_Groups\<close> (the carriers of one SOCKS connection, with their slots, opening, watching and
    retrying, and the answer to the application; \<open>goroutine_step\<close> are the steps of the group's own
    goroutines, \<open>group_env\<close> what happens around them), \<open>Client_Runtime\<close> (the limit of
    connections, the refresh of interfaces and counters), \<open>Interface_Sessions\<close> (the path sessions that the
    refreshes make for an interface one after the other, those that were replaced included),
    \<open>Client_Lives\<close> (the goroutine of a SOCKS connection, the loop, and the shutdown, which closes path
    sessions, connections, flows and groups one by one and waits for every goroutine, around the critical sections of
    \<open>Client_Runtime\<close>), \<open>Client_Status\<close>; \<open>Command\<close> is \<^verbatim>\<open>main.go\<close>.
\<close>

text \<open>
  \<^bold>\<open>What the properties show.\<close> Their numbers, from \<open>C1\<close> on, stand before
  the theorems.
  \<^item> Redundancy is transparent: whatever subset of the written frames arrives, over whatever carriers, in whatever
    order and however often, the application gets a beginning of what was sent (\<open>end_to_end_prefix\<close>), and
    all of it when each frame arrived once (\<open>end_to_end_complete\<close>). One carrier loses, repeats and
    reorders nothing between the two flows (\<open>carrier_delivers\<close>). Nothing is forgotten before it was
    acknowledged, nothing acknowledged that was not delivered, and a carrier attached at any time sends whatever is
    missing. A flow that ends without an error is complete.
  \<^item> Shutdown is orderly: blocked callers are told once, the goroutines of a stopped carrier end, and a last
    carrier that its peer ended ends the flow only after what it brought was delivered.
  \<^item> The wire formats round-trip, the handshakes prove knowledge of the password, cannot be downgraded and leave
    no connection open, and a SOCKS client is told exactly what happened, once.
  \<^item> A server never exceeds its limits, dials once, joins only carriers of the same principal and destination, and
    admits only allowed addresses. A client follows the interfaces exactly, has one live path session for each, opens
    flows only for SOCKS clients that know the password and answers each of them, and its shutdown ends with empty tables.
  \<^item> Some runs of the model reach what looks unintended: \<open>replaced_carrier_unheard\<close>, and among the
    library theorems \<open>small_window_stalls\<close>, \<open>stale_look_strands\<close>,
    \<open>last_release_ignored\<close>, \<open>destination_trailing_dot\<close> and
    \<open>write_timeout_wraps\<close>.

  \<^bold>\<open>Loops and bounds.\<close> Loops over a list, a queue or a buffer are structural recursion or have a
  measure, so they return. The two loops that shrink a cache until it fits are \<open>partial_function\<close>s, for
  which not returning is the value \<open>None\<close>: \<open>traffic_history\<close> and
  \<open>closed_memory_bounded\<close> show that they return in every run. No definition uses fuel. A loop that waits
  for others is a step that is not enabled, and its progress is a theorem about reachable states
  (\<open>stopped_carrier_ends\<close>, \<open>client_gets_answer\<close>, \<open>client_shutdown_completes\<close>,
  \<open>session_close_returns\<close>, \<open>control_run_ends\<close>).
  Offsets, sizes and durations are words of 64 bits, and the theorems about them include the wrap-around or show that
  it cannot happen. Records of parameters (limits, credentials, the answers of the system) are arbitrary.

  \<^bold>\<open>Assumptions.\<close> Critical sections are atomic and channels behave as Go documents. smux, YAML,
  \<^verbatim>\<open>net/http\<close>, \<^verbatim>\<open>encoding/json\<close>,
  \<^verbatim>\<open>path.Match\<close>, random bytes and the system's list of interfaces are arguments of the
  definitions that use them. \<open>carrier_delivers\<close> takes the physical stream between the two ends to deliver
  a beginning of what was written to it. An endpoint gives fewer than $2^{64} - 1$ bytes to \<^verbatim>\<open>readEndpoint\<close>. In
  \<open>Client_Lives\<close> a goroutine of a group or of a path session returns once the runtime is cancelled and its owner
  is closed: each of its waits then ends or has a deadline.

  \<^bold>\<open>Not modelled.\<close>
  \<^item> \<^verbatim>\<open>internal/tcpbind\<close> sets socket options and dials;
    \<^verbatim>\<open>internal/assets\<close> and \<^verbatim>\<open>internal/version\<close> hold embedded files and
    a string.
  \<^item> Listening, \<^verbatim>\<open>http.Server\<close> itself, and the waiting of
    \<^verbatim>\<open>sync.WaitGroup\<close> in the shutdown of the server; logging; the codes of Windows errors in
    \<^verbatim>\<open>open_result_windows.go\<close>, which are a parameter.
  \<^item> Real time: a deadline or timer is a step that may happen at any moment once it is set, with the duration it
    was set to as data.
  \<^item> Memory reuse: pooled buffers are values, except in \<open>Frame\<close>, where what a buffer held before is
    an argument.
\<close>

end
